(* ===== verification/SubEtha_Prelude.thy ===== *)
theory SubEtha_Prelude
  imports Main "HOL-Library.Word"
begin

text \<open>
  Shared vocabulary of the development: the machine integer types of the Rust sources, the
  collections of simplification rules the component theories extend, and the generic facts on
  bits, words and lists that more than one component uses.

  Rust's fixed-width integers are words of that width, so that \<open>+\<close>, \<open>-\<close> and shifts wrap as
  the release build does; \<open>usize\<close> values that index or measure a buffer are natural numbers.
\<close>

unbundle bit_operations_syntax

type_synonym u8 = "8 word"
type_synonym u16 = "16 word"
type_synonym u32 = "32 word"
type_synonym u64 = "64 word"
type_synonym bytes = "u8 list"

text \<open>The standard library's test on a \<open>usize\<close>.\<close>

definition is_power_of_two :: "nat \<Rightarrow> bool" where
  "is_power_of_two n \<longleftrightarrow> (\<exists>k\<in>set [0..<64]. n = 2 ^ k)"

text \<open>Rules that evaluate a component on concrete input, used by the witnesses.\<close>

named_theorems eval_simps

section \<open>Bits of fixed-width words\<close>

text \<open>
  An equation between words of a small fixed width is decided bit by bit: the quantifier over
  the bit positions is unrolled and each conjunct is a propositional fact.
\<close>

lemma u8_bits: "(x::u8) = y \<longleftrightarrow> (\<forall>n<8. bit x n = bit y n)"
  by (simp add: bit_eq_iff)

lemma u16_bits: "(x::u16) = y \<longleftrightarrow> (\<forall>n<16. bit x n = bit y n)"
  by (simp add: bit_eq_iff)

lemma all_lt_8:
  "(\<forall>n<(8::nat). P n) \<longleftrightarrow> P 7 \<and> P 6 \<and> P 5 \<and> P 4 \<and> P 3 \<and> P 2 \<and> P 1 \<and> P 0"
  by (simp add: All_less_Suc numeral_eq_Suc)

lemma all_lt_16:
  "(\<forall>n<(16::nat). P n) \<longleftrightarrow>
     P 15 \<and> P 14 \<and> P 13 \<and> P 12 \<and> P 11 \<and> P 10 \<and> P 9 \<and> P 8 \<and> (\<forall>n<8. P n)"
  by (simp add: All_less_Suc numeral_eq_Suc)

lemma bit_u8_beyond [simp]: "8 \<le> n \<Longrightarrow> \<not> bit (a::u8) n"
  using bit_imp_le_length [of a n] by auto

lemmas byte_bits = u8_bits u16_bits all_lt_8 all_lt_16

lemma unat_u8_less [simp]: "unat (a::u8) < 256"
  using unsigned_less [of a, where ?'a = nat] by simp

lemma unat_ucast_u8_u16 [simp]: "unat (ucast (a::u8) :: u16) = unat a"
  using unat_u8_less [of a]
  by (simp add: unsigned_ucast_eq take_bit_nat_eq_self del: unat_u8_less)

lemma ucast_u8_u16_u8 [simp]: "ucast (ucast (a::u8) :: u16) = a"
  by (simp add: byte_bits bit_simps)

lemma unat_of_nat_small: "n < 2 ^ LENGTH('a) \<Longrightarrow> unat (of_nat n :: 'a::len word) = n"
  by (simp add: unsigned_of_nat take_bit_nat_eq_self)

lemma of_nat_word_inj:
  "m < 2 ^ LENGTH('a) \<Longrightarrow> n < 2 ^ LENGTH('a) \<Longrightarrow> (of_nat m :: 'a::len word) = of_nat n \<longleftrightarrow> m = n"
  by (metis unat_of_nat_small)

lemma unat_Suc_less: "a < b \<Longrightarrow> unat (a + 1) = unat a + 1" for a b :: "'a::len word"
proof -
  assume "a < b"
  then have "Suc (unat a) \<le> unat b" by (simp add: word_less_nat_alt)
  also have "unat b < 2 ^ LENGTH('a)" by (rule unsigned_less)
  finally have "Suc (unat a) < 2 ^ LENGTH('a)" .
  then show ?thesis by (simp add: unat_word_ariths)
qed

lemma sint_small: "- (2 ^ (LENGTH('a) - 1)) \<le> x \<Longrightarrow> x < 2 ^ (LENGTH('a) - 1) \<Longrightarrow> sint (word_of_int x :: 'a::len word) = x"
  by (simp add: signed_of_int signed_take_bit_int_eq_self)

lemma take_bit_word_small: "unat d < 2 ^ k \<Longrightarrow> take_bit k d = (d :: 'a::len word)"
  by (metis take_bit_nat_eq_self unsigned_take_bit_eq word_unat_eq_iff)

lemma funpow_numeral: "(f ^^ numeral k) x = f ((f ^^ pred_numeral k) x)"
  by (simp add: numeral_eq_Suc)

lemma mod_add_left_inj: "(a + j) mod n = (a + k) mod n \<longleftrightarrow> j mod n = k mod n" for a j k n :: nat
proof -
  have "(a + j) mod n = (a + k) mod n \<longleftrightarrow> int (a + j) mod int n = int (a + k) mod int n"
    by (metis of_nat_eq_iff zmod_int)
  also have "\<dots> \<longleftrightarrow> int j mod int n = int k mod int n" by (simp add: mod_eq_dvd_iff)
  also have "\<dots> \<longleftrightarrow> j mod n = k mod n" by (metis of_nat_eq_iff zmod_int)
  finally show ?thesis .
qed

section \<open>Exclusive or of words and byte strings\<close>

lemma xor_cancel_left [simp]: "(a::'a::len word) XOR (a XOR b) = b"
  by (simp add: xor.assoc [symmetric])

lemma xor_eq_zero_iff [simp]: "(a::'a::len word) XOR b = 0 \<longleftrightarrow> a = b"
proof
  assume "a XOR b = 0"
  then have "a XOR (a XOR b) = a XOR 0" by simp
  then show "a = b" by simp
qed simp

section \<open>Loops that fill a buffer by index\<close>

lemma fold_upt_Suc: "fold f [0..<Suc m] s = f m (fold f [0..<m] s)"
  by simp

lemma enumerate_map: "enumerate 0 xs = map (\<lambda>i. (i, xs ! i)) [0..<length xs]"
  by (rule nth_equalityI) (simp_all add: nth_enumerate_eq)

lemma fold_update_upt:
  "n \<le> length xs \<Longrightarrow> fold (\<lambda>i xs. xs[i := f i]) [0..<n] xs = map f [0..<n] @ drop n xs"
proof (induction n)
  case (Suc n)
  then have "drop n xs = xs ! n # drop (Suc n) xs" by (simp add: Cons_nth_drop_Suc)
  with Suc show ?case by (simp add: list_update_append)
qed simp

lemma fold_modify_upt:
  "n \<le> length xs \<Longrightarrow> fold (\<lambda>i xs. xs[i := f i (xs ! i)]) [0..<n] xs = map (\<lambda>i. f i (xs ! i)) [0..<n] @ drop n xs"
proof (induction n)
  case (Suc n)
  then have "drop n xs = xs ! n # drop (Suc n) xs" by (simp add: Cons_nth_drop_Suc)
  with Suc show ?case by (simp add: list_update_append nth_append)
qed simp

lemma sum_list_upt: "(\<Sum>i\<leftarrow>[0..<n]. f i) = (\<Sum>i<n. f i)" for f :: "nat \<Rightarrow> 'a :: comm_monoid_add"
  by (induction n) (simp_all add: add.commute)

lemma fold_update_pair_upt:
  "n \<le> length xs \<Longrightarrow> n \<le> length ys \<Longrightarrow>
     fold (\<lambda>i (xs, ys). (xs[i := f i], ys[i := g i])) [0..<n] (xs, ys) =
       (map f [0..<n] @ drop n xs, map g [0..<n] @ drop n ys)"
proof (induction n)
  case (Suc n)
  then have "drop n xs = xs ! n # drop (Suc n) xs" "drop n ys = ys ! n # drop (Suc n) ys"
    by (simp_all add: Cons_nth_drop_Suc)
  with Suc show ?case by (simp add: list_update_append)
qed simp

lemma nth_concat_replicate:
  "q < n \<Longrightarrow> k < length xs \<Longrightarrow> concat (replicate n xs) ! (length xs * q + k) = xs ! k"
proof (induction n arbitrary: q)
  case (Suc n)
  then show ?case by (cases q) (simp_all add: nth_append add.assoc)
qed simp

section \<open>Row-major buffers\<close>

lemma row_major_mod [simp]: "j < n \<Longrightarrow> (i * n + j) mod n = j" for i j n :: nat
  by simp

lemma row_major_less: "i < m \<Longrightarrow> j < n \<Longrightarrow> i * n + j < m * n" for i j m n :: nat
proof -
  assume "i < m" "j < n"
  then have "i * n + j < i * n + n" by simp
  also have "\<dots> = Suc i * n" by simp
  also have "\<dots> \<le> m * n" using \<open>i < m\<close> by (intro mult_le_mono1) simp
  finally show ?thesis .
qed

lemma row_major_eq_iff: "j < n \<Longrightarrow> j' < n \<Longrightarrow> i * n + j = i' * n + j' \<longleftrightarrow> i = i' \<and> j = j'"
  for i j i' j' n :: nat
  by (metis div_mult_self3 less_nat_zero_code div_less row_major_mod add.commute add.right_neutral bot_nat_0.not_eq_extremum)

text \<open>A nested loop is one loop over the pairs, and a loop of guarded stores leaves at each place what was stored there.\<close>

lemma fold_nested: "fold (\<lambda>i. fold (f i) ys) xs s = fold (\<lambda>(i, j). f i j) (List.product xs ys) s"
proof -
  have "fold (\<lambda>(i, j). f i j) (map (Pair i) ys) s = fold (f i) ys s" for i s by (induction ys arbitrary: s) simp_all
  then show ?thesis by (induction xs arbitrary: s) simp_all
qed

lemma fold_guarded_stores:
  assumes "inj_on pos (insert q (set ps))" "pos q < length a"
  shows "fold (\<lambda>p a. if c p then a[pos p := f p] else a) ps a ! pos q = (if q \<in> set ps \<and> c q then f q else a ! pos q)"
  using assms
proof (induction ps arbitrary: a)
  case (Cons p ps)
  let ?a = "if c p then a[pos p := f p] else a"
  have "fold (\<lambda>p a. if c p then a[pos p := f p] else a) ps ?a ! pos q = (if q \<in> set ps \<and> c q then f q else ?a ! pos q)"
    using Cons.prems by (intro Cons.IH) (auto simp: inj_on_insert insert_commute)
  moreover have "p = q \<or> pos p \<noteq> pos q" using Cons.prems(1) by (auto simp: inj_on_def)
  ultimately show ?case using Cons.prems(2) by auto
qed simp

lemma fold_guarded_stores_length [simp]:
  "length (fold (\<lambda>p a. if c p then a[pos p := f p] else a) ps a) = length a"
  by (induction ps arbitrary: a) simp_all

lemma fold_pair: "fold (\<lambda>c (a, b). (f c a, g c b)) cs (a, b) = (fold f cs a, fold g cs b)"
  by (induction cs arbitrary: a b) simp_all

section \<open>Integers of the standard library\<close>

definition count_ones_u32 :: "u32 \<Rightarrow> nat" where
  "count_ones_u32 w = length (filter (bit w) [0..<32])"

definition from_le_u16 :: "u8 \<Rightarrow> u8 \<Rightarrow> u16" where
  "from_le_u16 a b = ucast a OR push_bit 8 (ucast b)"

definition to_le_u16 :: "u16 \<Rightarrow> bytes" where
  "to_le_u16 w = [ucast w, ucast (drop_bit 8 w)]"

definition from_le_u32 :: "u8 \<Rightarrow> u8 \<Rightarrow> u8 \<Rightarrow> u8 \<Rightarrow> u32" where
  "from_le_u32 a b c d = ucast a OR push_bit 8 (ucast b) OR push_bit 16 (ucast c) OR push_bit 24 (ucast d)"

definition to_le_u32 :: "u32 \<Rightarrow> bytes" where
  "to_le_u32 w = [ucast w, ucast (drop_bit 8 w), ucast (drop_bit 16 w), ucast (drop_bit 24 w)]"

lemma from_to_le_u16: "from_le_u16 (to_le_u16 w ! 0) (to_le_u16 w ! 1) = w"
  by (simp add: from_le_u16_def to_le_u16_def byte_bits bit_simps)

lemma to_from_le_u16: "to_le_u16 (from_le_u16 a b) ! 0 = a" "to_le_u16 (from_le_u16 a b) ! 1 = b"
  by (simp_all add: from_le_u16_def to_le_u16_def byte_bits bit_simps)

lemma length_to_le_u16 [simp]: "length (to_le_u16 w) = 2"
  by (simp add: to_le_u16_def)

lemma length_to_le_u32 [simp]: "length (to_le_u32 w) = 4"
  by (simp add: to_le_u32_def)

lemma from_to_le_u32:
  "from_le_u32 (to_le_u32 w ! 0) (to_le_u32 w ! 1) (to_le_u32 w ! 2) (to_le_u32 w ! 3) = w"
proof -
  have "from_le_u32 (ucast w) (ucast (drop_bit 8 w)) (ucast (drop_bit 16 w)) (ucast (drop_bit 24 w)) = w"
  proof (rule bit_word_eqI)
    fix n assume n: "n < LENGTH(32)"
    consider "n < 8" | "8 \<le> n" "n < 16" | "16 \<le> n" "n < 24" | "24 \<le> n" by linarith
    then show "bit (from_le_u32 (ucast w) (ucast (drop_bit 8 w)) (ucast (drop_bit 16 w)) (ucast (drop_bit 24 w))) n = bit w n"
      using n by cases (simp_all add: from_le_u32_def bit_or_iff bit_push_bit_iff bit_ucast_iff bit_drop_bit_eq, linarith+)
  qed
  then show ?thesis by (simp add: to_le_u32_def numeral_2_eq_2 numeral_3_eq_3)
qed

end
