(* ===== verification/Galois.thy ===== *)
theory Galois
  imports SubEtha_Prelude
begin

text \<open>
  The field both erasure codes compute in: the module \<open>gf\<close> of
  \<^verbatim>\<open>crates/subetha-cxc/src/fec.rs\<close>. The log and antilog tables are built by the same two
  loops the constant function runs, and addition, multiplication, inverse and division look
  values up in them. The theory shows that the tables are right (the antilog table lists the
  powers of the generator 2 modulo the polynomial 0x11D, the log table inverts it) and that the
  table arithmetic is a field: the bytes, wrapped as \<open>gf256\<close>, are an instance of the library's
  class of fields, so the algebra of the codes is done with the library's lemmas.
\<close>

section \<open>The tables and the operations\<close>

text \<open>The first loop of \<open>build_tables\<close>: entry \<open>i\<close> of the antilog table and its log entry.\<close>

function build_exp_loop :: "nat \<Rightarrow> u16 \<Rightarrow> bytes \<Rightarrow> bytes \<Rightarrow> bytes \<times> bytes" where
  "build_exp_loop i x lg ex =
     (if i < 255 then
        (let ex = ex[i := ucast x];
             lg = lg[unat x := of_nat i];
             x = push_bit 1 x;
             x = (if x AND 0x100 \<noteq> 0 then x XOR 0x11D else x)
         in build_exp_loop (i + 1) x lg ex)
      else (lg, ex))"
  by pat_completeness auto
termination
  by (relation "measure (\<lambda>(i, _). 255 - i)") auto

text \<open>The second loop: a second period of the antilog table.\<close>

function build_second_loop :: "nat \<Rightarrow> bytes \<Rightarrow> bytes" where
  "build_second_loop j ex =
     (if j < 512 then build_second_loop (j + 1) (ex[j := ex ! (j - 255)]) else ex)"
  by pat_completeness auto
termination
  by (relation "measure (\<lambda>(j, _). 512 - j)") auto

declare build_exp_loop.simps [simp del] build_second_loop.simps [simp del]

definition build_tables :: "bytes \<times> bytes" where
  "build_tables =
     (let (lg, ex) = build_exp_loop 0 1 (replicate 256 0) (replicate 512 0)
      in (lg, build_second_loop 255 ex))"

definition LOG :: bytes where "LOG = fst build_tables"
definition EXP :: bytes where "EXP = snd build_tables"

definition gf_add :: "u8 \<Rightarrow> u8 \<Rightarrow> u8" where
  "gf_add a b = a XOR b"

definition gf_mul :: "u8 \<Rightarrow> u8 \<Rightarrow> u8" where
  "gf_mul a b =
     (if a = 0 \<or> b = 0 then 0
      else EXP ! (unat (LOG ! unat a) + unat (LOG ! unat b)))"

definition gf_inv :: "u8 \<Rightarrow> u8" where
  "gf_inv a = EXP ! (255 - unat (LOG ! unat a))"

definition gf_div :: "u8 \<Rightarrow> u8 \<Rightarrow> u8" where
  "gf_div a b =
     (if a = 0 then 0
      else EXP ! (unat (LOG ! unat a) + 255 - unat (LOG ! unat b)))"

section \<open>Multiplication by the generator\<close>

text \<open>
  Doubling modulo the polynomial, on bytes. It is what one round of the table loop does, it is
  linear, it is injective, and the generator's orbit of 1 has length exactly 255.
\<close>

definition xtime :: "u8 \<Rightarrow> u8" where
  "xtime a = (if bit a 7 then push_bit 1 a XOR 0x1D else push_bit 1 a)"

lemma table_round:
  "(if push_bit 1 (ucast a) AND 0x100 \<noteq> (0::u16)
    then push_bit 1 (ucast a) XOR 0x11D else push_bit 1 (ucast a)) = (ucast (xtime a) :: u16)"
  by (cases "bit a 7") (simp_all add: byte_bits xtime_def bit_simps del: push_bit_Suc)

lemma xtime_xor: "xtime (a XOR b) = xtime a XOR xtime b"
  by (cases "bit a 7"; cases "bit b 7")
    (auto simp: byte_bits xtime_def bit_simps simp del: push_bit_Suc)

lemma xtime_inj: "xtime a = xtime b \<Longrightarrow> a = b"
  by (cases "bit a 7"; cases "bit b 7")
    (simp_all add: byte_bits xtime_def bit_simps del: push_bit_Suc)

lemma xtime_0 [simp]: "xtime 0 = 0"
  by (simp add: xtime_def)

lemma xtime_literal [eval_simps]:
  "xtime 1 = 2"
  "xtime (numeral w) =
     (if bit (numeral w :: u8) 7 then push_bit 1 (numeral w) XOR 0x1D else push_bit 1 (numeral w))"
  by (simp_all add: xtime_def)

lemma xtime_pow_xor: "(xtime ^^ n) (a XOR b) = (xtime ^^ n) a XOR (xtime ^^ n) b"
  by (induction n) (simp_all add: xtime_xor)

lemma xtime_pow_inj: "(xtime ^^ n) a = (xtime ^^ n) b \<Longrightarrow> a = b"
  by (induction n) (auto dest: xtime_inj)

lemma xtime_pow_0 [simp]: "(xtime ^^ n) 0 = 0"
  by (induction n) simp_all

lemma xtime_pow_eq_0_iff [simp]: "(xtime ^^ n) a = 0 \<longleftrightarrow> a = 0"
  using xtime_pow_inj [of n a 0] by auto

definition gpow :: "nat \<Rightarrow> u8" where
  "gpow n = (xtime ^^ n) 1"

lemma gpow_0 [simp]: "gpow 0 = 1"
  by (simp add: gpow_def)

lemma gpow_Suc: "gpow (Suc n) = xtime (gpow n)"
  by (simp add: gpow_def)

lemma gpow_add: "gpow (m + n) = (xtime ^^ m) (gpow n)"
  by (simp add: gpow_def funpow_add)

lemma gpow_nonzero [simp]: "gpow n \<noteq> 0"
  by (simp add: gpow_def)

lemma gpow_255: "gpow 255 = 1"
  by (simp add: gpow_def xtime_literal funpow_numeral)

lemma gpow_proper_divisors: "gpow 85 \<noteq> 1" "gpow 51 \<noteq> 1" "gpow 15 \<noteq> 1"
  by (simp_all add: gpow_def xtime_literal funpow_numeral)

lemma gpow_mult_of_one: "gpow d = 1 \<Longrightarrow> gpow (k * d + m) = gpow m"
proof (induction k)
  case (Suc k)
  have "gpow (Suc k * d + m) = gpow ((k * d + m) + d)" by (simp add: ac_simps)
  also have "\<dots> = (xtime ^^ (k * d + m)) (gpow d)" by (rule gpow_add)
  also have "\<dots> = gpow (k * d + m)" using Suc.prems by (simp add: gpow_def)
  finally show ?case using Suc by simp
qed simp

lemma gpow_mod: "gpow (n mod 255) = gpow n"
  using gpow_mult_of_one [OF gpow_255, of "n div 255" "n mod 255"] by simp

lemma gpow_eq_one_gcd: "gpow a = 1 \<Longrightarrow> gpow b = 1 \<Longrightarrow> gpow (gcd a b) = 1"
proof (induction a b rule: gcd_nat_induct)
  case (step m n)
  then have "gpow (m mod n) = 1"
    using gpow_mult_of_one [of n "m div n" "m mod n"] by simp
  with step show ?case by (metis gcd_red_nat)
qed simp

text \<open>The order of the generator: it divides 255 and none of 255's maximal proper divisors.\<close>

lemma proper_divisor_255:
  assumes "d dvd (255::nat)" and "d \<noteq> 255"
  shows "d dvd 85 \<or> d dvd 51 \<or> d dvd 15"
proof -
  have "list_all (\<lambda>d. d dvd (255::nat) \<longrightarrow> d dvd 85 \<or> d dvd 51 \<or> d dvd 15) [2..<255]"
    by simp
  then have "\<forall>d\<in>{2..<255}. d dvd (255::nat) \<longrightarrow> d dvd 85 \<or> d dvd 51 \<or> d dvd 15"
    unfolding list_all_iff set_upt .
  from bspec [OF this, of d] assms(1)
  have "d dvd 85 \<or> d dvd 51 \<or> d dvd 15" if "2 \<le> d" "d < 255"
    using that by (simp only: atLeastLessThan_iff)
  moreover from assms have "d < 255" "d \<noteq> 0" using dvd_imp_le [of d 255] by auto
  ultimately show ?thesis by (cases "d = 1") auto
qed

lemma gpow_eq_one: "gpow d = 1 \<Longrightarrow> 255 dvd d"
proof (rule ccontr)
  assume d: "gpow d = 1" and n: "\<not> 255 dvd d"
  let ?g = "gcd d 255"
  have g: "gpow ?g = 1" using gpow_eq_one_gcd [OF d gpow_255] .
  have "?g \<noteq> 255" using n by (metis gcd_dvd1)
  then have "?g dvd 85 \<or> ?g dvd 51 \<or> ?g dvd 15" by (intro proper_divisor_255) simp_all
  then show False
    using gpow_proper_divisors gpow_mult_of_one [OF g, of _ 0] by (auto elim!: dvdE simp: mult.commute)
qed

lemma gpow_eq_iff: "gpow i = gpow j \<longleftrightarrow> i mod 255 = j mod 255"
proof -
  have aux: "i mod 255 = j mod 255" if "i \<le> j" and "gpow i = gpow j" for i j
  proof -
    from that(1) have "gpow j = (xtime ^^ i) (gpow (j - i))" by (metis gpow_add le_add_diff_inverse)
    with that(2) have "(xtime ^^ i) 1 = (xtime ^^ i) (gpow (j - i))" by (simp add: gpow_def)
    then have "gpow (j - i) = 1" using xtime_pow_inj by metis
    then have "255 dvd j - i" by (rule gpow_eq_one)
    with that(1) show ?thesis by (metis mod_eq_dvd_iff_nat)
  qed
  show ?thesis
    using aux [of i j] aux [of j i] gpow_mod [of i] gpow_mod [of j] by (metis nat_le_linear)
qed

lemma gpow_inj_on: "inj_on gpow {..<255}"
  by (auto simp: inj_on_def gpow_eq_iff)

lemma gpow_onto:
  assumes "a \<noteq> 0"
  shows "\<exists>i<255. a = gpow i"
proof -
  have "card (gpow ` {..<255}) = card (UNIV - {0 :: u8})"
    by (simp add: card_image [OF gpow_inj_on] card_word)
  moreover have "gpow ` {..<255} \<subseteq> UNIV - {0}" by auto
  ultimately have "gpow ` {..<255} = UNIV - {0}"
    by (simp add: card_subset_eq)
  with assms show ?thesis by (auto simp: image_def set_eq_iff)
qed

section \<open>The tables are right\<close>

lemma build_exp_loop_correct:
  assumes "i \<le> 255" "length lg = 256" "length ex = 512"
    and "\<forall>j<i. ex ! j = gpow j" "\<forall>j<i. lg ! unat (gpow j) = of_nat j"
    and "build_exp_loop i (ucast (gpow i)) lg ex = (lg', ex')"
  shows "length lg' = 256 \<and> length ex' = 512 \<and>
     (\<forall>j<255. ex' ! j = gpow j) \<and> (\<forall>j<255. lg' ! unat (gpow j) = of_nat j)"
  using assms
proof (induction "255 - i" arbitrary: i lg ex)
  case 0
  then have "i = 255" by simp
  with 0 show ?case by (simp add: build_exp_loop.simps)
next
  case (Suc n)
  then have i: "i < 255" by simp
  let ?lg = "lg[unat (gpow i) := of_nat i]" and ?ex = "ex[i := gpow i]"
  have step: "build_exp_loop i (ucast (gpow i)) lg ex = build_exp_loop (i + 1) (ucast (gpow (i + 1))) ?lg ?ex"
    using i table_round [of "gpow i"]
    by (subst build_exp_loop.simps) (auto simp: Let_def gpow_Suc split: if_splits)
  have distinct: "gpow i \<noteq> gpow j" if "j < i" for j
    using that i by (simp add: gpow_eq_iff)
  show ?case
  proof (rule Suc.hyps(1) [of "i + 1" ?lg ?ex])
    show "\<forall>j<i + 1. ?ex ! j = gpow j"
      using Suc.prems i by (auto simp: nth_list_update less_Suc_eq)
    show "\<forall>j<i + 1. ?lg ! unat (gpow j) = of_nat j"
      using Suc.prems i distinct by (auto simp: nth_list_update less_Suc_eq word_unat_eq_iff)
  qed (use Suc i step in auto)
qed

lemma build_second_loop_correct:
  assumes "255 \<le> j" "j \<le> 512" "length ex = 512" "\<forall>i<j. ex ! i = gpow i"
  shows "length (build_second_loop j ex) = 512 \<and> (\<forall>i<512. build_second_loop j ex ! i = gpow i)"
  using assms
proof (induction "512 - j" arbitrary: j ex)
  case 0
  then have "j = 512" by simp
  with 0 show ?case by (simp add: build_second_loop.simps)
next
  case (Suc n)
  then have j: "j < 512" by simp
  have "gpow (j - 255) = gpow j"
    using Suc.prems(1) gpow_mult_of_one [OF gpow_255, of 1 "j - 255"] by simp
  then have "\<forall>i<j + 1. ex[j := ex ! (j - 255)] ! i = gpow i"
    using Suc.prems j by (auto simp: nth_list_update less_Suc_eq)
  moreover have "build_second_loop j ex = build_second_loop (j + 1) (ex[j := ex ! (j - 255)])"
    using j by (subst build_second_loop.simps) simp
  ultimately show ?case
    using Suc.hyps(1) [of "j + 1" "ex[j := ex ! (j - 255)]"] Suc.hyps(2) Suc.prems j by simp
qed

lemma tables_correct:
  "length EXP = 512 \<and> length LOG = 256 \<and> (\<forall>i<512. EXP ! i = gpow i) \<and>
   (\<forall>i<255. LOG ! unat (gpow i) = of_nat i)"
proof -
  obtain lg ex where loop: "build_exp_loop 0 1 (replicate 256 0) (replicate 512 0) = (lg, ex)"
    by fastforce
  then have "build_exp_loop 0 (ucast (gpow 0)) (replicate 256 0) (replicate 512 0) = (lg, ex)"
    by simp
  then have tab: "length lg = 256 \<and> length ex = 512 \<and>
     (\<forall>j<255. ex ! j = gpow j) \<and> (\<forall>j<255. lg ! unat (gpow j) = of_nat j)"
    by (rule build_exp_loop_correct [of 0, rotated 5]) simp_all
  with build_second_loop_correct [of 255 ex] loop show ?thesis
    by (simp add: EXP_def LOG_def build_tables_def)
qed

lemmas table_simps =
  tables_correct [THEN conjunct1]
  tables_correct [THEN conjunct2, THEN conjunct1]
  tables_correct [THEN conjunct2, THEN conjunct2, THEN conjunct1, rule_format]
  tables_correct [THEN conjunct2, THEN conjunct2, THEN conjunct2, rule_format]

section \<open>The table arithmetic through powers of the generator\<close>

lemma unat_of_nat_byte: "i < 256 \<Longrightarrow> unat (of_nat i :: u8) = i"
  by (simp add: unsigned_of_nat take_bit_nat_eq_self)

lemma gf_mul_gpow: "gf_mul (gpow i) (gpow j) = gpow (i + j)"
proof -
  have "gf_mul (gpow (i mod 255)) (gpow (j mod 255)) = gpow (i mod 255 + j mod 255)"
    using mod_less_divisor [of 255 i] mod_less_divisor [of 255 j]
    by (simp add: gf_mul_def table_simps unat_of_nat_byte del: mod_less_divisor)
  then show ?thesis
    by (metis gpow_mod mod_add_eq)
qed

lemma gf_inv_gpow: "i < 255 \<Longrightarrow> gf_inv (gpow i) = gpow (255 - i)"
  by (simp add: gf_inv_def table_simps unat_of_nat_byte)

lemma gf_div_gpow: "i < 255 \<Longrightarrow> j < 255 \<Longrightarrow> gf_div (gpow i) (gpow j) = gpow (i + 255 - j)"
  by (simp add: gf_div_def table_simps unat_of_nat_byte)

lemma gf_mul_zero [simp]: "gf_mul 0 a = 0" "gf_mul a 0 = 0"
  by (simp_all add: gf_mul_def)

lemma gf_mul_gpow_left: "gf_mul (gpow i) a = (xtime ^^ i) a"
proof (cases "a = 0")
  case False
  then obtain j where "a = gpow j" using gpow_onto by blast
  then show ?thesis by (simp add: gf_mul_gpow gpow_add)
qed simp

lemma gf_mul_commute: "gf_mul a b = gf_mul b a"
  by (simp add: gf_mul_def add.commute)

lemma gf_mul_assoc: "gf_mul (gf_mul a b) c = gf_mul a (gf_mul b c)"
proof (cases "a = 0 \<or> b = 0 \<or> c = 0")
  case False
  then obtain i j k where "a = gpow i" "b = gpow j" "c = gpow k" using gpow_onto by meson
  then show ?thesis by (simp add: gf_mul_gpow add.assoc)
qed auto

lemma gf_mul_left_commute: "gf_mul a (gf_mul b c) = gf_mul b (gf_mul a c)"
  by (metis gf_mul_assoc gf_mul_commute)

lemmas gf_mul_ac = gf_mul_assoc gf_mul_commute gf_mul_left_commute

lemma gf_mul_one [simp]: "gf_mul 1 a = a" "gf_mul a 1 = a"
  using gf_mul_gpow_left [of 0 a] by (simp_all add: gf_mul_commute)

lemma gf_mul_xor: "gf_mul a (b XOR c) = gf_mul a b XOR gf_mul a c"
proof (cases "a = 0")
  case False
  then obtain i where "a = gpow i" using gpow_onto by blast
  then show ?thesis by (simp add: gf_mul_gpow_left xtime_pow_xor)
qed simp

lemma gf_mul_xor_left: "gf_mul (a XOR b) c = gf_mul a c XOR gf_mul b c"
  by (metis gf_mul_commute gf_mul_xor)

lemma gf_mul_inv: "a \<noteq> 0 \<Longrightarrow> gf_mul (gf_inv a) a = 1"
proof -
  assume "a \<noteq> 0"
  then obtain i where "i < 255" "a = gpow i" using gpow_onto by blast
  then show ?thesis by (simp add: gf_inv_gpow gf_mul_gpow gpow_255)
qed

lemma gf_div_mul: "b \<noteq> 0 \<Longrightarrow> gf_div a b = gf_mul a (gf_inv b)"
proof (cases "a = 0")
  case False
  assume "b \<noteq> 0"
  with False obtain i j where "i < 255" "a = gpow i" "j < 255" "b = gpow j" using gpow_onto by meson
  then show ?thesis by (simp add: gf_div_gpow gf_inv_gpow gf_mul_gpow)
qed (simp add: gf_div_def)

section \<open>The field of 256 elements\<close>

datatype gf256 = GF (byte: u8)

instantiation gf256 :: field
begin

definition "0 = GF 0"
definition "1 = GF 1"
definition "a + b = GF (gf_add (byte a) (byte b))"
definition "a - b = GF (gf_add (byte a) (byte b))" for a b :: gf256
definition "- a = a" for a :: gf256
definition "a * b = GF (gf_mul (byte a) (byte b))"
definition "inverse a = (if a = 0 then 0 else GF (gf_inv (byte a)))"
definition "a div b = a * inverse b" for a b :: gf256

instance
proof
  fix a b c :: gf256
  show "a * b * c = a * (b * c)" by (simp add: times_gf256_def gf_mul_assoc)
  show "a * b = b * a" by (simp add: times_gf256_def gf_mul_commute)
  show "1 * a = a" by (simp add: times_gf256_def one_gf256_def)
  show "a + b + c = a + (b + c)" by (simp add: plus_gf256_def gf_add_def xor.assoc)
  show "a + b = b + a" by (simp add: plus_gf256_def gf_add_def xor.commute)
  show "0 + a = a" by (simp add: plus_gf256_def zero_gf256_def gf_add_def)
  show "- a + a = 0" by (simp add: plus_gf256_def uminus_gf256_def zero_gf256_def gf_add_def)
  show "a - b = a + - b" by (simp add: plus_gf256_def minus_gf256_def uminus_gf256_def)
  show "(a + b) * c = a * c + b * c"
    by (simp add: plus_gf256_def times_gf256_def gf_add_def gf_mul_xor_left)
  show "(0::gf256) \<noteq> 1" by (simp add: zero_gf256_def one_gf256_def)
  show "a \<noteq> 0 \<Longrightarrow> inverse a * a = 1"
    by (cases a) (simp add: inverse_gf256_def times_gf256_def zero_gf256_def one_gf256_def gf_mul_inv)
  show "a div b = a * inverse b" by (simp add: divide_gf256_def)
  show "inverse (0::gf256) = 0" by (simp add: inverse_gf256_def)
qed

end

text \<open>The wrapping commutes with the byte operations, and the field has characteristic two.\<close>

lemma byte_simps [simp]:
  "byte 0 = 0" "byte 1 = 1" "byte (a + b) = byte a XOR byte b" "byte (a - b) = byte a XOR byte b"
  "byte (- a) = byte a" "byte (a * b) = gf_mul (byte a) (byte b)"
  by (simp_all add: zero_gf256_def one_gf256_def plus_gf256_def minus_gf256_def uminus_gf256_def
      times_gf256_def gf_add_def)

lemma GF_simps:
  "GF 0 = 0" "GF 1 = 1" "GF (a XOR b) = GF a + GF b" "GF (gf_mul a b) = GF a * GF b"
  by (simp_all add: gf256.expand)

lemma GF_eq_0_iff [simp]: "GF a = 0 \<longleftrightarrow> a = 0"
  by (simp add: zero_gf256_def)

lemma GF_inv: "a \<noteq> 0 \<Longrightarrow> GF (gf_inv a) = inverse (GF a)"
  by (simp add: inverse_gf256_def)

lemma gf_inv_nonzero: "a \<noteq> 0 \<Longrightarrow> gf_inv a \<noteq> 0"
  using gf_mul_inv [of a] by auto

lemma gf256_uminus [simp]: "- (a::gf256) = a"
  by (simp add: uminus_gf256_def)

lemma gf256_minus: "(a::gf256) - b = a + b"
  by (simp add: minus_gf256_def plus_gf256_def)

lemma gf256_add_self [simp]: "(a::gf256) + a = 0"
  by (simp add: plus_gf256_def zero_gf256_def gf_add_def)

text \<open>Shift-and-add multiplication: the reading of a product a closed term is evaluated with.\<close>

fun shift_add :: "nat \<Rightarrow> u8 \<Rightarrow> u8 \<Rightarrow> u8" where
  "shift_add 0 a b = 0"
| "shift_add (Suc n) a b =
     (if bit b 0 then a else 0) XOR shift_add n (xtime a) (drop_bit 1 b)"

lemma gf_mul_two: "gf_mul 2 a = xtime a"
  using gf_mul_gpow_left [of 1 a] by (simp add: gpow_def xtime_literal)

lemma gf_mul_double: "\<not> bit b 7 \<Longrightarrow> gf_mul a (push_bit 1 b) = gf_mul (xtime a) b"
proof -
  assume "\<not> bit b 7"
  then have "push_bit 1 b = gf_mul 2 b" by (simp add: gf_mul_two xtime_def)
  then show ?thesis by (metis gf_mul_assoc gf_mul_commute gf_mul_two)
qed

lemma byte_split_low: "b = (if bit b 0 then 1 else 0) XOR push_bit 1 (drop_bit 1 (b::u8))"
  by (auto simp: byte_bits bit_simps simp del: push_bit_Suc drop_bit_Suc)

lemma shift_add_correct: "\<forall>m\<ge>n. \<not> bit b m \<Longrightarrow> shift_add n a b = gf_mul a b"
proof (induction n arbitrary: a b)
  case 0
  then have "b = 0" by (simp add: bit_eq_iff)
  then show ?case by simp
next
  case (Suc n)
  have "\<forall>m\<ge>n. \<not> bit (drop_bit 1 b) m" using Suc.prems by (simp add: bit_drop_bit_eq)
  from Suc.IH [OF this]
  have "shift_add (Suc n) a b = gf_mul a (if bit b 0 then 1 else 0) XOR gf_mul (xtime a) (drop_bit 1 b)"
    by simp
  also have "gf_mul (xtime a) (drop_bit 1 b) = gf_mul a (push_bit 1 (drop_bit 1 b))"
    by (rule gf_mul_double [symmetric]) (simp add: bit_drop_bit_eq)
  finally show ?case by (metis gf_mul_xor byte_split_low)
qed

lemma gf_mul_eval [eval_simps]: "gf_mul a b = shift_add 8 a b"
  by (rule shift_add_correct [symmetric]) simp

lemma gf_inv_eqI: "gf_mul x a = 1 \<Longrightarrow> gf_inv a = x"
  by (metis gf_mul_assoc gf_mul_commute gf_mul_inv gf_mul_one(1) gf_mul_zero(2) zero_neq_one)

text \<open>
  C27. The table arithmetic of the module \<open>gf\<close> is a field: with addition the exclusive or,
  multiplication and inversion through the log and antilog tables, the bytes form a commutative
  group under addition, multiplication is commutative, associative, distributes over addition and
  has unit 1, every nonzero byte has the inverse \<open>gf_inv\<close> computes, and division is
  multiplication by the inverse.
\<close>

theorem gf_field:
  "gf_add (gf_add a b) c = gf_add a (gf_add b c) \<and> gf_add a b = gf_add b a \<and>
   gf_add 0 a = a \<and> gf_add a a = 0 \<and>
   gf_mul (gf_mul a b) c = gf_mul a (gf_mul b c) \<and> gf_mul a b = gf_mul b a \<and>
   gf_mul 1 a = a \<and> gf_mul a (gf_add b c) = gf_add (gf_mul a b) (gf_mul a c) \<and>
   (a \<noteq> 0 \<longrightarrow> gf_mul a (gf_inv a) = 1) \<and> (b \<noteq> 0 \<longrightarrow> gf_div a b = gf_mul a (gf_inv b))"
  using gf_mul_inv [of a]
  by (simp add: gf_add_def gf_mul_xor gf_div_mul xor.assoc xor.commute xor.left_commute gf_mul_ac)

theorem gf_field_witness:
  "gf_mul 2 (gf_inv 2) = 1 \<and> gf_div 6 2 = gf_mul 6 (gf_inv 2)"
  using gf_field [of 2 2 0] gf_field [of 6 2 0] by simp

end
