(* ===== verification/Gf_Kernels.thy ===== *)
theory Gf_Kernels
  imports Galois
begin

text \<open>
  The multiply-add kernels of \<^verbatim>\<open>crates/subetha-cxc/src/fec.rs\<close>: \<open>out[i] ^= coef * src[i]\<close>
  over a whole buffer, on each rung of the dispatch ladder (portable scalar, the byte-shuffle
  kernels of SSSE3, AVX2, AVX-512 and NEON with their nibble tables, the GFNI affine kernels and
  their software emulation), the dispatcher, and the scaling routine built on it. Vector registers
  are byte lists; each intrinsic the kernels use is written out on them. The theory shows that
  every rung computes the scalar kernel, so which instruction set a host has never changes a byte
  of a code word.
\<close>

section \<open>Backends and their selection\<close>

datatype GfBackend =
    Scalar | Ssse3 | Avx2 | Avx512Pshufb | Gfni256 | Gfni512 | AffineScalar | Neon

text \<open>
  The target architecture is fixed at compile time and the features are what the running CPU
  reports; both are parameters.
\<close>

datatype arch = X86_64 | Aarch64 | OtherArch

definition available :: "arch \<Rightarrow> (string \<Rightarrow> bool) \<Rightarrow> GfBackend \<Rightarrow> bool" where
  "available ar feature b =
     (case b of
        Scalar \<Rightarrow> True
      | AffineScalar \<Rightarrow> True
      | Neon \<Rightarrow> ar = Aarch64 \<and> feature ''neon''
      | Ssse3 \<Rightarrow> ar = X86_64 \<and> feature ''ssse3''
      | Avx2 \<Rightarrow> ar = X86_64 \<and> feature ''avx2''
      | Avx512Pshufb \<Rightarrow> ar = X86_64 \<and> feature ''avx512f'' \<and> feature ''avx512bw''
      | Gfni256 \<Rightarrow> ar = X86_64 \<and> feature ''gfni'' \<and> feature ''avx2''
      | Gfni512 \<Rightarrow> ar = X86_64 \<and> feature ''gfni'' \<and> feature ''avx512f'' \<and> feature ''avx512bw'')"

fun backend_to_u8 :: "GfBackend \<Rightarrow> u8" where
  "backend_to_u8 Scalar = 0"
| "backend_to_u8 Ssse3 = 1"
| "backend_to_u8 Avx2 = 2"
| "backend_to_u8 Avx512Pshufb = 3"
| "backend_to_u8 Gfni256 = 4"
| "backend_to_u8 Gfni512 = 5"
| "backend_to_u8 AffineScalar = 6"
| "backend_to_u8 Neon = 7"

definition from_u8 :: "u8 \<Rightarrow> GfBackend" where
  "from_u8 v =
     (if v = 1 then Ssse3 else if v = 2 then Avx2 else if v = 3 then Avx512Pshufb
      else if v = 4 then Gfni256 else if v = 5 then Gfni512 else if v = 6 then AffineScalar
      else if v = 7 then Neon else Scalar)"

definition GF_LADDER :: "arch \<Rightarrow> GfBackend list" where
  "GF_LADDER ar =
     (case ar of
        X86_64 \<Rightarrow> [Gfni512, Avx512Pshufb, Gfni256, Avx2, Ssse3, Scalar]
      | Aarch64 \<Rightarrow> [Neon, Scalar]
      | OtherArch \<Rightarrow> [Scalar])"

definition detect_best_backend :: "arch \<Rightarrow> (string \<Rightarrow> bool) \<Rightarrow> GfBackend" where
  "detect_best_backend ar feature =
     (case find (available ar feature) (GF_LADDER ar) of Some b \<Rightarrow> b | None \<Rightarrow> Scalar)"

definition BACKEND_UNINIT :: u8 where "BACKEND_UNINIT = 0xFF"

text \<open>The cached selection: the cache cell is read, and filled on the first use.\<close>

definition current_backend :: "arch \<Rightarrow> (string \<Rightarrow> bool) \<Rightarrow> u8 \<Rightarrow> GfBackend \<times> u8" where
  "current_backend ar feature cell =
     (if cell = BACKEND_UNINIT
      then (let b = detect_best_backend ar feature in (b, backend_to_u8 b))
      else (from_u8 cell, cell))"

section \<open>The scalar kernel\<close>

fun gf_mul_add_scalar :: "bytes \<Rightarrow> bytes \<Rightarrow> u8 \<Rightarrow> bytes" where
  "gf_mul_add_scalar (o1 # out) (s # src) coef =
     (o1 XOR gf_mul coef s) # gf_mul_add_scalar out src coef"
| "gf_mul_add_scalar out src coef = out"

section \<open>The byte-shuffle kernels\<close>

definition gf_nibble_tables :: "u8 \<Rightarrow> bytes \<times> bytes" where
  "gf_nibble_tables coef =
     fold (\<lambda>i (lo, hi). (lo[i := gf_mul coef (of_nat i)], hi[i := gf_mul coef (push_bit 4 (of_nat i))]))
       [0..<16] (replicate 16 0, replicate 16 0)"

text \<open>
  Intrinsics on registers: lane-wise and/xor, a 128-bit table broadcast to every lane, the byte
  shuffle within 128-bit lanes (an index with its top bit set selects zero), the logical right
  shift by 4 of each little-endian 16-bit element, and the two NEON operations.
\<close>

definition reg_xor :: "bytes \<Rightarrow> bytes \<Rightarrow> bytes" where
  "reg_xor xs ys = map2 (XOR) xs ys"

definition reg_and_mask :: "bytes \<Rightarrow> u8 \<Rightarrow> bytes" where
  "reg_and_mask xs m = map (\<lambda>x. x AND m) xs"

definition broadcast_128 :: "nat \<Rightarrow> bytes \<Rightarrow> bytes" where
  "broadcast_128 lanes t = concat (replicate lanes t)"

definition shuffle_epi8 :: "bytes \<Rightarrow> bytes \<Rightarrow> bytes" where
  "shuffle_epi8 t xs =
     map (\<lambda>p. if bit (xs ! p) 7 then 0 else t ! (16 * (p div 16) + unat (xs ! p AND 0x0F)))
       [0..<length xs]"

fun srli_epi16_4 :: "bytes \<Rightarrow> bytes" where
  "srli_epi16_4 (b0 # b1 # bs) =
     (let v = drop_bit 4 (ucast b0 OR push_bit 8 (ucast b1) :: u16)
      in ucast v # ucast (drop_bit 8 v) # srli_epi16_4 bs)"
| "srli_epi16_4 bs = bs"

definition vqtbl1q_u8 :: "bytes \<Rightarrow> bytes \<Rightarrow> bytes" where
  "vqtbl1q_u8 t xs = map (\<lambda>x. if unat x < 16 then t ! unat x else 0) xs"

definition vshrq_n_u8_4 :: "bytes \<Rightarrow> bytes" where
  "vshrq_n_u8_4 xs = map (drop_bit 4) xs"

text \<open>
  The shape every vector kernel has: whole blocks of \<open>w\<close> bytes while they fit, each loaded,
  multiplied by the kernel's product, and stored back exclusive-ored, then a scalar tail.
\<close>

function scalar_tail :: "nat \<Rightarrow> bytes \<Rightarrow> bytes \<Rightarrow> u8 \<Rightarrow> bytes" where
  "scalar_tail i out src coef =
     (if i < length out
      then scalar_tail (i + 1) (out[i := out ! i XOR gf_mul coef (src ! i)]) src coef
      else out)"
  by pat_completeness auto
termination
  by (relation "measure (\<lambda>(i, out, _). length out - i)") auto

definition reg_store :: "bytes \<Rightarrow> nat \<Rightarrow> bytes \<Rightarrow> bytes" where
  "reg_store out i r = take i out @ r @ drop (i + length r) out"

function simd_loop :: "nat \<Rightarrow> (bytes \<Rightarrow> bytes) \<Rightarrow> nat \<Rightarrow> bytes \<Rightarrow> bytes \<Rightarrow> u8 \<Rightarrow> bytes" where
  "simd_loop w product i out src coef =
     (if 0 < w \<and> i + w \<le> length out
      then (let s = take w (drop i src);
                o1 = take w (drop i out)
            in simd_loop w product (i + w) (reg_store out i (reg_xor o1 (product s))) src coef)
      else scalar_tail i out src coef)"
  by pat_completeness auto
termination
  by (relation "measure (\<lambda>(w, _, i, out, _). length out - i)") (auto simp: reg_xor_def reg_store_def)

declare scalar_tail.simps [simp del] simd_loop.simps [simp del]

definition gf_mul_add_ssse3 :: "bytes \<Rightarrow> bytes \<Rightarrow> u8 \<Rightarrow> bytes" where
  "gf_mul_add_ssse3 out src coef =
     (let (lo, hi) = gf_nibble_tables coef in
      simd_loop 16
        (\<lambda>s. let lo_n = reg_and_mask s 0x0F;
                 hi_n = reg_and_mask (srli_epi16_4 s) 0x0F
             in reg_xor (shuffle_epi8 lo lo_n) (shuffle_epi8 hi hi_n))
        0 out src coef)"

definition gf_mul_add_avx2 :: "bytes \<Rightarrow> bytes \<Rightarrow> u8 \<Rightarrow> bytes" where
  "gf_mul_add_avx2 out src coef =
     (let (lo, hi) = gf_nibble_tables coef;
          lo_v = broadcast_128 2 lo; hi_v = broadcast_128 2 hi in
      simd_loop 32
        (\<lambda>s. let lo_n = reg_and_mask s 0x0F;
                 hi_n = reg_and_mask (srli_epi16_4 s) 0x0F
             in reg_xor (shuffle_epi8 lo_v lo_n) (shuffle_epi8 hi_v hi_n))
        0 out src coef)"

definition gf_mul_add_avx512 :: "bytes \<Rightarrow> bytes \<Rightarrow> u8 \<Rightarrow> bytes" where
  "gf_mul_add_avx512 out src coef =
     (let (lo, hi) = gf_nibble_tables coef;
          lo_v = broadcast_128 4 lo; hi_v = broadcast_128 4 hi in
      simd_loop 64
        (\<lambda>s. let lo_n = reg_and_mask s 0x0F;
                 hi_n = reg_and_mask (srli_epi16_4 s) 0x0F
             in reg_xor (shuffle_epi8 lo_v lo_n) (shuffle_epi8 hi_v hi_n))
        0 out src coef)"

definition gf_mul_add_neon :: "bytes \<Rightarrow> bytes \<Rightarrow> u8 \<Rightarrow> bytes" where
  "gf_mul_add_neon out src coef =
     (let (lo, hi) = gf_nibble_tables coef in
      simd_loop 16
        (\<lambda>s. let lo_n = reg_and_mask s 0x0F;
                 hi_n = vshrq_n_u8_4 s
             in reg_xor (vqtbl1q_u8 lo lo_n) (vqtbl1q_u8 hi hi_n))
        0 out src coef)"

section \<open>The affine kernels\<close>

definition count_ones :: "u8 \<Rightarrow> nat" where
  "count_ones x = length (filter (bit x) [0..<8])"

definition gf_affine_row :: "u8 \<Rightarrow> nat \<Rightarrow> u8" where
  "gf_affine_row coef i =
     fold (\<lambda>j row. if drop_bit i (gf_mul coef (push_bit j 1)) AND 1 = 1 then row OR push_bit j 1 else row)
       [0..<8] 0"

definition gf_affine_matrix :: "u8 \<Rightarrow> u64" where
  "gf_affine_matrix coef =
     fold (\<lambda>i m. let row = gf_affine_row coef i; byte_idx = 7 - i
                 in m OR push_bit (8 * byte_idx) (ucast row)) [0..<8] 0"

definition gf2p8affine_byte :: "u8 \<Rightarrow> u64 \<Rightarrow> u8" where
  "gf2p8affine_byte x m =
     fold (\<lambda>i out. let mat_byte = ucast (drop_bit (8 * (7 - i)) m AND 0xFF)
                   in if count_ones (mat_byte AND x) mod 2 = 1 then out OR push_bit i 1 else out)
       [0..<8] 0"

fun gf_mul_add_affine_loop :: "u64 \<Rightarrow> bytes \<Rightarrow> bytes \<Rightarrow> bytes" where
  "gf_mul_add_affine_loop m (o1 # out) (s # src) =
     (o1 XOR gf2p8affine_byte s m) # gf_mul_add_affine_loop m out src"
| "gf_mul_add_affine_loop m out src = out"

definition gf_mul_add_affine_scalar :: "bytes \<Rightarrow> bytes \<Rightarrow> u8 \<Rightarrow> bytes" where
  "gf_mul_add_affine_scalar out src coef = gf_mul_add_affine_loop (gf_affine_matrix coef) out src"

text \<open>The GFNI instruction applies the affine byte transform to every byte of the register.\<close>

definition gf2p8affine_epi64_epi8 :: "bytes \<Rightarrow> u64 \<Rightarrow> bytes" where
  "gf2p8affine_epi64_epi8 xs m = map (\<lambda>x. gf2p8affine_byte x m) xs"

definition gf_mul_add_gfni256 :: "bytes \<Rightarrow> bytes \<Rightarrow> u8 \<Rightarrow> bytes" where
  "gf_mul_add_gfni256 out src coef =
     simd_loop 32 (\<lambda>s. gf2p8affine_epi64_epi8 s (gf_affine_matrix coef)) 0 out src coef"

definition gf_mul_add_gfni512 :: "bytes \<Rightarrow> bytes \<Rightarrow> u8 \<Rightarrow> bytes" where
  "gf_mul_add_gfni512 out src coef =
     simd_loop 64 (\<lambda>s. gf2p8affine_epi64_epi8 s (gf_affine_matrix coef)) 0 out src coef"

section \<open>The dispatcher, the accumulate step and the scaling routine\<close>

definition gf_mul_add_backend :: "arch \<Rightarrow> GfBackend \<Rightarrow> bytes \<Rightarrow> bytes \<Rightarrow> u8 \<Rightarrow> bytes" where
  "gf_mul_add_backend ar backend out src coef =
     (case backend of
        Scalar \<Rightarrow> gf_mul_add_scalar out src coef
      | AffineScalar \<Rightarrow> gf_mul_add_affine_scalar out src coef
      | Neon \<Rightarrow> (if ar = Aarch64 then gf_mul_add_neon out src coef else gf_mul_add_scalar out src coef)
      | Ssse3 \<Rightarrow> (if ar = X86_64 then gf_mul_add_ssse3 out src coef else gf_mul_add_scalar out src coef)
      | Avx2 \<Rightarrow> (if ar = X86_64 then gf_mul_add_avx2 out src coef else gf_mul_add_scalar out src coef)
      | Avx512Pshufb \<Rightarrow>
          (if ar = X86_64 then gf_mul_add_avx512 out src coef else gf_mul_add_scalar out src coef)
      | Gfni256 \<Rightarrow>
          (if ar = X86_64 then gf_mul_add_gfni256 out src coef else gf_mul_add_scalar out src coef)
      | Gfni512 \<Rightarrow>
          (if ar = X86_64 then gf_mul_add_gfni512 out src coef else gf_mul_add_scalar out src coef))"

fun xor_into :: "bytes \<Rightarrow> bytes \<Rightarrow> bytes" where
  "xor_into (o1 # out) (s # src) = (o1 XOR s) # xor_into out src"
| "xor_into out src = out"

definition gf_mul_add :: "arch \<Rightarrow> GfBackend \<Rightarrow> bytes \<Rightarrow> bytes \<Rightarrow> u8 \<Rightarrow> bytes" where
  "gf_mul_add ar backend out src coef =
     (if coef = 0 then out
      else if coef = 1 then xor_into out src
      else gf_mul_add_backend ar backend out src coef)"

text \<open>The entry points that pick the backend through the cache cell and hand it back.\<close>

definition gf_mul_add_auto ::
    "arch \<Rightarrow> (string \<Rightarrow> bool) \<Rightarrow> u8 \<Rightarrow> bytes \<Rightarrow> bytes \<Rightarrow> u8 \<Rightarrow> bytes \<times> u8" where
  "gf_mul_add_auto ar feature cell out src coef =
     (let (b, cell) = current_backend ar feature cell in (gf_mul_add ar b out src coef, cell))"

definition SCALE_CHUNK :: nat where "SCALE_CHUNK = 1024"

function scale_chunks :: "arch \<Rightarrow> GfBackend \<Rightarrow> bytes \<Rightarrow> u8 \<Rightarrow> bytes" where
  "scale_chunks ar backend v coef =
     (if v = [] then []
      else (let chunk = take SCALE_CHUNK v;
                scratch = chunk
            in gf_mul_add_backend ar backend (replicate (length chunk) 0) scratch coef
                 @ scale_chunks ar backend (drop SCALE_CHUNK v) coef))"
  by pat_completeness auto
termination
  by (relation "measure (\<lambda>(_, _, v, _). length v)") (auto simp: SCALE_CHUNK_def)

declare scale_chunks.simps [simp del]

definition gf_mul_backend :: "arch \<Rightarrow> GfBackend \<Rightarrow> bytes \<Rightarrow> u8 \<Rightarrow> bytes" where
  "gf_mul_backend ar backend v coef =
     (if coef = 1 then v
      else if coef = 0 then replicate (length v) 0
      else scale_chunks ar backend v coef)"

definition gf_mul_auto :: "arch \<Rightarrow> (string \<Rightarrow> bool) \<Rightarrow> u8 \<Rightarrow> bytes \<Rightarrow> u8 \<Rightarrow> bytes \<times> u8" where
  "gf_mul_auto ar feature cell v coef =
     (let (b, cell) = current_backend ar feature cell in (gf_mul_backend ar b v coef, cell))"

section \<open>Every rung computes the scalar kernel\<close>

lemma length_gf_mul_add_scalar [simp]: "length (gf_mul_add_scalar out src coef) = length out"
  by (induction out src coef rule: gf_mul_add_scalar.induct) simp_all

lemma gf_mul_add_scalar_map2:
  "length src = length out \<Longrightarrow> gf_mul_add_scalar out src coef = map2 (\<lambda>o1 s. o1 XOR gf_mul coef s) out src"
  by (induction out src coef rule: gf_mul_add_scalar.induct) simp_all

lemma gf_mul_add_scalar_nth:
  assumes "i < length out" "i < length src"
  shows "gf_mul_add_scalar out src coef ! i = out ! i XOR gf_mul coef (src ! i)"
  using assms
proof (induction out src coef arbitrary: i rule: gf_mul_add_scalar.induct)
  case (1 o1 out s src coef)
  then show ?case by (cases i) simp_all
qed simp_all

lemma length_scalar_tail [simp]: "length (scalar_tail i out src coef) = length out"
  by (induction i out src coef rule: scalar_tail.induct) (subst scalar_tail.simps, simp)

lemma scalar_tail_nth:
  "j < length out \<Longrightarrow>
     scalar_tail i out src coef ! j = (if i \<le> j then out ! j XOR gf_mul coef (src ! j) else out ! j)"
proof (induction i out src coef rule: scalar_tail.induct)
  case (1 i out src coef)
  show ?case
    using 1 by (subst scalar_tail.simps) (auto simp: nth_list_update not_less Suc_le_eq)
qed

text \<open>
  A vector kernel is right as soon as its product multiplies every byte of a register: the law
  the byte-shuffle and the affine kernels share.
\<close>

locale vector_kernel =
  fixes w :: nat and product :: "bytes \<Rightarrow> bytes" and coef :: u8
  assumes product: "length s = w \<Longrightarrow> product s = map (gf_mul coef) s"
begin

lemma block:
  assumes "i + w \<le> length out" "length src = length out"
  defines "out' \<equiv> reg_store out i (reg_xor (take w (drop i out)) (product (take w (drop i src))))"
  shows "length out' = length out"
    and "j < length out \<Longrightarrow>
      out' ! j = (if i \<le> j \<and> j < i + w then out ! j XOR gf_mul coef (src ! j) else out ! j)"
proof -
  have "length (take w (drop i src)) = w" using assms by simp
  from product [OF this]
  have out': "out' = take i out @ map2 (\<lambda>o1 s. o1 XOR gf_mul coef s) (take w (drop i out)) (take w (drop i src))
      @ drop (i + w) out"
    using assms by (simp add: out'_def reg_store_def reg_xor_def zip_map2 split_def)
  then show "length out' = length out" using assms by simp
  show "out' ! j = (if i \<le> j \<and> j < i + w then out ! j XOR gf_mul coef (src ! j) else out ! j)"
    if "j < length out"
    unfolding out' using that assms(1,2) by (auto simp: nth_append)
qed

lemma simd_loop_step:
  "0 < w \<Longrightarrow> i + w \<le> length out \<Longrightarrow> simd_loop w product i out src coef =
     simd_loop w product (i + w)
       (reg_store out i (reg_xor (take w (drop i out)) (product (take w (drop i src))))) src coef"
  by (subst simd_loop.simps) (simp add: Let_def)

lemma simd_loop_stop:
  "\<not> (0 < w \<and> i + w \<le> length out) \<Longrightarrow>
     simd_loop w product i out src coef = scalar_tail i out src coef"
  by (subst simd_loop.simps) auto

lemma simd_loop_correct:
  assumes "length src = length out"
  shows "length (simd_loop w product i out src coef) = length out \<and>
    (\<forall>j<length out. simd_loop w product i out src coef ! j =
      (if i \<le> j then out ! j XOR gf_mul coef (src ! j) else out ! j))"
  using assms
proof (induction "length out - i" arbitrary: i out rule: less_induct)
  case less
  show ?case
  proof (cases "0 < w \<and> i + w \<le> length out")
    case True
    let ?out = "reg_store out i (reg_xor (take w (drop i out)) (product (take w (drop i src))))"
    have len: "length ?out = length out" using True less.prems by (simp add: block(1))
    then have "length ?out - (i + w) < length out - i" unfolding len using True by linarith
    from less.hyps [OF this] len less.prems True show ?thesis
      by (auto simp: simd_loop_step block(2))
  next
    case False
    then show ?thesis by (simp add: simd_loop_stop scalar_tail_nth)
  qed
qed

lemma simd_loop_eq_scalar:
  "length src = length out \<Longrightarrow> simd_loop w product 0 out src coef = gf_mul_add_scalar out src coef"
  by (rule nth_equalityI) (simp_all add: simd_loop_correct gf_mul_add_scalar_nth)

end

subsection \<open>The byte-shuffle product\<close>

lemma nibble_tables:
  "gf_nibble_tables coef =
     (map (\<lambda>i. gf_mul coef (of_nat i)) [0..<16], map (\<lambda>i. gf_mul coef (push_bit 4 (of_nat i))) [0..<16])"
  unfolding gf_nibble_tables_def by (subst fold_update_pair_upt) simp_all

lemma low_nibble_less: "unat (x AND 0x0F :: u8) < 16"
proof -
  have "x AND 0x0F = take_bit 4 x" by (simp add: take_bit_eq_mask mask_eq_exp_minus_1)
  then show ?thesis using take_bit_nat_less_exp [of 4 "unat x"] by (simp add: unsigned_take_bit_eq)
qed

lemma high_nibble_mask [simp]: "drop_bit 4 x AND 0x0F = drop_bit 4 (x::u8)"
  by (auto simp: byte_bits bit_simps)

lemma high_nibble_less: "unat (drop_bit 4 x :: u8) < 16"
  using low_nibble_less [of "drop_bit 4 x"] by simp

lemma nibble_split: "x = (x AND 0x0F) XOR push_bit 4 (drop_bit 4 (x::u8))"
  by (auto simp: byte_bits bit_simps)

lemma nibble_product:
  "gf_mul coef (x AND 0x0F) XOR gf_mul coef (push_bit 4 (drop_bit 4 x)) = gf_mul coef x"
  by (metis gf_mul_xor nibble_split)

lemma srli_mask:
  "even (length s) \<Longrightarrow> reg_and_mask (srli_epi16_4 s) 0x0F = map (drop_bit 4) s"
proof (induction s rule: srli_epi16_4.induct)
  case (1 b0 b1 bs)
  have "ucast (drop_bit 4 (ucast b0 OR push_bit 8 (ucast b1) :: u16)) AND 0x0F = drop_bit 4 b0"
    "ucast (drop_bit 8 (drop_bit 4 (ucast b0 OR push_bit 8 (ucast b1) :: u16))) AND 0x0F = drop_bit 4 b1"
    by (auto simp: byte_bits bit_simps)
  with 1 show ?case by (simp add: reg_and_mask_def Let_def)
qed (simp_all add: reg_and_mask_def)

lemma length_srli [simp]: "length (srli_epi16_4 s) = length s"
  by (induction s rule: srli_epi16_4.induct) (simp_all add: Let_def)

lemma shuffle_nibbles:
  assumes "length xs = 16 * lanes" and "\<forall>x\<in>set xs. x AND 0x0F = x"
  shows "shuffle_epi8 (broadcast_128 lanes (map f [0..<16])) xs = map (\<lambda>x. f (unat x)) xs"
proof (rule nth_equalityI)
  fix p assume "p < length (shuffle_epi8 (broadcast_128 lanes (map f [0..<16])) xs)"
  then have p: "p < length xs" by (simp add: shuffle_epi8_def)
  then have mask: "xs ! p AND 0x0F = xs ! p" and lane: "p div 16 < lanes" using assms by auto
  then have small: "unat (xs ! p) < 16" and "\<not> bit (xs ! p) 7"
    using low_nibble_less [of "xs ! p"] bit_and_iff [of "xs ! p" "0x0F" 7] by simp_all
  moreover have "concat (replicate lanes (map f [0..<16])) ! (16 * (p div 16) + unat (xs ! p)) = f (unat (xs ! p))"
    using nth_concat_replicate [of "p div 16" lanes "unat (xs ! p)" "map f [0..<16]"] small lane by simp
  ultimately show "shuffle_epi8 (broadcast_128 lanes (map f [0..<16])) xs ! p = map (\<lambda>x. f (unat x)) xs ! p"
    using p mask by (simp add: shuffle_epi8_def broadcast_128_def)
qed (simp add: shuffle_epi8_def)

lemma vqtbl_nibbles:
  "\<forall>x\<in>set xs. unat x < 16 \<Longrightarrow> vqtbl1q_u8 (map f [0..<16]) xs = map (\<lambda>x. f (unat x)) xs"
  by (simp add: vqtbl1q_u8_def)

lemma shuffle_product:
  assumes "length s = 16 * lanes" "gf_nibble_tables coef = (lo, hi)"
  shows "reg_xor (shuffle_epi8 (broadcast_128 lanes lo) (reg_and_mask s 0x0F))
      (shuffle_epi8 (broadcast_128 lanes hi) (reg_and_mask (srli_epi16_4 s) 0x0F)) = map (gf_mul coef) s"
proof -
  have "reg_and_mask (srli_epi16_4 s) 0x0F = map (drop_bit 4) s"
    using assms(1) by (simp add: srli_mask)
  with assms show ?thesis
    by (auto simp: nibble_tables shuffle_nibbles reg_and_mask_def reg_xor_def zip_map1 zip_map2
        zip_same_conv_map nibble_product and.assoc)
qed

lemma neon_product:
  assumes "gf_nibble_tables coef = (lo, hi)"
  shows "reg_xor (vqtbl1q_u8 lo (reg_and_mask s 0x0F)) (vqtbl1q_u8 hi (vshrq_n_u8_4 s)) = map (gf_mul coef) s"
  using assms
  by (auto simp: nibble_tables vqtbl_nibbles reg_and_mask_def vshrq_n_u8_4_def low_nibble_less
      high_nibble_less reg_xor_def zip_map1 zip_map2 zip_same_conv_map nibble_product)

lemma broadcast_one [simp]: "broadcast_128 (Suc 0) t = t"
  by (simp add: broadcast_128_def)

subsection \<open>The affine product\<close>

lemma bit_fold_or_if:
  "bit (fold (\<lambda>j r. if P j then r OR g j else r) js a) n \<longleftrightarrow>
     bit a n \<or> (\<exists>j\<in>set js. P j \<and> bit (g j) n)" for a :: "'a::len word"
  by (induction js arbitrary: a) (auto simp: bit_or_iff)

lemma bit_low_and_1: "drop_bit i v AND 1 = 1 \<longleftrightarrow> bit (v::u8) i"
  by (simp add: and_one_eq mod2_eq_if bit_iff_odd_drop_bit)

lemma bit_two_power: "bit (2 ^ j :: 'a::len word) n \<longleftrightarrow> n = j \<and> n < LENGTH('a)"
  by (auto simp: bit_exp_iff possible_bit_word)

lemma bit_affine_row: "bit (gf_affine_row coef i) j \<longleftrightarrow> j < 8 \<and> bit (gf_mul coef (2 ^ j)) i"
  unfolding gf_affine_row_def bit_fold_or_if by (auto simp: bit_low_and_1 bit_two_power)

lemma affine_matrix_byte:
  assumes "i < 8"
  shows "ucast (drop_bit (8 * (7 - i)) (gf_affine_matrix coef) AND 0xFF) = gf_affine_row coef i"
proof (rule bit_word_eqI)
  fix t assume t: "t < LENGTH(8)"
  have "(0xFF :: u64) = mask 8" by (simp add: mask_eq_exp_minus_1)
  then have mask: "bit (0xFF :: u64) t" using t by (simp only: bit_mask_iff) (simp add: possible_bit_word)
  have m: "bit (gf_affine_matrix coef) n \<longleftrightarrow>
      n < 64 \<and> (\<exists>i'<8. 8 * (7 - i') \<le> n \<and> bit (gf_affine_row coef i') (n - 8 * (7 - i')))" for n
    unfolding gf_affine_matrix_def Let_def
    using bit_fold_or_if [of "\<lambda>_. True" "\<lambda>i. push_bit (8 * (7 - i)) (ucast (gf_affine_row coef i) :: u64)" "[0..<8]" 0 n]
    by (auto simp: bit_push_bit_iff bit_unsigned_iff dest: bit_imp_le_length)
  have "bit (gf_affine_matrix coef) (8 * (7 - i) + t) \<longleftrightarrow> bit (gf_affine_row coef i) t"
  proof
    assume "bit (gf_affine_matrix coef) (8 * (7 - i) + t)"
    then obtain i' where i': "i' < 8" "8 * (7 - i') \<le> 8 * (7 - i) + t"
      "bit (gf_affine_row coef i') (8 * (7 - i) + t - 8 * (7 - i'))" by (auto simp: m)
    then have "8 * (7 - i) + t - 8 * (7 - i') < 8" by (auto simp: bit_affine_row)
    with i' t assms have "i' = i" by simp
    with i' show "bit (gf_affine_row coef i) t" by simp
  qed (use t assms in \<open>auto simp: m intro!: exI [of _ i]\<close>)
  then show "bit (ucast (drop_bit (8 * (7 - i)) (gf_affine_matrix coef) AND 0xFF) :: u8) t =
      bit (gf_affine_row coef i) t"
    using t mask by (simp add: bit_unsigned_iff bit_and_iff bit_drop_bit_eq)
qed

lemma take_bit_Suc_xor:
  "take_bit (Suc n) x = take_bit n x XOR (if bit x n then 2 ^ n else 0)" for x :: "'a::len word"
  by (rule bit_word_eqI) (auto simp: bit_take_bit_iff bit_xor_iff bit_two_power less_Suc_eq)

lemma bit_gf_mul:
  "bit (gf_mul coef (take_bit n x)) i \<longleftrightarrow>
     odd (length (filter (\<lambda>j. bit x j \<and> bit (gf_mul coef (2 ^ j)) i) [0..<n]))"
proof (induction n)
  case (Suc n)
  then show ?case by (simp add: take_bit_Suc_xor gf_mul_xor bit_xor_iff)
qed simp

lemma affine_byte: "gf2p8affine_byte x (gf_affine_matrix coef) = gf_mul coef x"
proof (rule bit_word_eqI)
  fix i assume i: "i < LENGTH(8)"
  have parity: "count_ones (gf_affine_row coef i AND x) mod 2 = Suc 0 \<longleftrightarrow> bit (gf_mul coef x) i" for i
  proof -
    have "filter (bit (gf_affine_row coef i AND x)) [0..<8] =
        filter (\<lambda>j. bit x j \<and> bit (gf_mul coef (2 ^ j)) i) [0..<8]"
      by (rule filter_cong) (auto simp: bit_and_iff bit_affine_row)
    then show ?thesis
      using bit_gf_mul [of coef 8 x i]
      by (simp add: count_ones_def odd_iff_mod_2_eq_one take_bit_word_eq_self)
  qed
  show "bit (gf2p8affine_byte x (gf_affine_matrix coef)) i = bit (gf_mul coef x) i"
    unfolding gf2p8affine_byte_def Let_def bit_fold_or_if
    using i by (auto simp: affine_matrix_byte parity bit_two_power)
qed

subsection \<open>The rungs\<close>

text \<open>The product each vector kernel hands its loop, with the nibble tables filled in.\<close>

abbreviation shuffle_step :: "nat \<Rightarrow> u8 \<Rightarrow> bytes \<Rightarrow> bytes" where
  "shuffle_step lanes coef s \<equiv>
     reg_xor
       (shuffle_epi8 (broadcast_128 lanes (fst (gf_nibble_tables coef))) (reg_and_mask s 0x0F))
       (shuffle_epi8 (broadcast_128 lanes (snd (gf_nibble_tables coef)))
         (reg_and_mask (srli_epi16_4 s) 0x0F))"

abbreviation neon_step :: "u8 \<Rightarrow> bytes \<Rightarrow> bytes" where
  "neon_step coef s \<equiv>
     reg_xor (vqtbl1q_u8 (fst (gf_nibble_tables coef)) (reg_and_mask s 0x0F))
       (vqtbl1q_u8 (snd (gf_nibble_tables coef)) (vshrq_n_u8_4 s))"

interpretation ssse3: vector_kernel 16 "shuffle_step 1 coef" coef for coef
  by unfold_locales (rule shuffle_product, simp_all)

interpretation avx2: vector_kernel 32 "shuffle_step 2 coef" coef for coef
  by unfold_locales (rule shuffle_product, simp_all)

interpretation avx512: vector_kernel 64 "shuffle_step 4 coef" coef for coef
  by unfold_locales (rule shuffle_product, simp_all)

interpretation neon: vector_kernel 16 "neon_step coef" coef for coef
  by unfold_locales (rule neon_product, simp)

interpretation gfni256: vector_kernel 32 "\<lambda>s. gf2p8affine_epi64_epi8 s (gf_affine_matrix coef)" coef
  for coef
  by unfold_locales (simp add: gf2p8affine_epi64_epi8_def affine_byte)

interpretation gfni512: vector_kernel 64 "\<lambda>s. gf2p8affine_epi64_epi8 s (gf_affine_matrix coef)" coef
  for coef
  by unfold_locales (simp add: gf2p8affine_epi64_epi8_def affine_byte)

lemma affine_scalar_eq: "gf_mul_add_affine_scalar out src coef = gf_mul_add_scalar out src coef"
proof -
  have "gf_mul_add_affine_loop (gf_affine_matrix coef) out src = gf_mul_add_scalar out src coef"
    by (induction out src coef rule: gf_mul_add_scalar.induct) (simp_all add: affine_byte)
  then show ?thesis by (simp add: gf_mul_add_affine_scalar_def)
qed

lemma backend_eq_scalar:
  assumes "length src = length out"
  shows "gf_mul_add_backend ar b out src coef = gf_mul_add_scalar out src coef"
proof -
  obtain lo hi where t: "gf_nibble_tables coef = (lo, hi)" by fastforce
  note kernels = ssse3.simd_loop_eq_scalar [OF assms, of coef] avx2.simd_loop_eq_scalar [OF assms, of coef]
    avx512.simd_loop_eq_scalar [OF assms, of coef] neon.simd_loop_eq_scalar [OF assms, of coef]
    gfni256.simd_loop_eq_scalar [OF assms, of coef] gfni512.simd_loop_eq_scalar [OF assms, of coef]
  show ?thesis
    using kernels t
    by (cases b) (simp_all add: gf_mul_add_backend_def affine_scalar_eq gf_mul_add_ssse3_def
        gf_mul_add_avx2_def gf_mul_add_avx512_def gf_mul_add_neon_def gf_mul_add_gfni256_def
        gf_mul_add_gfni512_def)
qed

lemma gf_mul_add_eq:
  assumes "length src = length out"
  shows "gf_mul_add ar b out src coef = map2 (\<lambda>o1 s. o1 XOR gf_mul coef s) out src"
proof -
  have "xor_into out src = map2 (XOR) out src"
    using assms by (induction out src rule: xor_into.induct) simp_all
  moreover have "map2 (\<lambda>o1 s. o1) out src = out"
    using assms by (simp add: case_prod_unfold)
  ultimately show ?thesis
    using assms by (simp add: gf_mul_add_def backend_eq_scalar gf_mul_add_scalar_map2)
qed

lemma scale_chunks_eq: "scale_chunks ar b v coef = map (gf_mul coef) v"
proof (induction ar b v coef rule: scale_chunks.induct)
  case (1 ar b v coef)
  have "gf_mul_add_backend ar b (replicate (length c) 0) c coef = map (gf_mul coef) c" for c
    by (simp add: backend_eq_scalar gf_mul_add_scalar_map2 zip_replicate1)
  with 1 show ?case
    by (subst scale_chunks.simps) (auto simp: Let_def simp flip: map_append)
qed

lemma gf_mul_backend_eq: "gf_mul_backend ar b v coef = map (gf_mul coef) v"
proof -
  have "map (gf_mul 0) v = replicate (length v) 0" by (induction v) simp_all
  then show ?thesis by (simp add: gf_mul_backend_def scale_chunks_eq map_idI)
qed

section \<open>Accumulating a linear combination\<close>

text \<open>
  What the codes built on the kernels rely on: a multiply-add routine that adds \<open>coef * src\<close> to
  the buffer byte by byte. Accumulating several sources gives, in every byte position, the linear
  combination over the field.
\<close>

locale gf_accumulator =
  fixes mul_add :: "bytes \<Rightarrow> bytes \<Rightarrow> u8 \<Rightarrow> bytes"
  assumes mul_add: "length src = length out \<Longrightarrow> mul_add out src coef = map2 (\<lambda>o1 s. o1 XOR gf_mul coef s) out src"
begin

lemma length_mul_add [simp]: "length src = length out \<Longrightarrow> length (mul_add out src coef) = length out"
  by (simp add: mul_add)

lemma mul_add_nth:
  "length src = length out \<Longrightarrow> i < length out \<Longrightarrow>
     GF (mul_add out src coef ! i) = GF (out ! i) + GF coef * GF (src ! i)"
  by (simp add: mul_add GF_simps)

lemma accumulate:
  assumes "\<forall>c\<in>set cs. length (src c) = length out"
  shows "length (fold (\<lambda>c acc. mul_add acc (src c) (coef c)) cs out) = length out"
    and "i < length out \<Longrightarrow> GF (fold (\<lambda>c acc. mul_add acc (src c) (coef c)) cs out ! i) =
      GF (out ! i) + (\<Sum>c\<leftarrow>cs. GF (coef c) * GF (src c ! i))"
  using assms by (induction cs arbitrary: out) (simp_all add: mul_add_nth add.assoc)

end

interpretation kernel: gf_accumulator "gf_mul_add ar b" for ar b
  by unfold_locales (rule gf_mul_add_eq)

section \<open>Properties\<close>

text \<open>
  C6. Whatever the host: on every architecture and for every rung of the ladder, including the
  rungs that take the fallback arm there, the multiply-add kernel (byte-shuffle with nibble tables,
  affine transform in hardware or emulated, or scalar) writes exactly the bytes of the scalar
  kernel when the two buffers have the same length, and so does the entry point with its shortcuts
  for the coefficients 0 and 1.
\<close>

theorem gf_backends_agree:
  assumes "length src = length out"
  shows "gf_mul_add_backend ar b out src coef = gf_mul_add_scalar out src coef \<and>
    gf_mul_add ar b out src coef = gf_mul_add_scalar out src coef"
  using assms by (simp add: backend_eq_scalar gf_mul_add_eq gf_mul_add_scalar_map2)

theorem gf_backends_agree_witness:
  "gf_mul_add_backend X86_64 Avx2 (replicate 40 7) (replicate 40 3) 5
     = gf_mul_add_scalar (replicate 40 7) (replicate 40 3) 5 \<and>
   gf_mul_add X86_64 Gfni512 [1, 2, 3] [4, 5, 6] 1 = gf_mul_add_scalar [1, 2, 3] [4, 5, 6] 1"
  using gf_backends_agree [of "replicate 40 3" "replicate 40 7" X86_64 Avx2 5]
    gf_backends_agree [of "[4, 5, 6]" "[1, 2, 3]" X86_64 Gfni512 1]
  by simp

text \<open>
  Backend selection: the detector returns a rung the host can run, the first call through the
  cache returns it and stores it, and every later call returns the same rung and leaves the cache
  alone.
\<close>

lemma current_backend_cached:
  "available ar feature (detect_best_backend ar feature) \<and>
   current_backend ar feature BACKEND_UNINIT =
     (detect_best_backend ar feature, backend_to_u8 (detect_best_backend ar feature)) \<and>
   current_backend ar feature (backend_to_u8 (detect_best_backend ar feature)) =
     (detect_best_backend ar feature, backend_to_u8 (detect_best_backend ar feature))"
proof -
  have "available ar feature Scalar" by (simp add: available_def)
  then have "available ar feature (detect_best_backend ar feature)"
    by (auto simp: detect_best_backend_def find_Some_iff split: option.splits)
  moreover have "from_u8 (backend_to_u8 b) = b" "backend_to_u8 b \<noteq> BACKEND_UNINIT" for b
    by (cases b; simp add: from_u8_def BACKEND_UNINIT_def)+
  ultimately show ?thesis by (simp add: current_backend_def Let_def)
qed

end
