(* ===== verification/Reed_Solomon.thy ===== *)
theory Reed_Solomon
  imports Gf_Kernels
begin

text \<open>
  The systematic Cauchy Reed-Solomon block code of \<^verbatim>\<open>crates/subetha-cxc/src/fec.rs\<close>: the code
  object with its parity matrix, \<open>encode\<close>, \<open>decode\<close>, and the Gauss-Jordan inversion the decoder
  runs over row-major byte matrices. The theory shows the inversion sound (its result is a left
  inverse) and complete (it fails only on a singular matrix), that every square submatrix the
  survivors select is invertible because the parity part is a Cauchy matrix, and from the two that
  the code is MDS: any k of the k + r shards reconstruct the block.
\<close>

section \<open>The code object\<close>

record RsCode =
  rs_k :: nat
  rs_r :: nat
  rs_cauchy :: bytes
  rs_backend :: "GfBackend option"

datatype FecError = BadParams | TooFewShards | BadShardLen

definition rs_new :: "nat \<Rightarrow> nat \<Rightarrow> FecError + RsCode" where
  "rs_new k r =
     (if k = 0 \<or> r = 0 \<or> k + r > 256 then Inl BadParams
      else Inr \<lparr>rs_k = k, rs_r = r,
        rs_cauchy =
          fold (\<lambda>j cauchy.
              fold (\<lambda>c cauchy.
                  let x = (of_nat (k + j) :: u8) XOR of_nat c
                  in cauchy[j * k + c := gf_inv x])
                [0..<k] cauchy)
            [0..<r] (replicate (r * k) 0),
        rs_backend = None\<rparr>)"

definition with_backend :: "RsCode \<Rightarrow> GfBackend option \<Rightarrow> RsCode" where
  "with_backend code b = code\<lparr>rs_backend := b\<rparr>"

definition effective_backend :: "RsCode \<Rightarrow> GfBackend \<Rightarrow> GfBackend" where
  "effective_backend code current = (case rs_backend code of Some b \<Rightarrow> b | None \<Rightarrow> current)"

section \<open>Encoding\<close>

definition encode :: "arch \<Rightarrow> GfBackend \<Rightarrow> RsCode \<Rightarrow> bytes list \<Rightarrow> bytes list \<Rightarrow> FecError + bytes list" where
  "encode ar current code data parity =
     (if length data \<noteq> rs_k code \<or> length parity \<noteq> rs_r code then Inl BadParams
      else let len = length (data ! 0) in
        if len = 0 \<or> (\<exists>s\<in>set data. length s \<noteq> len) \<or> (\<exists>s\<in>set parity. length s \<noteq> len)
        then Inl BadShardLen
        else let backend = effective_backend code current in
          Inr (fold (\<lambda>j parity.
                 let row = take (rs_k code) (drop (j * rs_k code) (rs_cauchy code)) in
                 parity[j :=
                   fold (\<lambda>c acc.
                       let coef = row ! c
                       in if coef \<noteq> 0 then gf_mul_add ar backend acc (data ! c) coef else acc)
                     [0..<rs_k code] (replicate (length (parity ! j)) 0)])
               [0..<rs_r code] parity))"

section \<open>Inverting a matrix\<close>

function find_pivot :: "bytes \<Rightarrow> nat \<Rightarrow> nat \<Rightarrow> nat \<Rightarrow> nat" where
  "find_pivot a n col piv =
     (if piv < n \<and> a ! (piv * n + col) = 0 then find_pivot a n col (piv + 1) else piv)"
  by pat_completeness auto
termination
  by (relation "measure (\<lambda>(_, n, _, piv). n - piv)") auto

declare find_pivot.simps [simp del]

definition swap_at :: "bytes \<Rightarrow> nat \<Rightarrow> nat \<Rightarrow> bytes" where
  "swap_at a i j = a[i := a ! j, j := a ! i]"

definition swap_rows :: "nat \<Rightarrow> nat \<Rightarrow> nat \<Rightarrow> bytes \<times> bytes \<Rightarrow> bytes \<times> bytes" where
  "swap_rows n col piv =
     fold (\<lambda>c (a, inv). (swap_at a (col * n + c) (piv * n + c), swap_at inv (col * n + c) (piv * n + c)))
       [0..<n]"

definition normalize_row :: "nat \<Rightarrow> nat \<Rightarrow> bytes \<times> bytes \<Rightarrow> bytes \<times> bytes" where
  "normalize_row n col ai =
     (let pv = fst ai ! (col * n + col);
          pinv = gf_inv pv
      in fold (\<lambda>c (a, inv).
             (a[col * n + c := gf_mul (a ! (col * n + c)) pinv],
              inv[col * n + c := gf_mul (inv ! (col * n + c)) pinv]))
           [0..<n] ai)"

definition eliminate_row :: "nat \<Rightarrow> nat \<Rightarrow> nat \<Rightarrow> bytes \<times> bytes \<Rightarrow> bytes \<times> bytes" where
  "eliminate_row n col row ai =
     (if row = col then ai
      else let factor = fst ai ! (row * n + col) in
        if factor = 0 then ai
        else fold (\<lambda>c (a, inv).
               (a[row * n + c := a ! (row * n + c) XOR gf_mul factor (a ! (col * n + c))],
                inv[row * n + c := inv ! (row * n + c) XOR gf_mul factor (inv ! (col * n + c))]))
             [0..<n] ai)"

fun invert_cols :: "nat \<Rightarrow> nat list \<Rightarrow> bytes \<times> bytes \<Rightarrow> bytes option" where
  "invert_cols n [] ai = Some (snd ai)"
| "invert_cols n (col # cols) ai =
     (let piv = find_pivot (fst ai) n col col in
      if piv = n then None
      else let ai = (if piv \<noteq> col then swap_rows n col piv ai else ai);
               ai = normalize_row n col ai;
               ai = fold (eliminate_row n col) [0..<n] ai
           in invert_cols n cols ai)"

definition invert :: "bytes \<Rightarrow> nat \<Rightarrow> bytes option" where
  "invert m n =
     invert_cols n [0..<n] (m, fold (\<lambda>i inv. inv[i * n + i := 1]) [0..<n] (replicate (n * n) 0))"

section \<open>Decoding\<close>

definition enc_entry :: "RsCode \<Rightarrow> nat \<Rightarrow> nat \<Rightarrow> u8" where
  "enc_entry code row col =
     (if row < rs_k code then (if row = col then 1 else 0)
      else rs_cauchy code ! ((row - rs_k code) * rs_k code + col))"

text \<open>The loop that picks the first k surviving shard positions and checks their length.\<close>

fun pick_survivors ::
    "nat \<Rightarrow> nat \<Rightarrow> bytes option list \<Rightarrow> nat list \<Rightarrow> nat \<Rightarrow> FecError + nat list \<times> nat" where
  "pick_survivors k idx [] surv len = Inr (surv, len)"
| "pick_survivors k idx (s # ss) surv len =
     (case s of
        Some v \<Rightarrow>
          (if length surv < k then
             (if len = 0 then pick_survivors k (idx + 1) ss (surv @ [idx]) (length v)
              else if length v \<noteq> len then Inl BadShardLen
              else pick_survivors k (idx + 1) ss (surv @ [idx]) len)
           else pick_survivors k (idx + 1) ss surv len)
      | None \<Rightarrow> pick_survivors k (idx + 1) ss surv len)"

text \<open>The encoding-matrix rows of the survivors, and the loop that rebuilds the missing data shards.\<close>

definition survivor_matrix :: "RsCode \<Rightarrow> nat list \<Rightarrow> bytes" where
  "survivor_matrix code surv =
     (let k = rs_k code in
      fold (\<lambda>row a. fold (\<lambda>c a. a[row * k + c := enc_entry code (surv ! row) c]) [0..<k] a)
        [0..<k] (replicate (k * k) 0))"

definition recover_shards ::
    "arch \<Rightarrow> GfBackend \<Rightarrow> nat \<Rightarrow> nat \<Rightarrow> nat list \<Rightarrow> bytes \<Rightarrow> bytes option list \<Rightarrow> bytes option list" where
  "recover_shards ar backend k len surv iv =
     fold (\<lambda>i shards.
         if shards ! i \<noteq> None then shards
         else shards[i := Some
           (fold (\<lambda>j out.
               let coef = iv ! (i * k + j)
               in if coef = 0 then out
                  else gf_mul_add ar backend out (the (shards ! (surv ! j))) coef)
             [0..<k] (replicate len 0))])
       [0..<k]"

definition decode :: "arch \<Rightarrow> GfBackend \<Rightarrow> RsCode \<Rightarrow> bytes option list \<Rightarrow> FecError + bytes option list" where
  "decode ar current code shards =
     (let k = rs_k code; n = k + rs_r code in
      if length shards \<noteq> n then Inl BadParams
      else if \<forall>i\<in>set [0..<k]. shards ! i \<noteq> None then Inr shards
      else (case pick_survivors k 0 shards [] 0 of
        Inl e \<Rightarrow> Inl e
      | Inr (surv, len) \<Rightarrow>
          (if length surv < k \<or> len = 0 then Inl TooFewShards
           else (case invert (survivor_matrix code surv) k of
             None \<Rightarrow> Inl TooFewShards
           | Some iv \<Rightarrow>
               Inr (recover_shards ar (effective_backend code current) k len surv iv shards)))))"

section \<open>Row-major matrices\<close>

text \<open>
  A loop over the columns of a row-major matrix, each round of which reads and writes only its own
  column, leaves in every entry what its own round computes on the original matrix.
\<close>

lemma column_loop:
  assumes len: "\<And>c a. length (step c a) = length (a :: 'a list)"
    and other: "\<And>c a i. c < n \<Longrightarrow> i mod n \<noteq> c \<Longrightarrow> step c a ! i = a ! i"
    and own: "\<And>c a i. c < n \<Longrightarrow> length a = length a0 \<Longrightarrow> i < length a0 \<Longrightarrow> i mod n = c \<Longrightarrow>
      (\<And>j. j < length a0 \<Longrightarrow> j mod n = c \<Longrightarrow> a ! j = a0 ! j) \<Longrightarrow> step c a ! i = step c a0 ! i"
    and i: "i < length a0" "0 < n"
  shows "length (fold step [0..<n] a0) = length a0 \<and> fold step [0..<n] a0 ! i = step (i mod n) a0 ! i"
proof -
  have "length (fold step [0..<m] a0) = length a0 \<and>
      (\<forall>i<length a0. fold step [0..<m] a0 ! i = (if i mod n < m then step (i mod n) a0 ! i else a0 ! i))"
    if "m \<le> n" for m
    using that
  proof (induction m)
    case (Suc m)
    let ?b = "fold step [0..<m] a0"
    from Suc have b: "length ?b = length a0"
      "\<forall>i<length a0. ?b ! i = (if i mod n < m then step (i mod n) a0 ! i else a0 ! i)" by auto
    have "step m ?b ! i = (if i mod n < Suc m then step (i mod n) a0 ! i else a0 ! i)"
      if "i < length a0" for i
    proof (cases "i mod n = m")
      case True
      have "step m ?b ! i = step m a0 ! i"
        using Suc.prems that True b by (intro own) auto
      with True show ?thesis by simp
    next
      case False
      then have "step m ?b ! i = ?b ! i" using Suc.prems by (intro other) auto
      with False b that show ?thesis by auto
    qed
    with b show ?case by (simp add: len)
  qed simp
  from this [of n] i show ?thesis by simp
qed

lemma other_column [simp]: "c < n \<Longrightarrow> i mod n \<noteq> c \<Longrightarrow> p * n + c \<noteq> i" for c i n p :: nat
  by auto

text \<open>The field matrix a byte buffer stands for.\<close>

definition mat :: "nat \<Rightarrow> bytes \<Rightarrow> nat \<Rightarrow> nat \<Rightarrow> gf256" where
  "mat n a i j = GF (a ! (i * n + j))"

lemma mat_update:
  "p * n + q < length a \<Longrightarrow> j < n \<Longrightarrow> q < n \<Longrightarrow>
     mat n (a[p * n + q := v]) i j = (if i = p \<and> j = q then GF v else mat n a i j)"
  by (simp add: mat_def nth_list_update row_major_eq_iff)

text \<open>The two nested loops that fill a matrix entry by entry.\<close>

lemma fill_loop:
  assumes "m \<le> r" "length a = r * k"
  shows "length (fold (\<lambda>row a. fold (\<lambda>c a. a[row * k + c := f row c]) [0..<k] a) [0..<m] a) = r * k \<and>
    (\<forall>i<r. \<forall>j<k. fold (\<lambda>row a. fold (\<lambda>c a. a[row * k + c := f row c]) [0..<k] a) [0..<m] a ! (i * k + j) =
      (if i < m then f i j else a ! (i * k + j)))"
  using assms(1)
proof (induction m)
  case 0
  then show ?case using assms by simp
next
  case (Suc m)
  let ?b = "fold (\<lambda>row a. fold (\<lambda>c a. a[row * k + c := f row c]) [0..<k] a) [0..<m] a"
  let ?step = "\<lambda>c a. a[m * k + c := f m c]"
  have len: "length ?b = r * k" using Suc by simp
  have lens: "length (fold ?step cs b) = length b" for cs b by (induction cs arbitrary: b) simp_all
  have "fold ?step [0..<k] ?b ! (i * k + j) = (if i < Suc m then f i j else a ! (i * k + j))"
    if "i < r" "j < k" for i j
  proof -
    have "fold ?step [0..<k] ?b ! (i * k + j) = ?step ((i * k + j) mod k) ?b ! (i * k + j)"
      by (rule column_loop [THEN conjunct2])
        (use that Suc.prems row_major_less in \<open>auto simp: len nth_list_update\<close>)
    then show ?thesis
      using that Suc len row_major_less [of _ r _ k]
      by (auto simp: nth_list_update row_major_eq_iff less_Suc_eq)
  qed
  with len lens show ?case by simp
qed

lemma swap_loop:
  assumes "length a = n * n" "p < n" "q < n" "i < n" "j < n"
  shows "length (fold (\<lambda>c a. swap_at a (p * n + c) (q * n + c)) [0..<n] a) = n * n \<and>
    mat n (fold (\<lambda>c a. swap_at a (p * n + c) (q * n + c)) [0..<n] a) i j =
      mat n a (if i = p then q else if i = q then p else i) j"
proof -
  let ?step = "\<lambda>c a. swap_at a (p * n + c) (q * n + c)"
  have "length (fold ?step [0..<n] a) = length a \<and>
      fold ?step [0..<n] a ! (i * n + j) = ?step ((i * n + j) mod n) a ! (i * n + j)"
    by (rule column_loop) (use assms row_major_less in \<open>auto simp: swap_at_def nth_list_update\<close>)
  then show ?thesis
    using assms row_major_less [of _ n _ n]
    by (auto simp: mat_def swap_at_def nth_list_update row_major_eq_iff)
qed

lemma scale_loop:
  assumes "length a = n * n" "p < n" "i < n" "j < n"
  shows "length (fold (\<lambda>c a. a[p * n + c := gf_mul (a ! (p * n + c)) s]) [0..<n] a) = n * n \<and>
    mat n (fold (\<lambda>c a. a[p * n + c := gf_mul (a ! (p * n + c)) s]) [0..<n] a) i j =
      (if i = p then mat n a i j * GF s else mat n a i j)"
proof -
  let ?step = "\<lambda>c a. a[p * n + c := gf_mul (a ! (p * n + c)) s]"
  have "length (fold ?step [0..<n] a) = length a \<and>
      fold ?step [0..<n] a ! (i * n + j) = ?step ((i * n + j) mod n) a ! (i * n + j)"
    by (rule column_loop) (use assms row_major_less in \<open>auto simp: nth_list_update\<close>)
  then show ?thesis
    using assms row_major_less [of _ n _ n]
    by (auto simp: mat_def nth_list_update row_major_eq_iff GF_simps)
qed

lemma add_row_loop:
  assumes "length a = n * n" "p < n" "q < n" "p \<noteq> q" "i < n" "j < n"
  shows "length (fold (\<lambda>c a. a[p * n + c := a ! (p * n + c) XOR gf_mul f (a ! (q * n + c))]) [0..<n] a) = n * n \<and>
    mat n (fold (\<lambda>c a. a[p * n + c := a ! (p * n + c) XOR gf_mul f (a ! (q * n + c))]) [0..<n] a) i j =
      (if i = p then mat n a i j + GF f * mat n a q j else mat n a i j)"
proof -
  let ?step = "\<lambda>c a. a[p * n + c := a ! (p * n + c) XOR gf_mul f (a ! (q * n + c))]"
  have "length (fold ?step [0..<n] a) = length a \<and>
      fold ?step [0..<n] a ! (i * n + j) = ?step ((i * n + j) mod n) a ! (i * n + j)"
    by (rule column_loop) (use assms row_major_less in \<open>auto simp: nth_list_update\<close>)
  then show ?thesis
    using assms row_major_less [of _ n _ n]
    by (auto simp: mat_def nth_list_update row_major_eq_iff GF_simps)
qed

section \<open>Row operations on field matrices\<close>

text \<open>
  The same three row operations on functions, and what they keep: a product \<open>B M\<close> that equals the
  matrix being reduced, and the solutions of its homogeneous system.
\<close>

definition swapm :: "nat \<Rightarrow> nat \<Rightarrow> (nat \<Rightarrow> nat \<Rightarrow> gf256) \<Rightarrow> nat \<Rightarrow> nat \<Rightarrow> gf256" where
  "swapm p q A i j = A (if i = p then q else if i = q then p else i) j"

definition scalem :: "nat \<Rightarrow> gf256 \<Rightarrow> (nat \<Rightarrow> nat \<Rightarrow> gf256) \<Rightarrow> nat \<Rightarrow> nat \<Rightarrow> gf256" where
  "scalem p s A i j = (if i = p then A i j * s else A i j)"

definition elimm :: "nat \<Rightarrow> (nat \<Rightarrow> gf256) \<Rightarrow> (nat \<Rightarrow> nat \<Rightarrow> gf256) \<Rightarrow> nat \<Rightarrow> nat \<Rightarrow> gf256" where
  "elimm p f A i j = (if i = p then A i j else A i j + f i * A p j)"

definition mulmv :: "nat \<Rightarrow> (nat \<Rightarrow> nat \<Rightarrow> gf256) \<Rightarrow> (nat \<Rightarrow> gf256) \<Rightarrow> nat \<Rightarrow> gf256" where
  "mulmv n A x i = (\<Sum>j<n. A i j * x j)"

definition reduces :: "nat \<Rightarrow> (nat \<Rightarrow> nat \<Rightarrow> gf256) \<Rightarrow> (nat \<Rightarrow> nat \<Rightarrow> gf256) \<Rightarrow> (nat \<Rightarrow> nat \<Rightarrow> gf256) \<Rightarrow> bool" where
  "reduces n M A B \<longleftrightarrow>
     (\<forall>i<n. \<forall>j<n. A i j = mulmv n B (\<lambda>l. M l j) i) \<and>
     (\<forall>x. (\<forall>i<n. mulmv n A x i = 0) \<longrightarrow> (\<forall>i<n. mulmv n M x i = 0))"

lemma reduces_cong:
  assumes "\<And>i j. i < n \<Longrightarrow> j < n \<Longrightarrow> A i j = A' i j" "\<And>i j. i < n \<Longrightarrow> j < n \<Longrightarrow> B i j = B' i j"
  shows "reduces n M A B \<longleftrightarrow> reduces n M A' B'"
proof -
  have "mulmv n A x i = mulmv n A' x i" "mulmv n B x i = mulmv n B' x i" if "i < n" for x i
    using that assms by (auto simp: mulmv_def intro!: sum.cong)
  with assms show ?thesis by (simp add: reduces_def)
qed

lemma mulmv_swapm: "mulmv n (swapm p q A) x i = mulmv n A x (if i = p then q else if i = q then p else i)"
  by (simp add: mulmv_def swapm_def)

lemma mulmv_scalem: "mulmv n (scalem p s A) x i = (if i = p then mulmv n A x i * s else mulmv n A x i)"
  by (simp add: mulmv_def scalem_def sum_distrib_left ac_simps)

lemma mulmv_elimm:
  "mulmv n (elimm p f A) x i = (if i = p then mulmv n A x i else mulmv n A x i + f i * mulmv n A x p)"
  by (simp add: mulmv_def elimm_def sum_distrib_left sum.distrib ring_distribs ac_simps)

lemma reduces_swapm:
  assumes "reduces n M A B" "p < n" "q < n"
  shows "reduces n M (swapm p q A) (swapm p q B)"
  unfolding reduces_def
proof (intro conjI allI impI)
  fix i j assume "i < n" "j < n"
  with assms show "swapm p q A i j = mulmv n (swapm p q B) (\<lambda>l. M l j) i"
    by (simp add: reduces_def mulmv_swapm) (simp add: swapm_def)
next
  fix x i assume zero: "\<forall>i<n. mulmv n (swapm p q A) x i = 0" and i: "i < n"
  have "mulmv n A x l = 0" if "l < n" for l
    using zero [rule_format, of p] zero [rule_format, of q] zero [rule_format, of l] that assms
    by (cases "l = p"; cases "l = q") (auto simp: mulmv_swapm)
  with assms i show "mulmv n M x i = 0" by (simp add: reduces_def)
qed

lemma reduces_scalem:
  assumes "reduces n M A B" "p < n" "s \<noteq> 0"
  shows "reduces n M (scalem p s A) (scalem p s B)"
  unfolding reduces_def
proof (intro conjI allI impI)
  fix i j assume "i < n" "j < n"
  with assms show "scalem p s A i j = mulmv n (scalem p s B) (\<lambda>l. M l j) i"
    by (simp add: reduces_def mulmv_scalem) (simp add: scalem_def)
next
  fix x i assume zero: "\<forall>i<n. mulmv n (scalem p s A) x i = 0" and i: "i < n"
  have "mulmv n A x l = 0" if "l < n" for l
    using zero [rule_format, of l] that assms by (auto simp: mulmv_scalem split: if_splits)
  with assms i show "mulmv n M x i = 0" by (simp add: reduces_def)
qed

lemma reduces_elimm:
  assumes "reduces n M A B" "p < n"
  shows "reduces n M (elimm p f A) (elimm p f B)"
  unfolding reduces_def
proof (intro conjI allI impI)
  fix i j assume "i < n" "j < n"
  with assms show "elimm p f A i j = mulmv n (elimm p f B) (\<lambda>l. M l j) i"
    by (simp add: reduces_def mulmv_elimm) (simp add: elimm_def)
next
  fix x i assume zero: "\<forall>i<n. mulmv n (elimm p f A) x i = 0" and i: "i < n"
  have "mulmv n A x p = 0" using zero [rule_format, OF assms(2)] by (simp add: mulmv_elimm)
  then have "mulmv n A x l = 0" if "l < n" for l
    using zero [rule_format, OF that] by (auto simp: mulmv_elimm split: if_splits)
  with assms i show "mulmv n M x i = 0" by (simp add: reduces_def)
qed

text \<open>After the first \<open>m\<close> columns are cleared, they are the unit vectors.\<close>

definition cleared :: "nat \<Rightarrow> nat \<Rightarrow> (nat \<Rightarrow> nat \<Rightarrow> gf256) \<Rightarrow> bool" where
  "cleared n m A \<longleftrightarrow> (\<forall>j<m. \<forall>i<n. A i j = (if i = j then 1 else 0))"

lemma cleared_swapm:
  "cleared n m A \<Longrightarrow> m \<le> p \<Longrightarrow> m \<le> q \<Longrightarrow> p < n \<Longrightarrow> q < n \<Longrightarrow> cleared n m (swapm p q A)"
  by (auto simp: cleared_def swapm_def)

lemma cleared_step:
  assumes "cleared n m A" "m < n" "A m m \<noteq> 0"
  shows "cleared n (Suc m) (elimm m (\<lambda>i. A i m) (scalem m (inverse (A m m)) A))"
  using assms by (auto simp: cleared_def elimm_def scalem_def less_Suc_eq)

text \<open>No pivot in the next column means a nonzero solution of the homogeneous system.\<close>

lemma no_pivot_singular:
  assumes "cleared n m A" "m < n" "\<And>i. m \<le> i \<Longrightarrow> i < n \<Longrightarrow> A i m = 0"
  shows "\<exists>x. x m = 1 \<and> (\<forall>i<n. mulmv n A x i = 0)"
proof -
  define x where "x = (\<lambda>j. if j = m then 1 else if j < m then A j m else 0)"
  have "mulmv n A x i = 0" if i: "i < n" for i
  proof -
    have "mulmv n A x i = (\<Sum>j<n. if j = m then A i m else if j = i \<and> i < m then A i m else 0)"
      unfolding mulmv_def
      by (rule sum.cong) (use assms(1,2) i in \<open>auto simp: x_def cleared_def\<close>)
    also have "\<dots> = (\<Sum>j<n. (if j = m then A i m else 0) + (if j = i then (if i < m then A i m else 0) else 0))"
      by (rule sum.cong) auto
    also have "\<dots> = A i m + (if i < m then A i m else 0)"
      using assms(2) i by (simp add: sum.distrib)
    finally show ?thesis using assms(3) [of i] i by (cases "i < m") auto
  qed
  then show ?thesis by (intro exI [of _ x]) (simp add: x_def)
qed

section \<open>The inversion is sound and complete\<close>

text \<open>The byte buffers hold \<open>n\<close> by \<open>n\<close> matrices that agree with field matrices \<open>A\<close> and \<open>B\<close>.\<close>

definition holds :: "nat \<Rightarrow> bytes \<times> bytes \<Rightarrow> (nat \<Rightarrow> nat \<Rightarrow> gf256) \<Rightarrow> (nat \<Rightarrow> nat \<Rightarrow> gf256) \<Rightarrow> bool" where
  "holds n ai A B \<longleftrightarrow>
     length (fst ai) = n * n \<and> length (snd ai) = n * n \<and>
     (\<forall>i<n. \<forall>j<n. mat n (fst ai) i j = A i j \<and> mat n (snd ai) i j = B i j)"

lemma find_pivot_spec:
  "piv \<le> n \<Longrightarrow> piv \<le> find_pivot a n col piv \<and> find_pivot a n col piv \<le> n \<and>
     (\<forall>i. piv \<le> i \<longrightarrow> i < find_pivot a n col piv \<longrightarrow> a ! (i * n + col) = 0) \<and>
     (find_pivot a n col piv < n \<longrightarrow> a ! (find_pivot a n col piv * n + col) \<noteq> 0)"
proof (induction a n col piv rule: find_pivot.induct)
  case (1 a n col piv)
  show ?case
  proof (cases "piv < n \<and> a ! (piv * n + col) = 0")
    case True
    then have eq: "find_pivot a n col piv = find_pivot a n col (piv + 1)"
      by (subst find_pivot.simps) simp
    have "a ! (i * n + col) = 0" if "piv \<le> i" "i < find_pivot a n col (piv + 1)" for i
      using that 1 True by (cases "i = piv") auto
    with 1 True show ?thesis unfolding eq by auto
  next
    case False
    then have "find_pivot a n col piv = piv" by (subst find_pivot.simps) auto
    with 1 False show ?thesis by auto
  qed
qed

lemma swap_rows_holds:
  assumes "holds n ai A B" "p < n" "q < n"
  shows "holds n (swap_rows n p q ai) (swapm p q A) (swapm p q B)"
  using assms swap_loop [of "fst ai" n p q] swap_loop [of "snd ai" n p q]
  by (cases ai) (auto simp: holds_def swap_rows_def fold_pair swapm_def)

lemma normalize_row_holds:
  assumes "holds n ai A B" "p < n" "A p p \<noteq> 0"
  shows "holds n (normalize_row n p ai) (scalem p (inverse (A p p)) A) (scalem p (inverse (A p p)) B)"
proof -
  obtain a b where ai: "ai = (a, b)" by fastforce
  have "GF (a ! (p * n + p)) = A p p" using assms ai by (simp add: holds_def mat_def)
  with assms(3) have inv: "GF (gf_inv (a ! (p * n + p))) = inverse (A p p)"
    by (metis GF_eq_0_iff GF_inv)
  show ?thesis
    using assms ai inv scale_loop [of a n p] scale_loop [of b n p]
    by (auto simp: holds_def normalize_row_def fold_pair scalem_def Let_def)
qed

lemma eliminate_row_holds:
  assumes "holds n ai A B" "p < n" "q < n"
  shows "holds n (eliminate_row n p q ai)
    (\<lambda>i j. if i = q \<and> q \<noteq> p then A i j + A i p * A p j else A i j)
    (\<lambda>i j. if i = q \<and> q \<noteq> p then B i j + A i p * B p j else B i j)"
proof -
  obtain a b where ai: "ai = (a, b)" by fastforce
  have f: "GF (a ! (q * n + p)) = A q p" using assms ai by (simp add: holds_def mat_def)
  then have zero: "A q p = 0" if "a ! (q * n + p) = 0" using that by (metis GF_eq_0_iff)
  show ?thesis
    using assms ai f zero add_row_loop [of a n q p] add_row_loop [of b n q p]
    by (auto simp: holds_def eliminate_row_def fold_pair Let_def)
qed

lemma eliminate_rows_holds:
  assumes "holds n ai A B" "p < n" "m \<le> n"
  shows "holds n (fold (eliminate_row n p) [0..<m] ai)
    (\<lambda>i j. if i < m then elimm p (\<lambda>i. A i p) A i j else A i j)
    (\<lambda>i j. if i < m then elimm p (\<lambda>i. A i p) B i j else B i j)"
  using assms(3)
proof (induction m)
  case 0
  with assms show ?case by simp
next
  case (Suc m)
  from eliminate_row_holds [OF Suc.IH assms(2), of m] Suc.prems show ?case
    by (simp add: holds_def) (auto simp: elimm_def less_Suc_eq)
qed

text \<open>One column of Gauss-Jordan elimination.\<close>

definition reduce_col :: "nat \<Rightarrow> nat \<Rightarrow> nat \<Rightarrow> bytes \<times> bytes \<Rightarrow> bytes \<times> bytes" where
  "reduce_col n col piv ai =
     fold (eliminate_row n col) [0..<n]
       (normalize_row n col (if piv \<noteq> col then swap_rows n col piv ai else ai))"

lemma reduce_col_holds:
  assumes h: "holds n ai A B" and r: "reduces n M A B" and c: "cleared n m A"
    and piv: "m \<le> piv" "piv < n" "A piv m \<noteq> 0"
  shows "\<exists>A' B'. holds n (reduce_col n m piv ai) A' B' \<and> reduces n M A' B' \<and> cleared n (Suc m) A'"
proof -
  let ?A = "swapm m piv A" and ?B = "swapm m piv B"
  have m: "m < n" using piv by simp
  have "holds n (if piv \<noteq> m then swap_rows n m piv ai else ai) ?A ?B"
    using h swap_rows_holds [OF h m piv(2)] by (auto simp: holds_def swapm_def)
  moreover have pv: "?A m m \<noteq> 0" using piv by (simp add: swapm_def)
  ultimately have "holds n (normalize_row n m (if piv \<noteq> m then swap_rows n m piv ai else ai))
      (scalem m (inverse (?A m m)) ?A) (scalem m (inverse (?A m m)) ?B)"
    using m by (intro normalize_row_holds)
  from eliminate_rows_holds [OF this m order_refl]
  have "holds n (reduce_col n m piv ai)
      (elimm m (\<lambda>i. ?A i m) (scalem m (inverse (?A m m)) ?A))
      (elimm m (\<lambda>i. ?A i m) (scalem m (inverse (?A m m)) ?B))"
    unfolding reduce_col_def by (simp add: holds_def) (auto simp: elimm_def scalem_def)
  moreover have "reduces n M (elimm m (\<lambda>i. ?A i m) (scalem m (inverse (?A m m)) ?A))
      (elimm m (\<lambda>i. ?A i m) (scalem m (inverse (?A m m)) ?B))"
    using r m piv pv by (intro reduces_elimm reduces_scalem reduces_swapm) auto
  moreover have "cleared n (Suc m) (elimm m (\<lambda>i. ?A i m) (scalem m (inverse (?A m m)) ?A))"
    using c m piv pv by (intro cleared_step cleared_swapm) auto
  ultimately show ?thesis by blast
qed

text \<open>
  The result of inverting \<open>M\<close>: either a left inverse, or evidence that \<open>M\<close> is singular.
\<close>

definition left_inverse :: "nat \<Rightarrow> (nat \<Rightarrow> nat \<Rightarrow> gf256) \<Rightarrow> (nat \<Rightarrow> nat \<Rightarrow> gf256) \<Rightarrow> bool" where
  "left_inverse n B M \<longleftrightarrow> (\<forall>i<n. \<forall>j<n. mulmv n B (\<lambda>l. M l j) i = (if i = j then 1 else 0))"

definition singular :: "nat \<Rightarrow> (nat \<Rightarrow> nat \<Rightarrow> gf256) \<Rightarrow> bool" where
  "singular n M \<longleftrightarrow> (\<exists>x. (\<exists>i<n. x i \<noteq> 0) \<and> (\<forall>i<n. mulmv n M x i = 0))"

lemma invert_cols_correct:
  assumes "holds n ai A B" "reduces n M A B" "cleared n m A" "m \<le> n"
  shows "case invert_cols n [m..<n] ai of
      Some iv \<Rightarrow> length iv = n * n \<and> left_inverse n (mat n iv) M
    | None \<Rightarrow> singular n M"
  using assms
proof (induction "n - m" arbitrary: m ai A B)
  case 0
  then have "m = n" by simp
  moreover have "mulmv n (mat n (snd ai)) x i = mulmv n B x i" if "i < n" for x i
    using 0 that by (auto simp: mulmv_def holds_def intro!: sum.cong)
  ultimately show ?case
    using 0 by (auto simp: holds_def reduces_def cleared_def left_inverse_def)
next
  case (Suc d)
  then have m: "m < n" by simp
  then have upt: "[m..<n] = m # [Suc m..<n]" by (simp add: upt_conv_Cons)
  let ?piv = "find_pivot (fst ai) n m m"
  have A: "A i m = GF (fst ai ! (i * n + m))" if "i < n" for i
    using Suc.prems(1) that m by (simp add: holds_def mat_def)
  note piv = find_pivot_spec [of m n "fst ai" m]
  show ?case
  proof (cases "?piv = n")
    case True
    then have "A i m = 0" if "m \<le> i" "i < n" for i
      using piv that m A by simp
    then obtain x where x: "x m = 1" "\<forall>i<n. mulmv n A x i = 0"
      using no_pivot_singular [OF Suc.prems(3) m] by blast
    then have "singular n M"
      using Suc.prems(2) m unfolding singular_def reduces_def by (metis one_neq_zero)
    with True show ?thesis by (simp add: upt)
  next
    case False
    then have "m \<le> ?piv" "?piv < n" "A ?piv m \<noteq> 0" using piv m A by auto
    from reduce_col_holds [OF Suc.prems(1-3) this] obtain A' B' where
      "holds n (reduce_col n m ?piv ai) A' B'" "reduces n M A' B'" "cleared n (Suc m) A'" by blast
    from Suc.hyps(1) [OF _ this] Suc.hyps(2) m False show ?thesis
      by (simp add: upt reduce_col_def Let_def)
  qed
qed

lemma identity_loop:
  "m \<le> n \<Longrightarrow> length (fold (\<lambda>i a. a[i * n + i := 1]) [0..<m] (replicate (n * n) (0 :: u8))) = n * n \<and>
     (\<forall>i<n. \<forall>j<n. mat n (fold (\<lambda>i a. a[i * n + i := 1]) [0..<m] (replicate (n * n) 0)) i j =
        (if i = j \<and> i < m then 1 else 0))"
proof (induction m)
  case 0
  then show ?case by (auto simp: mat_def row_major_less GF_simps)
next
  case (Suc m)
  then have "m < n" "m * n + m < n * n" by (simp_all add: row_major_less)
  with Suc show ?case by (auto simp: mat_update GF_simps less_Suc_eq)
qed

lemma mulmv_unit: "i < n \<Longrightarrow> mulmv n (\<lambda>i j. if i = j then 1 else 0) x i = x i"
proof -
  assume "i < n"
  have "mulmv n (\<lambda>i j. if i = j then 1 else 0) x i = (\<Sum>j<n. if i = j then x j else 0)"
    unfolding mulmv_def by (rule sum.cong) auto
  with \<open>i < n\<close> show ?thesis by simp
qed

theorem invert_correct:
  assumes "length m = n * n"
  shows "case invert m n of
      Some iv \<Rightarrow> length iv = n * n \<and> left_inverse n (mat n iv) (mat n m)
    | None \<Rightarrow> singular n (mat n m)"
proof -
  let ?I = "\<lambda>i j. if i = j then 1 else 0 :: gf256"
  have "holds n (m, fold (\<lambda>i a. a[i * n + i := 1]) [0..<n] (replicate (n * n) 0)) (mat n m) ?I"
    using assms identity_loop [of n n] by (auto simp: holds_def)
  moreover have "reduces n (mat n m) (mat n m) ?I" by (simp add: reduces_def mulmv_unit)
  ultimately show ?thesis
    using invert_cols_correct [of n _ "mat n m" ?I "mat n m" 0] by (simp add: invert_def cleared_def)
qed

section \<open>Cauchy matrices have no singular square part\<close>

text \<open>
  The elimination step behind the Cauchy determinant: subtracting one equation from the others
  clears one unknown and leaves a Cauchy system with one row and one column fewer.
\<close>

lemma cauchy_entry_step:
  fixes a b u v y :: "'a :: field"
  assumes "u \<noteq> v" "u \<noteq> b" "a \<noteq> v" "u \<noteq> a"
  shows "((u - b) * (y / (u - v)) - (a - b) * (y / (a - v))) / (u - a) = y * (b - v) / (a - v) / (u - v)"
proof -
  have "(u - b) * (y / (u - v)) - (a - b) * (y / (a - v)) =
      y * ((u - b) * (a - v) - (a - b) * (u - v)) / ((u - v) * (a - v))"
    using assms by (simp add: diff_frac_eq ring_distribs mult.assoc)
  also have "(u - b) * (a - v) - (a - b) * (u - v) = (u - a) * (b - v)" by (simp add: algebra_simps)
  finally show ?thesis using assms by simp
qed

lemma cauchy_kernel:
  fixes f :: "nat \<Rightarrow> 'a :: field"
  assumes "finite T" "finite P" "card P = card T" "P \<inter> T = {}" "inj_on f (P \<union> T)"
    and "\<forall>p\<in>P. (\<Sum>c\<in>T. x c / (f p - f c)) = 0"
  shows "\<forall>c\<in>T. x c = 0"
  using assms
proof (induction "card T" arbitrary: T P x)
  case 0
  then show ?case by simp
next
  case (Suc m)
  then obtain c0 p0 where c0: "c0 \<in> T" and p0: "p0 \<in> P" by fastforce
  define T' P' where "T' = T - {c0}" and "P' = P - {p0}"
  define y where "y c = x c * (f c0 - f c) / (f p0 - f c)" for c
  have ne: "f p \<noteq> f c" if "p \<in> P" "c \<in> T" for p c
    using Suc.prems(4,5) that by (auto dest!: inj_onD)
  have "\<forall>c\<in>T'. y c = 0"
  proof (rule Suc.hyps(1) [of T' P'])
    show "m = card T'" "finite T'" "finite P'" "card P' = card T'" "P' \<inter> T' = {}"
      using Suc.hyps(2) Suc.prems c0 p0 by (auto simp: T'_def P'_def)
    show "inj_on f (P' \<union> T')" using Suc.prems(5) by (rule inj_on_subset) (auto simp: T'_def P'_def)
    show "\<forall>p\<in>P'. (\<Sum>c\<in>T'. y c / (f p - f c)) = 0"
    proof
      fix p assume "p \<in> P'"
      then have p: "p \<in> P" "p \<noteq> p0" by (auto simp: P'_def)
      then have pp0: "f p \<noteq> f p0" using Suc.prems(5) p0 by (auto dest: inj_onD)
      have "(\<Sum>c\<in>T'. y c / (f p - f c)) = (\<Sum>c\<in>T. y c / (f p - f c))"
        using Suc.prems(1) c0 by (simp add: T'_def sum.remove y_def)
      also have "\<dots> = (\<Sum>c\<in>T. ((f p - f c0) * (x c / (f p - f c)) - (f p0 - f c0) * (x c / (f p0 - f c))) / (f p - f p0))"
        unfolding y_def using ne p p0 c0 pp0 by (intro sum.cong refl cauchy_entry_step [symmetric]) auto
      also have "\<dots> = ((f p - f c0) * (\<Sum>c\<in>T. x c / (f p - f c)) -
          (f p0 - f c0) * (\<Sum>c\<in>T. x c / (f p0 - f c))) / (f p - f p0)"
        by (simp only: sum_subtractf sum_distrib_left flip: sum_divide_distrib)
      also have "\<dots> = 0" using Suc.prems(6) p p0 by simp
      finally show "(\<Sum>c\<in>T'. y c / (f p - f c)) = 0" .
    qed
  qed
  moreover have "f c0 - f c \<noteq> 0" if "c \<in> T'" for c
    using that c0 Suc.prems(5) by (auto simp: T'_def dest: inj_onD)
  ultimately have rest: "x c = 0" if "c \<in> T'" for c
    using that ne [OF p0] by (auto simp: y_def T'_def)
  have "(\<Sum>c\<in>T. x c / (f p0 - f c)) = x c0 / (f p0 - f c0)"
    using Suc.prems(1) c0 rest by (simp add: T'_def sum.remove)
  with Suc.prems(6) p0 ne [OF p0 c0] have "x c0 = 0" by auto
  with rest show ?case by (auto simp: T'_def)
qed

section \<open>The encoding matrix\<close>

text \<open>Shard positions are distinct field elements because a block has at most 256 shards.\<close>

definition point :: "nat \<Rightarrow> gf256" where
  "point i = GF (of_nat i)"

lemma inj_on_point: "inj_on point {..<256}"
proof (rule inj_onI)
  fix i j assume "i \<in> {..<256}" "j \<in> {..<256}" "point i = point j"
  moreover from this have "unat (of_nat i :: u8) = unat (of_nat j :: u8)" by (simp add: point_def)
  ultimately show "i = j" by (simp add: unsigned_of_nat take_bit_nat_eq_self)
qed

definition encm :: "RsCode \<Rightarrow> nat \<Rightarrow> nat \<Rightarrow> gf256" where
  "encm code i c = GF (enc_entry code i c)"

lemma rs_new_cauchy:
  assumes "rs_new k r = Inr code"
  shows "0 < k" "0 < r" "k + r \<le> 256" "rs_k code = k" "rs_r code = r" "rs_backend code = None"
    and "length (rs_cauchy code) = r * k"
    and "j < r \<Longrightarrow> c < k \<Longrightarrow> rs_cauchy code ! (j * k + c) = gf_inv (of_nat (k + j) XOR of_nat c)"
  using assms fill_loop [of r r "replicate (r * k) 0" k "\<lambda>j c. gf_inv ((of_nat (k + j) :: u8) XOR of_nat c)"]
  by (auto simp: rs_new_def Let_def split: if_splits)

lemma encm_data: "i < rs_k code \<Longrightarrow> encm code i c = (if i = c then 1 else 0)"
  by (simp add: encm_def enc_entry_def GF_simps)

lemma encm_parity:
  assumes "rs_new k r = Inr code" "k \<le> i" "i < k + r" "c < k"
  shows "encm code i c = 1 / (point i - point c)"
proof -
  have "point i \<noteq> point c"
    using inj_on_point assms rs_new_cauchy(3) [OF assms(1)] by (auto dest: inj_onD)
  then have "GF (of_nat i) + GF (of_nat c) \<noteq> 0" by (simp add: point_def flip: gf256_minus)
  then have ne: "of_nat i XOR of_nat c \<noteq> (0 :: u8)" by (metis GF_simps(1,3))
  have "GF (gf_inv (of_nat i XOR of_nat c)) = 1 / (point i - point c)"
    unfolding GF_inv [OF ne] by (simp add: GF_simps point_def gf256_minus divide_inverse)
  with assms show ?thesis
    using rs_new_cauchy(4) [OF assms(1)] rs_new_cauchy(8) [OF assms(1), of "i - k" c]
    by (simp add: encm_def enc_entry_def)
qed

text \<open>Any k distinct rows of the encoding matrix are independent.\<close>

lemma survivors_independent:
  assumes new: "rs_new k r = Inr code" and surv: "distinct surv" "length surv = k" "set surv \<subseteq> {..<k + r}"
  shows "\<not> singular k (\<lambda>i. encm code (surv ! i))"
proof
  assume "singular k (\<lambda>i. encm code (surv ! i))"
  then obtain x i0 where i0: "i0 < k" "x i0 \<noteq> 0"
    and x: "\<forall>i<k. (\<Sum>c<k. encm code (surv ! i) c * x c) = 0"
    by (auto simp: singular_def mulmv_def)
  have k: "rs_k code = k" "k + r \<le> 256" using rs_new_cauchy [OF new] by auto
  have x: "(\<Sum>c<k. encm code s c * x c) = 0" if "s \<in> set surv" for s
    using that x surv(2) by (auto simp: in_set_conv_nth)
  define D where "D = set surv \<inter> {..<k}"
  define P where "P = set surv - {..<k}"
  define T where "T = {..<k} - D"
  have fin: "finite D" "finite P" "finite T" by (auto simp: D_def P_def T_def)
  have known: "x s = 0" if "s \<in> D" for s
  proof -
    have "(\<Sum>c<k. encm code s c * x c) = (\<Sum>c<k. if s = c then x c else 0)"
      using that k by (intro sum.cong) (auto simp: encm_data D_def)
    with x [of s] that show ?thesis by (simp add: D_def)
  qed
  have "\<forall>c\<in>T. x c = 0"
  proof (rule cauchy_kernel [where P = P and f = point])
    have "card (set surv) = card D + card P"
      using card_Un_disjoint [of D P] fin by (auto simp: D_def P_def Int_Un_distrib Un_Diff_Int Un_commute)
    moreover have "card T = k - card D" by (simp add: T_def card_Diff_subset D_def)
    ultimately show "card P = card T" using surv by (simp add: distinct_card)
    show "inj_on point (P \<union> T)"
      using inj_on_point by (rule inj_on_subset) (use surv k in \<open>auto simp: P_def T_def\<close>)
    show "\<forall>p\<in>P. (\<Sum>c\<in>T. x c / (point p - point c)) = 0"
    proof
      fix p assume p: "p \<in> P"
      have "(\<Sum>c\<in>T. x c / (point p - point c)) = (\<Sum>c<k. x c / (point p - point c))"
        using known by (intro sum.mono_neutral_left) (auto simp: T_def)
      also have "\<dots> = (\<Sum>c<k. encm code p c * x c)"
        by (intro sum.cong) (use p surv encm_parity [OF new] in \<open>auto simp: P_def subset_iff\<close>)
      finally show "(\<Sum>c\<in>T. x c / (point p - point c)) = 0" using x p by (simp add: P_def)
    qed
  qed (use fin in \<open>auto simp: P_def T_def\<close>)
  with known i0 show False by (auto simp: T_def)
qed

lemma survivor_matrix_mat:
  assumes "rs_k code = k"
  shows "length (survivor_matrix code surv) = k * k"
    and "i < k \<Longrightarrow> c < k \<Longrightarrow> mat k (survivor_matrix code surv) i c = encm code (surv ! i) c"
  using assms fill_loop [of k k "replicate (k * k) 0" k "\<lambda>i c. enc_entry code (surv ! i) c"]
  by (simp_all add: survivor_matrix_def Let_def mat_def encm_def)

lemma singular_cong:
  assumes "\<And>i j. i < n \<Longrightarrow> j < n \<Longrightarrow> A i j = B i j"
  shows "singular n A \<longleftrightarrow> singular n B"
proof -
  have "mulmv n A x i = mulmv n B x i" if "i < n" for x i
    using that assms by (auto simp: mulmv_def intro!: sum.cong)
  then show ?thesis by (simp add: singular_def)
qed

lemma survivors_invert:
  assumes "rs_new k r = Inr code" "distinct surv" "length surv = k" "set surv \<subseteq> {..<k + r}"
    and "code' = with_backend code b"
  shows "\<exists>iv. invert (survivor_matrix code' surv) k = Some iv \<and>
    (\<forall>i<k. \<forall>j<k. (\<Sum>l<k. mat k iv i l * encm code (surv ! l) j) = (if i = j then 1 else 0))"
proof -
  have enc: "encm code' = encm code" "rs_k code' = k"
    using assms rs_new_cauchy(4) [OF assms(1)]
    by (auto simp: encm_def enc_entry_def with_backend_def fun_eq_iff)
  note m = survivor_matrix_mat [OF enc(2)]
  have "\<not> singular k (mat k (survivor_matrix code' surv))"
    using survivors_independent [OF assms(1-4)]
    by (subst singular_cong [where B = "\<lambda>i. encm code (surv ! i)"]) (auto simp: m enc)
  with invert_correct [OF m(1), of surv] obtain iv where
    "invert (survivor_matrix code' surv) k = Some iv" "left_inverse k (mat k iv) (mat k (survivor_matrix code' surv))"
    by (auto split: option.splits)
  then show ?thesis by (simp add: left_inverse_def mulmv_def m enc)
qed

section \<open>What encoding stores and decoding rebuilds\<close>

text \<open>The accumulation loops of both directions, which skip zero coefficients, form the linear combination.\<close>

definition combine :: "arch \<Rightarrow> GfBackend \<Rightarrow> nat \<Rightarrow> nat \<Rightarrow> (nat \<Rightarrow> u8) \<Rightarrow> (nat \<Rightarrow> bytes) \<Rightarrow> bytes" where
  "combine ar b k len coef src =
     fold (\<lambda>c acc. if coef c = 0 then acc else gf_mul_add ar b acc (src c) (coef c)) [0..<k] (replicate len 0)"

lemma combine_cong:
  "(\<And>c. c < k \<Longrightarrow> coef c = coef' c) \<Longrightarrow> (\<And>c. c < k \<Longrightarrow> src c = src' c) \<Longrightarrow>
     combine ar b k len coef src = combine ar b k len coef' src'"
  by (auto simp: combine_def intro!: fold_cong)

lemma combine_sum:
  assumes "\<And>c. c < k \<Longrightarrow> length (src c) = len"
  shows "length (combine ar b k len coef src) = len"
    and "i < len \<Longrightarrow> GF (combine ar b k len coef src ! i) = (\<Sum>c<k. GF (coef c) * GF (src c ! i))"
proof -
  have eq: "combine ar b k len coef src = fold (\<lambda>c acc. gf_mul_add ar b acc (src c) (coef c)) [0..<k] (replicate len 0)"
    by (auto simp: combine_def gf_mul_add_def intro!: fold_cong)
  show "length (combine ar b k len coef src) = len"
    unfolding eq by (subst kernel.accumulate) (use assms in auto)
  show "i < len \<Longrightarrow> GF (combine ar b k len coef src ! i) = (\<Sum>c<k. GF (coef c) * GF (src c ! i))"
    unfolding eq by (subst kernel.accumulate) (use assms in \<open>auto simp: sum_list_upt GF_simps\<close>)
qed

text \<open>A block: the data and parity shards, of one length, whose columns the encoding matrix relates.\<close>

definition is_block :: "RsCode \<Rightarrow> nat \<Rightarrow> bytes list \<Rightarrow> bytes list \<Rightarrow> bool" where
  "is_block code len data block \<longleftrightarrow>
     0 < len \<and> length data = rs_k code \<and> length block = rs_k code + rs_r code \<and>
     (\<forall>c<rs_k code. block ! c = data ! c) \<and>
     (\<forall>i<length block. length (block ! i) = len \<and>
        (\<forall>b<len. GF (block ! i ! b) = (\<Sum>c<rs_k code. encm code i c * GF (data ! c ! b))))"

lemma is_block_data:
  assumes "is_block code len data block" "i < rs_k code"
  shows "block ! i = data ! i" "length (data ! i) = len"
proof -
  show "block ! i = data ! i" using assms by (simp add: is_block_def)
  moreover have "i < length block" using assms by (simp add: is_block_def)
  then have "length (block ! i) = len" using assms(1) by (simp add: is_block_def)
  ultimately show "length (data ! i) = len" by simp
qed

lemma encode_combine:
  assumes enc: "encode ar cur code data par0 = Inr parity"
    and code: "rs_k code = k" "rs_r code = r" "length (rs_cauchy code) = r * k"
  shows "\<exists>len>0. length data = k \<and> (\<forall>s\<in>set data. length s = len) \<and>
    parity = map (\<lambda>j. combine ar (effective_backend code cur) k len (\<lambda>c. rs_cauchy code ! (j * k + c)) ((!) data)) [0..<r]"
proof -
  define len be where "len = length (data ! 0)" and "be = effective_backend code cur"
  let ?loop = "\<lambda>j p. fold (\<lambda>c acc. if take k (drop (j * k) (rs_cauchy code)) ! c \<noteq> 0
      then gf_mul_add ar be acc (data ! c) (take k (drop (j * k) (rs_cauchy code)) ! c) else acc)
      [0..<k] (replicate (length p) 0)"
  from enc have len: "length data = k" "length par0 = r" "0 < len" "\<forall>s\<in>set data. length s = len"
    "\<forall>s\<in>set par0. length s = len" and "parity = fold (\<lambda>j parity. parity[j := ?loop j (parity ! j)]) [0..<r] par0"
    unfolding encode_def Let_def code len_def [symmetric] be_def [symmetric] by (auto split: if_splits)
  then have "parity = map (\<lambda>j. ?loop j (par0 ! j)) [0..<r]"
    using fold_modify_upt [of r par0 ?loop] by simp
  also have "\<dots> = map (\<lambda>j. combine ar be k len (\<lambda>c. rs_cauchy code ! (j * k + c)) ((!) data)) [0..<r]"
  proof (rule map_cong [OF refl])
    fix j assume j: "j \<in> set [0..<r]"
    then have "length (par0 ! j) = len" using len by simp
    then have "?loop j (par0 ! j) = combine ar be k len (\<lambda>c. take k (drop (j * k) (rs_cauchy code)) ! c) ((!) data)"
      unfolding combine_def by (intro fold_cong) auto
    also have "\<dots> = combine ar be k len (\<lambda>c. rs_cauchy code ! (j * k + c)) ((!) data)"
      using j code row_major_less [of j r _ k] by (intro combine_cong) simp_all
    finally show "?loop j (par0 ! j) = combine ar be k len (\<lambda>c. rs_cauchy code ! (j * k + c)) ((!) data)" .
  qed
  finally show ?thesis using len be_def by blast
qed

lemma encode_block:
  assumes new: "rs_new k r = Inr code" and enc: "encode ar cur (with_backend code b) data par0 = Inr parity"
  shows "\<exists>len. is_block code len data (data @ parity)"
proof -
  note code = rs_new_cauchy(1-7) [OF new]
  from encode_combine [OF enc, of k r] code obtain len be where
    len: "length data = k" "0 < len" "\<forall>s\<in>set data. length s = len" and
    parity: "parity = map (\<lambda>j. combine ar be k len (\<lambda>c. rs_cauchy code ! (j * k + c)) ((!) data)) [0..<r]"
    by (auto simp: with_backend_def)
  have rows: "length (parity ! j) = len \<and>
      (\<forall>b<len. GF (parity ! j ! b) = (\<Sum>c<k. encm code (k + j) c * GF (data ! c ! b)))" if "j < r" for j
    using len code that by (simp add: parity combine_sum encm_def enc_entry_def)
  have unit: "(\<Sum>c<k. encm code i c * GF (data ! c ! b)) = GF (data ! i ! b)" if "i < k" for i b
    using mulmv_unit [OF that, of "\<lambda>c. GF (data ! c ! b)"] that code
    by (simp add: mulmv_def encm_data)
  have "is_block code len data (data @ parity)"
    unfolding is_block_def
  proof (intro conjI allI impI)
    fix i assume i: "i < length (data @ parity)"
    show "length ((data @ parity) ! i) = len"
      using i len rows [of "i - k"] by (auto simp: nth_append parity)
    fix b assume "b < len"
    then show "GF ((data @ parity) ! i ! b) = (\<Sum>c<rs_k code. encm code i c * GF (data ! c ! b))"
      using i len code unit [of i b] rows [of "i - k"] by (auto simp: nth_append parity)
  qed (use len code in \<open>auto simp: nth_append parity\<close>)
  then show ?thesis ..
qed

text \<open>The survivors are the first k positions that hold a shard.\<close>

definition present :: "nat \<Rightarrow> bytes option list \<Rightarrow> nat list" where
  "present idx ss = map fst (filter (\<lambda>(_, s). s \<noteq> None) (enumerate idx ss))"

lemma length_present: "length (present idx ss) = length (filter (\<lambda>s. s \<noteq> None) ss)"
  by (induction ss arbitrary: idx) (auto simp: present_def)

lemma present_0: "distinct (present 0 ss)" "set (present 0 ss) = {i. i < length ss \<and> ss ! i \<noteq> None}"
  by (auto simp: present_def distinct_map_filter in_set_enumerate_eq image_iff)

lemma present_simps [simp]:
  "present idx [] = []" "present idx (None # ss) = present (Suc idx) ss"
  "present idx (Some v # ss) = idx # present (Suc idx) ss"
  by (simp_all add: present_def)

lemma pick_survivors_eq:
  assumes "\<forall>v. Some v \<in> set ss \<longrightarrow> length v = len" "0 < len" "length surv \<le> k" "0 < k"
  shows "pick_survivors k idx ss surv (if surv = [] then 0 else len) =
    (let surv' = surv @ take (k - length surv) (present idx ss) in Inr (surv', if surv' = [] then 0 else len))"
  using assms
proof (induction ss arbitrary: idx surv)
  case (Cons s ss)
  note IH = Cons.IH [OF _ Cons.prems(2) _ Cons.prems(4)]
  have ss: "\<forall>v. Some v \<in> set ss \<longrightarrow> length v = len" using Cons.prems(1) by simp
  show ?case
  proof (cases s)
    case None
    with IH [OF ss Cons.prems(3), of "Suc idx"] show ?thesis by simp
  next
    case (Some v)
    show ?thesis
    proof (cases "length surv < k")
      case True
      then have "k - length surv = Suc (k - length (surv @ [idx]))" by simp
      with IH [OF ss, of "surv @ [idx]" "Suc idx"] Some True Cons.prems(1,2) show ?thesis by (simp add: Let_def)
    next
      case False
      with IH [OF ss Cons.prems(3), of "Suc idx"] Some show ?thesis by simp
    qed
  qed
qed simp

lemma recover_shard:
  assumes block: "is_block code len data block" and k: "rs_k code = k" and i: "i < k"
    and inv: "\<And>j. j < k \<Longrightarrow> (\<Sum>l<k. GF (coef l) * encm code (surv ! l) j) = (if i = j then 1 else 0)"
    and src: "\<And>l. l < k \<Longrightarrow> src l = block ! (surv ! l) \<and> surv ! l < length block"
  shows "combine ar be k len coef src = data ! i"
proof (rule nth_equalityI)
  have len: "length (src l) = len" if "l < k" for l
    using that src block by (simp add: is_block_def)
  show "length (combine ar be k len coef src) = length (data ! i)"
    using is_block_data(2) [OF block] i k by (simp add: combine_sum len)
  fix b assume "b < length (combine ar be k len coef src)"
  then have b: "b < len" by (simp add: combine_sum len)
  have "GF (combine ar be k len coef src ! b) = (\<Sum>l<k. GF (coef l) * GF (src l ! b))"
    by (simp add: combine_sum len b)
  also have "\<dots> = (\<Sum>l<k. \<Sum>c<k. GF (coef l) * encm code (surv ! l) c * GF (data ! c ! b))"
    using src block b k by (intro sum.cong) (auto simp: is_block_def sum_distrib_left mult.assoc)
  also have "\<dots> = (\<Sum>c<k. (\<Sum>l<k. GF (coef l) * encm code (surv ! l) c) * GF (data ! c ! b))"
    by (subst sum.swap) (simp add: sum_distrib_right)
  also have "\<dots> = (\<Sum>c<k. if i = c then GF (data ! c ! b) else 0)"
    by (intro sum.cong) (auto simp: inv)
  also have "\<dots> = GF (data ! i ! b)" using i by simp
  finally show "combine ar be k len coef src ! b = data ! i ! b" by simp
qed

lemma recover_shards_loop:
  assumes data: "\<And>i. i < k \<Longrightarrow> shards ! i = None \<or> shards ! i = Some (data ! i)" "m \<le> k" "k \<le> length shards"
    and surv: "\<And>l. l < k \<Longrightarrow> shards ! (surv ! l) \<noteq> None"
    and rebuilt: "\<And>i. i < k \<Longrightarrow>
      combine ar be k len (\<lambda>l. iv ! (i * k + l)) (\<lambda>l. the (shards ! (surv ! l))) = data ! i"
  shows "fold (\<lambda>i shards.
         if shards ! i \<noteq> None then shards
         else shards[i := Some
           (fold (\<lambda>j out.
               let coef = iv ! (i * k + j)
               in if coef = 0 then out
                  else gf_mul_add ar be out (the (shards ! (surv ! j))) coef)
             [0..<k] (replicate len 0))]) [0..<m] shards = map (\<lambda>i. Some (data ! i)) [0..<m] @ drop m shards"
    (is "fold ?step _ _ = _")
  using data(2)
proof (induction m)
  case (Suc m)
  let ?s = "map (\<lambda>i. Some (data ! i)) [0..<m] @ drop m shards"
  have m: "m < length shards" "m < k" using Suc.prems data(3) by auto
  then have drop: "drop m shards = shards ! m # drop (Suc m) shards" by (simp add: Cons_nth_drop_Suc)
  have same: "?s ! (surv ! l) = shards ! (surv ! l)" if "l < k" for l
    using data(1) [of "surv ! l"] surv [OF that] m by (auto simp: nth_append)
  have "fold (\<lambda>j out. let coef = iv ! (m * k + j) in if coef = 0 then out
      else gf_mul_add ar be out (the (?s ! (surv ! j))) coef) [0..<k] (replicate len 0) =
    combine ar be k len (\<lambda>l. iv ! (m * k + l)) (\<lambda>l. the (?s ! (surv ! l)))"
    by (simp add: combine_def Let_def)
  also have "\<dots> = data ! m"
    using rebuilt [OF m(2)] same by (subst combine_cong [where src' = "\<lambda>l. the (shards ! (surv ! l))"]) auto
  finally have rebuild: "?step m ?s = (if ?s ! m \<noteq> None then ?s else ?s[m := Some (data ! m)])" by simp
  have "fold ?step [0..<Suc m] shards = ?step m (fold ?step [0..<m] shards)" by (rule fold_upt_Suc)
  also have "fold ?step [0..<m] shards = ?s" using Suc by simp
  also note rebuild
  also have "(if ?s ! m \<noteq> None then ?s else ?s[m := Some (data ! m)]) =
      map (\<lambda>i. Some (data ! i)) [0..<Suc m] @ drop (Suc m) shards"
    using m data(1) [OF m(2)] by (auto simp: nth_append drop list_update_append)
  finally show ?case .
qed simp

lemma decode_block:
  assumes new: "rs_new k r = Inr code" and block: "is_block code len data block"
    and shards: "length shards = k + r" "\<forall>i<k + r. shards ! i = None \<or> shards ! i = Some (block ! i)"
  shows "decode ar cur (with_backend code b) shards =
    (if k \<le> length (filter (\<lambda>s. s \<noteq> None) shards) then Inr (map Some data @ drop k shards) else Inl TooFewShards)"
proof -
  note code = rs_new_cauchy(1-7) [OF new]
  define be where "be = effective_backend (with_backend code b) cur"
  define surv where "surv = take k (present 0 shards)"
  have data: "length data = k" "\<And>i. i < k \<Longrightarrow> shards ! i = None \<or> shards ! i = Some (data ! i)"
    using block shards(2) code is_block_data(1) [OF block] by (simp add: is_block_def, metis trans_less_add1)
  have full: "map Some data @ drop k shards = shards" if "\<forall>i\<in>set [0..<k]. shards ! i \<noteq> None"
  proof (rule nth_equalityI)
    show "length (map Some data @ drop k shards) = length shards" using data shards by simp
    show "(map Some data @ drop k shards) ! i = shards ! i" if "i < length (map Some data @ drop k shards)" for i
      using data shards that \<open>\<forall>i\<in>set [0..<k]. shards ! i \<noteq> None\<close> by (cases "i < k") (auto simp: nth_append)
  qed
  have enough: "k \<le> length (filter (\<lambda>s. s \<noteq> None) shards)" if "\<forall>i\<in>set [0..<k]. shards ! i \<noteq> None"
  proof -
    have "{..<k} \<subseteq> set (present 0 shards)" using that shards by (auto simp: present_0)
    then have "card {..<k} \<le> card (set (present 0 shards))" by (intro card_mono) auto
    then show ?thesis by (simp only: distinct_card present_0(1) length_present card_lessThan)
  qed
  have lens: "\<forall>v. Some v \<in> set shards \<longrightarrow> length v = len" "0 < len"
    using block shards code by (auto simp: is_block_def in_set_conv_nth) fastforce
  then have pick: "pick_survivors k 0 shards [] 0 = Inr (surv, if surv = [] then 0 else len)"
    using code pick_survivors_eq [of shards len "[]" k 0] by (simp add: Let_def surv_def)
  have few: "length surv < k \<longleftrightarrow> \<not> k \<le> length (filter (\<lambda>s. s \<noteq> None) shards)"
    by (auto simp: surv_def length_present)
  have "\<exists>iv. invert (survivor_matrix (with_backend code b) surv) k = Some iv \<and>
      recover_shards ar be k len surv iv shards = map Some data @ drop k shards"
    if k: "k \<le> length (filter (\<lambda>s. s \<noteq> None) shards)"
  proof -
    have surv: "distinct surv" "length surv = k" "set surv \<subseteq> {i. i < k + r \<and> shards ! i \<noteq> None}"
      using k present_0 [of shards] shards set_take_subset [of k "present 0 shards"]
      by (auto simp: surv_def length_present)
    then obtain iv where iv: "invert (survivor_matrix (with_backend code b) surv) k = Some iv"
      "\<And>i j. i < k \<Longrightarrow> j < k \<Longrightarrow> (\<Sum>l<k. mat k iv i l * encm code (surv ! l) j) = (if i = j then 1 else 0)"
      using survivors_invert [OF new surv(1,2) _ refl] by blast
    have at: "surv ! l < k + r" "shards ! (surv ! l) = Some (block ! (surv ! l))" if "l < k" for l
    proof -
      have "surv ! l \<in> {i. i < k + r \<and> shards ! i \<noteq> None}" using surv(3) nth_mem [of l surv] surv(2) that by blast
      then show "surv ! l < k + r" "shards ! (surv ! l) = Some (block ! (surv ! l))" using shards(2) by auto
    qed
    have "combine ar be k len (\<lambda>l. iv ! (i * k + l)) (\<lambda>l. the (shards ! (surv ! l))) = data ! i" if "i < k" for i
      using iv(2) [OF that] that code block at
      by (intro recover_shard [OF block]) (auto simp: mat_def is_block_def)
    from recover_shards_loop [OF data(2) order_refl _ _ this] at shards data(1)
    have "recover_shards ar be k len surv iv shards = map (\<lambda>i. Some (data ! i)) [0..<k] @ drop k shards"
      unfolding recover_shards_def by simp
    moreover have "map (\<lambda>i. Some (data ! i)) [0..<k] = map Some data"
      using data(1) by (simp add: list_eq_iff_nth_eq)
    ultimately show ?thesis using iv(1) by simp
  qed
  with full enough few pick shards(1) code lens(2) show ?thesis
    by (auto simp: decode_def Let_def with_backend_def be_def)
qed

text \<open>What the rebuilding loop leaves alone, on any shard list.\<close>

lemma recover_shards_keeps:
  assumes "k \<le> length shards" "m \<le> k"
    and "\<And>i s. i < length s \<Longrightarrow> step i s = (if s ! i \<noteq> None then s else s[i := Some (out i s)])"
  shows "length (fold step [0..<m] shards) = length shards \<and>
    (\<forall>i<m. fold step [0..<m] shards ! i \<noteq> None) \<and>
    (\<forall>i. shards ! i \<noteq> None \<or> m \<le> i \<longrightarrow> fold step [0..<m] shards ! i = shards ! i)"
  using assms(2)
proof (induction m)
  case (Suc m)
  let ?s = "fold step [0..<m] shards"
  from Suc have s: "length ?s = length shards" "\<And>i. i < m \<Longrightarrow> ?s ! i \<noteq> None"
    "\<And>i. shards ! i \<noteq> None \<or> m \<le> i \<Longrightarrow> ?s ! i = shards ! i" by auto
  have m: "m < length ?s" using Suc.prems assms(1) s by simp
  show ?case
    unfolding fold_upt_Suc assms(3) [OF m] using s m
    by (auto simp: less_Suc_eq nth_list_update)
qed simp

lemma recover_shards_spec:
  assumes "k \<le> length shards"
  shows "length (recover_shards ar be k len surv iv shards) = length shards"
    and "i < k \<Longrightarrow> recover_shards ar be k len surv iv shards ! i \<noteq> None"
    and "shards ! i \<noteq> None \<or> k \<le> i \<Longrightarrow> recover_shards ar be k len surv iv shards ! i = shards ! i"
  unfolding recover_shards_def
  using recover_shards_keeps [OF assms order_refl, of _ "\<lambda>i shards. fold (\<lambda>j out.
               let coef = iv ! (i * k + j)
               in if coef = 0 then out
                  else gf_mul_add ar be out (the (shards ! (surv ! j))) coef)
             [0..<k] (replicate len 0)"]
  by auto

lemma left_inverse_not_singular:
  assumes "left_inverse n B M"
  shows "\<not> singular n M"
proof
  assume "singular n M"
  then obtain x i where i: "i < n" "x i \<noteq> 0" and x: "\<forall>i<n. mulmv n M x i = 0"
    by (auto simp: singular_def)
  have "x i = (\<Sum>j<n. mulmv n B (\<lambda>l. M l j) i * x j)"
    using assms i by (simp add: left_inverse_def mulmv_unit [unfolded mulmv_def])
  also have "\<dots> = (\<Sum>l<n. B i l * mulmv n M x l)"
    by (simp add: mulmv_def sum_distrib_left sum_distrib_right mult.assoc) (rule sum.swap)
  also have "\<dots> = 0" using x by simp
  finally show False using i by simp
qed

section \<open>Properties\<close>

text \<open>
  C1. The Reed-Solomon code is MDS: encode a block with any backend and lose any shards; when at
  least k of the k + r shards are left, decode returns the k data shards in place and the parity
  positions as they were, on any backend and architecture of its own; with fewer, it reports
  \<open>TooFewShards\<close>.
\<close>

theorem rs_decode_encode:
  assumes "rs_new k r = Inr code"
    and "encode ar cur (with_backend code b) data par0 = Inr parity"
    and "length shards = k + r"
    and "\<forall>i<k + r. shards ! i = None \<or> shards ! i = Some ((data @ parity) ! i)"
  shows "decode ar' cur' (with_backend code b') shards =
    (if k \<le> length (filter (\<lambda>s. s \<noteq> None) shards) then Inr (map Some data @ drop k shards)
     else Inl TooFewShards)"
proof -
  from encode_block [OF assms(1,2)] obtain len where "is_block code len data (data @ parity)" ..
  from decode_block [OF assms(1) this assms(3,4)] show ?thesis .
qed

theorem rs_decode_encode_witness:
  "\<exists>code p. rs_new 2 1 = Inr code \<and>
     encode X86_64 Avx2 (with_backend code None) [[10, 20], [30, 40]] [[0, 0]] = Inr [p] \<and>
     decode Aarch64 Neon (with_backend code (Some Scalar)) [None, Some [30, 40], Some p] =
       Inr [Some [10, 20], Some [30, 40], Some p]"
proof -
  obtain code where code: "rs_new 2 1 = Inr code" by (simp add: rs_new_def)
  then have k: "rs_k code = 2" "rs_r code = 1" using rs_new_cauchy [OF code] by simp_all
  then obtain p where p: "encode X86_64 Avx2 (with_backend code None) [[10, 20], [30, 40]] [[0, 0]] = Inr [p]"
    by (simp add: encode_def with_backend_def Let_def)
  from rs_decode_encode [OF code p, of "[None, Some [30, 40], Some p]" Aarch64 Neon "Some Scalar"] code p
  show ?thesis by (auto simp: nth_Cons' numeral_2_eq_2 numeral_3_eq_3 less_Suc_eq)
qed

text \<open>
  C18. The Gauss-Jordan inversion decides invertibility over GF(256): on a row-major n by n matrix it
  returns \<open>None\<close> exactly when the homogeneous system has a nonzero solution, and whatever matrix it
  returns is a left inverse of its argument.
\<close>

theorem invert_sound_complete:
  assumes "length m = n * n"
  shows "(invert m n = None \<longleftrightarrow> singular n (mat n m)) \<and>
    (\<forall>iv. invert m n = Some iv \<longrightarrow> length iv = n * n \<and> left_inverse n (mat n iv) (mat n m))"
  using invert_correct [OF assms] left_inverse_not_singular by (auto split: option.splits)

theorem invert_sound_complete_witness:
  "length [1, 0, 0, 1 :: u8] = 2 * 2 \<and> (invert [1, 0, 0, 1] 2 = None \<longleftrightarrow> singular 2 (mat 2 [1, 0, 0, 1]))"
  using invert_sound_complete [of "[1, 0, 0, 1]" 2] by simp

text \<open>
  C38. Decoding never disturbs what arrived: for any code object and any shard list, a successful
  decode keeps the length, every shard that was present and every parity position, and leaves no
  data position empty.
\<close>

theorem decode_keeps_arrived:
  assumes "decode ar cur code shards = Inr shards'"
  shows "length shards' = length shards \<and> (\<forall>i<rs_k code. shards' ! i \<noteq> None) \<and>
    (\<forall>i. shards ! i \<noteq> None \<or> rs_k code \<le> i \<longrightarrow> shards' ! i = shards ! i)"
  using assms
  by (auto simp: decode_def Let_def recover_shards_spec [unfolded not_None_eq] split: if_splits sum.splits option.splits)

theorem decode_keeps_arrived_witness:
  "\<exists>code p shards'. rs_new 2 1 = Inr code \<and>
     decode Aarch64 Neon (with_backend code None) [None, Some [30, 40], Some p] = Inr shards' \<and>
     length shards' = 3 \<and> shards' ! 0 \<noteq> None \<and> shards' ! 1 = Some [30, 40] \<and> shards' ! 2 = Some p"
proof -
  obtain code where code: "rs_new 2 1 = Inr code" by (simp add: rs_new_def)
  then have k: "rs_k code = 2" "rs_r code = 1" using rs_new_cauchy [OF code] by simp_all
  then obtain p where p: "encode X86_64 Avx2 (with_backend code None) [[10, 20], [30, 40]] [[0, 0]] = Inr [p]"
    by (simp add: encode_def with_backend_def Let_def)
  from encode_block [OF code p] obtain len where "is_block code len [[10, 20], [30, 40]] ([[10, 20], [30, 40]] @ [p])" ..
  from decode_block [OF code this, of "[None, Some [30, 40], Some p]" Aarch64 Neon None]
  obtain shards' where s: "decode Aarch64 Neon (with_backend code None) [None, Some [30, 40], Some p] = Inr shards'"
    by (auto simp: nth_Cons' numeral_2_eq_2 numeral_3_eq_3 less_Suc_eq)
  from decode_keeps_arrived [OF s] k
  have "length shards' = 3 \<and> shards' ! 0 \<noteq> None \<and> shards' ! 1 = Some [30, 40] \<and> shards' ! 2 = Some p"
    by (simp add: with_backend_def)
  with code s show ?thesis by blast
qed

end
