(* ===== verification/Rlc_Codec.thy ===== *)
theory Rlc_Codec
  imports Reed_Solomon
begin

text \<open>
  The sliding-window random linear code of \<^verbatim>\<open>crates/subetha-cxc/src/rlc_fec.rs\<close>: the published
  coefficient table, the encoder with its window of recent source symbols, and the decoder that
  recovers lost symbols by reduced row echelon over GF(256). \<open>ar\<close> and \<open>cur\<close> are the target
  architecture and the backend the process-wide cache answers with; the process-wide counter of
  refused repairs is passed along as a second component of the decoder's state.

  The theory shows that the encoder emits only repairs that are true equations over the symbols it
  was given, that the decoder never stores a byte that was not sent, and that it recovers every
  unknown the stored equations determine.
\<close>

section \<open>Coefficients\<close>

definition TAPS :: "u8 list" where
  "TAPS =
    [0x01, 0x02, 0x03, 0x05, 0x07, 0x0b, 0x0d, 0x11,
     0x13, 0x17, 0x1d, 0x1f, 0x25, 0x29, 0x2b, 0x2f,
     0x35, 0x3b, 0x3d, 0x43, 0x47, 0x49, 0x4f, 0x53,
     0x59, 0x61, 0x65, 0x67, 0x6b, 0x6d, 0x71, 0x7f,
     0x83, 0x89, 0x8b, 0x95, 0x97, 0x9d, 0xa3, 0xa7,
     0xad, 0xb3, 0xb5, 0xbf, 0xc1, 0xc5, 0xc7, 0xd3,
     0xdf, 0xe3, 0xe5, 0xe9, 0xef, 0xf1, 0xf5, 0xf7,
     0xfb, 0xfd, 0x04, 0x08, 0x0e, 0x16, 0x1a, 0x22]"

definition DENSITY_CLASSES :: nat where "DENSITY_CLASSES = 16"

definition fixed_coef :: "nat \<Rightarrow> u8 \<Rightarrow> u8" where
  "fixed_coef tap dt =
     (if tap \<ge> length TAPS then 0
      else if tap mod DENSITY_CLASSES \<le> unat dt then TAPS ! tap else 0)"

record RepairSymbol =
  repair_key :: u32
  first_source_id :: u32
  window_size :: u16
  repair_dt :: u8
  repair_payload :: bytes

definition GENERATOR_PER_REPAIR :: u8 where "GENERATOR_PER_REPAIR = 0"
definition GENERATOR_PUBLISHED_TAPS :: u8 where "GENERATOR_PUBLISHED_TAPS = 1"

definition density :: "RepairSymbol \<Rightarrow> u8" where
  "density r = repair_dt r AND 0x0f"

definition generator :: "RepairSymbol \<Rightarrow> u8" where
  "generator r = drop_bit 4 (repair_dt r)"

definition coefficient :: "RepairSymbol \<Rightarrow> u32 \<Rightarrow> u8" where
  "coefficient r off =
     (let ws = ucast (window_size r) :: u32;
          newest = (if ws = 0 then 0 else ws - 1)
      in fixed_coef (unat (newest - off)) (density r))"

definition generator_is_readable :: "RepairSymbol \<Rightarrow> bool" where
  "generator_is_readable r \<longleftrightarrow> generator r = GENERATOR_PUBLISHED_TAPS"

section \<open>The encoder\<close>

record RlcEncoder =
  enc_window :: "(u32 \<times> bytes) list"
  enc_window_max :: nat
  enc_step :: nat
  enc_dt :: u8
  enc_symbol_len :: nat
  next_source_id :: u32
  since_last_repair :: nat
  next_repair_key :: u32
  coding_on :: bool

definition enc_new :: "nat \<Rightarrow> nat \<Rightarrow> u8 \<Rightarrow> nat \<Rightarrow> RlcEncoder" where
  "enc_new window_max step dt symbol_len =
     \<lparr>enc_window = [], enc_window_max = max window_max 1, enc_step = max step 1, enc_dt = min dt 15,
      enc_symbol_len = symbol_len, next_source_id = 0, since_last_repair = 0, next_repair_key = 0,
      coding_on = True\<rparr>"

text \<open>The loop that pops the oldest symbols while the window is too long.\<close>

fun trim_window :: "nat \<Rightarrow> (u32 \<times> bytes) list \<Rightarrow> (u32 \<times> bytes) list" where
  "trim_window window_max [] = []"
| "trim_window window_max (s # w) = (if length (s # w) > window_max then trim_window window_max w else s # w)"

definition set_params :: "nat \<Rightarrow> nat \<Rightarrow> u8 \<Rightarrow> RlcEncoder \<Rightarrow> RlcEncoder" where
  "set_params window_max step dt e =
     e\<lparr>enc_window_max := max window_max 1, enc_step := max step 1, enc_dt := min dt 15,
       enc_window := trim_window (max window_max 1) (enc_window e)\<rparr>"

definition set_coding :: "bool \<Rightarrow> RlcEncoder \<Rightarrow> RlcEncoder" where
  "set_coding on e = e\<lparr>coding_on := on\<rparr>"

definition emit_repair :: "arch \<Rightarrow> GfBackend \<Rightarrow> RlcEncoder \<Rightarrow> RepairSymbol \<times> RlcEncoder" where
  "emit_repair ar cur e =
     (let w = enc_window e;
          first = (case w of [] \<Rightarrow> 0 | (sid, _) # _ \<Rightarrow> sid);
          newest = length w - 1;
          payload = fold (\<lambda>(i, (_, symbol)) payload.
              let c = fixed_coef (newest - i) (enc_dt e)
              in if c \<noteq> 0 then gf_mul_add ar cur payload symbol c else payload)
            (enumerate 0 w) (replicate (enc_symbol_len e) 0)
      in (\<lparr>repair_key = next_repair_key e, first_source_id = first, window_size = of_nat (length w),
           repair_dt = (push_bit 4 GENERATOR_PUBLISHED_TAPS) OR (enc_dt e AND 0x0f),
           repair_payload = payload\<rparr>,
          e\<lparr>next_repair_key := next_repair_key e + 1\<rparr>))"

definition push_source :: "arch \<Rightarrow> GfBackend \<Rightarrow> bytes \<Rightarrow> RlcEncoder \<Rightarrow> u32 \<times> RepairSymbol option \<times> RlcEncoder" where
  "push_source ar cur payload e =
     (let sid = next_source_id e;
          e = e\<lparr>next_source_id := sid + 1,
                enc_window := trim_window (enc_window_max e) (enc_window e @ [(sid, payload)]),
                since_last_repair := since_last_repair e + 1\<rparr>
      in if coding_on e \<and> since_last_repair e \<ge> enc_step e
         then let (r, e) = emit_repair ar cur (e\<lparr>since_last_repair := 0\<rparr>) in (sid, Some r, e)
         else (sid, None, e))"

definition enc_forget_below :: "u32 \<Rightarrow> RlcEncoder \<Rightarrow> RlcEncoder" where
  "enc_forget_below floor e = e\<lparr>enc_window := dropWhile (\<lambda>(sid, _). sid < floor) (enc_window e)\<rparr>"

definition enc_rebase_to :: "u32 \<Rightarrow> RlcEncoder \<Rightarrow> RlcEncoder" where
  "enc_rebase_to base e = e\<lparr>next_source_id := base, enc_window := [], since_last_repair := 0\<rparr>"

section \<open>The decoder\<close>

record RlcDecoder =
  dec_symbol_len :: nat
  source :: "u32 \<rightharpoonup> bytes"
  repairs :: "RepairSymbol list"
  highest :: u32
  horizon :: u32
  dec_refused :: u64

definition dec_new :: "nat \<Rightarrow> RlcDecoder" where
  "dec_new symbol_len =
     \<lparr>dec_symbol_len = symbol_len, source = Map.empty, repairs = [], highest = 0, horizon = 1024, dec_refused = 0\<rparr>"

definition with_horizon :: "u32 \<Rightarrow> RlcDecoder \<Rightarrow> RlcDecoder" where
  "with_horizon h d = d\<lparr>horizon := max h 1\<rparr>"

definition on_source :: "u32 \<Rightarrow> bytes \<Rightarrow> RlcDecoder \<Rightarrow> u32 list \<times> RlcDecoder" where
  "on_source source_id payload d =
     ([], d\<lparr>highest := max (highest d) source_id,
            source := (case source d source_id of
              None \<Rightarrow> (source d)(source_id \<mapsto> payload) | Some _ \<Rightarrow> source d)\<rparr>)"

definition add_repair :: "RepairSymbol \<Rightarrow> RlcDecoder \<times> u64 \<Rightarrow> RlcDecoder \<times> u64" where
  "add_repair r = (\<lambda>(d, refused).
     if \<not> generator_is_readable r then (d\<lparr>dec_refused := dec_refused d + 1\<rparr>, refused + 1)
     else let end = first_source_id r + ucast (window_size r) in
       (d\<lparr>highest := max (highest d) (if end = 0 then 0 else end - 1), repairs := repairs d @ [r]\<rparr>, refused))"

definition get_symbol :: "u32 \<Rightarrow> RlcDecoder \<Rightarrow> bytes option" where
  "get_symbol sid d = source d sid"

definition has_symbol :: "u32 \<Rightarrow> RlcDecoder \<Rightarrow> bool" where
  "has_symbol sid d \<longleftrightarrow> source d sid \<noteq> None"

definition dec_forget_below :: "u32 \<Rightarrow> RlcDecoder \<Rightarrow> RlcDecoder" where
  "dec_forget_below floor d =
     (let repairs' = filter (\<lambda>r. first_source_id r + ucast (window_size r) > floor) (repairs d);
          safe = (case map first_source_id repairs' of
              [] \<Rightarrow> floor | f # fs \<Rightarrow> min floor (fold min fs f))
      in d\<lparr>repairs := repairs', source := (\<lambda>sid. if sid \<ge> safe then source d sid else None)\<rparr>)"

definition dec_rebase_to :: "u32 \<Rightarrow> RlcDecoder \<Rightarrow> RlcDecoder" where
  "dec_rebase_to base d = d\<lparr>source := Map.empty, repairs := [], highest := base\<rparr>"

subsection \<open>The recovery pass\<close>

definition window_offs :: "RepairSymbol \<Rightarrow> u32 list" where
  "window_offs r = map of_nat [0..<unat (window_size r)]"

definition unknown_ids :: "u32 \<Rightarrow> (u32 \<rightharpoonup> bytes) \<Rightarrow> RepairSymbol list \<Rightarrow> u32 list" where
  "unknown_ids lo src rs =
     sorted_list_of_set (set (concat (map (\<lambda>r.
       filter (\<lambda>sid. sid \<ge> lo \<and> src sid = None) (map (\<lambda>off. first_source_id r + off) (window_offs r))) rs)))"

record Row =
  coefs :: bytes
  rhs :: bytes

text \<open>
  The loop over one repair's window. \<open>None\<close> is the early exit with \<open>usable\<close> false; otherwise the
  result is the coefficient vector, the right-hand side and whether an unknown is covered.
\<close>

fun row_loop ::
    "arch \<Rightarrow> GfBackend \<Rightarrow> u32 \<Rightarrow> (u32 \<rightharpoonup> bytes) \<Rightarrow> (u32 \<rightharpoonup> nat) \<Rightarrow> RepairSymbol \<Rightarrow> u32 list \<Rightarrow>
     bytes \<Rightarrow> bytes \<Rightarrow> bool \<Rightarrow> (bytes \<times> bytes \<times> bool) option" where
  "row_loop ar cur lo src idx r [] cs b covers_unknown = Some (cs, b, covers_unknown)"
| "row_loop ar cur lo src idx r (off # offs) cs b covers_unknown =
     (let sid = first_source_id r + off;
          c = coefficient r off
      in if c = 0 then row_loop ar cur lo src idx r offs cs b covers_unknown
         else (case src sid of
           Some symbol \<Rightarrow> row_loop ar cur lo src idx r offs cs (gf_mul_add ar cur b symbol c) covers_unknown
         | None \<Rightarrow>
             (if sid \<ge> lo then row_loop ar cur lo src idx r offs (cs[the (idx sid) := c]) b True
              else None)))"

definition build_row ::
    "arch \<Rightarrow> GfBackend \<Rightarrow> u32 \<Rightarrow> (u32 \<rightharpoonup> bytes) \<Rightarrow> (u32 \<rightharpoonup> nat) \<Rightarrow> nat \<Rightarrow> RepairSymbol \<Rightarrow> Row option" where
  "build_row ar cur lo src idx ncols r =
     (case row_loop ar cur lo src idx r (window_offs r) (replicate ncols 0) (repair_payload r) False of
        Some (cs, b, True) \<Rightarrow> Some \<lparr>coefs = cs, rhs = b\<rparr>
      | _ \<Rightarrow> None)"

definition gf_scale :: "arch \<Rightarrow> GfBackend \<Rightarrow> bytes \<Rightarrow> u8 \<Rightarrow> bytes" where
  "gf_scale ar cur v coef = gf_mul_backend ar cur v coef"

definition scale_row :: "arch \<Rightarrow> GfBackend \<Rightarrow> u8 \<Rightarrow> Row \<Rightarrow> Row" where
  "scale_row ar cur iv row = \<lparr>coefs = map (\<lambda>cf. gf_mul cf iv) (coefs row), rhs = gf_scale ar cur (rhs row) iv\<rparr>"

definition subtract_row :: "arch \<Rightarrow> GfBackend \<Rightarrow> nat \<Rightarrow> Row \<Rightarrow> Row \<Rightarrow> Row" where
  "subtract_row ar cur col p row =
     (let f = coefs row ! col in
      if f = 0 then row
      else \<lparr>coefs = map2 (\<lambda>rc pc. rc XOR gf_mul f pc) (coefs row) (coefs p),
            rhs = gf_mul_add ar cur (rhs row) (rhs p) f\<rparr>)"

definition rref_col :: "arch \<Rightarrow> GfBackend \<Rightarrow> nat \<Rightarrow> nat \<times> Row list \<Rightarrow> nat \<times> Row list" where
  "rref_col ar cur col = (\<lambda>(pivot, rows).
     case find (\<lambda>r. coefs (rows ! r) ! col \<noteq> 0) [pivot..<length rows] of
       None \<Rightarrow> (pivot, rows)
     | Some sel \<Rightarrow>
         (let rows = rows[pivot := rows ! sel, sel := rows ! pivot];
              iv = gf_inv (coefs (rows ! pivot) ! col);
              p = scale_row ar cur iv (rows ! pivot);
              rows = rows[pivot := p]
          in (pivot + 1,
              map (\<lambda>(r, row). if r = pivot then row else subtract_row ar cur col p row) (enumerate 0 rows))))"

definition rref :: "arch \<Rightarrow> GfBackend \<Rightarrow> nat \<Rightarrow> Row list \<Rightarrow> Row list" where
  "rref ar cur ncols rows = snd (fold (rref_col ar cur) [0..<ncols] (0, rows))"

text \<open>The loop that stores the unknowns the reduced rows determine.\<close>

fun store_recovered ::
    "nat \<Rightarrow> u32 list \<Rightarrow> Row list \<Rightarrow> u32 list \<times> (u32 \<rightharpoonup> bytes) \<Rightarrow> u32 list \<times> (u32 \<rightharpoonup> bytes)" where
  "store_recovered ncols unknowns [] acc = acc"
| "store_recovered ncols unknowns (row # rows) (recovered, src) =
     (let nz = filter (\<lambda>c. coefs row ! c \<noteq> 0) [0..<ncols] in
      if length nz = 1 \<and> coefs row ! (nz ! 0) = 1 then
        (let sid = unknowns ! (nz ! 0) in
         if src sid = None
         then store_recovered ncols unknowns rows (recovered @ [sid], src(sid \<mapsto> rhs row))
         else store_recovered ncols unknowns rows (recovered, src))
      else store_recovered ncols unknowns rows (recovered, src))"

definition prune :: "RlcDecoder \<Rightarrow> RlcDecoder" where
  "prune d = d\<lparr>repairs := filter (\<lambda>r.
     \<exists>off\<in>set (window_offs r). source d (first_source_id r + off) = None) (repairs d)\<rparr>"

definition recovery_lo :: "RlcDecoder \<Rightarrow> u32" where
  "recovery_lo d = (if highest d < horizon d then 0 else highest d - horizon d)"

definition live_repairs :: "RlcDecoder \<Rightarrow> RepairSymbol list" where
  "live_repairs d = filter (\<lambda>r. first_source_id r + ucast (window_size r) > recovery_lo d) (repairs d)"

definition pending :: "RlcDecoder \<Rightarrow> u32 list" where
  "pending d = unknown_ids (recovery_lo d) (source d) (live_repairs d)"

definition equations :: "arch \<Rightarrow> GfBackend \<Rightarrow> RlcDecoder \<Rightarrow> Row list" where
  "equations ar cur d =
     (let unknowns = pending d;
          ncols = length unknowns;
          idx = map_of (zip unknowns [0..<ncols])
      in List.map_filter (build_row ar cur (recovery_lo d) (source d) idx ncols) (live_repairs d))"

definition try_recover :: "arch \<Rightarrow> GfBackend \<Rightarrow> RlcDecoder \<Rightarrow> u32 list \<times> RlcDecoder" where
  "try_recover ar cur d =
     (let unknowns = pending d;
          live = d\<lparr>repairs := live_repairs d\<rparr>
      in if unknowns = [] then ([], prune live)
         else let ncols = length unknowns;
                  rows = rref ar cur ncols (equations ar cur d);
                  (recovered, src) = store_recovered ncols unknowns rows ([], source d)
              in (recovered, prune (live\<lparr>source := src\<rparr>)))"

definition on_repair :: "arch \<Rightarrow> GfBackend \<Rightarrow> RepairSymbol \<Rightarrow> RlcDecoder \<times> u64 \<Rightarrow> u32 list \<times> RlcDecoder \<times> u64" where
  "on_repair ar cur r st =
     (let (d, refused) = add_repair r st;
          (recovered, d) = try_recover ar cur d
      in (recovered, d, refused))"

section \<open>What a repair promises\<close>

text \<open>
  \<open>truth\<close> gives every source id the bytes that were pushed under it. A repair is valid when the
  decoder, reading the coefficients off the repair's own header, finds the payload to be that
  combination of the true symbols.
\<close>

definition repair_valid :: "(u32 \<Rightarrow> bytes) \<Rightarrow> nat \<Rightarrow> RepairSymbol \<Rightarrow> bool" where
  "repair_valid truth len r \<longleftrightarrow>
     generator_is_readable r \<and> length (repair_payload r) = len \<and>
     (\<forall>p<len. GF (repair_payload r ! p) =
       (\<Sum>off\<leftarrow>window_offs r. GF (coefficient r off) * GF (truth (first_source_id r + off) ! p)))"

text \<open>
  The encoder's invariant: the window holds the newest symbols, under consecutive ids ending just
  below the next one, all of the symbol length, and its size fits the header's 16-bit field.
\<close>

definition contiguous :: "u32 \<Rightarrow> (u32 \<times> bytes) list \<Rightarrow> bool" where
  "contiguous next w \<longleftrightarrow> (\<forall>i<length w. fst (w ! i) = next - of_nat (length w - i))"

definition enc_inv :: "RlcEncoder \<Rightarrow> bool" where
  "enc_inv e \<longleftrightarrow>
     0 < enc_window_max e \<and> enc_window_max e < 2 ^ 16 \<and> length (enc_window e) \<le> enc_window_max e \<and>
     enc_dt e \<le> 15 \<and> contiguous (next_source_id e) (enc_window e) \<and>
     (\<forall>s\<in>set (enc_window e). length (snd s) = enc_symbol_len e)"

lemma contiguous_drop: "contiguous next w \<Longrightarrow> contiguous next (drop k w)"
  by (auto simp: contiguous_def)

lemma contiguous_snoc: "contiguous next w \<Longrightarrow> contiguous (next + 1) (w @ [(next, p)])"
  by (auto simp: contiguous_def nth_append less_Suc_eq Suc_diff_le)

lemma trim_window_drop: "trim_window m w = drop (length w - m) w"
  by (induction w) (auto simp: Suc_diff_le)

lemma dropWhile_drop: "\<exists>k. dropWhile P w = drop k w"
  by (metis append_eq_conv_conj takeWhile_dropWhile_id)

lemma emit_repair_enc: "snd (emit_repair ar cur e) = e\<lparr>next_repair_key := next_repair_key e + 1\<rparr>"
  by (simp add: emit_repair_def Let_def)

text \<open>Every operation of the encoder keeps its invariant.\<close>

lemma enc_inv_new: "m < 2 ^ 16 \<Longrightarrow> enc_inv (enc_new m step dt len)"
  by (auto simp: enc_inv_def enc_new_def contiguous_def)

lemma enc_inv_set_params: "enc_inv e \<Longrightarrow> m < 2 ^ 16 \<Longrightarrow> enc_inv (set_params m step dt e)"
  by (auto simp: enc_inv_def set_params_def trim_window_drop contiguous_drop dest: in_set_dropD)

lemma enc_inv_set_coding: "enc_inv e \<Longrightarrow> enc_inv (set_coding on e)"
  by (simp add: enc_inv_def set_coding_def)

lemma enc_inv_forget: "enc_inv e \<Longrightarrow> enc_inv (enc_forget_below floor e)"
  using dropWhile_drop [of "\<lambda>(sid, _). sid < floor" "enc_window e"]
  by (fastforce simp: enc_inv_def enc_forget_below_def contiguous_drop dest: in_set_dropD)

lemma enc_inv_rebase: "enc_inv e \<Longrightarrow> enc_inv (enc_rebase_to base e)"
  by (simp add: enc_inv_def enc_rebase_to_def contiguous_def)

definition slide :: "nat \<Rightarrow> bytes \<Rightarrow> RlcEncoder \<Rightarrow> RlcEncoder" where
  "slide s p e = e\<lparr>next_source_id := next_source_id e + 1,
     enc_window := trim_window (enc_window_max e) (enc_window e @ [(next_source_id e, p)]), since_last_repair := s\<rparr>"

lemma push_source_slide:
  assumes "push_source ar cur p e = (sid, repair, e')"
  shows "sid = next_source_id e \<and> (\<exists>s. repair = None \<and> e' = slide s p e \<or>
    (\<exists>r. repair = Some r \<and> emit_repair ar cur (slide s p e) = (r, e')))"
  using assms by (auto simp: push_source_def slide_def Let_def split: if_splits prod.splits)

lemma enc_inv_slide:
  assumes "enc_inv e" "length p = enc_symbol_len e"
  shows "enc_inv (slide s p e)"
  using assms contiguous_drop [OF contiguous_snoc [of "next_source_id e" "enc_window e" p]]
  by (auto simp: enc_inv_def slide_def trim_window_drop simp del: drop_append dest!: in_set_dropD)

lemma slide_window: "set (enc_window (slide s p e)) \<subseteq> insert (next_source_id e, p) (set (enc_window e))"
  by (auto simp: slide_def trim_window_drop dest!: in_set_dropD)

lemma low_nibble: "(d :: u8) \<le> 15 \<Longrightarrow> d AND 15 = d"
proof -
  assume "d \<le> 15"
  then have "unat d < 16" by (simp add: word_le_nat_alt)
  then have "take_bit 4 d = d" by (simp add: take_bit_word_small)
  moreover have "take_bit 4 d = d AND mask 4" by (simp add: take_bit_eq_mask)
  ultimately show ?thesis by (simp add: mask_eq_exp_minus_1)
qed

lemma emitted_header:
  assumes "d \<le> 15" "repair_dt r = push_bit 4 GENERATOR_PUBLISHED_TAPS OR (d AND 0x0f)"
  shows "density r = d" "generator_is_readable r"
proof -
  have "(push_bit 4 1 OR (d AND 0x0f)) AND 0x0f = d AND (0x0f :: u8)"
    by (simp add: byte_bits bit_simps del: push_bit_Suc)
  then show "density r = d"
    using assms by (simp add: density_def GENERATOR_PUBLISHED_TAPS_def low_nibble)
  have "drop_bit 4 (push_bit 4 1 OR (d AND 0x0f)) = (1 :: u8)"
    by (simp add: byte_bits bit_simps del: push_bit_Suc)
  then show "generator_is_readable r"
    using assms by (simp add: generator_is_readable_def generator_def GENERATOR_PUBLISHED_TAPS_def)
qed

lemma window_offs_word:
  assumes "window_size r = of_nat n" "n < 2 ^ 16"
  shows "window_offs r = map of_nat [0..<n]"
  using assms by (simp add: window_offs_def unsigned_of_nat take_bit_nat_eq_self)

lemma coefficient_tap:
  assumes "window_size r = of_nat n" "n < 2 ^ 16" "i < n"
  shows "coefficient r (of_nat i) = fixed_coef (n - 1 - i) (density r)"
proof -
  have ws: "(ucast (window_size r) :: u32) = of_nat n"
    using assms by (simp add: word_eq_iff_unsigned unsigned_ucast_eq unsigned_of_nat take_bit_nat_eq_self)
  have nz: "(of_nat n :: u32) \<noteq> 0"
  proof
    assume "(of_nat n :: u32) = 0"
    then have "unat (of_nat n :: u32) = 0" by (simp only: unsigned_0)
    then show False using assms unat_of_nat_small [where ?'a = 32, of n] by simp
  qed
  have eq: "(of_nat n :: u32) - 1 - of_nat i = of_nat (n - 1 - i)"
    using assms by (simp add: of_nat_diff)
  have "unat (of_nat (n - 1 - i) :: u32) = n - 1 - i"
    using assms by (intro unat_of_nat_small) simp
  then show ?thesis unfolding coefficient_def ws Let_def if_not_P [OF nz] eq by simp
qed

lemma emit_repair_payload:
  assumes "w = enc_window e" "n = length w"
  shows "repair_payload (fst (emit_repair ar cur e)) =
    combine ar cur n (enc_symbol_len e) (\<lambda>i. fixed_coef (n - 1 - i) (enc_dt e)) (\<lambda>i. snd (w ! i))"
proof -
  have "repair_payload (fst (emit_repair ar cur e)) =
      fold (\<lambda>(i, (_, symbol)) payload. if fixed_coef (n - 1 - i) (enc_dt e) \<noteq> 0
          then gf_mul_add ar cur payload symbol (fixed_coef (n - 1 - i) (enc_dt e)) else payload)
        (enumerate 0 w) (replicate (enc_symbol_len e) 0)"
    unfolding emit_repair_def Let_def assms by simp
  then show ?thesis
    unfolding enumerate_map fold_map combine_def assms(2)
    by (simp only: comp_def case_prod_beta fst_conv snd_conv) (intro fold_cong; auto)
qed

lemma emit_repair_ids:
  assumes "enc_inv e" "i < length (enc_window e)"
  shows "first_source_id (fst (emit_repair ar cur e)) + of_nat i = fst (enc_window e ! i)"
proof -
  have at: "fst (enc_window e ! j) = next_source_id e - of_nat (length (enc_window e) - j)"
    if "j < length (enc_window e)" for j
    using assms(1) that by (simp add: enc_inv_def contiguous_def)
  have "first_source_id (fst (emit_repair ar cur e)) = fst (enc_window e ! 0)"
    using assms(2) by (cases "enc_window e") (auto simp: emit_repair_def Let_def)
  moreover have "0 < length (enc_window e)" using assms(2) by linarith
  ultimately show ?thesis using at [of 0] at [OF assms(2)] assms(2) by (simp add: of_nat_diff)
qed

lemma emit_repair_offs:
  assumes "enc_inv e"
  shows "window_offs (fst (emit_repair ar cur e)) = map of_nat [0..<length (enc_window e)]"
  by (rule window_offs_word) (use assms in \<open>auto simp: emit_repair_def Let_def enc_inv_def\<close>)

lemma emit_repair_valid:
  assumes e: "enc_inv e" "enc_symbol_len e = len"
    and truth: "\<And>sid p. (sid, p) \<in> set (enc_window e) \<Longrightarrow> p = truth sid"
  shows "repair_valid truth len (fst (emit_repair ar cur e))"
proof -
  define w n r where "w = enc_window e" and "n = length w" and "r = fst (emit_repair ar cur e)"
  have n: "n < 2 ^ 16" using e by (simp add: enc_inv_def w_def n_def)
  have r: "window_size r = of_nat n" "first_source_id r = (case w of [] \<Rightarrow> 0 | (sid, _) # _ \<Rightarrow> sid)"
    "repair_dt r = push_bit 4 GENERATOR_PUBLISHED_TAPS OR (enc_dt e AND 0x0f)"
    by (simp_all add: r_def emit_repair_def Let_def w_def n_def)
  note header = emitted_header [OF _ r(3)]
  have len: "length (snd (w ! i)) = len" if "i < n" for i
    using e that nth_mem [of i w] by (simp add: enc_inv_def w_def n_def)
  have id: "first_source_id r + of_nat i = fst (w ! i)" if "i < n" for i
    using emit_repair_ids [OF e(1), of i ar cur] that by (simp add: r_def w_def n_def)
  have sent: "truth (fst (w ! i)) = snd (w ! i)" if "i < n" for i
    using truth [of "fst (w ! i)" "snd (w ! i)"] that by (simp add: w_def n_def)
  have payload: "repair_payload r = combine ar cur n len (\<lambda>i. fixed_coef (n - 1 - i) (enc_dt e)) (\<lambda>i. snd (w ! i))"
    using emit_repair_payload [of w e n] e by (simp add: r_def w_def n_def)
  have "GF (repair_payload r ! p) =
      (\<Sum>off\<leftarrow>window_offs r. GF (coefficient r off) * GF (truth (first_source_id r + off) ! p))"
    if "p < len" for p
  proof -
    have "(\<Sum>off\<leftarrow>window_offs r. GF (coefficient r off) * GF (truth (first_source_id r + off) ! p)) =
        (\<Sum>i<n. GF (coefficient r (of_nat i)) * GF (truth (first_source_id r + of_nat i) ! p))"
      by (simp add: window_offs_word [OF r(1) n] sum_list_upt comp_def)
    also have "\<dots> = (\<Sum>i<n. GF (fixed_coef (n - 1 - i) (enc_dt e)) * GF (snd (w ! i) ! p))"
      using coefficient_tap [OF r(1) n] header(1) e(1)
      by (intro sum.cong refl) (simp add: id sent enc_inv_def)
    also have "\<dots> = GF (repair_payload r ! p)"
      unfolding payload using that len by (simp add: combine_sum)
    finally show ?thesis by simp
  qed
  moreover have "length (repair_payload r) = len" unfolding payload using len by (simp add: combine_sum)
  ultimately show ?thesis
    using header(2) e(1) unfolding r_def [symmetric] by (simp add: repair_valid_def enc_inv_def)
qed

section \<open>The decoder stores only true symbols\<close>

text \<open>A row's equation: the right-hand side is its combination of the true unknown symbols.\<close>

definition row_value :: "(u32 \<Rightarrow> bytes) \<Rightarrow> u32 list \<Rightarrow> bytes \<Rightarrow> nat \<Rightarrow> gf256" where
  "row_value truth unknowns cs p = (\<Sum>c<length unknowns. GF (cs ! c) * GF (truth (unknowns ! c) ! p))"

definition row_ok :: "(u32 \<Rightarrow> bytes) \<Rightarrow> nat \<Rightarrow> u32 list \<Rightarrow> Row \<Rightarrow> bool" where
  "row_ok truth len unknowns row \<longleftrightarrow>
     length (coefs row) = length unknowns \<and> length (rhs row) = len \<and>
     (\<forall>p<len. GF (rhs row ! p) = row_value truth unknowns (coefs row) p)"

lemma row_value_zero: "row_value truth unknowns (replicate (length unknowns) 0) p = 0"
  by (simp add: row_value_def GF_simps)

lemma row_value_update:
  assumes "i < length unknowns" "length cs = length unknowns" "cs ! i = 0"
  shows "row_value truth unknowns (cs[i := c]) p =
    row_value truth unknowns cs p + GF c * GF (truth (unknowns ! i) ! p)"
proof -
  have "row_value truth unknowns (cs[i := c]) p =
      (\<Sum>j<length unknowns. GF (cs ! j) * GF (truth (unknowns ! j) ! p) +
        (if j = i then GF c * GF (truth (unknowns ! i) ! p) else 0))"
    unfolding row_value_def using assms
    by (intro sum.cong refl) (auto simp: nth_list_update GF_simps)
  also have "\<dots> = row_value truth unknowns cs p + GF c * GF (truth (unknowns ! i) ! p)"
    using assms(1) by (simp add: sum.distrib row_value_def)
  finally show ?thesis .
qed

text \<open>The loop over a repair's window keeps the difference between the two sides of the equation.\<close>

lemma row_loop_value:
  assumes src: "\<And>sid v. src sid = Some v \<Longrightarrow> v = truth sid" and len: "\<And>sid. length (truth sid) = len"
    and idx: "\<forall>off\<in>set offs. src (first_source_id r + off) = None \<longrightarrow> lo \<le> first_source_id r + off \<longrightarrow>
      (\<exists>i<length unknowns. idx (first_source_id r + off) = Some i \<and> unknowns ! i = first_source_id r + off \<and> cs ! i = 0)"
    and "distinct offs" "length cs = length unknowns" "length b = len"
    and run: "row_loop ar cur lo src idx r offs cs b cov = Some (cs', b', cov')"
  shows "length cs' = length unknowns \<and> length b' = len \<and>
    (\<forall>p<len. GF (b' ! p) + row_value truth unknowns cs' p =
       GF (b ! p) + row_value truth unknowns cs p +
       (\<Sum>off\<leftarrow>offs. GF (coefficient r off) * GF (truth (first_source_id r + off) ! p)))"
  using idx assms(4-6) run
proof (induction offs arbitrary: cs b cov)
  case (Cons off offs)
  let ?sid = "first_source_id r + off" and ?c = "coefficient r off"
  have dist: "distinct offs" "off \<notin> set offs" using Cons.prems(2) by auto
  show ?case
  proof (cases "?c = 0")
    case True
    then show ?thesis using Cons.IH [of cs b cov] Cons.prems by (simp add: GF_simps)
  next
    case c: False
    show ?thesis
    proof (cases "src ?sid")
      case (Some v)
      then have v: "v = truth ?sid" using src by simp
      let ?b = "gf_mul_add ar cur b v ?c"
      have "length ?b = len" "\<And>p. p < len \<Longrightarrow> GF (?b ! p) = GF (b ! p) + GF ?c * GF (truth ?sid ! p)"
        using kernel.mul_add_nth [of v b _ ar cur ?c] kernel.length_mul_add [of v b ar cur ?c] len Cons.prems(4) v
        by auto
      with Cons.IH [of cs ?b cov] Cons.prems dist c Some show ?thesis by (simp add: algebra_simps)
    next
      case None
      with Cons.prems(5) c have lo: "lo \<le> ?sid" by (auto simp: Let_def split: if_splits)
      with Cons.prems(1) None obtain i where
        i: "i < length unknowns" "idx ?sid = Some i" "unknowns ! i = ?sid" "cs ! i = 0" by auto
      let ?cs = "cs[i := ?c]"
      have fresh: "\<forall>off\<in>set offs. src (first_source_id r + off) = None \<longrightarrow> lo \<le> first_source_id r + off \<longrightarrow>
          (\<exists>i<length unknowns. idx (first_source_id r + off) = Some i \<and> unknowns ! i = first_source_id r + off \<and> ?cs ! i = 0)"
      proof (intro ballI impI)
        fix off' assume off': "off' \<in> set offs" "src (first_source_id r + off') = None" "lo \<le> first_source_id r + off'"
        with Cons.prems(1) obtain j where
          j: "j < length unknowns" "idx (first_source_id r + off') = Some j" "unknowns ! j = first_source_id r + off'" "cs ! j = 0"
          by auto
        have "off' \<noteq> off" using off' dist by auto
        then have "j \<noteq> i" using i(3) j(3) by auto
        with j show "\<exists>i<length unknowns. idx (first_source_id r + off') = Some i \<and>
            unknowns ! i = first_source_id r + off' \<and> ?cs ! i = 0" by auto
      qed
      have "row_loop ar cur lo src idx r offs ?cs b True = Some (cs', b', cov')"
        using Cons.prems(5) None c lo i by (simp add: Let_def)
      from Cons.IH [OF fresh dist(1) _ Cons.prems(4) this] Cons.prems(3)
        row_value_update [OF i(1) Cons.prems(3) i(4), of truth ?c]
      show ?thesis by (simp add: i(3) algebra_simps)
    qed
  qed
qed simp

lemma gf256_add_eq_0: "(a :: gf256) + b = 0 \<longleftrightarrow> a = b"
  by (metis add.right_neutral add.assoc gf256_add_self)

lemma distinct_window_offs: "distinct (window_offs r)"
proof -
  have "unat (window_size r) < 2 ^ 16" using unsigned_less [of "window_size r", where ?'a = nat] by simp
  then have "inj_on (of_nat :: nat \<Rightarrow> u32) {0..<unat (window_size r)}"
    by (intro inj_onI) (simp add: of_nat_word_inj)
  then show ?thesis by (simp add: window_offs_def distinct_map)
qed

lemma unknown_ids_spec:
  "distinct (unknown_ids lo src rs)"
  "set (unknown_ids lo src rs) =
    {sid. \<exists>r\<in>set rs. \<exists>off\<in>set (window_offs r). sid = first_source_id r + off \<and> lo \<le> sid \<and> src sid = None}"
  by (auto simp: unknown_ids_def)

lemma build_row_ok:
  assumes src: "\<And>sid v. src sid = Some v \<Longrightarrow> v = truth sid" and len: "\<And>sid. length (truth sid) = len"
    and r: "repair_valid truth len r" "r \<in> set rs"
    and unknowns: "unknowns = unknown_ids lo src rs" "idx = map_of (zip unknowns [0..<length unknowns])"
    and row: "build_row ar cur lo src idx (length unknowns) r = Some row"
  shows "row_ok truth len unknowns row"
proof -
  from row obtain cs b where run:
    "row_loop ar cur lo src idx r (window_offs r) (replicate (length unknowns) 0) (repair_payload r) False = Some (cs, b, True)"
    and row_eq: "row = \<lparr>coefs = cs, rhs = b\<rparr>"
    by (auto simp: build_row_def split: option.splits bool.splits)
  have idx: "\<forall>off\<in>set (window_offs r). src (first_source_id r + off) = None \<longrightarrow> lo \<le> first_source_id r + off \<longrightarrow>
      (\<exists>i<length unknowns. idx (first_source_id r + off) = Some i \<and>
        unknowns ! i = first_source_id r + off \<and> replicate (length unknowns) 0 ! i = (0 :: u8))"
  proof (intro ballI impI)
    fix off assume "off \<in> set (window_offs r)" "src (first_source_id r + off) = None" "lo \<le> first_source_id r + off"
    then have "first_source_id r + off \<in> set unknowns" using r(2) unknowns by (auto simp: unknown_ids_spec)
    then obtain i where i: "i < length unknowns" "unknowns ! i = first_source_id r + off" by (auto simp: in_set_conv_nth)
    then have "idx (first_source_id r + off) = Some i"
      using map_of_zip_nth [of unknowns "[0..<length unknowns]" i] unknowns by (simp add: unknown_ids_spec)
    with i show "\<exists>i<length unknowns. idx (first_source_id r + off) = Some i \<and>
        unknowns ! i = first_source_id r + off \<and> replicate (length unknowns) 0 ! i = (0 :: u8)" by auto
  qed
  have "length (repair_payload r) = len" using r by (simp add: repair_valid_def)
  from row_loop_value [OF src len idx distinct_window_offs _ this run] r
  have "length cs = length unknowns \<and> length b = len \<and> (\<forall>p<len. GF (b ! p) + row_value truth unknowns cs p = 0)"
    by (simp add: row_value_zero repair_valid_def)
  then show ?thesis by (simp add: row_ok_def row_eq gf256_add_eq_0)
qed

lemma scale_row_ok:
  assumes "row_ok truth len unknowns row"
  shows "row_ok truth len unknowns (scale_row ar cur iv row)"
proof -
  have "row_value truth unknowns (map (\<lambda>cf. gf_mul cf iv) (coefs row)) p = GF iv * row_value truth unknowns (coefs row) p" for p
    using assms by (simp add: row_value_def row_ok_def sum_distrib_left GF_simps ac_simps)
  with assms show ?thesis
    by (simp add: row_ok_def scale_row_def gf_scale_def gf_mul_backend_eq GF_simps)
qed

lemma subtract_row_ok:
  assumes "row_ok truth len unknowns row" "row_ok truth len unknowns p"
  shows "row_ok truth len unknowns (subtract_row ar cur col p row)"
proof -
  let ?f = "coefs row ! col"
  have "row_value truth unknowns (map2 (\<lambda>rc pc. rc XOR gf_mul ?f pc) (coefs row) (coefs p)) q =
      row_value truth unknowns (coefs row) q + GF ?f * row_value truth unknowns (coefs p) q" for q
    using assms by (simp add: row_value_def row_ok_def sum_distrib_left sum.distrib GF_simps ring_distribs ac_simps)
  with assms show ?thesis
    by (simp add: row_ok_def subtract_row_def Let_def kernel.mul_add_nth kernel.length_mul_add)
qed

text \<open>One column of the reduction: where the pivot comes from and what becomes of the rows.\<close>

lemma rref_col_cases:
  obtains (none) "rref_col ar cur col (pivot, rows) = (pivot, rows)"
      "\<And>r. pivot \<le> r \<Longrightarrow> r < length rows \<Longrightarrow> coefs (rows ! r) ! col = 0"
  | (pivot) sel p where "pivot \<le> sel" "sel < length rows" "coefs (rows ! sel) ! col \<noteq> 0"
      "p = scale_row ar cur (gf_inv (coefs (rows ! sel) ! col)) (rows ! sel)"
      "rref_col ar cur col (pivot, rows) = (pivot + 1, map (\<lambda>r. if r = pivot then p
         else subtract_row ar cur col p (rows ! (if r = sel then pivot else r))) [0..<length rows])"
proof (cases "find (\<lambda>r. coefs (rows ! r) ! col \<noteq> 0) [pivot..<length rows]")
  case None
  then have "rref_col ar cur col (pivot, rows) = (pivot, rows)" by (simp add: rref_col_def)
  with None show thesis by (intro none) (auto simp: find_None_iff)
next
  case (Some sel)
  then have sel: "pivot \<le> sel" "sel < length rows" "coefs (rows ! sel) ! col \<noteq> 0"
    by (auto simp: find_Some_iff)
  let ?p = "scale_row ar cur (gf_inv (coefs (rows ! sel) ! col)) (rows ! sel)"
  have "rref_col ar cur col (pivot, rows) = (pivot + 1, map (\<lambda>r. if r = pivot then ?p
         else subtract_row ar cur col ?p (rows ! (if r = sel then pivot else r))) [0..<length rows])"
    using Some sel by (auto simp: rref_col_def Let_def enumerate_map nth_list_update)
  with sel show thesis by (intro pivot) auto
qed

lemma rref_col_ok:
  assumes "\<forall>row\<in>set rows. row_ok truth len unknowns row"
  shows "\<forall>row\<in>set (snd (rref_col ar cur col (pivot, rows))). row_ok truth len unknowns row"
proof (cases rule: rref_col_cases [where ar = ar and cur = cur and col = col and pivot = pivot and rows = rows])
  case (pivot sel p)
  then have "row_ok truth len unknowns p" using assms by (auto intro: scale_row_ok)
  with pivot assms show ?thesis by (auto intro: subtract_row_ok)
qed (use assms in simp)

lemma rref_cols_ok:
  assumes "\<forall>row\<in>set rows. row_ok truth len unknowns row"
  shows "\<forall>row\<in>set (snd (fold (rref_col ar cur) cols (pivot, rows))). row_ok truth len unknowns row"
  using assms
proof (induction cols arbitrary: pivot rows)
  case (Cons col cols)
  obtain pivot' rows' where eq: "rref_col ar cur col (pivot, rows) = (pivot', rows')" by fastforce
  then have "\<forall>row\<in>set rows'. row_ok truth len unknowns row"
    using rref_col_ok [OF Cons.prems, of ar cur col pivot] by simp
  from Cons.IH [OF this] show ?case by (simp add: eq)
qed simp

text \<open>The unknown a reduced row determines, if any.\<close>

definition determined :: "nat \<Rightarrow> Row \<Rightarrow> nat option" where
  "determined ncols row =
     (let nz = filter (\<lambda>c. coefs row ! c \<noteq> 0) [0..<ncols]
      in if length nz = 1 \<and> coefs row ! (nz ! 0) = 1 then Some (nz ! 0) else None)"

lemma store_recovered_Cons:
  "store_recovered ncols unknowns (row # rows) (recovered, src) =
     (case determined ncols row of
        Some i \<Rightarrow>
          (if src (unknowns ! i) = None
           then store_recovered ncols unknowns rows (recovered @ [unknowns ! i], src(unknowns ! i \<mapsto> rhs row))
           else store_recovered ncols unknowns rows (recovered, src))
      | None \<Rightarrow> store_recovered ncols unknowns rows (recovered, src))"
  by (simp add: determined_def Let_def)

declare store_recovered.simps(2) [simp del]

lemma filter_eq_upt: "filter (\<lambda>c. c = i) [0..<n] = (if i < n then [i] else [])" for i n :: nat
  by (induction n) auto

lemma determined_iff:
  "determined ncols row = Some i \<longleftrightarrow>
     i < ncols \<and> coefs row ! i = 1 \<and> (\<forall>c<ncols. c \<noteq> i \<longrightarrow> coefs row ! c = 0)"
proof
  let ?nz = "filter (\<lambda>c. coefs row ! c \<noteq> 0) [0..<ncols]"
  assume "determined ncols row = Some i"
  then have one: "?nz = [i]" "coefs row ! i = 1"
    by (auto simp: determined_def Let_def length_Suc_conv split: if_splits)
  have "c \<in> set ?nz \<longleftrightarrow> c = i" for c unfolding one(1) by simp
  then show "i < ncols \<and> coefs row ! i = 1 \<and> (\<forall>c<ncols. c \<noteq> i \<longrightarrow> coefs row ! c = 0)" using one(2) by auto
next
  assume i: "i < ncols \<and> coefs row ! i = 1 \<and> (\<forall>c<ncols. c \<noteq> i \<longrightarrow> coefs row ! c = 0)"
  then have "filter (\<lambda>c. coefs row ! c \<noteq> 0) [0..<ncols] = filter (\<lambda>c. c = i) [0..<ncols]"
    by (intro filter_cong) auto
  with i show "determined ncols row = Some i" by (simp add: determined_def filter_eq_upt)
qed

lemma determined_value:
  assumes "row_ok truth len unknowns row" "length (truth (unknowns ! i)) = len"
    and "determined (length unknowns) row = Some i"
  shows "rhs row = truth (unknowns ! i)"
proof (rule nth_equalityI)
  show "length (rhs row) = length (truth (unknowns ! i))" using assms by (simp add: row_ok_def)
  fix p assume "p < length (rhs row)"
  then have "GF (rhs row ! p) = row_value truth unknowns (coefs row) p" using assms by (simp add: row_ok_def)
  also have "\<dots> = (\<Sum>c<length unknowns. if c = i then GF (truth (unknowns ! i) ! p) else 0)"
    unfolding row_value_def using assms by (intro sum.cong) (auto simp: determined_iff GF_simps)
  also have "\<dots> = GF (truth (unknowns ! i) ! p)" using assms by (simp add: determined_iff)
  finally show "rhs row ! p = truth (unknowns ! i) ! p" by simp
qed

definition true_source :: "(u32 \<Rightarrow> bytes) \<Rightarrow> (u32 \<rightharpoonup> bytes) \<Rightarrow> bool" where
  "true_source truth src \<longleftrightarrow> (\<forall>sid v. src sid = Some v \<longrightarrow> v = truth sid)"

lemma true_sourceD: "true_source truth src \<Longrightarrow> src sid = Some v \<Longrightarrow> v = truth sid"
  by (simp add: true_source_def)

lemma true_source_update: "true_source truth src \<Longrightarrow> true_source truth (src(sid \<mapsto> truth sid))"
  by (auto simp: true_source_def)

lemma store_recovered_sound:
  assumes "\<forall>row\<in>set rows. row_ok truth len unknowns row" "\<And>sid. length (truth sid) = len"
    and "true_source truth src"
    and "store_recovered (length unknowns) unknowns rows (recovered, src) = (recovered', src')"
  shows "true_source truth src'"
  using assms(1,3,4)
proof (induction rows arbitrary: recovered src)
  case (Cons row rows)
  have ok: "\<forall>row\<in>set rows. row_ok truth len unknowns row" using Cons.prems(1) by simp
  show ?case
  proof (cases "\<exists>i. determined (length unknowns) row = Some i \<and> src (unknowns ! i) = None")
    case True
    then obtain i where i: "determined (length unknowns) row = Some i" "src (unknowns ! i) = None" by blast
    then have val: "rhs row = truth (unknowns ! i)"
      using Cons.prems(1) assms(2) by (intro determined_value) auto
    have "store_recovered (length unknowns) unknowns rows
        (recovered @ [unknowns ! i], src(unknowns ! i \<mapsto> truth (unknowns ! i))) = (recovered', src')"
      using Cons.prems(3) i val by (simp add: store_recovered_Cons)
    from Cons.IH [OF ok true_source_update [OF Cons.prems(2)] this] show ?thesis .
  next
    case False
    then have "store_recovered (length unknowns) unknowns rows (recovered, src) = (recovered', src')"
      using Cons.prems(3) by (auto simp: store_recovered_Cons split: option.splits)
    from Cons.IH [OF ok Cons.prems(2) this] show ?thesis .
  qed
qed simp

text \<open>The decoder's invariant, and that a recovery pass keeps it.\<close>

definition authentic :: "(u32 \<Rightarrow> bytes) \<Rightarrow> nat \<Rightarrow> RlcDecoder \<Rightarrow> bool" where
  "authentic truth len d \<longleftrightarrow>
     true_source truth (source d) \<and> (\<forall>r\<in>set (repairs d). repair_valid truth len r)"

lemma authentic_prune: "authentic truth len d \<Longrightarrow> authentic truth len (prune d)"
  by (simp add: authentic_def prune_def)

lemma equations_ok:
  assumes d: "authentic truth len d" and len: "\<And>sid. length (truth sid) = len"
  shows "\<forall>row\<in>set (equations ar cur d). row_ok truth len (pending d) row"
proof -
  have src: "\<And>sid v. source d sid = Some v \<Longrightarrow> v = truth sid"
    and rs: "\<And>r. r \<in> set (live_repairs d) \<Longrightarrow> repair_valid truth len r"
    using d by (auto simp: authentic_def live_repairs_def dest: true_sourceD)
  from build_row_ok [OF src len rs _ pending_def refl] show ?thesis
    by (auto simp: equations_def Let_def List.map_filter_def)
qed

text \<open>A recovery pass, in terms of the equations it solves.\<close>

lemma try_recover_cases:
  obtains (idle) "pending d = []" "try_recover ar cur d = ([], prune (d\<lparr>repairs := live_repairs d\<rparr>))"
  | (solve) recovered src where "pending d \<noteq> []"
      "store_recovered (length (pending d)) (pending d)
        (rref ar cur (length (pending d)) (equations ar cur d)) ([], source d) = (recovered, src)"
      "try_recover ar cur d = (recovered, prune (d\<lparr>repairs := live_repairs d, source := src\<rparr>))"
proof (cases "pending d = []")
  case True
  then show thesis by (intro idle) (simp_all add: try_recover_def)
next
  case False
  obtain recovered src where "store_recovered (length (pending d)) (pending d)
      (rref ar cur (length (pending d)) (equations ar cur d)) ([], source d) = (recovered, src)" by fastforce
  with False show thesis by (intro solve) (simp_all add: try_recover_def Let_def)
qed

lemma try_recover_authentic:
  assumes d: "authentic truth len d" and len: "\<And>sid. length (truth sid) = len"
  shows "authentic truth len (snd (try_recover ar cur d))"
proof -
  have live: "\<forall>r\<in>set (live_repairs d). repair_valid truth len r" using d by (simp add: authentic_def live_repairs_def)
  show ?thesis
  proof (cases rule: try_recover_cases [of d ar cur])
    case idle
    have "authentic truth len (d\<lparr>repairs := live_repairs d\<rparr>)" using d live by (simp add: authentic_def)
    with idle show ?thesis by (simp add: authentic_prune)
  next
    case (solve recovered src)
    have "true_source truth src"
      using store_recovered_sound [OF rref_cols_ok [OF equations_ok [OF d len]] len _ solve(2) [unfolded rref_def]] d
      by (simp add: authentic_def)
    with live have "authentic truth len (d\<lparr>repairs := live_repairs d, source := src\<rparr>)" by (simp add: authentic_def)
    with solve show ?thesis by (simp add: authentic_prune)
  qed
qed

section \<open>The decoder recovers whatever its equations determine\<close>

definition apply_row :: "nat \<Rightarrow> (nat \<Rightarrow> gf256) \<Rightarrow> Row \<Rightarrow> gf256" where
  "apply_row n x row = (\<Sum>c<n. GF (coefs row ! c) * x c)"

text \<open>The unknowns are determined when the homogeneous system has no solution but zero.\<close>

definition full_rank :: "nat \<Rightarrow> Row list \<Rightarrow> bool" where
  "full_rank n rows \<longleftrightarrow> (\<forall>x. (\<forall>row\<in>set rows. apply_row n x row = 0) \<longrightarrow> (\<forall>c<n. x c = 0))"

lemma apply_scale_row:
  "length (coefs row) = n \<Longrightarrow> apply_row n x (scale_row ar cur iv row) = GF iv * apply_row n x row"
  by (simp add: apply_row_def scale_row_def sum_distrib_left GF_simps ac_simps)

lemma subtract_row_coefs:
  assumes "length (coefs row) = n" "length (coefs p) = n"
  shows "length (coefs (subtract_row ar cur col p row)) = n"
    and "c < n \<Longrightarrow> GF (coefs (subtract_row ar cur col p row) ! c) =
      GF (coefs row ! c) + GF (coefs row ! col) * GF (coefs p ! c)"
  using assms by (simp_all add: subtract_row_def Let_def GF_simps)

lemma apply_subtract_row:
  assumes "length (coefs row) = n" "length (coefs p) = n"
  shows "apply_row n x (subtract_row ar cur col p row) =
    apply_row n x row + GF (coefs row ! col) * apply_row n x p"
  using assms
  by (simp add: apply_row_def subtract_row_coefs sum_distrib_left sum.distrib ring_distribs ac_simps)

text \<open>After the first \<open>m\<close> columns every one of them has its pivot in the row of the same number.\<close>

definition reduced :: "nat \<Rightarrow> nat \<Rightarrow> Row list \<Rightarrow> bool" where
  "reduced n m rows \<longleftrightarrow>
     m \<le> length rows \<and> (\<forall>row\<in>set rows. length (coefs row) = n) \<and> full_rank n rows \<and>
     (\<forall>i<length rows. \<forall>j<m. GF (coefs (rows ! i) ! j) = (if i = j then 1 else 0))"

lemma reduced_has_pivot:
  assumes "reduced n m rows" "m < n"
  shows "\<exists>r. m \<le> r \<and> r < length rows \<and> coefs (rows ! r) ! m \<noteq> 0"
proof (rule ccontr)
  assume "\<not> ?thesis"
  then have none: "GF (coefs (rows ! r) ! m) = 0" if "m \<le> r" "r < length rows" for r using that by auto
  define x where "x = (\<lambda>j. if j = m then 1 else if j < m then GF (coefs (rows ! j) ! m) else 0)"
  have "apply_row n x (rows ! i) = 0" if i: "i < length rows" for i
  proof -
    let ?a = "GF (coefs (rows ! i) ! m)"
    have "apply_row n x (rows ! i) =
        (\<Sum>j<n. (if j = m then ?a else 0) + (if j = i then (if i < m then ?a else 0) else 0))"
      unfolding apply_row_def using assms i
      by (intro sum.cong) (auto simp: x_def reduced_def simp del: GF_eq_0_iff)
    also have "\<dots> = ?a + (if i < m then ?a else 0)" using assms(2) by (simp add: sum.distrib)
    finally show ?thesis using none [of i] i by auto
  qed
  then have "\<forall>row\<in>set rows. apply_row n x row = 0" by (auto simp: in_set_conv_nth)
  then have "x m = 0" using assms unfolding reduced_def full_rank_def by blast
  then show False by (simp add: x_def)
qed

lemma reduced_step:
  assumes red: "reduced n m rows" and m: "m < n"
  shows "\<exists>rows'. rref_col ar cur m (m, rows) = (Suc m, rows') \<and> reduced n (Suc m) rows'"
proof (cases rule: rref_col_cases [where ar = ar and cur = cur and col = m and pivot = m and rows = rows])
  case none
  with reduced_has_pivot [OF assms] show ?thesis by auto
next
  case (pivot sel p)
  have len: "length (coefs (rows ! i)) = n" if "i < length rows" for i using red that by (simp add: reduced_def)
  have unit: "GF (coefs (rows ! i) ! j) = (if i = j then 1 else 0)" if "i < length rows" "j < m" for i j
    using red that by (simp add: reduced_def)
  let ?old = "\<lambda>r. if r = sel then m else r"
  let ?row = "\<lambda>r. if r = m then p else subtract_row ar cur m p (rows ! ?old r)"
  define rows' where "rows' = map ?row [0..<length rows]"
  have r0: "?old r < length rows" if "r < length rows" for r using that pivot by auto
  have plen: "length (coefs p) = n" using pivot len by (simp add: scale_row_def)
  have pcoef: "GF (coefs p ! j) = GF (coefs (rows ! sel) ! j) * inverse (GF (coefs (rows ! sel) ! m))" if "j < n" for j
    using pivot len that by (simp add: scale_row_def GF_simps GF_inv)
  have p: "GF (coefs p ! j) = (if j = m then 1 else 0)" if "j \<le> m" for j
    using that m pcoef [of j] unit [of sel j] pivot by (cases "j = m") auto
  have at: "rows' ! i = ?row i" "length rows' = length rows" if "i < length rows" for i
    using that by (simp_all add: rows'_def)
  have "GF (coefs (rows' ! i) ! j) = (if i = j then 1 else 0)" if i: "i < length rows" and j: "j < Suc m" for i j
  proof (cases "i = m")
    case True
    then show ?thesis using i j p by (simp add: at)
  next
    case False
    have "GF (coefs (rows' ! i) ! j) = GF (coefs (rows ! ?old i) ! j) + GF (coefs (rows ! ?old i) ! m) * GF (coefs p ! j)"
      using False i j m len [OF r0 [OF i]] plen at [OF i] by (simp add: subtract_row_coefs)
    then show ?thesis using False i j p [of j] unit [OF r0 [OF i], of j] pivot by (auto simp: less_Suc_eq simp del: GF_eq_0_iff split: if_splits)
  qed
  moreover have "full_rank n rows'"
    unfolding full_rank_def
  proof (intro allI impI)
    fix x c assume zero: "\<forall>row\<in>set rows'. apply_row n x row = 0" and "c < n"
    have z: "apply_row n x (?row r) = 0" if "r < length rows" for r using zero that by (simp add: rows'_def)
    have "apply_row n x p = 0" using z [of m] pivot by simp
    moreover have "GF (gf_inv (coefs (rows ! sel) ! m)) \<noteq> 0" using pivot gf_inv_nonzero by simp
    ultimately have sel: "apply_row n x (rows ! sel) = 0"
      using pivot len by (simp add: apply_scale_row)
    have "apply_row n x (rows ! i) = 0" if i: "i < length rows" for i
    proof (cases "i = sel")
      case False
      let ?new = "if i = m then sel else i"
      have "?new \<noteq> m" "?new < length rows" "?old ?new = i" using False i pivot by auto
      with z [of ?new] have "apply_row n x (subtract_row ar cur m p (rows ! i)) = 0" by simp
      with \<open>apply_row n x p = 0\<close> len i plen show ?thesis by (simp add: apply_subtract_row)
    qed (use sel in simp)
    then have "\<forall>row\<in>set rows. apply_row n x row = 0" by (auto simp: in_set_conv_nth)
    then show "x c = 0" using red \<open>c < n\<close> unfolding reduced_def full_rank_def by blast
  qed
  moreover have "\<forall>row\<in>set rows'. length (coefs row) = n"
    using plen len r0 by (auto simp: rows'_def subtract_row_coefs)
  ultimately have "reduced n (Suc m) rows'" using pivot by (auto simp: reduced_def rows'_def)
  with pivot show ?thesis by (auto simp: rows'_def)
qed

lemma reduced_all:
  assumes "reduced n 0 rows" "m \<le> n"
  shows "\<exists>rows'. fold (rref_col ar cur) [0..<m] (0, rows) = (m, rows') \<and> reduced n m rows'"
  using assms(2)
proof (induction m)
  case 0
  with assms show ?case by simp
next
  case (Suc m)
  then obtain rows' where "fold (rref_col ar cur) [0..<m] (0, rows) = (m, rows')" "reduced n m rows'" by auto
  with reduced_step [of n m rows' ar cur] Suc.prems show ?case unfolding fold_upt_Suc by simp
qed

lemma rref_determines:
  assumes "full_rank n rows" "\<forall>row\<in>set rows. length (coefs row) = n" "i < n"
  shows "\<exists>row\<in>set (rref ar cur n rows). determined n row = Some i"
proof -
  have "reduced n 0 rows" using assms by (simp add: reduced_def)
  then obtain rows' where rows': "rref ar cur n rows = rows'" "reduced n n rows'"
    using reduced_all [of n rows n ar cur] by (auto simp: rref_def)
  then have i: "i < length rows'" using assms by (simp add: reduced_def)
  have "GF (coefs (rows' ! i) ! j) = (if i = j then 1 else 0)" if "j < n" for j
    using rows' i that by (simp add: reduced_def)
  then have "coefs (rows' ! i) ! j = (if i = j then 1 else 0)" if "j < n" for j
    using that by (metis GF_simps(1,2) gf256.inject)
  then have "determined n (rows' ! i) = Some i" using assms by (simp add: determined_iff)
  with i rows' show ?thesis by auto
qed

lemma store_recovered_keeps:
  assumes "store_recovered n unknowns rows (recovered, src) = (recovered', src')" "src sid \<noteq> None"
  shows "src' sid = src sid"
  using assms
proof (induction rows arbitrary: recovered src)
  case (Cons row rows)
  then show ?case by (force simp: store_recovered_Cons split: option.splits if_splits)
qed simp

lemma store_recovered_stores:
  assumes "store_recovered n unknowns rows (recovered, src) = (recovered', src')"
    and "row \<in> set rows" "determined n row = Some i"
  shows "src' (unknowns ! i) \<noteq> None"
  using assms(1,2)
proof (induction rows arbitrary: recovered src)
  case (Cons row' rows)
  show ?case
  proof (cases "row = row'")
    case True
    with Cons.prems(1) assms(3) show ?thesis
      using store_recovered_keeps [of n unknowns rows _ _ recovered' src' "unknowns ! i"]
      by (fastforce simp: store_recovered_Cons split: if_splits)
  next
    case False
    then have "row \<in> set rows" using Cons.prems(2) by simp
    with Cons.prems(1) Cons.IH show ?thesis
      by (simp add: store_recovered_Cons split: option.splits if_splits)
  qed
qed simp

lemma equations_length: "row \<in> set (equations ar cur d) \<Longrightarrow> length (coefs row) = length (pending d)"
proof -
  have "length cs' = length cs"
    if "row_loop ar cur lo src idx r offs cs b cov = Some (cs', b', cov')" for lo src idx r offs cs b cov cs' b' cov'
    using that by (induction offs arbitrary: cs b cov) (auto simp: Let_def split: if_splits option.splits)
  then show "row \<in> set (equations ar cur d) \<Longrightarrow> length (coefs row) = length (pending d)"
    by (fastforce simp: equations_def Let_def List.map_filter_def build_row_def split: option.splits bool.splits)
qed

lemma try_recover_complete:
  assumes "full_rank (length (pending d)) (equations ar cur d)" "sid \<in> set (pending d)"
  shows "source (snd (try_recover ar cur d)) sid \<noteq> None"
proof (cases rule: try_recover_cases [of d ar cur])
  case idle
  with assms show ?thesis by simp
next
  case (solve recovered src)
  from assms(2) obtain i where i: "i < length (pending d)" "sid = pending d ! i" by (auto simp: in_set_conv_nth)
  from rref_determines [OF assms(1) _ i(1)] equations_length obtain row where
    "row \<in> set (rref ar cur (length (pending d)) (equations ar cur d))" "determined (length (pending d)) row = Some i"
    by blast
  from store_recovered_stores [OF solve(2) this] solve i show ?thesis by (simp add: prune_def)
qed

text \<open>What the decoder holds, and what its repairs cover, are ids from a given set.\<close>

definition covers :: "u32 set \<Rightarrow> RepairSymbol \<Rightarrow> bool" where
  "covers ids r \<longleftrightarrow> (\<forall>off\<in>set (window_offs r). first_source_id r + off \<in> ids)"

definition grounded :: "u32 set \<Rightarrow> RlcDecoder \<Rightarrow> bool" where
  "grounded ids d \<longleftrightarrow> dom (source d) \<subseteq> ids \<and> (\<forall>r\<in>set (repairs d). covers ids r)"

lemma emit_repair_covers:
  assumes "enc_inv e" "fst ` set (enc_window e) \<subseteq> ids"
  shows "covers ids (fst (emit_repair ar cur e))"
proof -
  have "fst (enc_window e ! i) \<in> ids" if "i < length (enc_window e)" for i
    using assms(2) nth_mem [OF that] by blast
  then show ?thesis by (simp add: covers_def emit_repair_offs [OF assms(1)] emit_repair_ids [OF assms(1)])
qed

lemma store_recovered_dom:
  assumes "store_recovered (length unknowns) unknowns rows (recovered, src) = (recovered', src')"
  shows "dom src' \<subseteq> dom src \<union> set unknowns"
  using assms
proof (induction rows arbitrary: recovered src)
  case (Cons row rows)
  show ?case
  proof (cases "\<exists>i. determined (length unknowns) row = Some i \<and> src (unknowns ! i) = None")
    case True
    then obtain i where i: "determined (length unknowns) row = Some i" "src (unknowns ! i) = None" by blast
    with Cons.prems have "store_recovered (length unknowns) unknowns rows
        (recovered @ [unknowns ! i], src(unknowns ! i \<mapsto> rhs row)) = (recovered', src')"
      by (simp add: store_recovered_Cons)
    from Cons.IH [OF this] i show ?thesis by (auto simp: determined_iff split: if_splits)
  next
    case False
    with Cons.prems have "store_recovered (length unknowns) unknowns rows (recovered, src) = (recovered', src')"
      by (auto simp: store_recovered_Cons split: option.splits)
    from Cons.IH [OF this] show ?thesis .
  qed
qed simp

lemma try_recover_grounded:
  assumes "grounded ids d"
  shows "grounded ids (snd (try_recover ar cur d))"
proof -
  have live: "\<forall>r\<in>set (live_repairs d). covers ids r" using assms by (simp add: grounded_def live_repairs_def)
  then have pending: "set (pending d) \<subseteq> ids" by (auto simp: pending_def unknown_ids_spec covers_def)
  have prune: "grounded ids (prune d')" if "grounded ids d'" for d' using that by (simp add: grounded_def prune_def)
  show ?thesis
  proof (cases rule: try_recover_cases [of d ar cur])
    case idle
    have "grounded ids (d\<lparr>repairs := live_repairs d\<rparr>)" using assms live by (simp add: grounded_def)
    with idle show ?thesis by (simp add: prune)
  next
    case (solve recovered src)
    have "grounded ids (d\<lparr>repairs := live_repairs d, source := src\<rparr>)"
      using store_recovered_dom [OF solve(2)] assms live pending unfolding grounded_def by simp blast
    with solve show ?thesis by (simp add: prune)
  qed
qed

section \<open>Encoder, channel and decoder together\<close>

text \<open>
  The channel between the two ends may drop, delay, reorder and duplicate: a delivery step picks
  anything sent so far, and nothing forces it to happen. Each step may run on a different backend.
  \<open>truth\<close> says which payload the application pushes under each id: an id is never reused for
  other bytes. A repair from a foreign generator may arrive at any time.
\<close>

record RlcNet =
  net_enc :: RlcEncoder
  net_dec :: RlcDecoder
  net_refused :: u64
  sent :: "(u32 \<times> bytes) list"
  emitted :: "RepairSymbol list"

inductive rlc_step :: "(u32 \<Rightarrow> bytes) \<Rightarrow> RlcNet \<Rightarrow> RlcNet \<Rightarrow> bool" for truth where
  push: "push_source ar cur (truth (next_source_id (net_enc n))) (net_enc n) = (sid, repair, e) \<Longrightarrow>
    rlc_step truth n (n\<lparr>net_enc := e, sent := (sid, truth sid) # sent n,
      emitted := (case repair of None \<Rightarrow> emitted n | Some r \<Rightarrow> r # emitted n)\<rparr>)"
| params: "m < 2 ^ 16 \<Longrightarrow> rlc_step truth n (n\<lparr>net_enc := set_params m step dt (net_enc n)\<rparr>)"
| coding: "rlc_step truth n (n\<lparr>net_enc := set_coding on (net_enc n)\<rparr>)"
| enc_forget: "rlc_step truth n (n\<lparr>net_enc := enc_forget_below floor (net_enc n)\<rparr>)"
| enc_rebase: "rlc_step truth n (n\<lparr>net_enc := enc_rebase_to base (net_enc n)\<rparr>)"
| deliver_source: "(sid, p) \<in> set (sent n) \<Longrightarrow>
    rlc_step truth n (n\<lparr>net_dec := snd (on_source sid p (net_dec n))\<rparr>)"
| deliver_repair: "r \<in> set (emitted n) \<Longrightarrow> on_repair ar cur r (net_dec n, net_refused n) = (recovered, d, refused) \<Longrightarrow>
    rlc_step truth n (n\<lparr>net_dec := d, net_refused := refused\<rparr>)"
| store_repair: "r \<in> set (emitted n) \<or> \<not> generator_is_readable r \<Longrightarrow>
    add_repair r (net_dec n, net_refused n) = (d, refused) \<Longrightarrow>
    rlc_step truth n (n\<lparr>net_dec := d, net_refused := refused\<rparr>)"
| recover: "rlc_step truth n (n\<lparr>net_dec := snd (try_recover ar cur (net_dec n))\<rparr>)"
| dec_forget: "rlc_step truth n (n\<lparr>net_dec := dec_forget_below floor (net_dec n)\<rparr>)"
| dec_rebase: "rlc_step truth n (n\<lparr>net_dec := dec_rebase_to base (net_dec n)\<rparr>)"

definition rlc_init :: "nat \<Rightarrow> nat \<Rightarrow> u8 \<Rightarrow> nat \<Rightarrow> u32 \<Rightarrow> RlcNet" where
  "rlc_init window_max step dt symbol_len h =
     \<lparr>net_enc = enc_new window_max step dt symbol_len, net_dec = with_horizon h (dec_new symbol_len),
      net_refused = 0, sent = [], emitted = []\<rparr>"

definition net_inv :: "(u32 \<Rightarrow> bytes) \<Rightarrow> nat \<Rightarrow> RlcNet \<Rightarrow> bool" where
  "net_inv truth len n \<longleftrightarrow>
     enc_inv (net_enc n) \<and> enc_symbol_len (net_enc n) = len \<and>
     set (enc_window (net_enc n)) \<subseteq> set (sent n) \<and>
     (\<forall>s\<in>set (sent n). snd s = truth (fst s)) \<and>
     (\<forall>r\<in>set (emitted n). repair_valid truth len r \<and> covers (fst ` set (sent n)) r) \<and>
     authentic truth len (net_dec n) \<and> grounded (fst ` set (sent n)) (net_dec n)"

lemma covers_mono: "covers ids r \<Longrightarrow> ids \<subseteq> ids' \<Longrightarrow> covers ids' r"
  by (auto simp: covers_def)

lemma grounded_mono: "grounded ids d \<Longrightarrow> ids \<subseteq> ids' \<Longrightarrow> grounded ids' d"
  by (auto simp: grounded_def intro: covers_mono)

text \<open>The decoder's operations keep its two invariants.\<close>

lemma on_source_keeps:
  assumes "authentic truth len d" "grounded ids d" "p = truth sid" "sid \<in> ids"
  shows "authentic truth len (snd (on_source sid p d)) \<and> grounded ids (snd (on_source sid p d))"
  using assms
  by (auto simp: authentic_def grounded_def on_source_def true_source_update split: option.split)

lemma add_repair_keeps:
  assumes "authentic truth len d" "grounded ids d" "generator_is_readable r \<Longrightarrow> repair_valid truth len r \<and> covers ids r"
    and "add_repair r (d, refused) = (d', refused')"
  shows "authentic truth len d' \<and> grounded ids d'"
  using assms by (auto simp: authentic_def grounded_def add_repair_def Let_def split: if_splits)

lemma dec_forget_keeps:
  assumes "authentic truth len d" "grounded ids d"
  shows "authentic truth len (dec_forget_below floor d) \<and> grounded ids (dec_forget_below floor d)"
  using assms
  by (auto simp: authentic_def grounded_def dec_forget_below_def Let_def true_source_def split: if_splits)

lemma dec_rebase_keeps:
  "authentic truth len (dec_rebase_to base d) \<and> grounded ids (dec_rebase_to base d)"
  by (simp add: authentic_def grounded_def dec_rebase_to_def true_source_def)

lemma on_repair_keeps:
  assumes "authentic truth len d" "grounded ids d" "repair_valid truth len r" "covers ids r" "\<And>sid. length (truth sid) = len"
    and "on_repair ar cur r (d, refused) = (recovered, d', refused')"
  shows "authentic truth len d' \<and> grounded ids d'"
proof -
  obtain d1 where d1: "add_repair r (d, refused) = (d1, refused')" "d' = snd (try_recover ar cur d1)"
    using assms(6) by (auto simp: on_repair_def Let_def split: prod.splits)
  with add_repair_keeps [OF assms(1,2) _ d1(1)] assms(3,4) have "authentic truth len d1" "grounded ids d1" by auto
  with d1 assms(5) show ?thesis by (simp add: try_recover_authentic try_recover_grounded)
qed

lemma push_source_keeps:
  assumes n: "net_inv truth len n" and len: "\<And>sid. length (truth sid) = len"
    and push: "push_source ar cur (truth (next_source_id (net_enc n))) (net_enc n) = (sid, repair, e)"
  shows "net_inv truth len (n\<lparr>net_enc := e, sent := (sid, truth sid) # sent n,
      emitted := (case repair of None \<Rightarrow> emitted n | Some r \<Rightarrow> r # emitted n)\<rparr>)"
proof -
  let ?p = "truth (next_source_id (net_enc n))" and ?ids = "fst ` set ((sid, truth sid) # sent n)"
  from push_source_slide [OF push] obtain s where sid: "sid = next_source_id (net_enc n)"
    and cases: "repair = None \<and> e = slide s ?p (net_enc n) \<or>
      (\<exists>r. repair = Some r \<and> emit_repair ar cur (slide s ?p (net_enc n)) = (r, e))" by blast
  let ?e = "slide s ?p (net_enc n)"
  have inv: "enc_inv ?e" using n len by (intro enc_inv_slide) (auto simp: net_inv_def)
  have win: "set (enc_window ?e) \<subseteq> set ((sid, truth sid) # sent n)"
    using slide_window [of s ?p "net_enc n"] n sid by (auto simp: net_inv_def)
  have true: "\<forall>s\<in>set ((sid, truth sid) # sent n). snd s = truth (fst s)" using n by (simp add: net_inv_def)
  have slen: "enc_symbol_len ?e = len" using n by (simp add: net_inv_def slide_def)
  have e: "e = ?e \<or> e = ?e\<lparr>next_repair_key := next_repair_key ?e + 1\<rparr>"
    using cases emit_repair_enc [of ar cur ?e] by auto
  then have "enc_inv e \<and> enc_symbol_len e = len \<and> enc_window e = enc_window ?e"
    using inv slen by (elim disjE) (simp_all add: enc_inv_def)
  moreover have "repair_valid truth len r \<and> covers ?ids r" if "repair = Some r" for r
  proof -
    have r: "r = fst (emit_repair ar cur ?e)" using cases that by auto
    have "p = truth q" if "(q, p) \<in> set (enc_window ?e)" for q p using that win true by fastforce
    with emit_repair_valid [OF inv slen] emit_repair_covers [OF inv image_mono [OF win]] show ?thesis
      unfolding r by blast
  qed
  moreover have "\<forall>r\<in>set (emitted n). repair_valid truth len r \<and> covers ?ids r"
    using n by (auto simp: net_inv_def intro: covers_mono)
  moreover have "grounded ?ids (net_dec n)" using n by (auto simp: net_inv_def intro: grounded_mono)
  ultimately show ?thesis
    using win true n by (auto simp: net_inv_def split: option.split)
qed

lemma net_inv_enc:
  assumes "net_inv truth len n" "enc_inv e" "enc_symbol_len e = enc_symbol_len (net_enc n)"
    and "set (enc_window e) \<subseteq> set (enc_window (net_enc n))"
  shows "net_inv truth len (n\<lparr>net_enc := e\<rparr>)"
  using assms by (simp add: net_inv_def) blast

lemma net_inv_dec:
  assumes "net_inv truth len n" "authentic truth len d \<and> grounded (fst ` set (sent n)) d"
  shows "net_inv truth len (n\<lparr>net_dec := d\<rparr>)" "net_inv truth len (n\<lparr>net_dec := d, net_refused := f\<rparr>)"
  using assms by (simp_all add: net_inv_def)

lemma encoder_window:
  "set (enc_window (set_params m step dt e)) \<subseteq> set (enc_window e)"
  "set (enc_window (set_coding on e)) \<subseteq> set (enc_window e)"
  "set (enc_window (enc_forget_below floor e)) \<subseteq> set (enc_window e)"
  "set (enc_window (enc_rebase_to base e)) \<subseteq> set (enc_window e)"
  by (auto simp: set_params_def set_coding_def enc_forget_below_def enc_rebase_to_def trim_window_drop
      dest: in_set_dropD set_dropWhileD)

lemma encoder_symbol_len:
  "enc_symbol_len (set_params m step dt e) = enc_symbol_len e"
  "enc_symbol_len (set_coding on e) = enc_symbol_len e"
  "enc_symbol_len (enc_forget_below floor e) = enc_symbol_len e"
  "enc_symbol_len (enc_rebase_to base e) = enc_symbol_len e"
  by (simp_all add: set_params_def set_coding_def enc_forget_below_def enc_rebase_to_def)

lemmas encoder_keeps = enc_inv_set_params enc_inv_set_coding enc_inv_forget enc_inv_rebase

lemma rlc_step_inv:
  assumes step: "rlc_step truth n n'" and inv: "net_inv truth len n" and len: "\<And>sid. length (truth sid) = len"
  shows "net_inv truth len n'"
proof -
  have e: "enc_inv (net_enc n)" and d: "authentic truth len (net_dec n)" "grounded (fst ` set (sent n)) (net_dec n)"
    and true: "\<forall>s\<in>set (sent n). snd s = truth (fst s)"
    and emitted: "\<And>r. r \<in> set (emitted n) \<Longrightarrow> repair_valid truth len r \<and> covers (fst ` set (sent n)) r"
    using inv by (simp_all add: net_inv_def)
  have sent: "p = truth sid \<and> sid \<in> fst ` set (sent n)" if "(sid, p) \<in> set (sent n)" for sid p
    using bspec [OF true that] image_eqI [OF _ that, of sid fst] by simp
  note enc = net_inv_enc [OF inv encoder_keeps(1) encoder_symbol_len(1) encoder_window(1)]
    net_inv_enc [OF inv encoder_keeps(2) encoder_symbol_len(2) encoder_window(2)]
    net_inv_enc [OF inv encoder_keeps(3) encoder_symbol_len(3) encoder_window(3)]
    net_inv_enc [OF inv encoder_keeps(4) encoder_symbol_len(4) encoder_window(4)]
  from step show ?thesis
  proof cases
    case (push ar cur sid repair e)
    then show ?thesis using push_source_keeps [OF inv len] by blast
  next
    case (deliver_source sid p)
    then show ?thesis using net_inv_dec(1) [OF inv on_source_keeps [OF d]] sent by blast
  next
    case (deliver_repair r ar cur recovered d' refused)
    then show ?thesis using net_inv_dec(2) [OF inv on_repair_keeps [OF d _ _ len]] emitted by blast
  next
    case (store_repair r d' refused)
    then show ?thesis using net_inv_dec(2) [OF inv add_repair_keeps [OF d]] emitted by blast
  qed (use enc e net_inv_dec(1) [OF inv] try_recover_authentic [OF d(1) len] try_recover_grounded [OF d(2)]
      dec_forget_keeps [OF d] dec_rebase_keeps in auto)
qed

lemma rlc_init_inv: "m < 2 ^ 16 \<Longrightarrow> net_inv truth len (rlc_init m step dt len h)"
  by (simp add: net_inv_def rlc_init_def enc_inv_new)
    (simp add: enc_new_def authentic_def grounded_def with_horizon_def dec_new_def true_source_def)

lemma rlc_reachable_inv:
  assumes "(rlc_step truth)\<^sup>*\<^sup>* (rlc_init m step dt len h) n" "m < 2 ^ 16" "\<And>sid. length (truth sid) = len"
  shows "net_inv truth len n"
  using assms(1)
proof (induction rule: rtranclp_induct)
  case base
  then show ?case using assms(2) by (rule rlc_init_inv)
next
  case (step y z)
  then show ?case using rlc_step_inv assms(3) by blast
qed

lemma fold_min_le: "fold min fs (f :: 'a :: linorder) \<le> f \<and> (\<forall>x\<in>set fs. fold min fs f \<le> x)"
proof (induction fs arbitrary: f)
  case (Cons x fs)
  from Cons.IH [of "min x f"] show ?case by (auto simp: min_le_iff_disj intro: order_trans)
qed simp

section \<open>Properties\<close>

text \<open>
  C2. End to end, whatever the channel drops, delays, reorders or duplicates, whichever backend each
  end runs, and however the encoder is retuned, trimmed or rebased: every symbol the decoder holds,
  received or recovered, is a symbol the encoder was given under that very id. Window sizes fit the
  16-bit header field, and an id always names the same payload.
\<close>

theorem rlc_only_sent_symbols:
  assumes "(rlc_step truth)\<^sup>*\<^sup>* (rlc_init window_max step dt len h) n"
    and "window_max < 2 ^ 16" "\<And>sid. length (truth sid) = len"
    and "get_symbol sid (net_dec n) = Some v"
  shows "(sid, v) \<in> set (sent n)"
proof -
  have inv: "net_inv truth len n" using rlc_reachable_inv [OF assms(1-3)] .
  then have "v = truth sid" using assms(4) by (auto simp: net_inv_def authentic_def get_symbol_def dest: true_sourceD)
  moreover have "sid \<in> fst ` set (sent n)" using inv assms(4) by (auto simp: net_inv_def grounded_def get_symbol_def)
  moreover have "\<forall>s\<in>set (sent n). snd s = truth (fst s)" using inv by (simp add: net_inv_def)
  ultimately show ?thesis by force
qed

theorem rlc_only_sent_symbols_witness:
  "\<exists>n. (rlc_step (\<lambda>_. [7]))\<^sup>*\<^sup>* (rlc_init 4 1 15 1 64) n \<and>
     get_symbol 0 (net_dec n) = Some [7] \<and> (0, [7]) \<in> set (sent n)"
proof -
  let ?truth = "\<lambda>_ :: u32. [7 :: u8]" and ?i = "rlc_init 4 1 15 1 64"
  obtain sid repair e where push: "push_source X86_64 Avx2 (?truth (next_source_id (net_enc ?i))) (net_enc ?i) = (sid, repair, e)"
    by (cases "push_source X86_64 Avx2 (?truth (next_source_id (net_enc ?i))) (net_enc ?i)")
  define n1 where "n1 = ?i\<lparr>net_enc := e, sent := (sid, ?truth sid) # sent ?i,
      emitted := (case repair of None \<Rightarrow> emitted ?i | Some r \<Rightarrow> r # emitted ?i)\<rparr>"
  define n2 where "n2 = n1\<lparr>net_dec := snd (on_source 0 [7] (net_dec n1))\<rparr>"
  have "sid = 0" using push_source_slide [OF push] by (simp add: rlc_init_def enc_new_def)
  then have sent: "(0, [7]) \<in> set (sent n1)" by (simp add: n1_def)
  have "rlc_step ?truth ?i n1" unfolding n1_def by (rule rlc_step.push [OF push])
  moreover have "rlc_step ?truth n1 n2" unfolding n2_def by (rule rlc_step.deliver_source [OF sent])
  ultimately have reach: "(rlc_step ?truth)\<^sup>*\<^sup>* ?i n2" by simp
  have got: "get_symbol 0 (net_dec n2) = Some [7]"
    by (simp add: n2_def n1_def get_symbol_def on_source_def rlc_init_def with_horizon_def dec_new_def)
  from rlc_only_sent_symbols [OF reach _ _ got] have "(0, [7]) \<in> set (sent n2)" by simp
  with reach got show ?thesis by blast
qed

text \<open>
  C3. Recovery is complete: when the equations a recovery pass sets up admit only one value for its
  unknowns, the pass stores every one of them with the bytes that were sent.
\<close>

theorem rlc_recovers_determined:
  assumes "authentic truth len d" "\<And>sid. length (truth sid) = len"
    and "full_rank (length (pending d)) (equations ar cur d)" "sid \<in> set (pending d)"
  shows "get_symbol sid (snd (try_recover ar cur d)) = Some (truth sid)"
proof -
  from try_recover_complete [OF assms(3,4)] obtain v where v: "source (snd (try_recover ar cur d)) sid = Some v" by blast
  moreover have "true_source truth (source (snd (try_recover ar cur d)))"
    using try_recover_authentic [OF assms(1,2), of ar cur] by (simp add: authentic_def)
  ultimately show ?thesis by (auto simp: get_symbol_def dest: true_sourceD)
qed

theorem rlc_recovers_determined_witness:
  "get_symbol 0 (snd (try_recover X86_64 Scalar ((dec_new 2)\<lparr>repairs :=
     [\<lparr>repair_key = 0, first_source_id = 0, window_size = 1, repair_dt = 0x1f, repair_payload = [7, 9]\<rparr>]\<rparr>))) = Some [7, 9]"
proof -
  define r :: RepairSymbol where
    "r = \<lparr>repair_key = 0, first_source_id = 0, window_size = 1, repair_dt = 0x1f, repair_payload = [7, 9]\<rparr>"
  define d where "d = (dec_new 2)\<lparr>repairs := [r]\<rparr>"
  have r: "window_offs r = [0]" "first_source_id r = 0" "window_size r = 1" "repair_payload r = [7, 9]"
    "coefficient r 0 = 1" "generator_is_readable r"
    by (simp_all add: r_def window_offs_def coefficient_def fixed_coef_def density_def TAPS_def DENSITY_CLASSES_def
        generator_is_readable_def generator_def GENERATOR_PUBLISHED_TAPS_def)
  have d: "repairs d = [r]" "source d = Map.empty" "highest d = 0" "horizon d = 1024"
    by (simp_all add: d_def dec_new_def)
  have lo: "recovery_lo d = 0" "live_repairs d = [r]" by (simp_all add: recovery_lo_def live_repairs_def d r)
  have pending: "pending d = [0]" by (simp add: pending_def lo unknown_ids_def d r)
  have row: "equations X86_64 Scalar d = [\<lparr>coefs = [1], rhs = [7, 9]\<rparr>]"
    by (simp add: equations_def pending lo build_row_def List.map_filter_def d r)
  have "authentic (\<lambda>_. [7, 9]) 2 d"
    by (simp add: authentic_def true_source_def d repair_valid_def r GF_simps)
  moreover have "full_rank (length (pending d)) (equations X86_64 Scalar d)"
    by (simp add: pending row full_rank_def apply_row_def GF_simps)
  ultimately have "get_symbol 0 (snd (try_recover X86_64 Scalar d)) = Some [7, 9]"
    using rlc_recovers_determined [of "\<lambda>_. [7, 9]" 2 d X86_64 Scalar 0] by (simp add: pending)
  then show ?thesis unfolding d_def r_def .
qed

text \<open>
  C32. The encoder: pushing a symbol assigns the next id, keeps the window contiguous and within its
  bounds, emits a repair exactly when coding is on and the step count is reached, restarts the count
  then, and the repair it emits is an equation the decoder reads back from the header alone.
\<close>

theorem push_source_correct:
  assumes "enc_inv e" "length p = enc_symbol_len e"
    and "\<forall>s\<in>set (enc_window e). snd s = truth (fst s)" "truth (next_source_id e) = p"
    and "push_source ar cur p e = (sid, repair, e')"
  shows "enc_inv e' \<and> sid = next_source_id e \<and> next_source_id e' = sid + 1 \<and>
    (repair \<noteq> None \<longleftrightarrow> coding_on e \<and> enc_step e \<le> since_last_repair e + 1) \<and>
    (repair \<noteq> None \<longrightarrow> since_last_repair e' = 0 \<and> repair_valid truth (enc_symbol_len e) (the repair))"
proof -
  from push_source_slide [OF assms(5)] obtain s where s: "repair = None \<and> e' = slide s p e \<or>
      (\<exists>r. repair = Some r \<and> emit_repair ar cur (slide s p e) = (r, e'))" by blast
  have inv: "enc_inv (slide s p e)" and slen: "enc_symbol_len (slide s p e) = enc_symbol_len e"
    using assms by (simp_all add: enc_inv_slide) (simp add: slide_def)
  have "e' = slide s p e \<or> e' = (slide s p e)\<lparr>next_repair_key := next_repair_key (slide s p e) + 1\<rparr>"
    using s emit_repair_enc [of ar cur "slide s p e"] by auto
  then have "enc_inv e'" "next_source_id e' = next_source_id e + 1" using inv
    by (elim disjE; simp add: enc_inv_def slide_def)+
  moreover have "repair_valid truth (enc_symbol_len e) r" if "repair = Some r" for r
  proof -
    have "q = truth i" if "(i, q) \<in> set (enc_window (slide s p e))" for i q
      using that slide_window [of s p e] assms(3,4) by fastforce
    then have "repair_valid truth (enc_symbol_len e) (fst (emit_repair ar cur (slide s p e)))"
      using emit_repair_valid [OF inv slen, of truth ar cur] by blast
    with s that show ?thesis by auto
  qed
  moreover have "repair \<noteq> None \<longleftrightarrow> coding_on e \<and> enc_step e \<le> since_last_repair e + 1"
    "repair \<noteq> None \<longrightarrow> since_last_repair e' = 0" "sid = next_source_id e"
    using assms(5) by (auto simp: push_source_def Let_def emit_repair_def split: if_splits prod.splits)
  ultimately show ?thesis by auto
qed

theorem push_source_correct_witness:
  "\<exists>r e'. push_source X86_64 Scalar [5] (enc_new 4 1 15 1) = (0, Some r, e') \<and>
     enc_inv e' \<and> repair_valid (\<lambda>_. [5]) 1 r"
proof -
  obtain sid repair e' where push: "push_source X86_64 Scalar [5] (enc_new 4 1 15 1) = (sid, repair, e')"
    by (cases "push_source X86_64 Scalar [5] (enc_new 4 1 15 1)")
  have "enc_inv (enc_new 4 1 15 1)" by (simp add: enc_inv_new)
  from push_source_correct [OF this _ _ _ push, of "\<lambda>_. [5]"] push show ?thesis
    by (auto simp: enc_new_def)
qed

text \<open>
  Forgetting delivered symbols never drops one that a remaining repair still needs: after
  \<open>forget_below\<close>, every id a kept repair covers without wrapping past the top of the id space is
  stored exactly as before.
\<close>

lemma dec_forget_keeps_referenced:
  assumes "r \<in> set (repairs (dec_forget_below floor d))" "off \<in> set (window_offs r)"
    and "unat (first_source_id r) + unat off < 2 ^ 32"
  shows "get_symbol (first_source_id r + off) (dec_forget_below floor d) = get_symbol (first_source_id r + off) d"
proof -
  define rs where "rs = filter (\<lambda>r. first_source_id r + ucast (window_size r) > floor) (repairs d)"
  define safe where "safe = (case map first_source_id rs of [] \<Rightarrow> floor | f # fs \<Rightarrow> min floor (fold min fs f))"
  have r: "r \<in> set rs" using assms(1) by (simp add: dec_forget_below_def Let_def rs_def)
  then obtain f fs where fs: "map first_source_id rs = f # fs" by (cases rs) auto
  with r have "first_source_id r \<in> set (f # fs)" by (metis imageI list.set_map)
  then have "safe \<le> first_source_id r"
    using fs fold_min_le [of fs f] by (auto simp: safe_def min_le_iff_disj)
  moreover have "first_source_id r \<le> first_source_id r + off"
    using assms(3) by (simp add: word_le_nat_alt unat_word_ariths)
  ultimately show ?thesis
    by (auto simp: get_symbol_def dec_forget_below_def Let_def simp flip: rs_def safe_def)
qed

lemma dec_forget_keeps_referenced_witness:
  "get_symbol 3 (dec_forget_below 4 ((dec_new 1)\<lparr>source := [3 \<mapsto> [1], 1 \<mapsto> [2]], repairs :=
     [\<lparr>repair_key = 0, first_source_id = 2, window_size = 4, repair_dt = 0x1f, repair_payload = [7]\<rparr>]\<rparr>)) = Some [1]"
proof -
  define r :: RepairSymbol where
    "r = \<lparr>repair_key = 0, first_source_id = 2, window_size = 4, repair_dt = 0x1f, repair_payload = [7]\<rparr>"
  define d where "d = (dec_new 1)\<lparr>source := [3 \<mapsto> [1], 1 \<mapsto> [2]], repairs := [r]\<rparr>"
  have "r \<in> set (repairs (dec_forget_below 4 d))" "1 \<in> set (window_offs r)"
    by (simp_all add: dec_forget_below_def Let_def d_def r_def window_offs_def upt_rec)
  from dec_forget_keeps_referenced [OF this] have "get_symbol 3 (dec_forget_below 4 d) = get_symbol 3 d"
    by (simp add: r_def)
  then show ?thesis unfolding d_def r_def by (simp add: get_symbol_def)
qed

text \<open>
  The bound on the ids matters: a window that wraps past the top of the id space loses the symbols
  on the far side, although the repair that covers them is kept.
\<close>

lemma dec_forget_drops_wrapped:
  "get_symbol 0 (dec_forget_below 1 ((dec_new 1)\<lparr>source := [0 \<mapsto> [1]], repairs :=
     [\<lparr>repair_key = 0, first_source_id = 0xFFFFFFFE, window_size = 4, repair_dt = 0x1f, repair_payload = [7]\<rparr>]\<rparr>)) = None \<and>
   repairs (dec_forget_below 1 ((dec_new 1)\<lparr>source := [0 \<mapsto> [1]], repairs :=
     [\<lparr>repair_key = 0, first_source_id = 0xFFFFFFFE, window_size = 4, repair_dt = 0x1f, repair_payload = [7]\<rparr>]\<rparr>)) \<noteq> []"
  by (simp add: get_symbol_def dec_forget_below_def Let_def)

end
