(* ===== verification/Control_Frame.thy ===== *)
theory Control_Frame
  imports SubEtha_Prelude
begin

text \<open>
  The control-datagram codec of \<^verbatim>\<open>crates/subetha-cxc/src/control_frame.rs\<close>: QUIC variable-length
  integers, tag-length-value frames, and a packet of optional frames. A Rust buffer passed as
  \<open>&mut Vec<u8>\<close> is taken and returned.

  The theory shows that the integer codec round-trips up to the 62-bit clamp, that decoding an
  encoded packet gives the packet back, that frames of an unknown type are invisible wherever they
  stand, that a truncated datagram decodes to the frames that arrived whole, and how long padding
  makes a datagram.
\<close>

section \<open>Frames and packets\<close>

definition PKT_CONTROL :: u8 where "PKT_CONTROL = 4"

datatype FrameType =
    Ack | Nak | Loss | Timing | Ring | Path | Link | LossAcct | Pmtu | BwProbe | Trace
  | AvailBw | Forecast | Periodicity | SessionChallenge | SessionResponse | SessionAnnounce

fun frame_tag :: "FrameType \<Rightarrow> u8" where
  "frame_tag Ack = 0x01"
| "frame_tag Nak = 0x02"
| "frame_tag Loss = 0x03"
| "frame_tag Timing = 0x04"
| "frame_tag Ring = 0x05"
| "frame_tag Path = 0x06"
| "frame_tag Link = 0x07"
| "frame_tag LossAcct = 0x08"
| "frame_tag Pmtu = 0x09"
| "frame_tag BwProbe = 0x0A"
| "frame_tag Trace = 0x0B"
| "frame_tag AvailBw = 0x0C"
| "frame_tag Forecast = 0x0D"
| "frame_tag Periodicity = 0x0E"
| "frame_tag SessionChallenge = 0x0F"
| "frame_tag SessionResponse = 0x10"
| "frame_tag SessionAnnounce = 0x11"

definition frame_from_u8 :: "u8 \<Rightarrow> FrameType option" where
  "frame_from_u8 v =
     (if v = 0x01 then Some Ack
      else if v = 0x02 then Some Nak
      else if v = 0x03 then Some Loss
      else if v = 0x04 then Some Timing
      else if v = 0x05 then Some Ring
      else if v = 0x06 then Some Path
      else if v = 0x07 then Some Link
      else if v = 0x08 then Some LossAcct
      else if v = 0x09 then Some Pmtu
      else if v = 0x0A then Some BwProbe
      else if v = 0x0B then Some Trace
      else if v = 0x0C then Some AvailBw
      else if v = 0x0D then Some Forecast
      else if v = 0x0E then Some Periodicity
      else if v = 0x0F then Some SessionChallenge
      else if v = 0x10 then Some SessionResponse
      else if v = 0x11 then Some SessionAnnounce
      else None)"

record SessionFrame =
  session_epoch :: u32
  nonce :: u64

definition NONCE_MASK :: u64 where "NONCE_MASK = push_bit 62 1 - 1"

record AckFrame =
  ack_through :: u32

record NakFrame =
  nak_block :: u32
  nak_mask :: u32

record LossFrame =
  loss_x255 :: u8
  burstiness_x255 :: u8
  owd_trend_class :: u8
  loss_class :: u8

record TimingFrame =
  timing_send_ts :: u64
  timing_echo_ts :: u64

record RingFrame =
  fill_pct :: u8
  ring_kind :: u8
  ring_producers :: u8
  ring_consumers :: u8
  ring_trend :: u8
  ring_flags :: u8

record PathFrame =
  path_ttl :: u8
  path_ecn :: u8
  hop_count :: u8
  ce_count :: u64
  ect_count :: u64

record LinkFrame =
  link_class :: u8
  link_quality :: u8

record LossAcctFrame =
  acct_seq :: u32
  last_recv_seq :: u32

record PmtuFrame =
  pmtu_bytes :: u16

record BwProbeFrame =
  bw_probe_id :: u8
  bw_idx :: u8
  bw_send_ts :: u64

record TraceFrame =
  hop_ttl :: u8
  trace_probe_id :: u8

record AvailBwFrame =
  avail_kbps :: u64
  capacity_kbps :: u64

record ForecastFrame =
  forecast_kbps :: u64

record PeriodicityFrame =
  period_ds :: u64
  secs_to_spike_ds :: u64
  confidence_x255 :: u8

record ControlPacket =
  ack :: "AckFrame option"
  nak :: "NakFrame option"
  loss :: "LossFrame option"
  timing :: "TimingFrame option"
  ring :: "RingFrame option"
  path :: "PathFrame option"
  link :: "LinkFrame option"
  loss_acct :: "LossAcctFrame option"
  pmtu :: "PmtuFrame option"
  bw_probe :: "BwProbeFrame list"
  trace :: "TraceFrame list"
  avail_bw :: "AvailBwFrame option"
  forecast :: "ForecastFrame option"
  periodicity :: "PeriodicityFrame option"
  session_challenge :: "SessionFrame option"
  session_response :: "SessionFrame option"
  session_announce :: "u32 option"

definition packet_new :: ControlPacket where
  "packet_new =
     \<lparr>ack = None, nak = None, loss = None, timing = None, ring = None, path = None, link = None,
      loss_acct = None, pmtu = None, bw_probe = [], trace = [], avail_bw = None, forecast = None,
      periodicity = None, session_challenge = None, session_response = None, session_announce = None\<rparr>"

definition packet_is_empty :: "ControlPacket \<Rightarrow> bool" where
  "packet_is_empty p \<longleftrightarrow>
     ack p = None \<and> nak p = None \<and> loss p = None \<and> timing p = None \<and> ring p = None \<and> path p = None \<and>
     link p = None \<and> loss_acct p = None \<and> pmtu p = None \<and> bw_probe p = [] \<and> trace p = []"

definition is_control :: "bytes \<Rightarrow> bool" where
  "is_control buf \<longleftrightarrow> buf \<noteq> [] \<and> buf ! 0 = PKT_CONTROL"

section \<open>Variable-length integers\<close>

definition to_be_bytes_u32 :: "u32 \<Rightarrow> bytes" where
  "to_be_bytes_u32 v = map (\<lambda>i. ucast (drop_bit (8 * (3 - i)) v)) [0..<4]"

definition to_be_bytes_u64 :: "u64 \<Rightarrow> bytes" where
  "to_be_bytes_u64 v = map (\<lambda>i. ucast (drop_bit (8 * (7 - i)) v)) [0..<8]"

definition put_varint :: "bytes \<Rightarrow> u64 \<Rightarrow> bytes" where
  "put_varint out v =
     (let v = min v (push_bit 62 1 - 1) in
      if v < push_bit 6 1 then out @ [ucast v]
      else if v < push_bit 14 1 then out @ [0x40 OR ucast (drop_bit 8 v)] @ [ucast v]
      else if v < push_bit 30 1
        then out @ [0x80 OR ucast (drop_bit 24 v)] @ drop 1 (to_be_bytes_u32 (ucast v))
      else out @ [0xC0 OR ucast (drop_bit 56 v)] @ drop 1 (to_be_bytes_u64 v))"

definition get_varint :: "bytes \<Rightarrow> nat \<Rightarrow> (u64 \<times> nat) option" where
  "get_varint buf pos =
     (if pos \<ge> length buf then None
      else let first = buf ! pos;
               len = push_bit (unat (drop_bit 6 first)) (1 :: nat)
           in if pos + len > length buf then None
              else Some (fold (\<lambda>b v. push_bit 8 v OR ucast b)
                  (take (len - 1) (drop (pos + 1) buf)) (ucast (first AND 0x3F)), pos + len))"

definition put_frame :: "bytes \<Rightarrow> FrameType \<Rightarrow> bytes \<Rightarrow> bytes" where
  "put_frame out ty body = put_varint (out @ [frame_tag ty]) (of_nat (length body)) @ body"

definition pad_control_to :: "bytes \<Rightarrow> nat \<Rightarrow> bytes" where
  "pad_control_to buf target_len =
     (let PAD_TYPE = 0x7F; HEADER = 3 in
      if target_len < length buf + HEADER + 64 then buf
      else let body_len = target_len - length buf - HEADER
           in put_varint (buf @ [PAD_TYPE]) (of_nat body_len) @ replicate body_len 0)"

section \<open>Encoding a packet\<close>

definition encode_control :: "ControlPacket \<Rightarrow> bytes" where
  "encode_control p =
     (let out = [PKT_CONTROL];
          out = (case ack p of None \<Rightarrow> out | Some f \<Rightarrow>
            put_frame out Ack (put_varint [] (ucast (ack_through f))));
          out = (case nak p of None \<Rightarrow> out | Some f \<Rightarrow>
            put_frame out Nak (put_varint (put_varint [] (ucast (nak_block f))) (ucast (nak_mask f))));
          out = (case loss p of None \<Rightarrow> out | Some f \<Rightarrow>
            put_frame out Loss [loss_x255 f, burstiness_x255 f, owd_trend_class f, loss_class f]);
          out = (case timing p of None \<Rightarrow> out | Some f \<Rightarrow>
            put_frame out Timing (put_varint (put_varint [] (timing_send_ts f)) (timing_echo_ts f)));
          out = (case ring p of None \<Rightarrow> out | Some f \<Rightarrow>
            put_frame out Ring
              [fill_pct f, ring_kind f, ring_producers f, ring_consumers f, ring_trend f, ring_flags f]);
          out = (case path p of None \<Rightarrow> out | Some f \<Rightarrow>
            put_frame out Path
              (put_varint (put_varint [path_ttl f, path_ecn f, hop_count f] (ce_count f)) (ect_count f)));
          out = (case link p of None \<Rightarrow> out | Some f \<Rightarrow>
            put_frame out Link [link_class f, link_quality f]);
          out = (case loss_acct p of None \<Rightarrow> out | Some f \<Rightarrow>
            put_frame out LossAcct (put_varint (put_varint [] (ucast (acct_seq f))) (ucast (last_recv_seq f))));
          out = (case pmtu p of None \<Rightarrow> out | Some f \<Rightarrow>
            put_frame out Pmtu (put_varint [] (ucast (pmtu_bytes f))));
          out = fold (\<lambda>f out.
            put_frame out BwProbe (put_varint [bw_probe_id f, bw_idx f] (bw_send_ts f))) (bw_probe p) out;
          out = fold (\<lambda>f out. put_frame out Trace [hop_ttl f, trace_probe_id f]) (trace p) out;
          out = (case avail_bw p of None \<Rightarrow> out | Some f \<Rightarrow>
            put_frame out AvailBw (put_varint (put_varint [] (avail_kbps f)) (capacity_kbps f)));
          out = (case forecast p of None \<Rightarrow> out | Some f \<Rightarrow>
            put_frame out Forecast (put_varint [] (forecast_kbps f)));
          out = (case periodicity p of None \<Rightarrow> out | Some f \<Rightarrow>
            put_frame out Periodicity
              (put_varint (put_varint [] (period_ds f)) (secs_to_spike_ds f) @ [confidence_x255 f]));
          out = (case session_challenge p of None \<Rightarrow> out | Some f \<Rightarrow>
            put_frame out SessionChallenge (put_varint (put_varint [] (ucast (session_epoch f))) (nonce f)));
          out = (case session_response p of None \<Rightarrow> out | Some f \<Rightarrow>
            put_frame out SessionResponse (put_varint (put_varint [] (ucast (session_epoch f))) (nonce f)));
          out = (case session_announce p of None \<Rightarrow> out | Some epoch \<Rightarrow>
            put_frame out SessionAnnounce (put_varint [] (ucast epoch)))
      in out)"

section \<open>Decoding a packet\<close>

text \<open>Two varints in a row, as five frame types hold them.\<close>

definition get_varint2 :: "bytes \<Rightarrow> (u64 \<times> u64 \<times> nat) option" where
  "get_varint2 body =
     (case get_varint body 0 of
        None \<Rightarrow> None
      | Some (a, n) \<Rightarrow> (case get_varint body n of None \<Rightarrow> None | Some (b, m) \<Rightarrow> Some (a, b, m)))"

text \<open>The match on the frame type: what one frame adds to the packet.\<close>

definition apply_frame :: "u8 \<Rightarrow> bytes \<Rightarrow> ControlPacket \<Rightarrow> ControlPacket" where
  "apply_frame ty body p =
     (case frame_from_u8 ty of
        None \<Rightarrow> p
      | Some Ack \<Rightarrow>
          (case get_varint body 0 of None \<Rightarrow> p | Some (v, _) \<Rightarrow> p\<lparr>ack := Some \<lparr>ack_through = ucast v\<rparr>\<rparr>)
      | Some Nak \<Rightarrow>
          (case get_varint2 body of None \<Rightarrow> p | Some (block, msk, _) \<Rightarrow>
             p\<lparr>nak := Some \<lparr>nak_block = ucast block, nak_mask = ucast msk\<rparr>\<rparr>)
      | Some Loss \<Rightarrow>
          (if length body \<ge> 3 then
             p\<lparr>loss := Some \<lparr>loss_x255 = body ! 0, burstiness_x255 = body ! 1, owd_trend_class = body ! 2,
               loss_class = (if length body > 3 then body ! 3 else 0)\<rparr>\<rparr>
           else p)
      | Some Timing \<Rightarrow>
          (case get_varint2 body of None \<Rightarrow> p | Some (send, echo, _) \<Rightarrow>
             p\<lparr>timing := Some \<lparr>timing_send_ts = send, timing_echo_ts = echo\<rparr>\<rparr>)
      | Some Ring \<Rightarrow>
          (if length body \<ge> 6 then
             p\<lparr>ring := Some \<lparr>fill_pct = body ! 0, ring_kind = body ! 1, ring_producers = body ! 2,
               ring_consumers = body ! 3, ring_trend = body ! 4, ring_flags = body ! 5\<rparr>\<rparr>
           else p)
      | Some Path \<Rightarrow>
          (if length body \<ge> 3 then
             (let (ce, n1) = (case get_varint body 3 of None \<Rightarrow> (0, 3) | Some r \<Rightarrow> r);
                  (ect, _) = (case get_varint body n1 of None \<Rightarrow> (0, n1) | Some r \<Rightarrow> r)
              in p\<lparr>path := Some \<lparr>path_ttl = body ! 0, path_ecn = body ! 1, hop_count = body ! 2,
                   ce_count = ce, ect_count = ect\<rparr>\<rparr>)
           else p)
      | Some Link \<Rightarrow>
          (if length body \<ge> 2 then p\<lparr>link := Some \<lparr>link_class = body ! 0, link_quality = body ! 1\<rparr>\<rparr> else p)
      | Some LossAcct \<Rightarrow>
          (case get_varint2 body of None \<Rightarrow> p | Some (sq, lrs, _) \<Rightarrow>
             p\<lparr>loss_acct := Some \<lparr>acct_seq = ucast sq, last_recv_seq = ucast lrs\<rparr>\<rparr>)
      | Some Pmtu \<Rightarrow>
          (case get_varint body 0 of None \<Rightarrow> p | Some (v, _) \<Rightarrow> p\<lparr>pmtu := Some \<lparr>pmtu_bytes = ucast v\<rparr>\<rparr>)
      | Some BwProbe \<Rightarrow>
          (if length body \<ge> 2 then
             (case get_varint body 2 of None \<Rightarrow> p | Some (send, _) \<Rightarrow>
                p\<lparr>bw_probe := bw_probe p @ [\<lparr>bw_probe_id = body ! 0, bw_idx = body ! 1, bw_send_ts = send\<rparr>]\<rparr>)
           else p)
      | Some Trace \<Rightarrow>
          (if length body \<ge> 2 then
             p\<lparr>trace := trace p @ [\<lparr>hop_ttl = body ! 0, trace_probe_id = body ! 1\<rparr>]\<rparr>
           else p)
      | Some AvailBw \<Rightarrow>
          (case get_varint2 body of None \<Rightarrow> p | Some (avail, cap, _) \<Rightarrow>
             p\<lparr>avail_bw := Some \<lparr>avail_kbps = avail, capacity_kbps = cap\<rparr>\<rparr>)
      | Some SessionAnnounce \<Rightarrow>
          (case get_varint body 0 of None \<Rightarrow> p | Some (epoch, _) \<Rightarrow> p\<lparr>session_announce := Some (ucast epoch)\<rparr>)
      | Some SessionChallenge \<Rightarrow>
          (case get_varint2 body of None \<Rightarrow> p | Some (epoch, non, _) \<Rightarrow>
             p\<lparr>session_challenge := Some \<lparr>session_epoch = ucast epoch, nonce = non\<rparr>\<rparr>)
      | Some SessionResponse \<Rightarrow>
          (case get_varint2 body of None \<Rightarrow> p | Some (epoch, non, _) \<Rightarrow>
             p\<lparr>session_response := Some \<lparr>session_epoch = ucast epoch, nonce = non\<rparr>\<rparr>)
      | Some Forecast \<Rightarrow>
          (case get_varint body 0 of None \<Rightarrow> p | Some (fc, _) \<Rightarrow> p\<lparr>forecast := Some \<lparr>forecast_kbps = fc\<rparr>\<rparr>)
      | Some Periodicity \<Rightarrow>
          (case get_varint2 body of None \<Rightarrow> p | Some (period, to_spike, n2) \<Rightarrow>
             (if n2 < length body then
                p\<lparr>periodicity := Some \<lparr>period_ds = period, secs_to_spike_ds = to_spike, confidence_x255 = body ! n2\<rparr>\<rparr>
              else p)))"

lemma get_varint_advances: "get_varint buf pos = Some (v, next) \<Longrightarrow> pos < next \<and> next \<le> length buf"
  by (auto simp: get_varint_def Let_def push_bit_eq_mult split: if_splits)

function decode_loop :: "bytes \<Rightarrow> nat \<Rightarrow> ControlPacket \<Rightarrow> ControlPacket" where
  "decode_loop buf pos p =
     (if pos < length buf then
        (case get_varint buf (pos + 1) of
           None \<Rightarrow> p
         | Some (len, next) \<Rightarrow>
             (let end = next + unat len in
              if end > length buf then p
              else decode_loop buf end (apply_frame (buf ! pos) (take (unat len) (drop next buf)) p)))
      else p)"
  by pat_completeness auto
termination
  by (relation "measure (\<lambda>(buf, pos, _). length buf - pos)") (auto dest!: get_varint_advances)

declare decode_loop.simps [simp del]

definition decode_control :: "bytes \<Rightarrow> ControlPacket option" where
  "decode_control buf = (if \<not> is_control buf then None else Some (decode_loop buf 1 packet_new))"

section \<open>The integer codec\<close>

lemma unat_push_bit_1: "n < LENGTH('a) \<Longrightarrow> unat (push_bit n 1 :: 'a::len word) = 2 ^ n"
  using unat_of_nat_small [where ?'a = 'a, of "2 ^ n"] by (simp add: push_bit_eq_mult)

lemma bit_less_2p:
  assumes "(v :: 'a::len word) < push_bit n 1" "n < LENGTH('a)" "n \<le> i"
  shows "\<not> bit v i"
proof -
  have "unat v < 2 ^ n" using assms(1) unat_push_bit_1 [OF assms(2)] by (simp only: word_less_nat_alt)
  then have "\<not> bit (unat v) i" using assms(3) by (metis bit_take_bit_iff leD take_bit_nat_eq_self)
  then show ?thesis by (simp add: bit_unsigned_iff)
qed

text \<open>One round of the reader undoes one byte of the writer.\<close>

lemma be_round: "push_bit 8 (drop_bit (8 + k) v) OR ucast (ucast (drop_bit k v) :: u8) = drop_bit k (v :: u64)"
  by (rule bit_eqI) (auto simp: bit_simps)

text \<open>The first byte carries the length class in its top bits and the leading bits of the value below.\<close>

lemma first_byte:
  assumes "(v :: u64) < push_bit (6 + k) 1" "6 + k < 64" "tag \<in> {0, 0x40, 0x80, 0xC0 :: u8}"
  shows "drop_bit 6 (tag OR ucast (drop_bit k v)) = drop_bit 6 tag"
    and "ucast ((tag OR ucast (drop_bit k v)) AND 0x3F) = drop_bit k v"
proof -
  have high: "\<not> bit v (k + i)" if "6 \<le> i" for i
    using bit_less_2p [OF assms(1), of "k + i"] assms(2) that by simp
  have tag: "\<not> bit tag i" if "i < 6" for i
    using assms(3) that by (auto simp: bit_simps numeral_eq_Suc less_Suc_eq)
  show "drop_bit 6 (tag OR ucast (drop_bit k v)) = drop_bit 6 tag"
    by (rule bit_eqI) (simp add: bit_simps high)
  have mask: "(0x3F :: u8) = mask 6" by (simp add: mask_eq_exp_minus_1)
  show "ucast ((tag OR ucast (drop_bit k v)) AND 0x3F) = drop_bit k v"
    unfolding mask
  proof (rule bit_eqI)
    fix i
    show "bit (ucast ((tag OR ucast (drop_bit k v)) AND mask 6) :: u64) i = bit (drop_bit k v) i"
      using tag [of i] high [of i] by (cases "i < 6") (auto simp: bit_simps)
  qed
qed

definition varint :: "u64 \<Rightarrow> bytes" where
  "varint v = put_varint [] v"

definition clamp62 :: "u64 \<Rightarrow> u64" where
  "clamp62 v = min v (push_bit 62 1 - 1)"

lemma put_varint_append: "put_varint out v = out @ varint v"
  by (simp add: put_varint_def varint_def Let_def)

lemma clamp62_less: "clamp62 v < push_bit 62 1"
  by (simp add: clamp62_def min_def word_less_nat_alt word_le_nat_alt)

text \<open>
  The four shapes a value takes on the wire: a tagged first byte with the top bits of the value,
  and its low \<open>m\<close> bytes, most significant first.
\<close>

abbreviation low_bytes :: "nat \<Rightarrow> u64 \<Rightarrow> bytes" where
  "low_bytes m w \<equiv> map (\<lambda>k. ucast (drop_bit (8 * k) w)) (rev [0..<m])"

definition shape :: "u8 \<Rightarrow> nat \<Rightarrow> bool" where
  "shape tag m \<longleftrightarrow> (tag, m) \<in> {(0, 0), (0x40, 1), (0x80, 3), (0xC0, 7)}"

lemma varint_shape:
  "\<exists>tag m. shape tag m \<and> clamp62 v < push_bit (6 + 8 * m) 1 \<and>
     varint v = (tag OR ucast (drop_bit (8 * m) (clamp62 v))) # low_bytes m (clamp62 v)"
proof -
  define w where "w = clamp62 v"
  have low: "(ucast (drop_bit k (ucast w :: u32)) :: u8) = ucast (drop_bit k w)" if "k \<le> 24" for k
    by (rule bit_eqI) (use that in \<open>auto simp: bit_simps\<close>)
  have be32: "drop 1 (to_be_bytes_u32 (ucast w)) = low_bytes 3 w"
    using low [of 16] low [of 8] low [of 0] by (simp add: to_be_bytes_u32_def upt_rec)
  have be64: "drop 1 (to_be_bytes_u64 w) = low_bytes 7 w"
    by (simp add: to_be_bytes_u64_def upt_rec)
  have "varint v = (if w < push_bit 6 1 then [ucast w]
      else if w < push_bit 14 1 then [0x40 OR ucast (drop_bit 8 w)] @ [ucast w]
      else if w < push_bit 30 1 then [0x80 OR ucast (drop_bit 24 w)] @ drop 1 (to_be_bytes_u32 (ucast w))
      else [0xC0 OR ucast (drop_bit 56 w)] @ drop 1 (to_be_bytes_u64 w))"
    unfolding varint_def put_varint_def Let_def w_def clamp62_def by (simp only: append_Nil)
  note wire = this [unfolded be32 be64]
  consider "w < push_bit 6 1" | "\<not> w < push_bit 6 1" "w < push_bit 14 1"
    | "\<not> w < push_bit 6 1" "\<not> w < push_bit 14 1" "w < push_bit 30 1"
    | "\<not> w < push_bit 6 1" "\<not> w < push_bit 14 1" "\<not> w < push_bit 30 1" by blast
  then have "\<exists>tag m. shape tag m \<and> w < push_bit (6 + 8 * m) 1 \<and>
      varint v = (tag OR ucast (drop_bit (8 * m) w)) # low_bytes m w"
  proof cases
    case 1
    with wire show ?thesis by (intro exI [of _ 0]) (simp add: shape_def)
  next
    case 2
    with wire show ?thesis by (intro exI [of _ "0x40"] exI [of _ 1]) (simp add: shape_def)
  next
    case 3
    then have "varint v = (0x80 OR ucast (drop_bit 24 w)) # low_bytes 3 w" unfolding wire by (simp only: if_False if_True append_Cons append_Nil)
    with 3 show ?thesis by (intro exI [of _ "0x80"] exI [of _ 3] conjI) (simp_all add: shape_def)
  next
    case 4
    then have "varint v = (0xC0 OR ucast (drop_bit 56 w)) # low_bytes 7 w" unfolding wire by (simp only: if_False append_Cons append_Nil)
    moreover have "w < push_bit (6 + 8 * 7) 1" using clamp62_less [of v] by (simp add: w_def)
    ultimately show ?thesis by (intro exI [of _ "0xC0"] exI [of _ 7] conjI) (simp_all add: shape_def)
  qed
  then show ?thesis by (simp add: w_def)
qed

lemma shape_cases:
  "shape tag m \<Longrightarrow> tag \<in> {0, 0x40, 0x80, 0xC0} \<and> 6 + 8 * m < 64 \<and> 2 ^ unat (drop_bit 6 tag) = m + 1"
  by (auto simp: shape_def)

lemma be_rounds:
  "fold (\<lambda>b v. push_bit 8 v OR ucast b) (low_bytes m w) (drop_bit (8 * m) w) = (w :: u64)"
proof (induction m)
  case (Suc m)
  have "push_bit 8 (drop_bit (8 * Suc m) w) OR ucast (ucast (drop_bit (8 * m) w) :: u8) = drop_bit (8 * m) w"
    using be_round [of "8 * m" w] by simp
  with Suc show ?case by simp
qed simp

text \<open>What the reader sees of a shape, whole or cut short.\<close>

lemma get_varint_shape:
  assumes "shape tag m" "w < push_bit (6 + 8 * m) 1"
    and buf: "buf = pre @ (tag OR ucast (drop_bit (8 * m) w)) # rest" "pos = length pre"
  shows "get_varint buf pos =
    (if m \<le> length rest
     then Some (fold (\<lambda>b v. push_bit 8 v OR ucast b) (take m rest) (drop_bit (8 * m) w), pos + m + 1) else None)"
proof -
  note tag = shape_cases [OF assms(1)]
  have first: "buf ! pos = tag OR ucast (drop_bit (8 * m) w)" "drop (pos + 1) buf = rest" using buf by auto
  have "push_bit (unat (drop_bit 6 (buf ! pos))) (1 :: nat) = m + 1"
    using first_byte(1) [OF assms(2)] tag by (simp add: first(1) push_bit_eq_mult)
  then show ?thesis
    using first_byte(2) [OF assms(2)] tag first buf by (simp add: get_varint_def)
qed

lemma get_put_varint:
  "get_varint (pre @ varint v @ post) (length pre) = Some (clamp62 v, length pre + length (varint v))"
proof -
  from varint_shape [of v] obtain tag m where tag: "shape tag m" "clamp62 v < push_bit (6 + 8 * m) 1"
    and v: "varint v = (tag OR ucast (drop_bit (8 * m) (clamp62 v))) # low_bytes m (clamp62 v)" by blast
  have "get_varint (pre @ varint v @ post) (length pre) =
      Some (fold (\<lambda>b v. push_bit 8 v OR ucast b) (low_bytes m (clamp62 v)) (drop_bit (8 * m) (clamp62 v)), length pre + m + 1)"
    using get_varint_shape [OF tag, of _ pre "low_bytes m (clamp62 v) @ post" "length pre"] v by simp
  then show ?thesis by (simp only: be_rounds v list.size length_map length_rev length_upt) simp
qed

lemma get_varint_short:
  assumes "j < length (varint v)"
  shows "get_varint (pre @ take j (varint v)) (length pre) = None"
proof (cases j)
  case 0
  then show ?thesis by (simp add: get_varint_def)
next
  case (Suc i)
  from varint_shape [of v] obtain tag m where tag: "shape tag m" "clamp62 v < push_bit (6 + 8 * m) 1"
    and v: "varint v = (tag OR ucast (drop_bit (8 * m) (clamp62 v))) # low_bytes m (clamp62 v)" by blast
  then have "i < m" using assms Suc by simp
  then show ?thesis
    using get_varint_shape [OF tag, of _ pre "take i (low_bytes m (clamp62 v))" "length pre"] v Suc by simp
qed

lemma length_varint: "length (varint v) \<le> 8" "0 < length (varint v)"
  using varint_shape [of v] by (auto simp: shape_def)

text \<open>
  What the frame layer relies on: an integer codec that appends, reads back the clamped value and
  the position behind it wherever the integer stands, and refuses one that was cut short.
\<close>

locale int_codec =
  fixes put :: "bytes \<Rightarrow> u64 \<Rightarrow> bytes" and get :: "bytes \<Rightarrow> nat \<Rightarrow> (u64 \<times> nat) option" and clamp :: "u64 \<Rightarrow> u64"
  assumes put_append: "put out v = out @ put [] v"
    and get_put: "get (pre @ put [] v @ post) (length pre) = Some (clamp v, length pre + length (put [] v))"
    and get_short: "j < length (put [] v) \<Longrightarrow> get (pre @ take j (put [] v)) (length pre) = None"
begin

lemma get_put_first: "get (put [] v) 0 = Some (clamp v, length (put [] v))"
  using get_put [of "[]" v "[]"] by simp

lemma get_put_last: "get (put out v) (length out) = Some (clamp v, length (put out v))"
  using get_put [of out v "[]"] put_append [of out v] by simp

lemma get_put_two: "get (put (put out v) w) (length out) = Some (clamp v, length (put out v))"
  using get_put [of out v "put [] w"] put_append [of out v] put_append [of "put out v" w] by simp

lemma get_put_ext: "get (put out v @ post) (length out) = Some (clamp v, length (put out v))"
  using get_put [of out v post] put_append [of out v] by simp

end

interpretation vi: int_codec put_varint get_varint clamp62
  by unfold_locales
    (simp_all add: put_varint_append get_put_varint get_varint_short)

section \<open>Frames on the wire\<close>

definition tlv :: "u8 \<times> bytes \<Rightarrow> bytes" where
  "tlv f = fst f # varint (of_nat (length (snd f))) @ snd f"

lemma put_frame_append: "put_frame out ty body = out @ tlv (frame_tag ty, body)"
  by (simp add: put_frame_def put_varint_append tlv_def)

lemma clamp62_of_nat: "n < 2 ^ 62 \<Longrightarrow> unat (clamp62 (of_nat n)) = n"
proof -
  assume n: "n < 2 ^ 62"
  then have "unat (of_nat n :: u64) = n" by (intro unat_of_nat_small) simp
  with n have "(of_nat n :: u64) \<le> push_bit 62 1 - 1" by (simp add: word_le_nat_alt)
  then have "clamp62 (of_nat n) = of_nat n" by (simp only: clamp62_def min_absorb1)
  with \<open>unat (of_nat n :: u64) = n\<close> show ?thesis by simp
qed

lemma decode_loop_tlv:
  assumes "length (snd f) < 2 ^ 62" "buf = pre @ tlv f @ post"
  shows "decode_loop buf (length pre) p = decode_loop buf (length pre + length (tlv f)) (apply_frame (fst f) (snd f) p)"
proof -
  let ?v = "varint (of_nat (length (snd f)))"
  have buf: "buf = (pre @ [fst f]) @ ?v @ (snd f @ post)" using assms(2) by (simp add: tlv_def)
  have "get_varint buf (length (pre @ [fst f])) = Some (clamp62 (of_nat (length (snd f))), length (pre @ [fst f]) + length ?v)"
    unfolding buf by (rule get_put_varint)
  moreover have "take (length (snd f)) (drop (length (pre @ [fst f]) + length ?v) buf) = snd f"
    unfolding buf by simp
  moreover have "length pre < length buf" "buf ! length pre = fst f" unfolding buf by (simp_all add: nth_append)
  moreover have "length (tlv f) = 1 + length ?v + length (snd f)" by (simp add: tlv_def)
  moreover have "\<not> length buf < length (pre @ [fst f]) + length ?v + length (snd f)" unfolding buf by simp
  ultimately show ?thesis
    using clamp62_of_nat [OF assms(1)]
    by (subst decode_loop.simps) (simp add: Let_def ac_simps)
qed

lemma decode_loop_end: "decode_loop buf (length buf) p = p"
  by (simp add: decode_loop.simps)

lemma decode_loop_cut:
  assumes "length (snd f) < 2 ^ 62" "j < length (tlv f)"
  shows "decode_loop (pre @ take j (tlv f)) (length pre) p = p"
proof -
  let ?v = "varint (of_nat (length (snd f)))" and ?buf = "pre @ take j (tlv f)"
  show ?thesis
  proof (cases "j \<le> length ?v")
    case True
    have "get_varint ?buf (length pre + 1) = None"
    proof (cases j)
      case 0
      then show ?thesis by (simp add: get_varint_def)
    next
      case (Suc i)
      with True have "get_varint ((pre @ [fst f]) @ take i ?v) (length (pre @ [fst f])) = None"
        by (intro get_varint_short) simp
      with Suc True show ?thesis by (simp add: tlv_def)
    qed
    then show ?thesis by (subst decode_loop.simps) simp
  next
    case False
    then obtain i where i: "j = Suc (length ?v + i)" by (metis add_Suc_right less_iff_Suc_add not_le)
    then have buf: "?buf = (pre @ [fst f]) @ ?v @ take i (snd f)" by (simp add: tlv_def)
    have "get_varint ?buf (length (pre @ [fst f])) = Some (clamp62 (of_nat (length (snd f))), length (pre @ [fst f]) + length ?v)"
      unfolding buf by (rule get_put_varint)
    moreover have "i < length (snd f)" using assms(2) i by (simp add: tlv_def)
    then have "length ?buf < length (pre @ [fst f]) + length ?v + length (snd f)" unfolding buf by simp
    ultimately show ?thesis
      using clamp62_of_nat [OF assms(1)] by (subst decode_loop.simps) simp
  qed
qed

definition wire :: "(u8 \<times> bytes) list \<Rightarrow> bytes" where
  "wire fs = concat (map tlv fs)"

abbreviation apply_frames :: "(u8 \<times> bytes) list \<Rightarrow> ControlPacket \<Rightarrow> ControlPacket" where
  "apply_frames \<equiv> fold (\<lambda>f. apply_frame (fst f) (snd f))"

lemma decode_loop_wire:
  assumes "\<forall>f\<in>set fs. length (snd f) < 2 ^ 62" "buf = pre @ wire fs @ post"
  shows "decode_loop buf (length pre) p = decode_loop buf (length pre + length (wire fs)) (apply_frames fs p)"
  using assms
proof (induction fs arbitrary: pre p)
  case (Cons f fs)
  have "buf = pre @ tlv f @ (wire fs @ post)" using Cons.prems(2) by (simp add: wire_def)
  with Cons.prems(1) decode_loop_tlv [of f buf pre "wire fs @ post" p]
    Cons.IH [of "pre @ tlv f" "apply_frame (fst f) (snd f) p"]
  show ?case by (simp add: wire_def add.assoc)
qed (simp add: wire_def)

lemma decode_control_wire:
  assumes "\<forall>f\<in>set fs. length (snd f) < 2 ^ 62"
  shows "decode_control (PKT_CONTROL # wire fs) = Some (apply_frames fs packet_new)"
  using decode_loop_wire [OF assms, of "PKT_CONTROL # wire fs" "[PKT_CONTROL]" "[]" packet_new]
    decode_loop_end [of "PKT_CONTROL # wire fs"]
  by (simp add: decode_control_def is_control_def)

text \<open>A datagram cut anywhere behind its first byte still yields the frames before the cut.\<close>

lemma take_wire:
  "\<exists>m j. take n (wire fs) = wire (take m fs) @ (if m < length fs then take j (tlv (fs ! m)) else []) \<and>
     (m < length fs \<longrightarrow> j < length (tlv (fs ! m))) \<and> m \<le> length fs"
proof (induction fs arbitrary: n)
  case (Cons f fs)
  show ?case
  proof (cases "n < length (tlv f)")
    case True
    then show ?thesis by (intro exI [of _ 0] exI [of _ n]) (simp add: wire_def)
  next
    case False
    from Cons.IH [of "n - length (tlv f)"] obtain m j where
      "take (n - length (tlv f)) (wire fs) = wire (take m fs) @ (if m < length fs then take j (tlv (fs ! m)) else [])"
      "m < length fs \<longrightarrow> j < length (tlv (fs ! m))" "m \<le> length fs" by blast
    with False show ?thesis by (intro exI [of _ "Suc m"] exI [of _ j]) (simp add: wire_def)
  qed
qed (simp add: wire_def)

lemma decode_control_take:
  assumes "\<forall>f\<in>set fs. length (snd f) < 2 ^ 62" "0 < n"
  shows "\<exists>m. decode_control (take n (PKT_CONTROL # wire fs)) = Some (apply_frames (take m fs) packet_new)"
proof -
  obtain n' where n: "n = Suc n'" using assms(2) gr0_conv_Suc by blast
  obtain m j where cut: "take n' (wire fs) = wire (take m fs) @ (if m < length fs then take j (tlv (fs ! m)) else [])"
    "m < length fs \<longrightarrow> j < length (tlv (fs ! m))" using take_wire by blast
  let ?rest = "if m < length fs then take j (tlv (fs ! m)) else []"
  let ?buf = "PKT_CONTROL # wire (take m fs) @ ?rest"
  have "decode_loop ?buf (1 + length (wire (take m fs))) q = q" for q
    using decode_loop_cut [of "fs ! m" j "PKT_CONTROL # wire (take m fs)" q] decode_loop_end [of ?buf q] cut(2) assms(1)
    by (cases "m < length fs") auto
  moreover have "decode_loop ?buf 1 packet_new = decode_loop ?buf (1 + length (wire (take m fs))) (apply_frames (take m fs) packet_new)"
  proof -
    have "\<forall>f\<in>set (take m fs). length (snd f) < 2 ^ 62" using assms(1) by (meson in_set_takeD)
    from decode_loop_wire [OF this, of ?buf "[PKT_CONTROL]" ?rest packet_new] show ?thesis by simp
  qed
  ultimately have "decode_control ?buf = Some (apply_frames (take m fs) packet_new)"
    by (simp add: decode_control_def is_control_def)
  with n cut(1) show ?thesis by auto
qed

section \<open>A packet as its list of frames\<close>

definition opt_frame :: "FrameType \<Rightarrow> ('a \<Rightarrow> bytes) \<Rightarrow> 'a option \<Rightarrow> (u8 \<times> bytes) list" where
  "opt_frame ty body x = (case x of None \<Rightarrow> [] | Some f \<Rightarrow> [(frame_tag ty, body f)])"

abbreviation varints2 :: "bytes \<Rightarrow> u64 \<Rightarrow> u64 \<Rightarrow> bytes" where
  "varints2 out a b \<equiv> put_varint (put_varint out a) b"

abbreviation "nak_body f \<equiv> varints2 [] (ucast (nak_block f)) (ucast (nak_mask f))"
abbreviation "loss_body f \<equiv> [loss_x255 f, burstiness_x255 f, owd_trend_class f, loss_class f]"
abbreviation "ring_body f \<equiv>
  [fill_pct f, ring_kind f, ring_producers f, ring_consumers f, ring_trend f, ring_flags f]"
abbreviation "path_body f \<equiv> varints2 [path_ttl f, path_ecn f, hop_count f] (ce_count f) (ect_count f)"
abbreviation "acct_body f \<equiv> varints2 [] (ucast (acct_seq f)) (ucast (last_recv_seq f))"
abbreviation "probe_body f \<equiv> put_varint [bw_probe_id f, bw_idx f] (bw_send_ts f)"
abbreviation "periodicity_body f \<equiv> varints2 [] (period_ds f) (secs_to_spike_ds f) @ [confidence_x255 f]"
abbreviation "session_body f \<equiv> varints2 [] (ucast (session_epoch f)) (nonce f)"

definition packet_frames :: "ControlPacket \<Rightarrow> (u8 \<times> bytes) list" where
  "packet_frames p =
     opt_frame Ack (\<lambda>f. put_varint [] (ucast (ack_through f))) (ack p) @
     opt_frame Nak (\<lambda>f. nak_body f) (nak p) @
     opt_frame Loss (\<lambda>f. loss_body f) (loss p) @
     opt_frame Timing (\<lambda>f. varints2 [] (timing_send_ts f) (timing_echo_ts f)) (timing p) @
     opt_frame Ring (\<lambda>f. ring_body f) (ring p) @
     opt_frame Path (\<lambda>f. path_body f) (path p) @
     opt_frame Link (\<lambda>f. [link_class f, link_quality f]) (link p) @
     opt_frame LossAcct (\<lambda>f. acct_body f) (loss_acct p) @
     opt_frame Pmtu (\<lambda>f. put_varint [] (ucast (pmtu_bytes f))) (pmtu p) @
     map (\<lambda>f. (frame_tag BwProbe, probe_body f)) (bw_probe p) @
     map (\<lambda>f. (frame_tag Trace, [hop_ttl f, trace_probe_id f])) (trace p) @
     opt_frame AvailBw (\<lambda>f. varints2 [] (avail_kbps f) (capacity_kbps f)) (avail_bw p) @
     opt_frame Forecast (\<lambda>f. put_varint [] (forecast_kbps f)) (forecast p) @
     opt_frame Periodicity (\<lambda>f. periodicity_body f) (periodicity p) @
     opt_frame SessionChallenge (\<lambda>f. session_body f) (session_challenge p) @
     opt_frame SessionResponse (\<lambda>f. session_body f) (session_response p) @
     opt_frame SessionAnnounce (\<lambda>e. put_varint [] (ucast e)) (session_announce p)"

lemma put_opt_frame:
  "(case x of None \<Rightarrow> out | Some f \<Rightarrow> put_frame out ty (body f)) = out @ wire (opt_frame ty body x)"
  by (simp add: opt_frame_def wire_def put_frame_append split: option.split)

lemma put_all_frames:
  "fold (\<lambda>f out. put_frame out ty (body f)) xs out = out @ wire (map (\<lambda>f. (frame_tag ty, body f)) xs)"
  by (induction xs arbitrary: out) (simp_all add: wire_def put_frame_append)

lemma wire_append: "wire (fs @ gs) = wire fs @ wire gs"
  by (simp add: wire_def)

lemma encode_control_frames: "encode_control p = PKT_CONTROL # wire (packet_frames p)"
  by (simp only: encode_control_def packet_frames_def Let_def put_opt_frame put_all_frames wire_append
      append_Cons append_Nil append_assoc)

lemma packet_frames_short: "f \<in> set (packet_frames p) \<Longrightarrow> length (snd f) < 2 ^ 62"
proof -
  have v: "8 < n \<Longrightarrow> length (varint a) < n" "16 < n \<Longrightarrow> length (varint a) + length (varint b) < n" for a b n
    using length_varint(1) [of a] length_varint(1) [of b] by auto
  assume "f \<in> set (packet_frames p)"
  then have "length (snd f) < 30"
    by (auto simp: packet_frames_def opt_frame_def put_varint_append v split: option.splits)
  then show ?thesis by simp
qed

section \<open>Reading the frames back\<close>

definition clamp_packet :: "ControlPacket \<Rightarrow> ControlPacket" where
  "clamp_packet p = p\<lparr>
     timing := map_option (\<lambda>f. \<lparr>timing_send_ts = clamp62 (timing_send_ts f), timing_echo_ts = clamp62 (timing_echo_ts f)\<rparr>) (timing p),
     path := map_option (\<lambda>f. f\<lparr>ce_count := clamp62 (ce_count f), ect_count := clamp62 (ect_count f)\<rparr>) (path p),
     bw_probe := map (\<lambda>f. f\<lparr>bw_send_ts := clamp62 (bw_send_ts f)\<rparr>) (bw_probe p),
     avail_bw := map_option (\<lambda>f. \<lparr>avail_kbps = clamp62 (avail_kbps f), capacity_kbps = clamp62 (capacity_kbps f)\<rparr>) (avail_bw p),
     forecast := map_option (\<lambda>f. \<lparr>forecast_kbps = clamp62 (forecast_kbps f)\<rparr>) (forecast p),
     periodicity := map_option (\<lambda>f. f\<lparr>period_ds := clamp62 (period_ds f), secs_to_spike_ds := clamp62 (secs_to_spike_ds f)\<rparr>) (periodicity p),
     session_challenge := map_option (\<lambda>f. f\<lparr>nonce := clamp62 (nonce f)\<rparr>) (session_challenge p),
     session_response := map_option (\<lambda>f. f\<lparr>nonce := clamp62 (nonce f)\<rparr>) (session_response p)\<rparr>"

lemma clamp62_id: "unat v < 2 ^ 62 \<Longrightarrow> clamp62 v = v"
  using clamp62_of_nat [of "unat v"] by (simp add: word_unat_eq_iff)

lemma clamp62_narrow:
  "ucast (clamp62 (ucast (x :: u32))) = x" "ucast (clamp62 (ucast (y :: u16))) = y"
proof -
  have "unat (ucast x :: u64) < 2 ^ 62" "unat (ucast y :: u64) < 2 ^ 62"
    using unsigned_less [of x, where ?'a = nat] unsigned_less [of y, where ?'a = nat]
    by (auto simp: unsigned_ucast_eq take_bit_nat_eq_self)
  then show "ucast (clamp62 (ucast x)) = x" "ucast (clamp62 (ucast y)) = y"
    by (simp_all add: clamp62_id) (rule bit_eqI; simp add: bit_simps)+
qed

lemma frame_from_tag [simp]: "frame_from_u8 (frame_tag ty) = Some ty"
  by (cases ty) (simp_all add: frame_from_u8_def)

lemma get_varints2:
  "get_varint2 (varints2 [] a b) = Some (clamp62 a, clamp62 b, length (varints2 [] a b))"
  "get_varint2 (varints2 [] a b @ post) = Some (clamp62 a, clamp62 b, length (varints2 [] a b))"
proof -
  have "get_varint2 (varints2 [] a b @ post) = Some (clamp62 a, clamp62 b, length (varints2 [] a b))" for post
    using get_put_varint [of "[]" a "varint b @ post"] get_put_varint [of "varint a" b post]
    by (simp add: get_varint2_def put_varint_append)
  from this [of "[]"] this show
    "get_varint2 (varints2 [] a b) = Some (clamp62 a, clamp62 b, length (varints2 [] a b))"
    "get_varint2 (varints2 [] a b @ post) = Some (clamp62 a, clamp62 b, length (varints2 [] a b))" by simp_all
qed

text \<open>What each kind of frame adds.\<close>

lemma apply_frame_tags:
  "apply_frame (frame_tag Ack) (put_varint [] (ucast (n :: u32))) p = p\<lparr>ack := Some \<lparr>ack_through = n\<rparr>\<rparr>"
  "apply_frame (frame_tag Nak) (nak_body f1) p = p\<lparr>nak := Some f1\<rparr>"
  "apply_frame (frame_tag Loss) (loss_body f2) p = p\<lparr>loss := Some f2\<rparr>"
  "apply_frame (frame_tag Timing) (varints2 [] a b) p =
     p\<lparr>timing := Some \<lparr>timing_send_ts = clamp62 a, timing_echo_ts = clamp62 b\<rparr>\<rparr>"
  "apply_frame (frame_tag Ring) (ring_body f3) p = p\<lparr>ring := Some f3\<rparr>"
  "apply_frame (frame_tag Link) [c, q] p = p\<lparr>link := Some \<lparr>link_class = c, link_quality = q\<rparr>\<rparr>"
  "apply_frame (frame_tag LossAcct) (acct_body f4) p = p\<lparr>loss_acct := Some f4\<rparr>"
  "apply_frame (frame_tag Pmtu) (put_varint [] (ucast (u :: u16))) p = p\<lparr>pmtu := Some \<lparr>pmtu_bytes = u\<rparr>\<rparr>"
  "apply_frame (frame_tag Trace) [h, i] p = p\<lparr>trace := trace p @ [\<lparr>hop_ttl = h, trace_probe_id = i\<rparr>]\<rparr>"
  "apply_frame (frame_tag AvailBw) (varints2 [] a b) p =
     p\<lparr>avail_bw := Some \<lparr>avail_kbps = clamp62 a, capacity_kbps = clamp62 b\<rparr>\<rparr>"
  "apply_frame (frame_tag Forecast) (put_varint [] a) p = p\<lparr>forecast := Some \<lparr>forecast_kbps = clamp62 a\<rparr>\<rparr>"
  "apply_frame (frame_tag SessionAnnounce) (put_varint [] (ucast n)) p = p\<lparr>session_announce := Some n\<rparr>"
  "apply_frame (frame_tag SessionChallenge) (session_body f5) p =
     p\<lparr>session_challenge := Some (f5\<lparr>nonce := clamp62 (nonce f5)\<rparr>)\<rparr>"
  "apply_frame (frame_tag SessionResponse) (session_body f5) p =
     p\<lparr>session_response := Some (f5\<lparr>nonce := clamp62 (nonce f5)\<rparr>)\<rparr>"
  by (simp_all add: apply_frame_def vi.get_put_first get_varints2 clamp62_narrow del: frame_tag.simps)

lemma apply_frame_path:
  "apply_frame (frame_tag Path) (path_body f) p =
     p\<lparr>path := Some (f\<lparr>ce_count := clamp62 (ce_count f), ect_count := clamp62 (ect_count f)\<rparr>)\<rparr>"
proof -
  let ?b = "path_body f"
  have "get_varint ?b 3 = Some (clamp62 (ce_count f), 3 + length (varint (ce_count f)))"
    using get_put_varint [of "[path_ttl f, path_ecn f, hop_count f]" "ce_count f" "varint (ect_count f)"]
    by (simp add: put_varint_append eval_nat_numeral)
  moreover have "get_varint ?b (3 + length (varint (ce_count f))) = Some (clamp62 (ect_count f), length ?b)"
    using vi.get_put_last [of "put_varint [path_ttl f, path_ecn f, hop_count f] (ce_count f)" "ect_count f"]
    by (simp add: put_varint_append eval_nat_numeral)
  ultimately show ?thesis
    by (simp add: apply_frame_def del: frame_tag.simps) (simp add: put_varint_append)
qed

lemma apply_frame_probe:
  "apply_frame (frame_tag BwProbe) (probe_body f) p =
     p\<lparr>bw_probe := bw_probe p @ [f\<lparr>bw_send_ts := clamp62 (bw_send_ts f)\<rparr>]\<rparr>"
proof -
  have "get_varint (probe_body f) 2 = Some (clamp62 (bw_send_ts f), length (probe_body f))"
    using vi.get_put_last [of "[bw_probe_id f, bw_idx f]" "bw_send_ts f"] by (simp add: eval_nat_numeral)
  then show ?thesis by (simp add: apply_frame_def del: frame_tag.simps) (simp add: put_varint_append)
qed

lemma apply_frame_periodicity:
  "apply_frame (frame_tag Periodicity) (periodicity_body f) p =
     p\<lparr>periodicity := Some (f\<lparr>period_ds := clamp62 (period_ds f), secs_to_spike_ds := clamp62 (secs_to_spike_ds f)\<rparr>)\<rparr>"
  by (simp add: apply_frame_def get_varints2 nth_append del: frame_tag.simps)

lemmas apply_frame_simps = apply_frame_tags apply_frame_path apply_frame_probe apply_frame_periodicity

lemma apply_opt_frame:
  "apply_frames (opt_frame ty body x) p = (case x of None \<Rightarrow> p | Some f \<Rightarrow> apply_frame (frame_tag ty) (body f) p)"
  by (simp add: opt_frame_def split: option.split)

text \<open>What an optional frame adds to a packet that lacks it.\<close>

lemma apply_opt_frames:
  "ack p = None \<Longrightarrow> apply_frames (opt_frame Ack (\<lambda>f. put_varint [] (ucast (ack_through f))) x1) p = p\<lparr>ack := x1\<rparr>"
  "nak p = None \<Longrightarrow> apply_frames (opt_frame Nak (\<lambda>f. nak_body f) x2) p = p\<lparr>nak := x2\<rparr>"
  "loss p = None \<Longrightarrow> apply_frames (opt_frame Loss (\<lambda>f. loss_body f) x3) p = p\<lparr>loss := x3\<rparr>"
  "timing p = None \<Longrightarrow>
     apply_frames (opt_frame Timing (\<lambda>f. varints2 [] (timing_send_ts f) (timing_echo_ts f)) x4) p = p\<lparr>timing :=
       map_option (\<lambda>f. \<lparr>timing_send_ts = clamp62 (timing_send_ts f), timing_echo_ts = clamp62 (timing_echo_ts f)\<rparr>) x4\<rparr>"
  "ring p = None \<Longrightarrow> apply_frames (opt_frame Ring (\<lambda>f. ring_body f) x5) p = p\<lparr>ring := x5\<rparr>"
  "path p = None \<Longrightarrow> apply_frames (opt_frame Path (\<lambda>f. path_body f) x6) p = p\<lparr>path :=
     map_option (\<lambda>f. f\<lparr>ce_count := clamp62 (ce_count f), ect_count := clamp62 (ect_count f)\<rparr>) x6\<rparr>"
  "link p = None \<Longrightarrow> apply_frames (opt_frame Link (\<lambda>f. [link_class f, link_quality f]) x7) p = p\<lparr>link := x7\<rparr>"
  "loss_acct p = None \<Longrightarrow> apply_frames (opt_frame LossAcct (\<lambda>f. acct_body f) x8) p = p\<lparr>loss_acct := x8\<rparr>"
  "pmtu p = None \<Longrightarrow> apply_frames (opt_frame Pmtu (\<lambda>f. put_varint [] (ucast (pmtu_bytes f))) x9) p = p\<lparr>pmtu := x9\<rparr>"
  "avail_bw p = None \<Longrightarrow>
     apply_frames (opt_frame AvailBw (\<lambda>f. varints2 [] (avail_kbps f) (capacity_kbps f)) y1) p = p\<lparr>avail_bw :=
       map_option (\<lambda>f. \<lparr>avail_kbps = clamp62 (avail_kbps f), capacity_kbps = clamp62 (capacity_kbps f)\<rparr>) y1\<rparr>"
  "forecast p = None \<Longrightarrow> apply_frames (opt_frame Forecast (\<lambda>f. put_varint [] (forecast_kbps f)) y2) p =
     p\<lparr>forecast := map_option (\<lambda>f. \<lparr>forecast_kbps = clamp62 (forecast_kbps f)\<rparr>) y2\<rparr>"
  "periodicity p = None \<Longrightarrow> apply_frames (opt_frame Periodicity (\<lambda>f. periodicity_body f) y3) p = p\<lparr>periodicity :=
     map_option (\<lambda>f. f\<lparr>period_ds := clamp62 (period_ds f), secs_to_spike_ds := clamp62 (secs_to_spike_ds f)\<rparr>) y3\<rparr>"
  "session_challenge p = None \<Longrightarrow> apply_frames (opt_frame SessionChallenge (\<lambda>f. session_body f) y4) p =
     p\<lparr>session_challenge := map_option (\<lambda>f. f\<lparr>nonce := clamp62 (nonce f)\<rparr>) y4\<rparr>"
  "session_response p = None \<Longrightarrow> apply_frames (opt_frame SessionResponse (\<lambda>f. session_body f) y5) p =
     p\<lparr>session_response := map_option (\<lambda>f. f\<lparr>nonce := clamp62 (nonce f)\<rparr>) y5\<rparr>"
  "session_announce p = None \<Longrightarrow>
     apply_frames (opt_frame SessionAnnounce (\<lambda>e. put_varint [] (ucast e)) y6) p = p\<lparr>session_announce := y6\<rparr>"
  by (cases p; simp add: apply_opt_frame apply_frame_simps del: frame_tag.simps split: option.split)+

lemma apply_probe_frames:
  "apply_frames (map (\<lambda>f. (frame_tag BwProbe, probe_body f)) xs) p =
     p\<lparr>bw_probe := bw_probe p @ map (\<lambda>f. f\<lparr>bw_send_ts := clamp62 (bw_send_ts f)\<rparr>) xs\<rparr>"
  by (induction xs arbitrary: p) (simp_all add: apply_frame_probe del: frame_tag.simps)

lemma apply_trace_frames:
  "apply_frames (map (\<lambda>f. (frame_tag Trace, [hop_ttl f, trace_probe_id f])) xs) p = p\<lparr>trace := trace p @ xs\<rparr>"
  by (induction xs arbitrary: p) (simp_all add: apply_frame_tags del: frame_tag.simps)

lemma apply_packet_frames: "apply_frames (packet_frames p) packet_new = clamp_packet p"
  by (simp add: packet_frames_def packet_new_def clamp_packet_def apply_opt_frames apply_probe_frames apply_trace_frames
      del: frame_tag.simps)

section \<open>A packet cut short\<close>

text \<open>Part of a packet: some optional frames missing, trains cut to a prefix, the rest as it was.\<close>

definition opt_part :: "'a option \<Rightarrow> 'a option \<Rightarrow> bool" where
  "opt_part x y \<longleftrightarrow> x = None \<or> x = y"

definition packet_part :: "ControlPacket \<Rightarrow> ControlPacket \<Rightarrow> bool" where
  "packet_part q p \<longleftrightarrow>
     opt_part (ack q) (ack p) \<and> opt_part (nak q) (nak p) \<and> opt_part (loss q) (loss p) \<and>
     opt_part (timing q) (timing p) \<and> opt_part (ring q) (ring p) \<and> opt_part (path q) (path p) \<and>
     opt_part (link q) (link p) \<and> opt_part (loss_acct q) (loss_acct p) \<and> opt_part (pmtu q) (pmtu p) \<and>
     (\<exists>n. bw_probe q = take n (bw_probe p)) \<and> (\<exists>n. trace q = take n (trace p)) \<and>
     opt_part (avail_bw q) (avail_bw p) \<and> opt_part (forecast q) (forecast p) \<and>
     opt_part (periodicity q) (periodicity p) \<and> opt_part (session_challenge q) (session_challenge p) \<and>
     opt_part (session_response q) (session_response p) \<and> opt_part (session_announce q) (session_announce p)"

definition trunc :: "nat \<Rightarrow> 'a option \<Rightarrow> 'a option" where
  "trunc m x = (if m = 0 then None else x)"

lemma take_opt_frame: "take m (opt_frame ty body x) = opt_frame ty body (trunc m x)"
  by (cases m) (auto simp: opt_frame_def trunc_def split: option.split)

lemma opt_part_trunc: "opt_part (trunc m x) x"
  by (simp add: opt_part_def trunc_def)

lemma take_packet_frames: "\<exists>q. take m (packet_frames p) = packet_frames q \<and> packet_part q p"
proof -
  have "\<exists>m1 m2 m3 m4 m5 m6 m7 m8 m9 m10 m11 m12 m13 m14 m15 m16 m17.
      take m (packet_frames p) = packet_frames
        \<lparr>ack = trunc m1 (ack p), nak = trunc m2 (nak p), loss = trunc m3 (loss p), timing = trunc m4 (timing p),
         ring = trunc m5 (ring p), path = trunc m6 (path p), link = trunc m7 (link p), loss_acct = trunc m8 (loss_acct p),
         pmtu = trunc m9 (pmtu p), bw_probe = take m10 (bw_probe p), trace = take m11 (trace p),
         avail_bw = trunc m12 (avail_bw p), forecast = trunc m13 (forecast p), periodicity = trunc m14 (periodicity p),
         session_challenge = trunc m15 (session_challenge p), session_response = trunc m16 (session_response p),
         session_announce = trunc m17 (session_announce p)\<rparr>"
    unfolding packet_frames_def take_append take_opt_frame take_map ControlPacket.simps by blast
  then obtain m1 m2 m3 m4 m5 m6 m7 m8 m9 m10 m11 m12 m13 m14 m15 m16 m17 where
    cut: "take m (packet_frames p) = packet_frames
        \<lparr>ack = trunc m1 (ack p), nak = trunc m2 (nak p), loss = trunc m3 (loss p), timing = trunc m4 (timing p),
         ring = trunc m5 (ring p), path = trunc m6 (path p), link = trunc m7 (link p), loss_acct = trunc m8 (loss_acct p),
         pmtu = trunc m9 (pmtu p), bw_probe = take m10 (bw_probe p), trace = take m11 (trace p),
         avail_bw = trunc m12 (avail_bw p), forecast = trunc m13 (forecast p), periodicity = trunc m14 (periodicity p),
         session_challenge = trunc m15 (session_challenge p), session_response = trunc m16 (session_response p),
         session_announce = trunc m17 (session_announce p)\<rparr>" by blast
  show ?thesis
    by (intro exI conjI, rule cut) (auto simp: packet_part_def opt_part_trunc)
qed

section \<open>Properties\<close>

text \<open>The 64-bit fields hold values the integer codec carries without clamping.\<close>

definition fits62 :: "ControlPacket \<Rightarrow> bool" where
  "fits62 p \<longleftrightarrow>
     pred_option (\<lambda>f. unat (timing_send_ts f) < 2 ^ 62 \<and> unat (timing_echo_ts f) < 2 ^ 62) (timing p) \<and>
     pred_option (\<lambda>f. unat (ce_count f) < 2 ^ 62 \<and> unat (ect_count f) < 2 ^ 62) (path p) \<and>
     list_all (\<lambda>f. unat (bw_send_ts f) < 2 ^ 62) (bw_probe p) \<and>
     pred_option (\<lambda>f. unat (avail_kbps f) < 2 ^ 62 \<and> unat (capacity_kbps f) < 2 ^ 62) (avail_bw p) \<and>
     pred_option (\<lambda>f. unat (forecast_kbps f) < 2 ^ 62) (forecast p) \<and>
     pred_option (\<lambda>f. unat (period_ds f) < 2 ^ 62 \<and> unat (secs_to_spike_ds f) < 2 ^ 62) (periodicity p) \<and>
     pred_option (\<lambda>f. unat (nonce f) < 2 ^ 62) (session_challenge p) \<and>
     pred_option (\<lambda>f. unat (nonce f) < 2 ^ 62) (session_response p)"

lemma clamp_packet_id: "fits62 p \<Longrightarrow> clamp_packet p = p"
proof -
  assume "fits62 p"
  then have "timing (clamp_packet p) = timing p" "path (clamp_packet p) = path p" "bw_probe (clamp_packet p) = bw_probe p"
    "avail_bw (clamp_packet p) = avail_bw p" "forecast (clamp_packet p) = forecast p"
    "periodicity (clamp_packet p) = periodicity p" "session_challenge (clamp_packet p) = session_challenge p"
    "session_response (clamp_packet p) = session_response p"
    by (auto simp: fits62_def clamp_packet_def clamp62_id list_all_iff option.pred_set option.map_ident_strong
        intro!: option.map_ident_strong map_idI)
  then show ?thesis by (simp add: ControlPacket.equality clamp_packet_def)
qed

text \<open>
  C13. Decoding an encoded control packet gives the packet back, with every 64-bit field clamped to 62
  bits; when the fields fit 62 bits it is the same packet.
\<close>

theorem control_roundtrip:
  "decode_control (encode_control p) = Some (clamp_packet p) \<and> (fits62 p \<longrightarrow> decode_control (encode_control p) = Some p)"
proof -
  have "\<forall>f\<in>set (packet_frames p). length (snd f) < 2 ^ 62" using packet_frames_short by blast
  then show ?thesis
    by (simp add: encode_control_frames decode_control_wire apply_packet_frames clamp_packet_id)
qed

theorem control_roundtrip_witness:
  "decode_control (encode_control (packet_new\<lparr>nak := Some \<lparr>nak_block = 70000, nak_mask = 5\<rparr>,
     timing := Some \<lparr>timing_send_ts = 123456789, timing_echo_ts = 0\<rparr>\<rparr>)) =
   Some (packet_new\<lparr>nak := Some \<lparr>nak_block = 70000, nak_mask = 5\<rparr>,
     timing := Some \<lparr>timing_send_ts = 123456789, timing_echo_ts = 0\<rparr>\<rparr>)"
  by (rule control_roundtrip [THEN conjunct2, THEN mp]) (simp add: fits62_def packet_new_def)

text \<open>
  C20. A datagram cut anywhere behind its first byte still decodes, to part of the packet: every frame
  that arrived whole is there with its values, no frame is misread, and none is made up.
\<close>

theorem control_truncation:
  assumes "0 < n"
  shows "\<exists>q. packet_part q p \<and> decode_control (take n (encode_control p)) = Some (clamp_packet q)"
proof -
  have "\<forall>f\<in>set (packet_frames p). length (snd f) < 2 ^ 62" using packet_frames_short by blast
  from decode_control_take [OF this assms] obtain m where
    m: "decode_control (take n (encode_control p)) = Some (apply_frames (take m (packet_frames p)) packet_new)"
    by (auto simp: encode_control_frames)
  obtain q where "take m (packet_frames p) = packet_frames q" "packet_part q p" using take_packet_frames by blast
  with m show ?thesis by (auto simp: apply_packet_frames)
qed

theorem control_truncation_witness:
  "\<exists>q. packet_part q (packet_new\<lparr>ack := Some \<lparr>ack_through = 9\<rparr>\<rparr>) \<and>
     decode_control (take 2 (encode_control (packet_new\<lparr>ack := Some \<lparr>ack_through = 9\<rparr>\<rparr>))) = Some (clamp_packet q)"
  by (rule control_truncation) simp

text \<open>
  The integer codec: a value written anywhere in a buffer is read back at its position as itself,
  clamped to 62 bits, and the reader stops right behind it; a value whose bytes are cut off is refused.
\<close>

lemma varint_roundtrip:
  "get_varint (put_varint out v @ post) (length out) =
     Some (min v (2 ^ 62 - 1), length (put_varint out v)) \<and>
   (j < length (put_varint out v) \<longrightarrow> get_varint (take j (put_varint out v)) (length out) = None)"
proof (intro conjI impI)
  show "get_varint (put_varint out v @ post) (length out) = Some (min v (2 ^ 62 - 1), length (put_varint out v))"
    using vi.get_put_ext [of out v post] by (simp add: clamp62_def)
  assume j: "j < length (put_varint out v)"
  show "get_varint (take j (put_varint out v)) (length out) = None"
  proof (cases "j < length out")
    case True
    then show ?thesis by (simp add: get_varint_def)
  next
    case False
    then show ?thesis
      using j get_varint_short [of "j - length out" v out] by (simp add: put_varint_append)
  qed
qed

lemma varint_roundtrip_witness:
  "get_varint (put_varint [1] 300 @ [7]) 1 = Some (300, 3) \<and> get_varint (take 2 (put_varint [1] 300)) 1 = None"
  using varint_roundtrip [of "[1]" 300 "[7]" 2] by (simp add: put_varint_def Let_def)

lemma varint_two: "64 \<le> n \<Longrightarrow> n < 2 ^ 14 \<Longrightarrow> length (varint (of_nat n)) = 2"
  by (simp add: varint_def put_varint_def Let_def min_def word_less_nat_alt word_le_nat_alt unat_of_nat_small)

text \<open>
  Padding is invisible to the decoder, and makes the datagram exactly as long as asked as long as
  the padding frame's length field stays two bytes; a gap too small for a padding frame leaves the
  datagram alone.
\<close>

lemma pad_control_correct:
  assumes "target - length (encode_control p) < 2 ^ 62"
  shows "decode_control (pad_control_to (encode_control p) target) = decode_control (encode_control p) \<and>
    (target < length (encode_control p) + 67 \<longrightarrow> pad_control_to (encode_control p) target = encode_control p) \<and>
    (length (encode_control p) + 67 \<le> target \<and> target < length (encode_control p) + 2 ^ 14 \<longrightarrow>
      length (pad_control_to (encode_control p) target) = target)"
proof -
  let ?buf = "encode_control p"
  define k where "k = target - length ?buf - 3"
  define f where "f = (0x7F :: u8, replicate k (0 :: u8))"
  have pad: "pad_control_to ?buf target = (if target < length ?buf + 67 then ?buf else PKT_CONTROL # wire (packet_frames p @ [f]))"
    by (simp add: pad_control_to_def Let_def put_varint_append wire_append encode_control_frames)
      (simp add: wire_def tlv_def f_def k_def encode_control_frames)
  have short: "\<forall>f\<in>set (packet_frames p). length (snd f) < 2 ^ 62" using packet_frames_short by blast
  have "k < 2 ^ 62" using assms by (simp add: k_def)
  then have "decode_control (PKT_CONTROL # wire (packet_frames p @ [f])) = Some (apply_frames (packet_frames p @ [f]) packet_new)"
    using short by (intro decode_control_wire) (auto simp: f_def)
  moreover have "apply_frame (fst f) (snd f) q = q" for q by (simp add: f_def apply_frame_def frame_from_u8_def)
  ultimately have "decode_control (pad_control_to ?buf target) = decode_control ?buf"
    using decode_control_wire [OF short] unfolding pad by (simp add: encode_control_frames)
  moreover have "length (pad_control_to ?buf target) = target"
    if t: "length ?buf + 67 \<le> target" "target < length ?buf + 2 ^ 14"
  proof -
    have "64 \<le> k" "k < 2 ^ 14" using t by (auto simp: k_def)
    then have "length (tlv f) = k + 3" using varint_two [of k] by (simp add: tlv_def f_def)
    moreover have "length (pad_control_to ?buf target) = length ?buf + length (tlv f)"
      using t(1) unfolding pad by (simp add: encode_control_frames wire_append) (simp add: wire_def)
    ultimately show ?thesis using t(1) by (simp add: k_def)
  qed
  ultimately show ?thesis by (simp add: pad)
qed

lemma pad_control_correct_witness:
  "decode_control (pad_control_to (encode_control packet_new) 1400) = Some packet_new \<and>
   length (pad_control_to (encode_control packet_new) 1400) = 1400"
proof -
  have e: "encode_control packet_new = [4]" by (simp add: encode_control_def packet_new_def PKT_CONTROL_def)
  then have "decode_control (encode_control packet_new) = Some packet_new"
    by (simp add: decode_control_def is_control_def PKT_CONTROL_def decode_loop.simps)
  with pad_control_correct [of 1400 packet_new] show ?thesis by (simp add: e)
qed

text \<open>
  \<open>is_empty\<close> looks at eleven of the seventeen fields: a packet with only a session announcement
  counts as empty although it has a frame to send.
\<close>

lemma is_empty_ignores_session:
  "packet_is_empty (packet_new\<lparr>session_announce := Some 7\<rparr>) \<and>
   encode_control (packet_new\<lparr>session_announce := Some 7\<rparr>) \<noteq> encode_control packet_new"
  by (simp add: packet_is_empty_def packet_new_def encode_control_def put_frame_append tlv_def)

text \<open>Beyond a two-byte length field, the padded datagram is two bytes longer than asked.\<close>

lemma pad_overshoots: "length (pad_control_to [4] 20000) = 20002"
  by (simp add: pad_control_to_def put_varint_def Let_def to_be_bytes_u32_def)

end
