(* ===== verification/Queue_Spec.thy ===== *)
theory Queue_Spec
  imports SubEtha_Prelude
begin

text \<open>
  The contract the ring buffers of the crate share: a bounded first-in first-out queue whose push is
  refused with an error when the queue is full or the item is not acceptable, and whose pop is refused
  when it is empty or the caller's buffer is too small. An implementation is shown to meet the
  contract by interpreting the locale \<open>bounded_queue\<close>; what a client sees over a whole sequence of
  calls is proved here once.
\<close>

section \<open>The abstract queue\<close>

record ('x, 'o, 'y, 'e) queue_contract =
  q_push_err :: "'x \<Rightarrow> 'e option"
  q_pop_err :: "'o \<Rightarrow> 'e option"
  q_stored :: "'x \<Rightarrow> 'y"
  q_full :: 'e
  q_empty :: 'e

definition queue_push :: "('x, 'o, 'y, 'e) queue_contract \<Rightarrow> nat \<Rightarrow> 'x \<Rightarrow> 'y list \<Rightarrow> ('e + unit) \<times> 'y list" where
  "queue_push C cap x q =
     (case q_push_err C x of
        Some e \<Rightarrow> (Inl e, q)
      | None \<Rightarrow> if length q < cap then (Inr (), q @ [q_stored C x]) else (Inl (q_full C), q))"

definition queue_pop :: "('x, 'o, 'y, 'e) queue_contract \<Rightarrow> 'o \<Rightarrow> 'y list \<Rightarrow> ('e + 'y) \<times> 'y list" where
  "queue_pop C out q =
     (case q_pop_err C out of
        Some e \<Rightarrow> (Inl e, q)
      | None \<Rightarrow> (case q of [] \<Rightarrow> (Inl (q_empty C), q) | y # ys \<Rightarrow> (Inr y, ys)))"

section \<open>A client's sequence of calls\<close>

datatype ('x, 'o) call = Push 'x | Pop 'o
datatype ('y, 'e) answer = Pushed "'e + unit" | Popped "'e + 'y"

fun run_calls :: "('x \<Rightarrow> 's \<Rightarrow> ('e + unit) \<times> 's) \<Rightarrow> ('o \<Rightarrow> 's \<Rightarrow> ('e + 'y) \<times> 's) \<Rightarrow> ('x, 'o) call list \<Rightarrow> 's
    \<Rightarrow> ('y, 'e) answer list \<times> 's" where
  "run_calls push pop [] s = ([], s)"
| "run_calls push pop (Push x # cs) s =
     (let (res, s') = push x s; (rs, s'') = run_calls push pop cs s' in (Pushed res # rs, s''))"
| "run_calls push pop (Pop out # cs) s =
     (let (res, s') = pop out s; (rs, s'') = run_calls push pop cs s' in (Popped res # rs, s''))"

text \<open>The items the client put in and the items it got out, each in order.\<close>

fun accepted :: "('x \<Rightarrow> 'y) \<Rightarrow> ('x, 'o) call list \<Rightarrow> ('y, 'e) answer list \<Rightarrow> 'y list" where
  "accepted stored (Push x # cs) (Pushed (Inr _) # rs) = stored x # accepted stored cs rs"
| "accepted stored (_ # cs) (_ # rs) = accepted stored cs rs"
| "accepted stored _ _ = []"

fun delivered :: "('y, 'e) answer list \<Rightarrow> 'y list" where
  "delivered (Popped (Inr y) # rs) = y # delivered rs"
| "delivered (_ # rs) = delivered rs"
| "delivered [] = []"

lemma run_calls_append:
  "run_calls push pop (cs @ cs') s =
     (let (rs, s') = run_calls push pop cs s; (rs', s'') = run_calls push pop cs' s' in (rs @ rs', s''))"
proof (induction cs arbitrary: s)
  case (Cons c cs)
  then show ?case by (cases c) (auto split: prod.splits)
qed (simp split: prod.splits)

lemma queue_run_fifo:
  "run_calls (queue_push C cap) (queue_pop C) cs q = (rs, q') \<Longrightarrow>
    q @ accepted (q_stored C) cs rs = delivered rs @ q'"
proof (induction cs arbitrary: q rs)
  case (Cons c cs)
  then show ?case
    by (cases c) (auto simp: queue_push_def queue_pop_def split: prod.splits option.splits if_splits list.splits, fastforce+)
qed simp

lemma queue_step_bounded:
  "queue_push C cap x q = (res, q1) \<Longrightarrow> length q \<le> cap \<Longrightarrow> length q1 \<le> cap"
  "queue_pop C out q = (ans, q1) \<Longrightarrow> length q \<le> cap \<Longrightarrow> length q1 \<le> cap"
  by (auto simp: queue_push_def queue_pop_def split: option.splits if_splits list.splits)

lemma queue_run_bounded:
  "run_calls (queue_push C cap) (queue_pop C) cs q = (rs, q') \<Longrightarrow> length q \<le> cap \<Longrightarrow> length q' \<le> cap"
proof (induction cs arbitrary: q rs)
  case (Cons c cs)
  then show ?case
    by (cases c) (auto split: prod.splits dest: queue_step_bounded)
qed simp

section \<open>Implementations\<close>

locale bounded_queue =
  fixes C :: "('x, 'o, 'y, 'e) queue_contract"
    and push :: "'x \<Rightarrow> 's \<Rightarrow> ('e + unit) \<times> 's"
    and pop :: "'o \<Rightarrow> 's \<Rightarrow> ('e + 'y) \<times> 's"
    and items :: "'s \<Rightarrow> 'y list"
    and wf :: "'s \<Rightarrow> bool"
    and cap :: "'s \<Rightarrow> nat"
  assumes push_refines: "wf s \<Longrightarrow> push x s = (res, s') \<Longrightarrow>
      queue_push C (cap s) x (items s) = (res, items s') \<and> wf s' \<and> cap s' = cap s"
    and pop_refines: "wf s \<Longrightarrow> pop out s = (ans, s') \<Longrightarrow>
      queue_pop C out (items s) = (ans, items s') \<and> wf s' \<and> cap s' = cap s"
    and items_bound: "wf s \<Longrightarrow> length (items s) \<le> cap s"
begin

lemma run_refines:
  "wf s \<Longrightarrow> run_calls push pop cs s = (rs, s') \<Longrightarrow>
    run_calls (queue_push C (cap s)) (queue_pop C) cs (items s) = (rs, items s') \<and> wf s' \<and> cap s' = cap s"
proof (induction cs arbitrary: s rs)
  case (Cons c cs)
  show ?case
  proof (cases c)
    case (Push x)
    obtain res t where t: "push x s = (res, t)" by (cases "push x s") auto
    obtain rs' where rs': "run_calls push pop cs t = (rs', s')" "rs = Pushed res # rs'"
      using Cons.prems Push t by (auto split: prod.splits)
    with push_refines [OF Cons.prems(1) t] Cons.IH [of t rs'] Push show ?thesis by auto
  next
    case (Pop out)
    obtain res t where t: "pop out s = (res, t)" by (cases "pop out s") auto
    obtain rs' where rs': "run_calls push pop cs t = (rs', s')" "rs = Popped res # rs'"
      using Cons.prems Pop t by (auto split: prod.splits)
    with pop_refines [OF Cons.prems(1) t] Cons.IH [of t rs'] Pop show ?thesis by auto
  qed
qed simp

lemma run_fifo:
  assumes "wf s" "run_calls push pop cs s = (rs, s')"
  shows "items s @ accepted (q_stored C) cs rs = delivered rs @ items s' \<and> length (items s') \<le> cap s"
proof -
  from run_refines [OF assms]
  have r: "run_calls (queue_push C (cap s)) (queue_pop C) cs (items s) = (rs, items s')" by simp
  from queue_run_fifo [OF r] queue_run_bounded [OF r items_bound [OF assms(1)]] show ?thesis by simp
qed

end

end
