(* ===== verification/Shared_Ring.thy ===== *)
theory Shared_Ring
  imports Queue_Spec
begin

text \<open>
  The bounded multi-producer multi-consumer ring of \<^verbatim>\<open>crates/subetha-cxc/src/shared_ring.rs\<close>, one
  operation at a time: the mapped header and slots, layout initialisation and the checks an opener
  makes, push and pop (the MPMC pair and the single-producer single-consumer fast path), and the scan
  and repair of a slot whose producer died. The counters are 64-bit words and wrap; nothing here
  assumes they do not. The interleaved execution of many threads is in the theory on the ring's
  protocol.

  An operation that runs alone is a function on the ring. \<open>None\<close> stands for a spin that never
  ends; the first argument of a push or pop is the number of times the weak compare-exchange fails
  spuriously before it succeeds. The observation sidecar and the cache hints are left out.
\<close>

section \<open>The ring in memory\<close>

definition RING_MAGIC :: u64 where "RING_MAGIC = 0x41504D4600000001"
definition SLOT_SIZE :: nat where "SLOT_SIZE = 64"
definition PAYLOAD_BYTES :: nat where "PAYLOAD_BYTES = SLOT_SIZE - 8"

record RingHeader =
  ring_magic :: u64
  hdr_capacity :: u64
  hdr_slot_size :: u64
  hdr_epoch :: u64
  producer_seq :: u64
  consumer_seq :: u64

record Slot =
  slot_sequence :: u64
  slot_payload :: bytes

record SharedRing =
  ring_header :: RingHeader
  ring_slots :: "Slot list"
  ring_capacity :: nat

datatype RingError =
    Full | Empty | LayoutMismatch | PayloadTooLarge | NotStamped | NotDrainer | StaleBacklog | IoError nat

text \<open>The header takes three cache lines.\<close>

definition ring_file_size :: "nat \<Rightarrow> nat" where
  "ring_file_size capacity = 192 + capacity * SLOT_SIZE"

definition init_ring_layout_raw :: "nat \<Rightarrow> RingHeader \<times> Slot list" where
  "init_ring_layout_raw capacity =
     (\<lparr>ring_magic = RING_MAGIC, hdr_capacity = of_nat capacity, hdr_slot_size = of_nat SLOT_SIZE,
       hdr_epoch = 0, producer_seq = 0, consumer_seq = 0\<rparr>,
      map (\<lambda>i. \<lparr>slot_sequence = of_nat i, slot_payload = replicate PAYLOAD_BYTES 0\<rparr>) [0..<capacity])"

text \<open>
  The constructors differ in where the memory comes from. \<open>io\<close> is the error of the first failing
  call to the operating system, if one fails; \<open>region_len\<close> is the size of memory the caller
  provides and \<open>aligned\<close> whether it starts on a cache line. \<open>None\<close> is the panic of the capacity
  assertion. The opening calls get the header and slots found in the memory.
\<close>

definition fresh_ring :: "nat \<Rightarrow> SharedRing" where
  "fresh_ring capacity =
     (let (header, slots) = init_ring_layout_raw capacity
      in \<lparr>ring_header = header, ring_slots = slots, ring_capacity = capacity\<rparr>)"

definition create_file :: "nat option \<Rightarrow> nat \<Rightarrow> (RingError + SharedRing) option" where
  "create_file io capacity =
     (if \<not> (is_power_of_two capacity \<and> capacity \<ge> 2) then None
      else case io of Some kind \<Rightarrow> Some (Inl (IoError kind)) | None \<Rightarrow> Some (Inr (fresh_ring capacity)))"

definition create_anon :: "nat option \<Rightarrow> nat \<Rightarrow> (RingError + SharedRing) option" where
  "create_anon io capacity =
     (if \<not> (is_power_of_two capacity \<and> capacity \<ge> 2) then None
      else case io of Some kind \<Rightarrow> Some (Inl (IoError kind)) | None \<Rightarrow> Some (Inr (fresh_ring capacity)))"

definition create_from_shm :: "nat \<Rightarrow> nat \<Rightarrow> (RingError + SharedRing) option" where
  "create_from_shm shm_len capacity =
     (if \<not> (is_power_of_two capacity \<and> capacity \<ge> 2) then None
      else if shm_len < ring_file_size capacity then Some (Inl LayoutMismatch)
      else Some (Inr (fresh_ring capacity)))"

definition create_in_region :: "nat \<Rightarrow> bool \<Rightarrow> nat \<Rightarrow> (RingError + SharedRing) option" where
  "create_in_region region_len aligned capacity =
     (if \<not> (is_power_of_two capacity \<and> capacity \<ge> 2) then None
      else if region_len < ring_file_size capacity then Some (Inl LayoutMismatch)
      else if \<not> aligned then Some (Inl LayoutMismatch)
      else Some (Inr (fresh_ring capacity)))"

definition check_header :: "RingHeader \<Rightarrow> Slot list \<Rightarrow> nat \<Rightarrow> RingError + SharedRing" where
  "check_header header slots expected_capacity =
     (if ring_magic header \<noteq> RING_MAGIC \<or> hdr_capacity header \<noteq> of_nat expected_capacity
          \<or> hdr_slot_size header \<noteq> of_nat SLOT_SIZE
      then Inl LayoutMismatch
      else Inr \<lparr>ring_header = header, ring_slots = slots, ring_capacity = expected_capacity\<rparr>)"

definition open_from_shm :: "nat \<Rightarrow> RingHeader \<Rightarrow> Slot list \<Rightarrow> nat \<Rightarrow> RingError + SharedRing" where
  "open_from_shm shm_len header slots expected_capacity =
     (if shm_len < ring_file_size expected_capacity then Inl LayoutMismatch
      else check_header header slots expected_capacity)"

definition open_in_region :: "nat \<Rightarrow> bool \<Rightarrow> RingHeader \<Rightarrow> Slot list \<Rightarrow> nat \<Rightarrow> RingError + SharedRing" where
  "open_in_region region_len aligned header slots expected_capacity =
     (if region_len < ring_file_size expected_capacity then Inl LayoutMismatch
      else if \<not> aligned then Inl LayoutMismatch
      else check_header header slots expected_capacity)"

text \<open>
  Opening a file: the open and the length query may fail before the length is compared
  (\<open>io_before\<close>), the mapping after it (\<open>io_map\<close>).
\<close>

definition open_file :: "nat option \<Rightarrow> nat option \<Rightarrow> nat \<Rightarrow> RingHeader \<Rightarrow> Slot list \<Rightarrow> nat \<Rightarrow> RingError + SharedRing" where
  "open_file io_before io_map actual_len header slots expected_capacity =
     (case io_before of
        Some kind \<Rightarrow> Inl (IoError kind)
      | None \<Rightarrow>
          if actual_len < ring_file_size expected_capacity then Inl LayoutMismatch
          else (case io_map of
                  Some kind \<Rightarrow> Inl (IoError kind)
                | None \<Rightarrow> check_header header slots expected_capacity))"

section \<open>Operations\<close>

definition slot_idx :: "nat \<Rightarrow> u64 \<Rightarrow> nat" where
  "slot_idx capacity pos = unat (pos AND (of_nat capacity - 1))"

definition slot_at :: "SharedRing \<Rightarrow> u64 \<Rightarrow> Slot" where
  "slot_at r pos = ring_slots r ! slot_idx (ring_capacity r) pos"

definition set_slot :: "u64 \<Rightarrow> Slot \<Rightarrow> SharedRing \<Rightarrow> SharedRing" where
  "set_slot pos s r = r\<lparr>ring_slots := (ring_slots r)[slot_idx (ring_capacity r) pos := s]\<rparr>"

definition set_producer_seq :: "u64 \<Rightarrow> SharedRing \<Rightarrow> SharedRing" where
  "set_producer_seq v r = r\<lparr>ring_header := (ring_header r)\<lparr>producer_seq := v\<rparr>\<rparr>"

definition set_consumer_seq :: "u64 \<Rightarrow> SharedRing \<Rightarrow> SharedRing" where
  "set_consumer_seq v r = r\<lparr>ring_header := (ring_header r)\<lparr>consumer_seq := v\<rparr>\<rparr>"

text \<open>The payload copied to the slot and the rest of the slot zeroed.\<close>

definition write_payload :: "bytes \<Rightarrow> bytes" where
  "write_payload payload =
     payload @ (if length payload < PAYLOAD_BYTES then replicate (PAYLOAD_BYTES - length payload) 0 else [])"

fun push_loop :: "nat \<Rightarrow> bytes \<Rightarrow> SharedRing \<Rightarrow> ((RingError + unit) \<times> SharedRing) option" where
  "push_loop spurious payload r =
     (let pos = producer_seq (ring_header r);
          seq = slot_sequence (slot_at r pos);
          diff = sint (seq - pos)
      in if diff = 0 then
           (case spurious of
              Suc n \<Rightarrow> push_loop n payload r
            | 0 \<Rightarrow>
                let r = set_producer_seq (pos + 1) r;
                    r = set_slot pos ((slot_at r pos)\<lparr>slot_payload := write_payload payload\<rparr>) r;
                    r = set_slot pos ((slot_at r pos)\<lparr>slot_sequence := pos + 1\<rparr>) r
                in Some (Inr (), r))
         else if diff < 0 then Some (Inl Full, r)
         else None)"

declare push_loop.simps [simp del]

definition try_push :: "nat \<Rightarrow> bytes \<Rightarrow> SharedRing \<Rightarrow> ((RingError + unit) \<times> SharedRing) option" where
  "try_push spurious payload r =
     (if length payload > PAYLOAD_BYTES then Some (Inl PayloadTooLarge, r) else push_loop spurious payload r)"

definition try_push_spsc :: "bytes \<Rightarrow> SharedRing \<Rightarrow> (RingError + unit) \<times> SharedRing" where
  "try_push_spsc payload r =
     (if length payload > PAYLOAD_BYTES then (Inl PayloadTooLarge, r)
      else let pos = producer_seq (ring_header r);
               seq = slot_sequence (slot_at r pos)
           in if seq \<noteq> pos then (Inl Full, r)
              else let r = set_slot pos ((slot_at r pos)\<lparr>slot_payload := write_payload payload\<rparr>) r;
                       r = set_producer_seq (pos + 1) r;
                       r = set_slot pos ((slot_at r pos)\<lparr>slot_sequence := pos + 1\<rparr>) r
                   in (Inr (), r))"

text \<open>A pop is given the length of the caller's buffer; the bytes it copies out are its result.\<close>

definition try_pop_spsc :: "nat \<Rightarrow> SharedRing \<Rightarrow> (RingError + bytes) \<times> SharedRing" where
  "try_pop_spsc out_len r =
     (if out_len < PAYLOAD_BYTES then (Inl PayloadTooLarge, r)
      else let pos = consumer_seq (ring_header r);
               seq = slot_sequence (slot_at r pos)
           in if seq \<noteq> pos + 1 then (Inl Empty, r)
              else let out = slot_payload (slot_at r pos);
                       r = set_consumer_seq (pos + 1) r;
                       r = set_slot pos ((slot_at r pos)\<lparr>slot_sequence := pos + of_nat (ring_capacity r)\<rparr>) r
                   in (Inr out, r))"

fun pop_loop :: "nat \<Rightarrow> SharedRing \<Rightarrow> ((RingError + bytes) \<times> SharedRing) option" where
  "pop_loop spurious r =
     (let pos = consumer_seq (ring_header r);
          seq = slot_sequence (slot_at r pos);
          diff = sint (seq - (pos + 1))
      in if diff = 0 then
           (case spurious of
              Suc n \<Rightarrow> pop_loop n r
            | 0 \<Rightarrow>
                let r = set_consumer_seq (pos + 1) r;
                    out = slot_payload (slot_at r pos);
                    r = set_slot pos ((slot_at r pos)\<lparr>slot_sequence := pos + of_nat (ring_capacity r)\<rparr>) r
                in Some (Inr out, r))
         else if diff < 0 then Some (Inl Empty, r)
         else None)"

declare pop_loop.simps [simp del]

definition try_pop :: "nat \<Rightarrow> nat \<Rightarrow> SharedRing \<Rightarrow> ((RingError + bytes) \<times> SharedRing) option" where
  "try_pop spurious out_len r =
     (if out_len < PAYLOAD_BYTES then Some (Inl PayloadTooLarge, r) else pop_loop spurious r)"

definition approx_len :: "SharedRing \<Rightarrow> nat" where
  "approx_len r =
     (let p = producer_seq (ring_header r); c = consumer_seq (ring_header r)
      in if p < c then 0 else unat (p - c))"

function stuck_scan :: "SharedRing \<Rightarrow> u64 \<Rightarrow> u64 \<Rightarrow> u64 option" where
  "stuck_scan r pos stop =
     (if pos < stop then
        (if slot_sequence (slot_at r pos) = pos then Some pos else stuck_scan r (pos + 1) stop)
      else None)"
  by pat_completeness auto
termination
  by (relation "measure (\<lambda>(_, pos, stop). unat stop - unat pos)")
    (auto simp: unat_Suc_less word_less_nat_alt)

declare stuck_scan.simps [simp del]

definition next_stuck_slot :: "u64 \<Rightarrow> SharedRing \<Rightarrow> u64 option" where
  "next_stuck_slot from r =
     stuck_scan r (max from (consumer_seq (ring_header r))) (producer_seq (ring_header r))"

definition heal_stuck_slot :: "u64 \<Rightarrow> SharedRing \<Rightarrow> (RingError + bool) \<times> SharedRing" where
  "heal_stuck_slot pos r =
     (if pos < consumer_seq (ring_header r) \<or> pos \<ge> producer_seq (ring_header r) then (Inr False, r)
      else if slot_sequence (slot_at r pos) = pos
        then (Inr True, set_slot pos ((slot_at r pos)\<lparr>slot_sequence := pos + 1\<rparr>) r)
      else (Inr False, r))"

section \<open>Slot indices wrap around\<close>

lemma slot_idx_mod:
  assumes "cap = 2 ^ m" "m < 64"
  shows "slot_idx cap pos = unat pos mod cap"
proof -
  have "pos AND (of_nat cap - 1) = take_bit m pos"
    by (simp add: assms take_bit_eq_mask mask_eq_exp_minus_1)
  then show ?thesis unfolding slot_idx_def by (simp only: unsigned_take_bit_eq take_bit_nat_def assms(1))
qed

lemma slot_idx_add:
  assumes "cap = 2 ^ m" "m < 64"
  shows "slot_idx cap (c + of_nat k) = (slot_idx cap c + k) mod cap"
proof -
  have dvd: "cap dvd 2 ^ 64" unfolding assms(1) by (rule le_imp_power_dvd) (use assms in simp)
  have "unat (c + of_nat k) = (unat c + k mod 2 ^ 64) mod 2 ^ 64"
    by (simp add: unat_word_ariths unsigned_of_nat take_bit_eq_mod)
  also have "\<dots> = (unat c + k) mod 2 ^ 64" by (simp only: mod_add_right_eq)
  finally have "unat (c + of_nat k) mod cap = (unat c + k) mod cap" using dvd by (simp add: mod_mod_cancel)
  then show ?thesis by (simp add: slot_idx_mod [OF assms] mod_simps)
qed

lemma slot_idx_less: "cap = 2 ^ m \<Longrightarrow> m < 64 \<Longrightarrow> slot_idx cap pos < cap"
  by (simp add: slot_idx_mod)

lemma slot_idx_inj:
  assumes "cap = 2 ^ m" "m < 64" "j < cap" "k < cap"
  shows "slot_idx cap (c + of_nat j) = slot_idx cap (c + of_nat k) \<longleftrightarrow> j = k"
proof
  assume "slot_idx cap (c + of_nat j) = slot_idx cap (c + of_nat k)"
  then have "(slot_idx cap c + j) mod cap = (slot_idx cap c + k) mod cap" by (simp add: slot_idx_add [OF assms(1,2)])
  then have "j mod cap = k mod cap" by (simp only: mod_add_left_inj)
  with assms show "j = k" by simp
qed simp

section \<open>The ring as a bounded queue\<close>

definition ring_len :: "SharedRing \<Rightarrow> nat" where
  "ring_len r = unat (producer_seq (ring_header r) - consumer_seq (ring_header r))"

text \<open>The slot \<open>k\<close> places after the consumer's.\<close>

definition nth_slot :: "SharedRing \<Rightarrow> nat \<Rightarrow> Slot" where
  "nth_slot r k = slot_at r (consumer_seq (ring_header r) + of_nat k)"

definition ring_items :: "SharedRing \<Rightarrow> bytes list" where
  "ring_items r = map (\<lambda>k. slot_payload (nth_slot r k)) [0..<ring_len r]"

text \<open>
  The ring at rest: the slots from the consumer's position on are published up to the producer's and
  free beyond it, for one lap.
\<close>

definition ring_wf :: "SharedRing \<Rightarrow> bool" where
  "ring_wf r \<longleftrightarrow>
     (\<exists>m. 1 \<le> m \<and> m < 64 \<and> ring_capacity r = 2 ^ m) \<and> length (ring_slots r) = ring_capacity r \<and>
     ring_len r \<le> ring_capacity r \<and>
     (\<forall>k<ring_capacity r.
        slot_sequence (nth_slot r k) =
          consumer_seq (ring_header r) + of_nat k + (if k < ring_len r then 1 else 0) \<and>
        length (slot_payload (nth_slot r k)) = PAYLOAD_BYTES)"

lemma capacity_bounds:
  assumes "ring_wf r"
  shows "2 \<le> ring_capacity r" "ring_capacity r \<le> 2 ^ 63"
proof -
  from assms obtain m where m: "1 \<le> m" "m < 64" "ring_capacity r = 2 ^ m" by (auto simp: ring_wf_def)
  then show "2 \<le> ring_capacity r" using power_increasing [of 1 m "2 :: nat"] by simp
  show "ring_capacity r \<le> 2 ^ 63" using m power_increasing [of m 63 "2 :: nat"] by simp
qed

lemma producer_pos:
  "producer_seq (ring_header r) = consumer_seq (ring_header r) + of_nat (ring_len r)"
  by (simp add: ring_len_def)

lemma slot_idx_wrap: "ring_wf r \<Longrightarrow> slot_idx (ring_capacity r) (c + of_nat (ring_capacity r)) = slot_idx (ring_capacity r) c"
proof -
  assume "ring_wf r"
  then obtain m where m: "ring_capacity r = 2 ^ m" "m < 64" by (auto simp: ring_wf_def)
  from slot_idx_add [OF m, of c "ring_capacity r"] slot_idx_less [OF m, of c] show ?thesis by simp
qed

lemma idx_in_range: "ring_wf r \<Longrightarrow> slot_idx (ring_capacity r) pos < length (ring_slots r)"
  by (auto simp: ring_wf_def slot_idx_mod)

text \<open>Reading the slots after one of them was written; the counters move separately.\<close>

lemma slot_at_set_slot:
  assumes "ring_wf r" "j < ring_capacity r" "k < ring_capacity r" "ring_slots r' = ring_slots r" "ring_capacity r' = ring_capacity r"
  shows "slot_at (set_slot (c + of_nat j) s r') (c + of_nat k) = (if j = k then s else slot_at r (c + of_nat k))"
  using assms idx_in_range [OF assms(1)] slot_idx_inj [of "ring_capacity r"]
  by (auto simp: ring_wf_def slot_at_def set_slot_def)

lemma set_seq_simps [simp]:
  "ring_slots (set_producer_seq v r) = ring_slots r" "ring_capacity (set_producer_seq v r) = ring_capacity r"
  "ring_slots (set_consumer_seq v r) = ring_slots r" "ring_capacity (set_consumer_seq v r) = ring_capacity r"
  "ring_capacity (set_slot pos s r) = ring_capacity r" "ring_header (set_slot pos s r) = ring_header r"
  "producer_seq (ring_header (set_producer_seq v r)) = v"
  "consumer_seq (ring_header (set_producer_seq v r)) = consumer_seq (ring_header r)"
  "consumer_seq (ring_header (set_consumer_seq v r)) = v"
  "producer_seq (ring_header (set_consumer_seq v r)) = producer_seq (ring_header r)"
  "slot_at (set_producer_seq v r) pos = slot_at r pos" "slot_at (set_consumer_seq v r) pos = slot_at r pos"
  "length (ring_slots (set_slot pos s r)) = length (ring_slots r)"
  by (simp_all add: set_producer_seq_def set_consumer_seq_def set_slot_def slot_at_def)

lemma set_slot_twice [simp]: "set_slot pos s (set_slot pos s' r) = set_slot pos s r"
  "set_slot pos s (set_producer_seq v (set_slot pos s' r)) = set_slot pos s (set_producer_seq v r)"
  by (simp_all add: set_slot_def set_producer_seq_def)

lemma slot_at_set_slot_same [simp]: "ring_wf r \<Longrightarrow> slot_at (set_slot pos s r) pos = s"
  "ring_wf r \<Longrightarrow> slot_at (set_slot pos s (set_producer_seq v r)) pos = s"
  "ring_wf r \<Longrightarrow> slot_at (set_producer_seq v (set_slot pos s r)) pos = s"
  using idx_in_range [of r pos] by (simp_all add: slot_at_def set_slot_def set_producer_seq_def)

lemma slot_fields [simp]: "(s :: Slot)\<lparr>slot_payload := b, slot_sequence := v\<rparr> = \<lparr>slot_sequence = v, slot_payload = b\<rparr>"
  by (cases s) simp

text \<open>What a push or a pop leaves behind.\<close>

definition pushed_ring :: "bytes \<Rightarrow> SharedRing \<Rightarrow> SharedRing" where
  "pushed_ring b r =
     (let pos = producer_seq (ring_header r)
      in set_slot pos \<lparr>slot_sequence = pos + 1, slot_payload = b\<rparr> (set_producer_seq (pos + 1) r))"

definition popped_ring :: "SharedRing \<Rightarrow> SharedRing" where
  "popped_ring r =
     (let pos = consumer_seq (ring_header r)
      in set_slot pos ((slot_at r pos)\<lparr>slot_sequence := pos + of_nat (ring_capacity r)\<rparr>) (set_consumer_seq (pos + 1) r))"

lemma length_write_payload: "length b \<le> PAYLOAD_BYTES \<Longrightarrow> length (write_payload b) = PAYLOAD_BYTES"
  by (simp add: write_payload_def)

lemma ring_len_pushed:
  assumes "ring_wf r" "ring_len r < ring_capacity r"
  shows "ring_len (pushed_ring b r) = ring_len r + 1"
proof -
  have "ring_len r + 1 < 2 ^ 64" using assms capacity_bounds [OF assms(1)] by simp
  moreover have "producer_seq (ring_header r) + 1 - consumer_seq (ring_header r) = of_nat (ring_len r + 1)"
    unfolding producer_pos by simp
  ultimately show ?thesis
    unfolding ring_len_def [of "pushed_ring b r"]
    by (simp only: pushed_ring_def Let_def set_seq_simps) (rule unat_of_nat_small, simp)
qed

lemma pushed_ring_slots:
  assumes "ring_wf r" "ring_len r < ring_capacity r" "k < ring_capacity r"
  shows "nth_slot (pushed_ring b r) k =
    (if k = ring_len r then \<lparr>slot_sequence = producer_seq (ring_header r) + 1, slot_payload = b\<rparr> else nth_slot r k)"
  using slot_at_set_slot [OF assms(1,2,3), of "set_producer_seq (producer_seq (ring_header r) + 1) r"
      "consumer_seq (ring_header r)"]
  by (auto simp: nth_slot_def pushed_ring_def Let_def producer_pos)

lemma pushed_ring_refines:
  assumes wf: "ring_wf r" and room: "ring_len r < ring_capacity r" and b: "length b = PAYLOAD_BYTES"
  shows "ring_wf (pushed_ring b r)" "ring_items (pushed_ring b r) = ring_items r @ [b]"
proof -
  note len = ring_len_pushed [OF wf room]
  have cap: "ring_capacity (pushed_ring b r) = ring_capacity r" "length (ring_slots (pushed_ring b r)) = length (ring_slots r)"
    "consumer_seq (ring_header (pushed_ring b r)) = consumer_seq (ring_header r)"
    by (simp_all add: pushed_ring_def Let_def)
  show "ring_wf (pushed_ring b r)"
    using wf room b pushed_ring_slots [OF wf room] unfolding ring_wf_def cap len
    by (auto simp: producer_pos less_Suc_eq)
  have "map (\<lambda>k. slot_payload (nth_slot (pushed_ring b r) k)) [0..<ring_len r] = ring_items r"
    using pushed_ring_slots [OF wf room] room by (auto simp: ring_items_def)
  with pushed_ring_slots [OF wf room room] show "ring_items (pushed_ring b r) = ring_items r @ [b]"
    by (simp add: ring_items_def len)
qed

lemma ring_len_popped:
  assumes "ring_wf r" "0 < ring_len r"
  shows "ring_len (popped_ring r) = ring_len r - 1"
proof -
  have "ring_len r - 1 < 2 ^ 64" using assms capacity_bounds [OF assms(1)] by (auto simp: ring_wf_def)
  moreover have "producer_seq (ring_header r) - (consumer_seq (ring_header r) + 1) = of_nat (ring_len r - 1)"
    unfolding producer_pos using assms(2) by (simp add: of_nat_diff)
  ultimately show ?thesis
    unfolding ring_len_def [of "popped_ring r"] by (simp add: popped_ring_def Let_def unat_of_nat_small del: of_nat_diff)
qed

lemma popped_ring_slots:
  assumes "ring_wf r" "0 < ring_len r" "k < ring_capacity r"
  shows "nth_slot (popped_ring r) k =
    (if k + 1 = ring_capacity r
     then (nth_slot r 0)\<lparr>slot_sequence := consumer_seq (ring_header r) + of_nat (ring_capacity r)\<rparr> else nth_slot r (k + 1))"
proof -
  let ?c = "consumer_seq (ring_header r)" and ?s = "(slot_at r (consumer_seq (ring_header r)))\<lparr>slot_sequence :=
      consumer_seq (ring_header r) + of_nat (ring_capacity r)\<rparr>"
  have at: "nth_slot (popped_ring r) k = slot_at (set_slot (?c + of_nat 0) ?s (set_consumer_seq (?c + 1) r)) (?c + of_nat (k + 1))"
    by (simp add: nth_slot_def popped_ring_def Let_def ac_simps)
  show ?thesis
  proof (cases "k + 1 = ring_capacity r")
    case True
    with slot_idx_wrap [OF assms(1), of ?c] show ?thesis
      unfolding at True using idx_in_range [OF assms(1), of ?c]
      by (simp add: slot_at_def set_slot_def nth_slot_def set_consumer_seq_def)
  next
    case False
    then have "k + 1 < ring_capacity r" using assms(3) by simp
    moreover have "0 < ring_capacity r" using assms(3) by simp
    ultimately have "slot_at (set_slot (?c + of_nat 0) ?s (set_consumer_seq (?c + 1) r)) (?c + of_nat (k + 1)) =
        slot_at r (?c + of_nat (k + 1))"
      using slot_at_set_slot [OF assms(1), of 0 "k + 1" "set_consumer_seq (?c + 1) r" ?c ?s] by simp
    with False show ?thesis unfolding at by (simp add: nth_slot_def ac_simps)
  qed
qed

lemma popped_ring_refines:
  assumes wf: "ring_wf r" and some: "0 < ring_len r"
  shows "ring_wf (popped_ring r)" "ring_items (popped_ring r) = tl (ring_items r)"
    "hd (ring_items r) = slot_payload (nth_slot r 0)"
proof -
  note len = ring_len_popped [OF wf some] and slots = popped_ring_slots [OF wf some]
  have cap: "ring_capacity (popped_ring r) = ring_capacity r" "length (ring_slots (popped_ring r)) = length (ring_slots r)"
    "consumer_seq (ring_header (popped_ring r)) = consumer_seq (ring_header r) + 1"
    by (simp_all add: popped_ring_def Let_def)
  have le: "ring_len r \<le> ring_capacity r" using wf by (simp add: ring_wf_def)
  show "ring_wf (popped_ring r)"
    unfolding ring_wf_def cap len
  proof (intro conjI allI impI)
    fix k assume k: "k < ring_capacity r"
    show "length (slot_payload (nth_slot (popped_ring r) k)) = PAYLOAD_BYTES"
      using wf k slots [OF k] by (auto simp: ring_wf_def)
    show "slot_sequence (nth_slot (popped_ring r) k) =
        consumer_seq (ring_header r) + 1 + of_nat k + (if k < ring_len r - 1 then 1 else 0)"
    proof (cases "k + 1 = ring_capacity r")
      case True
      then have "(of_nat (ring_capacity r) :: u64) = of_nat k + 1" by (metis of_nat_1 of_nat_add)
      with True le show ?thesis using slots [OF k] by auto
    next
      case False
      then have "k + 1 < ring_capacity r" using k by simp
      then show ?thesis using wf slots [OF k] False by (auto simp: ring_wf_def ac_simps)
    qed
  qed (use wf in \<open>auto simp: ring_wf_def\<close>)
  obtain n where n: "ring_len r = Suc n" using some gr0_conv_Suc by blast
  have "ring_items r = slot_payload (nth_slot r 0) # map (\<lambda>k. slot_payload (nth_slot r (k + 1))) [0..<n]"
    by (simp add: ring_items_def n upt_conv_Cons map_Suc_upt [symmetric] comp_def del: upt_Suc)
  moreover have "ring_items (popped_ring r) = map (\<lambda>k. slot_payload (nth_slot r (k + 1))) [0..<n]"
    using slots le by (auto simp: ring_items_def len n)
  ultimately show "ring_items (popped_ring r) = tl (ring_items r)" "hd (ring_items r) = slot_payload (nth_slot r 0)" by auto
qed

section \<open>The operations on a well-formed ring\<close>

lemma producer_slot:
  assumes "ring_wf r"
  shows "slot_sequence (slot_at r (producer_seq (ring_header r))) =
    (if ring_len r < ring_capacity r then producer_seq (ring_header r)
     else producer_seq (ring_header r) + 1 - of_nat (ring_capacity r))"
proof (cases "ring_len r < ring_capacity r")
  case True
  then show ?thesis using assms by (auto simp: ring_wf_def nth_slot_def producer_pos)
next
  case False
  then have full: "ring_len r = ring_capacity r" "0 < ring_capacity r"
    using assms capacity_bounds [OF assms] by (auto simp: ring_wf_def)
  have "slot_at r (producer_seq (ring_header r)) = nth_slot r 0"
    using slot_idx_wrap [OF assms] by (simp add: slot_at_def nth_slot_def producer_pos full)
  with assms full show ?thesis by (auto simp: ring_wf_def producer_pos)
qed

lemma consumer_slot:
  assumes "ring_wf r"
  shows "slot_sequence (slot_at r (consumer_seq (ring_header r))) =
    consumer_seq (ring_header r) + (if 0 < ring_len r then 1 else 0)"
proof -
  have "slot_sequence (nth_slot r 0) = consumer_seq (ring_header r) + of_nat 0 + (if 0 < ring_len r then 1 else 0)"
    using assms capacity_bounds [OF assms] unfolding ring_wf_def by (elim conjE allE [of _ 0] impE) auto
  then show ?thesis by (simp add: nth_slot_def)
qed

lemma sint_full:
  assumes "ring_wf r"
  shows "sint (1 - of_nat (ring_capacity r) :: u64) = 1 - int (ring_capacity r)"
proof -
  have "sint (of_int (1 - int (ring_capacity r)) :: u64) = 1 - int (ring_capacity r)"
    by (rule sint_small) (use capacity_bounds [OF assms] in auto)
  then show ?thesis by simp
qed

lemma push_loop_ok:
  assumes "ring_wf r" "ring_len r < ring_capacity r"
  shows "push_loop n x r = Some (Inr (), pushed_ring (write_payload x) r)"
proof (induction n)
  case 0
  then show ?case
    using assms producer_slot [OF assms(1)] by (subst push_loop.simps) (simp add: Let_def pushed_ring_def)
next
  case (Suc n)
  then show ?case using assms producer_slot [OF assms(1)] by (subst push_loop.simps) (simp add: Let_def)
qed

lemma push_loop_full:
  assumes "ring_wf r" "\<not> ring_len r < ring_capacity r"
  shows "push_loop n x r = Some (Inl Full, r)"
  using assms producer_slot [OF assms(1)] sint_full [OF assms(1)] capacity_bounds [OF assms(1)]
  by (subst push_loop.simps) (simp add: Let_def)

lemma pop_loop_ok:
  assumes "ring_wf r" "0 < ring_len r"
  shows "pop_loop n r = Some (Inr (hd (ring_items r)), popped_ring r)"
proof (induction n)
  case 0
  then show ?case
    using assms consumer_slot [OF assms(1)] popped_ring_refines(3) [OF assms]
    by (subst pop_loop.simps) (simp add: Let_def popped_ring_def nth_slot_def)
next
  case (Suc n)
  then show ?case using assms consumer_slot [OF assms(1)] by (subst pop_loop.simps) (simp add: Let_def)
qed

lemma pop_loop_empty:
  assumes "ring_wf r" "ring_len r = 0"
  shows "pop_loop n r = Some (Inl Empty, r)"
  using assms consumer_slot [OF assms(1)] by (subst pop_loop.simps) (simp add: Let_def)

lemma push_spsc_same:
  assumes "ring_wf r" "length x \<le> PAYLOAD_BYTES"
  shows "push_loop n x r = Some (try_push_spsc x r)"
proof (cases "ring_len r < ring_capacity r")
  case True
  then show ?thesis
    using assms producer_slot [OF assms(1)]
    by (simp add: push_loop_ok try_push_spsc_def Let_def pushed_ring_def)
next
  case False
  then have "(1 :: u64) \<noteq> of_nat (ring_capacity r)"
    using sint_full [OF assms(1)] capacity_bounds [OF assms(1)] by auto
  with False show ?thesis
    using assms producer_slot [OF assms(1)] by (simp add: push_loop_full try_push_spsc_def Let_def)
qed

lemma pop_spsc_same:
  assumes "ring_wf r" "PAYLOAD_BYTES \<le> out_len"
  shows "pop_loop n r = Some (try_pop_spsc out_len r)"
  using assms consumer_slot [OF assms(1)] popped_ring_refines(3) [OF assms(1)]
  by (cases "0 < ring_len r")
    (auto simp: pop_loop_ok pop_loop_empty try_pop_spsc_def Let_def popped_ring_def nth_slot_def)

section \<open>The ring is a bounded queue\<close>

text \<open>
  The calls of the contract: a push carries the number of spurious compare-exchange failures and the
  payload, a pop the number of failures and the length of the caller's buffer.
\<close>

definition ring_contract :: "(nat \<times> bytes, nat \<times> nat, bytes, RingError) queue_contract" where
  "ring_contract =
     \<lparr>q_push_err = (\<lambda>(_, x). if length x > PAYLOAD_BYTES then Some PayloadTooLarge else None),
      q_pop_err = (\<lambda>(_, out_len). if out_len < PAYLOAD_BYTES then Some PayloadTooLarge else None),
      q_stored = (\<lambda>(_, x). write_payload x), q_full = Full, q_empty = Empty\<rparr>"

definition mpmc_push :: "nat \<times> bytes \<Rightarrow> SharedRing \<Rightarrow> (RingError + unit) \<times> SharedRing" where
  "mpmc_push x r = the (try_push (fst x) (snd x) r)"

definition mpmc_pop :: "nat \<times> nat \<Rightarrow> SharedRing \<Rightarrow> (RingError + bytes) \<times> SharedRing" where
  "mpmc_pop out r = the (try_pop (fst out) (snd out) r)"

definition spsc_push :: "nat \<times> bytes \<Rightarrow> SharedRing \<Rightarrow> (RingError + unit) \<times> SharedRing" where
  "spsc_push x r = try_push_spsc (snd x) r"

definition spsc_pop :: "nat \<times> nat \<Rightarrow> SharedRing \<Rightarrow> (RingError + bytes) \<times> SharedRing" where
  "spsc_pop out r = try_pop_spsc (snd out) r"

lemma length_ring_items [simp]: "length (ring_items r) = ring_len r"
  by (simp add: ring_items_def)

lemma ring_capacity_after [simp]:
  "ring_capacity (pushed_ring b r) = ring_capacity r" "ring_capacity (popped_ring r) = ring_capacity r"
  by (simp_all add: pushed_ring_def popped_ring_def Let_def)

lemma mpmc_push_refines:
  assumes "ring_wf r" "mpmc_push x r = (res, r')"
  shows "queue_push ring_contract (ring_capacity r) x (ring_items r) = (res, ring_items r') \<and>
    ring_wf r' \<and> ring_capacity r' = ring_capacity r"
  using assms pushed_ring_refines [OF assms(1) _ length_write_payload, of "snd x"]
  by (cases "ring_len r < ring_capacity r")
    (auto simp: mpmc_push_def try_push_def queue_push_def ring_contract_def push_loop_ok push_loop_full
      split: prod.splits if_splits)

lemma mpmc_pop_refines:
  assumes "ring_wf r" "mpmc_pop out r = (ans, r')"
  shows "queue_pop ring_contract out (ring_items r) = (ans, ring_items r') \<and>
    ring_wf r' \<and> ring_capacity r' = ring_capacity r"
proof (cases "ring_len r = 0")
  case True
  then have "ring_items r = []" by (metis length_0_conv length_ring_items)
  with assms True show ?thesis
    by (auto simp: mpmc_pop_def try_pop_def queue_pop_def ring_contract_def pop_loop_empty split: prod.splits if_splits)
next
  case False
  then obtain y ys where "ring_items r = y # ys" by (metis length_0_conv length_ring_items neq_Nil_conv)
  with assms False popped_ring_refines [OF assms(1)] show ?thesis
    by (auto simp: mpmc_pop_def try_pop_def queue_pop_def ring_contract_def pop_loop_ok split: prod.splits if_splits)
qed

lemma spsc_push_mpmc: "ring_wf r \<Longrightarrow> spsc_push x r = mpmc_push x r"
  using push_spsc_same [of r "snd x" "fst x"]
  by (auto simp: spsc_push_def mpmc_push_def try_push_def try_push_spsc_def)

lemma spsc_pop_mpmc: "ring_wf r \<Longrightarrow> spsc_pop out r = mpmc_pop out r"
  using pop_spsc_same [of r "snd out" "fst out"]
  by (auto simp: spsc_pop_def mpmc_pop_def try_pop_def try_pop_spsc_def)

lemma ring_items_bound: "ring_wf r \<Longrightarrow> length (ring_items r) \<le> ring_capacity r"
  by (simp add: ring_wf_def)

interpretation mpmc: bounded_queue ring_contract mpmc_push mpmc_pop ring_items ring_wf ring_capacity
  by unfold_locales (fact mpmc_push_refines mpmc_pop_refines ring_items_bound)+

interpretation spsc: bounded_queue ring_contract spsc_push spsc_pop ring_items ring_wf ring_capacity
proof unfold_locales
  show "queue_push ring_contract (ring_capacity r) x (ring_items r) = (res, ring_items r') \<and>
      ring_wf r' \<and> ring_capacity r' = ring_capacity r" if "ring_wf r" "spsc_push x r = (res, r')" for r x res r'
    using that spsc_push_mpmc mpmc_push_refines by metis
  show "queue_pop ring_contract out (ring_items r) = (ans, ring_items r') \<and>
      ring_wf r' \<and> ring_capacity r' = ring_capacity r" if "ring_wf r" "spsc_pop out r = (ans, r')" for r out ans r'
    using that spsc_pop_mpmc mpmc_pop_refines by metis
qed (rule ring_items_bound)

lemma created_ring_wf:
  assumes "Some (Inr r) \<in> {create_in_region region_len aligned capacity, create_from_shm region_len capacity,
      create_anon io capacity, create_file io capacity}"
  shows "ring_wf r" "ring_items r = []" "ring_capacity r = capacity"
proof -
  from assms have pow: "is_power_of_two capacity" "2 \<le> capacity"
    and r: "r = \<lparr>ring_header = fst (init_ring_layout_raw capacity), ring_slots = snd (init_ring_layout_raw capacity),
      ring_capacity = capacity\<rparr>"
    by (auto simp: create_in_region_def create_from_shm_def create_anon_def create_file_def fresh_ring_def
        split: if_splits prod.splits option.splits)
  then show cap: "ring_capacity r = capacity" by simp
  from pow obtain m where m: "capacity = 2 ^ m" "m < 64" by (auto simp: is_power_of_two_def)
  with pow have m1: "1 \<le> m" by (cases m) auto
  have len: "ring_len r = 0" by (simp add: ring_len_def r init_ring_layout_raw_def)
  have slot: "nth_slot r k = \<lparr>slot_sequence = of_nat k, slot_payload = replicate PAYLOAD_BYTES 0\<rparr>" if "k < capacity" for k
  proof -
    have "slot_idx capacity (0 + of_nat k) = k"
      using slot_idx_add [OF m, of 0 k] slot_idx_mod [OF m, of 0] that by simp
    with that show ?thesis
      unfolding nth_slot_def slot_at_def cap by (simp add: r init_ring_layout_raw_def)
  qed
  show "ring_items r = []" by (simp add: ring_items_def len)
  have "consumer_seq (ring_header r) = 0" "length (ring_slots r) = capacity"
    by (simp_all add: r init_ring_layout_raw_def)
  then show "ring_wf r" unfolding ring_wf_def len cap using m m1 slot by auto
qed

section \<open>A producer that died\<close>

text \<open>
  A producer that crashed after its compare-exchange: the position is claimed, the slot holds whatever
  bytes it got to write, and the sequence number is still the claimed position.
\<close>

definition crashed_push :: "bytes \<Rightarrow> SharedRing \<Rightarrow> SharedRing" where
  "crashed_push partial r =
     (let pos = producer_seq (ring_header r)
      in set_slot pos ((slot_at r pos)\<lparr>slot_payload := partial\<rparr>) (set_producer_seq (pos + 1) r))"

lemma heal_crashed:
  assumes "ring_wf r" "ring_len r < ring_capacity r"
    and nowrap: "unat (consumer_seq (ring_header r)) + ring_len r < 2 ^ 64 - 1"
  shows "heal_stuck_slot (producer_seq (ring_header r)) (crashed_push partial r) = (Inr True, pushed_ring partial r)"
    and "slot_sequence (slot_at (crashed_push partial r) (producer_seq (ring_header r))) = producer_seq (ring_header r)"
proof -
  let ?p = "producer_seq (ring_header r)"
  have p: "unat ?p = unat (consumer_seq (ring_header r)) + ring_len r"
    using nowrap by (simp add: producer_pos unat_word_ariths unsigned_of_nat take_bit_eq_mod)
  then have "\<not> ?p < consumer_seq (ring_header r)" "?p < ?p + 1"
    using nowrap by (simp_all add: word_less_nat_alt unat_word_ariths)
  moreover show seq: "slot_sequence (slot_at (crashed_push partial r) ?p) = ?p"
    using assms(1,2) producer_slot [OF assms(1)] by (simp add: crashed_push_def Let_def)
  ultimately show "heal_stuck_slot ?p (crashed_push partial r) = (Inr True, pushed_ring partial r)"
    using assms(1) by (simp add: heal_stuck_slot_def crashed_push_def pushed_ring_def Let_def)
qed

lemma stuck_scan_first:
  "pos \<le> p \<Longrightarrow> p < stop \<Longrightarrow> slot_sequence (slot_at r p) = p \<Longrightarrow>
    \<forall>j. pos \<le> j \<and> j < p \<longrightarrow> slot_sequence (slot_at r j) \<noteq> j \<Longrightarrow> stuck_scan r pos stop = Some p"
proof (induction r pos stop rule: stuck_scan.induct)
  case (1 r pos stop)
  show ?case
  proof (cases "pos = p")
    case True
    then show ?thesis using 1 by (subst stuck_scan.simps) simp
  next
    case False
    then have lt: "pos < p" using 1 by simp
    then have "pos + 1 \<le> p" by (simp add: inc_le)
    moreover have "\<forall>j. pos + 1 \<le> j \<and> j < p \<longrightarrow> slot_sequence (slot_at r j) \<noteq> j"
      using 1(5) unat_Suc_less [OF lt] by (auto simp: word_le_nat_alt)
    ultimately show ?thesis using 1 lt by (subst stuck_scan.simps) simp
  qed
qed

lemma crashed_scan:
  assumes wf: "ring_wf r" and room: "ring_len r < ring_capacity r"
    and nowrap: "unat (consumer_seq (ring_header r)) + ring_len r < 2 ^ 64 - 1"
    and start: "from \<le> producer_seq (ring_header r)"
  shows "next_stuck_slot from (crashed_push partial r) = Some (producer_seq (ring_header r))"
proof -
  let ?p = "producer_seq (ring_header r)" and ?c = "consumer_seq (ring_header r)"
  let ?r = "crashed_push partial r"
  have p: "unat ?p = unat ?c + ring_len r"
    using nowrap by (simp add: producer_pos unat_word_ariths unsigned_of_nat take_bit_eq_mod)
  then have cp: "?c \<le> ?p" "?p < ?p + 1"
    using nowrap by (simp_all add: word_less_nat_alt word_le_nat_alt unat_word_ariths)
  have "slot_sequence (slot_at ?r j) \<noteq> j" if j: "?c \<le> j" "j < ?p" for j
  proof -
    define k where "k = unat j - unat ?c"
    have k: "k < ring_len r" "j = ?c + of_nat k"
      using j p by (auto simp: k_def word_less_nat_alt word_le_nat_alt of_nat_diff)
    moreover have "k < ring_capacity r" "k \<noteq> ring_len r" using k room by auto
    ultimately have "slot_at ?r j = nth_slot r k"
      using slot_at_set_slot [OF wf room, of k "set_producer_seq (?p + 1) r" ?c]
      by (simp add: crashed_push_def Let_def nth_slot_def producer_pos)
    with wf k \<open>k < ring_capacity r\<close> show ?thesis by (simp add: ring_wf_def)
  qed
  moreover have "producer_seq (ring_header ?r) = ?p + 1" "consumer_seq (ring_header ?r) = ?c"
    by (simp_all add: crashed_push_def Let_def)
  ultimately show ?thesis
    using heal_crashed(2) [OF wf room nowrap] cp start
    by (auto simp: next_stuck_slot_def intro!: stuck_scan_first)
qed

lemma crashed_blocks:
  assumes "ring_wf r" "ring_len r = 0" "PAYLOAD_BYTES \<le> out_len"
  shows "try_pop n out_len (crashed_push partial r) = Some (Inl Empty, crashed_push partial r)"
proof -
  have "producer_seq (ring_header r) = consumer_seq (ring_header r)" using assms(2) by (simp add: producer_pos)
  then have "slot_sequence (slot_at (crashed_push partial r) (consumer_seq (ring_header (crashed_push partial r)))) =
      consumer_seq (ring_header (crashed_push partial r))"
    using assms consumer_slot [OF assms(1)] by (simp add: crashed_push_def Let_def)
  then show ?thesis using assms(3) by (simp add: try_pop_def) (subst pop_loop.simps, simp add: Let_def)
qed

section \<open>Properties of the ring\<close>

text \<open>
  C17. On a well-formed ring every call of \<open>try_push\<close> and of \<open>try_pop\<close> returns, whatever number of times
  the weak compare-exchange fails, and what it returns and leaves in the ring is what the bounded FIFO
  queue does: full, empty, too-large and too-small are refused without changing the ring, an accepted
  payload is appended padded to 56 bytes, and the oldest payload is the one popped. The counters may
  wrap around.
\<close>

theorem shared_ring_refines_queue:
  assumes "ring_wf r"
  shows "(\<exists>res r'. try_push n x r = Some (res, r') \<and>
      queue_push ring_contract (ring_capacity r) (n, x) (ring_items r) = (res, ring_items r') \<and>
      ring_wf r' \<and> ring_capacity r' = ring_capacity r) \<and>
    (\<exists>ans r'. try_pop n out_len r = Some (ans, r') \<and>
      queue_pop ring_contract (n, out_len) (ring_items r) = (ans, ring_items r') \<and>
      ring_wf r' \<and> ring_capacity r' = ring_capacity r)"
proof -
  have "try_push n x r \<noteq> None"
    using assms push_loop_ok push_loop_full by (cases "ring_len r < ring_capacity r") (auto simp: try_push_def)
  moreover have "try_pop n out_len r \<noteq> None"
    using assms pop_loop_ok pop_loop_empty by (cases "ring_len r = 0") (auto simp: try_pop_def)
  ultimately show ?thesis
    using mpmc_push_refines [OF assms, of "(n, x)"] mpmc_pop_refines [OF assms, of "(n, out_len)"]
    by (auto simp: mpmc_push_def mpmc_pop_def)
qed

definition ring4 :: SharedRing where
  "ring4 = fresh_ring 4"

lemma create_ring4: "create_anon None 4 = Some (Inr ring4)"
proof -
  have "\<exists>k\<in>set [0..<64]. (4::nat) = 2 ^ k" by (rule bexI [of _ 2]) auto
  then have "is_power_of_two 4" unfolding is_power_of_two_def .
  then show ?thesis by (simp add: ring4_def create_anon_def)
qed

lemma ring4_created: "Some (Inr ring4) \<in> {create_in_region 0 False 4, create_from_shm 0 4, create_anon None 4, create_file None 4}"
  by (simp add: create_ring4)

lemmas ring4_wf = created_ring_wf [OF ring4_created]

theorem shared_ring_refines_queue_witness:
  "ring_wf ring4 \<and> (\<exists>r'. try_push 2 [7, 9] ring4 = Some (Inr (), r') \<and> ring_items r' = [write_payload [7, 9]])"
  using shared_ring_refines_queue [OF ring4_wf(1), of 2 "[7, 9]" 56] ring4_wf
  by (auto simp: queue_push_def ring_contract_def PAYLOAD_BYTES_def SLOT_SIZE_def)

text \<open>
  C21. From a freshly created ring, whatever sequence of pushes and pops is made and whichever of them
  are refused, the payloads accepted are, in order, exactly the payloads delivered followed by the
  payloads still in the ring: nothing is lost, duplicated or reordered, and never more than the
  capacity is held. The single-producer single-consumer calls give the same.
\<close>

theorem shared_ring_fifo:
  assumes "Some (Inr r) \<in> {create_in_region region_len aligned capacity, create_from_shm region_len capacity,
      create_anon io capacity, create_file io capacity}"
    and "run_calls mpmc_push mpmc_pop calls r = (answers, r') \<or> run_calls spsc_push spsc_pop calls r = (answers, r')"
  shows "accepted (write_payload \<circ> snd) calls answers = delivered answers @ ring_items r' \<and>
    length (ring_items r') \<le> capacity"
proof -
  note wf = created_ring_wf [OF assms(1)]
  have "q_stored ring_contract = write_payload \<circ> snd" by (auto simp: ring_contract_def)
  then show ?thesis using assms(2) mpmc.run_fifo [OF wf(1)] spsc.run_fifo [OF wf(1)] wf by auto
qed

definition calls4 :: "(nat \<times> bytes, nat \<times> nat) call list" where
  "calls4 = [Push (0, [1]), Push (2, [2]), Pop (0, 56), Pop (0, 8)]"

theorem shared_ring_fifo_witness:
  "\<exists>answers r'. create_anon None 4 = Some (Inr ring4) \<and> run_calls mpmc_push mpmc_pop calls4 ring4 = (answers, r') \<and>
     answers = [Pushed (Inr ()), Pushed (Inr ()), Popped (Inr (write_payload [1])), Popped (Inl PayloadTooLarge)] \<and>
     accepted (write_payload \<circ> snd) calls4 answers = delivered answers @ ring_items r' \<and> length (ring_items r') \<le> 4"
proof -
  obtain answers r' where run: "run_calls mpmc_push mpmc_pop calls4 ring4 = (answers, r')"
    by (cases "run_calls mpmc_push mpmc_pop calls4 ring4") auto
  have "answers = [Pushed (Inr ()), Pushed (Inr ()), Popped (Inr (write_payload [1])), Popped (Inl PayloadTooLarge)]"
    using mpmc.run_refines [OF ring4_wf(1) run] ring4_wf
    by (simp add: calls4_def queue_push_def queue_pop_def ring_contract_def PAYLOAD_BYTES_def SLOT_SIZE_def)
  with shared_ring_fifo [OF ring4_created disjI1 [OF run]] create_ring4 run show ?thesis by blast
qed

text \<open>
  C28. On a well-formed ring the single-producer and single-consumer fast paths do exactly what the
  multi-producer push and the multi-consumer pop do, errors included.
\<close>

theorem spsc_fast_path_agrees:
  assumes "ring_wf r"
  shows "try_push n x r = Some (try_push_spsc x r) \<and> try_pop n out_len r = Some (try_pop_spsc out_len r)"
  using push_spsc_same [OF assms] pop_spsc_same [OF assms]
  by (auto simp: try_push_def try_push_spsc_def try_pop_def try_pop_spsc_def)

theorem spsc_fast_path_agrees_witness:
  "ring_wf ring4 \<and> try_push 3 [5] ring4 = Some (try_push_spsc [5] ring4) \<and> try_pop 3 56 ring4 = Some (try_pop_spsc 56 ring4)"
  using spsc_fast_path_agrees [OF ring4_wf(1)] ring4_wf(1) by blast

text \<open>
  C25. When a producer dies between claiming a position and publishing it, the consumers stop at the
  hole instead of reading it; the scan reports exactly the claimed position; and the repair publishes
  it, after which the ring is well-formed again and holds the bytes the slot had, in the dead
  producer's place in the order.
\<close>

theorem crashed_producer_recovered:
  assumes "ring_wf r" "length (ring_items r) < ring_capacity r"
    and "unat (consumer_seq (ring_header r)) + length (ring_items r) < 2 ^ 64 - 1"
    and "length partial = PAYLOAD_BYTES" "from \<le> producer_seq (ring_header r)"
  shows "(ring_items r = [] \<and> PAYLOAD_BYTES \<le> out_len \<longrightarrow>
      try_pop n out_len (crashed_push partial r) = Some (Inl Empty, crashed_push partial r)) \<and>
    next_stuck_slot from (crashed_push partial r) = Some (producer_seq (ring_header r)) \<and>
    (\<exists>r'. heal_stuck_slot (producer_seq (ring_header r)) (crashed_push partial r) = (Inr True, r') \<and>
       ring_wf r' \<and> ring_items r' = ring_items r @ [partial])"
proof -
  have "ring_len r = 0" if "ring_items r = []" using that length_ring_items [of r] by simp
  with assms crashed_blocks [OF assms(1)] crashed_scan [OF assms(1), of "from" partial]
    heal_crashed(1) [OF assms(1)] pushed_ring_refines [OF assms(1) _ assms(4)]
  show ?thesis by simp
qed

theorem crashed_producer_recovered_witness:
  "try_pop 0 56 (crashed_push (replicate 56 3) ring4) = Some (Inl Empty, crashed_push (replicate 56 3) ring4) \<and>
   next_stuck_slot 0 (crashed_push (replicate 56 3) ring4) = Some (producer_seq (ring_header ring4)) \<and>
   (\<exists>r'. heal_stuck_slot (producer_seq (ring_header ring4)) (crashed_push (replicate 56 3) ring4) = (Inr True, r') \<and>
       ring_wf r' \<and> ring_items r' = [replicate 56 3])"
proof -
  have "consumer_seq (ring_header ring4) = 0" by (simp add: ring4_def fresh_ring_def init_ring_layout_raw_def)
  with crashed_producer_recovered [OF ring4_wf(1), of "replicate 56 3" 0 56 0] ring4_wf show ?thesis
    by (simp add: PAYLOAD_BYTES_def SLOT_SIZE_def)
qed

text \<open>
  Opening the memory of a ring that was just created, with the capacity it was created with,
  attaches to that very ring whichever backing holds it; every other expected capacity below
  \<open>2^64\<close> is refused with a layout mismatch, as is memory too short for the ring.
\<close>

lemma open_created_ring:
  assumes "Some (Inr r) \<in> {create_in_region region_len aligned capacity, create_from_shm region_len capacity,
      create_anon io capacity, create_file io capacity}" and "expected < 2 ^ 64"
    and "opened \<in> {open_from_shm len (ring_header r) (ring_slots r) expected,
      open_in_region len True (ring_header r) (ring_slots r) expected,
      open_file None None len (ring_header r) (ring_slots r) expected}"
  shows "opened = (if expected = capacity \<and> ring_file_size capacity \<le> len then Inr r else Inl LayoutMismatch)"
proof -
  from assms(1) have pow: "is_power_of_two capacity" and r: "r = fresh_ring capacity"
    by (auto simp: create_in_region_def create_from_shm_def create_anon_def create_file_def
        split: if_splits option.splits)
  from pow obtain m where m: "capacity = 2 ^ m" "m < 64" by (auto simp: is_power_of_two_def)
  then have "capacity < 2 ^ 64" by (metis one_less_numeral_iff power_strict_increasing semiring_norm(76))
  then have "(of_nat capacity :: u64) = of_nat expected \<longleftrightarrow> expected = capacity"
    using assms(2) of_nat_word_inj [of capacity expected, where 'a = 64] by auto
  with assms(3) show ?thesis
    by (auto simp: open_from_shm_def open_in_region_def open_file_def check_header_def r fresh_ring_def
        init_ring_layout_raw_def)
qed

lemma open_created_ring_witness:
  "open_from_shm 448 (ring_header ring4) (ring_slots ring4) 4 = Inr ring4 \<and>
   open_from_shm 4096 (ring_header ring4) (ring_slots ring4) 8 = Inl LayoutMismatch"
  using open_created_ring [OF ring4_created, of 4 "open_from_shm 448 (ring_header ring4) (ring_slots ring4) 4" 448]
    open_created_ring [OF ring4_created, of 8 "open_from_shm 4096 (ring_header ring4) (ring_slots ring4) 8" 4096]
  by (simp add: ring_file_size_def SLOT_SIZE_def)

end
