(* ===== verification/Spsc_Ring.thy ===== *)
theory Spsc_Ring
  imports Shared_Ring
begin

text \<open>
  The Lamport single-producer single-consumer ring of \<^verbatim>\<open>crates/subetha-cxc/src/spsc_ring.rs\<close>: layout,
  constructors and openers, push, pop and the zero-copy peek, first one call at a time, then with the
  producer and the consumer interleaved at every load, store and byte copied. The head and tail
  counters are 64-bit words and wrap. Memory is sequentially consistent; the acquire and release
  orderings of the code, which give this for its access pattern, are not modelled.
\<close>

section \<open>The ring in memory\<close>

definition SPSC_MAGIC :: u64 where "SPSC_MAGIC = 0x5350534300000001"
definition SPSC_SLOT_SIZE :: nat where "SPSC_SLOT_SIZE = 64"
definition SPSC_PAYLOAD_BYTES :: nat where "SPSC_PAYLOAD_BYTES = SPSC_SLOT_SIZE"

record SpscHeader =
  spsc_magic :: u64
  spsc_hdr_capacity :: u64
  spsc_slot_size :: u64
  spsc_head :: u64
  spsc_tail :: u64

record SpscRingCore =
  core_header :: SpscHeader
  core_slots :: "bytes list"
  core_capacity :: nat

definition spsc_ring_file_size :: "nat \<Rightarrow> nat" where
  "spsc_ring_file_size capacity = 192 + capacity * SPSC_SLOT_SIZE"

definition init_spsc_layout_raw :: "nat \<Rightarrow> SpscHeader \<times> bytes list" where
  "init_spsc_layout_raw capacity =
     (\<lparr>spsc_magic = SPSC_MAGIC, spsc_hdr_capacity = of_nat capacity, spsc_slot_size = of_nat SPSC_SLOT_SIZE,
       spsc_head = 0, spsc_tail = 0\<rparr>,
      replicate capacity (replicate SPSC_PAYLOAD_BYTES 0))"

definition spsc_fresh :: "nat \<Rightarrow> SpscRingCore" where
  "spsc_fresh capacity =
     (let (header, slots) = init_spsc_layout_raw capacity
      in \<lparr>core_header = header, core_slots = slots, core_capacity = capacity\<rparr>)"

definition spsc_check :: "SpscHeader \<Rightarrow> bytes list \<Rightarrow> nat \<Rightarrow> RingError + SpscRingCore" where
  "spsc_check header slots capacity =
     (if spsc_magic header \<noteq> SPSC_MAGIC \<or> spsc_hdr_capacity header \<noteq> of_nat capacity
          \<or> spsc_slot_size header \<noteq> of_nat SPSC_SLOT_SIZE
      then Inl LayoutMismatch
      else Inr \<lparr>core_header = header, core_slots = slots, core_capacity = capacity\<rparr>)"

text \<open>
  Constructors. \<open>io\<close> is the error of the first failing call to the operating system; \<open>found\<close> is
  the memory of a ring that is already there, when there is one; \<open>None\<close> is the panic of the
  capacity assertion.
\<close>

definition spsc_create_anon :: "nat option \<Rightarrow> nat \<Rightarrow> (RingError + SpscRingCore) option" where
  "spsc_create_anon io capacity =
     (if \<not> (is_power_of_two capacity \<and> capacity \<ge> 2) then None
      else case io of Some kind \<Rightarrow> Some (Inl (IoError kind)) | None \<Rightarrow> Some (Inr (spsc_fresh capacity)))"

definition spsc_create ::
  "RingError option \<Rightarrow> (SpscHeader \<times> bytes list) option \<Rightarrow> nat \<Rightarrow> (RingError + SpscRingCore) option" where
  "spsc_create attach_error found capacity =
     (if \<not> (is_power_of_two capacity \<and> capacity \<ge> 2) then None
      else case attach_error of
          Some e \<Rightarrow> Some (Inl e)
        | None \<Rightarrow>
            let (header, slots) = (case found of None \<Rightarrow> init_spsc_layout_raw capacity | Some hs \<Rightarrow> hs)
            in Some (spsc_check header slots capacity))"

definition spsc_reset :: "nat option \<Rightarrow> nat \<Rightarrow> (RingError + SpscRingCore) option" where
  "spsc_reset io capacity =
     (if \<not> (is_power_of_two capacity \<and> capacity \<ge> 2) then None
      else case io of Some kind \<Rightarrow> Some (Inl (IoError kind)) | None \<Rightarrow> Some (Inr (spsc_fresh capacity)))"

definition spsc_open ::
  "nat option \<Rightarrow> nat option \<Rightarrow> nat \<Rightarrow> SpscHeader \<Rightarrow> bytes list \<Rightarrow> nat \<Rightarrow> RingError + SpscRingCore" where
  "spsc_open io_before io_map actual_len header slots expected_capacity =
     (case io_before of
        Some kind \<Rightarrow> Inl (IoError kind)
      | None \<Rightarrow>
          if actual_len < spsc_ring_file_size expected_capacity then Inl LayoutMismatch
          else (case io_map of
                  Some kind \<Rightarrow> Inl (IoError kind)
                | None \<Rightarrow> spsc_check header slots expected_capacity))"

definition spsc_create_from_shm :: "nat \<Rightarrow> nat \<Rightarrow> (RingError + SpscRingCore) option" where
  "spsc_create_from_shm shm_len capacity =
     (if \<not> (is_power_of_two capacity \<and> capacity \<ge> 2) then None
      else if shm_len < spsc_ring_file_size capacity then Some (Inl LayoutMismatch)
      else Some (Inr (spsc_fresh capacity)))"

text \<open>
  Waiting for another handle's layout: each load of the magic word with whether the deadline is still
  ahead. An empty list of loads stands for a wait that is still going on.
\<close>

definition IN_PROGRESS :: u64 where "IN_PROGRESS = 1"

fun await_magic :: "(u64 \<times> bool) list \<Rightarrow> (RingError + unit) option" where
  "await_magic [] = None"
| "await_magic ((magic, before_deadline) # loads) =
     (if magic = SPSC_MAGIC then Some (Inr ())
      else if (magic = 0 \<or> magic = IN_PROGRESS) \<and> before_deadline then await_magic loads
      else Some (Inl LayoutMismatch))"

text \<open>The outer option is the panic, the inner one the unfinished wait.\<close>

definition spsc_create_or_open_from_shm ::
  "nat \<Rightarrow> u64 \<Rightarrow> (u64 \<times> bool) list \<Rightarrow> SpscHeader \<Rightarrow> bytes list \<Rightarrow> nat \<Rightarrow> (RingError + SpscRingCore) option option" where
  "spsc_create_or_open_from_shm shm_len magic loads header slots capacity =
     (if \<not> (is_power_of_two capacity \<and> capacity \<ge> 2) then None
      else if shm_len < spsc_ring_file_size capacity then Some (Some (Inl LayoutMismatch))
      else if magic = 0 then Some (Some (Inr (spsc_fresh capacity)))
      else case await_magic loads of
          None \<Rightarrow> Some None
        | Some (Inl e) \<Rightarrow> Some (Some (Inl e))
        | Some (Inr _) \<Rightarrow>
            if spsc_hdr_capacity header \<noteq> of_nat capacity \<or> spsc_slot_size header \<noteq> of_nat SPSC_SLOT_SIZE
            then Some (Some (Inl LayoutMismatch))
            else Some (Some (Inr \<lparr>core_header = header, core_slots = slots, core_capacity = capacity\<rparr>)))"

definition spsc_open_from_shm :: "nat \<Rightarrow> SpscHeader \<Rightarrow> bytes list \<Rightarrow> nat \<Rightarrow> RingError + SpscRingCore" where
  "spsc_open_from_shm shm_len header slots expected_capacity =
     (if shm_len < spsc_ring_file_size expected_capacity then Inl LayoutMismatch
      else spsc_check header slots expected_capacity)"

definition spsc_create_in_region :: "nat \<Rightarrow> bool \<Rightarrow> nat \<Rightarrow> (RingError + SpscRingCore) option" where
  "spsc_create_in_region region_len aligned capacity =
     (if \<not> (is_power_of_two capacity \<and> capacity \<ge> 2) then None
      else if region_len < spsc_ring_file_size capacity then Some (Inl LayoutMismatch)
      else if \<not> aligned then Some (Inl LayoutMismatch)
      else Some (Inr (spsc_fresh capacity)))"

definition spsc_open_in_region :: "nat \<Rightarrow> bool \<Rightarrow> SpscHeader \<Rightarrow> bytes list \<Rightarrow> nat \<Rightarrow> RingError + SpscRingCore" where
  "spsc_open_in_region region_len aligned header slots expected_capacity =
     (if region_len < spsc_ring_file_size expected_capacity then Inl LayoutMismatch
      else if \<not> aligned then Inl LayoutMismatch
      else spsc_check header slots expected_capacity)"

section \<open>Operations\<close>

definition spsc_approx_len :: "SpscRingCore \<Rightarrow> nat" where
  "spsc_approx_len r =
     (let h = spsc_head (core_header r); t = spsc_tail (core_header r) in if h < t then 0 else unat (h - t))"

definition spsc_pad :: "bytes \<Rightarrow> bytes" where
  "spsc_pad payload =
     payload @ (if length payload < SPSC_PAYLOAD_BYTES then replicate (SPSC_PAYLOAD_BYTES - length payload) 0 else [])"

definition set_head :: "u64 \<Rightarrow> SpscRingCore \<Rightarrow> SpscRingCore" where
  "set_head v r = r\<lparr>core_header := (core_header r)\<lparr>spsc_head := v\<rparr>\<rparr>"

definition set_tail :: "u64 \<Rightarrow> SpscRingCore \<Rightarrow> SpscRingCore" where
  "set_tail v r = r\<lparr>core_header := (core_header r)\<lparr>spsc_tail := v\<rparr>\<rparr>"

definition core_slot :: "SpscRingCore \<Rightarrow> u64 \<Rightarrow> bytes" where
  "core_slot r pos = core_slots r ! slot_idx (core_capacity r) pos"

definition set_core_slot :: "u64 \<Rightarrow> bytes \<Rightarrow> SpscRingCore \<Rightarrow> SpscRingCore" where
  "set_core_slot pos b r = r\<lparr>core_slots := (core_slots r)[slot_idx (core_capacity r) pos := b]\<rparr>"

definition spsc_try_push :: "bytes \<Rightarrow> SpscRingCore \<Rightarrow> (RingError + unit) \<times> SpscRingCore" where
  "spsc_try_push payload r =
     (if length payload > SPSC_PAYLOAD_BYTES then (Inl PayloadTooLarge, r)
      else let head = spsc_head (core_header r); tail = spsc_tail (core_header r)
           in if head - tail \<ge> of_nat (core_capacity r) then (Inl Full, r)
              else (Inr (), set_head (head + 1) (set_core_slot head (spsc_pad payload) r)))"

definition spsc_try_pop :: "nat \<Rightarrow> SpscRingCore \<Rightarrow> (RingError + bytes) \<times> SpscRingCore" where
  "spsc_try_pop out_len r =
     (if out_len < SPSC_PAYLOAD_BYTES then (Inl PayloadTooLarge, r)
      else let tail = spsc_tail (core_header r); head = spsc_head (core_header r)
           in if tail = head then (Inl Empty, r)
              else (Inr (core_slot r tail), set_tail (tail + 1) r))"

text \<open>The guard of a peek: the tail it was taken at and the bytes it shows.\<close>

record PeekedSlot =
  peek_tail :: u64
  peek_payload :: bytes

definition peek_slot :: "SpscRingCore \<Rightarrow> PeekedSlot option" where
  "peek_slot r =
     (let tail = spsc_tail (core_header r); head = spsc_head (core_header r)
      in if tail = head then None else Some \<lparr>peek_tail = tail, peek_payload = core_slot r tail\<rparr>)"

definition confirm :: "PeekedSlot \<Rightarrow> SpscRingCore \<Rightarrow> SpscRingCore" where
  "confirm g r = set_tail (peek_tail g + 1) r"

section \<open>A window of a circular buffer\<close>

text \<open>The \<open>n\<close> slots from position \<open>t\<close> on.\<close>

definition window :: "nat \<Rightarrow> 'a list \<Rightarrow> u64 \<Rightarrow> nat \<Rightarrow> 'a list" where
  "window cap slots t n = map (\<lambda>k. slots ! slot_idx cap (t + of_nat k)) [0..<n]"

lemma length_window [simp]: "length (window cap slots t n) = n"
  by (simp add: window_def)

lemma window_outside:
  assumes "cap = 2 ^ m" "m < 64" "length slots = cap" "n \<le> j" "j < cap"
  shows "window cap (slots[slot_idx cap (t + of_nat j) := x]) t n = window cap slots t n"
  using assms slot_idx_inj [OF assms(1,2,5)] by (auto simp: window_def nth_list_update)

lemma window_push:
  assumes "cap = 2 ^ m" "m < 64" "length slots = cap" "n < cap"
  shows "window cap (slots[slot_idx cap (t + of_nat n) := x]) t (Suc n) = window cap slots t n @ [x]"
  using window_outside [OF assms(1,2,3) order_refl assms(4), of t x] slot_idx_less [OF assms(1,2)] assms(3)
  by (simp add: window_def)

lemma window_pop: "window cap slots t (Suc n) = slots ! slot_idx cap t # window cap slots (t + 1) n"
  by (simp add: window_def upt_conv_Cons map_Suc_upt [symmetric] comp_def ac_simps del: upt_Suc)

definition core_len :: "SpscRingCore \<Rightarrow> nat" where
  "core_len r = unat (spsc_head (core_header r) - spsc_tail (core_header r))"

definition core_items :: "SpscRingCore \<Rightarrow> bytes list" where
  "core_items r = window (core_capacity r) (core_slots r) (spsc_tail (core_header r)) (core_len r)"

definition core_wf :: "SpscRingCore \<Rightarrow> bool" where
  "core_wf r \<longleftrightarrow> (\<exists>m. 1 \<le> m \<and> m < 64 \<and> core_capacity r = 2 ^ m) \<and> length (core_slots r) = core_capacity r \<and>
     (\<forall>b\<in>set (core_slots r). length b = SPSC_PAYLOAD_BYTES) \<and> core_len r \<le> core_capacity r"

lemma head_pos: "spsc_head (core_header r) = spsc_tail (core_header r) + of_nat (core_len r)"
  by (simp add: core_len_def)

lemma core_capacity_less: "core_wf r \<Longrightarrow> core_capacity r < 2 ^ 64"
  unfolding core_wf_def by (metis one_less_numeral_iff power_strict_increasing semiring_norm(76))

lemma full_test:
  assumes "core_wf r"
  shows "spsc_head (core_header r) - spsc_tail (core_header r) \<ge> of_nat (core_capacity r) \<longleftrightarrow> core_capacity r \<le> core_len r"
  using unat_of_nat_small [of "core_capacity r", where 'a = 64] core_capacity_less [OF assms]
  by (simp add: core_len_def word_le_nat_alt)

lemma empty_test: "spsc_tail (core_header r) = spsc_head (core_header r) \<longleftrightarrow> core_len r = 0"
  by (auto simp: core_len_def unat_eq_0)

lemma core_set_simps [simp]:
  "core_slots (set_head v r) = core_slots r" "core_capacity (set_head v r) = core_capacity r"
  "core_slots (set_tail v r) = core_slots r" "core_capacity (set_tail v r) = core_capacity r"
  "core_header (set_core_slot pos b r) = core_header r" "core_capacity (set_core_slot pos b r) = core_capacity r"
  "core_slots (set_core_slot pos b r) = (core_slots r)[slot_idx (core_capacity r) pos := b]"
  "spsc_head (core_header (set_head v r)) = v" "spsc_tail (core_header (set_head v r)) = spsc_tail (core_header r)"
  "spsc_tail (core_header (set_tail v r)) = v" "spsc_head (core_header (set_tail v r)) = spsc_head (core_header r)"
  by (simp_all add: set_head_def set_tail_def set_core_slot_def)

lemma core_len_set [simp]: "core_len (set_core_slot pos b r) = core_len r"
  by (simp add: core_len_def)

lemma core_idx: "core_wf r \<Longrightarrow> slot_idx (core_capacity r) pos < length (core_slots r)"
  unfolding core_wf_def using slot_idx_less by auto

lemma core_slot_length: "core_wf r \<Longrightarrow> length (core_slot r pos) = SPSC_PAYLOAD_BYTES"
  using core_idx [of r pos] by (auto simp: core_slot_def core_wf_def)

lemma core_wf_write:
  assumes "core_wf r" "length b = SPSC_PAYLOAD_BYTES"
  shows "core_wf (set_core_slot pos b r)"
  using assms by (auto simp: core_wf_def dest!: set_update_subset_insert [THEN subsetD])

lemma core_write_outside:
  assumes "core_wf r" "core_len r < core_capacity r"
  shows "core_items (set_core_slot (spsc_head (core_header r)) b r) = core_items r"
  using assms window_outside [of "core_capacity r" _ "core_slots r" "core_len r" "core_len r"]
  by (auto simp: core_items_def head_pos core_wf_def)

lemma core_publish:
  assumes wf: "core_wf r" and room: "core_len r < core_capacity r"
  shows "core_wf (set_head (spsc_head (core_header r) + 1) r)"
    "core_items (set_head (spsc_head (core_header r) + 1) r) = core_items r @ [core_slot r (spsc_head (core_header r))]"
    "core_len (set_head (spsc_head (core_header r) + 1) r) = core_len r + 1"
proof -
  let ?r = "set_head (spsc_head (core_header r) + 1) r"
  have "core_len r + 1 < 2 ^ 64" using room core_capacity_less [OF wf] by simp
  then have "unat (of_nat (core_len r + 1) :: u64) = core_len r + 1" by (intro unat_of_nat_small) simp
  moreover have "spsc_head (core_header r) + 1 - spsc_tail (core_header r) = of_nat (core_len r + 1)"
    by (simp add: head_pos)
  ultimately show len: "core_len ?r = core_len r + 1" by (simp only: core_len_def core_set_simps)
  then show "core_wf ?r" using wf room by (auto simp: core_wf_def)
  show "core_items ?r = core_items r @ [core_slot r (spsc_head (core_header r))]"
    unfolding core_items_def len by (simp add: window_def core_slot_def head_pos)
qed

lemma core_release:
  assumes wf: "core_wf r" and some: "0 < core_len r"
  shows "core_wf (set_tail (spsc_tail (core_header r) + 1) r)"
    "core_items r = core_slot r (spsc_tail (core_header r)) # core_items (set_tail (spsc_tail (core_header r) + 1) r)"
    "core_len (set_tail (spsc_tail (core_header r) + 1) r) = core_len r - 1"
proof -
  let ?r = "set_tail (spsc_tail (core_header r) + 1) r"
  obtain n where n: "core_len r = Suc n" using some gr0_conv_Suc by blast
  then have "n < 2 ^ 64" using core_capacity_less [OF wf] wf by (simp add: core_wf_def)
  then have "unat (of_nat n :: u64) = n" by (intro unat_of_nat_small) simp
  moreover have "spsc_head (core_header r) - (spsc_tail (core_header r) + 1) = of_nat n"
    by (simp add: head_pos n)
  ultimately have len: "core_len ?r = n" by (simp only: core_len_def core_set_simps)
  then show "core_len ?r = core_len r - 1" by (simp add: n)
  show "core_wf ?r" using wf len n by (auto simp: core_wf_def)
  show "core_items r = core_slot r (spsc_tail (core_header r)) # core_items ?r"
    unfolding core_items_def len n window_pop by (simp add: core_slot_def)
qed

section \<open>The ring is a bounded queue\<close>

definition spsc_contract :: "(bytes, nat, bytes, RingError) queue_contract" where
  "spsc_contract =
     \<lparr>q_push_err = (\<lambda>x. if length x > SPSC_PAYLOAD_BYTES then Some PayloadTooLarge else None),
      q_pop_err = (\<lambda>out_len. if out_len < SPSC_PAYLOAD_BYTES then Some PayloadTooLarge else None),
      q_stored = spsc_pad, q_full = Full, q_empty = Empty\<rparr>"

lemma length_spsc_pad: "length x \<le> SPSC_PAYLOAD_BYTES \<Longrightarrow> length (spsc_pad x) = SPSC_PAYLOAD_BYTES"
  by (simp add: spsc_pad_def)

lemma core_slot_set [simp]: "core_wf r \<Longrightarrow> core_slot (set_core_slot pos b r) pos = b"
  using core_idx [of r pos] by (simp add: core_slot_def)

lemma length_core_items [simp]: "length (core_items r) = core_len r"
  by (simp add: core_items_def)

lemma spsc_push_refines:
  assumes wf: "core_wf r" and "spsc_try_push x r = (res, r')"
  shows "queue_push spsc_contract (core_capacity r) x (core_items r) = (res, core_items r') \<and>
    core_wf r' \<and> core_capacity r' = core_capacity r"
proof -
  let ?w = "set_core_slot (spsc_head (core_header r)) (spsc_pad x) r"
  have "core_wf ?w" if "length x \<le> SPSC_PAYLOAD_BYTES" by (rule core_wf_write [OF wf length_spsc_pad [OF that]])
  with assms core_publish [of ?w] core_write_outside [OF wf] full_test [OF wf] show ?thesis
    by (auto simp: spsc_try_push_def Let_def queue_push_def spsc_contract_def split: if_splits)
qed

lemma spsc_pop_refines:
  assumes wf: "core_wf r" and "spsc_try_pop out_len r = (ans, r')"
  shows "queue_pop spsc_contract out_len (core_items r) = (ans, core_items r') \<and>
    core_wf r' \<and> core_capacity r' = core_capacity r"
proof (cases "core_len r = 0")
  case True
  then have "core_items r = []" by (metis length_0_conv length_core_items)
  with True assms empty_test [of r] show ?thesis
    by (auto simp: spsc_try_pop_def queue_pop_def spsc_contract_def split: if_splits)
next
  case False
  with assms empty_test [of r] core_release [OF wf] show ?thesis
    by (auto simp: spsc_try_pop_def Let_def queue_pop_def spsc_contract_def split: if_splits)
qed

lemma core_items_bound: "core_wf r \<Longrightarrow> length (core_items r) \<le> core_capacity r"
  by (simp add: core_wf_def)

interpretation lamport: bounded_queue spsc_contract spsc_try_push spsc_try_pop core_items core_wf core_capacity
  by unfold_locales (fact spsc_push_refines spsc_pop_refines core_items_bound)+

lemma spsc_fresh_wf:
  assumes "is_power_of_two capacity" "2 \<le> capacity"
  shows "core_wf (spsc_fresh capacity)" "core_items (spsc_fresh capacity) = []"
    "core_capacity (spsc_fresh capacity) = capacity"
proof -
  obtain m where m: "capacity = 2 ^ m" "m < 64" using assms(1) by (auto simp: is_power_of_two_def)
  with assms(2) have "1 \<le> m" by (cases m) auto
  with m show "core_wf (spsc_fresh capacity)"
    by (auto simp: core_wf_def spsc_fresh_def init_spsc_layout_raw_def core_len_def)
  show "core_items (spsc_fresh capacity) = []" "core_capacity (spsc_fresh capacity) = capacity"
    by (simp_all add: core_items_def core_len_def spsc_fresh_def init_spsc_layout_raw_def window_def)
qed

section \<open>Producer and consumer running at once\<close>

text \<open>
  Where the producer is in \<open>try_push\<close>: outside it; after loading the head; copying the padded payload
  with so many bytes written. Where the consumer is in \<open>try_pop\<close>: outside it; after loading the
  tail; copying the slot with so many bytes read.
\<close>

datatype producer_pc = PIdle | PLoadTail bytes u64 | PCopy bytes u64 nat
datatype consumer_pc = CIdle | CLoadHead nat u64 | CCopy nat u64 bytes

record spsc_sys =
  sys_core :: SpscRingCore
  sys_producer :: producer_pc
  sys_consumer :: consumer_pc

text \<open>A step that returns from a call carries the call and its answer.\<close>

type_synonym spsc_event = "(bytes, nat) call \<times> (bytes, RingError) answer"

text \<open>One access of the thread in \<open>try_push\<close>, and one of the thread in \<open>try_pop\<close>.\<close>

inductive producer_step :: "spsc_sys \<Rightarrow> spsc_event option \<Rightarrow> spsc_sys \<Rightarrow> bool" where
  push_too_large: "sys_producer s = PIdle \<Longrightarrow> length x > SPSC_PAYLOAD_BYTES \<Longrightarrow>
    producer_step s (Some (Push x, Pushed (Inl PayloadTooLarge))) s"
| push_load_head: "sys_producer s = PIdle \<Longrightarrow> length x \<le> SPSC_PAYLOAD_BYTES \<Longrightarrow>
    producer_step s None (s\<lparr>sys_producer := PLoadTail x (spsc_head (core_header (sys_core s)))\<rparr>)"
| push_full: "sys_producer s = PLoadTail x head \<Longrightarrow>
    head - spsc_tail (core_header (sys_core s)) \<ge> of_nat (core_capacity (sys_core s)) \<Longrightarrow>
    producer_step s (Some (Push x, Pushed (Inl Full))) (s\<lparr>sys_producer := PIdle\<rparr>)"
| push_room: "sys_producer s = PLoadTail x head \<Longrightarrow>
    \<not> head - spsc_tail (core_header (sys_core s)) \<ge> of_nat (core_capacity (sys_core s)) \<Longrightarrow>
    producer_step s None (s\<lparr>sys_producer := PCopy x head 0\<rparr>)"
| push_byte: "sys_producer s = PCopy x head k \<Longrightarrow> k < SPSC_PAYLOAD_BYTES \<Longrightarrow>
    producer_step s None (s\<lparr>sys_producer := PCopy x head (Suc k),
      sys_core := set_core_slot head ((core_slot (sys_core s) head)[k := spsc_pad x ! k]) (sys_core s)\<rparr>)"
| push_publish: "sys_producer s = PCopy x head SPSC_PAYLOAD_BYTES \<Longrightarrow>
    producer_step s (Some (Push x, Pushed (Inr ())))
      (s\<lparr>sys_producer := PIdle, sys_core := set_head (head + 1) (sys_core s)\<rparr>)"

inductive consumer_step :: "spsc_sys \<Rightarrow> spsc_event option \<Rightarrow> spsc_sys \<Rightarrow> bool" where
  pop_too_small: "sys_consumer s = CIdle \<Longrightarrow> out_len < SPSC_PAYLOAD_BYTES \<Longrightarrow>
    consumer_step s (Some (Pop out_len, Popped (Inl PayloadTooLarge))) s"
| pop_load_tail: "sys_consumer s = CIdle \<Longrightarrow> out_len \<ge> SPSC_PAYLOAD_BYTES \<Longrightarrow>
    consumer_step s None (s\<lparr>sys_consumer := CLoadHead out_len (spsc_tail (core_header (sys_core s)))\<rparr>)"
| pop_empty: "sys_consumer s = CLoadHead out_len tail \<Longrightarrow> tail = spsc_head (core_header (sys_core s)) \<Longrightarrow>
    consumer_step s (Some (Pop out_len, Popped (Inl Empty))) (s\<lparr>sys_consumer := CIdle\<rparr>)"
| pop_some: "sys_consumer s = CLoadHead out_len tail \<Longrightarrow> tail \<noteq> spsc_head (core_header (sys_core s)) \<Longrightarrow>
    consumer_step s None (s\<lparr>sys_consumer := CCopy out_len tail []\<rparr>)"
| pop_byte: "sys_consumer s = CCopy out_len tail out \<Longrightarrow> length out < SPSC_PAYLOAD_BYTES \<Longrightarrow>
    consumer_step s None (s\<lparr>sys_consumer := CCopy out_len tail (out @ [core_slot (sys_core s) tail ! length out])\<rparr>)"
| pop_release: "sys_consumer s = CCopy out_len tail out \<Longrightarrow> length out = SPSC_PAYLOAD_BYTES \<Longrightarrow>
    consumer_step s (Some (Pop out_len, Popped (Inr out)))
      (s\<lparr>sys_consumer := CIdle, sys_core := set_tail (tail + 1) (sys_core s)\<rparr>)"

inductive spsc_step :: "spsc_sys \<Rightarrow> spsc_event option \<Rightarrow> spsc_sys \<Rightarrow> bool" where
  by_producer: "producer_step s ev s' \<Longrightarrow> spsc_step s ev s'"
| by_consumer: "consumer_step s ev s' \<Longrightarrow> spsc_step s ev s'"

inductive spsc_exec :: "SpscRingCore \<Rightarrow> spsc_event list \<Rightarrow> spsc_sys \<Rightarrow> bool" where
  exec_start: "spsc_exec r [] \<lparr>sys_core = r, sys_producer = PIdle, sys_consumer = CIdle\<rparr>"
| exec_silent: "spsc_exec r evs s \<Longrightarrow> spsc_step s None s' \<Longrightarrow> spsc_exec r evs s'"
| exec_return: "spsc_exec r evs s \<Longrightarrow> spsc_step s (Some ev) s' \<Longrightarrow> spsc_exec r (evs @ [ev]) s'"

fun producer_inv :: "SpscRingCore \<Rightarrow> producer_pc \<Rightarrow> bool" where
  "producer_inv r PIdle = True"
| "producer_inv r (PLoadTail x head) = (head = spsc_head (core_header r) \<and> length x \<le> SPSC_PAYLOAD_BYTES)"
| "producer_inv r (PCopy x head k) =
     (head = spsc_head (core_header r) \<and> length x \<le> SPSC_PAYLOAD_BYTES \<and> k \<le> SPSC_PAYLOAD_BYTES \<and>
      core_len r < core_capacity r \<and> take k (core_slot r head) = take k (spsc_pad x))"

fun consumer_inv :: "SpscRingCore \<Rightarrow> consumer_pc \<Rightarrow> bool" where
  "consumer_inv r CIdle = True"
| "consumer_inv r (CLoadHead out_len tail) = (tail = spsc_tail (core_header r) \<and> SPSC_PAYLOAD_BYTES \<le> out_len)"
| "consumer_inv r (CCopy out_len tail out) =
     (tail = spsc_tail (core_header r) \<and> SPSC_PAYLOAD_BYTES \<le> out_len \<and> 0 < core_len r \<and>
      length out \<le> SPSC_PAYLOAD_BYTES \<and> out = take (length out) (core_slot r tail))"

definition spsc_inv :: "spsc_sys \<Rightarrow> bool" where
  "spsc_inv s \<longleftrightarrow> core_wf (sys_core s) \<and> producer_inv (sys_core s) (sys_producer s) \<and>
     consumer_inv (sys_core s) (sys_consumer s)"

text \<open>What the abstract queue does in a step.\<close>

fun spec_step :: "nat \<Rightarrow> spsc_event option \<Rightarrow> bytes list \<Rightarrow> bytes list \<Rightarrow> bool" where
  "spec_step cap None q q' = (q' = q)"
| "spec_step cap (Some (Push x, Pushed res)) q q' = (queue_push spsc_contract cap x q = (res, q'))"
| "spec_step cap (Some (Pop out_len, Popped ans)) q q' = (queue_pop spsc_contract out_len q = (ans, q'))"
| "spec_step cap (Some (Push x, Popped ans)) q q' = False"
| "spec_step cap (Some (Pop out_len, Pushed ans)) q q' = False"

lemma core_slot_other:
  assumes "core_wf r" "0 < core_len r" "core_len r < core_capacity r"
  shows "core_slot (set_core_slot (spsc_head (core_header r)) b r) (spsc_tail (core_header r)) = core_slot r (spsc_tail (core_header r))"
proof -
  obtain m where m: "core_capacity r = 2 ^ m" "m < 64" using assms(1) by (auto simp: core_wf_def)
  have "0 < core_capacity r" using assms by simp
  from slot_idx_inj [OF m this assms(3), of "spsc_tail (core_header r)"] assms(2) show ?thesis
    by (simp add: core_slot_def head_pos)
qed

lemma take_Suc_update: "k < length xs \<Longrightarrow> take k xs = take k ys \<Longrightarrow> k < length ys \<Longrightarrow>
    take (Suc k) (xs[k := ys ! k]) = take (Suc k) ys"
  by (simp add: take_Suc_conv_app_nth)

lemma core_slot_heads [simp]: "core_slot (set_head v r) pos = core_slot r pos" "core_slot (set_tail v r) pos = core_slot r pos"
  by (simp_all add: core_slot_def)

lemma producer_simulates:
  assumes "producer_step s ev s'" "spsc_inv s"
  shows "spsc_inv s' \<and> core_capacity (sys_core s') = core_capacity (sys_core s) \<and>
    spec_step (core_capacity (sys_core s)) ev (core_items (sys_core s)) (core_items (sys_core s'))"
  using assms
proof (cases rule: producer_step.cases)
  case (push_byte x head k)
  let ?r = "sys_core s" and ?b = "(core_slot (sys_core s) head)[k := spsc_pad x ! k]"
  from assms(2) push_byte have wf: "core_wf ?r" and h: "head = spsc_head (core_header ?r)" "core_len ?r < core_capacity ?r"
    "length x \<le> SPSC_PAYLOAD_BYTES" "take k (core_slot ?r head) = take k (spsc_pad x)"
    and c: "consumer_inv ?r (sys_consumer s)" by (auto simp: spsc_inv_def)
  have "length ?b = SPSC_PAYLOAD_BYTES" using core_slot_length [OF wf] by simp
  note core_wf_write [OF wf this] core_write_outside [OF wf h(2)]
  moreover have "take (Suc k) ?b = take (Suc k) (spsc_pad x)"
    using push_byte h core_slot_length [OF wf] length_spsc_pad [OF h(3)] by (intro take_Suc_update) auto
  moreover have "consumer_inv (set_core_slot head ?b ?r) (sys_consumer s)"
    using c core_slot_other [OF wf _ h(2)] h(1) by (cases "sys_consumer s") auto
  ultimately show ?thesis using push_byte h wf by (auto simp: spsc_inv_def)
next
  case (push_publish x head)
  let ?r = "sys_core s"
  from assms(2) push_publish have wf: "core_wf ?r" and h: "head = spsc_head (core_header ?r)" "core_len ?r < core_capacity ?r"
    "length x \<le> SPSC_PAYLOAD_BYTES" "take SPSC_PAYLOAD_BYTES (core_slot ?r head) = take SPSC_PAYLOAD_BYTES (spsc_pad x)"
    and c: "consumer_inv ?r (sys_consumer s)" by (auto simp: spsc_inv_def)
  have "core_slot ?r head = spsc_pad x" using h(4) core_slot_length [OF wf, of head] length_spsc_pad [OF h(3)] by simp
  moreover have "consumer_inv (set_head (head + 1) ?r) (sys_consumer s)"
    using c core_publish(3) [OF wf h(2)] h(1) by (cases "sys_consumer s") auto
  ultimately show ?thesis using core_publish [OF wf h(2)] h push_publish
    by (auto simp: spsc_inv_def queue_push_def spsc_contract_def)
next
  case (push_full x head)
  then show ?thesis using assms(2) full_test [of "sys_core s"]
    by (auto simp: spsc_inv_def queue_push_def spsc_contract_def)
next
  case (push_room x head)
  then show ?thesis using assms(2) full_test [of "sys_core s"] by (auto simp: spsc_inv_def)
qed (auto simp: spsc_inv_def queue_push_def queue_pop_def spsc_contract_def split: list.splits)

lemma consumer_simulates:
  assumes "consumer_step s ev s'" "spsc_inv s"
  shows "spsc_inv s' \<and> core_capacity (sys_core s') = core_capacity (sys_core s) \<and>
    spec_step (core_capacity (sys_core s)) ev (core_items (sys_core s)) (core_items (sys_core s'))"
  using assms
proof (cases rule: consumer_step.cases)
  case (pop_byte out_len tail out)
  then show ?thesis using assms(2) core_slot_length [of "sys_core s" tail]
    by (auto simp: spsc_inv_def take_Suc_conv_app_nth)
next
  case (pop_release out_len tail out)
  let ?r = "sys_core s"
  from assms(2) pop_release have wf: "core_wf ?r" and t: "tail = spsc_tail (core_header ?r)" "0 < core_len ?r"
    "SPSC_PAYLOAD_BYTES \<le> out_len" "out = core_slot ?r tail"
    and p: "producer_inv ?r (sys_producer s)" by (auto simp: spsc_inv_def core_slot_length)
  have "producer_inv (set_tail (tail + 1) ?r) (sys_producer s)"
    using p core_release(3) [OF wf t(2)] t(1) by (cases "sys_producer s") auto
  with core_release [OF wf t(2)] t pop_release show ?thesis
    by (auto simp: spsc_inv_def queue_pop_def spsc_contract_def)
next
  case (pop_empty out_len tail)
  then have "core_items (sys_core s) = []" using assms(2) empty_test [of "sys_core s"]
    by (metis consumer_inv.simps(2) length_0_conv length_core_items spsc_inv_def)
  with pop_empty show ?thesis using assms(2) by (auto simp: spsc_inv_def queue_pop_def spsc_contract_def)
next
  case (pop_some out_len tail)
  then show ?thesis using assms(2) empty_test [of "sys_core s"] by (auto simp: spsc_inv_def)
qed (auto simp: spsc_inv_def queue_push_def queue_pop_def spsc_contract_def split: list.splits)

lemma spsc_step_simulates:
  assumes "spsc_step s ev s'" "spsc_inv s"
  shows "spsc_inv s' \<and> core_capacity (sys_core s') = core_capacity (sys_core s) \<and>
    spec_step (core_capacity (sys_core s)) ev (core_items (sys_core s)) (core_items (sys_core s'))"
  using assms(1) producer_simulates [OF _ assms(2)] consumer_simulates [OF _ assms(2)] by cases blast+

lemma spec_step_run:
  assumes "spec_step cap (Some ev) q q'"
  shows "run_calls (queue_push spsc_contract cap) (queue_pop spsc_contract) [fst ev] q = ([snd ev], q')"
  using assms by (cases "(cap, Some ev, q, q')" rule: spec_step.cases) auto

lemma spsc_exec_simulates:
  "spsc_exec r evs s \<Longrightarrow> core_wf r \<Longrightarrow> spsc_inv s \<and> core_capacity (sys_core s) = core_capacity r \<and>
    run_calls (queue_push spsc_contract (core_capacity r)) (queue_pop spsc_contract) (map fst evs) (core_items r) =
      (map snd evs, core_items (sys_core s))"
proof (induction rule: spsc_exec.induct)
  case (exec_return r evs s ev s')
  then have inv: "spsc_inv s" "core_capacity (sys_core s) = core_capacity r" by auto
  from spsc_step_simulates [OF exec_return.hyps(2) inv(1)] inv(2)
  have "spec_step (core_capacity r) (Some ev) (core_items (sys_core s)) (core_items (sys_core s'))" by simp
  with spec_step_run have "run_calls (queue_push spsc_contract (core_capacity r)) (queue_pop spsc_contract) [fst ev]
      (core_items (sys_core s)) = ([snd ev], core_items (sys_core s'))" .
  with exec_return spsc_step_simulates [OF exec_return.hyps(2) inv(1)] show ?case
    by (simp add: run_calls_append del: run_calls.simps)
next
  case (exec_silent r evs s s')
  with spsc_step_simulates show ?case by fastforce
qed (simp add: spsc_inv_def)

text \<open>Each thread finishes its call by its own steps.\<close>

lemma producer_copy_completes:
  assumes "spsc_exec r evs s" "sys_producer s = PCopy x head (SPSC_PAYLOAD_BYTES - n)" "n \<le> SPSC_PAYLOAD_BYTES"
  shows "\<exists>s'. spsc_exec r (evs @ [(Push x, Pushed (Inr ()))]) s' \<and> sys_producer s' = PIdle \<and> sys_consumer s' = sys_consumer s"
  using assms
proof (induction n arbitrary: s)
  case 0
  then show ?case by (auto intro!: exI conjI exec_return [OF 0(1) by_producer [OF push_publish]])
next
  case (Suc n)
  let ?s = "s\<lparr>sys_producer := PCopy x head (SPSC_PAYLOAD_BYTES - n),
      sys_core := set_core_slot head ((core_slot (sys_core s) head)[SPSC_PAYLOAD_BYTES - Suc n :=
        spsc_pad x ! (SPSC_PAYLOAD_BYTES - Suc n)]) (sys_core s)\<rparr>"
  have "Suc (SPSC_PAYLOAD_BYTES - Suc n) = SPSC_PAYLOAD_BYTES - n" using Suc.prems(3) by simp
  then have "spsc_step s None ?s" using push_byte [OF Suc.prems(2)] Suc.prems(3) by (intro by_producer) simp
  then have "spsc_exec r evs ?s" by (rule exec_silent [OF Suc.prems(1)])
  from Suc.IH [OF this] Suc.prems(3) show ?case by auto
qed

lemma producer_load_completes:
  assumes "spsc_exec r evs s" "sys_producer s = PLoadTail x head"
  shows "\<exists>ans s'. spsc_exec r (evs @ [(Push x, Pushed ans)]) s' \<and> sys_producer s' = PIdle \<and> sys_consumer s' = sys_consumer s"
proof (cases "head - spsc_tail (core_header (sys_core s)) \<ge> of_nat (core_capacity (sys_core s))")
  case True
  from exec_return [OF assms(1) by_producer [OF push_full [OF assms(2) True]]] show ?thesis
    by (intro exI conjI, assumption) simp_all
next
  case False
  from exec_silent [OF assms(1) by_producer [OF push_room [OF assms(2) False]]]
    producer_copy_completes [of r evs "s\<lparr>sys_producer := PCopy x head 0\<rparr>" x head SPSC_PAYLOAD_BYTES]
  show ?thesis by auto
qed

section \<open>A call in progress\<close>

text \<open>
  The call a thread is in, and how many accesses of its own it has left at most. A run from a state counts
  the accesses of either thread and collects the calls that return.
\<close>

fun push_call :: "producer_pc \<Rightarrow> bytes option" where
  "push_call PIdle = None"
| "push_call (PLoadTail x head) = Some x"
| "push_call (PCopy x head k) = Some x"

fun push_left :: "producer_pc \<Rightarrow> nat" where
  "push_left PIdle = 0"
| "push_left (PLoadTail x head) = SPSC_PAYLOAD_BYTES + 2"
| "push_left (PCopy x head k) = SPSC_PAYLOAD_BYTES - k + 1"

fun pop_call :: "consumer_pc \<Rightarrow> nat option" where
  "pop_call CIdle = None"
| "pop_call (CLoadHead out_len tail) = Some out_len"
| "pop_call (CCopy out_len tail out) = Some out_len"

fun pop_left :: "consumer_pc \<Rightarrow> nat" where
  "pop_left CIdle = 0"
| "pop_left (CLoadHead out_len tail) = SPSC_PAYLOAD_BYTES + 2"
| "pop_left (CCopy out_len tail out) = SPSC_PAYLOAD_BYTES - length out + 1"

inductive spsc_run :: "spsc_sys \<Rightarrow> nat \<Rightarrow> nat \<Rightarrow> spsc_event list \<Rightarrow> spsc_sys \<Rightarrow> bool" for s where
  run_start: "spsc_run s 0 0 [] s"
| run_producer: "spsc_run s n m evs s' \<Longrightarrow> producer_step s' ev s'' \<Longrightarrow> spsc_run s (Suc n) m (evs @ (case ev of None \<Rightarrow> [] | Some e \<Rightarrow> [e])) s''"
| run_consumer: "spsc_run s n m evs s' \<Longrightarrow> consumer_step s' ev s'' \<Longrightarrow> spsc_run s n (Suc m) (evs @ (case ev of None \<Rightarrow> [] | Some e \<Rightarrow> [e])) s''"

lemma left_bounds: "push_left pc \<le> SPSC_PAYLOAD_BYTES + 2" "pop_left qc \<le> SPSC_PAYLOAD_BYTES + 2"
  "push_call pc = Some x \<Longrightarrow> 0 < push_left pc" "pop_call qc = Some l \<Longrightarrow> 0 < pop_left qc"
  by (cases pc; cases qc; simp)+

text \<open>A thread in a call can always make its next access, which brings it closer to its return or is the return.\<close>

lemma producer_enabled:
  assumes "spsc_inv s" "push_call (sys_producer s) = Some x"
  shows "\<exists>ev s'. producer_step s ev s'"
proof (cases "sys_producer s")
  case (PLoadTail y head)
  then show ?thesis using push_full push_room by blast
next
  case (PCopy y head k)
  then have "k < SPSC_PAYLOAD_BYTES \<or> k = SPSC_PAYLOAD_BYTES" using assms(1) by (auto simp: spsc_inv_def)
  then show ?thesis using PCopy push_byte push_publish by blast
qed (use assms(2) in simp)

lemma consumer_enabled:
  assumes "spsc_inv s" "pop_call (sys_consumer s) = Some out_len"
  shows "\<exists>ev s'. consumer_step s ev s'"
proof (cases "sys_consumer s")
  case (CLoadHead l tail)
  then show ?thesis using pop_empty pop_some by blast
next
  case (CCopy l tail out)
  then have "length out < SPSC_PAYLOAD_BYTES \<or> length out = SPSC_PAYLOAD_BYTES" using assms(1) by (auto simp: spsc_inv_def)
  then show ?thesis using CCopy pop_byte pop_release by blast
qed (use assms(2) in simp)

lemma producer_progress:
  assumes "producer_step s ev s'" "push_call (sys_producer s) = Some x"
  shows "(\<exists>ans. ev = Some (Push x, Pushed ans)) \<or>
    ev = None \<and> push_call (sys_producer s') = Some x \<and> Suc (push_left (sys_producer s')) \<le> push_left (sys_producer s)"
  using assms by cases auto

lemma consumer_progress:
  assumes "consumer_step s ev s'" "pop_call (sys_consumer s) = Some out_len"
  shows "(\<exists>ans. ev = Some (Pop out_len, Popped ans)) \<or>
    ev = None \<and> pop_call (sys_consumer s') = Some out_len \<and> Suc (pop_left (sys_consumer s')) \<le> pop_left (sys_consumer s)"
  using assms by cases auto

lemma other_thread:
  "producer_step s ev s' \<Longrightarrow> sys_consumer s' = sys_consumer s" "consumer_step s ev s' \<Longrightarrow> sys_producer s' = sys_producer s"
  by (erule producer_step.cases consumer_step.cases; simp)+

lemma push_run:
  assumes "spsc_run s n m evs s'" "push_call (sys_producer s) = Some x"
  shows "(\<exists>ans. (Push x, Pushed ans) \<in> set evs) \<or>
    push_call (sys_producer s') = Some x \<and> n + push_left (sys_producer s') \<le> push_left (sys_producer s)"
  using assms(1)
proof (induction rule: spsc_run.induct)
  case (run_producer n m evs s' ev s'')
  then show ?case using producer_progress [OF run_producer(2), of x] by fastforce
next
  case (run_consumer n m evs s' ev s'')
  then show ?case using other_thread(2) [OF run_consumer(2)] by auto
qed (simp add: assms(2))

lemma pop_run:
  assumes "spsc_run s n m evs s'" "pop_call (sys_consumer s) = Some out_len"
  shows "(\<exists>ans. (Pop out_len, Popped ans) \<in> set evs) \<or>
    pop_call (sys_consumer s') = Some out_len \<and> m + pop_left (sys_consumer s') \<le> pop_left (sys_consumer s)"
  using assms(1)
proof (induction rule: spsc_run.induct)
  case (run_consumer n m evs s' ev s'')
  then show ?case using consumer_progress [OF run_consumer(2), of out_len] by fastforce
next
  case (run_producer n m evs s' ev s'')
  then show ?case using other_thread(1) [OF run_producer(2)] by auto
qed (simp add: assms(2))

section \<open>Properties of the Lamport ring\<close>

text \<open>
  C9. With the producer and the consumer interleaved in any way at the granularity of single loads,
  stores and bytes copied, the calls that have returned, in the order in which they returned, are a run of
  the bounded FIFO queue with exactly the answers the calls gave: the ring is linearizable. In
  particular the payloads accepted are those delivered followed by those in the ring, none torn,
  lost, duplicated or reordered.
\<close>

theorem spsc_linearizable:
  assumes "core_wf r" "spsc_exec r evs s"
  shows "run_calls (queue_push spsc_contract (core_capacity r)) (queue_pop spsc_contract) (map fst evs) (core_items r) =
      (map snd evs, core_items (sys_core s)) \<and>
    core_items r @ accepted spsc_pad (map fst evs) (map snd evs) = delivered (map snd evs) @ core_items (sys_core s) \<and>
    length (core_items (sys_core s)) \<le> core_capacity r"
proof -
  from spsc_exec_simulates [OF assms(2,1)]
  have run: "run_calls (queue_push spsc_contract (core_capacity r)) (queue_pop spsc_contract) (map fst evs) (core_items r) =
      (map snd evs, core_items (sys_core s))" by simp
  moreover have "q_stored spsc_contract = spsc_pad" by (simp add: spsc_contract_def)
  ultimately show ?thesis
    using queue_run_fifo [OF run] queue_run_bounded [OF run core_items_bound [OF assms(1)]] by simp
qed

lemma two_is_power: "is_power_of_two 2"
proof -
  have "\<exists>k\<in>set [0..<64]. (2::nat) = 2 ^ k" by (rule bexI [of _ 1]) auto
  then show ?thesis unfolding is_power_of_two_def .
qed

lemmas spsc_fresh2 = spsc_fresh_wf [OF two_is_power order_refl]

theorem spsc_linearizable_witness:
  "\<exists>ans s. spsc_exec (spsc_fresh 2) [(Push [7], Pushed ans)] s \<and> sys_producer s = PIdle \<and>
    ans = Inr () \<and> core_items (sys_core s) = [spsc_pad [7]]"
proof -
  have "spsc_exec (spsc_fresh 2) [] (\<lparr>sys_core = spsc_fresh 2, sys_producer = PLoadTail [7]
      (spsc_head (core_header (spsc_fresh 2))), sys_consumer = CIdle\<rparr>)"
    using exec_silent [OF exec_start by_producer [OF push_load_head], of "spsc_fresh 2" "[7]"]
    by (simp add: SPSC_PAYLOAD_BYTES_def SPSC_SLOT_SIZE_def)
  from producer_load_completes [OF this] obtain ans s where
    ex: "spsc_exec (spsc_fresh 2) [(Push [7], Pushed ans)] s" "sys_producer s = PIdle" by auto
  with spsc_linearizable [OF spsc_fresh2(1) ex(1)] spsc_fresh2 show ?thesis
    by (auto simp: queue_push_def spsc_contract_def SPSC_PAYLOAD_BYTES_def SPSC_SLOT_SIZE_def)
qed

text \<open>
  C29. Both sides are wait-free. In every reachable state of the interleaved system, a thread that is inside a push or
  a pop can make its next access, whatever the other thread is in the middle of; and in every continuation, however
  the other thread's accesses are mixed in, that very call has returned once its own thread has made as many accesses
  as a slot has payload bytes, and two.
\<close>

theorem spsc_wait_free:
  assumes "core_wf r" "spsc_exec r evs s"
  shows "(\<forall>x. push_call (sys_producer s) = Some x \<longrightarrow> (\<exists>ev s'. producer_step s ev s') \<and>
      (\<forall>n m evs' s'. spsc_run s n m evs' s' \<longrightarrow> SPSC_PAYLOAD_BYTES + 2 \<le> n \<longrightarrow> (\<exists>ans. (Push x, Pushed ans) \<in> set evs'))) \<and>
    (\<forall>out_len. pop_call (sys_consumer s) = Some out_len \<longrightarrow> (\<exists>ev s'. consumer_step s ev s') \<and>
      (\<forall>n m evs' s'. spsc_run s n m evs' s' \<longrightarrow> SPSC_PAYLOAD_BYTES + 2 \<le> m \<longrightarrow> (\<exists>ans. (Pop out_len, Popped ans) \<in> set evs')))"
proof -
  have inv: "spsc_inv s" using spsc_exec_simulates [OF assms(2,1)] by simp
  have "\<exists>ans. (Push x, Pushed ans) \<in> set evs'"
    if "push_call (sys_producer s) = Some x" "spsc_run s n m evs' s'" "SPSC_PAYLOAD_BYTES + 2 \<le> n" for x n m evs' s'
    using push_run [OF that(2,1)] left_bounds(1) [of "sys_producer s"] left_bounds(3) [of "sys_producer s'" x] that(3) by auto
  moreover have "\<exists>ans. (Pop out_len, Popped ans) \<in> set evs'"
    if "pop_call (sys_consumer s) = Some out_len" "spsc_run s n m evs' s'" "SPSC_PAYLOAD_BYTES + 2 \<le> m" for out_len n m evs' s'
    using pop_run [OF that(2,1)] left_bounds(2) [of "sys_consumer s"] left_bounds(4) [of "sys_consumer s'" out_len] that(3) by auto
  ultimately show ?thesis using producer_enabled [OF inv] consumer_enabled [OF inv] by blast
qed

text \<open>A push that has loaded the head, alone and while a pop of the empty ring starts and returns.\<close>

theorem spsc_wait_free_witness:
  "\<exists>s. spsc_exec (spsc_fresh 2) [] s \<and> sys_producer s = PLoadTail [7] 0 \<and> (\<exists>ev s'. producer_step s ev s') \<and>
     (\<forall>n m evs s'. spsc_run s n m evs s' \<longrightarrow> SPSC_PAYLOAD_BYTES + 2 \<le> n \<longrightarrow> (\<exists>ans. (Push [7], Pushed ans) \<in> set evs)) \<and>
     (\<exists>evs s'. spsc_run s 0 2 evs s' \<and> evs = [(Pop 64, Popped (Inl Empty))])"
proof -
  let ?s = "\<lparr>sys_core = spsc_fresh 2, sys_producer = PLoadTail [7] 0, sys_consumer = CIdle\<rparr>"
  have zero: "spsc_head (core_header (spsc_fresh 2)) = 0" "spsc_tail (core_header (spsc_fresh 2)) = 0"
    by (simp_all add: spsc_fresh_def init_spsc_layout_raw_def)
  have reach: "spsc_exec (spsc_fresh 2) [] ?s"
    using exec_silent [OF exec_start by_producer [OF push_load_head], of "spsc_fresh 2" "[7]"] zero
    by (simp add: SPSC_PAYLOAD_BYTES_def SPSC_SLOT_SIZE_def)
  have "consumer_step ?s None (?s\<lparr>sys_consumer := CLoadHead 64 0\<rparr>)"
    using pop_load_tail [of ?s 64] zero by (simp add: SPSC_PAYLOAD_BYTES_def SPSC_SLOT_SIZE_def)
  moreover have "consumer_step (?s\<lparr>sys_consumer := CLoadHead 64 0\<rparr>) (Some (Pop 64, Popped (Inl Empty))) ?s"
    using pop_empty [of "?s\<lparr>sys_consumer := CLoadHead 64 0\<rparr>" 64 0] zero by simp
  ultimately have "spsc_run ?s 0 2 [(Pop 64, Popped (Inl Empty))] ?s"
    using run_consumer [OF run_consumer [OF run_start]] by (fastforce simp: numeral_2_eq_2)
  then show ?thesis using reach spsc_wait_free [OF spsc_fresh2(1) reach] by (intro exI [of _ ?s]) auto
qed

text \<open>
  Peeking and confirming is popping: on a well-formed ring with a large enough buffer, \<open>try_pop\<close>
  returns the bytes a peek shows and leaves the ring a confirm of that peek leaves; a peek changes
  nothing, shows the oldest payload and finds nothing exactly when the ring is empty.
\<close>

lemma peek_confirm_is_pop:
  assumes "core_wf r" "SPSC_PAYLOAD_BYTES \<le> out_len"
  shows "spsc_try_pop out_len r = (case peek_slot r of None \<Rightarrow> (Inl Empty, r) | Some g \<Rightarrow> (Inr (peek_payload g), confirm g r)) \<and>
    map_option peek_payload (peek_slot r) = (case core_items r of [] \<Rightarrow> None | b # _ \<Rightarrow> Some b)"
proof (cases "core_len r = 0")
  case True
  then have "core_items r = []" by (metis length_0_conv length_core_items)
  with True assms(2) empty_test [of r] show ?thesis by (simp add: spsc_try_pop_def peek_slot_def)
next
  case False
  with assms empty_test [of r] core_release(2) [OF assms(1)] show ?thesis
    by (simp add: spsc_try_pop_def peek_slot_def confirm_def Let_def)
qed

lemma peek_confirm_is_pop_witness:
  "core_wf (spsc_fresh 2) \<and> spsc_try_pop 64 (spsc_fresh 2) = (Inl Empty, spsc_fresh 2)"
  using peek_confirm_is_pop [OF spsc_fresh2(1), of 64] spsc_fresh2
  by (auto simp: SPSC_PAYLOAD_BYTES_def SPSC_SLOT_SIZE_def split: option.splits)

end
