(* ===== verification/Ring_Protocol.thy ===== *)
theory Ring_Protocol
  imports Shared_Ring
begin

text \<open>
  The multi-producer multi-consumer ring of \<^verbatim>\<open>crates/subetha-cxc/src/shared_ring.rs\<close> with any number of
  threads inside \<open>try_push\<close> and \<open>try_pop\<close> at once. A step is one atomic access of one thread: a load
  of a counter or of a slot's sequence number, a compare-exchange, one byte of payload copied, a
  store that publishes or releases a slot. A producer may die at any byte, and the repair
  \<open>heal_stuck_slot\<close> may then publish its slot. Memory is sequentially consistent; the acquire and
  release orderings of the code are not modelled.

  The history fields of the state (what was claimed, returned and repaired, and the phase of each
  position) are written by the steps and read by none of them.
\<close>

section \<open>The system\<close>

text \<open>
  The program points of \<open>try_push\<close>: after loading the position; after loading the slot's sequence
  number; claimed, with so many bytes written; dead after the claim. Those of \<open>try_pop\<close>: after
  loading the position; after loading the sequence number; claimed, with some bytes read.
\<close>

datatype prod_pc = P_Idle | P_Pos bytes u64 | P_Seq bytes u64 u64 | P_Writing bytes u64 nat | P_Dead u64
datatype cons_pc = C_Idle | C_Pos u64 | C_Seq u64 u64 | C_Reading u64 bytes

datatype phase = Unclaimed | Writing | Ready | Reading | Released

record mpmc =
  m_ring :: SharedRing
  m_prod :: "nat \<Rightarrow> prod_pc"
  m_cons :: "nat \<Rightarrow> cons_pc"
  m_claimed :: "(nat \<times> bytes) list"
  m_returned :: "(nat \<times> nat \<times> bytes) list"
  m_healed :: "nat set"
  m_phase :: "nat \<Rightarrow> phase"

definition m_start :: "SharedRing \<Rightarrow> mpmc" where
  "m_start r = \<lparr>m_ring = r, m_prod = (\<lambda>_. P_Idle), m_cons = (\<lambda>_. C_Idle), m_claimed = [], m_returned = [],
     m_healed = {}, m_phase = (\<lambda>_. Unclaimed)\<rparr>"

abbreviation head_seq :: "mpmc \<Rightarrow> u64" where "head_seq s \<equiv> producer_seq (ring_header (m_ring s))"
abbreviation tail_seq :: "mpmc \<Rightarrow> u64" where "tail_seq s \<equiv> consumer_seq (ring_header (m_ring s))"
abbreviation m_slot :: "mpmc \<Rightarrow> u64 \<Rightarrow> Slot" where "m_slot s pos \<equiv> slot_at (m_ring s) pos"
abbreviation m_cap :: "mpmc \<Rightarrow> nat" where "m_cap s \<equiv> ring_capacity (m_ring s)"

text \<open>
  One access of a producer in \<open>try_push\<close> (which may also die after its claim), a repair of the slot a dead producer
  left, and one access of a consumer in \<open>try_pop\<close>.
\<close>

inductive m_push :: "mpmc \<Rightarrow> mpmc \<Rightarrow> bool" where
  push_load_pos: "m_prod s t = P_Idle \<Longrightarrow> length x \<le> PAYLOAD_BYTES \<Longrightarrow>
    m_push s (s\<lparr>m_prod := (m_prod s)(t := P_Pos x (head_seq s))\<rparr>)"
| push_load_seq: "m_prod s t = P_Pos x pos \<Longrightarrow>
    m_push s (s\<lparr>m_prod := (m_prod s)(t := P_Seq x pos (slot_sequence (m_slot s pos)))\<rparr>)"
| push_retry: "m_prod s t = P_Seq x pos seq \<Longrightarrow> sint (seq - pos) \<ge> 0 \<Longrightarrow>
    m_push s (s\<lparr>m_prod := (m_prod s)(t := P_Pos x (head_seq s))\<rparr>)"
| push_full: "m_prod s t = P_Seq x pos seq \<Longrightarrow> sint (seq - pos) < 0 \<Longrightarrow>
    m_push s (s\<lparr>m_prod := (m_prod s)(t := P_Idle)\<rparr>)"
| push_claim: "m_prod s t = P_Seq x pos seq \<Longrightarrow> sint (seq - pos) = 0 \<Longrightarrow> head_seq s = pos \<Longrightarrow>
    m_push s (s\<lparr>m_prod := (m_prod s)(t := P_Writing x pos 0), m_ring := set_producer_seq (pos + 1) (m_ring s),
      m_claimed := m_claimed s @ [(t, write_payload x)], m_phase := (m_phase s)(unat pos := Writing)\<rparr>)"
| push_byte: "m_prod s t = P_Writing x pos k \<Longrightarrow> k < PAYLOAD_BYTES \<Longrightarrow>
    m_push s (s\<lparr>m_prod := (m_prod s)(t := P_Writing x pos (Suc k)),
      m_ring := set_slot pos ((m_slot s pos)\<lparr>slot_payload := (slot_payload (m_slot s pos))[k := write_payload x ! k]\<rparr>)
        (m_ring s)\<rparr>)"
| push_publish: "m_prod s t = P_Writing x pos PAYLOAD_BYTES \<Longrightarrow>
    m_push s (s\<lparr>m_prod := (m_prod s)(t := P_Idle),
      m_ring := set_slot pos ((m_slot s pos)\<lparr>slot_sequence := pos + 1\<rparr>) (m_ring s),
      m_phase := (m_phase s)(unat pos := Ready)\<rparr>)"
| push_crash: "m_prod s t = P_Writing x pos k \<Longrightarrow>
    m_push s (s\<lparr>m_prod := (m_prod s)(t := P_Dead pos)\<rparr>)"

inductive m_heal :: "mpmc \<Rightarrow> mpmc \<Rightarrow> bool" where
  heal: "m_prod s t = P_Dead pos \<Longrightarrow> heal_stuck_slot pos (m_ring s) = (Inr True, r') \<Longrightarrow>
    m_heal s (s\<lparr>m_prod := (m_prod s)(t := P_Idle), m_ring := r', m_healed := insert (unat pos) (m_healed s),
      m_phase := (m_phase s)(unat pos := Ready)\<rparr>)"

inductive m_pop :: "mpmc \<Rightarrow> mpmc \<Rightarrow> bool" where
  pop_load_pos: "m_cons s t = C_Idle \<Longrightarrow>
    m_pop s (s\<lparr>m_cons := (m_cons s)(t := C_Pos (tail_seq s))\<rparr>)"
| pop_load_seq: "m_cons s t = C_Pos pos \<Longrightarrow>
    m_pop s (s\<lparr>m_cons := (m_cons s)(t := C_Seq pos (slot_sequence (m_slot s pos)))\<rparr>)"
| pop_retry: "m_cons s t = C_Seq pos seq \<Longrightarrow> sint (seq - (pos + 1)) \<ge> 0 \<Longrightarrow>
    m_pop s (s\<lparr>m_cons := (m_cons s)(t := C_Pos (tail_seq s))\<rparr>)"
| pop_empty: "m_cons s t = C_Seq pos seq \<Longrightarrow> sint (seq - (pos + 1)) < 0 \<Longrightarrow>
    m_pop s (s\<lparr>m_cons := (m_cons s)(t := C_Idle)\<rparr>)"
| pop_claim: "m_cons s t = C_Seq pos seq \<Longrightarrow> sint (seq - (pos + 1)) = 0 \<Longrightarrow> tail_seq s = pos \<Longrightarrow>
    m_pop s (s\<lparr>m_cons := (m_cons s)(t := C_Reading pos []), m_ring := set_consumer_seq (pos + 1) (m_ring s),
      m_phase := (m_phase s)(unat pos := Reading)\<rparr>)"
| pop_byte: "m_cons s t = C_Reading pos out \<Longrightarrow> length out < PAYLOAD_BYTES \<Longrightarrow>
    m_pop s (s\<lparr>m_cons := (m_cons s)(t := C_Reading pos (out @ [slot_payload (m_slot s pos) ! length out]))\<rparr>)"
| pop_release: "m_cons s t = C_Reading pos out \<Longrightarrow> length out = PAYLOAD_BYTES \<Longrightarrow>
    m_pop s (s\<lparr>m_cons := (m_cons s)(t := C_Idle),
      m_ring := set_slot pos ((m_slot s pos)\<lparr>slot_sequence := pos + of_nat (m_cap s)\<rparr>) (m_ring s),
      m_returned := m_returned s @ [(t, unat pos, out)], m_phase := (m_phase s)(unat pos := Released)\<rparr>)"

inductive m_step :: "mpmc \<Rightarrow> mpmc \<Rightarrow> bool" where
  by_push: "m_push s s' \<Longrightarrow> m_step s s'"
| by_heal: "m_heal s s' \<Longrightarrow> m_step s s'"
| by_pop: "m_pop s s' \<Longrightarrow> m_step s s'"

inductive m_reach :: "SharedRing \<Rightarrow> mpmc \<Rightarrow> bool" where
  reach_start: "m_reach r (m_start r)"
| reach_step: "m_reach r s \<Longrightarrow> m_step s s' \<Longrightarrow> m_reach r s'"

section \<open>The invariant\<close>

definition inv_shape :: "SharedRing \<Rightarrow> bool" where
  "inv_shape r \<longleftrightarrow> (\<exists>m. 1 \<le> m \<and> m < 64 \<and> ring_capacity r = 2 ^ m) \<and> length (ring_slots r) = ring_capacity r \<and>
     (\<forall>sl\<in>set (ring_slots r). length (slot_payload sl) = PAYLOAD_BYTES)"

text \<open>The slot of a position, the position given as a number.\<close>

abbreviation nslot :: "SharedRing \<Rightarrow> nat \<Rightarrow> Slot" where
  "nslot r q \<equiv> ring_slots r ! (q mod ring_capacity r)"

definition inv_phase :: "nat \<Rightarrow> nat \<Rightarrow> nat \<Rightarrow> (nat \<Rightarrow> phase) \<Rightarrow> bool" where
  "inv_phase cap P C ph \<longleftrightarrow> C \<le> P \<and>
     (\<forall>q. (ph q = Unclaimed \<longleftrightarrow> P \<le> q) \<and> (C \<le> q \<and> q < P \<longrightarrow> ph q \<in> {Writing, Ready}) \<and>
          (q < C \<longrightarrow> ph q \<in> {Reading, Released}) \<and> (q + cap < P \<longrightarrow> ph q = Released))"

text \<open>A position is free to claim when its slot was never used or was released by the lap before.\<close>

definition slot_free :: "nat \<Rightarrow> (nat \<Rightarrow> phase) \<Rightarrow> nat \<Rightarrow> bool" where
  "slot_free cap ph q \<longleftrightarrow> ph q = Unclaimed \<and> (q < cap \<or> ph (q - cap) = Released)"

definition inv_seq :: "SharedRing \<Rightarrow> (nat \<Rightarrow> phase) \<Rightarrow> bool" where
  "inv_seq r ph \<longleftrightarrow> (\<forall>q.
     (ph q = Writing \<longrightarrow> slot_sequence (nslot r q) = of_nat q) \<and>
     (ph q \<in> {Ready, Reading} \<longrightarrow> slot_sequence (nslot r q) = of_nat (q + 1)) \<and>
     (slot_free (ring_capacity r) ph q \<longrightarrow> slot_sequence (nslot r q) = of_nat q))"

definition inv_data :: "SharedRing \<Rightarrow> (nat \<Rightarrow> phase) \<Rightarrow> nat set \<Rightarrow> (nat \<times> bytes) list \<Rightarrow> bool" where
  "inv_data r ph healed claimed \<longleftrightarrow>
     (\<forall>q. ph q \<in> {Ready, Reading} \<and> q \<notin> healed \<longrightarrow> slot_payload (nslot r q) = snd (claimed ! q))"

fun write_pos :: "prod_pc \<Rightarrow> nat option" where
  "write_pos (P_Writing x pos k) = Some (unat pos)"
| "write_pos (P_Dead pos) = Some (unat pos)"
| "write_pos _ = None"

fun read_pos :: "cons_pc \<Rightarrow> nat option" where
  "read_pos (C_Reading pos out) = Some (unat pos)"
| "read_pos _ = None"

fun prod_ok :: "mpmc \<Rightarrow> nat \<Rightarrow> prod_pc \<Rightarrow> bool" where
  "prod_ok s t P_Idle = True"
| "prod_ok s t (P_Pos x pos) = (length x \<le> PAYLOAD_BYTES \<and> pos \<le> head_seq s)"
| "prod_ok s t (P_Seq x pos seq) = (length x \<le> PAYLOAD_BYTES \<and> pos \<le> head_seq s \<and>
     (seq = pos \<and> pos = head_seq s \<longrightarrow> slot_free (m_cap s) (m_phase s) (unat pos)))"
| "prod_ok s t (P_Writing x pos k) = (length x \<le> PAYLOAD_BYTES \<and> m_phase s (unat pos) = Writing \<and>
     m_claimed s ! unat pos = (t, write_payload x) \<and> k \<le> PAYLOAD_BYTES \<and>
     take k (slot_payload (nslot (m_ring s) (unat pos))) = take k (write_payload x))"
| "prod_ok s t (P_Dead pos) = (m_phase s (unat pos) = Writing)"

fun cons_ok :: "mpmc \<Rightarrow> nat \<Rightarrow> cons_pc \<Rightarrow> bool" where
  "cons_ok s t C_Idle = True"
| "cons_ok s t (C_Pos pos) = (pos \<le> tail_seq s)"
| "cons_ok s t (C_Seq pos seq) = (pos \<le> tail_seq s \<and> (seq = pos + 1 \<and> pos = tail_seq s \<longrightarrow> m_phase s (unat pos) = Ready))"
| "cons_ok s t (C_Reading pos out) = (m_phase s (unat pos) = Reading \<and> length out \<le> PAYLOAD_BYTES \<and>
     out = take (length out) (slot_payload (nslot (m_ring s) (unat pos))) \<and>
     (\<forall>(t', q, b)\<in>set (m_returned s). t' = t \<longrightarrow> q < unat pos))"

definition inv_returned :: "(nat \<times> nat \<times> bytes) list \<Rightarrow> (nat \<Rightarrow> phase) \<Rightarrow> nat set \<Rightarrow> (nat \<times> bytes) list \<Rightarrow> (nat \<Rightarrow> cons_pc) \<Rightarrow> bool" where
  "inv_returned ret ph healed claimed con \<longleftrightarrow> distinct (map (fst \<circ> snd) ret) \<and>
     (\<forall>(t, q, b)\<in>set ret. ph q = Released \<and> (q \<notin> healed \<longrightarrow> b = snd (claimed ! q))) \<and>
     (\<forall>q. ph q = Released \<longrightarrow> q \<in> (fst \<circ> snd) ` set ret) \<and>
     (\<forall>q. ph q = Reading \<longrightarrow> (\<exists>t. read_pos (con t) = Some q)) \<and>
     (\<forall>t. sorted_wrt (<) (map (fst \<circ> snd) (filter (\<lambda>e. fst e = t) ret)))"

abbreviation returned_ok :: "mpmc \<Rightarrow> bool" where
  "returned_ok s \<equiv> inv_returned (m_returned s) (m_phase s) (m_healed s) (m_claimed s) (m_cons s)"

text \<open>No two threads work on the same position.\<close>

definition one_owner :: "(nat \<Rightarrow> nat option) \<Rightarrow> bool" where
  "one_owner f \<longleftrightarrow> (\<forall>t t' q. f t = Some q \<and> f t' = Some q \<longrightarrow> t = t')"

definition m_inv :: "mpmc \<Rightarrow> bool" where
  "m_inv s \<longleftrightarrow> inv_shape (m_ring s) \<and> length (m_claimed s) = unat (head_seq s) \<and>
     inv_phase (m_cap s) (unat (head_seq s)) (unat (tail_seq s)) (m_phase s) \<and>
     inv_seq (m_ring s) (m_phase s) \<and> inv_data (m_ring s) (m_phase s) (m_healed s) (m_claimed s) \<and>
     (\<forall>t. prod_ok s t (m_prod s t)) \<and> (\<forall>t. cons_ok s t (m_cons s t)) \<and>
     one_owner (write_pos \<circ> m_prod s) \<and> one_owner (read_pos \<circ> m_cons s) \<and>
     returned_ok s"

section \<open>Slots of live positions are distinct\<close>

definition live :: "nat \<Rightarrow> (nat \<Rightarrow> phase) \<Rightarrow> nat \<Rightarrow> bool" where
  "live cap ph q \<longleftrightarrow> ph q \<in> {Writing, Ready, Reading} \<or> slot_free cap ph q"

lemma phase_window:
  assumes "inv_phase cap P C ph" "ph q \<in> {Writing, Ready, Reading}"
  shows "q < P" "P \<le> q + cap"
  using assms unfolding inv_phase_def by (metis insertE not_less phase.distinct singletonD)+

lemma same_index_apart:
  assumes "(q :: nat) mod cap = q' mod cap" "q < q'"
  shows "q + cap \<le> q'"
proof -
  have "cap dvd q' - q" using assms by (metis mod_eq_dvd_iff_nat less_imp_le)
  then have "cap \<le> q' - q" using assms(2) by (intro dvd_imp_le) simp_all
  then show ?thesis using assms(2) by simp
qed

lemma live_unique_less:
  assumes ph: "inv_phase cap P C ph" and "live cap ph q" "live cap ph q'" "q mod cap = q' mod cap"
  shows "\<not> q < q'"
proof
  assume lt: "q < q'"
  note apart = same_index_apart [OF assms(4) lt]
  have in_win: "P \<le> q + cap"
  proof (cases "ph q = Unclaimed")
    case True
    then have "P \<le> q" using ph by (simp add: inv_phase_def)
    then show ?thesis by simp
  next
    case False
    then have "ph q \<in> {Writing, Ready, Reading}" using assms(2) by (auto simp: live_def slot_free_def)
    with phase_window(2) [OF ph] show ?thesis .
  qed
  show False
  proof (cases "ph q' \<in> {Writing, Ready, Reading}")
    case True
    with phase_window [OF ph True] in_win apart show False by simp
  next
    case False
    then have free: "ph q' = Unclaimed" "q' < cap \<or> ph (q' - cap) = Released"
      using assms(3) by (auto simp: live_def slot_free_def)
    then have rel: "ph (q' - cap) = Released" using apart by auto
    then have "q' - cap < P" using ph unfolding inv_phase_def by (metis not_less phase.distinct(7))
    moreover have "(q' - cap) mod cap = q mod cap" using apart assms(4) by (simp add: le_mod_geq)
    ultimately have "q' - cap = q"
      using same_index_apart [of q cap "q' - cap"] apart in_win by force
    with rel assms(2) show False by (auto simp: live_def slot_free_def)
  qed
qed

lemma live_unique:
  "inv_phase cap P C ph \<Longrightarrow> live cap ph q \<Longrightarrow> live cap ph q' \<Longrightarrow> q mod cap = q' mod cap \<longleftrightarrow> q = q'"
  using live_unique_less [of cap P C ph q q'] live_unique_less [of cap P C ph q' q] by (metis nat_neq_iff)

section \<open>Ring updates on numbered slots\<close>

lemma slot_at_nslot: "inv_shape r \<Longrightarrow> slot_at r pos = nslot r (unat pos)"
  unfolding inv_shape_def slot_at_def using slot_idx_mod by metis

lemma nslot_set_slot:
  assumes "inv_shape r"
  shows "nslot (set_slot pos sl r) q = (if q mod ring_capacity r = unat pos mod ring_capacity r then sl else nslot r q)"
proof -
  obtain m where m: "ring_capacity r = 2 ^ m" "m < 64" using assms by (auto simp: inv_shape_def)
  have "0 < ring_capacity r" using m by simp
  then have "unat pos mod ring_capacity r < length (ring_slots r)" using assms by (simp add: inv_shape_def)
  then show ?thesis by (auto simp: set_slot_def slot_idx_mod [OF m] nth_list_update)
qed

lemma inv_shape_set_slot:
  assumes "inv_shape r" "length (slot_payload sl) = PAYLOAD_BYTES"
  shows "inv_shape (set_slot pos sl r)"
  using assms by (auto simp: inv_shape_def set_slot_def dest!: set_update_subset_insert [THEN subsetD])

lemma nslot_payload_length: "inv_shape r \<Longrightarrow> length (slot_payload (nslot r q)) = PAYLOAD_BYTES"
  unfolding inv_shape_def by (metis mod_less_divisor nth_mem power_eq_0_iff zero_neq_numeral not_gr0)

lemma inv_shape_seqs [simp]:
  "inv_shape (set_producer_seq v r) = inv_shape r" "inv_shape (set_consumer_seq v r) = inv_shape r"
  by (simp_all add: inv_shape_def)

lemma inv_seq_seqs [simp]:
  "inv_seq (set_producer_seq v r) ph = inv_seq r ph" "inv_seq (set_consumer_seq v r) ph = inv_seq r ph"
  "inv_data (set_producer_seq v r) ph h cl = inv_data r ph h cl" "inv_data (set_consumer_seq v r) ph h cl = inv_data r ph h cl"
  by (simp_all add: inv_seq_def inv_data_def)

lemma sint_eq_0: "sint (a - b :: u64) = 0 \<longleftrightarrow> a = b"
  by (metis right_minus_eq signed_eq_0_iff)

section \<open>Steps that change one program point\<close>

lemma prod_ok_pcs [simp]:
  "prod_ok (s\<lparr>m_prod := f\<rparr>) t pc = prod_ok s t pc" "prod_ok (s\<lparr>m_cons := g\<rparr>) t pc = prod_ok s t pc"
  by (cases pc; simp)+

lemma cons_ok_pcs [simp]:
  "cons_ok (s\<lparr>m_prod := f\<rparr>) t pc = cons_ok s t pc" "cons_ok (s\<lparr>m_cons := g\<rparr>) t pc = cons_ok s t pc"
  by (cases pc; simp)+

lemma one_owner_upd:
  assumes "one_owner f" "v = None \<or> v = f t \<or> (\<forall>t'. t' \<noteq> t \<longrightarrow> f t' \<noteq> v)"
  shows "one_owner (f(t := v))"
  using assms unfolding one_owner_def by (metis fun_upd_apply option.distinct(1))

lemma inv_returnedD:
  assumes "inv_returned ret ph healed claimed con"
  shows "distinct (map (fst \<circ> snd) ret)"
    "(t, q, b) \<in> set ret \<Longrightarrow> ph q = Released \<and> (q \<notin> healed \<longrightarrow> b = snd (claimed ! q))"
    "ph q = Released \<Longrightarrow> q \<in> (fst \<circ> snd) ` set ret"
    "ph q = Reading \<Longrightarrow> \<exists>t. read_pos (con t) = Some q"
    "sorted_wrt (<) (map (fst \<circ> snd) (filter (\<lambda>e. fst e = t) ret))"
  using assms unfolding inv_returned_def by auto

lemma inv_returned_mono:
  assumes "inv_returned ret ph healed claimed con"
    and "\<And>q. ph' q = Released \<longleftrightarrow> ph q = Released" "\<And>q. ph' q = Reading \<Longrightarrow> \<exists>t. read_pos (con' t) = Some q"
    and "\<And>q. ph q = Released \<Longrightarrow> (q \<in> healed' \<longleftrightarrow> q \<in> healed) \<and> claimed' ! q = claimed ! q"
  shows "inv_returned ret ph' healed' claimed' con'"
  unfolding inv_returned_def
proof (intro conjI ballI allI impI)
  show "case e of (t, q, b) \<Rightarrow> ph' q = Released \<and> (q \<notin> healed' \<longrightarrow> b = snd (claimed' ! q))" if "e \<in> set ret" for e
  proof -
    obtain t q b where e: "e = (t, q, b)" by (cases e)
    with inv_returnedD(2) [OF assms(1), of t q b] assms(2,4) [of q] that show ?thesis by simp
  qed
  show "q \<in> (fst \<circ> snd) ` set ret" if "ph' q = Released" for q
    using that assms(2) inv_returnedD(3) [OF assms(1), of q] by simp
qed (use assms(3) inv_returnedD(1,5) [OF assms(1)] in simp_all)

lemma prod_step_inv:
  assumes "m_inv s" "prod_ok s t pc" "write_pos pc = None \<or> write_pos pc = write_pos (m_prod s t)"
  shows "m_inv (s\<lparr>m_prod := (m_prod s)(t := pc)\<rparr>)"
proof -
  have "one_owner ((write_pos \<circ> m_prod s)(t := write_pos pc))"
    using assms by (intro one_owner_upd) (auto simp: m_inv_def)
  with assms show ?thesis by (simp add: m_inv_def fun_upd_comp)
qed

lemma cons_step_inv:
  assumes "m_inv s" "cons_ok s t pc" "read_pos pc = read_pos (m_cons s t)"
  shows "m_inv (s\<lparr>m_cons := (m_cons s)(t := pc)\<rparr>)"
proof -
  have same: "(read_pos \<circ> m_cons s)(t := read_pos pc) = read_pos \<circ> m_cons s" using assms(3) by auto
  have ok: "returned_ok s" using assms(1) by (simp add: m_inv_def)
  have "\<exists>t'. read_pos (((m_cons s)(t := pc)) t') = Some q" if rd: "m_phase s q = Reading" for q
  proof -
    from inv_returnedD(4) [OF ok, of q] rd obtain t' where "read_pos (m_cons s t') = Some q" by blast
    then show ?thesis using assms(3) by (intro exI [of _ t']) auto
  qed
  then have "inv_returned (m_returned s) (m_phase s) (m_healed s) (m_claimed s) ((m_cons s)(t := pc))"
    by (intro inv_returned_mono [OF ok]) blast+
  with same assms show ?thesis by (simp add: m_inv_def fun_upd_comp)
qed

section \<open>Steps of a producer\<close>

lemma m_invD:
  assumes "m_inv s"
  shows "inv_shape (m_ring s)" "length (m_claimed s) = unat (head_seq s)"
    "inv_phase (m_cap s) (unat (head_seq s)) (unat (tail_seq s)) (m_phase s)"
    "inv_seq (m_ring s) (m_phase s)" "inv_data (m_ring s) (m_phase s) (m_healed s) (m_claimed s)"
    "prod_ok s t (m_prod s t)" "cons_ok s t (m_cons s t)"
    "one_owner (write_pos \<circ> m_prod s)" "one_owner (read_pos \<circ> m_cons s)" "returned_ok s"
  using assms by (simp_all add: m_inv_def)

lemma writer_phase:
  assumes "m_inv s" "write_pos (m_prod s t) = Some q"
  shows "m_phase s q = Writing"
  using assms(2) m_invD(6) [OF assms(1), of t] by (cases "m_prod s t") auto

lemma reader_phase:
  assumes "m_inv s" "read_pos (m_cons s t) = Some q"
  shows "m_phase s q = Reading"
  using assms(2) m_invD(7) [OF assms(1), of t] by (cases "m_cons s t") auto

lemma inv_phaseD:
  assumes "inv_phase cap P C ph"
  shows "C \<le> P" "ph q = Unclaimed \<longleftrightarrow> P \<le> q" "C \<le> q \<Longrightarrow> q < P \<Longrightarrow> ph q \<in> {Writing, Ready}"
    "q < C \<Longrightarrow> ph q \<in> {Reading, Released}" "q + cap < P \<Longrightarrow> ph q = Released"
  using assms unfolding inv_phase_def by blast+

lemma inv_phase_claim:
  assumes ph: "inv_phase cap P C ph" and free: "slot_free cap ph P"
  shows "inv_phase cap (P + 1) C (ph(P := Writing))"
  unfolding inv_phase_def
proof (intro conjI allI impI)
  have un: "ph P = Unclaimed" using free by (simp add: slot_free_def)
  show "C \<le> P + 1" using inv_phaseD(1) [OF ph] by simp
  fix q
  show "((ph(P := Writing)) q = Unclaimed) = (P + 1 \<le> q)" using inv_phaseD(2) [OF ph, of q] by auto
  show "(ph(P := Writing)) q \<in> {Writing, Ready}" if "C \<le> q \<and> q < P + 1"
    using inv_phaseD(3) [OF ph, of q] that by auto
  show "(ph(P := Writing)) q \<in> {Reading, Released}" if "q < C"
    using inv_phaseD(4) [OF ph, of q] inv_phaseD(1) [OF ph] that by auto
  show "(ph(P := Writing)) q = Released" if "q + cap < P + 1"
  proof -
    have "ph q = Released"
      using inv_phaseD(5) [OF ph, of q] free that by (cases "q + cap = P") (auto simp: slot_free_def)
    with un show ?thesis by auto
  qed
qed

lemma inv_seq_claim:
  assumes "inv_seq r ph" "slot_free (ring_capacity r) ph P"
  shows "inv_seq r (ph(P := Writing))"
  unfolding inv_seq_def
proof (intro allI conjI impI)
  fix q
  show "slot_sequence (nslot r q) = of_nat q" if "(ph(P := Writing)) q = Writing"
    using that assms by (auto simp: inv_seq_def split: if_splits)
  show "slot_sequence (nslot r q) = of_nat (q + 1)" if "(ph(P := Writing)) q \<in> {Ready, Reading}"
    using that assms(1) by (auto simp: inv_seq_def split: if_splits)
  show "slot_sequence (nslot r q) = of_nat q" if "slot_free (ring_capacity r) (ph(P := Writing)) q"
  proof -
    have "slot_free (ring_capacity r) ph q" using that by (auto simp: slot_free_def split: if_splits)
    with assms(1) show ?thesis by (simp add: inv_seq_def)
  qed
qed

lemma push_claim_inv:
  assumes inv: "m_inv s" and pc: "m_prod s t = P_Seq x pos seq" "sint (seq - pos) = 0" "head_seq s = pos"
    and bound: "length (m_claimed s) + 1 < 2 ^ 64"
  shows "m_inv (s\<lparr>m_prod := (m_prod s)(t := P_Writing x pos 0), m_ring := set_producer_seq (pos + 1) (m_ring s),
      m_claimed := m_claimed s @ [(t, write_payload x)], m_phase := (m_phase s)(unat pos := Writing)\<rparr>)"
    (is "m_inv ?s")
proof -
  note D = m_invD [OF inv]
  have seq: "seq = pos" using pc(2) sint_eq_0 by blast
  have free: "slot_free (m_cap s) (m_phase s) (unat pos)" and len: "length x \<le> PAYLOAD_BYTES"
    using D(6) [of t] pc seq by auto
  then have un: "m_phase s (unat pos) = Unclaimed" by (simp add: slot_free_def)
  have up: "unat (pos + 1) = unat pos + 1" using bound D(2) pc(3) by (simp add: unat_word_ariths)
  then have less: "pos < pos + 1" by (simp add: word_less_nat_alt)
  have inb: "q < length (m_claimed s)" if "m_phase s q \<noteq> Unclaimed" for q
    using that D(2,3) by (simp add: inv_phase_def not_le)
  have app: "(m_claimed s @ [(t, write_payload x)]) ! q = m_claimed s ! q" if "m_phase s q \<noteq> Unclaimed" for q
    using inb [OF that] by (simp add: nth_append)
  have prod: "prod_ok ?s t' (m_prod ?s t')" for t'
  proof (cases "t' = t")
    case True
    then show ?thesis using len D(2) pc(3) by (auto simp: nth_append)
  next
    case False
    with D(6) [of t'] un app pc(3) less show ?thesis by (cases "m_prod s t'") auto
  qed
  have cons: "cons_ok ?s t' (m_cons ?s t')" for t'
    using D(7) [of t'] un by (cases "m_cons s t'") auto
  have "write_pos (m_prod s t') \<noteq> Some (unat pos)" for t' using writer_phase [OF inv, of t'] un by auto
  then have own: "one_owner ((write_pos \<circ> m_prod s)(t := Some (unat pos)))"
    using D(8) by (intro one_owner_upd) auto
  have dat: "inv_data (m_ring s) ((m_phase s)(unat pos := Writing)) (m_healed s) (m_claimed s @ [(t, write_payload x)])"
    using D(5) app by (auto simp: inv_data_def)
  have ret: "returned_ok ?s" using un app
    by (auto intro!: inv_returned_mono [OF D(10)] inv_returnedD(4) [OF D(10)] split: if_splits)
  show ?thesis
    unfolding m_inv_def using prod cons own dat ret D(1,2,9) pc(3) up
      inv_phase_claim [OF D(3) free [folded pc(3)]] inv_seq_claim [OF D(4) free]
    by (simp add: fun_upd_comp)
qed

lemma nslot_live:
  assumes "m_inv s" "live (m_cap s) (m_phase s) (unat pos)" "live (m_cap s) (m_phase s) q"
  shows "nslot (set_slot pos sl (m_ring s)) q = (if q = unat pos then sl else nslot (m_ring s) q)"
  using live_unique [OF m_invD(3) [OF assms(1)] assms(3,2)] nslot_set_slot [OF m_invD(1) [OF assms(1)], of pos sl q]
  by simp

lemma live_active: "ph q \<in> {Writing, Ready, Reading} \<Longrightarrow> live cap ph q"
  by (simp add: live_def)

lemma reader_elsewhere:
  assumes inv: "m_inv s" and pos: "m_phase s (unat pos) = Writing" and ok: "cons_ok s t pc"
  shows "cons_ok (s\<lparr>m_ring := set_slot pos sl (m_ring s)\<rparr>) t pc"
proof (cases pc)
  case (C_Reading p out)
  with ok have "m_phase s (unat p) = Reading" by simp
  with nslot_live [OF inv, of pos "unat p" sl] pos
  have "nslot (set_slot pos sl (m_ring s)) (unat p) = nslot (m_ring s) (unat p)" by (auto simp: live_active)
  with C_Reading ok show ?thesis by simp
qed (use ok in auto)

lemma writer_elsewhere:
  assumes inv: "m_inv s" and pos: "m_phase s (unat pos) \<in> {Writing, Reading}" and ok: "prod_ok s t pc"
    and other: "write_pos pc \<noteq> Some (unat pos)"
  shows "prod_ok (s\<lparr>m_ring := set_slot pos sl (m_ring s)\<rparr>) t pc"
proof (cases pc)
  case (P_Writing x p k)
  with ok have "m_phase s (unat p) = Writing" by simp
  with nslot_live [OF inv, of pos "unat p" sl] pos other P_Writing
  have "nslot (set_slot pos sl (m_ring s)) (unat p) = nslot (m_ring s) (unat p)" by (auto simp: live_active)
  with P_Writing ok show ?thesis by simp
qed (use ok in auto)

lemma other_writer:
  assumes "m_inv s" "write_pos (m_prod s t) = Some q" "t' \<noteq> t"
  shows "write_pos (m_prod s t') \<noteq> Some q"
  using assms m_invD(8) [OF assms(1)] by (auto simp: one_owner_def)

lemma push_byte_inv:
  assumes inv: "m_inv s" and pc: "m_prod s t = P_Writing x pos k" "k < PAYLOAD_BYTES"
  shows "m_inv (s\<lparr>m_prod := (m_prod s)(t := P_Writing x pos (Suc k)),
      m_ring := set_slot pos ((m_slot s pos)\<lparr>slot_payload := (slot_payload (m_slot s pos))[k := write_payload x ! k]\<rparr>)
        (m_ring s)\<rparr>)" (is "m_inv ?s")
proof -
  note D = m_invD [OF inv]
  let ?b = "(slot_payload (nslot (m_ring s) (unat pos)))[k := write_payload x ! k]"
  let ?sl = "(nslot (m_ring s) (unat pos))\<lparr>slot_payload := ?b\<rparr>"
  have ring: "m_ring ?s = set_slot pos ?sl (m_ring s)" using slot_at_nslot [OF D(1)] by simp
  have ok: "length x \<le> PAYLOAD_BYTES" "m_phase s (unat pos) = Writing" "m_claimed s ! unat pos = (t, write_payload x)"
    "take k (slot_payload (nslot (m_ring s) (unat pos))) = take k (write_payload x)"
    using D(6) [of t] pc by auto
  have len: "length ?b = PAYLOAD_BYTES" using nslot_payload_length [OF D(1)] by simp
  have tk: "take (Suc k) ?b = take (Suc k) (write_payload x)"
    using ok(4) pc(2) nslot_payload_length [OF D(1), of "unat pos"] length_write_payload [OF ok(1)]
    by (simp add: take_Suc_conv_app_nth)
  note at = nslot_live [OF inv live_active, of pos _ ?sl]
  have prod: "prod_ok ?s t' (m_prod ?s t')" for t'
  proof (cases "t' = t")
    case True
    then show ?thesis using ok tk pc(2) at [of "unat pos"] ring by (simp add: live_active)
  next
    case False
    then have "write_pos (m_prod s t') \<noteq> Some (unat pos)" using other_writer [OF inv, of t "unat pos"] pc by simp
    with writer_elsewhere [OF inv _ D(6) this, of ?sl] ok(2) ring False show ?thesis by (cases "m_prod s t'") auto
  qed
  have cons: "cons_ok ?s t' (m_cons ?s t')" for t'
    using reader_elsewhere [OF inv ok(2) D(7), of ?sl t'] ring by (cases "m_cons s t'") auto
  have seq: "slot_sequence (nslot (set_slot pos ?sl (m_ring s)) q) = slot_sequence (nslot (m_ring s) q)" for q
    using nslot_set_slot [OF D(1), of pos ?sl q] by simp
  have iseq: "inv_seq (set_slot pos ?sl (m_ring s)) (m_phase s)" using D(4) unfolding inv_seq_def seq by simp
  have dat: "inv_data (set_slot pos ?sl (m_ring s)) (m_phase s) (m_healed s) (m_claimed s)"
    unfolding inv_data_def
  proof (intro allI impI)
    fix q assume q: "m_phase s q \<in> {Ready, Reading} \<and> q \<notin> m_healed s"
    then have "q \<noteq> unat pos" using ok(2) by auto
    with at [of q] q ok(2) D(5) show "slot_payload (nslot (set_slot pos ?sl (m_ring s)) q) = snd (m_claimed s ! q)"
      by (auto simp: live_active inv_data_def)
  qed
  have own: "one_owner ((write_pos \<circ> m_prod s)(t := Some (unat pos)))" using D(8) pc(1) by (intro one_owner_upd) auto
  show ?thesis
    unfolding m_inv_def ring using prod cons own dat iseq D(2,3,9,10) len inv_shape_set_slot [OF D(1), of ?sl pos] ring
    by (simp add: fun_upd_comp)
qed

text \<open>Publishing, by the producer itself or by the repair.\<close>

lemma inv_phase_advance:
  assumes "inv_phase cap P C ph" "(ph q, v) \<in> {(Writing, Ready), (Reading, Released)}"
  shows "inv_phase cap P C (ph(q := v))"
  unfolding inv_phase_def
proof (intro conjI allI impI)
  show "C \<le> P" by (rule inv_phaseD(1) [OF assms(1)])
  fix q'
  note D = inv_phaseD(1) [OF assms(1)] inv_phaseD(2-5) [OF assms(1), of q']
  show "((ph(q := v)) q' = Unclaimed) = (P \<le> q')" using assms(2) D(2) by auto
  show "(ph(q := v)) q' \<in> {Writing, Ready}" if "C \<le> q' \<and> q' < P" using assms(2) D(3) that by auto
  show "(ph(q := v)) q' \<in> {Reading, Released}" if "q' < C" using assms(2) D(4) that by auto
  show "(ph(q := v)) q' = Released" if "q' + cap < P" using assms(2) D(5) that by auto
qed

lemma slot_free_advance:
  assumes "ph q \<noteq> Unclaimed" "v \<notin> {Unclaimed, Released}" "ph q \<noteq> Released"
  shows "slot_free cap (ph(q := v)) q' = slot_free cap ph q'"
  using assms by (auto simp: slot_free_def)

lemma publish_inv:
  assumes inv: "m_inv s" and pc: "write_pos (m_prod s t) = Some (unat pos)"
    and healed: "unat pos \<notin> h \<longrightarrow> slot_payload (nslot (m_ring s) (unat pos)) = snd (m_claimed s ! unat pos)"
      "h - {unat pos} = m_healed s - {unat pos}"
  shows "m_inv (s\<lparr>m_prod := (m_prod s)(t := P_Idle),
      m_ring := set_slot pos ((m_slot s pos)\<lparr>slot_sequence := pos + 1\<rparr>) (m_ring s), m_healed := h,
      m_phase := (m_phase s)(unat pos := Ready)\<rparr>)" (is "m_inv ?s")
proof -
  note D = m_invD [OF inv]
  let ?sl = "(nslot (m_ring s) (unat pos))\<lparr>slot_sequence := pos + 1\<rparr>"
  have ring: "m_ring ?s = set_slot pos ?sl (m_ring s)" using slot_at_nslot [OF D(1)] by simp
  have w: "m_phase s (unat pos) = Writing" by (rule writer_phase [OF inv pc])
  note at = nslot_live [OF inv live_active, of pos _ ?sl]
  note free = slot_free_advance [of "m_phase s" "unat pos" Ready, unfolded w, simplified]
  have h: "q \<in> h \<longleftrightarrow> q \<in> m_healed s" if "q \<noteq> unat pos" for q using healed(2) that by blast
  have prod: "prod_ok ?s t' (m_prod ?s t')" for t'
  proof (cases "t' = t")
    case False
    then have o: "write_pos (m_prod s t') \<noteq> Some (unat pos)" using other_writer [OF inv pc] by simp
    with writer_elsewhere [OF inv _ D(6) o, of ?sl] w ring False free show ?thesis by (cases "m_prod s t'") auto
  qed simp
  have cons: "cons_ok ?s t' (m_cons ?s t')" for t'
    using reader_elsewhere [OF inv w D(7), of ?sl t'] ring w by (cases "m_cons s t'") auto
  have iseq: "inv_seq (set_slot pos ?sl (m_ring s)) ((m_phase s)(unat pos := Ready))"
    unfolding inv_seq_def
  proof (intro allI conjI impI)
    fix q
    let ?n = "nslot (set_slot pos ?sl (m_ring s)) q"
    have old: "slot_sequence (nslot (m_ring s) q) = of_nat q" if "m_phase s q = Writing \<or> slot_free (m_cap s) (m_phase s) q"
      using D(4) that by (auto simp: inv_seq_def)
    show "slot_sequence ?n = of_nat q" if "((m_phase s)(unat pos := Ready)) q = Writing"
      using at [of q] that w old by (auto simp: live_active split: if_splits)
    show "slot_sequence ?n = of_nat (q + 1)" if "((m_phase s)(unat pos := Ready)) q \<in> {Ready, Reading}"
      using at [of q] that w D(4) by (cases "q = unat pos") (auto simp: live_active inv_seq_def)
    show "slot_sequence ?n = of_nat q"
      if "slot_free (ring_capacity (set_slot pos ?sl (m_ring s))) ((m_phase s)(unat pos := Ready)) q"
    proof -
      have f: "slot_free (m_cap s) (m_phase s) q" using that free by simp
      then have "q \<noteq> unat pos" using w by (auto simp: slot_free_def)
      with f at [of q] w nslot_live [OF inv live_active, of pos q ?sl] old show ?thesis by (simp add: live_def)
    qed
  qed
  have dat: "inv_data (set_slot pos ?sl (m_ring s)) ((m_phase s)(unat pos := Ready)) h (m_claimed s)"
    unfolding inv_data_def
  proof (intro allI impI)
    fix q assume q: "((m_phase s)(unat pos := Ready)) q \<in> {Ready, Reading} \<and> q \<notin> h"
    show "slot_payload (nslot (set_slot pos ?sl (m_ring s)) q) = snd (m_claimed s ! q)"
      using at [of q] q w D(5) h [of q] healed(1) by (cases "q = unat pos") (auto simp: live_active inv_data_def)
  qed
  have own: "one_owner ((write_pos \<circ> m_prod s)(t := None))" using D(8) by (intro one_owner_upd) auto
  have shape: "inv_shape (set_slot pos ?sl (m_ring s))"
    using nslot_payload_length [OF D(1)] by (intro inv_shape_set_slot [OF D(1)]) simp
  have "q \<in> h \<longleftrightarrow> q \<in> m_healed s" if "m_phase s q = Released" for q using h [of q] w that by force
  then have ret: "returned_ok ?s" using w
    by (auto intro!: inv_returned_mono [OF D(10)] inv_returnedD(4) [OF D(10)] split: if_splits)
  show ?thesis
    unfolding m_inv_def ring
    using prod cons own dat iseq D(2,9) inv_phase_advance [OF D(3), of "unat pos" Ready] w shape ret ring
    by (simp add: fun_upd_comp)
qed

section \<open>Steps of a consumer\<close>

lemma inv_phase_take:
  assumes ph: "inv_phase cap P C ph" and ready: "ph C = Ready"
  shows "inv_phase cap P (C + 1) (ph(C := Reading))"
  unfolding inv_phase_def
proof (intro conjI allI impI)
  show "C + 1 \<le> P" using inv_phaseD(2) [OF ph, of C] ready by auto
  fix q
  note D = inv_phaseD(2-5) [OF ph, of q]
  show "((ph(C := Reading)) q = Unclaimed) = (P \<le> q)" using D(1) ready by auto
  show "(ph(C := Reading)) q \<in> {Writing, Ready}" if "C + 1 \<le> q \<and> q < P" using D(2) that by auto
  show "(ph(C := Reading)) q \<in> {Reading, Released}" if "q < C + 1" using D(3) that by auto
  show "(ph(C := Reading)) q = Released" if "q + cap < P" using D(4) that ready by auto
qed

lemma returned_before:
  assumes "m_inv s" "(t, q, b) \<in> set (m_returned s)"
  shows "q < unat (tail_seq s)"
proof (rule ccontr)
  assume "\<not> q < unat (tail_seq s)"
  moreover have "m_phase s q = Released" using inv_returnedD(2) [OF m_invD(10) [OF assms(1)] assms(2)] by simp
  ultimately show False using inv_phaseD(2,3) [OF m_invD(3) [OF assms(1)], of q] by (cases "q < unat (head_seq s)") auto
qed

lemma pop_claim_inv:
  assumes inv: "m_inv s" and pc: "m_cons s t = C_Seq pos seq" "sint (seq - (pos + 1)) = 0" "tail_seq s = pos"
  shows "m_inv (s\<lparr>m_cons := (m_cons s)(t := C_Reading pos []), m_ring := set_consumer_seq (pos + 1) (m_ring s),
      m_phase := (m_phase s)(unat pos := Reading)\<rparr>)" (is "m_inv ?s")
proof -
  note D = m_invD [OF inv]
  have "seq = pos + 1" using pc(2) sint_eq_0 by blast
  then have ready: "m_phase s (unat pos) = Ready" using D(7) [of t] pc by simp
  then have "unat pos < unat (head_seq s)" using inv_phaseD(2) [OF D(3), of "unat pos"] by auto
  then have up: "unat (pos + 1) = unat pos + 1" by (intro unat_Suc_less) (simp add: word_less_nat_alt)
  then have less: "pos < pos + 1" by (simp add: word_less_nat_alt)
  note free = slot_free_advance [of "m_phase s" "unat pos" Reading, unfolded ready, simplified]
  have prod: "prod_ok ?s t' (m_prod ?s t')" for t'
    using D(6) [of t'] ready free by (cases "m_prod s t'") auto
  have cons: "cons_ok ?s t' (m_cons ?s t')" for t'
  proof (cases "t' = t")
    case True
    then show ?thesis using returned_before [OF inv] pc(3) by auto
  next
    case False
    with D(7) [of t'] ready pc(3) less show ?thesis by (cases "m_cons s t'") auto
  qed
  have "read_pos (m_cons s t') \<noteq> Some (unat pos)" for t' using reader_phase [OF inv, of t'] ready by auto
  then have own: "one_owner ((read_pos \<circ> m_cons s)(t := Some (unat pos)))" using D(9) by (intro one_owner_upd) auto
  have iseq: "inv_seq (m_ring s) ((m_phase s)(unat pos := Reading))"
    using D(4) ready unfolding inv_seq_def free by auto
  have dat: "inv_data (m_ring s) ((m_phase s)(unat pos := Reading)) (m_healed s) (m_claimed s)"
    using D(5) ready by (auto simp: inv_data_def)
  have "\<exists>t'. read_pos (((m_cons s)(t := C_Reading pos [])) t') = Some q"
    if rd: "((m_phase s)(unat pos := Reading)) q = Reading" for q
  proof (cases "q = unat pos")
    case False
    then obtain t' where "read_pos (m_cons s t') = Some q" using rd inv_returnedD(4) [OF D(10), of q] by auto
    then show ?thesis using pc(1) by (intro exI [of _ t']) auto
  qed (auto intro: exI [of _ t])
  then have "inv_returned (m_returned s) ((m_phase s)(unat pos := Reading)) (m_healed s) (m_claimed s)
      ((m_cons s)(t := C_Reading pos []))"
    using ready by (intro inv_returned_mono [OF D(10)]) auto
  then have ret: "returned_ok ?s" by simp
  show ?thesis
    unfolding m_inv_def using prod cons own dat iseq ret D(1,2,8) up pc(3) inv_phase_take [OF D(3)] ready
    by (simp add: fun_upd_comp)
qed

lemma slot_free_release:
  assumes "inv_phase cap P C ph" "ph q = Reading"
  shows "slot_free cap (ph(q := Released)) q' \<longleftrightarrow> slot_free cap ph q' \<or> (q' = q + cap \<and> ph q' = Unclaimed)"
  using assms(2) inv_phaseD(2) [OF assms(1), of q'] by (auto simp: slot_free_def)

lemma pop_release_inv:
  assumes inv: "m_inv s" and pc: "m_cons s t = C_Reading pos out" "length out = PAYLOAD_BYTES"
  shows "m_inv (s\<lparr>m_cons := (m_cons s)(t := C_Idle),
      m_ring := set_slot pos ((m_slot s pos)\<lparr>slot_sequence := pos + of_nat (m_cap s)\<rparr>) (m_ring s),
      m_returned := m_returned s @ [(t, unat pos, out)], m_phase := (m_phase s)(unat pos := Released)\<rparr>)" (is "m_inv ?s")
proof -
  note D = m_invD [OF inv]
  let ?q = "unat pos" and ?ph = "(m_phase s)(unat pos := Released)"
  let ?sl = "(nslot (m_ring s) ?q)\<lparr>slot_sequence := pos + of_nat (m_cap s)\<rparr>"
  have ring: "m_ring ?s = set_slot pos ?sl (m_ring s)" using slot_at_nslot [OF D(1)] by simp
  have ok: "m_phase s ?q = Reading" "out = slot_payload (nslot (m_ring s) ?q)"
    "\<forall>(t', q, b)\<in>set (m_returned s). t' = t \<longrightarrow> q < ?q"
    using D(7) [of t] pc nslot_payload_length [OF D(1), of ?q] by auto
  note at = nslot_live [OF inv live_active, of pos _ ?sl]
  note free = slot_free_release [OF D(3) ok(1)]
  have other: "read_pos (m_cons s t') \<noteq> Some ?q" if "t' \<noteq> t" for t'
    using that pc(1) D(9) by (force simp: one_owner_def)
  have prod: "prod_ok ?s t' (m_prod ?s t')" for t'
  proof -
    have "write_pos (m_prod s t') \<noteq> Some ?q" using writer_phase [OF inv, of t'] ok(1) by auto
    with writer_elsewhere [OF inv _ D(6) this, of ?sl] ok(1) ring free show ?thesis by (cases "m_prod s t'") auto
  qed
  have cons: "cons_ok ?s t' (m_cons ?s t')" for t'
  proof (cases "t' = t")
    case False
    show ?thesis
    proof (cases "m_cons s t'")
      case (C_Reading p o')
      with False other [of t'] have ne: "unat p \<noteq> ?q" by auto
      have rd: "m_phase s (unat p) = Reading" using D(7) [of t'] C_Reading by simp
      have "nslot (set_slot pos ?sl (m_ring s)) (unat p) = nslot (m_ring s) (unat p)"
        using at [of "unat p"] ne rd ok(1) by (simp add: live_active)
      with C_Reading False D(7) [of t'] ne ring show ?thesis by auto
    qed (use False D(7) [of t'] ok(1) in auto)
  qed simp
  have iseq: "inv_seq (set_slot pos ?sl (m_ring s)) ?ph"
    unfolding inv_seq_def
  proof (intro allI conjI impI)
    fix q
    let ?n = "nslot (set_slot pos ?sl (m_ring s)) q"
    show "slot_sequence ?n = of_nat q" if "?ph q = Writing"
      using at [of q] that ok(1) D(4) by (auto simp: live_active inv_seq_def split: if_splits)
    show "slot_sequence ?n = of_nat (q + 1)" if "?ph q \<in> {Ready, Reading}"
      using at [of q] that ok(1) D(4) by (auto simp: live_active inv_seq_def split: if_splits)
    show "slot_sequence ?n = of_nat q" if "slot_free (ring_capacity (set_slot pos ?sl (m_ring s))) ?ph q"
    proof (cases "slot_free (m_cap s) (m_phase s) q")
      case True
      then have "q \<noteq> ?q" using ok(1) by (auto simp: slot_free_def)
      with True nslot_live [OF inv live_active, of pos q ?sl] ok(1) D(4) show ?thesis by (simp add: live_def inv_seq_def)
    next
      case False
      with that free have q: "q = ?q + m_cap s" by simp
      then have "?n = ?sl" using nslot_set_slot [OF D(1), of pos ?sl q] by simp
      with q show ?thesis by simp
    qed
  qed
  have dat: "inv_data (set_slot pos ?sl (m_ring s)) ?ph (m_healed s) (m_claimed s)"
    unfolding inv_data_def
  proof (intro allI impI)
    fix q assume q: "?ph q \<in> {Ready, Reading} \<and> q \<notin> m_healed s"
    then have "q \<noteq> ?q" by auto
    then show "slot_payload (nslot (set_slot pos ?sl (m_ring s)) q) = snd (m_claimed s ! q)"
      using at [of q] q ok(1) D(5) by (auto simp: live_active inv_data_def)
  qed
  have own: "one_owner ((read_pos \<circ> m_cons s)(t := None))" using D(9) by (intro one_owner_upd) auto
  have shape: "inv_shape (set_slot pos ?sl (m_ring s))"
    using nslot_payload_length [OF D(1)] by (intro inv_shape_set_slot [OF D(1)]) simp
  have new: "?q \<notin> (fst \<circ> snd) ` set (m_returned s)" using inv_returnedD(2) [OF D(10)] ok(1) by force
  have val: "?q \<notin> m_healed s \<longrightarrow> out = snd (m_claimed s ! ?q)" using D(5) ok by (auto simp: inv_data_def)
  have rd: "\<exists>t'. read_pos (((m_cons s)(t := C_Idle)) t') = Some q" if "?ph q = Reading" for q
  proof -
    from that obtain t' where t': "read_pos (m_cons s t') = Some q" "q \<noteq> ?q"
      using inv_returnedD(4) [OF D(10), of q] by (auto split: if_splits)
    then have "t' \<noteq> t" using pc(1) by auto
    with t' show ?thesis by (intro exI [of _ t']) simp
  qed
  have srt: "sorted_wrt (<) (map (fst \<circ> snd) (filter (\<lambda>e. fst e = t') (m_returned s @ [(t, ?q, out)])))" for t'
    using inv_returnedD(5) [OF D(10), of t'] ok(3) by (auto simp: sorted_wrt_append)
  have ret: "returned_ok ?s"
    unfolding inv_returned_def
  proof (intro conjI ballI allI impI)
    show "distinct (map (fst \<circ> snd) (m_returned ?s))" using inv_returnedD(1) [OF D(10)] new by simp
    show "case e of (t, q, b) \<Rightarrow> m_phase ?s q = Released \<and> (q \<notin> m_healed ?s \<longrightarrow> b = snd (m_claimed ?s ! q))"
      if "e \<in> set (m_returned ?s)" for e
      using that inv_returnedD(2) [OF D(10)] val by auto
    show "q \<in> (fst \<circ> snd) ` set (m_returned ?s)" if "m_phase ?s q = Released" for q
      using that inv_returnedD(3) [OF D(10), of q] by (auto split: if_splits)
  qed (use rd srt in auto)
  show ?thesis
    unfolding m_inv_def ring
    using prod cons own dat iseq D(2,8) inv_phase_advance [OF D(3), of ?q Released] ok(1) shape ret ring
    by (simp add: fun_upd_comp)
qed

section \<open>Every step preserves the invariant\<close>

lemma cap_at_least_2: "inv_shape r \<Longrightarrow> 2 \<le> ring_capacity r"
  unfolding inv_shape_def by (metis power_increasing one_le_numeral power_one_right)

lemma index_lap: "cap \<le> q \<Longrightarrow> (q - cap) mod cap = q mod cap" for q cap :: nat
  by (simp add: le_mod_geq)

lemma u64_inj: "(of_nat m :: u64) = of_nat n \<Longrightarrow> m < 2 ^ 64 \<Longrightarrow> n < 2 ^ 64 \<Longrightarrow> m = n"
  using of_nat_word_inj [of m n, where 'a = 64] by simp

lemma loaded_free:
  assumes inv: "m_inv s" and bound: "length (m_claimed s) + m_cap s < 2 ^ 64"
    and seq: "slot_sequence (nslot (m_ring s) (unat (head_seq s))) = head_seq s"
  shows "slot_free (m_cap s) (m_phase s) (unat (head_seq s))"
proof (rule ccontr)
  note D = m_invD [OF inv]
  let ?P = "unat (head_seq s)" and ?q = "unat (head_seq s) - m_cap s"
  assume nf: "\<not> slot_free (m_cap s) (m_phase s) ?P"
  have "m_phase s ?P = Unclaimed" using inv_phaseD(2) [OF D(3)] by simp
  with nf have ge: "m_cap s \<le> ?P" and nr: "m_phase s ?q \<noteq> Released" by (auto simp: slot_free_def)
  have cap: "2 \<le> m_cap s" by (rule cap_at_least_2 [OF D(1)])
  have "m_phase s ?q \<noteq> Unclaimed" using inv_phaseD(2) [OF D(3), of ?q] ge cap by simp
  with nr consider "m_phase s ?q = Writing" | "m_phase s ?q \<in> {Ready, Reading}" by (cases "m_phase s ?q") auto
  then have "(of_nat ?q :: u64) = of_nat ?P \<or> (of_nat (?q + 1) :: u64) = of_nat ?P"
    using D(4) seq index_lap [OF ge] by cases (auto simp: inv_seq_def)
  moreover have "?P < 2 ^ 64" "?q + 1 < 2 ^ 64" "?q < 2 ^ 64" using bound D(2) ge cap by linarith+
  ultimately have "?q = ?P \<or> ?q + 1 = ?P" using u64_inj by blast
  with ge cap show False by linarith
qed

lemma loaded_ready:
  assumes inv: "m_inv s" and bound: "length (m_claimed s) + m_cap s < 2 ^ 64"
    and seq: "slot_sequence (nslot (m_ring s) (unat (tail_seq s))) = tail_seq s + 1"
  shows "m_phase s (unat (tail_seq s)) = Ready"
proof (rule ccontr)
  note D = m_invD [OF inv]
  let ?C = "unat (tail_seq s)" and ?q = "unat (tail_seq s) - m_cap s"
  assume nr: "m_phase s ?C \<noteq> Ready"
  have cap: "2 \<le> m_cap s" by (rule cap_at_least_2 [OF D(1)])
  have CP: "?C \<le> unat (head_seq s)" by (rule inv_phaseD(1) [OF D(3)])
  have eq: "slot_sequence (nslot (m_ring s) ?C) = of_nat (?C + 1)" using seq by simp
  have "m_phase s ?C \<in> {Unclaimed, Writing}"
    using inv_phaseD(2,3) [OF D(3), of ?C] nr by (cases "?C < unat (head_seq s)") auto
  moreover have "m_phase s ?q \<in> {Reading, Released}" if "m_cap s \<le> ?C"
    using inv_phaseD(4) [OF D(3), of ?q] cap that by linarith
  ultimately consider "m_phase s ?C = Writing \<or> slot_free (m_cap s) (m_phase s) ?C"
    | "m_cap s \<le> ?C" "m_phase s ?q = Reading"
    by (cases "m_cap s \<le> ?C") (auto simp: slot_free_def)
  then have "(of_nat ?C :: u64) = of_nat (?C + 1) \<or> (m_cap s \<le> ?C \<and> (of_nat (?q + 1) :: u64) = of_nat (?C + 1))"
  proof cases
    case 1
    then show ?thesis using D(4) eq by (auto simp: inv_seq_def)
  next
    case 2
    then have "slot_sequence (nslot (m_ring s) ?q) = of_nat (?q + 1)" using D(4) by (simp add: inv_seq_def)
    with 2 eq index_lap [OF 2(1)] show ?thesis by simp
  qed
  moreover have "?C + 1 < 2 ^ 64" "?C < 2 ^ 64" "?q + 1 < 2 ^ 64" using bound D(2) CP cap by linarith+
  ultimately have "?C = ?C + 1 \<or> (m_cap s \<le> ?C \<and> ?q + 1 = ?C + 1)" using u64_inj by blast
  with cap show False by linarith
qed

lemma m_step_mono: "m_step s s' \<Longrightarrow> length (m_claimed s) \<le> length (m_claimed s') \<and> m_cap s' = m_cap s"
  by (auto simp: heal_stuck_slot_def elim!: m_step.cases m_push.cases m_heal.cases m_pop.cases split: if_splits)

lemma m_push_inv:
  assumes step: "m_push s s'" and inv: "m_inv s" and b: "length (m_claimed s) + m_cap s < 2 ^ 64"
  shows "m_inv s'"
proof -
  note D = m_invD [OF inv]
  from step show ?thesis
  proof cases
    case (push_load_pos t x)
    then show ?thesis using prod_step_inv [OF inv, of t "P_Pos x (head_seq s)"] by simp
  next
    case (push_load_seq t x pos)
    have "prod_ok s t (P_Seq x pos (slot_sequence (m_slot s pos)))"
      using D(6) [of t] push_load_seq loaded_free [OF inv b] slot_at_nslot [OF D(1)] by auto
    from prod_step_inv [OF inv this] show ?thesis by (simp add: push_load_seq)
  next
    case (push_retry t x pos seq)
    then show ?thesis using prod_step_inv [OF inv, of t "P_Pos x (head_seq s)"] D(6) [of t] by simp
  next
    case (push_full t x pos seq)
    then show ?thesis using prod_step_inv [OF inv, of t P_Idle] by simp
  next
    case (push_claim t x pos seq)
    then show ?thesis using push_claim_inv [OF inv push_claim(2-4)] b cap_at_least_2 [OF D(1)] by simp
  next
    case (push_byte t x pos k)
    then show ?thesis using push_byte_inv [OF inv] by simp
  next
    case (push_publish t x pos)
    then have "slot_payload (nslot (m_ring s) (unat pos)) = snd (m_claimed s ! unat pos)"
      using D(6) [of t] nslot_payload_length [OF D(1), of "unat pos"] length_write_payload [of x] by simp
    then show ?thesis using publish_inv [OF inv, of t pos "m_healed s"] push_publish by simp
  next
    case (push_crash t x pos k)
    then show ?thesis using prod_step_inv [OF inv, of t "P_Dead pos"] D(6) [of t] by simp
  qed
qed

lemma m_heal_inv:
  assumes step: "m_heal s s'" and inv: "m_inv s"
  shows "m_inv s'"
  using step
proof cases
  case (heal t pos r')
  then have "r' = set_slot pos ((m_slot s pos)\<lparr>slot_sequence := pos + 1\<rparr>) (m_ring s)"
    by (auto simp: heal_stuck_slot_def split: if_splits)
  then show ?thesis using publish_inv [OF inv, of t pos "insert (unat pos) (m_healed s)"] heal by simp
qed

lemma m_pop_inv:
  assumes step: "m_pop s s'" and inv: "m_inv s" and b: "length (m_claimed s) + m_cap s < 2 ^ 64"
  shows "m_inv s'"
proof -
  note D = m_invD [OF inv]
  from step show ?thesis
  proof cases
    case (pop_load_pos t)
    then show ?thesis using cons_step_inv [OF inv, of t "C_Pos (tail_seq s)"] by simp
  next
    case (pop_load_seq t pos)
    have "cons_ok s t (C_Seq pos (slot_sequence (m_slot s pos)))"
      using D(7) [of t] pop_load_seq loaded_ready [OF inv b] slot_at_nslot [OF D(1)] by auto
    from cons_step_inv [OF inv this] show ?thesis by (simp add: pop_load_seq)
  next
    case (pop_retry t pos seq)
    then show ?thesis using cons_step_inv [OF inv, of t "C_Pos (tail_seq s)"] by simp
  next
    case (pop_empty t pos seq)
    then show ?thesis using cons_step_inv [OF inv, of t C_Idle] by simp
  next
    case (pop_claim t pos seq)
    then show ?thesis using pop_claim_inv [OF inv] by simp
  next
    case (pop_byte t pos out)
    have "cons_ok s t (C_Reading pos (out @ [slot_payload (m_slot s pos) ! length out]))"
      using D(7) [of t] pop_byte slot_at_nslot [OF D(1), of pos] nslot_payload_length [OF D(1), of "unat pos"]
      by (simp add: take_Suc_conv_app_nth)
    from cons_step_inv [OF inv this] show ?thesis by (simp add: pop_byte)
  next
    case (pop_release t pos out)
    then show ?thesis using pop_release_inv [OF inv] by simp
  qed
qed

lemma m_step_inv:
  assumes step: "m_step s s'" and inv: "m_inv s" and bound: "length (m_claimed s') + m_cap s' < 2 ^ 64"
  shows "m_inv s'"
proof -
  have b: "length (m_claimed s) + m_cap s < 2 ^ 64" using bound m_step_mono [OF step] by auto
  from step show ?thesis using m_push_inv [OF _ inv b] m_heal_inv [OF _ inv] m_pop_inv [OF _ inv b] by cases blast+
qed

text \<open>A position that is being written has the producer that claimed it, alive or dead.\<close>

lemma writing_owned:
  assumes "m_reach r s" "m_phase s q = Writing"
  shows "\<exists>t. write_pos (m_prod s t) = Some q"
  using assms
proof (induction rule: m_reach.induct)
  case (reach_step r s s')
  show ?case
  proof (cases "m_phase s q = Writing")
    case True
    then obtain t where "write_pos (m_prod s t) = Some q" using reach_step.IH by blast
    then have "write_pos (m_prod s' t) = Some q"
      using reach_step.hyps(2) reach_step.prems by (auto elim!: m_step.cases m_push.cases m_heal.cases m_pop.cases split: if_splits)
    then show ?thesis ..
  next
    case False
    with reach_step.hyps(2) reach_step.prems show ?thesis
      by (auto elim!: m_step.cases m_push.cases m_heal.cases m_pop.cases split: if_splits)
  qed
qed (simp add: m_start_def)

lemma m_start_inv:
  assumes "is_power_of_two cap" "2 \<le> cap"
  shows "m_inv (m_start (fresh_ring cap))"
proof -
  obtain m where m: "cap = 2 ^ m" "m < 64" using assms(1) by (auto simp: is_power_of_two_def)
  with assms(2) have m1: "1 \<le> m" by (cases m) auto
  have shape: "inv_shape (fresh_ring cap)"
    using m m1 by (auto simp: inv_shape_def fresh_ring_def init_ring_layout_raw_def)
  have "inv_seq (fresh_ring cap) (\<lambda>_. Unclaimed)"
    by (auto simp: inv_seq_def slot_free_def fresh_ring_def init_ring_layout_raw_def)
  moreover have "producer_seq (ring_header (fresh_ring cap)) = 0" "consumer_seq (ring_header (fresh_ring cap)) = 0"
    by (simp_all add: fresh_ring_def init_ring_layout_raw_def)
  ultimately show ?thesis
    using shape by (simp add: m_inv_def m_start_def inv_phase_def inv_data_def one_owner_def inv_returned_def)
qed

lemma m_reach_inv:
  "m_reach r s \<Longrightarrow> m_inv (m_start r) \<Longrightarrow> length (m_claimed s) + ring_capacity r < 2 ^ 64 \<Longrightarrow>
    m_inv s \<and> m_cap s = ring_capacity r"
proof (induction rule: m_reach.induct)
  case (reach_step r s s')
  from m_step_mono [OF reach_step.hyps(2)] reach_step.prems(2)
  have "length (m_claimed s) + ring_capacity r < 2 ^ 64" by simp
  with reach_step.IH reach_step.prems(1) have "m_inv s" "m_cap s = ring_capacity r" by auto
  with m_step_inv [OF reach_step.hyps(2)] m_step_mono [OF reach_step.hyps(2)] reach_step.prems(2) show ?case by simp
qed (simp add: m_start_def)

lemma created_m_inv:
  assumes "Some (Inr r) \<in> {create_in_region region_len aligned capacity, create_from_shm region_len capacity,
      create_anon io capacity, create_file io capacity}"
  shows "m_inv (m_start r)" "ring_capacity r = capacity"
proof -
  from assms have "is_power_of_two capacity" "2 \<le> capacity" "r = fresh_ring capacity"
    by (auto simp: create_in_region_def create_from_shm_def create_anon_def create_file_def split: if_splits option.splits)
  with m_start_inv created_ring_wf(3) [OF assms] show "m_inv (m_start r)" "ring_capacity r = capacity" by auto
qed

section \<open>Properties of the protocol\<close>

text \<open>
  C7. Exactly-once delivery by any number of interleaved producers and consumers, with producers dying
  and their slots being repaired: in every reachable state no position is returned twice, every
  payload returned is, whole and untorn, the payload of the push that claimed that position (unless
  its producer died and the position was repaired), each consumer receives positions in increasing
  order, so in the order in which the pushes claimed them, and every position the consumers have
  passed has been returned or is being copied out by exactly one consumer. The claims so far are fewer
  than \<open>2^64\<close> minus the capacity.
\<close>

theorem mpmc_exactly_once:
  assumes "Some (Inr r) \<in> {create_in_region region_len aligned capacity, create_from_shm region_len capacity,
      create_anon io capacity, create_file io capacity}"
    and "m_reach r s" and "length (m_claimed s) + capacity < 2 ^ 64"
  shows "distinct (map (\<lambda>(t, q, b). q) (m_returned s)) \<and>
    (\<forall>(t, q, b)\<in>set (m_returned s). q < length (m_claimed s) \<and> (q \<notin> m_healed s \<longrightarrow> b = snd (m_claimed s ! q))) \<and>
    (\<forall>t. sorted_wrt (<) (map (\<lambda>(t, q, b). q) (filter (\<lambda>(t', q, b). t' = t) (m_returned s)))) \<and>
    (\<forall>q<unat (tail_seq s). (q \<in> (\<lambda>(t, q, b). q) ` set (m_returned s)) \<noteq> (\<exists>!t. read_pos (m_cons s t) = Some q)) \<and>
    unat (tail_seq s) \<le> length (m_claimed s) \<and> length (m_claimed s) \<le> unat (tail_seq s) + capacity"
proof -
  note start = created_m_inv [OF assms(1)]
  from m_reach_inv [OF assms(2) start(1)] assms(3) start(2) have inv: "m_inv s" and cap: "m_cap s = capacity" by auto
  note D = m_invD [OF inv] and R = inv_returnedD [OF m_invD(10) [OF inv]]
  have pos: "(\<lambda>(t, q, b). q) = (fst \<circ> snd)" by (auto simp: fun_eq_iff)
  have thr: "(\<lambda>(t', q, b). t' = t) = (\<lambda>e. fst e = t)" for t by (auto simp: fun_eq_iff)
  have "q < length (m_claimed s)" if "m_phase s q = Released" for q
    using that inv_phaseD(2) [OF D(3), of q] D(2) by (metis not_le phase.distinct(7))
  then have vals: "\<forall>(t, q, b)\<in>set (m_returned s). q < length (m_claimed s) \<and> (q \<notin> m_healed s \<longrightarrow> b = snd (m_claimed s ! q))"
    using R(2) by fastforce
  have cover: "(q \<in> (fst \<circ> snd) ` set (m_returned s)) \<noteq> (\<exists>!t. read_pos (m_cons s t) = Some q)" if q: "q < unat (tail_seq s)" for q
  proof (cases "m_phase s q = Released")
    case True
    then have "\<not> (\<exists>t. read_pos (m_cons s t) = Some q)" using reader_phase [OF inv] by fastforce
    with R(3) [OF True] show ?thesis by blast
  next
    case False
    then have rd: "m_phase s q = Reading" using inv_phaseD(4) [OF D(3) q] by simp
    from R(4) [OF this] obtain t where "read_pos (m_cons s t) = Some q" by blast
    with D(9) have "\<exists>!t. read_pos (m_cons s t) = Some q" by (auto simp: one_owner_def)
    moreover have "q \<notin> (fst \<circ> snd) ` set (m_returned s)" using R(2) rd by force
    ultimately show ?thesis by blast
  qed
  have "unat (head_seq s) \<le> unat (tail_seq s) + capacity"
  proof (rule ccontr)
    assume "\<not> ?thesis"
    then have "m_phase s (unat (tail_seq s)) = Released" using inv_phaseD(5) [OF D(3)] cap by simp
    with \<open>\<not> ?thesis\<close> show False using inv_phaseD(3) [OF D(3), of "unat (tail_seq s)"] by auto
  qed
  with inv_phaseD(1) [OF D(3)] D(2) R(1,5) vals cover show ?thesis unfolding pos thr by auto
qed

lemma write_completes:
  assumes "m_reach r s" "m_prod s t = P_Writing x pos (PAYLOAD_BYTES - n)" "n \<le> PAYLOAD_BYTES"
  shows "\<exists>s'. m_reach r s' \<and> m_prod s' = (m_prod s)(t := P_Idle) \<and> m_cons s' = m_cons s \<and> m_claimed s' = m_claimed s \<and>
    m_healed s' = m_healed s \<and> tail_seq s' = tail_seq s"
  using assms
proof (induction n arbitrary: s)
  case 0
  from 0(2) have "m_prod s t = P_Writing x pos PAYLOAD_BYTES" by simp
  from reach_step [OF 0(1) by_push [OF push_publish [OF this]]] show ?case by (intro exI conjI, assumption) simp_all
next
  case (Suc n)
  have k: "Suc (PAYLOAD_BYTES - Suc n) = PAYLOAD_BYTES - n" "PAYLOAD_BYTES - Suc n < PAYLOAD_BYTES" using Suc.prems(3) by auto
  from reach_step [OF Suc.prems(1) by_push [OF push_byte [OF Suc.prems(2) k(2)]]] Suc.IH Suc.prems(3) k(1) show ?case by fastforce
qed

definition claim4 :: mpmc where
  "claim4 = (let s = m_start ring4
     in s\<lparr>m_prod := (m_prod s)(0 := P_Writing [7] 0 0), m_ring := set_producer_seq 1 ring4,
          m_claimed := [(0, write_payload [7])], m_phase := (m_phase s)(0 := Writing)\<rparr>)"

lemma claim4_reach: "m_reach ring4 claim4"
proof -
  let ?s = "m_start ring4"
  let ?s1 = "?s\<lparr>m_prod := (m_prod ?s)(0 := P_Pos [7] 0)\<rparr>" and ?s2 = "?s\<lparr>m_prod := (m_prod ?s)(0 := P_Seq [7] 0 0)\<rparr>"
  have hd: "head_seq ?s = 0" by (simp add: m_start_def ring4_def fresh_ring_def init_ring_layout_raw_def)
  have "consumer_seq (ring_header ring4) = 0" "ring_len ring4 = 0"
    by (simp_all add: ring4_def fresh_ring_def init_ring_layout_raw_def ring_len_def)
  with consumer_slot [OF ring4_wf(1)] have sq: "slot_sequence (slot_at ring4 0) = 0" by simp
  have "m_step ?s ?s1"
    using by_push [OF push_load_pos [of ?s 0 "[7]"]] hd by (simp add: m_start_def PAYLOAD_BYTES_def SLOT_SIZE_def)
  then have r1: "m_reach ring4 ?s1" by (rule reach_step [OF reach_start])
  have "m_step ?s1 ?s2" using by_push [OF push_load_seq [of ?s1 0 "[7]" 0]] sq by (simp add: m_start_def)
  then have r2: "m_reach ring4 ?s2" by (rule reach_step [OF r1])
  have "m_step ?s2 claim4" using by_push [OF push_claim [of ?s2 0 "[7]" 0 0]] hd by (simp add: m_start_def claim4_def Let_def)
  then show ?thesis by (rule reach_step [OF r2])
qed

theorem mpmc_exactly_once_witness:
  "\<exists>s. m_reach ring4 s \<and> m_prod s 0 = P_Idle \<and> m_claimed s = [(0, write_payload [7])] \<and>
    distinct (map (\<lambda>(t, q, b). q) (m_returned s)) \<and> unat (tail_seq s) \<le> 1"
proof -
  obtain s where s: "m_reach ring4 s" "m_prod s 0 = P_Idle" "m_claimed s = [(0, write_payload [7])]"
    using write_completes [OF claim4_reach, of 0 "[7]" 0 PAYLOAD_BYTES] by (auto simp: claim4_def Let_def)
  with mpmc_exactly_once [OF ring4_created s(1)] show ?thesis by auto
qed

text \<open>
  C26. The interleaved system comes back to a bounded queue: whenever every producer and every consumer is outside
  the ring's operations, the ring is well-formed, the positions that were returned are exactly those before the tail,
  and the ring holds one payload for each later claim, in claim order. At every position that was not repaired after
  its producer died it is the payload that the claim wrote.
\<close>

theorem mpmc_quiescent:
  assumes "Some (Inr r) \<in> {create_in_region region_len aligned capacity, create_from_shm region_len capacity,
      create_anon io capacity, create_file io capacity}"
    and "m_reach r s" and "length (m_claimed s) + capacity < 2 ^ 64"
    and outside: "\<forall>t. m_prod s t = P_Idle" "\<forall>t. m_cons s t = C_Idle"
  shows "ring_wf (m_ring s) \<and> (\<lambda>(t, q, b). q) ` set (m_returned s) = {..<unat (tail_seq s)} \<and>
    unat (tail_seq s) + length (ring_items (m_ring s)) = length (m_claimed s) \<and>
    (\<forall>k<length (ring_items (m_ring s)). unat (tail_seq s) + k \<notin> m_healed s \<longrightarrow>
      ring_items (m_ring s) ! k = snd (m_claimed s ! (unat (tail_seq s) + k)))"
proof -
  note start = created_m_inv [OF assms(1)]
  from m_reach_inv [OF assms(2) start(1)] assms(3) start(2) have inv: "m_inv s" and cap: "m_cap s = capacity" by auto
  note D = m_invD [OF inv] and P = inv_phaseD [OF m_invD(3) [OF inv]] and R = inv_returnedD [OF m_invD(10) [OF inv]]
  have idle: "\<forall>q. m_phase s q \<notin> {Writing, Reading}" using writing_owned [OF assms(2)] R(4) outside by fastforce
  let ?r = "m_ring s" and ?C = "unat (tail_seq s)" and ?P = "unat (head_seq s)"
  have full: "?P \<le> ?C + m_cap s"
  proof (rule ccontr)
    assume "\<not> ?thesis"
    then have "m_phase s ?C = Released" using P(5) [of ?C] by simp
    with \<open>\<not> ?thesis\<close> show False using P(3) [of ?C] by auto
  qed
  have len: "ring_len ?r = ?P - ?C"
    using P(1) by (simp add: ring_len_def unat_sub word_le_nat_alt)
  have pos: "unat (tail_seq s + of_nat k) = ?C + k" if "k < m_cap s" for k
  proof -
    have "?C + k < 2 ^ 64" using that P(1) assms(3) D(2) cap by linarith
    then have "unat (of_nat (?C + k) :: u64) = ?C + k" by (intro unat_of_nat_small) simp
    then show ?thesis by simp
  qed
  have at: "nth_slot ?r k = nslot ?r (?C + k)" if "k < m_cap s" for k
    using slot_at_nslot [OF D(1), of "tail_seq s + of_nat k"] pos [OF that] by (simp add: nth_slot_def)
  have ready: "m_phase s (?C + k) = Ready" if "?C + k < ?P" for k
    using P(3) [of "?C + k"] that idle by auto
  have seq: "slot_sequence (nslot ?r (?C + k)) = tail_seq s + of_nat k + (if k < ring_len ?r then 1 else 0)"
    if k: "k < m_cap s" for k
  proof (cases "?C + k < ?P")
    case True
    then have "slot_sequence (nslot ?r (?C + k)) = of_nat (?C + k + 1)" using D(4) ready [OF True] by (simp add: inv_seq_def)
    moreover have "k < ring_len ?r" using True len by simp
    ultimately show ?thesis by (simp add: ac_simps)
  next
    case False
    have "?C + k - m_cap s < ?C \<or> ?C + k < m_cap s" using k by linarith
    then have "slot_free (m_cap s) (m_phase s) (?C + k)"
      using P(2) [of "?C + k"] P(4) [of "?C + k - m_cap s"] idle False by (auto simp: slot_free_def)
    then have "slot_sequence (nslot ?r (?C + k)) = of_nat (?C + k)" using D(4) by (simp add: inv_seq_def)
    moreover have "\<not> k < ring_len ?r" using False len by simp
    ultimately show ?thesis by simp
  qed
  have wf: "ring_wf ?r"
    using D(1) full len at seq nslot_payload_length [OF D(1)] unfolding ring_wf_def inv_shape_def by auto
  have items: "length (ring_items ?r) = ?P - ?C" by (simp add: ring_items_def len)
  have "ring_items ?r ! k = snd (m_claimed s ! (?C + k))" if "k < length (ring_items ?r)" "?C + k \<notin> m_healed s" for k
  proof -
    have k: "?C + k < ?P" "k < m_cap s" "k < ?P - ?C" using that(1) items full by auto
    then show ?thesis using at [OF k(2)] ready [OF k(1)] D(5) that(2) len by (simp add: ring_items_def inv_data_def)
  qed
  moreover have "(\<lambda>(t, q, b). q) ` set (m_returned s) = {..<?C}"
  proof -
    have "q < ?C" if "(t, q, b) \<in> set (m_returned s)" for t q b
      using R(2) [OF that] P(2,3) [of q] by (cases "q < ?P") (auto simp: not_less [symmetric])
    moreover have "q \<in> (fst \<circ> snd) ` set (m_returned s)" if "q < ?C" for q using P(4) [OF that] idle R(3) by auto
    ultimately show ?thesis by force
  qed
  ultimately show ?thesis using wf items P(1) D(2) by simp
qed

theorem mpmc_quiescent_witness:
  "\<exists>s. m_reach ring4 s \<and> (\<forall>t. m_prod s t = P_Idle) \<and> (\<forall>t. m_cons s t = C_Idle) \<and> m_claimed s = [(0, write_payload [7])] \<and>
    ring_wf (m_ring s) \<and> ring_items (m_ring s) = [write_payload [7]]"
proof -
  have "tail_seq claim4 = 0" by (simp add: claim4_def Let_def m_start_def ring4_def fresh_ring_def init_ring_layout_raw_def)
  then obtain s where s: "m_reach ring4 s" "\<forall>t. m_prod s t = P_Idle" "\<forall>t. m_cons s t = C_Idle" "m_claimed s = [(0, write_payload [7])]"
      "m_healed s = {}" "tail_seq s = 0"
    using write_completes [OF claim4_reach, of 0 "[7]" 0 PAYLOAD_BYTES] by (auto simp: claim4_def Let_def m_start_def)
  from mpmc_quiescent [OF ring4_created s(1) _ s(2,3)] s(4-6) have q: "ring_wf (m_ring s)" "length (ring_items (m_ring s)) = 1"
    "ring_items (m_ring s) ! 0 = write_payload [7]" by auto
  from q(2,3) have "ring_items (m_ring s) = [write_payload [7]]" by (cases "ring_items (m_ring s)") auto
  with s q(1) show ?thesis by blast
qed

end
