(* ===== verification/Shared_Hash_Map.thy ===== *)
theory Shared_Hash_Map
  imports SubEtha_Prelude "HOL-Library.Monad_Syntax"
begin

text \<open>
  The open-addressed hash map of \<^verbatim>\<open>crates/subetha-cxc/src/shared_hash_map.rs\<close>: FNV-1a hashing, linear
  probing with tombstone reuse, insert, swap, compare-exchange, get, remove, clear, compact and
  snapshot, each as one thread runs it with no other thread inside the map. \<open>None\<close> stands for a spin
  that no other thread ends. Every write goes through the slot's sequence lock, as in the code.

  Keys and values are of any type. \<open>kb\<close> and \<open>vb\<close> are their memory representations: the code hashes a
  key's bytes, compares keys with their equality, and compare-exchange compares a value's bytes. The
  observation sidecar is left out.
\<close>

section \<open>The map in memory\<close>

definition MAP_MAGIC :: u32 where "MAP_MAGIC = 0x4150484D"
definition MAP_PAYLOAD_BYTES :: nat where "MAP_PAYLOAD_BYTES = 48"
definition SLOT_EMPTY :: u8 where "SLOT_EMPTY = 0"
definition SLOT_OCCUPIED :: u8 where "SLOT_OCCUPIED = 1"
definition SLOT_TOMBSTONE :: u8 where "SLOT_TOMBSTONE = 2"
definition HASH_UNSET :: u64 where "HASH_UNSET = 0"

record MapHeader =
  mh_magic :: u32
  mh_capacity :: u32
  mh_count :: u64
  mh_key_size :: u32
  mh_value_size :: u32
  mh_tombstones :: u64
  mh_removals :: u64

record ('k, 'v) MapSlot =
  ms_state :: u8
  ms_version :: u32
  ms_hash :: u64
  ms_payload :: "'k \<times> 'v"

record ('k, 'v) SharedHashMap =
  hm_header :: MapHeader
  hm_slots :: "('k, 'v) MapSlot list"
  hm_capacity :: nat
  hm_cap_mask :: nat
  hm_cap_is_pow2 :: bool

datatype MapError = MapFull | MapPayloadTooLarge | MapLayoutMismatch | KeyAbsent | MapIoError nat

datatype InsertOutcome = Inserted | Updated
datatype 'v Placed = New | Existing 'v
datatype 'v Probe = Placed "'v Placed" | Restart | ProbeFull
datatype 'v Found = Here 'v | Elsewhere | Vacated | Moved
datatype Claim = ClaimPlaced | Lost | GaveBack

definition map_file_size :: "nat \<Rightarrow> nat" where
  "map_file_size capacity = 64 + capacity * 64"

definition check_layout :: "nat \<Rightarrow> nat \<Rightarrow> MapError + unit" where
  "check_layout key_size value_size =
     (if key_size + value_size > MAP_PAYLOAD_BYTES then Inl MapPayloadTooLarge else Inr ())"

text \<open>The header and slots of a fresh region; \<open>zero\<close> is the payload whose bytes are all zero.\<close>

definition init_region :: "'k \<times> 'v \<Rightarrow> nat \<Rightarrow> nat \<Rightarrow> nat \<Rightarrow> MapHeader \<times> ('k, 'v) MapSlot list" where
  "init_region zero key_size value_size capacity =
     (\<lparr>mh_magic = MAP_MAGIC, mh_capacity = of_nat capacity, mh_count = 0, mh_key_size = of_nat key_size,
       mh_value_size = of_nat value_size, mh_tombstones = 0, mh_removals = 0\<rparr>,
      replicate capacity \<lparr>ms_state = SLOT_EMPTY, ms_version = 0, ms_hash = HASH_UNSET, ms_payload = zero\<rparr>)"

definition from_region ::
  "MapHeader \<Rightarrow> ('k, 'v) MapSlot list \<Rightarrow> nat \<Rightarrow> nat \<Rightarrow> nat \<Rightarrow> MapError + ('k, 'v) SharedHashMap" where
  "from_region hdr slots key_size value_size capacity =
     (if mh_magic hdr \<noteq> MAP_MAGIC \<or> mh_capacity hdr \<noteq> of_nat capacity \<or> mh_key_size hdr \<noteq> of_nat key_size
          \<or> mh_value_size hdr \<noteq> of_nat value_size
      then Inl MapLayoutMismatch
      else Inr \<lparr>hm_header = hdr, hm_slots = slots, hm_capacity = capacity, hm_cap_mask = capacity - 1,
                hm_cap_is_pow2 = is_power_of_two capacity\<rparr>)"

text \<open>
  \<open>attach_error\<close> is the error of obtaining the region, if any; \<open>found\<close> the region when the path
  already holds one. \<open>None\<close> is the panic of the capacity assertion.
\<close>

definition hm_create ::
  "MapError option \<Rightarrow> (MapHeader \<times> ('k, 'v) MapSlot list) option \<Rightarrow> 'k \<times> 'v \<Rightarrow> nat \<Rightarrow> nat \<Rightarrow> nat \<Rightarrow>
    (MapError + ('k, 'v) SharedHashMap) option" where
  "hm_create attach_error found zero key_size value_size capacity =
     (case check_layout key_size value_size of
        Inl e \<Rightarrow> Some (Inl e)
      | Inr _ \<Rightarrow>
          if \<not> capacity \<ge> 2 then None
          else case attach_error of
              Some e \<Rightarrow> Some (Inl e)
            | None \<Rightarrow>
                let (hdr, slots) = (case found of None \<Rightarrow> init_region zero key_size value_size capacity | Some hs \<Rightarrow> hs)
                in Some (from_region hdr slots key_size value_size capacity))"

definition hm_reset ::
  "nat option \<Rightarrow> 'k \<times> 'v \<Rightarrow> nat \<Rightarrow> nat \<Rightarrow> nat \<Rightarrow> (MapError + ('k, 'v) SharedHashMap) option" where
  "hm_reset io zero key_size value_size capacity =
     (case check_layout key_size value_size of
        Inl e \<Rightarrow> Some (Inl e)
      | Inr _ \<Rightarrow>
          if \<not> capacity \<ge> 2 then None
          else case io of
              Some kind \<Rightarrow> Some (Inl (MapIoError kind))
            | None \<Rightarrow>
                let (hdr, slots) = init_region zero key_size value_size capacity
                in Some (from_region hdr slots key_size value_size capacity))"

definition hm_open ::
  "nat option \<Rightarrow> nat option \<Rightarrow> nat \<Rightarrow> MapHeader \<Rightarrow> ('k, 'v) MapSlot list \<Rightarrow> nat \<Rightarrow> nat \<Rightarrow> nat \<Rightarrow>
    MapError + ('k, 'v) SharedHashMap" where
  "hm_open io_before io_map file_len hdr slots key_size value_size expected_capacity =
     (case check_layout key_size value_size of
        Inl e \<Rightarrow> Inl e
      | Inr _ \<Rightarrow>
          (case io_before of
             Some kind \<Rightarrow> Inl (MapIoError kind)
           | None \<Rightarrow>
               if file_len < map_file_size expected_capacity then Inl MapLayoutMismatch
               else (case io_map of
                       Some kind \<Rightarrow> Inl (MapIoError kind)
                     | None \<Rightarrow> from_region hdr slots key_size value_size expected_capacity)))"

section \<open>Hashing and slots\<close>

definition fnv1a_64 :: "bytes \<Rightarrow> u64" where
  "fnv1a_64 bs = fold (\<lambda>b h. (h XOR ucast b) * 0x100000001b3) bs 0xcbf29ce484222325"

definition hash_key :: "('k \<Rightarrow> bytes) \<Rightarrow> 'k \<Rightarrow> u64" where
  "hash_key kb k = (let h = fnv1a_64 (kb k) in if h = HASH_UNSET then 1 else h)"

definition wrap :: "('k, 'v) SharedHashMap \<Rightarrow> nat \<Rightarrow> nat" where
  "wrap m i = (if hm_cap_is_pow2 m then i AND hm_cap_mask m else i mod hm_capacity m)"

definition hm_slot :: "('k, 'v) SharedHashMap \<Rightarrow> nat \<Rightarrow> ('k, 'v) MapSlot" where
  "hm_slot m idx = hm_slots m ! idx"

definition upd_slot :: "nat \<Rightarrow> (('k, 'v) MapSlot \<Rightarrow> ('k, 'v) MapSlot) \<Rightarrow> ('k, 'v) SharedHashMap \<Rightarrow> ('k, 'v) SharedHashMap" where
  "upd_slot idx f m = m\<lparr>hm_slots := (hm_slots m)[idx := f (hm_slots m ! idx)]\<rparr>"

definition upd_header :: "(MapHeader \<Rightarrow> MapHeader) \<Rightarrow> ('k, 'v) SharedHashMap \<Rightarrow> ('k, 'v) SharedHashMap" where
  "upd_header f m = m\<lparr>hm_header := f (hm_header m)\<rparr>"

text \<open>Taking the lock of a slot that is locked spins.\<close>

definition lock_slot :: "nat \<Rightarrow> ('k, 'v) SharedHashMap \<Rightarrow> (u32 \<times> ('k, 'v) SharedHashMap) option" where
  "lock_slot idx m =
     (let v = ms_version (hm_slot m idx)
      in if v AND 1 = 0 then Some (v + 1, upd_slot idx (\<lambda>s. s\<lparr>ms_version := v + 1\<rparr>) m) else None)"

definition unlock_slot :: "nat \<Rightarrow> u32 \<Rightarrow> ('k, 'v) SharedHashMap \<Rightarrow> ('k, 'v) SharedHashMap" where
  "unlock_slot idx held m = upd_slot idx (\<lambda>s. s\<lparr>ms_version := held + 1\<rparr>) m"

definition copy_payload :: "nat \<Rightarrow> 'k \<Rightarrow> 'v \<Rightarrow> ('k, 'v) SharedHashMap \<Rightarrow> ('k, 'v) SharedHashMap" where
  "copy_payload idx k v m = upd_slot idx (\<lambda>s. s\<lparr>ms_payload := (k, v)\<rparr>) m"

definition hm_write_payload :: "nat \<Rightarrow> 'k \<Rightarrow> 'v \<Rightarrow> ('k, 'v) SharedHashMap \<Rightarrow> ('k, 'v) SharedHashMap option" where
  "hm_write_payload idx k v m =
     do {
       (held, m) \<leftarrow> lock_slot idx m;
       let m = copy_payload idx k v m;
       Some (unlock_slot idx held m)
     }"

definition publish_claimed :: "nat \<Rightarrow> u64 \<Rightarrow> 'k \<Rightarrow> 'v \<Rightarrow> ('k, 'v) SharedHashMap \<Rightarrow> ('k, 'v) SharedHashMap option" where
  "publish_claimed idx h k v m =
     do {
       m \<leftarrow> hm_write_payload idx k v m;
       Some (upd_slot idx (\<lambda>s. s\<lparr>ms_hash := h\<rparr>) m)
     }"

definition published_hash :: "nat \<Rightarrow> ('k, 'v) SharedHashMap \<Rightarrow> u64 option" where
  "published_hash idx m =
     (let h = ms_hash (hm_slot m idx)
      in if h \<noteq> HASH_UNSET then Some h
         else if ms_state (hm_slot m idx) \<noteq> SLOT_OCCUPIED then Some HASH_UNSET
         else None)"

definition hm_read_payload :: "nat \<Rightarrow> ('k, 'v) SharedHashMap \<Rightarrow> ('k \<times> 'v) option" where
  "hm_read_payload idx m =
     (if ms_version (hm_slot m idx) AND 1 \<noteq> 0 then None else Some (ms_payload (hm_slot m idx)))"

definition read_payload_locked :: "nat \<Rightarrow> ('k, 'v) SharedHashMap \<Rightarrow> 'k \<times> 'v" where
  "read_payload_locked idx m = ms_payload (hm_slot m idx)"

definition holds :: "nat \<Rightarrow> u64 \<Rightarrow> ('k, 'v) SharedHashMap \<Rightarrow> bool" where
  "holds idx h m \<longleftrightarrow> ms_state (hm_slot m idx) = SLOT_OCCUPIED \<and> ms_hash (hm_slot m idx) = h"

section \<open>Insertion\<close>

definition release_tombstone :: "('k, 'v) SharedHashMap \<Rightarrow> ('k, 'v) SharedHashMap" where
  "release_tombstone m =
     (let cur = mh_tombstones (hm_header m)
      in if cur = 0 then m else upd_header (\<lambda>h. h\<lparr>mh_tombstones := cur - 1\<rparr>) m)"

definition claim ::
  "nat \<Rightarrow> u8 \<Rightarrow> u64 \<Rightarrow> u64 \<Rightarrow> 'k \<Rightarrow> 'v \<Rightarrow> ('k, 'v) SharedHashMap \<Rightarrow> (Claim \<times> ('k, 'v) SharedHashMap) option" where
  "claim idx old removals h k v m =
     (if ms_state (hm_slot m idx) \<noteq> old then Some (Lost, m)
      else
        let m = upd_slot idx (\<lambda>s. s\<lparr>ms_state := SLOT_OCCUPIED\<rparr>) m;
            m = (if old = SLOT_TOMBSTONE then upd_slot idx (\<lambda>s. s\<lparr>ms_hash := HASH_UNSET\<rparr>) m else m)
        in if mh_removals (hm_header m) \<noteq> removals then
             let m = upd_slot idx (\<lambda>s. s\<lparr>ms_state := SLOT_TOMBSTONE\<rparr>) m;
                 m = (if old = SLOT_EMPTY then upd_header (\<lambda>h. h\<lparr>mh_tombstones := mh_tombstones h + 1\<rparr>) m else m)
             in Some (GaveBack, m)
           else
             do {
               m \<leftarrow> publish_claimed idx h k v m;
               let m = upd_header (\<lambda>h. h\<lparr>mh_count := mh_count h + 1\<rparr>) m;
               let m = (if old = SLOT_TOMBSTONE then release_tombstone m else m);
               Some (ClaimPlaced, m)
             })"

definition present ::
  "nat \<Rightarrow> u64 \<Rightarrow> 'k \<Rightarrow> 'v \<Rightarrow> bool \<Rightarrow> ('k, 'v) SharedHashMap \<Rightarrow> ('v Found \<times> ('k, 'v) SharedHashMap) option" where
  "present idx h key v overwrite m =
     do {
       published \<leftarrow> published_hash idx m;
       if published = HASH_UNSET then Some (Vacated, m)
       else if published \<noteq> h then Some (Elsewhere, m)
       else if \<not> overwrite then
         do {
           (k, existing) \<leftarrow> hm_read_payload idx m;
           Some (if k = key then Here existing else Elsewhere, m)
         }
       else
         do {
           (held, m) \<leftarrow> lock_slot idx m;
           let (k, existing) = read_payload_locked idx m;
           let (found, m) =
             (if k \<noteq> key then (Elsewhere, m)
              else if \<not> holds idx h m then (Moved, m)
              else (Here existing, copy_payload idx key v m));
           Some (found, unlock_slot idx held m)
         }
     }"

text \<open>
  One slot of the probe: the verdict it ends the walk with, or the first tombstone to go on with.
\<close>

definition claimed_verdict :: "Claim \<Rightarrow> 'v Probe" where
  "claimed_verdict c = (case c of ClaimPlaced \<Rightarrow> Placed New | Lost \<Rightarrow> Restart | GaveBack \<Rightarrow> Restart)"

definition note_tombstone :: "nat \<Rightarrow> nat option \<Rightarrow> nat option" where
  "note_tombstone idx first_tombstone = (case first_tombstone of None \<Rightarrow> Some idx | Some t \<Rightarrow> Some t)"

definition probe_nonempty ::
  "nat \<Rightarrow> u64 \<Rightarrow> 'k \<Rightarrow> 'v \<Rightarrow> bool \<Rightarrow> u8 \<Rightarrow> nat option \<Rightarrow> ('k, 'v) SharedHashMap \<Rightarrow>
    (('v Probe + nat option) \<times> ('k, 'v) SharedHashMap) option" where
  "probe_nonempty idx h key v overwrite state first_tombstone m =
     (if state = SLOT_TOMBSTONE then Some (Inr (note_tombstone idx first_tombstone), m)
      else
        do {
          (found, m) \<leftarrow> present idx h key v overwrite m;
          Some (case found of
                  Here existing \<Rightarrow> Inl (Placed (Existing existing))
                | Moved \<Rightarrow> Inl Restart
                | Vacated \<Rightarrow> Inr (note_tombstone idx first_tombstone)
                | Elsewhere \<Rightarrow> Inr first_tombstone, m)
        })"

definition probe_slot ::
  "nat \<Rightarrow> u64 \<Rightarrow> 'k \<Rightarrow> 'v \<Rightarrow> bool \<Rightarrow> u64 \<Rightarrow> nat option \<Rightarrow> ('k, 'v) SharedHashMap \<Rightarrow>
    (('v Probe + nat option) \<times> ('k, 'v) SharedHashMap) option" where
  "probe_slot idx h key v overwrite removals first_tombstone m =
     (let state = ms_state (hm_slot m idx)
      in if state = SLOT_EMPTY then
           (case first_tombstone of
              Some tomb_idx \<Rightarrow>
                do {
                  (c, m) \<leftarrow> claim tomb_idx SLOT_TOMBSTONE removals h key v m;
                  Some (Inl (claimed_verdict c), m)
                }
            | None \<Rightarrow>
                do {
                  (c, m) \<leftarrow> claim idx SLOT_EMPTY removals h key v m;
                  (case c of
                     Lost \<Rightarrow> probe_nonempty idx h key v overwrite (ms_state (hm_slot m idx)) None m
                   | _ \<Rightarrow> Some (Inl (claimed_verdict c), m))
                })
         else probe_nonempty idx h key v overwrite state first_tombstone m)"

text \<open>The walk over the offsets \<open>0..capacity\<close>, and what follows when it ends.\<close>

fun probe_walk ::
  "nat list \<Rightarrow> u64 \<Rightarrow> nat \<Rightarrow> 'k \<Rightarrow> 'v \<Rightarrow> bool \<Rightarrow> u64 \<Rightarrow> nat option \<Rightarrow> ('k, 'v) SharedHashMap \<Rightarrow>
    ('v Probe \<times> ('k, 'v) SharedHashMap) option" where
  "probe_walk [] h start key v overwrite removals first_tombstone m =
     (case first_tombstone of
        Some tomb_idx \<Rightarrow>
          do {
            (c, m) \<leftarrow> claim tomb_idx SLOT_TOMBSTONE removals h key v m;
            Some (claimed_verdict c, m)
          }
      | None \<Rightarrow> Some (ProbeFull, m))"
| "probe_walk (i # is) h start key v overwrite removals first_tombstone m =
     do {
       (r, m) \<leftarrow> probe_slot (wrap m (start + i)) h key v overwrite removals first_tombstone m;
       (case r of
          Inl verdict \<Rightarrow> Some (verdict, m)
        | Inr first_tombstone \<Rightarrow> probe_walk is h start key v overwrite removals first_tombstone m)
     }"

definition probe_once ::
  "u64 \<Rightarrow> nat \<Rightarrow> 'k \<Rightarrow> 'v \<Rightarrow> bool \<Rightarrow> ('k, 'v) SharedHashMap \<Rightarrow> ('v Probe \<times> ('k, 'v) SharedHashMap) option" where
  "probe_once h start key v overwrite m =
     probe_walk [0..<hm_capacity m] h start key v overwrite (mh_removals (hm_header m)) None m"

text \<open>The restart loop, bounded by the number of passes; running out of passes is a spin.\<close>

fun place_loop ::
  "nat \<Rightarrow> u64 \<Rightarrow> nat \<Rightarrow> 'k \<Rightarrow> 'v \<Rightarrow> bool \<Rightarrow> ('k, 'v) SharedHashMap \<Rightarrow>
    ((MapError + 'v Placed) \<times> ('k, 'v) SharedHashMap) option" where
  "place_loop 0 h start key v overwrite m = None"
| "place_loop (Suc passes) h start key v overwrite m =
     do {
       (r, m) \<leftarrow> probe_once h start key v overwrite m;
       (case r of
          Placed p \<Rightarrow> Some (Inr p, m)
        | Restart \<Rightarrow> place_loop passes h start key v overwrite m
        | ProbeFull \<Rightarrow> Some (Inl MapFull, m))
     }"

definition place ::
  "nat \<Rightarrow> ('k \<Rightarrow> bytes) \<Rightarrow> 'k \<Rightarrow> 'v \<Rightarrow> bool \<Rightarrow> ('k, 'v) SharedHashMap \<Rightarrow>
    ((MapError + 'v Placed) \<times> ('k, 'v) SharedHashMap) option" where
  "place passes kb key v overwrite m =
     (let h = hash_key kb key; start = wrap m (unat h) in place_loop passes h start key v overwrite m)"

definition hm_insert ::
  "nat \<Rightarrow> ('k \<Rightarrow> bytes) \<Rightarrow> 'k \<Rightarrow> 'v \<Rightarrow> ('k, 'v) SharedHashMap \<Rightarrow>
    ((MapError + InsertOutcome) \<times> ('k, 'v) SharedHashMap) option" where
  "hm_insert passes kb key v m =
     do {
       (r, m) \<leftarrow> place passes kb key v True m;
       Some (case r of Inl e \<Rightarrow> Inl e | Inr New \<Rightarrow> Inr Inserted | Inr (Existing _) \<Rightarrow> Inr Updated, m)
     }"

definition insert_if_absent ::
  "nat \<Rightarrow> ('k \<Rightarrow> bytes) \<Rightarrow> 'k \<Rightarrow> 'v \<Rightarrow> ('k, 'v) SharedHashMap \<Rightarrow>
    ((MapError + 'v option) \<times> ('k, 'v) SharedHashMap) option" where
  "insert_if_absent passes kb key v m =
     do {
       (r, m) \<leftarrow> place passes kb key v False m;
       Some (case r of Inl e \<Rightarrow> Inl e | Inr New \<Rightarrow> Inr None | Inr (Existing w) \<Rightarrow> Inr (Some w), m)
     }"

definition hm_swap ::
  "nat \<Rightarrow> ('k \<Rightarrow> bytes) \<Rightarrow> 'k \<Rightarrow> 'v \<Rightarrow> ('k, 'v) SharedHashMap \<Rightarrow>
    ((MapError + 'v option) \<times> ('k, 'v) SharedHashMap) option" where
  "hm_swap passes kb key v m =
     do {
       (r, m) \<leftarrow> place passes kb key v True m;
       Some (case r of Inl e \<Rightarrow> Inl e | Inr New \<Rightarrow> Inr None | Inr (Existing old) \<Rightarrow> Inr (Some old), m)
     }"

section \<open>Lookup, compare-exchange, removal\<close>

fun get_walk :: "nat list \<Rightarrow> u64 \<Rightarrow> nat \<Rightarrow> 'k \<Rightarrow> ('k, 'v) SharedHashMap \<Rightarrow> 'v option option" where
  "get_walk [] h start key m = Some None"
| "get_walk (i # is) h start key m =
     (let idx = wrap m (start + i); state = ms_state (hm_slot m idx)
      in if state = SLOT_EMPTY then Some None
         else if state = SLOT_OCCUPIED then
           do {
             published \<leftarrow> published_hash idx m;
             if published = h then
               do {
                 (k, v) \<leftarrow> hm_read_payload idx m;
                 if k = key then Some (Some v) else get_walk is h start key m
               }
             else get_walk is h start key m
           }
         else get_walk is h start key m)"

definition get_inner :: "('k \<Rightarrow> bytes) \<Rightarrow> 'k \<Rightarrow> ('k, 'v) SharedHashMap \<Rightarrow> 'v option option" where
  "get_inner kb key m =
     (let h = hash_key kb key; start = wrap m (unat h) in get_walk [0..<hm_capacity m] h start key m)"

definition contains_key :: "('k \<Rightarrow> bytes) \<Rightarrow> 'k \<Rightarrow> ('k, 'v) SharedHashMap \<Rightarrow> bool option" where
  "contains_key kb key m = map_option (\<lambda>r. r \<noteq> None) (get_inner kb key m)"

fun cas_walk ::
  "nat list \<Rightarrow> u64 \<Rightarrow> nat \<Rightarrow> ('v \<Rightarrow> bytes) \<Rightarrow> 'k \<Rightarrow> 'v \<Rightarrow> 'v \<Rightarrow> ('k, 'v) SharedHashMap \<Rightarrow>
    ((MapError + ('v + unit)) \<times> ('k, 'v) SharedHashMap) option" where
  "cas_walk [] h start vb key expected new m = Some (Inl KeyAbsent, m)"
| "cas_walk (i # is) h start vb key expected new m =
     (let idx = wrap m (start + i); state = ms_state (hm_slot m idx)
      in if state = SLOT_EMPTY then Some (Inl KeyAbsent, m)
         else if state \<noteq> SLOT_OCCUPIED then cas_walk is h start vb key expected new m
         else
           do {
             published \<leftarrow> published_hash idx m;
             if published \<noteq> h then cas_walk is h start vb key expected new m
             else
               do {
                 (held, m) \<leftarrow> lock_slot idx m;
                 let (k, current) = read_payload_locked idx m;
                 if k \<noteq> key then cas_walk is h start vb key expected new (unlock_slot idx held m)
                 else if \<not> holds idx h m then Some (Inl KeyAbsent, unlock_slot idx held m)
                 else if vb current = vb expected then
                   Some (Inr (Inr ()), unlock_slot idx held (copy_payload idx key new m))
                 else Some (Inr (Inl current), unlock_slot idx held m)
               }
           })"

definition hm_compare_exchange ::
  "('k \<Rightarrow> bytes) \<Rightarrow> ('v \<Rightarrow> bytes) \<Rightarrow> 'k \<Rightarrow> 'v \<Rightarrow> 'v \<Rightarrow> ('k, 'v) SharedHashMap \<Rightarrow>
    ((MapError + ('v + unit)) \<times> ('k, 'v) SharedHashMap) option" where
  "hm_compare_exchange kb vb key expected new m =
     (let h = hash_key kb key; start = wrap m (unat h)
      in cas_walk [0..<hm_capacity m] h start vb key expected new m)"

fun remove_walk ::
  "nat list \<Rightarrow> u64 \<Rightarrow> nat \<Rightarrow> 'k \<Rightarrow> ('k, 'v) SharedHashMap \<Rightarrow> ('v option \<times> ('k, 'v) SharedHashMap) option" where
  "remove_walk [] h start key m = Some (None, m)"
| "remove_walk (i # is) h start key m =
     (let idx = wrap m (start + i); state = ms_state (hm_slot m idx)
      in if state = SLOT_EMPTY then Some (None, m)
         else if state \<noteq> SLOT_OCCUPIED then remove_walk is h start key m
         else
           do {
             published \<leftarrow> published_hash idx m;
             if published \<noteq> h then remove_walk is h start key m
             else
               do {
                 (held, m) \<leftarrow> lock_slot idx m;
                 let (k, v) = read_payload_locked idx m;
                 if k \<noteq> key then remove_walk is h start key (unlock_slot idx held m)
                 else if \<not> holds idx h m then Some (None, unlock_slot idx held m)
                 else
                   let m = upd_header (\<lambda>h. h\<lparr>mh_removals := mh_removals h + 1\<rparr>) m;
                       tombstoned = (ms_state (hm_slot m idx) = SLOT_OCCUPIED);
                       m = (if tombstoned
                            then upd_slot idx (\<lambda>s. s\<lparr>ms_state := SLOT_TOMBSTONE, ms_hash := HASH_UNSET\<rparr>) m else m);
                       m = unlock_slot idx held m
                   in if \<not> tombstoned then Some (None, m)
                      else Some (Some v, upd_header (\<lambda>h. h\<lparr>mh_count := mh_count h - 1,
                             mh_tombstones := mh_tombstones h + 1\<rparr>) m)
               }
           })"

definition hm_remove ::
  "('k \<Rightarrow> bytes) \<Rightarrow> 'k \<Rightarrow> ('k, 'v) SharedHashMap \<Rightarrow> ('v option \<times> ('k, 'v) SharedHashMap) option" where
  "hm_remove kb key m =
     (let h = hash_key kb key; start = wrap m (unat h) in remove_walk [0..<hm_capacity m] h start key m)"

section \<open>Whole-map operations\<close>

definition hm_len :: "('k, 'v) SharedHashMap \<Rightarrow> nat" where
  "hm_len m = unat (mh_count (hm_header m))"

definition tombstone_count :: "('k, 'v) SharedHashMap \<Rightarrow> nat" where
  "tombstone_count m = unat (mh_tombstones (hm_header m))"

definition hm_clear :: "('k, 'v) SharedHashMap \<Rightarrow> ('k, 'v) SharedHashMap" where
  "hm_clear m =
     (let m = fold (\<lambda>i. upd_slot i (\<lambda>s. s\<lparr>ms_state := SLOT_EMPTY\<rparr>)) [0..<hm_capacity m] m
      in upd_header (\<lambda>h. h\<lparr>mh_count := 0, mh_tombstones := 0\<rparr>) m)"

fun compact_scan :: "nat list \<Rightarrow> ('k, 'v) SharedHashMap \<Rightarrow> (('k \<times> 'v) list \<times> nat) option" where
  "compact_scan [] m = Some ([], 0)"
| "compact_scan (i # is) m =
     (let s = ms_state (hm_slot m i)
      in if s = SLOT_OCCUPIED then
           do { kv \<leftarrow> hm_read_payload i m; (live, reclaimed) \<leftarrow> compact_scan is m; Some (kv # live, reclaimed) }
         else if s = SLOT_TOMBSTONE then
           do { (live, reclaimed) \<leftarrow> compact_scan is m; Some (live, reclaimed + 1) }
         else compact_scan is m)"

fun reinsert ::
  "nat \<Rightarrow> ('k \<Rightarrow> bytes) \<Rightarrow> ('k \<times> 'v) list \<Rightarrow> ('k, 'v) SharedHashMap \<Rightarrow> ((MapError + unit) \<times> ('k, 'v) SharedHashMap) option" where
  "reinsert passes kb [] m = Some (Inr (), m)"
| "reinsert passes kb ((k, v) # live) m =
     do {
       (r, m) \<leftarrow> hm_insert passes kb k v m;
       (case r of Inl e \<Rightarrow> Some (Inl e, m) | Inr _ \<Rightarrow> reinsert passes kb live m)
     }"

definition hm_compact ::
  "nat \<Rightarrow> ('k \<Rightarrow> bytes) \<Rightarrow> ('k, 'v) SharedHashMap \<Rightarrow> ((MapError + nat) \<times> ('k, 'v) SharedHashMap) option" where
  "hm_compact passes kb m =
     do {
       (live, reclaimed) \<leftarrow> compact_scan [0..<hm_capacity m] m;
       let m = fold (\<lambda>i. upd_slot i (\<lambda>s. s\<lparr>ms_state := SLOT_EMPTY\<rparr>)) [0..<hm_capacity m] m;
       let m = upd_header (\<lambda>h. h\<lparr>mh_count := 0, mh_tombstones := 0\<rparr>) m;
       (r, m) \<leftarrow> reinsert passes kb live m;
       Some (case r of Inl e \<Rightarrow> Inl e | Inr _ \<Rightarrow> Inr reclaimed, m)
     }"

fun snapshot_walk :: "nat list \<Rightarrow> ('k, 'v) SharedHashMap \<Rightarrow> ('k \<times> 'v) list option" where
  "snapshot_walk [] m = Some []"
| "snapshot_walk (i # is) m =
     (if ms_state (hm_slot m i) = SLOT_OCCUPIED \<and> ms_hash (hm_slot m i) \<noteq> HASH_UNSET then
        do { kv \<leftarrow> hm_read_payload i m; out \<leftarrow> snapshot_walk is m; Some (kv # out) }
      else snapshot_walk is m)"

definition snapshot :: "('k, 'v) SharedHashMap \<Rightarrow> ('k \<times> 'v) list option" where
  "snapshot m = snapshot_walk [0..<hm_capacity m] m"

section \<open>Well-formed maps and the map they stand for\<close>

lemmas slot_states = SLOT_EMPTY_def SLOT_OCCUPIED_def SLOT_TOMBSTONE_def

abbreviation occupied :: "('k, 'v) SharedHashMap \<Rightarrow> nat \<Rightarrow> bool" where
  "occupied m j \<equiv> ms_state (hm_slots m ! j) = SLOT_OCCUPIED"

abbreviation entry :: "('k, 'v) SharedHashMap \<Rightarrow> nat \<Rightarrow> 'k \<times> 'v" where
  "entry m j \<equiv> ms_payload (hm_slots m ! j)"

text \<open>The slot a probe for a key looks at after so many steps.\<close>

definition probe_idx :: "('k \<Rightarrow> bytes) \<Rightarrow> ('k, 'v) SharedHashMap \<Rightarrow> 'k \<Rightarrow> nat \<Rightarrow> nat" where
  "probe_idx kb m k i = (unat (hash_key kb k) + i) mod hm_capacity m"

definition hm_shape :: "('k, 'v) SharedHashMap \<Rightarrow> bool" where
  "hm_shape m \<longleftrightarrow> 2 \<le> hm_capacity m \<and> hm_capacity m < 2 ^ 64 \<and> length (hm_slots m) = hm_capacity m \<and>
     hm_cap_mask m = hm_capacity m - 1 \<and> hm_cap_is_pow2 m = is_power_of_two (hm_capacity m)"

definition slots_ok :: "('k \<Rightarrow> bytes) \<Rightarrow> ('k, 'v) SharedHashMap \<Rightarrow> bool" where
  "slots_ok kb m \<longleftrightarrow> (\<forall>j<hm_capacity m. ms_state (hm_slots m ! j) \<in> {SLOT_EMPTY, SLOT_OCCUPIED, SLOT_TOMBSTONE} \<and>
     even (ms_version (hm_slots m ! j)) \<and>
     (occupied m j \<longrightarrow> ms_hash (hm_slots m ! j) = hash_key kb (fst (entry m j))))"

definition one_slot :: "('k, 'v) SharedHashMap \<Rightarrow> bool" where
  "one_slot m \<longleftrightarrow> (\<forall>i<hm_capacity m. \<forall>j<hm_capacity m.
     occupied m i \<and> occupied m j \<and> fst (entry m i) = fst (entry m j) \<longrightarrow> i = j)"

text \<open>An entry is reached by its key's probe before any empty slot.\<close>

definition reaches :: "('k \<Rightarrow> bytes) \<Rightarrow> ('k, 'v) SharedHashMap \<Rightarrow> 'k \<Rightarrow> nat \<Rightarrow> bool" where
  "reaches kb m k j \<longleftrightarrow> (\<exists>d<hm_capacity m. probe_idx kb m k d = j \<and>
     (\<forall>i<d. ms_state (hm_slots m ! probe_idx kb m k i) \<noteq> SLOT_EMPTY))"

definition chains_ok :: "('k \<Rightarrow> bytes) \<Rightarrow> ('k, 'v) SharedHashMap \<Rightarrow> bool" where
  "chains_ok kb m \<longleftrightarrow> (\<forall>j<hm_capacity m. occupied m j \<longrightarrow> reaches kb m (fst (entry m j)) j)"

definition in_state :: "u8 \<Rightarrow> ('k, 'v) SharedHashMap \<Rightarrow> nat set" where
  "in_state st m = {j. j < hm_capacity m \<and> ms_state (hm_slots m ! j) = st}"

definition counts_ok :: "('k, 'v) SharedHashMap \<Rightarrow> bool" where
  "counts_ok m \<longleftrightarrow> mh_count (hm_header m) = of_nat (card (in_state SLOT_OCCUPIED m)) \<and>
     mh_tombstones (hm_header m) = of_nat (card (in_state SLOT_TOMBSTONE m))"

definition hm_wf :: "('k \<Rightarrow> bytes) \<Rightarrow> ('k, 'v) SharedHashMap \<Rightarrow> bool" where
  "hm_wf kb m \<longleftrightarrow> hm_shape m \<and> slots_ok kb m \<and> one_slot m \<and> chains_ok kb m \<and> counts_ok m"

definition hm_live :: "('k, 'v) SharedHashMap \<Rightarrow> ('k \<times> 'v) list" where
  "hm_live m = map ms_payload (filter (\<lambda>s. ms_state s = SLOT_OCCUPIED) (hm_slots m))"

definition hm_abs :: "('k, 'v) SharedHashMap \<Rightarrow> 'k \<rightharpoonup> 'v" where
  "hm_abs m = map_of (hm_live m)"

lemma hash_key_nonzero [simp]: "hash_key kb k \<noteq> HASH_UNSET"
  by (simp add: hash_key_def Let_def HASH_UNSET_def)

lemma wrap_mod:
  assumes "hm_shape m"
  shows "wrap m i = i mod hm_capacity m"
proof (cases "is_power_of_two (hm_capacity m)")
  case True
  then obtain k where "hm_capacity m = 2 ^ k" by (auto simp: is_power_of_two_def)
  then have "i AND (hm_capacity m - 1) = i mod hm_capacity m"
    by (metis mask_eq_exp_minus_1 take_bit_eq_mask take_bit_eq_mod)
  with True assms show ?thesis by (simp add: wrap_def hm_shape_def)
next
  case False
  with assms show ?thesis by (simp add: wrap_def hm_shape_def)
qed

lemma wrap_start: "hm_shape m \<Longrightarrow> wrap m (wrap m (unat (hash_key kb k)) + i) = probe_idx kb m k i"
  by (simp add: wrap_mod probe_idx_def mod_simps)

lemma probe_idx_less: "hm_shape m \<Longrightarrow> probe_idx kb m k i < hm_capacity m"
  by (simp add: probe_idx_def hm_shape_def)

lemma probe_idx_onto:
  assumes "hm_shape m" "j < hm_capacity m"
  shows "\<exists>d<hm_capacity m. probe_idx kb m k d = j"
proof -
  let ?c = "hm_capacity m" and ?h = "unat (hash_key kb k) mod hm_capacity m"
  have c: "0 < ?c" using assms(1) by (simp add: hm_shape_def)
  have "(?h + (j + (?c - ?h)) mod ?c) mod ?c = (?h + (j + (?c - ?h))) mod ?c" by (simp add: mod_simps)
  also have "\<dots> = (j + ?c) mod ?c" using mod_less_divisor [OF c, of "unat (hash_key kb k)"] by (simp add: less_imp_le)
  also have "\<dots> = j" using assms(2) by simp
  finally show ?thesis using c by (intro exI [of _ "(j + (?c - ?h)) mod ?c"]) (simp add: probe_idx_def mod_simps)
qed

lemma hm_wfD:
  assumes "hm_wf kb m"
  shows "hm_shape m" "slots_ok kb m" "one_slot m" "chains_ok kb m" "counts_ok m"
  using assms by (simp_all add: hm_wf_def)

lemma slots_okD:
  assumes "slots_ok kb m" "j < hm_capacity m"
  shows "ms_state (hm_slots m ! j) \<in> {SLOT_EMPTY, SLOT_OCCUPIED, SLOT_TOMBSTONE}" "even (ms_version (hm_slots m ! j))"
    "occupied m j \<Longrightarrow> ms_hash (hm_slots m ! j) = hash_key kb (fst (entry m j))"
  using assms by (auto simp: slots_ok_def)

text \<open>A key is present when a slot holds it.\<close>

definition holds_key :: "('k, 'v) SharedHashMap \<Rightarrow> nat \<Rightarrow> 'k \<Rightarrow> bool" where
  "holds_key m j k \<longleftrightarrow> occupied m j \<and> fst (entry m j) = k"

lemma live_set:
  "length (hm_slots m) = hm_capacity m \<Longrightarrow> set (hm_live m) = {entry m j | j. j < hm_capacity m \<and> occupied m j}"
  by (auto simp: hm_live_def in_set_conv_nth)

lemma live_upt: "hm_live m = map (entry m) (filter (occupied m) [0..<length (hm_slots m)])"
  unfolding hm_live_def by (subst (1) map_nth [symmetric]) (simp add: filter_map comp_def)

lemma live_distinct:
  assumes "length (hm_slots m) = hm_capacity m" "one_slot m"
  shows "distinct (map fst (hm_live m))"
proof -
  have live: "map fst (hm_live m) = map (\<lambda>j. fst (entry m j)) (filter (occupied m) [0..<hm_capacity m])"
    unfolding live_upt using assms(1) by simp
  show ?thesis unfolding live using assms(2) by (auto simp: distinct_map inj_on_def one_slot_def)
qed

lemma hm_abs_Some:
  assumes "hm_shape m" "one_slot m"
  shows "hm_abs m k = Some v \<longleftrightarrow> (\<exists>j<hm_capacity m. occupied m j \<and> entry m j = (k, v))"
proof -
  have len: "length (hm_slots m) = hm_capacity m" using assms(1) by (simp add: hm_shape_def)
  have "hm_abs m k = Some v \<longleftrightarrow> (k, v) \<in> set (hm_live m)"
    unfolding hm_abs_def using map_of_eq_Some_iff [OF live_distinct [OF len assms(2)]] .
  then show ?thesis unfolding live_set [OF len] by auto
qed

lemma hm_abs_None:
  assumes "hm_shape m"
  shows "hm_abs m k = None \<longleftrightarrow> (\<forall>j<hm_capacity m. \<not> holds_key m j k)"
proof -
  have "length (hm_slots m) = hm_capacity m" using assms by (simp add: hm_shape_def)
  then have "hm_abs m k = None \<longleftrightarrow> k \<notin> fst ` {entry m j | j. j < hm_capacity m \<and> occupied m j}"
    by (simp add: hm_abs_def map_of_eq_None_iff live_set)
  then show ?thesis by (auto simp: holds_key_def)
qed

section \<open>Maps equal up to slot versions\<close>

text \<open>A walk that locks a slot and lets it go again changes its version and nothing else.\<close>

definition veq :: "('k, 'v) SharedHashMap \<Rightarrow> ('k, 'v) SharedHashMap \<Rightarrow> bool" where
  "veq m m' \<longleftrightarrow> hm_header m' = hm_header m \<and> hm_capacity m' = hm_capacity m \<and> hm_cap_mask m' = hm_cap_mask m \<and>
     hm_cap_is_pow2 m' = hm_cap_is_pow2 m \<and> length (hm_slots m') = length (hm_slots m) \<and>
     (\<forall>j<length (hm_slots m). ms_state (hm_slots m' ! j) = ms_state (hm_slots m ! j) \<and>
        ms_hash (hm_slots m' ! j) = ms_hash (hm_slots m ! j) \<and> entry m' j = entry m j \<and>
        even (ms_version (hm_slots m' ! j)))"

lemma veq_refl: "hm_shape m \<Longrightarrow> slots_ok kb m \<Longrightarrow> veq m m"
  by (auto simp: veq_def slots_ok_def hm_shape_def)

lemma veq_trans: "veq m m' \<Longrightarrow> veq m' m'' \<Longrightarrow> veq m m''"
  by (auto simp: veq_def)

lemma veq_shape: "veq m m' \<Longrightarrow> hm_shape m \<Longrightarrow> hm_shape m'"
  by (simp add: veq_def hm_shape_def)

lemma veq_at:
  assumes "veq m m'" "hm_shape m" "j < hm_capacity m"
  shows "ms_state (hm_slots m' ! j) = ms_state (hm_slots m ! j)" "ms_hash (hm_slots m' ! j) = ms_hash (hm_slots m ! j)"
    "entry m' j = entry m j" "even (ms_version (hm_slots m' ! j))" "holds_key m' j k = holds_key m j k"
  using assms by (auto simp: veq_def hm_shape_def holds_key_def)

lemma veq_fields:
  assumes "veq m m'"
  shows "hm_capacity m' = hm_capacity m" "hm_header m' = hm_header m" "probe_idx kb m' k i = probe_idx kb m k i"
  using assms by (simp_all add: veq_def probe_idx_def)

lemma veq_wf:
  assumes "veq m m'" "hm_wf kb m"
  shows "hm_wf kb m'" "hm_live m' = hm_live m" "hm_abs m' = hm_abs m"
proof -
  note sh = hm_wfD(1) [OF assms(2)] and at = veq_at [OF assms(1) hm_wfD(1) [OF assms(2)]] and fl = veq_fields [OF assms(1)]
  have "slots_ok kb m'" using hm_wfD(2) [OF assms(2)] at fl unfolding slots_ok_def by auto
  moreover have "one_slot m'" using hm_wfD(3) [OF assms(2)] at fl unfolding one_slot_def by auto
  moreover have "reaches kb m' k j = reaches kb m k j" for k j
    unfolding reaches_def fl using at(1) probe_idx_less [OF sh] by metis
  with hm_wfD(4) [OF assms(2)] have "chains_ok kb m'" unfolding chains_ok_def using at fl by auto
  moreover have "in_state st m' = in_state st m" for st using at(1) fl by (auto simp: in_state_def)
  with hm_wfD(5) [OF assms(2)] have "counts_ok m'" by (simp add: counts_ok_def fl)
  ultimately show "hm_wf kb m'" using veq_shape [OF assms(1) sh] by (simp add: hm_wf_def)
  have len: "length (hm_slots m) = hm_capacity m" using sh by (simp add: hm_shape_def)
  have "length (hm_slots m') = hm_capacity m" using assms(1) len by (simp add: veq_def)
  moreover have "filter (occupied m') [0..<hm_capacity m] = filter (occupied m) [0..<hm_capacity m]"
    by (rule filter_cong) (auto simp: at(1))
  ultimately show "hm_live m' = hm_live m" unfolding live_upt using at(3) len by simp
  then show "hm_abs m' = hm_abs m" by (simp add: hm_abs_def)
qed

section \<open>Slot updates\<close>

lemma upd_simps [simp]:
  "hm_capacity (upd_slot j f m) = hm_capacity m" "hm_header (upd_slot j f m) = hm_header m"
  "hm_cap_mask (upd_slot j f m) = hm_cap_mask m" "hm_cap_is_pow2 (upd_slot j f m) = hm_cap_is_pow2 m"
  "length (hm_slots (upd_slot j f m)) = length (hm_slots m)"
  "hm_slots (upd_header g m) = hm_slots m" "hm_capacity (upd_header g m) = hm_capacity m"
  "hm_cap_mask (upd_header g m) = hm_cap_mask m" "hm_cap_is_pow2 (upd_header g m) = hm_cap_is_pow2 m"
  "hm_header (upd_header g m) = g (hm_header m)"
  "hm_slot (upd_header g m) = hm_slot m"
  by (simp_all add: upd_slot_def upd_header_def hm_slot_def fun_eq_iff)

lemma upd_slot_nth:
  "j < length (hm_slots m) \<Longrightarrow> hm_slots (upd_slot j f m) ! i = (if i = j then f (hm_slots m ! j) else hm_slots m ! i)"
  by (auto simp: upd_slot_def nth_list_update)

lemma upd_slot_upd [simp]: "upd_slot j f (upd_slot j g m) = upd_slot j (f \<circ> g) m"
  by (cases "j < length (hm_slots m)") (simp_all add: upd_slot_def list_update_beyond)

lemma even_succ2: "even (v + 1 + 1 :: u32) = even v"
  by (metis add.commute even_add odd_one)

lemma and_1_even: "(v :: u32) AND 1 = 0 \<longleftrightarrow> even v"
  by (simp add: even_iff_mod_2_eq_zero and_one_eq)

text \<open>What an overwrite, a placement and a removal leave behind, versions apart.\<close>

definition set_at :: "nat \<Rightarrow> 'k \<Rightarrow> 'v \<Rightarrow> ('k, 'v) SharedHashMap \<Rightarrow> ('k, 'v) SharedHashMap" where
  "set_at j k v m = upd_slot j (\<lambda>s. s\<lparr>ms_payload := (k, v)\<rparr>) m"

definition place_at :: "nat \<Rightarrow> u64 \<Rightarrow> 'k \<Rightarrow> 'v \<Rightarrow> ('k, 'v) SharedHashMap \<Rightarrow> ('k, 'v) SharedHashMap" where
  "place_at j h k v m =
     upd_header (\<lambda>hd. hd\<lparr>mh_count := mh_count hd + 1,
         mh_tombstones := mh_tombstones hd - (if ms_state (hm_slots m ! j) = SLOT_TOMBSTONE then 1 else 0)\<rparr>)
       (upd_slot j (\<lambda>s. s\<lparr>ms_state := SLOT_OCCUPIED, ms_hash := h, ms_payload := (k, v)\<rparr>) m)"

definition tomb_at :: "nat \<Rightarrow> ('k, 'v) SharedHashMap \<Rightarrow> ('k, 'v) SharedHashMap" where
  "tomb_at j m =
     upd_header (\<lambda>hd. hd\<lparr>mh_count := mh_count hd - 1, mh_tombstones := mh_tombstones hd + 1,
         mh_removals := mh_removals hd + 1\<rparr>)
       (upd_slot j (\<lambda>s. s\<lparr>ms_state := SLOT_TOMBSTONE, ms_hash := HASH_UNSET\<rparr>) m)"

lemma veq_set_at: "veq m m' \<Longrightarrow> j < length (hm_slots m) \<Longrightarrow> veq (set_at j k v m) (set_at j k v m')"
  by (auto simp: veq_def set_at_def upd_slot_nth)

lemma veq_place_at: "veq m m' \<Longrightarrow> j < length (hm_slots m) \<Longrightarrow> veq (place_at j h k v m) (place_at j h k v m')"
  by (auto simp: veq_def place_at_def upd_slot_nth)

lemma veq_tomb_at: "veq m m' \<Longrightarrow> j < length (hm_slots m) \<Longrightarrow> veq (tomb_at j m) (tomb_at j m')"
  by (auto simp: veq_def tomb_at_def upd_slot_nth)

text \<open>Taking a slot's lock, working on the slot and letting it go.\<close>

lemma lock_slot_even:
  assumes "even (ms_version (hm_slots m ! j))"
  shows "lock_slot j m = Some (ms_version (hm_slots m ! j) + 1, upd_slot j (\<lambda>s. s\<lparr>ms_version := ms_version (hm_slots m ! j) + 1\<rparr>) m)"
  using assms by (simp add: lock_slot_def hm_slot_def and_1_even Let_def)

definition relocked :: "nat \<Rightarrow> ('k, 'v) SharedHashMap \<Rightarrow> ('k, 'v) SharedHashMap" where
  "relocked j m = upd_slot j (\<lambda>s. s\<lparr>ms_version := ms_version (hm_slots m ! j) + 1 + 1\<rparr>) m"

lemma veq_relocked:
  assumes "hm_shape m" "slots_ok kb m" "j < hm_capacity m"
  shows "veq m (relocked j m)"
proof -
  have "j < length (hm_slots m)" using assms by (simp add: hm_shape_def)
  with assms show ?thesis using veq_refl [OF assms(1,2)] slots_okD(2) [OF assms(2,3)]
    by (auto simp: veq_def relocked_def upd_slot_nth even_succ2 simp del: upd_slot_upd)
qed

section \<open>Walks of a probe\<close>

text \<open>
  A present key sits at some offset of its probe with neither an empty slot nor the key before it.
\<close>

definition before_key :: "('k \<Rightarrow> bytes) \<Rightarrow> ('k, 'v) SharedHashMap \<Rightarrow> 'k \<Rightarrow> nat \<Rightarrow> bool" where
  "before_key kb m k i \<longleftrightarrow> ms_state (hm_slots m ! probe_idx kb m k i) \<noteq> SLOT_EMPTY \<and> \<not> holds_key m (probe_idx kb m k i) k"

lemma probe_idx_inj:
  assumes "i < hm_capacity m" "d < hm_capacity m" "probe_idx kb m k i = probe_idx kb m k d"
  shows "i = d"
  using mod_add_left_inj [of "unat (hash_key kb k)" i "hm_capacity m" d] assms by (simp add: probe_idx_def)

lemma key_position:
  assumes wf: "hm_wf kb m" and j: "j < hm_capacity m" "holds_key m j k"
  obtains L d L' where "[0..<hm_capacity m] = L @ d # L'" "probe_idx kb m k d = j" "\<forall>i\<in>set L. before_key kb m k i"
proof -
  from hm_wfD(4) [OF wf] j obtain d where d: "d < hm_capacity m" "probe_idx kb m k d = j"
    "\<forall>i<d. ms_state (hm_slots m ! probe_idx kb m k i) \<noteq> SLOT_EMPTY"
    by (auto simp: chains_ok_def reaches_def holds_key_def)
  have "before_key kb m k i" if i: "i < d" for i
  proof -
    have "\<not> holds_key m (probe_idx kb m k i) k"
    proof
      assume "holds_key m (probe_idx kb m k i) k"
      then have "probe_idx kb m k i = j"
        using hm_wfD(3) [OF wf] j probe_idx_less [OF hm_wfD(1) [OF wf]] by (auto simp: one_slot_def holds_key_def)
      then show False using probe_idx_inj [of i m d kb k] d i by simp
    qed
    with d(3) i show ?thesis by (simp add: before_key_def)
  qed
  moreover have "[0..<hm_capacity m] = [0..<d] @ d # [Suc d..<hm_capacity m]"
    using d(1) upt_add_eq_append [of 0 d "hm_capacity m - d"] by (simp add: upt_conv_Cons)
  ultimately show ?thesis using that d(2) by auto
qed

lemma published_occupied:
  assumes "slots_ok kb m" "j < hm_capacity m" "occupied m j"
  shows "published_hash j m = Some (hash_key kb (fst (entry m j)))"
  using slots_okD(3) [OF assms(1,2,3)] by (simp add: published_hash_def hm_slot_def Let_def)

lemma read_even: "slots_ok kb m \<Longrightarrow> j < hm_capacity m \<Longrightarrow> hm_read_payload j m = Some (entry m j)"
  using slots_okD(2) by (simp add: hm_read_payload_def hm_slot_def and_1_even)

lemma occupied_not_other [simp]: "SLOT_OCCUPIED \<noteq> SLOT_EMPTY" "SLOT_OCCUPIED \<noteq> SLOT_TOMBSTONE" "SLOT_TOMBSTONE \<noteq> SLOT_EMPTY"
  "SLOT_EMPTY \<noteq> SLOT_OCCUPIED" "SLOT_TOMBSTONE \<noteq> SLOT_OCCUPIED" "SLOT_EMPTY \<noteq> SLOT_TOMBSTONE"
  by (simp_all add: slot_states)

lemma get_walk_absent:
  assumes wf: "hm_wf kb m" and absent: "\<forall>j<hm_capacity m. \<not> holds_key m j key"
  shows "get_walk L (hash_key kb key) (wrap m (unat (hash_key kb key))) key m = Some None"
proof (induction L)
  case (Cons i L)
  note sh = hm_wfD(1) [OF wf] and ok = hm_wfD(2) [OF wf]
  have lt: "probe_idx kb m key i < hm_capacity m" by (rule probe_idx_less [OF sh])
  with absent have "occupied m (probe_idx kb m key i) \<Longrightarrow> fst (entry m (probe_idx kb m key i)) \<noteq> key"
    by (auto simp: holds_key_def)
  with Cons published_occupied [OF ok lt] read_even [OF ok lt] show ?case
    by (cases "entry m (probe_idx kb m key i)")
      (auto simp: wrap_start [OF sh] hm_slot_def Let_def simp del: get_walk.simps(1))
qed simp

lemma get_walk_found:
  assumes wf: "hm_wf kb m" and L: "\<forall>i\<in>set L. before_key kb m key i"
    and d: "occupied m (probe_idx kb m key d)" "entry m (probe_idx kb m key d) = (key, v)"
  shows "get_walk (L @ d # L') (hash_key kb key) (wrap m (unat (hash_key kb key))) key m = Some (Some v)"
  using L
proof (induction L)
  note sh = hm_wfD(1) [OF wf] and ok = hm_wfD(2) [OF wf]
  case Nil
  have lt: "probe_idx kb m key d < hm_capacity m" by (rule probe_idx_less [OF sh])
  with d published_occupied [OF ok lt] read_even [OF ok lt] show ?case by (simp add: wrap_start [OF sh] hm_slot_def)
next
  note sh = hm_wfD(1) [OF wf] and ok = hm_wfD(2) [OF wf]
  case (Cons i L)
  have lt: "probe_idx kb m key i < hm_capacity m" by (rule probe_idx_less [OF sh])
  from Cons.prems have "ms_state (hm_slots m ! probe_idx kb m key i) \<noteq> SLOT_EMPTY"
    "occupied m (probe_idx kb m key i) \<Longrightarrow> fst (entry m (probe_idx kb m key i)) \<noteq> key"
    by (auto simp: before_key_def holds_key_def)
  with Cons published_occupied [OF ok lt] read_even [OF ok lt] show ?case
    by (cases "entry m (probe_idx kb m key i)") (auto simp: wrap_start [OF sh] hm_slot_def Let_def)
qed

lemma get_inner_abs:
  assumes wf: "hm_wf kb m"
  shows "get_inner kb key m = Some (hm_abs m key)"
proof (cases "hm_abs m key")
  case None
  then have "\<forall>j<hm_capacity m. \<not> holds_key m j key" using hm_abs_None [OF hm_wfD(1) [OF wf]] by simp
  with None get_walk_absent [OF wf] show ?thesis by (simp add: get_inner_def Let_def)
next
  case (Some v)
  then obtain j where j: "j < hm_capacity m" "occupied m j" "entry m j = (key, v)"
    using hm_abs_Some [OF hm_wfD(1,3) [OF wf]] by auto
  then have "holds_key m j key" by (simp add: holds_key_def)
  from key_position [OF wf j(1) this] obtain L d L' where
    "[0..<hm_capacity m] = L @ d # L'" "probe_idx kb m key d = j" "\<forall>i\<in>set L. before_key kb m key i" .
  with get_walk_found [OF wf this(3), of d v L'] j Some show ?thesis by (simp add: get_inner_def Let_def)
qed

text \<open>Walks that lock slots: the map they leave equals the map they found, versions apart.\<close>

lemma veq_wrap: "veq m m' \<Longrightarrow> wrap m' = wrap m"
  by (auto simp: veq_def wrap_def fun_eq_iff)

lemma veq_before_key: "veq m m' \<Longrightarrow> hm_shape m \<Longrightarrow> before_key kb m' k i = before_key kb m k i"
  using veq_at(1,5) [of m m' "probe_idx kb m k i"] probe_idx_less [of m kb k i] by (simp add: before_key_def veq_fields)

lemma locked_read:
  assumes "hm_shape m" "j < hm_capacity m"
  shows "read_payload_locked j (upd_slot j (\<lambda>s. s\<lparr>ms_version := v\<rparr>) m) = entry m j"
    "holds j h (upd_slot j (\<lambda>s. s\<lparr>ms_version := v\<rparr>) m) \<longleftrightarrow> occupied m j \<and> ms_hash (hm_slots m ! j) = h"
    "unlock_slot j (ms_version (hm_slots m ! j) + 1) (upd_slot j (\<lambda>s. s\<lparr>ms_version := ms_version (hm_slots m ! j) + 1\<rparr>) m) = relocked j m"
  using assms by (simp_all add: read_payload_locked_def holds_def hm_slot_def unlock_slot_def relocked_def upd_slot_nth
      hm_shape_def comp_def)

lemma remove_walk_step:
  assumes wf: "hm_wf kb m" and skip: "before_key kb m key i" and start: "start = wrap m (unat (hash_key kb key))"
  shows "\<exists>m'. veq m m' \<and> remove_walk (i # L) (hash_key kb key) start key m = remove_walk L (hash_key kb key) start key m'"
proof -
  note sh = hm_wfD(1) [OF wf] and ok = hm_wfD(2) [OF wf]
  let ?j = "probe_idx kb m key i"
  have lt: "?j < hm_capacity m" by (rule probe_idx_less [OF sh])
  have refl: "veq m m" by (rule veq_refl [OF sh ok])
  show ?thesis
  proof (cases "occupied m ?j \<and> hash_key kb (fst (entry m ?j)) = hash_key kb key")
    case True
    then have "fst (entry m ?j) \<noteq> key" using skip by (auto simp: before_key_def holds_key_def)
    with True published_occupied [OF ok lt] lock_slot_even [OF slots_okD(2) [OF ok lt]] locked_read [OF sh lt]
    have "remove_walk (i # L) (hash_key kb key) start key m = remove_walk L (hash_key kb key) start key (relocked ?j m)"
      by (cases "entry m ?j") (simp add: start wrap_start [OF sh] hm_slot_def Let_def)
    with veq_relocked [OF sh ok lt] show ?thesis by blast
  next
    case False
    with skip published_occupied [OF ok lt]
    have "remove_walk (i # L) (hash_key kb key) start key m = remove_walk L (hash_key kb key) start key m"
      by (auto simp: start wrap_start [OF sh] hm_slot_def Let_def before_key_def)
    with refl show ?thesis by blast
  qed
qed

lemma remove_at:
  assumes wf: "hm_wf kb m" and d: "holds_key m (probe_idx kb m key d) key" and start: "start = wrap m (unat (hash_key kb key))"
  shows "\<exists>m'. veq (tomb_at (probe_idx kb m key d) m) m' \<and>
    remove_walk (d # L') (hash_key kb key) start key m = Some (Some (snd (entry m (probe_idx kb m key d))), m')"
proof -
  note sh = hm_wfD(1) [OF wf] and ok = hm_wfD(2) [OF wf]
  let ?j = "probe_idx kb m key d"
  have lt: "?j < hm_capacity m" by (rule probe_idx_less [OF sh])
  then have lt': "?j < length (hm_slots m)" using sh by (simp add: hm_shape_def)
  obtain v where v: "entry m ?j = (key, v)" "occupied m ?j" using d by (cases "entry m ?j") (auto simp: holds_key_def)
  have hash: "ms_hash (hm_slots m ! ?j) = hash_key kb key" using slots_okD(3) [OF ok lt v(2)] v(1) by simp
  let ?m' = "upd_header (\<lambda>h. h\<lparr>mh_count := mh_count h - 1, mh_tombstones := mh_tombstones h + 1\<rparr>)
    (unlock_slot ?j (ms_version (hm_slots m ! ?j) + 1) (upd_slot ?j (\<lambda>s. s\<lparr>ms_state := SLOT_TOMBSTONE, ms_hash := HASH_UNSET\<rparr>)
      (upd_header (\<lambda>h. h\<lparr>mh_removals := mh_removals h + 1\<rparr>)
        (upd_slot ?j (\<lambda>s. s\<lparr>ms_version := ms_version (hm_slots m ! ?j) + 1\<rparr>) m))))"
  have "remove_walk (d # L') (hash_key kb key) start key m = Some (Some v, ?m')"
    using v hash published_occupied [OF ok lt v(2)] lock_slot_even [OF slots_okD(2) [OF ok lt]] locked_read [OF sh lt] lt'
    by (simp add: start wrap_start [OF sh] hm_slot_def Let_def upd_slot_nth del: upd_slot_upd)
  moreover have "veq (tomb_at ?j m) ?m'"
    using veq_refl [OF sh ok] lt' slots_okD(2) [OF ok lt]
    by (auto simp: veq_def tomb_at_def unlock_slot_def upd_slot_nth even_succ2 simp del: upd_slot_upd)
  ultimately show ?thesis using v by auto
qed

text \<open>
  The walks of remove and of compare-exchange share a contract: they pass slots that do not hold the
  key, stop at an empty slot and act on the slot that holds the key. What a whole walk does follows
  from it.
\<close>

locale key_walk =
  fixes kb :: "'k \<Rightarrow> bytes" and key :: 'k
    and walk :: "nat list \<Rightarrow> ('k, 'v) SharedHashMap \<Rightarrow> ('r \<times> ('k, 'v) SharedHashMap) option"
    and missing :: 'r and result :: "'v \<Rightarrow> 'r"
    and act :: "nat \<Rightarrow> ('k, 'v) SharedHashMap \<Rightarrow> ('k, 'v) SharedHashMap"
  assumes walk_nil: "walk [] m = Some (missing, m)"
    and walk_skip: "hm_wf kb m \<Longrightarrow> before_key kb m key i \<Longrightarrow> \<exists>m'. veq m m' \<and> walk (i # L) m = walk L m'"
    and walk_stop: "hm_wf kb m \<Longrightarrow> ms_state (hm_slots m ! probe_idx kb m key i) = SLOT_EMPTY \<Longrightarrow>
      walk (i # L) m = Some (missing, m)"
    and walk_hit: "hm_wf kb m \<Longrightarrow> holds_key m (probe_idx kb m key d) key \<Longrightarrow>
      \<exists>m'. veq (act (probe_idx kb m key d) m) m' \<and>
        walk (d # L) m = Some (result (snd (entry m (probe_idx kb m key d))), m')"
    and act_veq: "veq m m' \<Longrightarrow> j < length (hm_slots m) \<Longrightarrow> veq (act j m) (act j m')"
begin

lemma walk_absent:
  assumes "hm_wf kb m" "\<forall>j<hm_capacity m. \<not> holds_key m j key"
  shows "\<exists>m'. veq m m' \<and> walk L m = Some (missing, m')"
  using assms
proof (induction L arbitrary: m)
  case Nil
  then show ?case using veq_refl [OF hm_wfD(1,2)] by (fastforce simp: walk_nil)
next
  case (Cons i L)
  note sh = hm_wfD(1) [OF Cons.prems(1)]
  show ?case
  proof (cases "ms_state (hm_slots m ! probe_idx kb m key i) = SLOT_EMPTY")
    case True
    then show ?thesis using veq_refl [OF hm_wfD(1,2) [OF Cons.prems(1)]] walk_stop [OF Cons.prems(1)] by blast
  next
    case False
    then have "before_key kb m key i" using Cons.prems(2) probe_idx_less [OF sh] by (auto simp: before_key_def)
    from walk_skip [OF Cons.prems(1) this] obtain m1 where m1: "veq m m1" "walk (i # L) m = walk L m1" by blast
    have "\<exists>m'. veq m1 m' \<and> walk L m1 = Some (missing, m')"
      using Cons.prems veq_wf(1) [OF m1(1)] veq_at(5) [OF m1(1) sh] by (intro Cons.IH) (simp_all add: veq_fields [OF m1(1)])
    with m1 veq_trans show ?thesis by metis
  qed
qed

lemma walk_found:
  assumes "hm_wf kb m" "\<forall>i\<in>set L. before_key kb m key i" "holds_key m (probe_idx kb m key d) key"
  shows "\<exists>m'. veq (act (probe_idx kb m key d) m) m' \<and>
    walk (L @ d # L') m = Some (result (snd (entry m (probe_idx kb m key d))), m')"
  using assms
proof (induction L arbitrary: m)
  case Nil
  with walk_hit [of m d L'] show ?case by simp
next
  case (Cons i L)
  note sh = hm_wfD(1) [OF Cons.prems(1)]
  have lt: "probe_idx kb m key d < hm_capacity m" by (rule probe_idx_less [OF sh])
  from walk_skip [OF Cons.prems(1), of i "L @ d # L'"] Cons.prems(2) obtain m1 where
    m1: "veq m m1" "walk (i # L @ d # L') m = walk (L @ d # L') m1" by auto
  have "\<exists>m'. veq (act (probe_idx kb m1 key d) m1) m' \<and>
      walk (L @ d # L') m1 = Some (result (snd (entry m1 (probe_idx kb m1 key d))), m')"
    using Cons.prems veq_wf(1) [OF m1(1)] veq_at(5) [OF m1(1) sh lt] veq_before_key [OF m1(1) sh]
    by (intro Cons.IH) (simp_all add: veq_fields [OF m1(1)])
  moreover have "veq (act (probe_idx kb m key d) m) (act (probe_idx kb m key d) m1)"
    using act_veq [OF m1(1)] lt sh by (simp add: hm_shape_def)
  ultimately show ?case
    using m1 veq_trans veq_at(3) [OF m1(1) sh lt] by (auto simp: veq_fields [OF m1(1)])
qed

lemma whole_walk:
  assumes wf: "hm_wf kb m"
  shows "\<exists>m'. case hm_abs m key of
      None \<Rightarrow> veq m m' \<and> walk [0..<hm_capacity m] m = Some (missing, m')
    | Some v \<Rightarrow> walk [0..<hm_capacity m] m = Some (result v, m') \<and>
        (\<exists>j<hm_capacity m. holds_key m j key \<and> snd (entry m j) = v \<and> veq (act j m) m')"
proof (cases "hm_abs m key")
  case None
  then have "\<forall>j<hm_capacity m. \<not> holds_key m j key" using hm_abs_None [OF hm_wfD(1) [OF wf]] by simp
  with walk_absent [OF wf] None show ?thesis by simp
next
  case (Some v)
  then obtain j where j: "j < hm_capacity m" "occupied m j" "entry m j = (key, v)"
    using hm_abs_Some [OF hm_wfD(1,3) [OF wf]] by auto
  then have k: "holds_key m j key" by (simp add: holds_key_def)
  from key_position [OF wf j(1) k] obtain L d L' where
    L: "[0..<hm_capacity m] = L @ d # L'" "probe_idx kb m key d = j" "\<forall>i\<in>set L. before_key kb m key i" .
  with walk_found [OF wf L(3), of d L'] k obtain m' where
    "veq (act j m) m'" "walk [0..<hm_capacity m] m = Some (result (snd (entry m j)), m')" by auto
  with Some j k show ?thesis by (intro exI [of _ m']) auto
qed

end

lemma remove_walk_stop:
  assumes "hm_wf kb m" "ms_state (hm_slots m ! probe_idx kb m key i) = SLOT_EMPTY"
  shows "remove_walk (i # L) (hash_key kb key) (wrap m (unat (hash_key kb key))) key m = Some (None, m)"
  using assms by (simp add: wrap_start [OF hm_wfD(1) [OF assms(1)]] hm_slot_def)

interpretation rw: key_walk kb key "\<lambda>L m. remove_walk L (hash_key kb key) (wrap m (unat (hash_key kb key))) key m"
  None Some tomb_at for kb key
proof
  show "\<exists>m'. veq m m' \<and> remove_walk (i # L) (hash_key kb key) (wrap m (unat (hash_key kb key))) key m =
      remove_walk L (hash_key kb key) (wrap m' (unat (hash_key kb key))) key m'"
    if "hm_wf kb m" "before_key kb m key i" for m i L
    using remove_walk_step [OF that refl, of L] by (metis veq_wrap)
qed (use remove_walk_stop remove_at [OF _ _ refl] veq_tomb_at in auto)

section \<open>Compare-exchange and placement walks\<close>

lemma cas_walk_step:
  assumes wf: "hm_wf kb m" and skip: "before_key kb m key i" and start: "start = wrap m (unat (hash_key kb key))"
  shows "\<exists>m'. veq m m' \<and> cas_walk (i # L) (hash_key kb key) start vb key expected new m =
    cas_walk L (hash_key kb key) start vb key expected new m'"
proof -
  note sh = hm_wfD(1) [OF wf] and ok = hm_wfD(2) [OF wf]
  let ?j = "probe_idx kb m key i"
  have lt: "?j < hm_capacity m" by (rule probe_idx_less [OF sh])
  show ?thesis
  proof (cases "occupied m ?j \<and> hash_key kb (fst (entry m ?j)) = hash_key kb key")
    case True
    then have "fst (entry m ?j) \<noteq> key" using skip by (auto simp: before_key_def holds_key_def)
    with True published_occupied [OF ok lt] lock_slot_even [OF slots_okD(2) [OF ok lt]] locked_read [OF sh lt]
    have "cas_walk (i # L) (hash_key kb key) start vb key expected new m =
        cas_walk L (hash_key kb key) start vb key expected new (relocked ?j m)"
      by (cases "entry m ?j") (simp add: start wrap_start [OF sh] hm_slot_def Let_def)
    with veq_relocked [OF sh ok lt] show ?thesis by blast
  next
    case False
    with skip published_occupied [OF ok lt] have "cas_walk (i # L) (hash_key kb key) start vb key expected new m =
        cas_walk L (hash_key kb key) start vb key expected new m"
      by (auto simp: start wrap_start [OF sh] hm_slot_def Let_def before_key_def)
    with veq_refl [OF sh ok] show ?thesis by blast
  qed
qed

definition cas_act :: "('v \<Rightarrow> bytes) \<Rightarrow> 'k \<Rightarrow> 'v \<Rightarrow> 'v \<Rightarrow> nat \<Rightarrow> ('k, 'v) SharedHashMap \<Rightarrow> ('k, 'v) SharedHashMap" where
  "cas_act vb key expected new j m = (if vb (snd (entry m j)) = vb expected then set_at j key new m else m)"

definition cas_result :: "('v \<Rightarrow> bytes) \<Rightarrow> 'v \<Rightarrow> 'v \<Rightarrow> MapError + ('v + unit)" where
  "cas_result vb expected v = Inr (if vb v = vb expected then Inr () else Inl v)"

lemma copy_locked:
  assumes "hm_shape m" "slots_ok kb m" "j < hm_capacity m"
  shows "veq (set_at j k v m) (unlock_slot j (ms_version (hm_slots m ! j) + 1) (copy_payload j k v
    (upd_slot j (\<lambda>s. s\<lparr>ms_version := ms_version (hm_slots m ! j) + 1\<rparr>) m)))"
proof -
  have "j < length (hm_slots m)" using assms by (simp add: hm_shape_def)
  with veq_refl [OF assms(1,2)] slots_okD(2) [OF assms(2,3)] show ?thesis
    by (auto simp: veq_def set_at_def unlock_slot_def copy_payload_def upd_slot_nth even_succ2 simp del: upd_slot_upd)
qed

lemma cas_at:
  assumes wf: "hm_wf kb m" and d: "holds_key m (probe_idx kb m key d) key"
  shows "\<exists>m'. veq (cas_act vb key expected new (probe_idx kb m key d) m) m' \<and>
    cas_walk (d # L) (hash_key kb key) (wrap m (unat (hash_key kb key))) vb key expected new m =
      Some (cas_result vb expected (snd (entry m (probe_idx kb m key d))), m')"
proof -
  note sh = hm_wfD(1) [OF wf] and ok = hm_wfD(2) [OF wf]
  let ?j = "probe_idx kb m key d"
  have lt: "?j < hm_capacity m" by (rule probe_idx_less [OF sh])
  obtain v where v: "entry m ?j = (key, v)" "occupied m ?j" using d by (cases "entry m ?j") (auto simp: holds_key_def)
  have hash: "ms_hash (hm_slots m ! ?j) = hash_key kb key" using slots_okD(3) [OF ok lt v(2)] v(1) by simp
  note facts = v hash published_occupied [OF ok lt v(2)] lock_slot_even [OF slots_okD(2) [OF ok lt]] locked_read [OF sh lt]
  show ?thesis
  proof (cases "vb v = vb expected")
    case True
    with facts copy_locked [OF sh ok lt, of key new] show ?thesis
      by (auto simp: wrap_start [OF sh] hm_slot_def Let_def cas_act_def cas_result_def)
  next
    case False
    with facts veq_relocked [OF sh ok lt] show ?thesis
      by (auto simp: wrap_start [OF sh] hm_slot_def Let_def cas_act_def cas_result_def)
  qed
qed

interpretation cw: key_walk kb key
  "\<lambda>L m. cas_walk L (hash_key kb key) (wrap m (unat (hash_key kb key))) vb key expected new m"
  "Inl KeyAbsent" "cas_result vb expected" "cas_act vb key expected new" for kb key vb expected new
proof
  show "\<exists>m'. veq m m' \<and> cas_walk (i # L) (hash_key kb key) (wrap m (unat (hash_key kb key))) vb key expected new m =
      cas_walk L (hash_key kb key) (wrap m' (unat (hash_key kb key))) vb key expected new m'"
    if "hm_wf kb m" "before_key kb m key i" for m i L
    using cas_walk_step [OF that refl, of L] by (metis veq_wrap)
  show "cas_walk (i # L) (hash_key kb key) (wrap m (unat (hash_key kb key))) vb key expected new m = Some (Inl KeyAbsent, m)"
    if "hm_wf kb m" "ms_state (hm_slots m ! probe_idx kb m key i) = SLOT_EMPTY" for m i L
    using that by (simp add: wrap_start [OF hm_wfD(1) [OF that(1)]] hm_slot_def)
  show "veq (cas_act vb key expected new j m) (cas_act vb key expected new j m')"
    if "veq m m'" "j < length (hm_slots m)" for m m' j
    using that veq_set_at [OF that] by (auto simp: cas_act_def veq_def)
qed (use cas_at in auto)

lemma present_other:
  assumes wf: "hm_wf kb m" and j: "j < hm_capacity m" "occupied m j" "\<not> holds_key m j key"
  shows "\<exists>m'. veq m m' \<and> present j (hash_key kb key) key v overwrite m = Some (Elsewhere, m')"
proof -
  note sh = hm_wfD(1) [OF wf] and ok = hm_wfD(2) [OF wf]
  have ne: "fst (entry m j) \<noteq> key" using j by (simp add: holds_key_def)
  with published_occupied [OF ok j(1,2)] lock_slot_even [OF slots_okD(2) [OF ok j(1)]] locked_read [OF sh j(1)]
    veq_relocked [OF sh ok j(1)] veq_refl [OF sh ok] read_even [OF ok j(1)]
  show ?thesis by (cases "entry m j") (auto simp: present_def)
qed

lemma present_here:
  assumes wf: "hm_wf kb m" and j: "j < hm_capacity m" "holds_key m j key"
  shows "\<exists>m'. veq (if overwrite then set_at j key v m else m) m' \<and>
    present j (hash_key kb key) key v overwrite m = Some (Here (snd (entry m j)), m')"
proof -
  note sh = hm_wfD(1) [OF wf] and ok = hm_wfD(2) [OF wf]
  have o: "occupied m j" "fst (entry m j) = key" using j by (simp_all add: holds_key_def)
  have "ms_hash (hm_slots m ! j) = hash_key kb key" using slots_okD(3) [OF ok j(1) o(1)] o(2) by simp
  with o published_occupied [OF ok j(1) o(1)] lock_slot_even [OF slots_okD(2) [OF ok j(1)]] locked_read [OF sh j(1)]
    veq_refl [OF sh ok] read_even [OF ok j(1)] copy_locked [OF sh ok j(1), of key v]
  show ?thesis by (cases "entry m j") (auto simp: present_def)
qed

lemma card_state_bound:
  assumes "hm_shape m"
  shows "card (in_state st m) < 2 ^ 64"
proof -
  have "in_state st m \<subseteq> {..<hm_capacity m}" by (auto simp: in_state_def)
  then have "card (in_state st m) \<le> hm_capacity m" using card_mono [of "{..<hm_capacity m}"] by auto
  with assms show ?thesis by (simp add: hm_shape_def)
qed

lemma tombstones_nonzero:
  assumes "hm_wf kb m" "j < hm_capacity m" "ms_state (hm_slots m ! j) = SLOT_TOMBSTONE"
  shows "mh_tombstones (hm_header m) \<noteq> 0"
proof
  assume "mh_tombstones (hm_header m) = 0"
  then have "unat (of_nat (card (in_state SLOT_TOMBSTONE m)) :: u64) = 0"
    using hm_wfD(5) [OF assms(1)] by (simp add: counts_ok_def)
  then have "card (in_state SLOT_TOMBSTONE m) = 0"
    using unat_of_nat_small [of "card (in_state SLOT_TOMBSTONE m)", where 'a = 64] card_state_bound [OF hm_wfD(1) [OF assms(1)]]
    by simp
  moreover have "finite (in_state SLOT_TOMBSTONE m)" by (simp add: in_state_def)
  ultimately show False using assms(2,3) by (auto simp: in_state_def)
qed

lemma claim_ok:
  assumes wf: "hm_wf kb m" and j: "j < hm_capacity m" "ms_state (hm_slots m ! j) = old" "old \<in> {SLOT_EMPTY, SLOT_TOMBSTONE}"
  shows "\<exists>m'. veq (place_at j h key v m) m' \<and> claim j old (mh_removals (hm_header m)) h key v m = Some (ClaimPlaced, m')"
proof -
  note sh = hm_wfD(1) [OF wf] and ok = hm_wfD(2) [OF wf]
  have lt: "j < length (hm_slots m)" using j(1) sh by (simp add: hm_shape_def)
  have tomb: "old = SLOT_TOMBSTONE \<Longrightarrow> mh_tombstones (hm_header m) \<noteq> 0" using tombstones_nonzero [OF wf j(1)] j(2) by simp
  have ev: "even (ms_version (hm_slots m ! j))" by (rule slots_okD(2) [OF ok j(1)])
  have pub: "publish_claimed j h key v (upd_slot j f m) = Some (upd_slot j (\<lambda>s. (f s)\<lparr>ms_payload := (key, v),
      ms_version := ms_version s + 1 + 1, ms_hash := h\<rparr>) m)" if f: "\<And>s. ms_version (f s) = ms_version s" for f
    using lt ev f by (simp add: publish_claimed_def hm_write_payload_def lock_slot_def hm_slot_def and_1_even unlock_slot_def
        copy_payload_def upd_slot_nth upd_slot_def Let_def list_update_overwrite)
  show ?thesis
    using j lt ev tomb veq_refl [OF sh ok]
    by (auto simp: claim_def hm_slot_def Let_def pub comp_def release_tombstone_def veq_def place_at_def upd_slot_nth even_succ2)
qed

lemma probe_tombstone:
  assumes "hm_shape m" "ms_state (hm_slots m ! probe_idx kb m key i) = SLOT_TOMBSTONE"
  shows "probe_slot (probe_idx kb m key i) h key v overwrite rem ft m = Some (Inr (note_tombstone (probe_idx kb m key i) ft), m)"
  using assms by (simp add: probe_slot_def probe_nonempty_def hm_slot_def Let_def)

lemma probe_other:
  assumes wf: "hm_wf kb m" and o: "occupied m (probe_idx kb m key i)" "\<not> holds_key m (probe_idx kb m key i) key"
  shows "\<exists>m'. veq m m' \<and> probe_slot (probe_idx kb m key i) (hash_key kb key) key v overwrite rem ft m = Some (Inr ft, m')"
  using present_other [OF wf probe_idx_less [OF hm_wfD(1) [OF wf]] o, of v overwrite] o(1)
  by (auto simp: probe_slot_def probe_nonempty_def hm_slot_def Let_def)

lemma probe_found:
  assumes "hm_wf kb m" "\<forall>i\<in>set L. before_key kb m key i" "holds_key m (probe_idx kb m key d) key"
    "start = wrap m (unat (hash_key kb key))"
  shows "\<exists>m'. veq (if overwrite then set_at (probe_idx kb m key d) key v m else m) m' \<and>
    probe_walk (L @ d # L') (hash_key kb key) start key v overwrite rem ft m =
      Some (Placed (Existing (snd (entry m (probe_idx kb m key d)))), m')"
  using assms
proof (induction L arbitrary: m ft)
  case Nil
  note sh = hm_wfD(1) [OF Nil(1)]
  from present_here [OF Nil(1) probe_idx_less [OF sh] Nil(3), of overwrite v] Nil(3) show ?case
    by (auto simp: Nil(4) wrap_start [OF sh] probe_slot_def probe_nonempty_def hm_slot_def Let_def holds_key_def)
next
  case (Cons i L)
  note sh = hm_wfD(1) [OF Cons.prems(1)]
  have lt: "probe_idx kb m key d < hm_capacity m" by (rule probe_idx_less [OF sh])
  have skip: "before_key kb m key i" using Cons.prems(2) by simp
  have "ms_state (hm_slots m ! probe_idx kb m key i) = SLOT_TOMBSTONE \<or>
      (occupied m (probe_idx kb m key i) \<and> \<not> holds_key m (probe_idx kb m key i) key)"
    using skip slots_okD(1) [OF hm_wfD(2) [OF Cons.prems(1)] probe_idx_less [OF sh], of kb key i] by (auto simp: before_key_def)
  then have "\<exists>m1 ft'. veq m m1 \<and> probe_slot (probe_idx kb m key i) (hash_key kb key) key v overwrite rem ft m = Some (Inr ft', m1)"
    using probe_tombstone [OF sh] probe_other [OF Cons.prems(1)] veq_refl [OF sh hm_wfD(2) [OF Cons.prems(1)]] by blast
  then obtain m1 ft' where m1: "veq m m1"
    "probe_slot (probe_idx kb m key i) (hash_key kb key) key v overwrite rem ft m = Some (Inr ft', m1)" by blast
  have "\<exists>m'. veq (if overwrite then set_at (probe_idx kb m1 key d) key v m1 else m1) m' \<and>
      probe_walk (L @ d # L') (hash_key kb key) start key v overwrite rem ft' m1 =
        Some (Placed (Existing (snd (entry m1 (probe_idx kb m1 key d)))), m')"
    using Cons.prems veq_wf(1) [OF m1(1)] veq_at(5) [OF m1(1) sh lt] veq_before_key [OF m1(1) sh]
    by (intro Cons.IH) (simp_all add: veq_wrap [OF m1(1)] veq_fields [OF m1(1)])
  moreover have "veq (set_at (probe_idx kb m key d) key v m) (set_at (probe_idx kb m key d) key v m1)"
    using veq_set_at [OF m1(1)] lt sh by (simp add: hm_shape_def)
  ultimately show ?case
    using m1 veq_trans veq_at(3) [OF m1(1) sh lt] Cons.prems(4)
    by (auto simp: veq_fields [OF m1(1)] wrap_start [OF sh] split: if_splits)
qed

text \<open>
  A walk that has passed the first \<open>i\<close> offsets: none was empty, and it remembers a tombstone if it
  has seen one.
\<close>

definition walked :: "('k \<Rightarrow> bytes) \<Rightarrow> ('k, 'v) SharedHashMap \<Rightarrow> 'k \<Rightarrow> nat \<Rightarrow> nat option \<Rightarrow> bool" where
  "walked kb m key i ft \<longleftrightarrow> (\<forall>i'<i. ms_state (hm_slots m ! probe_idx kb m key i') \<noteq> SLOT_EMPTY) \<and>
     (case ft of
        None \<Rightarrow> \<forall>i'<i. occupied m (probe_idx kb m key i')
      | Some t \<Rightarrow> \<exists>d<i. t = probe_idx kb m key d \<and> ms_state (hm_slots m ! t) = SLOT_TOMBSTONE)"

lemma walked_reaches:
  assumes "walked kb m key i ft" "i \<le> hm_capacity m" "hm_shape m"
  shows "ft = Some t \<Longrightarrow> t < hm_capacity m \<and> ms_state (hm_slots m ! t) = SLOT_TOMBSTONE \<and> reaches kb m key t"
    "i < hm_capacity m \<Longrightarrow> reaches kb m key (probe_idx kb m key i)"
proof -
  show "t < hm_capacity m \<and> ms_state (hm_slots m ! t) = SLOT_TOMBSTONE \<and> reaches kb m key t" if ft: "ft = Some t"
  proof -
    from assms(1) ft obtain d where d: "d < i" "t = probe_idx kb m key d" "ms_state (hm_slots m ! t) = SLOT_TOMBSTONE"
      by (auto simp: walked_def)
    moreover have "\<forall>i'<d. ms_state (hm_slots m ! probe_idx kb m key i') \<noteq> SLOT_EMPTY"
      using assms(1) d(1) by (simp add: walked_def)
    ultimately show ?thesis
      using assms(2) probe_idx_less [OF assms(3)] unfolding reaches_def by (intro conjI exI [of _ d]) auto
  qed
  show "reaches kb m key (probe_idx kb m key i)" if "i < hm_capacity m"
    using assms(1) that unfolding walked_def reaches_def by (intro exI [of _ i]) auto
qed

lemma veq_walked:
  assumes "veq m m'" "hm_shape m"
  shows "walked kb m' key i ft = walked kb m key i ft"
proof -
  note st = veq_at(1) [OF assms probe_idx_less [OF assms(2)]]
  show ?thesis by (auto simp: walked_def st veq_fields(3) [OF assms(1)] split: option.splits)
qed

lemma veq_reaches:
  assumes "veq m m'" "hm_shape m"
  shows "reaches kb m' key j = reaches kb m key j"
proof -
  note st = veq_at(1) [OF assms probe_idx_less [OF assms(2)]]
  show ?thesis by (auto simp: reaches_def st veq_fields [OF assms(1)])
qed

definition all_occupied :: "('k, 'v) SharedHashMap \<Rightarrow> bool" where
  "all_occupied m \<longleftrightarrow> (\<forall>j<hm_capacity m. occupied m j)"

definition placed_new :: "('k \<Rightarrow> bytes) \<Rightarrow> 'k \<Rightarrow> 'v \<Rightarrow> ('k, 'v) SharedHashMap \<Rightarrow> ('k, 'v) SharedHashMap \<Rightarrow> bool" where
  "placed_new kb key v m m' \<longleftrightarrow> (\<exists>j<hm_capacity m. ms_state (hm_slots m ! j) \<in> {SLOT_EMPTY, SLOT_TOMBSTONE} \<and>
     reaches kb m key j \<and> veq (place_at j (hash_key kb key) key v m) m')"

lemma claim_placed:
  assumes wf: "hm_wf kb m" and j: "j < hm_capacity m" "ms_state (hm_slots m ! j) = old" "old \<in> {SLOT_EMPTY, SLOT_TOMBSTONE}"
    and r: "reaches kb m key j"
  shows "\<exists>m'. placed_new kb key v m m' \<and> claim j old (mh_removals (hm_header m)) (hash_key kb key) key v m = Some (ClaimPlaced, m')"
  using claim_ok [OF wf j, of "hash_key kb key" key v] j r by (auto simp: placed_new_def)

lemma veq_placed_new:
  assumes "veq m m1" "hm_shape m" "placed_new kb key v m1 m'"
  shows "placed_new kb key v m m'"
proof -
  obtain j where j: "j < hm_capacity m" "ms_state (hm_slots m1 ! j) \<in> {SLOT_EMPTY, SLOT_TOMBSTONE}" "reaches kb m1 key j"
    "veq (place_at j (hash_key kb key) key v m1) m'"
    using assms(3) by (auto simp: placed_new_def veq_fields [OF assms(1)])
  have "veq (place_at j (hash_key kb key) key v m) m'"
    using veq_trans [OF veq_place_at [OF assms(1)] j(4)] j(1) assms(2) by (simp add: hm_shape_def)
  with j veq_at(1) [OF assms(1,2) j(1)] veq_reaches [OF assms(1,2)] show ?thesis by (auto simp: placed_new_def)
qed

lemma walked_Suc:
  assumes "walked kb m key i ft"
  shows "ms_state (hm_slots m ! probe_idx kb m key i) = SLOT_TOMBSTONE \<Longrightarrow>
      walked kb m key (Suc i) (note_tombstone (probe_idx kb m key i) ft)"
    "occupied m (probe_idx kb m key i) \<Longrightarrow> walked kb m key (Suc i) ft"
  using assms by (auto simp: walked_def note_tombstone_def less_Suc_eq split: option.splits)

lemma probe_end:
  assumes wf: "hm_wf kb m" and w: "walked kb m key (hm_capacity m) ft"
  shows "\<exists>m'. if all_occupied m
    then veq m m' \<and> probe_walk [] (hash_key kb key) start key v overwrite (mh_removals (hm_header m)) ft m = Some (ProbeFull, m')
    else placed_new kb key v m m' \<and>
      probe_walk [] (hash_key kb key) start key v overwrite (mh_removals (hm_header m)) ft m = Some (Placed New, m')"
proof (cases ft)
  case None
  have "occupied m j" if "j < hm_capacity m" for j
    using probe_idx_onto [OF hm_wfD(1) [OF wf] that, of kb key] w None by (auto simp: walked_def)
  then have "all_occupied m" by (simp add: all_occupied_def)
  then show ?thesis using veq_refl [OF hm_wfD(1,2) [OF wf]] None by auto
next
  case (Some t)
  note r = walked_reaches(1) [OF w order_refl hm_wfD(1) [OF wf] Some]
  then have "\<not> all_occupied m" by (auto simp: all_occupied_def)
  with Some r claim_placed [OF wf, of t SLOT_TOMBSTONE key v] show ?thesis by (auto simp: claimed_verdict_def)
qed

lemma probe_absent:
  assumes "hm_wf kb m" "\<forall>j<hm_capacity m. \<not> holds_key m j key" "start = wrap m (unat (hash_key kb key))"
    "walked kb m key i ft" "i \<le> hm_capacity m"
  shows "\<exists>m'. if all_occupied m
    then veq m m' \<and> probe_walk [i..<hm_capacity m] (hash_key kb key) start key v overwrite (mh_removals (hm_header m)) ft m =
      Some (ProbeFull, m')
    else placed_new kb key v m m' \<and>
      probe_walk [i..<hm_capacity m] (hash_key kb key) start key v overwrite (mh_removals (hm_header m)) ft m =
        Some (Placed New, m')"
  using assms
proof (induction "hm_capacity m - i" arbitrary: i m ft)
  case 0
  then have i: "i = hm_capacity m" "[i..<hm_capacity m] = []" by simp_all
  show ?case unfolding i(2) by (rule probe_end [OF 0(2) 0(5) [unfolded i(1)]])
next
  case (Suc n)
  note wf = Suc.prems(1) and sh = hm_wfD(1) [OF Suc.prems(1)]
  have i: "i < hm_capacity m" using Suc.hyps(2) by simp
  then have upt: "[i..<hm_capacity m] = i # [Suc i..<hm_capacity m]" by (rule upt_conv_Cons)
  let ?j = "probe_idx kb m key i" and ?h = "hash_key kb key"
  have lt: "?j < hm_capacity m" by (rule probe_idx_less [OF sh])
  have go: ?case if next_slot: "probe_slot ?j ?h key v overwrite (mh_removals (hm_header m)) ft m = Some (Inr ft', m1)"
    and m1: "veq m m1" and w: "walked kb m key (Suc i) ft'" for ft' m1
  proof -
    have "\<exists>m'. if all_occupied m1
      then veq m1 m' \<and> probe_walk [Suc i..<hm_capacity m1] ?h start key v overwrite (mh_removals (hm_header m1)) ft' m1 =
        Some (ProbeFull, m')
      else placed_new kb key v m1 m' \<and>
        probe_walk [Suc i..<hm_capacity m1] ?h start key v overwrite (mh_removals (hm_header m1)) ft' m1 = Some (Placed New, m')"
    proof (rule Suc.hyps(1))
      show "n = hm_capacity m1 - Suc i" using Suc.hyps(2) by (simp add: veq_fields [OF m1])
      show "\<forall>j<hm_capacity m1. \<not> holds_key m1 j key"
        using Suc.prems(2) veq_at(5) [OF m1 sh] by (simp add: veq_fields [OF m1])
    qed (use wf Suc.prems(3) i w veq_wf(1) [OF m1] veq_walked [OF m1 sh] in \<open>simp_all add: veq_wrap [OF m1] veq_fields [OF m1]\<close>)
    moreover have "all_occupied m1 = all_occupied m" using veq_at(1) [OF m1 sh] by (auto simp: all_occupied_def veq_fields [OF m1])
    ultimately show ?thesis
      unfolding upt using next_slot veq_trans [OF m1] veq_placed_new [OF m1 sh] Suc.prems(3)
      by (auto simp: wrap_start [OF sh] veq_fields [OF m1] split: if_splits)
  qed
  consider (empty) "ms_state (hm_slots m ! ?j) = SLOT_EMPTY" | (tomb) "ms_state (hm_slots m ! ?j) = SLOT_TOMBSTONE" | (occ) "occupied m ?j"
    using slots_okD(1) [OF hm_wfD(2) [OF wf] lt] by auto
  then show ?case
  proof cases
    case tomb
    from go [OF probe_tombstone [OF sh tomb] veq_refl [OF sh hm_wfD(2) [OF wf]] walked_Suc(1) [OF Suc.prems(4) tomb]] show ?thesis .
  next
    case occ
    then have "\<not> holds_key m ?j key" using Suc.prems(2) lt by blast
    from probe_other [OF wf occ this] go [OF _ _ walked_Suc(2) [OF Suc.prems(4) occ]] show ?thesis by blast
  next
    case empty
    then have na: "\<not> all_occupied m" using lt by (auto simp: all_occupied_def)
    show ?thesis
    proof (cases ft)
      case None
      from claim_placed [OF wf lt empty _ walked_reaches(2) [OF Suc.prems(4,5) sh i], of v] None empty na Suc.prems(3)
      show ?thesis unfolding upt by (auto simp: wrap_start [OF sh] probe_slot_def hm_slot_def claimed_verdict_def Let_def)
    next
      case (Some t)
      note r = walked_reaches(1) [OF Suc.prems(4,5) sh Some]
      with claim_placed [OF wf, of t SLOT_TOMBSTONE key v] Some empty na Suc.prems(3)
      show ?thesis unfolding upt by (auto simp: wrap_start [OF sh] probe_slot_def hm_slot_def claimed_verdict_def Let_def)
    qed
  qed
qed

lemma place_spec:
  assumes wf: "hm_wf kb m" and passes: "0 < passes"
  shows "\<exists>m'. case hm_abs m key of
      Some w \<Rightarrow> place passes kb key v overwrite m = Some (Inr (Existing w), m') \<and>
        (\<exists>j<hm_capacity m. holds_key m j key \<and> veq (if overwrite then set_at j key v m else m) m')
    | None \<Rightarrow> if all_occupied m then place passes kb key v overwrite m = Some (Inl MapFull, m') \<and> veq m m'
        else place passes kb key v overwrite m = Some (Inr New, m') \<and> placed_new kb key v m m'"
proof -
  obtain p where p: "passes = Suc p" using passes gr0_conv_Suc by blast
  note pl = place_def Let_def p place_loop.simps probe_once_def
  show ?thesis
  proof (cases "hm_abs m key")
    case None
    then have absent: "\<forall>j<hm_capacity m. \<not> holds_key m j key" using hm_abs_None [OF hm_wfD(1) [OF wf]] by simp
    have "walked kb m key 0 None" by (simp add: walked_def)
    from probe_absent [OF wf absent refl this, of v overwrite] None show ?thesis by (auto simp: pl split: if_splits)
  next
    case (Some w)
    then obtain j where j: "j < hm_capacity m" "occupied m j" "entry m j = (key, w)"
      using hm_abs_Some [OF hm_wfD(1,3) [OF wf]] by auto
    then have k: "holds_key m j key" by (simp add: holds_key_def)
    from key_position [OF wf j(1) k] obtain L d L' where
      L: "[0..<hm_capacity m] = L @ d # L'" "probe_idx kb m key d = j" "\<forall>i\<in>set L. before_key kb m key i" .
    from probe_found [OF wf L(3) _ refl, of d overwrite v L' "mh_removals (hm_header m)" None] k L j obtain m' where
      "veq (if overwrite then set_at j key v m else m) m'"
      "probe_walk [0..<hm_capacity m] (hash_key kb key) (wrap m (unat (hash_key kb key))) key v overwrite
        (mh_removals (hm_header m)) None m = Some (Placed (Existing w), m')" by auto
    with Some j(1) k show ?thesis by (intro exI [of _ m']) (auto simp: pl)
  qed
qed

section \<open>The updates keep the map well-formed\<close>

lemma in_state_upd:
  assumes "j < hm_capacity m" "length (hm_slots m) = hm_capacity m"
  shows "in_state st (upd_header g (upd_slot j f m)) =
    (if ms_state (f (hm_slots m ! j)) = st then insert j (in_state st m) else in_state st m - {j})"
  using assms by (auto simp: in_state_def upd_slot_nth)

lemma card_in_state:
  assumes "j < hm_capacity m" "length (hm_slots m) = hm_capacity m"
  shows "ms_state (f (hm_slots m ! j)) = st \<Longrightarrow> ms_state (hm_slots m ! j) \<noteq> st \<Longrightarrow>
      card (in_state st (upd_header g (upd_slot j f m))) = card (in_state st m) + 1"
    "ms_state (f (hm_slots m ! j)) \<noteq> st \<Longrightarrow> ms_state (hm_slots m ! j) = st \<Longrightarrow>
      card (in_state st (upd_header g (upd_slot j f m))) + 1 = card (in_state st m)"
    "(ms_state (f (hm_slots m ! j)) = st) = (ms_state (hm_slots m ! j) = st) \<Longrightarrow>
      in_state st (upd_header g (upd_slot j f m)) = in_state st m"
proof -
  have fin: "finite (in_state st m)" by (simp add: in_state_def)
  have mem: "j \<in> in_state st m \<longleftrightarrow> ms_state (hm_slots m ! j) = st" using assms(1) by (simp add: in_state_def)
  show "card (in_state st (upd_header g (upd_slot j f m))) = card (in_state st m) + 1"
    if "ms_state (f (hm_slots m ! j)) = st" "ms_state (hm_slots m ! j) \<noteq> st"
    using that fin mem by (simp add: in_state_upd [OF assms])
  show "card (in_state st (upd_header g (upd_slot j f m))) + 1 = card (in_state st m)"
    if "ms_state (f (hm_slots m ! j)) \<noteq> st" "ms_state (hm_slots m ! j) = st"
    using that fin mem card_Suc_Diff1 [OF fin, of j] by (simp add: in_state_upd [OF assms])
  show "in_state st (upd_header g (upd_slot j f m)) = in_state st m"
    if "(ms_state (f (hm_slots m ! j)) = st) = (ms_state (hm_slots m ! j) = st)"
    using that mem by (auto simp: in_state_upd [OF assms])
qed

lemma reaches_upd:
  assumes "reaches kb m k i" "hm_shape m" "j < hm_capacity m"
    "ms_state (f (hm_slots m ! j)) = SLOT_EMPTY \<Longrightarrow> ms_state (hm_slots m ! j) = SLOT_EMPTY"
  shows "reaches kb (upd_header g (upd_slot j f m)) k i"
proof -
  have "j < length (hm_slots m)" using assms(2,3) by (simp add: hm_shape_def)
  with assms show ?thesis by (fastforce simp: reaches_def probe_idx_def upd_slot_nth)
qed

lemma hm_shape_upd [simp]: "hm_shape (upd_header g (upd_slot j f m)) = hm_shape m" "hm_shape (upd_slot j f m) = hm_shape m"
  by (simp_all add: hm_shape_def)

lemma abs_upd:
  assumes m: "hm_shape m" "one_slot m" and m': "hm_shape m'" "one_slot m'" "hm_capacity m' = hm_capacity m"
    and j: "j < hm_capacity m" and other: "\<And>i. i \<noteq> j \<Longrightarrow> hm_slots m' ! i = hm_slots m ! i"
    and none: "\<And>i. i < hm_capacity m \<Longrightarrow> i \<noteq> j \<Longrightarrow> occupied m i \<Longrightarrow> fst (entry m i) \<noteq> key"
    and old: "occupied m j \<Longrightarrow> fst (entry m j) = key"
    and new: "if occupied m' j then entry m' j = (key, v) \<and> nv = Some v else nv = None"
  shows "hm_abs m' = (hm_abs m)(key := nv)"
proof
  fix k
  show "hm_abs m' k = ((hm_abs m)(key := nv)) k"
  proof (cases "k = key")
    case True
    show ?thesis
    proof (cases "occupied m' j")
      case True
      with hm_abs_Some [OF m'(1,2), of key v] j new m'(3) \<open>k = key\<close> show ?thesis by auto
    next
      case False
      have "\<not> holds_key m' i key" if "i < hm_capacity m" for i
        using False none [OF that] other [of i] by (cases "i = j") (auto simp: holds_key_def)
      then have "hm_abs m' key = None" using hm_abs_None [OF m'(1)] m'(3) by simp
      with False new \<open>k = key\<close> show ?thesis by simp
    qed
  next
    case False
    have "occupied m' i \<and> entry m' i = (k, w) \<longleftrightarrow> occupied m i \<and> entry m i = (k, w)" for i w
      using False other [of i] new old by (cases "i = j") (auto split: if_splits)
    then have "hm_abs m' k = Some w \<longleftrightarrow> hm_abs m k = Some w" for w
      unfolding hm_abs_Some [OF m'(1,2)] hm_abs_Some [OF m] m'(3) by simp
    with False show ?thesis by (cases "hm_abs m k"; cases "hm_abs m' k") auto
  qed
qed

lemma set_at_wf:
  assumes wf: "hm_wf kb m" and j: "j < hm_capacity m" "holds_key m j key"
  shows "hm_wf kb (set_at j key v m)" "hm_abs (set_at j key v m) = (hm_abs m)(key \<mapsto> v)"
proof -
  let ?f = "\<lambda>s. s\<lparr>ms_payload := (key, v)\<rparr>" and ?m = "set_at j key v m"
  note sh = hm_wfD(1) [OF wf]
  have lt: "j < length (hm_slots m)" and len: "length (hm_slots m) = hm_capacity m" using j sh by (simp_all add: hm_shape_def)
  have sl: "hm_slots ?m ! i = (if i = j then ?f (hm_slots m ! j) else hm_slots m ! i)" for i
    using lt by (simp add: set_at_def upd_slot_nth)
  have cap: "hm_capacity ?m = hm_capacity m" "hm_header ?m = hm_header m" by (simp_all add: set_at_def)
  have keys: "fst (entry ?m i) = fst (entry m i)" "ms_state (hm_slots ?m ! i) = ms_state (hm_slots m ! i)" for i
    using j(2) by (simp_all add: sl holds_key_def)
  have sh': "hm_shape ?m" using sh by (simp add: set_at_def)
  have "slots_ok kb ?m"
    using hm_wfD(2) [OF wf] unfolding slots_ok_def cap keys by (simp add: sl)
  moreover have one: "one_slot ?m" using hm_wfD(3) [OF wf] unfolding one_slot_def cap keys .
  moreover have "reaches kb ?m k i = reaches kb m k i" for k i unfolding reaches_def cap keys probe_idx_def by simp
  then have "chains_ok kb ?m" using hm_wfD(4) [OF wf] unfolding chains_ok_def cap keys by simp
  moreover have "in_state st ?m = in_state st m" for st unfolding in_state_def cap keys ..
  then have "counts_ok ?m" using hm_wfD(5) [OF wf] by (simp add: counts_ok_def cap)
  ultimately show "hm_wf kb ?m" using sh' by (simp add: hm_wf_def)
  have uniq: "i = j" if "i < hm_capacity m" "occupied m i" "fst (entry m i) = key" for i
    using hm_wfD(3) [OF wf] that j by (auto simp: one_slot_def holds_key_def)
  show "hm_abs ?m = (hm_abs m)(key \<mapsto> v)"
  proof (rule abs_upd [OF sh hm_wfD(3) [OF wf] sh' one cap(1) j(1)])
    show "fst (entry m i) \<noteq> key" if "i < hm_capacity m" "i \<noteq> j" "occupied m i" for i using that uniq by blast
    show "if occupied ?m j then entry ?m j = (key, v) \<and> Some v = Some v else Some v = None"
      using j(2) by (simp add: sl holds_key_def)
  qed (use j(2) in \<open>simp_all add: sl holds_key_def\<close>)
qed

lemma place_at_wf:
  assumes wf: "hm_wf kb m" and j: "j < hm_capacity m" "ms_state (hm_slots m ! j) \<in> {SLOT_EMPTY, SLOT_TOMBSTONE}"
    and r: "reaches kb m key j" and absent: "hm_abs m key = None"
  shows "hm_wf kb (place_at j (hash_key kb key) key v m)" "hm_abs (place_at j (hash_key kb key) key v m) = (hm_abs m)(key \<mapsto> v)"
proof -
  let ?f = "\<lambda>s. s\<lparr>ms_state := SLOT_OCCUPIED, ms_hash := hash_key kb key, ms_payload := (key, v)\<rparr>"
  let ?m = "place_at j (hash_key kb key) key v m"
  note sh = hm_wfD(1) [OF wf]
  have lt: "j < length (hm_slots m)" and len: "length (hm_slots m) = hm_capacity m" using j sh by (simp_all add: hm_shape_def)
  have sl: "hm_slots ?m ! i = (if i = j then ?f (hm_slots m ! j) else hm_slots m ! i)" for i
    using lt by (simp add: place_at_def upd_slot_nth)
  have cap: "hm_capacity ?m = hm_capacity m" by (simp add: place_at_def)
  have no: "\<not> occupied m j" using j(2) by auto
  have none: "fst (entry m i) \<noteq> key" if "i < hm_capacity m" "occupied m i" for i
    using absent that hm_abs_None [OF sh, of key] by (auto simp: holds_key_def)
  have sh': "hm_shape ?m" using sh by (simp add: place_at_def)
  have "slots_ok kb ?m" using hm_wfD(2) [OF wf] by (auto simp: slots_ok_def cap sl)
  moreover have one: "one_slot ?m" using hm_wfD(3) [OF wf] none by (auto simp: one_slot_def cap sl split: if_splits)
  moreover have re: "reaches kb ?m k i" if "reaches kb m k i" for k i
    unfolding place_at_def by (rule reaches_upd [OF that sh j(1)]) simp
  then have "chains_ok kb ?m" using hm_wfD(4) [OF wf] r by (auto simp: chains_ok_def cap sl)
  moreover have "counts_ok ?m"
  proof -
    have o: "card (in_state SLOT_OCCUPIED ?m) = card (in_state SLOT_OCCUPIED m) + 1"
      unfolding place_at_def using no by (intro card_in_state(1) [OF j(1) len]) simp_all
    have t: "card (in_state SLOT_TOMBSTONE ?m) + (if ms_state (hm_slots m ! j) = SLOT_TOMBSTONE then 1 else 0) =
        card (in_state SLOT_TOMBSTONE m)"
      unfolding place_at_def
      using card_in_state(2,3) [OF j(1) len, of ?f SLOT_TOMBSTONE] by (cases "ms_state (hm_slots m ! j) = SLOT_TOMBSTONE") simp_all
    then have "(of_nat (card (in_state SLOT_TOMBSTONE ?m)) :: u64) = of_nat (card (in_state SLOT_TOMBSTONE m)) -
        (if ms_state (hm_slots m ! j) = SLOT_TOMBSTONE then 1 else 0)"
      by (auto simp flip: t)
    with o hm_wfD(5) [OF wf] show ?thesis by (simp add: counts_ok_def place_at_def)
  qed
  ultimately show "hm_wf kb ?m" using sh' by (simp add: hm_wf_def)
  show "hm_abs ?m = (hm_abs m)(key \<mapsto> v)"
    using no none by (intro abs_upd [OF sh hm_wfD(3) [OF wf] sh' one cap j(1)]) (auto simp: sl)
qed

lemma tomb_at_wf:
  assumes wf: "hm_wf kb m" and j: "j < hm_capacity m" "holds_key m j key"
  shows "hm_wf kb (tomb_at j m)" "hm_abs (tomb_at j m) = (hm_abs m)(key := None)"
proof -
  let ?f = "\<lambda>s. s\<lparr>ms_state := SLOT_TOMBSTONE, ms_hash := HASH_UNSET\<rparr>" and ?m = "tomb_at j m"
  note sh = hm_wfD(1) [OF wf]
  have lt: "j < length (hm_slots m)" and len: "length (hm_slots m) = hm_capacity m" using j sh by (simp_all add: hm_shape_def)
  have sl: "hm_slots ?m ! i = (if i = j then ?f (hm_slots m ! j) else hm_slots m ! i)" for i
    using lt by (simp add: tomb_at_def upd_slot_nth)
  have cap: "hm_capacity ?m = hm_capacity m" by (simp add: tomb_at_def)
  have o: "occupied m j" "fst (entry m j) = key" using j(2) by (simp_all add: holds_key_def)
  have uniq: "i = j" if "i < hm_capacity m" "occupied m i" "fst (entry m i) = key" for i
    using hm_wfD(3) [OF wf] that j by (auto simp: one_slot_def holds_key_def)
  have sh': "hm_shape ?m" using sh by (simp add: tomb_at_def)
  have "slots_ok kb ?m" using hm_wfD(2) [OF wf] by (auto simp: slots_ok_def cap sl)
  moreover have one: "one_slot ?m" using hm_wfD(3) [OF wf] by (auto simp: one_slot_def cap sl split: if_splits)
  moreover have re: "reaches kb ?m k i" if "reaches kb m k i" for k i
    unfolding tomb_at_def by (rule reaches_upd [OF that sh j(1)]) simp
  then have "chains_ok kb ?m" using hm_wfD(4) [OF wf] by (auto simp: chains_ok_def cap sl)
  moreover have "counts_ok ?m"
  proof -
    have oc: "card (in_state SLOT_OCCUPIED ?m) + 1 = card (in_state SLOT_OCCUPIED m)"
      unfolding tomb_at_def using o(1) by (intro card_in_state(2) [OF j(1) len]) simp_all
    have "card (in_state SLOT_TOMBSTONE ?m) = card (in_state SLOT_TOMBSTONE m) + 1"
      unfolding tomb_at_def using o(1) by (intro card_in_state(1) [OF j(1) len]) simp_all
    moreover have "(of_nat (card (in_state SLOT_OCCUPIED ?m)) :: u64) = of_nat (card (in_state SLOT_OCCUPIED m)) - 1"
      by (simp flip: oc)
    ultimately show ?thesis using hm_wfD(5) [OF wf] by (simp add: counts_ok_def tomb_at_def)
  qed
  ultimately show "hm_wf kb ?m" using sh' by (simp add: hm_wf_def)
  show "hm_abs ?m = (hm_abs m)(key := None)"
    using uniq o by (intro abs_upd [OF sh hm_wfD(3) [OF wf] sh' one cap j(1)]) (auto simp: sl)
qed

section \<open>The operations\<close>

text \<open>The entries fill the whole table.\<close>

definition hm_full :: "('k, 'v) SharedHashMap \<Rightarrow> bool" where
  "hm_full m \<longleftrightarrow> (\<forall>s\<in>set (hm_slots m). ms_state s = SLOT_OCCUPIED)"

lemma full_iff: "hm_shape m \<Longrightarrow> all_occupied m = hm_full m"
  by (auto simp: all_occupied_def hm_full_def hm_shape_def all_set_conv_all_nth)

lemma at_capacity [simp]:
  "hm_capacity (set_at j k v m) = hm_capacity m" "hm_capacity (place_at j h k v m) = hm_capacity m"
  "hm_capacity (tomb_at j m) = hm_capacity m"
  by (simp_all add: set_at_def place_at_def tomb_at_def)

lemma place_correct:
  assumes wf: "hm_wf kb m" and passes: "0 < passes"
  shows "\<exists>r m'. place passes kb key v overwrite m = Some (r, m') \<and> hm_wf kb m' \<and> hm_capacity m' = hm_capacity m \<and>
    (case hm_abs m key of
       Some w \<Rightarrow> r = Inr (Existing w) \<and> hm_abs m' = (if overwrite then (hm_abs m)(key \<mapsto> v) else hm_abs m)
     | None \<Rightarrow> if hm_full m then r = Inl MapFull \<and> hm_abs m' = hm_abs m else r = Inr New \<and> hm_abs m' = (hm_abs m)(key \<mapsto> v))"
proof (cases "hm_abs m key")
  case None
  note sh = hm_wfD(1) [OF wf]
  show ?thesis
  proof (cases "hm_full m")
    case True
    with place_spec [OF wf passes, of key v overwrite] None full_iff [OF sh] obtain m' where
      "place passes kb key v overwrite m = Some (Inl MapFull, m')" "veq m m'" by auto
    with veq_wf [OF _ wf] veq_fields(1) None True show ?thesis by auto
  next
    case False
    with place_spec [OF wf passes, of key v overwrite] None full_iff [OF sh] obtain m' where
      m': "place passes kb key v overwrite m = Some (Inr New, m')" "placed_new kb key v m m'" by auto
    then obtain j where j: "j < hm_capacity m" "ms_state (hm_slots m ! j) \<in> {SLOT_EMPTY, SLOT_TOMBSTONE}"
      "reaches kb m key j" "veq (place_at j (hash_key kb key) key v m) m'" by (auto simp: placed_new_def)
    from place_at_wf [OF wf j(1,2,3) None, of v] veq_wf [OF j(4)] veq_fields(1) [OF j(4)] m'(1) None False show ?thesis by auto
  qed
next
  case (Some w)
  with place_spec [OF wf passes, of key v overwrite] obtain m' j where
    m': "place passes kb key v overwrite m = Some (Inr (Existing w), m')" "j < hm_capacity m" "holds_key m j key"
      "veq (if overwrite then set_at j key v m else m) m'" by auto
  show ?thesis
  proof (cases overwrite)
    case True
    with set_at_wf [OF wf m'(2,3), of v] veq_wf [of _ m' kb] veq_fields(1) [OF m'(4)] m' Some show ?thesis by auto
  next
    case False
    with veq_wf [of m m' kb] wf veq_fields(1) [OF m'(4)] m' Some show ?thesis by auto
  qed
qed

lemma remove_correct:
  assumes wf: "hm_wf kb m"
  shows "\<exists>m'. hm_remove kb key m = Some (hm_abs m key, m') \<and> hm_wf kb m' \<and>
    hm_capacity m' = hm_capacity m \<and> hm_abs m' = (hm_abs m)(key := None)"
proof -
  from rw.whole_walk [OF wf, of key] obtain m' where m': "case hm_abs m key of
      None \<Rightarrow> veq m m' \<and> hm_remove kb key m = Some (None, m')
    | Some v \<Rightarrow> hm_remove kb key m = Some (Some v, m') \<and>
        (\<exists>j<hm_capacity m. holds_key m j key \<and> snd (entry m j) = v \<and> veq (tomb_at j m) m')"
    unfolding hm_remove_def Let_def by blast
  show ?thesis
  proof (cases "hm_abs m key")
    case None
    with m' veq_wf [of m m' kb] wf have "hm_remove kb key m = Some (None, m')" "hm_wf kb m'" "hm_abs m' = hm_abs m"
      "hm_capacity m' = hm_capacity m" using veq_fields(1) [of m m'] by auto
    with None show ?thesis by auto
  next
    case (Some v)
    with m' obtain j where "hm_remove kb key m = Some (Some v, m')" "j < hm_capacity m" "holds_key m j key" "veq (tomb_at j m) m'"
      by auto
    with Some tomb_at_wf [OF wf, of j key] veq_wf [of "tomb_at j m" m' kb] veq_fields(1) [of "tomb_at j m" m'] show ?thesis by auto
  qed
qed

lemma cas_correct:
  assumes wf: "hm_wf kb m"
  shows "\<exists>m'. hm_wf kb m' \<and> hm_capacity m' = hm_capacity m \<and> (case hm_abs m key of
      None \<Rightarrow> hm_compare_exchange kb vb key expected new m = Some (Inl KeyAbsent, m') \<and> hm_abs m' = hm_abs m
    | Some v \<Rightarrow>
        if vb v = vb expected
        then hm_compare_exchange kb vb key expected new m = Some (Inr (Inr ()), m') \<and> hm_abs m' = (hm_abs m)(key \<mapsto> new)
        else hm_compare_exchange kb vb key expected new m = Some (Inr (Inl v), m') \<and> hm_abs m' = hm_abs m)"
proof -
  from cw.whole_walk [OF wf, of key vb expected new] obtain m' where m': "case hm_abs m key of
      None \<Rightarrow> veq m m' \<and> hm_compare_exchange kb vb key expected new m = Some (Inl KeyAbsent, m')
    | Some v \<Rightarrow> hm_compare_exchange kb vb key expected new m = Some (cas_result vb expected v, m') \<and>
        (\<exists>j<hm_capacity m. holds_key m j key \<and> snd (entry m j) = v \<and> veq (cas_act vb key expected new j m) m')"
    unfolding hm_compare_exchange_def Let_def by blast
  show ?thesis
  proof (cases "hm_abs m key")
    case None
    with m' veq_wf [of m m' kb] veq_fields(1) [of m m'] wf show ?thesis by auto
  next
    case (Some v)
    with m' obtain j where j: "hm_compare_exchange kb vb key expected new m = Some (cas_result vb expected v, m')"
      "j < hm_capacity m" "holds_key m j key" "snd (entry m j) = v" "veq (cas_act vb key expected new j m) m'" by auto
    show ?thesis
    proof (cases "vb v = vb expected")
      case True
      with j Some set_at_wf [OF wf j(2,3), of new] veq_wf [of "set_at j key new m" m' kb] veq_fields(1) [OF j(5)] show ?thesis
        by (auto simp: cas_act_def cas_result_def)
    next
      case False
      with j Some veq_wf [of m m' kb] veq_fields(1) [OF j(5)] wf show ?thesis by (auto simp: cas_act_def cas_result_def)
    qed
  qed
qed

text \<open>The counters, and a full table, in terms of the map.\<close>

lemma card_live:
  assumes wf: "hm_wf kb m"
  shows "card (dom (hm_abs m)) = length (hm_live m)" "card (in_state SLOT_OCCUPIED m) = length (hm_live m)"
    "length (hm_live m) \<le> hm_capacity m"
proof -
  have len: "length (hm_slots m) = hm_capacity m" using hm_wfD(1) [OF wf] by (simp add: hm_shape_def)
  show "card (dom (hm_abs m)) = length (hm_live m)"
    using distinct_card [OF live_distinct [OF len hm_wfD(3) [OF wf]]] by (simp add: hm_abs_def dom_map_of_conv_image_fst)
  have "in_state SLOT_OCCUPIED m = set (filter (occupied m) [0..<hm_capacity m])" by (auto simp: in_state_def)
  then have "card (in_state SLOT_OCCUPIED m) = length (filter (occupied m) [0..<hm_capacity m])"
    by (metis distinct_card distinct_filter distinct_upt)
  then show "card (in_state SLOT_OCCUPIED m) = length (hm_live m)" by (simp add: live_upt len)
  show "length (hm_live m) \<le> hm_capacity m" unfolding hm_live_def len [symmetric] by simp
qed

lemma capacity_bound: "hm_wf kb m \<Longrightarrow> n \<le> hm_capacity m \<Longrightarrow> unat (of_nat n :: u64) = n"
  by (drule hm_wfD(1)) (simp add: hm_shape_def unat_of_nat take_bit_nat_eq_self)

lemma hm_len_abs: "hm_wf kb m \<Longrightarrow> hm_len m = card (dom (hm_abs m))"
  using card_live [of kb m] capacity_bound [of kb m] hm_wfD(5) [of kb m] by (simp add: hm_len_def counts_ok_def)

lemma full_abs:
  assumes wf: "hm_wf kb m"
  shows "hm_full m \<longleftrightarrow> card (dom (hm_abs m)) = hm_capacity m"
proof -
  let ?P = "\<lambda>s :: ('a, 'b) MapSlot. ms_state s = SLOT_OCCUPIED"
  have len: "length (hm_slots m) = hm_capacity m" using hm_wfD(1) [OF wf] by (simp add: hm_shape_def)
  have "card (dom (hm_abs m)) = length (filter ?P (hm_slots m))"
    unfolding card_live(1) [OF wf] by (simp add: hm_live_def)
  moreover have "(length (filter ?P (hm_slots m)) = length (hm_slots m)) = hm_full m"
    unfolding hm_full_def using length_filter_less [of _ "hm_slots m" ?P] by (auto simp: less_le)
  ultimately show ?thesis by (simp add: len)
qed

text \<open>Emptying every slot.\<close>

lemma fold_upd_slots:
  "n \<le> length (hm_slots m) \<Longrightarrow>
     fold (\<lambda>i. upd_slot i f) [0..<n] m = m\<lparr>hm_slots := map f (take n (hm_slots m)) @ drop n (hm_slots m)\<rparr>"
proof (induction n)
  case (Suc n)
  then have n: "n < length (hm_slots m)" by simp
  then have "drop n (hm_slots m) = hm_slots m ! n # drop (Suc n) (hm_slots m)" by (simp add: Cons_nth_drop_Suc)
  with Suc n show ?case by (simp add: upd_slot_def take_Suc_conv_app_nth nth_append list_update_append)
qed simp

lemma clear_slots:
  assumes "hm_shape m"
  shows "hm_slots (hm_clear m) = map (\<lambda>s. s\<lparr>ms_state := SLOT_EMPTY\<rparr>) (hm_slots m)"
    "hm_capacity (hm_clear m) = hm_capacity m" "hm_shape (hm_clear m)"
    "mh_count (hm_header (hm_clear m)) = 0" "mh_tombstones (hm_header (hm_clear m)) = 0"
  using assms by (simp_all add: hm_clear_def Let_def fold_upd_slots hm_shape_def)

lemma empty_wf:
  assumes sh: "hm_shape m" and empty: "\<forall>s\<in>set (hm_slots m). ms_state s = SLOT_EMPTY \<and> even (ms_version s)"
    and counts: "mh_count (hm_header m) = 0" "mh_tombstones (hm_header m) = 0"
  shows "hm_wf kb m" "hm_abs m = Map.empty"
proof -
  have at: "ms_state (hm_slots m ! j) = SLOT_EMPTY" "even (ms_version (hm_slots m ! j))" if "j < hm_capacity m" for j
    using that empty sh by (auto simp: hm_shape_def)
  have "in_state st m = {}" if "st \<noteq> SLOT_EMPTY" for st using that at by (auto simp: in_state_def)
  then show "hm_wf kb m" using sh at counts
    by (simp add: hm_wf_def slots_ok_def one_slot_def chains_ok_def counts_ok_def)
  have "hm_live m = []" using empty by (auto simp: hm_live_def filter_empty_conv)
  then show "hm_abs m = Map.empty" by (simp add: hm_abs_def)
qed

lemma clear_correct:
  assumes wf: "hm_wf kb m"
  shows "hm_wf kb (hm_clear m)" "hm_abs (hm_clear m) = Map.empty" "hm_capacity (hm_clear m) = hm_capacity m"
proof -
  note sh = hm_wfD(1) [OF wf] and cl = clear_slots [OF hm_wfD(1) [OF wf]]
  have "\<forall>s\<in>set (hm_slots (hm_clear m)). ms_state s = SLOT_EMPTY \<and> even (ms_version s)"
    using slots_okD(2) [OF hm_wfD(2) [OF wf]] sh by (auto simp: cl in_set_conv_nth hm_shape_def)
  from empty_wf [OF cl(3) this cl(4,5)] show "hm_wf kb (hm_clear m)" "hm_abs (hm_clear m) = Map.empty" .
  show "hm_capacity (hm_clear m) = hm_capacity m" by (rule cl)
qed

lemma created_wf:
  assumes "hm_create None None zero key_size value_size capacity = Some (Inr m)" "capacity < 2 ^ 64"
  shows "hm_wf kb m" "hm_abs m = Map.empty" "hm_capacity m = capacity"
proof -
  from assms(1) have cap: "2 \<le> capacity" and
    m: "m = \<lparr>hm_header = fst (init_region zero key_size value_size capacity),
      hm_slots = snd (init_region zero key_size value_size capacity), hm_capacity = capacity, hm_cap_mask = capacity - 1,
      hm_cap_is_pow2 = is_power_of_two capacity\<rparr>"
    by (auto simp: hm_create_def from_region_def split: sum.splits if_splits prod.splits)
  show "hm_capacity m = capacity" by (simp add: m)
  have "hm_shape m" using cap assms(2) by (simp add: m hm_shape_def init_region_def)
  from empty_wf [OF this] show "hm_wf kb m" "hm_abs m = Map.empty" by (simp_all add: m init_region_def)
qed

text \<open>Scanning the slots.\<close>

lemma scan_live:
  assumes "slots_ok kb m" "\<forall>i\<in>set L. i < hm_capacity m"
  shows "compact_scan L m = Some (map (entry m) (filter (occupied m) L),
      length (filter (\<lambda>i. ms_state (hm_slots m ! i) = SLOT_TOMBSTONE) L))"
    "snapshot_walk L m = Some (map (entry m) (filter (occupied m) L))"
  using assms(2)
proof (induction L)
  case (Cons i L)
  { case 1 with Cons show ?case using read_even [OF assms(1), of i] by (simp add: hm_slot_def Let_def) }
  { case 2
    have "occupied m i \<Longrightarrow> ms_hash (hm_slots m ! i) \<noteq> HASH_UNSET" using slots_okD(3) [OF assms(1), of i] 2 by simp
    with 2 Cons show ?case using read_even [OF assms(1), of i] by (auto simp: hm_slot_def) }
qed simp_all

lemma snapshot_live: "hm_wf kb m \<Longrightarrow> snapshot m = Some (hm_live m)"
  using scan_live(2) [OF hm_wfD(2)] hm_wfD(1) by (fastforce simp: snapshot_def live_upt hm_shape_def)

lemma tombstones_scanned:
  assumes wf: "hm_wf kb m"
  shows "compact_scan [0..<hm_capacity m] m = Some (hm_live m, tombstone_count m)"
proof -
  let ?T = "filter (\<lambda>i. ms_state (hm_slots m ! i) = SLOT_TOMBSTONE) [0..<hm_capacity m]"
  have len: "length (hm_slots m) = hm_capacity m" using hm_wfD(1) [OF wf] by (simp add: hm_shape_def)
  have "in_state SLOT_TOMBSTONE m = set ?T" by (auto simp: in_state_def)
  then have "card (in_state SLOT_TOMBSTONE m) = length ?T" by (metis distinct_card distinct_filter distinct_upt)
  moreover have "length ?T \<le> hm_capacity m" by (metis length_filter_le length_upt minus_nat.diff_0)
  ultimately have "tombstone_count m = length ?T"
    using hm_wfD(5) [OF wf] capacity_bound [OF wf] by (simp add: tombstone_count_def counts_ok_def)
  then show ?thesis using scan_live(1) [OF hm_wfD(2) [OF wf]] by (simp add: live_upt len)
qed

end
