(* ===== verification/Hash_Map_Refinement.thy ===== *)
theory Hash_Map_Refinement
  imports Shared_Hash_Map
begin

text \<open>
  The hash map of \<^verbatim>\<open>Shared_Hash_Map\<close> against its contract, a finite map of bounded size: any sequence of
  calls replies what the bounded map replies, compaction loses nothing and reclaims every tombstone,
  and what a slot claimed after a clear shows before it is published.
\<close>

section \<open>A bounded map\<close>

text \<open>
  What the map promises its callers, with no table in sight: at most \<open>cap\<close> keys, an insertion of a
  new key into a full map refused. Compaction is a client of it.
\<close>

definition spec_place :: "nat \<Rightarrow> 'k \<Rightarrow> 'v \<Rightarrow> bool \<Rightarrow> ('k \<rightharpoonup> 'v) \<Rightarrow> (MapError + 'v option) \<times> ('k \<rightharpoonup> 'v)" where
  "spec_place cap k v overwrite M =
     (case M k of
        Some w \<Rightarrow> (Inr (Some w), if overwrite then M(k \<mapsto> v) else M)
      | None \<Rightarrow> if card (dom M) = cap then (Inl MapFull, M) else (Inr None, M(k \<mapsto> v)))"

fun put_all :: "('k \<Rightarrow> 'v \<Rightarrow> 's \<Rightarrow> ((MapError + 'a) \<times> 's) option) \<Rightarrow> ('k \<times> 'v) list \<Rightarrow> 's \<Rightarrow> ((MapError + unit) \<times> 's) option" where
  "put_all put [] s = Some (Inr (), s)"
| "put_all put ((k, v) # es) s =
     (case put k v s of None \<Rightarrow> None | Some (Inl e, s') \<Rightarrow> Some (Inl e, s') | Some (Inr _, s') \<Rightarrow> put_all put es s')"

locale bounded_map =
  fixes ok :: "'s \<Rightarrow> bool" and abs :: "'s \<Rightarrow> 'k \<rightharpoonup> 'v" and cap :: "'s \<Rightarrow> nat"
    and put :: "'k \<Rightarrow> 'v \<Rightarrow> 's \<Rightarrow> ((MapError + 'v option) \<times> 's) option"
  assumes put_refines: "ok s \<Longrightarrow> \<exists>s'. put k v s = Some (fst (spec_place (cap s) k v True (abs s)), s') \<and>
      ok s' \<and> cap s' = cap s \<and> abs s' = snd (spec_place (cap s) k v True (abs s))"
begin

lemma put_all_fits:
  assumes "ok s" "distinct (map fst es)" "fst ` set es \<inter> dom (abs s) = {}" "finite (dom (abs s))"
    "card (dom (abs s)) + length es \<le> cap s"
  shows "\<exists>s'. put_all put es s = Some (Inr (), s') \<and> ok s' \<and> cap s' = cap s \<and> abs s' = abs s ++ map_of es"
  using assms
proof (induction es arbitrary: s)
  case (Cons e es)
  obtain k v where e: "e = (k, v)" by fastforce
  have new: "abs s k = None" using Cons.prems(3) by (auto simp: e)
  have spec: "spec_place (cap s) k v True (abs s) = (Inr None, (abs s)(k \<mapsto> v))"
    using new Cons.prems(5) by (simp add: spec_place_def)
  from put_refines [OF Cons.prems(1), of k v] obtain s1 where
    s1: "put k v s = Some (Inr None, s1)" "ok s1" "cap s1 = cap s" "abs s1 = (abs s)(k \<mapsto> v)" by (auto simp: spec)
  have fresh: "k \<notin> dom (abs s)" using new by auto
  have "\<exists>s'. put_all put es s1 = Some (Inr (), s') \<and> ok s' \<and> cap s' = cap s1 \<and> abs s' = abs s1 ++ map_of es"
  proof (rule Cons.IH)
    show "fst ` set es \<inter> dom (abs s1) = {}" using Cons.prems(2,3) by (auto simp: e s1(4))
    show "finite (dom (abs s1))" "card (dom (abs s1)) + length es \<le> cap s1"
      using Cons.prems(4,5) fresh by (simp_all add: s1(3,4))
  qed (use Cons.prems s1 in simp_all)
  moreover have "(abs s)(k \<mapsto> v) ++ map_of es = abs s ++ map_of (e # es)"
    using Cons.prems(2) by (simp add: e map_add_upd_left dom_map_of_conv_image_fst)
  ultimately show ?case using s1(1,3,4) by (auto simp: e simp del: map_of.simps)
qed simp

end

definition reply_of :: "MapError + 'v Placed \<Rightarrow> MapError + 'v option" where
  "reply_of r = (case r of Inl e \<Rightarrow> Inl e | Inr New \<Rightarrow> Inr None | Inr (Existing w) \<Rightarrow> Inr (Some w))"

lemma place_refines:
  assumes wf: "hm_wf kb m" and passes: "0 < passes"
  shows "\<exists>r m'. place passes kb k v ow m = Some (r, m') \<and> reply_of r = fst (spec_place (hm_capacity m) k v ow (hm_abs m)) \<and>
    hm_wf kb m' \<and> hm_capacity m' = hm_capacity m \<and> hm_abs m' = snd (spec_place (hm_capacity m) k v ow (hm_abs m))"
  using place_correct [OF wf passes, of k v ow] full_abs [OF wf]
  by (cases "hm_abs m k") (auto simp: spec_place_def reply_of_def split: if_splits)

lemma swap_place: "hm_swap passes kb k v m = map_option (map_prod reply_of id) (place passes kb k v True m)"
  by (cases "place passes kb k v True m") (auto simp: hm_swap_def reply_of_def)

lemma absent_place: "insert_if_absent passes kb k v m = map_option (map_prod reply_of id) (place passes kb k v False m)"
  by (cases "place passes kb k v False m") (auto simp: insert_if_absent_def reply_of_def)

definition insert_reply :: "MapError + 'v option \<Rightarrow> MapError + InsertOutcome" where
  "insert_reply r = (case r of Inl e \<Rightarrow> Inl e | Inr None \<Rightarrow> Inr Inserted | Inr (Some _) \<Rightarrow> Inr Updated)"

lemma insert_place:
  "hm_insert passes kb k v m = map_option (map_prod (insert_reply \<circ> reply_of) id) (place passes kb k v True m)"
  by (cases "place passes kb k v True m") (auto simp: hm_insert_def insert_reply_def reply_of_def split: sum.splits Placed.splits)

text \<open>A table without tombstones gets none from an insertion.\<close>

lemma no_tombstones:
  assumes wf: "hm_wf kb m" and none: "tombstone_count m = 0" and j: "j < hm_capacity m"
  shows "ms_state (hm_slots m ! j) \<noteq> SLOT_TOMBSTONE"
proof
  assume "ms_state (hm_slots m ! j) = SLOT_TOMBSTONE"
  then have "j \<in> in_state SLOT_TOMBSTONE m" using j by (simp add: in_state_def)
  moreover have "in_state SLOT_TOMBSTONE m \<subseteq> {..<hm_capacity m}" by (auto simp: in_state_def)
  then have "card (in_state SLOT_TOMBSTONE m) \<le> hm_capacity m" "finite (in_state SLOT_TOMBSTONE m)"
    using card_mono [of "{..<hm_capacity m}"] finite_subset by auto
  ultimately show False
    using none hm_wfD(5) [OF wf] capacity_bound [OF wf] by (auto simp: tombstone_count_def counts_ok_def)
qed

lemma place_no_tombstones:
  assumes wf: "hm_wf kb m" and none: "tombstone_count m = 0" and r: "place (Suc p) kb k v ow m = Some (r, m')"
  shows "tombstone_count m' = 0"
proof (cases "placed_new kb k v m m'")
  case True
  then obtain j where j: "j < hm_capacity m" "veq (place_at j (hash_key kb k) k v m) m'" by (auto simp: placed_new_def)
  with no_tombstones [OF wf none j(1)] none veq_fields(2) [OF j(2)] show ?thesis
    by (simp add: tombstone_count_def place_at_def)
next
  case False
  with place_spec [OF wf, of "Suc p" k v ow] r have "hm_header m' = hm_header m"
    by (auto simp: veq_def set_at_def split: option.splits if_splits)
  with none show ?thesis by (simp add: tombstone_count_def)
qed

interpretation hmap: bounded_map "\<lambda>m. hm_wf kb m \<and> tombstone_count m = 0" hm_abs hm_capacity "hm_swap (Suc passes) kb"
  for kb :: "'k \<Rightarrow> bytes" and passes
proof
  fix m :: "('k, 'v) SharedHashMap" and k v
  assume m: "hm_wf kb m \<and> tombstone_count m = 0"
  then obtain r m' where m': "place (Suc passes) kb k v True m = Some (r, m')"
      "reply_of r = fst (spec_place (hm_capacity m) k v True (hm_abs m))" "hm_wf kb m'" "hm_capacity m' = hm_capacity m"
      "hm_abs m' = snd (spec_place (hm_capacity m) k v True (hm_abs m))"
    using place_refines [of kb m "Suc passes" k v True] by auto
  with place_no_tombstones [OF _ _ m'(1)] m show "\<exists>m'. hm_swap (Suc passes) kb k v m =
      Some (fst (spec_place (hm_capacity m) k v True (hm_abs m)), m') \<and> (hm_wf kb m' \<and> tombstone_count m' = 0) \<and>
      hm_capacity m' = hm_capacity m \<and> hm_abs m' = snd (spec_place (hm_capacity m) k v True (hm_abs m))"
    by (simp add: swap_place)
qed

lemma reinsert_put_all: "reinsert passes kb es m = put_all (hm_swap passes kb) es m"
proof (induction es arbitrary: m)
  case (Cons e es)
  then show ?case
    by (cases e; cases "place passes kb (fst e) (snd e) True m")
      (auto simp: insert_place swap_place insert_reply_def split: sum.splits option.splits)
qed simp

lemma compact_correct:
  assumes wf: "hm_wf kb m"
  shows "\<exists>m'. hm_compact (Suc passes) kb m = Some (Inr (tombstone_count m), m') \<and> hm_wf kb m' \<and>
    hm_capacity m' = hm_capacity m \<and> tombstone_count m' = 0 \<and> hm_abs m' = hm_abs m"
proof -
  have len: "length (hm_slots m) = hm_capacity m" using hm_wfD(1) [OF wf] by (simp add: hm_shape_def)
  note cl = clear_correct [OF wf]
  have "hm_wf kb (hm_clear m) \<and> tombstone_count (hm_clear m) = 0"
    using cl(1) clear_slots(5) [OF hm_wfD(1) [OF wf]] by (simp add: tombstone_count_def)
  from hmap.put_all_fits [OF this live_distinct [OF len hm_wfD(3) [OF wf]], of passes] obtain m' where
    m': "reinsert (Suc passes) kb (hm_live m) (hm_clear m) = Some (Inr (), m')" "hm_wf kb m'"
      "hm_capacity m' = hm_capacity m" "tombstone_count m' = 0" "hm_abs m' = hm_abs m"
    using card_live(3) [OF wf] by (auto simp: cl reinsert_put_all hm_abs_def [of m])
  moreover have "hm_compact (Suc passes) kb m = do { (r, m') \<leftarrow> reinsert (Suc passes) kb (hm_live m) (hm_clear m);
      Some (case r of Inl e \<Rightarrow> Inl e | Inr _ \<Rightarrow> Inr (tombstone_count m), m') }"
    by (simp add: hm_compact_def tombstones_scanned [OF wf] hm_clear_def Let_def)
  ultimately show ?thesis by simp
qed

section \<open>Sequences of calls\<close>

datatype ('k, 'v) MapCall =
    CallInsert 'k 'v | CallSwap 'k 'v | CallInsertIfAbsent 'k 'v | CallCompareExchange 'k 'v 'v | CallRemove 'k
  | CallGet 'k | CallContainsKey 'k | CallLen | CallClear | CallCompact

datatype 'v MapReply =
    ReplyInsert "MapError + InsertOutcome" | ReplyOld "MapError + 'v option" | ReplyCas "MapError + ('v + unit)"
  | ReplyValue "'v option" | ReplyBool bool | ReplyLen nat | ReplyDone | ReplyCompact "MapError + unit"

fun hm_call ::
  "nat \<Rightarrow> ('k \<Rightarrow> bytes) \<Rightarrow> ('v \<Rightarrow> bytes) \<Rightarrow> ('k, 'v) MapCall \<Rightarrow> ('k, 'v) SharedHashMap \<Rightarrow>
    ('v MapReply \<times> ('k, 'v) SharedHashMap) option" where
  "hm_call p kb vb (CallInsert k v) m = map_option (map_prod ReplyInsert id) (hm_insert p kb k v m)"
| "hm_call p kb vb (CallSwap k v) m = map_option (map_prod ReplyOld id) (hm_swap p kb k v m)"
| "hm_call p kb vb (CallInsertIfAbsent k v) m = map_option (map_prod ReplyOld id) (insert_if_absent p kb k v m)"
| "hm_call p kb vb (CallCompareExchange k e n) m = map_option (map_prod ReplyCas id) (hm_compare_exchange kb vb k e n m)"
| "hm_call p kb vb (CallRemove k) m = map_option (map_prod ReplyValue id) (hm_remove kb k m)"
| "hm_call p kb vb (CallGet k) m = map_option (\<lambda>r. (ReplyValue r, m)) (get_inner kb k m)"
| "hm_call p kb vb (CallContainsKey k) m = map_option (\<lambda>b. (ReplyBool b, m)) (contains_key kb k m)"
| "hm_call p kb vb CallLen m = Some (ReplyLen (hm_len m), m)"
| "hm_call p kb vb CallClear m = Some (ReplyDone, hm_clear m)"
| "hm_call p kb vb CallCompact m =
     map_option (map_prod (\<lambda>r. ReplyCompact (map_sum id (\<lambda>_. ()) r)) id) (hm_compact p kb m)"

fun hm_calls ::
  "nat \<Rightarrow> ('k \<Rightarrow> bytes) \<Rightarrow> ('v \<Rightarrow> bytes) \<Rightarrow> ('k, 'v) MapCall list \<Rightarrow> ('k, 'v) SharedHashMap \<Rightarrow>
    ('v MapReply list \<times> ('k, 'v) SharedHashMap) option" where
  "hm_calls p kb vb [] m = Some ([], m)"
| "hm_calls p kb vb (c # cs) m =
     do { (r, m) \<leftarrow> hm_call p kb vb c m; (rs, m) \<leftarrow> hm_calls p kb vb cs m; Some (r # rs, m) }"

text \<open>The same calls on the bounded map.\<close>

fun spec_call :: "nat \<Rightarrow> ('v \<Rightarrow> bytes) \<Rightarrow> ('k, 'v) MapCall \<Rightarrow> ('k \<rightharpoonup> 'v) \<Rightarrow> 'v MapReply \<times> ('k \<rightharpoonup> 'v)" where
  "spec_call cap vb (CallInsert k v) M = map_prod (ReplyInsert \<circ> insert_reply) id (spec_place cap k v True M)"
| "spec_call cap vb (CallSwap k v) M = map_prod ReplyOld id (spec_place cap k v True M)"
| "spec_call cap vb (CallInsertIfAbsent k v) M = map_prod ReplyOld id (spec_place cap k v False M)"
| "spec_call cap vb (CallCompareExchange k e n) M =
     (case M k of
        None \<Rightarrow> (ReplyCas (Inl KeyAbsent), M)
      | Some v \<Rightarrow> if vb v = vb e then (ReplyCas (Inr (Inr ())), M(k \<mapsto> n)) else (ReplyCas (Inr (Inl v)), M))"
| "spec_call cap vb (CallRemove k) M = (ReplyValue (M k), M(k := None))"
| "spec_call cap vb (CallGet k) M = (ReplyValue (M k), M)"
| "spec_call cap vb (CallContainsKey k) M = (ReplyBool (k \<in> dom M), M)"
| "spec_call cap vb CallLen M = (ReplyLen (card (dom M)), M)"
| "spec_call cap vb CallClear M = (ReplyDone, Map.empty)"
| "spec_call cap vb CallCompact M = (ReplyCompact (Inr ()), M)"

fun spec_calls :: "nat \<Rightarrow> ('v \<Rightarrow> bytes) \<Rightarrow> ('k, 'v) MapCall list \<Rightarrow> ('k \<rightharpoonup> 'v) \<Rightarrow> 'v MapReply list \<times> ('k \<rightharpoonup> 'v)" where
  "spec_calls cap vb [] M = ([], M)"
| "spec_calls cap vb (c # cs) M =
     (let (r, M) = spec_call cap vb c M; (rs, M) = spec_calls cap vb cs M in (r # rs, M))"

lemma hm_call_refines:
  assumes wf: "hm_wf kb m"
  shows "\<exists>m'. hm_call (Suc p) kb vb c m = Some (fst (spec_call (hm_capacity m) vb c (hm_abs m)), m') \<and> hm_wf kb m' \<and>
    hm_capacity m' = hm_capacity m \<and> hm_abs m' = snd (spec_call (hm_capacity m) vb c (hm_abs m))"
proof (cases c)
  case (CallInsert k v)
  with place_refines [OF wf, of "Suc p" k v True] show ?thesis by (auto simp: insert_place)
next
  case (CallSwap k v)
  with place_refines [OF wf, of "Suc p" k v True] show ?thesis by (auto simp: swap_place)
next
  case (CallInsertIfAbsent k v)
  with place_refines [OF wf, of "Suc p" k v False] show ?thesis by (auto simp: absent_place)
next
  case (CallCompareExchange k e n)
  with cas_correct [OF wf, where key = k and vb = vb and expected = e and new = n] show ?thesis by (auto split: option.splits if_splits)
next
  case (CallRemove k)
  with remove_correct [OF wf, of k] show ?thesis by auto
next
  case CallCompact
  with compact_correct [OF wf, of p] show ?thesis by auto
qed (auto simp: get_inner_abs [OF wf] contains_key_def hm_len_abs [OF wf] clear_correct [OF wf] wf)

lemma hm_calls_refine:
  assumes wf: "hm_wf kb m"
  shows "\<exists>m'. hm_calls (Suc p) kb vb cs m = Some (fst (spec_calls (hm_capacity m) vb cs (hm_abs m)), m') \<and> hm_wf kb m' \<and>
    hm_capacity m' = hm_capacity m \<and> hm_abs m' = snd (spec_calls (hm_capacity m) vb cs (hm_abs m))"
  using wf
proof (induction cs arbitrary: m)
  case (Cons c cs)
  from hm_call_refines [OF Cons.prems, of p vb c] obtain m1 where
    m1: "hm_call (Suc p) kb vb c m = Some (fst (spec_call (hm_capacity m) vb c (hm_abs m)), m1)" "hm_wf kb m1"
      "hm_capacity m1 = hm_capacity m" "hm_abs m1 = snd (spec_call (hm_capacity m) vb c (hm_abs m))" by blast
  from Cons.IH [OF m1(2)] m1 show ?case by (auto simp: Let_def split_beta)
qed simp

text \<open>
  C16. The hash map is a bounded map: on a fresh map of any capacity, every sequence of insert, swap,
  insert-if-absent, compare-exchange, remove, get, contains, length, clear and compact calls returns,
  reply by reply, what a finite map holding at most that many keys replies, and the entries at the end
  are that map's. \<open>Full\<close> is reported exactly for a new key when every slot holds a live key, so
  tombstones are always reused. Each operation needs a single probe pass.
\<close>

theorem hash_map_refines_map:
  assumes "hm_create None None zero key_size value_size capacity = Some (Inr m)" "capacity < 2 ^ 64"
  shows "\<exists>m'. hm_calls (Suc p) kb vb cs m = Some (fst (spec_calls capacity vb cs Map.empty), m') \<and>
    hm_abs m' = snd (spec_calls capacity vb cs Map.empty) \<and> hm_wf kb m'"
  using hm_calls_refine [OF created_wf(1) [OF assms], where p = p and vb = vb and cs = cs] created_wf(2,3) [OF assms] by auto

theorem hash_map_refines_map_witness:
  "\<exists>m'. hm_calls 1 (\<lambda>b :: u8. [b]) (\<lambda>b :: u8. [b])
      [CallInsert 1 10, CallInsert 2 20, CallInsert 3 30, CallRemove 1, CallSwap 3 33, CallGet 3, CallLen]
      (\<lparr>hm_header = fst (init_region (0, 0) 1 1 2), hm_slots = snd (init_region (0, 0) 1 1 2), hm_capacity = 2,
        hm_cap_mask = 1, hm_cap_is_pow2 = is_power_of_two 2\<rparr>) =
    Some ([ReplyInsert (Inr Inserted), ReplyInsert (Inr Inserted), ReplyInsert (Inl MapFull), ReplyValue (Some 10),
      ReplyOld (Inr None), ReplyValue (Some 33), ReplyLen 2], m')"
  using hash_map_refines_map [of "(0, 0)" 1 1 2 "\<lparr>hm_header = fst (init_region (0, 0) 1 1 2),
      hm_slots = snd (init_region (0, 0) 1 1 2), hm_capacity = 2, hm_cap_mask = 1, hm_cap_is_pow2 = is_power_of_two 2\<rparr>"
      0 "\<lambda>b :: u8. [b]" "\<lambda>b :: u8. [b]"
      "[CallInsert 1 10, CallInsert 2 20, CallInsert 3 30, CallRemove 1, CallSwap 3 33, CallGet 3, CallLen]"]
  by (auto simp: hm_create_def check_layout_def MAP_PAYLOAD_BYTES_def from_region_def init_region_def spec_place_def
      insert_reply_def)

text \<open>
  C30. Compaction keeps every entry, returns how many tombstones it reclaimed and leaves none; it
  never reports \<open>Full\<close>. The snapshots before and after list each key once, with its value.
\<close>

theorem compact_keeps_entries:
  assumes "hm_wf kb m"
  shows "\<exists>m' before after. hm_compact (Suc p) kb m = Some (Inr (tombstone_count m), m') \<and> hm_wf kb m' \<and>
    tombstone_count m' = 0 \<and> hm_len m' = hm_len m \<and> snapshot m = Some before \<and> snapshot m' = Some after \<and>
    distinct (map fst before) \<and> distinct (map fst after) \<and> set after = set before \<and> map_of before = hm_abs m"
proof -
  from compact_correct [OF assms, of p] obtain m' where m': "hm_compact (Suc p) kb m = Some (Inr (tombstone_count m), m')"
    "hm_wf kb m'" "tombstone_count m' = 0" "hm_abs m' = hm_abs m" by blast
  have dist: "distinct (map fst (hm_live m))" "distinct (map fst (hm_live m'))"
    using live_distinct hm_wfD(1,3) [OF assms] hm_wfD(1,3) [OF m'(2)] by (auto simp: hm_shape_def)
  have "set (hm_live m') = set (hm_live m)" using dist m'(4) map_of_inject_set by (metis hm_abs_def)
  with dist m' hm_len_abs [OF assms] hm_len_abs [OF m'(2)] snapshot_live [OF assms] snapshot_live [OF m'(2)] show ?thesis
    by (auto simp: hm_abs_def)
qed

definition two_slots :: "(u8, u8) SharedHashMap" where
  "two_slots = \<lparr>hm_header = \<lparr>mh_magic = MAP_MAGIC, mh_capacity = 2, mh_count = 0, mh_key_size = 1, mh_value_size = 1,
       mh_tombstones = 1, mh_removals = 1\<rparr>,
     hm_slots = [\<lparr>ms_state = SLOT_TOMBSTONE, ms_version = 0, ms_hash = 0, ms_payload = (0, 0)\<rparr>,
       \<lparr>ms_state = SLOT_EMPTY, ms_version = 0, ms_hash = 0, ms_payload = (0, 0)\<rparr>],
     hm_capacity = 2, hm_cap_mask = 1, hm_cap_is_pow2 = True\<rparr>"

lemma two_slots_wf: "hm_wf kb two_slots"
proof -
  have "in_state SLOT_TOMBSTONE two_slots = {0}" "in_state SLOT_OCCUPIED two_slots = {}"
    by (simp_all add: in_state_def two_slots_def slot_states less_2_cases_iff Collect_conv_if conj_disj_distribR Collect_disj_eq)
  moreover have "is_power_of_two 2" by code_simp
  ultimately show ?thesis
    by (auto simp: hm_wf_def hm_shape_def slots_ok_def one_slot_def chains_ok_def counts_ok_def two_slots_def
        less_2_cases_iff slot_states)
qed

theorem compact_keeps_entries_witness:
  "\<exists>m'. hm_compact 1 (\<lambda>b. [b]) two_slots = Some (Inr 1, m') \<and> tombstone_count m' = 0"
  using compact_keeps_entries [OF two_slots_wf [of "\<lambda>b. [b]"], of 0] by (auto simp: two_slots_def tombstone_count_def)

section \<open>A slot claimed after a clear\<close>

text \<open>
  \<open>clear\<close> empties a slot's state and leaves its hash, and claiming an empty slot does not unset the hash
  either. So between the claim and the publication of a new key, the slot passes for published with the
  cleared entry: the lookup of the cleared key finds its old value, and a second insertion of the new
  key passes the claimed slot by and places the key a second time. The state is the one the two-slot
  map is in after an insertion of key 1, a clear, and the claim of a thread inserting key 3.
\<close>

definition claim_pending :: "(u8, u8) SharedHashMap \<Rightarrow> (u8, u8) SharedHashMap" where
  "claim_pending m = upd_slot 0 (\<lambda>s. s\<lparr>ms_state := SLOT_OCCUPIED\<rparr>) m"

definition cleared_map :: "(u8, u8) SharedHashMap" where
  "cleared_map =
     (case hm_create None None (0, 0) 1 1 2 of
        Some (Inr m) \<Rightarrow> (case hm_insert 1 (\<lambda>b. [b]) 1 10 m of Some (_, m) \<Rightarrow> hm_clear m | None \<Rightarrow> two_slots)
      | _ \<Rightarrow> two_slots)"

lemma byte_hashes:
  "hash_key (\<lambda>b :: u8. [b]) 1 = 0xaf63bc4c8601b62c" "hash_key (\<lambda>b :: u8. [b]) 3 = 0xaf63be4c8601b992"
  by (simp_all add: hash_key_def fnv1a_64_def HASH_UNSET_def Let_def)

lemma byte_starts: "unat (0xaf63bc4c8601b62c :: u64) = 0xaf63bc4c8601b62c" "unat (0xaf63be4c8601b992 :: u64) = 0xaf63be4c8601b992"
  by simp_all

lemma upt_2: "[0..<2] = [0, 1]"
  by (simp add: upt_rec)

lemma replicate_2: "replicate 2 x = [x, x]"
  by (simp add: numeral_2_eq_2)

lemmas hm_ops = place_def Let_def place_loop.simps probe_once_def probe_slot_def hm_slot_def wrap_def claim_def
  claimed_verdict_def upd_slot_def upd_header_def slot_states publish_claimed_def hm_write_payload_def lock_slot_def
  unlock_slot_def copy_payload_def byte_hashes byte_starts upt_2

lemma cleared_map_simp:
  "cleared_map = \<lparr>hm_header = \<lparr>mh_magic = MAP_MAGIC, mh_capacity = 2, mh_count = 0, mh_key_size = 1, mh_value_size = 1,
       mh_tombstones = 0, mh_removals = 0\<rparr>,
     hm_slots = [\<lparr>ms_state = SLOT_EMPTY, ms_version = 2, ms_hash = 0xaf63bc4c8601b62c, ms_payload = (1, 10)\<rparr>,
       \<lparr>ms_state = SLOT_EMPTY, ms_version = 0, ms_hash = 0, ms_payload = (0, 0)\<rparr>],
     hm_capacity = 2, hm_cap_mask = 1, hm_cap_is_pow2 = True\<rparr>"
proof -
  have "is_power_of_two 2" by code_simp
  then show ?thesis
    by (simp add: cleared_map_def hm_create_def check_layout_def MAP_PAYLOAD_BYTES_def from_region_def init_region_def
      insert_place hm_ops insert_reply_def reply_of_def hm_clear_def replicate_2 HASH_UNSET_def)
qed

lemma claim_after_clear_shows_old_entry:
  "get_inner (\<lambda>b. [b]) 1 cleared_map = Some None"
  "get_inner (\<lambda>b. [b]) 1 (claim_pending cleared_map) = Some (Some 10)"
  "(case hm_insert 1 (\<lambda>b. [b]) 3 31 (claim_pending cleared_map) of
      Some (r, m) \<Rightarrow> r = Inr Inserted \<and>
        (case publish_claimed 0 (hash_key (\<lambda>b. [b]) 3) 3 30 m of
           Some m \<Rightarrow> hm_live m = [(3, 30), (3, 31)] | None \<Rightarrow> False)
    | None \<Rightarrow> False)"
  by (simp_all add: cleared_map_simp claim_pending_def get_inner_def hm_ops published_hash_def hm_read_payload_def HASH_UNSET_def insert_place probe_nonempty_def present_def insert_reply_def reply_of_def
    hm_live_def)

end
