(* ===== verification/Residue_Moduli.thy ===== *)
theory Residue_Moduli
  imports SubEtha_Prelude
begin

text \<open>
  The arithmetic under the residue erasure code of \<^verbatim>\<open>crates/subetha-cxc/src/residue_fec.rs\<close>: the table of
  moduli, Barrett reduction and modular inverses by square-and-multiply. The moduli are shown prime, the
  reduction exact on every value it is given, and the inverses right. Residues are 32-bit words and
  products 64-bit words, as in the code, so that every statement about them includes that nothing wraps.
\<close>

section \<open>The moduli\<close>

definition MODULI :: "u32 list" where
  "MODULI = [
    65537, 65539, 65543, 65551, 65557, 65563, 65579, 65581,
    65587, 65599, 65609, 65617, 65629, 65633, 65647, 65651,
    65657, 65677, 65687, 65699, 65701, 65707, 65713, 65717,
    65719, 65729, 65731, 65761, 65777, 65789, 65809, 65827]"

definition MAX_MODULI :: nat where "MAX_MODULI = length MODULI"
definition BARRETT_SHIFT :: nat where "BARRETT_SHIFT = 34"

definition BARRETT :: "u64 list" where
  "BARRETT = map (\<lambda>m. push_bit BARRETT_SHIFT 1 div ucast m) MODULI"

definition reduce :: "u64 \<Rightarrow> nat \<Rightarrow> u32" where
  "reduce x idx =
     (let m = ucast (MODULI ! idx) :: u64;
          q = drop_bit BARRETT_SHIFT (x * BARRETT ! idx);
          r = x - q * m;
          r = (if r \<ge> m then r - m else r);
          r = (if r \<ge> m then r - m else r)
      in ucast r)"

datatype ResidueError = TooManyModuli | NotEnoughResidues | BadResidueIndex | LengthMismatch

text \<open>The loop of \<open>mod_inv\<close> halves the exponent until it is zero.\<close>

function mod_inv_loop :: "u64 \<Rightarrow> u64 \<Rightarrow> u32 \<Rightarrow> u64 \<Rightarrow> u64" where
  "mod_inv_loop result base exp m64 =
     (if exp > 0 then
        mod_inv_loop (if exp AND 1 = 1 then result * base mod m64 else result) (base * base mod m64) (drop_bit 1 exp) m64
      else result)"
  by auto

lemma unat_halve: "unat (drop_bit 1 x) = unat x div 2" for x :: u32
  by (simp add: drop_bit_eq_div unat_div)

termination mod_inv_loop
proof (relation "measure (\<lambda>(_, _, exp, _). unat exp)")
  fix result base :: u64 and exp :: u32 and m64 :: u64
  assume "exp > 0"
  then have "0 < unat exp" by (simp add: word_less_nat_alt)
  then show "((if exp AND 1 = 1 then result * base mod m64 else result, base * base mod m64, drop_bit 1 exp, m64),
      result, base, exp, m64) \<in> measure (\<lambda>(_, _, exp, _). unat exp)"
    using unat_halve [of exp] by simp
qed simp

declare mod_inv_loop.simps [simp del]

definition mod_inv :: "u32 \<Rightarrow> u32 \<Rightarrow> u32" where
  "mod_inv a m = ucast (mod_inv_loop 1 (ucast (a mod m)) (m - 2) (ucast m))"

section \<open>Arithmetic modulo a prime\<close>

definition is_prime :: "nat \<Rightarrow> bool" where
  "is_prime p \<longleftrightarrow> 1 < p \<and> (\<forall>d. d dvd p \<longrightarrow> d = 1 \<or> d = p)"

lemma prime_coprime: "is_prime p \<Longrightarrow> \<not> p dvd a \<Longrightarrow> coprime a p"
  by (metis coprime_iff_gcd_eq_1 gcd_dvd1 gcd_dvd2 is_prime_def)

lemma prime_trial:
  assumes "1 < p" "p < b * b" "\<forall>d\<in>{2..<b}. \<not> d dvd p"
  shows "is_prime p"
proof -
  have "d = 1 \<or> d = p" if d: "d dvd p" for d
  proof (rule ccontr)
    assume ne: "\<not> (d = 1 \<or> d = p)"
    from d obtain e where e: "p = d * e" by auto
    have "d \<noteq> 0 \<and> e \<noteq> 0" using e assms(1) by (metis less_nat_zero_code mult_eq_0_iff)
    with ne e have "2 \<le> d" "2 \<le> e" by (auto intro!: Suc_leI le_neq_implies_less simp: numeral_2_eq_2 Suc_le_eq)
    moreover have "d < b \<or> e < b" using e assms(2) mult_le_mono [of b d b e] by force
    ultimately show False using assms(3) e dvd_triv_left [of d e] dvd_triv_right [of e d] by (metis atLeastLessThan_iff)
  qed
  with assms(1) show ?thesis by (simp add: is_prime_def)
qed

lemma mod_eq_dvd_nat: "x mod n = y mod n \<longleftrightarrow> int n dvd int x - int y" for x y n :: nat
  by (metis mod_eq_dvd_iff of_nat_eq_iff zmod_int)

lemma fermat:
  assumes p: "is_prime p" and a: "\<not> p dvd a"
  shows "a ^ (p - 1) mod p = 1"
proof -
  let ?S = "{1..<p}" and ?f = "\<lambda>x. a * x mod p"
  have p1: "1 < p" using p by (simp add: is_prime_def)
  have nd: "\<not> p dvd x" if "x \<in> ?S" for x using that by (auto dest: dvd_imp_le)
  have cop: "coprime x p" if "x \<in> ?S" for x using prime_coprime [OF p nd [OF that]] .
  have ca: "coprime a p" by (rule prime_coprime [OF p a])
  have inj: "inj_on ?f ?S"
  proof (rule inj_onI)
    fix x y assume xy: "x \<in> ?S" "y \<in> ?S" "?f x = ?f y"
    then have "int p dvd int a * (int x - int y)" unfolding mod_eq_dvd_nat by (simp add: right_diff_distrib)
    then have "int p dvd int x - int y" using ca by (simp add: coprime_dvd_mult_right_iff coprime_commute)
    then have "x mod p = y mod p" by (simp add: mod_eq_dvd_nat)
    then show "x = y" using xy by simp
  qed
  have "?f ` ?S \<subseteq> ?S"
  proof
    fix y assume "y \<in> ?f ` ?S"
    then obtain x where x: "x \<in> ?S" "y = ?f x" by auto
    have "\<not> p dvd a * x" using nd [OF x(1)] ca by (simp add: coprime_dvd_mult_right_iff coprime_commute)
    then show "y \<in> ?S" using x p1 by (auto simp: dvd_eq_mod_eq_0)
  qed
  then have surj: "?f ` ?S = ?S" using inj by (simp add: endo_inj_surj)
  let ?P = "\<Prod>x\<in>?S. x"
  have "?P = (\<Prod>x\<in>?S. ?f x)" using prod.reindex [OF inj, of "\<lambda>x. x"] surj by simp
  also have "\<dots> mod p = (\<Prod>x\<in>?S. a * x) mod p" by (rule mod_prod_eq)
  also have "(\<Prod>x\<in>?S. a * x) = a ^ (p - 1) * ?P" by (simp add: prod.distrib)
  finally have "?P mod p = a ^ (p - 1) * ?P mod p" by simp
  then have "int p dvd (int (a ^ (p - 1)) - 1) * int ?P"
    unfolding mod_eq_dvd_nat of_nat_mult left_diff_distrib by (subst dvd_diff_commute) simp
  moreover have "coprime (int ?P) (int p)" unfolding coprime_int_iff using cop by (rule prod_coprime_left)
  ultimately have "int p dvd int (a ^ (p - 1)) - 1" by (simp add: coprime_dvd_mult_left_iff coprime_commute)
  then have "a ^ (p - 1) mod p = 1 mod p" unfolding mod_eq_dvd_nat by simp
  then show ?thesis using p1 by simp
qed

section \<open>The table of moduli\<close>

abbreviation md :: "nat \<Rightarrow> nat" where
  "md i \<equiv> unat (MODULI ! i)"

lemma length_MODULI [simp]: "length MODULI = 32" "MAX_MODULI = 32"
  by (simp_all add: MODULI_def MAX_MODULI_def)

lemma md_range:
  assumes "i < 32"
  shows "65536 < md i" "md i < 131072"
proof -
  have "\<forall>m\<in>set MODULI. 65536 < m \<and> m < 131072" by (simp add: MODULI_def)
  with assms have "65536 < MODULI ! i" "MODULI ! i < 131072" by simp_all
  then show "65536 < md i" "md i < 131072" by (simp_all add: word_less_nat_alt)
qed

lemma md_less: "i < j \<Longrightarrow> j < 32 \<Longrightarrow> md i < md j"
proof -
  assume ij: "i < j" "j < 32"
  have "successively (<) MODULI" by (simp add: MODULI_def)
  then have "sorted_wrt (<) MODULI" by (subst (asm) successively_conv_sorted_wrt) (auto intro: transpI)
  with ij have "MODULI ! i < MODULI ! j" by (simp add: sorted_wrt_iff_nth_less)
  then show "md i < md j" by (simp add: word_less_nat_alt)
qed

lemma md_inj: "i < 32 \<Longrightarrow> j < 32 \<Longrightarrow> md i = md j \<longleftrightarrow> i = j"
  by (metis less_irrefl linorder_neqE_nat md_less)

lemma md_values: "map unat MODULI = [
    65537, 65539, 65543, 65551, 65557, 65563, 65579, 65581,
    65587, 65599, 65609, 65617, 65629, 65633, 65647, 65651,
    65657, 65677, 65687, 65699, 65701, 65707, 65713, 65717,
    65719, 65729, 65731, 65761, 65777, 65789, 65809, 65827]"
  by (simp add: MODULI_def)

text \<open>
  The primes below 257, and for each modulus a multiplier and a quotient that show it coprime to their
  product: \<open>a * product = 1 + b * modulus\<close>.
\<close>

definition small_primes :: "nat list" where
  "small_primes = [
    2, 3, 5, 7, 11, 13, 17, 19, 23, 29, 31, 37, 41, 43, 47, 53, 59, 61, 67, 71, 73, 79, 83, 89, 97, 101, 103,
    107, 109, 113, 127, 131, 137, 139, 149, 151, 157, 163, 167, 173, 179, 181, 191, 193, 197, 199, 211, 223,
    227, 229, 233, 239, 241, 251]"

definition md_certificates :: "(nat \<times> nat \<times> nat) list" where
  "md_certificates = [
    (65537, 4594,
      4504928883483716290698184815263473167068733344551210798126866066192320411218761162132852773462607787),
    (65539, 36417,
      35709836479614872370888550986465496553843112575819474387714969359957703687073522127367067478392527831),
    (65543, 26679,
      26159337268036018133880185790254626801046221535137879915169215886481878364809198227212972104248372783),
    (65551, 61170,
      59971189794945489875676419229352529377531098134410386727103352939093833168117383592011815677314602149),
    (65557, 22144,
      21708034715532575194912665108092119217720927618478489016914073801879412446364999780489010254559894467),
    (65563, 16897,
      16562820394428296026840912457473256788340108183555065959556360865596999020271803321510887496887451743),
    (65579, 62878,
      61619395773894993401582910411456318631902352468125524753465010694544197057466610543382478725401330841),
    (65581, 8684,
      8509916251522829357150992456975018654666497009218132740642891758053697531215992835981897855388720899),
    (65587, 42421,
      41566804761135630904434382987657842032122957223270681955484728803000296350738215018727362750678447567),
    (65599, 53952,
      52855944232122550772907855787844531114020150108850744617749252585432964048962631998735340942681800641),
    (65609, 8311,
      8140917804855107493391758895590466160537810830265118027061656013610092025597959485750993665152970881),
    (65617, 28289,
      27706695449909591337509507291828501956070676783303608643245957272108261209091808700211612902530723957),
    (65629, 37814,
      37028859762144745420504817085672907664868021389555083814046401815652876899100106797446067148740135711),
    (65633, 16717,
      16368903660577435380536486662323220429021743318939118005360559944975460205991829028092023537315828973),
    (65647, 61863,
      60561914932511500871890415207341776555683899997208104583172475608579253830459943929268153816300987687),
    (65651, 35339,
      34593652317679450444673993059147052469774944996433836583590433154472281242487337111500023900095370619),
    (65657, 8016,
      7846214548912617044589341151568049315381689320534587511518741118023661960627681990810454470319495447),
    (65677, 7697,
      7531676980908732731128536616330486659771987091304658782455683231068304937521168326278399898300399417),
    (65687, 5981,
      5851643783701670117091807044001191290702489016158671787892549540555236764508875204458313298602235867),
    (65699, 27496,
      26896406869492931390273872452122896683297487184323761188287095460965548067934790695167855212955655621),
    (65701, 48723,
      47659068222907762501553485338412556774569874603171571923568094507076004632718702907116868172670288989),
    (65707, 1459,
      1427010467822739021241730664888180783182525335765714986815455018726017036034789990404892445011627667),
    (65713, 13999,
      13690812571634275098804750392742164862949671025458239684557277506336542343219179818790806768897153513),
    (65717, 16711,
      16342113242679540521653715861906223445046468921776427359696032416520671832214715071927334321715696037),
    (65719, 26029,
      25453648525726869206498791892031066217819814312344924268562772161857270438161974807241109118301385051),
    (65729, 4491,
      4391061664597479409722297354431487615499443441751996130187180867439236764626758932251984307350876801),
    (65731, 10164,
      9937517875121684844021368554540120096937308370740076847654588051796698670933645720318664562447469949),
    (65761, 26307,
      25709073272265061672669241966299224571848437047269102322979225781517733029118134727779085718773557169),
    (65777, 23511,
      22971034042460892859105242939751234271129788025530566793468971241415637887091889441887285748425505177),
    (65789, 53462,
      52224636087084952988562532042819333125997910525477077994858612968705663788287375578596760585125151231),
    (65809, 1745,
      1704094386052828417119496702169098675370935975358356275879546929723400635049185172258452115925543061),
    (65827, 24115,
      23543265986378947409060921332064250102418091355472010780910756309566878273678629688777328693744178587)]"

lemma small_primes_product: "prod_list small_primes =
    64266330917908644872330635228106713310880186591609208114244758680898150367880703152525200743234420230"
  by (simp add: small_primes_def)

lemma certificates_hold: "\<forall>(m, a, b)\<in>set md_certificates. a * prod_list small_primes = 1 + b * m"
  unfolding small_primes_product by (simp add: md_certificates_def)

lemma certificates_cover: "map fst md_certificates = map unat MODULI"
  unfolding md_values by (simp add: md_certificates_def)

text \<open>Every number from 2 to 256, with a factorisation unless it is one of the primes above.\<close>

definition small_factors :: "(nat \<times> nat \<times> nat) list" where
  "small_factors = [
    (2, 0, 0), (3, 0, 0), (4, 2, 2), (5, 0, 0), (6, 2, 3), (7, 0, 0), (8, 2, 4), (9, 3, 3), (10, 2, 5),
    (11, 0, 0), (12, 2, 6), (13, 0, 0), (14, 2, 7), (15, 3, 5), (16, 2, 8), (17, 0, 0), (18, 2, 9),
    (19, 0, 0), (20, 2, 10), (21, 3, 7), (22, 2, 11), (23, 0, 0), (24, 2, 12), (25, 5, 5), (26, 2, 13),
    (27, 3, 9), (28, 2, 14), (29, 0, 0), (30, 2, 15), (31, 0, 0), (32, 2, 16), (33, 3, 11), (34, 2, 17),
    (35, 5, 7), (36, 2, 18), (37, 0, 0), (38, 2, 19), (39, 3, 13), (40, 2, 20), (41, 0, 0), (42, 2, 21),
    (43, 0, 0), (44, 2, 22), (45, 3, 15), (46, 2, 23), (47, 0, 0), (48, 2, 24), (49, 7, 7), (50, 2, 25),
    (51, 3, 17), (52, 2, 26), (53, 0, 0), (54, 2, 27), (55, 5, 11), (56, 2, 28), (57, 3, 19), (58, 2, 29),
    (59, 0, 0), (60, 2, 30), (61, 0, 0), (62, 2, 31), (63, 3, 21), (64, 2, 32), (65, 5, 13), (66, 2, 33),
    (67, 0, 0), (68, 2, 34), (69, 3, 23), (70, 2, 35), (71, 0, 0), (72, 2, 36), (73, 0, 0), (74, 2, 37),
    (75, 3, 25), (76, 2, 38), (77, 7, 11), (78, 2, 39), (79, 0, 0), (80, 2, 40), (81, 3, 27), (82, 2, 41),
    (83, 0, 0), (84, 2, 42), (85, 5, 17), (86, 2, 43), (87, 3, 29), (88, 2, 44), (89, 0, 0), (90, 2, 45),
    (91, 7, 13), (92, 2, 46), (93, 3, 31), (94, 2, 47), (95, 5, 19), (96, 2, 48), (97, 0, 0), (98, 2, 49),
    (99, 3, 33), (100, 2, 50), (101, 0, 0), (102, 2, 51), (103, 0, 0), (104, 2, 52), (105, 3, 35),
    (106, 2, 53), (107, 0, 0), (108, 2, 54), (109, 0, 0), (110, 2, 55), (111, 3, 37), (112, 2, 56),
    (113, 0, 0), (114, 2, 57), (115, 5, 23), (116, 2, 58), (117, 3, 39), (118, 2, 59), (119, 7, 17),
    (120, 2, 60), (121, 11, 11), (122, 2, 61), (123, 3, 41), (124, 2, 62), (125, 5, 25), (126, 2, 63),
    (127, 0, 0), (128, 2, 64), (129, 3, 43), (130, 2, 65), (131, 0, 0), (132, 2, 66), (133, 7, 19),
    (134, 2, 67), (135, 3, 45), (136, 2, 68), (137, 0, 0), (138, 2, 69), (139, 0, 0), (140, 2, 70),
    (141, 3, 47), (142, 2, 71), (143, 11, 13), (144, 2, 72), (145, 5, 29), (146, 2, 73), (147, 3, 49),
    (148, 2, 74), (149, 0, 0), (150, 2, 75), (151, 0, 0), (152, 2, 76), (153, 3, 51), (154, 2, 77),
    (155, 5, 31), (156, 2, 78), (157, 0, 0), (158, 2, 79), (159, 3, 53), (160, 2, 80), (161, 7, 23),
    (162, 2, 81), (163, 0, 0), (164, 2, 82), (165, 3, 55), (166, 2, 83), (167, 0, 0), (168, 2, 84),
    (169, 13, 13), (170, 2, 85), (171, 3, 57), (172, 2, 86), (173, 0, 0), (174, 2, 87), (175, 5, 35),
    (176, 2, 88), (177, 3, 59), (178, 2, 89), (179, 0, 0), (180, 2, 90), (181, 0, 0), (182, 2, 91),
    (183, 3, 61), (184, 2, 92), (185, 5, 37), (186, 2, 93), (187, 11, 17), (188, 2, 94), (189, 3, 63),
    (190, 2, 95), (191, 0, 0), (192, 2, 96), (193, 0, 0), (194, 2, 97), (195, 3, 65), (196, 2, 98),
    (197, 0, 0), (198, 2, 99), (199, 0, 0), (200, 2, 100), (201, 3, 67), (202, 2, 101), (203, 7, 29),
    (204, 2, 102), (205, 5, 41), (206, 2, 103), (207, 3, 69), (208, 2, 104), (209, 11, 19), (210, 2, 105),
    (211, 0, 0), (212, 2, 106), (213, 3, 71), (214, 2, 107), (215, 5, 43), (216, 2, 108), (217, 7, 31),
    (218, 2, 109), (219, 3, 73), (220, 2, 110), (221, 13, 17), (222, 2, 111), (223, 0, 0), (224, 2, 112),
    (225, 3, 75), (226, 2, 113), (227, 0, 0), (228, 2, 114), (229, 0, 0), (230, 2, 115), (231, 3, 77),
    (232, 2, 116), (233, 0, 0), (234, 2, 117), (235, 5, 47), (236, 2, 118), (237, 3, 79), (238, 2, 119),
    (239, 0, 0), (240, 2, 120), (241, 0, 0), (242, 2, 121), (243, 3, 81), (244, 2, 122), (245, 5, 49),
    (246, 2, 123), (247, 13, 19), (248, 2, 124), (249, 3, 83), (250, 2, 125), (251, 0, 0), (252, 2, 126),
    (253, 11, 23), (254, 2, 127), (255, 3, 85), (256, 2, 128)]"

lemma small_factors_cover: "map fst small_factors = [2..<257]"
  by (simp add: small_factors_def)

lemma small_factors_hold:
  "list_all (\<lambda>(q, d, k). if d = 0 then q \<in> set small_primes else q = d * k \<and> 1 < d \<and> d < q) small_factors"
  by (simp add: small_factors_def small_primes_def)

lemma small_prime_divisor:
  assumes q: "2 \<le> q" "q < 257" and least: "\<And>d. 2 \<le> d \<Longrightarrow> d dvd q \<Longrightarrow> d = q"
  shows "q \<in> set small_primes"
proof (rule ccontr)
  assume no: "q \<notin> set small_primes"
  have "q \<in> set (map fst small_factors)" using q unfolding small_factors_cover set_upt by simp
  then obtain d k where "(q, d, k) \<in> set small_factors" by auto
  then have "if d = 0 then q \<in> set small_primes else q = d * k \<and> 1 < d \<and> d < q"
    using bspec [OF small_factors_hold [unfolded list_all_iff], of "(q, d, k)"] by simp
  with no least [of d] show False by (auto split: if_splits)
qed

lemma md_prime:
  assumes "i < 32"
  shows "is_prime (md i)"
proof (rule prime_trial)
  show "1 < md i" using md_range [OF assms] by simp
  have mem: "md i \<in> set (map unat MODULI)" using assms by auto
  then show "md i < 257 * 257" unfolding md_values by auto
  from mem obtain a b where "(md i, a, b) \<in> set md_certificates" unfolding certificates_cover [symmetric] by auto
  with certificates_hold have cert: "a * prod_list small_primes = 1 + b * md i" by auto
  show "\<forall>d\<in>{2..<257}. \<not> d dvd md i"
  proof (intro ballI notI)
    fix d assume d: "d \<in> {2..<257}" "d dvd md i"
    define q where "q = (LEAST e. 2 \<le> e \<and> e dvd d)"
    have q: "2 \<le> q \<and> q dvd d" unfolding q_def by (rule LeastI [of _ d]) (use d in simp)
    have "q \<in> set small_primes"
    proof (rule small_prime_divisor)
      show "2 \<le> q" using q by simp
      have "q \<le> d" using q d(1) by (auto intro: dvd_imp_le)
      then show "q < 257" using d(1) by simp
      show "e = q" if "2 \<le> e" "e dvd q" for e
      proof (rule antisym)
        show "e \<le> q" using that q by (auto intro: dvd_imp_le)
        show "q \<le> e" unfolding q_def using that q by (intro Least_le) (auto intro: dvd_trans)
      qed
    qed
    then have "q dvd prod_list small_primes" by (rule prod_list_dvd)
    then have "q dvd 1 + b * md i" using cert by (metis dvd_mult)
    moreover have "q dvd b * md i" using q d(2) by (auto intro: dvd_trans)
    ultimately have "q dvd 1" by (metis dvd_add_left_iff)
    with q show False by auto
  qed
qed

lemma md_coprime: "i < 32 \<Longrightarrow> j < 32 \<Longrightarrow> i \<noteq> j \<Longrightarrow> coprime (md i) (md j)"
  using md_prime [of i] md_prime [of j] prime_coprime [of "md j" "md i"] md_inj by (metis is_prime_def less_irrefl)

lemma md_not_dvd: "i < 32 \<Longrightarrow> j < 32 \<Longrightarrow> i \<noteq> j \<Longrightarrow> \<not> md j dvd md i"
  using md_prime [of i] md_prime [of j] md_inj by (auto simp: is_prime_def)

lemma unat_ucast_u32 [simp]: "unat (ucast (w :: u32) :: u64) = unat w"
  using unsigned_less [of w, where ?'a = nat] by (simp add: unsigned_ucast_eq take_bit_nat_eq_self)

lemma barrett_nat:
  fixes x m :: nat
  assumes m: "0 < m" and x: "x < S"
  defines "q \<equiv> x * (S div m) div S"
  shows "q * m \<le> x" "x < (q + 2) * m"
proof -
  have S: "0 < S" using x by simp
  have "q * S \<le> x * (S div m)" unfolding q_def by (simp add: div_times_less_eq_dividend)
  then have "q * S * m \<le> x * (S div m * m)" using mult_le_mono1 [of "q * S" "x * (S div m)" m] by (simp add: mult.assoc)
  also have "\<dots> \<le> x * S" by (simp add: div_times_less_eq_dividend)
  finally have "S * (q * m) \<le> S * x" by (simp add: ac_simps)
  then show "q * m \<le> x" using S by simp
  have "x * (S div m) < (q + 1) * S" unfolding q_def using S by (metis add.commute dividend_less_times_div mult.commute plus_1_eq_Suc mult_Suc)
  then have 1: "x * (S div m) * m < (q + 1) * S * m" using m by simp
  have "S < (S div m + 1) * m" using m by (simp add: dividend_less_div_times)
  then have "S * x \<le> (S div m + 1) * m * x" by simp
  also have "\<dots> = x * (S div m) * m + x * m" by (simp add: algebra_simps)
  also have "\<dots> < (q + 1) * S * m + S * m" using 1 x m by (intro add_less_le_mono) simp_all
  also have "\<dots> = S * ((q + 2) * m)" by (simp add: algebra_simps)
  finally show "x < (q + 2) * m" using S by simp
qed

lemma reduce_correct:
  assumes idx: "idx < 32" and x: "unat x < 2 ^ 34"
  shows "unat (reduce x idx) = unat x mod md idx"
proof -
  let ?m = "ucast (MODULI ! idx) :: u64" and ?B = "BARRETT ! idx"
  note range = md_range [OF idx]
  have B: "unat ?B = 2 ^ 34 div md idx" using idx by (simp add: BARRETT_def BARRETT_SHIFT_def unat_div)
  have "unat ?B \<le> 2 ^ 34 div 65536" unfolding B using range by (intro div_le_mono2) auto
  then have "unat x * unat ?B < 2 ^ 34 * 2 ^ 19" using x by (intro mult_strict_mono) simp_all
  then have xB: "unat (x * ?B) = unat x * unat ?B" by (simp add: unat_word_ariths)
  define q where "q = unat x * (2 ^ 34 div md idx) div 2 ^ 34"
  have q: "unat (drop_bit BARRETT_SHIFT (x * ?B)) = q"
    by (simp add: q_def BARRETT_SHIFT_def drop_bit_eq_div unat_div xB B)
  have bnd: "q * md idx \<le> unat x" "unat x < (q + 2) * md idx"
    unfolding q_def using barrett_nat [of "md idx" "unat x" "2 ^ 34"] x range by simp_all
  have "unat (drop_bit BARRETT_SHIFT (x * ?B) * ?m) = q * md idx"
    using bnd(1) x by (simp add: unat_word_ariths q)
  then have r: "unat (x - drop_bit BARRETT_SHIFT (x * ?B) * ?m) = unat x - q * md idx"
    using bnd(1) by (simp add: unat_sub word_le_nat_alt)
  define r where "r = x - drop_bit BARRETT_SHIFT (x * ?B) * ?m"
  have r': "unat r = unat x - q * md idx" "unat r < 2 * md idx" using r bnd by (simp_all add: r_def)
  have modr: "unat x mod md idx = unat r mod md idx" using bnd(1) by (metis r'(1) le_add_diff_inverse mod_mult_self3)
  define s where "s = (if r \<ge> ?m then r - ?m else r)"
  have "unat s = (if md idx \<le> unat r then unat r - md idx else unat r)" by (simp add: s_def word_le_nat_alt unat_sub)
  then have s: "unat s < md idx" "unat s = unat r mod md idx" using r'(2) by (auto simp: le_mod_geq)
  then have "(if s \<ge> ?m then s - ?m else s) = s" by (simp add: word_le_nat_alt)
  then have "reduce x idx = ucast s" unfolding reduce_def Let_def r_def [symmetric] s_def [symmetric] by simp
  moreover have "unat (ucast s :: u32) = unat s" using s(1) range by (simp add: unsigned_ucast_eq take_bit_nat_eq_self)
  ultimately show ?thesis using s modr by simp
qed

lemma reduce_less: "idx < 32 \<Longrightarrow> unat x < 2 ^ 34 \<Longrightarrow> unat (reduce x idx) < md idx"
  using md_range [of idx] by (simp add: reduce_correct)

section \<open>Inverses\<close>

lemma unat_mult_u32: "unat a < 2 ^ 32 \<Longrightarrow> unat b < 2 ^ 32 \<Longrightarrow> unat (a * b) = unat a * unat b" for a b :: u64
proof -
  assume "unat a < 2 ^ 32" "unat b < 2 ^ 32"
  then have "unat a * unat b < 2 ^ 32 * 2 ^ 32" by (intro mult_strict_mono) simp_all
  then show ?thesis by (simp add: unat_word_ariths)
qed

lemma mult_power_mod: "x * (y mod m) ^ n mod m = x * y ^ n mod m" for x y m :: nat
  by (metis mod_mult_right_eq power_mod)

lemma mod_inv_loop_correct:
  assumes "unat result < unat m" "unat base < unat m" "unat m < 2 ^ 32"
  shows "unat (mod_inv_loop result base exp m) = unat result * unat base ^ unat exp mod unat m"
  using assms
proof (induction result base exp m rule: mod_inv_loop.induct)
  case (1 result base exp m)
  show ?case
  proof (cases "exp > 0")
    case False
    then have "exp = 0" by (simp add: word_gt_0)
    with 1 show ?thesis by (simp add: mod_inv_loop.simps)
  next
    case True
    let ?r = "if exp AND 1 = 1 then result * base mod m else result" and ?b = "base * base mod m"
    have m: "0 < unat m" using 1(2) by simp
    have mults: "unat (result * base) = unat result * unat base" "unat (base * base) = unat base * unat base"
      using 1(2-4) by (auto intro!: unat_mult_u32)
    have b: "unat ?b = unat base ^ 2 mod unat m" by (simp add: unat_mod mults power2_eq_square)
    have odd: "(exp AND 1 = 1) = odd (unat exp)"
      by (simp add: and_one_eq odd_iff_mod_2_eq_one word_unat_eq_iff unat_mod flip: even_iff_mod_2_eq_zero)
    have r: "unat ?r = (if odd (unat exp) then unat result * unat base mod unat m else unat result)"
      unfolding odd by (simp add: unat_mod mults)
    have "unat (mod_inv_loop ?r ?b (drop_bit 1 exp) m) = unat ?r * unat ?b ^ unat (drop_bit 1 exp) mod unat m"
      using True 1(4) m 1(2) r b by (intro "1.IH") simp_all
    also have "\<dots> = unat ?r * (unat base ^ 2) ^ (unat exp div 2) mod unat m"
      by (simp only: b unat_halve mult_power_mod)
    also have "\<dots> = unat result * unat base ^ unat exp mod unat m"
    proof (cases "odd (unat exp)")
      case True
      then have "unat base ^ unat exp = unat base * (unat base ^ 2) ^ (unat exp div 2)"
        by (metis odd_two_times_div_two_succ power_add power_mult power_one_right add.commute)
      with True show ?thesis unfolding r by (simp add: mod_mult_left_eq mult.assoc)
    next
      case False
      then show ?thesis unfolding r by (simp flip: power_mult)
    qed
    finally show ?thesis using True by (simp add: mod_inv_loop.simps [of result])
  qed
qed

lemma mod_inv_correct:
  assumes m: "is_prime (unat m)" and a: "\<not> unat m dvd unat a"
  shows "unat a * unat (mod_inv a m) mod unat m = 1" "unat (mod_inv a m) < unat m"
proof -
  have m1: "1 < unat m" using m by (simp add: is_prime_def)
  have m32: "unat m < 2 ^ 32" using unsigned_less [of m, where ?'a = nat] by simp
  have exp: "unat (m - 2) = unat m - 2" using m1 by (intro unat_sub [of 2 m, simplified]) (simp add: word_le_nat_alt)
  have "unat (mod_inv_loop 1 (ucast (a mod m)) (m - 2) (ucast m)) = (unat a mod unat m) ^ (unat m - 2) mod unat m"
    using mod_inv_loop_correct [of 1 "ucast m" "ucast (a mod m)" "m - 2"] m1 m32 by (simp add: unat_mod exp)
  then have inv: "unat (mod_inv a m) = unat a ^ (unat m - 2) mod unat m"
    using m32 m1 by (simp add: mod_inv_def unsigned_ucast_eq take_bit_nat_eq_self power_mod less_trans [OF mod_less_divisor])
  have "unat a * unat (mod_inv a m) mod unat m = unat a ^ Suc (unat m - 2) mod unat m" by (simp add: inv mod_mult_right_eq)
  also have "Suc (unat m - 2) = unat m - 1" using m1 by simp
  finally show "unat a * unat (mod_inv a m) mod unat m = 1" using fermat [OF m a] by simp
  show "unat (mod_inv a m) < unat m" using m1 by (simp add: inv)
qed

text \<open>
  C33. Barrett reduction is exact: for every value below \<open>2 ^ 34\<close> and every modulus of the table, the
  64-bit product does not overflow, the estimate is never too large and at most one multiple of the
  modulus short, and the result is the remainder.
\<close>

theorem barrett_exact:
  assumes "idx < length MODULI" "unat x < 2 ^ 34"
  shows "unat (reduce x idx) = unat x mod unat (MODULI ! idx) \<and> unat x * unat (BARRETT ! idx) < 2 ^ 64 \<and>
    unat x * unat (BARRETT ! idx) div 2 ^ 34 * unat (MODULI ! idx) \<le> unat x \<and>
    unat x < (unat x * unat (BARRETT ! idx) div 2 ^ 34 + 2) * unat (MODULI ! idx)"
proof -
  have idx: "idx < 32" using assms(1) by simp
  have B: "unat (BARRETT ! idx) = 2 ^ 34 div md idx" using idx by (simp add: BARRETT_def BARRETT_SHIFT_def unat_div)
  have "unat x * unat (BARRETT ! idx) < 2 ^ 64"
  proof -
    have "2 ^ 34 div md idx \<le> 2 ^ 34 div 65536" using md_range [OF idx] by (intro div_le_mono2) simp_all
    then have "unat x * (2 ^ 34 div md idx) < 2 ^ 34 * 2 ^ 30" using assms(2) by (intro mult_strict_mono) simp_all
    then show ?thesis by (simp add: B)
  qed
  with reduce_correct [OF idx assms(2)] barrett_nat [of "md idx" "unat x" "2 ^ 34"] assms(2) md_range [OF idx]
  show ?thesis by (simp add: B)
qed

theorem barrett_exact_witness:
  "unat (reduce 17179869183 31) = 17179869183 mod 65827"
  using barrett_exact [of 31 17179869183] by (simp add: MODULI_def)

end
