(* ===== verification/Residue_Fec.thy ===== *)
theory Residue_Fec
  imports Residue_Moduli
begin

text \<open>
  The residue erasure code of \<^verbatim>\<open>crates/subetha-cxc/src/residue_fec.rs\<close>: Garner's mixed-radix
  digits, the code over one column of 16-bit chunks and the code striped over whole packets, on the
  arithmetic of \<^verbatim>\<open>Residue_Moduli\<close>. The value of a column is the number below the product of the first \<open>k\<close>
  moduli whose residues are the chunks.

  An index or slice out of range panics in the code; the operations that can reach one return \<open>None\<close>
  there.
\<close>

section \<open>The code over one column\<close>

record ResidueCode =
  rc_k :: nat
  rc_n :: nat
  rc_inv :: "u32 list"
  rc_residual :: "u32 list"

definition rc_tables :: "nat \<Rightarrow> u32 list \<times> u32 list" where
  "rc_tables n =
     fold (\<lambda>i. fold (\<lambda>j (inv, residual).
         let residual = residual[i * n + j := MODULI ! i mod MODULI ! j];
             inv = (if i \<noteq> j then inv[i * n + j := mod_inv (MODULI ! i mod MODULI ! j) (MODULI ! j)] else inv)
         in (inv, residual)) [0..<n]) [0..<n]
       (replicate (n * n) 0, replicate (n * n) 0)"

definition rc_new :: "nat \<Rightarrow> nat \<Rightarrow> ResidueError + ResidueCode" where
  "rc_new k r =
     (let n = k + r
      in if k = 0 \<or> n > MAX_MODULI then Inl TooManyModuli
         else let (inv, residual) = rc_tables n
              in Inr \<lparr>rc_k = k, rc_n = n, rc_inv = inv, rc_residual = residual\<rparr>)"

definition redundancy :: "ResidueCode \<Rightarrow> nat" where
  "redundancy code = rc_n code - rc_k code"

text \<open>One step of Garner's inner loop: take out an earlier digit and divide by its modulus.\<close>

definition garner_step :: "ResidueCode \<Rightarrow> (nat \<times> u32) list \<Rightarrow> u32 list \<Rightarrow> nat \<Rightarrow> nat \<Rightarrow> u32 \<Rightarrow> u32" where
  "garner_step code have digits idx earlier v =
     (let m = MODULI ! idx;
          prev_idx = fst (have ! earlier);
          d = reduce (ucast (digits ! earlier)) idx;
          v = v + (m - d);
          v = (if v \<ge> m then v - m else v)
      in reduce (ucast v * ucast (rc_inv code ! (prev_idx * rc_n code + idx))) idx)"

fun garner_slots :: "ResidueCode \<Rightarrow> (nat \<times> u32) list \<Rightarrow> (nat \<times> nat \<times> u32) list \<Rightarrow> u32 list \<Rightarrow> ResidueError + u32 list" where
  "garner_slots code have [] digits = Inr digits"
| "garner_slots code have ((slot, idx, residue) # rest) digits =
     (if idx \<ge> rc_n code then Inl BadResidueIndex
      else
        let v = reduce (ucast residue) idx;
            v = fold (garner_step code have digits idx) [0..<slot] v
        in garner_slots code have rest (digits[slot := v]))"

definition mixed_radix :: "ResidueCode \<Rightarrow> (nat \<times> u32) list \<Rightarrow> u32 list \<Rightarrow> ResidueError + u32 list" where
  "mixed_radix code have digits =
     (if length digits \<noteq> length have then Inl LengthMismatch
      else garner_slots code have (enumerate 0 have) digits)"

definition horner_step :: "ResidueCode \<Rightarrow> (nat \<times> u32) list \<Rightarrow> u32 list \<Rightarrow> nat \<Rightarrow> nat \<Rightarrow> u32 \<Rightarrow> u32" where
  "horner_step code have digits target slot acc =
     (let t = MODULI ! target;
          acc = acc + reduce (ucast (digits ! slot)) target;
          acc = (if acc \<ge> t then acc - t else acc)
      in if slot > 0 then
           let step = rc_residual code ! (fst (have ! (slot - 1)) * rc_n code + target)
           in reduce (ucast acc * ucast step) target
         else acc)"

definition evaluate_mod :: "ResidueCode \<Rightarrow> (nat \<times> u32) list \<Rightarrow> u32 list \<Rightarrow> nat \<Rightarrow> u32" where
  "evaluate_mod code have digits target = fold (horner_step code have digits target) (rev [0..<length digits]) 0"

text \<open>The caller's buffer \<open>repair\<close> is overwritten; a refused call leaves it as it was.\<close>

definition rc_encode :: "ResidueCode \<Rightarrow> u16 list \<Rightarrow> u32 list \<Rightarrow> ResidueError + u32 list" where
  "rc_encode code chunks repair =
     (if length chunks \<noteq> rc_k code \<or> length repair \<noteq> redundancy code then Inl LengthMismatch
      else
        let have = fold (\<lambda>i have. have[i := (i, ucast (chunks ! i))]) [0..<rc_k code] (replicate MAX_MODULI (0, 0));
            have = take (rc_k code) have;
            digits = take (rc_k code) (replicate MAX_MODULI 0)
        in case mixed_radix code have digits of
             Inl e \<Rightarrow> Inl e
           | Inr digits \<Rightarrow>
               Inr (fold (\<lambda>slot repair. repair[slot := evaluate_mod code have digits (rc_k code + slot)])
                  [0..<length repair] repair))"

fun place_residues :: "ResidueCode \<Rightarrow> (nat \<times> u32) list \<Rightarrow> u32 list \<times> u32 \<Rightarrow> ResidueError + (u32 list \<times> u32)" where
  "place_residues code [] (residues, present) = Inr (residues, present)"
| "place_residues code ((idx, residue) # rest) (residues, present) =
     (if idx \<ge> rc_n code then Inl BadResidueIndex
      else if present AND push_bit idx 1 = 0 then
        place_residues code rest (residues[idx := residue], present OR push_bit idx 1)
      else place_residues code rest (residues, present))"

fun take_residues :: "nat \<Rightarrow> u32 \<Rightarrow> (nat \<times> u32) list \<Rightarrow> (nat \<times> u32) list \<Rightarrow> nat \<Rightarrow> (nat \<times> u32) list" where
  "take_residues k present [] used taken = used"
| "take_residues k present ((idx, residue) # rest) used taken =
     (if taken = k then used
      else if present AND push_bit idx 1 \<noteq> 0 then take_residues k present rest (used[taken := (idx, residue)]) (taken + 1)
      else take_residues k present rest used taken)"

definition rc_decode :: "ResidueCode \<Rightarrow> (nat \<times> u32) list \<Rightarrow> u16 list \<Rightarrow> ResidueError + u16 list" where
  "rc_decode code have out =
     (if length out \<noteq> rc_k code then Inl LengthMismatch
      else if length have < rc_k code then Inl NotEnoughResidues
      else case place_residues code have (replicate MAX_MODULI 0, 0) of
          Inl e \<Rightarrow> Inl e
        | Inr (residues, present) \<Rightarrow>
            if count_ones_u32 present < rc_k code then Inl NotEnoughResidues
            else
              let used = take_residues (rc_k code) present (take (rc_n code) (enumerate 0 residues))
                    (replicate MAX_MODULI (0, 0)) 0;
                  used = take (rc_k code) used;
                  digits = take (rc_k code) (replicate MAX_MODULI 0)
              in case mixed_radix code used digits of
                   Inl e \<Rightarrow> Inl e
                 | Inr digits \<Rightarrow>
                     Inr (fold (\<lambda>i out. out[i :=
                         (case find (\<lambda>(idx, _). idx = i) used of
                            Some (_, residue) \<Rightarrow> ucast residue
                          | None \<Rightarrow> ucast (evaluate_mod code used digits i))]) [0..<length out] out))"

section \<open>The code striped over packets\<close>

definition OVERFLOW_COUNT_BYTES :: nat where "OVERFLOW_COUNT_BYTES = 2"

text \<open>Writing the two bytes of a column at offset \<open>at\<close>.\<close>

definition put_column :: "nat \<Rightarrow> u16 \<Rightarrow> bytes \<Rightarrow> bytes" where
  "put_column at w body = body[at := to_le_u16 w ! 0, at + 1 := to_le_u16 w ! 1]"

fun encode_columns ::
  "ResidueCode \<Rightarrow> bytes list \<Rightarrow> nat list \<Rightarrow> u32 list \<Rightarrow> bytes list \<times> u16 list list \<Rightarrow> ResidueError + (bytes list \<times> u16 list list)" where
  "encode_columns code sources [] residues bo = Inr bo"
| "encode_columns code sources (col # cols) residues bo =
     (let at = col * 2;
          chunks = map (\<lambda>src. from_le_u16 (src ! at) (src ! (at + 1))) sources
      in case rc_encode code chunks residues of
           Inl e \<Rightarrow> Inl e
         | Inr residues \<Rightarrow>
             encode_columns code sources cols residues
               (fold (\<lambda>j (bodies, overflows).
                  (bodies[j := put_column at (ucast (residues ! j)) (bodies ! j)],
                   if residues ! j > 65535 then overflows[j := overflows ! j @ [of_nat col]] else overflows))
                  [0..<redundancy code] bo))"

definition seal_repair :: "bytes \<times> u16 list \<Rightarrow> bytes" where
  "seal_repair bo = (case bo of (body, overflow) \<Rightarrow>
     body @ to_le_u16 (of_nat (length overflow)) @ concat (map to_le_u16 overflow))"

text \<open>\<open>None\<close> is the panic on an empty group, which a code with \<open>k > 0\<close> never reaches.\<close>

definition encode_packets :: "ResidueCode \<Rightarrow> bytes list \<Rightarrow> (ResidueError + bytes list) option" where
  "encode_packets code sources =
     (let k = rc_k code; r = redundancy code
      in if length sources \<noteq> k then Some (Inl LengthMismatch)
         else case sources of
             [] \<Rightarrow> None
           | first # _ \<Rightarrow>
               let len = length first
               in if odd len \<or> (\<exists>s\<in>set sources. length s \<noteq> len) then Some (Inl LengthMismatch)
                  else let columns = len div 2
                       in case encode_columns code sources [0..<columns] (replicate r 0)
                            (replicate r (replicate len 0), replicate r []) of
                            Inl e \<Rightarrow> Some (Inl e)
                          | Inr (bodies, overflows) \<Rightarrow> Some (Inr (map seal_repair (zip bodies overflows))))"

fun read_overflows :: "nat \<Rightarrow> nat \<Rightarrow> (nat \<times> bytes) list \<Rightarrow> ResidueError + (nat \<times> u16 list) list" where
  "read_overflows k len [] = Inr []"
| "read_overflows k len ((idx, packet) # rest) =
     (if idx < k then read_overflows k len rest
      else if length packet < len + OVERFLOW_COUNT_BYTES then Inl LengthMismatch
      else
        let count = unat (from_le_u16 (packet ! len) (packet ! (len + 1)));
            need = len + OVERFLOW_COUNT_BYTES + count * 2
        in if length packet < need then Inl LengthMismatch
           else
             let cols = map (\<lambda>c. let at = len + OVERFLOW_COUNT_BYTES + c * 2
                   in from_le_u16 (packet ! at) (packet ! (at + 1))) [0..<count]
             in case read_overflows k len rest of Inl e \<Rightarrow> Inl e | Inr sets \<Rightarrow> Inr ((idx, cols) # sets))"

fun gather_column :: "nat \<Rightarrow> nat \<Rightarrow> (nat \<times> u16 list) list \<Rightarrow> (nat \<times> bytes) list \<Rightarrow> (nat \<times> u32) list option" where
  "gather_column k col sets [] = Some []"
| "gather_column k col sets ((idx, packet) # rest) =
     (let at = col * 2
      in if \<not> at + 1 < length packet then None
         else
           let low = ucast (from_le_u16 (packet ! at) (packet ! (at + 1))) :: u32;
               v = (if idx < k then low
                    else
                      let overflowed = (case find (\<lambda>(i, _). i = idx) sets of
                            Some (_, cols) \<Rightarrow> of_nat col \<in> set cols | None \<Rightarrow> False)
                      in if overflowed then low + push_bit 16 1 else low)
           in map_option (Cons (idx, v)) (gather_column k col sets rest))"

fun decode_columns ::
  "ResidueCode \<Rightarrow> (nat \<times> u16 list) list \<Rightarrow> (nat \<times> bytes) list \<Rightarrow> nat list \<Rightarrow> u16 list \<Rightarrow> bytes list \<Rightarrow>
    (ResidueError + bytes list) option" where
  "decode_columns code sets have [] recovered out = Some (Inr out)"
| "decode_columns code sets have (col # cols) recovered out =
     (case gather_column (rc_k code) col sets have of
        None \<Rightarrow> None
      | Some column \<Rightarrow>
          (case rc_decode code column recovered of
             Inl e \<Rightarrow> Some (Inl e)
           | Inr recovered \<Rightarrow>
               decode_columns code sets have cols recovered
                 (fold (\<lambda>i out. out[i := put_column (col * 2) (recovered ! i) (out ! i)]) [0..<length out] out)))"

definition decode_packets :: "ResidueCode \<Rightarrow> (nat \<times> bytes) list \<Rightarrow> nat \<Rightarrow> bytes list \<Rightarrow> (ResidueError + bytes list) option" where
  "decode_packets code have len out =
     (let k = rc_k code
      in if length out \<noteq> k \<or> odd len then Some (Inl LengthMismatch)
         else if length have < k then Some (Inl NotEnoughResidues)
         else case read_overflows k len have of
             Inl e \<Rightarrow> Some (Inl e)
           | Inr sets \<Rightarrow>
               decode_columns code sets have [0..<len div 2] (replicate k 0) (map (\<lambda>_. replicate len 0) out))"

section \<open>The tables of a code\<close>

definition rc_ok :: "ResidueCode \<Rightarrow> bool" where
  "rc_ok code \<longleftrightarrow> 0 < rc_k code \<and> rc_k code \<le> rc_n code \<and> rc_n code \<le> 32 \<and>
     (\<forall>i<rc_n code. \<forall>j<rc_n code. unat (rc_residual code ! (i * rc_n code + j)) = md i mod md j \<and>
        (i \<noteq> j \<longrightarrow> md i * unat (rc_inv code ! (i * rc_n code + j)) mod md j = 1 \<and>
           unat (rc_inv code ! (i * rc_n code + j)) < md j))"

lemma rc_tables_correct:
  assumes n: "n \<le> 32" and ij: "i < n" "j < n" and t: "rc_tables n = (iv, residual)"
  shows "residual ! (i * n + j) = MODULI ! i mod MODULI ! j"
    "i \<noteq> j \<Longrightarrow> iv ! (i * n + j) = mod_inv (MODULI ! i mod MODULI ! j) (MODULI ! j)"
proof -
  let ?pos = "\<lambda>(i, j). i * n + j" and ?ps = "List.product [0..<n] [0..<n]"
  let ?inv = "\<lambda>(i, j). mod_inv (MODULI ! i mod MODULI ! j) (MODULI ! j)" and ?res = "\<lambda>(i, j). MODULI ! i mod MODULI ! j"
  have "rc_tables n = fold (\<lambda>p (iv, residual). (if (\<lambda>(i, j). i \<noteq> j) p then iv[?pos p := ?inv p] else iv,
      if True then residual[?pos p := ?res p] else residual)) ?ps (replicate (n * n) 0, replicate (n * n) 0)"
    unfolding rc_tables_def fold_nested Let_def by (rule fold_cong) auto
  then have tab: "iv = fold (\<lambda>p a. if (\<lambda>(i, j). i \<noteq> j) p then a[?pos p := ?inv p] else a) ?ps (replicate (n * n) 0)"
    "residual = fold (\<lambda>p a. if True then a[?pos p := ?res p] else a) ?ps (replicate (n * n) 0)"
    using t unfolding fold_pair by simp_all
  have inj: "inj_on ?pos (insert (i, j) (set ?ps))" using ij by (auto simp: inj_on_def row_major_eq_iff)
  have mem: "(i, j) \<in> set ?ps" "?pos (i, j) < n * n" using ij row_major_less [of i n j n] by auto
  show "residual ! (i * n + j) = MODULI ! i mod MODULI ! j"
    using fold_guarded_stores [OF inj, of "replicate (n * n) 0" "\<lambda>_. True" ?res] mem unfolding tab by simp
  show "iv ! (i * n + j) = mod_inv (MODULI ! i mod MODULI ! j) (MODULI ! j)" if "i \<noteq> j"
    using fold_guarded_stores [OF inj, of "replicate (n * n) 0" "\<lambda>(i, j). i \<noteq> j" ?inv] mem that unfolding tab by simp
qed

lemma rc_new_ok:
  assumes "rc_new k r = Inr code"
  shows "rc_ok code" "rc_k code = k" "rc_n code = k + r" "redundancy code = r"
proof -
  obtain iv residual where t: "rc_tables (k + r) = (iv, residual)" by fastforce
  from assms t have k: "0 < k" "k + r \<le> 32" and code: "code = \<lparr>rc_k = k, rc_n = k + r, rc_inv = iv, rc_residual = residual\<rparr>"
    by (auto simp: rc_new_def Let_def split: if_splits)
  have "unat (rc_residual code ! (i * rc_n code + j)) = md i mod md j \<and>
      (i \<noteq> j \<longrightarrow> md i * unat (rc_inv code ! (i * rc_n code + j)) mod md j = 1 \<and> unat (rc_inv code ! (i * rc_n code + j)) < md j)"
    if ij: "i < rc_n code" "j < rc_n code" for i j
  proof (intro conjI impI)
    note tab = rc_tables_correct [OF k(2) _ _ t, of i j]
    have lt: "i < k + r" "j < k + r" "i < 32" "j < 32" using ij k by (auto simp: code)
    show "unat (rc_residual code ! (i * rc_n code + j)) = md i mod md j" using tab(1) lt by (simp add: code unat_mod)
    assume ne: "i \<noteq> j"
    let ?a = "MODULI ! i mod MODULI ! j"
    have iv: "rc_inv code ! (i * rc_n code + j) = mod_inv ?a (MODULI ! j)" using tab(2) lt ne by (simp add: code)
    have "\<not> md j dvd unat ?a" using md_not_dvd [OF lt(3,4) ne] by (simp add: unat_mod dvd_mod_iff)
    from mod_inv_correct [OF md_prime [OF lt(4)] this]
    show "md i * unat (rc_inv code ! (i * rc_n code + j)) mod md j = 1" "unat (rc_inv code ! (i * rc_n code + j)) < md j"
      unfolding iv by (simp_all add: unat_mod mod_mult_left_eq)
  qed
  then show "rc_ok code" using k by (simp add: rc_ok_def code)
  show "rc_k code = k" "rc_n code = k + r" "redundancy code = r" by (simp_all add: code redundancy_def)
qed

section \<open>Mixed-radix numbers\<close>

text \<open>The value of mixed-radix digits, each with its modulus, least significant first.\<close>

fun mixval :: "(nat \<times> nat) list \<Rightarrow> nat" where
  "mixval [] = 0"
| "mixval ((d, m) # ds) = d + m * mixval ds"

lemma mixval_append: "mixval (xs @ ys) = mixval xs + prod_list (map snd xs) * mixval ys"
  by (induction xs rule: mixval.induct) (simp_all add: algebra_simps)

lemma mixval_bound: "\<forall>(d, m)\<in>set xs. d < m \<Longrightarrow> mixval xs < prod_list (map snd xs)"
proof (induction xs rule: mixval.induct)
  case (2 d m ds)
  then have "mixval ds + 1 \<le> prod_list (map snd ds)" by auto
  then have "m * (mixval ds + 1) \<le> m * prod_list (map snd ds)" by (rule mult_le_mono2)
  moreover have "d < m" using 2 by simp
  ultimately show ?case by (simp add: distrib_left)
qed simp

abbreviation digit_list :: "u32 list \<Rightarrow> (nat \<times> u32) list \<Rightarrow> (nat \<times> nat) list" where
  "digit_list ds hs \<equiv> zip (map unat ds) (map (\<lambda>h. md (fst h)) hs)"

lemma code_idx: "rc_ok code \<Longrightarrow> i < rc_n code \<Longrightarrow> i < 32"
  by (simp add: rc_ok_def)

lemma unat_u17: "unat w < 131072 \<Longrightarrow> unat (ucast w * ucast v :: u64) = unat w * unat v" for w v :: u32
  using unsigned_less [of v, where ?'a = nat] unsigned_less [of w, where ?'a = nat]
  by (simp add: unat_mult_u32)

lemma garner_step_correct:
  assumes code: "rc_ok code" and idx: "idx < rc_n code" "fst (hs ! e) < rc_n code" "fst (hs ! e) \<noteq> idx"
    and v: "unat v < md idx"
  shows "unat (garner_step code hs ds idx e v) < md idx"
    "(unat (garner_step code hs ds idx e v) * md (fst (hs ! e)) + unat (ds ! e)) mod md idx = unat v"
proof -
  let ?m = "md idx" and ?p = "fst (hs ! e)"
  have i: "idx < 32" using code_idx [OF code idx(1)] .
  note range = md_range [OF i]
  define d where "d = reduce (ucast (ds ! e)) idx"
  have d: "unat d = unat (ds ! e) mod ?m" "unat d < ?m"
    using reduce_correct [OF i, of "ucast (ds ! e)"] unsigned_less [of "ds ! e", where ?'a = nat] range by (auto simp: d_def)
  define u where "u = v + (MODULI ! idx - d)"
  define w where "w = (if u \<ge> MODULI ! idx then u - MODULI ! idx else u)"
  have md: "unat (MODULI ! idx - d) = ?m - unat d" using d(2) by (intro unat_sub) (simp add: word_le_nat_alt)
  then have sum: "unat u = unat v + (?m - unat d)" using v range d(2) by (simp add: u_def unat_word_ariths)
  have w: "unat w = (unat v + (?m - unat d)) mod ?m" "unat w < ?m"
  proof -
    have "unat w = (if ?m \<le> unat v + (?m - unat d) then unat v + (?m - unat d) - ?m else unat v + (?m - unat d))"
      using sum by (simp add: w_def unat_sub word_le_nat_alt)
    moreover have "unat v + (?m - unat d) < 2 * ?m" using v by simp
    ultimately show "unat w = (unat v + (?m - unat d)) mod ?m" by (simp add: le_mod_geq)
    then show "unat w < ?m" using range by simp
  qed
  define iv where "iv = rc_inv code ! (?p * rc_n code + idx)"
  have iv: "md ?p * unat iv mod ?m = 1" "unat iv < ?m" using code idx by (simp_all add: rc_ok_def iv_def)
  have prod: "unat (ucast w * ucast iv :: u64) = unat w * unat iv" using w(2) range by (simp add: unat_u17)
  have "unat w * unat iv < 2 ^ 17 * 2 ^ 17" using w(2) iv(2) range by (intro mult_strict_mono) simp_all
  then have red: "unat (reduce (ucast w * ucast iv) idx) = unat w * unat iv mod ?m" using reduce_correct [OF i] prod by simp
  have step: "garner_step code hs ds idx e v = reduce (ucast w * ucast iv) idx"
    unfolding garner_step_def Let_def w_def u_def iv_def d_def by (rule refl)
  show "unat (garner_step code hs ds idx e v) < ?m" using red range by (simp add: step)
  have "unat w * unat iv mod ?m * md ?p mod ?m = unat w * (md ?p * unat iv mod ?m) mod ?m"
    by (simp add: mod_simps ac_simps)
  then have "unat w * unat iv mod ?m * md ?p mod ?m = unat w mod ?m" using iv(1) by simp
  then have "(unat w * unat iv mod ?m * md ?p + unat (ds ! e)) mod ?m = (unat w + unat (ds ! e)) mod ?m"
    by (metis mod_add_left_eq)
  also have "\<dots> = (unat v + (?m - unat d) + unat d) mod ?m" unfolding w(1) d(1) by (simp add: mod_simps)
  also have "\<dots> = unat v" using d(2) v by simp
  finally show "(unat (garner_step code hs ds idx e v) * md ?p + unat (ds ! e)) mod ?m = unat v" by (simp add: step red)
qed

lemma digit_list_take:
  assumes "e < length ds" "e < length hs"
  shows "take (Suc e) (digit_list ds hs) = take e (digit_list ds hs) @ [(unat (ds ! e), md (fst (hs ! e)))]"
  using assms by (simp add: take_Suc_conv_app_nth)

lemma mod_mix: "a mod m = b \<Longrightarrow> (x + p * a) mod m = (x + p * b) mod m" for a b m p x :: nat
  by (metis mod_add_right_eq mod_mult_right_eq)

lemma mod_add_dvd: "m dvd p \<Longrightarrow> (x + p * y) mod m = x mod m" for m p x y :: nat
  by (auto simp: mult.assoc)

lemma garner_fold_correct:
  assumes code: "rc_ok code" and idx: "idx < rc_n code" and e: "e \<le> length hs" "e \<le> length ds"
    and hs: "\<forall>t<e. fst (hs ! t) < rc_n code \<and> fst (hs ! t) \<noteq> idx" and v: "unat v < md idx"
  shows "unat (fold (garner_step code hs ds idx) [0..<e] v) < md idx \<and>
    mixval (take e (digit_list ds hs) @ [(unat (fold (garner_step code hs ds idx) [0..<e] v), 1)]) mod md idx = unat v"
  using e hs
proof (induction e)
  case 0
  then show ?case using v by simp
next
  case (Suc e)
  let ?v = "fold (garner_step code hs ds idx) [0..<e] v" and ?p = "take e (digit_list ds hs)"
  let ?w = "garner_step code hs ds idx e ?v"
  have IH: "unat ?v < md idx" "mixval (?p @ [(unat ?v, 1)]) mod md idx = unat v" using Suc by simp_all
  have st: "unat ?w < md idx" "(unat ?w * md (fst (hs ! e)) + unat (ds ! e)) mod md idx = unat ?v"
    using garner_step_correct [OF code idx _ _ IH(1), of hs e ds] Suc.prems(3) by simp_all
  have "mixval (take (Suc e) (digit_list ds hs) @ [(unat ?w, 1)]) =
      mixval ?p + prod_list (map snd ?p) * (unat ?w * md (fst (hs ! e)) + unat (ds ! e))"
    using Suc.prems by (simp add: digit_list_take mixval_append algebra_simps)
  also have "\<dots> mod md idx = (mixval ?p + prod_list (map snd ?p) * unat ?v) mod md idx"
    by (rule mod_mix [OF st(2)])
  also have "\<dots> = unat v" using IH(2) by (simp add: mixval_append)
  finally show ?case using st(1) by simp
qed

text \<open>The digits so far: each below its modulus, and together right at every residue seen.\<close>

definition digits_ok :: "(nat \<times> u32) list \<Rightarrow> u32 list \<Rightarrow> nat \<Rightarrow> bool" where
  "digits_ok hs ds s \<longleftrightarrow> (\<forall>t < s. unat (ds ! t) < md (fst (hs ! t)) \<and>
     mixval (take (Suc t) (digit_list ds hs)) mod md (fst (hs ! t)) = unat (snd (hs ! t)) mod md (fst (hs ! t)))"

lemma garner_slots_correct:
  assumes code: "rc_ok code" and hs: "\<forall>h\<in>set hs. fst h < rc_n code" "distinct (map fst hs)"
  shows "length ds = length hs \<Longrightarrow> s \<le> length hs \<Longrightarrow> digits_ok hs ds s \<Longrightarrow>
    \<exists>ds'. garner_slots code hs (drop s (enumerate 0 hs)) ds = Inr ds' \<and> length ds' = length hs \<and> digits_ok hs ds' (length hs)"
proof (induction "length hs - s" arbitrary: s ds)
  case 0
  then show ?case by simp
next
  case (Suc n)
  then have s: "s < length hs" by simp
  obtain idx residue where h: "hs ! s = (idx, residue)" by fastforce
  have idx: "idx < rc_n code" using hs(1) s h by (metis fst_conv nth_mem)
  note i = code_idx [OF code idx]
  have d: "drop s (enumerate 0 hs) = (s, idx, residue) # drop (Suc s) (enumerate 0 hs)"
    using s h by (simp add: Cons_nth_drop_Suc [symmetric] nth_enumerate_eq)
  let ?r = "reduce (ucast residue) idx" and ?v = "fold (garner_step code hs ds idx) [0..<s] (reduce (ucast residue) idx)"
  have r: "unat ?r = unat residue mod md idx"
    using reduce_correct [OF i, of "ucast residue"] unsigned_less [of residue, where ?'a = nat] by simp
  then have rl: "unat ?r < md idx" using md_range [OF i] by simp
  have others: "fst (hs ! t) < rc_n code \<and> fst (hs ! t) \<noteq> idx" if "t < s" for t
    using hs s that h nth_eq_iff_index_eq [OF hs(2), of t s] by (auto simp: all_set_conv_all_nth)
  from garner_fold_correct [OF code idx _ _ _ rl, of s hs ds] others s Suc.prems(1)
  have v: "unat ?v < md idx" "mixval (take s (digit_list ds hs) @ [(unat ?v, 1)]) mod md idx = unat ?r" by auto
  have tk: "take (Suc t) (digit_list (ds[s := ?v]) hs) =
      (if t < s then take (Suc t) (digit_list ds hs) else take s (digit_list ds hs) @ [(unat ?v, md idx)])" if "t \<le> s" for t
    using that s Suc.prems(1) h digit_list_take [of s "ds[s := ?v]" hs]
    by (cases "t < s") (auto simp: take_zip take_map)
  have "digits_ok hs (ds[s := ?v]) (Suc s)"
    unfolding digits_ok_def
  proof (intro allI impI)
    fix t assume "t < Suc s"
    show "unat (ds[s := ?v] ! t) < md (fst (hs ! t)) \<and> mixval (take (Suc t) (digit_list (ds[s := ?v]) hs)) mod md (fst (hs ! t)) =
        unat (snd (hs ! t)) mod md (fst (hs ! t))"
    proof (cases "t = s")
      case True
      have "mixval (take s (digit_list ds hs) @ [(unat ?v, md idx)]) = mixval (take s (digit_list ds hs) @ [(unat ?v, 1)])"
        by (simp add: mixval_append)
      with True v r tk [of s] h s Suc.prems(1) show ?thesis by simp
    next
      case False
      with \<open>t < Suc s\<close> Suc.prems(3) tk [of t] show ?thesis by (simp add: digits_ok_def)
    qed
  qed
  moreover have "n = length hs - Suc s" using Suc.hyps(2) by simp
  ultimately obtain ds' where "garner_slots code hs (drop (Suc s) (enumerate 0 hs)) (ds[s := ?v]) = Inr ds'" "length ds' = length hs"
    "digits_ok hs ds' (length hs)" using Suc.hyps(1) [of "Suc s" "ds[s := ?v]"] Suc.prems(1) s by auto
  then show ?case using idx by (simp add: d Let_def)
qed

lemma mixed_radix_correct:
  assumes code: "rc_ok code" and hs: "\<forall>h\<in>set hs. fst h < rc_n code" "distinct (map fst hs)" and len: "length ds = length hs"
  obtains ds' where "mixed_radix code hs ds = Inr ds'" "length ds' = length hs"
    "mixval (digit_list ds' hs) < prod_list (map (\<lambda>h. md (fst h)) hs)"
    "\<And>h. h \<in> set hs \<Longrightarrow> mixval (digit_list ds' hs) mod md (fst h) = unat (snd h) mod md (fst h)"
proof -
  from garner_slots_correct [OF code hs len, of 0] obtain ds' where
    ds': "garner_slots code hs (enumerate 0 hs) ds = Inr ds'" "length ds' = length hs" "digits_ok hs ds' (length hs)"
    by (auto simp: digits_ok_def)
  have "mixval (digit_list ds' hs) mod md (fst h) = unat (snd h) mod md (fst h)" if "h \<in> set hs" for h
  proof -
    from that obtain t where t: "t < length hs" "hs ! t = h" by (auto simp: in_set_conv_nth)
    let ?L = "digit_list ds' hs"
    have "mixval ?L = mixval (take (Suc t) ?L) + prod_list (map snd (take (Suc t) ?L)) * mixval (drop (Suc t) ?L)"
      by (metis append_take_drop_id mixval_append)
    moreover have "md (fst h) dvd prod_list (map snd (take (Suc t) ?L))"
      using t ds'(2) by (intro prod_list_dvd) (simp add: take_Suc_conv_app_nth)
    ultimately have "mixval ?L mod md (fst h) = mixval (take (Suc t) ?L) mod md (fst h)"
      by (metis mod_add_dvd)
    moreover have "mixval (take (Suc t) ?L) mod md (fst h) = unat (snd h) mod md (fst h)"
      using ds'(3) t unfolding digits_ok_def by blast
    ultimately show ?thesis by simp
  qed
  moreover have "mixval (digit_list ds' hs) < prod_list (map snd (digit_list ds' hs))"
    using ds'(2,3) by (intro mixval_bound) (auto simp: digits_ok_def set_zip)
  then have "mixval (digit_list ds' hs) < prod_list (map (\<lambda>h. md (fst h)) hs)" using ds'(2) by simp
  ultimately show ?thesis using that ds' len by (simp add: mixed_radix_def)
qed

text \<open>Horner's rule evaluates the digits at any modulus of the code.\<close>

lemma add_mod_word:
  assumes t: "t < 32" and a: "unat a < md t" and b: "unat b < md t"
  shows "unat (if a + b \<ge> MODULI ! t then a + b - MODULI ! t else a + b) = (unat a + unat b) mod md t"
proof -
  have "unat (a + b) = unat a + unat b" using a b md_range [OF t] by (simp add: unat_word_ariths)
  then show ?thesis using a b by (simp add: word_le_nat_alt unat_sub le_mod_geq)
qed

lemma evaluate_mod_correct:
  assumes code: "rc_ok code" and t: "target < rc_n code" and hs: "\<forall>h\<in>set hs. fst h < rc_n code" and len: "length ds = length hs"
  shows "unat (evaluate_mod code hs ds target) = mixval (digit_list ds hs) mod md target"
proof -
  note i = code_idx [OF code t]
  note range = md_range [OF i]
  let ?L = "digit_list ds hs" and ?f = "horner_step code hs ds target"
  have "unat (foldr ?f [s..<length ds] 0) =
      (if s = 0 then mixval ?L else md (fst (hs ! (s - 1))) * mixval (drop s ?L)) mod md target" if "s \<le> length ds" for s
    using that
  proof (induction rule: inc_induct)
    case base
    show ?case using len by simp
  next
    case (step s)
    let ?acc = "foldr ?f [Suc s..<length ds] 0" and ?d = "reduce (ucast (ds ! s)) target"
    have d: "unat ?d = unat (ds ! s) mod md target"
      using reduce_correct [OF i, of "ucast (ds ! s)"] unsigned_less [of "ds ! s", where ?'a = nat] by simp
    have acc: "unat ?acc = md (fst (hs ! s)) * mixval (drop (Suc s) ?L) mod md target" using step.IH by simp
    define w where "w = (if ?acc + ?d \<ge> MODULI ! target then ?acc + ?d - MODULI ! target else ?acc + ?d)"
    have drop: "mixval (drop s ?L) = unat (ds ! s) + md (fst (hs ! s)) * mixval (drop (Suc s) ?L)"
      using step.hyps len by (simp add: Cons_nth_drop_Suc [symmetric])
    have "unat w = (unat ?acc + unat ?d) mod md target"
      unfolding w_def by (rule add_mod_word [OF i]) (use d acc range in simp_all)
    then have w: "unat w = mixval (drop s ?L) mod md target" "unat w < md target"
      using range by (simp_all add: acc d drop mod_simps add.commute)
    have fold: "foldr ?f [s..<length ds] 0 = ?f s ?acc" using step.hyps by (simp add: upt_conv_Cons)
    show ?case
    proof (cases "s = 0")
      case True
      then have "?f s ?acc = w" unfolding horner_step_def Let_def w_def by simp
      with True w show ?thesis unfolding fold by simp
    next
      case False
      let ?p = "fst (hs ! (s - 1))"
      define st where "st = rc_residual code ! (?p * rc_n code + target)"
      have "?p < rc_n code" using hs step.hyps len False by simp
      then have st: "unat st = md ?p mod md target" using code t by (simp add: rc_ok_def st_def)
      have "unat w * unat st < 2 ^ 17 * 2 ^ 17"
        using w(2) range st by (intro mult_strict_mono) (simp_all add: less_trans [OF mod_less_divisor])
      moreover have "unat (ucast w * ucast st :: u64) = unat w * unat st" using w(2) range by (simp add: unat_u17)
      ultimately have "unat (reduce (ucast w * ucast st) target) = unat w * unat st mod md target"
        using reduce_correct [OF i] by simp
      moreover have "?f s ?acc = reduce (ucast w * ucast st) target"
        using False unfolding horner_step_def Let_def w_def st_def by simp
      ultimately show ?thesis using False w(1) st unfolding fold by (simp add: mod_simps mult.commute)
    qed
  qed
  from this [of 0] have "unat (foldr ?f [0..<length ds] 0) = mixval ?L mod md target" by simp
  then show ?thesis unfolding evaluate_mod_def foldr_conv_fold .
qed

section \<open>Recovery of a column\<close>

lemma moduli_product_dvd:
  "distinct is \<Longrightarrow> \<forall>i\<in>set is. i < 32 \<and> int (md i) dvd x \<Longrightarrow> int (prod_list (map md is)) dvd x"
proof (induction "is")
  case (Cons i "is")
  have "coprime (md i) (prod_list (map md is))"
    using Cons.prems by (auto intro!: prod_list_coprime_right md_coprime)
  then have "coprime (int (md i)) (int (prod_list (map md is)))" by (simp only: coprime_int_iff)
  moreover have "int (md i) dvd x" "int (prod_list (map md is)) dvd x" using Cons by simp_all
  ultimately have "int (md i) * int (prod_list (map md is)) dvd x" by (intro divides_mult)
  then show ?case by (simp only: list.map prod_list.Cons of_nat_mult)
qed simp

lemma crt_unique:
  assumes "distinct is" "\<forall>i\<in>set is. i < 32" "\<forall>i\<in>set is. A mod md i = B mod md i"
    "A < prod_list (map md is)" "B < prod_list (map md is)"
  shows "A = B"
proof -
  have "int (prod_list (map md is)) dvd int A - int B"
    using assms(1-3) by (intro moduli_product_dvd) (auto simp: mod_eq_dvd_nat)
  then have "A mod prod_list (map md is) = B mod prod_list (map md is)" by (simp add: mod_eq_dvd_nat)
  with assms(4,5) show ?thesis by simp
qed

text \<open>Any \<open>k\<close> moduli have at least the product of the first \<open>k\<close>.\<close>

lemma first_moduli_least:
  assumes "sorted_wrt (<) is" "\<forall>i\<in>set is. i < 32"
  shows "prod_list (map md [0..<length is]) \<le> prod_list (map md is)"
  using assms
proof (induction "is" rule: rev_induct)
  case (snoc i "is")
  have le: "length is \<le> i"
  proof -
    have "set is \<subseteq> {..<i}" "distinct is" using snoc.prems by (auto simp: sorted_wrt_append strict_sorted_iff)
    then show ?thesis using card_mono [of "{..<i}" "set is"] by (simp add: distinct_card)
  qed
  have "md (length is) \<le> md i" using le snoc.prems(2) md_less [of "length is" i] by (cases "length is = i") auto
  with snoc show ?case by (simp add: sorted_wrt_append mult_le_mono)
qed simp

text \<open>The number a column stands for.\<close>

definition column_value :: "ResidueCode \<Rightarrow> u16 list \<Rightarrow> nat \<Rightarrow> bool" where
  "column_value code chunks X \<longleftrightarrow> length chunks = rc_k code \<and> X < prod_list (map md [0..<rc_k code]) \<and>
     (\<forall>i<rc_k code. X mod md i = unat (chunks ! i))"

lemma rc_encode_correct:
  assumes code: "rc_ok code" and len: "length chunks = rc_k code" "length repair = redundancy code"
  obtains X rep where "rc_encode code chunks repair = Inr rep" "length rep = redundancy code" "column_value code chunks X"
    "\<And>j. j < redundancy code \<Longrightarrow> unat (rep ! j) = X mod md (rc_k code + j)"
proof -
  let ?k = "rc_k code"
  have k: "0 < ?k" "?k \<le> rc_n code" "rc_n code \<le> 32" using code by (simp_all add: rc_ok_def)
  define hs :: "(nat \<times> u32) list" where "hs = map (\<lambda>i. (i, ucast (chunks ! i))) [0..<?k]"
  have hs: "take ?k (fold (\<lambda>i have. have[i := (i, ucast (chunks ! i))]) [0..<?k] (replicate MAX_MODULI (0, 0))) = hs"
    using k by (subst fold_update_upt) (simp_all add: hs_def)
  have ok: "\<forall>h\<in>set hs. fst h < rc_n code" "distinct (map fst hs)" "length (take ?k (replicate MAX_MODULI 0)) = length hs"
    using k by (auto simp: hs_def comp_def)
  from mixed_radix_correct [OF code ok] obtain ds where
    ds: "mixed_radix code hs (take ?k (replicate MAX_MODULI 0)) = Inr ds" "length ds = length hs"
      "mixval (digit_list ds hs) < prod_list (map (\<lambda>h. md (fst h)) hs)"
      "\<And>h. h \<in> set hs \<Longrightarrow> mixval (digit_list ds hs) mod md (fst h) = unat (snd h) mod md (fst h)" by metis
  let ?X = "mixval (digit_list ds hs)"
  let ?rep = "map (\<lambda>slot. evaluate_mod code hs ds (?k + slot)) [0..<redundancy code]"
  have "rc_encode code chunks repair = Inr ?rep"
    unfolding rc_encode_def Let_def hs ds(1) using len
    by (simp add: fold_update_upt)
  moreover have "column_value code chunks ?X"
    unfolding column_value_def
  proof (intro conjI allI impI)
    show "?X < prod_list (map md [0..<?k])" using ds(3) by (simp add: hs_def comp_def)
    fix i assume i: "i < ?k"
    then have "?X mod md i = unat (ucast (chunks ! i) :: u32) mod md i" using ds(4) [of "(i, ucast (chunks ! i))"] by (simp add: hs_def)
    also have "unat (ucast (chunks ! i) :: u32) = unat (chunks ! i)"
      using unsigned_less [of "chunks ! i", where ?'a = nat] by (simp add: unsigned_ucast_eq take_bit_nat_eq_self)
    also have "\<dots> mod md i = unat (chunks ! i)"
      using unsigned_less [of "chunks ! i", where ?'a = nat] md_range [of i] i k by simp
    finally show "?X mod md i = unat (chunks ! i)" .
  qed (rule len)
  moreover have "unat (?rep ! j) = ?X mod md (?k + j)" if "j < redundancy code" for j
    using that evaluate_mod_correct [OF code _ ok(1) ds(2), of "?k + j"] by (simp add: redundancy_def)
  ultimately show ?thesis using that by simp
qed

text \<open>The residues that arrived, each placed at its own index.\<close>

lemma and_two_power: "(w :: u32) AND 2 ^ i = 0 \<longleftrightarrow> \<not> bit w i"
  by (simp add: bit_iff_and_push_bit_not_eq_0)

lemma place_residues_correct:
  assumes "\<forall>(i, w)\<in>set hs. i < rc_n code \<and> P i w" "rc_n code \<le> 32" "length residues = 32"
    "\<And>i. i < 32 \<Longrightarrow> bit present i \<Longrightarrow> P i (residues ! i)"
  shows "\<exists>residues' present'. place_residues code hs (residues, present) = Inr (residues', present') \<and> length residues' = 32 \<and>
    (\<forall>i<32. bit present' i \<longleftrightarrow> bit present i \<or> i \<in> fst ` set hs) \<and> (\<forall>i<32. bit present' i \<longrightarrow> P i (residues' ! i))"
  using assms
proof (induction hs arbitrary: residues present)
  case (Cons h hs)
  obtain i w where h: "h = (i, w)" by fastforce
  have i: "i < rc_n code" "i < 32" "P i w" using Cons.prems(1,2) by (auto simp: h)
  have set: "bit (present OR 2 ^ i) j \<longleftrightarrow> bit present j \<or> j = i" if "j < 32" for j
    using that i(2) by (auto simp: bit_simps)
  show ?case
  proof (cases "bit present i")
    case True
    with Cons.IH [of residues present] Cons.prems i show ?thesis by (auto simp: h and_two_power)
  next
    case False
    have "\<exists>residues' present'. place_residues code hs (residues[i := w], present OR 2 ^ i) = Inr (residues', present') \<and>
      length residues' = 32 \<and> (\<forall>j<32. bit present' j \<longleftrightarrow> bit (present OR 2 ^ i) j \<or> j \<in> fst ` set hs) \<and>
      (\<forall>j<32. bit present' j \<longrightarrow> P j (residues' ! j))"
      using Cons.prems i set by (intro Cons.IH) (auto simp: nth_list_update)
    with False i set show ?thesis by (auto simp: h and_two_power)
  qed
qed auto

lemma take_residues_correct:
  assumes "taken \<le> k" "k \<le> length used" "k - taken \<le> length (filter (\<lambda>(i, _). bit present i) xs)"
  shows "take k (take_residues k present xs used taken) =
    take taken used @ take (k - taken) (filter (\<lambda>(i, _). bit present i) xs)"
  using assms
proof (induction xs arbitrary: used taken)
  case (Cons x xs)
  obtain i w where x: "x = (i, w)" by fastforce
  show ?case
  proof (cases "taken = k \<or> \<not> bit present i")
    case True
    with Cons show ?thesis by (auto simp: x and_two_power)
  next
    case False
    with Cons.prems have lt: "taken < k" "bit present i" by auto
    have "take k (take_residues k present xs (used[taken := (i, w)]) (taken + 1)) =
        take (taken + 1) (used[taken := (i, w)]) @ take (k - (taken + 1)) (filter (\<lambda>(i, _). bit present i) xs)"
      using Cons.prems lt by (intro Cons.IH) (auto simp: x)
    moreover have "take (taken + 1) (used[taken := (i, w)]) = take taken used @ [(i, w)]"
      using lt Cons.prems(2) by (simp add: take_Suc_conv_app_nth)
    moreover have "take (k - taken) (filter (\<lambda>(i, _). bit present i) (x # xs)) =
        (i, w) # take (k - (taken + 1)) (filter (\<lambda>(i, _). bit present i) xs)"
      using lt using Suc_diff_Suc [OF lt(1)] by (simp add: x flip: Suc_diff_Suc)
    ultimately show ?thesis using lt by (simp add: x and_two_power)
  qed
qed simp

lemma count_ones_arrived:
  assumes "\<forall>i<32. bit present i \<longleftrightarrow> i \<in> I" "I \<subseteq> {..<n}" "n \<le> 32"
  shows "count_ones_u32 present = card I" "length (filter (bit present) [0..<n]) = card I"
proof -
  have 1: "length (filter (bit present) [0..<m]) = card I" if "n \<le> m" "m \<le> 32" for m
  proof -
    have "set (filter (bit present) [0..<m]) = I" using assms that by auto
    then show ?thesis by (metis distinct_card distinct_filter distinct_upt)
  qed
  show "count_ones_u32 present = card I" "length (filter (bit present) [0..<n]) = card I"
    using 1 [of 32] 1 [of n] assms(3) by (simp_all add: count_ones_u32_def)
qed

text \<open>What a call that passes the checks returns.\<close>

lemma rc_decode_shape:
  assumes code: "rc_ok code" and out: "length out = rc_k code"
    and hs: "\<forall>(i, w)\<in>set hs. i < rc_n code \<and> P i w" and enough: "rc_k code \<le> card (fst ` set hs)"
  obtains us ds where "rc_decode code hs out = Inr (map (\<lambda>i. case find (\<lambda>(idx, _). idx = i) us of
        Some (_, residue) \<Rightarrow> ucast residue | None \<Rightarrow> ucast (evaluate_mod code us ds i)) [0..<rc_k code])"
    "length us = rc_k code" "sorted_wrt (<) (map fst us)" "\<And>h. h \<in> set us \<Longrightarrow> fst h < rc_n code \<and> P (fst h) (snd h)"
    "length ds = length us" "mixval (digit_list ds us) < prod_list (map (\<lambda>h. md (fst h)) us)"
    "\<And>h. h \<in> set us \<Longrightarrow> mixval (digit_list ds us) mod md (fst h) = unat (snd h) mod md (fst h)"
proof -
  let ?k = "rc_k code" and ?n = "rc_n code"
  have k: "0 < ?k" "?k \<le> ?n" "?n \<le> 32" using code by (simp_all add: rc_ok_def)
  have "card (fst ` set hs) \<le> length hs" by (metis card_image_le card_length le_trans List.finite_set)
  then have len: "\<not> length hs < ?k" using enough by simp
  from place_residues_correct [OF hs k(3), of "replicate MAX_MODULI 0" 0] obtain residues present where
    p: "place_residues code hs (replicate MAX_MODULI 0, 0) = Inr (residues, present)" "length residues = 32"
      "\<forall>i<32. bit present i \<longleftrightarrow> i \<in> fst ` set hs" "\<And>i. i < 32 \<Longrightarrow> bit present i \<Longrightarrow> P i (residues ! i)" by auto
  have sub: "fst ` set hs \<subseteq> {..<?n}" using hs by auto
  note ones = count_ones_arrived [OF p(3) sub k(3)]
  define ix where "ix = take ?k (filter (bit present) [0..<?n])"
  define us where "us = map (\<lambda>i. (i, residues ! i)) ix"
  have en: "take ?n (enumerate 0 residues) = map (\<lambda>i. (i, residues ! i)) [0..<?n]"
    using p(2) k(3) by (simp add: enumerate_map take_map)
  have flt: "filter (\<lambda>(i, _). bit present i) (take ?n (enumerate 0 residues)) = map (\<lambda>i. (i, residues ! i)) (filter (bit present) [0..<?n])"
    unfolding en by (simp add: filter_map comp_def)
  have lis: "length ix = ?k" using ones(2) enough by (simp add: ix_def)
  have mem: "i < ?n \<and> bit present i" if "i \<in> set ix" for i using that by (auto simp: ix_def dest: in_set_takeD)
  have sorted: "sorted_wrt (<) ix" unfolding ix_def by (intro sorted_wrt_take sorted_wrt_filter) simp
  have taken: "take ?k (take_residues ?k present (take ?n (enumerate 0 residues)) (replicate MAX_MODULI (0, 0)) 0) = us"
    using take_residues_correct [of 0 ?k "replicate MAX_MODULI (0, 0)" present "take ?n (enumerate 0 residues)"] k enough ones(2)
    by (simp add: flt us_def ix_def take_map)
  have ok: "\<forall>h\<in>set us. fst h < ?n" "distinct (map fst us)" "length (take ?k (replicate MAX_MODULI 0)) = length us"
    using mem sorted lis k by (auto simp: us_def comp_def strict_sorted_iff)
  from mixed_radix_correct [OF code ok] obtain ds where
    ds: "mixed_radix code us (take ?k (replicate MAX_MODULI 0)) = Inr ds" "length ds = length us"
      "mixval (digit_list ds us) < prod_list (map (\<lambda>h. md (fst h)) us)"
      "\<And>h. h \<in> set us \<Longrightarrow> mixval (digit_list ds us) mod md (fst h) = unat (snd h) mod md (fst h)" by metis
  show ?thesis
  proof (rule that [OF _ _ _ _ ds(2-4)])
    show "rc_decode code hs out = Inr (map (\<lambda>i. case find (\<lambda>(idx, _). idx = i) us of
        Some (_, residue) \<Rightarrow> ucast residue | None \<Rightarrow> ucast (evaluate_mod code us ds i)) [0..<?k])"
      using out len p(1) ones(1) enough
      by (simp add: rc_decode_def Let_def taken [simplified] ds(1) [simplified] fold_update_upt cong: option.case_cong)
    show "length us = ?k" "sorted_wrt (<) (map fst us)" using lis sorted by (simp_all add: us_def comp_def)
    show "fst h < ?n \<and> P (fst h) (snd h)" if h: "h \<in> set us" for h
    proof -
      from h obtain i where i: "i \<in> set ix" "h = (i, residues ! i)" by (auto simp: us_def)
      then show ?thesis using mem [OF i(1)] p(4) [of i] k(3) by auto
    qed
  qed
qed

text \<open>
  From the residues of a column that arrived, at least \<open>k\<close> of them at different indices, the chunks
  come back.
\<close>

lemma rc_decode_correct:
  assumes code: "rc_ok code" and col: "column_value code chunks X" and out: "length out = rc_k code"
    and hs: "\<forall>(i, w)\<in>set hs. i < rc_n code \<and> unat w = X mod md i" and enough: "rc_k code \<le> card (fst ` set hs)"
  shows "rc_decode code hs out = Inr chunks"
proof -
  let ?k = "rc_k code" and ?n = "rc_n code"
  have k: "0 < ?k" "?k \<le> ?n" "?n \<le> 32" using code by (simp_all add: rc_ok_def)
  obtain us ds where
    dec: "rc_decode code hs out = Inr (map (\<lambda>i. case find (\<lambda>(idx, _). idx = i) us of
        Some (_, residue) \<Rightarrow> ucast residue | None \<Rightarrow> ucast (evaluate_mod code us ds i)) [0..<?k])"
    and us: "length us = ?k" "sorted_wrt (<) (map fst us)" "\<And>h. h \<in> set us \<Longrightarrow> fst h < ?n \<and> unat (snd h) = X mod md (fst h)"
    and ds: "length ds = length us" "mixval (digit_list ds us) < prod_list (map (\<lambda>h. md (fst h)) us)"
      "\<And>h. h \<in> set us \<Longrightarrow> mixval (digit_list ds us) mod md (fst h) = unat (snd h) mod md (fst h)"
    by (rule rc_decode_shape [OF code out hs enough]) blast
  have X: "mixval (digit_list ds us) = X"
  proof (rule crt_unique)
    show "distinct (map fst us)" using us(2) by (simp add: strict_sorted_iff)
    show lt: "\<forall>i\<in>set (map fst us). i < 32" using us(3) k(3) by fastforce
    show "\<forall>i\<in>set (map fst us). mixval (digit_list ds us) mod md i = X mod md i" using ds(3) us(3) by auto
    show "mixval (digit_list ds us) < prod_list (map md (map fst us))" using ds(2) by (simp add: comp_def)
    have "X < prod_list (map md [0..<length (map fst us)])" using col us(1) by (simp add: column_value_def)
    also have "\<dots> \<le> prod_list (map md (map fst us))" by (rule first_moduli_least [OF us(2) lt])
    finally show "X < prod_list (map md (map fst us))" .
  qed
  define slot :: "nat \<Rightarrow> u16" where "slot i = (case find (\<lambda>(idx, _). idx = i) us of Some (_, residue) \<Rightarrow> ucast residue
      | None \<Rightarrow> ucast (evaluate_mod code us ds i))" for i
  have slot: "slot i = chunks ! i" if i: "i < ?k" for i
  proof -
    have Xi: "X mod md i = unat (chunks ! i)" using col i by (simp add: column_value_def)
    have eq: "(ucast w :: u16) = chunks ! i" if "unat w = X mod md i" for w :: u32
      using that unsigned_less [of "chunks ! i", where ?'a = nat]
      by (simp add: word_unat_eq_iff Xi unsigned_ucast_eq take_bit_nat_eq_self)
    show ?thesis
    proof (cases "find (\<lambda>(idx, _). idx = i) us")
      case None
      have "unat (evaluate_mod code us ds i) = X mod md i"
        using evaluate_mod_correct [OF code _ _ ds(1), of i] i k X us(3) by simp
      with None eq show ?thesis by (simp add: slot_def)
    next
      case (Some h)
      then have h: "h \<in> set us" "fst h = i" unfolding find_Some_iff by (metis nth_mem, auto)
      then have "unat (snd h) = X mod md i" using us(3) by blast
      with Some eq show ?thesis by (cases h) (simp add: slot_def)
    qed
  qed
  have "map slot [0..<?k] = chunks" using slot col by (intro nth_equalityI) (simp_all add: column_value_def)
  then show ?thesis using dec by (simp add: slot_def [abs_def])
qed

section \<open>Refusals\<close>

lemma place_residues_bad:
  "\<exists>h\<in>set hs. rc_n code \<le> fst h \<Longrightarrow> place_residues code hs (residues, present) = Inl BadResidueIndex"
proof (induction hs arbitrary: residues present)
  case (Cons h hs)
  then show ?case by (cases h) auto
qed simp

text \<open>
  C34. The residue decoder refuses exactly the calls it must, with the error that names the reason: a
  buffer of the wrong size, fewer residues than chunks, an index the code does not have, or, counting
  each index once, too few residues. Every other call returns chunks; none reaches an error inside.
\<close>

theorem rc_decode_refusals:
  assumes new: "rc_new k r = Inr code"
  shows "case rc_decode code hs out of
      Inl e \<Rightarrow> e = (if length out \<noteq> k then LengthMismatch
        else if length hs < k then NotEnoughResidues
        else if \<exists>h\<in>set hs. k + r \<le> fst h then BadResidueIndex
        else NotEnoughResidues) \<and> \<not> (length out = k \<and> (\<forall>h\<in>set hs. fst h < k + r) \<and> k \<le> card (fst ` set hs))
    | Inr chunks \<Rightarrow> length chunks = k \<and> length out = k \<and> (\<forall>h\<in>set hs. fst h < k + r) \<and> k \<le> card (fst ` set hs)"
proof -
  note code = rc_new_ok [OF new]
  have n: "k + r \<le> 32" using code by (simp add: rc_ok_def)
  have few: "card (fst ` set hs) \<le> length hs" by (metis card_image_le card_length le_trans List.finite_set)
  show ?thesis
  proof (cases "length out = k \<and> \<not> length hs < k")
    case False
    with code(2) few show ?thesis by (auto simp: rc_decode_def)
  next
    case pre: True
    show ?thesis
    proof (cases "\<exists>h\<in>set hs. k + r \<le> fst h")
      case True
      with pre place_residues_bad [of hs code "replicate MAX_MODULI 0" 0] code(2,3) show ?thesis
        by (auto simp: rc_decode_def not_less)
    next
      case False
      then have hs: "\<forall>(i, w)\<in>set hs. i < rc_n code \<and> True" using code(3) by (auto simp: not_le)
      show ?thesis
      proof (cases "k \<le> card (fst ` set hs)")
        case True
        have "length out = rc_k code" "rc_k code \<le> card (fst ` set hs)" using pre True code(2) by simp_all
        then obtain chunks where "rc_decode code hs out = Inr chunks" "length chunks = k"
          by (rule rc_decode_shape [OF code(1) _ hs]) (simp add: code(2))
        with False pre True show ?thesis by (auto simp: not_le)
      next
        case few: False
        from place_residues_correct [OF hs _ , of "replicate MAX_MODULI 0" 0] n code(3) obtain residues present where
          p: "place_residues code hs (replicate MAX_MODULI 0, 0) = Inr (residues, present)"
            "\<forall>i<32. bit present i \<longleftrightarrow> i \<in> fst ` set hs" by auto
        have "fst ` set hs \<subseteq> {..<k + r}" using False by (auto simp: not_le)
        from count_ones_arrived(1) [OF p(2) this n] few pre False p(1) code(2) show ?thesis
          by (auto simp: rc_decode_def)
      qed
    qed
  qed
qed

theorem rc_decode_refusals_witness:
  "\<exists>code. rc_new 2 1 = Inr code \<and> rc_decode code [(0, 7), (0, 7), (1, 9)] [0] = Inl LengthMismatch \<and>
    rc_decode code [(0, 7), (0, 7), (3, 9)] [0, 0] = Inl BadResidueIndex \<and>
    rc_decode code [(0, 7), (0, 7)] [0, 0] = Inl NotEnoughResidues"
proof -
  obtain code where c: "rc_new 2 1 = Inr code" by (cases "rc_tables 3") (simp add: rc_new_def)
  from rc_decode_refusals [OF c, where hs = "[(0, 7), (0, 7), (1, 9)]" and out = "[0]"]
    rc_decode_refusals [OF c, where hs = "[(0, 7), (0, 7), (3, 9)]" and out = "[0, 0]"]
    rc_decode_refusals [OF c, where hs = "[(0, 7), (0, 7)]" and out = "[0, 0]"] c
  show ?thesis by (auto split: sum.splits)
qed

section \<open>Recovery of whole packets\<close>

text \<open>Reading and filling the columns of a body.\<close>

definition column_at :: "nat \<Rightarrow> bytes \<Rightarrow> u16" where
  "column_at col body = from_le_u16 (body ! (col * 2)) (body ! (col * 2 + 1))"

lemma length_put_column [simp]: "length (put_column at w body) = length body"
  by (simp add: put_column_def)

lemma column_at_put:
  assumes "c * 2 + 1 < length body"
  shows "column_at d (put_column (c * 2) w body) = (if d = c then w else column_at d body)"
proof (cases "d = c")
  case True
  with assms show ?thesis using from_to_le_u16 [of w] by (simp add: column_at_def put_column_def nth_list_update)
next
  case False
  then have "c * 2 \<noteq> d * 2" "c * 2 \<noteq> d * 2 + 1" "c * 2 + 1 \<noteq> d * 2" "c * 2 + 1 \<noteq> d * 2 + 1" by presburger+
  with False show ?thesis by (simp add: column_at_def put_column_def nth_list_update)
qed

lemma length_put_columns [simp]: "length (fold (\<lambda>c. put_column (c * 2) (w c)) cols body) = length body"
  by (induction cols arbitrary: body) simp_all

lemma column_at_put_columns:
  assumes "\<forall>c\<in>set cols. c * 2 + 1 < length body"
  shows "column_at d (fold (\<lambda>c. put_column (c * 2) (w c)) cols body) = (if d \<in> set cols then w d else column_at d body)"
  using assms by (induction cols arbitrary: body) (auto simp: column_at_put)

lemma columns_eq:
  assumes "length a = length b" "even (length a)" "\<And>c. c < length a div 2 \<Longrightarrow> column_at c a = column_at c b"
  shows "a = b"
proof (rule nth_equalityI [OF assms(1)])
  fix i assume i: "i < length a"
  then have c: "i div 2 < length a div 2" using assms(2) by (auto elim!: evenE)
  have "a ! (i div 2 * 2) = b ! (i div 2 * 2)" "a ! (i div 2 * 2 + 1) = b ! (i div 2 * 2 + 1)"
    using assms(3) [OF c] to_from_le_u16 unfolding column_at_def by metis+
  moreover have "i = i div 2 * 2 \<or> i = i div 2 * 2 + 1" by presburger
  ultimately show "a ! i = b ! i" by metis
qed

text \<open>The residues of a column, from the number it stands for.\<close>

definition residue_word :: "nat \<Rightarrow> nat \<Rightarrow> u32" where
  "residue_word X i = of_nat (X mod md i)"

lemma unat_residue_word: "i < 32 \<Longrightarrow> unat (residue_word X i) = X mod md i"
proof -
  assume i: "i < 32"
  then have "X mod md i < 2 ^ LENGTH(32)" using md_range [OF i] less_trans [OF mod_less_divisor, of "md i" "2 ^ 32" X] by simp
  then show ?thesis by (simp add: residue_word_def unat_of_nat_small)
qed

lemma column_value_exists:
  assumes "rc_ok code" "length chunks = rc_k code"
  shows "\<exists>X. column_value code chunks X"
  using rc_encode_correct [OF assms, of "replicate (redundancy code) 0"] by auto

lemma rc_encode_value:
  assumes code: "rc_ok code" and col: "column_value code chunks X" and len: "length repair = redundancy code"
  shows "rc_encode code chunks repair = Inr (map (\<lambda>j. residue_word X (rc_k code + j)) [0..<redundancy code])"
proof -
  have k: "rc_k code \<le> rc_n code" "rc_n code \<le> 32" using code by (simp_all add: rc_ok_def)
  have chunks: "length chunks = rc_k code" using col by (simp add: column_value_def)
  obtain Y rep where Y: "rc_encode code chunks repair = Inr rep" "length rep = redundancy code" "column_value code chunks Y"
    "\<And>j. j < redundancy code \<Longrightarrow> unat (rep ! j) = Y mod md (rc_k code + j)" by (rule rc_encode_correct [OF code chunks len]) blast
  have "Y = X" using col Y(3) k by (intro crt_unique [of "[0..<rc_k code]"]) (auto simp: column_value_def)
  then have "rep = map (\<lambda>j. residue_word X (rc_k code + j)) [0..<redundancy code]"
    using Y(2,4) k by (intro nth_equalityI) (simp_all add: word_unat_eq_iff unat_residue_word redundancy_def)
  with Y(1) show ?thesis by simp
qed

text \<open>
  A group of packets: \<open>X\<close> gives the number each column stands for, \<open>ov\<close> the columns whose residue at
  an index needs the seventeenth bit, and \<open>repair_packet\<close> what a repair packet carries.
\<close>

definition group_value :: "ResidueCode \<Rightarrow> bytes list \<Rightarrow> nat \<Rightarrow> (nat \<Rightarrow> nat) \<Rightarrow> bool" where
  "group_value code sources columns X \<longleftrightarrow> length sources = rc_k code \<and> (\<forall>s\<in>set sources. length s = columns * 2) \<and>
     (\<forall>col<columns. column_value code (map (column_at col) sources) (X col))"

definition overflow_columns :: "(nat \<Rightarrow> nat) \<Rightarrow> nat \<Rightarrow> nat list \<Rightarrow> u16 list" where
  "overflow_columns X i cols = map of_nat (filter (\<lambda>col. residue_word (X col) i > 65535) cols)"

definition repair_body :: "(nat \<Rightarrow> nat) \<Rightarrow> nat \<Rightarrow> nat list \<Rightarrow> bytes \<Rightarrow> bytes" where
  "repair_body X i cols body = fold (\<lambda>c. put_column (c * 2) (ucast (residue_word (X c) i))) cols body"

lemma group_value_exists:
  assumes "rc_ok code" "length sources = rc_k code" "\<forall>s\<in>set sources. length s = columns * 2"
  shows "\<exists>X. group_value code sources columns X"
proof -
  have "\<forall>col. \<exists>X. column_value code (map (column_at col) sources) X" using column_value_exists [OF assms(1)] assms(2) by simp
  then obtain X where "\<forall>col. column_value code (map (column_at col) sources) (X col)" by metis
  with assms show ?thesis by (auto simp: group_value_def)
qed

lemma encode_column_loop:
  assumes "length bodies = r" "length overflows = r" "length residues = r"
  shows "fold (\<lambda>j (bodies, overflows).
      (bodies[j := put_column at (ucast (residues ! j)) (bodies ! j)],
       if residues ! j > 65535 then overflows[j := overflows ! j @ [c]] else overflows)) [0..<r] (bodies, overflows) =
    (map (\<lambda>j. put_column at (ucast (residues ! j)) (bodies ! j)) [0..<r],
     map (\<lambda>j. overflows ! j @ (if residues ! j > 65535 then [c] else [])) [0..<r])"
proof -
  have "(\<lambda>j (bodies, overflows).
      (bodies[j := put_column at (ucast (residues ! j)) (bodies ! j)],
       if residues ! j > 65535 then overflows[j := overflows ! j @ [c]] else overflows)) =
    (\<lambda>j (bodies, overflows).
      (bodies[j := put_column at (ucast (residues ! j)) (bodies ! j)],
       overflows[j := overflows ! j @ (if residues ! j > 65535 then [c] else [])]))"
    by (auto simp: fun_eq_iff)
  then show ?thesis
    using assms fold_modify_upt [of r bodies "\<lambda>j b. put_column at (ucast (residues ! j)) b"]
      fold_modify_upt [of r overflows "\<lambda>j cols. cols @ (if residues ! j > 65535 then [c] else [])"]
    by (simp add: fold_pair)
qed

lemma encode_columns_correct:
  assumes code: "rc_ok code" and grp: "group_value code sources columns X"
  shows "\<forall>c\<in>set cols. c < columns \<Longrightarrow> length residues = redundancy code \<Longrightarrow> length bodies = redundancy code \<Longrightarrow>
    length overflows = redundancy code \<Longrightarrow>
    encode_columns code sources cols residues (bodies, overflows) =
      Inr (map (\<lambda>j. repair_body X (rc_k code + j) cols (bodies ! j)) [0..<redundancy code],
           map (\<lambda>j. overflows ! j @ overflow_columns X (rc_k code + j) cols) [0..<redundancy code])"
proof (induction cols arbitrary: residues bodies overflows)
  case Nil
  then show ?case by (simp add: repair_body_def overflow_columns_def) (metis map_nth)
next
  case (Cons c cols)
  let ?r = "redundancy code" and ?R = "map (\<lambda>j. residue_word (X c) (rc_k code + j)) [0..<redundancy code]"
  have "column_value code (map (column_at c) sources) (X c)" using grp Cons.prems(1) by (simp add: group_value_def)
  then have enc: "rc_encode code (map (\<lambda>src. from_le_u16 (src ! (c * 2)) (src ! (c * 2 + 1))) sources) residues = Inr ?R"
    using rc_encode_value [OF code _ Cons.prems(2)] by (simp add: column_at_def [abs_def])
  show ?case
    using Cons.prems
    by (simp add: enc [simplified] encode_column_loop Cons.IH)
      (simp add: repair_body_def overflow_columns_def)
qed

lemma encode_packets_correct:
  assumes code: "rc_ok code" and grp: "group_value code sources columns X"
  shows "encode_packets code sources = Some (Inr (map (\<lambda>j. seal_repair (repair_body X (rc_k code + j) [0..<columns] (replicate (columns * 2) 0),
      overflow_columns X (rc_k code + j) [0..<columns])) [0..<redundancy code]))"
proof -
  have k: "0 < rc_k code" using code by (simp add: rc_ok_def)
  then obtain first rest where src: "sources = first # rest" using grp by (cases sources) (auto simp: group_value_def)
  have len: "length sources = rc_k code" "\<forall>s\<in>set sources. length s = columns * 2" "length first = columns * 2"
    using grp src by (auto simp: group_value_def)
  let ?r = "redundancy code"
  have "encode_columns code sources [0..<columns] (replicate ?r 0) (replicate ?r (replicate (columns * 2) 0), replicate ?r []) =
      Inr (map (\<lambda>j. repair_body X (rc_k code + j) [0..<columns] (replicate (columns * 2) 0)) [0..<?r],
           map (\<lambda>j. overflow_columns X (rc_k code + j) [0..<columns]) [0..<?r])"
    using encode_columns_correct [OF code grp, of "[0..<columns]"] by simp
  then show ?thesis using len src by (simp add: encode_packets_def Let_def zip_map_map zip_same_conv_map comp_def)
qed

text \<open>What a receiver reads off a repair packet.\<close>

lemma nth_concat_le:
  assumes "c < length cols"
  shows "concat (map to_le_u16 cols) ! (c * 2) = to_le_u16 (cols ! c) ! 0" "concat (map to_le_u16 cols) ! Suc (c * 2) = to_le_u16 (cols ! c) ! 1"
  using assms
proof (induction cols arbitrary: c)
  case (Cons x cols)
  { case 1 with Cons(1) [of "c - 1"] show ?case by (cases c) (simp_all add: nth_append) }
  { case 2 with Cons(2) [of "c - 1"] show ?case by (cases c) (simp_all add: nth_append) }
qed simp_all

lemma read_sealed:
  assumes "length body = len" "length cols < 65536"
  defines "packet \<equiv> seal_repair (body, cols)"
  shows "length packet = len + 2 + length cols * 2" "unat (from_le_u16 (packet ! len) (packet ! (len + 1))) = length cols"
    "c < length cols \<Longrightarrow> from_le_u16 (packet ! (len + 2 + c * 2)) (packet ! (len + 2 + c * 2 + 1)) = cols ! c"
    "i < len \<Longrightarrow> packet ! i = body ! i"
proof -
  have "length (concat (map to_le_u16 cols)) = length cols * 2" by (induction cols) simp_all
  then show "length packet = len + 2 + length cols * 2" using assms(1) by (simp add: packet_def seal_repair_def)
  have "packet ! len = to_le_u16 (of_nat (length cols)) ! 0" "packet ! (len + 1) = to_le_u16 (of_nat (length cols)) ! 1"
    using assms(1) by (simp_all add: packet_def seal_repair_def nth_append)
  then show "unat (from_le_u16 (packet ! len) (packet ! (len + 1))) = length cols"
    using assms(2) by (simp only: from_to_le_u16) (simp add: unat_of_nat_small)
  show "from_le_u16 (packet ! (len + 2 + c * 2)) (packet ! (len + 2 + c * 2 + 1)) = cols ! c" if "c < length cols"
    using that assms(1) nth_concat_le [OF that] from_to_le_u16 [of "cols ! c"]
    by (simp add: packet_def seal_repair_def nth_append)
  show "packet ! i = body ! i" if "i < len" using that assms(1) by (simp add: packet_def seal_repair_def nth_append)
qed

text \<open>The packet that belongs at an index of the group.\<close>

definition group_packet :: "ResidueCode \<Rightarrow> bytes list \<Rightarrow> nat \<Rightarrow> (nat \<Rightarrow> nat) \<Rightarrow> nat \<Rightarrow> bytes" where
  "group_packet code sources columns X i =
     (if i < rc_k code then sources ! i
      else seal_repair (repair_body X i [0..<columns] (replicate (columns * 2) 0), overflow_columns X i [0..<columns]))"

lemma length_overflow_columns: "length (overflow_columns X i cols) \<le> length cols"
  by (simp add: overflow_columns_def)

lemma length_repair_body [simp]: "length (repair_body X i cols body) = length body"
  by (simp add: repair_body_def)

lemma read_overflows_correct:
  assumes "columns < 65536" "\<forall>(i, p)\<in>set have. p = group_packet code sources columns X i"
  shows "read_overflows (rc_k code) (columns * 2) have =
    Inr (map (\<lambda>(i, _). (i, overflow_columns X i [0..<columns])) (filter (\<lambda>(i, _). \<not> i < rc_k code) have))"
  using assms(2)
proof (induction "have")
  case (Cons h hs)
  obtain i p where h: "h = (i, p)" by fastforce
  have p: "p = group_packet code sources columns X i" using Cons.prems by (simp add: h)
  let ?ov = "overflow_columns X i [0..<columns]"
  have ov: "length ?ov < 65536" using length_overflow_columns [of X i "[0..<columns]"] assms(1) by simp
  show ?case
  proof (cases "i < rc_k code")
    case False
    note sealed = read_sealed [of "repair_body X i [0..<columns] (replicate (columns * 2) 0)" "columns * 2" ?ov]
    have cols: "map (\<lambda>c. from_le_u16 (p ! (columns * 2 + 2 + c * 2)) (p ! (columns * 2 + 2 + c * 2 + 1))) [0..<length ?ov] = ?ov"
      using sealed(3) ov False by (intro nth_equalityI) (simp_all add: p group_packet_def)
    have "length p = columns * 2 + 2 + length ?ov * 2" "unat (from_le_u16 (p ! (columns * 2)) (p ! (columns * 2 + 1))) = length ?ov"
      using sealed(1,2) ov False by (simp_all add: p group_packet_def)
    with False Cons cols show ?thesis by (simp add: h OVERFLOW_COUNT_BYTES_def Let_def)
  qed (use Cons h in simp)
qed simp

lemma split_u17:
  assumes "unat (w :: u32) < 131072"
  shows "ucast (ucast w :: u16) + (if w > 65535 then 65536 else 0) = w"
proof -
  have low: "unat (ucast (ucast w :: u16) :: u32) = unat w mod 65536"
    by (simp add: unsigned_ucast_eq take_bit_eq_mod unat_mod)
  have "(65535 :: u32) < w \<longleftrightarrow> 65535 < unat w" by (simp add: word_less_nat_alt)
  moreover have "unat w mod 65536 = (if 65535 < unat w then unat w - 65536 else unat w)" using assms by (simp add: mod_if)
  ultimately show ?thesis using assms low by (auto simp: word_unat_eq_iff unat_word_ariths)
qed

lemma group_packet_column:
  assumes code: "rc_ok code" and grp: "group_value code sources columns X" and i: "i < rc_n code" and col: "col < columns"
    and c: "columns < 65536"
  shows "col * 2 + 1 < length (group_packet code sources columns X i)"
    "ucast (column_at col (group_packet code sources columns X i)) +
      (if \<not> i < rc_k code \<and> of_nat col \<in> set (overflow_columns X i [0..<columns]) then 65536 else 0) = residue_word (X col) i"
proof -
  have i32: "i < 32" by (rule code_idx [OF code i])
  have col2: "col * 2 + 1 < columns * 2" using col by simp
  show "col * 2 + 1 < length (group_packet code sources columns X i)"
  proof (cases "i < rc_k code")
    case True
    then have "sources ! i \<in> set sources" using grp by (simp add: group_value_def)
    with True col2 grp show ?thesis by (simp add: group_packet_def group_value_def)
  next
    case False
    with col2 show ?thesis by (simp add: group_packet_def seal_repair_def)
  qed
  show "ucast (column_at col (group_packet code sources columns X i)) +
      (if \<not> i < rc_k code \<and> of_nat col \<in> set (overflow_columns X i [0..<columns]) then 65536 else 0) = residue_word (X col) i"
  proof (cases "i < rc_k code")
    case True
    have "X col mod md i = unat (column_at col (sources ! i))"
      using grp col True by (simp add: group_value_def column_value_def)
    with True show ?thesis by (simp add: group_packet_def residue_word_def)
  next
    case False
    let ?body = "repair_body X i [0..<columns] (replicate (columns * 2) 0)"
    have "length (overflow_columns X i [0..<columns]) < 65536"
      using length_overflow_columns [of X i "[0..<columns]"] c by simp
    then have "column_at col (group_packet code sources columns X i) = column_at col ?body"
      using False col2 read_sealed(4) [of ?body "columns * 2"] by (simp add: group_packet_def column_at_def)
    also have "\<dots> = ucast (residue_word (X col) i)"
      unfolding repair_body_def using col by (subst column_at_put_columns) auto
    finally have low: "column_at col (group_packet code sources columns X i) = ucast (residue_word (X col) i)" .
    have "of_nat col \<in> set (overflow_columns X i [0..<columns]) \<longleftrightarrow> residue_word (X col) i > 65535"
      using col c by (auto simp: overflow_columns_def image_iff of_nat_word_inj)
    moreover have "unat (residue_word (X col) i) < 131072"
      using md_range [OF i32] by (simp add: unat_residue_word [OF i32] less_trans [OF mod_less_divisor])
    ultimately show ?thesis using False low split_u17 by simp
  qed
qed

lemma find_overflow:
  assumes "(i, p) \<in> set have" "\<not> i < k"
  shows "find (\<lambda>(j, _). j = i) (map (\<lambda>(i, _). (i, f i)) (filter (\<lambda>(i, _). \<not> i < k) have)) = Some (i, f i)"
  using assms by (induction "have") auto

lemma gather_column_correct:
  assumes code: "rc_ok code" and grp: "group_value code sources columns X" and col: "col < columns" and c: "columns < 65536"
    and sets: "sets = map (\<lambda>(i, _). (i, overflow_columns X i [0..<columns])) (filter (\<lambda>(i, _). \<not> i < rc_k code) all)"
    and all: "set have \<subseteq> set all" "\<forall>(i, p)\<in>set have. i < rc_n code \<and> p = group_packet code sources columns X i"
  shows "gather_column (rc_k code) col sets have = Some (map (\<lambda>(i, _). (i, residue_word (X col) i)) have)"
  using all
proof (induction "have")
  case (Cons h hs)
  obtain i p where h: "h = (i, p)" by fastforce
  have i: "i < rc_n code" "p = group_packet code sources columns X i" "(i, p) \<in> set all" using Cons.prems by (auto simp: h)
  note gp = group_packet_column [OF code grp i(1) col c]
  have IH: "gather_column (rc_k code) col sets hs = Some (map (\<lambda>(i, _). (i, residue_word (X col) i)) hs)"
    using Cons by simp
  have len: "col * 2 + 1 < length p" using gp(1) i(2) by simp
  have w: "residue_word (X col) i = ucast (column_at col p) +
      (if \<not> i < rc_k code \<and> of_nat col \<in> set (overflow_columns X i [0..<columns]) then 65536 else 0)"
    using gp(2) i(2) by simp
  show ?case
  proof (cases "i < rc_k code")
    case True
    with IH len w show ?thesis by (simp add: h Let_def column_at_def)
  next
    case False
    with IH len w find_overflow [OF i(3) False, of "\<lambda>i. overflow_columns X i [0..<columns]"] show ?thesis
      by (simp add: h Let_def column_at_def sets)
  qed
qed simp

lemma decode_columns_correct:
  assumes code: "rc_ok code" and grp: "group_value code sources columns X" and c: "columns < 65536"
    and sets: "sets = map (\<lambda>(i, _). (i, overflow_columns X i [0..<columns])) (filter (\<lambda>(i, _). \<not> i < rc_k code) have)"
    and all: "\<forall>(i, p)\<in>set have. i < rc_n code \<and> p = group_packet code sources columns X i" "rc_k code \<le> card (fst ` set have)"
  shows "\<forall>c\<in>set cols. c < columns \<Longrightarrow> length recovered = rc_k code \<Longrightarrow> length out = rc_k code \<Longrightarrow>
    decode_columns code sets have cols recovered out =
      Some (Inr (map (\<lambda>i. fold (\<lambda>c. put_column (c * 2) (column_at c (sources ! i))) cols (out ! i)) [0..<rc_k code]))"
proof (induction cols arbitrary: recovered out)
  case Nil
  then show ?case by simp (metis map_nth)
next
  case (Cons col cols)
  let ?k = "rc_k code" and ?chunks = "map (column_at col) sources"
  have col: "col < columns" using Cons.prems(1) by simp
  have gather: "gather_column ?k col sets have = Some (map (\<lambda>(i, _). (i, residue_word (X col) i)) have)"
    by (rule gather_column_correct [OF code grp col c sets _ all(1)]) simp
  have "rc_decode code (map (\<lambda>(i, _). (i, residue_word (X col) i)) have) recovered = Inr ?chunks"
  proof (rule rc_decode_correct [OF code _ Cons.prems(2)])
    show "column_value code ?chunks (X col)" using grp col by (simp add: group_value_def)
    show "\<forall>(i, w)\<in>set (map (\<lambda>(i, _). (i, residue_word (X col) i)) have). i < rc_n code \<and> unat w = X col mod md i"
      using all(1) code_idx [OF code] by (auto simp: unat_residue_word)
    have "fst ` set (map (\<lambda>(i, _). (i, residue_word (X col) i)) have) = fst ` set have" by force
    with all(2) show "?k \<le> card (fst ` set (map (\<lambda>(i, _). (i, residue_word (X col) i)) have))" by simp
  qed
  moreover have "length ?chunks = ?k" using grp by (simp add: group_value_def)
  moreover have "fold (\<lambda>i out. out[i := put_column (col * 2) (?chunks ! i) (out ! i)]) [0..<length out] out =
      map (\<lambda>i. put_column (col * 2) (?chunks ! i) (out ! i)) [0..<?k]"
    using Cons.prems(3) fold_modify_upt [of ?k out "\<lambda>i b. put_column (col * 2) (?chunks ! i) b"] by simp
  ultimately show ?case using gather Cons grp by (simp add: group_value_def)
qed

text \<open>
  C8. Any \<open>k\<close> of the \<open>k + r\<close> packets of a group bring back the \<open>k\<close> source packets, whichever were
  lost and in whatever order and however often the others arrive. The repair packets are made by
  Barrett reduction and Garner's algorithm on machine words and carry a list of the columns whose
  residue needs a seventeenth bit; none of it overflows for packets shorter than 128 KiB.
\<close>

theorem residue_packets_recover:
  assumes "rc_new k r = Inr code" "length sources = k" "\<forall>s\<in>set sources. length s = len" "even len" "len < 131072"
  shows "\<exists>repairs. encode_packets code sources = Some (Inr repairs) \<and> length repairs = r \<and>
    (\<forall>have out. (\<forall>(i, p)\<in>set have. i < k + r \<and> p = (sources @ repairs) ! i) \<and> k \<le> card (fst ` set have) \<and> length out = k \<longrightarrow>
       decode_packets code have len out = Some (Inr sources))"
proof -
  note code = rc_new_ok [OF assms(1)]
  obtain columns where cols: "len = columns * 2" "columns < 65536" using assms(4,5) by (auto elim!: evenE)
  obtain X where grp: "group_value code sources columns X"
    using group_value_exists [OF code(1), of sources columns] assms(2,3) cols(1) code(2) by auto
  let ?repairs = "map (\<lambda>j. seal_repair (repair_body X (k + j) [0..<columns] (replicate (columns * 2) 0),
      overflow_columns X (k + j) [0..<columns])) [0..<r]"
  have gp: "(sources @ ?repairs) ! i = group_packet code sources columns X i" if "i < k + r" for i
    using that assms(2) code(2) by (auto simp: group_packet_def nth_append)
  have "decode_packets code have len out = Some (Inr sources)"
    if h: "\<forall>(i, p)\<in>set have. i < k + r \<and> p = (sources @ ?repairs) ! i" "k \<le> card (fst ` set have)" "length out = k" for "have" out
  proof -
    have all: "\<forall>(i, p)\<in>set have. i < rc_n code \<and> p = group_packet code sources columns X i" "rc_k code \<le> card (fst ` set have)"
      using h(1,2) gp code by auto
    have "card (fst ` set have) \<le> length have" by (metis card_image_le card_length le_trans List.finite_set)
    then have few: "\<not> length have < k" using h(2) by simp
    have "read_overflows (rc_k code) (columns * 2) have =
        Inr (map (\<lambda>(i, _). (i, overflow_columns X i [0..<columns])) (filter (\<lambda>(i, _). \<not> i < rc_k code) have))"
      using all(1) by (intro read_overflows_correct [OF cols(2)]) auto
    moreover have "decode_columns code (map (\<lambda>(i, _). (i, overflow_columns X i [0..<columns])) (filter (\<lambda>(i, _). \<not> i < rc_k code) have))
        have [0..<columns] (replicate k 0) (map (\<lambda>_. replicate len 0) out) =
        Some (Inr (map (\<lambda>i. fold (\<lambda>c. put_column (c * 2) (column_at c (sources ! i))) [0..<columns] (replicate len 0)) [0..<k]))"
      using decode_columns_correct [OF code(1) grp cols(2) refl all, of "[0..<columns]"] code(2) h(3) by simp
    moreover have "map (\<lambda>i. fold (\<lambda>c. put_column (c * 2) (column_at c (sources ! i))) [0..<columns] (replicate len 0)) [0..<k] = sources"
    proof (rule nth_equalityI)
      fix i assume "i < length (map (\<lambda>i. fold (\<lambda>c. put_column (c * 2) (column_at c (sources ! i))) [0..<columns] (replicate len 0)) [0..<k])"
      then have i: "i < k" by simp
      then have "length (sources ! i) = len" using assms(2,3) by simp
      then have "fold (\<lambda>c. put_column (c * 2) (column_at c (sources ! i))) [0..<columns] (replicate len 0) = sources ! i"
        using cols(1) by (intro columns_eq) (auto simp: column_at_put_columns)
      with i show "map (\<lambda>i. fold (\<lambda>c. put_column (c * 2) (column_at c (sources ! i))) [0..<columns] (replicate len 0)) [0..<k] ! i = sources ! i"
        by simp
    qed (use assms(2) in simp)
    ultimately show ?thesis using few h(3) code(2) cols(1) by (simp add: decode_packets_def)
  qed
  then show ?thesis
    using encode_packets_correct [OF code(1) grp] code by (intro exI [of _ ?repairs]) simp
qed

theorem residue_packets_recover_witness:
  "\<exists>code repairs. rc_new 2 1 = Inr code \<and> encode_packets code [[1, 2, 3, 4], [5, 6, 7, 8]] = Some (Inr repairs) \<and>
    decode_packets code [(2, repairs ! 0), (0, [1, 2, 3, 4])] 4 [[], []] = Some (Inr [[1, 2, 3, 4], [5, 6, 7, 8]])"
proof -
  obtain code where c: "rc_new 2 1 = Inr code" by (cases "rc_tables 3") (simp add: rc_new_def)
  from residue_packets_recover [OF c, of "[[1, 2, 3, 4], [5, 6, 7, 8]]" 4] obtain repairs where
    "encode_packets code [[1, 2, 3, 4], [5, 6, 7, 8]] = Some (Inr repairs)" "length repairs = 1" and
    "\<And>have out. (\<forall>(i, p)\<in>set have. i < 2 + 1 \<and> p = ([[1, 2, 3, 4], [5, 6, 7, 8]] @ repairs) ! i) \<and>
      2 \<le> card (fst ` set have) \<and> length out = 2 \<Longrightarrow> decode_packets code have 4 out = Some (Inr [[1, 2, 3, 4], [5, 6, 7, 8]])"
    by auto
  then show ?thesis using c by (intro exI [of _ code] exI [of _ repairs]) simp
qed

text \<open>
  In longer packets a column is named by its number modulo \<open>65536\<close>: a column that overflowed marks the
  one \<open>65536\<close> before it as well, whose residue is then read \<open>65536\<close> too large.
\<close>

lemma overflow_columns_alias:
  assumes "c + 65536 < columns" "residue_word (X (c + 65536)) i > 65535"
  shows "of_nat c \<in> set (overflow_columns X i [0..<columns])"
proof -
  have "(of_nat c :: u16) = of_nat (c + 65536)" by (simp only: word_of_nat_eq_iff) (simp add: take_bit_eq_mod)
  moreover have "c + 65536 \<in> set (filter (\<lambda>col. residue_word (X col) i > 65535) [0..<columns])" using assms by simp
  ultimately show ?thesis unfolding overflow_columns_def by (metis (no_types, lifting) image_eqI list.set_map)
qed

end
