(* ===== verification/Ordered_Map.thy ===== *)
theory Ordered_Map
  imports SubEtha_Prelude
begin

text \<open>
  The standard library's ordered map, as far as the sources use it: entries in ascending key order, at
  most one per key.
\<close>

type_synonym ('k, 'v) btree_map = "('k \<times> 'v) list"

abbreviation bt_get :: "('k, 'v) btree_map \<Rightarrow> 'k \<Rightarrow> 'v option" where
  "bt_get \<equiv> map_of"

fun bt_insert :: "'k::linorder \<Rightarrow> 'v \<Rightarrow> ('k, 'v) btree_map \<Rightarrow> ('k, 'v) btree_map" where
  "bt_insert k v [] = [(k, v)]"
| "bt_insert k v ((k', v') # m) =
     (if k < k' then (k, v) # (k', v') # m else if k = k' then (k, v) # m else (k', v') # bt_insert k v m)"

definition bt_retain :: "('k \<Rightarrow> bool) \<Rightarrow> ('k, 'v) btree_map \<Rightarrow> ('k, 'v) btree_map" where
  "bt_retain P m = filter (\<lambda>(k, _). P k) m"

definition bt_remove :: "'k \<Rightarrow> ('k, 'v) btree_map \<Rightarrow> ('k, 'v) btree_map" where
  "bt_remove k m = bt_retain (\<lambda>k'. k' \<noteq> k) m"

abbreviation bt_sorted :: "('k::linorder, 'v) btree_map \<Rightarrow> bool" where
  "bt_sorted m \<equiv> sorted_wrt (<) (map fst m)"

lemma bt_insert_keys: "set (map fst (bt_insert k v m)) = insert k (set (map fst m))"
  by (induction k v m rule: bt_insert.induct) auto

lemma bt_insert_sorted: "bt_sorted m \<Longrightarrow> bt_sorted (bt_insert k v m)"
proof (induction k v m rule: bt_insert.induct)
  case (2 k v k' v' m)
  then show ?case using bt_insert_keys [of k v m] by auto
qed simp

lemma bt_get_insert [simp]: "bt_sorted m \<Longrightarrow> bt_get (bt_insert k v m) = (bt_get m)(k \<mapsto> v)"
proof (induction k v m rule: bt_insert.induct)
  case (2 k v k' v' m)
  have "k < k' \<Longrightarrow> k \<notin> fst ` set m" "k' \<notin> fst ` set m" using 2(2) by auto
  with 2 show ?case by (auto simp: fun_eq_iff map_of_eq_None_iff)
qed auto

lemma bt_get_retain [simp]: "bt_get (bt_retain P m) k = (if P k then bt_get m k else None)"
  by (induction m) (auto simp: bt_retain_def)

lemma bt_get_remove [simp]: "bt_get (bt_remove k m) = (bt_get m)(k := None)"
  by (auto simp: bt_remove_def fun_eq_iff)

lemma bt_retain_sorted: "bt_sorted m \<Longrightarrow> bt_sorted (bt_retain P m)"
  by (induction m) (auto simp: bt_retain_def)

lemma bt_remove_sorted: "bt_sorted m \<Longrightarrow> bt_sorted (bt_remove k m)"
  unfolding bt_remove_def by (rule bt_retain_sorted)

lemma bt_sorted_get: "bt_sorted m \<Longrightarrow> (k, v) \<in> set m \<longleftrightarrow> bt_get m k = Some v"
  by (simp add: strict_sorted_iff map_of_eq_Some_iff)

lemma bt_insert_length: "bt_sorted l \<Longrightarrow> length (bt_insert k v l) = (if bt_get l k = None then Suc (length l) else length l)"
proof (induction k v l rule: bt_insert.induct)
  case (2 k v k' v' l)
  have "k < k' \<Longrightarrow> bt_get l k = None" using 2(2) by (auto simp: map_of_eq_None_iff)
  with 2 show ?case by auto
qed simp

lemma bt_remove_absent: "bt_get l k = None \<Longrightarrow> bt_remove k l = l"
  by (induction l) (auto simp: bt_remove_def bt_retain_def split: if_splits)

lemma bt_remove_length: "bt_sorted l \<Longrightarrow> length (bt_remove k l) = (if bt_get l k = None then length l else length l - 1)"
proof (induction l)
  case (Cons e l)
  have "bt_get l (fst e) = None" using Cons.prems by (auto simp: map_of_eq_None_iff)
  moreover have "l \<noteq> []" if "bt_get l k \<noteq> None" using that by auto
  ultimately show ?case using Cons bt_remove_absent [of l "fst e"]
    by (cases e) (auto simp: bt_remove_def bt_retain_def neq_Nil_conv)
qed (simp add: bt_remove_def bt_retain_def)

lemma bt_remove_less: "bt_get m k = Some v \<Longrightarrow> length (bt_remove k m) < length m"
  unfolding bt_remove_def bt_retain_def by (rule length_filter_less [of "(k, v)"]) (auto dest: map_of_SomeD)

end
