(* ===== verification/Reliable_Udp.thy ===== *)
theory Reliable_Udp
  imports Reed_Solomon Ordered_Map "HOL-Library.Monad_Syntax"
begin

text \<open>
  The block coding and retransmission layer of \<^verbatim>\<open>crates/subetha-cxc/src/reliable_udp.rs\<close>: the sender's
  \<open>Encoder\<close>, which groups items into blocks, adds Reed-Solomon parity and answers retransmit requests, and
  the receiver's \<open>Decoder\<close>, which reassembles blocks, recovers lost shards, delivers items in order and
  asks for what is missing. The outer code across blocks (\<^verbatim>\<open>tower.rs\<close>) is part of both.

  \<open>None\<close> is a panic: an \<open>expect\<close> on an error or an index out of range. The timing and burst sensors, whose
  readings are reported and never consulted for delivery, are left out; so is the parity rule over
  floating point, whose result is an argument of \<open>set_parity\<close>.
\<close>

section \<open>The wire format\<close>

definition PKT_DATA :: u8 where "PKT_DATA = 1"
definition DATA_HEADER :: nat where "DATA_HEADER = 13"
definition EPOCH_OFFSET :: nat where "EPOCH_OFFSET = 9"
definition FLAG_PARITY :: u8 where "FLAG_PARITY = 1"
definition FLAG_OUTER :: u8 where "FLAG_OUTER = 2"
definition FLAG_RETRANSMIT :: u8 where "FLAG_RETRANSMIT = 4"
definition OUTER_ID_BIT :: u32 where "OUTER_ID_BIT = 0x80000000"
definition MAX_SHARDS :: nat where "MAX_SHARDS = 32"
definition ITEM_LEN_PREFIX :: nat where "ITEM_LEN_PREFIX = 2"
definition NAK_NONE :: u32 where "NAK_NONE = - 1"

definition is_data :: "bytes \<Rightarrow> bool" where
  "is_data buf \<longleftrightarrow> buf \<noteq> [] \<and> buf ! 0 = PKT_DATA"

definition is_outer_datagram :: "bytes \<Rightarrow> bool" where
  "is_outer_datagram buf \<longleftrightarrow> length buf > DATA_HEADER \<and> buf ! 0 = PKT_DATA \<and> buf ! 8 AND FLAG_OUTER \<noteq> 0"

definition datagram_epoch :: "bytes \<Rightarrow> u32 option" where
  "datagram_epoch buf =
     (if \<not> is_data buf \<or> length buf < DATA_HEADER then None
      else Some (from_le_u32 (buf ! EPOCH_OFFSET) (buf ! (EPOCH_OFFSET + 1)) (buf ! (EPOCH_OFFSET + 2)) (buf ! (EPOCH_OFFSET + 3))))"

record Feedback =
  fb_ack_through :: u32
  fb_nak_block :: u32
  fb_nak_mask :: u32
  fb_loss_x255 :: u8
  fb_burstiness_x255 :: u8
  fb_owd_trend_class :: u8
  fb_loss_class :: u8

record PendingBlock =
  pb_k :: u8
  pb_r :: u8
  pb_shard_len :: nat
  pb_shards :: "bytes list"

definition datagram_flagged :: "PendingBlock \<Rightarrow> u32 \<Rightarrow> nat \<Rightarrow> u8 \<Rightarrow> u32 \<Rightarrow> bytes" where
  "datagram_flagged pb block_id idx extra_flags epoch =
     (let parity = (if idx \<ge> unat (pb_k pb) then FLAG_PARITY else 0)
      in [PKT_DATA] @ to_le_u32 block_id @ [of_nat idx, pb_k pb, pb_r pb, parity OR extra_flags] @
         to_le_u32 epoch @ pb_shards pb ! idx)"

definition datagram :: "PendingBlock \<Rightarrow> u32 \<Rightarrow> nat \<Rightarrow> u32 \<Rightarrow> bytes" where
  "datagram pb block_id idx epoch = datagram_flagged pb block_id idx 0 epoch"

text \<open>The outer code across blocks is the Reed-Solomon code with whole blocks as symbols.\<close>

definition segment_code_new :: "nat \<Rightarrow> nat \<Rightarrow> FecError + RsCode" where
  "segment_code_new d r_outer = rs_new d r_outer"

section \<open>The sender\<close>

record Encoder =
  en_k :: nat
  en_r :: nat
  en_r_min :: nat
  en_r_max :: nat
  en_shard_len :: nat
  en_epoch :: u32
  en_next_block :: u32
  en_unservable_naks :: u64
  en_last_unservable_nak :: "u32 option"
  en_tail_probe_naks :: u64
  en_retx_sent :: u64
  en_retx_lo :: "u32 option"
  en_retx_hi :: "u32 option"
  en_last_nak_block :: "u32 option"
  en_last_retx_block :: "u32 option"
  en_acked_through :: u32
  en_flow_window :: u32
  en_staged :: "bytes list"
  en_pending :: "(u32, PendingBlock) btree_map"
  en_tower_d :: nat
  en_tower_r_outer :: nat
  en_seg_infos :: "bytes list"
  en_seg_id :: u32
  en_passthrough_blocks :: u64
  en_fec_blocks :: u64

text \<open>The host: architecture, Galois-field backend and, for a sender, the session epoch it derived.\<close>

type_synonym host = "arch \<times> GfBackend"

definition clamp :: "nat \<Rightarrow> nat \<Rightarrow> nat \<Rightarrow> nat" where
  "clamp lo hi x = (if x < lo then lo else if x > hi then hi else x)"

definition encoder_new :: "u32 \<Rightarrow> nat \<Rightarrow> nat \<Rightarrow> nat \<Rightarrow> Encoder" where
  "encoder_new epoch k r max_item =
     (let r_min = 0; r_max = MAX_SHARDS - k
      in \<lparr>en_k = k, en_r = clamp r_min r_max r, en_r_min = r_min, en_r_max = r_max,
          en_shard_len = max_item + ITEM_LEN_PREFIX, en_epoch = epoch, en_next_block = 0, en_unservable_naks = 0,
          en_last_unservable_nak = None, en_tail_probe_naks = 0, en_retx_sent = 0, en_retx_lo = None, en_retx_hi = None,
          en_last_nak_block = None, en_last_retx_block = None, en_acked_through = 0, en_flow_window = 256,
          en_staged = [], en_pending = [], en_tower_d = 0, en_tower_r_outer = 0, en_seg_infos = [], en_seg_id = 0,
          en_passthrough_blocks = 0, en_fec_blocks = 0\<rparr>)"

definition enable_tower :: "nat \<Rightarrow> nat \<Rightarrow> Encoder \<Rightarrow> Encoder" where
  "enable_tower d r_outer e =
     (if d = 0 \<or> r_outer = 0 \<or> d + r_outer > MAX_SHARDS
      then e\<lparr>en_tower_d := 0, en_tower_r_outer := 0, en_seg_infos := []\<rparr>
      else e\<lparr>en_tower_d := d, en_tower_r_outer := r_outer, en_seg_infos := []\<rparr>)"

definition set_flow_window :: "u32 \<Rightarrow> Encoder \<Rightarrow> Encoder" where
  "set_flow_window blocks e = e\<lparr>en_flow_window := max blocks 1\<rparr>"

definition in_flight :: "Encoder \<Rightarrow> u32" where
  "in_flight e = en_next_block e - en_acked_through e"

definition flow_blocked :: "Encoder \<Rightarrow> bool" where
  "flow_blocked e \<longleftrightarrow> in_flight e \<ge> en_flow_window e"

definition set_parity :: "nat \<Rightarrow> Encoder \<Rightarrow> Encoder" where
  "set_parity r e = e\<lparr>en_r := clamp (en_r_min e) (en_r_max e) r\<rparr>"

definition resize :: "nat \<Rightarrow> bytes \<Rightarrow> bytes" where
  "resize n s = take n s @ replicate (n - length s) 0"

text \<open>The parity shards of a block; \<open>None\<close> where the code's \<open>expect\<close> panics.\<close>

definition parity_shards :: "host \<Rightarrow> nat \<Rightarrow> nat \<Rightarrow> nat \<Rightarrow> bytes list \<Rightarrow> bytes list option" where
  "parity_shards host k r shard_len shards =
     (case rs_new k r of
        Inl _ \<Rightarrow> None
      | Inr code \<Rightarrow>
          (case encode (fst host) (snd host) code shards (replicate r (replicate shard_len 0)) of
             Inl _ \<Rightarrow> None
           | Inr parity \<Rightarrow> Some parity))"

fun chunks :: "nat \<Rightarrow> bytes \<Rightarrow> nat \<Rightarrow> bytes list" where
  "chunks n bs 0 = []"
| "chunks n bs (Suc fuel) = (if bs = [] then [] else take n bs # chunks n (drop n bs) fuel)"

fun outer_datagrams :: "host \<Rightarrow> Encoder \<Rightarrow> nat \<Rightarrow> u32 \<Rightarrow> nat \<Rightarrow> nat \<Rightarrow> bytes list \<Rightarrow> bytes list option" where
  "outer_datagrams host e d seg_id r_outer oidx [] = Some []"
| "outer_datagrams host e d seg_id r_outer oidx (oinfo # outer) =
     (let k = en_k e; r = en_r e; oshards = chunks (en_shard_len e) oinfo (length oinfo)
      in do {
           oparity \<leftarrow> parity_shards host k r (en_shard_len e) oshards;
           let opb = \<lparr>pb_k = of_nat k, pb_r = of_nat r, pb_shard_len = en_shard_len e, pb_shards = oshards @ oparity\<rparr>;
           let oid = OUTER_ID_BIT OR push_bit 27 (of_nat d) OR push_bit 24 (of_nat r_outer) OR push_bit 8 seg_id OR of_nat oidx;
           out \<leftarrow> outer_datagrams host e d seg_id r_outer (oidx + 1) outer;
           Some (map (\<lambda>i. datagram_flagged opb oid i FLAG_OUTER (en_epoch e)) [0..<k + r] @ out)
         })"

definition seal_segment :: "host \<Rightarrow> Encoder \<Rightarrow> (bytes list \<times> Encoder) option" where
  "seal_segment host e =
     (let r_outer = en_tower_r_outer e; infos = en_seg_infos e; e = e\<lparr>en_seg_infos := []\<rparr>; d = length infos
      in if d = 0 \<or> r_outer = 0 then Some ([], e)
         else
           (case segment_code_new d r_outer of
              Inl _ \<Rightarrow> None
            | Inr seg \<Rightarrow>
                (case encode (fst host) (snd host) seg infos (replicate r_outer (replicate (length (infos ! 0)) 0)) of
                   Inl _ \<Rightarrow> None
                 | Inr outer \<Rightarrow>
                     do {
                       let seg_id = en_seg_id e;
                       let e = e\<lparr>en_seg_id := seg_id + 1\<rparr>;
                       out \<leftarrow> outer_datagrams host e d seg_id r_outer 0 outer;
                       Some (out, e)
                     })))"

definition block_shard_len :: "Encoder \<Rightarrow> nat" where
  "block_shard_len e =
     (if en_tower_d e > 0 then en_shard_len e
      else max (if en_staged e = [] then ITEM_LEN_PREFIX else Max (set (map length (en_staged e)))) ITEM_LEN_PREFIX)"

definition data_shards :: "Encoder \<Rightarrow> bytes list" where
  "data_shards e =
     (let len = block_shard_len e
      in map (resize len) (en_staged e) @ replicate (en_k e - length (en_staged e)) (replicate len 0))"

definition seal_block :: "host \<Rightarrow> Encoder \<Rightarrow> (bytes list \<times> Encoder) option" where
  "seal_block host e =
     (let len = block_shard_len e; k = en_k e; r = en_r e; shards = data_shards e
      in do {
           parity \<leftarrow> (if r > 0 then parity_shards host k r len shards else Some []);
           let block_id = en_next_block e;
           let pb = \<lparr>pb_k = of_nat k, pb_r = of_nat r, pb_shard_len = len, pb_shards = shards @ parity\<rparr>;
           let datagrams = map (\<lambda>i. datagram pb block_id i (en_epoch e)) [0..<k + r];
           let e = e\<lparr>en_passthrough_blocks := en_passthrough_blocks e + (if r = 0 then 1 else 0),
                     en_fec_blocks := en_fec_blocks e + (if r = 0 then 0 else 1),
                     en_next_block := block_id + 1, en_pending := bt_insert block_id pb (en_pending e), en_staged := []\<rparr>;
           if en_tower_d e > 0 then
             let e = e\<lparr>en_seg_infos := en_seg_infos e @ [concat shards]\<rparr>
             in if length (en_seg_infos e) = en_tower_d e then
                  do { (out, e) \<leftarrow> seal_segment host e; Some (datagrams @ out, e) }
                else Some (datagrams, e)
           else Some (datagrams, e)
         })"

definition push :: "host \<Rightarrow> bytes \<Rightarrow> Encoder \<Rightarrow> (bytes list \<times> Encoder) option" where
  "push host item e =
     (let shard = to_le_u16 (of_nat (length item)) @ item;
          e = e\<lparr>en_staged := en_staged e @ [shard]\<rparr>
      in if length (en_staged e) = en_k e then seal_block host e else Some ([], e))"

definition flush :: "host \<Rightarrow> Encoder \<Rightarrow> (bytes list \<times> Encoder) option" where
  "flush host e =
     do {
       (out, e) \<leftarrow> (if en_staged e = [] then Some ([], e) else seal_block host e);
       if en_tower_d e > 0 \<and> en_seg_infos e \<noteq> [] then
         do { (out', e) \<leftarrow> seal_segment host e; Some (out @ out', e) }
       else Some (out, e)
     }"

definition min_opt :: "u32 option \<Rightarrow> u32 \<Rightarrow> u32 option" where
  "min_opt lo x = Some (case lo of None \<Rightarrow> x | Some l \<Rightarrow> min l x)"

definition max_opt :: "u32 option \<Rightarrow> u32 \<Rightarrow> u32 option" where
  "max_opt hi x = Some (case hi of None \<Rightarrow> x | Some h \<Rightarrow> max h x)"

definition retransmit_shards :: "PendingBlock \<Rightarrow> u32 \<Rightarrow> nat list \<Rightarrow> u32 \<Rightarrow> bytes list" where
  "retransmit_shards pb block_id idxs epoch = map (\<lambda>idx. datagram_flagged pb block_id idx FLAG_RETRANSMIT epoch) idxs"

definition on_feedback :: "Feedback \<Rightarrow> Encoder \<Rightarrow> bytes list \<times> Encoder" where
  "on_feedback fb e =
     (let e = (if fb_ack_through fb > en_acked_through e then e\<lparr>en_acked_through := fb_ack_through fb\<rparr> else e);
          e = e\<lparr>en_pending := bt_retain (\<lambda>i. \<not> i < fb_ack_through fb) (en_pending e)\<rparr>
      in if fb_nak_block fb = NAK_NONE then ([], e)
         else
           let b = fb_nak_block fb; e = e\<lparr>en_last_nak_block := Some b\<rparr>
           in case bt_get (en_pending e) b of
                Some pb \<Rightarrow>
                  let idxs = filter (\<lambda>idx. fb_nak_mask fb AND push_bit (idx mod 32) 1 \<noteq> 0) [0..<length (pb_shards pb)]
                  in (retransmit_shards pb b idxs (en_epoch e),
                      if idxs = [] then e
                      else e\<lparr>en_retx_sent := en_retx_sent e + of_nat (length idxs), en_last_retx_block := Some b,
                             en_retx_lo := min_opt (en_retx_lo e) b, en_retx_hi := max_opt (en_retx_hi e) b\<rparr>)
              | None \<Rightarrow>
                  if b < en_next_block e then
                    ([], e\<lparr>en_unservable_naks := en_unservable_naks e + 1,
                           en_last_unservable_nak := Some b\<rparr>)
                  else
                    ([], e\<lparr>en_tail_probe_naks := en_tail_probe_naks e + 1,
                           en_last_unservable_nak := (if b > en_next_block e then Some b else en_last_unservable_nak e)\<rparr>))"

definition oldest_pending :: "Encoder \<Rightarrow> u32 option" where
  "oldest_pending e = (case en_pending e of [] \<Rightarrow> None | (i, _) # _ \<Rightarrow> Some i)"

definition probe_block :: "u32 \<Rightarrow> Encoder \<Rightarrow> bytes list" where
  "probe_block block_id e =
     (case bt_get (en_pending e) block_id of
        Some pb \<Rightarrow> retransmit_shards pb block_id [0..<unat (pb_k pb)] (en_epoch e)
      | None \<Rightarrow> [])"

definition retransmit_all_data :: "Encoder \<Rightarrow> bytes list" where
  "retransmit_all_data e =
     concat (map (\<lambda>(i, pb). retransmit_shards pb i [0..<unat (pb_k pb)] (en_epoch e)) (en_pending e))"

section \<open>The receiver\<close>

record RxBlock =
  rb_k :: nat
  rb_r :: nat
  rb_shard_len :: nat
  rb_mask :: u32
  rb_retransmitted :: u32
  rb_false_recovery :: u32
  rb_shards :: "bytes option list"
  rb_decoded :: bool

definition rx_block_new :: "nat \<Rightarrow> nat \<Rightarrow> nat \<Rightarrow> RxBlock" where
  "rx_block_new k r shard_len =
     \<lparr>rb_k = k, rb_r = r, rb_shard_len = shard_len, rb_mask = 0, rb_retransmitted = 0, rb_false_recovery = 0,
      rb_shards = replicate (k + r) None, rb_decoded = False\<rparr>"

definition rx_count :: "RxBlock \<Rightarrow> nat" where
  "rx_count b = count_ones_u32 (rb_mask b)"

record RejectCounts =
  rj_malformed :: u64
  rj_epoch :: u64
  rj_shape :: u64
  rj_delivered :: u64
  rj_window :: u64
  rj_block_shape :: u64
  rj_delivered_lo :: "u32 option"
  rj_delivered_hi :: "u32 option"
  rj_seen_lo :: "u32 option"
  rj_seen_hi :: "u32 option"

record Decoder =
  de_session_epoch :: "u32 option"
  de_unknown_epoch :: "u32 option"
  de_window :: "(u32, RxBlock) btree_map"
  de_next_deliver :: u32
  de_highest_seen :: u32
  de_highest_decoded :: u32
  de_total_expected :: u64
  de_total_missing :: u64
  de_peak_loss :: u8
  de_false_recoveries :: u64
  de_rejects :: RejectCounts
  de_window_cap :: nat
  de_tower_d :: nat
  de_tower_r_outer :: nat
  de_inner_k :: nat
  de_inner_shard_len :: nat
  de_data_infos :: "(u32, bytes) btree_map"
  de_outer_rx :: "(u32, RxBlock) btree_map"
  de_seg_outer :: "(u32, (u32, bytes) btree_map) btree_map"
  de_seg_d :: "(u32, nat) btree_map"

definition decoder_with_window :: "nat \<Rightarrow> Decoder" where
  "decoder_with_window window_cap =
     \<lparr>de_session_epoch = None, de_unknown_epoch = None, de_window = [], de_next_deliver = 0, de_highest_seen = 0,
      de_highest_decoded = 0, de_total_expected = 0, de_total_missing = 0, de_peak_loss = 0, de_false_recoveries = 0,
      de_rejects = \<lparr>rj_malformed = 0, rj_epoch = 0, rj_shape = 0, rj_delivered = 0, rj_window = 0, rj_block_shape = 0,
        rj_delivered_lo = None, rj_delivered_hi = None, rj_seen_lo = None, rj_seen_hi = None\<rparr>,
      de_window_cap = max window_cap 1, de_tower_d = 0, de_tower_r_outer = 0, de_inner_k = 0, de_inner_shard_len = 0,
      de_data_infos = [], de_outer_rx = [], de_seg_outer = [], de_seg_d = []\<rparr>"

definition note_unknown_epoch :: "u32 \<Rightarrow> Decoder \<Rightarrow> Decoder" where
  "note_unknown_epoch epoch d = (if de_session_epoch d \<noteq> Some epoch then d\<lparr>de_unknown_epoch := Some epoch\<rparr> else d)"

definition take_unknown_epoch :: "Decoder \<Rightarrow> u32 option \<times> Decoder" where
  "take_unknown_epoch d = (de_unknown_epoch d, d\<lparr>de_unknown_epoch := None\<rparr>)"

definition adopt_epoch :: "u32 \<Rightarrow> Decoder \<Rightarrow> Decoder" where
  "adopt_epoch epoch d =
     d\<lparr>de_session_epoch := Some epoch, de_unknown_epoch := None, de_window := [], de_next_deliver := 0,
       de_highest_seen := 0, de_highest_decoded := 0, de_data_infos := [], de_outer_rx := [], de_seg_outer := [],
       de_seg_d := []\<rparr>"

text \<open>The data shards of a decoded block, one after the other.\<close>

definition block_info :: "RxBlock \<Rightarrow> bytes" where
  "block_info b = concat (map (\<lambda>i. case rb_shards b ! i of Some s \<Rightarrow> s | None \<Rightarrow> []) [0..<rb_k b])"

definition handle_outer :: "host \<Rightarrow> u32 \<Rightarrow> nat \<Rightarrow> nat \<Rightarrow> nat \<Rightarrow> bytes \<Rightarrow> Decoder \<Rightarrow> Decoder option" where
  "handle_outer host oid shard_index k r payload d =
     (let dd = unat (drop_bit 27 oid AND 0xF); r_outer = unat (drop_bit 24 oid AND 0x7);
          seg_id = drop_bit 8 oid AND 0xFFFF; oidx = oid AND 0xFF
      in if dd = 0 \<or> r_outer = 0 then Some d
         else
           let d = d\<lparr>de_tower_d := max dd (de_tower_d d), de_tower_r_outer := r_outer,
                     de_seg_d := bt_insert seg_id dd (de_seg_d d)\<rparr>;
               shard_len = length payload;
               blk = (case bt_get (de_outer_rx d) oid of Some b \<Rightarrow> b | None \<Rightarrow> rx_block_new k r shard_len);
               d = d\<lparr>de_outer_rx := bt_insert oid blk (de_outer_rx d)\<rparr>
           in if rb_shard_len blk \<noteq> shard_len \<or> rb_k blk \<noteq> k \<or> rb_r blk \<noteq> r then Some d
              else
                let b = push_bit shard_index 1;
                    blk = (if rb_mask blk AND b = 0
                           then blk\<lparr>rb_mask := rb_mask blk OR b, rb_shards := (rb_shards blk)[shard_index := Some payload]\<rparr>
                           else blk)
                in if \<not> rb_decoded blk \<and> rx_count blk \<ge> rb_k blk then
                     (case rs_new (rb_k blk) (rb_r blk) of
                        Inl _ \<Rightarrow> None
                      | Inr code \<Rightarrow>
                          (case decode (fst host) (snd host) code (rb_shards blk) of
                             Inl _ \<Rightarrow> Some (d\<lparr>de_outer_rx := bt_insert oid blk (de_outer_rx d)\<rparr>)
                           | Inr shards \<Rightarrow>
                               let info = block_info (blk\<lparr>rb_shards := shards\<rparr>);
                                   outers = (case bt_get (de_seg_outer d) seg_id of Some m \<Rightarrow> m | None \<Rightarrow> [])
                               in Some (d\<lparr>de_outer_rx := bt_remove oid (de_outer_rx d),
                                          de_seg_outer := bt_insert seg_id (bt_insert oidx info outers) (de_seg_outer d)\<rparr>)))
                   else Some (d\<lparr>de_outer_rx := bt_insert oid blk (de_outer_rx d)\<rparr>))"

definition recovered_block :: "nat \<Rightarrow> nat \<Rightarrow> bytes \<Rightarrow> RxBlock" where
  "recovered_block k shard_len info =
     (rx_block_new k 0 shard_len)\<lparr>rb_shards := map (\<lambda>i. Some (take shard_len (drop (i * shard_len) info))) [0..<k],
       rb_mask := fold (\<lambda>i m. m OR push_bit i 1) [0..<k] 0, rb_decoded := True\<rparr>"

definition try_tower_recover :: "host \<Rightarrow> u32 \<Rightarrow> Decoder \<Rightarrow> bool \<times> Decoder" where
  "try_tower_recover host block_id d =
     (let big_d = de_tower_d d; r_outer = de_tower_r_outer d
      in if big_d = 0 \<or> r_outer = 0 \<or> de_inner_k d = 0 then (False, d)
         else
           let seg_id = block_id div of_nat big_d; base = seg_id * of_nat big_d
           in case bt_get (de_seg_d d) seg_id of
                None \<Rightarrow> (False, d)
              | Some dd \<Rightarrow>
                  let idx_in_seg = unat (block_id - base)
                  in if idx_in_seg \<ge> dd then (False, d)
                     else (case bt_get (de_seg_outer d) seg_id of
                         None \<Rightarrow> (False, d)
                       | Some outers \<Rightarrow>
                           let blocks = map (\<lambda>i. bt_get (de_data_infos d) (base + of_nat i)) [0..<dd] @
                                        map (\<lambda>j. bt_get outers (of_nat j)) [0..<r_outer]
                           in if length (filter (\<lambda>b. b \<noteq> None) blocks) < dd then (False, d)
                              else (case segment_code_new dd r_outer of
                                  Inl _ \<Rightarrow> (False, d)
                                | Inr code \<Rightarrow>
                                    (case decode (fst host) (snd host) code blocks of
                                       Inl _ \<Rightarrow> (False, d)
                                     | Inr blocks \<Rightarrow>
                                         (case blocks ! idx_in_seg of
                                            None \<Rightarrow> (False, d)
                                          | Some info \<Rightarrow>
                                              let k = de_inner_k d; shard_len = max (de_inner_shard_len d) 1
                                              in if length info \<noteq> k * shard_len then (False, d)
                                                 else (True, d\<lparr>de_data_infos := bt_insert block_id info (de_data_infos d),
                                                        de_highest_decoded := max (de_highest_decoded d) block_id,
                                                        de_window := bt_insert block_id (recovered_block k shard_len info)
                                                          (de_window d)\<rparr>))))))"

text \<open>The items of a decoded block; \<open>None\<close> for a shard too short to hold its length.\<close>

fun shard_items :: "bytes option list \<Rightarrow> bytes list option" where
  "shard_items [] = Some []"
| "shard_items (s # ss) =
     (case s of
        None \<Rightarrow> None
      | Some shard \<Rightarrow>
          if \<not> 1 < length shard then None
          else
            let item_len = unat (from_le_u16 (shard ! 0) (shard ! 1))
            in do {
                 items \<leftarrow> shard_items ss;
                 Some (if item_len > 0
                       then drop ITEM_LEN_PREFIX (take (min (ITEM_LEN_PREFIX + item_len) (length shard)) shard) # items
                       else items)
               })"

text \<open>The loss accounting of a delivered block; \<open>guard\<close> is the reordering guard's setting.\<close>

definition low_mask :: "nat \<Rightarrow> u32" where
  "low_mask n = (if n \<ge> 32 then - 1 else push_bit n 1 - 1)"

definition loss_x255 :: "Decoder \<Rightarrow> u8" where
  "loss_x255 d =
     (if de_total_expected d = 0 then 0
      else of_nat (min (min (unat (de_total_missing d) * 255) (2 ^ 64 - 1) div unat (de_total_expected d)) 255))"

definition account_block :: "bool \<Rightarrow> RxBlock \<Rightarrow> Decoder \<Rightarrow> Decoder" where
  "account_block guard blk d =
     (let data_mask = low_mask (rb_k blk);
          data_present = count_ones_u32 (rb_mask blk AND data_mask);
          fec_recovered = rb_k blk - data_present;
          arq_recovered = (if guard then count_ones_u32 (rb_retransmitted blk AND NOT (rb_false_recovery blk) AND data_mask)
                           else count_ones_u32 (rb_retransmitted blk AND data_mask));
          d = d\<lparr>de_false_recoveries := de_false_recoveries d + of_nat (count_ones_u32 (rb_false_recovery blk AND data_mask)),
                de_total_expected := de_total_expected d * 31 div 32 + of_nat (rb_k blk),
                de_total_missing := de_total_missing d * 31 div 32 + of_nat fec_recovered + of_nat arq_recovered\<rparr>
      in d\<lparr>de_peak_loss := max (de_peak_loss d) (loss_x255 d)\<rparr>)"

text \<open>
  The delivery loop. An iteration delivers a block of the window or recovers one from the outer code, so
  twice the blocks held plus those the known segments describe, plus one, bounds the iterations.
\<close>

fun drain_loop :: "nat \<Rightarrow> host \<Rightarrow> bool \<Rightarrow> Decoder \<Rightarrow> (bytes list \<times> Decoder) option" where
  "drain_loop 0 host guard d = None"
| "drain_loop (Suc fuel) host guard d =
     (let bid = de_next_deliver d
      in case bt_get (de_window d) bid of
           None \<Rightarrow>
             (case try_tower_recover host bid d of
                (True, d) \<Rightarrow> drain_loop fuel host guard d
              | (False, d) \<Rightarrow> Some ([], d))
         | Some blk \<Rightarrow>
             if \<not> rb_decoded blk then Some ([], d)
             else
               do {
                 let d = d\<lparr>de_window := bt_remove bid (de_window d)\<rparr>;
                 let d = account_block guard blk d;
                 items \<leftarrow> shard_items (take (rb_k blk) (rb_shards blk));
                 let d = d\<lparr>de_next_deliver := bid + 1\<rparr>;
                 (out, d) \<leftarrow> drain_loop fuel host guard d;
                 Some (items @ out, d)
               })"

definition drain_fuel :: "Decoder \<Rightarrow> nat" where
  "drain_fuel d = 2 * (length (de_window d) + sum_list (map snd (de_seg_d d))) + 1"

text \<open>The bookkeeping after a delivery keeps the recovery records within one window of the frontier.\<close>

definition sat_sub_u32 :: "u32 \<Rightarrow> u32 \<Rightarrow> u32" where
  "sat_sub_u32 a b = (if a < b then 0 else a - b)"

definition prune_records :: "Decoder \<Rightarrow> Decoder" where
  "prune_records d =
     (let keep_from = sat_sub_u32 (de_next_deliver d) (of_nat (de_window_cap d));
          d = d\<lparr>de_data_infos := bt_retain (\<lambda>i. i \<ge> keep_from) (de_data_infos d)\<rparr>
      in if de_tower_d d > 0 then
           let keep_seg = sat_sub_u32 (keep_from div of_nat (de_tower_d d)) 1
           in d\<lparr>de_seg_outer := bt_retain (\<lambda>s. s \<ge> keep_seg) (de_seg_outer d),
                de_seg_d := bt_retain (\<lambda>s. s \<ge> keep_seg) (de_seg_d d),
                de_outer_rx := bt_retain (\<lambda>oid. drop_bit 8 oid AND 0xFFFF \<ge> keep_seg) (de_outer_rx d)\<rparr>
         else d)"

definition drain_in_order :: "host \<Rightarrow> bool \<Rightarrow> Decoder \<Rightarrow> (bytes list \<times> Decoder) option" where
  "drain_in_order host guard d =
     do { (out, d) \<leftarrow> drain_loop (drain_fuel d) host guard d; Some (out, prune_records d) }"

text \<open>A data shard joins its block.\<close>

definition add_shard :: "nat \<Rightarrow> bytes \<Rightarrow> bool \<Rightarrow> RxBlock \<Rightarrow> RxBlock" where
  "add_shard shard_index payload is_retransmit blk =
     (let b = push_bit shard_index 1
      in if rb_mask blk AND b = 0 then
           blk\<lparr>rb_mask := rb_mask blk OR b, rb_shards := (rb_shards blk)[shard_index := Some payload],
               rb_retransmitted := (if is_retransmit then rb_retransmitted blk OR b else rb_retransmitted blk)\<rparr>
         else if \<not> is_retransmit \<and> rb_retransmitted blk AND b \<noteq> 0 then
           blk\<lparr>rb_false_recovery := rb_false_recovery blk OR b\<rparr>
         else blk)"

text \<open>Decoding a block that has enough shards; \<open>None\<close> where the code's \<open>expect\<close> panics.\<close>

definition decode_block_shards :: "host \<Rightarrow> RxBlock \<Rightarrow> RxBlock option" where
  "decode_block_shards host blk =
     (if rb_decoded blk \<or> rx_count blk < rb_k blk then Some blk
      else if rb_r blk = 0 then
        Some (if \<forall>i\<in>set [0..<rb_k blk]. rb_shards blk ! i \<noteq> None then blk\<lparr>rb_decoded := True\<rparr> else blk)
      else (case rs_new (rb_k blk) (rb_r blk) of
          Inl _ \<Rightarrow> None
        | Inr code \<Rightarrow>
            (case decode (fst host) (snd host) code (rb_shards blk) of
               Inl _ \<Rightarrow> Some blk
             | Inr shards \<Rightarrow> Some (blk\<lparr>rb_shards := shards, rb_decoded := True\<rparr>))))"

definition sat_add_u32 :: "u32 \<Rightarrow> u32 \<Rightarrow> u32" where
  "sat_add_u32 a b = (if a > - 1 - b then - 1 else a + b)"

text \<open>A data datagram that passed the checks on its header.\<close>

definition ingest_data :: "host \<Rightarrow> bool \<Rightarrow> u32 \<Rightarrow> nat \<Rightarrow> nat \<Rightarrow> nat \<Rightarrow> bool \<Rightarrow> bytes \<Rightarrow> Decoder \<Rightarrow> (bytes list \<times> Decoder) option" where
  "ingest_data host guard block_id shard_index k r is_retransmit payload d =
     (let d = (if de_inner_k d = 0 then d\<lparr>de_inner_k := k, de_inner_shard_len := length payload\<rparr> else d);
          rj = de_rejects d
      in if block_id < de_next_deliver d then
           Some ([], d\<lparr>de_rejects := rj\<lparr>rj_delivered := rj_delivered rj + 1,
                  rj_delivered_lo := min_opt (rj_delivered_lo rj) block_id, rj_delivered_hi := max_opt (rj_delivered_hi rj) block_id\<rparr>\<rparr>)
         else if block_id \<ge> sat_add_u32 (de_next_deliver d) (of_nat (de_window_cap d)) then
           Some ([], d\<lparr>de_rejects := rj\<lparr>rj_window := rj_window rj + 1\<rparr>\<rparr>)
         else
           let d = (if block_id > de_highest_seen d then d\<lparr>de_highest_seen := block_id\<rparr> else d);
               shard_len = length payload;
               blk = (case bt_get (de_window d) block_id of Some b \<Rightarrow> b | None \<Rightarrow> rx_block_new k r shard_len);
               d = d\<lparr>de_window := bt_insert block_id blk (de_window d)\<rparr>
           in if rb_shard_len blk \<noteq> shard_len \<or> rb_k blk \<noteq> k \<or> rb_r blk \<noteq> r then
                drain_in_order host guard (d\<lparr>de_rejects := rj\<lparr>rj_block_shape := rj_block_shape rj + 1\<rparr>\<rparr>)
              else
                do {
                  let blk = add_shard shard_index payload is_retransmit blk;
                  blk' \<leftarrow> decode_block_shards host blk;
                  let d = d\<lparr>de_window := bt_insert block_id blk' (de_window d)\<rparr>;
                  let d = (if rb_decoded blk' \<and> \<not> rb_decoded blk
                           then d\<lparr>de_data_infos := bt_insert block_id (block_info blk') (de_data_infos d),
                                  de_highest_decoded := max (de_highest_decoded d) block_id\<rparr>
                           else d);
                  drain_in_order host guard d
                })"

definition ingest :: "host \<Rightarrow> bool \<Rightarrow> bytes \<Rightarrow> Decoder \<Rightarrow> (bytes list \<times> Decoder) option" where
  "ingest host guard buf d =
     (let rj = de_rejects d
      in if \<not> is_data buf \<or> length buf < DATA_HEADER then
           Some ([], d\<lparr>de_rejects := rj\<lparr>rj_malformed := rj_malformed rj + 1\<rparr>\<rparr>)
         else
           let block_id = from_le_u32 (buf ! 1) (buf ! 2) (buf ! 3) (buf ! 4);
               shard_index = unat (buf ! 5); k = unat (buf ! 6); r = unat (buf ! 7);
               is_retransmit = (buf ! 8 AND FLAG_RETRANSMIT \<noteq> 0);
               rj = rj\<lparr>rj_seen_lo := min_opt (rj_seen_lo rj) block_id, rj_seen_hi := max_opt (rj_seen_hi rj) block_id\<rparr>;
               d = d\<lparr>de_rejects := rj\<rparr>;
               epoch = from_le_u32 (buf ! EPOCH_OFFSET) (buf ! (EPOCH_OFFSET + 1)) (buf ! (EPOCH_OFFSET + 2)) (buf ! (EPOCH_OFFSET + 3))
           in if de_session_epoch d \<noteq> None \<and> de_session_epoch d \<noteq> Some epoch then
                Some ([], d\<lparr>de_unknown_epoch := Some epoch, de_rejects := rj\<lparr>rj_epoch := rj_epoch rj + 1\<rparr>\<rparr>)
              else
                let d = d\<lparr>de_session_epoch := Some epoch\<rparr>; payload = drop DATA_HEADER buf
                in if k = 0 \<or> k + r > MAX_SHARDS \<or> shard_index \<ge> k + r then
                     Some ([], d\<lparr>de_rejects := rj\<lparr>rj_shape := rj_shape rj + 1\<rparr>\<rparr>)
                   else if block_id AND OUTER_ID_BIT \<noteq> 0 then
                     do { d \<leftarrow> handle_outer host block_id shard_index k r payload d; drain_in_order host guard d }
                   else ingest_data host guard block_id shard_index k r is_retransmit payload d)"

definition missing_mask :: "RxBlock \<Rightarrow> u32" where
  "missing_mask blk = low_mask (rb_k blk + rb_r blk) AND NOT (rb_mask blk)"

text \<open>\<open>sensed\<close> holds the three readings of the sensors.\<close>

definition feedback :: "u8 \<times> u8 \<times> u8 \<Rightarrow> bool \<Rightarrow> Decoder \<Rightarrow> Feedback" where
  "feedback sensed drive_arq d =
     (let ack_through = de_next_deliver d;
          overdue = (drive_arq \<or> de_highest_seen d > ack_through);
          (nak_block, nak_mask) =
            (if overdue then
               (case bt_get (de_window d) ack_through of
                  Some blk \<Rightarrow> if \<not> rb_decoded blk then (ack_through, missing_mask blk) else (NAK_NONE, 0)
                | None \<Rightarrow> (ack_through, - 1))
             else (NAK_NONE, 0))
      in \<lparr>fb_ack_through = ack_through, fb_nak_block = nak_block, fb_nak_mask = nak_mask, fb_loss_x255 = loss_x255 d,
          fb_burstiness_x255 = fst sensed, fb_owd_trend_class = fst (snd sensed), fb_loss_class = snd (snd sensed)\<rparr>)"

definition push_gap :: "Decoder \<Rightarrow> u32 \<Rightarrow> (u32 \<times> u32) list \<Rightarrow> (u32 \<times> u32) list" where
  "push_gap d bid gaps =
     (case bt_get (de_window d) bid of
        Some blk \<Rightarrow> if \<not> rb_decoded blk then gaps @ [(bid, missing_mask blk)] else gaps
      | None \<Rightarrow> gaps @ [(bid, - 1)])"

text \<open>
  The sweep of the gaps; \<open>fuel\<close> counts the block ids from the first to the last one swept, which is below
  the largest \<open>u32\<close>, data block ids having the top bit clear.
\<close>

fun gap_sweep :: "nat \<Rightarrow> nat \<Rightarrow> Decoder \<Rightarrow> u32 \<Rightarrow> (u32 \<times> u32) list \<Rightarrow> (u32 \<times> u32) list" where
  "gap_sweep 0 max_gaps d bid gaps = gaps"
| "gap_sweep (Suc fuel) max_gaps d bid gaps =
     (if bid \<le> de_highest_decoded d \<and> length gaps < max_gaps
      then gap_sweep fuel max_gaps d (sat_add_u32 bid 1) (push_gap d bid gaps) else gaps)"

definition missing_blocks :: "nat \<Rightarrow> bool \<Rightarrow> Decoder \<Rightarrow> (u32 \<times> u32) list" where
  "missing_blocks max_gaps drive_tail d =
     (let nd = de_next_deliver d; hi = de_highest_seen d;
          gaps = gap_sweep (unat (de_highest_decoded d) + 1 - unat nd) max_gaps d nd []
      in if drive_tail \<and> length gaps < max_gaps then push_gap d (max nd hi) gaps else gaps)"

definition skip_head :: "host \<Rightarrow> bool \<Rightarrow> Decoder \<Rightarrow> (bytes list \<times> Decoder) option" where
  "skip_head host guard d =
     (let bid = de_next_deliver d
      in drain_in_order host guard (d\<lparr>de_window := bt_remove bid (de_window d), de_data_infos := bt_remove bid (de_data_infos d),
           de_next_deliver := bid + 1\<rparr>))"

definition head_status :: "Decoder \<Rightarrow> (u32 \<times> nat \<times> nat \<times> bool) option" where
  "head_status d =
     (let bid = de_next_deliver d
      in map_option (\<lambda>b. (bid, rx_count b, rb_k b, rb_decoded b)) (bt_get (de_window d) bid))"

end
