(* ===== verification/Reliable_Udp_Delivery.thy ===== *)
theory Reliable_Udp_Delivery
  imports Reliable_Udp
begin

text \<open>
  The two ends of the reliable layer of \<^verbatim>\<open>reliable_udp.rs\<close>, each on its own, with the outer code off: what the
  sender puts into a sealed block, and the receiver's invariant against the list of blocks sealed, which
  every datagram of these blocks keeps.
\<close>

section \<open>Datagrams and bitmaps\<close>

lemma mask_bit_clear: "(w :: u32) AND 2 ^ i = 0 \<longleftrightarrow> \<not> bit w i"
  by (simp add: bit_iff_and_push_bit_not_eq_0)

lemma bit_mask_set: "i < 32 \<Longrightarrow> bit ((w :: u32) OR 2 ^ i) j \<longleftrightarrow> bit w j \<or> j = i"
  by (auto simp: bit_or_iff bit_exp_iff)

lemma count_ones_card: "count_ones_u32 w = card {i. bit w i}"
proof -
  have "{i. bit w i} = set (filter (bit w) [0..<32])" by (auto dest: bit_imp_le_length)
  moreover have "card (set (filter (bit w) [0..<32])) = length (filter (bit w) [0..<32])" by (rule distinct_card) simp
  ultimately show ?thesis by (simp add: count_ones_u32_def)
qed

lemma finite_mask_bits: "finite {i. bit (w :: u32) i}"
  by (rule finite_subset [of _ "{..<32}"]) (auto dest: bit_imp_le_length)

lemma outer_bit_clear: "i < 2 ^ 31 \<Longrightarrow> of_nat i AND OUTER_ID_BIT = 0"
proof -
  assume "i < 2 ^ 31"
  then have "\<not> bit i 31" by (simp add: bit_iff_odd)
  then have "\<not> bit (of_nat i :: u32) 31" by (simp add: bit_of_nat_iff)
  with mask_bit_clear [of "of_nat i" 31] show ?thesis by (simp add: OUTER_ID_BIT_def)
qed

lemma datagram_fields:
  fixes pb b idx fl epoch
  defines "buf \<equiv> datagram_flagged pb b idx fl epoch"
  shows "is_data buf" "\<not> length buf < DATA_HEADER" "from_le_u32 (buf ! 1) (buf ! 2) (buf ! 3) (buf ! 4) = b"
    "buf ! 5 = of_nat idx" "buf ! 6 = pb_k pb" "buf ! 7 = pb_r pb" "drop DATA_HEADER buf = pb_shards pb ! idx"
    "from_le_u32 (buf ! EPOCH_OFFSET) (buf ! (EPOCH_OFFSET + 1)) (buf ! (EPOCH_OFFSET + 2)) (buf ! (EPOCH_OFFSET + 3)) = epoch"
  using from_to_le_u32 [of b] from_to_le_u32 [of epoch]
  by (simp_all add: buf_def datagram_flagged_def is_data_def DATA_HEADER_def EPOCH_OFFSET_def Let_def to_le_u32_def
      numeral_2_eq_2 numeral_3_eq_3 eval_nat_numeral)

section \<open>Blocks as the sender sealed them\<close>

definition block_ok :: "nat \<Rightarrow> PendingBlock \<Rightarrow> bool" where
  "block_ok k pb \<longleftrightarrow>
     0 < k \<and> pb_k pb = of_nat k \<and> k + unat (pb_r pb) \<le> MAX_SHARDS \<and> length (pb_shards pb) = k + unat (pb_r pb) \<and>
     ITEM_LEN_PREFIX \<le> pb_shard_len pb \<and> (\<forall>s\<in>set (pb_shards pb). length s = pb_shard_len pb) \<and>
     (0 < unat (pb_r pb) \<longrightarrow>
       (\<exists>code. rs_new k (unat (pb_r pb)) = Inr code \<and>
          is_block code (pb_shard_len pb) (take k (pb_shards pb)) (pb_shards pb)))"

definition block_items :: "nat \<Rightarrow> PendingBlock \<Rightarrow> bytes list" where
  "block_items k pb = the (shard_items (map Some (take k (pb_shards pb))))"

definition rx_ok :: "nat \<Rightarrow> PendingBlock \<Rightarrow> RxBlock \<Rightarrow> bool" where
  "rx_ok k pb blk \<longleftrightarrow>
     rb_k blk = k \<and> rb_r blk = unat (pb_r pb) \<and> rb_shard_len blk = pb_shard_len pb \<and>
     length (rb_shards blk) = k + unat (pb_r pb) \<and> (\<forall>i. bit (rb_mask blk) i \<longrightarrow> i < k + unat (pb_r pb)) \<and>
     (if rb_decoded blk then take k (rb_shards blk) = map Some (take k (pb_shards pb))
      else rx_count blk < k \<and>
           (\<forall>i<k + unat (pb_r pb). rb_shards blk ! i = (if bit (rb_mask blk) i then Some (pb_shards pb ! i) else None)))"

lemma shard_items_total: "\<forall>s\<in>set ss. 1 < length s \<Longrightarrow> \<exists>items. shard_items (map Some ss) = Some items"
  by (induction ss) (auto simp: Let_def)

lemma block_items_shards: "block_ok k pb \<Longrightarrow> shard_items (map Some (take k (pb_shards pb))) = Some (block_items k pb)"
proof -
  assume "block_ok k pb"
  then have "\<forall>s\<in>set (take k (pb_shards pb)). 1 < length s"
    by (auto simp: block_ok_def ITEM_LEN_PREFIX_def dest!: in_set_takeD)
  then show ?thesis using shard_items_total [of "take k (pb_shards pb)"] by (auto simp: block_items_def)
qed

lemma with_backend_new: "rs_new k r = Inr code \<Longrightarrow> with_backend code None = code"
  using rs_new_cauchy(6) [of k r code] by (simp add: with_backend_def)

text \<open>A shard that joins its block leaves the block's shape alone and sets its bit.\<close>

lemma add_shard_shape:
  "rb_k (add_shard idx p rt blk) = rb_k blk" "rb_r (add_shard idx p rt blk) = rb_r blk"
  "rb_shard_len (add_shard idx p rt blk) = rb_shard_len blk" "rb_decoded (add_shard idx p rt blk) = rb_decoded blk"
  "length (rb_shards (add_shard idx p rt blk)) = length (rb_shards blk)"
  by (simp_all add: add_shard_def Let_def)

lemma add_shard_mask: "idx < 32 \<Longrightarrow> bit (rb_mask (add_shard idx p rt blk)) i \<longleftrightarrow> bit (rb_mask blk) i \<or> i = idx"
  by (auto simp: add_shard_def Let_def mask_bit_clear bit_mask_set)

lemma add_shard_shards:
  "rb_shards (add_shard idx p rt blk) =
     (if bit (rb_mask blk) idx then rb_shards blk else (rb_shards blk)[idx := Some p])"
  by (simp add: add_shard_def Let_def mask_bit_clear)

text \<open>Decoding is complete as soon as \<open>k\<close> shards are there.\<close>

lemma present_count:
  assumes "length shards = n" "n \<le> 32" "\<forall>i. bit (m :: u32) i \<longrightarrow> i < n"
    and "\<forall>i<n. shards ! i = (if bit m i then Some (f i) else None)"
  shows "length (filter (\<lambda>s. s \<noteq> None) shards) = count_ones_u32 m"
proof -
  have "length (filter (\<lambda>s. s \<noteq> None) shards) = card {i. i < length shards \<and> shards ! i \<noteq> None}"
    by (rule length_filter_conv_card)
  also have "{i. i < length shards \<and> shards ! i \<noteq> None} = {i. bit m i}"
    using assms by (auto split: if_splits)
  finally show ?thesis by (simp add: count_ones_card)
qed

lemma decode_block_shards_ok:
  assumes ok: "block_ok k pb"
    and shape: "rb_k blk = k" "rb_r blk = unat (pb_r pb)" "rb_shard_len blk = pb_shard_len pb"
      "length (rb_shards blk) = k + unat (pb_r pb)" "\<forall>i. bit (rb_mask blk) i \<longrightarrow> i < k + unat (pb_r pb)"
    and shards: "\<forall>i<k + unat (pb_r pb). rb_shards blk ! i = (if bit (rb_mask blk) i then Some (pb_shards pb ! i) else None)"
    and new: "\<not> rb_decoded blk"
  shows "\<exists>blk'. decode_block_shards host blk = Some blk' \<and> rx_ok k pb blk' \<and> rb_mask blk' = rb_mask blk \<and>
    (rb_decoded blk' \<longleftrightarrow> k \<le> rx_count blk)"
proof (cases "rx_count blk < k")
  case True
  with shape shards new show ?thesis by (simp add: decode_block_shards_def rx_ok_def)
next
  case False
  let ?r = "unat (pb_r pb)"
  note pb = ok [unfolded block_ok_def MAX_SHARDS_def]
  from False have many: "k \<le> card {i. bit (rb_mask blk) i}" by (simp add: rx_count_def count_ones_card)
  show ?thesis
  proof (cases "?r = 0")
    case True
    have sub: "{i. bit (rb_mask blk) i} \<subseteq> {..<k}" using shape(5) True by auto
    then have "card {i. bit (rb_mask blk) i} \<le> k" using card_mono [of "{..<k}"] by simp
    with many sub have "{i. bit (rb_mask blk) i} = {..<k}" by (intro card_subset_eq) simp_all
    then have all: "bit (rb_mask blk) i" if "i < k" for i using that by blast
    then have "rb_shards blk = map Some (take k (pb_shards pb))"
      using shards shape(4) pb True by (intro nth_equalityI) simp_all
    with all False shape shards new True show ?thesis
      by (auto simp: decode_block_shards_def rx_ok_def)
  next
    case False
    with pb obtain code where code: "rs_new k ?r = Inr code"
      and block: "is_block code (pb_shard_len pb) (take k (pb_shards pb)) (pb_shards pb)" by auto
    have "decode (fst host) (snd host) (with_backend code None) (rb_shards blk) =
        (if k \<le> length (filter (\<lambda>s. s \<noteq> None) (rb_shards blk))
         then Inr (map Some (take k (pb_shards pb)) @ drop k (rb_shards blk)) else Inl TooFewShards)"
      using shards shape(4) by (intro decode_block [OF code block]) auto
    moreover have "length (filter (\<lambda>s. s \<noteq> None) (rb_shards blk)) = rx_count blk"
      unfolding rx_count_def using shape shards pb by (intro present_count) auto
    ultimately have dec: "decode (fst host) (snd host) code (rb_shards blk) =
        Inr (map Some (take k (pb_shards pb)) @ drop k (rb_shards blk))"
      using \<open>\<not> rx_count blk < k\<close> by (simp add: with_backend_new [OF code])
    have len: "length (take k (pb_shards pb)) = k" using pb by simp
    from code dec False \<open>\<not> rx_count blk < k\<close> shape new len show ?thesis
      by (auto simp: decode_block_shards_def rx_ok_def)
  qed
qed

section \<open>The receiver's invariant\<close>

definition dec_ok :: "nat \<Rightarrow> u32 \<Rightarrow> PendingBlock list \<Rightarrow> Decoder \<Rightarrow> bool" where
  "dec_ok k epoch blocks d \<longleftrightarrow>
     (de_session_epoch d = None \<or> de_session_epoch d = Some epoch) \<and> de_tower_d d = 0 \<and> bt_sorted (de_window d) \<and>
     unat (de_next_deliver d) \<le> length blocks \<and>
     (\<forall>b blk. bt_get (de_window d) b = Some blk \<longrightarrow>
        de_next_deliver d \<le> b \<and> unat b < length blocks \<and> rx_ok k (blocks ! unat b) blk)"

definition head_waits :: "Decoder \<Rightarrow> bool" where
  "head_waits d \<longleftrightarrow> (\<forall>blk. bt_get (de_window d) (de_next_deliver d) = Some blk \<longrightarrow> \<not> rb_decoded blk)"

definition head_shards :: "Decoder \<Rightarrow> nat set" where
  "head_shards d = (case bt_get (de_window d) (de_next_deliver d) of None \<Rightarrow> {} | Some blk \<Rightarrow> {i. bit (rb_mask blk) i})"

definition delivers :: "nat \<Rightarrow> PendingBlock list \<Rightarrow> Decoder \<Rightarrow> bytes list \<Rightarrow> Decoder \<Rightarrow> bool" where
  "delivers k blocks d out d' \<longleftrightarrow>
     de_next_deliver d \<le> de_next_deliver d' \<and> de_window_cap d' = de_window_cap d \<and>
     out = concat (map (block_items k) (drop (unat (de_next_deliver d)) (take (unat (de_next_deliver d')) blocks)))"

lemma drop_take_append: "a \<le> b \<Longrightarrow> b \<le> c \<Longrightarrow> drop a (take b xs) @ drop b (take c xs) = drop a (take c xs)"
  by (rule nth_equalityI) (auto simp: nth_append add.commute)

lemma delivers_refl: "de_next_deliver d' = de_next_deliver d \<Longrightarrow> de_window_cap d' = de_window_cap d \<Longrightarrow> delivers k blocks d [] d'"
  by (simp add: delivers_def)

lemma delivers_trans:
  assumes "delivers k blocks d out d'" "delivers k blocks d' out' d''"
  shows "delivers k blocks d (out @ out') d''"
  using assms drop_take_append [of "unat (de_next_deliver d)" "unat (de_next_deliver d')" "unat (de_next_deliver d'')" blocks, symmetric]
  by (simp add: delivers_def word_le_nat_alt)

lemma account_block_fields:
  "de_window (account_block guard blk d) = de_window d" "de_next_deliver (account_block guard blk d) = de_next_deliver d"
  "de_session_epoch (account_block guard blk d) = de_session_epoch d" "de_tower_d (account_block guard blk d) = de_tower_d d"
  "de_window_cap (account_block guard blk d) = de_window_cap d"
  by (simp_all add: account_block_def Let_def)

lemma prune_records_fields:
  "de_window (prune_records d) = de_window d" "de_next_deliver (prune_records d) = de_next_deliver d"
  "de_session_epoch (prune_records d) = de_session_epoch d" "de_tower_d (prune_records d) = de_tower_d d"
  "de_window_cap (prune_records d) = de_window_cap d"
  by (simp_all add: prune_records_def Let_def)

lemma next_id: "unat b < n \<Longrightarrow> n < 2 ^ 31 \<Longrightarrow> unat (b + 1 :: u32) = Suc (unat b)"
  by (simp add: unat_word_ariths)

lemma drain_loop_ok:
  assumes blocks: "\<forall>pb\<in>set blocks. block_ok k pb" "length blocks < 2 ^ 31"
  shows "dec_ok k epoch blocks d \<Longrightarrow> length (de_window d) < fuel \<Longrightarrow>
    \<exists>out d'. drain_loop fuel host guard d = Some (out, d') \<and> dec_ok k epoch blocks d' \<and> head_waits d' \<and>
      delivers k blocks d out d' \<and> (head_waits d \<longleftrightarrow> de_next_deliver d' = de_next_deliver d) \<and>
      (head_waits d \<longrightarrow> de_window d' = de_window d)"
proof (induction fuel arbitrary: d)
  case (Suc fuel)
  let ?b = "de_next_deliver d"
  show ?case
  proof (cases "head_waits d")
    case True
    have "try_tower_recover host ?b d = (False, d)" using Suc.prems(1) by (simp add: try_tower_recover_def dec_ok_def)
    with True have "drain_loop (Suc fuel) host guard d = Some ([], d)"
      by (auto simp: head_waits_def Let_def split: option.splits)
    with True Suc.prems(1) show ?thesis by (simp add: delivers_refl)
  next
    case False
    then obtain blk where blk: "bt_get (de_window d) ?b = Some blk" "rb_decoded blk" by (auto simp: head_waits_def)
    with Suc.prems(1) have n: "unat ?b < length blocks" and rx: "rx_ok k (blocks ! unat ?b) blk" by (auto simp: dec_ok_def)
    have items: "shard_items (take (rb_k blk) (rb_shards blk)) = Some (block_items k (blocks ! unat ?b))"
      using rx blk(2) block_items_shards [of k "blocks ! unat ?b"] blocks n by (simp add: rx_ok_def)
    note nid = next_id [OF n blocks(2)]
    define d1 where "d1 = (account_block guard blk (d\<lparr>de_window := bt_remove ?b (de_window d)\<rparr>))\<lparr>de_next_deliver := ?b + 1\<rparr>"
    have step: "drain_loop (Suc fuel) host guard d =
        do { (out, d') \<leftarrow> drain_loop fuel host guard d1; Some (block_items k (blocks ! unat ?b) @ out, d') }"
      using blk items by (simp add: d1_def Let_def)
    have after: "?b + 1 \<le> b" if "?b \<le> b" "b \<noteq> ?b" for b 
      using that nid word_unat_eq_iff [of b ?b] by (simp add: word_le_nat_alt)
    have ok1: "dec_ok k epoch blocks d1"
      using Suc.prems(1) n nid after by (auto simp: dec_ok_def d1_def account_block_fields bt_remove_sorted split: if_splits)
    have "length (de_window d1) < fuel" using Suc.prems(2) bt_remove_less [OF blk(1)] by (simp add: d1_def account_block_fields)
    from Suc.IH [OF ok1 this] obtain out d' where d': "drain_loop fuel host guard d1 = Some (out, d')"
      "dec_ok k epoch blocks d'" "head_waits d'" "delivers k blocks d1 out d'" by blast
    have "delivers k blocks d (block_items k (blocks ! unat ?b)) d1"
      using nid n by (simp add: delivers_def d1_def account_block_fields word_le_nat_alt take_Suc_conv_app_nth)
    from delivers_trans [OF this d'(4)] step d' False nid show ?thesis
      by (auto simp: delivers_def d1_def word_le_nat_alt)
  qed
qed simp

lemma drain_in_order_ok:
  assumes "\<forall>pb\<in>set blocks. block_ok k pb" "length blocks < 2 ^ 31" "dec_ok k epoch blocks d"
  shows "\<exists>out d'. drain_in_order host guard d = Some (out, d') \<and> dec_ok k epoch blocks d' \<and> head_waits d' \<and>
      delivers k blocks d out d' \<and> (head_waits d \<longleftrightarrow> de_next_deliver d' = de_next_deliver d) \<and>
      (head_waits d \<longrightarrow> de_window d' = de_window d)"
proof -
  from drain_loop_ok [OF assms, of "drain_fuel d" host guard] obtain out d' where
    d': "drain_loop (drain_fuel d) host guard d = Some (out, d')" "dec_ok k epoch blocks d'" "head_waits d'"
      "delivers k blocks d out d'" "head_waits d \<longleftrightarrow> de_next_deliver d' = de_next_deliver d"
      "head_waits d \<longrightarrow> de_window d' = de_window d"
    by (auto simp: drain_fuel_def)
  have "dec_ok k epoch blocks (prune_records d')" "head_waits (prune_records d')" "delivers k blocks d out (prune_records d')"
    using d'(2-4) by (auto simp: dec_ok_def head_waits_def delivers_def prune_records_fields)
  with d'(1,5,6) show ?thesis by (simp add: drain_in_order_def prune_records_fields)
qed

text \<open>A datagram of the session reaches its block.\<close>

lemma ingest_datagram:
  assumes ok: "block_ok k pb" and b: "b AND OUTER_ID_BIT = 0" and idx: "idx < length (pb_shards pb)"
    and ep: "de_session_epoch d = None \<or> de_session_epoch d = Some epoch"
  shows "\<exists>rj rt. ingest host guard (datagram_flagged pb b idx fl epoch) d =
    ingest_data host guard b idx k (unat (pb_r pb)) rt (pb_shards pb ! idx) (d\<lparr>de_rejects := rj, de_session_epoch := Some epoch\<rparr>)"
proof -
  note pb = ok [unfolded block_ok_def MAX_SHARDS_def]
  have small: "unat (of_nat n :: u8) = n" if "n \<le> 32" for n using that by (simp add: unat_of_nat)
  have "\<not> (k = 0 \<or> k + unat (pb_r pb) > 32 \<or> idx \<ge> k + unat (pb_r pb))" "unat (of_nat idx :: u8) = idx" "unat (pb_k pb) = k"
    using pb idx small [of idx] small [of k] by auto
  then show ?thesis using b ep datagram_fields(1,2) [of pb b idx fl epoch]
    unfolding ingest_def Let_def datagram_fields MAX_SHARDS_def by (auto split: if_splits)
qed

lemma rx_block_new_ok: "block_ok k pb \<Longrightarrow> rx_ok k pb (rx_block_new k (unat (pb_r pb)) (pb_shard_len pb))"
  by (simp add: rx_ok_def rx_block_new_def block_ok_def rx_count_def count_ones_card)

lemma join_block:
  assumes ok: "block_ok k pb" and rx: "rx_ok k pb blk" and idx: "idx < length (pb_shards pb)"
  shows "\<exists>blk'. decode_block_shards host (add_shard idx (pb_shards pb ! idx) rt blk) = Some blk' \<and> rx_ok k pb blk' \<and>
    (\<forall>i. bit (rb_mask blk') i \<longleftrightarrow> bit (rb_mask blk) i \<or> i = idx)"
proof -
  let ?blk = "add_shard idx (pb_shards pb ! idx) rt blk" and ?n = "k + unat (pb_r pb)"
  note pb = ok [unfolded block_ok_def MAX_SHARDS_def] and rxs = rx [unfolded rx_ok_def]
  have mask: "bit (rb_mask ?blk) i \<longleftrightarrow> bit (rb_mask blk) i \<or> i = idx" for i using pb idx by (intro add_shard_mask) simp
  show ?thesis
  proof (cases "rb_decoded blk")
    case True
    have same: "(map f xs)[i := f (xs ! i)] = map f xs" for f :: "bytes \<Rightarrow> bytes option" and xs i
      by (simp add: map_update [symmetric])
    have "take k (rb_shards ?blk) = map Some (take k (pb_shards pb))"
      using rxs True pb idx same [of Some "take k (pb_shards pb)" idx]
      by (cases "idx < k") (simp_all add: add_shard_shards take_update_swap list_update_beyond)
    with True rxs mask idx pb have "rx_ok k pb ?blk" by (auto simp: rx_ok_def add_shard_shape)
    with True mask show ?thesis by (simp add: decode_block_shards_def add_shard_shape)
  next
    case False
    have "\<forall>i<?n. rb_shards ?blk ! i = (if bit (rb_mask ?blk) i then Some (pb_shards pb ! i) else None)"
    proof (intro allI impI)
      fix i assume "i < ?n"
      with False rxs show "rb_shards ?blk ! i = (if bit (rb_mask ?blk) i then Some (pb_shards pb ! i) else None)"
        unfolding mask by (cases "i = idx") (simp_all add: add_shard_shards)
    qed
    from decode_block_shards_ok [OF ok _ _ _ _ _ this, of host] False rxs mask idx pb show ?thesis
      by (auto simp: add_shard_shape)
  qed
qed

lemma sat_add_gt:
  assumes "unat a < 2 ^ 31" "c \<noteq> 0"
  shows "a < sat_add_u32 a c"
proof -
  have top: "unat (- 1 :: u32) = 2 ^ 32 - 1" by (simp add: unsigned_minus_1_eq_mask mask_eq_exp_minus_1)
  then have all: "unat (- 1 - c) = 2 ^ 32 - 1 - unat c" using unat_sub [of c "- 1"] by simp
  have c: "0 < unat c" using assms(2) by (simp add: unat_gt_0)
  show ?thesis
  proof (cases "- 1 - c < a")
    case True
    with assms(1) top show ?thesis by (simp add: sat_add_u32_def word_less_nat_alt)
  next
    case False
    then have "unat a \<le> 2 ^ 32 - 1 - unat c" using all by (simp add: word_less_nat_alt not_less)
    then have "unat (a + c) = unat a + unat c" using unsigned_less [of c, where ?'a = nat] by (subst unat_add_lem [THEN iffD1]) simp_all
    with False c show ?thesis by (simp add: sat_add_u32_def word_less_nat_alt)
  qed
qed

text \<open>The fields the invariant reads.\<close>

definition core :: "Decoder \<Rightarrow> u32 option \<times> nat \<times> (u32, RxBlock) btree_map \<times> u32 \<times> nat" where
  "core d = (de_session_epoch d, de_tower_d d, de_window d, de_next_deliver d, de_window_cap d)"

lemma core_dec_ok: "core d' = core d \<Longrightarrow> dec_ok k epoch blocks d' \<longleftrightarrow> dec_ok k epoch blocks d"
  by (simp add: core_def dec_ok_def)

lemma core_head: "core d' = core d \<Longrightarrow> head_waits d' \<longleftrightarrow> head_waits d" "core d' = core d \<Longrightarrow> head_shards d' = head_shards d"
  by (simp_all add: core_def head_waits_def head_shards_def)

lemma core_delivers: "core d' = core d \<Longrightarrow> delivers k blocks d [] d'"
  by (simp add: core_def delivers_def)

lemma ingest_data_refused:
  assumes "b < de_next_deliver d \<or> b \<ge> sat_add_u32 (de_next_deliver d) (of_nat (de_window_cap d))"
  shows "\<exists>d'. ingest_data host guard b idx k r rt payload d = Some ([], d') \<and> core d' = core d"
  using assms by (cases "b < de_next_deliver d"; simp add: ingest_data_def Let_def core_def)

lemma ingest_data_joins:
  assumes "\<not> (b < de_next_deliver d \<or> b \<ge> sat_add_u32 (de_next_deliver d) (of_nat (de_window_cap d)))"
    and "blk = (case bt_get (de_window d) b of Some x \<Rightarrow> x | None \<Rightarrow> rx_block_new k r (length payload))"
    and "rb_shard_len blk = length payload" "rb_k blk = k" "rb_r blk = r"
    and "decode_block_shards host (add_shard idx payload rt blk) = Some blk'"
  shows "\<exists>d'. ingest_data host guard b idx k r rt payload d = drain_in_order host guard d' \<and>
    core d' = (de_session_epoch d, de_tower_d d, bt_insert b blk' (bt_insert b blk (de_window d)), de_next_deliver d, de_window_cap d)"
proof -
  define d0 where "d0 = (if de_inner_k d = 0 then d\<lparr>de_inner_k := k, de_inner_shard_len := length payload\<rparr> else d)"
  define d1 where "d1 = (if b > de_highest_seen d0 then d0\<lparr>de_highest_seen := b\<rparr> else d0)"
  define d2 where "d2 = d1\<lparr>de_window := bt_insert b blk (de_window d1)\<rparr>"
  define d3 where "d3 = d2\<lparr>de_window := bt_insert b blk' (de_window d2)\<rparr>"
  define d4 where "d4 = (if rb_decoded blk' \<and> \<not> rb_decoded (add_shard idx payload rt blk)
    then d3\<lparr>de_data_infos := bt_insert b (block_info blk') (de_data_infos d3), de_highest_decoded := max (de_highest_decoded d3) b\<rparr>
    else d3)"
  have d0: "core d0 = core d" "core d1 = core d0" by (simp_all add: d0_def d1_def core_def)
  have nd: "de_next_deliver d0 = de_next_deliver d" "de_window_cap d0 = de_window_cap d" "de_window d1 = de_window d"
    using d0 by (simp_all add: core_def)
  have "ingest_data host guard b idx k r rt payload d = drain_in_order host guard d4"
    using assms(1,3-6) unfolding ingest_data_def Let_def d0_def [symmetric] d1_def [symmetric] nd assms(2) [symmetric]
    by (simp add: d2_def d3_def d4_def nd split del: if_split cong: if_cong)
  moreover have "core d4 = (de_session_epoch d, de_tower_d d, bt_insert b blk' (bt_insert b blk (de_window d)), de_next_deliver d, de_window_cap d)"
    using d0 by (simp add: d4_def d3_def d2_def core_def)
  ultimately show ?thesis by blast
qed

lemma insert_block_ok:
  assumes d: "dec_ok k epoch blocks d" and b: "unat b < length blocks" "de_next_deliver d \<le> b"
    and blk': "rx_ok k (blocks ! unat b) blk'"
    and d': "core d' = (de_session_epoch d, de_tower_d d, bt_insert b blk' (bt_insert b blk (de_window d)), de_next_deliver d, de_window_cap d)"
  shows "dec_ok k epoch blocks d'" and "bt_get (de_window d') = (bt_get (de_window d))(b \<mapsto> blk')"
    and "delivers k blocks d [] d'"
  using assms by (auto simp: core_def dec_ok_def bt_insert_sorted delivers_def split: if_splits)

definition ingest_keeps :: "nat \<Rightarrow> u32 \<Rightarrow> PendingBlock list \<Rightarrow> u32 \<Rightarrow> nat \<Rightarrow> Decoder \<Rightarrow> bytes list \<Rightarrow> Decoder \<Rightarrow> bool" where
  "ingest_keeps k epoch blocks b idx d out d' \<longleftrightarrow>
     dec_ok k epoch blocks d' \<and> head_waits d' \<and> delivers k blocks d out d' \<and>
     (de_next_deliver d' = de_next_deliver d \<longrightarrow> head_shards d \<subseteq> head_shards d') \<and>
     (de_next_deliver d' = de_next_deliver d \<and> de_next_deliver d = b \<and> 0 < de_window_cap d \<and> de_window_cap d < 2 ^ 32 \<longrightarrow>
        idx \<in> head_shards d')"

lemma ingest_data_ok:
  assumes blocks: "\<forall>pb\<in>set blocks. block_ok k pb" "length blocks < 2 ^ 31"
    and d: "dec_ok k epoch blocks d" "head_waits d"
    and b: "unat b < length blocks" and pb: "pb = blocks ! unat b" and idx: "idx < length (pb_shards pb)"
  shows "\<exists>out d'. ingest_data host guard b idx k (unat (pb_r pb)) rt (pb_shards pb ! idx) d = Some (out, d') \<and>
    ingest_keeps k epoch blocks b idx d out d'"
proof -
  have ok: "block_ok k pb" using blocks(1) b pb by simp
  have len: "length (pb_shards pb ! idx) = pb_shard_len pb" using ok idx by (simp add: block_ok_def)
  let ?far = "b < de_next_deliver d \<or> b \<ge> sat_add_u32 (de_next_deliver d) (of_nat (de_window_cap d))"
  show ?thesis
  proof (cases ?far)
    case True
    then obtain d' where d': "ingest_data host guard b idx k (unat (pb_r pb)) rt (pb_shards pb ! idx) d = Some ([], d')"
      "core d' = core d" using ingest_data_refused by blast
    have "de_next_deliver d < sat_add_u32 (de_next_deliver d) (of_nat (de_window_cap d))"
      if "0 < de_window_cap d" "de_window_cap d < 2 ^ 32"
    proof (rule sat_add_gt)
      show "unat (de_next_deliver d) < 2 ^ 31" using d(1) blocks(2) by (simp add: dec_ok_def)
      show "(of_nat (de_window_cap d) :: u32) \<noteq> 0" using that by (simp add: word_of_nat_eq_0_iff nat_dvd_not_less)
    qed
    with True have "\<not> (de_next_deliver d = b \<and> 0 < de_window_cap d \<and> de_window_cap d < 2 ^ 32)" by auto
    with d' d show ?thesis
      by (auto simp: ingest_keeps_def core_dec_ok [OF d'(2)] core_head [OF d'(2)] core_delivers [OF d'(2)])
  next
    case False
    define blk where "blk = (case bt_get (de_window d) b of Some x \<Rightarrow> x | None \<Rightarrow> rx_block_new k (unat (pb_r pb)) (length (pb_shards pb ! idx)))"
    have "rx_ok k pb x" if "bt_get (de_window d) b = Some x" for x using d(1) that by (auto simp: dec_ok_def pb)
    then have rx: "rx_ok k pb blk" using rx_block_new_ok [OF ok] by (auto simp: blk_def len split: option.splits)
    from join_block [OF ok rx idx, of host rt] obtain blk' where blk': "decode_block_shards host (add_shard idx (pb_shards pb ! idx) rt blk) = Some blk'"
      "rx_ok k pb blk'" "\<forall>i. bit (rb_mask blk') i \<longleftrightarrow> bit (rb_mask blk) i \<or> i = idx" by blast
    from rx len have shape: "rb_shard_len blk = length (pb_shards pb ! idx)" "rb_k blk = k" "rb_r blk = unat (pb_r pb)"
      by (simp_all add: rx_ok_def)
    from ingest_data_joins [OF False blk_def shape blk'(1), of guard] obtain d2 where
      d2: "ingest_data host guard b idx k (unat (pb_r pb)) rt (pb_shards pb ! idx) d = drain_in_order host guard d2"
      "core d2 = (de_session_epoch d, de_tower_d d, bt_insert b blk' (bt_insert b blk (de_window d)), de_next_deliver d, de_window_cap d)"
      by blast
    have ge: "de_next_deliver d \<le> b" using False by (simp add: not_less)
    note ins = insert_block_ok [OF d(1) b ge blk'(2) [unfolded pb] d2(2)]
    from drain_in_order_ok [OF blocks ins(1), of host guard] obtain out d' where
      d': "drain_in_order host guard d2 = Some (out, d')" "dec_ok k epoch blocks d'" "head_waits d'"
        "delivers k blocks d2 out d'" "head_waits d2 \<longleftrightarrow> de_next_deliver d' = de_next_deliver d2"
        "head_waits d2 \<longrightarrow> de_window d' = de_window d2" by blast
    have nd2: "de_next_deliver d2 = de_next_deliver d" using d2(2) by (simp add: core_def)
    have "head_shards d' = head_shards d2" if "de_next_deliver d' = de_next_deliver d"
      using that d'(5,6) nd2 by (simp add: head_shards_def)
    moreover have "head_shards d \<subseteq> head_shards d2" "de_next_deliver d = b \<Longrightarrow> idx \<in> head_shards d2"
      using blk'(3) by (auto simp: head_shards_def nd2 ins(2) blk_def split: option.splits)
    ultimately show ?thesis using d2(1) d'(1-3) delivers_trans [OF ins(3) d'(4)] by (auto simp: ingest_keeps_def)
  qed
qed

lemma ingest_ok:
  assumes blocks: "\<forall>pb\<in>set blocks. block_ok k pb" "length blocks < 2 ^ 31"
    and d: "dec_ok k epoch blocks d" "head_waits d"
    and i: "i < length blocks" and idx: "idx < length (pb_shards (blocks ! i))"
  shows "\<exists>out d'. ingest host guard (datagram_flagged (blocks ! i) (of_nat i) idx fl epoch) d = Some (out, d') \<and>
    ingest_keeps k epoch blocks (of_nat i) idx d out d'"
proof -
  have n: "unat (of_nat i :: u32) = i" using i blocks(2) by (simp add: unat_of_nat)
  have ok: "block_ok k (blocks ! i)" using blocks(1) i by simp
  from d(1) have ep: "de_session_epoch d = None \<or> de_session_epoch d = Some epoch" by (simp add: dec_ok_def)
  from ingest_datagram [OF ok outer_bit_clear idx ep, of i host guard fl] i blocks(2) obtain rj rt where
    eq: "ingest host guard (datagram_flagged (blocks ! i) (of_nat i) idx fl epoch) d =
      ingest_data host guard (of_nat i) idx k (unat (pb_r (blocks ! i))) rt (pb_shards (blocks ! i) ! idx)
        (d\<lparr>de_rejects := rj, de_session_epoch := Some epoch\<rparr>)" by auto
  let ?d = "d\<lparr>de_rejects := rj, de_session_epoch := Some epoch\<rparr>"
  have d1: "dec_ok k epoch blocks ?d" "head_waits ?d" using d by (simp_all add: dec_ok_def head_waits_def)
  have "head_shards ?d = head_shards d" by (simp add: head_shards_def)
  with ingest_data_ok [OF blocks d1, of "of_nat i" "blocks ! i" idx host guard rt] i n idx eq show ?thesis
    by (auto simp: ingest_keeps_def delivers_def)
qed

section \<open>Sealing a block\<close>

definition framed :: "bytes \<Rightarrow> bytes" where
  "framed item = to_le_u16 (of_nat (length item)) @ item"

lemma length_resize [simp]: "length (resize n s) = n"
  by (simp add: resize_def)

lemma framed_shard:
  assumes "length item < 2 ^ 16" "length item + 2 \<le> len"
  shows "shard_items (Some (resize len (framed item)) # ss) =
    map_option (\<lambda>items. if item \<noteq> [] then item # items else items) (shard_items ss)"
proof -
  let ?s = "resize len (framed item)"
  have s: "?s = to_le_u16 (of_nat (length item)) @ item @ replicate (len - (2 + length item)) 0"
    using assms(2) by (simp add: resize_def framed_def)
  have "from_le_u16 (?s ! 0) (?s ! 1) = of_nat (length item)"
    using from_to_le_u16 [of "of_nat (length item)"] by (simp add: s to_le_u16_def)
  then have "unat (from_le_u16 (?s ! 0) (?s ! 1)) = length item" using assms(1) by (simp add: unat_of_nat)
  moreover have "drop 2 (take (min (2 + length item) len) ?s) = item" using assms(2) by (simp add: s min_absorb1)
  ultimately show ?thesis using assms(2)
    by (cases "shard_items ss") (simp_all add: ITEM_LEN_PREFIX_def Let_def)
qed

lemma padding_shards: "2 \<le> len \<Longrightarrow> shard_items (map Some (replicate m (replicate len 0))) = Some []"
  by (induction m) (simp_all add: Let_def from_le_u16_def)

lemma framed_shards:
  assumes "\<forall>item\<in>set items. length item < 2 ^ 16 \<and> length item + 2 \<le> len" "2 \<le> len"
  shows "shard_items (map Some (map (resize len) (map framed items) @ replicate m (replicate len 0))) =
    Some (filter (\<lambda>item. item \<noteq> []) items)"
  using assms(1)
proof (induction items)
  case Nil
  then show ?case using padding_shards [OF assms(2)] by simp
next
  case (Cons item items)
  then have "shard_items (map Some (map (resize len) (map framed items) @ replicate m (replicate len 0))) =
      Some (filter (\<lambda>item. item \<noteq> []) items)" by simp
  with Cons.prems framed_shard [of item len "map Some (map (resize len) (map framed items) @ replicate m (replicate len 0))"]
  show ?case by (simp del: shard_items.simps)
qed

lemma parity_shards_ok:
  assumes "0 < k" "0 < r" "k + r \<le> 32" "length data = k" "\<forall>s\<in>set data. length s = len" "0 < len"
  shows "\<exists>code parity. parity_shards host k r len data = Some parity \<and> rs_new k r = Inr code \<and> is_block code len data (data @ parity)"
proof -
  from assms(1-3) obtain code where code: "rs_new k r = Inr code" by (simp add: rs_new_def Let_def)
  note c = rs_new_cauchy [OF code]
  have first: "length (data ! 0) = len" using assms by simp
  have "\<exists>parity. encode (fst host) (snd host) code data (replicate r (replicate len 0)) = Inr parity"
    using assms c(4,5) first by (simp add: encode_def Let_def)
  then obtain parity where enc: "encode (fst host) (snd host) code data (replicate r (replicate len 0)) = Inr parity" ..
  from encode_block [where b = None, OF code, unfolded with_backend_new [OF code], OF enc] obtain len' where
    block: "is_block code len' data (data @ parity)" ..
  have "len' = len" using is_block_data(2) [OF block, of 0] c(4) assms(1) first by simp
  with block enc code show ?thesis by (simp add: parity_shards_def)
qed

lemma data_shards_ok:
  assumes e: "en_tower_d e = 0" "en_k e = k" "en_staged e = map framed items" "length items \<le> k" "0 < k"
    and items: "\<forall>item\<in>set items. length item < 2 ^ 16"
  shows "length (data_shards e) = k" "\<forall>s\<in>set (data_shards e). length s = block_shard_len e" "2 \<le> block_shard_len e"
    "shard_items (map Some (data_shards e)) = Some (filter (\<lambda>item. item \<noteq> []) items)"
proof -
  show "length (data_shards e) = k" using e by (simp add: data_shards_def Let_def)
  show "\<forall>s\<in>set (data_shards e). length s = block_shard_len e" by (auto simp: data_shards_def Let_def)
  show len: "2 \<le> block_shard_len e" using e(1) by (simp add: block_shard_len_def ITEM_LEN_PREFIX_def)
  have "length item + 2 \<le> block_shard_len e" if "item \<in> set items" for item
  proof -
    have "length (framed item) \<le> Max (set (map length (en_staged e)))" using that e(3) by (intro Max_ge) auto
    moreover have "en_staged e \<noteq> []" using that e(3) by auto
    ultimately show ?thesis using e(1) by (simp add: block_shard_len_def framed_def)
  qed
  with items framed_shards [of items "block_shard_len e" "k - length items"] len
  show "shard_items (map Some (data_shards e)) = Some (filter (\<lambda>item. item \<noteq> []) items)"
    using e by (simp add: data_shards_def Let_def)
qed

lemma seal_block_ok:
  assumes e: "en_tower_d e = 0" "en_k e = k" "en_staged e = map framed items" "length items \<le> k" "0 < k" "k + en_r e \<le> 32"
    and items: "\<forall>item\<in>set items. length item < 2 ^ 16"
  shows "\<exists>pb pt fc. block_ok k pb \<and> block_items k pb = filter (\<lambda>item. item \<noteq> []) items \<and>
    seal_block host e = Some (map (\<lambda>i. datagram pb (en_next_block e) i (en_epoch e)) [0..<length (pb_shards pb)],
      e\<lparr>en_passthrough_blocks := pt, en_fec_blocks := fc, en_next_block := en_next_block e + 1,
        en_pending := bt_insert (en_next_block e) pb (en_pending e), en_staged := []\<rparr>)"
proof -
  note shards = data_shards_ok [OF e(1-5) items]
  let ?len = "block_shard_len e" and ?r = "en_r e"
  obtain parity where parity: "(if ?r > 0 then parity_shards host k ?r ?len (data_shards e) else Some []) = Some parity"
    "length parity = ?r" "\<forall>s\<in>set parity. length s = ?len"
    "?r > 0 \<Longrightarrow> \<exists>code. rs_new k ?r = Inr code \<and> is_block code ?len (data_shards e) (data_shards e @ parity)"
  proof (cases "?r > 0")
    case True
    from parity_shards_ok [OF e(5) True e(6) shards(1,2), of host] shards(3) obtain code parity where
      p: "parity_shards host k ?r ?len (data_shards e) = Some parity" "rs_new k ?r = Inr code"
        "is_block code ?len (data_shards e) (data_shards e @ parity)" by auto
    have "length parity = ?r" using p(3) rs_new_cauchy(4,5) [OF p(2)] shards(1) by (simp add: is_block_def)
    moreover have "length (parity ! j) = ?len" if "j < length parity" for j
    proof -
      have "\<forall>i<length (data_shards e @ parity). length ((data_shards e @ parity) ! i) = ?len"
        using p(3) by (simp add: is_block_def)
      from spec [OF this, of "length (data_shards e) + j"] that show ?thesis by simp
    qed
    then have "\<forall>s\<in>set parity. length s = ?len" by (auto simp: in_set_conv_nth)
    ultimately show thesis using that [of parity] p True by auto
  qed (use that [of "[]"] in auto)
  define pb where "pb = \<lparr>pb_k = of_nat k, pb_r = of_nat ?r, pb_shard_len = ?len, pb_shards = data_shards e @ parity\<rparr>"
  have r: "unat (of_nat ?r :: u8) = ?r" using e(6) by (simp add: unat_of_nat)
  have "block_ok k pb"
    using e shards parity by (auto simp: block_ok_def pb_def r MAX_SHARDS_def ITEM_LEN_PREFIX_def)
  moreover have "block_items k pb = filter (\<lambda>item. item \<noteq> []) items"
    using shards by (simp add: block_items_def pb_def)
  moreover have "length (pb_shards pb) = k + ?r" using shards parity by (simp add: pb_def)
  moreover from parity(1) have "seal_block host e = Some (map (\<lambda>i. datagram pb (en_next_block e) i (en_epoch e)) [0..<k + ?r],
      e\<lparr>en_passthrough_blocks := en_passthrough_blocks e + (if ?r = 0 then 1 else 0),
        en_fec_blocks := en_fec_blocks e + (if ?r = 0 then 0 else 1), en_next_block := en_next_block e + 1,
        en_pending := bt_insert (en_next_block e) pb (en_pending e), en_staged := []\<rparr>)"
    using e(1,2) unfolding seal_block_def Let_def e(2) parity(1) by (simp add: pb_def split del: if_split)
  ultimately show ?thesis by metis
qed

end
