(* ===== verification/Reliable_Udp_Network.thy ===== *)
theory Reliable_Udp_Network
  imports Reliable_Udp_Delivery
begin

text \<open>
  The sender and the receiver of \<^verbatim>\<open>reliable_udp.rs\<close> joined by a network that loses, repeats, delays and reorders
  datagrams, and by feedback that may lag behind. Nothing is delivered but the items pushed, in order and
  once; neither side panics; and a round of feedback whose retransmissions arrive delivers the block the
  receiver waits for. The outer code stays off.
\<close>

section \<open>The network\<close>

text \<open>
  Beside the two ends a state records the items pushed, the blocks sealed, every datagram sent and the
  items delivered.
\<close>

record net =
  n_enc :: Encoder
  n_dec :: Decoder
  n_items :: "bytes list"
  n_blocks :: "PendingBlock list"
  n_wire :: "bytes list"
  n_out :: "bytes list"

definition net_init :: "u32 \<Rightarrow> nat \<Rightarrow> nat \<Rightarrow> nat \<Rightarrow> nat \<Rightarrow> net" where
  "net_init epoch k r max_item cap =
     \<lparr>n_enc = encoder_new epoch k r max_item, n_dec = decoder_with_window cap, n_items = [], n_blocks = [], n_wire = [], n_out = []\<rparr>"

definition newly_sealed :: "Encoder \<Rightarrow> Encoder \<Rightarrow> PendingBlock list" where
  "newly_sealed e e' = (case bt_get (en_pending e') (en_next_block e) of None \<Rightarrow> [] | Some pb \<Rightarrow> [pb])"

text \<open>
  A step of either end. The network may hand over any datagram ever sent, any number of times and in any
  order; feedback reaches the sender in any order too, and acknowledges no more than was delivered.
\<close>

inductive net_step :: "net \<Rightarrow> net \<Rightarrow> bool" where
  push: "length item < 2 ^ 16 \<Longrightarrow> length (n_items s) < 2 ^ 31 - 1 \<Longrightarrow> push host item (n_enc s) = Some (ds, e') \<Longrightarrow>
    net_step s (s\<lparr>n_enc := e', n_items := n_items s @ [item], n_blocks := n_blocks s @ newly_sealed (n_enc s) e',
      n_wire := n_wire s @ ds\<rparr>)"
| flush: "flush host (n_enc s) = Some (ds, e') \<Longrightarrow>
    net_step s (s\<lparr>n_enc := e', n_blocks := n_blocks s @ newly_sealed (n_enc s) e', n_wire := n_wire s @ ds\<rparr>)"
| parity: "net_step s (s\<lparr>n_enc := set_parity r (n_enc s)\<rparr>)"
| window: "net_step s (s\<lparr>n_enc := set_flow_window w (n_enc s)\<rparr>)"
| feedback: "fb_ack_through fb \<le> de_next_deliver (n_dec s) \<Longrightarrow> on_feedback fb (n_enc s) = (ds, e') \<Longrightarrow>
    net_step s (s\<lparr>n_enc := e', n_wire := n_wire s @ ds\<rparr>)"
| probe: "net_step s (s\<lparr>n_wire := n_wire s @ probe_block b (n_enc s)\<rparr>)"
| resend: "net_step s (s\<lparr>n_wire := n_wire s @ retransmit_all_data (n_enc s)\<rparr>)"
| receive: "w \<in> set (n_wire s) \<Longrightarrow> ingest host guard w (n_dec s) = Some (out, d') \<Longrightarrow>
    net_step s (s\<lparr>n_dec := d', n_out := n_out s @ out\<rparr>)"

inductive net_reach :: "u32 \<Rightarrow> nat \<Rightarrow> nat \<Rightarrow> net \<Rightarrow> bool" for epoch k cap where
  init: "net_reach epoch k cap (net_init epoch k r max_item cap)"
| step: "net_reach epoch k cap s \<Longrightarrow> net_step s s' \<Longrightarrow> net_reach epoch k cap s'"

section \<open>The invariant\<close>

definition enc_ok :: "u32 \<Rightarrow> nat \<Rightarrow> bytes list \<Rightarrow> PendingBlock list \<Rightarrow> u32 \<Rightarrow> Encoder \<Rightarrow> bool" where
  "enc_ok epoch k items blocks nd e \<longleftrightarrow>
     en_k e = k \<and> k + en_r e \<le> 32 \<and> en_r_min e = 0 \<and> en_r_max e = 32 - k \<and> en_tower_d e = 0 \<and> en_epoch e = epoch \<and>
     en_next_block e = of_nat (length blocks) \<and> length (en_staged e) \<le> k \<and> bt_sorted (en_pending e) \<and>
     length blocks + length (en_staged e) \<le> length items \<and>
     (\<forall>b pb. bt_get (en_pending e) b = Some pb \<longrightarrow> unat b < length blocks \<and> blocks ! unat b = pb) \<and>
     (\<forall>i<length blocks. unat nd \<le> i \<longrightarrow> bt_get (en_pending e) (of_nat i) = Some (blocks ! i)) \<and>
     (\<exists>its. en_staged e = map framed its \<and> (\<forall>item\<in>set its. length item < 2 ^ 16) \<and>
        filter (\<lambda>item. item \<noteq> []) items = concat (map (block_items k) blocks) @ filter (\<lambda>item. item \<noteq> []) its)"

definition from_block :: "u32 \<Rightarrow> PendingBlock list \<Rightarrow> bytes \<Rightarrow> bool" where
  "from_block epoch blocks w \<longleftrightarrow>
     (\<exists>i idx fl. i < length blocks \<and> idx < length (pb_shards (blocks ! i)) \<and>
        w = datagram_flagged (blocks ! i) (of_nat i) idx fl epoch)"

definition net_ok :: "u32 \<Rightarrow> nat \<Rightarrow> nat \<Rightarrow> net \<Rightarrow> bool" where
  "net_ok epoch k cap s \<longleftrightarrow>
     length (n_items s) < 2 ^ 31 \<and> (\<forall>pb\<in>set (n_blocks s). block_ok k pb) \<and>
     enc_ok epoch k (n_items s) (n_blocks s) (de_next_deliver (n_dec s)) (n_enc s) \<and> length (en_staged (n_enc s)) < k \<and>
     (\<forall>w\<in>set (n_wire s). from_block epoch (n_blocks s) w) \<and>
     dec_ok k epoch (n_blocks s) (n_dec s) \<and> head_waits (n_dec s) \<and> de_window_cap (n_dec s) = max cap 1 \<and>
     n_out s = concat (map (block_items k) (take (unat (de_next_deliver (n_dec s))) (n_blocks s)))"

lemma net_init_ok: "0 < k \<Longrightarrow> k \<le> 32 \<Longrightarrow> net_ok epoch k cap (net_init epoch k r max_item cap)"
  by (auto simp: net_ok_def net_init_def enc_ok_def encoder_new_def clamp_def decoder_with_window_def dec_ok_def
      head_waits_def MAX_SHARDS_def Let_def)

lemma from_blockI:
  "i < length blocks \<Longrightarrow> blocks ! i = pb \<Longrightarrow> idx < length (pb_shards pb) \<Longrightarrow>
   from_block epoch blocks (datagram_flagged pb (of_nat i) idx fl epoch)"
  unfolding from_block_def by blast

lemma small_id: "i < 2 ^ 31 \<Longrightarrow> unat (of_nat i :: u32) = i"
  by (simp add: unat_of_nat)

lemma from_block_more: "from_block epoch blocks w \<Longrightarrow> from_block epoch (blocks @ bs) w"
  unfolding from_block_def by (metis length_append nth_append trans_less_add1)

lemma dec_ok_more: "dec_ok k epoch blocks d \<Longrightarrow> dec_ok k epoch (blocks @ bs) d"
  by (fastforce simp: dec_ok_def nth_append)

text \<open>Sealing the staged items adds one block.\<close>

lemma seal_step:
  assumes e: "enc_ok epoch k items blocks nd e" and st: "en_staged e \<noteq> []" and n: "length items < 2 ^ 31" and k: "0 < k"
    and nd: "unat nd \<le> length blocks"
  shows "\<exists>ds e' pb. seal_block host e = Some (ds, e') \<and> newly_sealed e e' = [pb] \<and> block_ok k pb \<and>
    (\<forall>w\<in>set ds. from_block epoch (blocks @ [pb]) w) \<and> enc_ok epoch k items (blocks @ [pb]) nd e' \<and> en_staged e' = [] \<and>
    en_tower_d e' = 0"
proof -
  note ok = e [unfolded enc_ok_def]
  from ok obtain its where its: "en_staged e = map framed its" "\<forall>item\<in>set its. length item < 2 ^ 16"
    "filter (\<lambda>item. item \<noteq> []) items = concat (map (block_items k) blocks) @ filter (\<lambda>item. item \<noteq> []) its" by auto
  from ok its(1) seal_block_ok [of e k its host] its(2) k obtain pb pt fc where
    pb: "block_ok k pb" "block_items k pb = filter (\<lambda>item. item \<noteq> []) its" and
    seal: "seal_block host e = Some (map (\<lambda>i. datagram pb (en_next_block e) i (en_epoch e)) [0..<length (pb_shards pb)],
      e\<lparr>en_passthrough_blocks := pt, en_fec_blocks := fc, en_next_block := en_next_block e + 1,
        en_pending := bt_insert (en_next_block e) pb (en_pending e), en_staged := []\<rparr>)" by auto
  have m: "unat (of_nat (length blocks) :: u32) = length blocks" using ok n by (intro small_id) simp
  let ?e = "e\<lparr>en_passthrough_blocks := pt, en_fec_blocks := fc, en_next_block := en_next_block e + 1,
        en_pending := bt_insert (en_next_block e) pb (en_pending e), en_staged := []\<rparr>"
  have new: "newly_sealed e ?e = [pb]" using ok by (simp add: newly_sealed_def)
  have wire: "\<forall>w\<in>set (map (\<lambda>i. datagram pb (en_next_block e) i (en_epoch e)) [0..<length (pb_shards pb)]). from_block epoch (blocks @ [pb]) w"
    using ok by (auto simp: datagram_def intro!: from_blockI)
  have neq: "(of_nat i :: u32) \<noteq> of_nat (length blocks)" if "i < length blocks" for i
    using that small_id [of i] m n ok by auto
  have room: "length blocks < length items" using ok st by (cases "en_staged e") auto
  have get: "bt_get (en_pending ?e) = (bt_get (en_pending e))(of_nat (length blocks) \<mapsto> pb)" using ok by simp
  have "enc_ok epoch k items (blocks @ [pb]) nd ?e"
    unfolding enc_ok_def get using ok st its(3) pb(2) neq m room
    by (auto simp: bt_insert_sorted nth_append less_Suc_eq split: if_splits)
  with seal new pb(1) wire ok show ?thesis by auto
qed

text \<open>What pushing or flushing does to the sender, and that neither panics.\<close>

definition sends :: "u32 \<Rightarrow> nat \<Rightarrow> bytes list \<Rightarrow> PendingBlock list \<Rightarrow> u32 \<Rightarrow> Encoder \<Rightarrow> bytes list \<Rightarrow> Encoder \<Rightarrow> bool" where
  "sends epoch k items blocks nd e ds e' \<longleftrightarrow>
     (let new = newly_sealed e e' in
      (\<forall>pb\<in>set new. block_ok k pb) \<and> (\<forall>w\<in>set ds. from_block epoch (blocks @ new) w) \<and>
      enc_ok epoch k items (blocks @ new) nd e' \<and> length (en_staged e') < k)"

lemma no_block_sealed:
  assumes "enc_ok epoch k items blocks nd e" "length items < 2 ^ 31" "en_pending e' = en_pending e"
  shows "newly_sealed e e' = []"
proof (cases "bt_get (en_pending e) (en_next_block e)")
  case (Some pb)
  then have "unat (en_next_block e) < length blocks" using assms(1) by (auto simp: enc_ok_def)
  moreover have "unat (en_next_block e) = length blocks" using assms(1,2) small_id [of "length blocks"] by (auto simp: enc_ok_def)
  ultimately show ?thesis by simp
qed (simp add: newly_sealed_def assms(3))

lemma push_ok:
  assumes e: "enc_ok epoch k items blocks nd e" "length (en_staged e) < k" and n: "length items < 2 ^ 31 - 1"
    and nd: "unat nd \<le> length blocks" and item: "length item < 2 ^ 16"
  shows "\<exists>ds e'. push host item e = Some (ds, e') \<and> sends epoch k (items @ [item]) blocks nd e ds e'"
proof -
  define e1 where "e1 = e\<lparr>en_staged := en_staged e @ [framed item]\<rparr>"
  note ok = e(1) [unfolded enc_ok_def]
  from ok obtain its where its: "en_staged e = map framed its" "\<forall>item\<in>set its. length item < 2 ^ 16"
    "filter (\<lambda>item. item \<noteq> []) items = concat (map (block_items k) blocks) @ filter (\<lambda>item. item \<noteq> []) its" by auto
  have "\<exists>its'. en_staged e1 = map framed its' \<and> (\<forall>item\<in>set its'. length item < 2 ^ 16) \<and>
      filter (\<lambda>item. item \<noteq> []) (items @ [item]) = concat (map (block_items k) blocks) @ filter (\<lambda>item. item \<noteq> []) its'"
    using its item by (intro exI [of _ "its @ [item]"]) (auto simp: e1_def)
  then have e1: "enc_ok epoch k (items @ [item]) blocks nd e1" using ok e(2) by (simp add: enc_ok_def e1_def)
  have n1: "length (items @ [item]) < 2 ^ 31" using n by simp
  have eq: "push host item e = (if length (en_staged e1) = k then seal_block host e1 else Some ([], e1))"
    using ok by (simp add: push_def e1_def framed_def Let_def)
  have same: "newly_sealed e e' = newly_sealed e1 e'" for e' by (simp add: newly_sealed_def e1_def)
  show ?thesis
  proof (cases "length (en_staged e1) = k")
    case True
    then have k: "0 < k" and st: "en_staged e1 \<noteq> []" by (auto simp: e1_def)
    from seal_step [OF e1 st n1 k nd, of host] True eq k show ?thesis by (auto simp: sends_def same Let_def)
  next
    case False
    then have "length (en_staged e1) < k" using e(2) by (simp add: e1_def)
    with False eq e1 no_block_sealed [OF e1 n1, of e1] show ?thesis by (simp add: sends_def same)
  qed
qed

lemma flush_ok:
  assumes e: "enc_ok epoch k items blocks nd e" "length (en_staged e) < k" and n: "length items < 2 ^ 31"
    and nd: "unat nd \<le> length blocks"
  shows "\<exists>ds e'. flush host e = Some (ds, e') \<and> sends epoch k items blocks nd e ds e' \<and> en_staged e' = []"
proof (cases "en_staged e = []")
  case True
  with e no_block_sealed [OF e(1) n, of e] show ?thesis by (simp add: flush_def sends_def enc_ok_def)
next
  case False
  have k: "0 < k" using e(2) by simp
  from seal_step [OF e(1) False n k nd, of host] False k show ?thesis by (auto simp: flush_def sends_def Let_def)
qed

text \<open>A retransmission repeats shards of blocks still held.\<close>

lemma retransmit_shards_from:
  assumes e: "enc_ok epoch k items blocks nd e" and pb: "bt_get (en_pending e) b = Some pb"
    and idxs: "set idxs \<subseteq> {..<length (pb_shards pb)}"
  shows "\<forall>w\<in>set (retransmit_shards pb b idxs epoch). from_block epoch blocks w"
proof -
  from e pb have b: "unat b < length blocks" "blocks ! unat b = pb" by (auto simp: enc_ok_def)
  show ?thesis using from_blockI [OF b] idxs by (auto simp: retransmit_shards_def)
qed

lemma on_feedback_fields:
  fixes fb e
  defines "e' \<equiv> snd (on_feedback fb e)"
  shows "en_k e' = en_k e" "en_r e' = en_r e" "en_r_min e' = en_r_min e" "en_r_max e' = en_r_max e" "en_tower_d e' = en_tower_d e"
    "en_epoch e' = en_epoch e" "en_next_block e' = en_next_block e" "en_staged e' = en_staged e"
    "en_pending e' = bt_retain (\<lambda>i. \<not> i < fb_ack_through fb) (en_pending e)"
  by (simp_all add: e'_def on_feedback_def Let_def split: option.splits)

lemma on_feedback_sent:
  "fst (on_feedback fb e) =
     (if fb_nak_block fb = NAK_NONE \<or> fb_nak_block fb < fb_ack_through fb then []
      else case bt_get (en_pending e) (fb_nak_block fb) of
        None \<Rightarrow> []
      | Some pb \<Rightarrow> retransmit_shards pb (fb_nak_block fb) (filter (\<lambda>idx. bit (fb_nak_mask fb) (idx mod 32)) [0..<length (pb_shards pb)]) (en_epoch e))"
  by (simp add: on_feedback_def Let_def mask_bit_clear split: option.splits)

lemma on_feedback_ok:
  assumes e: "enc_ok epoch k items blocks nd e" and fb: "fb_ack_through fb \<le> nd" and r: "on_feedback fb e = (ds, e')"
    and n: "length blocks < 2 ^ 31"
  shows "enc_ok epoch k items blocks nd e'" "en_staged e' = en_staged e" "\<forall>w\<in>set ds. from_block epoch blocks w"
proof -
  have keep: "\<not> of_nat i < fb_ack_through fb" if "unat nd \<le> i" "i < length blocks" for i
    using fb that n small_id [of i] by (simp add: word_less_nat_alt word_le_nat_alt)
  note fields = on_feedback_fields [of fb e, unfolded r snd_conv]
  show "enc_ok epoch k items blocks nd e'" using e keep by (auto simp: enc_ok_def fields bt_retain_sorted split: if_splits)
  show "en_staged e' = en_staged e" by (rule fields)
  have ep: "en_epoch e = epoch" using e by (simp add: enc_ok_def)
  have sent: "\<forall>w\<in>set (retransmit_shards pb b (filter P [0..<length (pb_shards pb)]) epoch). from_block epoch blocks w"
    if "bt_get (en_pending e) b = Some pb" for b pb P by (rule retransmit_shards_from [OF e that]) auto
  have "\<forall>w\<in>set (fst (on_feedback fb e)). from_block epoch blocks w"
    using sent [of "fb_nak_block fb"] by (cases "bt_get (en_pending e) (fb_nak_block fb)") (simp_all add: on_feedback_sent ep)
  then show "\<forall>w\<in>set ds. from_block epoch blocks w" by (simp add: r)
qed

lemma data_index:
  assumes e: "enc_ok epoch k items blocks nd e" and ok: "\<forall>pb\<in>set blocks. block_ok k pb"
    and pb: "bt_get (en_pending e) b = Some pb"
  shows "unat (pb_k pb) \<le> length (pb_shards pb)"
proof -
  from e pb have "pb \<in> set blocks" unfolding enc_ok_def by (metis nth_mem)
  with ok have "block_ok k pb" by blast
  then show ?thesis by (simp add: block_ok_def MAX_SHARDS_def unat_of_nat)
qed

lemma resend_from:
  assumes e: "enc_ok epoch k items blocks nd e" and ok: "\<forall>pb\<in>set blocks. block_ok k pb"
  shows "\<forall>w\<in>set (probe_block b e). from_block epoch blocks w" "\<forall>w\<in>set (retransmit_all_data e). from_block epoch blocks w"
proof -
  have ep: "en_epoch e = epoch" and sorted: "bt_sorted (en_pending e)" using e by (simp_all add: enc_ok_def)
  have one: "\<forall>w\<in>set (retransmit_shards pb b [0..<unat (pb_k pb)] epoch). from_block epoch blocks w"
    if "bt_get (en_pending e) b = Some pb" for b pb
    using data_index [OF e ok that] by (intro retransmit_shards_from [OF e that]) auto
  then show "\<forall>w\<in>set (probe_block b e). from_block epoch blocks w" 
    by (cases "bt_get (en_pending e) b") (simp_all add: probe_block_def ep)
  show "\<forall>w\<in>set (retransmit_all_data e). from_block epoch blocks w"
    using one by (auto simp: retransmit_all_data_def ep bt_sorted_get [OF sorted])
qed

text \<open>Every step keeps the invariant.\<close>

lemma sends_net_ok:
  assumes ok: "net_ok epoch k cap s" and s: "sends epoch k items (n_blocks s) (de_next_deliver (n_dec s)) (n_enc s) ds e'"
    and n: "length items < 2 ^ 31"
  shows "net_ok epoch k cap (s\<lparr>n_enc := e', n_items := items, n_blocks := n_blocks s @ newly_sealed (n_enc s) e', n_wire := n_wire s @ ds\<rparr>)"
  using ok s n dec_ok_more [of k epoch "n_blocks s" "n_dec s" "newly_sealed (n_enc s) e'"]
  by (auto simp: net_ok_def sends_def Let_def intro: from_block_more) (auto simp: dec_ok_def)

lemma receive_net_ok:
  assumes ok: "net_ok epoch k cap s" and d': "dec_ok k epoch (n_blocks s) d'" "head_waits d'" "delivers k (n_blocks s) (n_dec s) out d'"
  shows "net_ok epoch k cap (s\<lparr>n_dec := d', n_out := n_out s @ out\<rparr>)"
proof -
  note net = ok [unfolded net_ok_def]
  let ?a = "unat (de_next_deliver (n_dec s))" and ?b = "unat (de_next_deliver d')"
  from d' have le: "?a \<le> ?b" by (simp add: delivers_def word_le_nat_alt)
  have "take ?a (n_blocks s) @ drop ?a (take ?b (n_blocks s)) = take ?b (n_blocks s)"
    using drop_take_append [of 0 ?a ?b "n_blocks s"] le by simp
  then have "n_out s @ out = concat (map (block_items k) (take ?b (n_blocks s)))"
    using net d' by (simp add: delivers_def) (metis concat_append map_append)
  with net d' le show ?thesis by (auto simp: net_ok_def delivers_def enc_ok_def)
qed

lemma net_step_ok:
  assumes "net_step s s'" "net_ok epoch k cap s"
  shows "net_ok epoch k cap s'"
  using assms
proof (induction rule: net_step.induct)
  case (push item s host ds e')
  note ok = push(4) [unfolded net_ok_def]
  from ok have nd: "unat (de_next_deliver (n_dec s)) \<le> length (n_blocks s)" by (simp add: dec_ok_def)
  from push_ok [OF _ _ push(2) nd push(1), of epoch k "n_enc s" host] ok push(3)
  have "sends epoch k (n_items s @ [item]) (n_blocks s) (de_next_deliver (n_dec s)) (n_enc s) ds e'" by simp
  from sends_net_ok [OF push(4) this] push(2) show ?case by simp
next
  case (flush host s ds e')
  note ok = flush(2) [unfolded net_ok_def]
  from ok have nd: "unat (de_next_deliver (n_dec s)) \<le> length (n_blocks s)" by (simp add: dec_ok_def)
  from flush_ok [OF _ _ _ nd, of epoch k "n_items s" "n_enc s" host] ok flush(1)
  have "sends epoch k (n_items s) (n_blocks s) (de_next_deliver (n_dec s)) (n_enc s) ds e'" by simp
  from sends_net_ok [OF flush(2) this] ok show ?case by simp
next
  case (parity s r)
  then show ?case by (auto simp: net_ok_def enc_ok_def set_parity_def clamp_def)
next
  case (window s w)
  then show ?case by (simp add: net_ok_def enc_ok_def set_flow_window_def)
next
  case (feedback fb s ds e')
  note ok = feedback(3) [unfolded net_ok_def]
  from ok have "length (n_blocks s) < 2 ^ 31" by (simp add: enc_ok_def)
  from on_feedback_ok [OF _ feedback(1,2) this, of epoch k "n_items s"] ok show ?case by (auto simp: net_ok_def)
next
  case (probe s b)
  then show ?case using resend_from(1) [of epoch k "n_items s" "n_blocks s"] by (auto simp: net_ok_def)
next
  case (resend s)
  then show ?case using resend_from(2) [of epoch k "n_items s" "n_blocks s"] by (auto simp: net_ok_def)
next
  case (receive w s host guard out d')
  note ok = receive(3) [unfolded net_ok_def]
  from ok receive(1) obtain i idx fl where w: "i < length (n_blocks s)" "idx < length (pb_shards (n_blocks s ! i))"
    "w = datagram_flagged (n_blocks s ! i) (of_nat i) idx fl epoch" by (auto simp: from_block_def)
  from ok have n: "length (n_blocks s) < 2 ^ 31" by (simp add: enc_ok_def)
  from ingest_ok [OF _ n _ _ w(1,2), of k epoch "n_dec s" host guard fl] ok receive(2) w(3)
  have d': "ingest_keeps k epoch (n_blocks s) (of_nat i) idx (n_dec s) out d'" by simp
  then show ?case by (intro receive_net_ok [OF receive(3)]) (simp_all add: ingest_keeps_def)
qed

lemma net_reach_ok: "net_reach epoch k cap s \<Longrightarrow> 0 < k \<Longrightarrow> k \<le> 32 \<Longrightarrow> net_ok epoch k cap s"
  by (induction rule: net_reach.induct) (auto intro: net_init_ok net_step_ok)

section \<open>Recovery\<close>

text \<open>Handing over a list of datagrams.\<close>

fun receive_all :: "host \<Rightarrow> bool \<Rightarrow> bytes list \<Rightarrow> Decoder \<Rightarrow> (bytes list \<times> Decoder) option" where
  "receive_all host guard [] d = Some ([], d)"
| "receive_all host guard (w # ws) d =
     do { (out, d) \<leftarrow> ingest host guard w d; (out', d) \<leftarrow> receive_all host guard ws d; Some (out @ out', d) }"

lemma receive_head:
  assumes blocks: "\<forall>pb\<in>set blocks. block_ok k pb" "length blocks < 2 ^ 31" and i: "i < length blocks"
    and idxs: "set idxs \<subseteq> {..<length (pb_shards (blocks ! i))}"
  shows "dec_ok k epoch blocks d \<Longrightarrow> head_waits d \<Longrightarrow> i \<le> unat (de_next_deliver d) \<Longrightarrow> 0 < de_window_cap d \<Longrightarrow>
    de_window_cap d < 2 ^ 32 \<Longrightarrow>
    \<exists>out d'. receive_all host guard (map (\<lambda>x. datagram_flagged (blocks ! i) (of_nat i) x fl epoch) idxs) d = Some (out, d') \<and>
      dec_ok k epoch blocks d' \<and> head_waits d' \<and> delivers k blocks d out d' \<and>
      (unat (de_next_deliver d') = i \<longrightarrow> head_shards d \<union> set idxs \<subseteq> head_shards d')"
  using idxs
proof (induction idxs arbitrary: d)
  case Nil
  then show ?case by (simp add: delivers_refl)
next
  case (Cons x idxs)
  let ?w = "datagram_flagged (blocks ! i) (of_nat i) x fl epoch"
  from Cons.prems(6) have x: "x < length (pb_shards (blocks ! i))" by simp
  from ingest_ok [OF blocks Cons.prems(1,2) i x, of host guard fl] obtain out d1 where
    d1: "ingest host guard ?w d = Some (out, d1)" "ingest_keeps k epoch blocks (of_nat i) x d out d1" by blast
  then have ok1: "dec_ok k epoch blocks d1" "head_waits d1" "delivers k blocks d out d1" by (simp_all add: ingest_keeps_def)
  then have le: "unat (de_next_deliver d) \<le> unat (de_next_deliver d1)" "de_window_cap d1 = de_window_cap d"
    by (simp_all add: delivers_def word_le_nat_alt)
  from Cons.IH [OF ok1(1,2)] le Cons.prems(3-6) obtain out' d' where d': "receive_all host guard (map (\<lambda>x. datagram_flagged (blocks ! i) (of_nat i) x fl epoch) idxs) d1 = Some (out', d')"
    "dec_ok k epoch blocks d'" "head_waits d'" "delivers k blocks d1 out' d'"
    "unat (de_next_deliver d') = i \<longrightarrow> head_shards d1 \<union> set idxs \<subseteq> head_shards d'" by auto
  have "head_shards d \<union> set (x # idxs) \<subseteq> head_shards d'" if "unat (de_next_deliver d') = i"
  proof -
    from that d'(4) le Cons.prems(3) have "unat (de_next_deliver d1) = i" "unat (de_next_deliver d) = i"
      by (auto simp: delivers_def word_le_nat_alt)
    moreover from this have "de_next_deliver d1 = de_next_deliver d" "de_next_deliver d = of_nat i"
      by (auto simp: word_unat_eq_iff)
    ultimately show ?thesis using d1(2) d'(5) that Cons.prems(4,5) by (auto simp: ingest_keeps_def)
  qed
  with d1(1) d' delivers_trans [OF ok1(3) d'(4)] show ?case by auto
qed

text \<open>A block that still waits has fewer than \<open>k\<close> shards.\<close>

lemma head_shards_few:
  assumes "dec_ok k epoch blocks d" "head_waits d" "0 < k"
  shows "card (head_shards d) < k" "finite (head_shards d)"
proof -
  show "finite (head_shards d)" by (simp add: head_shards_def finite_mask_bits split: option.splits)
  show "card (head_shards d) < k"
  proof (cases "bt_get (de_window d) (de_next_deliver d)")
    case (Some blk)
    with assms have "rx_ok k (blocks ! unat (de_next_deliver d)) blk" "\<not> rb_decoded blk" by (auto simp: dec_ok_def head_waits_def)
    with Some show ?thesis by (simp add: head_shards_def rx_ok_def rx_count_def count_ones_card)
  qed (simp add: head_shards_def assms)
qed

lemma head_delivered:
  assumes blocks: "\<forall>pb\<in>set blocks. block_ok k pb" "length blocks < 2 ^ 31" and k: "0 < k"
    and d: "dec_ok k epoch blocks d" "head_waits d" "0 < de_window_cap d" "de_window_cap d < 2 ^ 32"
    and i: "unat (de_next_deliver d) = i" "i < length blocks"
    and idxs: "set idxs \<subseteq> {..<length (pb_shards (blocks ! i))}" "k \<le> card (head_shards d \<union> set idxs)"
  shows "\<exists>out d'. receive_all host guard (map (\<lambda>x. datagram_flagged (blocks ! i) (of_nat i) x fl epoch) idxs) d = Some (out, d') \<and>
      dec_ok k epoch blocks d' \<and> head_waits d' \<and> delivers k blocks d out d' \<and> i < unat (de_next_deliver d')"
proof -
  from receive_head [OF blocks i(2) idxs(1) d(1,2) _ d(3,4), of host guard fl] i(1) obtain out d' where
    d': "receive_all host guard (map (\<lambda>x. datagram_flagged (blocks ! i) (of_nat i) x fl epoch) idxs) d = Some (out, d')"
      "dec_ok k epoch blocks d'" "head_waits d'" "delivers k blocks d out d'"
      "unat (de_next_deliver d') = i \<longrightarrow> head_shards d \<union> set idxs \<subseteq> head_shards d'" by auto
  have "unat (de_next_deliver d') \<noteq> i"
    using d'(5) head_shards_few [OF d'(2,3) k] idxs(2) card_mono [of "head_shards d'" "head_shards d \<union> set idxs"] by auto
  moreover have "i \<le> unat (de_next_deliver d')" using d'(4) i(1) by (simp add: delivers_def word_le_nat_alt)
  ultimately show ?thesis using d' by auto
qed


lemma bit_low_mask: "i < 32 \<Longrightarrow> bit (low_mask n) i \<longleftrightarrow> i < n"
  by (auto simp: low_mask_def mask_eq_exp_minus_1 [symmetric] bit_mask_iff)

lemma feedback_head:
  assumes blocks: "\<forall>pb\<in>set blocks. block_ok k pb" "length blocks < 2 ^ 31"
    and d: "dec_ok k epoch blocks d" "head_waits d" and i: "unat (de_next_deliver d) = i" "i < length blocks"
  shows "fb_nak_block (feedback sensed True d) = de_next_deliver d" "fb_ack_through (feedback sensed True d) = de_next_deliver d"
    and "x < length (pb_shards (blocks ! i)) \<Longrightarrow> bit (fb_nak_mask (feedback sensed True d)) x \<longleftrightarrow> x \<notin> head_shards d"
proof -
  show "fb_ack_through (feedback sensed True d) = de_next_deliver d"
    by (simp add: feedback_def Let_def split: prod.splits)
  have pb: "block_ok k (blocks ! i)" using blocks(1) i(2) by simp
  show "fb_nak_block (feedback sensed True d) = de_next_deliver d"
    using d(2) by (auto simp: feedback_def Let_def head_waits_def split: option.splits)
  show "bit (fb_nak_mask (feedback sensed True d)) x \<longleftrightarrow> x \<notin> head_shards d" if x: "x < length (pb_shards (blocks ! i))"
  proof (cases "bt_get (de_window d) (de_next_deliver d)")
    case None
    with x pb show ?thesis by (simp add: feedback_def Let_def head_shards_def block_ok_def MAX_SHARDS_def)
  next
    case (Some blk)
    with d i(1) have rx: "rx_ok k (blocks ! i) blk" "\<not> rb_decoded blk" by (auto simp: dec_ok_def head_waits_def)
    with Some x pb show ?thesis
      by (simp add: feedback_def Let_def head_shards_def missing_mask_def block_ok_def MAX_SHARDS_def rx_ok_def
          bit_and_iff bit_not_iff bit_low_mask)
  qed
qed

text \<open>One round: the receiver asks for what it waits for, and what the sender retransmits arrives.\<close>

definition arq_round :: "host \<Rightarrow> bool \<Rightarrow> u8 \<times> u8 \<times> u8 \<Rightarrow> net \<Rightarrow> net option" where
  "arq_round host guard sensed s =
     (let (ds, e') = on_feedback (feedback sensed True (n_dec s)) (n_enc s)
      in do {
           (out, d') \<leftarrow> receive_all host guard ds (n_dec s);
           Some (s\<lparr>n_enc := e', n_wire := n_wire s @ ds, n_dec := d', n_out := n_out s @ out\<rparr>)
         })"

fun arq_rounds :: "nat \<Rightarrow> host \<Rightarrow> bool \<Rightarrow> u8 \<times> u8 \<times> u8 \<Rightarrow> net \<Rightarrow> net option" where
  "arq_rounds 0 host guard sensed s = Some s"
| "arq_rounds (Suc m) host guard sensed s = do { s \<leftarrow> arq_round host guard sensed s; arq_rounds m host guard sensed s }"

text \<open>The sender flushes what it has staged, then rounds follow.\<close>

definition settle :: "nat \<Rightarrow> host \<Rightarrow> host \<Rightarrow> bool \<Rightarrow> u8 \<times> u8 \<times> u8 \<Rightarrow> net \<Rightarrow> net option" where
  "settle m sender host guard sensed s =
     do {
       (ds, e') \<leftarrow> flush sender (n_enc s);
       arq_rounds m host guard sensed (s\<lparr>n_enc := e', n_blocks := n_blocks s @ newly_sealed (n_enc s) e', n_wire := n_wire s @ ds\<rparr>)
     }"

lemma round_sends:
  assumes ok: "net_ok epoch k cap s" and i: "unat (de_next_deliver (n_dec s)) = i" "i < length (n_blocks s)"
  shows "\<exists>idxs. fst (on_feedback (feedback sensed True (n_dec s)) (n_enc s)) =
      map (\<lambda>x. datagram_flagged (n_blocks s ! i) (of_nat i) x FLAG_RETRANSMIT epoch) idxs \<and>
    set idxs = {..<length (pb_shards (n_blocks s ! i))} - head_shards (n_dec s)"
proof -
  let ?d = "n_dec s" and ?pb = "n_blocks s ! i" and ?fb = "feedback sensed True (n_dec s)"
  note net = ok [unfolded net_ok_def]
  have n: "length (n_blocks s) < 2 ^ 31" using net by (simp add: enc_ok_def)
  from net have ends: "\<forall>pb\<in>set (n_blocks s). block_ok k pb" "dec_ok k epoch (n_blocks s) ?d" "head_waits ?d" by blast+
  note fb = feedback_head [OF ends(1) n ends(2,3) i, where sensed = sensed]
  have nd: "de_next_deliver ?d = of_nat i" using i by (auto simp: word_unat_eq_iff)
  have "de_next_deliver ?d \<noteq> NAK_NONE" using i n by (auto simp: NAK_NONE_def unsigned_minus_1_eq_mask mask_eq_exp_minus_1)
  moreover have "bt_get (en_pending (n_enc s)) (of_nat i) = Some ?pb" "en_epoch (n_enc s) = epoch" using net i by (auto simp: enc_ok_def)
  moreover have "length (pb_shards ?pb) \<le> 32" using ends(1) i nth_mem [of i "n_blocks s"] by (auto simp: block_ok_def MAX_SHARDS_def)
  then have "filter (\<lambda>idx. bit (fb_nak_mask ?fb) (idx mod 32)) [0..<length (pb_shards ?pb)] =
      filter (bit (fb_nak_mask ?fb)) [0..<length (pb_shards ?pb)]"
    by (intro filter_cong) auto
  ultimately have "fst (on_feedback ?fb (n_enc s)) =
      map (\<lambda>x. datagram_flagged ?pb (of_nat i) x FLAG_RETRANSMIT epoch) (filter (bit (fb_nak_mask ?fb)) [0..<length (pb_shards ?pb)])"
    using fb(1,2) nd by (simp add: on_feedback_sent retransmit_shards_def)
  moreover have "set (filter (bit (fb_nak_mask ?fb)) [0..<length (pb_shards ?pb)]) = {..<length (pb_shards ?pb)} - head_shards ?d"
    using fb(3) by auto
  ultimately show ?thesis by blast
qed


lemma arq_round_ok:
  assumes ok: "net_ok epoch k cap s" and k: "0 < k" and cap: "cap < 2 ^ 32"
  shows "\<exists>s'. arq_round host guard sensed s = Some s' \<and> net_ok epoch k cap s' \<and> n_blocks s' = n_blocks s \<and> n_items s' = n_items s \<and>
    en_staged (n_enc s') = en_staged (n_enc s) \<and>
    unat (de_next_deliver (n_dec s)) \<le> unat (de_next_deliver (n_dec s')) \<and>
    (unat (de_next_deliver (n_dec s)) < length (n_blocks s) \<longrightarrow> unat (de_next_deliver (n_dec s)) < unat (de_next_deliver (n_dec s')))"
proof -
  let ?d = "n_dec s" and ?fb = "feedback sensed True (n_dec s)" and ?i = "unat (de_next_deliver (n_dec s))"
  note net = ok [unfolded net_ok_def]
  have n: "length (n_blocks s) < 2 ^ 31" using net by (simp add: enc_ok_def)
  from net have ends: "\<forall>pb\<in>set (n_blocks s). block_ok k pb" "dec_ok k epoch (n_blocks s) ?d" "head_waits ?d"
    "enc_ok epoch k (n_items s) (n_blocks s) (de_next_deliver ?d) (n_enc s)" by blast+
  obtain ds e' where fb: "on_feedback ?fb (n_enc s) = (ds, e')" by force
  have ack: "fb_ack_through ?fb \<le> de_next_deliver ?d" by (simp add: feedback_def Let_def split: prod.splits)
  define s1 where "s1 = s\<lparr>n_enc := e', n_wire := n_wire s @ ds\<rparr>"
  have ok1: "net_ok epoch k cap s1"
    unfolding s1_def using net_step.feedback [OF ack fb] ok by (rule net_step_ok)
  have "\<exists>out d'. receive_all host guard ds ?d = Some (out, d') \<and> dec_ok k epoch (n_blocks s) d' \<and> head_waits d' \<and>
      delivers k (n_blocks s) ?d out d' \<and> (?i < length (n_blocks s) \<longrightarrow> ?i < unat (de_next_deliver d'))"
  proof (cases "?i < length (n_blocks s)")
    case True
    from round_sends [OF ok refl True, of sensed] fb obtain idxs where idxs:
      "ds = map (\<lambda>x. datagram_flagged (n_blocks s ! ?i) (of_nat ?i) x FLAG_RETRANSMIT epoch) idxs"
      "set idxs = {..<length (pb_shards (n_blocks s ! ?i))} - head_shards ?d" by auto
    have "{..<length (pb_shards (n_blocks s ! ?i))} \<subseteq> head_shards ?d \<union> set idxs" using idxs(2) by auto
    moreover have "k \<le> length (pb_shards (n_blocks s ! ?i))" using ends(1) True by (simp add: block_ok_def)
    ultimately have "k \<le> card (head_shards ?d \<union> set idxs)"
      using card_mono [of "head_shards ?d \<union> set idxs" "{..<length (pb_shards (n_blocks s ! ?i))}"] head_shards_few [OF ends(2,3) k] by simp
    moreover have "0 < de_window_cap ?d" "de_window_cap ?d < 2 ^ 32" using net cap by simp_all
    ultimately show ?thesis
      using head_delivered [OF ends(1) n k ends(2,3) _ _ refl True, of idxs host guard FLAG_RETRANSMIT] idxs by auto
  next
    case False
    from net False have "length (n_blocks s) = ?i" by (simp add: dec_ok_def)
    with ends(4) have "bt_get (en_pending (n_enc s)) (de_next_deliver ?d) = None"
      by (cases "bt_get (en_pending (n_enc s)) (de_next_deliver ?d)") (auto simp: enc_ok_def)
    moreover have "fb_nak_block ?fb = de_next_deliver ?d"
      using ends(3) by (auto simp: feedback_def Let_def head_waits_def split: option.splits)
    ultimately have "ds = []" using fb by (simp add: on_feedback_sent [of ?fb "n_enc s", unfolded fb fst_conv])
    with False ends show ?thesis by (simp add: delivers_refl)
  qed
  then obtain out d' where d': "receive_all host guard ds ?d = Some (out, d')" "dec_ok k epoch (n_blocks s) d'" "head_waits d'"
    "delivers k (n_blocks s) ?d out d'" "?i < length (n_blocks s) \<longrightarrow> ?i < unat (de_next_deliver d')" by blast
  have "net_ok epoch k cap (s1\<lparr>n_dec := d', n_out := n_out s1 @ out\<rparr>)"
    by (rule receive_net_ok [OF ok1]) (use d' in \<open>simp_all add: s1_def\<close>)
  moreover have "arq_round host guard sensed s = Some (s1\<lparr>n_dec := d', n_out := n_out s1 @ out\<rparr>)"
    by (simp add: arq_round_def fb d'(1) s1_def)
  moreover have "en_staged e' = en_staged (n_enc s)" using on_feedback_fields(8) [of ?fb "n_enc s"] by (simp add: fb)
  ultimately show ?thesis using d'(4,5) by (simp add: s1_def delivers_def word_le_nat_alt)
qed

lemma arq_rounds_ok:
  assumes "0 < k" "cap < 2 ^ 32"
  shows "net_ok epoch k cap s \<Longrightarrow> length (n_blocks s) - unat (de_next_deliver (n_dec s)) \<le> m \<Longrightarrow>
    \<exists>s'. arq_rounds m host guard sensed s = Some s' \<and> net_ok epoch k cap s' \<and> n_blocks s' = n_blocks s \<and> n_items s' = n_items s \<and>
    en_staged (n_enc s') = en_staged (n_enc s) \<and> unat (de_next_deliver (n_dec s')) = length (n_blocks s)"
proof (induction m arbitrary: s)
  case 0
  then show ?case by (auto simp: net_ok_def dec_ok_def)
next
  case (Suc m)
  from arq_round_ok [OF Suc.prems(1) assms, of host guard sensed] obtain s1 where s1: "arq_round host guard sensed s = Some s1"
    "net_ok epoch k cap s1" "n_blocks s1 = n_blocks s" "n_items s1 = n_items s" "en_staged (n_enc s1) = en_staged (n_enc s)"
    "unat (de_next_deliver (n_dec s)) \<le> unat (de_next_deliver (n_dec s1))"
    "unat (de_next_deliver (n_dec s)) < length (n_blocks s) \<longrightarrow> unat (de_next_deliver (n_dec s)) < unat (de_next_deliver (n_dec s1))" by blast
  have "length (n_blocks s1) - unat (de_next_deliver (n_dec s1)) \<le> m" 
    using s1(6,7) Suc.prems(2) unfolding s1(3) by (cases "unat (de_next_deliver (n_dec s)) < length (n_blocks s)") simp_all
  from Suc.IH [OF s1(2) this] s1 show ?case by auto
qed


text \<open>Any list of items can be pushed and flushed, and a round is made of steps.\<close>

lemma push_reach:
  assumes r: "net_reach epoch k cap s" and k: "0 < k" "k \<le> 32" and item: "length item < 2 ^ 16" "length (n_items s) < 2 ^ 31 - 1"
  shows "\<exists>s'. net_reach epoch k cap s' \<and> n_items s' = n_items s @ [item] \<and> n_dec s' = n_dec s"
proof -
  note net = net_reach_ok [OF r k, unfolded net_ok_def]
  then have "unat (de_next_deliver (n_dec s)) \<le> length (n_blocks s)" by (simp add: dec_ok_def)
  from push_ok [OF _ _ item(2) this item(1), of epoch k "n_enc s"] net obtain host ds e' where
    "push host item (n_enc s) = Some (ds, e')" by blast
  from net_reach.step [OF r net_step.push [OF item this]] show ?thesis by auto
qed

lemma flush_step:
  assumes r: "net_reach epoch k cap s" and k: "0 < k" "k \<le> 32"
  obtains ds e' where "flush host (n_enc s) = Some (ds, e')" "en_staged e' = []"
    "net_reach epoch k cap (s\<lparr>n_enc := e', n_blocks := n_blocks s @ newly_sealed (n_enc s) e', n_wire := n_wire s @ ds\<rparr>)"
proof -
  note net = net_reach_ok [OF r k, unfolded net_ok_def]
  then have "unat (de_next_deliver (n_dec s)) \<le> length (n_blocks s)" by (simp add: dec_ok_def)
  from flush_ok [OF _ _ _ this, of epoch k "n_items s" "n_enc s"] net obtain ds e' where
    "flush host (n_enc s) = Some (ds, e')" "en_staged e' = []" by blast
  with net_reach.step [OF r net_step.flush] show ?thesis using that by blast
qed

lemma flush_reach:
  assumes "net_reach epoch k cap s" "0 < k" "k \<le> 32"
  shows "\<exists>s'. net_reach epoch k cap s' \<and> n_items s' = n_items s \<and> n_dec s' = n_dec s \<and> en_staged (n_enc s') = []"
  by (rule flush_step [OF assms]) fastforce

lemma one_newly_sealed: "length (newly_sealed e e') \<le> 1"
  by (simp add: newly_sealed_def split: option.splits)

lemma items_reach:
  assumes k: "0 < k" "k \<le> 32"
  shows "\<forall>item\<in>set items. length item < 2 ^ 16 \<Longrightarrow> length items < 2 ^ 31 \<Longrightarrow>
    \<exists>s. net_reach epoch k cap s \<and> n_items s = items \<and> n_dec s = decoder_with_window cap"
proof (induction items rule: rev_induct)
  case Nil
  show ?case using net_reach.init [of epoch k cap 0 0] by (auto simp: net_init_def)
next
  case (snoc item items)
  then obtain s where s: "net_reach epoch k cap s" "n_items s = items" "n_dec s = decoder_with_window cap" by auto
  with push_reach [OF s(1) k, of item] snoc.prems show ?case by auto
qed

lemma flushed_reach:
  assumes "0 < k" "k \<le> 32" "\<forall>item\<in>set items. length item < 2 ^ 16" "length items < 2 ^ 31"
  obtains s where "net_reach epoch k cap s" "n_items s = items" "n_dec s = decoder_with_window cap" "en_staged (n_enc s) = []"
  using items_reach [OF assms, of epoch cap] flush_reach [OF _ assms(1,2)] by metis

lemma receive_all_reach:
  "net_reach epoch k cap s \<Longrightarrow> set ws \<subseteq> set (n_wire s) \<Longrightarrow> receive_all host guard ws (n_dec s) = Some (out, d') \<Longrightarrow>
   net_reach epoch k cap (s\<lparr>n_dec := d', n_out := n_out s @ out\<rparr>)"
proof (induction ws arbitrary: s out)
  case (Cons w ws)
  from Cons.prems(3) obtain o1 d1 o2 where 1: "ingest host guard w (n_dec s) = Some (o1, d1)"
    and 2: "receive_all host guard ws d1 = Some (o2, d')" "out = o1 @ o2" by (auto split: bind_splits)
  from Cons.prems(2) 1 have "net_reach epoch k cap (s\<lparr>n_dec := d1, n_out := n_out s @ o1\<rparr>)"
    by (intro net_reach.step [OF Cons.prems(1)] net_step.receive) simp_all
  from Cons.IH [OF this, of o2] Cons.prems(2) 2 show ?case by simp
next
  case Nil
  then show ?case by (cases s) auto
qed

lemma arq_round_reach:
  assumes r: "net_reach epoch k cap s" and s': "arq_round host guard sensed s = Some s'"
  shows "net_reach epoch k cap s'"
proof -
  obtain ds e' where fb: "on_feedback (feedback sensed True (n_dec s)) (n_enc s) = (ds, e')" by force
  have ack: "fb_ack_through (feedback sensed True (n_dec s)) \<le> de_next_deliver (n_dec s)"
    by (simp add: feedback_def Let_def split: prod.splits)
  from s' fb obtain out d' where d': "receive_all host guard ds (n_dec s) = Some (out, d')"
    "s' = s\<lparr>n_enc := e', n_wire := n_wire s @ ds, n_dec := d', n_out := n_out s @ out\<rparr>"
    by (auto simp: arq_round_def split: bind_splits)
  from receive_all_reach [OF net_reach.step [OF r net_step.feedback [OF ack fb]], of ds] d' show ?thesis by simp
qed

lemma arq_rounds_reach:
  "net_reach epoch k cap s \<Longrightarrow> arq_rounds m host guard sensed s = Some s' \<Longrightarrow> net_reach epoch k cap s'"
  by (induction m arbitrary: s) (auto split: bind_splits intro: arq_round_reach)

lemma all_delivered:
  assumes "net_ok epoch k cap s" "unat (de_next_deliver (n_dec s)) = length (n_blocks s)" "en_staged (n_enc s) = []"
  shows "n_out s = filter (\<lambda>item. item \<noteq> []) (n_items s)"
  using assms by (auto simp: net_ok_def enc_ok_def)

section \<open>Correctness\<close>

text \<open>
  C4. Whatever the network loses, repeats, delays or reorders, and however the sender is asked to retransmit,
  what the receiver delivers is an initial piece of the items pushed, in the order they were pushed and each
  once; only the empty items, which the wire format cannot tell from padding, are left out. (The outer code is off and there
  is one session.)
\<close>

theorem ru_in_order_delivery:
  assumes "net_reach epoch k cap s" "0 < k" "k \<le> 32"
  shows "\<exists>rest. filter (\<lambda>item. item \<noteq> []) (n_items s) = n_out s @ rest"
proof -
  from net_reach_ok [OF assms] obtain its where
    "filter (\<lambda>item. item \<noteq> []) (n_items s) = concat (map (block_items k) (n_blocks s)) @ its"
    "n_out s = concat (map (block_items k) (take (unat (de_next_deliver (n_dec s))) (n_blocks s)))"
    by (auto simp: net_ok_def enc_ok_def)
  then show ?thesis by (metis append.assoc append_take_drop_id concat_append map_append)
qed

theorem ru_in_order_delivery_witness:
  "\<exists>s. net_reach 9 2 4 s \<and> n_items s = [[7], [], [8, 9]] \<and> n_out s = [[7], [8, 9]] \<and>
     (\<exists>rest. filter (\<lambda>item. item \<noteq> []) (n_items s) = n_out s @ rest)"
proof -
  obtain s where s: "net_reach 9 2 4 s" "n_items s = [[7], [], [8, 9]]" "n_dec s = decoder_with_window 4" "en_staged (n_enc s) = []"
    by (rule flushed_reach [of 2 "[[7], [], [8, 9]]" 9 4]) auto
  have ok: "net_ok 9 2 4 s" by (rule net_reach_ok [OF s(1)]) simp_all
  from arq_rounds_ok [OF _ _ ok order_refl, of "(X86_64, Scalar)" True "(0, 0, 0)"] obtain s' where
    s': "arq_rounds (length (n_blocks s) - unat (de_next_deliver (n_dec s))) (X86_64, Scalar) True (0, 0, 0) s = Some s'" "net_ok 9 2 4 s'"
      "n_blocks s' = n_blocks s" "n_items s' = n_items s" "en_staged (n_enc s') = []" "unat (de_next_deliver (n_dec s')) = length (n_blocks s)"
    using s(4) by auto
  have r: "net_reach 9 2 4 s'" by (rule arq_rounds_reach [OF s(1) s'(1)])
  have "n_out s' = [[7], [8, 9]]" using all_delivered [OF s'(2)] s' s(2) by simp
  moreover have "\<exists>rest. filter (\<lambda>item. item \<noteq> []) (n_items s') = n_out s' @ rest"
    by (rule ru_in_order_delivery [OF r]) simp_all
  ultimately show ?thesis using r s'(4) s(2) by metis
qed



text \<open>
  C19. Any \<open>k\<close> shards of the block the receiver waits for, data or parity, complete it: once they have arrived,
  in any order, the items of that block have been delivered, first of what was delivered on the way. (The
  outer code is off and there is one session.)
\<close>

theorem ru_k_shards_deliver:
  assumes "net_reach epoch k cap s" "0 < k" "k \<le> 32" "cap < 2 ^ 32"
    and "i = unat (de_next_deliver (n_dec s))" "i < length (n_blocks s)"
    and "distinct idxs" "length idxs = k" "set idxs \<subseteq> {..<length (pb_shards (n_blocks s ! i))}"
  shows "\<exists>out d'. receive_all host guard (map (\<lambda>x. datagram_flagged (n_blocks s ! i) (of_nat i) x fl epoch) idxs) (n_dec s) = Some (out, d') \<and>
    i < unat (de_next_deliver d') \<and> (\<exists>rest. out = block_items k (n_blocks s ! i) @ rest)"
proof -
  note net = net_reach_ok [OF assms(1-3), unfolded net_ok_def]
  have n: "length (n_blocks s) < 2 ^ 31" using net by (simp add: enc_ok_def)
  from net have ends: "\<forall>pb\<in>set (n_blocks s). block_ok k pb" "dec_ok k epoch (n_blocks s) (n_dec s)" "head_waits (n_dec s)"
    "0 < de_window_cap (n_dec s)" "de_window_cap (n_dec s) < 2 ^ 32" using assms(4) by auto
  have "k \<le> card (head_shards (n_dec s) \<union> set idxs)"
    using card_mono [of "head_shards (n_dec s) \<union> set idxs" "set idxs"] distinct_card [OF assms(7)] assms(8)
      head_shards_few(2) [OF ends(2,3) assms(2)] by simp
  from head_delivered [OF ends(1) n assms(2) ends(2-5) assms(5) [symmetric] assms(6,9) this, of host guard fl] obtain out d' where
    d': "receive_all host guard (map (\<lambda>x. datagram_flagged (n_blocks s ! i) (of_nat i) x fl epoch) idxs) (n_dec s) = Some (out, d')"
      "delivers k (n_blocks s) (n_dec s) out d'" "i < unat (de_next_deliver d')" by blast
  have "drop i (take (unat (de_next_deliver d')) (n_blocks s)) = n_blocks s ! i # drop (Suc i) (take (unat (de_next_deliver d')) (n_blocks s))"
    using Cons_nth_drop_Suc [of i "take (unat (de_next_deliver d')) (n_blocks s)"] d'(3) assms(6) by simp
  with d'(2) assms(5) have "\<exists>rest. out = block_items k (n_blocks s ! i) @ rest" by (auto simp: delivers_def)
  with d' show ?thesis by blast
qed

theorem ru_k_shards_deliver_witness:
  "\<exists>s. net_reach 9 2 4 s \<and> n_items s = [[7], [8, 9]] \<and> 0 < length (n_blocks s) \<and>
     (\<forall>host guard fl. \<exists>out d'. receive_all host guard (map (\<lambda>x. datagram_flagged (n_blocks s ! 0) 0 x fl 9) [1, 0]) (n_dec s) = Some (out, d') \<and>
        0 < unat (de_next_deliver d') \<and> (\<exists>rest. out = block_items 2 (n_blocks s ! 0) @ rest))"
proof -
  obtain s where s: "net_reach 9 2 4 s" "n_items s = [[7], [8, 9]]" "n_dec s = decoder_with_window 4" "en_staged (n_enc s) = []"
    by (rule flushed_reach [of 2 "[[7], [8, 9]]" 9 4]) auto
  have net: "net_ok 9 2 4 s" by (rule net_reach_ok [OF s(1)]) simp_all
  then have blocks: "n_blocks s \<noteq> []" using s(2,4) by (auto simp: net_ok_def enc_ok_def)
  with net have "2 \<le> length (pb_shards (n_blocks s ! 0))" by (auto simp: net_ok_def block_ok_def)
  then have "\<exists>out d'. receive_all host guard (map (\<lambda>x. datagram_flagged (n_blocks s ! 0) (of_nat 0) x fl 9) [1, 0]) (n_dec s) = Some (out, d') \<and>
        0 < unat (de_next_deliver d') \<and> (\<exists>rest. out = block_items 2 (n_blocks s ! 0) @ rest)" for host guard fl
    using blocks s(3) by (intro ru_k_shards_deliver [OF s(1)]) (auto simp: decoder_with_window_def)
  with s blocks show ?thesis by auto
qed

text \<open>
  C5. Losses are made good: from any reachable state, once the sender flushes what it has staged, rounds in which the
  receiver reports what it waits for and the shards retransmitted for it arrive deliver every non-empty item pushed,
  in the order they were pushed and each once. One round more than there are blocks outstanding is enough. (An empty
  item can be pushed and is never delivered; the outer code is off and there is one session.)
\<close>

theorem ru_arq_delivers_all:
  assumes "net_reach epoch k cap s" "0 < k" "k \<le> 32" "cap < 2 ^ 32"
    and "unat (en_next_block (n_enc s)) - unat (de_next_deliver (n_dec s)) < m"
  shows "\<exists>s'. settle m sender host guard sensed s = Some s' \<and> net_reach epoch k cap s' \<and> n_items s' = n_items s \<and>
    n_out s' = filter (\<lambda>item. item \<noteq> []) (n_items s)"
proof -
  have "unat (en_next_block (n_enc s)) = length (n_blocks s)"
    using net_reach_ok [OF assms(1-3)] small_id [of "length (n_blocks s)"] by (simp add: net_ok_def enc_ok_def)
  moreover obtain ds e' where f: "flush sender (n_enc s) = Some (ds, e')" "en_staged e' = []"
    "net_reach epoch k cap (s\<lparr>n_enc := e', n_blocks := n_blocks s @ newly_sealed (n_enc s) e', n_wire := n_wire s @ ds\<rparr>)"
    (is "net_reach _ _ _ ?s") by (rule flush_step [OF assms(1-3)])
  ultimately have "length (n_blocks ?s) - unat (de_next_deliver (n_dec ?s)) \<le> m" using assms(5) one_newly_sealed [of "n_enc s" e'] by simp
  from arq_rounds_ok [OF assms(2,4) net_reach_ok [OF f(3) assms(2,3)] this, of host guard sensed] obtain s' where
    s': "arq_rounds m host guard sensed ?s = Some s'" "net_ok epoch k cap s'" "n_blocks s' = n_blocks ?s" "n_items s' = n_items s"
      "en_staged (n_enc s') = []" "unat (de_next_deliver (n_dec s')) = length (n_blocks ?s)" using f(2) by auto
  then show ?thesis using f(1) all_delivered [OF s'(2)] arq_rounds_reach [OF f(3) s'(1)] by (auto simp: settle_def)
qed

theorem ru_arq_delivers_all_witness:
  "\<exists>s. net_reach 9 2 4 s \<and> n_items s = [[7], [], [5]] \<and> n_out s = [] \<and>
     (\<forall>sender host guard sensed. \<exists>s'. settle 4 sender host guard sensed s = Some s' \<and> net_reach 9 2 4 s' \<and> n_out s' = [[7], [5]])"
proof -
  obtain s where s: "net_reach 9 2 4 s" "n_items s = [[7], [], [5]]" "n_dec s = decoder_with_window 4"
    using items_reach [of 2 "[[7], [], [5]]" 9 4] by auto
  have net: "net_ok 9 2 4 s" by (rule net_reach_ok [OF s(1)]) simp_all
  then have out: "n_out s = []" using s(3) by (simp add: net_ok_def decoder_with_window_def)
  have "unat (en_next_block (n_enc s)) \<le> 3"
    using net s(2) small_id [of "length (n_blocks s)"] by (simp add: net_ok_def enc_ok_def)
  then have "\<exists>s'. settle 4 sender host guard sensed s = Some s' \<and> net_reach 9 2 4 s' \<and> n_items s' = n_items s \<and>
      n_out s' = filter (\<lambda>item. item \<noteq> []) (n_items s)"
    for sender host guard sensed by (intro ru_arq_delivers_all [OF s(1)]) simp_all
  then have "\<exists>s'. settle 4 sender host guard sensed s = Some s' \<and> net_reach 9 2 4 s' \<and> n_out s' = [[7], [5]]"
    for sender host guard sensed using s(2) by fastforce
  with s out show ?thesis by blast
qed

end
