(* ===== verification/Reliable_Udp_Faults.thy ===== *)
theory Reliable_Udp_Faults
  imports Reliable_Udp_Network
begin

text \<open>
  Inputs the reliable layer of \<^verbatim>\<open>reliable_udp.rs\<close> does not survive: datagrams no correct sender produces that make
  the receiver panic, and settings of the outer code that make the sender panic or announce a wrong shape.
\<close>

section \<open>Inputs the layer does not survive\<close>

text \<open>
  A data datagram whose payload is empty, or one byte, passes every check of \<open>ingest\<close> and makes the delivery
  loop read past the end of the shard.
\<close>

lemma one_shard: "count_ones_u32 1 = 1"
proof -
  have "{i. bit (1 :: u32) i} = {0}" by (auto simp: bit_1_iff)
  then show ?thesis by (simp add: count_ones_card)
qed

lemma short_payload_panics:
  assumes "length payload < 2"
  shows "ingest host guard (datagram_flagged \<lparr>pb_k = 1, pb_r = 0, pb_shard_len = length payload, pb_shards = [payload]\<rparr> 0 0 fl epoch)
    (decoder_with_window 4) = None"
  using assms datagram_fields(1,2) [of "\<lparr>pb_k = 1, pb_r = 0, pb_shard_len = length payload, pb_shards = [payload]\<rparr>" 0 0 fl epoch]
  unfolding ingest_def Let_def datagram_fields
  by (simp add: MAX_SHARDS_def decoder_with_window_def ingest_data_def sat_add_u32_def rx_block_new_def add_shard_def
      decode_block_shards_def rx_count_def one_shard drain_in_order_def drain_fuel_def Let_def numeral_3_eq_3)

text \<open>An outer datagram without parity makes the receiver build a code that does not exist.\<close>

lemma outer_without_parity_panics:
  "ingest host guard (datagram_flagged \<lparr>pb_k = 1, pb_r = 0, pb_shard_len = length payload, pb_shards = [payload]\<rparr> 0x89000000 0 fl epoch)
    (decoder_with_window 4) = None"
  using datagram_fields(1,2) [of "\<lparr>pb_k = 1, pb_r = 0, pb_shard_len = length payload, pb_shards = [payload]\<rparr>" "0x89000000" 0 fl epoch]
  unfolding ingest_def Let_def datagram_fields
  by (simp add: MAX_SHARDS_def decoder_with_window_def handle_outer_def rx_block_new_def OUTER_ID_BIT_def
      rx_count_def one_shard rs_new_def)

text \<open>With the outer code on and the parity at zero, sealing a segment panics.\<close>

lemma passthrough_segment_panics:
  assumes "en_r e = 0" "0 < en_tower_r_outer e" "en_seg_infos e \<noteq> []"
  shows "seal_segment host e = None"
proof (cases "rs_new (length (en_seg_infos e)) (en_tower_r_outer e)")
  case (Inr code)
  have "outer \<noteq> []" if "encode (fst host) (snd host) code (en_seg_infos e) par = Inr outer" for par outer
    using encode_block [where b = None, OF Inr, unfolded with_backend_new [OF Inr], OF that] rs_new_cauchy(4,5) [OF Inr] assms(2)
    by (auto simp: is_block_def)
  moreover have "outer_datagrams host e' d seg_id r_outer j outer = None" if "outer \<noteq> []" "en_r e' = 0" for e' d seg_id r_outer j outer
    using that by (cases outer) (simp_all add: Let_def parity_shards_def rs_new_def)
  ultimately show ?thesis using assms Inr
    by (auto simp: seal_segment_def segment_code_new_def Let_def split: sum.splits)
qed (use assms in \<open>simp add: seal_segment_def segment_code_new_def Let_def\<close>)

text \<open>A segment of sixteen blocks is announced as one of none: the size field of an outer id has four bits.\<close>

lemma tower_shape_lost:
  "unat (drop_bit 27 (OUTER_ID_BIT OR push_bit 27 (of_nat 16) OR push_bit 24 (of_nat 1) OR push_bit 8 0 OR of_nat 0 :: u32) AND 0xF) = 0"
  by (simp add: OUTER_ID_BIT_def)

end
