(* ===== verification/Reliable_Udp_Drain.thy ===== *)
theory Reliable_Udp_Drain
  imports Reliable_Udp_Delivery
begin

text \<open>
  The delivery loop of \<^verbatim>\<open>Decoder::drain_in_order\<close> (\<^verbatim>\<open>reliable_udp.rs\<close>) with the outer code on. Block ids wrap around, and an
  iteration may rebuild the head block from its segment and try again, so that the loop ends is not evident:
  it does, within the fuel of \<open>drain_fuel\<close>, at a head that can be neither delivered nor rebuilt.
\<close>

section \<open>What the loop can deliver\<close>

text \<open>The ids a known segment describes.\<close>

definition segment_ids :: "Decoder \<Rightarrow> u32 set" where
  "segment_ids d = (\<Union>(s, dd)\<in>set (de_seg_d d). (\<lambda>i. s * of_nat (de_tower_d d) + of_nat i) ` {..<dd})"

lemma segment_ids_card: "finite (segment_ids d)" "card (segment_ids d) \<le> sum_list (map snd (de_seg_d d))"
proof -
  have "finite (\<Union>(s, dd)\<in>set ss. (\<lambda>i. s * D + of_nat i) ` {..<dd}) \<and>
      card (\<Union>(s, dd)\<in>set ss. (\<lambda>i. s * D + of_nat i) ` {..<dd}) \<le> sum_list (map snd ss)"
    for D :: u32 and ss :: "(u32 \<times> nat) list"
  proof (induction ss)
    case (Cons x ss)
    obtain s dd where x: "x = (s, dd)" by force
    have "card ((\<lambda>i. s * D + of_nat i) ` {..<dd}) \<le> dd" using card_image_le [of "{..<dd}"] by auto
    with Cons show ?case using card_Un_le [of "(\<lambda>i. s * D + of_nat i) ` {..<dd}" "\<Union>(s, dd)\<in>set ss. (\<lambda>i. s * D + of_nat i) ` {..<dd}"]
      by (auto simp: x)
  qed simp
  then show "finite (segment_ids d)" "card (segment_ids d) \<le> sum_list (map snd (de_seg_d d))" by (auto simp: segment_ids_def)
qed

text \<open>A rebuilt block is of a known segment, joins the window decoded, and has shards of the inner length.\<close>

lemma tower_recover_cases:
  assumes "try_tower_recover host b d = (ok, d')"
  obtains "\<not> ok" "d' = d"
  | info infos hd where "ok" "b \<in> segment_ids d" "length info = de_inner_k d * max (de_inner_shard_len d) 1"
      "d' = d\<lparr>de_data_infos := infos, de_highest_decoded := hd,
         de_window := bt_insert b (recovered_block (de_inner_k d) (max (de_inner_shard_len d) 1) info) (de_window d)\<rparr>"
proof (cases ok)
  case False
  with assms that(1) show ?thesis
    by (auto simp: try_tower_recover_def Let_def split: if_splits option.splits sum.splits)
next
  case True
  let ?s = "b div of_nat (de_tower_d d)"
  from True assms obtain dd where dd: "bt_get (de_seg_d d) ?s = Some dd" "unat (b - ?s * of_nat (de_tower_d d)) < dd"
    by (auto simp: try_tower_recover_def Let_def split: if_splits option.splits sum.splits)
  have "b = ?s * of_nat (de_tower_d d) + of_nat (unat (b - ?s * of_nat (de_tower_d d)))" by simp
  with dd have "b \<in> segment_ids d" unfolding segment_ids_def
    by (intro UN_I [of "(?s, dd)"]) (auto dest: map_of_SomeD intro!: image_eqI)
  with True assms that(2) show ?thesis
    by (auto simp: try_tower_recover_def Let_def split: if_splits option.splits sum.splits)
qed

section \<open>Blocks the loop can read\<close>

text \<open>A block whose data shards are all there and long enough for their length prefix.\<close>

definition readable :: "RxBlock \<Rightarrow> bool" where
  "readable blk = (\<forall>s\<in>set (take (rb_k blk) (rb_shards blk)). case s of None \<Rightarrow> False | Some shard \<Rightarrow> ITEM_LEN_PREFIX \<le> length shard)"

lemma readable_items: "readable blk \<Longrightarrow> \<exists>items. shard_items (take (rb_k blk) (rb_shards blk)) = Some items"
proof -
  have "\<forall>s\<in>set ss. case s of None \<Rightarrow> False | Some shard \<Rightarrow> ITEM_LEN_PREFIX \<le> length shard \<Longrightarrow> \<exists>items. shard_items ss = Some items" for ss
    by (induction ss) (auto simp: ITEM_LEN_PREFIX_def Let_def split: option.splits)
  then show "readable blk \<Longrightarrow> ?thesis" by (simp add: readable_def)
qed

lemma recovered_readable:
  assumes "length info = k * n" "ITEM_LEN_PREFIX \<le> n"
  shows "readable (recovered_block k n info)" "rb_decoded (recovered_block k n info)"
proof -
  have "n \<le> k * n - i * n" if "i < k" for i
    using that mult_le_mono1 [of "Suc i" k n] by simp
  then show "readable (recovered_block k n info)" using assms
    by (auto simp: readable_def recovered_block_def rx_block_new_def)
  show "rb_decoded (recovered_block k n info)" by (simp add: recovered_block_def)
qed

definition drainable :: "Decoder \<Rightarrow> bool" where
  "drainable d = (bt_sorted (de_window d) \<and> ITEM_LEN_PREFIX \<le> de_inner_shard_len d \<and>
     (\<forall>(b, blk)\<in>set (de_window d). rb_decoded blk \<longrightarrow> readable blk))"

text \<open>The loop has come to a head it can neither deliver nor rebuild.\<close>

definition stuck :: "host \<Rightarrow> Decoder \<Rightarrow> bool" where
  "stuck host d = (case bt_get (de_window d) (de_next_deliver d) of
     None \<Rightarrow> \<not> fst (try_tower_recover host (de_next_deliver d) d) | Some blk \<Rightarrow> \<not> rb_decoded blk)"

section \<open>The loop ends\<close>

definition held_ids :: "Decoder \<Rightarrow> u32 set" where
  "held_ids d = fst ` set (de_window d) \<union> segment_ids d"

definition delivered :: "bool \<Rightarrow> RxBlock \<Rightarrow> Decoder \<Rightarrow> Decoder" where
  "delivered guard blk d = (account_block guard blk (d\<lparr>de_window := bt_remove (de_next_deliver d) (de_window d)\<rparr>))
     \<lparr>de_next_deliver := de_next_deliver d + 1\<rparr>"

lemma drain_deliver:
  assumes "bt_get (de_window d) (de_next_deliver d) = Some blk" "rb_decoded blk" "shard_items (take (rb_k blk) (rb_shards blk)) = Some items"
  shows "drain_loop (Suc fuel) host guard d = do { (out, d') \<leftarrow> drain_loop fuel host guard (delivered guard blk d); Some (items @ out, d') }"
  using assms by (simp add: delivered_def Let_def)

lemma delivered_keeps:
  assumes "drainable d"
  shows "drainable (delivered guard blk d)" "held_ids (delivered guard blk d) \<subseteq> held_ids d"
    "de_next_deliver (delivered guard blk d) = de_next_deliver d + 1"
proof -
  have *: "de_window (delivered guard blk d) = bt_remove (de_next_deliver d) (de_window d)"
    "de_inner_shard_len (delivered guard blk d) = de_inner_shard_len d" "segment_ids (delivered guard blk d) = segment_ids d"
    by (simp_all add: delivered_def segment_ids_def account_block_def Let_def)
  show "drainable (delivered guard blk d)" using assms unfolding drainable_def *
    by (auto simp: bt_remove_sorted) (auto simp: bt_remove_def bt_retain_def)
  show "held_ids (delivered guard blk d) \<subseteq> held_ids d" unfolding held_ids_def * by (auto simp: bt_remove_def bt_retain_def)
  show "de_next_deliver (delivered guard blk d) = de_next_deliver d + 1" by (simp add: delivered_def)
qed

lemma recovered_keeps:
  assumes "drainable d" "try_tower_recover host (de_next_deliver d) d = (True, d')"
  shows "drainable d'" "held_ids d' \<subseteq> held_ids d" "de_next_deliver d' = de_next_deliver d"
    "\<exists>blk. bt_get (de_window d') (de_next_deliver d') = Some blk \<and> rb_decoded blk"
proof -
  from assms(2) obtain info infos hd where 2: "de_next_deliver d \<in> segment_ids d"
    "length info = de_inner_k d * max (de_inner_shard_len d) 1"
    "d' = d\<lparr>de_data_infos := infos, de_highest_decoded := hd, de_window := bt_insert (de_next_deliver d)
       (recovered_block (de_inner_k d) (max (de_inner_shard_len d) 1) info) (de_window d)\<rparr>"
    by (cases rule: tower_recover_cases) auto
  let ?blk = "recovered_block (de_inner_k d) (max (de_inner_shard_len d) 1) info"
  let ?b = "de_next_deliver d"
  have s: "bt_sorted (de_window d)" and n: "ITEM_LEN_PREFIX \<le> max (de_inner_shard_len d) 1" using assms(1) by (auto simp: drainable_def)
  have w: "de_window d' = bt_insert ?b ?blk (de_window d)" "de_next_deliver d' = ?b" "segment_ids d' = segment_ids d"
    "de_inner_shard_len d' = de_inner_shard_len d" using 2 by (simp_all add: segment_ids_def)
  note r = recovered_readable [OF 2(2) n]
  show "de_next_deliver d' = ?b" "\<exists>blk. bt_get (de_window d') (de_next_deliver d') = Some blk \<and> rb_decoded blk"
    using w s r by simp_all
  show "held_ids d' \<subseteq> held_ids d" using bt_insert_keys [of ?b ?blk "de_window d"] 2(1) w by (auto simp: held_ids_def)
  have "rb_decoded blk \<longrightarrow> readable blk" if "(b, blk) \<in> set (de_window d')" for b blk
    using that assms(1) r bt_sorted_get [OF bt_insert_sorted [OF s], of b blk ?b ?blk] bt_sorted_get [OF s, of b blk] s
    by (auto simp: w(1) drainable_def split: if_splits)
  then show "drainable d'" using assms(1) w bt_insert_sorted [OF s] by (auto simp: drainable_def)
qed

text \<open>With \<^term>\<open>m\<close> ids to go before one that is not held, \<^term>\<open>2 * m + 1\<close> iterations are enough.\<close>

lemma drain_loop_returns:
  assumes "drainable d" "held_ids d \<subseteq> S" "de_next_deliver d + of_nat m \<notin> S" "2 * m < fuel"
  shows "\<exists>out d'. drain_loop fuel host guard d = Some (out, d') \<and> stuck host d'"
  using assms
proof (induction m arbitrary: d fuel)
  case 0
  then obtain fuel' where f: "fuel = Suc fuel'" by (cases fuel) auto
  from 0 have none: "bt_get (de_window d) (de_next_deliver d) = None" by (force simp: held_ids_def map_of_eq_None_iff)
  obtain ok d' where t: "try_tower_recover host (de_next_deliver d) d = (ok, d')" by force
  then show ?case
  proof (cases rule: tower_recover_cases)
    case 1
    with none t f show ?thesis by (simp add: stuck_def)
  next
    case 2
    with 0 show ?thesis by (auto simp: held_ids_def)
  qed
next
  case (Suc m)
  have deliver: "\<exists>out d'. drain_loop fuel host guard d = Some (out, d') \<and> stuck host d'"
    if d: "drainable d" "held_ids d \<subseteq> S" "de_next_deliver d + of_nat (Suc m) \<notin> S" "Suc (2 * m) < fuel"
      and blk: "bt_get (de_window d) (de_next_deliver d) = Some blk" "rb_decoded blk" for d fuel blk
  proof -
    from d(4) obtain fuel' where f: "fuel = Suc fuel'" "2 * m < fuel'" by (cases fuel) auto
    have "readable blk" using d(1) blk by (auto simp: drainable_def dest: map_of_SomeD)
    then obtain items where items: "shard_items (take (rb_k blk) (rb_shards blk)) = Some items" using readable_items by blast
    note k = delivered_keeps [OF d(1), of guard blk]
    have "\<exists>out d'. drain_loop fuel' host guard (delivered guard blk d) = Some (out, d') \<and> stuck host d'"
      using d(2,3) k(2,3) f(2) by (intro Suc.IH k(1)) (auto simp: add.assoc)
    then show ?thesis using drain_deliver [OF blk items] f(1) by auto
  qed
  obtain fuel' where f: "fuel = Suc fuel'" "Suc (2 * m) < fuel'" using Suc.prems(4) by (cases fuel) auto
  show ?case
  proof (cases "bt_get (de_window d) (de_next_deliver d)")
    case (Some blk)
    show ?thesis
    proof (cases "rb_decoded blk")
      case True
      with Suc.prems f Some show ?thesis by (intro deliver) auto
    next
      case False
      with Some f show ?thesis by (simp add: stuck_def)
    qed
  next
    case None
    obtain ok d' where t: "try_tower_recover host (de_next_deliver d) d = (ok, d')" by force
    show ?thesis
    proof (cases ok)
      case True
      note k = recovered_keeps [OF Suc.prems(1) t [unfolded True [THEN Eq_TrueI]]]
      then obtain blk where "bt_get (de_window d') (de_next_deliver d') = Some blk" "rb_decoded blk" by blast
      then have "\<exists>out d''. drain_loop fuel' host guard d' = Some (out, d'') \<and> stuck host d''"
        using k Suc.prems f by (intro deliver) auto
      with None t True f show ?thesis by simp
    next
      case False
      with t have "d' = d" by (auto elim: tower_recover_cases)
      with None t False f show ?thesis by (simp add: stuck_def)
    qed
  qed
qed

lemma held_ids_gap:
  fixes b :: u32
  assumes "finite S" "card S \<le> n" "n < 2 ^ 32"
  shows "\<exists>m\<le>n. b + of_nat m \<notin> S"
proof (rule ccontr)
  assume "\<not> ?thesis"
  then have "(\<lambda>m. b + of_nat m) ` {..n} \<subseteq> S" by auto
  moreover have "inj_on (\<lambda>m. b + of_nat m :: u32) {..n}"
    using assms(3) by (intro inj_onI) (auto simp: word_of_nat_eq_iff take_bit_nat_eq_self)
  ultimately have "Suc n \<le> card S" using card_mono [OF assms(1)] card_image [of "\<lambda>m. b + of_nat m" "{..n}"] by (metis card_atMost)
  with assms(2) show False by simp
qed

section \<open>Properties\<close>

text \<open>
  C36. The delivery loop ends. When the decoded blocks of the window hold their data shards, each with room
  for its length prefix, and the window and the known segments together describe fewer than 2 to the 32
  blocks, the loop returns within its fuel for every outcome of the outer decoder; and it returns at a head
  that is not decoded, or is absent and cannot be rebuilt.
\<close>

theorem drain_loop_terminates:
  assumes "drainable d" "length (de_window d) + sum_list (map snd (de_seg_d d)) < 2 ^ 32"
  shows "\<exists>out d'. drain_loop (drain_fuel d) host guard d = Some (out, d') \<and> stuck host d'"
proof -
  let ?n = "length (de_window d) + sum_list (map snd (de_seg_d d))"
  have "finite (held_ids d)" by (simp add: held_ids_def segment_ids_card(1))
  moreover have "card (held_ids d) \<le> ?n"
    using card_Un_le [of "fst ` set (de_window d)" "segment_ids d"] card_image_le [of "set (de_window d)" fst]
      card_length [of "de_window d"] segment_ids_card(2) [of d] by (auto simp: held_ids_def)
  ultimately obtain m where "m \<le> ?n" "de_next_deliver d + of_nat m \<notin> held_ids d" using held_ids_gap assms(2) by blast
  then show ?thesis using assms(1) by (intro drain_loop_returns [of _ "held_ids d" m]) (auto simp: drain_fuel_def)
qed

text \<open>A window whose head is decoded and whose second block still waits for a shard, with one known segment.\<close>

definition drain_example :: Decoder where
  "drain_example = (decoder_with_window 4)\<lparr>de_window :=
     [(0, (rx_block_new 1 1 3)\<lparr>rb_shards := [Some [1, 0, 7], None], rb_mask := 1, rb_decoded := True\<rparr>), (1, rx_block_new 1 1 3)],
     de_tower_d := 2, de_tower_r_outer := 1, de_inner_k := 1, de_inner_shard_len := 3, de_seg_d := [(0, 2)]\<rparr>"

theorem drain_loop_terminates_witness:
  "drainable drain_example \<and> drain_fuel drain_example = 9 \<and>
   (\<exists>d'. drain_loop 9 (X86_64, Scalar) True drain_example = Some ([[7]], d') \<and> stuck (X86_64, Scalar) d')"
proof -
  have "drainable drain_example" "drain_fuel drain_example = 9"
    by (simp_all add: drain_example_def drainable_def decoder_with_window_def readable_def rx_block_new_def ITEM_LEN_PREFIX_def drain_fuel_def)
  moreover from this obtain out d' where d': "drain_loop 9 (X86_64, Scalar) True drain_example = Some (out, d')" "stuck (X86_64, Scalar) d'"
    using drain_loop_terminates [of drain_example "(X86_64, Scalar)" True] by (auto simp: drain_example_def decoder_with_window_def)
  moreover have "out = [[7]]" using d'(1)
    by (auto simp: drain_example_def decoder_with_window_def rx_block_new_def ITEM_LEN_PREFIX_def eval_nat_numeral Let_def
        account_block_def bt_remove_def bt_retain_def from_le_u16_def)
  ultimately show ?thesis by blast
qed

end
