(* ===== verification/Rw_Lock.thy ===== *)
theory Rw_Lock
  imports SubEtha_Prelude
begin

text \<open>
  The reader-writer lock of \<^verbatim>\<open>crates/subetha-cxc/src/shared_rw_lock.rs\<close>: one atomic word that packs the writer flag,
  the number of waiting writers and the number of readers, and the loops that change it by
  compare-and-swap. Any number of callers run these loops at once, one atomic access at a time. The word is
  always the packed account of who holds and who waits, a writer excludes everyone, and no reader is
  admitted while a writer waits.
\<close>

section \<open>The state word\<close>

definition WRITER_BIT :: u64 where "WRITER_BIT = push_bit 63 1"
definition WAITING_SHIFT :: nat where "WAITING_SHIFT = 32"
definition WAITING_MASK :: u64 where "WAITING_MASK = push_bit WAITING_SHIFT 0x7FFFFFFF"
definition READERS_MASK :: u64 where "READERS_MASK = 0xFFFFFFFF"

datatype RWLockError = WouldBlock

text \<open>What one pass of each claim loop makes of the word it loaded: a refusal, or the word to swap in.\<close>

definition try_read_lock_pass :: "u64 \<Rightarrow> RWLockError + u64" where
  "try_read_lock_pass s =
     (let writer_active = (s AND WRITER_BIT \<noteq> 0); writers_waiting = drop_bit WAITING_SHIFT (s AND WAITING_MASK)
      in if writer_active \<or> writers_waiting > 0 then Inl WouldBlock
         else let readers = s AND READERS_MASK in Inr (s AND NOT READERS_MASK OR (readers + 1)))"

definition try_write_lock_pass :: "u64 \<Rightarrow> RWLockError + u64" where
  "try_write_lock_pass s =
     (let writer_active = (s AND WRITER_BIT \<noteq> 0); readers = s AND READERS_MASK
      in if writer_active \<or> readers > 0 then Inl WouldBlock else Inr (s AND NOT WRITER_BIT OR WRITER_BIT))"

definition try_write_lock_registered_pass :: "u64 \<Rightarrow> RWLockError + u64" where
  "try_write_lock_registered_pass s =
     (let writer_active = (s AND WRITER_BIT \<noteq> 0); readers = s AND READERS_MASK
      in if writer_active \<or> readers > 0 then Inl WouldBlock
         else Inr (s AND READERS_MASK OR WRITER_BIT OR
                   push_bit WAITING_SHIFT (drop_bit WAITING_SHIFT (s AND WAITING_MASK) - 1)))"

text \<open>The release loop returns without a swap when no reader is counted.\<close>

definition release_read_pass :: "u64 \<Rightarrow> u64 option" where
  "release_read_pass s =
     (let readers = s AND READERS_MASK
      in if readers = 0 then None else Some (s AND NOT READERS_MASK OR (readers - 1)))"

definition release_write :: "u64 \<Rightarrow> u64" where
  "release_write s = s AND NOT WRITER_BIT"

definition register_waiting_writer :: "u64 \<Rightarrow> u64" where
  "register_waiting_writer s = s + push_bit WAITING_SHIFT 1"

definition unregister_waiting_writer :: "u64 \<Rightarrow> u64" where
  "unregister_waiting_writer s = s - push_bit WAITING_SHIFT 1"

definition reader_count :: "u64 \<Rightarrow> u32" where
  "reader_count s = ucast (s AND READERS_MASK)"

definition has_writer :: "u64 \<Rightarrow> bool" where
  "has_writer s \<longleftrightarrow> s AND WRITER_BIT \<noteq> 0"

definition waiting_writers :: "u64 \<Rightarrow> u32" where
  "waiting_writers s = ucast (drop_bit WAITING_SHIFT (s AND WAITING_MASK))"

section \<open>Callers\<close>

text \<open>
  Where a caller stands: at the head of one of the loops, or past the load with the word it saw, about to
  swap; or holding a guard, or registered as a waiting writer between two tries.
\<close>

datatype rw_pc =
    Idle
  | ReadTry | ReadCas u64 | Reading | ReadDrop | ReadDropCas u64
  | WriteTry | WriteCas u64 | Writing
  | Waiting | WaitTry | WaitCas u64

record rw_state =
  rw_word :: u64
  rw_pc :: "nat \<Rightarrow> rw_pc"

definition rw_init :: rw_state where
  "rw_init = \<lparr>rw_word = 0, rw_pc = (\<lambda>_. Idle)\<rparr>"

definition rw_goto :: "nat \<Rightarrow> rw_pc \<Rightarrow> rw_state \<Rightarrow> rw_state" where
  "rw_goto t p s = s\<lparr>rw_pc := (rw_pc s)(t := p)\<rparr>"

text \<open>A compare-and-swap: on the word seen it stores the new one and goes on, otherwise it goes back.\<close>

definition rw_cas :: "nat \<Rightarrow> u64 \<Rightarrow> u64 \<Rightarrow> rw_pc \<Rightarrow> rw_pc \<Rightarrow> rw_state \<Rightarrow> rw_state" where
  "rw_cas t seen new ok retry s =
     (if rw_word s = seen then rw_goto t ok (s\<lparr>rw_word := new\<rparr>) else rw_goto t retry s)"

inductive rw_step :: "nat \<Rightarrow> rw_state \<Rightarrow> rw_state \<Rightarrow> bool" for t where
  read_call: "rw_pc s t = Idle \<Longrightarrow> rw_step t s (rw_goto t ReadTry s)"
| read_refused: "rw_pc s t = ReadTry \<Longrightarrow> try_read_lock_pass (rw_word s) = Inl WouldBlock \<Longrightarrow> rw_step t s (rw_goto t Idle s)"
| read_load: "rw_pc s t = ReadTry \<Longrightarrow> try_read_lock_pass (rw_word s) = Inr new \<Longrightarrow> rw_step t s (rw_goto t (ReadCas (rw_word s)) s)"
| read_cas: "rw_pc s t = ReadCas seen \<Longrightarrow> try_read_lock_pass seen = Inr new \<Longrightarrow> rw_step t s (rw_cas t seen new Reading ReadTry s)"
| read_drop: "rw_pc s t = Reading \<Longrightarrow> rw_step t s (rw_goto t ReadDrop s)"
| drop_nothing: "rw_pc s t = ReadDrop \<Longrightarrow> release_read_pass (rw_word s) = None \<Longrightarrow> rw_step t s (rw_goto t Idle s)"
| drop_load: "rw_pc s t = ReadDrop \<Longrightarrow> release_read_pass (rw_word s) = Some new \<Longrightarrow> rw_step t s (rw_goto t (ReadDropCas (rw_word s)) s)"
| drop_cas: "rw_pc s t = ReadDropCas seen \<Longrightarrow> release_read_pass seen = Some new \<Longrightarrow> rw_step t s (rw_cas t seen new Idle ReadDrop s)"
| write_call: "rw_pc s t = Idle \<Longrightarrow> rw_step t s (rw_goto t WriteTry s)"
| write_refused: "rw_pc s t = WriteTry \<Longrightarrow> try_write_lock_pass (rw_word s) = Inl WouldBlock \<Longrightarrow> rw_step t s (rw_goto t Idle s)"
| write_load: "rw_pc s t = WriteTry \<Longrightarrow> try_write_lock_pass (rw_word s) = Inr new \<Longrightarrow> rw_step t s (rw_goto t (WriteCas (rw_word s)) s)"
| write_cas: "rw_pc s t = WriteCas seen \<Longrightarrow> try_write_lock_pass seen = Inr new \<Longrightarrow> rw_step t s (rw_cas t seen new Writing WriteTry s)"
| write_drop: "rw_pc s t = Writing \<Longrightarrow> rw_step t s (rw_goto t Idle (s\<lparr>rw_word := release_write (rw_word s)\<rparr>))"
| register: "rw_pc s t = Idle \<Longrightarrow> rw_step t s (rw_goto t Waiting (s\<lparr>rw_word := register_waiting_writer (rw_word s)\<rparr>))"
| unregister: "rw_pc s t = Waiting \<Longrightarrow> rw_step t s (rw_goto t Idle (s\<lparr>rw_word := unregister_waiting_writer (rw_word s)\<rparr>))"
| wait_call: "rw_pc s t = Waiting \<Longrightarrow> rw_step t s (rw_goto t WaitTry s)"
| wait_refused: "rw_pc s t = WaitTry \<Longrightarrow> try_write_lock_registered_pass (rw_word s) = Inl WouldBlock \<Longrightarrow> rw_step t s (rw_goto t Waiting s)"
| wait_load: "rw_pc s t = WaitTry \<Longrightarrow> try_write_lock_registered_pass (rw_word s) = Inr new \<Longrightarrow> rw_step t s (rw_goto t (WaitCas (rw_word s)) s)"
| wait_cas: "rw_pc s t = WaitCas seen \<Longrightarrow> try_write_lock_registered_pass seen = Inr new \<Longrightarrow> rw_step t s (rw_cas t seen new Writing WaitTry s)"

text \<open>The states \<open>n\<close> callers reach.\<close>

inductive rw_reach :: "nat \<Rightarrow> rw_state \<Rightarrow> bool" for n where
  init: "rw_reach n rw_init"
| step: "rw_reach n s \<Longrightarrow> t < n \<Longrightarrow> rw_step t s s' \<Longrightarrow> rw_reach n s'"

section \<open>The word as an account\<close>

definition packed :: "bool \<Rightarrow> nat \<Rightarrow> nat \<Rightarrow> u64" where
  "packed w m r = (if w then WRITER_BIT else 0) OR push_bit 32 (of_nat m) OR of_nat r"

lemma bit_of_nat_small: "m < 2 ^ j \<Longrightarrow> bit (of_nat m :: u64) i \<Longrightarrow> i < j"
proof -
  assume m: "m < 2 ^ j" and b: "bit (of_nat m :: u64) i"
  then have "bit m i" by (simp add: bit_of_nat_iff)
  show "i < j"
  proof (rule ccontr)
    assume "\<not> i < j"
    then have "m < 2 ^ i" using m power_increasing [of j i "2::nat"] by linarith
    with \<open>bit m i\<close> show False by (simp add: bit_iff_odd)
  qed
qed

lemma bit_constants:
  "bit WRITER_BIT i \<longleftrightarrow> i = 63" "bit WAITING_MASK i \<longleftrightarrow> 32 \<le> i \<and> i < 63" "bit READERS_MASK i \<longleftrightarrow> i < 32"
proof -
  show "bit WRITER_BIT i \<longleftrightarrow> i = 63"
    unfolding WRITER_BIT_def bit_push_bit_iff bit_1_iff by auto
  have "0x7FFFFFFF = (mask 31 :: u64)" "0xFFFFFFFF = (mask 32 :: u64)" by (simp_all add: mask_eq_exp_minus_1)
  then have masks: "WAITING_MASK = push_bit 32 (mask 31)" "READERS_MASK = mask 32"
    by (simp_all only: WAITING_MASK_def READERS_MASK_def WAITING_SHIFT_def)
  show "bit WAITING_MASK i \<longleftrightarrow> 32 \<le> i \<and> i < 63" unfolding masks bit_push_bit_iff bit_mask_iff by auto
  show "bit READERS_MASK i \<longleftrightarrow> i < 32" unfolding masks bit_mask_iff by auto
qed

lemma bit_packed:
  assumes "m < 2 ^ 31" "r < 2 ^ 32"
  shows "bit (packed w m r) i \<longleftrightarrow> i = 63 \<and> w \<or> 32 \<le> i \<and> i < 63 \<and> bit (of_nat m :: u64) (i - 32) \<or> i < 32 \<and> bit (of_nat r :: u64) i"
  using bit_of_nat_small [OF assms(1), of "i - 32"] bit_of_nat_small [OF assms(2), of i]
  by (auto simp: packed_def bit_constants bit_or_iff bit_push_bit_iff)

lemma packed_fields:
  assumes "m < 2 ^ 31" "r < 2 ^ 32"
  shows "packed w m r AND WRITER_BIT = 0 \<longleftrightarrow> \<not> w" "drop_bit WAITING_SHIFT (packed w m r AND WAITING_MASK) = of_nat m"
    "packed w m r AND READERS_MASK = of_nat r"
proof -
  note b = bit_packed [OF assms, of w] bit_constants
  have "packed w m r AND WRITER_BIT = (if w then WRITER_BIT else 0)" by (rule bit_word_eqI) (auto simp: bit_and_iff b)
  moreover have "WRITER_BIT \<noteq> 0" by (simp add: WRITER_BIT_def)
  ultimately show "packed w m r AND WRITER_BIT = 0 \<longleftrightarrow> \<not> w" by simp
  show "drop_bit WAITING_SHIFT (packed w m r AND WAITING_MASK) = of_nat m"
    using bit_of_nat_small [OF assms(1)] by - (rule bit_word_eqI, auto simp: WAITING_SHIFT_def bit_drop_bit_eq bit_and_iff b)
  show "packed w m r AND READERS_MASK = of_nat r"
    using bit_of_nat_small [OF assms(2)] by - (rule bit_word_eqI, auto simp: bit_and_iff b)
qed

text \<open>Replacing one field.\<close>

lemma packed_set_readers:
  assumes "m < 2 ^ 31" "r < 2 ^ 32" "r' < 2 ^ 32"
  shows "packed w m r AND NOT READERS_MASK OR of_nat r' = packed w m r'"
  using bit_of_nat_small [OF assms(3)]
  by - (rule bit_word_eqI, auto simp: bit_or_iff bit_and_iff bit_not_iff bit_packed [OF assms(1,2)] bit_packed [OF assms(1,3)] bit_constants)

lemma packed_set_writer:
  assumes "m < 2 ^ 31" "r < 2 ^ 32"
  shows "packed w m r AND NOT WRITER_BIT OR WRITER_BIT = packed True m r" "packed w m r AND NOT WRITER_BIT = packed False m r"
  by (rule bit_word_eqI, auto simp: bit_or_iff bit_and_iff bit_not_iff bit_packed [OF assms] bit_constants)+

lemma packed_claim:
  assumes "m < 2 ^ 31" "r < 2 ^ 32" "m' < 2 ^ 31"
  shows "packed w m r AND READERS_MASK OR WRITER_BIT OR push_bit WAITING_SHIFT (of_nat m') = packed True m' r"
  using bit_of_nat_small [OF assms(3)]
  by - (rule bit_word_eqI, fastforce simp: WAITING_SHIFT_def bit_or_iff bit_and_iff bit_push_bit_iff bit_packed [OF assms(1,2)]
      bit_packed [OF assms(3,2)] bit_constants)

lemma packed_sum:
  assumes "m < 2 ^ 31" "r < 2 ^ 32"
  shows "packed w m r = (if w then WRITER_BIT else 0) + 2 ^ 32 * of_nat m + of_nat r"
proof -
  let ?w = "if w then WRITER_BIT else 0 :: u64" and ?m = "push_bit 32 (of_nat m) :: u64" and ?r = "of_nat r :: u64"
  note small = bit_of_nat_small [OF assms(1)] bit_of_nat_small [OF assms(2)]
  have "?w + ?m = ?w OR ?m" by (rule disjunctive_add) (auto simp: bit_constants bit_push_bit_iff dest: small)
  moreover have "(?w OR ?m) + ?r = (?w OR ?m) OR ?r"
    by (rule disjunctive_add) (auto simp: bit_constants bit_or_iff bit_push_bit_iff dest: small)
  ultimately show ?thesis by (simp add: packed_def push_bit_eq_mult mult.commute or.assoc)
qed

lemma packed_waiting:
  assumes "m + 1 < 2 ^ 31" "r < 2 ^ 32"
  shows "register_waiting_writer (packed w m r) = packed w (m + 1) r" "unregister_waiting_writer (packed w (m + 1) r) = packed w m r"
  using assms
  by (simp_all add: register_waiting_writer_def unregister_waiting_writer_def WAITING_SHIFT_def packed_sum push_bit_eq_mult algebra_simps)

text \<open>What the passes do to a packed word.\<close>

lemma of_nat_pos: "r < 2 ^ 32 \<Longrightarrow> (0 :: u64) < of_nat r \<longleftrightarrow> 0 < r" "r < 2 ^ 32 \<Longrightarrow> (of_nat r :: u64) = 0 \<longleftrightarrow> r = 0"
  by (simp_all add: word_less_nat_alt unat_of_nat word_unat_eq_iff)

lemma try_read_lock_packed:
  assumes "m < 2 ^ 31" "r + 1 < 2 ^ 32"
  shows "try_read_lock_pass (packed w m r) = (if w \<or> 0 < m then Inl WouldBlock else Inr (packed w m (r + 1)))"
proof -
  have r: "r < 2 ^ 32" "m < 2 ^ 32" using assms by simp_all
  have "packed w m r AND NOT READERS_MASK OR (of_nat r + 1) = packed w m (r + 1)"
    using packed_set_readers [OF assms(1) r(1) assms(2), of w] by (simp add: add.commute)
  then show ?thesis unfolding try_read_lock_pass_def Let_def packed_fields [OF assms(1) r(1)] of_nat_pos [OF r(2)] by auto
qed

lemma try_write_lock_packed:
  assumes "m < 2 ^ 31" "r < 2 ^ 32"
  shows "try_write_lock_pass (packed w m r) = (if w \<or> 0 < r then Inl WouldBlock else Inr (packed True m r))"
  using packed_set_writer(1) [OF assms, of w]
  unfolding try_write_lock_pass_def Let_def packed_fields [OF assms] of_nat_pos [OF assms(2)] by auto

lemma try_write_lock_registered_packed:
  assumes "m + 1 < 2 ^ 31" "r < 2 ^ 32"
  shows "try_write_lock_registered_pass (packed w (m + 1) r) = (if w \<or> 0 < r then Inl WouldBlock else Inr (packed True m r))"
proof -
  have m: "m < 2 ^ 31" using assms(1) by simp
  have "packed w (m + 1) r AND READERS_MASK OR WRITER_BIT OR push_bit WAITING_SHIFT (of_nat (m + 1) - 1) = packed True m r"
    using packed_claim [OF assms m, of w] by (simp only: of_nat_add of_nat_1 add_diff_cancel_right')
  then show ?thesis
    using of_nat_pos(1) [OF assms(2)] packed_fields(3) [OF assms, of w]
    unfolding try_write_lock_registered_pass_def Let_def packed_fields(1,2) [OF assms] by auto
qed

lemma release_read_packed:
  assumes "m < 2 ^ 31" "r < 2 ^ 32"
  shows "release_read_pass (packed w m r) = (if r = 0 then None else Some (packed w m (r - 1)))"
proof -
  have "packed w m r AND NOT READERS_MASK OR (of_nat r - 1) = packed w m (r - 1)" if "r \<noteq> 0"
    using packed_set_readers [OF assms, of "r - 1" w] assms(2) that by (simp add: of_nat_diff)
  then show ?thesis unfolding release_read_pass_def Let_def packed_fields [OF assms] of_nat_pos [OF assms(2)] by simp
qed

lemma release_write_packed: "m < 2 ^ 31 \<Longrightarrow> r < 2 ^ 32 \<Longrightarrow> release_write (packed w m r) = packed False m r"
  by (simp add: release_write_def packed_set_writer)

section \<open>The invariant\<close>

fun writing :: "rw_pc \<Rightarrow> bool" where
  "writing Writing = True"
| "writing _ = False"

fun reading :: "rw_pc \<Rightarrow> bool" where
  "reading Reading = True"
| "reading ReadDrop = True"
| "reading (ReadDropCas _) = True"
| "reading _ = False"

fun waiting :: "rw_pc \<Rightarrow> bool" where
  "waiting Waiting = True"
| "waiting WaitTry = True"
| "waiting (WaitCas _) = True"
| "waiting _ = False"

definition others :: "(rw_pc \<Rightarrow> bool) \<Rightarrow> nat \<Rightarrow> nat \<Rightarrow> rw_state \<Rightarrow> nat" where
  "others P n t s = card {u. u < n \<and> u \<noteq> t \<and> P (rw_pc s u)}"

definition tally :: "(rw_pc \<Rightarrow> bool) \<Rightarrow> nat \<Rightarrow> rw_state \<Rightarrow> nat" where
  "tally P n s = card {u. u < n \<and> P (rw_pc s u)}"

definition account :: "nat \<Rightarrow> nat \<Rightarrow> nat \<Rightarrow> u64 \<Rightarrow> bool" where
  "account w m r word \<longleftrightarrow> word = packed (w = 1) m r \<and> w \<le> 1 \<and> (w = 1 \<longrightarrow> r = 0)"

definition rw_ok :: "nat \<Rightarrow> rw_state \<Rightarrow> bool" where
  "rw_ok n s \<longleftrightarrow> account (tally writing n s) (tally waiting n s) (tally reading n s) (rw_word s)"

lemma tally_others: "t < n \<Longrightarrow> tally P n s = others P n t s + of_bool (P (rw_pc s t))"
proof -
  assume t: "t < n"
  then have "{u. u < n \<and> P (rw_pc s u)} = {u. u < n \<and> u \<noteq> t \<and> P (rw_pc s u)} \<union> (if P (rw_pc s t) then {t} else {})" by auto
  then show ?thesis by (simp add: tally_def others_def card_Un_disjoint)
qed

lemma others_less: "t < n \<Longrightarrow> others P n t s < n"
proof -
  assume t: "t < n"
  have "others P n t s \<le> card ({..<n} - {t})" unfolding others_def by (rule card_mono) auto
  with t show ?thesis by simp
qed

lemma rw_step_others:
  assumes "rw_step t s s'" "u \<noteq> t"
  shows "rw_pc s' u = rw_pc s u"
  using assms by (cases rule: rw_step.cases) (auto simp: rw_goto_def rw_cas_def)

lemmas rw_packed = try_read_lock_packed [unfolded Suc_eq_plus1 [symmetric]] try_write_lock_packed
  try_write_lock_registered_packed [unfolded Suc_eq_plus1 [symmetric]] release_read_packed release_write_packed
  packed_waiting [unfolded Suc_eq_plus1 [symmetric]]

lemma rw_step_account:
  assumes "rw_step t s s'" and n: "m + 1 < 2 ^ 31" "r + 1 < 2 ^ 32"
    and ok: "account (w + of_bool (writing (rw_pc s t))) (m + of_bool (waiting (rw_pc s t))) (r + of_bool (reading (rw_pc s t))) (rw_word s)"
  shows "account (w + of_bool (writing (rw_pc s' t))) (m + of_bool (waiting (rw_pc s' t))) (r + of_bool (reading (rw_pc s' t))) (rw_word s')"
  using assms(1)
  by (cases rule: rw_step.cases) (use ok n in \<open>auto simp: rw_goto_def rw_cas_def account_def rw_packed split: if_splits\<close>)

lemma rw_reach_ok: "rw_reach n s \<Longrightarrow> n < 2 ^ 31 \<Longrightarrow> rw_ok n s"
proof (induction rule: rw_reach.induct)
  case init
  then show ?case by (simp add: rw_ok_def rw_init_def tally_def account_def packed_def)
next
  case (step s t s')
  have same: "others P n t s' = others P n t s" for P
    using rw_step_others [OF step.hyps(3)] by (auto simp: others_def intro: arg_cong [of _ _ card])
  have "others waiting n t s + 1 < 2 ^ 31" "others reading n t s + 1 < 2 ^ 32"
    using others_less [OF step.hyps(2), of waiting s] others_less [OF step.hyps(2), of reading s] step.prems by simp_all
  from rw_step_account [OF step.hyps(3) this] step.IH [OF step.prems] show ?case
    unfolding rw_ok_def tally_others [OF step.hyps(2)] same .
qed

section \<open>Correctness\<close>

text \<open>Two runs: a caller takes the write lock; one reads while another registers to write.\<close>

lemma packed_empty: "packed False 0 0 = 0"
  by (simp add: packed_def)

lemma some_writer: "rw_reach 2 (rw_goto 0 Writing (rw_init\<lparr>rw_word := packed True 0 0\<rparr>))"
proof -
  let ?s1 = "rw_goto 0 WriteTry rw_init"
  let ?s2 = "rw_goto 0 (WriteCas 0) ?s1"
  have pass: "try_write_lock_pass 0 = Inr (packed True 0 0)" using try_write_lock_packed [of 0 0 False] by (simp add: packed_empty)
  have "rw_reach 2 ?s1" by (rule rw_reach.step [OF rw_reach.init _ rw_step.write_call]) (simp_all add: rw_init_def)
  moreover have "rw_step 0 ?s1 ?s2"
    using rw_step.write_load [of ?s1 0 "packed True 0 0"] pass by (simp add: rw_goto_def rw_init_def)
  ultimately have "rw_reach 2 ?s2" by (rule rw_reach.step [OF _ zero_less_numeral])
  moreover have "rw_step 0 ?s2 (rw_cas 0 0 (packed True 0 0) Writing WriteTry ?s2)"
    by (rule rw_step.write_cas [OF _ pass]) (simp add: rw_goto_def)
  ultimately have "rw_reach 2 (rw_cas 0 0 (packed True 0 0) Writing WriteTry ?s2)" by (rule rw_reach.step [OF _ zero_less_numeral])
  then show ?thesis by (simp add: rw_cas_def rw_goto_def rw_init_def)
qed

lemma some_waiter: "rw_reach 2 (rw_goto 1 ReadTry (rw_goto 0 Waiting (rw_init\<lparr>rw_word := packed False 1 0\<rparr>)))"
proof -
  let ?s = "rw_goto 0 Waiting (rw_init\<lparr>rw_word := packed False 1 0\<rparr>)"
  have "rw_step 0 rw_init ?s"
    using rw_step.register [of rw_init 0] packed_waiting(1) [of 0 0 False] by (simp add: rw_init_def packed_empty)
  then have "rw_reach 2 ?s" by (rule rw_reach.step [OF rw_reach.init, rotated]) simp
  moreover have "rw_step 1 ?s (rw_goto 1 ReadTry ?s)" by (rule rw_step.read_call) (simp add: rw_goto_def rw_init_def)
  ultimately show ?thesis by (meson one_less_numeral_iff rw_reach.step semiring_norm(76))
qed

text \<open>
  C24. Mutual exclusion: however many callers run the loops of the lock at once, while one holds the write
  lock no other holds it and none holds a read lock.
\<close>

theorem rw_mutual_exclusion:
  assumes "rw_reach n s" "n < 2 ^ 31" "t < n" "rw_pc s t = Writing" "u < n" "u \<noteq> t"
  shows "\<not> writing (rw_pc s u) \<and> \<not> reading (rw_pc s u)"
proof -
  have ok: "rw_ok n s" by (rule rw_reach_ok [OF assms(1,2)])
  have "others P n t s = 0 \<Longrightarrow> \<not> P (rw_pc s u)" for P using assms(5,6) by (auto simp: others_def)
  moreover have "others writing n t s = 0" "others reading n t s = 0"
    using ok assms(4) by (simp_all add: rw_ok_def account_def tally_others [OF assms(3)])
  ultimately show ?thesis by blast
qed

theorem rw_mutual_exclusion_witness:
  "\<exists>s. rw_reach 2 s \<and> rw_pc s 0 = Writing \<and> \<not> writing (rw_pc s 1) \<and> \<not> reading (rw_pc s 1)"
  using rw_mutual_exclusion [OF some_writer, of 0 1] some_writer by (auto simp: rw_goto_def intro!: exI)

text \<open>
  C39. The word is never out of step with the callers: the readers, the waiting writers and the writer it
  shows are exactly those there are, no field ever runs over, and neither release finds the word without
  what it gives back.
\<close>

theorem rw_word_counts:
  assumes "rw_reach n s" "n < 2 ^ 31"
  shows "unat (reader_count (rw_word s)) = card {t. t < n \<and> reading (rw_pc s t)} \<and>
    unat (waiting_writers (rw_word s)) = card {t. t < n \<and> waiting (rw_pc s t)} \<and>
    (has_writer (rw_word s) \<longleftrightarrow> (\<exists>t<n. writing (rw_pc s t))) \<and>
    (\<forall>t<n. rw_pc s t = ReadDrop \<longrightarrow> release_read_pass (rw_word s) \<noteq> None) \<and>
    (\<forall>t<n. rw_pc s t = Writing \<longrightarrow> has_writer (rw_word s))"
proof -
  have ok: "rw_ok n s" by (rule rw_reach_ok [OF assms])
  have le: "tally P n s \<le> n" for P using card_mono [of "{..<n}" "{t. t < n \<and> P (rw_pc s t)}"] by (auto simp: tally_def)
  have m: "tally waiting n s < 2 ^ 31" and r: "tally reading n s < 2 ^ 32" using le [of waiting] le [of reading] assms(2) by simp_all
  note word = ok [unfolded rw_ok_def account_def]
  have some: "P (rw_pc s t) \<Longrightarrow> t < n \<Longrightarrow> 0 < tally P n s" for P t by (auto simp: tally_def card_gt_0_iff)
  have "has_writer (rw_word s) \<longleftrightarrow> tally writing n s = 1"
    using word by (auto simp: has_writer_def packed_fields [OF m r])
  moreover have "tally writing n s = 1 \<longleftrightarrow> (\<exists>t<n. writing (rw_pc s t))"
  proof
    assume "tally writing n s = 1"
    then have "{t. t < n \<and> writing (rw_pc s t)} \<noteq> {}" unfolding tally_def by (metis card.empty zero_neq_one)
    then show "\<exists>t<n. writing (rw_pc s t)" by blast
  qed (use some [of writing] word in force)
  moreover have "unat (reader_count (rw_word s)) = tally reading n s" "unat (waiting_writers (rw_word s)) = tally waiting n s"
    unfolding reader_count_def waiting_writers_def word [THEN conjunct1] packed_fields [OF m r] using m r
    by (simp_all add: unsigned_ucast_eq unsigned_of_nat take_bit_nat_eq_self)
  moreover have "release_read_pass (rw_word s) \<noteq> None" if "t < n" "rw_pc s t = ReadDrop" for t
    using some [of reading t] that word by (auto simp: release_read_packed [OF m r])
  ultimately show ?thesis by (auto simp: tally_def)
qed

theorem rw_word_counts_witness:
  "\<exists>s. rw_reach 2 s \<and> unat (reader_count (rw_word s)) = card {t. t < 2 \<and> reading (rw_pc s t)} \<and>
     unat (waiting_writers (rw_word s)) = card {t. t < 2 \<and> waiting (rw_pc s t)} \<and> has_writer (rw_word s) \<and>
     (\<exists>t<2. writing (rw_pc s t))"
proof -
  let ?s = "rw_goto 0 Writing (rw_init\<lparr>rw_word := packed True 0 0\<rparr>)"
  have "0 < (2::nat) \<and> writing (rw_pc ?s 0)" by (simp add: rw_goto_def)
  with rw_word_counts [OF some_writer] some_writer show ?thesis by (intro exI [of _ ?s]) auto
qed

text \<open>
  C40. Writers have priority: while a writer waits, no reader is admitted; and once the holders have gone the
  pass a waiting writer makes is not refused.
\<close>

theorem rw_writer_priority:
  assumes "rw_reach n s" "n < 2 ^ 31" "t < n" "waiting (rw_pc s t)"
  shows "(\<forall>u s'. rw_step u s s' \<and> u < n \<and> rw_pc s' u = Reading \<longrightarrow> rw_pc s u = Reading) \<and>
    ((\<forall>u<n. \<not> writing (rw_pc s u) \<and> \<not> reading (rw_pc s u)) \<longrightarrow> (\<exists>new. try_write_lock_registered_pass (rw_word s) = Inr new))"
proof -
  have ok: "rw_ok n s" by (rule rw_reach_ok [OF assms(1,2)])
  have le: "tally P n s \<le> n" for P using card_mono [of "{..<n}" "{t. t < n \<and> P (rw_pc s t)}"] by (auto simp: tally_def)
  have m: "tally waiting n s < 2 ^ 31" and r: "tally reading n s + 1 < 2 ^ 32" using le [of waiting] le [of reading] assms(2) by simp_all
  note word = ok [unfolded rw_ok_def account_def]
  have "t \<in> {t. t < n \<and> waiting (rw_pc s t)}" using assms(3,4) by simp
  then have w: "0 < tally waiting n s" by (auto simp: tally_def card_gt_0_iff)
  then have blocked: "try_read_lock_pass (rw_word s) = Inl WouldBlock" using word m r by (auto simp: try_read_lock_packed)
  have "rw_pc s u = Reading" if "rw_step u s s'" "rw_pc s' u = Reading" for u s'
    using that by (cases rule: rw_step.cases) (use blocked in \<open>auto simp: rw_goto_def rw_cas_def split: if_splits\<close>)
  moreover have "\<exists>new. try_write_lock_registered_pass (rw_word s) = Inr new"
    if free: "\<forall>u<n. \<not> writing (rw_pc s u) \<and> \<not> reading (rw_pc s u)"
  proof -
    have "tally writing n s = 0" "tally reading n s = 0" using free by (auto simp: tally_def)
    then have "rw_word s = packed False (tally waiting n s - 1 + 1) 0" using word w by simp
    with m w show ?thesis using try_write_lock_registered_packed [of "tally waiting n s - 1" 0 False] by simp
  qed
  ultimately show ?thesis by blast
qed

theorem rw_writer_priority_witness:
  "\<exists>s. rw_reach 2 s \<and> waiting (rw_pc s 0) \<and> rw_pc s 1 = ReadTry \<and> (\<forall>s'. rw_step 1 s s' \<longrightarrow> rw_pc s' 1 \<noteq> Reading)"
proof -
  let ?s = "rw_goto 1 ReadTry (rw_goto 0 Waiting (rw_init\<lparr>rw_word := packed False 1 0\<rparr>))"
  have w: "waiting (rw_pc ?s 0)" "rw_pc ?s 1 = ReadTry" by (simp_all add: rw_goto_def)
  have "\<forall>u s'. rw_step u ?s s' \<and> u < 2 \<and> rw_pc s' u = Reading \<longrightarrow> rw_pc ?s u = Reading"
    using rw_writer_priority [OF some_waiter _ _ w(1)] by simp
  then have "rw_pc s' 1 \<noteq> Reading" if "rw_step 1 ?s s'" for s' using that w(2) by force
  with some_waiter w show ?thesis by blast
qed

end
