(* ===== verification/Reorder_Buffer.thy ===== *)
theory Reorder_Buffer
  imports SubEtha_Prelude "HOL-Library.Multiset" "HOL-Library.Product_Lexorder"
begin

text \<open>
  The consumer-side reorder buffer of \<^verbatim>\<open>crates/subetha-cxc/src/reorder.rs\<close>: a window of items held back and released
  in stamp order, and the two receivers built on it. Whatever arrives is delivered once; and where no item
  comes more than a window late, the delivery is the stable sort of the arrivals by stamp.

  The ring the receivers pop from is an argument: what a pop returned, and the counts and the answers of the
  ring's mode switch that they read.
\<close>

section \<open>The buffer\<close>

definition STAMPED_PAYLOAD_BYTES :: nat where "STAMPED_PAYLOAD_BYTES = 56"
definition DEFAULT_FLOOR :: nat where "DEFAULT_FLOOR = 8"
definition DEFAULT_CAP :: nat where "DEFAULT_CAP = 1024"

datatype Entry = Entry (e_stamp: u64) (e_seq: u64) (e_len: nat) (e_payload: bytes)

text \<open>Entries compare by stamp, then by arrival.\<close>

definition entry_key :: "Entry \<Rightarrow> u64 \<times> u64" where
  "entry_key e = (e_stamp e, e_seq e)"

text \<open>The standard library's binary heap of reversed entries gives back the least first: the list in order.\<close>

definition heap_push :: "Entry \<Rightarrow> Entry list \<Rightarrow> Entry list" where
  "heap_push e h = insort_key entry_key e h"

record ReorderBuffer =
  ro_heap :: "Entry list"
  ro_window :: nat
  ro_cap :: nat
  ro_last_emitted :: u64
  ro_have_emitted :: bool
  ro_next_seq :: u64
  ro_corrections :: u64

definition with_window :: "nat \<Rightarrow> nat \<Rightarrow> ReorderBuffer" where
  "with_window floor cap =
     \<lparr>ro_heap = [], ro_window = floor, ro_cap = max cap floor, ro_last_emitted = 0, ro_have_emitted = False,
      ro_next_seq = 0, ro_corrections = 0\<rparr>"

definition widen_to :: "nat \<Rightarrow> ReorderBuffer \<Rightarrow> ReorderBuffer" where
  "widen_to min_window b =
     (if min_window > ro_window b then b\<lparr>ro_window := min_window, ro_cap := max (ro_cap b) min_window\<rparr> else b)"

definition ro_push :: "u64 \<Rightarrow> bytes \<Rightarrow> ReorderBuffer \<Rightarrow> ReorderBuffer" where
  "ro_push stamp payload b =
     (let len = min (length payload) STAMPED_PAYLOAD_BYTES;
          buf = take len payload @ replicate (STAMPED_PAYLOAD_BYTES - len) 0;
          seq = ro_next_seq b
      in b\<lparr>ro_next_seq := seq + 1, ro_heap := heap_push (Entry stamp seq len buf) (ro_heap b)\<rparr>)"

text \<open>Releasing the least entry into an output of so many bytes.\<close>

definition release :: "nat \<Rightarrow> ReorderBuffer \<Rightarrow> (u64 \<times> bytes) option \<times> ReorderBuffer" where
  "release out_len b =
     (case ro_heap b of
        [] \<Rightarrow> (None, b)
      | entry # h \<Rightarrow>
          let b = b\<lparr>ro_heap := h\<rparr>;
              b = (if ro_have_emitted b \<and> e_stamp entry < ro_last_emitted b
                   then b\<lparr>ro_corrections := ro_corrections b + 1,
                          ro_window := max (min (min (ro_window b * 2) (2 ^ 64 - 1)) (ro_cap b)) 1\<rparr>
                   else b);
              b = b\<lparr>ro_last_emitted := e_stamp entry, ro_have_emitted := True\<rparr>;
              n = min (e_len entry) out_len
          in (Some (e_stamp entry, take n (e_payload entry)), b))"

definition try_take :: "nat \<Rightarrow> ReorderBuffer \<Rightarrow> (u64 \<times> bytes) option \<times> ReorderBuffer" where
  "try_take out_len b = (if length (ro_heap b) > ro_window b then release out_len b else (None, b))"

definition flush_one :: "nat \<Rightarrow> ReorderBuffer \<Rightarrow> (u64 \<times> bytes) option \<times> ReorderBuffer" where
  "flush_one out_len b = release out_len b"

section \<open>The receivers\<close>

text \<open>One call of \<open>ReorderingReceiver::try_recv\<close>; \<open>pop\<close> is what the ring gave.\<close>

definition try_recv :: "nat \<Rightarrow> (u64 \<times> bytes) option \<Rightarrow> ReorderBuffer \<Rightarrow> (u64 \<times> bytes) option \<times> ReorderBuffer" where
  "try_recv out_len pop b = try_take out_len (case pop of Some (stamp, payload) \<Rightarrow> ro_push stamp payload b | None \<Rightarrow> b)"

definition REORDER_PRODUCER_CAP :: nat where "REORDER_PRODUCER_CAP = 256"

datatype StampKind = Tsc | SharedCounter | Monotonic
datatype OrderingMode = Unordered | MergeByStamp | MergeStrict
datatype ExactMode = Reorder ReorderBuffer | Strict | Direct

text \<open>\<open>AdaptiveOrderedReceiver::new\<close> chooses the strategy and the merge mode it asks the ring for.\<close>

definition adaptive_new :: "StampKind option \<Rightarrow> nat \<Rightarrow> nat \<Rightarrow> ExactMode \<times> OrderingMode option" where
  "adaptive_new stamp_kind published_producers max_producers =
     (let producers = max published_producers max_producers
      in case stamp_kind of
           Some SharedCounter \<Rightarrow>
             if producers \<le> REORDER_PRODUCER_CAP then
               let window = max producers DEFAULT_FLOOR
               in (Reorder (with_window window (max window DEFAULT_CAP)), Some MergeByStamp)
             else (Strict, Some MergeStrict)
         | _ \<Rightarrow> (Direct, None))"

definition adaptive_try_recv ::
  "nat \<Rightarrow> nat \<Rightarrow> (u64 \<times> bytes) option \<Rightarrow> ExactMode \<Rightarrow> (u64 \<times> bytes) option \<times> ExactMode \<times> OrderingMode option" where
  "adaptive_try_recv out_len published_producers pop mode =
     (case mode of
        Reorder rb \<Rightarrow>
          let (rb, asked) =
                (if published_producers > ro_window rb
                 then (widen_to (min published_producers REORDER_PRODUCER_CAP) rb,
                       if published_producers > REORDER_PRODUCER_CAP then Some MergeStrict else None)
                 else (rb, None));
              (out, rb) = try_recv out_len pop rb
          in (out, Reorder rb, asked)
      | _ \<Rightarrow> (pop, mode, None))"

definition adaptive_flush :: "nat \<Rightarrow> ExactMode \<Rightarrow> (u64 \<times> bytes) option \<times> ExactMode" where
  "adaptive_flush out_len mode =
     (case mode of Reorder rb \<Rightarrow> (case flush_one out_len rb of (out, rb) \<Rightarrow> (out, Reorder rb)) | _ \<Rightarrow> (None, mode))"

text \<open>
  A stream: the calls in turn, each after the window was widened to a given size (to nothing, by
  \<open>ReorderingReceiver\<close>), and the calls of \<open>flush\<close> that drain the rest.
\<close>

fun recv_all :: "nat \<Rightarrow> (nat \<times> (u64 \<times> bytes) option) list \<Rightarrow> ReorderBuffer \<Rightarrow> (u64 \<times> bytes) list \<times> ReorderBuffer" where
  "recv_all out_len [] b = ([], b)"
| "recv_all out_len ((min_window, pop) # calls) b =
     (let (out, b) = try_recv out_len pop (widen_to min_window b); (outs, b) = recv_all out_len calls b
      in ((case out of Some x \<Rightarrow> [x] | None \<Rightarrow> []) @ outs, b))"

fun adaptive_all :: "nat \<Rightarrow> (nat \<times> (u64 \<times> bytes) option) list \<Rightarrow> ExactMode \<Rightarrow> (u64 \<times> bytes) list \<times> ExactMode" where
  "adaptive_all out_len [] mode = ([], mode)"
| "adaptive_all out_len ((published, pop) # calls) mode =
     (let (out, mode, _) = adaptive_try_recv out_len published pop mode; (outs, mode) = adaptive_all out_len calls mode
      in ((case out of Some x \<Rightarrow> [x] | None \<Rightarrow> []) @ outs, mode))"

function flush_all :: "nat \<Rightarrow> ReorderBuffer \<Rightarrow> (u64 \<times> bytes) list \<times> ReorderBuffer" where
  "flush_all out_len b =
     (case flush_one out_len b of
        (None, b) \<Rightarrow> ([], b)
      | (Some x, b) \<Rightarrow> (let (outs, b) = flush_all out_len b in (x # outs, b)))"
  by pat_completeness auto
termination
  by (relation "measure (\<lambda>(_, b). length (ro_heap b))") (auto simp: flush_one_def release_def Let_def split: list.splits if_splits)

declare flush_all.simps [simp del]

section \<open>What is released\<close>

definition shown :: "nat \<Rightarrow> Entry \<Rightarrow> u64 \<times> bytes" where
  "shown out_len e = (e_stamp e, take (min (e_len e) out_len) (e_payload e))"

definition entry_of :: "nat \<Rightarrow> u64 \<times> bytes \<Rightarrow> Entry" where
  "entry_of n x =
     (let len = min (length (snd x)) STAMPED_PAYLOAD_BYTES
      in Entry (fst x) (of_nat n) len (take len (snd x) @ replicate (STAMPED_PAYLOAD_BYTES - len) 0))"

fun entries_of :: "nat \<Rightarrow> (u64 \<times> bytes) list \<Rightarrow> Entry list" where
  "entries_of n [] = []"
| "entries_of n (x # xs) = entry_of n x # entries_of (Suc n) xs"

fun arrived :: "'a option list \<Rightarrow> 'a list" where
  "arrived [] = []"
| "arrived (None # xs) = arrived xs"
| "arrived (Some x # xs) = x # arrived xs"

lemma entry_of_fields [simp]: "e_stamp (entry_of n x) = fst x" "e_seq (entry_of n x) = of_nat n"
  by (simp_all add: entry_of_def Let_def)

lemma ro_push_heap: "ro_next_seq b = of_nat n \<Longrightarrow>
  ro_push (fst x) (snd x) b = b\<lparr>ro_next_seq := of_nat (Suc n), ro_heap := heap_push (entry_of n x) (ro_heap b)\<rparr>"
  by (simp add: ro_push_def entry_of_def Let_def add.commute)

lemma release_entry:
  "ro_heap b = e # h \<Longrightarrow> \<exists>b'. release out_len b = (Some (shown out_len e), b') \<and> ro_heap b' = h \<and> ro_next_seq b' = ro_next_seq b \<and>
     ro_last_emitted b' = e_stamp e \<and> ro_have_emitted b' \<and>
     (\<not> (ro_have_emitted b \<and> e_stamp e < ro_last_emitted b) \<longrightarrow> ro_window b' = ro_window b \<and> ro_corrections b' = ro_corrections b)"
  by (simp add: release_def shown_def Let_def)

section \<open>The invariant of an exact delivery\<close>

text \<open>
  \<open>ordered n es b future\<close>: the entries \<open>es\<close> released so far are in order and come before all that is held
  and all that is still to arrive, and no arrival to come has more greater ones before it than the window, counting
  what is held.
\<close>

definition ordered :: "nat \<Rightarrow> Entry list \<Rightarrow> ReorderBuffer \<Rightarrow> (u64 \<times> bytes) list \<Rightarrow> bool" where
  "ordered n es b future \<longleftrightarrow>
     n + length future < 2 ^ 64 \<and> ro_corrections b = 0 \<and>
     (ro_have_emitted b \<longrightarrow> es \<noteq> [] \<and> ro_last_emitted b = e_stamp (last es)) \<and>
     sorted_wrt (\<lambda>x y. entry_key x < entry_key y) (es @ ro_heap b) \<and> (\<forall>e\<in>set (es @ ro_heap b). unat (e_seq e) < n) \<and>
     (\<forall>e\<in>set es. \<forall>x\<in>set future. e_stamp e \<le> fst x) \<and>
     (\<forall>j<length future. length (filter (\<lambda>e. fst (future ! j) < e_stamp e) (ro_heap b)) +
        length (filter (\<lambda>x. fst (future ! j) < fst x) (take j future)) \<le> ro_window b)"

definition late_at_most :: "nat \<Rightarrow> (u64 \<times> bytes) list \<Rightarrow> bool" where
  "late_at_most w xs \<longleftrightarrow> (\<forall>j<length xs. length (filter (\<lambda>x. fst (xs ! j) < fst x) (take j xs)) \<le> w)"

lemma ordered_start: "late_at_most floor xs \<Longrightarrow> length xs < 2 ^ 64 \<Longrightarrow> ordered 0 [] (with_window floor cap) xs"
  by (simp add: ordered_def late_at_most_def with_window_def)

lemma heap_push_mset: "mset (heap_push e h) = add_mset e (mset h)"
  by (simp add: heap_push_def)

lemma heap_push_filter: "length (filter P (heap_push e h)) = length (filter P h) + of_bool (P e)"
proof -
  have "mset (filter P (heap_push e h)) = filter_mset P (add_mset e (mset h))" by (simp add: heap_push_mset)
  then have "size (mset (filter P (heap_push e h))) = size (filter_mset P (add_mset e (mset h)))" by simp
  then show ?thesis by (simp flip: mset_filter)
qed

lemma heap_push_sorted:
  assumes "sorted_wrt (\<lambda>x y. entry_key x < entry_key y) h" "\<forall>x\<in>set h. entry_key x \<noteq> entry_key e"
  shows "sorted_wrt (\<lambda>x y. entry_key x < entry_key y) (heap_push e h)"
  using assms by (induction h) (auto simp: heap_push_def set_insort_key neq_iff)

lemma ordered_push:
  assumes o: "ordered n es b (x # future)" and b: "ro_next_seq b = of_nat n"
  shows "ordered (Suc n) es (ro_push (fst x) (snd x) b) future"
proof -
  note inv = o [unfolded ordered_def]
  have n: "n < 2 ^ 64" using inv by simp
  then have seq: "unat (of_nat n :: u64) = n" by (simp add: unat_of_nat)
  have "\<forall>e\<in>set (es @ ro_heap b). unat (e_seq e) < n" using inv by blast
  then have fresh: "e_seq e \<noteq> of_nat n" if "e \<in> set (es @ ro_heap b)" for e using that seq by fastforce
  let ?e = "entry_of n x" and ?h = "heap_push (entry_of n x) (ro_heap b)"
  have set: "set ?h = insert ?e (set (ro_heap b))" by (simp add: heap_push_def set_insort_key)
  have "sorted_wrt (\<lambda>x y. entry_key x < entry_key y) ?h"
    using inv fresh by (intro heap_push_sorted) (auto simp: sorted_wrt_append entry_key_def)
  moreover have "entry_key e < entry_key ?e" if "e \<in> set es" for e
  proof -
    have "e_stamp e \<le> fst x" "unat (e_seq e) < n" using inv that by auto
    then show ?thesis by (auto simp: entry_key_def less_prod_def' word_less_nat_alt word_le_nat_alt word_unat_eq_iff seq)
  qed
  ultimately have "sorted_wrt (\<lambda>x y. entry_key x < entry_key y) (es @ ?h)" using inv by (auto simp: sorted_wrt_append set)
  moreover have "length (filter (\<lambda>e. fst (future ! j) < e_stamp e) ?h) + length (filter (\<lambda>x. fst (future ! j) < fst x) (take j future)) \<le> ro_window b"
    if "j < length future" for j
    using inv that by (auto simp: heap_push_filter dest!: spec [of _ "Suc j"] split: if_splits)
  ultimately show ?thesis
    using inv seq by (auto simp: ordered_def ro_push_heap [OF b] set less_SucI)
qed

lemma ordered_release:
  assumes o: "ordered n es b future" and h: "ro_heap b = e # h" and many: "future = [] \<or> ro_window b < length (ro_heap b)"
    and r: "release out_len b = (out, b')"
  shows "out = Some (shown out_len e)" "ro_heap b' = h" "ro_next_seq b' = ro_next_seq b" "ordered n (es @ [e]) b' future"
proof -
  note inv = o [unfolded ordered_def]
  from inv h have sorted: "sorted_wrt (\<lambda>x y. entry_key x < entry_key y) (es @ e # h)" by simp
  have step: "e_stamp (last es) \<le> e_stamp e" if "es \<noteq> []"
  proof -
    have "entry_key (last es) < entry_key e" using sorted that by (simp add: sorted_wrt_append)
    then show ?thesis by (auto simp: entry_key_def less_prod_def')
  qed
  have keep: "\<not> (ro_have_emitted b \<and> e_stamp e < ro_last_emitted b)" using inv step by auto
  from release_entry [OF h, of out_len] r keep show out: "out = Some (shown out_len e)" and hp: "ro_heap b' = h"
    and "ro_next_seq b' = ro_next_seq b" by auto
  from release_entry [OF h, of out_len] r keep have b': "ro_last_emitted b' = e_stamp e" "ro_have_emitted b'" "ro_window b' = ro_window b"
    "ro_corrections b' = 0" using inv by auto
  have "e_stamp e \<le> fst (future ! j)" if j: "j < length future" for j
  proof (rule ccontr)
    assume "\<not> e_stamp e \<le> fst (future ! j)"
    moreover have "e_stamp e \<le> e_stamp x" if "x \<in> set (ro_heap b)" for x
      using sorted that h by (auto simp: sorted_wrt_append entry_key_def less_prod_def')
    ultimately have "filter (\<lambda>x. fst (future ! j) < e_stamp x) (ro_heap b) = ro_heap b" by (intro filter_True) force
    moreover have "length (filter (\<lambda>x. fst (future ! j) < e_stamp x) (ro_heap b)) \<le> ro_window b" using inv j by force
    ultimately have "length (ro_heap b) \<le> ro_window b" by simp
    with many j show False by auto
  qed
  then have "\<forall>x\<in>set future. e_stamp e \<le> fst x" by (metis in_set_conv_nth)
  moreover have "length (filter (\<lambda>e. fst (future ! j) < e_stamp e) h) + length (filter (\<lambda>x. fst (future ! j) < fst x) (take j future)) \<le> ro_window b"
    if "j < length future" for j
  proof -
    have "length (filter (\<lambda>e. fst (future ! j) < e_stamp e) (e # h)) + length (filter (\<lambda>x. fst (future ! j) < fst x) (take j future)) \<le> ro_window b"
      using inv that h by simp
    then show ?thesis by (simp split: if_splits)
  qed
  ultimately show "ordered n (es @ [e]) b' future" using inv h by (simp add: ordered_def b' hp)
qed

lemma ordered_widen: "ordered n es b future \<Longrightarrow> ordered n es (widen_to w b) future"
  by (fastforce simp: ordered_def widen_to_def intro: le_trans less_imp_le_nat)

lemma widen_to_fields: "ro_heap (widen_to w b) = ro_heap b" "ro_next_seq (widen_to w b) = ro_next_seq b"
  by (simp_all add: widen_to_def)

lemma recv_all_ok:
  assumes "recv_all out_len calls b = (outs, b')" "ro_next_seq b = of_nat n"
  shows "\<exists>es. outs = map (shown out_len) es \<and> mset es + mset (ro_heap b') = mset (ro_heap b) + mset (entries_of n (arrived (map snd calls))) \<and>
    (\<forall>es0. ordered n es0 b (arrived (map snd calls)) \<longrightarrow> ordered (n + length (arrived (map snd calls))) (es0 @ es) b' [])"
  using assms
proof (induction calls arbitrary: b n outs)
  case Nil
  then show ?case by auto
next
  case (Cons call calls)
  obtain mw pop where call: "call = (mw, pop)" by force
  define b1 where "b1 = (case pop of Some (stamp, payload) \<Rightarrow> ro_push stamp payload (widen_to mw b) | None \<Rightarrow> widen_to mw b)"
  define n1 where "n1 = (case pop of Some _ \<Rightarrow> Suc n | None \<Rightarrow> n)"
  have b1: "ro_next_seq b1 = of_nat n1" "mset (ro_heap b1) + mset (entries_of n1 (arrived (map snd calls))) = mset (ro_heap b) + mset (entries_of n (arrived (pop # map snd calls)))"
    "n1 + length (arrived (map snd calls)) = n + length (arrived (pop # map snd calls))"
    and push: "\<And>es0. ordered n es0 b (arrived (pop # map snd calls)) \<Longrightarrow> ordered n1 es0 b1 (arrived (map snd calls))"
    using Cons.prems(2) ro_push_heap [of "widen_to mw b" n] ordered_push [of n _ "widen_to mw b"] ordered_widen [of n _ b _ mw]
    by (auto simp: b1_def n1_def heap_push_mset widen_to_fields split: option.splits)
  obtain out b2 where t: "try_take out_len b1 = (out, b2)" by force
  obtain outs' where outs': "recv_all out_len calls b2 = (outs', b')" "outs = (case out of Some x \<Rightarrow> [x] | None \<Rightarrow> []) @ outs'"
    using Cons.prems(1) t by (auto simp: call try_recv_def b1_def [symmetric] split: prod.splits)
  show ?case
  proof (cases "length (ro_heap b1) > ro_window b1")
    case False
    then have "out = None" "b2 = b1" using t by (simp_all add: try_take_def)
    with Cons.IH [OF outs'(1), of n1] b1 push outs'(2) show ?thesis by (auto simp: call)
  next
    case True
    then obtain e h where h: "ro_heap b1 = e # h" by (cases "ro_heap b1") auto
    have r: "release out_len b1 = (out, b2)" using t True by (simp add: try_take_def)
    from release_entry [OF h, of out_len] r have b2: "out = Some (shown out_len e)" "ro_heap b2 = h" "ro_next_seq b2 = ro_next_seq b1" by auto
    have rel: "ordered n1 (es0 @ [e]) b2 (arrived (map snd calls))" if "ordered n1 es0 b1 (arrived (map snd calls))" for es0
      using that by (intro ordered_release(4) [OF that h _ r]) (use True in simp)
    from Cons.IH [OF outs'(1), of n1] b1(1) b2(3) obtain es where es: "outs' = map (shown out_len) es"
      "mset es + mset (ro_heap b') = mset (ro_heap b2) + mset (entries_of n1 (arrived (map snd calls)))"
      "\<forall>es0. ordered n1 es0 b2 (arrived (map snd calls)) \<longrightarrow> ordered (n1 + length (arrived (map snd calls))) (es0 @ es) b' []" by auto
    have "ordered (n + length (arrived (pop # map snd calls))) (es0 @ e # es) b' []" if "ordered n es0 b (arrived (pop # map snd calls))" for es0
      using es(3) rel [OF push [OF that]] b1(3) by fastforce
    moreover have "mset (e # es) + mset (ro_heap b') = mset (ro_heap b) + mset (entries_of n (arrived (pop # map snd calls)))"
      using es(2) b1(2) b2(2) h by simp
    ultimately show ?thesis using es(1) outs'(2) b2(1) by (intro exI [of _ "e # es"]) (simp add: call)
  qed
qed

lemma flush_all_ok:
  assumes "flush_all out_len b = (outs, b')"
  shows "\<exists>es. outs = map (shown out_len) es \<and> mset es = mset (ro_heap b) \<and> ro_heap b' = [] \<and>
    (\<forall>n es0. ordered n es0 b [] \<longrightarrow> ordered n (es0 @ es) b' [])"
  using assms
proof (induction out_len b arbitrary: outs rule: flush_all.induct)
  case (1 out_len b)
  show ?case
  proof (cases "ro_heap b")
    case Nil
    then have "outs = []" "b' = b" using 1(2) by (simp_all add: flush_all.simps flush_one_def release_def)
    with Nil show ?thesis by simp
  next
    case (Cons e h)
    from release_entry [OF this, of out_len] obtain b1 where b1: "release out_len b = (Some (shown out_len e), b1)" "ro_heap b1 = h" by blast
    obtain outs' where outs': "flush_all out_len b1 = (outs', b')" "outs = shown out_len e # outs'"
      using 1(2) b1(1) by (auto simp: flush_all.simps [of out_len b] flush_one_def split: prod.splits)
    from 1(1) [of "Some (shown out_len e)" b1 "shown out_len e" outs'] b1(1) outs'(1) obtain es where
      es: "outs' = map (shown out_len) es" "mset es = mset (ro_heap b1)" "ro_heap b' = []"
        "\<forall>n es0. ordered n es0 b1 [] \<longrightarrow> ordered n (es0 @ es) b' []" by (auto simp: flush_one_def)
    have "ordered n (es0 @ e # es) b' []" if "ordered n es0 b []" for n es0
      using es(4) ordered_release(4) [OF that Cons _ b1(1)] by fastforce
    with es outs'(2) b1(2) Cons show ?thesis by (intro exI [of _ "e # es"]) simp
  qed
qed

section \<open>Stable order\<close>

lemma insort_key_map: "map h (insort_key (\<lambda>x. k (h x)) x xs) = insort_key k (h x) (map h xs)"
  by (induction xs) auto

lemma sort_key_map: "sort_key k (map h xs) = map h (sort_key (\<lambda>x. k (h x)) xs)"
  by (induction xs) (simp_all add: insort_key_map)

lemma sorted_by_seq_unique:
  assumes "mset xs = mset ys" "sorted_wrt (\<lambda>x y. e_seq x < e_seq y) xs" "sorted_wrt (\<lambda>x y. e_seq x < e_seq y) ys"
  shows "xs = ys"
proof -
  have 1: "sorted_wrt (<) (map e_seq xs)" "sorted_wrt (<) (map e_seq ys)" using assms by (simp_all add: sorted_wrt_map)
  then have "map e_seq xs = map e_seq ys"
    using assms(1) by (intro sorted_distinct_set_unique) (auto simp: strict_sorted_iff dest: mset_eq_setD)
  moreover have "inj_on e_seq (set xs \<union> set ys)"
    using 1 assms(1) by (metis distinct_map mset_eq_setD strict_sorted_iff sup.idem)
  ultimately show ?thesis by (rule map_inj_on)
qed

lemma entries_of_seqs: "n + length xs < 2 ^ 64 \<Longrightarrow> sorted_wrt (\<lambda>x y. e_seq x < e_seq y) (entries_of n xs) \<and>
  (\<forall>e\<in>set (entries_of n xs). of_nat n \<le> e_seq e)"
proof (induction xs arbitrary: n)
  case (Cons x xs)
  then have IH: "sorted_wrt (\<lambda>x y. e_seq x < e_seq y) (entries_of (Suc n) xs)" "\<forall>e\<in>set (entries_of (Suc n) xs). of_nat (Suc n) \<le> e_seq e" by (auto simp del: of_nat_Suc)
  have "(of_nat n :: u64) < of_nat (Suc n)" using Cons.prems by (simp add: word_less_nat_alt unat_of_nat del: of_nat_Suc)
  with IH show ?case by (auto dest: order.strict_trans2 simp del: of_nat_Suc)
qed simp

lemma stable_order:
  assumes "mset es = mset (entries_of 0 xs)" "sorted_wrt (\<lambda>x y. entry_key x < entry_key y) es" "length xs < 2 ^ 64"
  shows "es = sort_key e_stamp (entries_of 0 xs)"
proof (rule properties_for_sort_key [symmetric, OF assms(1)])
  show "sorted (map e_stamp es)"
    using assms(2) by (auto simp: sorted_map entry_key_def less_prod_def' elim: sorted_wrt_mono_rel [rotated])
  fix k assume "k \<in> set es"
  have "sorted_wrt (\<lambda>x y. e_seq x < e_seq y) (filter (\<lambda>x. e_stamp k = e_stamp x) es)"
    using sorted_wrt_filter [OF assms(2), of "\<lambda>x. e_stamp k = e_stamp x"]
    by (rule sorted_wrt_mono_rel [rotated]) (auto simp: entry_key_def less_prod_def')
  moreover have "sorted_wrt (\<lambda>x y. e_seq x < e_seq y) (filter (\<lambda>x. e_stamp k = e_stamp x) (entries_of 0 xs))"
    using entries_of_seqs [of 0 xs] assms(3) by (intro sorted_wrt_filter) simp
  ultimately show "filter (\<lambda>x. e_stamp k = e_stamp x) es = filter (\<lambda>x. e_stamp k = e_stamp x) (entries_of 0 xs)"
    using assms(1) by (intro sorted_by_seq_unique) (simp_all flip: filter_mset_eq_conv add: mset_filter)
qed

text \<open>What the caller sees of an arrival: its stamp, and its payload cut to a stamped slot and to the output.\<close>

definition seen_as :: "nat \<Rightarrow> u64 \<times> bytes \<Rightarrow> u64 \<times> bytes" where
  "seen_as out_len x = (fst x, take (min (min (length (snd x)) STAMPED_PAYLOAD_BYTES) out_len) (snd x))"

lemma shown_entry_of: "shown out_len (entry_of n x) = seen_as out_len x"
  by (simp add: shown_def entry_of_def seen_as_def Let_def) (simp add: min_def)

lemma shown_entries: "map (shown out_len) (entries_of n xs) = map (seen_as out_len) xs"
  by (induction xs arbitrary: n) (simp_all add: shown_entry_of)

lemma shown_sorted: "map (shown out_len) (sort_key e_stamp (entries_of 0 xs)) = map (seen_as out_len) (sort_key fst xs)"
proof -
  have "map (shown out_len) (sort_key e_stamp (entries_of 0 xs)) = map (shown out_len) (sort_key (\<lambda>e. fst (shown out_len e)) (entries_of 0 xs))"
    by (simp add: shown_def)
  also have "\<dots> = sort_key fst (map (seen_as out_len) xs)" by (simp add: sort_key_map [symmetric] shown_entries)
  also have "\<dots> = map (seen_as out_len) (sort_key fst xs)" by (simp add: sort_key_map seen_as_def)
  finally show ?thesis .
qed

lemma stream_delivery:
  assumes r: "recv_all out_len calls (with_window floor cap) = (outs, b)" "flush_all out_len b = (rest, b')"
  defines "xs \<equiv> arrived (map snd calls)"
  shows "mset (outs @ rest) = mset (map (seen_as out_len) xs)"
    and "late_at_most floor xs \<Longrightarrow> length xs < 2 ^ 64 \<Longrightarrow> outs @ rest = map (seen_as out_len) (sort_key fst xs) \<and> ro_corrections b' = 0"
proof -
  from recv_all_ok [OF r(1), of 0] obtain es where es: "outs = map (shown out_len) es" "mset es + mset (ro_heap b) = mset (entries_of 0 xs)"
    "\<forall>es0. ordered 0 es0 (with_window floor cap) xs \<longrightarrow> ordered (length xs) (es0 @ es) b []"
    by (auto simp: with_window_def xs_def)
  from flush_all_ok [OF r(2)] obtain es' where es': "rest = map (shown out_len) es'" "mset es' = mset (ro_heap b)" "ro_heap b' = []"
    "\<forall>n es0. ordered n es0 b [] \<longrightarrow> ordered n (es0 @ es') b' []" by blast
  have all: "mset (es @ es') = mset (entries_of 0 xs)" using es(2) es'(2) by simp
  have "mset (outs @ rest) = image_mset (shown out_len) (mset (es @ es'))" using es(1) es'(1) by simp
  also have "\<dots> = mset (map (shown out_len) (entries_of 0 xs))" by (simp only: all mset_map)
  finally show "mset (outs @ rest) = mset (map (seen_as out_len) xs)" by (simp only: shown_entries)
  assume late: "late_at_most floor xs" and n: "length xs < 2 ^ 64"
  from ordered_start [OF late n, of cap] es(3) es'(4) have "ordered (length xs) ([] @ es @ es') b' []" by fastforce
  then have "sorted_wrt (\<lambda>x y. entry_key x < entry_key y) (es @ es')" "ro_corrections b' = 0" by (simp_all add: ordered_def es'(3))
  with stable_order [OF all _ n] es(1) es'(1) shown_sorted [of out_len xs]
  show "outs @ rest = map (seen_as out_len) (sort_key fst xs) \<and> ro_corrections b' = 0" by (metis map_append)
qed

text \<open>Under the reorder strategy the adaptive receiver is such a stream.\<close>

lemma adaptive_try_recv_reorder:
  "adaptive_try_recv out_len published pop (Reorder rb) =
     (let (out, rb') = try_recv out_len pop (widen_to (min published REORDER_PRODUCER_CAP) rb)
      in (out, Reorder rb', if published > ro_window rb \<and> published > REORDER_PRODUCER_CAP then Some MergeStrict else None))"
  by (auto simp: adaptive_try_recv_def widen_to_def Let_def split: prod.splits)

lemma adaptive_all_reorder:
  "adaptive_all out_len calls (Reorder rb) =
     (let (outs, rb') = recv_all out_len (map (\<lambda>(published, pop). (min published REORDER_PRODUCER_CAP, pop)) calls) rb in (outs, Reorder rb'))"
  by (induction calls arbitrary: rb) (auto simp: adaptive_try_recv_reorder Let_def split: prod.splits)

section \<open>Correctness\<close>

text \<open>
  C35. The receiver set up for counter stamps and no more producers than the reorder cap, however often the
  ring was empty and however many producers join, delivers every arrival once; and where no arrival has
  more greater ones before it than there are producers (or than the floor of the window), it delivers them
  in stamp order, arrivals with equal stamps in their order of arrival, and the window never had to grow.
\<close>

theorem adaptive_receiver_exact:
  assumes "max published max_producers \<le> REORDER_PRODUCER_CAP"
    and "adaptive_all out_len calls (fst (adaptive_new (Some SharedCounter) published max_producers)) = (outs, Reorder b)"
    and "flush_all out_len b = (rest, b')"
  shows "mset (outs @ rest) = mset (map (seen_as out_len) (arrived (map snd calls))) \<and>
    (late_at_most (max (max published max_producers) DEFAULT_FLOOR) (arrived (map snd calls)) \<and> length (arrived (map snd calls)) < 2 ^ 64 \<longrightarrow>
       outs @ rest = map (seen_as out_len) (sort_key fst (arrived (map snd calls))) \<and> ro_corrections b' = 0)"
proof -
  let ?w = "max (max published max_producers) DEFAULT_FLOOR"
  let ?calls = "map (\<lambda>(published, pop). (min published REORDER_PRODUCER_CAP, pop)) calls"
  have new: "fst (adaptive_new (Some SharedCounter) published max_producers) = Reorder (with_window ?w (max ?w DEFAULT_CAP))"
    using assms(1) by (simp add: adaptive_new_def Let_def)
  have "recv_all out_len ?calls (with_window ?w (max ?w DEFAULT_CAP)) = (outs, b)"
    using assms(2) by (auto simp: new adaptive_all_reorder Let_def split: prod.splits)
  note stream = stream_delivery [OF this assms(3)]
  have snd: "map snd ?calls = map snd calls" by (simp add: case_prod_unfold comp_def)
  from stream show ?thesis unfolding snd by blast
qed

theorem adaptive_receiver_exact_witness:
  "\<exists>outs b rest b'.
     adaptive_all 56 [(2, Some (5, [1])), (2, None), (2, Some (3, [2])), (3, Some (5, [3]))] (fst (adaptive_new (Some SharedCounter) 2 2)) =
       (outs, Reorder b) \<and>
     flush_all 56 b = (rest, b') \<and> outs @ rest = [(3, [2]), (5, [1]), (5, [3])] \<and> ro_corrections b' = 0"
proof -
  let ?calls = "[(2, Some (5 :: u64, [1 :: u8])), (2, None), (2, Some (3, [2])), (3, Some (5, [3]))] :: (nat \<times> (u64 \<times> bytes) option) list"
  have new: "fst (adaptive_new (Some SharedCounter) 2 2) = Reorder (with_window 8 1024)"
    by (simp add: adaptive_new_def REORDER_PRODUCER_CAP_def DEFAULT_FLOOR_def DEFAULT_CAP_def)
  obtain outs b where "recv_all 56 (map (\<lambda>(published, pop). (min published REORDER_PRODUCER_CAP, pop)) ?calls) (with_window 8 1024) = (outs, b)"
    by (rule prod.exhaust)
  then have 1: "adaptive_all 56 ?calls (Reorder (with_window 8 1024)) = (outs, Reorder b)"
    by (simp only: adaptive_all_reorder Let_def prod.case)
  obtain rest b' where 2: "flush_all 56 b = (rest, b')" by force
  have late: "late_at_most 8 [(5 :: u64, [1 :: u8]), (3, [2]), (5, [3])]" by (simp add: late_at_most_def less_Suc_eq)
  have sorted: "map (seen_as 56) (sort_key fst [(5 :: u64, [1 :: u8]), (3, [2]), (5, [3])]) = [(3, [2]), (5, [1]), (5, [3])]"
    by (simp add: seen_as_def STAMPED_PAYLOAD_BYTES_def)
  from adaptive_receiver_exact [of 2 2 56 ?calls outs b rest b'] 1 2 late sorted show ?thesis
    unfolding new by (simp add: REORDER_PRODUCER_CAP_def DEFAULT_FLOOR_def)
qed

end
