(* ===== verification/Interleave.thy ===== *)
theory Interleave
  imports SubEtha_Prelude "HOL-Library.Multiset"
begin

text \<open>
  The transmit-order interleaver of \<^verbatim>\<open>crates/subetha-cxc/src/interleave.rs\<close>: it collects blocks and sends them column by
  column, so that consecutive datagrams belong to different blocks. Nothing is lost or repeated; and for
  blocks of one size in full groups a burst no longer than the depth takes at most one datagram of each
  block. For a short group, or blocks of different sizes, it can take more.
\<close>

section \<open>The interleaver\<close>

record Interleaver =
  il_depth :: nat
  il_pending :: "bytes list list"

definition il_new :: "nat \<Rightarrow> Interleaver" where
  "il_new depth = \<lparr>il_depth = max depth 1, il_pending = []\<rparr>"

text \<open>The datagrams of a column, from every block that has one.\<close>

definition column :: "bytes list list \<Rightarrow> nat \<Rightarrow> bytes list" where
  "column blocks col = concat (map (\<lambda>block. if col < length block then [block ! col] else []) blocks)"

definition emit :: "Interleaver \<Rightarrow> bytes list \<times> Interleaver" where
  "emit il =
     (let blocks = il_pending il; max_len = (if blocks = [] then 0 else Max (set (map length blocks)))
      in (concat (map (column blocks) [0..<max_len]), il\<lparr>il_pending := []\<rparr>))"

definition il_flush :: "Interleaver \<Rightarrow> bytes list \<times> Interleaver" where
  "il_flush il = (if il_pending il = [] then ([], il) else emit il)"

definition set_depth :: "nat \<Rightarrow> Interleaver \<Rightarrow> bytes list \<times> Interleaver" where
  "set_depth depth il = (let (flushed, il) = il_flush il in (flushed, il\<lparr>il_depth := max depth 1\<rparr>))"

definition add_block :: "bytes list \<Rightarrow> Interleaver \<Rightarrow> bytes list \<times> Interleaver" where
  "add_block datagrams il =
     (if datagrams = [] then ([], il)
      else let il = il\<lparr>il_pending := il_pending il @ [datagrams]\<rparr>
           in if length (il_pending il) \<ge> il_depth il then emit il else ([], il))"

text \<open>Adding blocks one after the other.\<close>

fun add_blocks :: "bytes list list \<Rightarrow> Interleaver \<Rightarrow> bytes list \<times> Interleaver" where
  "add_blocks [] il = ([], il)"
| "add_blocks (b # bs) il = (let (out, il) = add_block b il; (outs, il) = add_blocks bs il in (out @ outs, il))"

section \<open>Nothing is lost\<close>

lemma column_mset: "mset (column blocks col) = (\<Sum>b\<leftarrow>blocks. if col < length b then {#b ! col#} else {#})"
  by (induction blocks) (auto simp: column_def)

lemma block_columns: "length b \<le> n \<Longrightarrow> (\<Sum>col\<leftarrow>[0..<n]. if col < length b then {#b ! col#} else {#}) = mset b"
proof (induction n arbitrary: b)
  case (Suc n)
  show ?case
  proof (cases "length b \<le> n")
    case False
    with Suc.prems have n: "length b = Suc n" by simp
    have "(\<Sum>col\<leftarrow>[0..<n]. if col < length b then {#b ! col#} else {#}) =
        (\<Sum>col\<leftarrow>[0..<n]. if col < length (take n b) then {#take n b ! col#} else {#})"
      using n by (intro arg_cong [of _ _ sum_list] map_cong) auto
    also have "\<dots> = mset (take n b)" using n by (intro Suc.IH) simp
    finally have "(\<Sum>col\<leftarrow>[0..<Suc n]. if col < length b then {#b ! col#} else {#}) = mset (take n b) + {#b ! n#}" using n by simp
    also have "\<dots> = mset (take n b @ [b ! n])" by simp
    also have "take n b @ [b ! n] = b" using n take_Suc_conv_app_nth [of n b] by simp
    finally show ?thesis .
  qed (use Suc in simp)
qed simp

lemma emit_mset: "mset (fst (emit il)) = mset (concat (il_pending il))"
proof -
  let ?bs = "il_pending il"
  define n where "n = (if ?bs = [] then 0 else Max (set (map length ?bs)))"
  have n: "length b \<le> n" if "b \<in> set ?bs" for b using that by (auto simp: n_def intro!: Max_ge)
  have "mset (concat (map (column bs) cols)) = (\<Sum>col\<leftarrow>cols. \<Sum>b\<leftarrow>bs. if col < length b then {#b ! col#} else {#})" for bs cols
    by (induction cols) (simp_all add: column_mset)
  moreover have "(\<Sum>col\<leftarrow>cols. \<Sum>b\<leftarrow>bs. f col b) = (\<Sum>b\<leftarrow>bs. \<Sum>col\<leftarrow>cols. f col b)" for f :: "nat \<Rightarrow> bytes list \<Rightarrow> bytes multiset" and bs cols
    by (induction cols) (simp_all add: sum_list_addf)
  ultimately have "mset (concat (map (column ?bs) [0..<n])) = (\<Sum>b\<leftarrow>?bs. \<Sum>col\<leftarrow>[0..<n]. if col < length b then {#b ! col#} else {#})" by simp
  also have "\<dots> = (\<Sum>b\<leftarrow>?bs. mset b)" using n by (intro arg_cong [of _ _ sum_list] map_cong) (simp_all add: block_columns)
  also have "\<dots> = mset (concat ?bs)" by (simp add: mset_concat)
  finally show ?thesis by (simp add: emit_def Let_def n_def)
qed

lemma add_blocks_mset:
  "add_blocks bs il = (outs, il') \<Longrightarrow> mset outs + mset (concat (il_pending il')) = mset (concat (il_pending il)) + mset (concat bs)"
proof (induction bs arbitrary: il outs)
  case (Cons b bs)
  obtain out il1 where 1: "add_block b il = (out, il1)" by force
  obtain outs' where 2: "add_blocks bs il1 = (outs', il')" "outs = out @ outs'" using Cons.prems 1 by (auto split: prod.splits)
  have "mset out + mset (concat (il_pending il1)) = mset (concat (il_pending il)) + mset b"
    using 1 emit_mset [of "il\<lparr>il_pending := il_pending il @ [b]\<rparr>"]
    by (auto simp: add_block_def Let_def emit_def split: if_splits)
  with Cons.IH [OF 2(1)] 2(2) show ?case by (simp add: union_ac)
qed simp

section \<open>Where a datagram goes\<close>

lemma concat_uniform:
  assumes "\<forall>xs\<in>set xss. length xs = n"
  shows "length (concat xss) = length xss * n" "i < length xss \<Longrightarrow> j < n \<Longrightarrow> concat xss ! (i * n + j) = xss ! i ! j"
  using assms
proof (induction xss arbitrary: i)
  case (Cons xs xss)
  {
    case 1
    then show ?case using Cons by simp
  next
    case 2
    then show ?case using Cons(2) [of "i - 1"] by (cases i) (auto simp: nth_append)
  }
qed simp_all

lemma column_uniform: "\<forall>b\<in>set blocks. length b = n \<Longrightarrow> col < n \<Longrightarrow> column blocks col = map (\<lambda>b. b ! col) blocks"
  by (induction blocks) (auto simp: column_def)

lemma emit_uniform:
  assumes "il_pending il = blocks" "\<forall>b\<in>set blocks. length b = n" "blocks \<noteq> []"
  shows "fst (emit il) = concat (map (\<lambda>col. map (\<lambda>b. b ! col) blocks) [0..<n])"
proof -
  have "set (map length blocks) = {n}" using assms(2,3) by (cases blocks) auto
  then have "Max (set (map length blocks)) = n" by (metis Max_singleton)
  then have "fst (emit il) = concat (map (column blocks) [0..<n])" using assms(1,3) by (simp add: emit_def Let_def)
  also have "map (column blocks) [0..<n] = map (\<lambda>col. map (\<lambda>b. b ! col) blocks) [0..<n]"
    by (rule map_cong) (simp_all add: column_uniform [OF assms(2)])
  finally show ?thesis .
qed

lemma emit_place:
  assumes "il_pending il = blocks" "\<forall>b\<in>set blocks. length b = n" "i < length blocks" "c < n"
  shows "length (fst (emit il)) = n * length blocks" "fst (emit il) ! (c * length blocks + i) = blocks ! i ! c"
proof -
  let ?cols = "map (\<lambda>col. map (\<lambda>b. b ! col) blocks) [0..<n]"
  have e: "fst (emit il) = concat ?cols" using assms by (intro emit_uniform) auto
  have u: "\<forall>xs\<in>set ?cols. length xs = length blocks" by simp
  from concat_uniform(1) [OF u] e show "length (fst (emit il)) = n * length blocks" by simp
  from concat_uniform(2) [OF u, of c i] e assms(3,4) show "fst (emit il) ! (c * length blocks + i) = blocks ! i ! c" by simp
qed

lemma add_group:
  assumes "length (il_pending il) + length bs = il_depth il" "bs \<noteq> []" "\<forall>b\<in>set bs. b \<noteq> []"
  shows "add_blocks bs il = emit (il\<lparr>il_pending := il_pending il @ bs\<rparr>)"
  using assms
proof (induction bs arbitrary: il)
  case (Cons b bs)
  then have b: "b \<noteq> []" by simp
  show ?case
  proof (cases "bs = []")
    case True
    with Cons b show ?thesis by (simp add: add_block_def Let_def)
  next
    case False
    then have "\<not> length (il_pending il @ [b]) \<ge> il_depth il" using Cons.prems(1) by (cases bs) auto
    then have "add_block b il = ([], il\<lparr>il_pending := il_pending il @ [b]\<rparr>)" using b by (simp add: add_block_def Let_def)
    with Cons.IH [of "il\<lparr>il_pending := il_pending il @ [b]\<rparr>"] Cons.prems False show ?thesis by (simp split: prod.splits)
  qed
qed simp

lemma add_blocks_append:
  "add_blocks (bs @ cs) il = (let (out, il) = add_blocks bs il; (outs, il) = add_blocks cs il in (out @ outs, il))"
  by (induction bs arbitrary: il) (auto split: prod.splits)

lemma add_groups:
  assumes "\<forall>g\<in>set groups. length g = depth \<and> (\<forall>b\<in>set g. length b = n)" "0 < depth" "0 < n"
  shows "add_blocks (concat groups) \<lparr>il_depth = depth, il_pending = []\<rparr> =
    (concat (map (\<lambda>g. fst (emit \<lparr>il_depth = depth, il_pending = g\<rparr>)) groups), \<lparr>il_depth = depth, il_pending = []\<rparr>)"
  using assms(1)
proof (induction groups)
  case (Cons g groups)
  have "add_blocks g \<lparr>il_depth = depth, il_pending = []\<rparr> = emit \<lparr>il_depth = depth, il_pending = g\<rparr>"
    using add_group [of "\<lparr>il_depth = depth, il_pending = []\<rparr>" g] Cons.prems assms(2,3) by fastforce
  also have "\<dots> = (fst (emit \<lparr>il_depth = depth, il_pending = g\<rparr>), \<lparr>il_depth = depth, il_pending = []\<rparr>)"
    by (simp add: emit_def Let_def)
  finally show ?case using Cons by (simp add: add_blocks_append Let_def)
qed simp

text \<open>The place of shard \<^term>\<open>c\<close> of block \<^term>\<open>i\<close> of group \<^term>\<open>g\<close> in the transmit order.\<close>

definition place :: "nat \<Rightarrow> nat \<Rightarrow> nat \<Rightarrow> nat \<Rightarrow> nat \<Rightarrow> nat" where
  "place depth n g i c = g * (n * depth) + (c * depth + i)"

lemma place_apart: "c < c' \<Longrightarrow> place depth n g i c + depth \<le> place depth n g i c'"
  using mult_le_mono1 [of "Suc c" c' depth] by (simp add: place_def)

lemma burst_one: "card {c. c < n \<and> place depth n g i c \<in> {start..<start + depth}} \<le> 1"
proof (rule card_le_Suc0_iff_eq [THEN iffD2, folded One_nat_def], simp, intro ballI)
  fix c c' assume "c \<in> {c. c < n \<and> place depth n g i c \<in> {start..<start + depth}}" "c' \<in> {c. c < n \<and> place depth n g i c \<in> {start..<start + depth}}"
  then show "c = c'" using place_apart [of c c' depth n g i] place_apart [of c' c depth n g i] by (cases c c' rule: linorder_cases) auto
qed

lemma il_new_pos: "0 < depth \<Longrightarrow> il_new depth = \<lparr>il_depth = depth, il_pending = []\<rparr>"
  by (simp add: il_new_def)

lemma groups_place:
  assumes "\<forall>g\<in>set groups. length g = depth \<and> (\<forall>b\<in>set g. length b = n)" "0 < depth" "0 < n"
  defines "outs \<equiv> fst (add_blocks (concat groups) (il_new depth))"
  shows "length outs = length groups * (n * depth)"
    "g < length groups \<Longrightarrow> i < depth \<Longrightarrow> c < n \<Longrightarrow> outs ! place depth n g i c = groups ! g ! i ! c"
proof -
  let ?e = "\<lambda>g. fst (emit \<lparr>il_depth = depth, il_pending = g\<rparr>)"
  have outs: "outs = concat (map ?e groups)" using add_groups [OF assms(1-3)] assms(2) il_new_pos [OF assms(2)] by (simp add: outs_def)
  have e: "length (?e g) = n * depth" "i < depth \<Longrightarrow> c < n \<Longrightarrow> ?e g ! (c * depth + i) = g ! i ! c" if "g \<in> set groups" for g i c
    using that assms(1-3) emit_place(1) [of _ g n 0 0] emit_place(2) [of "\<lparr>il_depth = depth, il_pending = g\<rparr>" g n i c] by auto
  then have u: "\<forall>xs\<in>set (map ?e groups). length xs = n * depth" by simp
  from concat_uniform(1) [OF u] outs show "length outs = length groups * (n * depth)" by simp
  assume *: "g < length groups" "i < depth" "c < n"
  then have "c * depth + i < n * depth" by (rule_tac row_major_less)
  then show "outs ! place depth n g i c = groups ! g ! i ! c"
    using concat_uniform(2) [OF u, of g "c * depth + i"] outs e(2) [of "groups ! g" i c] * by (simp add: place_def)
qed

section \<open>Properties\<close>

text \<open>
  C37. The interleaver spreads a burst and loses nothing. Let groups of \<^term>\<open>depth\<close> blocks of \<^term>\<open>n\<close> datagrams each be
  added, then any other blocks, of any number and sizes. What \<^verbatim>\<open>add_block\<close> returned and what the final \<^verbatim>\<open>flush\<close>
  returns are together exactly the datagrams of all the blocks; datagram \<^term>\<open>c\<close> of block \<^term>\<open>i\<close> of group \<^term>\<open>g\<close> is sent at its
  column-major place; and a burst of \<^term>\<open>depth\<close> consecutive datagrams holds at most one datagram of each of
  these blocks.
\<close>

theorem interleaver_burst:
  assumes "\<forall>g\<in>set groups. length g = depth \<and> (\<forall>b\<in>set g. length b = n)" "0 < depth" "0 < n"
  shows "case add_blocks (concat groups @ rest) (il_new depth) of (outs, il) \<Rightarrow>
      mset (outs @ fst (il_flush il)) = mset (concat (concat groups @ rest)) \<and>
      (\<forall>g<length groups. \<forall>i<depth. \<forall>c<n.
         place depth n g i c < length outs \<and> outs ! place depth n g i c = groups ! g ! i ! c) \<and>
      (\<forall>g i start. card {c. c < n \<and> place depth n g i c \<in> {start..<start + depth}} \<le> 1)"
proof -
  obtain outs1 il1 where r1: "add_blocks (concat groups) (il_new depth) = (outs1, il1)" by force
  obtain outs2 il where r2: "add_blocks rest il1 = (outs2, il)" by force
  from r1 r2 have r: "add_blocks (concat groups @ rest) (il_new depth) = (outs1 @ outs2, il)" by (simp add: add_blocks_append)
  have "mset (fst (il_flush il)) = mset (concat (il_pending il))" by (simp add: il_flush_def emit_mset)
  with add_blocks_mset [OF r] have "mset ((outs1 @ outs2) @ fst (il_flush il)) = mset (concat (concat groups @ rest))" by (simp add: il_new_def union_assoc)
  moreover have "place depth n g i c < length outs1 \<and> outs1 ! place depth n g i c = groups ! g ! i ! c"
    if "g < length groups" "i < depth" "c < n" for g i c
    using groups_place [OF assms] r1 that row_major_less [OF that(1) row_major_less [OF that(3,2)]] by (simp add: place_def)
  ultimately show ?thesis using r burst_one by (auto simp: nth_append union_assoc trans_less_add1 simp del: One_nat_def)
qed

theorem interleaver_burst_witness:
  "fst (add_blocks ([[[1], [2], [3]], [[4], [5], [6]]] @ [[[7]]]) (il_new 2)) = [[1], [4], [2], [5], [3], [6]] \<and>
   fst (add_blocks ([[[1], [2], [3]], [[4], [5], [6]]] @ [[[7]]]) (il_new 2)) ! place 2 3 0 1 2 = [6]"
proof -
  have "fst (add_blocks (concat [[[[1], [2], [3]], [[4], [5], [6]]]] @ [[[7]]]) (il_new 2)) ! place 2 3 0 1 2 = [[[[1], [2], [3]], [[4], [5], [6]]]] ! 0 ! 1 ! 2"
    using interleaver_burst [of "[[[[1], [2], [3]], [[4], [5], [6]]]]" 2 3 "[[[7]]]"] by (simp split: prod.splits)
  then show ?thesis by (simp add: il_new_def add_block_def emit_def column_def Let_def upt_rec)
qed

text \<open>
  The bound needs full groups and equal sizes. At depth 3, the flush of two blocks sends the first block's
  two datagrams two places apart; and a full group of blocks of sizes 1, 1 and 3 ends with two datagrams of
  the third block in a row.
\<close>

lemma short_group_burst:
  "fst (il_flush (snd (add_blocks [[[1], [2]], [[3], [4]]] (il_new 3)))) = [[1], [3], [2], [4]]"
  by (simp add: il_new_def add_block_def il_flush_def emit_def column_def Let_def upt_rec)

lemma ragged_group_burst:
  "fst (add_blocks [[[1]], [[2]], [[3], [4], [5]]] (il_new 3)) = [[1], [2], [3], [4], [5]]"
  by (simp add: il_new_def add_block_def emit_def column_def Let_def upt_rec)

end
