(* ===== verification/Shared_Btree_Map.thy ===== *)
theory Shared_Btree_Map
  imports Ordered_Map
begin

text \<open>
  The ordered map of \<^verbatim>\<open>crates/subetha-cxc/src/shared_btree_map.rs\<close>: a B-tree of minimum degree eight whose nodes are the
  slots of one array, named by index, with a free list through the first child index of the unused ones. This
  theory has the operations; a node's array loops are the loops of the code. The key and value types are
  parameters, and so are the key and the value that a zeroed slot holds.

  An operation's outer \<open>None\<close> means that it does not return: a walk that follows a cycle, or a reader that waits
  for a writer that is not there.
\<close>

section \<open>Nodes\<close>

definition T :: nat where "T = 8"
definition B :: nat where "B = 2 * T - 1"
definition MAX_TREE_DEPTH :: nat where "MAX_TREE_DEPTH = 64"
definition NIL :: u32 where "NIL = - 1"

datatype BTreeError = Full | LayoutMismatch | InvalidConfig

record ('k, 'v) BTreeNode =
  nd_count :: nat
  nd_leaf :: bool
  nd_keys :: "'k list"
  nd_children :: "u32 list"
  nd_values :: "'v list"

record ('k, 'v) SharedBTreeMap =
  bm_root :: u32
  bm_node_count :: u32
  bm_capacity :: nat
  bm_len :: u64
  bm_free_head :: u32
  bm_version :: u64
  bm_node :: "u32 \<Rightarrow> ('k, 'v) BTreeNode"

definition bm_init_region :: "nat \<Rightarrow> 'k \<Rightarrow> 'v \<Rightarrow> ('k, 'v) SharedBTreeMap" where
  "bm_init_region capacity zero_key zero_value =
     \<lparr>bm_root = NIL, bm_node_count = 0, bm_capacity = capacity, bm_len = 0, bm_free_head = NIL, bm_version = 0,
      bm_node = (\<lambda>_. \<lparr>nd_count = 0, nd_leaf = False, nd_keys = replicate B zero_key,
        nd_children = replicate (B + 1) 0, nd_values = replicate B zero_value\<rparr>)\<rparr>"

definition bm_create :: "nat \<Rightarrow> 'k \<Rightarrow> 'v \<Rightarrow> BTreeError + ('k, 'v) SharedBTreeMap" where
  "bm_create capacity zero_key zero_value =
     (if capacity < 1 then Inl InvalidConfig else Inr (bm_init_region capacity zero_key zero_value))"

definition upd_node :: "u32 \<Rightarrow> (('k, 'v) BTreeNode \<Rightarrow> ('k, 'v) BTreeNode) \<Rightarrow> ('k, 'v) SharedBTreeMap \<Rightarrow> ('k, 'v) SharedBTreeMap" where
  "upd_node idx f m = m\<lparr>bm_node := (bm_node m)(idx := f (bm_node m idx))\<rparr>"

definition alloc_node :: "bool \<Rightarrow> ('k, 'v) SharedBTreeMap \<Rightarrow> (BTreeError + u32) \<times> ('k, 'v) SharedBTreeMap" where
  "alloc_node is_leaf m =
     (let free = bm_free_head m;
          (r, m) =
            (if free \<noteq> NIL then (Inr free, m\<lparr>bm_free_head := nd_children (bm_node m free) ! 0\<rparr>)
             else
               let idx = bm_node_count m; m = m\<lparr>bm_node_count := bm_node_count m + 1\<rparr>
               in if unat idx \<ge> bm_capacity m then (Inl Full, m\<lparr>bm_node_count := bm_node_count m - 1\<rparr>)
                  else (Inr idx, m))
      in case r of
           Inl e \<Rightarrow> (Inl e, m)
         | Inr idx \<Rightarrow>
             (Inr idx, upd_node idx (\<lambda>n. n\<lparr>nd_count := 0, nd_leaf := is_leaf, nd_children := replicate (B + 1) NIL\<rparr>) m))"

definition free_node :: "u32 \<Rightarrow> ('k, 'v) SharedBTreeMap \<Rightarrow> ('k, 'v) SharedBTreeMap" where
  "free_node idx m =
     (let head = bm_free_head m;
          m = upd_node idx (\<lambda>n. n\<lparr>nd_children := (nd_children n)[0 := head]\<rparr>) m
      in m\<lparr>bm_free_head := idx\<rparr>)"

definition begin_write :: "('k, 'v) SharedBTreeMap \<Rightarrow> ('k, 'v) SharedBTreeMap" where
  "begin_write m = m\<lparr>bm_version := bm_version m + 1\<rparr>"

definition end_write :: "('k, 'v) SharedBTreeMap \<Rightarrow> ('k, 'v) SharedBTreeMap" where
  "end_write m = m\<lparr>bm_version := bm_version m + 1\<rparr>"

text \<open>
  The loops that make room in an array, close a gap, and copy: from index \<open>j\<close> down to \<open>pos\<close> each entry takes its
  predecessor, from \<open>a\<close> up to \<open>b\<close> each takes its successor, and \<open>n\<close> entries go from one array to another.
\<close>

fun shift_up :: "'a list \<Rightarrow> nat \<Rightarrow> nat \<Rightarrow> 'a list" where
  "shift_up xs j pos = (if j > pos then shift_up (xs[j := xs ! (j - 1)]) (j - 1) pos else xs)"

definition shift_down :: "'a list \<Rightarrow> nat \<Rightarrow> nat \<Rightarrow> 'a list" where
  "shift_down xs a b = fold (\<lambda>j xs. xs[j := xs ! (j + 1)]) [a..<b] xs"

definition copy_to :: "'a list \<Rightarrow> nat \<Rightarrow> 'a list \<Rightarrow> nat \<Rightarrow> nat \<Rightarrow> 'a list" where
  "copy_to dst a src b n = fold (\<lambda>j dst. dst[a + j := src ! (b + j)]) [0..<n] dst"

declare shift_up.simps [simp del]

section \<open>Lookup\<close>

text \<open>The binary search within a node.\<close>

function search_loop :: "'k::linorder list \<Rightarrow> 'k \<Rightarrow> nat \<Rightarrow> nat \<Rightarrow> nat \<times> bool" where
  "search_loop keys key lo hi =
     (if lo < hi then
        let mid = (lo + hi) div 2; mk = keys ! mid
        in if mk < key then search_loop keys key (mid + 1) hi
           else if mk > key then search_loop keys key lo mid
           else (mid, True)
      else (lo, False))"
  by pat_completeness auto
termination
  by (relation "measure (\<lambda>(_, _, lo, hi). hi - lo)") auto

declare search_loop.simps [simp del]

definition bm_search :: "u32 \<Rightarrow> 'k::linorder \<Rightarrow> ('k, 'v) SharedBTreeMap \<Rightarrow> nat \<times> bool" where
  "bm_search idx key m =
     (let n = bm_node m idx; count = min (nd_count n) B in search_loop (nd_keys n) key 0 count)"

text \<open>The descent of a lookup: the value, and whether an index was out of range.\<close>

fun descend :: "nat \<Rightarrow> 'k::linorder \<Rightarrow> u32 \<Rightarrow> ('k, 'v) SharedBTreeMap \<Rightarrow> ('v option \<times> bool) option" where
  "descend 0 key idx m = None"
| "descend (Suc fuel) key idx m =
     (if idx = NIL then Some (None, False)
      else if idx \<ge> of_nat (bm_capacity m) then Some (None, True)
      else
        let (pos, found) = bm_search idx key m; n = bm_node m idx
        in if found then Some (Some (nd_values n ! pos), False)
           else if nd_leaf n then Some (None, False)
           else descend fuel key (nd_children n ! pos) m)"

definition bm_get_inner :: "'k::linorder \<Rightarrow> ('k, 'v) SharedBTreeMap \<Rightarrow> 'v option option" where
  "bm_get_inner key m =
     (if bit (bm_version m) 0 then None
      else case descend (Suc (bm_capacity m)) key (bm_root m) m of
             Some (result, torn) \<Rightarrow> if torn then None else Some result
           | None \<Rightarrow> None)"

definition bm_contains_key :: "'k::linorder \<Rightarrow> ('k, 'v) SharedBTreeMap \<Rightarrow> bool option" where
  "bm_contains_key key m = map_option (\<lambda>r. r \<noteq> None) (bm_get_inner key m)"

section \<open>Insertion\<close>

definition split_child :: "u32 \<Rightarrow> nat \<Rightarrow> ('k, 'v) SharedBTreeMap \<Rightarrow> (BTreeError + unit) \<times> ('k, 'v) SharedBTreeMap" where
  "split_child parent i m =
     (let full = nd_children (bm_node m parent) ! i; is_leaf = nd_leaf (bm_node m full)
      in case alloc_node is_leaf m of
           (Inl e, m) \<Rightarrow> (Inl e, m)
         | (Inr right, m) \<Rightarrow>
             let fp = bm_node m full;
                 m = upd_node right (\<lambda>rp. rp\<lparr>nd_keys := copy_to (nd_keys rp) 0 (nd_keys fp) T (T - 1),
                       nd_values := copy_to (nd_values rp) 0 (nd_values fp) T (T - 1),
                       nd_children := (if \<not> is_leaf then copy_to (nd_children rp) 0 (nd_children fp) T T else nd_children rp),
                       nd_count := T - 1, nd_leaf := is_leaf\<rparr>) m;
                 median_key = nd_keys fp ! (T - 1); median_value = nd_values fp ! (T - 1);
                 m = upd_node full (\<lambda>fp. fp\<lparr>nd_count := T - 1\<rparr>) m;
                 m = upd_node parent (\<lambda>pp. let pc = nd_count pp
                       in pp\<lparr>nd_children := (shift_up (nd_children pp) (pc + 1) (i + 1))[i + 1 := right],
                             nd_keys := (shift_up (nd_keys pp) pc i)[i := median_key],
                             nd_values := (shift_up (nd_values pp) pc i)[i := median_value],
                             nd_count := pc + 1\<rparr>) m
             in (Inr (), m))"

text \<open>An entry put in at a place of a leaf, and a value replaced.\<close>

definition leaf_insert :: "nat \<Rightarrow> 'k \<Rightarrow> 'v \<Rightarrow> ('k, 'v) BTreeNode \<Rightarrow> ('k, 'v) BTreeNode" where
  "leaf_insert pos key v n =
     (let count = nd_count n
      in n\<lparr>nd_keys := (shift_up (nd_keys n) count pos)[pos := key],
           nd_values := (shift_up (nd_values n) count pos)[pos := v], nd_count := count + 1\<rparr>)"

definition set_value :: "nat \<Rightarrow> 'v \<Rightarrow> ('k, 'v) BTreeNode \<Rightarrow> ('k, 'v) BTreeNode" where
  "set_value pos v n = n\<lparr>nd_values := (nd_values n)[pos := v]\<rparr>"

fun insert_nonfull ::
  "nat \<Rightarrow> u32 \<Rightarrow> 'k::linorder \<Rightarrow> 'v \<Rightarrow> ('k, 'v) SharedBTreeMap \<Rightarrow> ((BTreeError + 'v option) \<times> ('k, 'v) SharedBTreeMap) option" where
  "insert_nonfull 0 idx key v m = None"
| "insert_nonfull (Suc fuel) idx key v m =
     (let (pos, found) = bm_search idx key m; n = bm_node m idx
      in if found then Some (Inr (Some (nd_values n ! pos)), upd_node idx (set_value pos v) m)
         else if nd_leaf n then
           let m = upd_node idx (leaf_insert pos key v) m in Some (Inr None, m\<lparr>bm_len := bm_len m + 1\<rparr>)
         else
           let child = nd_children n ! pos
           in if nd_count (bm_node m child) = B then
                (case split_child idx pos m of
                   (Inl e, m) \<Rightarrow> Some (Inl e, m)
                 | (Inr _, m) \<Rightarrow>
                     let n = bm_node m idx; med = nd_keys n ! pos
                     in if key = med then Some (Inr (Some (nd_values n ! pos)), upd_node idx (set_value pos v) m)
                        else if key > med then insert_nonfull fuel (nd_children n ! (pos + 1)) key v m
                        else insert_nonfull fuel (nd_children n ! pos) key v m)
              else insert_nonfull fuel child key v m)"

definition bm_insert_inner ::
  "'k::linorder \<Rightarrow> 'v \<Rightarrow> ('k, 'v) SharedBTreeMap \<Rightarrow> ((BTreeError + 'v option) \<times> ('k, 'v) SharedBTreeMap) option" where
  "bm_insert_inner key v m =
     (let root = bm_root m
      in if root = NIL then
           (case alloc_node True m of
              (Inl e, m) \<Rightarrow> Some (Inl e, m)
            | (Inr r, m) \<Rightarrow>
                let m = upd_node r (\<lambda>n. n\<lparr>nd_keys := (nd_keys n)[0 := key], nd_values := (nd_values n)[0 := v], nd_count := 1\<rparr>) m
                in Some (Inr None, m\<lparr>bm_root := r, bm_len := bm_len m + 1\<rparr>))
         else if nd_count (bm_node m root) = B then
           (case alloc_node False m of
              (Inl e, m) \<Rightarrow> Some (Inl e, m)
            | (Inr new_root, m) \<Rightarrow>
                let m = upd_node new_root (\<lambda>n. n\<lparr>nd_children := (nd_children n)[0 := root], nd_count := 0\<rparr>) m
                in (case split_child new_root 0 m of
                      (Inl e, m) \<Rightarrow> Some (Inl e, m)
                    | (Inr _, m) \<Rightarrow> insert_nonfull (Suc (bm_capacity m)) new_root key v (m\<lparr>bm_root := new_root\<rparr>)))
         else insert_nonfull (Suc (bm_capacity m)) root key v m)"

definition bm_insert ::
  "'k::linorder \<Rightarrow> 'v \<Rightarrow> ('k, 'v) SharedBTreeMap \<Rightarrow> ((BTreeError + 'v option) \<times> ('k, 'v) SharedBTreeMap) option" where
  "bm_insert key v m = map_option (\<lambda>(r, m). (r, end_write m)) (bm_insert_inner key v (begin_write m))"

section \<open>Removal\<close>

definition borrow_from_left :: "u32 \<Rightarrow> nat \<Rightarrow> ('k, 'v) SharedBTreeMap \<Rightarrow> ('k, 'v) SharedBTreeMap" where
  "borrow_from_left parent i m =
     (let p = bm_node m parent; child = nd_children p ! i; left = nd_children p ! (i - 1); l = bm_node m left; lc = nd_count l;
          m = upd_node child (\<lambda>c. let cc = nd_count c; internal = \<not> nd_leaf c
                in c\<lparr>nd_keys := (shift_up (nd_keys c) cc 0)[0 := nd_keys p ! (i - 1)],
                     nd_values := (shift_up (nd_values c) cc 0)[0 := nd_values p ! (i - 1)],
                     nd_children := (if internal then (shift_up (nd_children c) (cc + 1) 0)[0 := nd_children l ! lc]
                                     else nd_children c),
                     nd_count := cc + 1\<rparr>) m;
          m = upd_node parent (\<lambda>p. p\<lparr>nd_keys := (nd_keys p)[i - 1 := nd_keys l ! (lc - 1)],
                nd_values := (nd_values p)[i - 1 := nd_values l ! (lc - 1)]\<rparr>) m
      in upd_node left (\<lambda>l. l\<lparr>nd_count := lc - 1\<rparr>) m)"

definition borrow_from_right :: "u32 \<Rightarrow> nat \<Rightarrow> ('k, 'v) SharedBTreeMap \<Rightarrow> ('k, 'v) SharedBTreeMap" where
  "borrow_from_right parent i m =
     (let p = bm_node m parent; child = nd_children p ! i; right = nd_children p ! (i + 1); r = bm_node m right; rc = nd_count r;
          internal = (\<not> nd_leaf (bm_node m child));
          m = upd_node child (\<lambda>c. let cc = nd_count c
                in c\<lparr>nd_keys := (nd_keys c)[cc := nd_keys p ! i], nd_values := (nd_values c)[cc := nd_values p ! i],
                     nd_children := (if internal then (nd_children c)[cc + 1 := nd_children r ! 0] else nd_children c),
                     nd_count := cc + 1\<rparr>) m;
          m = upd_node parent (\<lambda>p. p\<lparr>nd_keys := (nd_keys p)[i := nd_keys r ! 0],
                nd_values := (nd_values p)[i := nd_values r ! 0]\<rparr>) m
      in upd_node right (\<lambda>r. r\<lparr>nd_keys := shift_down (nd_keys r) 0 (rc - 1), nd_values := shift_down (nd_values r) 0 (rc - 1),
           nd_children := (if internal then shift_down (nd_children r) 0 rc else nd_children r), nd_count := rc - 1\<rparr>) m)"

definition merge_at :: "u32 \<Rightarrow> nat \<Rightarrow> ('k, 'v) SharedBTreeMap \<Rightarrow> ('k, 'v) SharedBTreeMap" where
  "merge_at parent i m =
     (let p = bm_node m parent; left = nd_children p ! i; right = nd_children p ! (i + 1); r = bm_node m right; rc = nd_count r;
          m = upd_node left (\<lambda>l. let lc = nd_count l; internal = \<not> nd_leaf l
                in l\<lparr>nd_keys := copy_to ((nd_keys l)[lc := nd_keys p ! i]) (lc + 1) (nd_keys r) 0 rc,
                     nd_values := copy_to ((nd_values l)[lc := nd_values p ! i]) (lc + 1) (nd_values r) 0 rc,
                     nd_children := (if internal then copy_to (nd_children l) (lc + 1) (nd_children r) 0 (rc + 1)
                                     else nd_children l),
                     nd_count := lc + 1 + rc\<rparr>) m;
          m = upd_node parent (\<lambda>p. let pc = nd_count p
                in p\<lparr>nd_keys := shift_down (nd_keys p) i (pc - 1), nd_values := shift_down (nd_values p) i (pc - 1),
                     nd_children := shift_down (nd_children p) (i + 1) pc, nd_count := pc - 1\<rparr>) m
      in free_node right m)"

definition ensure_min_degree :: "u32 \<Rightarrow> nat \<Rightarrow> ('k, 'v) SharedBTreeMap \<Rightarrow> u32 \<times> ('k, 'v) SharedBTreeMap" where
  "ensure_min_degree parent i m =
     (let p = bm_node m parent; child = nd_children p ! i; pcount = nd_count p
      in if nd_count (bm_node m child) \<ge> T then (child, m)
         else if i > 0 \<and> nd_count (bm_node m (nd_children p ! (i - 1))) \<ge> T then (child, borrow_from_left parent i m)
         else if i < pcount \<and> nd_count (bm_node m (nd_children p ! (i + 1))) \<ge> T then (child, borrow_from_right parent i m)
         else if i < pcount then let m = merge_at parent i m in (nd_children (bm_node m parent) ! i, m)
         else let m = merge_at parent (i - 1) m in (nd_children (bm_node m parent) ! (i - 1), m))"

fun max_pair :: "nat \<Rightarrow> u32 \<Rightarrow> ('k, 'v) SharedBTreeMap \<Rightarrow> ('k \<times> 'v) option" where
  "max_pair 0 idx m = None"
| "max_pair (Suc fuel) idx m =
     (let n = bm_node m idx; count = nd_count n
      in if nd_leaf n then Some (nd_keys n ! (count - 1), nd_values n ! (count - 1))
         else max_pair fuel (nd_children n ! count) m)"

fun min_pair :: "nat \<Rightarrow> u32 \<Rightarrow> ('k, 'v) SharedBTreeMap \<Rightarrow> ('k \<times> 'v) option" where
  "min_pair 0 idx m = None"
| "min_pair (Suc fuel) idx m =
     (let n = bm_node m idx
      in if nd_leaf n then Some (nd_keys n ! 0, nd_values n ! 0) else min_pair fuel (nd_children n ! 0) m)"

text \<open>An entry of a node replaced, and one taken out of a leaf.\<close>

definition set_entry :: "nat \<Rightarrow> 'k \<times> 'v \<Rightarrow> ('k, 'v) BTreeNode \<Rightarrow> ('k, 'v) BTreeNode" where
  "set_entry pos e n = n\<lparr>nd_keys := (nd_keys n)[pos := fst e], nd_values := (nd_values n)[pos := snd e]\<rparr>"

definition leaf_remove :: "nat \<Rightarrow> ('k, 'v) BTreeNode \<Rightarrow> ('k, 'v) BTreeNode" where
  "leaf_remove pos n =
     (let count = nd_count n
      in n\<lparr>nd_keys := shift_down (nd_keys n) pos (count - 1), nd_values := shift_down (nd_values n) pos (count - 1),
           nd_count := count - 1\<rparr>)"

fun delete_from :: "nat \<Rightarrow> u32 \<Rightarrow> 'k::linorder \<Rightarrow> ('k, 'v) SharedBTreeMap \<Rightarrow> ('v option \<times> ('k, 'v) SharedBTreeMap) option" where
  "delete_from 0 idx key m = None"
| "delete_from (Suc fuel) idx key m =
     (let (pos, found) = bm_search idx key m; n = bm_node m idx
      in if found then
           let old = nd_values n ! pos
           in map_option (\<lambda>m. (Some old, m))
             (if nd_leaf n then Some (upd_node idx (leaf_remove pos) m)
              else
                let left = nd_children n ! pos; right = nd_children n ! (pos + 1)
                in if nd_count (bm_node m left) \<ge> T then
                     (case max_pair fuel left m of
                        None \<Rightarrow> None
                      | Some e \<Rightarrow> map_option snd (delete_from fuel left (fst e) (upd_node idx (set_entry pos e) m)))
                   else if nd_count (bm_node m right) \<ge> T then
                     (case min_pair fuel right m of
                        None \<Rightarrow> None
                      | Some e \<Rightarrow> map_option snd (delete_from fuel right (fst e) (upd_node idx (set_entry pos e) m)))
                   else map_option snd (delete_from fuel left key (merge_at idx pos m)))
         else if nd_leaf n then Some (None, m)
         else case ensure_min_degree idx pos m of (child, m) \<Rightarrow> delete_from fuel child key m)"

definition bm_remove_inner :: "'k::linorder \<Rightarrow> ('k, 'v) SharedBTreeMap \<Rightarrow> ('v option \<times> ('k, 'v) SharedBTreeMap) option" where
  "bm_remove_inner key m =
     (let root = bm_root m
      in if root = NIL then Some (None, m)
         else case delete_from (Suc (bm_capacity m)) root key m of
             None \<Rightarrow> None
           | Some (removed, m) \<Rightarrow>
               let rn = bm_node m root;
                   m = (if nd_count rn = 0
                        then free_node root (m\<lparr>bm_root := (if nd_leaf rn then NIL else nd_children rn ! 0)\<rparr>)
                        else m)
               in Some (removed, if removed \<noteq> None then m\<lparr>bm_len := bm_len m - 1\<rparr> else m))"

definition bm_remove :: "'k::linorder \<Rightarrow> ('k, 'v) SharedBTreeMap \<Rightarrow> ('v option \<times> ('k, 'v) SharedBTreeMap) option" where
  "bm_remove key m = map_option (\<lambda>(r, m). (r, end_write m)) (bm_remove_inner key (begin_write m))"

section \<open>Ordered access\<close>

definition bm_first :: "('k, 'v) SharedBTreeMap \<Rightarrow> ('k \<times> 'v) option option" where
  "bm_first m = (if bm_root m = NIL then Some None else map_option Some (min_pair (Suc (bm_capacity m)) (bm_root m) m))"

datatype 'k Bound = Included 'k | Excluded 'k | Unbounded

fun low_admits_below :: "'k::linorder \<Rightarrow> 'k Bound \<Rightarrow> bool" where
  "low_admits_below k Unbounded = True"
| "low_admits_below k (Included l) = (k > l)"
| "low_admits_below k (Excluded l) = (k > l)"

fun at_or_above_low :: "'k::linorder \<Rightarrow> 'k Bound \<Rightarrow> bool" where
  "at_or_above_low k Unbounded = True"
| "at_or_above_low k (Included l) = (k \<ge> l)"
| "at_or_above_low k (Excluded l) = (k > l)"

fun above_high :: "'k::linorder \<Rightarrow> 'k Bound \<Rightarrow> bool" where
  "above_high k Unbounded = False"
| "above_high k (Included hi) = (k > hi)"
| "above_high k (Excluded hi) = (k \<ge> hi)"

text \<open>The in-order walk of a range; its state is the output and the flags \<open>torn\<close> and \<open>stop\<close>.\<close>

type_synonym ('k, 'v) walk_state = "('k \<times> 'v) list \<times> bool \<times> bool"

fun walk_range :: "nat \<Rightarrow> u32 \<Rightarrow> 'k::linorder Bound \<Rightarrow> 'k Bound \<Rightarrow> nat \<Rightarrow> ('k, 'v) SharedBTreeMap \<Rightarrow> ('k, 'v) walk_state \<Rightarrow> ('k, 'v) walk_state" where
  "walk_range 0 idx low high limit m (out, torn, stop) = (if torn \<or> stop then (out, torn, stop) else (out, True, stop))"
| "walk_range (Suc depth) idx low high limit m (out, torn, stop) =
     (if torn \<or> stop then (out, torn, stop)
      else if idx \<ge> of_nat (bm_capacity m) then (out, True, stop)
      else
        let n = bm_node m idx; count = min (nd_count n) B; is_leaf = nd_leaf n;
            (out, torn, stop) = fold (\<lambda>i (out, torn, stop).
                if torn \<or> stop then (out, torn, stop)
                else
                  let k = nd_keys n ! i;
                      (out, torn, stop) =
                        (if \<not> is_leaf \<and> low_admits_below k low
                         then walk_range depth (nd_children n ! i) low high limit m (out, torn, stop) else (out, torn, stop))
                  in if torn \<or> stop then (out, torn, stop)
                     else if above_high k high then (out, torn, True)
                     else if at_or_above_low k low
                       then let out = out @ [(k, nd_values n ! i)] in (out, torn, length out \<ge> limit)
                     else (out, torn, stop))
              [0..<count] (out, torn, stop)
        in if torn \<or> stop then (out, torn, stop)
           else if \<not> is_leaf then walk_range depth (nd_children n ! count) low high limit m (out, torn, stop)
           else (out, torn, stop))"

definition bm_range :: "'k::linorder Bound \<Rightarrow> 'k Bound \<Rightarrow> nat \<Rightarrow> ('k, 'v) SharedBTreeMap \<Rightarrow> ('k \<times> 'v) list option" where
  "bm_range low high limit m =
     (if limit = 0 then Some []
      else if bit (bm_version m) 0 then None
      else
        let (out, torn, stop) =
              (if bm_root m \<noteq> NIL then walk_range MAX_TREE_DEPTH (bm_root m) low high limit m ([], False, False)
               else ([], False, False))
        in if torn then None else Some out)"

fun walk :: "nat \<Rightarrow> u32 \<Rightarrow> ('k, 'v) SharedBTreeMap \<Rightarrow> ('k \<times> 'v) list \<Rightarrow> ('k \<times> 'v) list option" where
  "walk 0 idx m out = None"
| "walk (Suc fuel) idx m out =
     (let n = bm_node m idx; count = nd_count n; is_leaf = nd_leaf n;
          res = fold (\<lambda>i res. case res of
                    None \<Rightarrow> None
                  | Some out \<Rightarrow> map_option (\<lambda>out. out @ [(nd_keys n ! i, nd_values n ! i)])
                      (if \<not> is_leaf then walk fuel (nd_children n ! i) m out else Some out))
                [0..<count] (Some out)
      in case res of None \<Rightarrow> None | Some out \<Rightarrow> if \<not> is_leaf then walk fuel (nd_children n ! count) m out else Some out)"

definition iter_ascending :: "('k, 'v) SharedBTreeMap \<Rightarrow> ('k \<times> 'v) list option" where
  "iter_ascending m = (if bm_root m \<noteq> NIL then walk (Suc (bm_capacity m)) (bm_root m) m [] else Some [])"

end
