(* ===== verification/Btree_Nodes.thy ===== *)
theory Btree_Nodes
  imports Shared_Btree_Map
begin

text \<open>
  What the arrays of a B-tree node hold: the entries and, for an inner node, the indices of its children. The loops
  of the operations insert, remove and copy list segments, and the binary search finds the place of a key.
\<close>

section \<open>Array loops\<close>

lemma shift_up_length [simp]: "length (shift_up xs j pos) = length xs"
  by (induction xs j pos rule: shift_up.induct) (subst shift_up.simps, simp)

lemma shift_up_insert:
  assumes "j < length xs" "pos \<le> j"
  shows "take (Suc j) ((shift_up xs j pos)[pos := x]) = take pos xs @ x # drop pos (take j xs)"
  using assms
proof (induction xs j pos rule: shift_up.induct)
  case (1 xs j pos)
  show ?case
  proof (cases "j > pos")
    case True
    define ys where "ys = xs[j := xs ! (j - 1)]"
    have l: "length (shift_up ys (j - 1) pos) = length xs" by (simp add: ys_def)
    have IH: "take j ((shift_up ys (j - 1) pos)[pos := x]) = take pos ys @ x # drop pos (take (j - 1) ys)"
      using 1 True by (simp add: ys_def)
    have keep: "shift_up ys k pos ! j = ys ! j" if "k < j" for k
      using that
    proof (induction ys k pos rule: shift_up.induct)
      case (1 ys k pos)
      then show ?case by (subst shift_up.simps) simp
    qed
    have "(shift_up ys (j - 1) pos)[pos := x] ! j = xs ! (j - 1)" using keep [of "j - 1"] True 1(2) l by (simp add: ys_def)
    then have "take (Suc j) ((shift_up ys (j - 1) pos)[pos := x]) = (take pos ys @ x # drop pos (take (j - 1) ys)) @ [xs ! (j - 1)]"
      using IH l 1(2) by (simp add: take_Suc_conv_app_nth)
    also have "\<dots> = take pos xs @ x # drop pos (take (j - 1) xs @ [xs ! (j - 1)])" using True 1(2) by (simp add: ys_def)
    also have "take (j - 1) xs @ [xs ! (j - 1)] = take j xs" using True 1(2) take_Suc_conv_app_nth [of "j - 1" xs] by simp
    finally show ?thesis using True by (subst shift_up.simps) (simp add: ys_def)
  next
    case False
    with 1(3) have "j = pos" by simp
    then show ?thesis using 1(2) by (subst shift_up.simps) (simp add: take_Suc_conv_app_nth)
  qed
qed

lemma shift_down_length [simp]: "length (shift_down xs a b) = length xs"
  unfolding shift_down_def by (rule fold_invariant [where P = "\<lambda>ys. length ys = length xs" and Q = "\<lambda>_. True"]) simp_all

lemma shift_down_nth: "b < length xs \<Longrightarrow> i < length xs \<Longrightarrow> shift_down xs a b ! i = (if a \<le> i \<and> i < b then xs ! Suc i else xs ! i)"
proof (induction b arbitrary: i)
  case (Suc b)
  show ?case
  proof (cases "a \<le> b")
    case True
    then have "shift_down xs a (Suc b) = (shift_down xs a b)[b := shift_down xs a b ! Suc b]" by (simp add: shift_down_def)
    with Suc True show ?thesis by (auto simp: nth_list_update less_Suc_eq)
  qed (auto simp: shift_down_def)
qed (simp add: shift_down_def)

lemma shift_down_remove:
  assumes "pos \<le> n" "n < length xs"
  shows "take n (shift_down xs pos n) = take pos xs @ drop (Suc pos) (take (Suc n) xs)"
  using assms by (intro nth_equalityI) (auto simp: shift_down_nth nth_append min_def)

lemma copy_to_append:
  assumes "a + n \<le> length dst" "b + n \<le> length src"
  shows "copy_to dst a src b n = take a dst @ take n (drop b src) @ drop (a + n) dst"
  using assms
proof (induction n)
  case (Suc n)
  have "copy_to dst a src b (Suc n) = (copy_to dst a src b n)[a + n := src ! (b + n)]" by (simp add: copy_to_def)
  also have "\<dots> = (take a dst @ take n (drop b src) @ drop (a + n) dst)[a + n := src ! (b + n)]" using Suc by simp
  also have "\<dots> = take a dst @ take n (drop b src) @ src ! (b + n) # drop (Suc (a + n)) dst"
    using Suc.prems by (simp add: list_update_append Cons_nth_drop_Suc [symmetric])
  also have "\<dots> = take a dst @ take (Suc n) (drop b src) @ drop (a + Suc n) dst"
    using Suc.prems by (simp add: take_Suc_conv_app_nth)
  finally show ?case .
qed (simp add: copy_to_def)

lemma copy_to_length [simp]: "length (copy_to dst a src b n) = length dst"
  unfolding copy_to_def by (rule fold_invariant [where P = "\<lambda>ys. length ys = length dst" and Q = "\<lambda>_. True"]) simp_all

section \<open>Binary search\<close>

lemma search_loop_ok:
  assumes "sorted_wrt (<) ks" "take (length ks) keys = ks"
  shows "search_loop keys key lo hi = (pos, found) \<Longrightarrow> hi \<le> length ks \<Longrightarrow> lo \<le> hi \<Longrightarrow>
    \<forall>j<lo. ks ! j < key \<Longrightarrow> \<forall>j<length ks. hi \<le> j \<longrightarrow> key < ks ! j \<Longrightarrow>
    if found then pos < length ks \<and> ks ! pos = key
    else pos \<le> length ks \<and> (\<forall>j<pos. ks ! j < key) \<and> (\<forall>j<length ks. pos \<le> j \<longrightarrow> key < ks ! j)"
  using assms(2)
proof (induction keys key lo hi rule: search_loop.induct)
  case (1 keys key lo hi)
  let ?mid = "(lo + hi) div 2"
  have mono: "i < j \<Longrightarrow> j < length ks \<Longrightarrow> ks ! i < ks ! j" for i j using assms(1) by (simp add: sorted_wrt_nth_less)
  have key: "lo < hi \<Longrightarrow> keys ! ?mid = ks ! ?mid" using 1(4) nth_take [of ?mid "length ks" keys] 1(8) by simp
  note loop = 1(3) [unfolded search_loop.simps [of keys key lo hi] Let_def]
  show ?case
  proof (cases "lo < hi")
    case True
    have mid: "?mid < length ks" "lo \<le> ?mid" "?mid < hi" using True 1(4) by auto
    consider "ks ! ?mid < key" | "key < ks ! ?mid" | "ks ! ?mid = key" by (rule linorder_cases)
    then show ?thesis
    proof cases
      case 1
      have "ks ! j < key" if "j < ?mid + 1" for j
        using that 1 mono [of j ?mid] mid by (cases "j = ?mid") auto
      then show ?thesis using "1.IH"(1) [OF True refl refl] "1.prems" loop 1 True key mid by simp
    next
      case 2
      have "key < ks ! j" if "j < length ks" "?mid \<le> j" for j
        using that 2 mono [of ?mid j] by (cases "j = ?mid") auto
      then show ?thesis using "1.IH"(2) [OF True refl refl] "1.prems" loop 2 less_not_sym [OF 2] True key mid by simp
    next
      case 3
      then show ?thesis using loop True key mid by auto
    qed
  next
    case False
    with loop have "pos = lo" "\<not> found" by simp_all
    with False 1(4-7) show ?thesis by simp
  qed
qed

section \<open>The contents of a node\<close>

text \<open>\<open>node_has n es cs\<close>: the node has the entries \<open>es\<close> and the children \<open>cs\<close>, none for a leaf.\<close>

definition arrays_ok :: "('k, 'v) BTreeNode \<Rightarrow> bool" where
  "arrays_ok n \<longleftrightarrow> length (nd_keys n) = B \<and> length (nd_values n) = B \<and> length (nd_children n) = B + 1"

definition node_has :: "('k, 'v) BTreeNode \<Rightarrow> ('k \<times> 'v) list \<Rightarrow> u32 list \<Rightarrow> bool" where
  "node_has n es cs \<longleftrightarrow> arrays_ok n \<and> nd_count n = length es \<and> length es \<le> B \<and>
     take (length es) (nd_keys n) = map fst es \<and> take (length es) (nd_values n) = map snd es \<and>
     (nd_leaf n \<longleftrightarrow> cs = []) \<and> (cs \<noteq> [] \<longrightarrow> length cs = Suc (length es) \<and> take (length cs) (nd_children n) = cs)"

lemma node_has_nth:
  assumes "node_has n es cs"
  shows "i < length es \<Longrightarrow> nd_keys n ! i = fst (es ! i)" "i < length es \<Longrightarrow> nd_values n ! i = snd (es ! i)"
    "i < length cs \<Longrightarrow> nd_children n ! i = cs ! i"
proof -
  show "i < length es \<Longrightarrow> nd_keys n ! i = fst (es ! i)" "i < length es \<Longrightarrow> nd_values n ! i = snd (es ! i)"
    using assms nth_take [of i "length es" "nd_keys n"] nth_take [of i "length es" "nd_values n"] by (auto simp: node_has_def)
  show "i < length cs \<Longrightarrow> nd_children n ! i = cs ! i"
    using assms nth_take [of i "length cs" "nd_children n"] by (cases "cs = []") (auto simp: node_has_def)
qed

lemma bm_search_ok:
  assumes "node_has (bm_node m idx) es cs" "sorted_wrt (<) (map fst es)" "bm_search idx key m = (pos, found)"
  shows "if found then pos < length es \<and> fst (es ! pos) = key
    else pos \<le> length es \<and> (\<forall>e\<in>set (take pos es). fst e < key) \<and> (\<forall>e\<in>set (drop pos es). key < fst e)"
proof -
  have "if found then pos < length (map fst es) \<and> map fst es ! pos = key
    else pos \<le> length (map fst es) \<and> (\<forall>j<pos. map fst es ! j < key) \<and> (\<forall>j<length (map fst es). pos \<le> j \<longrightarrow> key < map fst es ! j)"
    using assms by (intro search_loop_ok [of "map fst es" "nd_keys (bm_node m idx)" key 0 "length es"]) (auto simp: node_has_def bm_search_def)
  then show ?thesis by (auto simp: in_set_conv_nth split: if_splits) (metis fst_conv, metis fst_conv le_add1 less_diff_conv add.commute)
qed

text \<open>The operations on one node.\<close>

lemmas node_defs = node_has_def arrays_ok_def

lemma take_map_split: "take n xs = map f es \<Longrightarrow> n = length es \<Longrightarrow> pos \<le> n \<Longrightarrow> take pos xs = map f (take pos es)"
  by (metis take_map take_take min.absorb1)

lemma take_update_before: "take n xs = ys \<Longrightarrow> n \<le> pos \<Longrightarrow> take n (xs[pos := x]) = ys"
  by simp

lemma insert_at:
  assumes "take (length es) xs = map f es" "pos \<le> length es" "length es < length xs"
  shows "take (Suc (length es)) ((shift_up xs (length es) pos)[pos := x]) = map f (take pos es) @ x # map f (drop pos es)"
  using shift_up_insert [of "length es" xs pos x] assms take_map_split [OF assms(1) refl assms(2)] by (simp add: drop_map)

lemma leaf_insert_has:
  assumes "node_has n es []" "pos \<le> length es" "length es < B"
  shows "node_has (leaf_insert pos k v n) (take pos es @ (k, v) # drop pos es) []"
proof -
  have "take (Suc (length es)) ((shift_up (nd_keys n) (length es) pos)[pos := k]) = map fst (take pos es) @ k # map fst (drop pos es)"
    "take (Suc (length es)) ((shift_up (nd_values n) (length es) pos)[pos := v]) = map snd (take pos es) @ v # map snd (drop pos es)"
    using assms by (intro insert_at; simp add: node_defs)+
  moreover have "length (take pos es @ (k, v) # drop pos es) = Suc (length es)" using assms(2) by simp
  ultimately show ?thesis using assms unfolding node_defs leaf_insert_def Let_def by (simp del: length_append)
qed

lemma set_value_has:
  assumes "node_has n es cs" "pos < length es"
  shows "node_has (set_value pos v n) (es[pos := (fst (es ! pos), v)]) cs"
proof -
  have "map fst (es[pos := (fst (es ! pos), v)]) = map fst es" using assms(2) by (simp add: map_update list_update_same_conv)
  with assms show ?thesis by (auto simp: node_defs set_value_def map_update take_update_swap)
qed

lemma set_entry_has:
  assumes "node_has n es cs" "pos < length es"
  shows "node_has (set_entry pos e n) (es[pos := e]) cs"
  using assms by (auto simp: node_defs set_entry_def map_update take_update_swap)

lemma drop_at:
  assumes "take (length es) xs = map f es" "pos < length es" "length es \<le> length xs"
  shows "take (length es - 1) (shift_down xs pos (length es - 1)) = map f (take pos es) @ map f (drop (Suc pos) es)"
proof -
  have "take (length es - 1) (shift_down xs pos (length es - 1)) = take pos xs @ drop (Suc pos) (take (length es) xs)"
    using shift_down_remove [of pos "length es - 1" xs] assms(2,3) by (cases es) simp_all
  then show ?thesis using assms take_map_split [OF assms(1) refl, of pos] by (simp add: drop_map)
qed

lemma leaf_remove_has:
  assumes "node_has n es []" "pos < length es"
  shows "node_has (leaf_remove pos n) (take pos es @ drop (Suc pos) es) []"
proof -
  have "take (length es - 1) (shift_down (nd_keys n) pos (length es - 1)) = map fst (take pos es) @ map fst (drop (Suc pos) es)"
    "take (length es - 1) (shift_down (nd_values n) pos (length es - 1)) = map snd (take pos es) @ map snd (drop (Suc pos) es)"
    using assms by (intro drop_at; simp add: node_defs)+
  moreover have "length (take pos es @ drop (Suc pos) es) = length es - 1" using assms(2) by simp
  ultimately show ?thesis using assms by (auto simp: node_defs leaf_remove_def Let_def)
qed

end
