(* ===== verification/Btree_Trees.thy ===== *)
theory Btree_Trees
  imports Btree_Nodes "HOL-Library.Multiset"
begin

text \<open>
  The trees that the node array holds. A tree records the index of each node with its entries and subtrees;
  \<open>owns\<close> says that a tree and the free list lie in the array without overlap, \<open>moves\<close> that an operation turned one
  tree into another and touched nothing but their nodes, unused ones and fresh ones. What a tree means is its
  entries in order, an ordered map.
\<close>

section \<open>Trees\<close>

datatype ('k, 'v) tree = Nd (ix: u32) (ents: "('k \<times> 'v) list") (kids: "('k, 'v) tree list")

fun ixs :: "('k, 'v) tree \<Rightarrow> u32 list" where
  "ixs (Nd i es ks) = i # concat (map ixs ks)"

fun holds_tree :: "('k, 'v) SharedBTreeMap \<Rightarrow> ('k, 'v) tree \<Rightarrow> bool" where
  "holds_tree m (Nd i es ks) \<longleftrightarrow> node_has (bm_node m i) es (map ix ks) \<and> (\<forall>k\<in>set ks. holds_tree m k)"

text \<open>Every leaf is \<open>h\<close> levels down, no node has too many entries, and none but the root too few.\<close>

fun tree_wf :: "nat \<Rightarrow> ('k, 'v) tree \<Rightarrow> bool" where
  "tree_wf 0 (Nd i es ks) \<longleftrightarrow> ks = [] \<and> length es \<le> B"
| "tree_wf (Suc h) (Nd i es ks) \<longleftrightarrow> length es \<le> B \<and> length ks = Suc (length es) \<and> (\<forall>k\<in>set ks. tree_wf h k \<and> T - 1 \<le> length (ents k))"

lemma ix_ixs: "ix t \<in> set (ixs t)"
  by (cases t) simp

lemma holds_ents: "holds_tree m t \<Longrightarrow> node_has (bm_node m (ix t)) (ents t) (map ix (kids t))"
  by (cases t) simp

lemma holds_frame: "holds_tree m t \<Longrightarrow> \<forall>j\<in>set (ixs t). bm_node m' j = bm_node m j \<Longrightarrow> holds_tree m' t"
proof (induction t)
  case (Nd i es ks)
  have "holds_tree m' k" if "k \<in> set ks" for k using Nd.IH [OF that] Nd.prems that by simp
  with Nd.prems show ?case by simp
qed

section \<open>Ownership\<close>

fun chain :: "(u32 \<Rightarrow> ('k, 'v) BTreeNode) \<Rightarrow> u32 \<Rightarrow> u32 list \<Rightarrow> bool" where
  "chain nodes p [] \<longleftrightarrow> p = NIL"
| "chain nodes p (x # xs) \<longleftrightarrow> p = x \<and> x \<noteq> NIL \<and> chain nodes (nd_children (nodes x) ! 0) xs"

lemma chain_frame: "chain nodes p fl \<Longrightarrow> \<forall>j\<in>set fl. nodes' j = nodes j \<Longrightarrow> chain nodes' p fl"
  by (induction fl arbitrary: p) auto

text \<open>The nodes in no tree: the free list runs through allocated nodes, the rest lie beyond the count.\<close>

definition idle :: "('k, 'v) SharedBTreeMap \<Rightarrow> u32 list \<Rightarrow> bool" where
  "idle m fl \<longleftrightarrow> chain (bm_node m) (bm_free_head m) fl \<and> distinct fl \<and> (\<forall>i\<in>set fl. i < bm_node_count m) \<and>
     (\<forall>i. arrays_ok (bm_node m i)) \<and> unat (bm_node_count m) \<le> bm_capacity m \<and> bm_capacity m < 2 ^ 32"

definition owns :: "('k, 'v) SharedBTreeMap \<Rightarrow> ('k, 'v) tree \<Rightarrow> u32 list \<Rightarrow> bool" where
  "owns m t fl \<longleftrightarrow> holds_tree m t \<and> chain (bm_node m) (bm_free_head m) fl \<and> distinct (ixs t @ fl) \<and>
     (\<forall>i\<in>set (ixs t @ fl). i < bm_node_count m) \<and> (\<forall>i. arrays_ok (bm_node m i)) \<and>
     unat (bm_node_count m) \<le> bm_capacity m \<and> bm_capacity m < 2 ^ 32"

lemma owns_idle:
  "owns m t fl \<longleftrightarrow> holds_tree m t \<and> idle m fl \<and> distinct (ixs t) \<and> set (ixs t) \<inter> set fl = {} \<and> (\<forall>i\<in>set (ixs t). i < bm_node_count m)"
  by (auto simp: owns_def idle_def)

definition moves ::
  "('k, 'v) SharedBTreeMap \<Rightarrow> ('k, 'v) tree \<Rightarrow> u32 list \<Rightarrow> ('k, 'v) SharedBTreeMap \<Rightarrow> ('k, 'v) tree \<Rightarrow> u32 list \<Rightarrow> bool" where
  "moves m t fl m' t' fl' \<longleftrightarrow> owns m' t' fl' \<and> ix t' = ix t \<and> bm_root m' = bm_root m \<and> bm_version m' = bm_version m \<and>
     bm_capacity m' = bm_capacity m \<and> bm_node_count m \<le> bm_node_count m' \<and>
     (\<forall>j. j < bm_node_count m \<and> j \<notin> set (ixs t @ fl) \<longrightarrow> bm_node m' j = bm_node m j) \<and>
     (\<forall>j\<in>set (ixs t' @ fl'). j \<in> set (ixs t @ fl) \<or> bm_node_count m \<le> j)"

lemma moves_refl: "owns m t fl \<Longrightarrow> moves m t fl m t fl"
  by (simp add: moves_def)

lemma moves_trans:
  assumes "moves m t fl m' t' fl'" "moves m' t' fl' m'' t'' fl''"
  shows "moves m t fl m'' t'' fl''"
proof -
  have "bm_node m'' j = bm_node m j" if "j < bm_node_count m" "j \<notin> set (ixs t @ fl)" for j
  proof -
    have "j \<notin> set (ixs t' @ fl')" "j < bm_node_count m'" using that assms(1) unfolding moves_def by (auto dest: leD)
    then have "bm_node m'' j = bm_node m' j" using assms(2) unfolding moves_def by blast
    with that assms(1) show ?thesis unfolding moves_def by metis
  qed
  moreover have "j \<in> set (ixs t @ fl) \<or> bm_node_count m \<le> j" if "j \<in> set (ixs t'' @ fl'')" for j
  proof -
    have "j \<in> set (ixs t' @ fl') \<or> bm_node_count m' \<le> j" using that assms(2) unfolding moves_def by blast
    moreover have "bm_node_count m \<le> bm_node_count m'" using assms(1) by (simp add: moves_def)
    ultimately show ?thesis using assms(1) unfolding moves_def by (metis order_trans)
  qed
  ultimately show ?thesis using assms unfolding moves_def by auto
qed

lemma owns_not_NIL: "owns m t fl \<Longrightarrow> i \<in> set (ixs t @ fl) \<Longrightarrow> i \<noteq> NIL"
  unfolding owns_def NIL_def by (metis word_order.extremum_strict linorder_not_less word_order.extremum)

text \<open>The nodes of a tree beside those of one of its subtrees.\<close>

abbreviation beside :: "u32 \<Rightarrow> ('k, 'v) tree list \<Rightarrow> ('k, 'v) tree list \<Rightarrow> u32 list" where
  "beside i ks ks' \<equiv> i # concat (map ixs ks) @ concat (map ixs ks')"

lemma distinct_swap:
  "distinct (i # xs @ ys @ zs @ fl) \<Longrightarrow> distinct (ys' @ fl') \<Longrightarrow> \<forall>j\<in>set (i # xs @ zs). j \<notin> set (ys' @ fl') \<Longrightarrow>
    distinct (i # xs @ ys' @ zs @ fl')"
  by auto

lemma owns_child:
  assumes "owns m (Nd i es (ks @ c # ks')) fl"
  shows "owns m c fl" "\<forall>j\<in>set (beside i ks ks'). j \<notin> set (ixs c @ fl) \<and> j < bm_node_count m"
proof -
  have *: "distinct (i # xs @ ys @ zs @ fl) \<Longrightarrow> distinct (ys @ fl) \<and> (\<forall>j\<in>set (i # xs @ zs). j \<notin> set (ys @ fl))" for xs ys zs :: "u32 list"
    by auto
  show "owns m c fl" "\<forall>j\<in>set (beside i ks ks'). j \<notin> set (ixs c @ fl) \<and> j < bm_node_count m"
    using assms * [of "concat (map ixs ks)" "ixs c" "concat (map ixs ks')"] by (auto simp: owns_def)
qed

lemma moves_child:
  assumes "owns m (Nd i es (ks @ c # ks')) fl" "moves m c fl m' c' fl'"
  shows "moves m (Nd i es (ks @ c # ks')) fl m' (Nd i es (ks @ c' # ks')) fl'"
proof -
  note c = owns_child [OF assms(1)]
  have own': "owns m' c' fl'" and ix: "ix c' = ix c" and nc: "bm_node_count m \<le> bm_node_count m'"
    and new: "\<forall>j\<in>set (ixs c' @ fl'). j \<in> set (ixs c @ fl) \<or> bm_node_count m \<le> j"
    using assms(2) by (auto simp: moves_def)
  have same: "bm_node m' j = bm_node m j" if "j \<in> set (beside i ks ks')" for j
    using that c(2) assms(2) unfolding moves_def by blast
  have "holds_tree m' k" if "k \<in> set (ks @ ks')" for k
  proof -
    have "holds_tree m k" using that assms(1) by (auto simp: owns_def)
    then show ?thesis using same that by (auto intro: holds_frame)
  qed
  moreover have "bm_node m' i = bm_node m i" using same by simp
  ultimately have "holds_tree m' (Nd i es (ks @ c' # ks'))" using assms(1) own' ix by (auto simp: owns_def)
  moreover have "\<forall>j\<in>set (beside i ks ks'). j \<notin> set (ixs c' @ fl')" using c(2) new by (meson leD)
  then have "distinct (ixs (Nd i es (ks @ c' # ks')) @ fl')"
    using assms(1) own' distinct_swap [of i "concat (map ixs ks)" "ixs c" "concat (map ixs ks')" fl "ixs c'" fl'] by (simp add: owns_def)
  moreover have "j < bm_node_count m'" if "j \<in> set (beside i ks ks')" for j using that c(2) nc by (meson less_le_trans)
  then have "\<forall>j\<in>set (ixs (Nd i es (ks @ c' # ks')) @ fl'). j < bm_node_count m'" using own' by (auto simp: owns_def)
  ultimately have "owns m' (Nd i es (ks @ c' # ks')) fl'" using own' by (simp add: owns_def)
  moreover have "bm_node m' j = bm_node m j" if "j < bm_node_count m" "j \<notin> set (ixs (Nd i es (ks @ c # ks')) @ fl)" for j
    using that assms(2) by (simp add: moves_def)
  moreover have "j \<in> set (ixs (Nd i es (ks @ c # ks')) @ fl) \<or> bm_node_count m \<le> j"
    if "j \<in> set (ixs (Nd i es (ks @ c' # ks')) @ fl')" for j
    using that new by auto
  ultimately show ?thesis using assms(2) unfolding moves_def by simp
qed

text \<open>A change of the root node alone.\<close>

lemma moves_node:
  assumes "owns m (Nd i es ks) fl" "node_has (f (bm_node m i)) es' (map ix ks)"
  shows "moves m (Nd i es ks) fl (upd_node i f m) (Nd i es' ks) fl"
proof -
  have "holds_tree (upd_node i f m) k" if "k \<in> set ks" for k
    using that assms(1) by (rule_tac holds_frame [of m k]) (auto simp: owns_def upd_node_def)
  moreover have "chain (bm_node (upd_node i f m)) (bm_free_head m) fl"
    using assms(1) by (rule_tac chain_frame [of "bm_node m"]) (auto simp: owns_def upd_node_def)
  ultimately have "owns (upd_node i f m) (Nd i es' ks) fl" using assms unfolding owns_def
    by (auto simp: upd_node_def node_has_def)
  then show ?thesis by (auto simp: moves_def upd_node_def)
qed

text \<open>A rearrangement of the nodes, with some new ones.\<close>

lemma owns_rewire:
  assumes "owns m t fl" "mset (ixs t' @ fl') = mset (ixs t @ fl @ new)" "distinct new"
    and "\<forall>j\<in>set new. j \<notin> set (ixs t @ fl) \<and> j < bm_node_count m'"
    and "holds_tree m' t'" "chain (bm_node m') (bm_free_head m') fl'" "\<forall>j. arrays_ok (bm_node m' j)"
    and "bm_node_count m' = bm_node_count m" "bm_capacity m' = bm_capacity m"
  shows "owns m' t' fl'"
proof -
  have "distinct (ixs t @ fl @ new)" using assms(1,3,4) unfolding owns_def by (auto simp: disjoint_iff)
  then have "distinct (ixs t' @ fl')" using mset_eq_imp_distinct_iff [OF assms(2)] by blast
  moreover have "set (ixs t' @ fl') = set (ixs t @ fl @ new)" by (rule mset_eq_setD [OF assms(2)])
  then have "\<forall>i\<in>set (ixs t' @ fl'). i < bm_node_count m'" using assms(1,4,8) unfolding owns_def by auto
  ultimately show ?thesis using assms unfolding owns_def by simp
qed

lemma moves_rewire:
  assumes "owns m t fl" "mset (ixs t' @ fl') = mset (ixs t @ fl)"
    and "holds_tree m' t'" "chain (bm_node m') (bm_free_head m') fl'" "\<forall>j. arrays_ok (bm_node m' j)"
    and "bm_node_count m' = bm_node_count m" "bm_capacity m' = bm_capacity m" "bm_root m' = bm_root m" "bm_version m' = bm_version m"
    and "ix t' = ix t" "\<forall>j. j \<notin> set (ixs t @ fl) \<longrightarrow> bm_node m' j = bm_node m j"
  shows "moves m t fl m' t' fl'"
  using owns_rewire [of m t fl t' fl' "[]" m'] assms mset_eq_setD [OF assms(2)] unfolding moves_def by simp

section \<open>Entries in order\<close>

fun weave :: "'a list list \<Rightarrow> 'a list \<Rightarrow> 'a list" where
  "weave [] es = es"
| "weave (x # xs) [] = x @ weave xs []"
| "weave (x # xs) (e # es) = x @ e # weave xs es"

fun inorder :: "('k, 'v) tree \<Rightarrow> ('k \<times> 'v) list" where
  "inorder (Nd i es ks) = weave (map inorder ks) es"

text \<open>The entries before and after a subtree.\<close>

fun lefts :: "'a list list \<Rightarrow> 'a list \<Rightarrow> 'a list" where
  "lefts (x # xs) (e # es) = x @ e # lefts xs es"
| "lefts _ _ = []"

fun rights :: "'a list \<Rightarrow> 'a list list \<Rightarrow> 'a list" where
  "rights (e # es) (x # xs) = e # x @ rights es xs"
| "rights _ _ = []"

lemma weave_rights: "length ys = length es \<Longrightarrow> weave (c # ys) es = c @ rights es ys"
  by (induction es ys arbitrary: c rule: list_induct2') simp_all

lemma weave_at:
  "length xs = length es \<Longrightarrow> length ys = length es' \<Longrightarrow> weave (xs @ c # ys) (es @ es') = lefts xs es @ c @ rights es' ys"
  by (induction xs es rule: list_induct2') (simp_all add: weave_rights)

lemma weave_split: "length xs = Suc (length es) \<Longrightarrow> weave (xs @ ys) (es @ e # es') = weave xs es @ e # weave ys es'"
proof (induction es arbitrary: xs)
  case Nil
  then obtain x where "xs = [x]" by (metis length_0_conv length_Suc_conv list.size(3))
  then show ?case by simp
next
  case (Cons a es)
  then obtain x xs' where "xs = x # xs'" by (cases xs) auto
  with Cons show ?case by simp
qed

lemma lefts_below:
  fixes key :: "'k::linorder"
  assumes "bt_sorted (lefts xs es @ zs)" "\<forall>e\<in>set es. fst e < key"
  shows "\<forall>e\<in>set (lefts xs es). fst e < key"
  using assms
proof (induction xs es rule: lefts.induct)
  case (1 x xs e es)
  then have "fst a < key" if "a \<in> set x" for a using that by (auto simp: sorted_wrt_append intro: less_trans)
  with 1 show ?case by (auto simp: sorted_wrt_append)
qed simp_all

lemma rights_above:
  fixes key :: "'k::linorder"
  assumes "bt_sorted (zs @ rights es xs)" "\<forall>e\<in>set es. key < fst e"
  shows "\<forall>e\<in>set (rights es xs). key < fst e"
  using assms
proof (induction es xs arbitrary: zs rule: rights.induct)
  case (1 e es x xs)
  then have "key < fst a" if "a \<in> set x" for a using that by (auto simp: sorted_wrt_append intro: less_trans)
  moreover have "\<forall>e\<in>set (rights es xs). key < fst e" using 1(1) [of "zs @ e # x"] 1(2,3) by simp
  ultimately show ?case using 1(3) by auto
qed simp_all

lemma weave_ents: "length xs = Suc (length es) \<or> xs = [] \<Longrightarrow> set es \<subseteq> set (weave xs es)"
  by (induction xs es rule: weave.induct) auto

lemma weave_sorted_ents: "length xs = Suc (length es) \<or> xs = [] \<Longrightarrow> bt_sorted (weave xs es) \<Longrightarrow> bt_sorted es"
proof (induction xs es rule: weave.induct)
  case (3 x xs e es)
  moreover have "set es \<subseteq> set (weave xs es)" using 3(2) by (intro weave_ents) auto
  ultimately show ?case by (auto simp: sorted_wrt_append)
qed simp_all

lemma holds_lengths: "holds_tree m (Nd i es ks) \<Longrightarrow> length ks = Suc (length es) \<or> ks = []"
  by (auto simp: node_has_def)

lemma ents_sorted: "holds_tree m t \<Longrightarrow> bt_sorted (inorder t) \<Longrightarrow> bt_sorted (ents t)"
  using weave_sorted_ents [of "map inorder (kids t)" "ents t"] holds_lengths [of m "ix t" "ents t" "kids t"] by (cases t) auto

text \<open>A subtree and the entries around it.\<close>

lemma inorder_at:
  assumes "length ks = pos" "length ks' = length es - pos" "pos \<le> length es"
  shows "inorder (Nd i es (ks @ c # ks')) =
    lefts (map inorder ks) (take pos es) @ inorder c @ rights (drop pos es) (map inorder ks')"
  using weave_at [of "map inorder ks" "take pos es" "map inorder ks'" "drop pos es" "inorder c"] assms by simp

section \<open>Ordered maps in pieces\<close>

lemma bt_insert_mid:
  "\<forall>e\<in>set xs. fst e < k \<Longrightarrow> \<forall>e\<in>set zs. k < fst e \<Longrightarrow> bt_insert k v (xs @ ys @ zs) = xs @ bt_insert k v ys @ zs"
proof (induction xs)
  case Nil
  then have "bt_insert k v zs = (k, v) # zs" by (cases zs) auto
  with Nil show ?case by (induction ys) auto
qed auto

lemma bt_insert_found: "\<forall>e\<in>set xs. fst e < k \<Longrightarrow> bt_insert k v (xs @ (k, w) # zs) = xs @ (k, v) # zs"
  by (induction xs) auto

lemma bt_remove_mid:
  "\<forall>e\<in>set xs. fst e < k \<Longrightarrow> \<forall>e\<in>set zs. k < fst e \<Longrightarrow> bt_remove k (xs @ ys @ zs) = xs @ bt_remove k ys @ zs"
  for k :: "'k::linorder"
  unfolding bt_remove_def bt_retain_def filter_append by (intro arg_cong2 [of _ _ _ _ append] filter_True refl) force+

lemma bt_get_mid:
  "\<forall>e\<in>set xs. fst e < k \<Longrightarrow> \<forall>e\<in>set zs. k < fst e \<Longrightarrow> bt_get (xs @ ys @ zs) k = bt_get ys k"
  for k :: "'k::linorder"
proof -
  assume "\<forall>e\<in>set xs. fst e < k" "\<forall>e\<in>set zs. k < fst e"
  then have "bt_get xs k = None" "bt_get zs k = None" unfolding map_of_eq_None_iff by force+
  then show ?thesis by (simp add: map_add_def split: option.splits)
qed

end
