(* ===== verification/Btree_Insert.thy ===== *)
theory Btree_Insert
  imports Btree_Trees
begin

text \<open>
  Insertion into the B-tree of \<^verbatim>\<open>shared_btree_map.rs\<close>: splitting a full child moves entries without changing their order, and
  the single pass down from a root that is not full inserts as an ordered map does, or is refused for want of a
  node with the entries as they were.
\<close>

section \<open>Allocation\<close>

lemma alloc_idle:
  assumes "idle m fl" "alloc_node is_leaf m = (r, m')"
  obtains "r = Inl Full" "m' = m" "fl = []" "unat (bm_node_count m) = bm_capacity m"
  | idx fl' where "r = Inr idx" "idle m' fl'" "idx \<notin> set fl'" "idx < bm_node_count m'"
      "idx \<in> set fl \<or> bm_node_count m \<le> idx" "set fl' \<subseteq> set fl" "bm_node_count m \<le> bm_node_count m'"
      "bm_node m' = (bm_node m)(idx := (bm_node m idx)\<lparr>nd_count := 0, nd_leaf := is_leaf, nd_children := replicate (B + 1) NIL\<rparr>)"
      "bm_root m' = bm_root m" "bm_len m' = bm_len m" "bm_version m' = bm_version m" "bm_capacity m' = bm_capacity m"
proof (cases "bm_free_head m = NIL")
  case True
  then have fl: "fl = []" using assms(1) by (cases fl) (auto simp: idle_def)
  show ?thesis
  proof (cases "unat (bm_node_count m) \<ge> bm_capacity m")
    case full: True
    then have "r = Inl Full" "m' = m" using assms(2) True by (auto simp: alloc_node_def Let_def)
    with full fl assms(1) that(1) show ?thesis by (simp add: idle_def)
  next
    case False
    then have nc: "unat (bm_node_count m + 1) = Suc (unat (bm_node_count m))"
      using assms(1) by (simp add: idle_def unat_word_ariths)
    have m': "r = Inr (bm_node_count m)" "m' = upd_node (bm_node_count m)
        (\<lambda>n. n\<lparr>nd_count := 0, nd_leaf := is_leaf, nd_children := replicate (B + 1) NIL\<rparr>) (m\<lparr>bm_node_count := bm_node_count m + 1\<rparr>)"
      using assms(2) True False by (auto simp: alloc_node_def Let_def)
    have "idle m' []" using assms(1) True nc False by (auto simp: idle_def m' upd_node_def arrays_ok_def)
    then show ?thesis using fl m' nc by (intro that(2) [of "bm_node_count m" "[]"]) (auto simp: upd_node_def word_less_nat_alt word_le_nat_alt)
  qed
next
  case False
  then obtain idx fl' where fl: "fl = idx # fl'" "bm_free_head m = idx" using assms(1) by (cases fl) (auto simp: idle_def)
  have m': "r = Inr idx" "m' = upd_node idx
      (\<lambda>n. n\<lparr>nd_count := 0, nd_leaf := is_leaf, nd_children := replicate (B + 1) NIL\<rparr>) (m\<lparr>bm_free_head := nd_children (bm_node m idx) ! 0\<rparr>)"
    using assms(2) False fl by (auto simp: alloc_node_def Let_def)
  have "chain (bm_node m') (bm_free_head m') fl'" using assms(1) fl
    by (rule_tac chain_frame [of "bm_node m"]) (auto simp: idle_def m' upd_node_def)
  then have "idle m' fl'" using assms(1) fl by (auto simp: idle_def m' upd_node_def arrays_ok_def)
  then show ?thesis using fl m' assms(1) by (intro that(2) [of idx fl']) (auto simp: upd_node_def idle_def)
qed

lemma alloc_node_ok:
  assumes "owns m t fl" "alloc_node is_leaf m = (r, m')"
  obtains "r = Inl Full" "m' = m" "fl = []" "unat (bm_node_count m) = bm_capacity m"
  | idx fl' where "r = Inr idx" "owns m' t fl'" "idx \<notin> set (ixs t @ fl')" "idx < bm_node_count m'"
      "idx \<in> set fl \<or> bm_node_count m \<le> idx" "set fl' \<subseteq> set fl" "bm_node_count m \<le> bm_node_count m'"
      "bm_node m' = (bm_node m)(idx := (bm_node m idx)\<lparr>nd_count := 0, nd_leaf := is_leaf, nd_children := replicate (B + 1) NIL\<rparr>)"
      "bm_root m' = bm_root m" "bm_len m' = bm_len m" "bm_version m' = bm_version m" "bm_capacity m' = bm_capacity m"
proof -
  have own: "holds_tree m t" "idle m fl" "distinct (ixs t)" "set (ixs t) \<inter> set fl = {}" "\<forall>i\<in>set (ixs t). i < bm_node_count m"
    using assms(1) by (simp_all add: owns_idle)
  show ?thesis
    using alloc_idle [OF own(2) assms(2)]
  proof cases
    case 1
    then show ?thesis by (rule that(1))
  next
    case (2 idx fl')
    have idx: "idx \<notin> set (ixs t)" using 2(5) own(4,5) by (auto dest: leD)
    then have "holds_tree m' t" using own(1) by (rule_tac holds_frame [of m]) (auto simp: 2(8))
    moreover have "set (ixs t) \<inter> set fl' = {}" using own(4) 2(6) by blast
    moreover have "\<forall>i\<in>set (ixs t). i < bm_node_count m'" using own(5) 2(7) less_le_trans by blast
    ultimately have "owns m' t fl'" using own(3) 2(2) by (simp add: owns_idle)
    with 2 idx show ?thesis by (intro that(2) [of idx fl']) simp_all
  qed
qed

section \<open>Splitting\<close>

lemma split_left_has: "node_has n es cs \<Longrightarrow> length es = B \<Longrightarrow> node_has (n\<lparr>nd_count := T - 1\<rparr>) (take (T - 1) es) (take T cs)"
  using take_map_split [of "length es" "nd_keys n" fst es "T - 1"] take_map_split [of "length es" "nd_values n" snd es "T - 1"]
  by (auto simp: node_defs B_def T_def)

lemma split_right_has:
  assumes "node_has n es cs" "length es = B" "arrays_ok r"
  shows "node_has (r\<lparr>nd_keys := copy_to (nd_keys r) 0 (nd_keys n) T (T - 1), nd_values := copy_to (nd_values r) 0 (nd_values n) T (T - 1),
      nd_children := (if \<not> nd_leaf n then copy_to (nd_children r) 0 (nd_children n) T T else nd_children r),
      nd_count := T - 1, nd_leaf := nd_leaf n\<rparr>) (drop T es) (drop T cs)"
proof -
  have full: "nd_keys n = map fst es" "nd_values n = map snd es" "cs \<noteq> [] \<Longrightarrow> nd_children n = cs" using assms(1,2) by (auto simp: node_defs)
  have "take (T - 1) (copy_to (nd_keys r) 0 (nd_keys n) T (T - 1)) = map fst (drop T es)"
    "take (T - 1) (copy_to (nd_values r) 0 (nd_values n) T (T - 1)) = map snd (drop T es)"
    using assms(2,3) by (simp_all add: copy_to_append arrays_ok_def full(1,2) B_def T_def drop_map)
  moreover have "take T (copy_to (nd_children r) 0 (nd_children n) T T) = drop T cs" if "cs \<noteq> []"
    using assms that full(3) by (simp add: copy_to_append node_defs B_def T_def)
  ultimately show ?thesis using assms by (auto simp: node_defs B_def T_def)
qed

lemma split_parent_has:
  assumes "node_has n es cs" "cs \<noteq> []" "pos \<le> length es" "length es < B"
  shows "node_has (let pc = nd_count n
      in n\<lparr>nd_children := (shift_up (nd_children n) (pc + 1) (pos + 1))[pos + 1 := right],
           nd_keys := (shift_up (nd_keys n) pc pos)[pos := k], nd_values := (shift_up (nd_values n) pc pos)[pos := v],
           nd_count := pc + 1\<rparr>) (take pos es @ (k, v) # drop pos es) (take (Suc pos) cs @ right # drop (Suc pos) cs)"
proof -
  have "take (Suc (length es)) ((shift_up (nd_keys n) (length es) pos)[pos := k]) = map fst (take pos es) @ k # map fst (drop pos es)"
    "take (Suc (length es)) ((shift_up (nd_values n) (length es) pos)[pos := v]) = map snd (take pos es) @ v # map snd (drop pos es)"
    using assms by (intro insert_at; simp add: node_defs)+
  moreover have "take (Suc (length cs)) ((shift_up (nd_children n) (length cs) (Suc pos))[Suc pos := right]) =
      map id (take (Suc pos) cs) @ right # map id (drop (Suc pos) cs)"
    using assms by (intro insert_at) (auto simp: node_defs)
  moreover have "length cs = Suc (length es)" using assms(1,2) by (simp add: node_has_def)
  ultimately show ?thesis using assms by (auto simp: node_defs Let_def)
qed

lemma split_child_ok:
  assumes own: "owns m (Nd i es (ks @ c # ks')) fl" and pos: "length ks = pos" and room: "length es < B" and full: "length (ents c) = B"
    and split: "split_child i pos m = (r, m')"
  obtains "r = Inl Full" "m' = m" "unat (bm_node_count m) = bm_capacity m" "fl = []"
  | right fl' where "r = Inr ()" "bm_len m' = bm_len m"
      "moves m (Nd i es (ks @ c # ks')) fl m' (Nd i (take pos es @ ents c ! (T - 1) # drop pos es)
         (ks @ Nd (ix c) (take (T - 1) (ents c)) (take T (kids c)) # Nd right (drop T (ents c)) (drop T (kids c)) # ks')) fl'"
proof -
  obtain j ces cks where c: "c = Nd j ces cks" by (cases c)
  let ?t = "Nd i es (ks @ c # ks')"
  have p: "node_has (bm_node m i) es (map ix (ks @ c # ks'))" and q: "node_has (bm_node m j) ces (map ix cks)"
    using own by (auto simp: owns_def c)
  have len: "length (ks @ c # ks') = Suc (length es)" using p by (simp add: node_has_def)
  then have pos_le: "pos \<le> length es" using pos by simp
  have child: "nd_children (bm_node m i) ! pos = j" using node_has_nth(3) [OF p, of pos] pos by (simp add: c nth_append)
  obtain a m1 where alloc: "alloc_node (nd_leaf (bm_node m j)) m = (a, m1)" by force
  then show ?thesis
  proof (cases rule: alloc_node_ok [OF own alloc])
    case 1
    with alloc split child show ?thesis by (intro that(1)) (auto simp: split_child_def Let_def)
  next
    case (2 right fl')
    have ij: "i \<noteq> j" "right \<noteq> i" "right \<noteq> j" using own 2(3) by (auto simp: owns_def c)
    have arr: "arrays_ok (bm_node m1 right)" using 2(2) by (simp add: owns_def)
    define R where "R = (bm_node m1 right)\<lparr>nd_keys := copy_to (nd_keys (bm_node m1 right)) 0 (nd_keys (bm_node m j)) T (T - 1),
      nd_values := copy_to (nd_values (bm_node m1 right)) 0 (nd_values (bm_node m j)) T (T - 1),
      nd_children := (if \<not> nd_leaf (bm_node m j) then copy_to (nd_children (bm_node m1 right)) 0 (nd_children (bm_node m j)) T T
                      else nd_children (bm_node m1 right)), nd_count := T - 1, nd_leaf := nd_leaf (bm_node m j)\<rparr>"
    define L where "L = (bm_node m j)\<lparr>nd_count := T - 1\<rparr>"
    define P where "P = (let pc = nd_count (bm_node m i)
      in (bm_node m i)\<lparr>nd_children := (shift_up (nd_children (bm_node m i)) (pc + 1) (pos + 1))[pos + 1 := right],
           nd_keys := (shift_up (nd_keys (bm_node m i)) pc pos)[pos := nd_keys (bm_node m j) ! (T - 1)],
           nd_values := (shift_up (nd_values (bm_node m i)) pc pos)[pos := nd_values (bm_node m j) ! (T - 1)], nd_count := pc + 1\<rparr>)"
    have m': "r = Inr ()" "m' = m1\<lparr>bm_node := (bm_node m)(right := R, j := L, i := P)\<rparr>"
      using split alloc child 2(1) ij by (auto simp: split_child_def Let_def upd_node_def 2(8) R_def L_def P_def fun_eq_iff)
    have "nd_keys (bm_node m j) ! (T - 1) = fst (ces ! (T - 1))" "nd_values (bm_node m j) ! (T - 1) = snd (ces ! (T - 1))"
      using node_has_nth(1,2) [OF q, of "T - 1"] full by (simp_all add: c B_def T_def)
    then have PH: "node_has P (take pos es @ ces ! (T - 1) # drop pos es) (map ix ks @ j # right # map ix ks')"
      using split_parent_has [OF p, where pos = pos and k = "fst (ces ! (T - 1))" and v = "snd (ces ! (T - 1))" and right = right] pos_le room pos by (simp add: P_def c)
    have LR: "node_has L (take (T - 1) ces) (map ix (take T cks))" "node_has R (drop T ces) (map ix (drop T cks))"
      using split_left_has [OF q] split_right_has [OF q _ arr] full by (simp_all add: L_def R_def c take_map drop_map)
    have kid: "holds_tree m' k" if "k \<in> set (ks @ cks @ ks')" for k
    proof -
      have "holds_tree m k" "i \<notin> set (ixs k) \<and> j \<notin> set (ixs k)" using that own by (auto simp: owns_def c)
      moreover have "right \<notin> set (ixs k)" using that 2(3) by (auto simp: c)
      ultimately show ?thesis by (rule_tac holds_frame [of m k]) (auto simp: m')
    qed
    then have kids: "\<forall>k\<in>set (ks @ take T cks @ drop T cks @ ks'). holds_tree m' k" by (auto dest: in_set_takeD in_set_dropD)
    define t' where "t' = Nd i (take pos es @ ces ! (T - 1) # drop pos es)
         (ks @ Nd j (take (T - 1) ces) (take T cks) # Nd right (drop T ces) (drop T cks) # ks')"
    have "mset (concat (map ixs (take T cks))) + mset (concat (map ixs (drop T cks))) = mset (concat (map ixs cks))"
      by (metis append_take_drop_id concat_append map_append mset_append)
    then have ms: "mset (ixs t' @ fl') = mset (ixs ?t @ fl' @ [right])" by (simp add: t'_def c)
    have "holds_tree m' t'" using PH LR ij kids by (simp add: t'_def m'(2) ball_Un)
    moreover have "chain (bm_node m') (bm_free_head m') fl'" using 2(2,3)
      by (rule_tac chain_frame [of "bm_node m1"]) (auto simp: m' 2(8) owns_def c)
    moreover have "\<forall>j. arrays_ok (bm_node m' j)" using own PH LR by (auto simp: m' node_has_def owns_def)
    ultimately have "owns m' t' fl'" using 2(3,4) by (intro owns_rewire [OF 2(2) ms]) (simp_all add: m')
    moreover have "bm_node m' j' = bm_node m j'" if "j' < bm_node_count m" "j' \<notin> set (ixs ?t @ fl)" for j'
      using that 2(5) by (auto simp: m' c)
    moreover have "j' \<in> set (ixs ?t @ fl) \<or> bm_node_count m \<le> j'" if "j' \<in> set (ixs t' @ fl')" for j'
      using that 2(5,6) mset_eq_setD [OF ms] by auto
    ultimately have "moves m ?t fl m' t' fl'" using 2(7-) by (simp add: moves_def m' t'_def)
    with that(2) 2(10) m' show ?thesis by (simp add: t'_def c)
  qed
qed

section \<open>The pass down\<close>

text \<open>The place of a key between the subtrees of a node.\<close>

lemma kids_at:
  assumes "node_has n es (map ix ks)" "ks \<noteq> []" "pos \<le> length es"
  obtains ls c rs where "ks = ls @ c # rs" "length ls = pos" "length rs = length es - pos" "nd_children n ! pos = ix c"
proof -
  have len: "length ks = Suc (length es)" using assms(1,2) by (simp add: node_has_def)
  then have "ks = take pos ks @ ks ! pos # drop (Suc pos) ks" using assms(3) by (simp add: id_take_nth_drop)
  moreover have "nd_children n ! pos = ix (ks ! pos)" using node_has_nth(3) [OF assms(1), of pos] len assms(3) by simp
  ultimately show ?thesis using that len assms(3) by (metis length_take length_drop min.absorb2 le_SucI diff_Suc_Suc)
qed

text \<open>A key that falls into a subtree.\<close>

lemma around:
  assumes "length ls = pos" "length rs = length es - pos" "pos \<le> length es" "bt_sorted (inorder (Nd i es (ls @ c # rs)))"
    and "\<forall>e\<in>set (take pos es). fst e < key" "\<forall>e\<in>set (drop pos es). key < fst e"
  obtains xs zs where "\<And>c'. inorder (Nd i es (ls @ c' # rs)) = xs @ inorder c' @ zs" "\<forall>e\<in>set xs. fst e < key" "\<forall>e\<in>set zs. key < fst e"
proof
  let ?xs = "lefts (map inorder ls) (take pos es)" and ?zs = "rights (drop pos es) (map inorder rs)"
  show at: "inorder (Nd i es (ls @ c' # rs)) = ?xs @ inorder c' @ ?zs" for c' using assms(1-3) by (rule inorder_at)
  show "\<forall>e\<in>set ?xs. fst e < key" using assms(4,5) lefts_below [of _ _ "inorder c @ ?zs"] at by simp
  show "\<forall>e\<in>set ?zs. key < fst e" using assms(4,6) rights_above [of "?xs @ inorder c"] at by simp
qed

lemma entry_at:
  assumes "pos < length es" "length ks = Suc (length es) \<or> ks = []"
  obtains xs zs where "\<And>e. inorder (Nd i (es[pos := e]) ks) = xs @ e # zs"
proof (cases "ks = []")
  case True
  with assms(1) show ?thesis by (intro that [of "take pos es" "drop (Suc pos) es"]) (simp add: upd_conv_take_nth_drop)
next
  case False
  let ?ks = "map inorder ks"
  have "inorder (Nd i (es[pos := e]) ks) = weave (take (Suc pos) ?ks) (take pos es) @ e # weave (drop (Suc pos) ?ks) (drop (Suc pos) es)" for e
    using weave_split [of "take (Suc pos) ?ks" "take pos es" "drop (Suc pos) ?ks" e "drop (Suc pos) es"] False assms
    by (simp add: upd_conv_take_nth_drop)
  then show ?thesis by (rule that)
qed

lemma entry_found:
  assumes "pos < length es" "length ks = Suc (length es) \<or> ks = []" "bt_sorted (inorder (Nd i es ks))"
  obtains xs zs where "\<And>e. inorder (Nd i (es[pos := e]) ks) = xs @ e # zs" "inorder (Nd i es ks) = xs @ es ! pos # zs"
    "\<forall>e\<in>set xs. fst e < fst (es ! pos)" "\<forall>e\<in>set zs. fst (es ! pos) < fst e"
proof -
  obtain xs zs where *: "\<And>e. inorder (Nd i (es[pos := e]) ks) = xs @ e # zs" using entry_at [OF assms(1,2), where i = i] by blast
  from * [of "es ! pos"] have "inorder (Nd i es ks) = xs @ es ! pos # zs" by simp
  with assms(3) * show ?thesis by (intro that) (auto simp: sorted_wrt_append)
qed

lemma found_get:
  assumes "pos < length es" "length ks = Suc (length es) \<or> ks = []" "bt_sorted (inorder (Nd i es ks))" "es ! pos = (key, w)"
  shows "bt_get (inorder (Nd i es ks)) key = Some w"
proof -
  obtain xs zs where "inorder (Nd i es ks) = xs @ es ! pos # zs" "\<forall>e\<in>set xs. fst e < fst (es ! pos)" "\<forall>e\<in>set zs. fst (es ! pos) < fst e"
    by (rule entry_found [OF assms(1-3)])
  then show ?thesis using bt_get_mid [of xs key zs "[es ! pos]"] assms(4) by simp
qed

lemma split_inorder:
  assumes "length ls = pos" "length rs = length es - pos" "pos \<le> length es" "length ces = B" "length cks = Suc B \<or> cks = []"
  shows "inorder (Nd i (take pos es @ ces ! (T - 1) # drop pos es) (ls @ Nd j (take (T - 1) ces) (take T cks) # Nd r (drop T ces) (drop T cks) # rs)) =
    inorder (Nd i es (ls @ Nd j ces cks # rs))"
proof -
  let ?l = "inorder (Nd j (take (T - 1) ces) (take T cks))" and ?r = "inorder (Nd r (drop T ces) (drop T cks))"
  have ces: "ces = take (T - 1) ces @ ces ! (T - 1) # drop T ces" using assms(4) id_take_nth_drop [of "T - 1" ces] by (simp add: B_def T_def)
  have "inorder (Nd j ces cks) = ?l @ ces ! (T - 1) # ?r"
  proof (cases "cks = []")
    case False
    have "inorder (Nd j ces cks) = weave (map inorder (take T cks) @ map inorder (drop T cks)) (take (T - 1) ces @ ces ! (T - 1) # drop T ces)"
      using ces by (simp flip: map_append)
    also have "\<dots> = ?l @ ces ! (T - 1) # ?r" using weave_split [of "map inorder (take T cks)" "take (T - 1) ces"] False assms(4,5)
      by (simp add: B_def T_def)
    finally show ?thesis .
  qed (use ces in simp)
  then show ?thesis
    using weave_at [of "map inorder ls" "take pos es" "?r # map inorder rs" "ces ! (T - 1) # drop pos es" ?l] assms(1-3)
      weave_at [of "map inorder ls" "take pos es" "map inorder rs" "drop pos es" "inorder (Nd j ces cks)"] by simp
qed

lemma split_wf:
  assumes "tree_wf h (Nd j ces cks)" "length ces = B"
  shows "tree_wf h (Nd j (take (T - 1) ces) (take T cks))" "tree_wf h (Nd r (drop T ces) (drop T cks))"
  using assms by (cases h; auto simp: B_def T_def dest: in_set_takeD in_set_dropD)+

lemma wf_kids: "tree_wf h (Nd i es ks) \<Longrightarrow> length ks = Suc (length es) \<or> ks = []"
  by (cases h) auto

text \<open>What an insertion below a node does to it.\<close>

definition inserted :: "nat \<Rightarrow> 'k::linorder \<Rightarrow> 'v \<Rightarrow> ('k, 'v) SharedBTreeMap \<Rightarrow> ('k, 'v) tree \<Rightarrow> u32 list \<Rightarrow>
    BTreeError + 'v option \<Rightarrow> ('k, 'v) SharedBTreeMap \<Rightarrow> ('k, 'v) tree \<Rightarrow> u32 list \<Rightarrow> bool" where
  "inserted h key v m t fl r m' t' fl' \<longleftrightarrow> moves m t fl m' t' fl' \<and> tree_wf h t' \<and> length (ents t) \<le> length (ents t') \<and>
     (case r of
        Inl e \<Rightarrow> e = Full \<and> inorder t' = inorder t \<and> bm_len m' = bm_len m \<and> fl' = [] \<and> unat (bm_node_count m') = bm_capacity m'
      | Inr old \<Rightarrow> old = bt_get (inorder t) key \<and> inorder t' = bt_insert key v (inorder t) \<and>
          bm_len m' = (if old = None then bm_len m + 1 else bm_len m))"

lemma inserted_child:
  assumes "owns m (Nd i es (ls @ c # rs)) fl" "tree_wf (Suc h) (Nd i es (ls @ c # rs))" "bt_sorted (inorder (Nd i es (ls @ c # rs)))"
    and pos: "length ls = pos" "length rs = length es - pos" "pos \<le> length es"
    and key: "\<forall>e\<in>set (take pos es). fst e < key" "\<forall>e\<in>set (drop pos es). key < fst e"
    and c: "inserted h key v m c fl r m' c' fl'"
  shows "inserted (Suc h) key v m (Nd i es (ls @ c # rs)) fl r m' (Nd i es (ls @ c' # rs)) fl'"
proof -
  from around [OF pos assms(3) key] obtain xs zs where
    at: "\<And>c'. inorder (Nd i es (ls @ c' # rs)) = xs @ inorder c' @ zs" "\<forall>e\<in>set xs. fst e < key" "\<forall>e\<in>set zs. key < fst e" by blast
  note mid = bt_insert_mid [OF at(2,3)] bt_get_mid [OF at(2,3)]
  have "moves m (Nd i es (ls @ c # rs)) fl m' (Nd i es (ls @ c' # rs)) fl'"
    using moves_child [OF assms(1)] c by (simp add: inserted_def)
  moreover have "tree_wf (Suc h) (Nd i es (ls @ c' # rs))" using assms(2) c by (auto simp: inserted_def)
  ultimately show ?thesis using c unfolding inserted_def at(1) mid by (auto split: sum.splits)
qed

lemma inserted_trans:
  assumes "moves m t fl m1 t1 fl1" "inorder t1 = inorder t" "bm_len m1 = bm_len m" "length (ents t) \<le> length (ents t1)"
    and "inserted h key v m1 t1 fl1 r m' t' fl'"
  shows "inserted h key v m t fl r m' t' fl'"
  using assms moves_trans [OF assms(1)] unfolding inserted_def by (auto split: sum.splits)

lemma insert_found:
  assumes "owns m (Nd i es ks) fl" "tree_wf h (Nd i es ks)" "bt_sorted (inorder (Nd i es ks))" "pos < length es" "fst (es ! pos) = key"
  shows "\<exists>t'. inserted h key v m (Nd i es ks) fl (Inr (Some (nd_values (bm_node m i) ! pos))) (upd_node i (set_value pos v) m) t' fl"
proof -
  have n: "node_has (bm_node m i) es (map ix ks)" using assms(1) by (simp add: owns_def)
  from entry_found [OF assms(4) wf_kids [OF assms(2)] assms(3)] obtain xs zs where
    at: "\<And>e. inorder (Nd i (es[pos := e]) ks) = xs @ e # zs" "inorder (Nd i es ks) = xs @ es ! pos # zs"
      "\<forall>e\<in>set xs. fst e < fst (es ! pos)" "\<forall>e\<in>set zs. fst (es ! pos) < fst e" by blast
  let ?t' = "Nd i (es[pos := (key, v)]) ks"
  have e: "es ! pos = (key, nd_values (bm_node m i) ! pos)" using node_has_nth(2) [OF n assms(4)] assms(5) by (simp add: prod_eq_iff)
  have "moves m (Nd i es ks) fl (upd_node i (set_value pos v) m) ?t' fl"
    using set_value_has [OF n assms(4), of v] assms(5) by (intro moves_node [OF assms(1)]) simp
  moreover have "tree_wf h ?t'" using assms(2) by (cases h) auto
  moreover have "bt_get (inorder (Nd i es ks)) key = Some (nd_values (bm_node m i) ! pos)"
    by (rule found_get [OF assms(4) wf_kids [OF assms(2)] assms(3) e])
  moreover have "bt_insert key v (inorder (Nd i es ks)) = inorder ?t'"
    unfolding at(1) at(2) e by (rule bt_insert_found) (use at(3) assms(5) in simp)
  ultimately show ?thesis by (intro exI [of _ ?t']) (simp add: inserted_def upd_node_def)
qed

lemma insert_leaf:
  assumes "owns m (Nd i es []) fl" "tree_wf h (Nd i es [])" "length es < B" "pos \<le> length es"
    and "\<forall>e\<in>set (take pos es). fst e < key" "\<forall>e\<in>set (drop pos es). key < fst e"
  shows "\<exists>t'. inserted h key v m (Nd i es []) fl (Inr None)
    ((upd_node i (leaf_insert pos key v) m)\<lparr>bm_len := bm_len (upd_node i (leaf_insert pos key v) m) + 1\<rparr>) t' fl"
proof -
  have n: "node_has (bm_node m i) es []" using assms(1) by (simp add: owns_def)
  let ?t' = "Nd i (take pos es @ (key, v) # drop pos es) []"
  let ?m' = "upd_node i (leaf_insert pos key v) m"
  have "moves m (Nd i es []) fl ?m' ?t' fl"
    using leaf_insert_has [OF n assms(4,3)] by (intro moves_node [OF assms(1)]) simp
  then have "moves m (Nd i es []) fl (?m'\<lparr>bm_len := bm_len ?m' + 1\<rparr>) ?t' fl"
    by (auto simp: moves_def owns_def)
  moreover have "h = 0" using assms(2) by (cases h) auto
  moreover have "bt_insert key v es = take pos es @ (key, v) # drop pos es" "bt_get es key = None"
    using bt_insert_mid [OF assms(5,6), of v "[]"] bt_get_mid [OF assms(5,6), of "[]"] by simp_all
  ultimately show ?thesis using assms(3,4) by (intro exI [of _ ?t']) (simp add: inserted_def upd_node_def)
qed

lemma split_full_child:
  assumes own: "owns m (Nd i es (ls @ c # rs)) fl" and tree_wf: "tree_wf (Suc h) (Nd i es (ls @ c # rs))"
    and pos: "length ls = pos" and room: "length es < B" and full: "length (ents c) = B" and split: "split_child i pos m = (r, m')"
  obtains "r = Inl Full" "m' = m" "unat (bm_node_count m) = bm_capacity m" "fl = []"
  | med cl cr fl' where "r = Inr ()" "bm_len m' = bm_len m"
      "moves m (Nd i es (ls @ c # rs)) fl m' (Nd i (take pos es @ med # drop pos es) (ls @ cl # cr # rs)) fl'"
      "inorder (Nd i (take pos es @ med # drop pos es) (ls @ cl # cr # rs)) = inorder (Nd i es (ls @ c # rs))"
      "tree_wf (Suc h) (Nd i (take pos es @ med # drop pos es) (ls @ cl # cr # rs))"
      "length (ents cl) < B" "length (ents cr) < B"
  using split_child_ok [OF own pos room full split]
proof cases
  case 1
  then show ?thesis by (rule that(1))
next
  case (2 right fl')
  obtain j ces cks where c: "c = Nd j ces cks" by (cases c)
  have len: "length rs = length es - pos" "pos \<le> length es" using tree_wf pos by auto
  have cwf: "tree_wf h (Nd j ces cks)" "length ces = B" using tree_wf full by (auto simp: c)
  have "length cks = Suc B \<or> cks = []" using wf_kids [OF cwf(1)] cwf(2) by simp
  note io = split_inorder [OF pos len cwf(2) this, of i j right]
  have "tree_wf (Suc h) (Nd i (take pos es @ ces ! (T - 1) # drop pos es) (ls @ Nd j (take (T - 1) ces) (take T cks) # Nd right (drop T ces) (drop T cks) # rs))"
    using tree_wf split_wf(1) [OF cwf] split_wf(2) [OF cwf, of right] room len cwf(2) by (auto simp: c B_def T_def)
  with 2 io that(2) cwf(2) show ?thesis by (auto simp: c B_def T_def)
qed

lemma insert_nonfull_ok:
  assumes "owns m t fl" "tree_wf h t" "length (ents t) < B" "bt_sorted (inorder t)" "h < fuel"
  shows "\<exists>r m' t' fl'. insert_nonfull fuel (ix t) key v m = Some (r, m') \<and> inserted h key v m t fl r m' t' fl'"
  using assms
proof (induction fuel arbitrary: h m t fl)
  case (Suc fuel)
  obtain i es ks where t: "t = Nd i es ks" by (cases t)
  have n: "node_has (bm_node m i) es (map ix ks)" using Suc.prems(1) by (simp add: owns_def t)
  have es: "bt_sorted es" using ents_sorted [of m t] Suc.prems(1,4) by (simp add: owns_def t)
  obtain pos found where search: "bm_search i key m = (pos, found)" by force
  note place = bm_search_ok [OF n es search]
  show ?case
  proof (cases found)
    case True
    then show ?thesis using insert_found [of m i es ks fl h pos key v] Suc.prems place search by (auto simp: t Let_def)
  next
    case False
    then have pos: "pos \<le> length es" "\<forall>e\<in>set (take pos es). fst e < key" "\<forall>e\<in>set (drop pos es). key < fst e" using place by auto
    show ?thesis
    proof (cases "ks = []")
      case True
      then have "nd_leaf (bm_node m i)" using n by (simp add: node_has_def)
      with insert_leaf [of m i es fl h pos key v] Suc.prems pos search False True show ?thesis by (auto simp: t Let_def)
    next
      case inner: False
      then obtain h' where h: "h = Suc h'" using Suc.prems(2) by (cases h) (auto simp: t)
      obtain ls c rs where ks: "ks = ls @ c # rs" "length ls = pos" "length rs = length es - pos" "nd_children (bm_node m i) ! pos = ix c"
        using kids_at [OF n inner pos(1)] by blast
      have cwf: "tree_wf h' c" "T - 1 \<le> length (ents c)" using Suc.prems(2) by (auto simp: t h ks)
      have own_c: "owns m c fl" using Suc.prems(1) owns_child(1) by (simp add: t ks)
      have cnt: "nd_count (bm_node m (ix c)) = length (ents c)" using own_c holds_ents [of m c] by (simp add: owns_def node_has_def)
      have leaf: "\<not> nd_leaf (bm_node m i)" using n inner by (simp add: node_has_def)
      have descend: "\<exists>r m' t' fl'. insert_nonfull fuel (ix c) key v m = Some (r, m') \<and> inserted h key v m (Nd i es (ls @ c # rs)) fl r m' t' fl'"
        if d: "owns m (Nd i es (ls @ c # rs)) fl" "tree_wf h (Nd i es (ls @ c # rs))" "bt_sorted (inorder (Nd i es (ls @ c # rs)))" "length (ents c) < B"
          "length rs = length es - length ls" "length ls \<le> length es"
          "\<forall>e\<in>set (take (length ls) es). fst e < key" "\<forall>e\<in>set (drop (length ls) es). key < fst e" for m fl es ls c rs
      proof -
        have "bt_sorted (inorder c)" using around [OF refl d(5,6,3,7,8)] d(3) by (metis map_append sorted_wrt_append)
        moreover have "owns m c fl" by (rule owns_child(1) [OF d(1)])
        moreover have "tree_wf h' c" using d(2) by (simp add: h)
        ultimately obtain r m' c' fl' where "insert_nonfull fuel (ix c) key v m = Some (r, m')" "inserted h' key v m c fl r m' c' fl'"
          using Suc.IH [of m c fl h'] d(4) Suc.prems(5) by (auto simp: h)
        with inserted_child [OF d(1) d(2) [unfolded h] d(3) refl d(5-8)] show ?thesis unfolding h by blast
      qed
      show ?thesis
      proof (cases "length (ents c) = B")
        case False
        moreover have "length (ents c) \<le> B" using cwf(1) by (cases c; cases h') auto
        ultimately show ?thesis using descend [of m es ls c rs fl] Suc.prems pos ks search \<open>\<not> found\<close> leaf cnt by (simp add: t Let_def)
      next
        case full: True
        obtain sr m1 where split: "split_child i pos m = (sr, m1)" by force
        have room: "length es < B" using Suc.prems(3) by (simp add: t)
        from split_full_child [OF Suc.prems(1) [unfolded t ks] Suc.prems(2) [unfolded t ks h] ks(2) room full split]
        show ?thesis
        proof cases
          case 1
          then have "insert_nonfull (Suc fuel) (ix t) key v m = Some (Inl Full, m)"
            using split search \<open>\<not> found\<close> leaf cnt full ks(4) by (simp add: t Let_def)
          moreover have "inserted h key v m t fl (Inl Full) m t fl" using 1 Suc.prems moves_refl [of m t fl] by (simp add: inserted_def)
          ultimately show ?thesis by blast
        next
          case (2 med cl cr fl1)
          let ?es = "take pos es @ med # drop pos es"
          let ?t1 = "Nd i ?es (ls @ cl # cr # rs)"
          have own1: "owns m1 ?t1 fl1" using 2(3) by (simp add: moves_def)
          have n1: "node_has (bm_node m1 i) ?es (map ix (ls @ cl # cr # rs))" using own1 by (simp add: owns_def)
          have sorted1: "bt_sorted (inorder ?t1)" using 2(4) Suc.prems(4) by (simp add: t ks)
          have len: "length (take pos es) = pos" using pos(1) by simp
          have at: "nd_keys (bm_node m1 i) ! pos = fst med" "nd_children (bm_node m1 i) ! pos = ix cl" "nd_children (bm_node m1 i) ! (pos + 1) = ix cr"
            using node_has_nth(1) [OF n1, of pos] node_has_nth(3) [OF n1, of pos] node_has_nth(3) [OF n1, of "pos + 1"] len ks(2)
            by (simp_all add: nth_append)
          have step: "insert_nonfull (Suc fuel) (ix t) key v m =
              (if key = fst med then Some (Inr (Some (nd_values (bm_node m1 i) ! pos)), upd_node i (set_value pos v) m1)
               else if key > fst med then insert_nonfull fuel (ix cr) key v m1 else insert_nonfull fuel (ix cl) key v m1)"
            using split 2(1) search \<open>\<not> found\<close> leaf cnt full ks(4) at by (simp add: t Let_def)
          have up: "inserted h key v m t fl r m' t' fl'" if "inserted h key v m1 ?t1 fl1 r m' t' fl'" for r m' t' fl'
            using inserted_trans [OF 2(3,4,2) _ that] len by (simp add: t ks)
          consider "key = fst med" | "key > fst med" | "key < fst med" by (rule linorder_cases) auto
          then show ?thesis
          proof cases
            case 1
            have "\<exists>t'. inserted h key v m1 ?t1 fl1 (Inr (Some (nd_values (bm_node m1 i) ! pos))) (upd_node i (set_value pos v) m1) t' fl1"
              using 1 2(5) len by (intro insert_found own1 sorted1) (simp_all add: h nth_append)
            then show ?thesis unfolding step using up 1 by simp blast
          next
            case 2
            have "\<exists>r m' t' fl'. insert_nonfull fuel (ix cr) key v m1 = Some (r, m') \<and> inserted h key v m1 (Nd i ?es ((ls @ [cl]) @ cr # rs)) fl1 r m' t' fl'"
              using 2 \<open>tree_wf (Suc h') ?t1\<close> own1 sorted1 \<open>length (ents cr) < B\<close> ks(2,3) pos by (intro descend) (auto simp: h)
            then show ?thesis unfolding step using up 2 less_imp_neq [OF 2] by simp blast
          next
            case 3
            have "\<exists>r m' t' fl'. insert_nonfull fuel (ix cl) key v m1 = Some (r, m') \<and> inserted h key v m1 (Nd i ?es (ls @ cl # (cr # rs))) fl1 r m' t' fl'"
              using 3 \<open>tree_wf (Suc h') ?t1\<close> own1 sorted1 \<open>length (ents cl) < B\<close> ks(2,3) pos by (intro descend) (auto simp: h)
            then show ?thesis unfolding step using up 3 less_imp_neq [OF 3] less_not_sym [OF 3] by simp blast
          qed
        qed
      qed
    qed
  qed
qed simp

end
