(* ===== verification/Btree_Remove.thy ===== *)
theory Btree_Remove
  imports Btree_Insert
begin

text \<open>
  Removal from the B-tree of \<^verbatim>\<open>shared_btree_map.rs\<close>: borrowing from a sibling and merging with one keep the entries in order,
  and the recursive removal takes out exactly the key asked for.
\<close>

section \<open>The nodes of a borrow and of a merge\<close>

lemma shrink_has: "node_has n es cs \<Longrightarrow> es \<noteq> [] \<Longrightarrow> node_has (n\<lparr>nd_count := length es - 1\<rparr>) (butlast es) (butlast cs)"
  using take_map_split [of "length es" "nd_keys n" fst es "length es - 1"] take_map_split [of "length es" "nd_values n" snd es "length es - 1"]
  by (cases cs rule: rev_cases) (auto simp: node_defs butlast_conv_take dest: arg_cong [of _ _ butlast])

lemma push_front_has:
  assumes "node_has n es cs" "length es < B"
  shows "node_has (n\<lparr>nd_keys := (shift_up (nd_keys n) (nd_count n) 0)[0 := k], nd_values := (shift_up (nd_values n) (nd_count n) 0)[0 := v],
      nd_children := (if \<not> nd_leaf n then (shift_up (nd_children n) (nd_count n + 1) 0)[0 := z] else nd_children n),
      nd_count := nd_count n + 1\<rparr>) ((k, v) # es) (if cs = [] then [] else z # cs)"
proof -
  have "take (Suc (length es)) ((shift_up (nd_keys n) (length es) 0)[0 := k]) = k # map fst es"
    "take (Suc (length es)) ((shift_up (nd_values n) (length es) 0)[0 := v]) = v # map snd es"
    using assms insert_at [of es "nd_keys n" fst 0 k] insert_at [of es "nd_values n" snd 0 v] by (simp_all add: node_defs)
  moreover have "take (Suc (length cs)) ((shift_up (nd_children n) (length cs) 0)[0 := z]) = z # cs" if "cs \<noteq> []"
    using assms that insert_at [of cs "nd_children n" id 0 z] by (auto simp: node_defs)
  ultimately show ?thesis using assms by (auto simp: node_defs)
qed

lemma push_back_has:
  assumes "node_has n es cs" "length es < B"
  shows "node_has (n\<lparr>nd_keys := (nd_keys n)[nd_count n := k], nd_values := (nd_values n)[nd_count n := v],
      nd_children := (if \<not> nd_leaf n then (nd_children n)[nd_count n + 1 := z] else nd_children n),
      nd_count := nd_count n + 1\<rparr>) (es @ [(k, v)]) (if cs = [] then [] else cs @ [z])"
  using assms by (auto simp: node_defs take_Suc_conv_app_nth)

lemma pop_front_has:
  assumes "node_has n es cs" "es \<noteq> []"
  shows "node_has (n\<lparr>nd_keys := shift_down (nd_keys n) 0 (length es - 1), nd_values := shift_down (nd_values n) 0 (length es - 1),
      nd_children := (if \<not> nd_leaf n then shift_down (nd_children n) 0 (length es) else nd_children n), nd_count := length es - 1\<rparr>) (tl es) (tl cs)"
proof -
  have "take (length es - 1) (shift_down (nd_keys n) 0 (length es - 1)) = map fst (tl es)"
    "take (length es - 1) (shift_down (nd_values n) 0 (length es - 1)) = map snd (tl es)"
    using assms drop_at [of es "nd_keys n" fst 0] drop_at [of es "nd_values n" snd 0] by (simp_all add: node_defs drop_Suc)
  moreover have "take (length es) (shift_down (nd_children n) 0 (length es)) = tl cs" if "cs \<noteq> []"
    using assms that drop_at [of cs "nd_children n" id 0] by (auto simp: node_defs drop_Suc)
  ultimately show ?thesis using assms by (cases cs) (auto simp: node_defs)
qed

lemma node_has_children:
  "node_has n es cs \<Longrightarrow> cs \<noteq> [] \<Longrightarrow> take (Suc (length es)) (nd_children n) = cs \<and> length cs = Suc (length es) \<and> length (nd_children n) = Suc B"
  by (auto simp: node_defs)

lemma merge_left_has:
  assumes "node_has n es cs" "node_has r res rcs" "length es + Suc (length res) \<le> B" "cs = [] \<longleftrightarrow> rcs = []"
  shows "node_has (n\<lparr>nd_keys := copy_to ((nd_keys n)[nd_count n := k]) (nd_count n + 1) (nd_keys r) 0 (nd_count r),
      nd_values := copy_to ((nd_values n)[nd_count n := v]) (nd_count n + 1) (nd_values r) 0 (nd_count r),
      nd_children := (if \<not> nd_leaf n then copy_to (nd_children n) (nd_count n + 1) (nd_children r) 0 (nd_count r + 1) else nd_children n),
      nd_count := nd_count n + 1 + nd_count r\<rparr>) (es @ (k, v) # res) (cs @ rcs)"
proof -
  have f: "take (length es) (nd_keys n) = map fst es" "take (length es) (nd_values n) = map snd es" "take (length res) (nd_keys r) = map fst res"
    "take (length res) (nd_values r) = map snd res" "length (nd_keys n) = B" "length (nd_values n) = B" "length (nd_keys r) = B" "length (nd_values r) = B"
    using assms(1,2) by (simp_all add: node_defs)
  note g = node_has_children [OF assms(1)] node_has_children [OF assms(2)]
  have *: "take (length ys + Suc (length zs)) (copy_to (xs[length ys := x]) (Suc (length ys)) src 0 (length zs)) = map f ys @ x # map f zs"
    if "take (length ys) xs = map f ys" "take (length zs) src = map f zs" "length ys + Suc (length zs) \<le> length xs" "length zs \<le> length src"
    for xs src :: "'c list" and ys zs :: "'d list" and f x
    using that by (simp add: copy_to_append take_Suc_conv_app_nth)
  have "take (length es + Suc (length res)) (copy_to ((nd_keys n)[length es := k]) (Suc (length es)) (nd_keys r) 0 (length res)) = map fst es @ k # map fst res"
    "take (length es + Suc (length res)) (copy_to ((nd_values n)[length es := v]) (Suc (length es)) (nd_values r) 0 (length res)) = map snd es @ v # map snd res"
    by (intro *; use f assms(3) in simp)+
  moreover have "take (length cs + length rcs) (copy_to (nd_children n) (length cs) (nd_children r) 0 (length rcs)) = cs @ rcs" if "cs \<noteq> []"
    using g that assms(3,4) by (simp add: copy_to_append)
  ultimately show ?thesis using assms by (auto simp: node_defs)
qed

lemma merge_parent_has:
  assumes "node_has n es cs" "cs \<noteq> []" "pos < length es"
  shows "node_has (n\<lparr>nd_keys := shift_down (nd_keys n) pos (nd_count n - 1), nd_values := shift_down (nd_values n) pos (nd_count n - 1),
      nd_children := shift_down (nd_children n) (pos + 1) (nd_count n), nd_count := nd_count n - 1\<rparr>)
    (take pos es @ drop (Suc pos) es) (take (Suc pos) cs @ drop (Suc (Suc pos)) cs)"
proof -
  have len: "length cs = Suc (length es)" using assms(1,2) by (simp add: node_has_def)
  have "take (length es - 1) (shift_down (nd_keys n) pos (length es - 1)) = map fst (take pos es) @ map fst (drop (Suc pos) es)"
    "take (length es - 1) (shift_down (nd_values n) pos (length es - 1)) = map snd (take pos es) @ map snd (drop (Suc pos) es)"
    using assms by (intro drop_at; simp add: node_defs)+
  moreover have "take (length es) (shift_down (nd_children n) (Suc pos) (length es)) = take (Suc pos) cs @ drop (Suc (Suc pos)) cs"
    using drop_at [of cs "nd_children n" id "Suc pos"] assms len by (simp add: node_defs)
  moreover have "length (take pos es @ drop (Suc pos) es) = length es - 1" "length (take (Suc pos) cs @ drop (Suc (Suc pos)) cs) = length es"
    using assms(3) len by simp_all
  ultimately show ?thesis using assms by (auto simp: node_defs)
qed

section \<open>Borrowing and merging\<close>

lemma update_mid: "length xs = n \<Longrightarrow> (xs @ y # zs)[n := w] = xs @ w # zs"
  by (simp add: list_update_append)

text \<open>Two neighbouring subtrees change with their parent; the rest stays.\<close>

lemma rewire_pair:
  assumes own: "owns m (Nd i es (ls @ Nd a aes aks # Nd b bes bks # rs)) fl"
    and P: "node_has P es' (map ix (ls @ Nd a aes' aks' # Nd b bes' bks' # rs))"
    and AB: "node_has A aes' (map ix aks')" "node_has Q bes' (map ix bks')"
    and ks: "aks' @ bks' = aks @ bks"
    and m': "m' = m\<lparr>bm_node := (bm_node m)(a := A, b := Q, i := P)\<rparr>"
  shows "moves m (Nd i es (ls @ Nd a aes aks # Nd b bes bks # rs)) fl m' (Nd i es' (ls @ Nd a aes' aks' # Nd b bes' bks' # rs)) fl"
proof -
  let ?t = "Nd i es (ls @ Nd a aes aks # Nd b bes bks # rs)" and ?t' = "Nd i es' (ls @ Nd a aes' aks' # Nd b bes' bks' # rs)"
  have ne: "i \<noteq> a" "i \<noteq> b" "a \<noteq> b" using own by (auto simp: owns_def)
  have set: "set aks' \<union> set bks' = set aks \<union> set bks" using arg_cong [OF ks, of set] by simp
  have kid: "holds_tree m' k" if "k \<in> set ls \<union> (set aks \<union> set bks) \<union> set rs" for k
  proof -
    have "holds_tree m k" "i \<notin> set (ixs k) \<and> a \<notin> set (ixs k) \<and> b \<notin> set (ixs k)" using that own by (auto simp: owns_def)
    then show ?thesis by (rule_tac holds_frame [of m k]) (auto simp: m')
  qed
  have "mset (concat (map ixs aks')) + mset (concat (map ixs bks')) = mset (concat (map ixs aks)) + mset (concat (map ixs bks))"
    using arg_cong [OF ks, of "\<lambda>ks. mset (concat (map ixs ks))"] by simp
  then have "mset (ixs ?t' @ fl) = mset (ixs ?t @ fl)" by simp
  moreover have "holds_tree m' ?t'" using P AB kid ne set by (auto simp: m')
  moreover have "chain (bm_node m') (bm_free_head m') fl" using own
    by (rule_tac chain_frame [of "bm_node m"]) (auto simp: m' owns_def)
  moreover have "\<forall>j. arrays_ok (bm_node m' j)" using own P AB by (auto simp: m' node_has_def owns_def)
  ultimately show ?thesis using own by (intro moves_rewire) (auto simp: m')
qed

lemma kids_last: "ks \<noteq> [] \<Longrightarrow> butlast ks @ [last ks] @ js = ks @ js"
  by simp

lemma borrow_from_left_ok:
  assumes own: "owns m (Nd i (xs @ e # ys) (ls @ Nd a aes aks # Nd b bes bks # rs)) fl" and pos: "length ls = pos" "length xs = pos"
    and aes: "aes \<noteq> []" and bes: "length bes < B" and leaf: "aks = [] \<longleftrightarrow> bks = []"
  shows "moves m (Nd i (xs @ e # ys) (ls @ Nd a aes aks # Nd b bes bks # rs)) fl (borrow_from_left i (Suc pos) m)
    (Nd i (xs @ last aes # ys) (ls @ Nd a (butlast aes) (butlast aks) # Nd b (e # bes) (if bks = [] then [] else last aks # bks) # rs)) fl"
    "bm_len (borrow_from_left i (Suc pos) m) = bm_len m"
proof -
  have n: "node_has (bm_node m i) (xs @ e # ys) (map ix (ls @ Nd a aes aks # Nd b bes bks # rs))"
    "node_has (bm_node m a) aes (map ix aks)" "node_has (bm_node m b) bes (map ix bks)"
    using own by (auto simp: owns_def)
  have ne: "i \<noteq> a" "i \<noteq> b" "a \<noteq> b" using own by (auto simp: owns_def)
  have p: "nd_children (bm_node m i) ! pos = a" "nd_children (bm_node m i) ! Suc pos = b"
    "nd_keys (bm_node m i) ! pos = fst e" "nd_values (bm_node m i) ! pos = snd e"
    using node_has_nth(1,2) [OF n(1), of pos] node_has_nth(3) [OF n(1), of pos] node_has_nth(3) [OF n(1), of "Suc pos"] pos
    by (simp_all add: nth_append)
  have ac: "nd_count (bm_node m a) = length aes" using n(2) by (simp add: node_has_def)
  have al: "nd_keys (bm_node m a) ! (length aes - 1) = fst (last aes)" "nd_values (bm_node m a) ! (length aes - 1) = snd (last aes)"
    using node_has_nth(1,2) [OF n(2), of "length aes - 1"] aes by (simp_all add: last_conv_nth)
  have ak: "nd_children (bm_node m a) ! length aes = ix (last aks)" if "aks \<noteq> []"
    using node_has_nth(3) [OF n(2), of "length aes"] node_has_children [OF n(2)] that by (simp add: last_conv_nth)
  define Q where "Q = (bm_node m b)\<lparr>nd_keys := (shift_up (nd_keys (bm_node m b)) (nd_count (bm_node m b)) 0)[0 := fst e],
    nd_values := (shift_up (nd_values (bm_node m b)) (nd_count (bm_node m b)) 0)[0 := snd e],
    nd_children := (if \<not> nd_leaf (bm_node m b)
       then (shift_up (nd_children (bm_node m b)) (nd_count (bm_node m b) + 1) 0)[0 := nd_children (bm_node m a) ! length aes]
       else nd_children (bm_node m b)), nd_count := nd_count (bm_node m b) + 1\<rparr>"
  have m': "borrow_from_left i (Suc pos) m = m\<lparr>bm_node := (bm_node m)(a := (bm_node m a)\<lparr>nd_count := length aes - 1\<rparr>, b := Q,
      i := set_entry pos (last aes) (bm_node m i))\<rparr>"
    using ne p al ac by (simp add: borrow_from_left_def Let_def upd_node_def Q_def set_entry_def fun_upd_twist)
  have "node_has Q (e # bes) (map ix (if bks = [] then [] else last aks # bks))"
    using push_front_has [OF n(3) bes, where k = "fst e" and v = "snd e" and z = "nd_children (bm_node m a) ! length aes"] ak leaf by (auto simp: Q_def)
  moreover have "node_has (set_entry pos (last aes) (bm_node m i)) (xs @ last aes # ys)
      (map ix (ls @ Nd a (butlast aes) (butlast aks) # Nd b (e # bes) (if bks = [] then [] else last aks # bks) # rs))"
    using set_entry_has [OF n(1), of pos "last aes"] pos by (simp add: update_mid)
  moreover have "node_has ((bm_node m a)\<lparr>nd_count := length aes - 1\<rparr>) (butlast aes) (map ix (butlast aks))"
    using shrink_has [OF n(2) aes] by (simp add: map_butlast)
  ultimately show "moves m (Nd i (xs @ e # ys) (ls @ Nd a aes aks # Nd b bes bks # rs)) fl (borrow_from_left i (Suc pos) m)
    (Nd i (xs @ last aes # ys) (ls @ Nd a (butlast aes) (butlast aks) # Nd b (e # bes) (if bks = [] then [] else last aks # bks) # rs)) fl"
    using leaf by (intro rewire_pair [OF own _ _ _ _ m']) (auto simp: kids_last)
  show "bm_len (borrow_from_left i (Suc pos) m) = bm_len m" by (simp add: m')
qed

lemma borrow_from_right_ok:
  assumes own: "owns m (Nd i (xs @ e # ys) (ls @ Nd a aes aks # Nd b bes bks # rs)) fl" and pos: "length ls = pos" "length xs = pos"
    and bes: "bes \<noteq> []" and aes: "length aes < B" and leaf: "aks = [] \<longleftrightarrow> bks = []"
  shows "moves m (Nd i (xs @ e # ys) (ls @ Nd a aes aks # Nd b bes bks # rs)) fl (borrow_from_right i pos m)
    (Nd i (xs @ hd bes # ys) (ls @ Nd a (aes @ [e]) (if aks = [] then [] else aks @ [hd bks]) # Nd b (tl bes) (tl bks) # rs)) fl"
    "bm_len (borrow_from_right i pos m) = bm_len m"
proof -
  have n: "node_has (bm_node m i) (xs @ e # ys) (map ix (ls @ Nd a aes aks # Nd b bes bks # rs))"
    "node_has (bm_node m a) aes (map ix aks)" "node_has (bm_node m b) bes (map ix bks)"
    using own by (auto simp: owns_def)
  have ne: "i \<noteq> a" "i \<noteq> b" "a \<noteq> b" using own by (auto simp: owns_def)
  have p: "nd_children (bm_node m i) ! pos = a" "nd_children (bm_node m i) ! Suc pos = b"
    "nd_keys (bm_node m i) ! pos = fst e" "nd_values (bm_node m i) ! pos = snd e"
    using node_has_nth(1,2) [OF n(1), of pos] node_has_nth(3) [OF n(1), of pos] node_has_nth(3) [OF n(1), of "Suc pos"] pos
    by (simp_all add: nth_append)
  have bc: "nd_count (bm_node m b) = length bes" using n(3) by (simp add: node_has_def)
  have bl: "nd_keys (bm_node m b) ! 0 = fst (hd bes)" "nd_values (bm_node m b) ! 0 = snd (hd bes)"
    using node_has_nth(1,2) [OF n(3), of 0] bes by (simp_all add: hd_conv_nth)
  have bk: "nd_children (bm_node m b) ! 0 = ix (hd bks)" if "bks \<noteq> []"
    using node_has_nth(3) [OF n(3), of 0] that by (simp add: hd_conv_nth)
  have lf: "nd_leaf (bm_node m a) \<longleftrightarrow> aks = []" "nd_leaf (bm_node m b) \<longleftrightarrow> aks = []" using n(2,3) leaf by (auto simp: node_has_def)
  define A where "A = (bm_node m a)\<lparr>nd_keys := (nd_keys (bm_node m a))[nd_count (bm_node m a) := fst e],
    nd_values := (nd_values (bm_node m a))[nd_count (bm_node m a) := snd e],
    nd_children := (if \<not> nd_leaf (bm_node m a)
       then (nd_children (bm_node m a))[nd_count (bm_node m a) + 1 := nd_children (bm_node m b) ! 0]
       else nd_children (bm_node m a)), nd_count := nd_count (bm_node m a) + 1\<rparr>"
  define Q where "Q = (bm_node m b)\<lparr>nd_keys := shift_down (nd_keys (bm_node m b)) 0 (length bes - 1),
    nd_values := shift_down (nd_values (bm_node m b)) 0 (length bes - 1),
    nd_children := (if \<not> nd_leaf (bm_node m b) then shift_down (nd_children (bm_node m b)) 0 (length bes)
       else nd_children (bm_node m b)), nd_count := length bes - 1\<rparr>"
  have m': "borrow_from_right i pos m = m\<lparr>bm_node := (bm_node m)(a := A, b := Q, i := set_entry pos (hd bes) (bm_node m i))\<rparr>"
    using ne p bl bc lf by (simp add: borrow_from_right_def Let_def upd_node_def A_def Q_def set_entry_def fun_upd_twist)
  have "node_has A (aes @ [e]) (map ix (if aks = [] then [] else aks @ [hd bks]))"
    using push_back_has [OF n(2) aes, where k = "fst e" and v = "snd e" and z = "nd_children (bm_node m b) ! 0"] bk leaf by (auto simp: A_def)
  moreover have "node_has (set_entry pos (hd bes) (bm_node m i)) (xs @ hd bes # ys)
      (map ix (ls @ Nd a (aes @ [e]) (if aks = [] then [] else aks @ [hd bks]) # Nd b (tl bes) (tl bks) # rs))"
    using set_entry_has [OF n(1), of pos "hd bes"] pos by (simp add: update_mid)
  moreover have "node_has Q (tl bes) (map ix (tl bks))" using pop_front_has [OF n(3) bes] by (simp add: Q_def map_tl)
  ultimately show "moves m (Nd i (xs @ e # ys) (ls @ Nd a aes aks # Nd b bes bks # rs)) fl (borrow_from_right i pos m)
    (Nd i (xs @ hd bes # ys) (ls @ Nd a (aes @ [e]) (if aks = [] then [] else aks @ [hd bks]) # Nd b (tl bes) (tl bks) # rs)) fl"
    using leaf by (intro rewire_pair [OF own _ _ _ _ m']) auto
  show "bm_len (borrow_from_right i pos m) = bm_len m" by (simp add: m')
qed

lemma merge_at_ok:
  assumes own: "owns m (Nd i (xs @ e # ys) (ls @ Nd a aes aks # Nd b bes bks # rs)) fl" and pos: "length ls = pos" "length xs = pos"
    and len: "length aes + Suc (length bes) \<le> B" and leaf: "aks = [] \<longleftrightarrow> bks = []"
  shows "moves m (Nd i (xs @ e # ys) (ls @ Nd a aes aks # Nd b bes bks # rs)) fl (merge_at i pos m)
    (Nd i (xs @ ys) (ls @ Nd a (aes @ e # bes) (aks @ bks) # rs)) (b # fl)" "bm_len (merge_at i pos m) = bm_len m"
proof -
  let ?t = "Nd i (xs @ e # ys) (ls @ Nd a aes aks # Nd b bes bks # rs)" and ?t' = "Nd i (xs @ ys) (ls @ Nd a (aes @ e # bes) (aks @ bks) # rs)"
  have n: "node_has (bm_node m i) (xs @ e # ys) (map ix (ls @ Nd a aes aks # Nd b bes bks # rs))"
    "node_has (bm_node m a) aes (map ix aks)" "node_has (bm_node m b) bes (map ix bks)"
    using own by (auto simp: owns_def)
  have ne: "i \<noteq> a" "i \<noteq> b" "a \<noteq> b" using own by (auto simp: owns_def)
  have p: "nd_children (bm_node m i) ! pos = a" "nd_children (bm_node m i) ! Suc pos = b"
    "nd_keys (bm_node m i) ! pos = fst e" "nd_values (bm_node m i) ! pos = snd e"
    using node_has_nth(1,2) [OF n(1), of pos] node_has_nth(3) [OF n(1), of pos] node_has_nth(3) [OF n(1), of "Suc pos"] pos
    by (simp_all add: nth_append)
  let ?N = "bm_node m a" and ?R = "bm_node m b"
  define A where "A = ?N\<lparr>nd_keys := copy_to ((nd_keys ?N)[nd_count ?N := fst e]) (nd_count ?N + 1) (nd_keys ?R) 0 (nd_count ?R),
      nd_values := copy_to ((nd_values ?N)[nd_count ?N := snd e]) (nd_count ?N + 1) (nd_values ?R) 0 (nd_count ?R),
      nd_children := (if \<not> nd_leaf ?N then copy_to (nd_children ?N) (nd_count ?N + 1) (nd_children ?R) 0 (nd_count ?R + 1) else nd_children ?N),
      nd_count := nd_count ?N + 1 + nd_count ?R\<rparr>"
  define P where "P = (bm_node m i)\<lparr>nd_keys := shift_down (nd_keys (bm_node m i)) pos (nd_count (bm_node m i) - 1),
      nd_values := shift_down (nd_values (bm_node m i)) pos (nd_count (bm_node m i) - 1),
      nd_children := shift_down (nd_children (bm_node m i)) (pos + 1) (nd_count (bm_node m i)), nd_count := nd_count (bm_node m i) - 1\<rparr>"
  define Q where "Q = ?R\<lparr>nd_children := (nd_children ?R)[0 := bm_free_head m]\<rparr>"
  have m': "merge_at i pos m = m\<lparr>bm_node := (bm_node m)(a := A, i := P, b := Q), bm_free_head := b\<rparr>"
    using ne p by (simp add: merge_at_def free_node_def Let_def upd_node_def A_def P_def Q_def)
  have AH: "node_has A (aes @ e # bes) (map ix (aks @ bks))"
    using merge_left_has [OF n(2,3) len, where k = "fst e" and v = "snd e"] leaf by (simp add: A_def)
  have PH: "node_has P (xs @ ys) (map ix (ls @ Nd a (aes @ e # bes) (aks @ bks) # rs))"
    using merge_parent_has [OF n(1), of pos] pos by (simp add: P_def)
  have kid: "holds_tree (merge_at i pos m) k" if "k \<in> set ls \<union> (set aks \<union> set bks) \<union> set rs" for k
  proof -
    have "holds_tree m k" "i \<notin> set (ixs k) \<and> a \<notin> set (ixs k) \<and> b \<notin> set (ixs k)" using that own by (auto simp: owns_def)
    then show ?thesis by (rule_tac holds_frame [of m k]) (auto simp: m')
  qed
  have "holds_tree (merge_at i pos m) ?t'" using AH PH kid ne by (auto simp: m')
  moreover have "chain (bm_node (merge_at i pos m)) (bm_free_head m) fl" using own
    by (rule_tac chain_frame [of "bm_node m"]) (auto simp: m' owns_def)
  then have "chain (bm_node (merge_at i pos m)) (bm_free_head (merge_at i pos m)) (b # fl)"
    using owns_not_NIL [OF own, of b] n(3) by (simp add: m' Q_def node_defs)
  moreover have "\<forall>j. arrays_ok (bm_node (merge_at i pos m) j)" using own PH AH by (auto simp: m' Q_def arrays_ok_def node_has_def owns_def)
  ultimately show "moves m ?t fl (merge_at i pos m) ?t' (b # fl)" by (intro moves_rewire [OF own]) (auto simp: m')
  show "bm_len (merge_at i pos m) = bm_len m" by (simp add: m')
qed

end
