(* ===== verification/Btree_Delete.thy ===== *)
theory Btree_Delete
  imports Btree_Remove
begin

text \<open>
  The recursive removal of \<^verbatim>\<open>shared_btree_map.rs\<close>: before every step down the child is brought to more than the least
  number of entries, so that what it loses leaves it well-formed.
\<close>

section \<open>The order is kept\<close>

lemma inorder_pair:
  "length ls = length xs \<Longrightarrow> length rs = length ys \<Longrightarrow>
    inorder (Nd i (xs @ e # ys) (ls @ a # b # rs)) = lefts (map inorder ls) xs @ inorder a @ e # inorder b @ rights ys (map inorder rs)"
  using weave_at [of "map inorder ls" xs "inorder b # map inorder rs" "e # ys" "inorder a"] by simp

lemma borrow_left_inorder:
  assumes "aes \<noteq> []" "aks = [] \<longleftrightarrow> bks = []" "length aks = Suc (length aes) \<or> aks = []"
  shows "inorder (Nd a (butlast aes) (butlast aks)) @ last aes # inorder (Nd b (e # bes) (if bks = [] then [] else last aks # bks)) =
    inorder (Nd a aes aks) @ e # inorder (Nd b bes bks)"
proof (cases "aks = []")
  case False
  have "inorder (Nd a aes aks) = weave (map inorder (butlast aks) @ [inorder (last aks)]) (butlast aes @ last aes # [])"
    using False assms(1) by (metis append_butlast_last_id inorder.simps list.simps(8,9) map_append)
  also have "\<dots> = weave (map inorder (butlast aks)) (butlast aes) @ last aes # inorder (last aks)"
    using weave_split [of "map inorder (butlast aks)" "butlast aes" "[inorder (last aks)]" "last aes" "[]"] False assms(1,3) by simp
  finally show ?thesis using assms(2) False by simp
qed (use assms in simp)

lemma borrow_right_inorder:
  assumes "bes \<noteq> []" "aks = [] \<longleftrightarrow> bks = []" "length aks = Suc (length aes) \<or> aks = []"
  shows "inorder (Nd a (aes @ [e]) (if aks = [] then [] else aks @ [hd bks])) @ hd bes # inorder (Nd b (tl bes) (tl bks)) =
    inorder (Nd a aes aks) @ e # inorder (Nd b bes bks)"
proof (cases "aks = []")
  case False
  have "weave (map inorder aks @ [inorder (hd bks)]) (aes @ e # []) = weave (map inorder aks) aes @ e # inorder (hd bks)"
    using weave_split [of "map inorder aks" aes "[inorder (hd bks)]" e "[]"] False assms(3) by simp
  moreover have "weave (map inorder bks) bes = inorder (hd bks) @ hd bes # weave (map inorder (tl bks)) (tl bes)"
    using assms(1,2) False by (cases bks; cases bes) auto
  ultimately show ?thesis using False assms(2) by simp
qed (use assms in simp)

lemma merge_inorder:
  assumes "aks = [] \<longleftrightarrow> bks = []" "length aks = Suc (length aes) \<or> aks = []"
  shows "inorder (Nd a (aes @ e # bes) (aks @ bks)) = inorder (Nd a aes aks) @ e # inorder (Nd b bes bks)"
  using assms weave_split [of "map inorder aks" aes "map inorder bks" e bes] by (cases "aks = []") auto

lemma ents_inorder: "tree_wf h t \<Longrightarrow> set (ents t) \<subseteq> set (inorder t)"
  using weave_ents [of "map inorder (kids t)" "ents t"] wf_kids [of h "ix t" "ents t" "kids t"] by (cases t) auto

lemma wf_leaf: "tree_wf h (Nd i es ks) \<Longrightarrow> ks = [] \<longleftrightarrow> h = 0"
  by (cases h) auto

lemma wf_node: "length es \<le> B \<Longrightarrow> h = Suc h' \<Longrightarrow> length ks = Suc (length es) \<Longrightarrow> \<forall>k\<in>set ks. tree_wf h' k \<and> T - 1 \<le> length (ents k) \<Longrightarrow> tree_wf h (Nd i es ks)"
  by simp

section \<open>Making room for the step down\<close>

definition prepared :: "nat \<Rightarrow> 'k::linorder \<Rightarrow> ('k, 'v) SharedBTreeMap \<Rightarrow> ('k, 'v) tree \<Rightarrow> u32 list \<Rightarrow> u32 \<Rightarrow> ('k, 'v) SharedBTreeMap \<Rightarrow> bool" where
  "prepared h key m t fl child m1 \<longleftrightarrow> (\<exists>i es ls c rs fl1. moves m t fl m1 (Nd i es (ls @ c # rs)) fl1 \<and>
     inorder (Nd i es (ls @ c # rs)) = inorder t \<and> tree_wf (Suc h) (Nd i es (ls @ c # rs)) \<and> length (ents t) \<le> Suc (length es) \<and>
     child = ix c \<and> T \<le> length (ents c) \<and> bm_len m1 = bm_len m \<and>
     (\<forall>e\<in>set (take (length ls) es). fst e < key) \<and> (\<forall>e\<in>set (drop (length ls) es). key < fst e))"

text \<open>The two neighbours a borrow or a merge works on.\<close>

lemma prepared_borrow_left:
  assumes own: "owns m (Nd i (xs @ e # ys) (ls @ Nd a aes aks # Nd b bes bks # rs)) fl"
    and wf: "tree_wf (Suc h) (Nd i (xs @ e # ys) (ls @ Nd a aes aks # Nd b bes bks # rs))"
    and sorted: "bt_sorted (inorder (Nd i (xs @ e # ys) (ls @ Nd a aes aks # Nd b bes bks # rs)))"
    and len: "length ls = length xs" and few: "length bes < T" "T \<le> length aes"
    and key: "\<forall>e\<in>set (xs @ [e]). fst e < key" "\<forall>e\<in>set ys. key < fst e"
  shows "prepared h key m (Nd i (xs @ e # ys) (ls @ Nd a aes aks # Nd b bes bks # rs)) fl b (borrow_from_left i (Suc (length xs)) m)"
proof -
  let ?t = "Nd i (xs @ e # ys) (ls @ Nd a aes aks # Nd b bes bks # rs)"
  let ?a = "Nd a (butlast aes) (butlast aks)" and ?b = "Nd b (e # bes) (if bks = [] then [] else last aks # bks)"
  let ?t1 = "Nd i (xs @ last aes # ys) (ls @ ?a # ?b # rs)"
  have rs: "length rs = length ys" using wf len by simp
  have wfa: "tree_wf h (Nd a aes aks)" and wfb: "tree_wf h (Nd b bes bks)" "T - 1 \<le> length bes" using wf by auto
  have leaf: "aks = [] \<longleftrightarrow> bks = []" using wf_leaf [OF wfa] wf_leaf [OF wfb(1)] by simp
  have aes: "aes \<noteq> []" using few(2) by (auto simp: T_def)
  have bes: "length bes < B" using few(1) by (simp add: B_def T_def)
  note mv = borrow_from_left_ok [OF own len refl aes bes leaf]
  have io: "inorder ?t1 = inorder ?t"
    using borrow_left_inorder [OF aes leaf wf_kids [OF wfa], of a b e bes] by (simp only: inorder_pair [OF len rs] append_Cons [symmetric] append_assoc [symmetric])
  have "tree_wf h ?a" using wfa few(2) by (cases h) (auto simp: T_def dest: in_set_butlastD)
  moreover have "tree_wf h ?b" using wfb wfa leaf bes by (cases h) (auto simp: T_def)
  ultimately have "tree_wf (Suc h) ?t1" using wf few(2) wfb(2) by (auto simp: T_def)
  moreover have "last aes \<in> set (inorder (Nd a aes aks))" using ents_inorder [OF wfa] aes by auto
  then have "fst (last aes) < fst e" using sorted unfolding inorder_pair [OF len rs] by (auto simp: sorted_wrt_append)
  then have "\<forall>e\<in>set (take (length (ls @ [?a])) (xs @ last aes # ys)). fst e < key" using key(1) len by auto
  moreover have "\<forall>e\<in>set (drop (length (ls @ [?a])) (xs @ last aes # ys)). key < fst e" using key(2) len by simp
  ultimately show ?thesis unfolding prepared_def using mv io few wfb(2)
    by (intro exI [of _ i] exI [of _ "xs @ last aes # ys"] exI [of _ "ls @ [?a]"] exI [of _ ?b] exI [of _ rs] exI [of _ fl]) (simp add: T_def)
qed

lemma prepared_borrow_right:
  assumes own: "owns m (Nd i (xs @ e # ys) (ls @ Nd a aes aks # Nd b bes bks # rs)) fl"
    and wf: "tree_wf (Suc h) (Nd i (xs @ e # ys) (ls @ Nd a aes aks # Nd b bes bks # rs))"
    and sorted: "bt_sorted (inorder (Nd i (xs @ e # ys) (ls @ Nd a aes aks # Nd b bes bks # rs)))"
    and len: "length ls = length xs" and few: "length aes < T" "T \<le> length bes"
    and key: "\<forall>e\<in>set xs. fst e < key" "\<forall>e\<in>set (e # ys). key < fst e"
  shows "prepared h key m (Nd i (xs @ e # ys) (ls @ Nd a aes aks # Nd b bes bks # rs)) fl a (borrow_from_right i (length xs) m)"
proof -
  let ?t = "Nd i (xs @ e # ys) (ls @ Nd a aes aks # Nd b bes bks # rs)"
  let ?a = "Nd a (aes @ [e]) (if aks = [] then [] else aks @ [hd bks])" and ?b = "Nd b (tl bes) (tl bks)"
  let ?t1 = "Nd i (xs @ hd bes # ys) (ls @ ?a # ?b # rs)"
  have rs: "length rs = length ys" using wf len by simp
  have wfa: "tree_wf h (Nd a aes aks)" "T - 1 \<le> length aes" and wfb: "tree_wf h (Nd b bes bks)" using wf by auto
  have leaf: "aks = [] \<longleftrightarrow> bks = []" using wf_leaf [OF wfa(1)] wf_leaf [OF wfb] by simp
  have bes: "bes \<noteq> []" using few(2) by (auto simp: T_def)
  have aes: "length aes < B" using few(1) by (simp add: B_def T_def)
  note mv = borrow_from_right_ok [OF own len refl bes aes leaf]
  have io: "inorder ?t1 = inorder ?t"
    using borrow_right_inorder [OF bes leaf wf_kids [OF wfa(1)], of a e b] by (simp only: inorder_pair [OF len rs] append_Cons [symmetric] append_assoc [symmetric])
  have "tree_wf h ?b" using wfb few(2) by (cases h; cases bks) (auto simp: T_def)
  moreover have "tree_wf h ?a" using wfb wfa leaf aes by (cases h) (auto simp: T_def)
  ultimately have "tree_wf (Suc h) ?t1" using wf few(2) wfa(2) by (auto simp: T_def)
  moreover have "hd bes \<in> set (inorder (Nd b bes bks))" using ents_inorder [OF wfb] bes by auto
  then have "fst e < fst (hd bes)" using sorted unfolding inorder_pair [OF len rs] by (auto simp: sorted_wrt_append)
  then have "\<forall>e\<in>set (drop (length ls) (xs @ hd bes # ys)). key < fst e" using key(2) len by (auto intro: less_trans)
  moreover have "\<forall>e\<in>set (take (length ls) (xs @ hd bes # ys)). fst e < key" using key(1) len by simp
  ultimately show ?thesis unfolding prepared_def using mv io few wfa(2)
    by (intro exI [of _ i] exI [of _ "xs @ hd bes # ys"] exI [of _ ls] exI [of _ ?a] exI [of _ "?b # rs"] exI [of _ fl]) (simp add: T_def)
qed

lemma prepared_merge:
  assumes own: "owns m (Nd i (xs @ e # ys) (ls @ Nd a aes aks # Nd b bes bks # rs)) fl"
    and wf: "tree_wf (Suc h) (Nd i (xs @ e # ys) (ls @ Nd a aes aks # Nd b bes bks # rs))"
    and len: "length ls = length xs" and few: "length aes < T" "length bes < T"
    and key: "\<forall>e\<in>set xs. fst e < key" "\<forall>e\<in>set ys. key < fst e"
  shows "prepared h key m (Nd i (xs @ e # ys) (ls @ Nd a aes aks # Nd b bes bks # rs)) fl a (merge_at i (length xs) m)"
    "nd_children (bm_node (merge_at i (length xs) m) i) ! length xs = a"
proof -
  let ?t = "Nd i (xs @ e # ys) (ls @ Nd a aes aks # Nd b bes bks # rs)"
  let ?a = "Nd a (aes @ e # bes) (aks @ bks)"
  let ?t1 = "Nd i (xs @ ys) (ls @ ?a # rs)"
  have rs: "length rs = length ys" using wf len by simp
  have wfa: "tree_wf h (Nd a aes aks)" "T - 1 \<le> length aes" and wfb: "tree_wf h (Nd b bes bks)" "T - 1 \<le> length bes" using wf by auto
  have leaf: "aks = [] \<longleftrightarrow> bks = []" using wf_leaf [OF wfa(1)] wf_leaf [OF wfb(1)] by simp
  have "length aes + Suc (length bes) \<le> B" using few by (simp add: B_def T_def)
  note mv = merge_at_ok [OF own len refl this leaf]
  have io: "inorder ?t1 = inorder ?t"
    using merge_inorder [OF leaf wf_kids [OF wfa(1)], of a e bes b] weave_at [of "map inorder ls" xs "map inorder rs" ys "inorder ?a"] len rs
    unfolding inorder_pair [OF len rs] by simp
  have "tree_wf h ?a" using wfa wfb few by (cases h) (auto simp: B_def T_def)
  then have "tree_wf (Suc h) ?t1" using wf few(2) wfa(2) by (auto simp: T_def)
  moreover have "\<forall>e\<in>set (take (length ls) (xs @ ys)). fst e < key" "\<forall>e\<in>set (drop (length ls) (xs @ ys)). key < fst e" using key len by auto
  ultimately show "prepared h key m ?t fl a (merge_at i (length xs) m)" unfolding prepared_def using mv io wfa(2) wfb(2)
    by (intro exI [of _ i] exI [of _ "xs @ ys"] exI [of _ ls] exI [of _ ?a] exI [of _ rs] exI [of _ "b # fl"]) (simp add: T_def)
  have "node_has (bm_node (merge_at i (length xs) m) i) (xs @ ys) (map ix (ls @ ?a # rs))" using mv(1) by (simp add: moves_def owns_def)
  from node_has_nth(3) [OF this, of "length xs"] len show "nd_children (bm_node (merge_at i (length xs) m) i) ! length xs = a" by (simp add: nth_append)
qed

lemma pair_at:
  assumes "node_has n es (map ix ks)" "ks \<noteq> []" "pos < length es"
  obtains ls a aes aks b bes bks rs where "ks = ls @ Nd a aes aks # Nd b bes bks # rs" "length ls = length (take pos es)"
    "nd_children n ! pos = a" "nd_children n ! Suc pos = b" "es = take pos es @ es ! pos # drop (Suc pos) es"
proof -
  have len: "length ks = Suc (length es)" using assms(1,2) by (simp add: node_has_def)
  have ks: "ks = take pos ks @ ks ! pos # ks ! Suc pos # drop (Suc (Suc pos)) ks"
    using len assms(3) id_take_nth_drop [of pos ks] Cons_nth_drop_Suc [of "Suc pos" ks] by simp
  have "nd_children n ! pos = ix (ks ! pos)" "nd_children n ! Suc pos = ix (ks ! Suc pos)"
    using node_has_nth(3) [OF assms(1), of pos] node_has_nth(3) [OF assms(1), of "Suc pos"] len assms(3) by simp_all
  with ks len assms(3) show ?thesis
    by (intro that [of "take pos ks" "ix (ks ! pos)" "ents (ks ! pos)" "kids (ks ! pos)" "ix (ks ! Suc pos)" "ents (ks ! Suc pos)" "kids (ks ! Suc pos)"])
      (simp_all add: id_take_nth_drop [symmetric])
qed

lemma prepared_merge_at:
  assumes own: "owns m (Nd i es ks) fl" and wf: "tree_wf (Suc h) (Nd i es ks)" and p: "p < length es"
    and few: "length (ents (ks ! p)) < T" "length (ents (ks ! Suc p)) < T"
    and key: "\<forall>e\<in>set (take p es). fst e < key" "\<forall>e\<in>set (drop (Suc p) es). key < fst e"
  shows "prepared h key m (Nd i es ks) fl (ix (ks ! p)) (merge_at i p m)" "nd_children (bm_node (merge_at i p m) i) ! p = ix (ks ! p)"
proof -
  have n: "node_has (bm_node m i) es (map ix ks)" and ks: "ks \<noteq> []" using own wf by (auto simp: owns_def)
  obtain ls a aes aks b bes bks rs where pair: "ks = ls @ Nd a aes aks # Nd b bes bks # rs" "length ls = length (take p es)"
    "es = take p es @ es ! p # drop (Suc p) es" by (rule pair_at [OF n ks p])
  have len: "length (take p es) = p" using p by simp
  have c: "ks ! p = Nd a aes aks" "ks ! Suc p = Nd b bes bks" using pair(1,2) len by (simp_all add: nth_append)
  have "owns m (Nd i (take p es @ es ! p # drop (Suc p) es) (ls @ Nd a aes aks # Nd b bes bks # rs)) fl"
    "tree_wf (Suc h) (Nd i (take p es @ es ! p # drop (Suc p) es) (ls @ Nd a aes aks # Nd b bes bks # rs))"
    unfolding pair(1,3) [symmetric] by (rule own, rule wf)
  note merge = prepared_merge [OF this pair(2) _ _ key, unfolded len, folded pair(1,3)]
  show "prepared h key m (Nd i es ks) fl (ix (ks ! p)) (merge_at i p m)" "nd_children (bm_node (merge_at i p m) i) ! p = ix (ks ! p)"
    using merge few by (simp_all add: c)
qed

lemma ensure_min_degree_ok:
  assumes own: "owns m (Nd i es ks) fl" and wf: "tree_wf (Suc h) (Nd i es ks)" and sorted: "bt_sorted (inorder (Nd i es ks))"
    and es: "es \<noteq> []" and pos: "pos \<le> length es"
    and key: "\<forall>e\<in>set (take pos es). fst e < key" "\<forall>e\<in>set (drop pos es). key < fst e"
    and r: "ensure_min_degree i pos m = (child, m1)"
  shows "prepared h key m (Nd i es ks) fl child m1"
proof -
  have n: "node_has (bm_node m i) es (map ix ks)" using own by (simp add: owns_def)
  have ks: "ks \<noteq> []" using wf by auto
  have cnt: "nd_count (bm_node m (ix k)) = length (ents k)" if "k \<in> set ks" for k
    using that own holds_ents [of m k] by (auto simp: owns_def node_has_def)
  have pc: "nd_count (bm_node m i) = length es" using n by (simp add: node_has_def)
  obtain ls c rs where at: "ks = ls @ c # rs" "length ls = pos" "nd_children (bm_node m i) ! pos = ix c" using kids_at [OF n ks pos] by blast
  have c: "ks ! pos = c" "nd_count (bm_node m (ix c)) = length (ents c)" using at cnt [of c] by (simp_all add: nth_append)
  show ?thesis
  proof (cases "T \<le> length (ents c)")
    case True
    then have "child = ix c" "m1 = m" using r at c by (simp_all add: ensure_min_degree_def Let_def)
    with True own wf at key pos show ?thesis unfolding prepared_def
      by (intro exI [of _ i] exI [of _ es] exI [of _ ls] exI [of _ c] exI [of _ rs] exI [of _ fl]) (simp add: moves_refl)
  next
    case few: False
    have left: "prepared h key m (Nd i es ks) fl child m1"
      if p: "pos = Suc p" and r: "(child, m1) = (if T \<le> nd_count (bm_node m (nd_children (bm_node m i) ! p)) then (ix c, borrow_from_left i pos m)
          else (nd_children (bm_node (merge_at i p m) i) ! p, merge_at i p m))" for p
    proof -
      have "p < length es" using pos p by simp
      obtain ls a aes aks b bes bks rs where pair: "ks = ls @ Nd a aes aks # Nd b bes bks # rs" "length ls = length (take p es)"
        "nd_children (bm_node m i) ! p = a" "nd_children (bm_node m i) ! Suc p = b" "es = take p es @ es ! p # drop (Suc p) es"
        by (rule pair_at [OF n ks \<open>p < length es\<close>])
      have "length ls = p" using pair(2) \<open>p < length es\<close> by simp
      then have cb: "c = Nd b bes bks" using c(1) p pair(1) by (simp add: nth_append)
      have ca: "nd_count (bm_node m a) = length aes" using cnt [of "Nd a aes aks"] pair(1) by simp
      have k: "\<forall>e\<in>set (take p es @ [es ! p]). fst e < key" "\<forall>e\<in>set (drop (Suc p) es). key < fst e"
        using key p \<open>p < length es\<close> by (simp_all add: take_Suc_conv_app_nth)
      show ?thesis
      proof (cases "T \<le> length aes")
        case True
        then have "prepared h key m (Nd i (take p es @ es ! p # drop (Suc p) es) ks) fl b (borrow_from_left i (Suc (length (take p es))) m)"
          unfolding pair(1) using own wf sorted few cb k pair(1,2,5) by (intro prepared_borrow_left) auto
        then show ?thesis using r True pair(3,5) ca cb p \<open>p < length es\<close> by simp
      next
        case False
        then have "length (ents (ks ! p)) < T" "length (ents (ks ! Suc p)) < T" using few cb pair(1) \<open>length ls = p\<close> by (simp_all add: nth_append)
        from prepared_merge_at [OF own wf \<open>p < length es\<close> this, of key] k r False pair(3) ca show ?thesis by simp
      qed
    qed
    have right: "prepared h key m (Nd i es ks) fl child m1"
      if p: "pos < length es" and r: "(child, m1) = (if T \<le> nd_count (bm_node m (nd_children (bm_node m i) ! Suc pos)) then (ix c, borrow_from_right i pos m)
          else (nd_children (bm_node (merge_at i pos m) i) ! pos, merge_at i pos m))"
    proof -
      obtain ls a aes aks b bes bks rs where pair: "ks = ls @ Nd a aes aks # Nd b bes bks # rs" "length ls = length (take pos es)"
        "nd_children (bm_node m i) ! pos = a" "nd_children (bm_node m i) ! Suc pos = b" "es = take pos es @ es ! pos # drop (Suc pos) es"
        by (rule pair_at [OF n ks p])
      have "length ls = pos" using pair(2) p by simp
      then have ca: "c = Nd a aes aks" using c(1) pair(1) by (simp add: nth_append)
      have cb: "nd_count (bm_node m b) = length bes" using cnt [of "Nd b bes bks"] pair(1) by simp
      have k: "\<forall>e\<in>set (es ! pos # drop (Suc pos) es). key < fst e" using key(2) p by (simp add: Cons_nth_drop_Suc)
      show ?thesis
      proof (cases "T \<le> length bes")
        case True
        then have "prepared h key m (Nd i (take pos es @ es ! pos # drop (Suc pos) es) ks) fl a (borrow_from_right i (length (take pos es)) m)"
          unfolding pair(1) using own wf sorted few ca k key(1) pair(1,2,5) by (intro prepared_borrow_right) auto
        then show ?thesis using r True pair(4,5) ca cb p by simp
      next
        case False
        then have "length (ents (ks ! pos)) < T" "length (ents (ks ! Suc pos)) < T" using few ca pair(1) \<open>length ls = pos\<close> by (simp_all add: nth_append)
        from prepared_merge_at [OF own wf p this, of key] key(1) k r False pair(4) cb show ?thesis by simp
      qed
    qed
    show ?thesis
    proof (cases "0 < pos \<and> T \<le> nd_count (bm_node m (nd_children (bm_node m i) ! (pos - 1)))")
      case True
      then show ?thesis using left [of "pos - 1"] r few at(3) c(2) by (simp add: ensure_min_degree_def Let_def)
    next
      case nl: False
      show ?thesis
      proof (cases "pos < length es")
        case True
        then show ?thesis using right r few at(3) c(2) nl pc by (auto simp: ensure_min_degree_def Let_def split: if_splits)
      next
        case False
        then have "0 < pos" using es pos by (cases pos) auto
        then show ?thesis using left [of "pos - 1"] r few at(3) c(2) nl pc False by (auto simp: ensure_min_degree_def Let_def)
      qed
    qed
  qed
qed

section \<open>The ends of a subtree\<close>

lemma inorder_nonempty: "tree_wf h t \<Longrightarrow> ents t \<noteq> [] \<Longrightarrow> inorder t \<noteq> []"
  using ents_inorder [of h t] by auto

lemma max_pair_ok:
  assumes "holds_tree m t" "tree_wf h t" "ents t \<noteq> []" "h < fuel"
  shows "max_pair fuel (ix t) m = Some (last (inorder t))"
  using assms
proof (induction fuel arbitrary: h t)
  case (Suc fuel)
  obtain i es ks where t: "t = Nd i es ks" by (cases t)
  have n: "node_has (bm_node m i) es (map ix ks)" using Suc.prems(1) by (simp add: t)
  show ?case
  proof (cases h)
    case 0
    then show ?thesis using Suc.prems n node_has_nth(1,2) [OF n, of "length es - 1"]
      by (simp add: t Let_def node_has_def last_conv_nth)
  next
    case (Suc h')
    obtain ks' k where ks: "ks = ks' @ [k]" "length ks' = length es" using Suc.prems(2) by (cases ks rule: rev_cases) (auto simp: t Suc)
    have k: "holds_tree m k" "tree_wf h' k" "ents k \<noteq> []" using Suc.prems(1,2) by (auto simp: t Suc ks T_def)
    have "max_pair fuel (ix k) m = Some (last (inorder k))" using Suc.IH [OF k] Suc.prems(4) by (simp add: Suc)
    moreover have "nd_children (bm_node m i) ! length es = ix k" using node_has_nth(3) [OF n, of "length es"] by (simp add: ks nth_append)
    moreover have "inorder t = lefts (map inorder ks') es @ inorder k"
      using weave_at [of "map inorder ks'" es "[]" "[]" "inorder k"] ks(2) by (simp add: t ks)
    ultimately show ?thesis using n inorder_nonempty [OF k(2,3)] ks by (simp add: t Let_def node_has_def)
  qed
qed simp

lemma min_pair_ok:
  assumes "holds_tree m t" "tree_wf h t" "ents t \<noteq> []" "h < fuel"
  shows "min_pair fuel (ix t) m = Some (hd (inorder t))"
  using assms
proof (induction fuel arbitrary: h t)
  case (Suc fuel)
  obtain i es ks where t: "t = Nd i es ks" by (cases t)
  have n: "node_has (bm_node m i) es (map ix ks)" using Suc.prems(1) by (simp add: t)
  show ?case
  proof (cases h)
    case 0
    then show ?thesis using Suc.prems n node_has_nth(1,2) [OF n, of 0] by (simp add: t Let_def node_has_def hd_conv_nth)
  next
    case (Suc h')
    obtain k ks' where ks: "ks = k # ks'" "length ks' = length es" using Suc.prems(2) by (cases ks) (auto simp: t Suc)
    have k: "holds_tree m k" "tree_wf h' k" "ents k \<noteq> []" using Suc.prems(1,2) by (auto simp: t Suc ks T_def)
    have "min_pair fuel (ix k) m = Some (hd (inorder k))" using Suc.IH [OF k] Suc.prems(4) by (simp add: Suc)
    moreover have "nd_children (bm_node m i) ! 0 = ix k" using node_has_nth(3) [OF n, of 0] by (simp add: ks)
    moreover have "inorder t = inorder k @ rights es (map inorder ks')" using weave_rights [of "map inorder ks'" es] ks(2) by (simp add: t ks)
    ultimately show ?thesis using n inorder_nonempty [OF k(2,3)] ks by (simp add: t Let_def node_has_def)
  qed
qed simp

section \<open>Removal\<close>

definition removed :: "nat \<Rightarrow> 'k::linorder \<Rightarrow> ('k, 'v) SharedBTreeMap \<Rightarrow> ('k, 'v) tree \<Rightarrow> u32 list \<Rightarrow>
    'v option \<Rightarrow> ('k, 'v) SharedBTreeMap \<Rightarrow> ('k, 'v) tree \<Rightarrow> u32 list \<Rightarrow> bool" where
  "removed h key m t fl r m' t' fl' \<longleftrightarrow> moves m t fl m' t' fl' \<and> tree_wf h t' \<and> length (ents t) \<le> Suc (length (ents t')) \<and>
     r = bt_get (inorder t) key \<and> inorder t' = bt_remove key (inorder t) \<and> bm_len m' = bm_len m"

lemma bt_remove_one: "\<forall>e\<in>set xs. fst e < k \<Longrightarrow> \<forall>e\<in>set zs. k < fst e \<Longrightarrow> bt_remove k (xs @ (k, v) # zs) = xs @ zs"
  for k :: "'k::linorder"
  using bt_remove_mid [of xs k zs "[(k, v)]"] by (simp add: bt_remove_def bt_retain_def)

lemma bt_remove_last: "bt_sorted xs \<Longrightarrow> xs \<noteq> [] \<Longrightarrow> bt_remove (fst (last xs)) xs = butlast xs"
  for xs :: "('k::linorder \<times> 'v) list"
  using bt_remove_one [of "butlast xs" "fst (last xs)" "[]" "snd (last xs)"] by (cases xs rule: rev_cases) (auto simp: sorted_wrt_append)

lemma bt_remove_hd: "bt_sorted xs \<Longrightarrow> xs \<noteq> [] \<Longrightarrow> bt_remove (fst (hd xs)) xs = tl xs"
  for xs :: "('k::linorder \<times> 'v) list"
  using bt_remove_one [of "[]" "fst (hd xs)" "tl xs" "snd (hd xs)"] by (cases xs) auto

lemma removed_prepared:
  assumes prep: "prepared h key m t fl child m1" and sorted: "bt_sorted (inorder t)"
    and IH: "\<And>c fl1. owns m1 c fl1 \<Longrightarrow> tree_wf h c \<Longrightarrow> bt_sorted (inorder c) \<Longrightarrow> ents c \<noteq> [] \<Longrightarrow> ix c = child \<Longrightarrow>
      \<exists>r m' c' fl'. delete_from fuel child key m1 = Some (r, m') \<and> removed h key m1 c fl1 r m' c' fl'"
  shows "\<exists>r m' t' fl'. delete_from fuel child key m1 = Some (r, m') \<and> removed (Suc h) key m t fl r m' t' fl'"
proof -
  from prep obtain i es ls c rs fl1 where t1: "moves m t fl m1 (Nd i es (ls @ c # rs)) fl1"
    "inorder (Nd i es (ls @ c # rs)) = inorder t" "tree_wf (Suc h) (Nd i es (ls @ c # rs))" "length (ents t) \<le> Suc (length es)"
    "child = ix c" "T \<le> length (ents c)" "bm_len m1 = bm_len m"
    "\<forall>e\<in>set (take (length ls) es). fst e < key" "\<forall>e\<in>set (drop (length ls) es). key < fst e" unfolding prepared_def by blast
  have own1: "owns m1 (Nd i es (ls @ c # rs)) fl1" using t1(1) unfolding moves_def by (rule conjunct1)
  have len: "length rs = length es - length ls" "length ls \<le> length es" using t1(3) by auto
  have sorted1: "bt_sorted (inorder (Nd i es (ls @ c # rs)))" using sorted t1(2) by simp
  from around [OF refl len sorted1 t1(8,9)] obtain xs zs where
    at: "\<And>c'. inorder (Nd i es (ls @ c' # rs)) = xs @ inorder c' @ zs" "\<forall>e\<in>set xs. fst e < key" "\<forall>e\<in>set zs. key < fst e" by blast
  have c: "owns m1 c fl1" "tree_wf h c" "bt_sorted (inorder c)" "ents c \<noteq> []"
    using owns_child(1) [OF own1] t1(3,6) sorted1 unfolding at(1) by (auto simp: sorted_wrt_append T_def)
  from IH [OF c] t1(5) obtain r m' c' fl' where del: "delete_from fuel child key m1 = Some (r, m')" "removed h key m1 c fl1 r m' c' fl'" by blast
  let ?t' = "Nd i es (ls @ c' # rs)"
  have "moves m t fl m' ?t' fl'" using moves_trans [OF t1(1) moves_child [OF own1]] del(2) by (simp add: removed_def)
  moreover have "tree_wf (Suc h) ?t'" using t1(3,6) del(2) by (auto simp: removed_def T_def)
  moreover have "inorder ?t' = bt_remove key (inorder t)" "bt_get (inorder t) key = r"
    using del(2) bt_remove_mid [OF at(2,3)] bt_get_mid [OF at(2,3)] unfolding t1(2) [symmetric] at(1) by (simp_all add: removed_def)
  ultimately have "removed (Suc h) key m t fl r m' ?t' fl'" using t1(4,7) del(2) by (simp add: removed_def)
  with del(1) show ?thesis by blast
qed

text \<open>The entry found is replaced by a neighbour, which is then removed from its subtree.\<close>

lemma removed_neighbour:
  assumes own: "owns m (Nd i (xs @ (key, w) # ys) (ls @ a # b # rs)) fl" and wf: "tree_wf (Suc h) (Nd i (xs @ (key, w) # ys) (ls @ a # b # rs))"
    and sorted: "bt_sorted (inorder (Nd i (xs @ (key, w) # ys) (ls @ a # b # rs)))" and len: "length ls = length xs"
    and mv: "moves m (Nd i (xs @ (key, w) # ys) (ls @ a # b # rs)) fl m' (Nd i (xs @ e # ys) (ls @ a' # b' # rs)) fl'" "bm_len m' = bm_len m"
    and kids: "tree_wf h a'" "tree_wf h b'" "T - 1 \<le> length (ents a')" "T - 1 \<le> length (ents b')"
    and io: "inorder a' @ e # inorder b' = inorder a @ inorder b"
  shows "removed (Suc h) key m (Nd i (xs @ (key, w) # ys) (ls @ a # b # rs)) fl (Some w) m' (Nd i (xs @ e # ys) (ls @ a' # b' # rs)) fl'"
proof -
  have rs: "length rs = length ys" using wf len by simp
  note t = inorder_pair [OF len rs]
  let ?A = "lefts (map inorder ls) xs @ inorder a" and ?Z = "inorder b @ rights ys (map inorder rs)"
  have "\<forall>e\<in>set ?A. fst e < key" "\<forall>e\<in>set ?Z. key < fst e" using sorted unfolding t by (auto simp: sorted_wrt_append)
  note rm = bt_remove_one [OF this, of w] bt_get_mid [OF this, of "[(key, w)]"]
  have "inorder (Nd i (xs @ e # ys) (ls @ a' # b' # rs)) = ?A @ ?Z" using io unfolding t by (metis append.assoc append_Cons)
  moreover have "bt_remove key (inorder (Nd i (xs @ (key, w) # ys) (ls @ a # b # rs))) = ?A @ ?Z"
    "bt_get (inorder (Nd i (xs @ (key, w) # ys) (ls @ a # b # rs))) key = Some w"
    using rm unfolding t by simp_all
  ultimately show ?thesis using mv wf kids unfolding removed_def by (simp del: inorder.simps)
qed

lemma removed_leaf:
  assumes "owns m (Nd i es []) fl" "tree_wf h (Nd i es [])" "bt_sorted es" "pos < length es" "es ! pos = (key, w)"
  shows "\<exists>t'. removed h key m (Nd i es []) fl (Some w) (upd_node i (leaf_remove pos) m) t' fl"
proof -
  let ?t' = "Nd i (take pos es @ drop (Suc pos) es) []"
  have n: "node_has (bm_node m i) es []" using assms(1) by (simp add: owns_def)
  have es: "es = take pos es @ (key, w) # drop (Suc pos) es" using assms(4,5) id_take_nth_drop by metis
  then have "bt_sorted (take pos es @ (key, w) # drop (Suc pos) es)" using assms(3) by simp
  then have around: "\<forall>e\<in>set (take pos es). fst e < key" "\<forall>e\<in>set (drop (Suc pos) es). key < fst e" by (auto simp: sorted_wrt_append)
  have "moves m (Nd i es []) fl (upd_node i (leaf_remove pos) m) ?t' fl"
    using leaf_remove_has [OF n assms(4)] by (intro moves_node [OF assms(1)]) simp
  moreover have "h = 0" using assms(2) by (cases h) auto
  moreover have "bt_remove key es = take pos es @ drop (Suc pos) es" "bt_get es key = Some w"
    using bt_remove_one [OF around, of w] bt_get_mid [OF around, of "[(key, w)]"] es by simp_all
  moreover have "length es - 1 \<le> B" using assms(2) \<open>h = 0\<close> by simp
  ultimately show ?thesis using assms(4) by (intro exI [of _ ?t']) (auto simp: removed_def upd_node_def)
qed

lemma pair_kids:
  assumes "owns m (Nd i (xs @ e # ys) (ls @ a # b # rs)) fl" "tree_wf (Suc h) (Nd i (xs @ e # ys) (ls @ a # b # rs))"
    "bt_sorted (inorder (Nd i (xs @ e # ys) (ls @ a # b # rs)))" "length ls = length xs"
  shows "tree_wf h a" "tree_wf h b" "T - 1 \<le> length (ents a)" "T - 1 \<le> length (ents b)" "holds_tree m a" "holds_tree m b"
    "bt_sorted (inorder a)" "bt_sorted (inorder b)" "ents a \<noteq> []" "ents b \<noteq> []"
    "nd_children (bm_node m i) ! length xs = ix a" "nd_children (bm_node m i) ! Suc (length xs) = ix b"
    "nd_count (bm_node m (ix a)) = length (ents a)" "nd_count (bm_node m (ix b)) = length (ents b)"
proof -
  show wf: "tree_wf h a" "tree_wf h b" "T - 1 \<le> length (ents a)" "T - 1 \<le> length (ents b)" using assms(2) by simp_all
  then show "ents a \<noteq> []" "ents b \<noteq> []" by (auto simp: T_def)
  show holds_tree: "holds_tree m a" "holds_tree m b" using assms(1) by (simp_all add: owns_def)
  then show "nd_count (bm_node m (ix a)) = length (ents a)" "nd_count (bm_node m (ix b)) = length (ents b)"
    using holds_ents [of m a] holds_ents [of m b] by (simp_all add: node_has_def)
  have "length rs = length ys" using assms(2,4) by simp
  note io = inorder_pair [OF assms(4) this, of i e a b]
  show "bt_sorted (inorder a)" "bt_sorted (inorder b)" using assms(3) unfolding io by (simp_all add: sorted_wrt_append)
  have n: "node_has (bm_node m i) (xs @ e # ys) (map ix (ls @ a # b # rs))" using assms(1) by (simp add: owns_def)
  show "nd_children (bm_node m i) ! length xs = ix a" "nd_children (bm_node m i) ! Suc (length xs) = ix b"
    using node_has_nth(3) [OF n, of "length xs"] node_has_nth(3) [OF n, of "Suc (length xs)"] assms(4) by (simp_all add: nth_append)
qed

lemma replace_entry:
  assumes "owns m (Nd i (xs @ e # ys) ks) fl"
  shows "moves m (Nd i (xs @ e # ys) ks) fl (upd_node i (set_entry (length xs) e') m) (Nd i (xs @ e' # ys) ks) fl"
    "owns (upd_node i (set_entry (length xs) e') m) (Nd i (xs @ e' # ys) ks) fl"
proof -
  have n: "node_has (bm_node m i) (xs @ e # ys) (map ix ks)" using assms by (simp add: owns_def)
  show mv: "moves m (Nd i (xs @ e # ys) ks) fl (upd_node i (set_entry (length xs) e') m) (Nd i (xs @ e' # ys) ks) fl"
    using set_entry_has [OF n, of "length xs" e'] by (intro moves_node [OF assms]) simp
  then show "owns (upd_node i (set_entry (length xs) e') m) (Nd i (xs @ e' # ys) ks) fl" unfolding moves_def by (rule conjunct1)
qed

lemma delete_predecessor:
  fixes m :: "('k::linorder, 'v) SharedBTreeMap"
  assumes prems: "owns m (Nd i (xs @ (key, w) # ys) (ls @ a # b # rs)) fl" "tree_wf (Suc h) (Nd i (xs @ (key, w) # ys) (ls @ a # b # rs))"
      "bt_sorted (inorder (Nd i (xs @ (key, w) # ys) (ls @ a # b # rs)))" "length ls = length xs"
    and big: "T \<le> length (ents a)" and fuel: "h < fuel"
    and IH: "\<And>key (m :: ('k, 'v) SharedBTreeMap) t fl. owns m t fl \<Longrightarrow> tree_wf h t \<Longrightarrow> ents t \<noteq> [] \<Longrightarrow> bt_sorted (inorder t) \<Longrightarrow>
      \<exists>r m' t' fl'. delete_from fuel (ix t) key m = Some (r, m') \<and> removed h key m t fl r m' t' fl'"
  shows "\<exists>e m' t' fl'. max_pair fuel (ix a) m = Some e \<and>
    map_option snd (delete_from fuel (ix a) (fst e) (upd_node i (set_entry (length xs) e) m)) = Some m' \<and>
    removed (Suc h) key m (Nd i (xs @ (key, w) # ys) (ls @ a # b # rs)) fl (Some w) m' t' fl'"
proof -
  note kids = pair_kids [OF prems]
  define e where "e = last (inorder a)"
  note m1 = replace_entry [OF prems(1), of e]
  have "max_pair fuel (ix a) m = Some e" using max_pair_ok [OF kids(5,1,9) fuel] by (simp add: e_def)
  moreover obtain r' m' a' fl' where del: "delete_from fuel (ix a) (fst e) (upd_node i (set_entry (length xs) e) m) = Some (r', m')"
    "removed h (fst e) (upd_node i (set_entry (length xs) e) m) a fl r' m' a' fl'"
    using IH [OF owns_child(1) [OF m1(2)] kids(1,9,7), of "fst e"] by blast
  moreover have "inorder a' = butlast (inorder a)"
    using del(2) bt_remove_last [OF kids(7)] inorder_nonempty [OF kids(1,9)] by (simp add: removed_def e_def)
  then have "inorder a' @ e # inorder b = inorder a @ inorder b" using inorder_nonempty [OF kids(1,9)] by (simp add: e_def)
  then have "removed (Suc h) key m (Nd i (xs @ (key, w) # ys) (ls @ a # b # rs)) fl (Some w) m' (Nd i (xs @ e # ys) (ls @ a' # b # rs)) fl'"
    using del(2) big kids(2,4) moves_trans [OF m1(1) moves_child [OF m1(2)]]
    by (intro removed_neighbour [OF prems]) (auto simp: removed_def upd_node_def)
  ultimately show ?thesis by (intro exI conjI) auto
qed

lemma delete_successor:
  fixes m :: "('k::linorder, 'v) SharedBTreeMap"
  assumes prems: "owns m (Nd i (xs @ (key, w) # ys) (ls @ a # b # rs)) fl" "tree_wf (Suc h) (Nd i (xs @ (key, w) # ys) (ls @ a # b # rs))"
      "bt_sorted (inorder (Nd i (xs @ (key, w) # ys) (ls @ a # b # rs)))" "length ls = length xs"
    and big: "T \<le> length (ents b)" and fuel: "h < fuel"
    and IH: "\<And>key (m :: ('k, 'v) SharedBTreeMap) t fl. owns m t fl \<Longrightarrow> tree_wf h t \<Longrightarrow> ents t \<noteq> [] \<Longrightarrow> bt_sorted (inorder t) \<Longrightarrow>
      \<exists>r m' t' fl'. delete_from fuel (ix t) key m = Some (r, m') \<and> removed h key m t fl r m' t' fl'"
  shows "\<exists>e m' t' fl'. min_pair fuel (ix b) m = Some e \<and>
    map_option snd (delete_from fuel (ix b) (fst e) (upd_node i (set_entry (length xs) e) m)) = Some m' \<and>
    removed (Suc h) key m (Nd i (xs @ (key, w) # ys) (ls @ a # b # rs)) fl (Some w) m' t' fl'"
proof -
  note kids = pair_kids [OF prems]
  define e where "e = hd (inorder b)"
  note m1 = replace_entry [OF prems(1), of e]
  have own1: "owns (upd_node i (set_entry (length xs) e) m) (Nd i (xs @ e # ys) ((ls @ [a]) @ b # rs)) fl" using m1(2) by simp
  have "min_pair fuel (ix b) m = Some e" using min_pair_ok [OF kids(6,2,10) fuel] by (simp add: e_def)
  moreover obtain r' m' b' fl' where del: "delete_from fuel (ix b) (fst e) (upd_node i (set_entry (length xs) e) m) = Some (r', m')"
    "removed h (fst e) (upd_node i (set_entry (length xs) e) m) b fl r' m' b' fl'"
    using IH [OF owns_child(1) [OF own1] kids(2,10,8), of "fst e"] by blast
  moreover have "inorder b' = tl (inorder b)"
    using del(2) bt_remove_hd [OF kids(8)] inorder_nonempty [OF kids(2,10)] by (simp add: removed_def e_def)
  then have "inorder a @ e # inorder b' = inorder a @ inorder b" using inorder_nonempty [OF kids(2,10)] by (simp add: e_def)
  then have "removed (Suc h) key m (Nd i (xs @ (key, w) # ys) (ls @ a # b # rs)) fl (Some w) m' (Nd i (xs @ e # ys) (ls @ a # b' # rs)) fl'"
    using del(2) big kids(1,3) moves_trans [OF m1(1) moves_child [OF own1, simplified append_assoc append_Cons append_Nil]]
    by (intro removed_neighbour [OF prems]) (auto simp: removed_def upd_node_def)
  ultimately show ?thesis by (intro exI conjI) auto
qed

lemma entry_of_key: "pos < length es \<Longrightarrow> fst (es ! pos) = key \<Longrightarrow> \<exists>w. es ! pos = (key, w)"
  by (metis prod.collapse)

lemma delete_from_ok:
  assumes "owns m t fl" "tree_wf h t" "ents t \<noteq> []" "bt_sorted (inorder t)" "h < fuel"
  shows "\<exists>r m' t' fl'. delete_from fuel (ix t) key m = Some (r, m') \<and> removed h key m t fl r m' t' fl'"
  using assms
proof (induction fuel arbitrary: key h m t fl)
  case (Suc fuel)
  obtain i es ks where t: "t = Nd i es ks" by (cases t)
  have n: "node_has (bm_node m i) es (map ix ks)" using Suc.prems(1) by (simp add: owns_def t)
  have es: "bt_sorted es" using ents_sorted [of m t] Suc.prems(1,4) by (simp add: owns_def t)
  obtain pos found where search: "bm_search i key m = (pos, found)" by force
  note place = bm_search_ok [OF n es search]
  have leaf: "nd_leaf (bm_node m i) \<longleftrightarrow> ks = []" using n by (simp add: node_has_def)
  show ?case
  proof (cases found)
    case True
    then obtain w where pos: "pos < length es" "es ! pos = (key, w)" using place entry_of_key [of pos es key] by auto
    have w: "nd_values (bm_node m i) ! pos = w" using node_has_nth(2) [OF n pos(1)] pos(2) by simp
    show ?thesis
    proof (cases "ks = []")
      case True
      then show ?thesis using removed_leaf [of m i es fl h pos key w] Suc.prems es pos search \<open>found\<close> leaf w by (auto simp: t Let_def)
    next
      case False
      then obtain h' where h: "h = Suc h'" using Suc.prems(2) by (cases h) (auto simp: t)
      obtain ls a aes aks b bes bks rs where pair: "ks = ls @ Nd a aes aks # Nd b bes bks # rs" "length ls = length (take pos es)"
        "nd_children (bm_node m i) ! pos = a" "nd_children (bm_node m i) ! Suc pos = b" "es = take pos es @ es ! pos # drop (Suc pos) es"
        by (rule pair_at [OF n False pos(1)])
      have len: "length (take pos es) = pos" using pos(1) by simp
      have t': "t = Nd i (take pos es @ (key, w) # drop (Suc pos) es) (ls @ Nd a aes aks # Nd b bes bks # rs)" using pair(1,5) pos(2) by (simp add: t)
      note prems = Suc.prems(1,2,4) [unfolded t' h] pair(2)
      have fuel: "h' < fuel" using Suc.prems(5) by (simp add: h)
      note IH = Suc.IH [OF _ _ _ _ fuel]
      note cnt = pair_kids(13,14) [OF prems, simplified]
      consider "T \<le> length aes" | "\<not> T \<le> length aes" "T \<le> length bes" | "\<not> T \<le> length aes" "\<not> T \<le> length bes" by blast
      then show ?thesis
      proof cases
        case 1
        have "\<exists>e m' t1 fl'. max_pair fuel (ix (Nd a aes aks)) m = Some e \<and>
            map_option snd (delete_from fuel (ix (Nd a aes aks)) (fst e) (upd_node i (set_entry (length (take pos es)) e) m)) = Some m' \<and>
            removed (Suc h') key m t fl (Some w) m' t1 fl'"
          unfolding t' by (rule delete_predecessor [OF prems _ fuel IH]) (use 1 in simp, assumption+)
        then obtain e m' t1 fl' where r: "max_pair fuel (ix (Nd a aes aks)) m = Some e"
          "map_option snd (delete_from fuel (ix (Nd a aes aks)) (fst e) (upd_node i (set_entry (length (take pos es)) e) m)) = Some m'"
          "removed (Suc h') key m t fl (Some w) m' t1 fl'" by blast
        then have "delete_from (Suc fuel) (ix t) key m = Some (Some w, m')" using search \<open>found\<close> leaf False pair(3) cnt 1 w len by (simp add: t Let_def)
        with r(3) h show ?thesis by blast
      next
        case 2
        have "\<exists>e m' t1 fl'. min_pair fuel (ix (Nd b bes bks)) m = Some e \<and>
            map_option snd (delete_from fuel (ix (Nd b bes bks)) (fst e) (upd_node i (set_entry (length (take pos es)) e) m)) = Some m' \<and>
            removed (Suc h') key m t fl (Some w) m' t1 fl'"
          unfolding t' by (rule delete_successor [OF prems _ fuel IH]) (use 2 in simp, assumption+)
        then obtain e m' t1 fl' where r: "min_pair fuel (ix (Nd b bes bks)) m = Some e"
          "map_option snd (delete_from fuel (ix (Nd b bes bks)) (fst e) (upd_node i (set_entry (length (take pos es)) e) m)) = Some m'"
          "removed (Suc h') key m t fl (Some w) m' t1 fl'" by blast
        then have "delete_from (Suc fuel) (ix t) key m = Some (Some w, m')" using search \<open>found\<close> leaf False pair(3,4) cnt 2 w len by (simp add: t Let_def)
        with r(3) h show ?thesis by blast
      next
        case 3
        have c: "ks ! pos = Nd a aes aks" "ks ! Suc pos = Nd b bes bks" using pair(1,2) len by (simp_all add: nth_append)
        have "bt_sorted (take pos es @ es ! pos # drop (Suc pos) es)" unfolding pair(5) [symmetric] by (rule es)
        then have b: "\<forall>e\<in>set (take pos es). fst e < key" "\<forall>e\<in>set (drop (Suc pos) es). key < fst e" using pos(2) by (auto simp: sorted_wrt_append)
        have "prepared h' key m t fl a (merge_at i pos m)"
          using prepared_merge_at(1) [OF Suc.prems(1,2) [unfolded t h] pos(1) _ _ b] 3 c by (simp add: t)
        then have "\<exists>r m' t1 fl'. delete_from fuel a key (merge_at i pos m) = Some (r, m') \<and> removed (Suc h') key m t fl r m' t1 fl'"
          using Suc.prems(4) IH by (intro removed_prepared) auto
        then obtain r m' t1 fl' where r: "delete_from fuel a key (merge_at i pos m) = Some (r, m')" "removed (Suc h') key m t fl r m' t1 fl'" by blast
        have "r = Some w" using r(2) found_get [OF pos(1) wf_kids [OF Suc.prems(2) [unfolded t]] Suc.prems(4) [unfolded t] pos(2)] by (simp add: removed_def t)
        then have "delete_from (Suc fuel) (ix t) key m = Some (r, m')" using r(1) search \<open>found\<close> leaf False pair(3,4) cnt 3 w by (simp add: t Let_def)
        with r(2) h show ?thesis by blast
      qed
    qed
  next
    case False
    then have pos: "pos \<le> length es" "\<forall>e\<in>set (take pos es). fst e < key" "\<forall>e\<in>set (drop pos es). key < fst e" using place by auto
    show ?thesis
    proof (cases "ks = []")
      case True
      then have io: "inorder t = take pos es @ [] @ drop pos es" by (simp add: t)
      have "removed h key m t fl None m t fl"
        using bt_remove_mid [OF pos(2,3), of "[]"] bt_get_mid [OF pos(2,3), of "[]"] moves_refl [OF Suc.prems(1)] Suc.prems(2)
        unfolding removed_def io by (simp add: bt_remove_def bt_retain_def)
      then show ?thesis using search \<open>\<not> found\<close> leaf True by (auto simp: t Let_def)
    next
      case inner: False
      then obtain h' where h: "h = Suc h'" using Suc.prems(2) by (cases h) (auto simp: t)
      obtain child m1 where e: "ensure_min_degree i pos m = (child, m1)" by force
      have "prepared h' key m (Nd i es ks) fl child m1"
        using Suc.prems pos e by (intro ensure_min_degree_ok) (auto simp: t h)
      then have "\<exists>r m' t' fl'. delete_from fuel child key m1 = Some (r, m') \<and> removed (Suc h') key m (Nd i es ks) fl r m' t' fl'"
        using Suc.prems(4,5) Suc.IH by (intro removed_prepared) (auto simp: t h)
      then show ?thesis using search \<open>\<not> found\<close> leaf inner e by (simp add: t h Let_def)
    qed
  qed
qed simp

end
