(* ===== verification/Btree_Read.thy ===== *)
theory Btree_Read
  imports Btree_Insert
begin

text \<open>
  Reading the B-tree of \<^verbatim>\<open>shared_btree_map.rs\<close> while no writer is at work: a lookup finds what the ordered map holds, the walks
  list it in order, and a range walk lists the part asked for. The tree is never deeper than the walk's budget.
\<close>

section \<open>Depth\<close>

lemma owns_below: "owns m t fl \<Longrightarrow> i \<in> set (ixs t) \<Longrightarrow> unat i < bm_capacity m"
proof -
  assume "owns m t fl" "i \<in> set (ixs t)"
  then have "i < bm_node_count m" "unat (bm_node_count m) \<le> bm_capacity m" by (simp_all add: owns_def)
  then show ?thesis by (simp add: word_less_nat_alt)
qed

lemma owns_index:
  assumes "owns m t fl" "i \<in> set (ixs t)"
  shows "i \<noteq> NIL" "\<not> i \<ge> of_nat (bm_capacity m)"
proof -
  show "i \<noteq> NIL" using owns_not_NIL [OF assms(1)] assms(2) by simp
  have "unat i < bm_capacity m" "bm_capacity m < 2 ^ 32" using owns_below [OF assms] assms(1) by (simp_all add: owns_def)
  then show "\<not> i \<ge> of_nat (bm_capacity m)" by (simp add: word_le_nat_alt unat_of_nat take_bit_nat_eq_self)
qed

lemma owns_kid: "owns m (Nd i es ks) fl \<Longrightarrow> k \<in> set ks \<Longrightarrow> owns m k fl"
  by (metis owns_child(1) split_list)

lemma wf_height: "tree_wf h t \<Longrightarrow> h < length (ixs t)"
proof (induction h t rule: tree_wf.induct)
  case (2 h i es ks)
  then obtain k ks' where ks: "ks = k # ks'" by (cases ks) auto
  then have "h < length (ixs k)" using 2 by auto
  with ks show ?case by simp
qed simp

lemma sum_list_ge: "\<forall>x\<in>set xs. n \<le> f x \<Longrightarrow> length xs * n \<le> sum_list (map f xs)" for f :: "'a \<Rightarrow> nat"
  by (induction xs) auto

lemma wf_nodes: "tree_wf h t \<Longrightarrow> T - 1 \<le> length (ents t) \<Longrightarrow> T ^ h \<le> length (ixs t)"
proof (induction h t rule: tree_wf.induct)
  case (2 h i es ks)
  have "\<forall>k\<in>set ks. T ^ h \<le> length (ixs k)" using 2 by auto
  then have "length ks * T ^ h \<le> sum_list (map (length \<circ> ixs) ks)" by (intro sum_list_ge) simp
  moreover have "T * T ^ h \<le> length ks * T ^ h" using 2 by (intro mult_le_mono1) (simp add: T_def)
  ultimately have "T ^ Suc h \<le> sum_list (map (length \<circ> ixs) ks)" unfolding power_Suc by linarith
  then show ?case by (simp add: length_concat)
qed simp

lemma owns_nodes: "owns m t fl \<Longrightarrow> length (ixs t) \<le> bm_capacity m"
proof -
  assume own: "owns m t fl"
  have "unat ` set (ixs t) \<subseteq> {..<bm_capacity m}" using owns_below [OF own] by auto
  then have "card (unat ` set (ixs t)) \<le> bm_capacity m" using card_mono [of "{..<bm_capacity m}"] by auto
  moreover have "card (unat ` set (ixs t)) = length (ixs t)"
    using own by (subst card_image) (auto simp: owns_def inj_on_def distinct_card word_unat_eq_iff)
  ultimately show ?thesis by simp
qed

lemma owns_height: "owns m t fl \<Longrightarrow> tree_wf h t \<Longrightarrow> h < bm_capacity m"
  using wf_height [of h t] owns_nodes [of m t fl] by simp

text \<open>At most twelve levels: the budget of a range walk is never used up.\<close>

lemma owns_depth:
  assumes "owns m t fl" "tree_wf h t"
  shows "h \<le> 11"
proof (cases h)
  case (Suc h')
  obtain i es ks where t: "t = Nd i es ks" by (cases t)
  obtain k where k: "k \<in> set ks" using assms(2) by (cases ks) (auto simp: t Suc)
  have "T ^ h' \<le> length (ixs k)" using assms(2) k wf_nodes [of h' k] by (simp add: t Suc)
  also have "\<dots> \<le> bm_capacity m" using owns_kid [OF assms(1) [unfolded t] k] by (rule owns_nodes)
  also have "\<dots> < 2 ^ 32" using assms(1) by (simp add: owns_def)
  also have "\<dots> < T ^ 11" by (simp add: T_def)
  finally have "h' < 11" by (rule_tac power_less_imp_less_exp [of T]) (simp_all add: T_def)
  then show ?thesis by (simp add: Suc)
qed simp

section \<open>Lookup\<close>

lemma descend_ok:
  assumes "owns m t fl" "tree_wf h t" "bt_sorted (inorder t)" "h < fuel"
  shows "descend fuel key (ix t) m = Some (bt_get (inorder t) key, False)"
  using assms
proof (induction fuel arbitrary: h t)
  case (Suc fuel)
  obtain i es ks where t: "t = Nd i es ks" by (cases t)
  have n: "node_has (bm_node m i) es (map ix ks)" using Suc.prems(1) by (simp add: owns_def t)
  have es: "bt_sorted es" using ents_sorted [of m t] Suc.prems(1,3) by (simp add: owns_def t)
  have idx: "i \<noteq> NIL" "\<not> i \<ge> of_nat (bm_capacity m)" using owns_index [OF Suc.prems(1), of i] by (simp_all add: t)
  have leaf: "nd_leaf (bm_node m i) \<longleftrightarrow> ks = []" using n by (simp add: node_has_def)
  obtain pos found where search: "bm_search i key m = (pos, found)" by force
  note place = bm_search_ok [OF n es search]
  show ?case
  proof (cases found)
    case True
    then have pos: "pos < length es" "es ! pos = (key, nd_values (bm_node m i) ! pos)"
      using place node_has_nth(2) [OF n, of pos] by (auto simp: prod_eq_iff)
    have "bt_get (inorder t) key = Some (nd_values (bm_node m i) ! pos)"
      unfolding t by (rule found_get [OF pos(1) wf_kids [OF Suc.prems(2) [unfolded t]] Suc.prems(3) [unfolded t] pos(2)])
    then show ?thesis using search idx True by (simp add: t)
  next
    case False
    then have pos: "pos \<le> length es" "\<forall>e\<in>set (take pos es). fst e < key" "\<forall>e\<in>set (drop pos es). key < fst e" using place by auto
    show ?thesis
    proof (cases "ks = []")
      case True
      then have "bt_get (inorder t) key = None" using bt_get_mid [OF pos(2,3), of "[]"] by (simp add: t)
      then show ?thesis using search idx False leaf True by (simp add: t)
    next
      case inner: False
      then obtain h' where h: "h = Suc h'" using Suc.prems(2) by (cases h) (auto simp: t)
      obtain ls c rs where ks: "ks = ls @ c # rs" "length ls = pos" "length rs = length es - pos" "nd_children (bm_node m i) ! pos = ix c"
        by (rule kids_at [OF n inner pos(1)])
      obtain xs zs where at: "\<And>c'. inorder (Nd i es (ls @ c' # rs)) = xs @ inorder c' @ zs" "\<forall>e\<in>set xs. fst e < key" "\<forall>e\<in>set zs. key < fst e"
        using around [OF ks(2,3) pos(1) _ pos(2,3)] Suc.prems(3) unfolding t ks(1) by blast
      have io: "inorder t = xs @ inorder c @ zs" using at(1) [of c] by (simp add: t ks)
      have "descend fuel key (ix c) m = Some (bt_get (inorder c) key, False)"
        using Suc.prems owns_kid [of m i es ks fl c] unfolding io by (intro Suc.IH [of c h']) (auto simp: t h ks sorted_wrt_append)
      then show ?thesis using search idx False leaf inner ks(4) bt_get_mid [OF at(2,3)] io by (simp add: t)
    qed
  qed
qed simp

section \<open>The walks\<close>

text \<open>The order in which a walk meets the entries of a node: before each entry the child left of it, and at last the child right of them all.\<close>

definition segment :: "('k, 'v) tree \<Rightarrow> nat \<Rightarrow> ('k \<times> 'v) list" where
  "segment t j = (if kids t = [] then [] else inorder (kids t ! j))"

lemma weave_segments:
  "length xs = Suc (length es) \<Longrightarrow> weave xs es = concat (map (\<lambda>j. xs ! j @ [es ! j]) [0..<length es]) @ xs ! length es"
proof (induction es arbitrary: xs)
  case (Cons e es)
  then obtain x xs' where "xs = x # xs'" "length xs' = Suc (length es)" by (cases xs) auto
  then show ?case using Cons.IH [of xs'] by (simp add: map_upt_Suc del: upt_Suc)
qed (auto simp: length_Suc_conv)

lemma inorder_segments:
  assumes "tree_wf h t"
  shows "inorder t = concat (map (\<lambda>j. segment t j @ [ents t ! j]) [0..<length (ents t)]) @ segment t (length (ents t))"
proof (cases t)
  case (Nd i es ks)
  show ?thesis
  proof (cases "ks = []")
    case True
    have "concat (map (\<lambda>j. [es ! j]) [0..<length es]) = es" by (simp add: concat_map_singleton map_nth)
    with True show ?thesis by (simp add: Nd segment_def)
  next
    case False
    then have "length (map inorder ks) = Suc (length es)" using wf_kids [of h i es ks] assms by (simp add: Nd)
    moreover from this have "map (\<lambda>j. map inorder ks ! j @ [es ! j]) [0..<length es] = map (\<lambda>j. inorder (ks ! j) @ [es ! j]) [0..<length es]"
      by auto
    ultimately show ?thesis using weave_segments [of "map inorder ks" es] False by (simp add: Nd segment_def del: map_eq_conv)
  qed
qed

lemma fold_segments:
  assumes "\<And>j s. j < n \<Longrightarrow> f j (emb s) = emb (fold g (xs j) s)"
  shows "fold f [0..<n] (emb s) = emb (fold g (concat (map xs [0..<n])) s)"
  using assms by (induction n) simp_all

lemma fold_append: "fold (\<lambda>e out. out @ [e]) xs out = out @ xs"
  by (induction xs arbitrary: out) simp_all

lemma walk_ok:
  assumes "holds_tree m t" "tree_wf h t" "h < fuel"
  shows "walk fuel (ix t) m out = Some (out @ inorder t)"
  using assms
proof (induction fuel arbitrary: h t out)
  case (Suc fuel)
  obtain i es ks where t: "t = Nd i es ks" by (cases t)
  have n: "node_has (bm_node m i) es (map ix ks)" using Suc.prems(1) by (simp add: t)
  have leaf: "nd_leaf (bm_node m i) \<longleftrightarrow> ks = []" and count: "nd_count (bm_node m i) = length es" using n by (simp_all add: node_has_def)
  have kid: "(if ks \<noteq> [] then walk fuel (nd_children (bm_node m i) ! j) m out else Some out) = Some (out @ segment t j)"
    if j: "j \<le> length es" for j out
  proof (cases "ks = []")
    case False
    then have jk: "j < length ks" using wf_kids [of h i es ks] Suc.prems(2) j by (auto simp: t)
    obtain h' where h: "h = Suc h'" using Suc.prems(2) False by (cases h) (auto simp: t)
    have "nd_children (bm_node m i) ! j = ix (ks ! j)" using node_has_nth(3) [OF n] jk by simp
    moreover have "walk fuel (ix (ks ! j)) m out = Some (out @ inorder (ks ! j))"
      using Suc.prems jk by (intro Suc.IH [of _ h']) (auto simp: t h)
    ultimately show ?thesis using False by (simp add: segment_def t)
  qed (simp add: segment_def t)
  have entry: "(nd_keys (bm_node m i) ! j, nd_values (bm_node m i) ! j) = es ! j" if "j < length es" for j
    using node_has_nth(1,2) [OF n that] by (simp add: prod_eq_iff)
  have "walk (Suc fuel) i m out = Some (out @ concat (map (\<lambda>j. segment t j @ [es ! j]) [0..<length es]) @ segment t (length es))"
    unfolding walk.simps Let_def leaf count
    by (subst fold_segments [where emb = Some and g = "\<lambda>e out. out @ [e]" and xs = "\<lambda>j. segment t j @ [es ! j]"])
      (simp_all add: kid entry fold_append)
  then show ?case using inorder_segments [OF Suc.prems(2)] by (simp add: t)
qed simp

section \<open>Ranges\<close>

text \<open>One entry met by a range walk: past the upper bound the walk is over, below the lower bound the entry is skipped.\<close>

definition scan :: "'k::linorder Bound \<Rightarrow> 'k Bound \<Rightarrow> nat \<Rightarrow> 'k \<times> 'v \<Rightarrow> ('k \<times> 'v) list \<times> bool \<Rightarrow> ('k \<times> 'v) list \<times> bool" where
  "scan low high limit e s =
     (case s of (out, stop) \<Rightarrow>
       if stop then (out, stop)
       else if above_high (fst e) high then (out, True)
       else if at_or_above_low (fst e) low then (out @ [e], length out + 1 \<ge> limit)
       else (out, False))"

lemma scan_simps [simp]:
  "scan low high limit e (out, True) = (out, True)"
  "scan low high limit e (out, False) =
     (if above_high (fst e) high then (out, True)
      else if at_or_above_low (fst e) low then (out @ [e], length out + 1 \<ge> limit) else (out, False))"
  by (simp_all add: scan_def)

lemma scan_stopped [simp]: "fold (scan low high limit) l (out, True) = (out, True)"
  by (induction l) simp_all

lemma above_high_mono: "above_high k high \<Longrightarrow> k \<le> k' \<Longrightarrow> above_high k' high"
  by (cases high) auto

lemma low_skips: "\<not> low_admits_below k low \<Longrightarrow> k' < k \<Longrightarrow> \<not> at_or_above_low k' low"
  by (cases low) auto

text \<open>A subtree wholly below the lower bound need not be visited.\<close>

lemma scan_skip:
  assumes "\<not> low_admits_below (fst e) low" "\<forall>x\<in>set xs. fst x < fst e"
  shows "fold (scan low high limit) (xs @ [e]) (out, False) = scan low high limit e (out, False)"
  using assms(2)
proof (induction xs)
  case (Cons x xs)
  then have "\<not> at_or_above_low (fst x) low" using low_skips [OF assms(1)] by simp
  then show ?case using Cons above_high_mono [of "fst x" high "fst e"] by auto
qed simp

lemma scan_range:
  assumes "bt_sorted l" "length out < limit"
  shows "fst (fold (scan low high limit) l (out, False)) =
    out @ take (limit - length out) (filter (\<lambda>e. at_or_above_low (fst e) low \<and> \<not> above_high (fst e) high) l)"
  using assms
proof (induction l arbitrary: out)
  case (Cons e l)
  have later: "filter (\<lambda>e. at_or_above_low (fst e) low \<and> \<not> above_high (fst e) high) l = []" if "above_high (fst e) high"
    using Cons.prems(1) above_high_mono [OF that] by (fastforce simp: filter_empty_conv)
  show ?case
  proof (cases "length out + 1 < limit")
    case True
    then show ?thesis using Cons.IH [of "out @ [e]"] Cons.IH [of out] Cons.prems later
      by (auto simp: take_Cons' Suc_diff_Suc)
  next
    case False
    then have "limit - length out = 1" using Cons.prems(2) by simp
    moreover have "limit \<le> Suc (length out)" using False by simp
    ultimately show ?thesis using Cons.IH [of out] Cons.prems later by auto
  qed
qed simp

text \<open>The walk's state as that of the scan: nothing it reads is torn.\<close>

definition walking :: "('k \<times> 'v) list \<times> bool \<Rightarrow> ('k, 'v) walk_state" where
  "walking s = (fst s, False, snd s)"

lemma sorted_concat: "bt_sorted (concat xss) \<Longrightarrow> xs \<in> set xss \<Longrightarrow> bt_sorted xs"
  by (induction xss) (auto simp: sorted_wrt_append)

lemma segment_sorted:
  assumes "tree_wf h t" "bt_sorted (inorder t)"
  shows "j < length (ents t) \<Longrightarrow> bt_sorted (segment t j @ [ents t ! j])" "bt_sorted (segment t (length (ents t)))"
proof -
  have all: "bt_sorted (concat (map (\<lambda>j. segment t j @ [ents t ! j]) [0..<length (ents t)]) @ segment t (length (ents t)))"
    using assms(2) unfolding inorder_segments [OF assms(1)] .
  then show "bt_sorted (segment t (length (ents t)))" by (simp add: sorted_wrt_append)
  have "bt_sorted (concat (map (\<lambda>j. segment t j @ [ents t ! j]) [0..<length (ents t)]))"
    using all unfolding map_append sorted_wrt_append by blast
  then show "j < length (ents t) \<Longrightarrow> bt_sorted (segment t j @ [ents t ! j])" by (rule sorted_concat) simp
qed

text \<open>The body of the loop over a node's entries, with the walk of the child left of the entry as \<open>descent\<close>.\<close>

definition visit where
  "visit inner descent k v low high limit =
     (\<lambda>(out, torn, stop).
       if torn \<or> stop then (out, torn, stop)
       else
         let (out, torn, stop) = (if inner \<and> low_admits_below k low then descent (out, torn, stop) else (out, torn, stop))
         in if torn \<or> stop then (out, torn, stop)
            else if above_high k high then (out, torn, True)
            else if at_or_above_low k low then let out = out @ [(k, v)] in (out, torn, length out \<ge> limit)
            else (out, torn, stop))"

lemma visit_ok:
  assumes kid: "\<And>s. inner \<Longrightarrow> descent (walking s) = walking (fold (scan low high limit) xs s)"
    and leaf: "\<not> inner \<Longrightarrow> xs = []" and below: "\<forall>x\<in>set xs. fst x < fst e"
  shows "visit inner descent (fst e) (snd e) low high limit (walking s) = walking (fold (scan low high limit) (xs @ [e]) s)"
proof (cases "snd s")
  case True
  then show ?thesis by (cases s) (simp add: visit_def walking_def)
next
  case False
  then obtain out where s: "s = (out, False)" by (cases s) simp
  show ?thesis
  proof (cases "low_admits_below (fst e) low")
    case True
    obtain out' stop' where f: "fold (scan low high limit) xs s = (out', stop')" by force
    show ?thesis using kid [of s] leaf True f by (cases inner; cases stop') (auto simp: visit_def s walking_def Let_def)
  next
    case False
    then show ?thesis using scan_skip [OF False below] by (simp add: visit_def s walking_def)
  qed
qed

lemma walk_range_ok:
  assumes "owns m t fl" "tree_wf h t" "bt_sorted (inorder t)" "h < depth"
  shows "walk_range depth (ix t) low high limit m (walking s) = walking (fold (scan low high limit) (inorder t) s)"
  using assms
proof (induction depth arbitrary: h t s)
  case (Suc depth)
  obtain i es ks where t: "t = Nd i es ks" by (cases t)
  have n: "node_has (bm_node m i) es (map ix ks)" using Suc.prems(1) by (simp add: owns_def t)
  have leaf: "nd_leaf (bm_node m i) \<longleftrightarrow> ks = []" and count: "min (nd_count (bm_node m i)) B = length es"
    using n Suc.prems(2) by (auto simp: node_has_def t)
  have idx: "\<not> i \<ge> of_nat (bm_capacity m)" using owns_index [OF Suc.prems(1), of i] by (simp_all add: t)
  have kid: "walk_range depth (nd_children (bm_node m i) ! j) low high limit m (walking s) = walking (fold (scan low high limit) (segment t j) s)"
    if j: "j \<le> length es" and inner: "ks \<noteq> []" for j s
  proof -
    have jk: "j < length ks" using wf_kids [of h i es ks] Suc.prems(2) j inner by (auto simp: t)
    obtain h' where h: "h = Suc h'" using Suc.prems(2) inner by (cases h) (auto simp: t)
    have sorted: "bt_sorted (inorder (ks ! j))"
      using segment_sorted [OF Suc.prems(2,3)] j inner by (cases "j = length es") (auto simp: t segment_def sorted_wrt_append)
    have "nd_children (bm_node m i) ! j = ix (ks ! j)" using node_has_nth(3) [OF n] jk by simp
    moreover have "walk_range depth (ix (ks ! j)) low high limit m (walking s) = walking (fold (scan low high limit) (inorder (ks ! j)) s)"
      using Suc.prems jk owns_kid [of m i es ks fl "ks ! j"] sorted by (intro Suc.IH [of _ h']) (auto simp: t h)
    ultimately show ?thesis using inner by (simp add: segment_def t)
  qed
  let ?f = "\<lambda>j. visit (ks \<noteq> []) (walk_range depth (nd_children (bm_node m i) ! j) low high limit m)
    (nd_keys (bm_node m i) ! j) (nd_values (bm_node m i) ! j) low high limit"
  have entry: "?f j (walking s) = walking (fold (scan low high limit) (segment t j @ [es ! j]) s)" if j: "j < length es" for j s
    using visit_ok [of "ks \<noteq> []" "walk_range depth (nd_children (bm_node m i) ! j) low high limit m" low high limit "segment t j" "es ! j" s]
      kid [of j] j segment_sorted(1) [OF Suc.prems(2,3), of j] node_has_nth(1,2) [OF n j]
    by (auto simp: t sorted_wrt_append segment_def)
  let ?l = "concat (map (\<lambda>j. segment t j @ [es ! j]) [0..<length es])"
  have loop: "fold ?f [0..<length es] (walking s) = walking (fold (scan low high limit) ?l s)"
    by (rule fold_segments) (rule entry)
  have io: "inorder t = ?l @ segment t (length es)" using inorder_segments [OF Suc.prems(2)] by (simp add: t)
  show ?case
  proof (cases "snd s")
    case True
    then show ?thesis by (cases s) (simp add: walking_def)
  next
    case False
    then obtain out where s: "s = (out, False)" by (cases s) simp
    obtain out' stop' where f: "fold (scan low high limit) ?l s = (out', stop')" by force
    have "walk_range (Suc depth) i low high limit m (out, False, False) =
      (if stop' then (out', False, stop')
       else if ks \<noteq> [] then walk_range depth (nd_children (bm_node m i) ! length es) low high limit m (out', False, stop') else (out', False, stop'))"
      using idx loop f unfolding walk_range.simps visit_def Let_def leaf count by (simp add: s walking_def)
    also have "\<dots> = walking (fold (scan low high limit) (segment t (length es)) (out', stop'))"
      using kid [of "length es" "(out', stop')"] by (cases stop') (auto simp: walking_def segment_def t)
    finally show ?thesis unfolding io using f by (simp add: s t walking_def)
  qed
qed (simp add: walking_def)

end
