(* ===== verification/Call_Sequences.thy ===== *)
theory Call_Sequences
  imports SubEtha_Prelude
begin

text \<open>
  Sequences of calls against a specification, for any component: a call that returns, with the reply its specification
  gives, keeps the state and the abstract state in step, so every sequence of calls does.
\<close>

section \<open>Specifications that allow replies\<close>

fun run_all :: "('c \<Rightarrow> 'm \<Rightarrow> ('r \<times> 'm) option) \<Rightarrow> 'c list \<Rightarrow> 'm \<Rightarrow> ('r list \<times> 'm) option" where
  "run_all call [] m = Some ([], m)"
| "run_all call (c # cs) m =
     (case call c m of
        None \<Rightarrow> None
      | Some (r, m) \<Rightarrow> map_option (\<lambda>(rs, m). (r # rs, m)) (run_all call cs m))"

fun replay :: "('c \<Rightarrow> 'r \<Rightarrow> 'a \<Rightarrow> 'a option) \<Rightarrow> 'c list \<Rightarrow> 'r list \<Rightarrow> 'a \<Rightarrow> 'a option" where
  "replay spec [] [] a = Some a"
| "replay spec (c # cs) (r # rs) a = Option.bind (spec c r a) (replay spec cs rs)"
| "replay spec _ _ a = None"

text \<open>An implementation whose calls all return, with replies its specification allows.\<close>

locale call_refinement =
  fixes rep :: "'m \<Rightarrow> 'a \<Rightarrow> bool" and call :: "'c \<Rightarrow> 'm \<Rightarrow> ('r \<times> 'm) option" and spec :: "'c \<Rightarrow> 'r \<Rightarrow> 'a \<Rightarrow> 'a option"
  assumes call_refines: "rep m a \<Longrightarrow> \<exists>r m' a'. call c m = Some (r, m') \<and> spec c r a = Some a' \<and> rep m' a'"
begin

lemma replay_refines: "rep m a \<Longrightarrow> \<exists>rs m' a'. run_all call cs m = Some (rs, m') \<and> replay spec cs rs a = Some a' \<and> rep m' a'"
proof (induction cs arbitrary: m a)
  case Nil
  then show ?case by (intro exI [of _ "[]"]) auto
next
  case (Cons c cs)
  obtain r m1 a1 where c: "call c m = Some (r, m1)" "spec c r a = Some a1" "rep m1 a1" using call_refines [OF Cons.prems] by blast
  obtain rs m2 a2 where cs: "run_all call cs m1 = Some (rs, m2)" "replay spec cs rs a1 = Some a2" "rep m2 a2" using Cons.IH [OF c(3)] by blast
  have "run_all call (c # cs) m = Some (r # rs, m2)" "replay spec (c # cs) (r # rs) a = Some a2" using c cs by simp_all
  with cs(3) show ?case by blast
qed

end

section \<open>Specifications that give the reply\<close>

fun answers :: "('c \<Rightarrow> 'a \<Rightarrow> 'r \<times> 'a) \<Rightarrow> 'c list \<Rightarrow> 'a \<Rightarrow> 'r list \<times> 'a" where
  "answers spec [] a = ([], a)"
| "answers spec (c # cs) a = (let (r, a) = spec c a; (rs, a) = answers spec cs a in (r # rs, a))"

definition allows :: "('c \<Rightarrow> 'a \<Rightarrow> 'r \<times> 'a) \<Rightarrow> 'c \<Rightarrow> 'r \<Rightarrow> 'a \<Rightarrow> 'a option" where
  "allows spec c r a = (if r = fst (spec c a) then Some (snd (spec c a)) else None)"

lemma replay_allows: "replay (allows spec) cs rs a = Some a' \<longleftrightarrow> answers spec cs a = (rs, a')"
proof (induction cs arbitrary: rs a)
  case Nil
  show ?case by (cases rs) auto
next
  case (Cons c cs)
  then show ?case by (cases rs) (auto simp: allows_def split_beta prod_eq_iff)
qed

locale exact_refinement =
  fixes rep :: "'m \<Rightarrow> 'a \<Rightarrow> bool" and call :: "'c \<Rightarrow> 'm \<Rightarrow> ('r \<times> 'm) option" and spec :: "'c \<Rightarrow> 'a \<Rightarrow> 'r \<times> 'a"
  assumes call_answers: "rep m a \<Longrightarrow> \<exists>m'. call c m = Some (fst (spec c a), m') \<and> rep m' (snd (spec c a))"

sublocale exact_refinement \<subseteq> allowed: call_refinement rep call "allows spec"
proof
  fix m a c
  assume "rep m a"
  from call_answers [OF this] obtain m' where "call c m = Some (fst (spec c a), m')" "rep m' (snd (spec c a))" by blast
  then show "\<exists>r m' a'. call c m = Some (r, m') \<and> allows spec c r a = Some a' \<and> rep m' a'" by (auto simp: allows_def)
qed

context exact_refinement
begin

lemma run_answers: "rep m a \<Longrightarrow> \<exists>m'. run_all call cs m = Some (fst (answers spec cs a), m') \<and> rep m' (snd (answers spec cs a))"
  using allowed.replay_refines [of m a cs] by (auto simp: replay_allows)

end

end
