(* ===== verification/Btree_Refinement.thy ===== *)
theory Btree_Refinement
  imports Btree_Delete Btree_Read Call_Sequences
begin

text \<open>
  The B-tree map of \<^verbatim>\<open>shared_btree_map.rs\<close> as an ordered map. \<open>represents m l\<close> says that the region holds a balanced tree
  of the entries \<open>l\<close>, or none, beside its free list; every operation of the map keeps this and answers as the ordered
  map \<open>l\<close> does. An insertion that finds no free node is refused, with the entries as they were.
\<close>

section \<open>The invariant of the map\<close>

definition shaped :: "('k, 'v) SharedBTreeMap \<Rightarrow> ('k, 'v) btree_map \<Rightarrow> bool" where
  "shaped m l \<longleftrightarrow>
     (if l = [] then bm_root m = NIL \<and> (\<exists>fl. idle m fl)
      else \<exists>t fl h. owns m t fl \<and> bm_root m = ix t \<and> tree_wf h t \<and> ents t \<noteq> [] \<and> inorder t = l)"

definition rooted :: "('k::linorder, 'v) SharedBTreeMap \<Rightarrow> ('k, 'v) btree_map \<Rightarrow> bool" where
  "rooted m l \<longleftrightarrow> bt_sorted l \<and> bm_len m = of_nat (length l) \<and> shaped m l"

definition represents :: "('k::linorder, 'v) SharedBTreeMap \<Rightarrow> ('k, 'v) btree_map \<Rightarrow> bool" where
  "represents m l \<longleftrightarrow> rooted m l \<and> \<not> bit (bm_version m) 0"

definition exhausted :: "('k, 'v) SharedBTreeMap \<Rightarrow> bool" where
  "exhausted m \<longleftrightarrow> bm_free_head m = NIL \<and> unat (bm_node_count m) = bm_capacity m"

text \<open>The fields that the tree does not depend on.\<close>

lemma holds_cong: "bm_node m' = bm_node m \<Longrightarrow> holds_tree m' t = holds_tree m t"
  by (induction t) auto

lemma owns_cong:
  assumes "bm_node m' = bm_node m" "bm_free_head m' = bm_free_head m" "bm_node_count m' = bm_node_count m" "bm_capacity m' = bm_capacity m"
  shows "idle m' fl = idle m fl" "owns m' t fl = owns m t fl"
  using assms holds_cong [OF assms(1)] by (simp_all add: idle_def owns_def)

lemma shaped_cong:
  assumes "bm_node m' = bm_node m" "bm_free_head m' = bm_free_head m" "bm_node_count m' = bm_node_count m" "bm_capacity m' = bm_capacity m"
    and "bm_root m' = bm_root m"
  shows "shaped m' l = shaped m l"
proof -
  have "idle m' = idle m" "owns m' = owns m" by (intro ext owns_cong assms(1-4))+
  then show ?thesis using assms(5) by (simp add: shaped_def)
qed

lemma rooted_version: "rooted (m\<lparr>bm_version := x\<rparr>) l = rooted m l"
  using shaped_cong [of "m\<lparr>bm_version := x\<rparr>" m l] by (simp add: rooted_def)

lemma shaped_tree: "owns m t fl \<Longrightarrow> bm_root m = ix t \<Longrightarrow> tree_wf h t \<Longrightarrow> ents t \<noteq> [] \<Longrightarrow> shaped m (inorder t)"
  using inorder_nonempty [of h t] by (auto simp: shaped_def)

lemma rooted_tree:
  assumes "owns m t fl" "bm_root m = ix t" "tree_wf h t" "ents t \<noteq> []" "bt_sorted (inorder t)" "bm_len m = of_nat (length (inorder t))"
  shows "rooted m (inorder t)"
  using assms shaped_tree [of m t fl h] by (simp add: rooted_def)

lemma rooted_cases:
  assumes "rooted m l"
  obtains fl where "l = []" "bm_root m = NIL" "idle m fl" "bm_len m = 0"
  | t fl h where "owns m t fl" "bm_root m = ix t" "bm_root m \<noteq> NIL" "tree_wf h t" "ents t \<noteq> []" "inorder t = l" "bt_sorted l" "h < Suc (bm_capacity m)"
proof (cases "l = []")
  case True
  then show ?thesis using assms that(1) by (auto simp: rooted_def shaped_def)
next
  case False
  then obtain t fl h where t: "owns m t fl" "bm_root m = ix t" "tree_wf h t" "ents t \<noteq> []" "inorder t = l"
    using assms by (auto simp: rooted_def shaped_def)
  moreover have "ix t \<noteq> NIL" using owns_index(1) [OF t(1) ix_ixs] .
  moreover have "h < Suc (bm_capacity m)" using owns_height [OF t(1,3)] by simp
  ultimately show ?thesis using assms that(2) [of t fl h] by (simp add: rooted_def)
qed

section \<open>Creation\<close>

lemma create_represents:
  assumes "0 < capacity" "capacity < 2 ^ 32"
  shows "bm_create capacity k v = Inr (bm_init_region capacity k v)" "represents (bm_init_region capacity k v) []"
proof -
  show "bm_create capacity k v = Inr (bm_init_region capacity k v)" using assms(1) by (simp add: bm_create_def)
  have "idle (bm_init_region capacity k v) []" using assms(2) by (simp add: idle_def bm_init_region_def arrays_ok_def)
  moreover have "bm_root (bm_init_region capacity k v) = NIL" "bm_len (bm_init_region capacity k v) = 0" "bm_version (bm_init_region capacity k v) = 0"
    by (simp_all add: bm_init_region_def)
  ultimately show "represents (bm_init_region capacity k v) []" by (auto simp: represents_def rooted_def shaped_def)
qed

section \<open>Reading\<close>

lemma get_represents: "represents m l \<Longrightarrow> bm_get_inner key m = Some (bt_get l key)"
proof -
  assume rep: "represents m l"
  then have "rooted m l" by (simp add: represents_def)
  then have "descend (Suc (bm_capacity m)) key (bm_root m) m = Some (bt_get l key, False)"
  proof (cases rule: rooted_cases)
    case (2 t fl h)
    then show ?thesis using descend_ok [of m t fl h "Suc (bm_capacity m)" key] by simp
  qed simp
  then show ?thesis using rep by (simp add: bm_get_inner_def represents_def)
qed

lemma first_represents: "represents m l \<Longrightarrow> bm_first m = Some (if l = [] then None else Some (hd l))"
proof -
  assume "represents m l"
  then have "rooted m l" by (simp add: represents_def)
  then show ?thesis
  proof (cases rule: rooted_cases)
    case (2 t fl h)
    then show ?thesis using min_pair_ok [of m t h "Suc (bm_capacity m)"] inorder_nonempty [of h t] by (auto simp: bm_first_def owns_def)
  qed (simp add: bm_first_def)
qed

lemma iter_represents: "represents m l \<Longrightarrow> iter_ascending m = Some l"
proof -
  assume "represents m l"
  then have "rooted m l" by (simp add: represents_def)
  then show ?thesis
  proof (cases rule: rooted_cases)
    case (2 t fl h)
    then show ?thesis using walk_ok [of m t h "Suc (bm_capacity m)" "[]"] by (simp add: iter_ascending_def owns_def)
  qed (simp add: iter_ascending_def)
qed

definition in_range :: "'k::linorder Bound \<Rightarrow> 'k Bound \<Rightarrow> 'k \<times> 'v \<Rightarrow> bool" where
  "in_range low high e \<longleftrightarrow> at_or_above_low (fst e) low \<and> \<not> above_high (fst e) high"

lemma range_represents: "represents m l \<Longrightarrow> bm_range low high limit m = Some (take limit (filter (in_range low high) l))"
proof -
  assume rep: "represents m l"
  then have "rooted m l" by (simp add: represents_def)
  then show ?thesis
  proof (cases rule: rooted_cases)
    case (2 t fl h)
    have "h < MAX_TREE_DEPTH" using owns_depth [OF 2(1,4)] by (simp add: MAX_TREE_DEPTH_def)
    then have "walk_range MAX_TREE_DEPTH (ix t) low high limit m ([], False, False) = walking (fold (scan low high limit) l ([], False))"
      using walk_range_ok [of m t fl h MAX_TREE_DEPTH low high limit "([], False)"] 2 by (simp add: walking_def)
    then show ?thesis using scan_range [OF 2(7), of "[]" limit low high] rep 2(2,3)
      by (auto simp: bm_range_def walking_def in_range_def [abs_def] represents_def)
  qed (use rep in \<open>simp add: bm_range_def represents_def\<close>)
qed

section \<open>Insertion\<close>

text \<open>What an insertion promises, whether it split nodes on the way or not.\<close>

definition insert_spec :: "'k::linorder \<Rightarrow> 'v \<Rightarrow> ('k, 'v) SharedBTreeMap \<Rightarrow> ('k, 'v) btree_map \<Rightarrow> BTreeError + 'v option \<Rightarrow> ('k, 'v) SharedBTreeMap \<Rightarrow> bool" where
  "insert_spec key v m l r m' \<longleftrightarrow> bm_version m' = bm_version m \<and> bm_capacity m' = bm_capacity m \<and>
     (case r of
        Inl e \<Rightarrow> e = Full \<and> exhausted m' \<and> rooted m' l
      | Inr old \<Rightarrow> old = bt_get l key \<and> rooted m' (bt_insert key v l))"

lemma take_one: "xs \<noteq> [] \<Longrightarrow> take (Suc 0) (xs[0 := x]) = [x]"
  by (cases xs) simp_all

lemma insert_empty:
  assumes "idle m fl" "bm_root m = NIL" "bm_len m = 0"
  shows "\<exists>r m'. bm_insert_inner key v m = Some (r, m') \<and> insert_spec key v m [] r m'"
proof -
  obtain a m1 where alloc: "alloc_node True m = (a, m1)" by force
  with assms(1) show ?thesis
  proof (cases rule: alloc_idle)
    case 1
    then have "exhausted m" using assms(1) by (simp add: exhausted_def idle_def)
    moreover have "rooted m []" using assms by (auto simp: rooted_def shaped_def)
    ultimately show ?thesis using 1 alloc assms(2) by (simp add: bm_insert_inner_def insert_spec_def)
  next
    case (2 r fl')
    let ?f = "\<lambda>n. n\<lparr>nd_keys := (nd_keys n)[0 := key], nd_values := (nd_values n)[0 := v], nd_count := 1\<rparr>"
    let ?m = "(upd_node r ?f m1)\<lparr>bm_root := r, bm_len := bm_len m1 + 1\<rparr>"
    have "arrays_ok (bm_node m1 r)" using 2(2) by (simp add: idle_def)
    then have n: "node_has (?f (bm_node m1 r)) [(key, v)] []"
      by (auto simp: node_defs 2(8) B_def T_def intro!: take_one)
    have "idle ?m fl'" using 2(2,3) chain_frame [of "bm_node m1" "bm_free_head m1" fl' "bm_node ?m"]
      by (auto simp: idle_def upd_node_def arrays_ok_def)
    then have "owns ?m (Nd r [(key, v)] []) fl'" using n 2(3,4) by (simp add: owns_idle upd_node_def)
    then have "rooted ?m [(key, v)]" using rooted_tree [of ?m "Nd r [(key, v)] []" fl' 0] assms(3) 2(10) by (simp add: B_def T_def upd_node_def)
    then show ?thesis using alloc 2 assms(2) by (simp add: bm_insert_inner_def insert_spec_def upd_node_def)
  qed
qed

lemma inserted_spec:
  assumes ins: "inserted h key v m1 t fl r m' t' fl'" and t: "ents t \<noteq> []" "bt_sorted (inorder t)" "bm_root m1 = ix t"
    and len: "bm_len m1 = of_nat (length (inorder t))" and same: "bm_version m1 = bm_version m" "bm_capacity m1 = bm_capacity m"
  shows "insert_spec key v m (inorder t) r m'"
proof -
  have mv: "owns m' t' fl'" "ix t' = ix t" "bm_root m' = bm_root m1" "bm_version m' = bm_version m1" "bm_capacity m' = bm_capacity m1" "tree_wf h t'"
    and ne: "ents t' \<noteq> []"
    using ins t(1) by (auto simp: inserted_def moves_def)
  show ?thesis
  proof (cases r)
    case (Inl e)
    then have e: "e = Full" "inorder t' = inorder t" "bm_len m' = bm_len m1" "fl' = []" "unat (bm_node_count m') = bm_capacity m'"
      using ins by (simp_all add: inserted_def)
    then have "exhausted m'" using mv(1) by (simp add: exhausted_def owns_def)
    then show ?thesis using rooted_tree [of m' t' fl' h] mv ne t len same e Inl by (simp add: insert_spec_def)
  next
    case (Inr old)
    then have e: "old = bt_get (inorder t) key" "inorder t' = bt_insert key v (inorder t)"
      "bm_len m' = (if old = None then bm_len m1 + 1 else bm_len m1)"
      using ins by (simp_all add: inserted_def)
    have "bm_len m' = of_nat (length (inorder t'))" using e len bt_insert_length [OF t(2), of key v] by simp
    then show ?thesis using rooted_tree [of m' t' fl' h] mv ne t same e bt_insert_sorted [OF t(2)] Inr by (simp add: insert_spec_def)
  qed
qed

text \<open>A full root gets a parent before it is split.\<close>

lemma new_root_owns:
  assumes "owns m t fl" "idx \<notin> set (ixs t @ fl)" "idx < bm_node_count m" "nd_leaf (bm_node m idx) = False"
  shows "owns (upd_node idx (\<lambda>n. n\<lparr>nd_children := (nd_children n)[0 := ix t], nd_count := 0\<rparr>) m) (Nd idx [] [t]) fl"
proof -
  let ?m = "upd_node idx (\<lambda>n. n\<lparr>nd_children := (nd_children n)[0 := ix t], nd_count := 0\<rparr>) m"
  have "holds_tree ?m t" using assms(1,2) by (rule_tac holds_frame [of m]) (auto simp: owns_def upd_node_def)
  moreover have "arrays_ok (bm_node m idx)" using assms(1) by (simp add: owns_def)
  then have "node_has (bm_node ?m idx) [] [ix t]" using assms(4) by (auto simp: node_defs upd_node_def intro!: take_one)
  ultimately have "holds_tree ?m (Nd idx [] [t])" by simp
  moreover have "chain (bm_node ?m) (bm_free_head ?m) fl"
    using assms(1,2) by (rule_tac chain_frame [of "bm_node m"]) (auto simp: owns_def upd_node_def)
  moreover have "\<forall>j. arrays_ok (bm_node ?m j)" using assms(1) by (simp add: owns_def upd_node_def arrays_ok_def)
  ultimately show ?thesis using assms(2,3) by (intro owns_rewire [OF assms(1), of _ _ "[idx]"]) (simp_all add: upd_node_def)
qed

lemma insert_full_root:
  fixes m :: "('k::linorder, 'v) SharedBTreeMap"
  assumes own: "owns m t fl" "tree_wf h t" "bt_sorted (inorder t)" and root: "bm_root m = ix t" "ix t \<noteq> NIL" "ents t \<noteq> []"
    and len: "bm_len m = of_nat (length (inorder t))" and full: "nd_count (bm_node m (ix t)) = B"
  shows "\<exists>r m'. bm_insert_inner key v m = Some (r, m') \<and> insert_spec key v m (inorder t) r m'"
proof -
  have ents: "length (ents t) = B" using full holds_ents [of m t] own(1) by (simp add: node_has_def owns_def)
  have rooted: "rooted m (inorder t)" using rooted_tree [OF own(1) root(1) own(2) root(3) own(3) len] .
  obtain a m1 where alloc: "alloc_node False m = (a, m1)" by force
  with own(1) show ?thesis
  proof (cases rule: alloc_node_ok)
    case 1
    then have "exhausted m" using own(1) by (simp add: exhausted_def owns_def)
    then show ?thesis using 1 alloc root full rooted by (simp add: bm_insert_inner_def insert_spec_def)
  next
    case (2 new fl1)
    define m2 where "m2 = upd_node new (\<lambda>n. n\<lparr>nd_children := (nd_children n)[0 := ix t], nd_count := 0\<rparr>) m1"
    have own2: "owns m2 (Nd new [] ([] @ t # [])) fl1" using new_root_owns [OF 2(2,3,4)] by (simp add: m2_def 2(8))
    have wf2: "tree_wf (Suc h) (Nd new [] ([] @ t # []))" using own(2) ents by (simp add: B_def T_def)
    have same: "bm_root m2 = bm_root m" "bm_len m2 = bm_len m" "bm_version m2 = bm_version m" "bm_capacity m2 = bm_capacity m"
      by (simp_all add: m2_def upd_node_def 2)
    obtain b m3 where split: "split_child new 0 m2 = (b, m3)" by force
    have "length ([] :: ('k, 'v) tree list) = 0" "length ([] :: ('k \<times> 'v) list) < B" by (simp_all add: B_def T_def)
    from split_full_child [OF own2 wf2 this ents split] show ?thesis
    proof cases
      case 3: 1
      have "owns m2 t fl1" by (rule owns_child(1) [OF own2])
      then have "rooted m2 (inorder t)" "exhausted m2"
        using rooted_tree [of m2 t fl1 h] own root len same 3 by (simp_all add: exhausted_def owns_def)
      then show ?thesis using 2 alloc root full split same 3 by (simp add: bm_insert_inner_def insert_spec_def m2_def)
    next
      case 3: (2 med cl cr fl3)
      let ?t3 = "Nd new (take 0 [] @ med # drop 0 []) ([] @ cl # cr # [])"
      let ?m3 = "m3\<lparr>bm_root := new\<rparr>"
      have own3: "owns ?m3 ?t3 fl3" using 3(3) owns_cong(2) [of ?m3 m3] by (simp add: moves_def)
      have io: "inorder ?t3 = inorder t" using 3(4) by simp
      have "Suc h < Suc (bm_capacity ?m3)" using owns_height [OF own3 3(5)] by simp
      moreover have "length (ents ?t3) < B" "ix ?t3 = new" by (simp_all add: B_def T_def)
      moreover have "bt_sorted (inorder ?t3)" using own(3) unfolding io .
      ultimately obtain r m' t' fl' where ins: "insert_nonfull (Suc (bm_capacity ?m3)) new key v ?m3 = Some (r, m')"
        "inserted (Suc h) key v ?m3 ?t3 fl3 r m' t' fl'"
        using insert_nonfull_ok [OF own3 3(5), of "Suc (bm_capacity ?m3)" key v] by metis
      then have "insert_spec key v m (inorder ?t3) r m'" using own(3) io len same 3 by (intro inserted_spec [OF ins(2)]) (auto simp: moves_def)
      then show ?thesis using 2 alloc root full split ins(1) io 3(1) by (simp add: bm_insert_inner_def m2_def)
    qed
  qed
qed

lemma insert_inner_ok:
  assumes "rooted m l"
  shows "\<exists>r m'. bm_insert_inner key v m = Some (r, m') \<and> insert_spec key v m l r m'"
  using assms
proof (cases rule: rooted_cases)
  case (1 fl)
  then show ?thesis using insert_empty [OF 1(3,2,4)] by simp
next
  case (2 t fl h)
  have len: "bm_len m = of_nat (length (inorder t))" using assms 2(6) by (simp add: rooted_def)
  show ?thesis
  proof (cases "nd_count (bm_node m (ix t)) = B")
    case True
    then show ?thesis using insert_full_root [of m t fl h] 2 len by simp
  next
    case False
    then have "length (ents t) < B" using holds_ents [of m t] 2(1) by (simp add: node_has_def owns_def)
    then obtain r m' t' fl' where "insert_nonfull (Suc (bm_capacity m)) (ix t) key v m = Some (r, m')" "inserted h key v m t fl r m' t' fl'"
      using insert_nonfull_ok [of m t fl h "Suc (bm_capacity m)" key v] 2 by auto
    moreover from this have "insert_spec key v m (inorder t) r m'" using 2 len by (intro inserted_spec) auto
    ultimately show ?thesis using False 2 by (simp add: bm_insert_inner_def)
  qed
qed

lemma insert_represents:
  assumes "represents m l"
  obtains r m' where "bm_insert key v m = Some (r, m')"
    "case r of Inl e \<Rightarrow> e = Full \<and> exhausted m' \<and> represents m' l | Inr old \<Rightarrow> old = bt_get l key \<and> represents m' (bt_insert key v l)"
    "bm_version m' = bm_version m + 2" "bm_capacity m' = bm_capacity m"
proof -
  have "rooted (begin_write m) l" using assms by (simp add: begin_write_def rooted_version represents_def)
  then obtain r m' where ins: "bm_insert_inner key v (begin_write m) = Some (r, m')" "insert_spec key v (begin_write m) l r m'"
    using insert_inner_ok [of "begin_write m" l key v] by blast
  have even: "\<not> bit (bm_version (end_write m')) 0"
    using assms ins(2) by (simp add: end_write_def insert_spec_def begin_write_def represents_def bit_0)
  have "bm_insert key v m = Some (r, end_write m')" using ins(1) by (simp add: bm_insert_def)
  moreover have "case r of Inl e \<Rightarrow> e = Full \<and> exhausted (end_write m') \<and> represents (end_write m') l
      | Inr old \<Rightarrow> old = bt_get l key \<and> represents (end_write m') (bt_insert key v l)"
    using ins(2) even by (auto simp: insert_spec_def represents_def end_write_def rooted_version exhausted_def split: sum.splits)
  moreover have "bm_version (end_write m') = bm_version m + 2" "bm_capacity (end_write m') = bm_capacity m"
    using ins(2) by (simp_all add: insert_spec_def begin_write_def end_write_def)
  ultimately show ?thesis by (rule that)
qed

section \<open>Removal\<close>

text \<open>An empty root gives way to its only child, or to nothing.\<close>

lemma chain_free:
  assumes "owns m t fl"
  shows "chain (bm_node (free_node (ix t) m)) (bm_free_head (free_node (ix t) m)) (ix t # fl)"
proof -
  have "arrays_ok (bm_node m (ix t))" "ix t \<notin> set fl" using assms ix_ixs [of t] by (auto simp: owns_def)
  moreover from this have "chain (bm_node (free_node (ix t) m)) (bm_free_head m) fl"
    using assms by (rule_tac chain_frame [of "bm_node m"]) (auto simp: owns_def free_node_def upd_node_def)
  ultimately show ?thesis using owns_index(1) [OF assms ix_ixs] by (auto simp: free_node_def upd_node_def arrays_ok_def)
qed

lemma free_arrays: "owns m t fl \<Longrightarrow> arrays_ok (bm_node (free_node i m) j)"
  by (simp add: owns_def free_node_def upd_node_def arrays_ok_def)

lemma shrink_leaf:
  assumes "owns m (Nd i [] []) fl"
  shows "idle (free_node i (m\<lparr>bm_root := NIL\<rparr>)) (i # fl)"
proof -
  let ?m = "m\<lparr>bm_root := NIL\<rparr>"
  have own: "owns ?m (Nd i [] []) fl" using assms owns_cong(2) [of ?m m] by simp
  then show ?thesis using chain_free [OF own] free_arrays [OF own, of i]
    by (simp add: idle_def) (simp add: owns_def free_node_def upd_node_def)
qed

lemma shrink_node:
  assumes "owns m (Nd i [] [k]) fl"
  shows "owns (free_node i (m\<lparr>bm_root := ix k\<rparr>)) k (i # fl)"
proof -
  let ?m = "m\<lparr>bm_root := ix k\<rparr>"
  have own: "owns ?m (Nd i [] [k]) fl" using assms owns_cong(2) [of ?m m] by simp
  have "holds_tree (free_node i ?m) k" using own by (rule_tac holds_frame [of ?m]) (auto simp: owns_def free_node_def upd_node_def)
  then show ?thesis using chain_free [OF own] free_arrays [OF own, of i]
    by (intro owns_rewire [OF own, of _ _ "[]"]) (simp_all add: free_node_def upd_node_def)
qed

definition shrink_root :: "u32 \<Rightarrow> ('k, 'v) SharedBTreeMap \<Rightarrow> ('k, 'v) SharedBTreeMap" where
  "shrink_root root m =
     (let rn = bm_node m root
      in if nd_count rn = 0 then free_node root (m\<lparr>bm_root := (if nd_leaf rn then NIL else nd_children rn ! 0)\<rparr>) else m)"

lemma shrink_root_ok:
  assumes "owns m t fl" "tree_wf h t" "bm_root m = ix t"
  shows "shaped (shrink_root (ix t) m) (inorder t)" "bm_len (shrink_root (ix t) m) = bm_len m"
    "bm_version (shrink_root (ix t) m) = bm_version m" "bm_capacity (shrink_root (ix t) m) = bm_capacity m"
proof -
  show "bm_len (shrink_root (ix t) m) = bm_len m" "bm_version (shrink_root (ix t) m) = bm_version m"
    "bm_capacity (shrink_root (ix t) m) = bm_capacity m"
    by (simp_all add: shrink_root_def free_node_def upd_node_def Let_def)
  obtain i es ks where t: "t = Nd i es ks" by (cases t)
  have n: "node_has (bm_node m i) es (map ix ks)" using assms(1) by (simp add: owns_def t)
  then have count: "nd_count (bm_node m i) = length es" and leaf: "nd_leaf (bm_node m i) \<longleftrightarrow> ks = []" by (simp_all add: node_has_def)
  consider "es \<noteq> []" | "es = []" "ks = []" | k where "es = []" "ks = [k]" "\<exists>h'. tree_wf h' k \<and> ents k \<noteq> []"
    using assms(2) by (cases h) (fastforce simp: t T_def length_Suc_conv)+
  then show "shaped (shrink_root (ix t) m) (inorder t)"
  proof cases
    case 1
    then show ?thesis using shaped_tree [of m t fl h] assms by (simp add: shrink_root_def count t)
  next
    case 2
    then have "idle (shrink_root i m) (i # fl)" "bm_root (shrink_root i m) = NIL"
      using shrink_leaf [of m i fl] assms(1) leaf by (simp_all add: shrink_root_def count t) (simp add: free_node_def upd_node_def)
    then show ?thesis using 2 by (auto simp: shaped_def t)
  next
    case (3 k)
    then obtain h' where h': "tree_wf h' k" "ents k \<noteq> []" by blast
    have k: "nd_children (bm_node m i) ! 0 = ix k" using node_has_nth(3) [OF n, of 0] 3 by simp
    have "owns (shrink_root i m) k (i # fl)" "bm_root (shrink_root i m) = ix k"
      using shrink_node [of m i k fl] assms(1) leaf 3 k by (simp_all add: shrink_root_def count t) (simp add: free_node_def upd_node_def)
    then show ?thesis using shaped_tree [of "shrink_root i m" k "i # fl" h'] h' 3 by (simp add: t)
  qed
qed

lemma remove_inner_ok:
  assumes "rooted m l"
  shows "\<exists>m'. bm_remove_inner key m = Some (bt_get l key, m') \<and> rooted m' (bt_remove key l) \<and> bm_version m' = bm_version m \<and> bm_capacity m' = bm_capacity m"
  using assms
proof (cases rule: rooted_cases)
  case (1 fl)
  then show ?thesis using assms by (simp add: bm_remove_inner_def bt_remove_def bt_retain_def)
next
  case (2 t fl h)
  obtain r m1 t1 fl1 where del: "delete_from (Suc (bm_capacity m)) (ix t) key m = Some (r, m1)" "removed h key m t fl r m1 t1 fl1"
    using delete_from_ok [of m t fl h "Suc (bm_capacity m)" key] 2 by blast
  have own: "owns m1 t1 fl1" "ix t1 = ix t" "bm_root m1 = bm_root m" "bm_version m1 = bm_version m" "bm_capacity m1 = bm_capacity m"
    and wf: "tree_wf h t1" and r: "r = bt_get l key" and io: "inorder t1 = bt_remove key l" and len: "bm_len m1 = bm_len m"
    using del(2) 2(6) by (simp_all add: removed_def moves_def)
  define m2 where "m2 = shrink_root (ix t1) m1"
  define m3 where "m3 = (if r \<noteq> None then m2\<lparr>bm_len := bm_len m2 - 1\<rparr> else m2)"
  have rem: "bm_remove_inner key m = Some (r, m3)"
    using 2(2,3) del(1) own(2) by (simp add: bm_remove_inner_def shrink_root_def m2_def m3_def Let_def)
  have m2: "shaped m2 (bt_remove key l)" "bm_len m2 = bm_len m" "bm_version m2 = bm_version m" "bm_capacity m2 = bm_capacity m"
    using shrink_root_ok [OF own(1) wf] own 2(2) io len by (simp_all add: m2_def)
  have "bm_len m3 = of_nat (length (bt_remove key l))"
    using assms m2(2) bt_remove_length [OF 2(7), of key] r by (cases l) (auto simp: rooted_def m3_def)
  moreover have "shaped m3 (bt_remove key l)" using m2(1) shaped_cong [of m3 m2] by (simp add: m3_def)
  ultimately have "rooted m3 (bt_remove key l)" using bt_remove_sorted [OF 2(7)] by (simp add: rooted_def)
  then show ?thesis using rem r m2 by (simp add: m3_def)
qed

lemma remove_represents:
  assumes "represents m l"
  obtains m' where "bm_remove key m = Some (bt_get l key, m')" "represents m' (bt_remove key l)"
    "bm_version m' = bm_version m + 2" "bm_capacity m' = bm_capacity m"
proof -
  have "rooted (begin_write m) l" using assms by (simp add: begin_write_def rooted_version represents_def)
  then obtain m' where rem: "bm_remove_inner key (begin_write m) = Some (bt_get l key, m')" "rooted m' (bt_remove key l)"
    "bm_version m' = bm_version (begin_write m)" "bm_capacity m' = bm_capacity (begin_write m)"
    using remove_inner_ok [of "begin_write m" l key] by blast
  have "bm_remove key m = Some (bt_get l key, end_write m')" using rem(1) by (simp add: bm_remove_def)
  moreover have "represents (end_write m') (bt_remove key l)"
    using rem assms by (simp add: represents_def end_write_def rooted_version begin_write_def bit_0)
  moreover have "bm_version (end_write m') = bm_version m + 2" "bm_capacity (end_write m') = bm_capacity m"
    using rem by (simp_all add: begin_write_def end_write_def)
  ultimately show ?thesis by (rule that)
qed

section \<open>A node lost to a refused insertion\<close>

text \<open>
  When the root is full and one node is left, the insertion takes that node for a new root, finds none for the split, and
  is refused. The node is then neither in the tree nor on the free list.
\<close>

lemma split_child_refused: "exhausted m \<Longrightarrow> split_child i pos m = (Inl Full, m)"
  by (simp add: split_child_def alloc_node_def exhausted_def Let_def)

lemma full_root_loses_node:
  assumes own: "owns m t []" "ix t = bm_root m" and full: "nd_count (bm_node m (bm_root m)) = B" and last: "Suc (unat (bm_node_count m)) = bm_capacity m"
  shows "\<exists>m'. bm_insert_inner key v m = Some (Inl Full, m') \<and> owns m' t [] \<and> exhausted m' \<and> bm_root m' = bm_root m \<and>
    bm_node_count m' = bm_node_count m + 1 \<and> bm_node_count m \<notin> set (ixs t)"
proof -
  have root: "bm_root m \<noteq> NIL" using owns_index(1) [OF own(1) ix_ixs] own(2) by simp
  have head: "bm_free_head m = NIL" using own(1) by (simp add: owns_def)
  have nc: "unat (bm_node_count m + 1) = Suc (unat (bm_node_count m))"
    using own(1) last by (simp add: owns_def unat_word_ariths)
  obtain a m1 where alloc: "alloc_node False m = (a, m1)" by force
  have new: "a = Inr (bm_node_count m)" "bm_free_head m1 = NIL" "bm_node_count m1 = bm_node_count m + 1"
    using alloc head last by (auto simp: alloc_node_def Let_def upd_node_def)
  from own(1) alloc show ?thesis
  proof (cases rule: alloc_node_ok)
    case 1
    with new show ?thesis by simp
  next
    case (2 idx fl')
    define m2 where "m2 = upd_node idx (\<lambda>n. n\<lparr>nd_children := (nd_children n)[0 := ix t], nd_count := 0\<rparr>) m1"
    have idx: "idx = bm_node_count m" "fl' = []" using 2(1,6) new(1) by simp_all
    have "owns m2 (Nd idx [] ([] @ t # [])) []" using new_root_owns [OF 2(2,3,4)] idx(2) by (simp add: m2_def 2(8))
    then have "owns m2 t []" by (rule owns_child(1))
    moreover have m2: "bm_node_count m2 = bm_node_count m + 1" "bm_root m2 = bm_root m" "bm_capacity m2 = bm_capacity m" "bm_free_head m2 = NIL"
      using new 2 by (simp_all add: m2_def upd_node_def)
    moreover have ex: "exhausted m2" using m2 nc last by (simp add: exhausted_def)
    moreover have "bm_insert_inner key v m = Some (Inl Full, m2)"
      using split_child_refused [OF ex, of idx 0] root full alloc own(2) 2(1) by (simp add: bm_insert_inner_def m2_def)
    moreover have "bm_node_count m \<notin> set (ixs t)" using 2(3) idx by simp
    ultimately show ?thesis by blast
  qed
qed

section \<open>Scans in chunks\<close>

text \<open>A scan resumed behind the last key it returned goes on where it stopped.\<close>

lemma filter_resume:
  assumes "bt_sorted l" "take n (filter (in_range low high) l) = xs" "xs \<noteq> []"
  shows "filter (in_range (Excluded (fst (last xs))) high) l = drop n (filter (in_range low high) l)"
proof -
  let ?f = "filter (in_range low high) l"
  have sorted: "bt_sorted ?f" using assms(1) by (induction l) auto
  have split: "?f = xs @ drop n ?f" using assms(2) by (metis append_take_drop_id)
  have "last xs \<in> set ?f" using split assms(3) by (metis UnCI last_in_set set_append)
  then have low: "at_or_above_low (fst (last xs)) low" by (simp add: in_range_def)
  have up: "at_or_above_low k low" if "fst (last xs) < k" for k using that low by (cases low) auto
  then have "filter (in_range (Excluded (fst (last xs))) high) l = filter (\<lambda>e. fst (last xs) < fst e) ?f"
    by (auto simp: in_range_def intro!: filter_cong)
  also have "\<dots> = filter (\<lambda>e. fst (last xs) < fst e) (xs @ drop n ?f)" using split by simp
  also have "\<dots> = drop n ?f"
  proof -
    have s: "bt_sorted (xs @ drop n ?f)" using sorted split by simp
    obtain ys e where xs: "xs = ys @ [e]" using assms(3) by (cases xs rule: rev_cases) auto
    have "\<forall>e\<in>set xs. \<not> fst (last xs) < fst e" using s by (auto simp: xs sorted_wrt_append)
    moreover have "\<forall>e\<in>set (drop n ?f). fst (last xs) < fst e" using s assms(3) by (auto simp: sorted_wrt_append)
    ultimately show ?thesis by (simp add: filter_empty_conv)
  qed
  finally show ?thesis .
qed

lemma range_resume:
  assumes "represents m l" "bm_range low high n m = Some xs" "xs \<noteq> []" "bm_range (Excluded (fst (last xs))) high n' m = Some ys"
  shows "bm_range low high (n + n') m = Some (xs @ ys)"
proof -
  have xs: "take n (filter (in_range low high) l) = xs" using assms(2) range_represents [OF assms(1)] by simp
  have "ys = take n' (drop n (filter (in_range low high) l))"
    using assms(4) range_represents [OF assms(1)] filter_resume [OF _ xs assms(3)] assms(1) by (simp add: represents_def rooted_def)
  then show ?thesis using range_represents [OF assms(1)] xs by (simp add: take_add)
qed

section \<open>Sequences of calls\<close>

text \<open>The calls of a client and their replies.\<close>

datatype ('k, 'v) TreeCall = Insert 'k 'v | Remove 'k | Get 'k | First | Range "'k Bound" "'k Bound" nat

datatype ('k, 'v) TreeReply = Inserted "BTreeError + 'v option" | Removed "'v option" | Got "'v option"
  | FirstIs "('k \<times> 'v) option" | Entries "('k \<times> 'v) list"

fun bm_call :: "('k::linorder, 'v) TreeCall \<Rightarrow> ('k, 'v) SharedBTreeMap \<Rightarrow> (('k, 'v) TreeReply \<times> ('k, 'v) SharedBTreeMap) option" where
  "bm_call (Insert k v) m = map_option (\<lambda>(r, m). (Inserted r, m)) (bm_insert k v m)"
| "bm_call (Remove k) m = map_option (\<lambda>(r, m). (Removed r, m)) (bm_remove k m)"
| "bm_call (Get k) m = map_option (\<lambda>r. (Got r, m)) (bm_get_inner k m)"
| "bm_call First m = map_option (\<lambda>r. (FirstIs r, m)) (bm_first m)"
| "bm_call (Range low high limit) m = map_option (\<lambda>r. (Entries r, m)) (bm_range low high limit m)"

text \<open>
  What an ordered map replies: the entries after the call, or nothing where it never gives that reply. Of the errors
  only \<open>Full\<close> is allowed, for an insertion, which then changes nothing.
\<close>

fun bt_call :: "('k::linorder, 'v) TreeCall \<Rightarrow> ('k, 'v) TreeReply \<Rightarrow> ('k, 'v) btree_map \<Rightarrow> ('k, 'v) btree_map option" where
  "bt_call (Insert k v) (Inserted (Inr old)) l = (if old = bt_get l k then Some (bt_insert k v l) else None)"
| "bt_call (Insert k v) (Inserted (Inl Full)) l = Some l"
| "bt_call (Remove k) (Removed old) l = (if old = bt_get l k then Some (bt_remove k l) else None)"
| "bt_call (Get k) (Got r) l = (if r = bt_get l k then Some l else None)"
| "bt_call First (FirstIs r) l = (if r = (if l = [] then None else Some (hd l)) then Some l else None)"
| "bt_call (Range low high limit) (Entries es) l = (if es = take limit (filter (in_range low high) l) then Some l else None)"
| "bt_call _ _ l = None"

lemma call_represents:
  assumes rep: "represents m l"
  shows "\<exists>r m' l'. bm_call c m = Some (r, m') \<and> bt_call c r l = Some l' \<and> represents m' l'"
proof (cases c)
  case (Insert k v)
  obtain r m' where ins: "bm_insert k v m = Some (r, m')"
    "case r of Inl e \<Rightarrow> e = Full \<and> exhausted m' \<and> represents m' l | Inr old \<Rightarrow> old = bt_get l k \<and> represents m' (bt_insert k v l)"
    by (rule insert_represents [OF rep])
  then show ?thesis by (cases r) (auto simp: Insert)
next
  case (Remove k)
  obtain m' where "bm_remove k m = Some (bt_get l k, m')" "represents m' (bt_remove k l)" by (rule remove_represents [OF rep])
  then show ?thesis by (simp add: Remove)
qed (use rep in \<open>simp_all add: get_represents [OF rep] first_represents [OF rep] range_represents [OF rep]\<close>)

interpretation btree: call_refinement represents bm_call bt_call
  by unfold_locales (rule call_represents)

text \<open>
  C14. The B-tree is an ordered map: on a fresh map of any capacity, every sequence of insert, remove, get, first and
  range calls returns, with the replies an ordered map gives, and the walk in ascending order then lists exactly the
  map's entries, as many as the map counts. An insertion may be refused, but only as full, with the entries
  unchanged, and only when every node of the array has been handed out and none has come back.
\<close>

theorem btree_refines_map:
  assumes "0 < capacity" "capacity < 2 ^ 32"
  shows "\<exists>m0 rs m l. bm_create capacity k0 v0 = Inr m0 \<and> run_all bm_call calls m0 = Some (rs, m) \<and>
    replay bt_call calls rs [] = Some l \<and> bt_sorted l \<and> iter_ascending m = Some l \<and> bm_len m = of_nat (length l) \<and>
    (\<forall>k v e m'. bm_insert k v m = Some (Inl e, m') \<longrightarrow> e = Full \<and> exhausted m')"
proof -
  note create = create_represents [OF assms, of k0 v0]
  obtain rs m l where run: "run_all bm_call calls (bm_init_region capacity k0 v0) = Some (rs, m)" "replay bt_call calls rs [] = Some l"
    and rep: "represents m l"
    using btree.replay_refines [OF create(2), of calls] by blast
  have "e = Full \<and> exhausted m'" if "bm_insert k v m = Some (Inl e, m')" for k v e m'
    by (rule insert_represents [OF rep, of k v]) (use that in \<open>auto split: sum.splits\<close>)
  then have refused: "\<forall>k v e m'. bm_insert k v m = Some (Inl e, m') \<longrightarrow> e = Full \<and> exhausted m'" by blast
  have "bt_sorted l" "bm_len m = of_nat (length l)" using rep by (simp_all add: represents_def rooted_def)
  with create(1) run iter_represents [OF rep] refused show ?thesis by (intro exI conjI) assumption+
qed

definition sample_calls :: "(nat, nat) TreeCall list" where
  "sample_calls = [Insert 5 7, Insert 3 1, Insert 5 8, Get 5, Range (Excluded 3) Unbounded 4, Remove 3, Remove 3, First]"

lemma sample_replies: "map_option fst (run_all bm_call sample_calls (bm_init_region 3 0 0)) =
    Some [Inserted (Inr None), Inserted (Inr None), Inserted (Inr (Some 7)), Got (Some 8), Entries [(5, 8)],
      Removed (Some 1), Removed None, FirstIs (Some (5, 8))]"
  by code_simp

theorem btree_refines_map_witness:
  "\<exists>m. map_option snd (run_all bm_call sample_calls (bm_init_region 3 0 0)) = Some m \<and> iter_ascending m = Some [(5, 8)] \<and> bm_len m = 1"
proof -
  obtain m0 rs m l where m: "bm_create 3 0 0 = Inr m0" "run_all bm_call sample_calls m0 = Some (rs, m)"
    "replay bt_call sample_calls rs [] = Some l" "iter_ascending m = Some l" "bm_len m = of_nat (length l)"
    using btree_refines_map [of 3 0 0 sample_calls] by auto
  have m0: "m0 = bm_init_region 3 0 0" using m(1) by (simp add: bm_create_def)
  have "rs = [Inserted (Inr None), Inserted (Inr None), Inserted (Inr (Some 7)), Got (Some 8), Entries [(5, 8)],
      Removed (Some 1), Removed None, FirstIs (Some (5, 8))]"
    using sample_replies m(2) unfolding m0 by simp
  then have "l = [(5, 8)]" using m(3) by (simp add: sample_calls_def bt_remove_def bt_retain_def in_range_def split: if_splits)
  then show ?thesis using m unfolding m0 by simp
qed

text \<open>
  C31. The tree stays balanced: after any calls on a fresh map, a map that is not empty has all its leaves equally deep and
  no more than eleven levels below the root, every node but the root at least seven entries and none more than fifteen,
  and the nodes of the tree and of the free list are distinct nodes of the array.
\<close>

theorem btree_balanced:
  assumes "0 < capacity" "capacity < 2 ^ 32" "run_all bm_call calls (bm_init_region capacity k0 v0) = Some (rs, m)" "bm_root m \<noteq> NIL"
  shows "\<exists>t fl h. owns m t fl \<and> ix t = bm_root m \<and> tree_wf h t \<and> h \<le> 11 \<and> ents t \<noteq> [] \<and> iter_ascending m = Some (inorder t)"
proof -
  obtain l where rep: "represents m l"
    using btree.replay_refines [OF create_represents(2) [OF assms(1,2)]] assms(3) by (metis option.inject prod.inject)
  then have "rooted m l" by (simp add: represents_def)
  then show ?thesis
  proof (cases rule: rooted_cases)
    case (2 t fl h)
    then show ?thesis using owns_depth [OF 2(1,4)] iter_represents [OF rep] by metis
  qed (use assms(4) in simp)
qed

theorem btree_balanced_witness:
  "\<exists>t fl h. owns (snd (the (run_all bm_call [Insert (5::nat) (7::nat)] (bm_init_region 3 0 0)))) t fl \<and> tree_wf h t \<and> h \<le> 11 \<and> inorder t = [(5, 7)]"
proof -
  let ?m = "snd (the (run_all bm_call [Insert (5::nat) (7::nat)] (bm_init_region 3 0 0)))"
  have run: "run_all bm_call [Insert (5::nat) (7::nat)] (bm_init_region 3 0 0) = Some ([Inserted (Inr None)], ?m)"
    by (simp add: bm_insert_def bm_insert_inner_def begin_write_def bm_init_region_def alloc_node_def Let_def)
  have m: "bm_root ?m \<noteq> NIL" "iter_ascending ?m = Some [(5, 7)]" by code_simp+
  have "0 < (3 :: nat)" "3 < (2 :: nat) ^ 32" by simp_all
  from btree_balanced [OF this run m(1)] obtain t fl h where t: "owns ?m t fl" "tree_wf h t" "h \<le> 11" "iter_ascending ?m = Some (inorder t)"
    by blast
  have "inorder t = [(5, 7)]" using t(4) m(2) by (metis option.inject)
  with t(1-3) show ?thesis by blast
qed

end
