(* ===== verification/Btree_Readers.thy ===== *)
theory Btree_Readers
  imports Btree_Refinement
begin

text \<open>
  A lookup in the B-tree map while the writer is at work (\<^verbatim>\<open>get_inner\<close> of \<^verbatim>\<open>shared_btree_map.rs\<close>), one load at a time. Between
  its two bumps of the version the writer may leave anything in the nodes; the lookup that passes the check of the
  version has nevertheless read the map of one moment at which no write was in progress. It reads within the arrays
  whatever it finds in them.
\<close>

section \<open>The lookup, load by load\<close>

text \<open>Where the lookup stands; from the first load on, with the version it read then.\<close>

datatype 'v get_pc =
    G_Idle
  | G_Version
  | G_Root u64
  | G_Node u64 u32
  | G_Search u64 u32 nat nat
  | G_Found u64 u32 nat
  | G_Leaf u64 u32 nat
  | G_Child u64 u32 nat
  | G_Check u64 "'v option" bool
  | G_Done "'v option"

fun get_load :: "'k::linorder \<Rightarrow> ('k, 'v) SharedBTreeMap \<Rightarrow> 'v get_pc \<Rightarrow> 'v get_pc" where
  "get_load key m G_Idle = G_Idle"
| "get_load key m G_Version = (if bit (bm_version m) 0 then G_Version else G_Root (bm_version m))"
| "get_load key m (G_Root v1) = G_Node v1 (bm_root m)"
| "get_load key m (G_Node v1 idx) =
     (if idx = NIL then G_Check v1 None False
      else if idx \<ge> of_nat (bm_capacity m) then G_Check v1 None True
      else G_Search v1 idx 0 (min (nd_count (bm_node m idx)) B))"
| "get_load key m (G_Search v1 idx lo hi) =
     (if lo < hi then
        let mid = (lo + hi) div 2; mk = nd_keys (bm_node m idx) ! mid
        in if mk < key then G_Search v1 idx (mid + 1) hi
           else if mk > key then G_Search v1 idx lo mid
           else G_Found v1 idx mid
      else G_Leaf v1 idx lo)"
| "get_load key m (G_Found v1 idx pos) = G_Check v1 (Some (nd_values (bm_node m idx) ! pos)) False"
| "get_load key m (G_Leaf v1 idx pos) = (if nd_leaf (bm_node m idx) then G_Check v1 None False else G_Child v1 idx pos)"
| "get_load key m (G_Child v1 idx pos) = G_Node v1 (nd_children (bm_node m idx) ! pos)"
| "get_load key m (G_Check v1 r torn) = (if v1 = bm_version m \<and> \<not> torn then G_Done r else G_Version)"
| "get_load key m (G_Done r) = G_Done r"

text \<open>
  A reader beside the writer. While a write is in progress \<open>rs_writer\<close> has the call and the map it began on. The ghost
  fields count the bumps of the version and collect the maps at rest since the lookup began.
\<close>

record ('k, 'v) reader_sys =
  rs_mem :: "('k, 'v) SharedBTreeMap"
  rs_writer :: "(('k, 'v) TreeCall \<times> ('k, 'v) SharedBTreeMap) option"
  rs_key :: 'k
  rs_pc :: "'v get_pc"
  rs_bumps :: nat
  rs_held :: "('k, 'v) SharedBTreeMap list"

fun is_write :: "('k, 'v) TreeCall \<Rightarrow> bool" where
  "is_write (Insert k v) = True"
| "is_write (Remove k) = True"
| "is_write _ = False"

inductive reader_step :: "('k::linorder, 'v) reader_sys \<Rightarrow> ('k, 'v) reader_sys \<Rightarrow> bool" where
  get_call: "rs_pc s = G_Idle \<or> rs_pc s = G_Done r \<Longrightarrow>
    reader_step s (s\<lparr>rs_key := key, rs_pc := G_Version, rs_held := (if rs_writer s = None then [rs_mem s] else [])\<rparr>)"
| get_next: "reader_step s (s\<lparr>rs_pc := get_load (rs_key s) (rs_mem s) (rs_pc s)\<rparr>)"
| write_begin: "rs_writer s = None \<Longrightarrow> is_write c \<Longrightarrow>
    reader_step s (s\<lparr>rs_mem := begin_write (rs_mem s), rs_writer := Some (c, rs_mem s), rs_bumps := Suc (rs_bumps s)\<rparr>)"
| write_touch: "rs_writer s = Some w \<Longrightarrow> bm_version m = bm_version (rs_mem s) \<Longrightarrow> bm_capacity m = bm_capacity (rs_mem s) \<Longrightarrow>
    \<forall>i. arrays_ok (bm_node m i) \<Longrightarrow> reader_step s (s\<lparr>rs_mem := m\<rparr>)"
| write_end: "rs_writer s = Some (c, m0) \<Longrightarrow> bm_call c m0 = Some (r, m) \<Longrightarrow>
    reader_step s (s\<lparr>rs_mem := m, rs_writer := None, rs_bumps := Suc (rs_bumps s), rs_held := m # rs_held s\<rparr>)"

definition reader_init :: "nat \<Rightarrow> 'k \<Rightarrow> 'v \<Rightarrow> ('k, 'v) reader_sys" where
  "reader_init capacity k0 v0 = \<lparr>rs_mem = bm_init_region capacity k0 v0, rs_writer = None, rs_key = k0, rs_pc = G_Idle, rs_bumps = 0, rs_held = []\<rparr>"

inductive reader_reach :: "nat \<Rightarrow> ('k::linorder, 'v) reader_sys \<Rightarrow> bool" for capacity where
  reach_init: "reader_reach capacity (reader_init capacity k0 v0)"
| reach_step: "reader_reach capacity s \<Longrightarrow> reader_step s s' \<Longrightarrow> reader_reach capacity s'"

section \<open>What is left of a lookup\<close>

text \<open>The answer the lookup will give if nothing is written from here on.\<close>

fun entered :: "nat \<Rightarrow> 'k::linorder \<Rightarrow> ('k, 'v) SharedBTreeMap \<Rightarrow> u32 \<Rightarrow> nat \<times> bool \<Rightarrow> ('v option \<times> bool) option" where
  "entered fuel key m idx (pos, found) =
     (if found then Some (Some (nd_values (bm_node m idx) ! pos), False)
      else if nd_leaf (bm_node m idx) then Some (None, False)
      else descend fuel key (nd_children (bm_node m idx) ! pos) m)"

fun outcome :: "nat \<Rightarrow> 'k::linorder \<Rightarrow> ('k, 'v) SharedBTreeMap \<Rightarrow> 'v get_pc \<Rightarrow> ('v option \<times> bool) option" where
  "outcome fuel key m (G_Root v1) = descend fuel key (bm_root m) m"
| "outcome fuel key m (G_Node v1 idx) = descend fuel key idx m"
| "outcome fuel key m (G_Search v1 idx lo hi) = entered fuel key m idx (search_loop (nd_keys (bm_node m idx)) key lo hi)"
| "outcome fuel key m (G_Found v1 idx pos) = entered fuel key m idx (pos, True)"
| "outcome fuel key m (G_Leaf v1 idx pos) = entered fuel key m idx (pos, False)"
| "outcome fuel key m (G_Child v1 idx pos) = descend fuel key (nd_children (bm_node m idx) ! pos) m"
| "outcome fuel key m (G_Check v1 r torn) = Some (r, torn)"
| "outcome fuel key m _ = None"

fun pc_version :: "'v get_pc \<Rightarrow> u64 option" where
  "pc_version (G_Root v1) = Some v1"
| "pc_version (G_Node v1 idx) = Some v1"
| "pc_version (G_Search v1 idx lo hi) = Some v1"
| "pc_version (G_Found v1 idx pos) = Some v1"
| "pc_version (G_Leaf v1 idx pos) = Some v1"
| "pc_version (G_Child v1 idx pos) = Some v1"
| "pc_version (G_Check v1 r torn) = Some v1"
| "pc_version _ = None"

lemma outcome_load:
  assumes "outcome fuel key m pc = Some (r, False)" "\<And>v1 r torn. pc \<noteq> G_Check v1 r torn"
  shows "\<exists>fuel'. outcome fuel' key m (get_load key m pc) = Some (r, False) \<and> pc_version (get_load key m pc) = pc_version pc"
proof (cases pc)
  case (G_Node v1 idx)
  then show ?thesis using assms(1)
    by (cases fuel) (auto simp: bm_search_def Let_def split: if_splits prod.splits intro: exI [of _ "fuel - 1"])
next
  case (G_Search v1 idx lo hi)
  then show ?thesis using assms(1) search_loop.simps [of "nd_keys (bm_node m idx)" key lo hi] by (auto simp: Let_def intro!: exI [of _ fuel])
qed (use assms in \<open>auto intro!: exI [of _ fuel] split: if_splits\<close>)

section \<open>The invariant\<close>

text \<open>The places within the arrays that the next load may touch.\<close>

fun pc_ok :: "nat \<Rightarrow> 'v get_pc \<Rightarrow> bool" where
  "pc_ok capacity (G_Search v1 idx lo hi) \<longleftrightarrow> unat idx < capacity \<and> lo \<le> hi \<and> hi \<le> B"
| "pc_ok capacity (G_Found v1 idx pos) \<longleftrightarrow> unat idx < capacity \<and> pos < B"
| "pc_ok capacity (G_Leaf v1 idx pos) \<longleftrightarrow> unat idx < capacity \<and> pos < B + 1"
| "pc_ok capacity (G_Child v1 idx pos) \<longleftrightarrow> unat idx < capacity \<and> pos < B + 1"
| "pc_ok capacity _ \<longleftrightarrow> True"

lemma pc_ok_load: "pc_ok (bm_capacity m) pc \<Longrightarrow> bm_capacity m < 2 ^ 32 \<Longrightarrow> pc_ok (bm_capacity m) (get_load key m pc)"
  by (cases pc) (auto simp: Let_def word_le_nat_alt unat_of_nat take_bit_nat_eq_self)

fun calling :: "'v get_pc \<Rightarrow> bool" where
  "calling G_Idle = False"
| "calling (G_Done r) = False"
| "calling _ = True"

text \<open>The version is that of a moment at rest; as long as it is the current one, the lookup is on its way to the right answer.\<close>

definition on_track :: "('k::linorder, 'v) reader_sys \<Rightarrow> bool" where
  "on_track s \<longleftrightarrow> (\<forall>v1. pc_version (rs_pc s) = Some v1 \<longrightarrow>
     (\<exists>n\<le>rs_bumps s. even n \<and> v1 = of_nat n \<and>
       (n = rs_bumps s \<longrightarrow> (\<exists>fuel r. bm_get_inner (rs_key s) (rs_mem s) = Some r \<and>
          outcome fuel (rs_key s) (rs_mem s) (rs_pc s) = Some (r, False)))))"

definition answered :: "('k::linorder, 'v) reader_sys \<Rightarrow> bool" where
  "answered s \<longleftrightarrow> (\<forall>r. rs_pc s = G_Done r \<longrightarrow> (\<exists>m\<in>set (rs_held s). bm_get_inner (rs_key s) m = Some r))"

definition writer_ok :: "nat \<Rightarrow> ('k::linorder, 'v) reader_sys \<Rightarrow> bool" where
  "writer_ok capacity s \<longleftrightarrow> bm_version (rs_mem s) = of_nat (rs_bumps s) \<and> bm_capacity (rs_mem s) = capacity \<and>
     (case rs_writer s of
        None \<Rightarrow> even (rs_bumps s) \<and> (\<exists>l. represents (rs_mem s) l)
      | Some (c, m0) \<Rightarrow> odd (rs_bumps s) \<and> is_write c \<and> (\<exists>l. represents m0 l) \<and> bm_version (rs_mem s) = bm_version m0 + 1 \<and> bm_capacity m0 = capacity)"

definition reader_inv :: "nat \<Rightarrow> ('k::linorder, 'v) reader_sys \<Rightarrow> bool" where
  "reader_inv capacity s \<longleftrightarrow> writer_ok capacity s \<and> pc_ok capacity (rs_pc s) \<and> on_track s \<and> answered s \<and>
     (rs_writer s = None \<and> calling (rs_pc s) \<longrightarrow> rs_mem s \<in> set (rs_held s)) \<and>
     (\<forall>m\<in>set (rs_held s). \<exists>l. represents m l)"

lemma write_represents:
  assumes "is_write c" "represents m0 l" "bm_call c m0 = Some (r, m)"
  shows "(\<exists>l'. represents m l') \<and> bm_version m = bm_version m0 + 2 \<and> bm_capacity m = bm_capacity m0"
proof (cases c)
  case (Insert k v)
  show ?thesis by (rule insert_represents [OF assms(2), of k v]) (use assms(3) Insert in \<open>auto split: sum.splits\<close>)
next
  case (Remove k)
  show ?thesis by (rule remove_represents [OF assms(2), of k]) (use assms(3) Remove in auto)
qed (use assms(1) in simp_all)

text \<open>A write in progress leaves no version to be on track with.\<close>

lemma on_track_write:
  assumes "on_track s" "rs_pc s' = rs_pc s" "rs_bumps s \<le> rs_bumps s'" "rs_bumps s' = rs_bumps s \<Longrightarrow> odd (rs_bumps s)"
  shows "on_track s'"
  unfolding on_track_def
proof (intro allI impI)
  fix v1
  assume "pc_version (rs_pc s') = Some v1"
  then obtain n where n: "n \<le> rs_bumps s" "even n" "v1 = of_nat n" using assms(1,2) unfolding on_track_def by auto
  moreover have "n \<noteq> rs_bumps s'" using n assms(3,4) by (metis le_antisym)
  ultimately show "\<exists>n\<le>rs_bumps s'. even n \<and> v1 = of_nat n \<and> (n = rs_bumps s' \<longrightarrow> (\<exists>fuel r. bm_get_inner (rs_key s') (rs_mem s') = Some r \<and>
      outcome fuel (rs_key s') (rs_mem s') (rs_pc s') = Some (r, False)))"
    using assms(3) by (intro exI [of _ n]) simp
qed

lemma at_rest:
  assumes "writer_ok capacity s" "even (rs_bumps s)"
  shows "rs_writer s = None" "\<exists>fuel r. bm_get_inner key (rs_mem s) = Some r \<and> descend fuel key (bm_root (rs_mem s)) (rs_mem s) = Some (r, False)"
proof -
  show none: "rs_writer s = None" using assms by (auto simp: writer_ok_def split: option.splits)
  then obtain l where "represents (rs_mem s) l" using assms(1) by (auto simp: writer_ok_def)
  then have "bm_get_inner key (rs_mem s) = Some (bt_get l key)" by (rule get_represents)
  moreover from this have "descend (Suc (bm_capacity (rs_mem s))) key (bm_root (rs_mem s)) (rs_mem s) = Some (bt_get l key, False)"
    by (auto simp: bm_get_inner_def split: if_splits option.splits)
  ultimately show "\<exists>fuel r. bm_get_inner key (rs_mem s) = Some r \<and> descend fuel key (bm_root (rs_mem s)) (rs_mem s) = Some (r, False)" by blast
qed

lemma even_version: "even (of_nat n :: u64) \<longleftrightarrow> even n"
  by (induction n) simp_all

lemma on_trackD:
  assumes "on_track s" "pc_version (rs_pc s) = Some v1"
  obtains n where "n \<le> rs_bumps s" "even n" "v1 = of_nat n"
    "n = rs_bumps s \<longrightarrow> (\<exists>fuel r. bm_get_inner (rs_key s) (rs_mem s) = Some r \<and> outcome fuel (rs_key s) (rs_mem s) (rs_pc s) = Some (r, False))"
proof -
  have "\<exists>n\<le>rs_bumps s. even n \<and> v1 = of_nat n \<and> (n = rs_bumps s \<longrightarrow>
      (\<exists>fuel r. bm_get_inner (rs_key s) (rs_mem s) = Some r \<and> outcome fuel (rs_key s) (rs_mem s) (rs_pc s) = Some (r, False)))"
    using assms by (simp add: on_track_def)
  then show ?thesis using that by (elim exE conjE) simp
qed

lemma on_track_load:
  assumes "writer_ok capacity s" "on_track s"
  shows "on_track (s\<lparr>rs_pc := get_load (rs_key s) (rs_mem s) (rs_pc s)\<rparr>)"
proof (cases "pc_version (rs_pc s)")
  case None
  have "even (rs_bumps s)" if "\<not> bit (bm_version (rs_mem s)) 0" using that assms(1) by (simp add: writer_ok_def bit_0 even_version)
  then show ?thesis using None at_rest(2) [OF assms(1), of "rs_key s"] assms(1)
    by (cases "rs_pc s") (auto simp: on_track_def writer_ok_def intro!: exI [of _ "rs_bumps s"])
next
  case (Some v1)
  obtain n where n: "n \<le> rs_bumps s" "even n" "v1 = of_nat n"
    "n = rs_bumps s \<longrightarrow> (\<exists>fuel r. bm_get_inner (rs_key s) (rs_mem s) = Some r \<and> outcome fuel (rs_key s) (rs_mem s) (rs_pc s) = Some (r, False))"
    by (rule on_trackD [OF assms(2) Some])
  have same: "pc_version (get_load (rs_key s) (rs_mem s) (rs_pc s)) = Some v1" if "\<And>v1 r torn. rs_pc s \<noteq> G_Check v1 r torn"
    using Some that by (cases "rs_pc s") (auto simp: Let_def)
  show ?thesis
  proof (cases "\<exists>v1 r torn. rs_pc s = G_Check v1 r torn")
    case True
    then show ?thesis by (auto simp: on_track_def)
  next
    case False
    then have "n = rs_bumps s \<longrightarrow> (\<exists>fuel r. bm_get_inner (rs_key s) (rs_mem s) = Some r \<and>
        outcome fuel (rs_key s) (rs_mem s) (get_load (rs_key s) (rs_mem s) (rs_pc s)) = Some (r, False))"
      using n(4) outcome_load [of _ "rs_key s" "rs_mem s" "rs_pc s"] by blast
    then show ?thesis using n same False by (auto simp: on_track_def)
  qed
qed

lemma answered_load:
  assumes "reader_inv capacity s" "rs_bumps s < 2 ^ 64"
  shows "answered (s\<lparr>rs_pc := get_load (rs_key s) (rs_mem s) (rs_pc s)\<rparr>)"
proof (cases "rs_pc s")
  case (G_Check v1 r torn)
  have inv: "writer_ok capacity s" "on_track s" "rs_writer s = None \<longrightarrow> rs_mem s \<in> set (rs_held s)"
    using assms(1) G_Check by (auto simp: reader_inv_def)
  obtain n where n: "n \<le> rs_bumps s" "even n" "v1 = of_nat n"
    "n = rs_bumps s \<longrightarrow> (\<exists>r'. bm_get_inner (rs_key s) (rs_mem s) = Some r' \<and> r = r' \<and> \<not> torn)"
    using on_trackD [OF inv(2), of v1] G_Check by auto
  have "n = rs_bumps s" if "v1 = bm_version (rs_mem s)"
  proof -
    have "unat (of_nat n :: u64) = unat (of_nat (rs_bumps s) :: u64)" using that n(3) inv(1) by (simp add: writer_ok_def)
    then show ?thesis using n(1) assms(2) by (simp add: unat_of_nat take_bit_nat_eq_self)
  qed
  then show ?thesis using n inv(3) at_rest(1) [OF inv(1)] G_Check by (auto simp: answered_def)
qed (use assms(1) in \<open>auto simp: answered_def reader_inv_def Let_def\<close>)

text \<open>What a step of the writer changes.\<close>

lemma reader_inv_write:
  assumes "reader_inv capacity s" "writer_ok capacity s'" "rs_pc s' = rs_pc s" "rs_key s' = rs_key s" "set (rs_held s) \<subseteq> set (rs_held s')"
    and "rs_bumps s \<le> rs_bumps s'" "rs_bumps s' = rs_bumps s \<Longrightarrow> odd (rs_bumps s)"
    and "rs_writer s' = None \<Longrightarrow> rs_mem s' \<in> set (rs_held s')" "\<forall>m\<in>set (rs_held s'). \<exists>l. represents m l"
  shows "reader_inv capacity s'"
proof -
  have "on_track s'" using assms(1) by (intro on_track_write [OF _ assms(3,6,7)]) (simp_all add: reader_inv_def)
  moreover have "answered s" using assms(1) by (simp add: reader_inv_def)
  then have "answered s'" using assms(3-5) unfolding answered_def by (metis subsetD)
  ultimately show ?thesis using assms unfolding reader_inv_def by auto
qed

lemma reader_inv_step:
  assumes "reader_inv capacity s" "reader_step s s'" "rs_bumps s < 2 ^ 64" "capacity < 2 ^ 32"
  shows "reader_inv capacity s'"
  using assms(2)
proof cases
  case (get_call r key)
  then show ?thesis using assms(1) by (auto simp: reader_inv_def writer_ok_def on_track_def answered_def)
next
  case get_next
  have inv: "writer_ok capacity s" "on_track s" "pc_ok capacity (rs_pc s)" using assms(1) by (simp_all add: reader_inv_def)
  have cap: "bm_capacity (rs_mem s) = capacity" using inv(1) by (simp add: writer_ok_def)
  have "calling (rs_pc s)" if "calling (get_load (rs_key s) (rs_mem s) (rs_pc s))" using that by (cases "rs_pc s") auto
  moreover have "writer_ok capacity s'" using inv(1) by (cases "rs_writer s") (auto simp: get_next writer_ok_def)
  moreover have "pc_ok capacity (rs_pc s')" using pc_ok_load [of "rs_mem s" "rs_pc s" "rs_key s"] inv(3) cap assms(4) by (simp add: get_next)
  ultimately show ?thesis
    using on_track_load [OF inv(1,2)] answered_load [OF assms(1,3)] assms(1) by (simp add: reader_inv_def get_next)
next
  case (write_begin c)
  have "writer_ok capacity s'" using assms(1) write_begin by (auto simp: reader_inv_def writer_ok_def begin_write_def)
  with assms(1) show ?thesis by (rule reader_inv_write) (use assms(1) in \<open>auto simp: write_begin(1) reader_inv_def\<close>)
next
  case (write_touch w m)
  have "writer_ok capacity s'" using assms(1) write_touch by (auto simp: reader_inv_def writer_ok_def split: prod.splits)
  with assms(1) show ?thesis
    by (rule reader_inv_write) (use assms(1) write_touch(2) in \<open>auto simp: write_touch(1) reader_inv_def writer_ok_def\<close>)
next
  case (write_end c m0 r m)
  have w: "is_write c" "bm_version (rs_mem s) = bm_version m0 + 1" "bm_version (rs_mem s) = of_nat (rs_bumps s)" "odd (rs_bumps s)"
    "bm_capacity m0 = capacity" "\<exists>l. represents m0 l" "\<forall>m\<in>set (rs_held s). \<exists>l. represents m l"
    using assms(1) write_end(2) by (auto simp: reader_inv_def writer_ok_def)
  then obtain l where l: "represents m0 l" by blast
  note m = write_represents [OF w(1) l write_end(3)]
  have "bm_version m = (bm_version m0 + 1) + 1" using m by simp
  then have "bm_version m = of_nat (Suc (rs_bumps s))" using w(2,3) by (simp only: of_nat_Suc add.commute)
  then have "writer_ok capacity s'" using m w by (simp add: writer_ok_def write_end(1))
  with assms(1) show ?thesis by (rule reader_inv_write) (use m w(7) in \<open>auto simp: write_end(1)\<close>)
qed

lemma reader_inv_reach:
  assumes "reader_reach capacity s" "rs_bumps s < 2 ^ 64" "0 < capacity" "capacity < 2 ^ 32"
  shows "reader_inv capacity s"
  using assms(1,2)
proof induction
  case (reach_init k0 v0)
  then show ?case using create_represents(2) [OF assms(3,4), of k0 v0]
    by (auto simp: reader_inv_def reader_init_def writer_ok_def on_track_def answered_def bm_init_region_def)
next
  case (reach_step s s')
  have "rs_bumps s \<le> rs_bumps s'" using reach_step.hyps(2) by cases auto
  then show ?case using reach_step assms(4) by (intro reader_inv_step [of capacity s s']) auto
qed

text \<open>
  C22. A lookup beside the writer: whatever the writer has left in the nodes when the lookup reads them, the lookup stays
  within the array of nodes and within the arrays of each node, and what it returns is the value that the map had for
  the key at one moment since the call began, a moment at which no write was in progress. (The version is taken not to
  wrap around.)
\<close>

theorem btree_get_linearizable:
  assumes "reader_reach capacity s" "0 < capacity" "capacity < 2 ^ 32" "rs_bumps s < 2 ^ 64"
  shows "pc_ok capacity (rs_pc s) \<and>
    (\<forall>r. rs_pc s = G_Done r \<longrightarrow> (\<exists>m\<in>set (rs_held s). \<exists>l. represents m l \<and> r = bt_get l (rs_key s)))"
proof (intro conjI allI impI)
  have inv: "reader_inv capacity s" by (rule reader_inv_reach [OF assms(1,4,2,3)])
  then show "pc_ok capacity (rs_pc s)" by (simp add: reader_inv_def)
  fix r
  assume "rs_pc s = G_Done r"
  then obtain m where m: "m \<in> set (rs_held s)" "bm_get_inner (rs_key s) m = Some r" using inv by (auto simp: reader_inv_def answered_def)
  moreover obtain l where "represents m l" using inv m(1) by (auto simp: reader_inv_def)
  ultimately show "\<exists>m\<in>set (rs_held s). \<exists>l. represents m l \<and> r = bt_get l (rs_key s)" using get_represents by (metis option.inject)
qed

text \<open>A lookup that an insertion overtakes, and that starts again.\<close>

definition loads :: "nat \<Rightarrow> ('k::linorder, 'v) reader_sys \<Rightarrow> ('k, 'v) reader_sys" where
  "loads n s = s\<lparr>rs_pc := (get_load (rs_key s) (rs_mem s) ^^ n) (rs_pc s)\<rparr>"

lemma reach_loads: "reader_reach capacity s \<Longrightarrow> reader_reach capacity (loads n s)"
proof (induction n)
  case (Suc n)
  have "loads (Suc n) s = (loads n s)\<lparr>rs_pc := get_load (rs_key (loads n s)) (rs_mem (loads n s)) (rs_pc (loads n s))\<rparr>" by (simp add: loads_def)
  then show ?case using reach_step [OF Suc.IH [OF Suc.prems] get_next] by simp
qed (simp add: loads_def)

definition sample_map :: "(nat, nat) SharedBTreeMap" where
  "sample_map = snd (the (bm_call (Insert 5 7) (bm_init_region 3 0 0)))"

definition sample_lookup :: "(nat, nat) reader_sys" where
  "sample_lookup = loads 9 \<lparr>rs_mem = sample_map, rs_writer = None, rs_key = 5, rs_pc = G_Node 0 NIL, rs_bumps = 2,
     rs_held = [sample_map, bm_init_region 3 0 0]\<rparr>"

lemma sample_lookup_reach: "reader_reach 3 sample_lookup"
proof -
  have call: "bm_call (Insert 5 7) (bm_init_region 3 0 0) = Some (Inserted (Inr None), sample_map)"
    by (simp add: sample_map_def bm_insert_def bm_insert_inner_def begin_write_def bm_init_region_def alloc_node_def Let_def)
  have "reader_reach 3 ((reader_init 3 0 0)\<lparr>rs_key := 5, rs_pc := G_Version, rs_held := [bm_init_region 3 0 0]\<rparr> :: (nat, nat) reader_sys)"
    using reach_step [OF reach_init [of 3 "0 :: nat" "0 :: nat"] get_call [of _ undefined 5]] by (simp add: reader_init_def)
  from reach_loads [OF this, of 2]
  have "reader_reach 3 (\<lparr>rs_mem = bm_init_region 3 0 0, rs_writer = None, rs_key = 5, rs_pc = G_Node 0 NIL, rs_bumps = 0,
      rs_held = [bm_init_region 3 0 0]\<rparr> :: (nat, nat) reader_sys)"
    by (simp add: reader_init_def loads_def numeral_2_eq_2 bm_init_region_def)
  from reach_step [OF this write_begin [of _ "Insert 5 7"]]
  have "reader_reach 3 (\<lparr>rs_mem = begin_write (bm_init_region 3 0 0), rs_writer = Some (Insert 5 7, bm_init_region 3 0 0), rs_key = 5,
      rs_pc = G_Node 0 NIL, rs_bumps = 1, rs_held = [bm_init_region 3 0 0]\<rparr> :: (nat, nat) reader_sys)"
    by simp
  from reach_step [OF this write_end [of _ "Insert 5 7" "bm_init_region 3 0 0"]] call
  have "reader_reach 3 \<lparr>rs_mem = sample_map, rs_writer = None, rs_key = 5, rs_pc = G_Node 0 NIL, rs_bumps = 2,
      rs_held = [sample_map, bm_init_region 3 0 0]\<rparr>"
    by (simp add: numeral_2_eq_2)
  then show ?thesis unfolding sample_lookup_def by (rule reach_loads)
qed

theorem btree_get_linearizable_witness:
  "reader_reach 3 sample_lookup \<and> rs_pc sample_lookup = G_Done (Some 7) \<and>
   (\<exists>m\<in>set (rs_held sample_lookup). \<exists>l. represents m l \<and> bt_get l 5 = Some 7)"
proof -
  have pc: "rs_pc sample_lookup = G_Done (Some 7)" by code_simp
  have "rs_bumps sample_lookup < 2 ^ 64" "rs_key sample_lookup = 5" by (simp_all add: sample_lookup_def loads_def)
  with btree_get_linearizable [of 3 sample_lookup] sample_lookup_reach pc show ?thesis by fastforce
qed

end
