(* ===== verification/Treiber_Stack.thy ===== *)
theory Treiber_Stack
  imports SubEtha_Prelude
begin

text \<open>
  The lock-free stack of \<^verbatim>\<open>shared_treiber_stack.rs\<close>: a stack and a free list threaded through one array of links, each
  with a head that packs a counter with an index. The callers are interleaved at single loads, stores and
  compare-and-swaps. The calls are a run of a stack, and no slot is ever in two places or lost.
\<close>

section \<open>The region\<close>

definition STACK_NIL :: u32 where "STACK_NIL = - 1"

datatype StackError = Full | LayoutMismatch

definition pack :: "u32 \<Rightarrow> u32 \<Rightarrow> u64" where
  "pack counter index = push_bit 32 (ucast counter) OR ucast index"

definition unpack :: "u64 \<Rightarrow> u32 \<times> u32" where
  "unpack v = (ucast (drop_bit 32 v), ucast v)"

lemma unpack_pack [simp]: "unpack (pack c i) = (c, i)"
proof -
  have "(ucast (drop_bit 32 (pack c i)) :: u32) = c" "(ucast (pack c i) :: u32) = i"
    by (rule bit_word_eqI; auto simp: pack_def bit_simps dest: bit_imp_le_length)+
  then show ?thesis by (simp add: unpack_def)
qed

text \<open>
  Where a caller stands: in \<open>acquire_slot\<close> (\<open>A\<close>), in \<open>push\<close> (\<open>P\<close>), in \<open>pop\<close> (\<open>O\<close>), in \<open>release_slot\<close> (\<open>R\<close>), in
  \<open>peek\<close> (\<open>K\<close>), or returned (\<open>D\<close>). A head that was loaded comes with a ghost, the number of changes it had seen.
\<close>

datatype 'a st_pc =
    Idle
  | A_Load 'a | A_Next 'a u64 nat | A_Cas 'a u64 u32 nat | A_Bump 'a | A_Undo 'a
  | P_Write 'a u32 | P_Load 'a u32 | P_Link 'a u32 u64 nat | P_Cas 'a u32 u64 nat
  | O_Load | O_Next u64 nat | O_Cas u64 u32 nat | O_Read u32
  | R_Load 'a u32 | R_Link 'a u32 u64 nat | R_Cas 'a u32 u64 nat
  | K_Load | K_Read u32
  | D_Push 'a "StackError + unit" | D_Pop "'a option" | D_Peek "'a option"

datatype 'a st_event = Pushed 'a | Popped "'a option" | Refused 'a

text \<open>
  The region and its callers. The ghosts are the two lists of indices and how often each head was changed, the slots
  handed out from the fresh end, the callers about to take back an increment, the calls begun, and the log of the
  calls in the order in which they took effect.
\<close>

record 'a st_sys =
  st_head :: u64
  st_free :: u64
  st_bump :: u32
  st_next :: "u32 \<Rightarrow> u32"
  st_slot :: "u32 \<Rightarrow> 'a"
  st_pc :: "nat \<Rightarrow> 'a st_pc"
  st_stack :: "u32 list"
  st_freed :: "u32 list"
  st_hn :: nat
  st_fn :: nat
  st_alloc :: nat
  st_undo :: "nat set"
  st_calls :: "nat \<Rightarrow> nat"
  st_log :: "(nat \<times> 'a st_event) list"

definition st_init :: "'a \<Rightarrow> 'a st_sys" where
  "st_init zero = \<lparr>st_head = pack 0 STACK_NIL, st_free = pack 0 STACK_NIL, st_bump = 0, st_next = (\<lambda>_. 0), st_slot = (\<lambda>_. zero),
     st_pc = (\<lambda>_. Idle), st_stack = [], st_freed = [], st_hn = 0, st_fn = 0, st_alloc = 0, st_undo = {}, st_calls = (\<lambda>_. 0), st_log = []\<rparr>"

definition st_goto :: "nat \<Rightarrow> 'a st_pc \<Rightarrow> 'a st_sys \<Rightarrow> 'a st_sys" where
  "st_goto t pc s = s\<lparr>st_pc := (st_pc s)(t := pc)\<rparr>"

definition st_call :: "nat \<Rightarrow> 'a st_pc \<Rightarrow> 'a st_sys \<Rightarrow> 'a st_sys" where
  "st_call t pc s = st_goto t pc (s\<lparr>st_calls := (st_calls s)(t := Suc (st_calls s t))\<rparr>)"

definition st_took :: "nat \<Rightarrow> 'a st_event \<Rightarrow> 'a st_sys \<Rightarrow> 'a st_sys" where
  "st_took t e s = s\<lparr>st_log := st_log s @ [(t, e)]\<rparr>"

definition swap_head :: "u64 \<Rightarrow> u32 list \<Rightarrow> 'a st_sys \<Rightarrow> 'a st_sys" where
  "swap_head new l s = s\<lparr>st_head := new, st_stack := l, st_hn := Suc (st_hn s)\<rparr>"

definition swap_free :: "u64 \<Rightarrow> u32 list \<Rightarrow> 'a st_sys \<Rightarrow> 'a st_sys" where
  "swap_free new l s = s\<lparr>st_free := new, st_freed := l, st_fn := Suc (st_fn s)\<rparr>"

definition set_link :: "u32 \<Rightarrow> u32 \<Rightarrow> 'a st_sys \<Rightarrow> 'a st_sys" where
  "set_link idx x s = s\<lparr>st_next := (st_next s)(idx := x)\<rparr>"

fun resting :: "'a st_pc \<Rightarrow> bool" where
  "resting Idle = True"
| "resting (D_Push v r) = True"
| "resting (D_Pop r) = True"
| "resting (D_Peek r) = True"
| "resting _ = False"

inductive st_step :: "nat \<Rightarrow> nat \<Rightarrow> 'a st_sys \<Rightarrow> 'a st_sys \<Rightarrow> bool" for capacity t where
  push_call: "resting (st_pc s t) \<Longrightarrow> st_step capacity t s (st_call t (A_Load v) s)"
| acquire_load: "st_pc s t = A_Load v \<Longrightarrow>
    st_step capacity t s (st_goto t (if snd (unpack (st_free s)) = STACK_NIL then A_Bump v else A_Next v (st_free s) (st_fn s)) s)"
| acquire_next: "st_pc s t = A_Next v h n \<Longrightarrow> st_step capacity t s (st_goto t (A_Cas v h (st_next s (snd (unpack h))) n) s)"
| acquire_cas: "st_pc s t = A_Cas v h nx n \<Longrightarrow> st_free s = h \<Longrightarrow>
    st_step capacity t s (st_goto t (P_Write v (snd (unpack h))) (swap_free (pack (fst (unpack h) + 1) nx) (tl (st_freed s)) s))"
| acquire_retry: "st_pc s t = A_Cas v h nx n \<Longrightarrow> st_free s \<noteq> h \<Longrightarrow> st_step capacity t s (st_goto t (A_Load v) s)"
| bump_add: "st_pc s t = A_Bump v \<Longrightarrow> \<not> unat (st_bump s) \<ge> capacity \<Longrightarrow>
    st_step capacity t s (st_goto t (P_Write v (st_bump s)) (s\<lparr>st_bump := st_bump s + 1, st_alloc := Suc (st_alloc s)\<rparr>))"
| bump_full: "st_pc s t = A_Bump v \<Longrightarrow> unat (st_bump s) \<ge> capacity \<Longrightarrow>
    st_step capacity t s (st_goto t (A_Undo v) (st_took t (Refused v) (s\<lparr>st_bump := st_bump s + 1, st_undo := insert t (st_undo s)\<rparr>)))"
| bump_undo: "st_pc s t = A_Undo v \<Longrightarrow>
    st_step capacity t s (st_goto t (D_Push v (Inl Full)) (s\<lparr>st_bump := st_bump s - 1, st_undo := st_undo s - {t}\<rparr>))"
| push_write: "st_pc s t = P_Write v idx \<Longrightarrow> st_step capacity t s (st_goto t (P_Load v idx) (s\<lparr>st_slot := (st_slot s)(idx := v)\<rparr>))"
| push_load: "st_pc s t = P_Load v idx \<Longrightarrow> st_step capacity t s (st_goto t (P_Link v idx (st_head s) (st_hn s)) s)"
| push_link: "st_pc s t = P_Link v idx h n \<Longrightarrow> st_step capacity t s (st_goto t (P_Cas v idx h n) (set_link idx (snd (unpack h)) s))"
| push_cas: "st_pc s t = P_Cas v idx h n \<Longrightarrow> st_head s = h \<Longrightarrow>
    st_step capacity t s (st_goto t (D_Push v (Inr ())) (st_took t (Pushed v) (swap_head (pack (fst (unpack h) + 1) idx) (idx # st_stack s) s)))"
| push_retry: "st_pc s t = P_Cas v idx h n \<Longrightarrow> st_head s \<noteq> h \<Longrightarrow> st_step capacity t s (st_goto t (P_Load v idx) s)"
| pop_call: "resting (st_pc s t) \<Longrightarrow> st_step capacity t s (st_call t O_Load s)"
| pop_empty: "st_pc s t = O_Load \<Longrightarrow> snd (unpack (st_head s)) = STACK_NIL \<Longrightarrow>
    st_step capacity t s (st_goto t (D_Pop None) (st_took t (Popped None) s))"
| pop_load: "st_pc s t = O_Load \<Longrightarrow> snd (unpack (st_head s)) \<noteq> STACK_NIL \<Longrightarrow> st_step capacity t s (st_goto t (O_Next (st_head s) (st_hn s)) s)"
| pop_next: "st_pc s t = O_Next h n \<Longrightarrow> st_step capacity t s (st_goto t (O_Cas h (st_next s (snd (unpack h))) n) s)"
| pop_cas: "st_pc s t = O_Cas h nx n \<Longrightarrow> st_head s = h \<Longrightarrow>
    st_step capacity t s (st_goto t (O_Read (snd (unpack h))) (st_took t (Popped (Some (st_slot s (snd (unpack h)))))
      (swap_head (pack (fst (unpack h) + 1) nx) (tl (st_stack s)) s)))"
| pop_retry: "st_pc s t = O_Cas h nx n \<Longrightarrow> st_head s \<noteq> h \<Longrightarrow> st_step capacity t s (st_goto t O_Load s)"
| pop_read: "st_pc s t = O_Read idx \<Longrightarrow> st_step capacity t s (st_goto t (R_Load (st_slot s idx) idx) s)"
| release_load: "st_pc s t = R_Load x idx \<Longrightarrow> st_step capacity t s (st_goto t (R_Link x idx (st_free s) (st_fn s)) s)"
| release_link: "st_pc s t = R_Link x idx h n \<Longrightarrow> st_step capacity t s (st_goto t (R_Cas x idx h n) (set_link idx (snd (unpack h)) s))"
| release_cas: "st_pc s t = R_Cas x idx h n \<Longrightarrow> st_free s = h \<Longrightarrow>
    st_step capacity t s (st_goto t (D_Pop (Some x)) (swap_free (pack (fst (unpack h) + 1) idx) (idx # st_freed s) s))"
| release_retry: "st_pc s t = R_Cas x idx h n \<Longrightarrow> st_free s \<noteq> h \<Longrightarrow> st_step capacity t s (st_goto t (R_Load x idx) s)"
| peek_call: "resting (st_pc s t) \<Longrightarrow> st_step capacity t s (st_goto t K_Load s)"
| peek_load: "st_pc s t = K_Load \<Longrightarrow>
    st_step capacity t s (st_goto t (if snd (unpack (st_head s)) = STACK_NIL then D_Peek None else K_Read (snd (unpack (st_head s)))) s)"
| peek_read: "st_pc s t = K_Read idx \<Longrightarrow> st_step capacity t s (st_goto t (D_Peek (Some (st_slot s idx))) s)"

section \<open>Runs\<close>

fun seen_head :: "'a st_pc \<Rightarrow> (u64 \<times> nat) option" where
  "seen_head (P_Link v idx h n) = Some (h, n)"
| "seen_head (P_Cas v idx h n) = Some (h, n)"
| "seen_head (O_Next h n) = Some (h, n)"
| "seen_head (O_Cas h nx n) = Some (h, n)"
| "seen_head _ = None"

fun seen_free :: "'a st_pc \<Rightarrow> (u64 \<times> nat) option" where
  "seen_free (A_Next v h n) = Some (h, n)"
| "seen_free (A_Cas v h nx n) = Some (h, n)"
| "seen_free (R_Link x idx h n) = Some (h, n)"
| "seen_free (R_Cas x idx h n) = Some (h, n)"
| "seen_free _ = None"

text \<open>
  What the counters of 32 bits need: no head changes \<open>2 ^ 32\<close> times between a caller's load and its compare-and-swap, and
  the callers that have overshot the capacity do not take the bump counter round.
\<close>

definition timely :: "nat \<Rightarrow> 'a st_sys \<Rightarrow> bool" where
  "timely capacity s \<longleftrightarrow>
     (\<forall>t h n. seen_head (st_pc s t) = Some (h, n) \<longrightarrow> st_hn s - n < 2 ^ 32) \<and>
     (\<forall>t h n. seen_free (st_pc s t) = Some (h, n) \<longrightarrow> st_fn s - n < 2 ^ 32) \<and> capacity + card (st_undo s) < 2 ^ 32"

inductive st_reach :: "nat \<Rightarrow> 'a st_sys \<Rightarrow> bool" for capacity where
  init: "st_reach capacity (st_init zero)"
| step: "st_reach capacity s \<Longrightarrow> st_step capacity t s s' \<Longrightarrow> timely capacity s' \<Longrightarrow> st_reach capacity s'"

section \<open>The invariant\<close>

text \<open>The index a list begins with, and a list threaded through the links.\<close>

definition first :: "u32 list \<Rightarrow> u32" where
  "first l = (case l of [] \<Rightarrow> STACK_NIL | i # _ \<Rightarrow> i)"

fun linked :: "(u32 \<Rightarrow> u32) \<Rightarrow> u32 list \<Rightarrow> bool" where
  "linked links [] \<longleftrightarrow> True"
| "linked links (i # l) \<longleftrightarrow> i \<noteq> STACK_NIL \<and> links i = first l \<and> linked links l"

lemma first_simps [simp]: "first [] = STACK_NIL" "first (i # l) = i"
  by (simp_all add: first_def)

lemma linked_upd: "idx \<notin> set l \<Longrightarrow> linked (links(idx := x)) l = linked links l"
  by (induction l) auto

lemma linked_first: "linked links l \<Longrightarrow> first l \<noteq> STACK_NIL \<Longrightarrow> l = first l # tl l \<and> links (first l) = first (tl l)"
  by (cases l) auto

text \<open>The slot that a caller has to itself.\<close>

fun holding :: "'a st_pc \<Rightarrow> u32 option" where
  "holding (P_Write v idx) = Some idx"
| "holding (P_Load v idx) = Some idx"
| "holding (P_Link v idx h n) = Some idx"
| "holding (P_Cas v idx h n) = Some idx"
| "holding (O_Read idx) = Some idx"
| "holding (R_Load x idx) = Some idx"
| "holding (R_Link x idx h n) = Some idx"
| "holding (R_Cas x idx h n) = Some idx"
| "holding _ = None"

text \<open>The slots: each one handed out is in a list or in one caller's hands.\<close>

definition places :: "(nat \<rightharpoonup> u32) \<Rightarrow> u32 list \<Rightarrow> nat \<Rightarrow> bool" where
  "places own l n \<longleftrightarrow> distinct l \<and> ran own \<inter> set l = {} \<and> inj_on own (dom own) \<and> set l \<union> ran own = {i. unat i < n}"

definition st_slots_ok :: "'a st_sys \<Rightarrow> bool" where
  "st_slots_ok s \<longleftrightarrow> places (\<lambda>t. holding (st_pc s t)) (st_stack s @ st_freed s) (st_alloc s)"

text \<open>The fresh end of the array.\<close>

definition bump_ok :: "nat \<Rightarrow> 'a st_sys \<Rightarrow> bool" where
  "bump_ok capacity s \<longleftrightarrow> st_alloc s \<le> capacity \<and> st_bump s = of_nat (st_alloc s + card (st_undo s)) \<and> finite (st_undo s) \<and>
     (\<forall>t. t \<in> st_undo s \<longleftrightarrow> (\<exists>v. st_pc s t = A_Undo v)) \<and> (st_undo s \<noteq> {} \<longrightarrow> st_alloc s = capacity) \<and>
     (\<forall>t v. (t, Refused v) \<in> set (st_log s) \<longrightarrow> st_alloc s = capacity)"

text \<open>The two heads.\<close>

definition heads_ok :: "'a st_sys \<Rightarrow> bool" where
  "heads_ok s \<longleftrightarrow> st_head s = pack (of_nat (st_hn s)) (first (st_stack s)) \<and> linked (st_next s) (st_stack s) \<and>
     st_free s = pack (of_nat (st_fn s)) (first (st_freed s)) \<and> linked (st_next s) (st_freed s)"

text \<open>A head that was loaded is the present one, as long as it has not changed since.\<close>

definition seen_ok :: "'a st_sys \<Rightarrow> 'a st_pc \<Rightarrow> bool" where
  "seen_ok s pc \<longleftrightarrow>
     (\<forall>h n. seen_head pc = Some (h, n) \<longrightarrow> n \<le> st_hn s \<and> fst (unpack h) = of_nat n \<and> (n = st_hn s \<longrightarrow> h = st_head s)) \<and>
     (\<forall>h n. seen_free pc = Some (h, n) \<longrightarrow> n \<le> st_fn s \<and> fst (unpack h) = of_nat n \<and> (n = st_fn s \<longrightarrow> h = st_free s))"

fun local_ok :: "'a st_sys \<Rightarrow> 'a st_pc \<Rightarrow> bool" where
  "local_ok s (A_Next v h n) \<longleftrightarrow> snd (unpack h) \<noteq> STACK_NIL"
| "local_ok s (A_Cas v h nx n) \<longleftrightarrow> snd (unpack h) \<noteq> STACK_NIL \<and> (n = st_fn s \<longrightarrow> nx = first (tl (st_freed s)))"
| "local_ok s (P_Load v idx) \<longleftrightarrow> st_slot s idx = v"
| "local_ok s (P_Link v idx h n) \<longleftrightarrow> st_slot s idx = v"
| "local_ok s (P_Cas v idx h n) \<longleftrightarrow> st_slot s idx = v \<and> st_next s idx = snd (unpack h)"
| "local_ok s (O_Next h n) \<longleftrightarrow> snd (unpack h) \<noteq> STACK_NIL"
| "local_ok s (O_Cas h nx n) \<longleftrightarrow> snd (unpack h) \<noteq> STACK_NIL \<and> (n = st_hn s \<longrightarrow> nx = first (tl (st_stack s)))"
| "local_ok s (R_Cas x idx h n) \<longleftrightarrow> st_next s idx = snd (unpack h)"
| "local_ok s _ \<longleftrightarrow> True"

text \<open>The log: which calls have not taken effect yet, and what those that have will return.\<close>

fun st_waiting :: "'a st_pc \<Rightarrow> bool" where
  "st_waiting (A_Load v) = True"
| "st_waiting (A_Next v h n) = True"
| "st_waiting (A_Cas v h nx n) = True"
| "st_waiting (A_Bump v) = True"
| "st_waiting (P_Write v idx) = True"
| "st_waiting (P_Load v idx) = True"
| "st_waiting (P_Link v idx h n) = True"
| "st_waiting (P_Cas v idx h n) = True"
| "st_waiting O_Load = True"
| "st_waiting (O_Next h n) = True"
| "st_waiting (O_Cas h nx n) = True"
| "st_waiting _ = False"

fun st_answer :: "'a st_sys \<Rightarrow> 'a st_pc \<Rightarrow> 'a st_event option" where
  "st_answer s (A_Undo v) = Some (Refused v)"
| "st_answer s (D_Push v r) = Some (case r of Inl _ \<Rightarrow> Refused v | Inr _ \<Rightarrow> Pushed v)"
| "st_answer s (O_Read idx) = Some (Popped (Some (st_slot s idx)))"
| "st_answer s (R_Load x idx) = Some (Popped (Some x))"
| "st_answer s (R_Link x idx h n) = Some (Popped (Some x))"
| "st_answer s (R_Cas x idx h n) = Some (Popped (Some x))"
| "st_answer s (D_Pop r) = Some (Popped r)"
| "st_answer s _ = None"

definition own_log :: "'a st_sys \<Rightarrow> nat \<Rightarrow> 'a st_event list" where
  "own_log s t = map snd (filter (\<lambda>e. fst e = t) (st_log s))"

definition log_ok :: "'a st_sys \<Rightarrow> nat \<Rightarrow> bool" where
  "log_ok s t \<longleftrightarrow> st_calls s t = length (own_log s t) + (if st_waiting (st_pc s t) then 1 else 0) \<and>
     (\<forall>e. st_answer s (st_pc s t) = Some e \<longrightarrow> own_log s t \<noteq> [] \<and> last (own_log s t) = e)"

text \<open>The log as a run of a stack.\<close>

fun replay_stack :: "'a st_event list \<Rightarrow> 'a list \<Rightarrow> 'a list option" where
  "replay_stack [] l = Some l"
| "replay_stack (Pushed v # es) l = replay_stack es (v # l)"
| "replay_stack (Popped None # es) l = (if l = [] then replay_stack es l else None)"
| "replay_stack (Popped (Some v) # es) l = (case l of [] \<Rightarrow> None | x # l' \<Rightarrow> if x = v then replay_stack es l' else None)"
| "replay_stack (Refused v # es) l = replay_stack es l"

lemma replay_stack_append: "replay_stack (es @ es') l = Option.bind (replay_stack es l) (replay_stack es')"
  by (induction es l rule: replay_stack.induct) (auto split: list.splits)

definition replay_ok :: "'a st_sys \<Rightarrow> bool" where
  "replay_ok s \<longleftrightarrow> replay_stack (map snd (st_log s)) [] = Some (map (st_slot s) (st_stack s))"

definition st_inv :: "nat \<Rightarrow> 'a st_sys \<Rightarrow> bool" where
  "st_inv capacity s \<longleftrightarrow> st_slots_ok s \<and> bump_ok capacity s \<and> heads_ok s \<and> replay_ok s \<and>
     (\<forall>t. seen_ok s (st_pc s t) \<and> local_ok s (st_pc s t) \<and> log_ok s t)"

end
