(* ===== verification/Stack_Linearizable.thy ===== *)
theory Stack_Linearizable
  imports Treiber_Stack
begin

text \<open>
  The lock-free stack: every access keeps the invariant of \<^verbatim>\<open>Treiber_Stack\<close>, so the calls are a run of a stack. A caller
  that finds the counter of a head unchanged finds the list it loaded; the slots never overlap.
\<close>

section \<open>Slots\<close>

lemma inj_on_put: "inj_on m (dom m) \<Longrightarrow> idx \<notin> ran m \<Longrightarrow> inj_on (m(t \<mapsto> idx)) (dom (m(t \<mapsto> idx)))"
  by (auto simp: inj_on_def ran_def split: if_splits)

lemma inj_on_drop: "inj_on m (dom m) \<Longrightarrow> inj_on (m(t := None)) (dom (m(t := None)))"
  by (auto simp: inj_on_def)

lemma ran_drop: "inj_on m (dom m) \<Longrightarrow> m t = Some idx \<Longrightarrow> ran (m(t := None)) = ran m - {idx}"
  by (auto simp: ran_def inj_on_def dom_def split: if_splits) (metis option.inject)

lemma places_take:
  assumes "places own l n" "own t = None" "set l = insert idx (set l')" "idx \<notin> set l'" "distinct l'"
  shows "places (own(t \<mapsto> idx)) l' n"
proof -
  have "idx \<notin> ran own" "inj_on own (dom own)" using assms(1,3) by (auto simp: places_def)
  then have "inj_on (own(t \<mapsto> idx)) (dom (own(t \<mapsto> idx)))" by (intro inj_on_put)
  moreover have "ran (own(t \<mapsto> idx)) = insert idx (ran own)" using assms(2) by simp
  moreover have "ran own \<inter> set l = {}" "set l \<union> ran own = {i. unat i < n}" using assms(1) by (simp_all add: places_def)
  then have "insert idx (ran own) \<inter> set l' = {}" "set l' \<union> insert idx (ran own) = {i. unat i < n}" using assms(3,4) by auto
  ultimately show ?thesis using assms(5) by (simp add: places_def)
qed

lemma places_give:
  assumes "places own l n" "own t = Some idx" "set l' = insert idx (set l)" "distinct l'"
  shows "places (own(t := None)) l' n"
proof -
  have inj: "inj_on own (dom own)" using assms(1) by (simp add: places_def)
  have "idx \<in> ran own" using assms(2) by (auto simp: ran_def)
  moreover have "ran own \<inter> set l = {}" "set l \<union> ran own = {i. unat i < n}" using assms(1) by (simp_all add: places_def)
  ultimately have "(ran own - {idx}) \<inter> set l' = {}" "set l' \<union> (ran own - {idx}) = {i. unat i < n}" using assms(3) by auto
  then show ?thesis using inj_on_drop [OF inj, of t] ran_drop [OF inj assms(2)] assms(4) by (simp add: places_def)
qed

lemma places_new:
  assumes "places own l n" "own t = None" "unat idx = n"
  shows "places (own(t \<mapsto> idx)) l (Suc n)"
proof -
  have new: "{i. unat i < Suc n} = insert idx {i. unat i < n}" using assms(3) by (auto simp: less_Suc_eq word_unat_eq_iff)
  have all: "set l \<union> ran own = {i. unat i < n}" using assms(1) by (simp add: places_def)
  then have "idx \<notin> set l \<union> ran own" using assms(3) by simp
  moreover from this have "inj_on (own(t \<mapsto> idx)) (dom (own(t \<mapsto> idx)))" using assms(1) by (intro inj_on_put) (simp_all add: places_def)
  moreover have "ran (own(t \<mapsto> idx)) = insert idx (ran own)" using assms(2) by simp
  ultimately show ?thesis using assms(1) new all unfolding places_def by auto
qed

lemma places_perm: "places own l n \<Longrightarrow> set l' = set l \<Longrightarrow> distinct l' \<Longrightarrow> places own l' n"
  by (simp add: places_def)

section \<open>The other callers\<close>

text \<open>What a step of one caller leaves alone.\<close>

definition environment :: "nat \<Rightarrow> 'a st_sys \<Rightarrow> 'a st_sys \<Rightarrow> bool" where
  "environment t s s' \<longleftrightarrow> st_hn s \<le> st_hn s' \<and> (st_hn s' = st_hn s \<longrightarrow> st_head s' = st_head s \<and> st_stack s' = st_stack s) \<and>
     st_fn s \<le> st_fn s' \<and> (st_fn s' = st_fn s \<longrightarrow> st_free s' = st_free s \<and> st_freed s' = st_freed s) \<and>
     (\<forall>u. u \<noteq> t \<longrightarrow> st_pc s' u = st_pc s u \<and> own_log s' u = own_log s u \<and> st_calls s' u = st_calls s u) \<and>
     (\<forall>i. holding (st_pc s t) \<noteq> Some i \<longrightarrow> st_slot s' i = st_slot s i \<and> st_next s' i = st_next s i)"

lemmas st_updates = st_goto_def st_call_def st_took_def swap_head_def swap_free_def set_link_def

lemma step_environment: "st_step capacity t s s' \<Longrightarrow> environment t s s'"
  by (cases rule: st_step.cases) (auto simp: environment_def st_updates own_log_def)

lemma environment_ok:
  assumes "environment t s s'" "st_slots_ok s" "u \<noteq> t" "seen_ok s (st_pc s u)" "local_ok s (st_pc s u)" "log_ok s u"
  shows "seen_ok s' (st_pc s' u) \<and> local_ok s' (st_pc s' u) \<and> log_ok s' u"
proof -
  have same: "st_pc s' u = st_pc s u" "own_log s' u = own_log s u" "st_calls s' u = st_calls s u" using assms(1,3) by (simp_all add: environment_def)
  have mine: "st_slot s' i = st_slot s i" "st_next s' i = st_next s i" if "holding (st_pc s u) = Some i" for i
  proof -
    have "inj_on (\<lambda>t. holding (st_pc s t)) (dom (\<lambda>t. holding (st_pc s t)))" using assms(2) by (simp add: st_slots_ok_def places_def)
    then have "holding (st_pc s t) \<noteq> Some i" using assms(3) that by (auto simp: inj_on_def dom_def)
    then show "st_slot s' i = st_slot s i" "st_next s' i = st_next s i" using assms(1) by (simp_all add: environment_def)
  qed
  have heads: "st_hn s \<le> st_hn s'" "st_hn s' = st_hn s \<Longrightarrow> st_head s' = st_head s \<and> st_stack s' = st_stack s"
    "st_fn s \<le> st_fn s'" "st_fn s' = st_fn s \<Longrightarrow> st_free s' = st_free s \<and> st_freed s' = st_freed s"
    using assms(1) by (simp_all add: environment_def)
  have "n \<le> st_hn s' \<and> (n = st_hn s' \<longrightarrow> h = st_head s')" if "n \<le> st_hn s" "n = st_hn s \<longrightarrow> h = st_head s" for h n using that heads(1,2) by auto
  moreover have "n \<le> st_fn s' \<and> (n = st_fn s' \<longrightarrow> h = st_free s')" if "n \<le> st_fn s" "n = st_fn s \<longrightarrow> h = st_free s" for h n using that heads(3,4) by auto
  ultimately have "seen_ok s' (st_pc s u)" using assms(4) unfolding seen_ok_def by blast
  moreover have "n \<le> st_hn s" if "seen_head (st_pc s u) = Some (h, n)" for h n using assms(4) that by (simp add: seen_ok_def)
  moreover have "n \<le> st_fn s" if "seen_free (st_pc s u) = Some (h, n)" for h n using assms(4) that by (simp add: seen_ok_def)
  ultimately have "local_ok s' (st_pc s u)" using assms(5) mine heads by (cases "st_pc s u") auto
  moreover have "st_answer s' (st_pc s u) = st_answer s (st_pc s u)" using mine by (cases "st_pc s u") auto
  ultimately show ?thesis using \<open>seen_ok s' (st_pc s u)\<close> assms(6) same by (simp add: log_ok_def)
qed

section \<open>Compare-and-swap\<close>

text \<open>A counter that is the same after fewer than \<open>2 ^ 32\<close> changes has not changed.\<close>

lemma counter_same: "n \<le> m \<Longrightarrow> m - n < 2 ^ 32 \<Longrightarrow> (of_nat n :: u32) = of_nat m \<Longrightarrow> n = m"
proof -
  assume n: "n \<le> m" "m - n < 2 ^ 32" "(of_nat n :: u32) = of_nat m"
  then have "(of_nat (m - n) :: u32) = 0" by (simp add: of_nat_diff)
  then have "unat (of_nat (m - n) :: u32) = 0" by simp
  then have "m - n = 0" using n(2) unat_of_nat_small [of "m - n", where 'a = 32] by simp
  with n(1) show "n = m" by simp
qed

lemma head_current:
  assumes "seen_ok s (st_pc s t)" "heads_ok s" "timely capacity s" "seen_head (st_pc s t) = Some (h, n)" "st_head s = h"
  shows "n = st_hn s"
proof -
  have "n \<le> st_hn s" "fst (unpack h) = of_nat n" "st_hn s - n < 2 ^ 32" using assms(1,3,4) by (auto simp: seen_ok_def timely_def)
  moreover have "fst (unpack h) = of_nat (st_hn s)" using assms(2,5) by (auto simp: heads_ok_def)
  ultimately show ?thesis by (intro counter_same) simp_all
qed

lemma free_current:
  assumes "seen_ok s (st_pc s t)" "heads_ok s" "timely capacity s" "seen_free (st_pc s t) = Some (h, n)" "st_free s = h"
  shows "n = st_fn s"
proof -
  have "n \<le> st_fn s" "fst (unpack h) = of_nat n" "st_fn s - n < 2 ^ 32" using assms(1,3,4) by (auto simp: seen_ok_def timely_def)
  moreover have "fst (unpack h) = of_nat (st_fn s)" using assms(2,5) by (auto simp: heads_ok_def)
  ultimately show ?thesis by (intro counter_same) simp_all
qed

text \<open>What the caller that wins knows.\<close>

lemma acquire_won:
  assumes "st_inv capacity s" "timely capacity s" "st_pc s t = A_Cas v h nx n" "st_free s = h"
  obtains idx l where "st_freed s = idx # l" "snd (unpack h) = idx" "nx = first l" "st_next s idx = first l"
proof -
  have inv: "seen_ok s (st_pc s t)" "heads_ok s" "local_ok s (st_pc s t)" using assms(1) by (auto simp: st_inv_def)
  have "n = st_fn s" using free_current [OF inv(1,2) assms(2)] assms(3,4) by simp
  then have "nx = first (tl (st_freed s))" "snd (unpack h) \<noteq> STACK_NIL" using inv(3) assms(3) by simp_all
  moreover have "snd (unpack h) = first (st_freed s)" "linked (st_next s) (st_freed s)" using inv(2) assms(4) by (auto simp: heads_ok_def)
  ultimately show ?thesis using that by (cases "st_freed s") auto
qed

lemma pop_won:
  assumes "st_inv capacity s" "timely capacity s" "st_pc s t = O_Cas h nx n" "st_head s = h"
  obtains idx l where "st_stack s = idx # l" "snd (unpack h) = idx" "nx = first l" "st_next s idx = first l"
proof -
  have inv: "seen_ok s (st_pc s t)" "heads_ok s" "local_ok s (st_pc s t)" using assms(1) by (auto simp: st_inv_def)
  have "n = st_hn s" using head_current [OF inv(1,2) assms(2)] assms(3,4) by simp
  then have "nx = first (tl (st_stack s))" "snd (unpack h) \<noteq> STACK_NIL" using inv(3) assms(3) by simp_all
  moreover have "snd (unpack h) = first (st_stack s)" "linked (st_next s) (st_stack s)" using inv(2) assms(4) by (auto simp: heads_ok_def)
  ultimately show ?thesis using that by (cases "st_stack s") auto
qed

section \<open>The fresh end\<close>

lemma bump_value: "bump_ok capacity s \<Longrightarrow> timely capacity s \<Longrightarrow> unat (st_bump s) = st_alloc s + card (st_undo s)"
  using unat_of_nat_small [of "st_alloc s + card (st_undo s)", where 'a = 32] by (simp add: bump_ok_def timely_def)

lemma bump_fresh:
  assumes "bump_ok capacity s" "timely capacity s" "\<not> unat (st_bump s) \<ge> capacity"
  shows "unat (st_bump s) = st_alloc s" "st_undo s = {}"
proof -
  show "st_undo s = {}" using bump_value [OF assms(1,2)] assms(1,3) by (auto simp: bump_ok_def)
  then show "unat (st_bump s) = st_alloc s" using bump_value [OF assms(1,2)] by simp
qed

lemma bump_spent:
  assumes "bump_ok capacity s" "timely capacity s" "unat (st_bump s) \<ge> capacity"
  shows "st_alloc s = capacity"
  using bump_value [OF assms(1,2)] assms by (cases "st_undo s = {}") (auto simp: bump_ok_def)

lemma bump_frame:
  assumes "bump_ok capacity s" "\<And>u. (\<exists>v. st_pc s' u = A_Undo v) \<longleftrightarrow> (\<exists>v. st_pc s u = A_Undo v)"
    and "st_alloc s' = st_alloc s" "st_bump s' = st_bump s" "st_undo s' = st_undo s" "\<And>t v. (t, Refused v) \<in> set (st_log s') \<Longrightarrow> (t, Refused v) \<in> set (st_log s)"
  shows "bump_ok capacity s'"
  using assms unfolding bump_ok_def by metis

lemma bump_step:
  assumes "bump_ok capacity s" "timely capacity s" "st_step capacity t s s'"
  shows "bump_ok capacity s'"
  using assms(3)
proof cases
  case (bump_add v)
  note fresh = bump_fresh [OF assms(1,2) bump_add(3)]
  have "st_bump s = of_nat (st_alloc s)" using assms(1) fresh(2) by (simp add: bump_ok_def)
  then show ?thesis using assms(1) fresh bump_add by (auto simp: bump_ok_def st_updates add.commute)
next
  case (bump_full v)
  have "t \<notin> st_undo s" using assms(1) bump_full(2) by (simp add: bump_ok_def)
  then show ?thesis using assms(1) bump_spent [OF assms(1,2) bump_full(3)] bump_full by (auto simp: bump_ok_def st_updates add.commute)
next
  case (bump_undo v)
  have t: "t \<in> st_undo s" "finite (st_undo s)" using assms(1) bump_undo(2) by (auto simp: bump_ok_def)
  then obtain n where "card (st_undo s) = Suc n" by (metis card_Suc_Diff1)
  then show ?thesis using assms(1) t bump_undo by (auto simp: bump_ok_def st_updates)
qed (rule bump_frame [OF assms(1)]; auto simp: st_updates split: if_splits; fail)+

section \<open>The slots\<close>

lemma slots_frame:
  assumes "st_slots_ok s" "\<And>u. holding (st_pc s' u) = holding (st_pc s u)" "st_stack s' = st_stack s" "st_freed s' = st_freed s" "st_alloc s' = st_alloc s"
  shows "st_slots_ok s'"
  using assms by (simp add: st_slots_ok_def)

lemma slots_step:
  assumes "st_inv capacity s" "timely capacity s" "st_step capacity t s s'"
  shows "st_slots_ok s'"
proof -
  let ?own = "\<lambda>u. holding (st_pc s u)"
  have places: "places ?own (st_stack s @ st_freed s) (st_alloc s)" and dist: "distinct (st_stack s @ st_freed s)"
    and apart: "ran ?own \<inter> set (st_stack s @ st_freed s) = {}"
    using assms(1) by (simp_all add: st_inv_def st_slots_ok_def places_def)
  have idle: "?own t = None" if "resting (st_pc s t)" using that by (cases "st_pc s t") auto
  have slots: "st_slots_ok s" using assms(1) by (simp add: st_inv_def)
  show ?thesis
    using assms(3)
  proof cases
    case (acquire_cas v h nx n)
    obtain idx l where l: "st_freed s = idx # l" "snd (unpack h) = idx" by (rule acquire_won [OF assms(1,2) acquire_cas(2,3)])
    have "places (?own(t \<mapsto> idx)) (st_stack s @ l) (st_alloc s)" using dist acquire_cas(2) by (intro places_take [OF places]) (auto simp: l)
    moreover have "(\<lambda>u. holding (st_pc s' u)) = ?own(t \<mapsto> idx)" by (auto simp: acquire_cas(1) st_updates l)
    ultimately show ?thesis by (simp add: st_slots_ok_def acquire_cas(1) st_updates l)
  next
    case (bump_add v)
    have "unat (st_bump s) = st_alloc s" using bump_fresh [OF _ assms(2) bump_add(3)] assms(1) by (simp add: st_inv_def)
    then have "places (?own(t \<mapsto> st_bump s)) (st_stack s @ st_freed s) (Suc (st_alloc s))" using bump_add(2) by (intro places_new [OF places]) simp_all
    moreover have "(\<lambda>u. holding (st_pc s' u)) = ?own(t \<mapsto> st_bump s)" by (auto simp: bump_add(1) st_updates)
    ultimately show ?thesis by (simp add: st_slots_ok_def bump_add(1) st_updates)
  next
    case (push_cas v idx h n)
    have "idx \<in> ran ?own" using push_cas(2) by (auto simp: ran_def intro: exI [of _ t])
    then have "places (?own(t := None)) (idx # st_stack s @ st_freed s) (st_alloc s)" using dist apart push_cas(2) by (intro places_give [OF places]) auto
    moreover have "(\<lambda>u. holding (st_pc s' u)) = ?own(t := None)" by (auto simp: push_cas(1) st_updates)
    ultimately show ?thesis by (simp add: st_slots_ok_def push_cas(1) st_updates)
  next
    case (pop_cas h nx n)
    obtain idx l where l: "st_stack s = idx # l" "snd (unpack h) = idx" by (rule pop_won [OF assms(1,2) pop_cas(2,3)])
    have "places (?own(t \<mapsto> idx)) (l @ st_freed s) (st_alloc s)" using dist pop_cas(2) by (intro places_take [OF places]) (auto simp: l)
    moreover have "(\<lambda>u. holding (st_pc s' u)) = ?own(t \<mapsto> idx)" by (auto simp: pop_cas(1) st_updates l)
    ultimately show ?thesis by (simp add: st_slots_ok_def pop_cas(1) st_updates l)
  next
    case (release_cas x idx h n)
    have "idx \<in> ran ?own" using release_cas(2) by (auto simp: ran_def intro: exI [of _ t])
    then have "places (?own(t := None)) (st_stack s @ idx # st_freed s) (st_alloc s)" using dist apart release_cas(2) by (intro places_give [OF places]) auto
    moreover have "(\<lambda>u. holding (st_pc s' u)) = ?own(t := None)" by (auto simp: release_cas(1) st_updates)
    ultimately show ?thesis by (simp add: st_slots_ok_def release_cas(1) st_updates)
  qed (rule slots_frame [OF slots]; auto simp: st_updates idle)+
qed

section \<open>The heads and the log\<close>

lemma holding_apart: "st_slots_ok s \<Longrightarrow> holding (st_pc s t) = Some idx \<Longrightarrow> idx \<notin> set (st_stack s) \<and> idx \<notin> set (st_freed s) \<and> unat idx < st_alloc s"
proof -
  assume s: "st_slots_ok s" "holding (st_pc s t) = Some idx"
  then have "idx \<in> ran (\<lambda>u. holding (st_pc s u))" by (auto simp: ran_def)
  with s(1) show ?thesis by (auto simp: st_slots_ok_def places_def)
qed

lemma not_NIL: "unat idx < capacity \<Longrightarrow> capacity < 2 ^ 32 - 1 \<Longrightarrow> idx \<noteq> STACK_NIL"
proof -
  have "unat STACK_NIL = 2 ^ 32 - 1" by (simp add: STACK_NIL_def unsigned_minus_1_eq_mask mask_eq_exp_minus_1)
  then show "unat idx < capacity \<Longrightarrow> capacity < 2 ^ 32 - 1 \<Longrightarrow> idx \<noteq> STACK_NIL" by auto
qed

lemma heads_step:
  assumes "st_inv capacity s" "timely capacity s" "st_step capacity t s s'" "capacity < 2 ^ 32 - 1"
  shows "heads_ok s'"
proof -
  have inv: "heads_ok s" "st_slots_ok s" "st_alloc s \<le> capacity" using assms(1) by (simp_all add: st_inv_def bump_ok_def)
  have mine: "idx \<notin> set (st_stack s)" "idx \<notin> set (st_freed s)" "idx \<noteq> STACK_NIL" if "holding (st_pc s t) = Some idx" for idx
    using holding_apart [OF inv(2) that] not_NIL [of idx capacity] inv(3) assms(4) by auto
  have loc: "local_ok s (st_pc s t)" "seen_ok s (st_pc s t)" using assms(1) by (simp_all add: st_inv_def)
  show ?thesis
    using assms(3)
  proof cases
    case (acquire_cas v h nx n)
    obtain idx l where l: "st_freed s = idx # l" "nx = first l" by (rule acquire_won [OF assms(1,2) acquire_cas(2,3)])
    then show ?thesis using inv(1) acquire_cas by (auto simp: heads_ok_def st_updates add.commute)
  next
    case (push_link v idx h n)
    then show ?thesis using inv(1) mine [of idx] by (simp add: heads_ok_def st_updates linked_upd)
  next
    case (push_cas v idx h n)
    then show ?thesis using inv(1) mine(3) [of idx] loc by (auto simp: heads_ok_def st_updates add.commute)
  next
    case (pop_cas h nx n)
    obtain idx l where l: "st_stack s = idx # l" "nx = first l" by (rule pop_won [OF assms(1,2) pop_cas(2,3)])
    then show ?thesis using inv(1) pop_cas by (auto simp: heads_ok_def st_updates add.commute)
  next
    case (release_link x idx h n)
    then show ?thesis using inv(1) mine [of idx] by (simp add: heads_ok_def st_updates linked_upd)
  next
    case (release_cas x idx h n)
    then show ?thesis using inv(1) mine(3) [of idx] loc by (auto simp: heads_ok_def st_updates add.commute)
  qed (use inv(1) in \<open>simp_all add: heads_ok_def st_updates\<close>)
qed

lemma replay_step:
  assumes "st_inv capacity s" "timely capacity s" "st_step capacity t s s'"
  shows "replay_ok s'"
proof -
  have inv: "replay_ok s" "st_slots_ok s" "heads_ok s" "local_ok s (st_pc s t)" using assms(1) by (simp_all add: st_inv_def)
  show ?thesis
    using assms(3)
  proof cases
    case (push_write v idx)
    have "idx \<notin> set (st_stack s)" using holding_apart [OF inv(2), of t idx] push_write(2) by simp
    then show ?thesis using inv(1) push_write by (simp add: replay_ok_def st_updates)
  next
    case (pop_empty)
    have "st_stack s = []" using inv(3) pop_empty(3) by (cases "st_stack s") (auto simp: heads_ok_def)
    then show ?thesis using inv(1) pop_empty by (simp add: replay_ok_def st_updates replay_stack_append)
  next
    case (pop_cas h nx n)
    obtain idx l where l: "st_stack s = idx # l" "snd (unpack h) = idx" by (rule pop_won [OF assms(1,2) pop_cas(2,3)])
    then show ?thesis using inv(1) pop_cas by (simp add: replay_ok_def st_updates replay_stack_append)
  qed (use inv in \<open>auto simp: replay_ok_def st_updates replay_stack_append\<close>)
qed

section \<open>The caller itself\<close>

lemma caller_step:
  assumes "st_inv capacity s" "timely capacity s" "st_step capacity t s s'"
  shows "seen_ok s' (st_pc s' t) \<and> local_ok s' (st_pc s' t) \<and> log_ok s' t"
proof -
  have inv: "heads_ok s" "seen_ok s (st_pc s t)" "local_ok s (st_pc s t)" "log_ok s t" using assms(1) by (simp_all add: st_inv_def)
  have rest: "\<not> st_waiting (st_pc s t)" if "resting (st_pc s t)" using that by (cases "st_pc s t") auto
  show ?thesis
    using assms(3)
  proof cases
    case (acquire_next v h n)
    have "st_next s (snd (unpack h)) = first (tl (st_freed s))" if "n = st_fn s"
      using linked_first [of "st_next s" "st_freed s"] inv acquire_next(2) that by (auto simp: heads_ok_def seen_ok_def)
    then show ?thesis using inv acquire_next by (auto simp: st_updates seen_ok_def log_ok_def own_log_def)
  next
    case (pop_next h n)
    have "st_next s (snd (unpack h)) = first (tl (st_stack s))" if "n = st_hn s"
      using linked_first [of "st_next s" "st_stack s"] inv pop_next(2) that by (auto simp: heads_ok_def seen_ok_def)
    then show ?thesis using inv pop_next by (auto simp: st_updates seen_ok_def log_ok_def own_log_def)
  qed (use inv rest in \<open>auto simp: st_updates seen_ok_def log_ok_def own_log_def heads_ok_def\<close>)
qed

lemma st_inv_step:
  assumes "st_inv capacity s" "timely capacity s" "st_step capacity t s s'" "capacity < 2 ^ 32 - 1"
  shows "st_inv capacity s'"
proof -
  have "seen_ok s' (st_pc s' u) \<and> local_ok s' (st_pc s' u) \<and> log_ok s' u" for u
  proof (cases "u = t")
    case True
    then show ?thesis using caller_step [OF assms(1-3)] by simp
  next
    case False
    then show ?thesis using environment_ok [OF step_environment [OF assms(3)], of u] assms(1) by (simp add: st_inv_def)
  qed
  then show ?thesis using slots_step [OF assms(1-3)] bump_step [OF _ assms(2,3)] heads_step [OF assms] replay_step [OF assms(1-3)] assms(1)
    by (simp add: st_inv_def)
qed

lemma st_inv_reach:
  assumes "st_reach capacity s" "capacity < 2 ^ 32 - 1"
  shows "st_inv capacity s \<and> timely capacity s"
  using assms(1)
proof induction
  case (init zero)
  have "{i :: u32. unat i < 0} = {}" by simp
  then show ?case using assms(2)
    by (simp add: st_init_def st_inv_def st_slots_ok_def places_def bump_ok_def heads_ok_def replay_ok_def seen_ok_def log_ok_def own_log_def timely_def)
next
  case (step s t s')
  then show ?case using st_inv_step [of capacity s t s'] assms(2) by simp
qed

section \<open>Schedules\<close>

text \<open>The next access of a caller that is inside a call, and runs under a given schedule.\<close>

fun st_access :: "nat \<Rightarrow> nat \<Rightarrow> 'a st_sys \<Rightarrow> 'a st_pc \<Rightarrow> 'a st_sys" where
  "st_access capacity t s (A_Load v) = st_goto t (if snd (unpack (st_free s)) = STACK_NIL then A_Bump v else A_Next v (st_free s) (st_fn s)) s"
| "st_access capacity t s (A_Next v h n) = st_goto t (A_Cas v h (st_next s (snd (unpack h))) n) s"
| "st_access capacity t s (A_Cas v h nx n) =
     (if st_free s = h then st_goto t (P_Write v (snd (unpack h))) (swap_free (pack (fst (unpack h) + 1) nx) (tl (st_freed s)) s)
      else st_goto t (A_Load v) s)"
| "st_access capacity t s (A_Bump v) =
     (if unat (st_bump s) \<ge> capacity
      then st_goto t (A_Undo v) (st_took t (Refused v) (s\<lparr>st_bump := st_bump s + 1, st_undo := insert t (st_undo s)\<rparr>))
      else st_goto t (P_Write v (st_bump s)) (s\<lparr>st_bump := st_bump s + 1, st_alloc := Suc (st_alloc s)\<rparr>))"
| "st_access capacity t s (A_Undo v) = st_goto t (D_Push v (Inl Full)) (s\<lparr>st_bump := st_bump s - 1, st_undo := st_undo s - {t}\<rparr>)"
| "st_access capacity t s (P_Write v idx) = st_goto t (P_Load v idx) (s\<lparr>st_slot := (st_slot s)(idx := v)\<rparr>)"
| "st_access capacity t s (P_Load v idx) = st_goto t (P_Link v idx (st_head s) (st_hn s)) s"
| "st_access capacity t s (P_Link v idx h n) = st_goto t (P_Cas v idx h n) (set_link idx (snd (unpack h)) s)"
| "st_access capacity t s (P_Cas v idx h n) =
     (if st_head s = h
      then st_goto t (D_Push v (Inr ())) (st_took t (Pushed v) (swap_head (pack (fst (unpack h) + 1) idx) (idx # st_stack s) s))
      else st_goto t (P_Load v idx) s)"
| "st_access capacity t s O_Load =
     (if snd (unpack (st_head s)) = STACK_NIL then st_goto t (D_Pop None) (st_took t (Popped None) s)
      else st_goto t (O_Next (st_head s) (st_hn s)) s)"
| "st_access capacity t s (O_Next h n) = st_goto t (O_Cas h (st_next s (snd (unpack h))) n) s"
| "st_access capacity t s (O_Cas h nx n) =
     (if st_head s = h
      then st_goto t (O_Read (snd (unpack h))) (st_took t (Popped (Some (st_slot s (snd (unpack h)))))
        (swap_head (pack (fst (unpack h) + 1) nx) (tl (st_stack s)) s))
      else st_goto t O_Load s)"
| "st_access capacity t s (O_Read idx) = st_goto t (R_Load (st_slot s idx) idx) s"
| "st_access capacity t s (R_Load x idx) = st_goto t (R_Link x idx (st_free s) (st_fn s)) s"
| "st_access capacity t s (R_Link x idx h n) = st_goto t (R_Cas x idx h n) (set_link idx (snd (unpack h)) s)"
| "st_access capacity t s (R_Cas x idx h n) =
     (if st_free s = h then st_goto t (D_Pop (Some x)) (swap_free (pack (fst (unpack h) + 1) idx) (idx # st_freed s) s)
      else st_goto t (R_Load x idx) s)"
| "st_access capacity t s K_Load =
     st_goto t (if snd (unpack (st_head s)) = STACK_NIL then D_Peek None else K_Read (snd (unpack (st_head s)))) s"
| "st_access capacity t s (K_Read idx) = st_goto t (D_Peek (Some (st_slot s idx))) s"
| "st_access capacity t s _ = s"

lemma access_step: "\<not> resting (st_pc s t) \<Longrightarrow> st_step capacity t s (st_access capacity t s (st_pc s t))"
proof (cases "st_pc s t")
  case (A_Load v)
  show ?thesis using acquire_load [OF A_Load] by (simp add: A_Load)
next
  case K_Load
  show ?thesis using peek_load [OF K_Load] by (simp add: K_Load)
qed (auto intro: st_step.intros)

datatype 'a st_action = Push 'a | Pop | Peek | Access

fun st_move :: "nat \<Rightarrow> nat \<times> 'a st_action \<Rightarrow> 'a st_sys \<Rightarrow> 'a st_sys" where
  "st_move capacity (t, Push v) s = (if resting (st_pc s t) then st_call t (A_Load v) s else s)"
| "st_move capacity (t, Pop) s = (if resting (st_pc s t) then st_call t O_Load s else s)"
| "st_move capacity (t, Peek) s = (if resting (st_pc s t) then st_goto t K_Load s else s)"
| "st_move capacity (t, Access) s = (if resting (st_pc s t) then s else st_access capacity t s (st_pc s t))"

lemma move_step: "st_move capacity (t, mv) s = s \<or> st_step capacity t s (st_move capacity (t, mv) s)"
  by (cases mv) (auto intro: push_call pop_call peek_call access_step)

definition room :: "nat \<Rightarrow> nat \<Rightarrow> 'a st_sys \<Rightarrow> bool" where
  "room capacity n s \<longleftrightarrow> st_hn s + n < 2 ^ 32 \<and> st_fn s + n < 2 ^ 32 \<and> capacity + card (st_undo s) + n < 2 ^ 32 \<and> finite (st_undo s)"

lemma room_timely: "room capacity n s \<Longrightarrow> timely capacity s"
  by (auto simp: room_def timely_def intro: le_less_trans [OF diff_le_self])

lemma room_step:
  assumes "st_step capacity t s s'" "room capacity (Suc n) s"
  shows "room capacity n s'"
proof -
  have "finite (st_undo s)" using assms(2) by (simp add: room_def)
  then have undo: "card (insert t (st_undo s)) \<le> Suc (card (st_undo s))" "card (st_undo s - {t}) \<le> card (st_undo s)"
    by (simp_all add: card_insert_if card_Diff1_le)
  from assms(1) show ?thesis by cases (use undo assms(2) in \<open>auto simp: room_def st_updates\<close>)
qed

lemma schedule_reach: "st_reach capacity s \<Longrightarrow> room capacity (length sched) s \<Longrightarrow> st_reach capacity (fold (st_move capacity) sched s)"
proof (induction sched arbitrary: s)
  case (Cons mv sched)
  obtain t a where mv: "mv = (t, a)" by (cases mv)
  from move_step [of capacity t a s] show ?case
  proof
    assume "st_move capacity (t, a) s = s"
    then show ?thesis using Cons by (auto simp: mv room_def)
  next
    assume step: "st_step capacity t s (st_move capacity (t, a) s)"
    have room: "room capacity (length sched) (st_move capacity (t, a) s)" using room_step [OF step] Cons.prems(2) by simp
    then show ?thesis using Cons.IH st_reach.step [OF Cons.prems(1) step room_timely [OF room]] by (simp add: mv)
  qed
qed simp

section \<open>The stack is a stack\<close>

text \<open>
  C10. The lock-free stack is a stack: over any interleaving of pushes, pops and peeks at single accesses, the calls took
  effect one after the other, each once, between its start and its return, with the result it returns: the log is a
  run of a stack from the empty one, and the stack in memory is the one it leads to. A push is refused only when every
  slot has been handed out. Between calls every slot handed out is in the stack or in the free list, in one place
  only. (The 32-bit counters are taken not to come round within one attempt.)
\<close>

theorem stack_linearizable:
  assumes "st_reach capacity s" "capacity < 2 ^ 32 - 1"
  shows "replay_stack (map snd (st_log s)) [] = Some (map (st_slot s) (st_stack s)) \<and>
    (\<forall>t. st_calls s t = length (own_log s t) + (if st_waiting (st_pc s t) then 1 else 0)) \<and>
    (\<forall>t v r. st_pc s t = D_Push v r \<longrightarrow> last (own_log s t) = (case r of Inl _ \<Rightarrow> Refused v | Inr _ \<Rightarrow> Pushed v)) \<and>
    (\<forall>t r. st_pc s t = D_Pop r \<longrightarrow> last (own_log s t) = Popped r) \<and>
    (\<forall>t v. (t, Refused v) \<in> set (st_log s) \<longrightarrow> st_alloc s = capacity) \<and>
    ((\<forall>t. resting (st_pc s t)) \<longrightarrow> distinct (st_stack s @ st_freed s) \<and> set (st_stack s @ st_freed s) = {i. unat i < st_alloc s})"
proof -
  have inv: "st_slots_ok s" "bump_ok capacity s" "replay_ok s" "\<And>t. log_ok s t" using st_inv_reach [OF assms] by (simp_all add: st_inv_def)
  have "ran (\<lambda>t. holding (st_pc s t)) = {}" if rest: "\<forall>t. resting (st_pc s t)"
  proof -
    have "holding (st_pc s t) = None" for t using spec [OF rest, of t] by (cases "st_pc s t") simp_all
    then show ?thesis by (simp add: ran_def)
  qed
  then have "(\<forall>t. resting (st_pc s t)) \<longrightarrow> distinct (st_stack s @ st_freed s) \<and> set (st_stack s @ st_freed s) = {i. unat i < st_alloc s}"
    using inv(1) by (auto simp: st_slots_ok_def places_def)
  moreover have "\<forall>t v. (t, Refused v) \<in> set (st_log s) \<longrightarrow> st_alloc s = capacity" using inv(2) by (auto simp: bump_ok_def)
  ultimately show ?thesis using inv(3,4) by (simp add: replay_ok_def log_ok_def)
qed

definition sample_schedule :: "(nat \<times> nat st_action) list" where
  "sample_schedule = [(0, Push 7), (1, Push 8)] @ replicate 3 (0, Access) @ replicate 3 (1, Access) @ replicate 3 (0, Access) @
     replicate 8 (1, Access) @ (2, Pop) # replicate 7 (2, Access)"

theorem stack_linearizable_witness:
  "let s = fold (st_move 2) sample_schedule (st_init 0)
   in st_pc s 2 = D_Pop (Some 8) \<and> replay_stack (map snd (st_log s)) [] = Some (map (st_slot s) (st_stack s)) \<and> map (st_slot s) (st_stack s) = [7] \<and>
     (2, Popped (Some 8)) \<in> set (st_log s)"
proof -
  let ?s = "fold (st_move 2) sample_schedule (st_init 0)"
  have "room 2 (length sample_schedule) (st_init (0 :: nat))" by (simp add: room_def st_init_def sample_schedule_def)
  then have "st_reach 2 ?s" by (intro schedule_reach st_reach.init)
  then have "replay_stack (map snd (st_log ?s)) [] = Some (map (st_slot ?s) (st_stack ?s))" using stack_linearizable [of 2 ?s] by simp
  moreover have "st_pc ?s 2 = D_Pop (Some 8) \<and> map (st_slot ?s) (st_stack ?s) = [7] \<and> (2, Popped (Some 8)) \<in> set (st_log ?s)" by code_simp
  ultimately show ?thesis by (simp add: Let_def)
qed

section \<open>Peeking\<close>

text \<open>
  \<open>peek\<close> reads the slot without checking the head again. The slot may have been popped and handed to a push that has not
  linked it yet, and the value returned was never on the stack.
\<close>

definition peek_schedule :: "(nat \<times> nat st_action) list" where
  "peek_schedule = (0, Push 7) # replicate 6 (0, Access) @ [(1, Peek), (1, Access)] @ (0, Pop) # replicate 7 (0, Access) @
     (2, Push 9) # replicate 4 (2, Access) @ [(1, Access)]"

lemma peek_unpushed:
  "\<exists>s :: nat st_sys. st_reach 2 s \<and> st_pc s 1 = D_Peek (Some 9) \<and> (\<forall>t. (t, Pushed 9) \<notin> set (st_log s))"
proof -
  let ?s = "fold (st_move 2) peek_schedule (st_init 0)"
  have "room 2 (length peek_schedule) (st_init (0 :: nat))" by (simp add: room_def st_init_def peek_schedule_def)
  then have "st_reach 2 ?s" by (intro schedule_reach st_reach.init)
  moreover have "st_pc ?s 1 = D_Peek (Some 9)" "\<forall>e\<in>set (st_log ?s). snd e \<noteq> Pushed 9" by code_simp+
  ultimately show ?thesis by (intro exI [of _ ?s]) auto
qed

section \<open>Counting\<close>

fun approx_walk :: "(u32 \<Rightarrow> u32) \<Rightarrow> u32 \<Rightarrow> nat \<Rightarrow> nat" where
  "approx_walk links idx 0 = 0"
| "approx_walk links idx (Suc left) = (if idx \<noteq> STACK_NIL then Suc (approx_walk links (links idx) left) else 0)"

definition st_approx_len :: "nat \<Rightarrow> 'a st_sys \<Rightarrow> nat" where
  "st_approx_len capacity s = approx_walk (st_next s) (snd (unpack (st_head s))) capacity"

definition st_is_empty :: "'a st_sys \<Rightarrow> bool" where
  "st_is_empty s \<longleftrightarrow> snd (unpack (st_head s)) = STACK_NIL"

lemma approx_walk_linked: "linked links l \<Longrightarrow> length l \<le> n \<Longrightarrow> approx_walk links (first l) n = length l"
proof (induction l arbitrary: n)
  case Nil
  then show ?case by (cases n) simp_all
next
  case (Cons i l)
  then show ?case by (cases n) auto
qed

text \<open>Between two accesses the count is exact, and the test for emptiness is.\<close>

lemma stack_count:
  assumes "st_reach capacity s" "capacity < 2 ^ 32 - 1"
  shows "st_approx_len capacity s = length (st_stack s)" "st_is_empty s \<longleftrightarrow> st_stack s = []"
proof -
  have inv: "heads_ok s" "st_slots_ok s" "st_alloc s \<le> capacity" using st_inv_reach [OF assms] by (simp_all add: st_inv_def bump_ok_def)
  have "unat ` set (st_stack s) \<subseteq> {..<st_alloc s}" using inv(2) by (auto simp: st_slots_ok_def places_def)
  then have "card (unat ` set (st_stack s)) \<le> st_alloc s" using card_mono [of "{..<st_alloc s}"] by auto
  moreover have "card (unat ` set (st_stack s)) = length (st_stack s)"
    using inv(2) by (subst card_image) (auto simp: st_slots_ok_def places_def inj_on_def distinct_card word_unat_eq_iff)
  ultimately have "length (st_stack s) \<le> capacity" using inv(3) by simp
  then show "st_approx_len capacity s = length (st_stack s)" using inv(1) by (auto simp: st_approx_len_def heads_ok_def approx_walk_linked)
  show "st_is_empty s \<longleftrightarrow> st_stack s = []" using inv(1) by (cases "st_stack s") (auto simp: st_is_empty_def heads_ok_def)
qed

end
