(* ===== verification/Shared_Region.thy ===== *)
theory Shared_Region
  imports Treiber_Stack
begin

text \<open>
  The typed arena of \<^verbatim>\<open>shared_region.rs\<close>, one call at a time: slots handed out by a bump cursor and recycled through a
  free list. The head of the free list is packed as that of the lock-free stack, whose theory this one extends. The
  arena never hands out a slot that is in use, refuses an allocation only when every slot is in use, and counts them.
\<close>

section \<open>The region\<close>

definition REGION_MAGIC :: u32 where "REGION_MAGIC = 0x41505247"
definition NIL_INDEX :: u32 where "NIL_INDEX = - 1"
definition REGION_HEADER_BYTES :: nat where "REGION_HEADER_BYTES = 64"

record RegionHeader =
  rh_magic :: u32
  rh_capacity :: u32
  rh_slot_size :: u32
  rh_bump_next :: u64
  rh_free_head :: u64
  rh_slots_offset :: u32
  rh_alignment :: u32
  rh_layout_tag :: u64

datatype RegionError = RegionFull | InvalidPtr | PayloadTooLarge | RegionLayoutMismatch | RegionIoError nat

text \<open>\<open>next\<close> and \<open>slots\<close> are the two arrays behind the header; the calls index them below the capacity only.\<close>

record 'a SharedRegion =
  rg_header :: RegionHeader
  rg_next :: "u32 \<Rightarrow> u32"
  rg_slots :: "u32 \<Rightarrow> 'a"
  rg_capacity :: nat

definition slots_offset_for :: "nat \<Rightarrow> nat" where
  "slots_offset_for capacity = REGION_HEADER_BYTES + capacity * 4"

definition region_file_size :: "nat \<Rightarrow> nat \<Rightarrow> nat" where
  "region_file_size capacity slot_size = REGION_HEADER_BYTES + capacity * 4 + capacity * slot_size"

definition slot_ptr :: "nat \<Rightarrow> nat \<Rightarrow> nat \<Rightarrow> nat" where
  "slot_ptr capacity slot_size idx = slots_offset_for capacity + idx * slot_size"

definition rg_init_region :: "'a \<Rightarrow> nat \<Rightarrow> nat \<Rightarrow> nat \<Rightarrow> RegionHeader \<times> (u32 \<Rightarrow> u32) \<times> (u32 \<Rightarrow> 'a)" where
  "rg_init_region zero slot_size alignment capacity =
     (\<lparr>rh_magic = REGION_MAGIC, rh_capacity = of_nat capacity, rh_slot_size = of_nat slot_size, rh_bump_next = 0,
        rh_free_head = pack 0 NIL_INDEX, rh_slots_offset = of_nat (slots_offset_for capacity),
        rh_alignment = of_nat alignment, rh_layout_tag = 0\<rparr>, \<lambda>_. 0, \<lambda>_. zero)"

definition rg_from_region ::
  "RegionHeader \<Rightarrow> (u32 \<Rightarrow> u32) \<Rightarrow> (u32 \<Rightarrow> 'a) \<Rightarrow> nat \<Rightarrow> nat \<Rightarrow> RegionError + 'a SharedRegion" where
  "rg_from_region hdr links slots slot_size capacity =
     (if rh_magic hdr \<noteq> REGION_MAGIC \<or> rh_capacity hdr \<noteq> of_nat capacity \<or> rh_slot_size hdr \<noteq> of_nat slot_size \<or>
         rh_slots_offset hdr \<noteq> 0 \<and> unat (rh_slots_offset hdr) \<noteq> slots_offset_for capacity \<or> rh_layout_tag hdr \<noteq> 0
      then Inl RegionLayoutMismatch
      else Inr \<lparr>rg_header = hdr, rg_next = links, rg_slots = slots, rg_capacity = capacity\<rparr>)"

text \<open>
  \<open>attach_error\<close> is the error of obtaining the region, if any; \<open>found\<close> the region when the path already holds one.
  \<open>None\<close> is the panic of a capacity assertion.
\<close>

definition rg_create ::
  "RegionError option \<Rightarrow> (RegionHeader \<times> (u32 \<Rightarrow> u32) \<times> (u32 \<Rightarrow> 'a)) option \<Rightarrow> 'a \<Rightarrow> nat \<Rightarrow> nat \<Rightarrow> nat \<Rightarrow>
    (RegionError + 'a SharedRegion) option" where
  "rg_create attach_error found zero slot_size alignment capacity =
     (if \<not> capacity \<ge> 1 then None
      else if \<not> capacity < unat NIL_INDEX then None
      else case attach_error of
          Some e \<Rightarrow> Some (Inl e)
        | None \<Rightarrow>
            let (hdr, links, slots) =
              (case found of None \<Rightarrow> rg_init_region zero slot_size alignment capacity | Some region \<Rightarrow> region)
            in Some (rg_from_region hdr links slots slot_size capacity))"

definition rg_reset ::
  "nat option \<Rightarrow> 'a \<Rightarrow> nat \<Rightarrow> nat \<Rightarrow> nat \<Rightarrow> (RegionError + 'a SharedRegion) option" where
  "rg_reset io zero slot_size alignment capacity =
     (if \<not> capacity \<ge> 1 then None
      else if \<not> capacity < unat NIL_INDEX then None
      else case io of
          Some kind \<Rightarrow> Some (Inl (RegionIoError kind))
        | None \<Rightarrow>
            let (hdr, links, slots) = rg_init_region zero slot_size alignment capacity
            in Some (rg_from_region hdr links slots slot_size capacity))"

definition rg_open ::
  "nat option \<Rightarrow> nat option \<Rightarrow> nat \<Rightarrow> RegionHeader \<Rightarrow> (u32 \<Rightarrow> u32) \<Rightarrow> (u32 \<Rightarrow> 'a) \<Rightarrow> nat \<Rightarrow> nat \<Rightarrow>
    RegionError + 'a SharedRegion" where
  "rg_open io_before io_map file_len hdr links slots slot_size expected_capacity =
     (case io_before of
        Some kind \<Rightarrow> Inl (RegionIoError kind)
      | None \<Rightarrow>
          if file_len < region_file_size expected_capacity slot_size then Inl RegionLayoutMismatch
          else (case io_map of
                  Some kind \<Rightarrow> Inl (RegionIoError kind)
                | None \<Rightarrow> rg_from_region hdr links slots slot_size expected_capacity))"

section \<open>The calls\<close>

abbreviation rg_bump :: "'a SharedRegion \<Rightarrow> u64" where "rg_bump r \<equiv> rh_bump_next (rg_header r)"
abbreviation rg_free_head :: "'a SharedRegion \<Rightarrow> u64" where "rg_free_head r \<equiv> rh_free_head (rg_header r)"

definition set_bump :: "u64 \<Rightarrow> 'a SharedRegion \<Rightarrow> 'a SharedRegion" where
  "set_bump b r = r\<lparr>rg_header := (rg_header r)\<lparr>rh_bump_next := b\<rparr>\<rparr>"

definition set_free_head :: "u64 \<Rightarrow> 'a SharedRegion \<Rightarrow> 'a SharedRegion" where
  "set_free_head h r = r\<lparr>rg_header := (rg_header r)\<lparr>rh_free_head := h\<rparr>\<rparr>"

definition write_slot :: "u32 \<Rightarrow> 'a \<Rightarrow> 'a SharedRegion \<Rightarrow> 'a SharedRegion" where
  "write_slot idx v r = r\<lparr>rg_slots := (rg_slots r)(idx := v)\<rparr>"

text \<open>
  The walk counts in an \<open>i32\<close>, whose wrap past \<open>2 ^ 31\<close> is read as an index above every capacity and ends it.
\<close>

fun free_walk :: "(u32 \<Rightarrow> u32) \<Rightarrow> u32 \<Rightarrow> nat \<Rightarrow> nat" where
  "free_walk links idx 0 = 0"
| "free_walk links idx (Suc left) = (if idx \<noteq> NIL_INDEX then Suc (free_walk links (links idx) left) else 0)"

definition free_count :: "'a SharedRegion \<Rightarrow> nat" where
  "free_count r = free_walk (rg_next r) (snd (unpack (rg_free_head r))) (min (rg_capacity r) (2 ^ 31))"

definition rg_len :: "'a SharedRegion \<Rightarrow> nat" where
  "rg_len r = unat (rg_bump r) - free_count r"

definition rg_allocate :: "'a \<Rightarrow> 'a SharedRegion \<Rightarrow> (RegionError + u32) \<times> 'a SharedRegion" where
  "rg_allocate v r =
     (let (counter, idx) = unpack (rg_free_head r)
      in if idx \<noteq> NIL_INDEX then
           (let r = set_free_head (pack (counter + 1) (rg_next r idx)) r in (Inr idx, write_slot idx v r))
         else
           (let idx = rg_bump r; r = set_bump (rg_bump r + 1) r
            in if idx \<ge> of_nat (rg_capacity r) then (Inl RegionFull, set_bump (rg_bump r - 1) r)
               else (Inr (ucast idx), write_slot (ucast idx) v r)))"

definition bad_ptr :: "u32 \<Rightarrow> 'a SharedRegion \<Rightarrow> bool" where
  "bad_ptr p r \<longleftrightarrow> p = NIL_INDEX \<or> unat p \<ge> rg_capacity r"

definition rg_free :: "u32 \<Rightarrow> 'a SharedRegion \<Rightarrow> (RegionError + 'a) \<times> 'a SharedRegion" where
  "rg_free p r =
     (if bad_ptr p r then (Inl InvalidPtr, r)
      else
        let v = rg_slots r p; (counter, old_top) = unpack (rg_free_head r);
            r = r\<lparr>rg_next := (rg_next r)(p := old_top)\<rparr>
        in (Inr v, set_free_head (pack (counter + 1) p) r))"

definition rg_get :: "u32 \<Rightarrow> 'a SharedRegion \<Rightarrow> RegionError + 'a" where
  "rg_get p r = (if bad_ptr p r then Inl InvalidPtr else Inr (rg_slots r p))"

definition rg_set :: "u32 \<Rightarrow> 'a \<Rightarrow> 'a SharedRegion \<Rightarrow> (RegionError + unit) \<times> 'a SharedRegion" where
  "rg_set p v r = (if bad_ptr p r then (Inl InvalidPtr, r) else (Inr (), write_slot p v r))"

definition rg_clear :: "'a SharedRegion \<Rightarrow> 'a SharedRegion" where
  "rg_clear r = set_free_head (pack 0 NIL_INDEX) (set_bump 0 r)"

lemmas rg_updates = set_bump_def set_free_head_def write_slot_def

section \<open>The slots in use\<close>

text \<open>\<open>in_use r live\<close>: the slots handed out so far are those of \<open>live\<close> and, apart from them, those of the free list.\<close>

definition in_use :: "'a SharedRegion \<Rightarrow> u32 set \<Rightarrow> bool" where
  "in_use r live \<longleftrightarrow> rg_capacity r < 2 ^ 31 \<and> unat (rg_bump r) \<le> rg_capacity r \<and>
     (\<exists>c fl. rg_free_head r = pack c (first fl) \<and> linked (rg_next r) fl \<and> distinct fl \<and> live \<inter> set fl = {} \<and>
        live \<union> set fl = {i. unat i < unat (rg_bump r)})"

lemma nil_index: "NIL_INDEX = STACK_NIL" "unat STACK_NIL = 2 ^ 32 - 1"
  by (simp_all add: NIL_INDEX_def STACK_NIL_def unsigned_minus_1_eq_mask mask_eq_exp_minus_1)

lemma below_card: "n < 2 ^ 32 \<Longrightarrow> card {i :: u32. unat i < n} = n"
proof -
  assume n: "n < 2 ^ 32"
  have "\<exists>i :: u32. j = unat i" if "j < n" for j using that n by (intro exI [of _ "of_nat j"]) (simp add: unat_of_nat_small)
  then have "unat ` {i :: u32. unat i < n} = {..<n}" by (auto simp: image_iff)
  moreover have "inj_on unat {i :: u32. unat i < n}" by (simp add: inj_on_def word_unat_eq_iff)
  ultimately show ?thesis by (metis card_image card_lessThan)
qed

lemma in_useE:
  assumes "in_use r live"
  obtains c fl where "rg_free_head r = pack c (first fl)" "linked (rg_next r) fl" "distinct fl" "live \<inter> set fl = {}"
    "live \<union> set fl = {i. unat i < unat (rg_bump r)}" "card live + length fl = unat (rg_bump r)" "finite live"
proof -
  obtain c fl where fl: "rg_free_head r = pack c (first fl)" "linked (rg_next r) fl" "distinct fl" "live \<inter> set fl = {}"
    "live \<union> set fl = {i. unat i < unat (rg_bump r)}" using assms by (auto simp: in_use_def)
  have "unat (rg_bump r) < 2 ^ 32" using assms by (simp add: in_use_def)
  then have "card (live \<union> set fl) = unat (rg_bump r)" unfolding fl(5) by (rule below_card)
  moreover have "finite live" by simp
  ultimately have "card live + length fl = unat (rg_bump r)" using fl(3,4) by (simp add: card_Un_disjoint distinct_card)
  with fl show ?thesis by (rule that) simp
qed

lemma live_slot: "in_use r live \<Longrightarrow> i \<in> live \<Longrightarrow> unat i < rg_capacity r"
  unfolding in_use_def by (metis (mono_tags, lifting) UnI1 dual_order.strict_trans1 mem_Collect_eq)

lemma live_ptr: "in_use r live \<Longrightarrow> i \<in> live \<Longrightarrow> \<not> bad_ptr i r"
  using live_slot [of r live i] nil_index by (auto simp: bad_ptr_def in_use_def)

lemma live_card: "in_use r live \<Longrightarrow> card live \<le> rg_capacity r"
  by (rule in_useE, assumption) (simp add: in_use_def)

lemma created_in_use:
  assumes "rg_create None None zero slot_size alignment capacity = Some (Inr r)" "capacity < 2 ^ 31"
  shows "in_use r {}" "rg_capacity r = capacity" "rg_bump r = 0" "rg_slots r = (\<lambda>_. zero)"
  using assms by (auto simp: rg_create_def rg_from_region_def rg_init_region_def in_use_def nil_index split: if_splits
      intro!: exI [of _ 0] exI [of _ "[]"])

text \<open>A slot is written wherever it is, and the slots in use stay the same.\<close>

lemma write_in_use [simp]: "in_use (write_slot i v r) live = in_use r live" "rg_capacity (write_slot i v r) = rg_capacity r"
  "rg_slots (write_slot i v r) = (rg_slots r)(i := v)"
  by (simp_all add: in_use_def write_slot_def)

lemma bump_slot:
  assumes "b < 2 ^ 31"
  shows "unat (of_nat b + 1 :: u64) = b + 1" "{i :: u32. unat i < b + 1} = insert (of_nat b) {i. unat i < b}"
    "unat (of_nat b :: u32) = b"
proof -
  show "unat (of_nat b + 1 :: u64) = b + 1"
  proof -
    have "(of_nat b + 1 :: u64) = of_nat (b + 1)" by simp
    also have "unat \<dots> = b + 1" by (rule unat_of_nat_small) (use assms in simp)
    finally show ?thesis .
  qed
  show b: "unat (of_nat b :: u32) = b" using assms by (simp add: unat_of_nat_small)
  show "{i :: u32. unat i < b + 1} = insert (of_nat b) {i. unat i < b}"
    by (auto simp: b less_Suc_eq)
qed

text \<open>An allocation takes a slot that is not in use, and is refused only when every slot is in use.\<close>

lemma allocate_ok:
  assumes "in_use r live" "card live < rg_capacity r"
  obtains i r' where "rg_allocate v r = (Inr i, r')" "in_use r' (insert i live)" "i \<notin> live"
    "rg_slots r' = (rg_slots r)(i := v)" "rg_capacity r' = rg_capacity r"
proof (rule in_useE [OF assms(1)])
  fix c fl
  assume fl: "rg_free_head r = pack c (first fl)" "linked (rg_next r) fl" "distinct fl" "live \<inter> set fl = {}"
    "live \<union> set fl = {i. unat i < unat (rg_bump r)}" "card live + length fl = unat (rg_bump r)" "finite live"
  have cap: "rg_capacity r < 2 ^ 31" "unat (rg_bump r) \<le> rg_capacity r" using assms(1) by (simp_all add: in_use_def)
  show thesis
  proof (cases fl)
    case Nil
    define b where "b = unat (rg_bump r)"
    have b: "rg_bump r = of_nat b" "b < rg_capacity r" using fl(6) assms(2) by (simp_all add: b_def Nil)
    have small: "b < 2 ^ 31" using b(2) cap(1) by simp
    have u: "unat (of_nat b :: u64) = b" "unat (of_nat (rg_capacity r) :: u64) = rg_capacity r"
      using small cap(1) by (simp_all add: unat_of_nat_small)
    have lt: "\<not> of_nat (rg_capacity r) \<le> (of_nat b :: u64)" using b(2) by (simp add: word_le_nat_alt u)
    have cast: "(ucast (of_nat b :: u64) :: u32) = of_nat b" by (metis of_nat_unat u(1))
    have live: "live = {i. unat i < b}" using fl(5) by (simp add: Nil b_def)
    let ?r = "write_slot (of_nat b) v (set_bump (of_nat b + 1) r)"
    have "rg_allocate v r = (Inr (of_nat b), ?r)"
      using fl(1) lt by (simp add: rg_allocate_def Nil nil_index b(1) Let_def cast set_bump_def)
    moreover have "in_use ?r (insert (of_nat b) live)" unfolding in_use_def
      by (intro conjI exI [of _ c] exI [of _ "[]"]) (use fl(1) cap(1) b(2) bump_slot [OF small] in \<open>simp_all add: rg_updates live Nil\<close>)
    ultimately show thesis by (rule that) (simp_all add: live rg_updates bump_slot(3) [OF small])
  next
    case (Cons i l)
    have nil: "i \<noteq> NIL_INDEX" "rg_next r i = first l" using fl(2) by (simp_all add: Cons nil_index)
    have "rg_allocate v r = (Inr i, write_slot i v (set_free_head (pack (c + 1) (first l)) r))"
      using fl(1) nil by (simp add: rg_allocate_def Cons Let_def)
    moreover have "in_use (set_free_head (pack (c + 1) (first l)) r) (insert i live)"
      using fl(2-5) cap by (auto simp: in_use_def rg_updates Cons intro!: exI [of _ "c + 1"] exI [of _ l])
    then have "in_use (write_slot i v (set_free_head (pack (c + 1) (first l)) r)) (insert i live)" by simp
    ultimately show thesis by (rule that) (use fl(4) in \<open>simp_all add: Cons rg_updates\<close>)
  qed
qed

lemma allocate_full:
  assumes "in_use r live" "card live = rg_capacity r"
  shows "rg_allocate v r = (Inl RegionFull, r)"
proof (rule in_useE [OF assms(1)])
  fix c fl
  assume fl: "rg_free_head r = pack c (first fl)" "card live + length fl = unat (rg_bump r)"
  have cap: "rg_capacity r < 2 ^ 31" "unat (rg_bump r) \<le> rg_capacity r" using assms(1) by (simp_all add: in_use_def)
  then have "length fl = 0" "unat (rg_bump r) = rg_capacity r" using fl(2) assms(2) by linarith+
  moreover from this(2) have "rg_bump r = of_nat (rg_capacity r)" by (metis of_nat_unat ucast_id)
  ultimately show ?thesis using fl(1) by (simp add: rg_allocate_def nil_index Let_def set_bump_def)
qed

text \<open>Freeing a slot in use returns what it held and makes it available.\<close>

lemma free_ok:
  assumes "in_use r live" "i \<in> live"
  obtains r' where "rg_free i r = (Inr (rg_slots r i), r')" "in_use r' (live - {i})" "rg_slots r' = rg_slots r"
    "rg_capacity r' = rg_capacity r"
proof (rule in_useE [OF assms(1)])
  fix c fl
  assume fl: "rg_free_head r = pack c (first fl)" "linked (rg_next r) fl" "distinct fl" "live \<inter> set fl = {}"
    "live \<union> set fl = {i. unat i < unat (rg_bump r)}"
  let ?r = "set_free_head (pack (c + 1) i) (r\<lparr>rg_next := (rg_next r)(i := first fl)\<rparr>)"
  have i: "i \<notin> set fl" "i \<noteq> STACK_NIL" using fl(4) assms(2) live_ptr [OF assms] by (auto simp: bad_ptr_def nil_index)
  have "rg_free i r = (Inr (rg_slots r i), ?r)" using live_ptr [OF assms] fl(1) by (simp add: rg_free_def Let_def)
  moreover have "in_use ?r (live - {i})"
    unfolding in_use_def
    using fl i assms(2) assms(1)
    by (intro conjI exI [of _ "c + 1"] exI [of _ "i # fl"]) (auto simp: in_use_def rg_updates linked_upd)
  ultimately show thesis by (rule that) (simp_all add: rg_updates)
qed

lemma free_walk_linked: "linked links l \<Longrightarrow> length l \<le> n \<Longrightarrow> free_walk links (first l) n = length l"
proof (induction l arbitrary: n)
  case Nil
  then show ?case by (cases n) (simp_all add: nil_index)
next
  case (Cons i l)
  then show ?case by (cases n) (simp_all add: nil_index)
qed

lemma len_in_use:
  assumes "in_use r live"
  shows "rg_len r = card live"
proof (rule in_useE [OF assms])
  fix c fl
  assume fl: "rg_free_head r = pack c (first fl)" "linked (rg_next r) fl" "card live + length fl = unat (rg_bump r)"
  have "rg_capacity r < 2 ^ 31" "unat (rg_bump r) \<le> rg_capacity r" using assms by (simp_all add: in_use_def)
  then have "free_count r = length fl" using fl by (simp add: free_count_def free_walk_linked)
  then show ?thesis using fl(3) by (simp add: rg_len_def)
qed

lemma clear_in_use: "in_use r live \<Longrightarrow> in_use (rg_clear r) {}"
  by (auto simp: in_use_def rg_clear_def rg_updates nil_index intro!: exI [of _ 0] exI [of _ "[]"])

text \<open>
  A region that was built is opened again with its slots in place, by an open and by a second create of the same
  capacity; another capacity is refused.
\<close>

lemma open_created:
  assumes "rg_create None None zero slot_size alignment capacity = Some (Inr r)"
    "rh_magic hdr = rh_magic (rg_header r)" "rh_capacity hdr = rh_capacity (rg_header r)" "rh_slot_size hdr = rh_slot_size (rg_header r)"
    "rh_slots_offset hdr = rh_slots_offset (rg_header r)" "rh_layout_tag hdr = rh_layout_tag (rg_header r)"
    "region_file_size capacity slot_size \<le> file_len"
  shows "rg_open None None file_len hdr links slots slot_size capacity =
      Inr \<lparr>rg_header = hdr, rg_next = links, rg_slots = slots, rg_capacity = capacity\<rparr>"
    "rg_create None (Some (hdr, links, slots)) zero slot_size alignment capacity =
      Some (Inr \<lparr>rg_header = hdr, rg_next = links, rg_slots = slots, rg_capacity = capacity\<rparr>)"
    "1 \<le> capacity' \<Longrightarrow> capacity' < 2 ^ 32 - 1 \<Longrightarrow> capacity' \<noteq> capacity \<Longrightarrow>
      rg_create None (Some (hdr, links, slots)) zero slot_size alignment capacity' = Some (Inl RegionLayoutMismatch)"
proof -
  have cap: "1 \<le> capacity" "capacity < 2 ^ 32 - 1" "r = \<lparr>rg_header = rg_header r, rg_next = rg_next r, rg_slots = rg_slots r, rg_capacity = capacity\<rparr>"
    "rg_header r = fst (rg_init_region zero slot_size alignment capacity)"
    "rg_from_region (rg_header r) (rg_next r) (rg_slots r) slot_size capacity = Inr r"
    using assms(1) by (auto simp: rg_create_def rg_init_region_def rg_from_region_def nil_index split: if_splits)
  then have fits: "rg_from_region hdr links slots slot_size capacity =
      Inr \<lparr>rg_header = hdr, rg_next = links, rg_slots = slots, rg_capacity = capacity\<rparr>"
    using assms(2-6) by (simp add: rg_from_region_def split: if_splits)
  then show "rg_open None None file_len hdr links slots slot_size capacity =
      Inr \<lparr>rg_header = hdr, rg_next = links, rg_slots = slots, rg_capacity = capacity\<rparr>"
    using assms(7) by (simp add: rg_open_def)
  show "rg_create None (Some (hdr, links, slots)) zero slot_size alignment capacity =
      Some (Inr \<lparr>rg_header = hdr, rg_next = links, rg_slots = slots, rg_capacity = capacity\<rparr>)"
    using cap fits by (simp add: rg_create_def nil_index)
  assume other: "1 \<le> capacity'" "capacity' < 2 ^ 32 - 1" "capacity' \<noteq> capacity"
  have "unat (of_nat capacity :: u32) = capacity" "unat (of_nat capacity' :: u32) = capacity'"
    using cap(2) other(2) by (simp_all add: unat_of_nat_small)
  then have "(of_nat capacity :: u32) \<noteq> of_nat capacity'" using other(3) by metis
  then show "rg_create None (Some (hdr, links, slots)) zero slot_size alignment capacity' = Some (Inl RegionLayoutMismatch)"
    using other assms(3) cap(4) by (simp add: rg_create_def nil_index rg_from_region_def rg_init_region_def)
qed

lemma reset_is_fresh: "rg_reset None zero slot_size alignment capacity = rg_create None None zero slot_size alignment capacity"
  by (simp add: rg_reset_def rg_create_def)

text \<open>
  Two limits of the layout. The offset of the slots is kept in 32 bits, so a capacity near \<open>2 ^ 30\<close>, which the
  assertions let through, is refused by the check of the region just built. And the slots start right behind the
  links, four bytes each, so with an odd capacity a slot of an eight-byte type is not aligned.
\<close>

lemma large_region_refused:
  "rg_create None None zero slot_size alignment (2 ^ 30) = Some (Inl RegionLayoutMismatch)"
  by (simp add: rg_create_def nil_index rg_init_region_def rg_from_region_def slots_offset_for_def REGION_HEADER_BYTES_def)

lemma slots_misaligned: "odd capacity \<Longrightarrow> slot_ptr capacity 8 idx mod 8 = 4"
  by (auto simp: slot_ptr_def slots_offset_for_def REGION_HEADER_BYTES_def elim!: oddE)

end
