(* ===== verification/Linked_List.thy ===== *)
theory Linked_List
  imports Shared_Region "HOL-Library.Monad_Syntax"
begin

text \<open>
  The doubly linked list of \<^verbatim>\<open>shared_linked_list.rs\<close> over the arena of \<^verbatim>\<open>Shared_Region\<close>: a ring of nodes through a
  sentinel. The ring read from the sentinel is a list of handles with their values; pushing, popping, removing and
  overwriting by handle are the operations on that list, forwards and backwards, and keep every other handle.
\<close>

section \<open>The list\<close>

definition HEAD_INDEX :: u32 where "HEAD_INDEX = 0"

record 'a Node =
  nd_value :: 'a
  nd_next :: u32
  nd_prev :: u32

datatype LinkedListError = ListRegion RegionError | InvalidHandle | ListLayoutMismatch | ListIoError nat

record 'a SharedLinkedList =
  ll_region :: "'a Node SharedRegion"

definition ll_create ::
  "RegionError option \<Rightarrow> (RegionHeader \<times> (u32 \<Rightarrow> u32) \<times> (u32 \<Rightarrow> 'a Node)) option \<Rightarrow> 'a Node \<Rightarrow> 'a \<Rightarrow> nat \<Rightarrow> nat \<Rightarrow> nat \<Rightarrow>
    (LinkedListError + 'a SharedLinkedList) option" where
  "ll_create attach_error found zero dflt slot_size alignment capacity =
     (if \<not> capacity \<ge> 2 then None
      else do {
        region \<leftarrow> rg_create attach_error found zero slot_size alignment capacity;
        (case region of
           Inl e \<Rightarrow> Some (Inl (ListRegion e))
         | Inr region \<Rightarrow>
             (case rg_allocate \<lparr>nd_value = dflt, nd_next = HEAD_INDEX, nd_prev = HEAD_INDEX\<rparr> region of
                (Inl e, region) \<Rightarrow> Some (Inl (ListRegion e))
              | (Inr head_ptr, region) \<Rightarrow> if head_ptr = HEAD_INDEX then Some (Inr \<lparr>ll_region = region\<rparr>) else None)) })"

definition ll_open ::
  "nat option \<Rightarrow> nat option \<Rightarrow> nat \<Rightarrow> RegionHeader \<Rightarrow> (u32 \<Rightarrow> u32) \<Rightarrow> (u32 \<Rightarrow> 'a Node) \<Rightarrow> nat \<Rightarrow> nat \<Rightarrow>
    LinkedListError + 'a SharedLinkedList" where
  "ll_open io_before io_map file_len hdr links slots slot_size capacity =
     (case rg_open io_before io_map file_len hdr links slots slot_size capacity of
        Inl e \<Rightarrow> Inl (ListRegion e) | Inr region \<Rightarrow> Inr \<lparr>ll_region = region\<rparr>)"

text \<open>
  The fields are read and written at computed addresses, with no check. \<open>None\<close> is an access outside the mapping, or
  a panic.
\<close>

definition ll_capacity :: "'a SharedLinkedList \<Rightarrow> nat" where
  "ll_capacity l = rg_capacity (ll_region l)"

abbreviation ll_slots :: "'a SharedLinkedList \<Rightarrow> u32 \<Rightarrow> 'a Node" where
  "ll_slots l \<equiv> rg_slots (ll_region l)"

definition node_at :: "u32 \<Rightarrow> 'a SharedLinkedList \<Rightarrow> 'a Node option" where
  "node_at idx l = (if unat idx < ll_capacity l then Some (ll_slots l idx) else None)"

definition write_node :: "u32 \<Rightarrow> ('a Node \<Rightarrow> 'a Node) \<Rightarrow> 'a SharedLinkedList \<Rightarrow> 'a SharedLinkedList option" where
  "write_node idx f l = do { n \<leftarrow> node_at idx l; Some (l\<lparr>ll_region := write_slot idx (f n) (ll_region l)\<rparr>) }"

definition read_value :: "u32 \<Rightarrow> 'a SharedLinkedList \<Rightarrow> 'a option" where
  "read_value idx l = map_option nd_value (node_at idx l)"

definition read_next :: "u32 \<Rightarrow> 'a SharedLinkedList \<Rightarrow> u32 option" where
  "read_next idx l = map_option nd_next (node_at idx l)"

definition read_prev :: "u32 \<Rightarrow> 'a SharedLinkedList \<Rightarrow> u32 option" where
  "read_prev idx l = map_option nd_prev (node_at idx l)"

definition set_next :: "u32 \<Rightarrow> u32 \<Rightarrow> 'a SharedLinkedList \<Rightarrow> 'a SharedLinkedList option" where
  "set_next idx v = write_node idx (\<lambda>n. n\<lparr>nd_next := v\<rparr>)"

definition set_prev :: "u32 \<Rightarrow> u32 \<Rightarrow> 'a SharedLinkedList \<Rightarrow> 'a SharedLinkedList option" where
  "set_prev idx v = write_node idx (\<lambda>n. n\<lparr>nd_prev := v\<rparr>)"

definition ll_set_value :: "u32 \<Rightarrow> 'a \<Rightarrow> 'a SharedLinkedList \<Rightarrow> 'a SharedLinkedList option" where
  "ll_set_value idx v = write_node idx (\<lambda>n. n\<lparr>nd_value := v\<rparr>)"

definition ll_len :: "'a SharedLinkedList \<Rightarrow> nat" where
  "ll_len l = rg_len (ll_region l) - 1"

definition read_node :: "u32 \<Rightarrow> 'a SharedLinkedList \<Rightarrow> 'a Node option" where
  "read_node idx l = (case rg_get idx (ll_region l) of Inl e \<Rightarrow> None | Inr n \<Rightarrow> Some n)"

definition push_front :: "'a \<Rightarrow> 'a SharedLinkedList \<Rightarrow> ((LinkedListError + u32) \<times> 'a SharedLinkedList) option" where
  "push_front v l = do {
     old_first \<leftarrow> read_next HEAD_INDEX l;
     (case rg_allocate \<lparr>nd_value = v, nd_next = old_first, nd_prev = HEAD_INDEX\<rparr> (ll_region l) of
        (Inl e, r) \<Rightarrow> Some (Inl (ListRegion e), l\<lparr>ll_region := r\<rparr>)
      | (Inr new_idx, r) \<Rightarrow> do {
          l \<leftarrow> (if old_first \<noteq> HEAD_INDEX then set_prev old_first new_idx (l\<lparr>ll_region := r\<rparr>)
               else set_prev HEAD_INDEX new_idx (l\<lparr>ll_region := r\<rparr>));
          l \<leftarrow> set_next HEAD_INDEX new_idx l;
          Some (Inr new_idx, l) }) }"

definition push_back :: "'a \<Rightarrow> 'a SharedLinkedList \<Rightarrow> ((LinkedListError + u32) \<times> 'a SharedLinkedList) option" where
  "push_back v l = do {
     old_last \<leftarrow> read_prev HEAD_INDEX l;
     (case rg_allocate \<lparr>nd_value = v, nd_next = HEAD_INDEX, nd_prev = old_last\<rparr> (ll_region l) of
        (Inl e, r) \<Rightarrow> Some (Inl (ListRegion e), l\<lparr>ll_region := r\<rparr>)
      | (Inr new_idx, r) \<Rightarrow> do {
          l \<leftarrow> (if old_last \<noteq> HEAD_INDEX then set_next old_last new_idx (l\<lparr>ll_region := r\<rparr>)
               else set_next HEAD_INDEX new_idx (l\<lparr>ll_region := r\<rparr>));
          l \<leftarrow> set_prev HEAD_INDEX new_idx l;
          Some (Inr new_idx, l) }) }"

definition remove_by_index :: "u32 \<Rightarrow> 'a SharedLinkedList \<Rightarrow> ('a option \<times> 'a SharedLinkedList) option" where
  "remove_by_index idx l = do {
     node_prev \<leftarrow> read_prev idx l;
     node_next \<leftarrow> read_next idx l;
     node_value \<leftarrow> read_value idx l;
     l \<leftarrow> (if node_prev = HEAD_INDEX then do {
            l \<leftarrow> set_next HEAD_INDEX node_next l;
            if node_next = HEAD_INDEX then set_prev HEAD_INDEX HEAD_INDEX l else Some l }
          else set_next node_prev node_next l);
     l \<leftarrow> (if node_next = HEAD_INDEX then do {
            l \<leftarrow> set_prev HEAD_INDEX node_prev l;
            if node_prev = HEAD_INDEX then set_next HEAD_INDEX HEAD_INDEX l else Some l }
          else set_prev node_next node_prev l);
     Some (Some node_value, l\<lparr>ll_region := snd (rg_free idx (ll_region l))\<rparr>) }"

definition pop_front :: "'a SharedLinkedList \<Rightarrow> ('a option \<times> 'a SharedLinkedList) option" where
  "pop_front l = do {
     first_idx \<leftarrow> read_next HEAD_INDEX l;
     if first_idx = HEAD_INDEX then Some (None, l) else remove_by_index first_idx l }"

definition pop_back :: "'a SharedLinkedList \<Rightarrow> ('a option \<times> 'a SharedLinkedList) option" where
  "pop_back l = do {
     head \<leftarrow> read_node HEAD_INDEX l;
     if nd_prev head = HEAD_INDEX then Some (None, l) else remove_by_index (nd_prev head) l }"

definition ll_remove :: "u32 \<Rightarrow> 'a SharedLinkedList \<Rightarrow> ('a option \<times> 'a SharedLinkedList) option" where
  "ll_remove handle l = (if handle = NIL_INDEX \<or> handle = HEAD_INDEX then Some (None, l) else remove_by_index handle l)"

definition ll_get :: "u32 \<Rightarrow> 'a SharedLinkedList \<Rightarrow> 'a option option" where
  "ll_get handle l = (if handle = NIL_INDEX \<or> handle = HEAD_INDEX then Some None else map_option Some (read_value handle l))"

definition ll_set :: "u32 \<Rightarrow> 'a \<Rightarrow> 'a SharedLinkedList \<Rightarrow> ((LinkedListError + unit) \<times> 'a SharedLinkedList) option" where
  "ll_set handle v l =
     (if handle = NIL_INDEX \<or> handle = HEAD_INDEX then Some (Inl InvalidHandle, l)
      else do { l \<leftarrow> ll_set_value handle v l; Some (Inr (), l) })"

definition ll_first :: "'a SharedLinkedList \<Rightarrow> 'a option option" where
  "ll_first l = do {
     head \<leftarrow> read_node HEAD_INDEX l;
     if nd_next head = HEAD_INDEX then Some None
     else do { n \<leftarrow> read_node (nd_next head) l; Some (Some (nd_value n)) } }"

definition ll_last :: "'a SharedLinkedList \<Rightarrow> 'a option option" where
  "ll_last l = do {
     head \<leftarrow> read_node HEAD_INDEX l;
     if nd_prev head = HEAD_INDEX then Some None
     else do { n \<leftarrow> read_node (nd_prev head) l; Some (Some (nd_value n)) } }"

text \<open>The loops of the snapshots, from \<open>cur\<close> on. One that never comes back to the sentinel is \<open>None\<close>.\<close>

partial_function (option) forward_from :: "'a SharedLinkedList \<Rightarrow> u32 \<Rightarrow> 'a list option" where
  "forward_from l cur =
     (if cur \<noteq> HEAD_INDEX then do { n \<leftarrow> read_node cur l; out \<leftarrow> forward_from l (nd_next n); Some (nd_value n # out) }
      else Some [])"

partial_function (option) backward_from :: "'a SharedLinkedList \<Rightarrow> u32 \<Rightarrow> 'a list option" where
  "backward_from l cur =
     (if cur \<noteq> HEAD_INDEX then do { n \<leftarrow> read_node cur l; out \<leftarrow> backward_from l (nd_prev n); Some (nd_value n # out) }
      else Some [])"

partial_function (option) handles_from :: "'a SharedLinkedList \<Rightarrow> u32 \<Rightarrow> (u32 \<times> 'a) list option" where
  "handles_from l cur =
     (if cur \<noteq> HEAD_INDEX then do { n \<leftarrow> read_node cur l; out \<leftarrow> handles_from l (nd_next n); Some ((cur, nd_value n) # out) }
      else Some [])"

definition iter_forward :: "'a SharedLinkedList \<Rightarrow> 'a list option" where
  "iter_forward l = do { head \<leftarrow> read_node HEAD_INDEX l; forward_from l (nd_next head) }"

definition iter_backward :: "'a SharedLinkedList \<Rightarrow> 'a list option" where
  "iter_backward l = do { head \<leftarrow> read_node HEAD_INDEX l; backward_from l (nd_prev head) }"

definition iter_forward_with_handles :: "'a SharedLinkedList \<Rightarrow> (u32 \<times> 'a) list option" where
  "iter_forward_with_handles l = do { head \<leftarrow> read_node HEAD_INDEX l; handles_from l (nd_next head) }"

section \<open>The ring\<close>

text \<open>\<open>ring_path s a hs b\<close>: from node \<open>a\<close> the links lead through \<open>hs\<close> to node \<open>b\<close>, and back.\<close>

fun ring_path :: "(u32 \<Rightarrow> 'a Node) \<Rightarrow> u32 \<Rightarrow> u32 list \<Rightarrow> u32 \<Rightarrow> bool" where
  "ring_path s a [] b \<longleftrightarrow> nd_next (s a) = b \<and> nd_prev (s b) = a"
| "ring_path s a (h # hs) b \<longleftrightarrow> nd_next (s a) = h \<and> nd_prev (s h) = a \<and> ring_path s h hs b"

lemma path_append: "ring_path s a (xs @ h # ys) b \<longleftrightarrow> ring_path s a xs h \<and> ring_path s h ys b"
  by (induction xs arbitrary: a) auto

definition link_next :: "u32 \<Rightarrow> u32 \<Rightarrow> (u32 \<Rightarrow> 'a Node) \<Rightarrow> u32 \<Rightarrow> 'a Node" where
  "link_next i v s = s(i := (s i)\<lparr>nd_next := v\<rparr>)"

definition link_prev :: "u32 \<Rightarrow> u32 \<Rightarrow> (u32 \<Rightarrow> 'a Node) \<Rightarrow> u32 \<Rightarrow> 'a Node" where
  "link_prev i v s = s(i := (s i)\<lparr>nd_prev := v\<rparr>)"

lemma link_fields [simp]:
  "nd_next (link_next i v s j) = (if j = i then v else nd_next (s j))" "nd_prev (link_next i v s j) = nd_prev (s j)"
  "nd_next (link_prev i v s j) = nd_next (s j)" "nd_prev (link_prev i v s j) = (if j = i then v else nd_prev (s j))"
  "nd_value (link_next i v s j) = nd_value (s j)" "nd_value (link_prev i v s j) = nd_value (s j)"
  by (simp_all add: link_next_def link_prev_def)

lemma link_again [simp]:
  "link_prev i v (link_prev i v s) = link_prev i v s"
  "link_next i v (link_prev j w (link_next i v s)) = link_prev j w (link_next i v s)"
  by (auto simp: link_next_def link_prev_def)

lemma path_link_next [simp]: "i \<noteq> a \<Longrightarrow> i \<notin> set hs \<Longrightarrow> ring_path (link_next i v s) a hs b = ring_path s a hs b"
  by (induction hs arbitrary: a) auto

lemma path_link_prev [simp]: "i \<noteq> b \<Longrightarrow> i \<notin> set hs \<Longrightarrow> ring_path (link_prev i v s) a hs b = ring_path s a hs b"
  by (induction hs arbitrary: a) auto

lemma path_fresh [simp]: "i \<noteq> a \<Longrightarrow> i \<noteq> b \<Longrightarrow> i \<notin> set hs \<Longrightarrow> ring_path (s(i := n)) a hs b = ring_path s a hs b"
  by (induction hs arbitrary: a) auto

lemma path_ends:
  "ring_path s a hs b \<Longrightarrow> nd_next (s a) = hd (hs @ [b])"
  "ring_path s a hs b \<Longrightarrow> nd_prev (s b) = last (a # hs)"
  by (induction hs arbitrary: a) auto

lemma path_push_front:
  assumes "ring_path s a hs a" "distinct (a # hs)" "i \<noteq> a" "i \<notin> set hs" "nd_next n = hd (hs @ [a])" "nd_prev n = a"
  shows "ring_path (link_next a i (link_prev (hd (hs @ [a])) i (s(i := n)))) a (i # hs) a"
  using assms by (cases hs) auto

lemma path_push_back:
  assumes "ring_path s a hs a" "distinct (a # hs)" "i \<noteq> a" "i \<notin> set hs" "nd_next n = a" "nd_prev n = last (a # hs)"
  shows "ring_path (link_prev a i (link_next (last (a # hs)) i (s(i := n)))) a (hs @ [i]) a"
  using assms by (cases hs rule: rev_cases) (auto simp: path_append)

lemma path_unlink:
  assumes "ring_path s a (xs @ i # ys) a" "distinct (a # xs @ i # ys)"
  shows "ring_path (link_prev (hd (ys @ [a])) (last (a # xs)) (link_next (last (a # xs)) (hd (ys @ [a])) s)) a (xs @ ys) a"
  using assms by (cases xs rule: rev_cases; cases ys) (auto simp: path_append)

section \<open>The list a ring represents\<close>

text \<open>
  \<open>list_rep l es\<close>: the ring holds the handles and values \<open>es\<close> in order, and the slots in use are theirs and the
  sentinel's.
\<close>

definition list_rep :: "'a SharedLinkedList \<Rightarrow> (u32 \<times> 'a) list \<Rightarrow> bool" where
  "list_rep l es \<longleftrightarrow> in_use (ll_region l) (insert HEAD_INDEX (fst ` set es)) \<and> distinct (HEAD_INDEX # map fst es) \<and>
     ring_path (ll_slots l) HEAD_INDEX (map fst es) HEAD_INDEX \<and> (\<forall>(h, v) \<in> set es. nd_value (ll_slots l h) = v)"

lemma entry_handle: "(h, v) \<in> S \<Longrightarrow> h \<in> fst ` S"
  by force

lemma list_repD:
  assumes "list_rep l es"
  shows "in_use (ll_region l) (insert HEAD_INDEX (fst ` set es))" "distinct (HEAD_INDEX # map fst es)"
    "ring_path (ll_slots l) HEAD_INDEX (map fst es) HEAD_INDEX" "(h, v) \<in> set es \<Longrightarrow> nd_value (ll_slots l h) = v"
  using assms by (auto simp: list_rep_def)

definition with_slots :: "(u32 \<Rightarrow> 'a Node) \<Rightarrow> 'a SharedLinkedList \<Rightarrow> 'a SharedLinkedList" where
  "with_slots s l = l\<lparr>ll_region := (ll_region l)\<lparr>rg_slots := s\<rparr>\<rparr>"

lemma with_slots [simp]:
  "ll_slots (with_slots s l) = s" "ll_capacity (with_slots s l) = ll_capacity l" "with_slots s (with_slots t l) = with_slots s l"
  "in_use (ll_region (with_slots s l)) live = in_use (ll_region l) live" "with_slots (ll_slots l) l = l"
  by (simp_all add: with_slots_def ll_capacity_def in_use_def)

lemma node_access:
  assumes "unat i < ll_capacity l"
  shows "read_value i l = Some (nd_value (ll_slots l i))" "read_next i l = Some (nd_next (ll_slots l i))"
    "read_prev i l = Some (nd_prev (ll_slots l i))" "set_next i v l = Some (with_slots (link_next i v (ll_slots l)) l)"
    "set_prev i v l = Some (with_slots (link_prev i v (ll_slots l)) l)"
    "ll_set_value i x l = Some (with_slots ((ll_slots l)(i := (ll_slots l i)\<lparr>nd_value := x\<rparr>)) l)"
  using assms by (simp_all add: read_value_def read_next_def read_prev_def set_next_def set_prev_def ll_set_value_def write_node_def
      node_at_def with_slots_def write_slot_def link_next_def link_prev_def)

text \<open>Every node of the ring is inside the mapping.\<close>

lemma rep_slot:
  assumes "list_rep l es" "i = HEAD_INDEX \<or> i \<in> fst ` set es"
  shows "unat i < ll_capacity l" "read_node i l = Some (ll_slots l i)" "i \<noteq> NIL_INDEX"
  using live_slot [OF list_repD(1) [OF assms(1)], of i] live_ptr [OF list_repD(1) [OF assms(1)], of i] assms(2)
  by (auto simp: ll_capacity_def read_node_def rg_get_def bad_ptr_def)

lemma rep_neighbours:
  assumes "list_rep l es"
  shows "hd (map fst es @ [HEAD_INDEX]) = HEAD_INDEX \<or> hd (map fst es @ [HEAD_INDEX]) \<in> fst ` set es"
    "last (HEAD_INDEX # map fst es) = HEAD_INDEX \<or> last (HEAD_INDEX # map fst es) \<in> fst ` set es"
    "hd (map fst es @ [HEAD_INDEX]) = HEAD_INDEX \<longleftrightarrow> es = []" "last (HEAD_INDEX # map fst es) = HEAD_INDEX \<longleftrightarrow> es = []"
proof -
  have d: "HEAD_INDEX \<notin> fst ` set es" using list_repD(2) [OF assms] by simp
  show "hd (map fst es @ [HEAD_INDEX]) = HEAD_INDEX \<or> hd (map fst es @ [HEAD_INDEX]) \<in> fst ` set es" by (cases es) auto
  show "last (HEAD_INDEX # map fst es) = HEAD_INDEX \<or> last (HEAD_INDEX # map fst es) \<in> fst ` set es" by (cases es rule: rev_cases) auto
  show "hd (map fst es @ [HEAD_INDEX]) = HEAD_INDEX \<longleftrightarrow> es = []" using d by (cases es) auto
  show "last (HEAD_INDEX # map fst es) = HEAD_INDEX \<longleftrightarrow> es = []" using d by (cases es rule: rev_cases) auto
qed

lemma rep_ends:
  assumes "list_rep l es"
  shows "nd_next (ll_slots l HEAD_INDEX) = hd (map fst es @ [HEAD_INDEX])" "nd_prev (ll_slots l HEAD_INDEX) = last (HEAD_INDEX # map fst es)"
  by (rule path_ends [OF list_repD(3) [OF assms]])+

lemma rep_card: "list_rep l es \<Longrightarrow> card (insert HEAD_INDEX (fst ` set es)) = Suc (length es)"
  using distinct_card [of "HEAD_INDEX # map fst es"] list_repD(2) [of l es] by simp

lemma len_rep: "list_rep l es \<Longrightarrow> ll_len l = length es"
  using len_in_use [OF list_repD(1) [of l es]] rep_card [of l es] by (simp add: ll_len_def)

lemma rep_bound: "list_rep l es \<Longrightarrow> length es < ll_capacity l"
  using live_card [OF list_repD(1) [of l es]] rep_card [of l es] by (simp add: ll_capacity_def)

section \<open>The operations on the list\<close>

lemma push_front_rep:
  assumes rep: "list_rep l es" and room: "Suc (length es) < ll_capacity l"
  obtains i l' where "push_front v l = Some (Inr i, l')" "list_rep l' ((i, v) # es)" "ll_capacity l' = ll_capacity l"
proof -
  let ?first = "hd (map fst es @ [HEAD_INDEX])" and ?live = "insert HEAD_INDEX (fst ` set es)"
  let ?n = "\<lparr>nd_value = v, nd_next = ?first, nd_prev = HEAD_INDEX\<rparr>"
  obtain i r where r: "rg_allocate ?n (ll_region l) = (Inr i, r)" "in_use r (insert i ?live)" "i \<notin> ?live"
      "rg_slots r = (ll_slots l)(i := ?n)" "rg_capacity r = rg_capacity (ll_region l)"
    by (rule allocate_ok [OF list_repD(1) [OF rep], of ?n]) (use room rep_card [OF rep] in \<open>simp_all add: ll_capacity_def\<close>)
  let ?l = "l\<lparr>ll_region := r\<rparr>"
  let ?s = "link_next HEAD_INDEX i (link_prev ?first i ((ll_slots l)(i := ?n)))"
  have cap: "ll_capacity ?l = ll_capacity l" by (simp add: ll_capacity_def r(5))
  have mapped: "unat HEAD_INDEX < ll_capacity l" "unat ?first < ll_capacity l"
    using rep_slot(1) [OF rep] rep_neighbours(1) [OF rep] by blast+
  have "push_front v l = Some (Inr i, with_slots ?s ?l)"
    using mapped by (simp add: push_front_def node_access rep_ends [OF rep] r(1) cap, simp add: r(4))
  moreover have "ring_path ?s HEAD_INDEX (i # map fst es) HEAD_INDEX"
    using list_repD(2,3) [OF rep] r(3) by (intro path_push_front) auto
  then have "list_rep (with_slots ?s ?l) ((i, v) # es)"
    using list_repD [OF rep] r(2,3) by (auto simp: list_rep_def insert_commute dest: entry_handle)
  ultimately show thesis by (rule that) (simp add: cap)
qed

lemma push_back_rep:
  assumes rep: "list_rep l es" and room: "Suc (length es) < ll_capacity l"
  obtains i l' where "push_back v l = Some (Inr i, l')" "list_rep l' (es @ [(i, v)])" "ll_capacity l' = ll_capacity l"
proof -
  let ?last = "last (HEAD_INDEX # map fst es)" and ?live = "insert HEAD_INDEX (fst ` set es)"
  let ?n = "\<lparr>nd_value = v, nd_next = HEAD_INDEX, nd_prev = ?last\<rparr>"
  obtain i r where r: "rg_allocate ?n (ll_region l) = (Inr i, r)" "in_use r (insert i ?live)" "i \<notin> ?live"
      "rg_slots r = (ll_slots l)(i := ?n)" "rg_capacity r = rg_capacity (ll_region l)"
    by (rule allocate_ok [OF list_repD(1) [OF rep], of ?n]) (use room rep_card [OF rep] in \<open>simp_all add: ll_capacity_def\<close>)
  let ?l = "l\<lparr>ll_region := r\<rparr>"
  let ?s = "link_prev HEAD_INDEX i (link_next ?last i ((ll_slots l)(i := ?n)))"
  have cap: "ll_capacity ?l = ll_capacity l" by (simp add: ll_capacity_def r(5))
  have mapped: "unat HEAD_INDEX < ll_capacity l" "unat ?last < ll_capacity l"
    using rep_slot(1) [OF rep] rep_neighbours(2) [OF rep] by blast+
  have "push_back v l = Some (Inr i, with_slots ?s ?l)"
    using mapped by (simp add: push_back_def node_access rep_ends [OF rep] r(1) cap del: last.simps, simp add: r(4) del: last.simps)
  moreover have "ring_path ?s HEAD_INDEX (map fst es @ [i]) HEAD_INDEX"
    using list_repD(2,3) [OF rep] r(3) by (intro path_push_back) auto
  then have "list_rep (with_slots ?s ?l) (es @ [(i, v)])"
    using list_repD [OF rep] r(2,3) by (auto simp: list_rep_def insert_commute dest: entry_handle)
  ultimately show thesis by (rule that) (simp add: cap)
qed

lemma push_full:
  assumes "list_rep l es" "Suc (length es) = ll_capacity l"
  shows "push_front v l = Some (Inl (ListRegion RegionFull), l)" "push_back v l = Some (Inl (ListRegion RegionFull), l)"
  using allocate_full [OF list_repD(1) [OF assms(1)]] rep_card [OF assms(1)] assms(2) rep_slot(1) [OF assms(1), of HEAD_INDEX]
  by (simp_all add: push_front_def push_back_def node_access ll_capacity_def)

lemma unlink_node:
  assumes "unat HEAD_INDEX < ll_capacity l" "unat i < ll_capacity l" "unat p < ll_capacity l" "unat n < ll_capacity l"
    "nd_prev (ll_slots l i) = p" "nd_next (ll_slots l i) = n"
  shows "remove_by_index i l = (let l' = with_slots (link_prev n p (link_next p n (ll_slots l))) l
    in Some (Some (nd_value (ll_slots l i)), l'\<lparr>ll_region := snd (rg_free i (ll_region l'))\<rparr>))"
  using assms by (simp add: remove_by_index_def node_access Let_def)

lemma remove_by_index_rep:
  assumes rep: "list_rep l (xs @ (i, v) # ys)"
  obtains l' where "remove_by_index i l = Some (Some v, l')" "list_rep l' (xs @ ys)" "ll_capacity l' = ll_capacity l"
proof -
  define p n where "p = last (HEAD_INDEX # map fst xs)" and "n = hd (map fst ys @ [HEAD_INDEX])"
  let ?l = "with_slots (link_prev n p (link_next p n (ll_slots l))) l" and ?live = "insert HEAD_INDEX (fst ` set (xs @ (i, v) # ys))"
  have i: "nd_prev (ll_slots l i) = p" "nd_next (ll_slots l i) = n" "nd_value (ll_slots l i) = v"
    using list_repD(3,4) [OF rep] by (auto simp: p_def n_def path_append dest: path_ends)
  have "p = HEAD_INDEX \<or> p \<in> fst ` set xs" by (cases xs rule: rev_cases) (auto simp: p_def)
  moreover have "n = HEAD_INDEX \<or> n \<in> fst ` set ys" by (cases ys) (auto simp: n_def)
  ultimately have mapped: "unat HEAD_INDEX < ll_capacity l" "unat i < ll_capacity l" "unat p < ll_capacity l" "unat n < ll_capacity l"
    using rep_slot(1) [OF rep, of HEAD_INDEX] rep_slot(1) [OF rep, of i] rep_slot(1) [OF rep, of p] rep_slot(1) [OF rep, of n] by auto
  have live: "in_use (ll_region ?l) ?live" "i \<in> ?live" using list_repD(1) [OF rep] by simp_all
  obtain r where r: "rg_free i (ll_region ?l) = (Inr (ll_slots ?l i), r)" "in_use r (?live - {i})"
      "rg_slots r = ll_slots ?l" "rg_capacity r = rg_capacity (ll_region ?l)"
    by (rule free_ok [OF live])
  have "remove_by_index i l = Some (Some v, ?l\<lparr>ll_region := r\<rparr>)"
    using unlink_node [OF mapped i(1,2)] i(3) r(1) by (simp add: Let_def)
  moreover have "?live - {i} = insert HEAD_INDEX (fst ` set (xs @ ys))" using list_repD(2) [OF rep] by auto
  then have "list_rep (?l\<lparr>ll_region := r\<rparr>) (xs @ ys)"
    using r(2,3) list_repD(2,4) [OF rep] path_unlink [of "ll_slots l" HEAD_INDEX "map fst xs" i "map fst ys"] list_repD(3) [OF rep]
    by (auto simp: list_rep_def p_def n_def simp del: last.simps)
  ultimately show thesis by (rule that) (use r(4) in \<open>simp add: ll_capacity_def with_slots_def\<close>)
qed

lemma ll_remove_rep:
  assumes "list_rep l (xs @ (i, v) # ys)"
  obtains l' where "ll_remove i l = Some (Some v, l')" "list_rep l' (xs @ ys)" "ll_capacity l' = ll_capacity l"
proof -
  have "i \<noteq> NIL_INDEX" "i \<noteq> HEAD_INDEX" using rep_slot(3) [OF assms, of i] list_repD(2) [OF assms] by auto
  then show thesis using remove_by_index_rep [OF assms] that by (metis ll_remove_def)
qed

lemma pop_rep:
  assumes rep: "list_rep l es"
  shows "es = [] \<Longrightarrow> pop_front l = Some (None, l) \<and> pop_back l = Some (None, l)"
    "es = (i, v) # ys \<Longrightarrow> \<exists>l'. pop_front l = Some (Some v, l') \<and> list_rep l' ys \<and> ll_capacity l' = ll_capacity l"
    "es = xs @ [(i, v)] \<Longrightarrow> \<exists>l'. pop_back l = Some (Some v, l') \<and> list_rep l' xs \<and> ll_capacity l' = ll_capacity l"
proof -
  note head = node_access [OF rep_slot(1) [OF rep, of HEAD_INDEX]] rep_slot(2) [OF rep, of HEAD_INDEX] rep_ends [OF rep]
  show "es = [] \<Longrightarrow> pop_front l = Some (None, l) \<and> pop_back l = Some (None, l)" using head by (simp add: pop_front_def pop_back_def)
  {
    assume es: "es = (i, v) # ys"
    then have "i \<noteq> HEAD_INDEX" using list_repD(2) [OF rep] by auto
    then have "pop_front l = remove_by_index i l" using head by (simp add: pop_front_def es)
    with remove_by_index_rep [of l "[]" i v ys] rep
    show "\<exists>l'. pop_front l = Some (Some v, l') \<and> list_rep l' ys \<and> ll_capacity l' = ll_capacity l" unfolding es by (metis append_Nil)
  }
  assume es: "es = xs @ [(i, v)]"
  then have "i \<noteq> HEAD_INDEX" using list_repD(2) [OF rep] by auto
  then have "pop_back l = remove_by_index i l" using head by (simp add: pop_back_def es)
  with remove_by_index_rep [of l xs i v "[]"] rep
  show "\<exists>l'. pop_back l = Some (Some v, l') \<and> list_rep l' xs \<and> ll_capacity l' = ll_capacity l" unfolding es by (metis append_Nil2)
qed

lemma get_rep:
  assumes "list_rep l es" "(i, v) \<in> set es"
  shows "ll_get i l = Some (Some v)"
proof -
  have i: "i \<in> fst ` set es" using assms(2) by (rule entry_handle)
  then have "i \<noteq> NIL_INDEX" "i \<noteq> HEAD_INDEX" "unat i < ll_capacity l"
    using rep_slot [OF assms(1), of i] list_repD(2) [OF assms(1)] by (auto simp: image_iff)
  then show ?thesis using list_repD(4) [OF assms] by (simp add: ll_get_def node_access)
qed

lemma path_value: "ring_path (s(i := (s i)\<lparr>nd_value := v\<rparr>)) a hs b = ring_path s a hs b"
  by (induction hs arbitrary: a) auto

lemma set_rep:
  assumes rep: "list_rep l (xs @ (i, v) # ys)"
  shows "\<exists>l'. ll_set i w l = Some (Inr (), l') \<and> list_rep l' (xs @ (i, w) # ys) \<and> ll_capacity l' = ll_capacity l"
proof -
  have "i \<noteq> NIL_INDEX" "i \<noteq> HEAD_INDEX" "unat i < ll_capacity l" using rep_slot [OF rep, of i] list_repD(2) [OF rep] by auto
  moreover have "list_rep (with_slots ((ll_slots l)(i := (ll_slots l i)\<lparr>nd_value := w\<rparr>)) l) (xs @ (i, w) # ys)"
    using list_repD [OF rep] by (auto simp: list_rep_def path_value dest: entry_handle)
  ultimately show ?thesis by (simp add: ll_set_def node_access)
qed

lemma ends_rep:
  assumes "list_rep l es"
  shows "ll_first l = Some (if es = [] then None else Some (snd (hd es)))" "ll_last l = Some (if es = [] then None else Some (snd (last es)))"
proof -
  note head = rep_slot(2) [OF assms, of HEAD_INDEX] rep_ends [OF assms] rep_neighbours(3,4) [OF assms]
  show "ll_first l = Some (if es = [] then None else Some (snd (hd es)))"
    using head rep_slot(2) [OF assms, of "fst (hd es)"] list_repD(4) [OF assms] by (cases es) (auto simp: ll_first_def)
  show "ll_last l = Some (if es = [] then None else Some (snd (last es)))"
    using head rep_slot(2) [OF assms, of "fst (last es)"] list_repD(4) [OF assms] by (cases es rule: rev_cases) (auto simp: ll_last_def)
qed

lemma rep_links:
  assumes "list_rep l (xs @ (i, v) # ys)"
  shows "nd_next (ll_slots l i) = hd (map fst ys @ [HEAD_INDEX])" "nd_prev (ll_slots l i) = last (HEAD_INDEX # map fst xs)"
    "read_node i l = Some (ll_slots l i)" "nd_value (ll_slots l i) = v" "i \<noteq> HEAD_INDEX"
  using list_repD(2-4) [OF assms] rep_slot(2) [OF assms, of i] by (auto simp: path_append dest: path_ends)

lemma walks_rep:
  "list_rep l (xs @ ys) \<Longrightarrow> forward_from l (hd (map fst ys @ [HEAD_INDEX])) = Some (map snd ys)"
  "list_rep l (xs @ ys) \<Longrightarrow> handles_from l (hd (map fst ys @ [HEAD_INDEX])) = Some ys"
proof (induction ys arbitrary: xs)
  case Nil
  {
    case 1
    then show ?case by (simp add: forward_from.simps)
  next
    case 2
    then show ?case by (simp add: handles_from.simps)
  }
next
  case (Cons y ys)
  obtain i v where y: "y = (i, v)" by fastforce
  {
    case 1
    then have rep: "list_rep l (xs @ (i, v) # ys)" by (simp add: y)
    then show ?case using Cons.IH(1) [of "xs @ [y]"] rep_links [OF rep] by (simp add: y forward_from.simps [of l i])
  next
    case 2
    then have rep: "list_rep l (xs @ (i, v) # ys)" by (simp add: y)
    then show ?case using Cons.IH(2) [of "xs @ [y]"] rep_links [OF rep] by (simp add: y handles_from.simps [of l i])
  }
qed

lemma back_walk_rep: "list_rep l (xs @ ys) \<Longrightarrow> backward_from l (last (HEAD_INDEX # map fst xs)) = Some (rev (map snd xs))"
proof (induction xs arbitrary: ys rule: rev_induct)
  case Nil
  then show ?case by (simp add: backward_from.simps)
next
  case (snoc x xs)
  obtain i v where x: "x = (i, v)" by fastforce
  have rep: "list_rep l (xs @ (i, v) # ys)" using snoc.prems by (simp add: x)
  then show ?case using snoc.IH [of "x # ys"] rep_links [OF rep] by (simp add: x backward_from.simps [of l i])
qed

lemma iter_rep:
  assumes "list_rep l es"
  shows "iter_forward l = Some (map snd es)" "iter_backward l = Some (rev (map snd es))" "iter_forward_with_handles l = Some es"
  using walks_rep [of l "[]" es] back_walk_rep [of l es "[]"] rep_slot(2) [OF assms, of HEAD_INDEX] rep_ends [OF assms] assms
  by (simp_all add: iter_forward_def iter_backward_def iter_forward_with_handles_def)

lemma created_list:
  assumes "ll_create None None zero dflt slot_size alignment capacity = Some (Inr l)" "capacity < 2 ^ 31"
  shows "list_rep l []" "ll_capacity l = capacity"
proof -
  let ?n = "\<lparr>nd_value = dflt, nd_next = HEAD_INDEX, nd_prev = HEAD_INDEX\<rparr>"
  from assms(1) obtain r0 r where r: "rg_create None None zero slot_size alignment capacity = Some (Inr r0)" "2 \<le> capacity"
      "rg_allocate ?n r0 = (Inr HEAD_INDEX, r)" "l = \<lparr>ll_region = r\<rparr>"
    by (auto simp: ll_create_def split: if_splits sum.splits Option.bind_splits prod.splits)
  note r0 = created_in_use [OF r(1) assms(2)]
  obtain i r' where "rg_allocate ?n r0 = (Inr i, r')" "in_use r' (insert i {})" "i \<notin> {}" "rg_slots r' = (rg_slots r0)(i := ?n)"
      "rg_capacity r' = rg_capacity r0"
    by (rule allocate_ok [OF r0(1), of ?n]) (use r(2) r0(2) in simp_all)
  then have "in_use r {HEAD_INDEX}" "rg_slots r = (rg_slots r0)(HEAD_INDEX := ?n)" "rg_capacity r = capacity"
    using r(3) r0(2) by simp_all
  then show "list_rep l []" "ll_capacity l = capacity" by (simp_all add: list_rep_def r(4) ll_capacity_def)
qed

section \<open>What the list does not check\<close>

text \<open>
  A list that is attached to, rather than built, by a second \<open>create\<close> gets a second sentinel, which is not in slot 0:
  the call panics, or reports the region full.
\<close>

lemma second_create_panics:
  assumes rep: "list_rep l es"
    and found: "rg_from_region (rg_header (ll_region l)) (rg_next (ll_region l)) (ll_slots l) slot_size (ll_capacity l) = Inr (ll_region l)"
  shows "ll_create None (Some (rg_header (ll_region l), rg_next (ll_region l), ll_slots l)) zero dflt slot_size alignment (ll_capacity l) \<in>
    {None, Some (Inl (ListRegion RegionFull))}"
proof (cases "Suc (length es) < ll_capacity l")
  case True
  then have "card (insert HEAD_INDEX (fst ` set es)) < rg_capacity (ll_region l)" using rep_card [OF rep] by (simp add: ll_capacity_def)
  then show ?thesis
    by (rule allocate_ok [OF list_repD(1) [OF rep], of "\<lparr>nd_value = dflt, nd_next = HEAD_INDEX, nd_prev = HEAD_INDEX\<rparr>"])
      (auto simp: ll_create_def rg_create_def found)
next
  case False
  then have "card (insert HEAD_INDEX (fst ` set es)) = rg_capacity (ll_region l)"
    using rep_card [OF rep] rep_bound [OF rep] by (simp add: ll_capacity_def)
  then show ?thesis using allocate_full [OF list_repD(1) [OF rep]] by (auto simp: ll_create_def rg_create_def found)
qed

text \<open>
  A removed node's handle still reads its value. Removing it a second time returns the value again and frees the slot
  again, which leaves the free list a circle on that slot: every later push is handed the same one.
\<close>

lemma rep_splice:
  assumes rep: "list_rep l (xs @ (i, v) # ys)"
  obtains p n where "nd_prev (ll_slots l i) = p" "nd_next (ll_slots l i) = n" "unat HEAD_INDEX < ll_capacity l" "unat i < ll_capacity l"
    "unat p < ll_capacity l" "unat n < ll_capacity l" "p \<noteq> i" "n \<noteq> i" "i \<noteq> NIL_INDEX" "i \<noteq> HEAD_INDEX"
proof -
  let ?p = "last (HEAD_INDEX # map fst xs)" and ?n = "hd (map fst ys @ [HEAD_INDEX])"
  have p: "?p = HEAD_INDEX \<or> ?p \<in> fst ` set xs" by (cases xs rule: rev_cases) auto
  have n: "?n = HEAD_INDEX \<or> ?n \<in> fst ` set ys" by (cases ys) auto
  have "i \<notin> fst ` set xs" "i \<notin> fst ` set ys" "i \<noteq> HEAD_INDEX" using list_repD(2) [OF rep] by auto
  then have other: "?p \<noteq> i" "?n \<noteq> i" using p n by metis+
  have "?p = HEAD_INDEX \<or> ?p \<in> fst ` set (xs @ (i, v) # ys)" "?n = HEAD_INDEX \<or> ?n \<in> fst ` set (xs @ (i, v) # ys)"
    "i = HEAD_INDEX \<or> i \<in> fst ` set (xs @ (i, v) # ys)" using p n by (auto simp del: last.simps)
  note at = this [THEN rep_slot(1) [OF rep]] rep_slot(1) [OF rep, of HEAD_INDEX, simplified] this(3) [THEN rep_slot(3) [OF rep]]
  show thesis by (rule that [OF rep_links(2,1) [OF rep] at(4,3,1,2) other at(5) rep_links(5) [OF rep]])
qed

lemma free_fields [simp]: "rg_slots (snd (rg_free i r)) = rg_slots r" "rg_capacity (snd (rg_free i r)) = rg_capacity r"
  by (simp_all add: rg_free_def rg_updates Let_def split: prod.split)

lemma double_remove:
  assumes rep: "list_rep l (xs @ (i, v) # ys)"
  obtains l1 l2 where "ll_remove i l = Some (Some v, l1)" "ll_get i l1 = Some (Some v)" "ll_remove i l1 = Some (Some v, l2)"
    "snd (unpack (rg_free_head (ll_region l2))) = i" "rg_next (ll_region l2) i = i"
proof (rule rep_splice [OF rep])
  fix p n
  assume i: "nd_prev (ll_slots l i) = p" "nd_next (ll_slots l i) = n" and
    mapped: "unat HEAD_INDEX < ll_capacity l" "unat i < ll_capacity l" "unat p < ll_capacity l" "unat n < ll_capacity l"
    and other: "p \<noteq> i" "n \<noteq> i" and handle: "i \<noteq> NIL_INDEX" "i \<noteq> HEAD_INDEX"
  define spliced freed where "spliced l = with_slots (link_prev n p (link_next p n (ll_slots l))) l"
    and "freed l = (spliced l)\<lparr>ll_region := snd (rg_free i (ll_region (spliced l)))\<rparr>" for l :: "'a SharedLinkedList"
  have freed: "ll_capacity (freed l') = ll_capacity l'" "nd_prev (ll_slots (freed l') i) = nd_prev (ll_slots l' i)"
    "nd_next (ll_slots (freed l') i) = nd_next (ll_slots l' i)" "nd_value (ll_slots (freed l') i) = nd_value (ll_slots l' i)" for l'
    using other by (simp_all add: freed_def spliced_def ll_capacity_def with_slots_def)
  have go: "ll_remove i l' = Some (Some (nd_value (ll_slots l' i)), freed l')"
    if "nd_prev (ll_slots l' i) = p" "nd_next (ll_slots l' i) = n" "ll_capacity l' = ll_capacity l" for l'
    using unlink_node [of l' i p n] that mapped handle by (simp add: ll_remove_def freed_def spliced_def Let_def)
  have v: "nd_value (ll_slots l i) = v" by (rule rep_links(4) [OF rep])
  have "ll_remove i l = Some (Some v, freed l)" "ll_remove i (freed l) = Some (Some v, freed (freed l))"
    using go [of l] go [of "freed l"] i v by (simp_all add: freed)
  moreover have "ll_get i (freed l) = Some (Some v)" using handle mapped v by (simp add: ll_get_def node_access freed)
  moreover
  have ok: "\<not> bad_ptr i (ll_region (spliced l'))" if "ll_capacity l' = ll_capacity l" for l'
    using handle mapped(2) that by (simp add: bad_ptr_def spliced_def with_slots_def ll_capacity_def)
  have top: "snd (unpack (rg_free_head (ll_region (freed l')))) = i" "rg_next (ll_region (freed l')) i = snd (unpack (rg_free_head (ll_region l')))"
    if "ll_capacity l' = ll_capacity l" for l'
    using ok [OF that] by (simp_all add: freed_def rg_free_def Let_def rg_updates spliced_def with_slots_def split: prod.split)
  have "snd (unpack (rg_free_head (ll_region (freed (freed l))))) = i" "rg_next (ll_region (freed (freed l))) i = i"
    using top(1) [of l] top [of "freed l"] by (simp_all add: freed)
  ultimately show thesis using that by blast
qed

lemma circular_free_list:
  assumes "snd (unpack (rg_free_head r)) = i" "rg_next r i = i" "i \<noteq> NIL_INDEX"
  obtains r' where "rg_allocate v r = (Inr i, r')" "snd (unpack (rg_free_head r')) = i" "rg_next r' i = i"
proof -
  have "rg_allocate v r = (Inr i, write_slot i v (set_free_head (pack (fst (unpack (rg_free_head r)) + 1) i) r))"
    using assms by (simp add: rg_allocate_def Let_def split_beta)
  then show thesis by (rule that) (simp_all add: rg_updates assms(2))
qed

end
