(* ===== verification/Lru_Cache.thy ===== *)
theory Lru_Cache
  imports Hash_Map_Refinement Linked_List Call_Sequences
begin

text \<open>
  The cache of \<^verbatim>\<open>shared_lru_cache.rs\<close>: the hash map of \<^verbatim>\<open>Shared_Hash_Map\<close> finds the handle of a key's node in the linked
  list of \<^verbatim>\<open>Linked_List\<close>, whose order is the order of use. The two are kept in step by every call, and together
  they are a list of entries, the most recently used first, from which a full cache drops the last.
\<close>

section \<open>The cache\<close>

datatype LRUError = LruMap MapError | LruList LinkedListError | LruLayoutMismatch | LruIoError nat

record ('k, 'v) SharedLRUCache =
  lru_map :: "('k, u32) SharedHashMap"
  lru_list :: "('k \<times> 'v) SharedLinkedList"
  lru_capacity :: u32

text \<open>
  The arguments of \<open>lru_create\<close> are those of the two parts: what obtaining each file gave, the bytes of a fresh slot,
  and the sizes of the types.
\<close>

definition lru_create ::
  "MapError option \<Rightarrow> (MapHeader \<times> ('k, u32) MapSlot list) option \<Rightarrow> RegionError option \<Rightarrow>
    (RegionHeader \<times> (u32 \<Rightarrow> u32) \<times> (u32 \<Rightarrow> ('k \<times> 'v) Node)) option \<Rightarrow> 'k \<times> u32 \<Rightarrow> ('k \<times> 'v) Node \<Rightarrow> 'k \<times> 'v \<Rightarrow> nat \<Rightarrow> nat \<Rightarrow> nat \<Rightarrow>
    u32 \<Rightarrow> (LRUError + ('k, 'v) SharedLRUCache) option" where
  "lru_create map_error map_found list_error list_found zero zero_node dflt key_size node_size alignment capacity =
     (if \<not> capacity \<ge> 1 then None
      else do {
        m \<leftarrow> hm_create map_error map_found zero key_size 4 (max (unat capacity * 8) 32);
        (case m of
           Inl e \<Rightarrow> Some (Inl (LruMap e))
         | Inr m \<Rightarrow> do {
             list \<leftarrow> ll_create list_error list_found zero_node dflt node_size alignment (unat capacity + 2);
             (case list of
                Inl e \<Rightarrow> Some (Inl (LruList e))
              | Inr list \<Rightarrow> Some (Inr \<lparr>lru_map = m, lru_list = list, lru_capacity = capacity\<rparr>)) }) })"

definition lru_open ::
  "nat option \<Rightarrow> nat option \<Rightarrow> nat \<Rightarrow> MapHeader \<Rightarrow> ('k, u32) MapSlot list \<Rightarrow> nat option \<Rightarrow> nat option \<Rightarrow> nat \<Rightarrow> RegionHeader \<Rightarrow>
    (u32 \<Rightarrow> u32) \<Rightarrow> (u32 \<Rightarrow> ('k \<times> 'v) Node) \<Rightarrow> nat \<Rightarrow> nat \<Rightarrow> u32 \<Rightarrow> LRUError + ('k, 'v) SharedLRUCache" where
  "lru_open map_io map_io' map_len map_hdr map_slots list_io list_io' list_len list_hdr links nodes key_size node_size capacity =
     (case hm_open map_io map_io' map_len map_hdr map_slots key_size 4 (max (unat capacity * 8) 32) of
        Inl e \<Rightarrow> Inl (LruMap e)
      | Inr m \<Rightarrow>
          (case ll_open list_io list_io' list_len list_hdr links nodes node_size (unat capacity + 2) of
             Inl e \<Rightarrow> Inl (LruList e)
           | Inr list \<Rightarrow> Inr \<lparr>lru_map = m, lru_list = list, lru_capacity = capacity\<rparr>))"

definition lru_len :: "('k, 'v) SharedLRUCache \<Rightarrow> nat" where
  "lru_len c = ll_len (lru_list c)"

definition lru_get :: "('k \<Rightarrow> bytes) \<Rightarrow> 'k \<Rightarrow> ('k, 'v) SharedLRUCache \<Rightarrow> 'v option option" where
  "lru_get kb key c = do {
     idx \<leftarrow> get_inner kb key (lru_map c);
     (case idx of
        None \<Rightarrow> Some None
      | Some idx \<Rightarrow> do {
          e \<leftarrow> ll_get idx (lru_list c);
          Some (case e of None \<Rightarrow> None | Some (k, v) \<Rightarrow> if k \<noteq> key then None else Some v) }) }"

definition lru_contains_key :: "('k \<Rightarrow> bytes) \<Rightarrow> 'k \<Rightarrow> ('k, 'v) SharedLRUCache \<Rightarrow> bool option" where
  "lru_contains_key kb key c = contains_key kb key (lru_map c)"

text \<open>The status of \<open>touch_status\<close> is 0, 2 or 3 as in the source; debug assertions are off.\<close>

definition touch_status :: "nat \<Rightarrow> ('k \<Rightarrow> bytes) \<Rightarrow> 'k \<Rightarrow> ('k, 'v) SharedLRUCache \<Rightarrow> (nat \<times> ('k, 'v) SharedLRUCache) option" where
  "touch_status passes kb key c = do {
     idx \<leftarrow> get_inner kb key (lru_map c);
     (case idx of
        None \<Rightarrow> Some (2, c)
      | Some idx \<Rightarrow> do {
          (e, list) \<leftarrow> ll_remove idx (lru_list c);
          (case e of
             None \<Rightarrow> Some (2, c\<lparr>lru_list := list\<rparr>)
           | Some (k, v) \<Rightarrow> do {
               (r, list) \<leftarrow> push_front (k, v) list;
               (case r of
                  Inr new_handle \<Rightarrow> do {
                    (r, m) \<leftarrow> hm_insert passes kb k new_handle (lru_map c);
                    Some (case r of Inr _ \<Rightarrow> 0 | Inl _ \<Rightarrow> 3, c\<lparr>lru_map := m, lru_list := list\<rparr>) }
                | Inl refused \<Rightarrow> do {
                    (r, list) \<leftarrow> push_back (k, v) list;
                    Some (case r of Inr _ \<Rightarrow> 2 | Inl _ \<Rightarrow> 3, c\<lparr>lru_list := list\<rparr>) }) }) }) }"

definition lru_touch :: "nat \<Rightarrow> ('k \<Rightarrow> bytes) \<Rightarrow> 'k \<Rightarrow> ('k, 'v) SharedLRUCache \<Rightarrow> (bool \<times> ('k, 'v) SharedLRUCache) option" where
  "lru_touch passes kb key c = do { (status, c) \<leftarrow> touch_status passes kb key c; Some (status = 0, c) }"

definition get_and_touch ::
  "nat \<Rightarrow> ('k \<Rightarrow> bytes) \<Rightarrow> 'k \<Rightarrow> ('k, 'v) SharedLRUCache \<Rightarrow> ('v option \<times> ('k, 'v) SharedLRUCache) option" where
  "get_and_touch passes kb key c = do {
     v \<leftarrow> lru_get kb key c;
     (case v of
        None \<Rightarrow> Some (None, c)
      | Some v \<Rightarrow> do { (_, c) \<leftarrow> lru_touch passes kb key c; Some (Some v, c) }) }"

definition evict_oldest ::
  "('k \<Rightarrow> bytes) \<Rightarrow> ('k, 'v) SharedLRUCache \<Rightarrow> (('k \<times> 'v) option \<times> ('k, 'v) SharedLRUCache) option" where
  "evict_oldest kb c = do {
     (e, list) \<leftarrow> pop_back (lru_list c);
     (case e of
        None \<Rightarrow> Some (None, c\<lparr>lru_list := list\<rparr>)
      | Some (k, v) \<Rightarrow> do {
          (_, m) \<leftarrow> hm_remove kb k (lru_map c);
          Some (Some (k, v), c\<lparr>lru_map := m, lru_list := list\<rparr>) }) }"

definition put_front ::
  "nat \<Rightarrow> ('k \<Rightarrow> bytes) \<Rightarrow> 'k \<Rightarrow> 'v \<Rightarrow> 'v option \<Rightarrow> ('k, 'v) SharedLRUCache \<Rightarrow>
    ((LRUError + 'v option) \<times> ('k, 'v) SharedLRUCache) option" where
  "put_front passes kb key v old c = do {
     (r, list) \<leftarrow> push_front (key, v) (lru_list c);
     (case r of
        Inl e \<Rightarrow> Some (Inl (LruList e), c\<lparr>lru_list := list\<rparr>)
      | Inr new_handle \<Rightarrow> do {
          (r, m) \<leftarrow> hm_insert passes kb key new_handle (lru_map c);
          Some (case r of Inl e \<Rightarrow> Inl (LruMap e) | Inr _ \<Rightarrow> Inr old, c\<lparr>lru_map := m, lru_list := list\<rparr>) }) }"

definition put_inner ::
  "nat \<Rightarrow> ('k \<Rightarrow> bytes) \<Rightarrow> 'k \<Rightarrow> 'v \<Rightarrow> ('k, 'v) SharedLRUCache \<Rightarrow>
    ((LRUError + 'v option) \<times> ('k, 'v) SharedLRUCache) option" where
  "put_inner passes kb key v c = do {
     idx \<leftarrow> get_inner kb key (lru_map c);
     (case idx of
        Some idx \<Rightarrow> do {
          (e, list) \<leftarrow> ll_remove idx (lru_list c);
          put_front passes kb key v (map_option snd e) (c\<lparr>lru_list := list\<rparr>) }
      | None \<Rightarrow> do {
          c \<leftarrow> (if lru_len c \<ge> unat (lru_capacity c) then map_option snd (evict_oldest kb c) else Some c);
          put_front passes kb key v None c }) }"

definition lru_remove :: "('k \<Rightarrow> bytes) \<Rightarrow> 'k \<Rightarrow> ('k, 'v) SharedLRUCache \<Rightarrow> ('v option \<times> ('k, 'v) SharedLRUCache) option" where
  "lru_remove kb key c = do {
     (idx, m) \<leftarrow> hm_remove kb key (lru_map c);
     (case idx of
        None \<Rightarrow> Some (None, c\<lparr>lru_map := m\<rparr>)
      | Some idx \<Rightarrow> do {
          (e, list) \<leftarrow> ll_remove idx (lru_list c);
          Some (map_option snd e, c\<lparr>lru_map := m, lru_list := list\<rparr>) }) }"

definition snapshot_mru_first :: "('k, 'v) SharedLRUCache \<Rightarrow> ('k \<times> 'v) list option" where
  "snapshot_mru_first c = iter_forward (lru_list c)"

definition snapshot_lru_first :: "('k, 'v) SharedLRUCache \<Rightarrow> ('k \<times> 'v) list option" where
  "snapshot_lru_first c = iter_backward (lru_list c)"

section \<open>The ideal cache\<close>

datatype ('k, 'v) LruCall = Put 'k 'v | Lookup 'k | Contains 'k | Touch 'k | LookupTouch 'k | Drop 'k | Evict | Length
  | MruFirst | LruFirst

datatype ('k, 'v) LruReply = PutReply "LRUError + 'v option" | ValueReply "'v option" | BoolReply bool
  | EntryReply "('k \<times> 'v) option" | LengthReply nat | ListReply "('k \<times> 'v) list"

fun lru_call :: "nat \<Rightarrow> ('k \<Rightarrow> bytes) \<Rightarrow> ('k, 'v) LruCall \<Rightarrow> ('k, 'v) SharedLRUCache \<Rightarrow>
    (('k, 'v) LruReply \<times> ('k, 'v) SharedLRUCache) option" where
  "lru_call p kb (Put k v) c = map_option (map_prod PutReply id) (put_inner p kb k v c)"
| "lru_call p kb (Lookup k) c = map_option (\<lambda>r. (ValueReply r, c)) (lru_get kb k c)"
| "lru_call p kb (Contains k) c = map_option (\<lambda>b. (BoolReply b, c)) (lru_contains_key kb k c)"
| "lru_call p kb (Touch k) c = map_option (map_prod BoolReply id) (lru_touch p kb k c)"
| "lru_call p kb (LookupTouch k) c = map_option (map_prod ValueReply id) (get_and_touch p kb k c)"
| "lru_call p kb (Drop k) c = map_option (map_prod ValueReply id) (lru_remove kb k c)"
| "lru_call p kb Evict c = map_option (map_prod EntryReply id) (evict_oldest kb c)"
| "lru_call p kb Length c = Some (LengthReply (lru_len c), c)"
| "lru_call p kb MruFirst c = map_option (\<lambda>es. (ListReply es, c)) (snapshot_mru_first c)"
| "lru_call p kb LruFirst c = map_option (\<lambda>es. (ListReply es, c)) (snapshot_lru_first c)"

text \<open>A list of entries with distinct keys, the most recently used first, at most \<open>cap\<close> of them.\<close>

definition drop_key :: "'k \<Rightarrow> ('k \<times> 'v) list \<Rightarrow> ('k \<times> 'v) list" where
  "drop_key k es = filter (\<lambda>e. fst e \<noteq> k) es"

definition to_front :: "'k \<Rightarrow> ('k \<times> 'v) list \<Rightarrow> ('k \<times> 'v) list" where
  "to_front k es = (case map_of es k of None \<Rightarrow> es | Some v \<Rightarrow> (k, v) # drop_key k es)"

fun lru_spec :: "nat \<Rightarrow> ('k, 'v) LruCall \<Rightarrow> ('k \<times> 'v) list \<Rightarrow> ('k, 'v) LruReply \<times> ('k \<times> 'v) list" where
  "lru_spec cap (Put k v) es = (PutReply (Inr (map_of es k)),
     (k, v) # (if map_of es k \<noteq> None then drop_key k es else if length es < cap then es else butlast es))"
| "lru_spec cap (Lookup k) es = (ValueReply (map_of es k), es)"
| "lru_spec cap (Contains k) es = (BoolReply (map_of es k \<noteq> None), es)"
| "lru_spec cap (Touch k) es = (BoolReply (map_of es k \<noteq> None), to_front k es)"
| "lru_spec cap (LookupTouch k) es = (ValueReply (map_of es k), to_front k es)"
| "lru_spec cap (Drop k) es = (ValueReply (map_of es k), drop_key k es)"
| "lru_spec cap Evict es = (EntryReply (if es = [] then None else Some (last es)), butlast es)"
| "lru_spec cap Length es = (LengthReply (length es), es)"
| "lru_spec cap MruFirst es = (ListReply es, es)"
| "lru_spec cap LruFirst es = (ListReply (rev es), es)"

section \<open>The map and the list in step\<close>

text \<open>The nodes of the list, with their handles; the map leads from each key to the handle of its node.\<close>

type_synonym ('k, 'v) lru_nodes = "(u32 \<times> 'k \<times> 'v) list"

definition handle_of :: "('k, 'v) lru_nodes \<Rightarrow> 'k \<rightharpoonup> u32" where
  "handle_of ns = map_of (map (\<lambda>(h, k, v). (k, h)) ns)"

definition in_step :: "('k \<Rightarrow> bytes) \<Rightarrow> ('k, 'v) SharedLRUCache \<Rightarrow> ('k, 'v) lru_nodes \<Rightarrow> bool" where
  "in_step kb c ns \<longleftrightarrow> hm_wf kb (lru_map c) \<and> hm_abs (lru_map c) = handle_of ns \<and> list_rep (lru_list c) ns \<and>
     distinct (map (fst \<circ> snd) ns) \<and> length ns \<le> unat (lru_capacity c) \<and>
     ll_capacity (lru_list c) = unat (lru_capacity c) + 2 \<and> unat (lru_capacity c) < hm_capacity (lru_map c)"

definition lru_rep :: "('k \<Rightarrow> bytes) \<Rightarrow> u32 \<Rightarrow> ('k, 'v) SharedLRUCache \<Rightarrow> ('k \<times> 'v) list \<Rightarrow> bool" where
  "lru_rep kb cap c es \<longleftrightarrow> lru_capacity c = cap \<and> 1 \<le> cap \<and> (\<exists>ns. in_step kb c ns \<and> es = map snd ns)"

lemma in_stepD:
  assumes "in_step kb c ns"
  shows "hm_wf kb (lru_map c)" "hm_abs (lru_map c) = handle_of ns" "list_rep (lru_list c) ns" "distinct (map (fst \<circ> snd) ns)"
    "length ns \<le> unat (lru_capacity c)" "ll_capacity (lru_list c) = unat (lru_capacity c) + 2"
    "unat (lru_capacity c) < hm_capacity (lru_map c)"
  using assms by (simp_all add: in_step_def)

lemma handle_of_None: "handle_of ns k = None \<longleftrightarrow> map_of (map snd ns) k = None"
  by (induction ns) (auto simp: handle_of_def)

lemma handle_of_split:
  assumes "handle_of ns k = Some h" "distinct (map (fst \<circ> snd) ns)"
  obtains xs v ys where "ns = xs @ (h, k, v) # ys" "map_of (map snd ns) k = Some v" "drop_key k (map snd ns) = map snd (xs @ ys)"
    "handle_of (xs @ ys) = (handle_of ns)(k := None)"
proof -
  have "(k, h) \<in> set (map (\<lambda>(h, k, v). (k, h)) ns)" using map_of_SomeD [of "map (\<lambda>(h, k, v). (k, h)) ns" k h] assms(1) by (simp add: handle_of_def)
  then obtain v where "(h, k, v) \<in> set ns" by auto
  then obtain xs ys where ns: "ns = xs @ (h, k, v) # ys" by (meson split_list)
  have k: "k \<notin> (fst \<circ> snd) ` set xs" "k \<notin> (fst \<circ> snd) ` set ys" using assms(2) by (auto simp: ns)
  have "handle_of (xs @ ys) = (handle_of ns)(k := None)"
  proof
    fix x
    have "map_of (map (\<lambda>(h, k, v). (k, h)) xs) k = None" "map_of (map (\<lambda>(h, k, v). (k, h)) ys) k = None"
      using k by (force simp: map_of_eq_None_iff)+
    then show "handle_of (xs @ ys) x = ((handle_of ns)(k := None)) x" by (auto simp: handle_of_def ns map_add_def split: option.splits)
  qed
  moreover have "map_of (map snd xs) k = None" using k(1) by (auto simp: map_of_eq_None_iff image_image comp_def)
  then have "map_of (map snd ns) k = Some v" by (simp add: ns map_add_def)
  moreover have "filter (\<lambda>e. fst e \<noteq> k) (map snd xs) = map snd xs" "filter (\<lambda>e. fst e \<noteq> k) (map snd ys) = map snd ys"
    using k by (auto simp: filter_id_conv)
  then have "drop_key k (map snd ns) = map snd (xs @ ys)" by (simp add: ns drop_key_def)
  ultimately show thesis using that ns by blast
qed

lemma handle_of_Cons: "handle_of ((h, k, v) # ns) = (handle_of ns)(k \<mapsto> h)"
  by (simp add: handle_of_def)

lemma handles_card: "distinct (map (fst \<circ> snd) ns) \<Longrightarrow> card (dom (handle_of ns)) = length ns"
proof -
  assume d: "distinct (map (fst \<circ> snd) ns)"
  have "dom (handle_of ns) = set (map (fst \<circ> snd) ns)" by (auto simp: handle_of_def dom_map_of_conv_image_fst image_image split_beta comp_def)
  then show ?thesis using distinct_card [OF d] by simp
qed

text \<open>The map is never full: it has more slots than the cache has entries, and tombstones are reused.\<close>

lemma map_put:
  assumes wf: "hm_wf kb m" and room: "card (dom (hm_abs m)) < hm_capacity m"
  obtains r m' where "hm_insert (Suc p) kb k h m = Some (Inr r, m')" "hm_wf kb m'" "hm_capacity m' = hm_capacity m"
    "hm_abs m' = (hm_abs m)(k \<mapsto> h)"
proof -
  from place_refines [OF wf, of "Suc p" k h True] obtain r m' where
    m': "place (Suc p) kb k h True m = Some (r, m')" "reply_of r = fst (spec_place (hm_capacity m) k h True (hm_abs m))"
      "hm_wf kb m'" "hm_capacity m' = hm_capacity m" "hm_abs m' = snd (spec_place (hm_capacity m) k h True (hm_abs m))" by auto
  have spec: "spec_place (hm_capacity m) k h True (hm_abs m) = (Inr (hm_abs m k), (hm_abs m)(k \<mapsto> h))"
    using room by (simp add: spec_place_def split: option.split)
  have "hm_insert (Suc p) kb k h m = Some (Inr (case hm_abs m k of None \<Rightarrow> Inserted | Some _ \<Rightarrow> Updated), m')"
    using m'(1,2) spec by (simp add: insert_place insert_reply_def split: option.split)
  then show thesis by (rule that) (use m'(3-5) spec in simp_all)
qed

text \<open>
  A node pushed in front, and the map led to it. The list \<open>ns\<close> is without the key; the map may still lead to the node
  the key had.
\<close>

lemma put_front_step:
  assumes map: "hm_wf kb (lru_map c)" "(hm_abs (lru_map c))(k := None) = handle_of ns" "card (dom (hm_abs (lru_map c))) < hm_capacity (lru_map c)"
    and list: "list_rep (lru_list c) ns" "ll_capacity (lru_list c) = unat (lru_capacity c) + 2"
    and keys: "distinct (map (fst \<circ> snd) ns)" "map_of (map snd ns) k = None" "length ns < unat (lru_capacity c)"
    and cap: "unat (lru_capacity c) < hm_capacity (lru_map c)"
  obtains h r list m where "push_front (k, v) (lru_list c) = Some (Inr h, list)" "hm_insert (Suc p) kb k h (lru_map c) = Some (Inr r, m)"
    "in_step kb (c\<lparr>lru_map := m, lru_list := list\<rparr>) ((h, k, v) # ns)"
proof -
  obtain h l where l: "push_front (k, v) (lru_list c) = Some (Inr h, l)" "list_rep l ((h, k, v) # ns)" "ll_capacity l = ll_capacity (lru_list c)"
    by (rule push_front_rep [OF list(1), of "(k, v)"]) (use list(2) keys(3) in simp_all)
  obtain r m where m: "hm_insert (Suc p) kb k h (lru_map c) = Some (Inr r, m)" "hm_wf kb m" "hm_capacity m = hm_capacity (lru_map c)"
    "hm_abs m = (hm_abs (lru_map c))(k \<mapsto> h)" by (rule map_put [OF map(1,3)])
  have "hm_abs m = (handle_of ns)(k \<mapsto> h)" using m(4) by (simp flip: map(2))
  moreover have "k \<notin> (fst \<circ> snd) ` set ns" using keys(2) by (simp add: map_of_eq_None_iff image_image comp_def)
  ultimately have "in_step kb (c\<lparr>lru_map := m, lru_list := l\<rparr>) ((h, k, v) # ns)"
    using l m list keys cap by (simp add: in_step_def handle_of_Cons)
  with l(1) m(1) show thesis by (rule that)
qed

lemma unlink_step:
  assumes step: "in_step kb c ns" and h: "handle_of ns k = Some h"
  obtains ms v l where "ll_remove h (lru_list c) = Some (Some (k, v), l)" "list_rep l ms" "ll_capacity l = ll_capacity (lru_list c)"
    "map_of (map snd ns) k = Some v" "drop_key k (map snd ns) = map snd ms" "handle_of ms = (handle_of ns)(k := None)"
    "distinct (map (fst \<circ> snd) ms)" "map_of (map snd ms) k = None" "length ms < unat (lru_capacity c)"
    "ll_get h (lru_list c) = Some (Some (k, v))"
proof -
  obtain xs v ys where ns: "ns = xs @ (h, k, v) # ys" "map_of (map snd ns) k = Some v" "drop_key k (map snd ns) = map snd (xs @ ys)"
    "handle_of (xs @ ys) = (handle_of ns)(k := None)" by (rule handle_of_split [OF h in_stepD(4) [OF step]])
  have "list_rep (lru_list c) (xs @ (h, k, v) # ys)" using in_stepD(3) [OF step] by (simp add: ns(1))
  then obtain l where l: "ll_remove h (lru_list c) = Some (Some (k, v), l)" "list_rep l (xs @ ys)" "ll_capacity l = ll_capacity (lru_list c)"
    by (rule ll_remove_rep)
  have "distinct (map (fst \<circ> snd) (xs @ ys))" "length (xs @ ys) < unat (lru_capacity c)"
    using in_stepD(4,5) [OF step] by (auto simp: ns(1))
  moreover have "map_of (map snd (xs @ ys)) k = None" using ns(4) handle_of_None [of "xs @ ys" k] by simp
  moreover have "ll_get h (lru_list c) = Some (Some (k, v))" using get_rep [OF in_stepD(3) [OF step]] by (simp add: ns(1))
  ultimately show thesis using that l ns(2-4) by blast
qed

lemma lookup_step: "in_step kb c ns \<Longrightarrow> get_inner kb k (lru_map c) = Some (handle_of ns k)"
  by (simp add: get_inner_abs in_stepD)

lemma entries_step:
  assumes "in_step kb c ns"
  shows "card (dom (hm_abs (lru_map c))) \<le> unat (lru_capacity c)" "lru_len c = length ns"
  using in_stepD [OF assms] handles_card [of ns] len_rep [of "lru_list c" ns] by (simp_all add: lru_len_def)

lemma get_step:
  assumes "in_step kb c ns"
  shows "lru_get kb k c = Some (map_of (map snd ns) k)" "lru_contains_key kb k c = Some (map_of (map snd ns) k \<noteq> None)"
proof -
  show "lru_get kb k c = Some (map_of (map snd ns) k)"
  proof (cases "handle_of ns k")
    case None
    then show ?thesis using lookup_step [OF assms] handle_of_None [of ns k] by (simp add: lru_get_def)
  next
    case (Some h)
    show ?thesis by (rule unlink_step [OF assms Some]) (simp add: lru_get_def lookup_step [OF assms] Some)
  qed
  show "lru_contains_key kb k c = Some (map_of (map snd ns) k \<noteq> None)"
    using lookup_step [OF assms] handle_of_None [of ns k] by (auto simp: lru_contains_key_def contains_key_def)
qed

lemma evict_step:
  assumes step: "in_step kb c ns"
  shows "ns = [] \<Longrightarrow> evict_oldest kb c = Some (None, c)"
    "ns = ms @ [(h, k, v)] \<Longrightarrow> \<exists>c'. evict_oldest kb c = Some (Some (k, v), c') \<and> in_step kb c' ms \<and> lru_capacity c' = lru_capacity c"
proof -
  show "ns = [] \<Longrightarrow> evict_oldest kb c = Some (None, c)" using pop_rep(1) [OF in_stepD(3) [OF step]] by (simp add: evict_oldest_def)
  assume ns: "ns = ms @ [(h, k, v)]"
  obtain l where l: "pop_back (lru_list c) = Some (Some (k, v), l)" "list_rep l ms" "ll_capacity l = ll_capacity (lru_list c)"
    using pop_rep(3) [OF in_stepD(3) [OF step] ns] by blast
  obtain m where m: "hm_remove kb k (lru_map c) = Some (hm_abs (lru_map c) k, m)" "hm_wf kb m" "hm_capacity m = hm_capacity (lru_map c)"
    "hm_abs m = (hm_abs (lru_map c))(k := None)" using remove_correct [OF in_stepD(1) [OF step], of k] by blast
  have "k \<notin> (fst \<circ> snd) ` set ms" using in_stepD(4) [OF step] by (auto simp: ns)
  then have "handle_of ms k = None" using handle_of_None [of ms k] by (simp add: map_of_eq_None_iff image_image comp_def)
  then have "handle_of ms = (handle_of ns)(k := None)" by (auto simp: ns handle_of_def map_add_def split: option.splits)
  then have "in_step kb (c\<lparr>lru_map := m, lru_list := l\<rparr>) ms"
    using l m in_stepD [OF step] by (simp add: in_step_def ns)
  then show "\<exists>c'. evict_oldest kb c = Some (Some (k, v), c') \<and> in_step kb c' ms \<and> lru_capacity c' = lru_capacity c"
    using l(1) m(1) by (simp add: evict_oldest_def)
qed

lemma remove_step:
  assumes step: "in_step kb c ns"
  shows "\<exists>c' ms. lru_remove kb k c = Some (map_of (map snd ns) k, c') \<and> in_step kb c' ms \<and> map snd ms = drop_key k (map snd ns) \<and>
    lru_capacity c' = lru_capacity c"
proof -
  obtain m where m: "hm_remove kb k (lru_map c) = Some (handle_of ns k, m)" "hm_wf kb m" "hm_capacity m = hm_capacity (lru_map c)"
    "hm_abs m = (handle_of ns)(k := None)" using remove_correct [OF in_stepD(1) [OF step], of k] in_stepD(2) [OF step] by auto
  show ?thesis
  proof (cases "handle_of ns k")
    case None
    then have "map_of (map snd ns) k = None" "(handle_of ns)(k := None) = handle_of ns" using handle_of_None [of ns k] by auto
    moreover from this(1) have "drop_key k (map snd ns) = map snd ns" by (auto simp: drop_key_def filter_id_conv map_of_eq_None_iff)
    moreover have "in_step kb (c\<lparr>lru_map := m\<rparr>) ns" using in_stepD [OF step] m(2-4) calculation(2) by (simp add: in_step_def)
    ultimately show ?thesis using m(1) None by (auto simp: lru_remove_def)
  next
    case (Some h)
    show ?thesis
    proof (rule unlink_step [OF step Some])
      fix ms v l
      assume u: "ll_remove h (lru_list c) = Some (Some (k, v), l)" "list_rep l ms" "ll_capacity l = ll_capacity (lru_list c)"
        "map_of (map snd ns) k = Some v" "drop_key k (map snd ns) = map snd ms" "handle_of ms = (handle_of ns)(k := None)"
        "distinct (map (fst \<circ> snd) ms)" "length ms < unat (lru_capacity c)"
      then have "in_step kb (c\<lparr>lru_map := m, lru_list := l\<rparr>) ms" using in_stepD [OF step] m(2-4) by (simp add: in_step_def)
      then show ?thesis using m(1) u by (auto simp: lru_remove_def Some)
    qed
  qed
qed

text \<open>A key that is present: its node is unlinked, and a node with the new value goes in front.\<close>

lemma replace_step:
  assumes step: "in_step kb c ns" and h: "handle_of ns k = Some h"
  obtains v l h' r l' m ms where "ll_remove h (lru_list c) = Some (Some (k, v), l)" "map_of (map snd ns) k = Some v"
    "push_front (k, case w of None \<Rightarrow> v | Some w \<Rightarrow> w) l = Some (Inr h', l')" "hm_insert (Suc p) kb k h' (lru_map c) = Some (Inr r, m)"
    "in_step kb (c\<lparr>lru_map := m, lru_list := l'\<rparr>) ((h', k, case w of None \<Rightarrow> v | Some w \<Rightarrow> w) # ms)" "map snd ms = drop_key k (map snd ns)"
proof (rule unlink_step [OF step h])
  fix ms v l
  assume u: "ll_remove h (lru_list c) = Some (Some (k, v), l)" "list_rep l ms" "ll_capacity l = ll_capacity (lru_list c)"
    "map_of (map snd ns) k = Some v" "drop_key k (map snd ns) = map snd ms" "handle_of ms = (handle_of ns)(k := None)"
    "distinct (map (fst \<circ> snd) ms)" "map_of (map snd ms) k = None" "length ms < unat (lru_capacity c)"
  let ?c = "c\<lparr>lru_list := l\<rparr>"
  have "hm_wf kb (lru_map ?c)" "(hm_abs (lru_map ?c))(k := None) = handle_of ms" "card (dom (hm_abs (lru_map ?c))) < hm_capacity (lru_map ?c)"
    "list_rep (lru_list ?c) ms" "ll_capacity (lru_list ?c) = unat (lru_capacity ?c) + 2" "distinct (map (fst \<circ> snd) ms)"
    "map_of (map snd ms) k = None" "length ms < unat (lru_capacity ?c)" "unat (lru_capacity ?c) < hm_capacity (lru_map ?c)"
    using u in_stepD [OF step] entries_step(1) [OF step] by simp_all
  then obtain h' r l' m where "push_front (k, case w of None \<Rightarrow> v | Some w \<Rightarrow> w) (lru_list ?c) = Some (Inr h', l')"
      "hm_insert (Suc p) kb k h' (lru_map ?c) = Some (Inr r, m)"
      "in_step kb (?c\<lparr>lru_map := m, lru_list := l'\<rparr>) ((h', k, case w of None \<Rightarrow> v | Some w \<Rightarrow> w) # ms)"
    by (rule put_front_step)
  then show thesis using that [OF u(1,4)] u(5) by simp
qed

lemma touch_step:
  assumes step: "in_step kb c ns"
  shows "\<exists>c' ms. lru_touch (Suc p) kb k c = Some (map_of (map snd ns) k \<noteq> None, c') \<and> in_step kb c' ms \<and> map snd ms = to_front k (map snd ns) \<and>
    lru_capacity c' = lru_capacity c"
proof (cases "handle_of ns k")
  case None
  then have "lru_touch (Suc p) kb k c = Some (False, c)" "map_of (map snd ns) k = None"
    using lookup_step [OF step] handle_of_None [of ns k] by (simp_all add: lru_touch_def touch_status_def)
  then show ?thesis using step by (auto simp: to_front_def)
next
  case (Some h)
  obtain v l h' r l' m ms where u: "ll_remove h (lru_list c) = Some (Some (k, v), l)" "map_of (map snd ns) k = Some v"
    "push_front (k, v) l = Some (Inr h', l')" "hm_insert (Suc p) kb k h' (lru_map c) = Some (Inr r, m)"
    "in_step kb (c\<lparr>lru_map := m, lru_list := l'\<rparr>) ((h', k, v) # ms)" "map snd ms = drop_key k (map snd ns)"
    by (rule replace_step [OF step Some, of None p]) auto
  have "lru_touch (Suc p) kb k c = Some (True, c\<lparr>lru_map := m, lru_list := l'\<rparr>)"
    using u(1,3,4) by (simp add: lru_touch_def touch_status_def lookup_step [OF step] Some)
  then show ?thesis using u(2,5,6) by (intro exI [of _ "(h', k, v) # ms"] exI) (auto simp: to_front_def)
qed

lemma put_new_step:
  assumes step: "in_step kb c ns" and new: "map_of (map snd ns) k = None" and room: "length ns < unat (lru_capacity c)"
  shows "\<exists>c' h. put_front (Suc p) kb k v None c = Some (Inr None, c') \<and> in_step kb c' ((h, k, v) # ns) \<and> lru_capacity c' = lru_capacity c"
proof -
  have "(handle_of ns)(k := None) = handle_of ns" using handle_of_None [of ns k] new by auto
  then have "hm_wf kb (lru_map c)" "(hm_abs (lru_map c))(k := None) = handle_of ns" "card (dom (hm_abs (lru_map c))) < hm_capacity (lru_map c)"
    "list_rep (lru_list c) ns" "ll_capacity (lru_list c) = unat (lru_capacity c) + 2" "distinct (map (fst \<circ> snd) ns)"
    "map_of (map snd ns) k = None" "length ns < unat (lru_capacity c)" "unat (lru_capacity c) < hm_capacity (lru_map c)"
    using in_stepD [OF step] entries_step(1) [OF step] new room by simp_all
  then obtain h r l m where "push_front (k, v) (lru_list c) = Some (Inr h, l)" "hm_insert (Suc p) kb k h (lru_map c) = Some (Inr r, m)"
    "in_step kb (c\<lparr>lru_map := m, lru_list := l\<rparr>) ((h, k, v) # ns)" by (rule put_front_step)
  then show ?thesis by (auto simp: put_front_def)
qed

lemma put_step:
  assumes step: "in_step kb c ns" and cap: "1 \<le> unat (lru_capacity c)"
  shows "\<exists>c' ms. put_inner (Suc p) kb k v c = Some (Inr (map_of (map snd ns) k), c') \<and> in_step kb c' ms \<and>
    map snd ms = snd (lru_spec (unat (lru_capacity c)) (Put k v) (map snd ns)) \<and> lru_capacity c' = lru_capacity c"
proof (cases "handle_of ns k")
  case (Some h)
  obtain w l h' r l' m ms where u: "ll_remove h (lru_list c) = Some (Some (k, w), l)" "map_of (map snd ns) k = Some w"
    "push_front (k, v) l = Some (Inr h', l')" "hm_insert (Suc p) kb k h' (lru_map c) = Some (Inr r, m)"
    "in_step kb (c\<lparr>lru_map := m, lru_list := l'\<rparr>) ((h', k, v) # ms)" "map snd ms = drop_key k (map snd ns)"
    by (rule replace_step [OF step Some, of "Some v" p]) auto
  have "put_inner (Suc p) kb k v c = Some (Inr (Some w), c\<lparr>lru_map := m, lru_list := l'\<rparr>)"
    using u(1,3,4) by (simp add: put_inner_def put_front_def lookup_step [OF step] Some)
  then show ?thesis using u(2,5,6) by (intro exI [of _ "(h', k, v) # ms"] exI) auto
next
  case None
  then have new: "map_of (map snd ns) k = None" using handle_of_None [of ns k] by simp
  note go = put_inner_def lookup_step [OF step] None entries_step(2) [OF step]
  show ?thesis
  proof (cases "length ns < unat (lru_capacity c)")
    case True
    from put_new_step [OF step new True, of p v] obtain c' h where "put_front (Suc p) kb k v None c = Some (Inr None, c')"
      "in_step kb c' ((h, k, v) # ns)" "lru_capacity c' = lru_capacity c" by blast
    then show ?thesis using True new by (intro exI [of _ c'] exI [of _ "(h, k, v) # ns"]) (simp add: go)
  next
    case False
    then obtain ms h' k' v' where ns: "ns = ms @ [(h', k', v')]" using cap by (cases ns rule: rev_cases) auto
    from evict_step(2) [OF step ns] obtain c' where c': "evict_oldest kb c = Some (Some (k', v'), c')" "in_step kb c' ms"
      "lru_capacity c' = lru_capacity c" by blast
    have "map_of (map snd ms) k = None" "length ms < unat (lru_capacity c')"
      using new in_stepD(5) [OF step] c'(3) by (auto simp: ns map_add_def split: option.splits if_splits)
    from put_new_step [OF c'(2) this, of p v] obtain d h where "put_front (Suc p) kb k v None c' = Some (Inr None, d)"
      "in_step kb d ((h, k, v) # ms)" "lru_capacity d = lru_capacity c'" by blast
    moreover have "butlast (map snd ns) = map snd ms" by (simp add: ns)
    ultimately show ?thesis using False new c'(1,3) by (intro exI [of _ d] exI [of _ "(h, k, v) # ms"]) (simp add: go)
  qed
qed

section \<open>The cache is the ideal cache\<close>

lemma lru_call_answers:
  assumes rep: "lru_rep kb cap c es"
  shows "\<exists>c'. lru_call (Suc p) kb call c = Some (fst (lru_spec (unat cap) call es), c') \<and> lru_rep kb cap c' (snd (lru_spec (unat cap) call es))"
proof -
  obtain ns where ns: "in_step kb c ns" "es = map snd ns" and cap: "lru_capacity c = cap" "1 \<le> cap" using rep by (auto simp: lru_rep_def)
  have one: "1 \<le> unat (lru_capacity c)" using cap by (simp add: word_le_nat_alt)
  show ?thesis
  proof (cases call)
    case (Put k v)
    then show ?thesis using put_step [OF ns(1) one, of p k v] cap ns(2) by (fastforce simp: lru_rep_def)
  next
    case (Touch k)
    then show ?thesis using touch_step [OF ns(1), of p k] cap ns(2) by (fastforce simp: lru_rep_def)
  next
    case (LookupTouch k)
    obtain c' ms where t: "lru_touch (Suc p) kb k c = Some (map_of es k \<noteq> None, c')" "in_step kb c' ms" "map snd ms = to_front k es"
      "lru_capacity c' = lru_capacity c" using touch_step [OF ns(1), of p k] by (auto simp: ns(2))
    show ?thesis
      using t rep cap get_step(1) [OF ns(1), of k]
      by (cases "map_of es k") (auto simp: LookupTouch get_and_touch_def lru_rep_def ns(2) to_front_def intro!: exI [of _ ms])
  next
    case (Drop k)
    then show ?thesis using remove_step [OF ns(1), of k] cap ns(2) by (fastforce simp: lru_rep_def)
  next
    case Evict
    show ?thesis
    proof (cases ns rule: rev_cases)
      case Nil
      then show ?thesis using evict_step(1) [OF ns(1)] rep by (simp add: Evict ns(2))
    next
      case (snoc ms n)
      obtain h k v where n: "n = (h, k, v)" by (cases n) auto
      then show ?thesis using evict_step(2) [OF ns(1) snoc [unfolded n]] cap by (auto simp: Evict ns(2) snoc lru_rep_def butlast_append)
    qed
  qed (use rep ns in_stepD(3) [OF ns(1)] in \<open>simp_all add: get_step [OF ns(1)] entries_step(2) [OF ns(1)] snapshot_mru_first_def
    snapshot_lru_first_def iter_rep\<close>)
qed

interpretation lru: exact_refinement "lru_rep kb cap" "lru_call (Suc p) kb" "lru_spec (unat cap)" for kb :: "'k \<Rightarrow> bytes" and cap p
  by unfold_locales (rule lru_call_answers)

lemma created_lru:
  assumes "lru_create None None None None zero zero_node dflt key_size node_size alignment capacity = Some (Inr c)" "unat capacity + 2 < 2 ^ 31"
  shows "lru_rep kb capacity c []"
proof -
  from assms(1) obtain m l where cap: "1 \<le> capacity" and m: "hm_create None None zero key_size 4 (max (unat capacity * 8) 32) = Some (Inr m)"
    and l: "ll_create None None zero_node dflt node_size alignment (unat capacity + 2) = Some (Inr l)"
    and c: "c = \<lparr>lru_map = m, lru_list = l, lru_capacity = capacity\<rparr>"
    by (auto simp: lru_create_def split: if_splits sum.splits Option.bind_splits)
  have "max (unat capacity * 8) 32 < 2 ^ 64" using assms(2) by simp
  note made = created_wf(1) [OF m this, of kb] created_wf(2,3) [OF m this] created_list [OF l assms(2)]
  have "in_step kb c []" using made cap by (auto simp: in_step_def c handle_of_def word_le_nat_alt)
  then show ?thesis using cap by (simp add: lru_rep_def c)
qed

lemma lru_runs:
  assumes "lru_create None None None None zero zero_node dflt key_size node_size alignment capacity = Some (Inr c)" "unat capacity + 2 < 2 ^ 31"
  obtains c' where "run_all (lru_call (Suc p) kb) calls c = Some (fst (answers (lru_spec (unat capacity)) calls []), c')"
    "snapshot_mru_first c' = Some (snd (answers (lru_spec (unat capacity)) calls []))" "lru_len c' \<le> unat capacity"
proof -
  from lru.run_answers [OF created_lru [OF assms]] obtain c' where
    c': "run_all (lru_call (Suc p) kb) calls c = Some (fst (answers (lru_spec (unat capacity)) calls []), c')"
      "lru_rep kb capacity c' (snd (answers (lru_spec (unat capacity)) calls []))" by blast
  from c'(2) obtain ns where ns: "in_step kb c' ns" "snd (answers (lru_spec (unat capacity)) calls []) = map snd ns" "lru_capacity c' = capacity"
    by (auto simp: lru_rep_def)
  then have "lru_len c' \<le> unat capacity" using entries_step(2) in_stepD(5) by fastforce
  then show ?thesis using that c'(1) ns in_stepD(3) [OF ns(1)] by (simp add: snapshot_mru_first_def iter_rep)
qed

text \<open>
  The module text expects \<open>put\<close> to be refused with \<open>Map(Full)\<close> once about seven times the capacity of entries have been
  evicted, when tombstones fill the map. The map reuses its tombstones, and no put is ever refused.
\<close>

lemma spec_accepts: "PutReply (Inl e) \<notin> set (fst (answers (lru_spec cap) calls es))"
proof (induction calls arbitrary: es)
  case (Cons call calls)
  then show ?case by (cases call) (auto simp: Let_def split: prod.splits, (metis fst_conv)+)
qed simp

lemma put_never_refused:
  assumes "lru_create None None None None zero zero_node dflt key_size node_size alignment capacity = Some (Inr c)" "unat capacity + 2 < 2 ^ 31"
    and "run_all (lru_call (Suc p) kb) calls c = Some (rs, c')"
  shows "PutReply (Inl e) \<notin> set rs"
  using lru_runs [OF assms(1,2), of p kb calls] assms(3) spec_accepts by (metis fst_conv option.inject)

fun is_put :: "('k, 'v) LruCall \<Rightarrow> bool" where
  "is_put (Put k v) \<longleftrightarrow> True"
| "is_put _ \<longleftrightarrow> False"

text \<open>
  C15. The cache is an ideal least-recently-used cache: on a fresh cache of any capacity below \<open>2 ^ 31 - 2\<close>, every
  sequence of put, get, contains, touch, get-and-touch, remove, evict, length and snapshot calls runs to its end and never
  holds more entries than the capacity. With up to seven times the capacity of puts, and in a longer sequence as long as
  no put is refused with \<open>Map(Full)\<close>, it returns, reply by reply, what a list of entries replies, the most
  recently used first, and is left with that list: a put of a new key into a full cache drops exactly the last entry.
\<close>

theorem lru_refines_list:
  assumes "lru_create None None None None zero zero_node dflt key_size node_size alignment capacity = Some (Inr c)" "unat capacity + 2 < 2 ^ 31"
  shows "\<exists>rs c'. run_all (lru_call (Suc p) kb) calls c = Some (rs, c') \<and> lru_len c' \<le> unat capacity \<and>
    (length (filter is_put calls) \<le> 7 * unat capacity \<or> PutReply (Inl (LruMap MapFull)) \<notin> set rs \<longrightarrow>
      rs = fst (answers (lru_spec (unat capacity)) calls []) \<and>
      snapshot_mru_first c' = Some (snd (answers (lru_spec (unat capacity)) calls [])))"
  using lru_runs [OF assms] by metis

definition lru_sample :: "(u8, nat) LruCall list" where
  "lru_sample = [Put 1 10, Put 2 20, Touch 1, Put 3 30, Lookup 2, Put 1 11, Evict, MruFirst]"

definition lru_sample_replies :: "(u8, nat) LruReply list" where
  "lru_sample_replies = [PutReply (Inr None), PutReply (Inr None), BoolReply True, PutReply (Inr None), ValueReply None,
     PutReply (Inr (Some 10)), EntryReply (Some (3, 30)), ListReply [(1, 11)]]"

lemma lru_sample_answers: "fst (answers (lru_spec 2) lru_sample []) = lru_sample_replies"
  by code_simp

theorem lru_refines_list_witness:
  "\<exists>c c'. lru_create None None None None (0, 0) \<lparr>nd_value = (0, 0), nd_next = 0, nd_prev = 0\<rparr> (0, 0) 1 16 8 2 = Some (Inr c) \<and>
    run_all (lru_call 1 (\<lambda>b. [b])) lru_sample c = Some (lru_sample_replies, c') \<and> lru_len c' \<le> 2"
proof -
  obtain c :: "(u8, nat) SharedLRUCache" where c:
    "lru_create None None None None (0, 0) \<lparr>nd_value = (0, 0), nd_next = 0, nd_prev = 0\<rparr> (0, 0) 1 16 8 2 = Some (Inr c)"
    by (auto simp: lru_create_def hm_create_def check_layout_def MAP_PAYLOAD_BYTES_def from_region_def init_region_def ll_create_def
        rg_create_def rg_init_region_def rg_from_region_def rg_allocate_def nil_index slots_offset_for_def REGION_HEADER_BYTES_def HEAD_INDEX_def rg_updates)
  have "unat (2 :: u32) + 2 < 2 ^ 31" by simp
  moreover have "length (filter is_put lru_sample) = 4" by (simp add: lru_sample_def)
  ultimately obtain c' where
    "run_all (lru_call 1 (\<lambda>b. [b])) lru_sample c = Some (lru_sample_replies, c')" "lru_len c' \<le> 2"
    using lru_refines_list [OF c, of 0 "\<lambda>b. [b]" lru_sample] by (auto simp: lru_sample_answers)
  with c show ?thesis by blast
qed

end
