(* ===== verification/Shared_Deque.thy ===== *)
theory Shared_Deque
  imports SubEtha_Prelude
begin

text \<open>
  The work-stealing deque of \<^verbatim>\<open>shared_deque.rs\<close>: its owner pushes and pops at the bottom, any number of thieves steal from
  the top. The callers are interleaved at single loads, stores and compare-and-swaps of the two indices and at single
  bytes of the slots, which an owner may overwrite while a thief still reads.
\<close>

section \<open>The deque\<close>

definition DEQUE_MAGIC :: u64 where "DEQUE_MAGIC = 0x5744455100000001"
definition DEQUE_HEADER_BYTES :: nat where "DEQUE_HEADER_BYTES = 64"

datatype DequeError = DequeIo | InvalidCapacity | InvalidMagic | CapacityMismatch u64 u64 | SlotBytesMismatch u32 u32 | DequeFull
  | DequeMarshal

text \<open>An \<open>i64\<close>, with its wrap-around.\<close>

definition i64 :: "int \<Rightarrow> int" where
  "i64 x = (x + 2 ^ 63) mod 2 ^ 64 - 2 ^ 63"

definition slot_bytes_for :: "nat \<Rightarrow> nat" where
  "slot_bytes_for payload = (let rounded = (payload + 7) div 8 * 8 in if rounded < 8 then 8 else rounded)"

definition deque_file_size :: "nat \<Rightarrow> nat \<Rightarrow> nat" where
  "deque_file_size payload capacity = DEQUE_HEADER_BYTES + capacity * slot_bytes_for payload"

record DequeHeader =
  dh_magic :: u64
  dh_capacity :: u64
  dh_slot_bytes :: u32
  dh_alignment :: u32
  dh_top :: int
  dh_bottom :: int

definition dq_create :: "bool \<Rightarrow> nat \<Rightarrow> nat \<Rightarrow> nat \<Rightarrow> DequeError + DequeHeader" where
  "dq_create io_error payload alignment capacity =
     (if capacity = 0 \<or> \<not> is_power_of_two capacity then Inl InvalidCapacity
      else if io_error then Inl DequeIo
      else Inr \<lparr>dh_magic = DEQUE_MAGIC, dh_capacity = of_nat capacity, dh_slot_bytes = of_nat (slot_bytes_for payload),
        dh_alignment = of_nat alignment, dh_top = 0, dh_bottom = 0\<rparr>)"

text \<open>\<open>open_as_thief\<close> returns the capacity and the slot width it takes from the header.\<close>

definition open_as_thief :: "bool \<Rightarrow> DequeHeader \<Rightarrow> nat \<Rightarrow> DequeError + nat \<times> nat" where
  "open_as_thief io_error hdr payload =
     (if io_error then Inl DequeIo
      else if dh_magic hdr \<noteq> DEQUE_MAGIC then Inl InvalidMagic
      else if dh_slot_bytes hdr \<noteq> of_nat (slot_bytes_for payload)
      then Inl (SlotBytesMismatch (dh_slot_bytes hdr) (of_nat (slot_bytes_for payload)))
      else Inr (unat (dh_capacity hdr), unat (dh_slot_bytes hdr)))"

lemma opened_deque:
  assumes "dq_create False payload alignment capacity = Inr hdr" "capacity < 2 ^ 64" "slot_bytes_for payload < 2 ^ 32"
  shows "open_as_thief False hdr payload = Inr (capacity, slot_bytes_for payload)"
  using assms by (auto simp: dq_create_def open_as_thief_def unat_of_nat_small split: if_splits)

definition dq_idx :: "nat \<Rightarrow> int \<Rightarrow> nat" where
  "dq_idx capacity b = nat (b mod 2 ^ 64) AND (capacity - 1)"

section \<open>The callers\<close>

text \<open>
  Where a caller stands, at the access it makes next. A push is of one value or of a batch; the flag tells which of
  the two checks for room it makes. \<open>Push_Write vs b p\<close> is at byte \<open>p\<close> of the values.
\<close>

datatype 'a dq_pc =
    Dq_Idle
  | Push_Bottom bool "'a list" | Push_Top bool "'a list" int | Push_Write "'a list" int nat | Push_Done "'a list" "DequeError + unit"
  | Pop_Bottom | Pop_Store int | Pop_Top int | Pop_Restore int | Pop_Read int int bytes | Pop_Cas int int 'a
  | Pop_Fix int "'a option" | Pop_Done "'a option"
  | Steal_Top | Steal_Bottom int | Steal_Read int bytes | Steal_Cas int 'a | Steal_Done "'a option"

datatype 'a dq_event = PushedAll "'a list" | RefusedAll "'a list" | Took "'a option" | Stolen "'a option"

text \<open>
  The region and its callers; the owner is \<open>None\<close>. The ghosts are the value pushed last at each index, how often the
  top has moved, the calls begun, and the log of the calls in the order in which they took effect.
\<close>

record 'a dq_sys =
  dq_top :: int
  dq_bottom :: int
  dq_slots :: "nat \<Rightarrow> nat \<Rightarrow> u8"
  dq_pc :: "nat option \<Rightarrow> 'a dq_pc"
  dq_items :: "int \<Rightarrow> 'a"
  dq_moves :: nat
  dq_calls :: "nat option \<Rightarrow> nat"
  dq_log :: "(nat option \<times> 'a dq_event) list"

definition dq_init :: "(int \<Rightarrow> 'a) \<Rightarrow> 'a dq_sys" where
  "dq_init ghost = \<lparr>dq_top = 0, dq_bottom = 0, dq_slots = (\<lambda>_ _. 0), dq_pc = (\<lambda>_. Dq_Idle), dq_items = ghost, dq_moves = 0,
     dq_calls = (\<lambda>_. 0), dq_log = []\<rparr>"

definition dq_goto :: "nat option \<Rightarrow> 'a dq_pc \<Rightarrow> 'a dq_sys \<Rightarrow> 'a dq_sys" where
  "dq_goto w pc s = s\<lparr>dq_pc := (dq_pc s)(w := pc)\<rparr>"

definition dq_begin :: "nat option \<Rightarrow> 'a dq_pc \<Rightarrow> 'a dq_sys \<Rightarrow> 'a dq_sys" where
  "dq_begin w pc s = dq_goto w pc (s\<lparr>dq_calls := (dq_calls s)(w := Suc (dq_calls s w))\<rparr>)"

definition dq_took :: "nat option \<Rightarrow> 'a dq_event \<Rightarrow> 'a dq_sys \<Rightarrow> 'a dq_sys" where
  "dq_took w e s = s\<lparr>dq_log := dq_log s @ [(w, e)]\<rparr>"

definition dq_advance :: "int \<Rightarrow> 'a dq_sys \<Rightarrow> 'a dq_sys" where
  "dq_advance t s = s\<lparr>dq_top := i64 (t + 1), dq_moves := Suc (dq_moves s)\<rparr>"

definition dq_poke :: "nat \<Rightarrow> nat \<Rightarrow> u8 \<Rightarrow> 'a dq_sys \<Rightarrow> 'a dq_sys" where
  "dq_poke idx k x s = s\<lparr>dq_slots := (dq_slots s)(idx := (dq_slots s idx)(k := x))\<rparr>"

definition dq_publish :: "'a list \<Rightarrow> int \<Rightarrow> 'a dq_sys \<Rightarrow> 'a dq_sys" where
  "dq_publish vs b s = s\<lparr>dq_bottom := i64 (b + int (length vs)),
     dq_items := (\<lambda>i. if b \<le> i \<and> i < b + int (length vs) then vs ! nat (i - b) else dq_items s i)\<rparr>"

definition no_room :: "nat \<Rightarrow> bool \<Rightarrow> 'a list \<Rightarrow> int \<Rightarrow> int \<Rightarrow> bool" where
  "no_room capacity one vs b t \<longleftrightarrow> (if one then b - t \<ge> int capacity else (b - t) + int (length vs) > int capacity)"

fun dq_resting :: "'a dq_pc \<Rightarrow> bool" where
  "dq_resting Dq_Idle = True"
| "dq_resting (Push_Done vs r) = True"
| "dq_resting (Pop_Done r) = True"
| "dq_resting (Steal_Done r) = True"
| "dq_resting _ = False"

text \<open>
  The parameters are the capacity, the width of a marshaled value, and the type's \<open>marshal\<close> and \<open>unmarshal\<close>.
\<close>

inductive dq_step ::
  "nat \<Rightarrow> nat \<Rightarrow> ('a \<Rightarrow> bytes) \<Rightarrow> (bytes \<Rightarrow> 'a option) \<Rightarrow> nat option \<Rightarrow> 'a dq_sys \<Rightarrow> 'a dq_sys \<Rightarrow> bool"
  for capacity width marshal unmarshal where
  push_call: "dq_resting (dq_pc s None) \<Longrightarrow>
    dq_step capacity width marshal unmarshal None s (dq_begin None (Push_Bottom True [v]) s)"
| batch_call: "dq_resting (dq_pc s None) \<Longrightarrow> vs \<noteq> [] \<Longrightarrow>
    dq_step capacity width marshal unmarshal None s (dq_begin None (Push_Bottom False vs) s)"
| batch_empty: "dq_resting (dq_pc s None) \<Longrightarrow>
    dq_step capacity width marshal unmarshal None s (dq_took None (PushedAll []) (dq_begin None (Push_Done [] (Inr ())) s))"
| push_bottom: "dq_pc s None = Push_Bottom one vs \<Longrightarrow>
    dq_step capacity width marshal unmarshal None s (dq_goto None (Push_Top one vs (dq_bottom s)) s)"
| push_full: "dq_pc s None = Push_Top one vs b \<Longrightarrow> no_room capacity one vs b (dq_top s) \<Longrightarrow>
    dq_step capacity width marshal unmarshal None s (dq_took None (RefusedAll vs) (dq_goto None (Push_Done vs (Inl DequeFull)) s))"
| push_top: "dq_pc s None = Push_Top one vs b \<Longrightarrow> \<not> no_room capacity one vs b (dq_top s) \<Longrightarrow>
    dq_step capacity width marshal unmarshal None s (dq_goto None (Push_Write vs b 0) s)"
| push_byte: "dq_pc s None = Push_Write vs b p \<Longrightarrow> p < length vs * width \<Longrightarrow>
    dq_step capacity width marshal unmarshal None s (dq_goto None (Push_Write vs b (Suc p))
      (dq_poke (dq_idx capacity (i64 (b + int (p div width)))) (p mod width) (marshal (vs ! (p div width)) ! (p mod width)) s))"
| push_publish: "dq_pc s None = Push_Write vs b p \<Longrightarrow> \<not> p < length vs * width \<Longrightarrow>
    dq_step capacity width marshal unmarshal None s
      (dq_took None (PushedAll vs) (dq_goto None (Push_Done vs (Inr ())) (dq_publish vs b s)))"
| pop_call: "dq_resting (dq_pc s None) \<Longrightarrow> dq_step capacity width marshal unmarshal None s (dq_begin None Pop_Bottom s)"
| pop_bottom: "dq_pc s None = Pop_Bottom \<Longrightarrow>
    dq_step capacity width marshal unmarshal None s (dq_goto None (Pop_Store (i64 (dq_bottom s - 1))) s)"
| pop_store: "dq_pc s None = Pop_Store b \<Longrightarrow>
    dq_step capacity width marshal unmarshal None s (dq_goto None (Pop_Top b) (s\<lparr>dq_bottom := b\<rparr>))"
| pop_empty: "dq_pc s None = Pop_Top b \<Longrightarrow> b < dq_top s \<Longrightarrow>
    dq_step capacity width marshal unmarshal None s (dq_took None (Took None) (dq_goto None (Pop_Restore b) s))"
| pop_restore: "dq_pc s None = Pop_Restore b \<Longrightarrow>
    dq_step capacity width marshal unmarshal None s (dq_goto None (Pop_Done None) (s\<lparr>dq_bottom := i64 (b + 1)\<rparr>))"
| pop_clear: "dq_pc s None = Pop_Top b \<Longrightarrow> b > dq_top s \<Longrightarrow>
    dq_step capacity width marshal unmarshal None s (dq_took None (Took (Some (dq_items s b))) (dq_goto None (Pop_Read b (dq_top s) []) s))"
| pop_last: "dq_pc s None = Pop_Top b \<Longrightarrow> b = dq_top s \<Longrightarrow>
    dq_step capacity width marshal unmarshal None s (dq_goto None (Pop_Read b (dq_top s) []) s)"
| pop_byte: "dq_pc s None = Pop_Read b t bs \<Longrightarrow> length bs < width \<Longrightarrow>
    dq_step capacity width marshal unmarshal None s (dq_goto None (Pop_Read b t (bs @ [dq_slots s (dq_idx capacity b) (length bs)])) s)"
| pop_garbled: "dq_pc s None = Pop_Read b t bs \<Longrightarrow> \<not> length bs < width \<Longrightarrow> unmarshal bs = None \<Longrightarrow>
    dq_step capacity width marshal unmarshal None s (dq_goto None (Pop_Done None) s)"
| pop_return: "dq_pc s None = Pop_Read b t bs \<Longrightarrow> \<not> length bs < width \<Longrightarrow> unmarshal bs = Some v \<Longrightarrow> b > t \<Longrightarrow>
    dq_step capacity width marshal unmarshal None s (dq_goto None (Pop_Done (Some v)) s)"
| pop_race: "dq_pc s None = Pop_Read b t bs \<Longrightarrow> \<not> length bs < width \<Longrightarrow> unmarshal bs = Some v \<Longrightarrow> \<not> b > t \<Longrightarrow>
    dq_step capacity width marshal unmarshal None s (dq_goto None (Pop_Cas b t v) s)"
| pop_won: "dq_pc s None = Pop_Cas b t v \<Longrightarrow> dq_top s = t \<Longrightarrow>
    dq_step capacity width marshal unmarshal None s (dq_took None (Took (Some v)) (dq_goto None (Pop_Fix b (Some v)) (dq_advance t s)))"
| pop_lost: "dq_pc s None = Pop_Cas b t v \<Longrightarrow> dq_top s \<noteq> t \<Longrightarrow>
    dq_step capacity width marshal unmarshal None s (dq_took None (Took None) (dq_goto None (Pop_Fix b None) s))"
| pop_fix: "dq_pc s None = Pop_Fix b r \<Longrightarrow>
    dq_step capacity width marshal unmarshal None s (dq_goto None (Pop_Done r) (s\<lparr>dq_bottom := i64 (b + 1)\<rparr>))"
| steal_call: "dq_resting (dq_pc s (Some w)) \<Longrightarrow>
    dq_step capacity width marshal unmarshal (Some w) s (dq_begin (Some w) Steal_Top s)"
| steal_top: "dq_pc s (Some w) = Steal_Top \<Longrightarrow>
    dq_step capacity width marshal unmarshal (Some w) s (dq_goto (Some w) (Steal_Bottom (dq_top s)) s)"
| steal_none: "dq_pc s (Some w) = Steal_Bottom t \<Longrightarrow> t \<ge> dq_bottom s \<Longrightarrow>
    dq_step capacity width marshal unmarshal (Some w) s (dq_took (Some w) (Stolen None) (dq_goto (Some w) (Steal_Done None) s))"
| steal_bottom: "dq_pc s (Some w) = Steal_Bottom t \<Longrightarrow> \<not> t \<ge> dq_bottom s \<Longrightarrow>
    dq_step capacity width marshal unmarshal (Some w) s (dq_goto (Some w) (Steal_Read t []) s)"
| steal_byte: "dq_pc s (Some w) = Steal_Read t bs \<Longrightarrow> length bs < width \<Longrightarrow>
    dq_step capacity width marshal unmarshal (Some w) s
      (dq_goto (Some w) (Steal_Read t (bs @ [dq_slots s (dq_idx capacity t) (length bs)])) s)"
| steal_garbled: "dq_pc s (Some w) = Steal_Read t bs \<Longrightarrow> \<not> length bs < width \<Longrightarrow> unmarshal bs = None \<Longrightarrow>
    dq_step capacity width marshal unmarshal (Some w) s (dq_took (Some w) (Stolen None) (dq_goto (Some w) (Steal_Done None) s))"
| steal_read: "dq_pc s (Some w) = Steal_Read t bs \<Longrightarrow> \<not> length bs < width \<Longrightarrow> unmarshal bs = Some v \<Longrightarrow>
    dq_step capacity width marshal unmarshal (Some w) s (dq_goto (Some w) (Steal_Cas t v) s)"
| steal_won: "dq_pc s (Some w) = Steal_Cas t v \<Longrightarrow> dq_top s = t \<Longrightarrow>
    dq_step capacity width marshal unmarshal (Some w) s
      (dq_took (Some w) (Stolen (Some v)) (dq_goto (Some w) (Steal_Done (Some v)) (dq_advance t s)))"
| steal_lost: "dq_pc s (Some w) = Steal_Cas t v \<Longrightarrow> dq_top s \<noteq> t \<Longrightarrow>
    dq_step capacity width marshal unmarshal (Some w) s (dq_took (Some w) (Stolen None) (dq_goto (Some w) (Steal_Done None) s))"

inductive dq_reach :: "nat \<Rightarrow> nat \<Rightarrow> ('a \<Rightarrow> bytes) \<Rightarrow> (bytes \<Rightarrow> 'a option) \<Rightarrow> 'a dq_sys \<Rightarrow> bool"
  for capacity width marshal unmarshal where
  reach_init: "dq_reach capacity width marshal unmarshal (dq_init ghost)"
| reach_step: "dq_reach capacity width marshal unmarshal s \<Longrightarrow> dq_step capacity width marshal unmarshal w s s' \<Longrightarrow>
    dq_reach capacity width marshal unmarshal s'"

definition dq_approx_len :: "'a dq_sys \<Rightarrow> nat" where
  "dq_approx_len s = nat (max (dq_bottom s - dq_top s) 0)"

end
