(* ===== verification/Deque_Linearizable.thy ===== *)
theory Deque_Linearizable
  imports Shared_Deque
begin

text \<open>
  The work-stealing deque is a deque: the calls took effect one after the other, and every value is taken once, by the
  owner or by one thief. A thief that wins has read, byte by byte, the value that was pushed.
\<close>

section \<open>Indices\<close>

lemma i64_id: "- (2 ^ 63) \<le> x \<Longrightarrow> x < 2 ^ 63 \<Longrightarrow> i64 x = x"
  by (simp add: i64_def)

lemma dq_idx_mod:
  assumes "is_power_of_two capacity" "0 \<le> b" "b < 2 ^ 63"
  shows "dq_idx capacity b = nat b mod capacity"
proof -
  obtain m where m: "capacity = 2 ^ m" using assms(1) by (auto simp: is_power_of_two_def)
  have "b mod 2 ^ 64 = b" using assms(2,3) by simp
  then have "dq_idx capacity b = nat b AND mask m" by (simp add: dq_idx_def m mask_eq_exp_minus_1)
  then show ?thesis by (simp add: m take_bit_nat_def flip: take_bit_eq_mask)
qed

lemma dq_idx_inj:
  assumes "is_power_of_two capacity" "0 \<le> i" "i < j" "j < i + int capacity" "j < 2 ^ 63"
  shows "dq_idx capacity i \<noteq> dq_idx capacity j"
proof
  assume "dq_idx capacity i = dq_idx capacity j"
  then have "nat j mod capacity = nat i mod capacity" using assms by (simp add: dq_idx_mod)
  then have "capacity dvd nat j - nat i" using assms(2,3) by (metis mod_eq_dvd_iff_nat nat_le_eq_zle less_imp_le order.trans)
  moreover have "0 < nat j - nat i" "nat j - nat i < capacity" using assms(2-4) by auto
  ultimately show False by (auto dest: dvd_imp_le)
qed

section \<open>The deque in the region\<close>

text \<open>
  The end of the deque: while the owner pops, the bottom it has stored may be one below it.
\<close>

definition dq_end :: "'a dq_sys \<Rightarrow> int" where
  "dq_end s = (case dq_pc s None of
     Pop_Top b \<Rightarrow> b + 1 | Pop_Restore b \<Rightarrow> b + 1 | Pop_Read b t bs \<Rightarrow> if b > t then b else b + 1
   | Pop_Cas b t v \<Rightarrow> b + 1 | Pop_Fix b r \<Rightarrow> b + 1 | _ \<Rightarrow> dq_bottom s)"

definition dq_content :: "'a dq_sys \<Rightarrow> 'a list" where
  "dq_content s = map (dq_items s) [dq_top s..dq_end s - 1]"

text \<open>The log as a run of a deque; a steal may fail at any time.\<close>

fun replay_deque :: "nat \<Rightarrow> 'a dq_event list \<Rightarrow> 'a list \<Rightarrow> 'a list option" where
  "replay_deque capacity [] l = Some l"
| "replay_deque capacity (PushedAll vs # es) l = (if length l + length vs \<le> capacity then replay_deque capacity es (l @ vs) else None)"
| "replay_deque capacity (RefusedAll vs # es) l = (if length l + length vs > capacity then replay_deque capacity es l else None)"
| "replay_deque capacity (Took None # es) l = (if l = [] then replay_deque capacity es l else None)"
| "replay_deque capacity (Took (Some v) # es) l = (if l \<noteq> [] \<and> last l = v then replay_deque capacity es (butlast l) else None)"
| "replay_deque capacity (Stolen None # es) l = replay_deque capacity es l"
| "replay_deque capacity (Stolen (Some v) # es) l = (if l \<noteq> [] \<and> hd l = v then replay_deque capacity es (tl l) else None)"

lemma replay_deque_append: "replay_deque capacity (es @ es') l = Option.bind (replay_deque capacity es l) (replay_deque capacity es')"
  by (induction capacity es l rule: replay_deque.induct) auto

section \<open>The invariant\<close>

text \<open>\<open>holds_item s capacity width marshal i v\<close>: the slot of index \<open>i\<close> holds the bytes of \<open>v\<close>.\<close>

definition holds_item :: "'a dq_sys \<Rightarrow> nat \<Rightarrow> nat \<Rightarrow> ('a \<Rightarrow> bytes) \<Rightarrow> int \<Rightarrow> 'a \<Rightarrow> bool" where
  "holds_item s capacity width marshal i v \<longleftrightarrow> (\<forall>k<width. dq_slots s (dq_idx capacity i) k = marshal v ! k)"

definition part_of :: "bytes \<Rightarrow> bytes \<Rightarrow> bool" where
  "part_of bs xs \<longleftrightarrow> bs = take (length bs) xs"

definition bounds_ok :: "nat \<Rightarrow> 'a dq_sys \<Rightarrow> bool" where
  "bounds_ok capacity s \<longleftrightarrow> dq_top s = int (dq_moves s) \<and> dq_top s \<le> dq_end s \<and> dq_end s \<le> dq_top s + int capacity"

definition items_ok :: "nat \<Rightarrow> nat \<Rightarrow> ('a \<Rightarrow> bytes) \<Rightarrow> 'a dq_sys \<Rightarrow> bool" where
  "items_ok capacity width marshal s \<longleftrightarrow>
     (\<forall>i. dq_top s \<le> i \<and> i < dq_end s \<longrightarrow> holds_item s capacity width marshal i (dq_items s i))"

fun owner_ok :: "nat \<Rightarrow> nat \<Rightarrow> ('a \<Rightarrow> bytes) \<Rightarrow> 'a dq_sys \<Rightarrow> 'a dq_pc \<Rightarrow> bool" where
  "owner_ok capacity width marshal s (Push_Bottom one vs) \<longleftrightarrow> (one \<longrightarrow> length vs = 1)"
| "owner_ok capacity width marshal s (Push_Top one vs b) \<longleftrightarrow> (one \<longrightarrow> length vs = 1) \<and> dq_bottom s = b"
| "owner_ok capacity width marshal s (Push_Write vs b p) \<longleftrightarrow> dq_bottom s = b \<and> b + int (length vs) \<le> dq_top s + int capacity \<and>
     p \<le> length vs * width \<and>
     (\<forall>q<p. dq_slots s (dq_idx capacity (b + int (q div width))) (q mod width) = marshal (vs ! (q div width)) ! (q mod width))"
| "owner_ok capacity width marshal s (Pop_Store b) \<longleftrightarrow> dq_bottom s = b + 1"
| "owner_ok capacity width marshal s (Pop_Top b) \<longleftrightarrow> dq_bottom s = b"
| "owner_ok capacity width marshal s (Pop_Restore b) \<longleftrightarrow> dq_bottom s = b \<and> dq_top s = b + 1"
| "owner_ok capacity width marshal s (Pop_Read b t bs) \<longleftrightarrow> dq_bottom s = b \<and> 0 \<le> t \<and> t \<le> b \<and> t \<le> dq_top s \<and> length bs \<le> width \<and>
     holds_item s capacity width marshal b (dq_items s b) \<and> part_of bs (marshal (dq_items s b))"
| "owner_ok capacity width marshal s (Pop_Cas b t v) \<longleftrightarrow> dq_bottom s = b \<and> t = b \<and> t \<le> dq_top s \<and> v = dq_items s b"
| "owner_ok capacity width marshal s (Pop_Fix b r) \<longleftrightarrow> dq_bottom s = b \<and> dq_top s = b + 1"
| "owner_ok capacity width marshal s (Steal_Bottom t) \<longleftrightarrow> False"
| "owner_ok capacity width marshal s (Steal_Read t bs) \<longleftrightarrow> False"
| "owner_ok capacity width marshal s (Steal_Cas t v) \<longleftrightarrow> False"
| "owner_ok capacity width marshal s Steal_Top \<longleftrightarrow> False"
| "owner_ok capacity width marshal s _ \<longleftrightarrow> True"

fun thief_ok :: "nat \<Rightarrow> ('a \<Rightarrow> bytes) \<Rightarrow> 'a dq_sys \<Rightarrow> 'a dq_pc \<Rightarrow> bool" where
  "thief_ok width marshal s Dq_Idle \<longleftrightarrow> True"
| "thief_ok width marshal s Steal_Top \<longleftrightarrow> True"
| "thief_ok width marshal s (Steal_Done r) \<longleftrightarrow> True"
| "thief_ok width marshal s (Steal_Bottom t) \<longleftrightarrow> t \<le> dq_top s"
| "thief_ok width marshal s (Steal_Read t bs) \<longleftrightarrow> t \<le> dq_top s \<and> length bs \<le> width \<and>
     (t = dq_top s \<longrightarrow> t < dq_end s \<and> part_of bs (marshal (dq_items s t)))"
| "thief_ok width marshal s (Steal_Cas t v) \<longleftrightarrow> t \<le> dq_top s \<and> (t = dq_top s \<longrightarrow> t < dq_end s \<and> v = dq_items s t)"
| "thief_ok width marshal s _ \<longleftrightarrow> False"

text \<open>The calls that have not taken effect yet, and what those that have will return.\<close>

fun dq_waiting :: "'a dq_pc \<Rightarrow> bool" where
  "dq_waiting (Push_Bottom one vs) = True"
| "dq_waiting (Push_Top one vs b) = True"
| "dq_waiting (Push_Write vs b p) = True"
| "dq_waiting Pop_Bottom = True"
| "dq_waiting (Pop_Store b) = True"
| "dq_waiting (Pop_Top b) = True"
| "dq_waiting (Pop_Read b t bs) = (\<not> b > t)"
| "dq_waiting (Pop_Cas b t v) = True"
| "dq_waiting Steal_Top = True"
| "dq_waiting (Steal_Bottom t) = True"
| "dq_waiting (Steal_Read t bs) = True"
| "dq_waiting (Steal_Cas t v) = True"
| "dq_waiting _ = False"

fun dq_answer :: "'a dq_sys \<Rightarrow> 'a dq_pc \<Rightarrow> 'a dq_event option" where
  "dq_answer s (Push_Done vs r) = Some (case r of Inl _ \<Rightarrow> RefusedAll vs | Inr _ \<Rightarrow> PushedAll vs)"
| "dq_answer s (Pop_Restore b) = Some (Took None)"
| "dq_answer s (Pop_Read b t bs) = (if b > t then Some (Took (Some (dq_items s b))) else None)"
| "dq_answer s (Pop_Fix b r) = Some (Took r)"
| "dq_answer s (Pop_Done r) = Some (Took r)"
| "dq_answer s (Steal_Done r) = Some (Stolen r)"
| "dq_answer s _ = None"

definition dq_own_log :: "'a dq_sys \<Rightarrow> nat option \<Rightarrow> 'a dq_event list" where
  "dq_own_log s w = map snd (filter (\<lambda>e. fst e = w) (dq_log s))"

definition calls_ok :: "'a dq_sys \<Rightarrow> nat option \<Rightarrow> bool" where
  "calls_ok s w \<longleftrightarrow> dq_calls s w = length (dq_own_log s w) + (if dq_waiting (dq_pc s w) then 1 else 0) \<and>
     (\<forall>e. dq_answer s (dq_pc s w) = Some e \<longrightarrow> dq_own_log s w \<noteq> [] \<and> last (dq_own_log s w) = e)"

lemmas dq_updates = dq_goto_def dq_begin_def dq_took_def dq_advance_def dq_poke_def dq_publish_def

lemmas dq_parts = bounds_ok_def items_ok_def holds_item_def

text \<open>What the type's \<open>marshal\<close> and \<open>unmarshal\<close> promise.\<close>

definition marshals :: "nat \<Rightarrow> ('a \<Rightarrow> bytes) \<Rightarrow> (bytes \<Rightarrow> 'a option) \<Rightarrow> bool" where
  "marshals width marshal unmarshal \<longleftrightarrow> (\<forall>v. length (marshal v) = width \<and> unmarshal (marshal v) = Some v)"

definition dq_inv :: "nat \<Rightarrow> nat \<Rightarrow> ('a \<Rightarrow> bytes) \<Rightarrow> 'a dq_sys \<Rightarrow> bool" where
  "dq_inv capacity width marshal s \<longleftrightarrow> bounds_ok capacity s \<and> items_ok capacity width marshal s \<and>
     owner_ok capacity width marshal s (dq_pc s None) \<and> (\<forall>w. thief_ok width marshal s (dq_pc s (Some w))) \<and>
     replay_deque capacity (map snd (dq_log s)) [] = Some (dq_content s) \<and> (\<forall>w. calls_ok s w)"

lemma part_of_all: "part_of bs xs \<Longrightarrow> length bs = length xs \<Longrightarrow> bs = xs"
  by (simp add: part_of_def)

lemma part_of_snoc: "part_of bs xs \<Longrightarrow> length bs < length xs \<Longrightarrow> x = xs ! length bs \<Longrightarrow> part_of (bs @ [x]) xs"
  by (metis part_of_def length_append_singleton take_Suc_conv_app_nth)

lemma dq_invD:
  assumes "dq_inv capacity width marshal s"
  shows "bounds_ok capacity s" "items_ok capacity width marshal s" "owner_ok capacity width marshal s (dq_pc s None)"
    "thief_ok width marshal s (dq_pc s (Some w))" "replay_deque capacity (map snd (dq_log s)) [] = Some (dq_content s)" "calls_ok s c"
  using assms by (simp_all add: dq_inv_def)

text \<open>What the owner has read is the value, so that it can always be decoded.\<close>

lemma pop_decodes:
  assumes "dq_inv capacity width marshal s" "marshals width marshal unmarshal" "dq_pc s None = Pop_Read b t bs" "\<not> length bs < width"
  shows "unmarshal bs = Some (dq_items s b)"
proof -
  have "part_of bs (marshal (dq_items s b))" "length bs = width" using dq_invD(3) [OF assms(1)] assms(3,4) by auto
  then show ?thesis using assms(2) part_of_all [of bs "marshal (dq_items s b)"] by (simp add: marshals_def)
qed

section \<open>A step of a thief\<close>

lemma end_unchanged: "dq_pc s' None = dq_pc s None \<Longrightarrow> dq_bottom s' = dq_bottom s \<Longrightarrow> dq_end s' = dq_end s"
  by (cases "dq_pc s None") (simp_all add: dq_end_def)

text \<open>A thief changes nothing but where it stands and the log, except when it takes the value at the top.\<close>

definition thief_kept :: "nat \<Rightarrow> 'a dq_sys \<Rightarrow> 'a dq_sys \<Rightarrow> bool" where
  "thief_kept w s s' \<longleftrightarrow> dq_bottom s' = dq_bottom s \<and> dq_slots s' = dq_slots s \<and> dq_items s' = dq_items s \<and>
     (\<forall>c. c \<noteq> Some w \<longrightarrow> dq_pc s' c = dq_pc s c) \<and>
     (\<forall>c. c \<noteq> Some w \<longrightarrow> dq_calls s' c = dq_calls s c \<and> dq_own_log s' c = dq_own_log s c)"

lemma thief_keeps: "dq_step capacity width marshal unmarshal (Some w) s s' \<Longrightarrow> thief_kept w s s'"
  by (cases rule: dq_step.cases) (auto simp: thief_kept_def dq_updates dq_own_log_def)

lemma thief_moves:
  assumes "dq_step capacity width marshal unmarshal (Some w) s s'"
  obtains "dq_top s' = dq_top s" "dq_moves s' = dq_moves s"
  | v where "dq_pc s (Some w) = Steal_Cas (dq_top s) v" "dq_top s' = i64 (dq_top s + 1)" "dq_moves s' = Suc (dq_moves s)"
  using assms by (cases rule: dq_step.cases) (auto simp: dq_updates)

lemma end_thief: "dq_step capacity width marshal unmarshal (Some w) s s' \<Longrightarrow> dq_end s' = dq_end s"
  using thief_keeps [of capacity width marshal unmarshal w s s'] by (intro end_unchanged) (simp_all add: thief_kept_def)

lemma thief_top:
  assumes "dq_inv capacity width marshal s" "dq_step capacity width marshal unmarshal (Some w) s s'"
    "int (dq_moves s') + int capacity < 2 ^ 63"
  shows "dq_top s \<le> dq_top s'" "dq_top s' \<le> dq_end s'" "dq_top s' = int (dq_moves s')"
proof -
  have inv: "bounds_ok capacity s" "thief_ok width marshal s (dq_pc s (Some w))" by (rule dq_invD [OF assms(1)])+
  have all: "dq_top s \<le> dq_top s' \<and> dq_top s' \<le> dq_end s' \<and> dq_top s' = int (dq_moves s')"
    by (rule thief_moves [OF assms(2)]) (use inv assms(3) end_thief [OF assms(2)] in \<open>auto simp: bounds_ok_def i64_id\<close>)
  then show "dq_top s \<le> dq_top s'" "dq_top s' \<le> dq_end s'" "dq_top s' = int (dq_moves s')" by simp_all
qed

lemma owner_kept:
  assumes "owner_ok capacity width marshal s pc" "dq_bottom s' = dq_bottom s" "dq_slots s' = dq_slots s" "dq_items s' = dq_items s"
    "dq_top s \<le> dq_top s'" "dq_top s' \<le> dq_end s" "dq_pc s None = pc"
  shows "owner_ok capacity width marshal s' pc"
  using assms by (cases pc) (auto simp: holds_item_def dq_end_def)

lemma thief_kept_others:
  assumes "thief_ok width marshal s pc" "dq_items s' = dq_items s" "dq_top s \<le> dq_top s'" "dq_end s' = dq_end s"
  shows "thief_ok width marshal s' pc"
  using assms by (cases pc) auto

text \<open>The step of a thief keeps the invariant.\<close>

lemma thief_ok_step:
  assumes inv: "dq_inv capacity width marshal s" and step: "dq_step capacity width marshal unmarshal (Some w) s s'"
    and contract: "marshals width marshal unmarshal" and small: "int (dq_moves s') + int capacity < 2 ^ 63"
  shows "thief_ok width marshal s' (dq_pc s' (Some w))"
proof -
  note i = dq_invD(1,2) [OF inv] dq_invD(4) [OF inv, of w]
  have len: "length (marshal v) = width" "unmarshal (marshal v) = Some v" for v using contract by (simp_all add: marshals_def)
  have e: "dq_end s' = dq_end s" by (rule end_thief [OF step])
  from step show ?thesis
  proof cases
    case (steal_bottom t)
    have "dq_bottom s \<le> dq_end s" using dq_invD(3) [OF inv] by (cases "dq_pc s None") (auto simp: dq_end_def)
    then show ?thesis using i(3) steal_bottom e by (auto simp: dq_updates part_of_def)
  next
    case (steal_byte t bs)
    have "part_of (bs @ [dq_slots s (dq_idx capacity t) (length bs)]) (marshal (dq_items s t))" if "t = dq_top s"
      using that i(2,3) steal_byte len by (intro part_of_snoc) (auto simp: items_ok_def holds_item_def)
    then show ?thesis using i(3) steal_byte e by (auto simp: dq_updates)
  next
    case (steal_read t bs v)
    have "v = dq_items s t" if "t = dq_top s"
    proof -
      have "bs = marshal (dq_items s t)" using that i(3) steal_read len by (intro part_of_all) auto
      then show ?thesis using steal_read len by simp
    qed
    then show ?thesis using i(3) steal_read e by (auto simp: dq_updates)
  qed (use e in \<open>auto simp: dq_updates\<close>)
qed

lemma thief_log_step:
  assumes inv: "dq_inv capacity width marshal s" and step: "dq_step capacity width marshal unmarshal (Some w) s s'"
    and small: "int (dq_moves s') + int capacity < 2 ^ 63"
  shows "replay_deque capacity (map snd (dq_log s')) [] = Some (dq_content s')" "calls_ok s' (Some w)"
proof -
  note i = dq_invD(1) [OF inv] dq_invD(4) [OF inv, of w] dq_invD(5) [OF inv] dq_invD(6) [OF inv, of "Some w"]
  have e: "dq_end s' = dq_end s" by (rule end_thief [OF step])
  show "calls_ok s' (Some w)" using step
    by cases (use i(4) in \<open>auto simp: calls_ok_def dq_updates dq_own_log_def elim!: dq_resting.elims\<close>)
  from step show "replay_deque capacity (map snd (dq_log s')) [] = Some (dq_content s')"
  proof cases
    case (steal_won t v)
    have t: "t < dq_end s" "v = dq_items s t" "dq_top s = t" "i64 (t + 1) = t + 1"
      using i(1,2) steal_won small by (auto simp: bounds_ok_def dq_updates i64_id)
    then have "dq_content s = v # dq_content s'" using e steal_won by (simp add: dq_content_def dq_updates upto_rec1)
    then show ?thesis using i(3) steal_won by (simp add: dq_updates replay_deque_append)
  qed (use i(3) e in \<open>auto simp: dq_updates dq_content_def replay_deque_append\<close>)
qed

lemma thief_step:
  assumes inv: "dq_inv capacity width marshal s" and step: "dq_step capacity width marshal unmarshal (Some w) s s'"
    and contract: "marshals width marshal unmarshal" and small: "int (dq_moves s') + int capacity < 2 ^ 63"
  shows "dq_inv capacity width marshal s'"
proof -
  note top = thief_top [OF inv step small]
  have e: "dq_end s' = dq_end s" by (rule end_thief [OF step])
  have k: "thief_kept w s s'" by (rule thief_keeps [OF step])
  have "bounds_ok capacity s'" using top dq_invD(1) [OF inv] e by (simp add: bounds_ok_def)
  moreover have "items_ok capacity width marshal s'"
    using k top(1) dq_invD(2) [OF inv] e by (auto simp: items_ok_def holds_item_def thief_kept_def)
  moreover have "owner_ok capacity width marshal s' (dq_pc s' None)"
    using owner_kept [OF dq_invD(3) [OF inv], of s'] k top e by (simp add: thief_kept_def)
  moreover have "thief_ok width marshal s' (dq_pc s' (Some w'))" for w'
    using thief_ok_step [OF inv step contract small] thief_kept_others [OF dq_invD(4) [OF inv, of w'], of s'] k top(1) e
    by (cases "w' = w") (simp_all add: thief_kept_def)
  moreover have "calls_ok s' c" for c
  proof (cases "c = Some w")
    case False
    then have "dq_pc s' c = dq_pc s c" "dq_calls s' c = dq_calls s c" "dq_own_log s' c = dq_own_log s c" "dq_items s' = dq_items s"
      using k by (auto simp: thief_kept_def)
    moreover from this(4) have "dq_answer s' pc = dq_answer s pc" for pc by (cases pc) simp_all
    ultimately show ?thesis using dq_invD(6) [OF inv, of c] by (simp add: calls_ok_def)
  qed (use thief_log_step(2) [OF inv step small] in simp)
  ultimately show ?thesis using thief_log_step(1) [OF inv step small] by (simp add: dq_inv_def)
qed

section \<open>A step of the owner\<close>

lemma bottom_small:
  assumes "dq_inv capacity width marshal s" "int (dq_moves s) + int capacity < 2 ^ 63"
  shows "0 \<le> dq_end s" "dq_end s < 2 ^ 63" "- 1 \<le> dq_bottom s" "dq_bottom s \<le> dq_end s" "0 \<le> dq_top s"
proof -
  have b: "bounds_ok capacity s" by (rule dq_invD [OF assms(1)])
  then show "0 \<le> dq_end s" "dq_end s < 2 ^ 63" "0 \<le> dq_top s" using assms(2) by (auto simp: bounds_ok_def)
  have "dq_end s - 1 \<le> dq_bottom s \<and> dq_bottom s \<le> dq_end s"
    using dq_invD(3) [OF assms(1)] by (cases "dq_pc s None") (auto simp: dq_end_def)
  then show "- 1 \<le> dq_bottom s" "dq_bottom s \<le> dq_end s" using b by (auto simp: bounds_ok_def)
qed

lemma owner_bounds:
  assumes inv: "dq_inv capacity width marshal s" and step: "dq_step capacity width marshal unmarshal None s s'"
    and contract: "marshals width marshal unmarshal" and small: "int (dq_moves s') + int capacity < 2 ^ 63"
  shows "bounds_ok capacity s'" "dq_top s \<le> dq_top s'"
proof -
  note i = dq_invD(1,3) [OF inv]
  from step have "bounds_ok capacity s' \<and> dq_top s \<le> dq_top s'"
  proof cases
    case (pop_garbled b t bs)
    then show ?thesis using pop_decodes [OF inv contract, of b t bs] by simp
  qed (use i small in \<open>auto simp: bounds_ok_def dq_updates dq_end_def no_room_def i64_id elim!: dq_resting.elims split: if_splits\<close>)
  then show "bounds_ok capacity s'" "dq_top s \<le> dq_top s'" by simp_all
qed

text \<open>The bytes of a push go to slots that hold no value of the deque.\<close>

lemma push_apart:
  assumes inv: "dq_inv capacity width marshal s" and pow: "is_power_of_two capacity" and small: "int (dq_moves s) + int capacity < 2 ^ 63"
    and pc: "dq_pc s None = Push_Write vs b p" and j: "j < length vs" and i: "dq_top s \<le> i" "i < b + int j"
  shows "dq_idx capacity i \<noteq> dq_idx capacity (b + int j)"
proof (rule dq_idx_inj [OF pow])
  have "b + int (length vs) \<le> dq_top s + int capacity" "dq_top s = int (dq_moves s)"
    using dq_invD(1,3) [OF inv] pc by (simp_all add: bounds_ok_def)
  then show "0 \<le> i" "i < b + int j" "b + int j < i + int capacity" "b + int j < 2 ^ 63" using i j small by auto
qed

lemma owner_items:
  assumes inv: "dq_inv capacity width marshal s" and step: "dq_step capacity width marshal unmarshal None s s'"
    and contract: "marshals width marshal unmarshal" and small: "int (dq_moves s') + int capacity < 2 ^ 63" and pow: "is_power_of_two capacity"
  shows "items_ok capacity width marshal s'"
proof -
  note i = dq_invD(1,2,3) [OF inv]
  from step show ?thesis
  proof cases
    case (push_byte vs b p)
    then have j: "p div width < length vs" by (simp add: less_mult_imp_div_less)
    have b: "i64 (b + int (p div width)) = b + int (p div width)"
      using i(1,3) push_byte small j by (intro i64_id) (auto simp: bounds_ok_def dq_updates dq_end_def)
    have "dq_idx capacity k \<noteq> dq_idx capacity (b + int (p div width))" if "dq_top s \<le> k" "k < dq_end s" for k
      using push_apart [OF inv pow _ push_byte(2) j that(1)] i(3) small push_byte that(2) by (auto simp: dq_updates dq_end_def)
    then show ?thesis using i(2) push_byte b by (auto simp: items_ok_def holds_item_def dq_updates dq_end_def)
  next
    case (push_publish vs b p)
    have new: "dq_slots s (dq_idx capacity k) q = marshal (vs ! nat (k - b)) ! q" if "b \<le> k" "k < b + int (length vs)" "q < width" for k q
    proof -
      define j where "j = nat (k - b)"
      have j: "k = b + int j" "j < length vs" using that by (auto simp: j_def)
      have "j * width + q < length vs * width" using j(2) that(3) by (metis add_less_cancel_left less_le_trans mult_Suc mult_le_mono1 Suc_leI add.commute)
      then have at: "j * width + q < p" "(j * width + q) div width = j" "(j * width + q) mod width = q" using push_publish that(3) by auto
      have "\<forall>q<p. dq_slots s (dq_idx capacity (b + int (q div width))) (q mod width) = marshal (vs ! (q div width)) ! (q mod width)"
        using i(3) push_publish(2) by simp
      from this [rule_format, OF at(1)] show ?thesis unfolding at(2,3) j(1) by simp
    qed
    show ?thesis using i(1,2,3) new push_publish small
      by (auto simp: items_ok_def holds_item_def dq_updates dq_end_def bounds_ok_def i64_id)
  next
    case (pop_garbled b t bs)
    then show ?thesis using pop_decodes [OF inv contract, of b t bs] by simp
  qed (use i small in \<open>auto simp: items_ok_def holds_item_def bounds_ok_def dq_updates dq_end_def i64_id elim!: dq_resting.elims split: if_splits\<close>)
qed

lemma owner_self:
  assumes inv: "dq_inv capacity width marshal s" and step: "dq_step capacity width marshal unmarshal None s s'"
    and contract: "marshals width marshal unmarshal" and small: "int (dq_moves s') + int capacity < 2 ^ 63" and pow: "is_power_of_two capacity"
  shows "owner_ok capacity width marshal s' (dq_pc s' None)"
proof -
  note i = dq_invD(1,2,3) [OF inv]
  have len: "length (marshal v) = width" for v using contract by (simp add: marshals_def)
  from step show ?thesis
  proof cases
    case (push_byte vs b p)
    then have j: "p div width < length vs" by (simp add: less_mult_imp_div_less)
    have b: "i64 (b + int (p div width)) = b + int (p div width)"
      using i(1,3) push_byte small j by (intro i64_id) (auto simp: bounds_ok_def dq_updates dq_end_def)
    have other: "dq_idx capacity (b + int (q div width)) \<noteq> dq_idx capacity (b + int (p div width)) \<or> q mod width \<noteq> p mod width" if "q < p" for q
    proof (cases "q div width = p div width")
      case True
      then show ?thesis using that by (metis div_mult_mod_eq less_irrefl)
    next
      case False
      then have "q div width < p div width" using that by (meson div_le_mono le_neq_implies_less less_imp_le)
      moreover have "dq_top s \<le> b" using i(1,3) push_byte(2) by (simp add: bounds_ok_def dq_end_def)
      ultimately show ?thesis using push_apart [OF inv pow _ push_byte(2) j, of "b + int (q div width)"] small push_byte(1) by (auto simp: dq_updates)
    qed
    show ?thesis using i(3) push_byte b other by (auto simp: dq_updates less_Suc_eq)
  next
    case (pop_bottom)
    then show ?thesis using bottom_small [OF inv] small by (auto simp: dq_updates i64_id)
  next
    case (pop_byte b t bs)
    then have "part_of (bs @ [dq_slots s (dq_idx capacity b) (length bs)]) (marshal (dq_items s b))"
      using i(3) len by (intro part_of_snoc) (auto simp: holds_item_def)
    then show ?thesis using i(3) pop_byte by (auto simp: dq_updates holds_item_def)
  next
    case (pop_race b t bs v)
    then show ?thesis using pop_decodes [OF inv contract, of b t bs] i(3) by (auto simp: dq_updates)
  qed (use i small in \<open>auto simp: bounds_ok_def items_ok_def holds_item_def part_of_def dq_updates dq_end_def no_room_def i64_id
      elim!: dq_resting.elims split: if_splits\<close>)
qed

text \<open>What the owner does leaves a thief that can still win with the value it reads.\<close>

lemma owner_effect:
  assumes inv: "dq_inv capacity width marshal s" and step: "dq_step capacity width marshal unmarshal None s s'"
    and contract: "marshals width marshal unmarshal" and small: "int (dq_moves s') + int capacity < 2 ^ 63"
  shows "dq_top s' = dq_top s \<Longrightarrow> dq_top s < dq_end s \<Longrightarrow> dq_top s < dq_end s' \<and> dq_items s' (dq_top s) = dq_items s (dq_top s)"
    "dq_pc s' (Some w) = dq_pc s (Some w)" "dq_calls s' (Some w) = dq_calls s (Some w)" "dq_own_log s' (Some w) = dq_own_log s (Some w)"
proof -
  note i = dq_invD(1,3) [OF inv]
  show "dq_pc s' (Some w) = dq_pc s (Some w)" "dq_calls s' (Some w) = dq_calls s (Some w)" "dq_own_log s' (Some w) = dq_own_log s (Some w)"
    using step by (cases rule: dq_step.cases; simp add: dq_updates dq_own_log_def)+
  assume top: "dq_top s' = dq_top s" "dq_top s < dq_end s"
  from step show "dq_top s < dq_end s' \<and> dq_items s' (dq_top s) = dq_items s (dq_top s)"
  proof cases
    case (pop_garbled b t bs)
    then show ?thesis using pop_decodes [OF inv contract, of b t bs] by simp
  qed (use i top small in \<open>auto simp: bounds_ok_def dq_updates dq_end_def i64_id elim!: dq_resting.elims split: if_splits\<close>)
qed

lemma owner_thieves:
  assumes inv: "dq_inv capacity width marshal s" and step: "dq_step capacity width marshal unmarshal None s s'"
    and contract: "marshals width marshal unmarshal" and small: "int (dq_moves s') + int capacity < 2 ^ 63"
  shows "thief_ok width marshal s' (dq_pc s' (Some w))"
  using dq_invD(4) [OF inv, of w] owner_effect(1) [OF inv step contract small]
    owner_effect(2) [OF inv step contract small, of w] owner_bounds(2) [OF inv step contract small]
  by (cases "dq_pc s (Some w)") auto

lemma content_length: "bounds_ok capacity s \<Longrightarrow> int (length (dq_content s)) = dq_end s - dq_top s"
  by (simp add: dq_content_def bounds_ok_def)

lemma owner_replay:
  assumes inv: "dq_inv capacity width marshal s" and step: "dq_step capacity width marshal unmarshal None s s'"
    and contract: "marshals width marshal unmarshal" and small: "int (dq_moves s') + int capacity < 2 ^ 63"
  shows "replay_deque capacity (map snd (dq_log s')) [] = Some (dq_content s')"
proof -
  note i = dq_invD(1,3,5) [OF inv]
  note len = content_length [OF i(1)]
  from step show ?thesis
  proof cases
    case (push_full one vs b)
    then have "length (dq_content s) + length vs > capacity" using i(2) len by (auto simp: no_room_def dq_end_def split: if_splits)
    then show ?thesis using i(3) push_full by (simp add: dq_updates replay_deque_append dq_content_def dq_end_def)
  next
    case (push_publish vs b p)
    have b: "dq_end s = b" "i64 (b + int (length vs)) = b + int (length vs)" "b + int (length vs) \<le> dq_top s + int capacity" "dq_top s \<le> b"
      using i(1,2) push_publish small by (auto simp: bounds_ok_def dq_updates dq_end_def i64_id)
    have "[dq_top s..b + int (length vs) - 1] = [dq_top s..b - 1] @ [b..b + int (length vs) - 1]"
      using upto_split1 [of "dq_top s" b "b + int (length vs) - 1"] upto_split1 [of "dq_top s" b "b - 1"] b(4) by (cases vs) auto
    moreover have "map (\<lambda>k. if b \<le> k \<and> k < b + int (length vs) then vs ! nat (k - b) else dq_items s k) [b..b + int (length vs) - 1] = vs"
      by (rule nth_equalityI) simp_all
    ultimately have "dq_content s' = dq_content s @ vs"
      using push_publish b(1,2) by (simp add: dq_content_def dq_updates dq_end_def)
    moreover have "length (dq_content s) + length vs \<le> capacity" using len b(1,3) by linarith
    ultimately show ?thesis using i(3) push_publish(1) by (simp add: dq_updates replay_deque_append)
  next
    case (pop_empty b)
    then have "dq_content s = []" "dq_content s' = []" using i(1,2) by (simp_all add: dq_content_def dq_end_def bounds_ok_def dq_updates)
    then show ?thesis using i(3) pop_empty by (simp add: dq_updates replay_deque_append)
  next
    case (pop_clear b)
    then have "dq_content s = dq_content s' @ [dq_items s b]" by (simp add: dq_content_def dq_end_def dq_updates upto_rec2)
    then show ?thesis using i(3) pop_clear by (simp add: dq_updates replay_deque_append)
  next
    case (pop_garbled b t bs)
    then show ?thesis using pop_decodes [OF inv contract, of b t bs] by simp
  next
    case (pop_won b t v)
    then have "i64 (t + 1) = t + 1" "t = b" "v = dq_items s b" using i(1,2) small by (auto simp: bounds_ok_def dq_updates i64_id)
    then have "dq_content s = [v]" "dq_content s' = []" using pop_won by (simp_all add: dq_content_def dq_end_def dq_updates)
    then show ?thesis using i(3) pop_won by (simp add: dq_updates replay_deque_append)
  next
    case (pop_lost b t v)
    then have "dq_content s = []" "dq_content s' = []" using i(1,2) by (auto simp: dq_content_def dq_end_def bounds_ok_def dq_updates)
    then show ?thesis using i(3) pop_lost by (simp add: dq_updates replay_deque_append)
  qed (use i small in \<open>auto simp: bounds_ok_def dq_updates dq_content_def dq_end_def replay_deque_append i64_id elim!: dq_resting.elims split: if_splits\<close>)
qed

lemma owner_calls:
  assumes inv: "dq_inv capacity width marshal s" and step: "dq_step capacity width marshal unmarshal None s s'"
    and contract: "marshals width marshal unmarshal" and small: "int (dq_moves s') + int capacity < 2 ^ 63"
  shows "calls_ok s' c"
proof (cases c)
  case None
  note i = dq_invD(3) [OF inv] dq_invD(6) [OF inv, of None]
  from step have "calls_ok s' None"
  proof cases
    case (pop_garbled b t bs)
    then show ?thesis using pop_decodes [OF inv contract, of b t bs] by simp
  next
    case (pop_return b t bs v)
    then show ?thesis using pop_decodes [OF inv contract, of b t bs] i(2) by (auto simp: calls_ok_def dq_updates dq_own_log_def)
  qed (use i in \<open>auto simp: calls_ok_def dq_updates dq_own_log_def elim!: dq_resting.elims split: if_splits\<close>)
  then show ?thesis by (simp add: None)
next
  case (Some w)
  have "dq_answer s' pc = dq_answer s pc" if "thief_ok width marshal s pc" for pc using that by (cases pc) simp_all
  then show ?thesis using dq_invD(6) [OF inv, of c] dq_invD(4) [OF inv, of w] owner_effect(2-4) [OF inv step contract small, of w]
    by (simp add: calls_ok_def Some)
qed

lemma owner_step:
  assumes "dq_inv capacity width marshal s" "dq_step capacity width marshal unmarshal None s s'"
    "marshals width marshal unmarshal" "int (dq_moves s') + int capacity < 2 ^ 63" "is_power_of_two capacity"
  shows "dq_inv capacity width marshal s'"
  using owner_bounds(1) [OF assms(1-4)] owner_items [OF assms] owner_self [OF assms] owner_thieves [OF assms(1-4)]
    owner_replay [OF assms(1-4)] owner_calls [OF assms(1-4)]
  by (simp add: dq_inv_def)

section \<open>Runs\<close>

lemma init_inv: "dq_inv capacity width marshal (dq_init ghost)"
  by (auto simp: dq_inv_def dq_init_def bounds_ok_def items_ok_def calls_ok_def dq_own_log_def dq_content_def dq_end_def)

lemma moves_mono: "dq_step capacity width marshal unmarshal w s s' \<Longrightarrow> dq_moves s \<le> dq_moves s'"
  by (erule dq_step.cases) (simp_all add: dq_updates)

lemma reach_inv:
  assumes "dq_reach capacity width marshal unmarshal s" "marshals width marshal unmarshal" "is_power_of_two capacity"
    "dq_moves s + capacity < 2 ^ 63"
  shows "dq_inv capacity width marshal s"
  using assms(1,4)
proof (induction rule: dq_reach.induct)
  case (reach_init ghost)
  show ?case by (rule init_inv)
next
  case (reach_step s w s')
  have inv: "dq_inv capacity width marshal s" using reach_step.IH reach_step.prems moves_mono [OF reach_step.hyps(2)] by linarith
  have small: "int (dq_moves s') + int capacity < 2 ^ 63" using reach_step.prems by simp
  show ?case
    using thief_step [OF inv _ assms(2) small] owner_step [OF inv _ assms(2) small assms(3)] reach_step.hyps(2) by (cases w) auto
qed

section \<open>Schedules\<close>

text \<open>The next access of a caller, as a function, and schedules of calls and accesses.\<close>

datatype 'a dq_action = DoPush 'a | DoBatch "'a list" | DoPop | DoSteal | DoAccess

fun owner_access :: "nat \<Rightarrow> nat \<Rightarrow> ('a \<Rightarrow> bytes) \<Rightarrow> (bytes \<Rightarrow> 'a option) \<Rightarrow> 'a dq_pc \<Rightarrow> 'a dq_sys \<Rightarrow> 'a dq_sys" where
  "owner_access capacity width marshal unmarshal (Push_Bottom one vs) s = dq_goto None (Push_Top one vs (dq_bottom s)) s"
| "owner_access capacity width marshal unmarshal (Push_Top one vs b) s =
     (if no_room capacity one vs b (dq_top s) then dq_took None (RefusedAll vs) (dq_goto None (Push_Done vs (Inl DequeFull)) s)
      else dq_goto None (Push_Write vs b 0) s)"
| "owner_access capacity width marshal unmarshal (Push_Write vs b p) s =
     (if p < length vs * width
      then dq_goto None (Push_Write vs b (Suc p))
        (dq_poke (dq_idx capacity (i64 (b + int (p div width)))) (p mod width) (marshal (vs ! (p div width)) ! (p mod width)) s)
      else dq_took None (PushedAll vs) (dq_goto None (Push_Done vs (Inr ())) (dq_publish vs b s)))"
| "owner_access capacity width marshal unmarshal Pop_Bottom s = dq_goto None (Pop_Store (i64 (dq_bottom s - 1))) s"
| "owner_access capacity width marshal unmarshal (Pop_Store b) s = dq_goto None (Pop_Top b) (s\<lparr>dq_bottom := b\<rparr>)"
| "owner_access capacity width marshal unmarshal (Pop_Top b) s =
     (if b < dq_top s then dq_took None (Took None) (dq_goto None (Pop_Restore b) s)
      else if b > dq_top s then dq_took None (Took (Some (dq_items s b))) (dq_goto None (Pop_Read b (dq_top s) []) s)
      else dq_goto None (Pop_Read b (dq_top s) []) s)"
| "owner_access capacity width marshal unmarshal (Pop_Restore b) s = dq_goto None (Pop_Done None) (s\<lparr>dq_bottom := i64 (b + 1)\<rparr>)"
| "owner_access capacity width marshal unmarshal (Pop_Read b t bs) s =
     (if length bs < width then dq_goto None (Pop_Read b t (bs @ [dq_slots s (dq_idx capacity b) (length bs)])) s
      else (case unmarshal bs of
          None \<Rightarrow> dq_goto None (Pop_Done None) s
        | Some v \<Rightarrow> if b > t then dq_goto None (Pop_Done (Some v)) s else dq_goto None (Pop_Cas b t v) s))"
| "owner_access capacity width marshal unmarshal (Pop_Cas b t v) s =
     (if dq_top s = t then dq_took None (Took (Some v)) (dq_goto None (Pop_Fix b (Some v)) (dq_advance t s))
      else dq_took None (Took None) (dq_goto None (Pop_Fix b None) s))"
| "owner_access capacity width marshal unmarshal (Pop_Fix b r) s = dq_goto None (Pop_Done r) (s\<lparr>dq_bottom := i64 (b + 1)\<rparr>)"
| "owner_access capacity width marshal unmarshal _ s = s"

fun thief_access :: "nat \<Rightarrow> nat \<Rightarrow> (bytes \<Rightarrow> 'a option) \<Rightarrow> nat \<Rightarrow> 'a dq_pc \<Rightarrow> 'a dq_sys \<Rightarrow> 'a dq_sys" where
  "thief_access capacity width unmarshal w Steal_Top s = dq_goto (Some w) (Steal_Bottom (dq_top s)) s"
| "thief_access capacity width unmarshal w (Steal_Bottom t) s =
     (if t \<ge> dq_bottom s then dq_took (Some w) (Stolen None) (dq_goto (Some w) (Steal_Done None) s)
      else dq_goto (Some w) (Steal_Read t []) s)"
| "thief_access capacity width unmarshal w (Steal_Read t bs) s =
     (if length bs < width then dq_goto (Some w) (Steal_Read t (bs @ [dq_slots s (dq_idx capacity t) (length bs)])) s
      else (case unmarshal bs of
          None \<Rightarrow> dq_took (Some w) (Stolen None) (dq_goto (Some w) (Steal_Done None) s)
        | Some v \<Rightarrow> dq_goto (Some w) (Steal_Cas t v) s))"
| "thief_access capacity width unmarshal w (Steal_Cas t v) s =
     (if dq_top s = t then dq_took (Some w) (Stolen (Some v)) (dq_goto (Some w) (Steal_Done (Some v)) (dq_advance t s))
      else dq_took (Some w) (Stolen None) (dq_goto (Some w) (Steal_Done None) s))"
| "thief_access capacity width unmarshal w _ s = s"

fun dq_move :: "nat \<Rightarrow> nat \<Rightarrow> ('a \<Rightarrow> bytes) \<Rightarrow> (bytes \<Rightarrow> 'a option) \<Rightarrow> nat option \<times> 'a dq_action \<Rightarrow> 'a dq_sys \<Rightarrow> 'a dq_sys" where
  "dq_move capacity width marshal unmarshal (None, DoAccess) s = owner_access capacity width marshal unmarshal (dq_pc s None) s"
| "dq_move capacity width marshal unmarshal (Some w, DoAccess) s = thief_access capacity width unmarshal w (dq_pc s (Some w)) s"
| "dq_move capacity width marshal unmarshal (None, DoPush v) s =
     (if dq_resting (dq_pc s None) then dq_begin None (Push_Bottom True [v]) s else s)"
| "dq_move capacity width marshal unmarshal (None, DoBatch vs) s =
     (if \<not> dq_resting (dq_pc s None) then s
      else if vs = [] then dq_took None (PushedAll []) (dq_begin None (Push_Done [] (Inr ())) s)
      else dq_begin None (Push_Bottom False vs) s)"
| "dq_move capacity width marshal unmarshal (None, DoPop) s = (if dq_resting (dq_pc s None) then dq_begin None Pop_Bottom s else s)"
| "dq_move capacity width marshal unmarshal (Some w, DoSteal) s =
     (if dq_resting (dq_pc s (Some w)) then dq_begin (Some w) Steal_Top s else s)"
| "dq_move capacity width marshal unmarshal _ s = s"

lemma owner_access_step:
  "owner_access capacity width marshal unmarshal (dq_pc s None) s = s \<or>
    dq_step capacity width marshal unmarshal None s (owner_access capacity width marshal unmarshal (dq_pc s None) s)"
  by (cases "dq_pc s None") (auto intro: dq_step.intros split: option.split)

lemma thief_access_step:
  "thief_access capacity width unmarshal w (dq_pc s (Some w)) s = s \<or>
    dq_step capacity width marshal unmarshal (Some w) s (thief_access capacity width unmarshal w (dq_pc s (Some w)) s)"
  by (cases "dq_pc s (Some w)") (auto intro: dq_step.intros split: option.split)

lemma dq_move_step:
  "dq_move capacity width marshal unmarshal (w, a) s = s \<or>
    dq_step capacity width marshal unmarshal w s (dq_move capacity width marshal unmarshal (w, a) s)"
  using owner_access_step [of capacity width marshal unmarshal s] thief_access_step [of capacity width unmarshal "the w" s marshal]
  by (cases w; cases a) (auto intro: dq_step.intros)

lemma dq_schedule_reach:
  "dq_reach capacity width marshal unmarshal s \<Longrightarrow> dq_reach capacity width marshal unmarshal (fold (dq_move capacity width marshal unmarshal) sched s)"
proof (induction sched arbitrary: s)
  case (Cons m sched)
  obtain w a where m: "m = (w, a)" by (cases m)
  have "dq_reach capacity width marshal unmarshal (dq_move capacity width marshal unmarshal (w, a) s)"
    using dq_move_step [of capacity width marshal unmarshal w a s] dq_reach.reach_step [OF Cons.prems] Cons.prems by metis
  then show ?case using Cons.IH by (simp add: m)
qed simp

text \<open>Two-byte integers, as the source marshals them.\<close>

definition unmarshal_u16 :: "bytes \<Rightarrow> u16 option" where
  "unmarshal_u16 bs = (if length bs < 2 then None else Some (from_le_u16 (bs ! 0) (bs ! 1)))"

lemma marshals_u16: "marshals 2 to_le_u16 unmarshal_u16"
  using from_to_le_u16 by (simp add: marshals_def unmarshal_u16_def to_le_u16_def)

abbreviation run_u16 :: "nat \<Rightarrow> (nat option \<times> u16 dq_action) list \<Rightarrow> u16 dq_sys" where
  "run_u16 capacity sched \<equiv> fold (dq_move capacity 2 to_le_u16 unmarshal_u16) sched (dq_init (\<lambda>_. 0))"

lemma run_reach: "dq_reach capacity 2 to_le_u16 unmarshal_u16 (run_u16 capacity sched)"
  by (intro dq_schedule_reach dq_reach.reach_init)

definition race_schedule :: "(nat option \<times> u16 dq_action) list" where
  "race_schedule = (None, DoBatch [0x101, 0x202]) # replicate 7 (None, DoAccess) @ (Some 0, DoSteal) # replicate 5 (Some 0, DoAccess) @
     (None, DoPop) # replicate 6 (None, DoAccess) @ replicate 1 (Some 0, DoAccess)"

section \<open>The deque is a deque\<close>

text \<open>
  C11. The work-stealing deque is a deque: over any interleaving of the owner's pushes, batches and pops with any number
  of thieves, at single accesses of the indices and single bytes of the slots, the calls took effect one after the
  other, each once, between its start and its return, with the result it returns. The log is a run of a deque from
  the empty one: a push adds at one end and is refused exactly when there is no room, a pop takes the value pushed
  last or finds the deque empty, a successful steal takes the oldest value. So no value is lost or taken twice, and
  none is torn, although a thief may read a slot while the owner overwrites it. (The \<open>i64\<close> indices are taken not to
  overflow.)
\<close>

theorem deque_linearizable:
  assumes "dq_reach capacity width marshal unmarshal s" "marshals width marshal unmarshal" "is_power_of_two capacity"
    "dq_moves s + capacity < 2 ^ 63"
  shows "replay_deque capacity (map snd (dq_log s)) [] = Some (dq_content s) \<and> length (dq_content s) \<le> capacity \<and>
    (\<forall>c. dq_calls s c = length (dq_own_log s c) + (if dq_waiting (dq_pc s c) then 1 else 0)) \<and>
    (\<forall>vs r. dq_pc s None = Push_Done vs r \<longrightarrow> last (dq_own_log s None) = (case r of Inl _ \<Rightarrow> RefusedAll vs | Inr _ \<Rightarrow> PushedAll vs)) \<and>
    (\<forall>r. dq_pc s None = Pop_Done r \<longrightarrow> last (dq_own_log s None) = Took r) \<and>
    (\<forall>w r. dq_pc s (Some w) = Steal_Done r \<longrightarrow> last (dq_own_log s (Some w)) = Stolen r)"
proof -
  have inv: "dq_inv capacity width marshal s" by (rule reach_inv [OF assms])
  have "length (dq_content s) \<le> capacity" using content_length [OF dq_invD(1) [OF inv]] dq_invD(1) [OF inv] by (simp add: bounds_ok_def)
  moreover have "calls_ok s c" for c by (rule dq_invD [OF inv])
  ultimately show ?thesis using dq_invD(5) [OF inv] by (simp add: calls_ok_def)
qed

theorem deque_linearizable_witness:
  "let s = run_u16 2 race_schedule in replay_deque 2 (map snd (dq_log s)) [] = Some (dq_content s) \<and>
     map snd (dq_log s) = [PushedAll [0x101, 0x202], Took (Some 0x202), Stolen (Some 0x101)] \<and> dq_content s = []"
proof -
  let ?s = "run_u16 2 race_schedule"
  have "dq_moves ?s = 1" "map snd (dq_log ?s) = [PushedAll [0x101, 0x202], Took (Some 0x202), Stolen (Some 0x101)]" by code_simp+
  moreover have "is_power_of_two 2" by code_simp
  ultimately show ?thesis using deque_linearizable [OF run_reach [of 2 race_schedule] marshals_u16] by (simp add: Let_def)
qed

text \<open>Between the owner's calls the length that is reported is that of the deque.\<close>

lemma approx_len_exact:
  assumes "dq_inv capacity width marshal s" "dq_resting (dq_pc s None)"
  shows "dq_approx_len s = length (dq_content s)"
proof -
  have "dq_end s = dq_bottom s" using assms(2) by (auto simp: dq_end_def elim!: dq_resting.elims)
  then show ?thesis using content_length [OF dq_invD(1) [OF assms(1)]] by (simp add: dq_approx_len_def)
qed

section \<open>A slot overwritten while it is read\<close>

text \<open>
  A thief reads the first byte of a value; another thief takes the value, and the owner pushes the next one into the
  slot; the first thief reads the second byte. It has half of each value, and its compare-and-swap then fails.
\<close>

definition torn_schedule :: "(nat option \<times> u16 dq_action) list" where
  "torn_schedule = (None, DoPush 0x101) # replicate 5 (None, DoAccess) @ (Some 0, DoSteal) # replicate 3 (Some 0, DoAccess) @
     (Some 1, DoSteal) # replicate 6 (Some 1, DoAccess) @ (None, DoPush 0x202) # replicate 5 (None, DoAccess) @ [(Some 0, DoAccess)]"

lemma torn_read:
  "\<exists>s. dq_reach 1 2 to_le_u16 unmarshal_u16 s \<and> dq_pc s (Some 0) = Steal_Read 0 [1, 2] \<and>
    map snd (dq_log s) = [PushedAll [0x101], Stolen (Some 0x101), PushedAll [0x202]]"
proof -
  have "dq_pc (run_u16 1 torn_schedule) (Some 0) = Steal_Read 0 [1, 2]"
    "map snd (dq_log (run_u16 1 torn_schedule)) = [PushedAll [0x101], Stolen (Some 0x101), PushedAll [0x202]]" by code_simp+
  then show ?thesis using run_reach [of 1 torn_schedule] by (intro exI [of _ "run_u16 1 torn_schedule"]) simp
qed

end
