(* ===== verification/Broadcast_Ring.thy ===== *)
theory Broadcast_Ring
  imports SubEtha_Prelude
begin

text \<open>
  The broadcast ring of \<^verbatim>\<open>shared_broadcast_ring.rs\<close>: one producer, and consumers that register, receive every message with a
  cursor of their own, and leave. Producer and clients are interleaved at single accesses of the header and at single
  bytes of the slots.
\<close>

section \<open>The ring\<close>

definition BROADCAST_PAYLOAD_BYTES :: nat where "BROADCAST_PAYLOAD_BYTES = 52"
definition MAX_CONSUMERS :: nat where "MAX_CONSUMERS = 16"

datatype BroadcastError = BroadcastFull | BroadcastEmpty | NoConsumerSlot | InvalidConsumer | BroadcastTooLarge
  | BroadcastLayoutMismatch | BroadcastIoError nat

definition bc_wrap :: "nat \<Rightarrow> nat \<Rightarrow> nat" where
  "bc_wrap capacity i = (if is_power_of_two capacity then i AND (capacity - 1) else i mod capacity)"

text \<open>
  Where the producer stands in \<open>try_push\<close>, for the payload \<open>m\<close> and the sequence number \<open>p\<close> it loaded: the scan of
  \<open>min_consumer_seq\<close> at consumer \<open>i\<close> with the smallest cursor so far, then the slot, byte by byte.
\<close>

datatype bc_producer =
    Bp_Idle | Bp_Load bytes | Bp_Min bytes u64 | Bp_Active bytes u64 nat "u64 option" u64 | Bp_Seq bytes u64 nat "u64 option" u64
  | Bp_Open bytes u64 | Bp_Zero bytes u64 nat | Bp_Copy bytes u64 nat | Bp_Close bytes u64 | Bp_Bump bytes u64
  | Bp_Done bytes "BroadcastError + unit"

text \<open>
  Where a client stands: outside, registering at index \<open>i\<close> (in \<open>register_consumer\<close> or, for an index of its own choice, in
  \<open>claim_consumer_slot\<close>), registered with the index \<open>i\<close> (with the reply of its last
  call), in \<open>try_recv\<close> with a buffer of \<open>n\<close> bytes, or leaving.
\<close>

datatype bc_client =
    Bc_Out "BroadcastError option" | Bc_Claim nat | Bc_At nat | Bc_Load nat | Bc_Store nat u64
  | Bc_In nat "(BroadcastError + bytes) option"
  | Bc_Check nat nat | Bc_Cursor nat nat | Bc_Head nat nat u64 | Bc_V1 nat nat u64 | Bc_Read nat nat u64 u32 bytes
  | Bc_V2 nat nat u64 u32 bytes | Bc_Next nat nat u64 bytes | Bc_Leave nat

text \<open>
  The header, the slots and the callers. The ghosts are the messages published, the position at which each client
  registered, and what it has received since.
\<close>

record bc_sys =
  bc_seq :: u64
  bc_cursor :: "nat \<Rightarrow> u64"
  bc_active :: "nat \<Rightarrow> bool"
  bc_version :: "nat \<Rightarrow> u32"
  bc_payload :: "nat \<Rightarrow> nat \<Rightarrow> u8"
  bc_prod :: bc_producer
  bc_client :: "nat \<Rightarrow> bc_client"
  bc_msgs :: "bytes list"
  bc_start :: "nat \<Rightarrow> nat"
  bc_got :: "nat \<Rightarrow> (nat \<times> bytes) list"

definition bc_init :: bc_sys where
  "bc_init = \<lparr>bc_seq = 0, bc_cursor = (\<lambda>_. 0), bc_active = (\<lambda>_. False), bc_version = (\<lambda>_. 0), bc_payload = (\<lambda>_ _. 0),
     bc_prod = Bp_Idle, bc_client = (\<lambda>_. Bc_Out None), bc_msgs = [], bc_start = (\<lambda>_. 0), bc_got = (\<lambda>_. [])\<rparr>"

definition bp_goto :: "bc_producer \<Rightarrow> bc_sys \<Rightarrow> bc_sys" where
  "bp_goto pc s = s\<lparr>bc_prod := pc\<rparr>"

definition bc_goto :: "nat \<Rightarrow> bc_client \<Rightarrow> bc_sys \<Rightarrow> bc_sys" where
  "bc_goto c pc s = s\<lparr>bc_client := (bc_client s)(c := pc)\<rparr>"

definition bc_write :: "nat \<Rightarrow> nat \<Rightarrow> u8 \<Rightarrow> bc_sys \<Rightarrow> bc_sys" where
  "bc_write idx k x s = s\<lparr>bc_payload := (bc_payload s)(idx := (bc_payload s idx)(k := x))\<rparr>"

definition bump_version :: "nat \<Rightarrow> bc_sys \<Rightarrow> bc_sys" where
  "bump_version idx s = s\<lparr>bc_version := (bc_version s)(idx := bc_version s idx + 1)\<rparr>"

text \<open>A payload as a receiver sees it, filled up with zeros.\<close>

definition padded :: "bytes \<Rightarrow> bytes" where
  "padded m = m @ replicate (BROADCAST_PAYLOAD_BYTES - length m) 0"

definition smallest :: "u64 option \<Rightarrow> u64 \<Rightarrow> u64 option" where
  "smallest least x = Some (case least of None \<Rightarrow> x | Some y \<Rightarrow> if x < y then x else y)"

text \<open>\<open>producer.saturating_sub(min_consumer) >= capacity\<close>, with the producer's own position when no consumer is active.\<close>

definition lags :: "nat \<Rightarrow> u64 \<Rightarrow> u64 \<Rightarrow> u64 option \<Rightarrow> bool" where
  "lags capacity p q least \<longleftrightarrow> (let x = (case least of None \<Rightarrow> q | Some y \<Rightarrow> y) in unat p - unat x \<ge> capacity)"

fun bp_resting :: "bc_producer \<Rightarrow> bool" where
  "bp_resting Bp_Idle = True"
| "bp_resting (Bp_Done m r) = True"
| "bp_resting _ = False"

inductive bp_step :: "nat \<Rightarrow> bc_sys \<Rightarrow> bc_sys \<Rightarrow> bool" for capacity where
  push_large: "bp_resting (bc_prod s) \<Longrightarrow> length m > BROADCAST_PAYLOAD_BYTES \<Longrightarrow>
    bp_step capacity s (bp_goto (Bp_Done m (Inl BroadcastTooLarge)) s)"
| push_call: "bp_resting (bc_prod s) \<Longrightarrow> \<not> length m > BROADCAST_PAYLOAD_BYTES \<Longrightarrow> bp_step capacity s (bp_goto (Bp_Load m) s)"
| push_load: "bc_prod s = Bp_Load m \<Longrightarrow> bp_step capacity s (bp_goto (Bp_Min m (bc_seq s)) s)"
| min_load: "bc_prod s = Bp_Min m p \<Longrightarrow> bp_step capacity s (bp_goto (Bp_Active m p 0 None (bc_seq s)) s)"
| min_skip: "bc_prod s = Bp_Active m p i least q \<Longrightarrow> i < MAX_CONSUMERS \<Longrightarrow> \<not> bc_active s i \<Longrightarrow>
    bp_step capacity s (bp_goto (Bp_Active m p (Suc i) least q) s)"
| min_found: "bc_prod s = Bp_Active m p i least q \<Longrightarrow> i < MAX_CONSUMERS \<Longrightarrow> bc_active s i \<Longrightarrow>
    bp_step capacity s (bp_goto (Bp_Seq m p i least q) s)"
| min_seq: "bc_prod s = Bp_Seq m p i least q \<Longrightarrow>
    bp_step capacity s (bp_goto (Bp_Active m p (Suc i) (smallest least (bc_cursor s i)) q) s)"
| push_full: "bc_prod s = Bp_Active m p i least q \<Longrightarrow> \<not> i < MAX_CONSUMERS \<Longrightarrow> lags capacity p q least \<Longrightarrow>
    bp_step capacity s (bp_goto (Bp_Done m (Inl BroadcastFull)) s)"
| push_room: "bc_prod s = Bp_Active m p i least q \<Longrightarrow> \<not> i < MAX_CONSUMERS \<Longrightarrow> \<not> lags capacity p q least \<Longrightarrow>
    bp_step capacity s (bp_goto (Bp_Open m p) s)"
| push_open: "bc_prod s = Bp_Open m p \<Longrightarrow> bp_step capacity s (bp_goto (Bp_Zero m p 0) (bump_version (bc_wrap capacity (unat p)) s))"
| push_zero: "bc_prod s = Bp_Zero m p k \<Longrightarrow> k < BROADCAST_PAYLOAD_BYTES \<Longrightarrow>
    bp_step capacity s (bp_goto (Bp_Zero m p (Suc k)) (bc_write (bc_wrap capacity (unat p)) k 0 s))"
| push_zeroed: "bc_prod s = Bp_Zero m p k \<Longrightarrow> \<not> k < BROADCAST_PAYLOAD_BYTES \<Longrightarrow> bp_step capacity s (bp_goto (Bp_Copy m p 0) s)"
| push_copy: "bc_prod s = Bp_Copy m p k \<Longrightarrow> k < length m \<Longrightarrow>
    bp_step capacity s (bp_goto (Bp_Copy m p (Suc k)) (bc_write (bc_wrap capacity (unat p)) k (m ! k) s))"
| push_copied: "bc_prod s = Bp_Copy m p k \<Longrightarrow> \<not> k < length m \<Longrightarrow> bp_step capacity s (bp_goto (Bp_Close m p) s)"
| push_close: "bc_prod s = Bp_Close m p \<Longrightarrow> bp_step capacity s (bp_goto (Bp_Bump m p) (bump_version (bc_wrap capacity (unat p)) s))"
| push_bump: "bc_prod s = Bp_Bump m p \<Longrightarrow>
    bp_step capacity s (bp_goto (Bp_Done m (Inr ())) (s\<lparr>bc_seq := bc_seq s + 1, bc_msgs := bc_msgs s @ [padded m]\<rparr>))"

text \<open>One access of a client that registers or leaves, and one of a client in \<open>try_recv\<close>.\<close>

inductive bc_member :: "nat \<Rightarrow> bc_sys \<Rightarrow> bc_sys \<Rightarrow> bool" for c where
  register_call: "bc_client s c = Bc_Out r \<Longrightarrow> bc_member c s (bc_goto c (Bc_Claim 0) s)"
| register_none: "bc_client s c = Bc_Claim i \<Longrightarrow> \<not> i < MAX_CONSUMERS \<Longrightarrow>
    bc_member c s (bc_goto c (Bc_Out (Some NoConsumerSlot)) s)"
| register_taken: "bc_client s c = Bc_Claim i \<Longrightarrow> i < MAX_CONSUMERS \<Longrightarrow> bc_active s i \<Longrightarrow>
    bc_member c s (bc_goto c (Bc_Claim (Suc i)) s)"
| register_claim: "bc_client s c = Bc_Claim i \<Longrightarrow> i < MAX_CONSUMERS \<Longrightarrow> \<not> bc_active s i \<Longrightarrow>
    bc_member c s (bc_goto c (Bc_Load i) (s\<lparr>bc_active := (bc_active s)(i := True)\<rparr>))"
| claim_call: "bc_client s c = Bc_Out r \<Longrightarrow> bc_member c s (bc_goto c (Bc_At i) s)"
| claim_refused: "bc_client s c = Bc_At i \<Longrightarrow> \<not> i < MAX_CONSUMERS \<or> bc_active s i \<Longrightarrow> bc_member c s (bc_goto c (Bc_Out None) s)"
| claim_slot: "bc_client s c = Bc_At i \<Longrightarrow> i < MAX_CONSUMERS \<Longrightarrow> \<not> bc_active s i \<Longrightarrow>
    bc_member c s (bc_goto c (Bc_Load i) (s\<lparr>bc_active := (bc_active s)(i := True)\<rparr>))"
| register_load: "bc_client s c = Bc_Load i \<Longrightarrow> bc_member c s (bc_goto c (Bc_Store i (bc_seq s)) s)"
| register_store: "bc_client s c = Bc_Store i p \<Longrightarrow>
    bc_member c s (bc_goto c (Bc_In i None)
      (s\<lparr>bc_cursor := (bc_cursor s)(i := p), bc_start := (bc_start s)(c := unat p), bc_got := (bc_got s)(c := [])\<rparr>))"
| leave_call: "bc_client s c = Bc_In i r \<Longrightarrow> bc_member c s (bc_goto c (Bc_Leave i) s)"
| leave: "bc_client s c = Bc_Leave i \<Longrightarrow> bc_member c s (bc_goto c (Bc_Out None) (s\<lparr>bc_active := (bc_active s)(i := False)\<rparr>))"

inductive bc_recv :: "nat \<Rightarrow> nat \<Rightarrow> bc_sys \<Rightarrow> bc_sys \<Rightarrow> bool" for capacity c where
  recv_call: "bc_client s c = Bc_In i r \<Longrightarrow> bc_recv capacity c s (bc_goto c (Bc_Check i n) s)"
| recv_inactive: "bc_client s c = Bc_Check i n \<Longrightarrow> \<not> bc_active s i \<Longrightarrow>
    bc_recv capacity c s (bc_goto c (Bc_In i (Some (Inl InvalidConsumer))) s)"
| recv_active: "bc_client s c = Bc_Check i n \<Longrightarrow> bc_active s i \<Longrightarrow> bc_recv capacity c s (bc_goto c (Bc_Cursor i n) s)"
| recv_cursor: "bc_client s c = Bc_Cursor i n \<Longrightarrow> bc_recv capacity c s (bc_goto c (Bc_Head i n (bc_cursor s i)) s)"
| recv_empty: "bc_client s c = Bc_Head i n my \<Longrightarrow> my \<ge> bc_seq s \<Longrightarrow>
    bc_recv capacity c s (bc_goto c (Bc_In i (Some (Inl BroadcastEmpty))) s)"
| recv_head: "bc_client s c = Bc_Head i n my \<Longrightarrow> \<not> my \<ge> bc_seq s \<Longrightarrow> bc_recv capacity c s (bc_goto c (Bc_V1 i n my) s)"
| recv_odd: "bc_client s c = Bc_V1 i n my \<Longrightarrow> bc_version s (bc_wrap capacity (unat my)) AND 1 \<noteq> 0 \<Longrightarrow>
    bc_recv capacity c s (bc_goto c (Bc_V1 i n my) s)"
| recv_even: "bc_client s c = Bc_V1 i n my \<Longrightarrow> bc_version s (bc_wrap capacity (unat my)) AND 1 = 0 \<Longrightarrow>
    bc_recv capacity c s (bc_goto c (Bc_Read i n my (bc_version s (bc_wrap capacity (unat my))) []) s)"
| recv_byte: "bc_client s c = Bc_Read i n my v1 bs \<Longrightarrow> length bs < min n BROADCAST_PAYLOAD_BYTES \<Longrightarrow>
    bc_recv capacity c s (bc_goto c (Bc_Read i n my v1 (bs @ [bc_payload s (bc_wrap capacity (unat my)) (length bs)])) s)"
| recv_all_read: "bc_client s c = Bc_Read i n my v1 bs \<Longrightarrow> \<not> length bs < min n BROADCAST_PAYLOAD_BYTES \<Longrightarrow>
    bc_recv capacity c s (bc_goto c (Bc_V2 i n my v1 bs) s)"
| recv_retry: "bc_client s c = Bc_V2 i n my v1 bs \<Longrightarrow> v1 \<noteq> bc_version s (bc_wrap capacity (unat my)) \<Longrightarrow>
    bc_recv capacity c s (bc_goto c (Bc_V1 i n my) s)"
| recv_same: "bc_client s c = Bc_V2 i n my v1 bs \<Longrightarrow> v1 = bc_version s (bc_wrap capacity (unat my)) \<Longrightarrow>
    bc_recv capacity c s (bc_goto c (Bc_Next i n my bs) s)"
| recv_next: "bc_client s c = Bc_Next i n my bs \<Longrightarrow>
    bc_recv capacity c s (bc_goto c (Bc_In i (Some (Inr bs)))
      (s\<lparr>bc_cursor := (bc_cursor s)(i := bc_cursor s i + 1), bc_got := (bc_got s)(c := bc_got s c @ [(n, bs)])\<rparr>))"

inductive bc_step :: "nat \<Rightarrow> nat \<Rightarrow> bc_sys \<Rightarrow> bc_sys \<Rightarrow> bool" for capacity c where
  by_member: "bc_member c s s' \<Longrightarrow> bc_step capacity c s s'"
| by_recv: "bc_recv capacity c s s' \<Longrightarrow> bc_step capacity c s s'"

inductive bc_reach :: "nat \<Rightarrow> bc_sys \<Rightarrow> bool" for capacity where
  bc_start: "bc_reach capacity bc_init"
| bc_push: "bc_reach capacity s \<Longrightarrow> bp_step capacity s s' \<Longrightarrow> bc_reach capacity s'"
| bc_consume: "bc_reach capacity s \<Longrightarrow> bc_step capacity c s s' \<Longrightarrow> bc_reach capacity s'"

section \<open>What can be asked at one moment\<close>

definition try_lag :: "nat \<Rightarrow> bc_sys \<Rightarrow> u64 option" where
  "try_lag i s = (if i \<ge> MAX_CONSUMERS then None else if \<not> bc_active s i then None
     else Some (if bc_cursor s i \<le> bc_seq s then bc_seq s - bc_cursor s i else 0))"

definition lag :: "nat \<Rightarrow> bc_sys \<Rightarrow> u64" where
  "lag i s = (case try_lag i s of None \<Rightarrow> - 1 | Some n \<Rightarrow> n)"

definition producer_position :: "bc_sys \<Rightarrow> u64" where
  "producer_position s = bc_seq s"

definition active_consumer_count :: "bc_sys \<Rightarrow> nat" where
  "active_consumer_count s = length (filter (bc_active s) [0..<MAX_CONSUMERS])"

definition is_fully_drained :: "bc_sys \<Rightarrow> bool" where
  "is_fully_drained s \<longleftrightarrow> \<not> (\<exists>i \<in> set [0..<MAX_CONSUMERS]. bc_active s i \<and> bc_cursor s i < bc_seq s)"

end
