(* ===== verification/Broadcast_Delivery.thy ===== *)
theory Broadcast_Delivery
  imports Broadcast_Ring
begin

text \<open>
  The broadcast ring delivers: every registered client receives the messages from its registration on, each once, in
  order and whole, and never has to wait for a slot.
\<close>

section \<open>Slots\<close>

lemma bc_wrap_mod: "bc_wrap capacity i = i mod capacity"
proof (cases "is_power_of_two capacity")
  case True
  then obtain m where m: "capacity = 2 ^ m" by (auto simp: is_power_of_two_def)
  then have "bc_wrap capacity i = i AND mask m" using True by (simp add: bc_wrap_def mask_eq_exp_minus_1)
  then show ?thesis by (simp add: m take_bit_nat_def flip: take_bit_eq_mask)
qed (simp add: bc_wrap_def)

lemma wrap_apart:
  assumes "i < j" "j < i + capacity"
  shows "bc_wrap capacity i \<noteq> bc_wrap capacity j"
proof
  assume "bc_wrap capacity i = bc_wrap capacity j"
  then have "j mod capacity = i mod capacity" by (simp add: bc_wrap_mod)
  then have "capacity dvd j - i" using assms(1) by (simp add: mod_eq_dvd_iff_nat)
  then show False using assms by (auto dest: dvd_imp_le)
qed

lemma wrap_later: "bc_wrap capacity (j + capacity) = bc_wrap capacity j"
  by (simp add: bc_wrap_mod)

section \<open>The invariant\<close>

definition prefix_of :: "bytes \<Rightarrow> bytes \<Rightarrow> bool" where
  "prefix_of bs xs \<longleftrightarrow> bs = take (length bs) xs"

lemma prefix_of_snoc: "prefix_of bs xs \<Longrightarrow> length bs < length xs \<Longrightarrow> x = xs ! length bs \<Longrightarrow> prefix_of (bs @ [x]) xs"
  by (metis prefix_of_def length_append_singleton take_Suc_conv_app_nth)

text \<open>The index a client holds, and the sequence number of the message it will receive next, once that is settled.\<close>

fun holds_index :: "bc_client \<Rightarrow> nat option" where
  "holds_index (Bc_Out r) = None"
| "holds_index (Bc_Claim i) = None"
| "holds_index (Bc_At i) = None"
| "holds_index (Bc_Load i) = Some i"
| "holds_index (Bc_Store i p) = Some i"
| "holds_index (Bc_In i r) = Some i"
| "holds_index (Bc_Check i n) = Some i"
| "holds_index (Bc_Cursor i n) = Some i"
| "holds_index (Bc_Head i n my) = Some i"
| "holds_index (Bc_V1 i n my) = Some i"
| "holds_index (Bc_Read i n my v1 bs) = Some i"
| "holds_index (Bc_V2 i n my v1 bs) = Some i"
| "holds_index (Bc_Next i n my bs) = Some i"
| "holds_index (Bc_Leave i) = Some i"

fun registered :: "bc_client \<Rightarrow> nat option" where
  "registered (Bc_Load i) = None"
| "registered (Bc_Store i p) = None"
| "registered pc = holds_index pc"

definition next_msg :: "bc_sys \<Rightarrow> bc_client \<Rightarrow> nat option" where
  "next_msg s pc = (case pc of Bc_Store i p \<Rightarrow> Some (unat p) | _ \<Rightarrow> map_option (\<lambda>i. unat (bc_cursor s i)) (registered pc))"

fun bp_writing :: "bc_producer \<Rightarrow> bool" where
  "bp_writing (Bp_Zero m p k) = True"
| "bp_writing (Bp_Copy m p k) = True"
| "bp_writing (Bp_Close m p) = True"
| "bp_writing (Bp_Bump m p) = True"
| "bp_writing _ = False"

fun committed :: "bc_producer \<Rightarrow> bool" where
  "committed (Bp_Open m p) = True"
| "committed pc = bp_writing pc"

fun slot_open :: "bc_producer \<Rightarrow> bool" where
  "slot_open (Bp_Bump m p) = False"
| "slot_open pc = bp_writing pc"

fun loaded :: "bc_producer \<Rightarrow> u64 option" where
  "loaded (Bp_Min m p) = Some p"
| "loaded (Bp_Active m p i least q) = Some p"
| "loaded (Bp_Seq m p i least q) = Some p"
| "loaded (Bp_Open m p) = Some p"
| "loaded (Bp_Zero m p k) = Some p"
| "loaded (Bp_Copy m p k) = Some p"
| "loaded (Bp_Close m p) = Some p"
| "loaded (Bp_Bump m p) = Some p"
| "loaded _ = None"

definition published :: "bc_sys \<Rightarrow> nat" where
  "published s = length (bc_msgs s)"

definition head_ok :: "bc_sys \<Rightarrow> bool" where
  "head_ok s \<longleftrightarrow> unat (bc_seq s) = published s \<and> (\<forall>m \<in> set (bc_msgs s). length m = BROADCAST_PAYLOAD_BYTES) \<and>
     (\<forall>p. loaded (bc_prod s) = Some p \<longrightarrow> p = bc_seq s) \<and> (\<forall>i. unat (bc_cursor s i) \<le> published s)"

definition indices_ok :: "bc_sys \<Rightarrow> bool" where
  "indices_ok s \<longleftrightarrow> (\<forall>i. bc_active s i \<longleftrightarrow> (\<exists>c. holds_index (bc_client s c) = Some i)) \<and>
     (\<forall>c i. holds_index (bc_client s c) = Some i \<longrightarrow> i < MAX_CONSUMERS) \<and>
     (\<forall>c c' i. holds_index (bc_client s c) = Some i \<longrightarrow> holds_index (bc_client s c') = Some i \<longrightarrow> c = c')"

text \<open>No client is more than the capacity behind, and while the producer writes none needs the slot it writes.\<close>

definition window_ok :: "nat \<Rightarrow> bc_sys \<Rightarrow> bool" where
  "window_ok capacity s \<longleftrightarrow> (\<forall>c e. next_msg s (bc_client s c) = Some e \<longrightarrow> e \<le> published s \<and>
     (if committed (bc_prod s) then published s < e + capacity else published s \<le> e + capacity))"

text \<open>What the scan has established of the first \<open>j\<close> consumers.\<close>

definition scanned :: "bc_sys \<Rightarrow> nat \<Rightarrow> u64 option \<Rightarrow> bool" where
  "scanned s j least \<longleftrightarrow> (\<forall>c i e. holds_index (bc_client s c) = Some i \<longrightarrow> i < j \<longrightarrow> next_msg s (bc_client s c) = Some e \<longrightarrow>
     e = published s \<or> (\<exists>l. least = Some l \<and> unat l \<le> e))"

fun bp_ok :: "nat \<Rightarrow> bc_sys \<Rightarrow> bc_producer \<Rightarrow> bool" where
  "bp_ok capacity s (Bp_Active m p j least q) \<longleftrightarrow> q = bc_seq s \<and> scanned s j least \<and> length m \<le> BROADCAST_PAYLOAD_BYTES"
| "bp_ok capacity s (Bp_Seq m p j least q) \<longleftrightarrow> q = bc_seq s \<and> scanned s j least \<and> length m \<le> BROADCAST_PAYLOAD_BYTES"
| "bp_ok capacity s (Bp_Zero m p k) \<longleftrightarrow> k \<le> BROADCAST_PAYLOAD_BYTES \<and> length m \<le> BROADCAST_PAYLOAD_BYTES \<and>
     (\<forall>q<k. bc_payload s (bc_wrap capacity (unat p)) q = 0)"
| "bp_ok capacity s (Bp_Copy m p k) \<longleftrightarrow> k \<le> length m \<and> length m \<le> BROADCAST_PAYLOAD_BYTES \<and>
     (\<forall>q<BROADCAST_PAYLOAD_BYTES. bc_payload s (bc_wrap capacity (unat p)) q = (if q < k then m ! q else 0))"
| "bp_ok capacity s (Bp_Close m p) \<longleftrightarrow> length m \<le> BROADCAST_PAYLOAD_BYTES \<and>
     (\<forall>q<BROADCAST_PAYLOAD_BYTES. bc_payload s (bc_wrap capacity (unat p)) q = padded m ! q)"
| "bp_ok capacity s (Bp_Bump m p) \<longleftrightarrow> length m \<le> BROADCAST_PAYLOAD_BYTES \<and>
     (\<forall>q<BROADCAST_PAYLOAD_BYTES. bc_payload s (bc_wrap capacity (unat p)) q = padded m ! q)"
| "bp_ok capacity s (Bp_Load m) \<longleftrightarrow> length m \<le> BROADCAST_PAYLOAD_BYTES"
| "bp_ok capacity s (Bp_Min m p) \<longleftrightarrow> length m \<le> BROADCAST_PAYLOAD_BYTES"
| "bp_ok capacity s (Bp_Open m p) \<longleftrightarrow> length m \<le> BROADCAST_PAYLOAD_BYTES"
| "bp_ok capacity s _ \<longleftrightarrow> True"

text \<open>The slots that hold their message; the one being written does not.\<close>

definition slots_hold :: "nat \<Rightarrow> bc_sys \<Rightarrow> bool" where
  "slots_hold capacity s \<longleftrightarrow> (\<forall>j<published s. (if bp_writing (bc_prod s) then published s < j + capacity else published s \<le> j + capacity) \<longrightarrow>
     (\<forall>q<BROADCAST_PAYLOAD_BYTES. bc_payload s (bc_wrap capacity j) q = bc_msgs s ! j ! q))"

definition versions_ok :: "nat \<Rightarrow> bc_sys \<Rightarrow> bool" where
  "versions_ok capacity s \<longleftrightarrow> (\<forall>idx. odd (bc_version s idx) \<longleftrightarrow> slot_open (bc_prod s) \<and> idx = bc_wrap capacity (published s))"

fun client_ok :: "nat \<Rightarrow> bc_sys \<Rightarrow> bc_client \<Rightarrow> bool" where
  "client_ok capacity s (Bc_Store i p) \<longleftrightarrow> bc_cursor s i \<le> p"
| "client_ok capacity s (Bc_Head i n my) \<longleftrightarrow> my = bc_cursor s i"
| "client_ok capacity s (Bc_V1 i n my) \<longleftrightarrow> my = bc_cursor s i \<and> unat my < published s"
| "client_ok capacity s (Bc_Read i n my v1 bs) \<longleftrightarrow> my = bc_cursor s i \<and> unat my < published s \<and>
     v1 = bc_version s (bc_wrap capacity (unat my)) \<and> length bs \<le> min n BROADCAST_PAYLOAD_BYTES \<and> prefix_of bs (bc_msgs s ! unat my)"
| "client_ok capacity s (Bc_V2 i n my v1 bs) \<longleftrightarrow> my = bc_cursor s i \<and> unat my < published s \<and>
     v1 = bc_version s (bc_wrap capacity (unat my)) \<and> length bs = min n BROADCAST_PAYLOAD_BYTES \<and> prefix_of bs (bc_msgs s ! unat my)"
| "client_ok capacity s (Bc_Next i n my bs) \<longleftrightarrow> my = bc_cursor s i \<and> unat my < published s \<and>
     length bs = min n BROADCAST_PAYLOAD_BYTES \<and> prefix_of bs (bc_msgs s ! unat my)"
| "client_ok capacity s _ \<longleftrightarrow> True"

text \<open>What a client has received since it registered.\<close>

definition got_ok :: "bc_sys \<Rightarrow> nat \<Rightarrow> bool" where
  "got_ok s c \<longleftrightarrow> (\<forall>i. registered (bc_client s c) = Some i \<longrightarrow> unat (bc_cursor s i) = bc_start s c + length (bc_got s c) \<and>
     (\<forall>j<length (bc_got s c). case bc_got s c ! j of (n, bs) \<Rightarrow> bs = take (min n BROADCAST_PAYLOAD_BYTES) (bc_msgs s ! (bc_start s c + j))))"

definition bc_inv :: "nat \<Rightarrow> bc_sys \<Rightarrow> bool" where
  "bc_inv capacity s \<longleftrightarrow> head_ok s \<and> indices_ok s \<and> window_ok capacity s \<and> bp_ok capacity s (bc_prod s) \<and> slots_hold capacity s \<and>
     versions_ok capacity s \<and> (\<forall>c. client_ok capacity s (bc_client s c) \<and> got_ok s c)"

lemmas bc_updates = bp_goto_def bc_goto_def bc_write_def bump_version_def

lemma bc_invD:
  assumes "bc_inv capacity s"
  shows "head_ok s" "indices_ok s" "window_ok capacity s" "bp_ok capacity s (bc_prod s)" "slots_hold capacity s" "versions_ok capacity s"
    "client_ok capacity s (bc_client s c)" "got_ok s c"
  using assms by (simp_all add: bc_inv_def)

lemma bc_init_inv: "bc_inv capacity bc_init"
  by (simp add: bc_inv_def bc_init_def head_ok_def indices_ok_def window_ok_def slots_hold_def versions_ok_def got_ok_def published_def next_msg_def)

section \<open>A step of the producer\<close>

text \<open>The producer leaves the clients, the cursors and the messages published alone.\<close>

lemma prod_keeps:
  assumes "bp_step capacity s s'"
  shows "bc_client s' = bc_client s" "bc_cursor s' = bc_cursor s" "bc_active s' = bc_active s" "bc_start s' = bc_start s" "bc_got s' = bc_got s"
    "\<exists>ms. bc_msgs s' = bc_msgs s @ ms"
  using assms by (cases rule: bp_step.cases; simp add: bc_updates)+

lemma next_same: "bc_cursor s' = bc_cursor s \<Longrightarrow> next_msg s' pc = next_msg s pc"
  by (cases pc) (simp_all add: next_msg_def)

lemma unat_next: "unat (x :: u64) + 1 < 2 ^ 64 \<Longrightarrow> unat (x + 1) = unat x + 1"
  by (simp add: unat_word_ariths)

lemma prod_head:
  assumes inv: "bc_inv capacity s" and step: "bp_step capacity s s'" and small: "published s' < 2 ^ 64"
  shows "head_ok s'"
proof -
  note i = bc_invD(1,4) [OF inv]
  from step show ?thesis
  proof cases
    case (push_bump m p)
    have "unat (bc_seq s + 1) = unat (bc_seq s) + 1"
      using i(1) small push_bump(1) by (intro unat_next) (auto simp: head_ok_def published_def bc_updates)
    then show ?thesis using i push_bump by (auto simp: head_ok_def published_def bc_updates padded_def le_Suc_eq)
  qed (use i in \<open>auto simp: head_ok_def published_def bc_updates elim!: bp_resting.elims\<close>)
qed

lemma prod_window:
  assumes inv: "bc_inv capacity s" and step: "bp_step capacity s s'" and small: "published s' < 2 ^ 64" and cap: "0 < capacity"
  shows "window_ok capacity s'"
proof -
  note i = bc_invD(1,2,3,4) [OF inv]
  have same: "next_msg s' pc = next_msg s pc" "bc_client s' = bc_client s" for pc
    by (rule next_same [OF prod_keeps(2) [OF step]]) (rule prod_keeps(1) [OF step])
  from step show ?thesis
  proof cases
    case (push_room m p j least q)
    have "published s < e + capacity" if c: "next_msg s (bc_client s c) = Some e" for c e
    proof -
      obtain i where h: "holds_index (bc_client s c) = Some i" using c by (cases "bc_client s c") (auto simp: next_msg_def)
      have "e = published s \<or> (\<exists>l. least = Some l \<and> unat l \<le> e)" if "i < j"
        using i(4) push_room(2) that h c by (auto simp: scanned_def)
      moreover have "i < MAX_CONSUMERS" using i(2) h by (simp add: indices_ok_def)
      then have "i < j" using push_room(3) by linarith
      moreover have "unat p = published s" "q = p" using i(1,4) push_room(2) by (auto simp: head_ok_def)
      ultimately show ?thesis using push_room(4) cap by (auto simp: lags_def)
    qed
    then show ?thesis using i(3) push_room same by (auto simp: window_ok_def published_def bc_updates)
  qed (use i(1,3,4) same in \<open>auto simp: window_ok_def published_def bc_updates Suc_le_eq le_Suc_eq elim!: bp_resting.elims\<close>)
qed

text \<open>The slot that is written holds none of the messages that a client may still read.\<close>

lemma written_apart:
  assumes "head_ok s" "loaded (bc_prod s) = Some p" "j < published s" "published s < j + capacity"
  shows "bc_wrap capacity j \<noteq> bc_wrap capacity (unat p)"
  using wrap_apart [OF assms(3,4)] assms(1,2) by (simp add: head_ok_def)

lemma prod_slots:
  assumes inv: "bc_inv capacity s" and step: "bp_step capacity s s'"
  shows "slots_hold capacity s'" "versions_ok capacity s'"
proof -
  note i = bc_invD(1,4,5,6) [OF inv]
  have at: "unat p = published s" if "loaded (bc_prod s) = Some p" for p using i(1) that by (simp add: head_ok_def)
  from step show "slots_hold capacity s'"
  proof cases
    case (push_zero m p k)
    then show ?thesis using i(3) written_apart [OF i(1), of p] by (auto simp: slots_hold_def published_def bc_updates)
  next
    case (push_copy m p k)
    then show ?thesis using i(3) written_apart [OF i(1), of p] by (auto simp: slots_hold_def published_def bc_updates)
  next
    case (push_bump m p)
    then show ?thesis using i(2,3) at [of p] by (auto simp: slots_hold_def published_def bc_updates nth_append less_Suc_eq)
  qed (use i(3) in \<open>auto simp: slots_hold_def published_def bc_updates elim!: bp_resting.elims\<close>)
  from step show "versions_ok capacity s'"
  proof cases
    case (push_bump m p)
    then show ?thesis using i(4) by (auto simp: versions_ok_def published_def bc_updates)
  qed (use i(4) at in \<open>auto simp: versions_ok_def published_def bc_updates elim!: bp_resting.elims\<close>)
qed

lemma scanned_next:
  assumes "\<And>c e. holds_index (bc_client s c) = Some j \<Longrightarrow> next_msg s (bc_client s c) = Some e \<Longrightarrow> unat (bc_cursor s j) \<le> e"
    and "scanned s j least"
  shows "scanned s (Suc j) (smallest least (bc_cursor s j))"
proof -
  obtain l where l: "smallest least (bc_cursor s j) = Some l" "unat l \<le> unat (bc_cursor s j)"
    "\<And>l'. least = Some l' \<Longrightarrow> unat l \<le> unat l'"
    by (cases least) (auto simp: smallest_def word_less_nat_alt)
  have "e = published s \<or> unat l \<le> e"
    if "holds_index (bc_client s c) = Some i" "i < Suc j" "next_msg s (bc_client s c) = Some e" for c i e
  proof (cases "i = j")
    case True
    then show ?thesis using assms(1) [of c e] that l(2) by simp
  next
    case False
    then have "e = published s \<or> (\<exists>l'. least = Some l' \<and> unat l' \<le> e)" using assms(2) that by (simp add: scanned_def)
    then show ?thesis using l(3) order_trans by blast
  qed
  then show ?thesis using l(1) by (simp add: scanned_def)
qed

lemma prod_self:
  assumes inv: "bc_inv capacity s" and step: "bp_step capacity s s'"
  shows "bp_ok capacity s' (bc_prod s')"
proof -
  note i = bc_invD(1,2,4) [OF inv]
  have same: "next_msg s' pc = next_msg s pc" for pc by (rule next_same [OF prod_keeps(2) [OF step]])
  from step show ?thesis
  proof cases
    case (min_skip m p j least q)
    have "\<not> (\<exists>c. holds_index (bc_client s c) = Some j)" using i(2) min_skip(4) by (simp add: indices_ok_def)
    then show ?thesis using i(3) min_skip same by (auto simp: scanned_def published_def bc_updates less_Suc_eq)
  next
    case (min_seq m p j least q)
    have "unat (bc_cursor s j) \<le> e" if "holds_index (bc_client s c) = Some j" "next_msg s (bc_client s c) = Some e" for c e
      using that bc_invD(7) [OF inv, of c] by (cases "bc_client s c") (auto simp: next_msg_def word_le_nat_alt)
    moreover have "scanned s j least" using i(3) unfolding min_seq(2) by simp
    ultimately have "scanned s (Suc j) (smallest least (bc_cursor s j))" by (rule scanned_next)
    then show ?thesis using i(3) min_seq same by (simp add: scanned_def published_def bc_updates)
  next
    case (push_copied m p k)
    then show ?thesis using i(3) by (auto simp: bc_updates padded_def nth_append)
  qed (use i(1,3) same in \<open>auto simp: scanned_def published_def bc_updates head_ok_def less_Suc_eq elim!: bp_resting.elims\<close>)
qed

lemma prod_clients:
  assumes inv: "bc_inv capacity s" and step: "bp_step capacity s s'"
  shows "client_ok capacity s' (bc_client s' c)" "got_ok s' c" "indices_ok s'"
proof -
  note k = prod_keeps [OF step]
  show "indices_ok s'" using bc_invD(2) [OF inv] k by (simp add: indices_ok_def)
  obtain ms where ms: "bc_msgs s' = bc_msgs s @ ms" using k(6) by blast
  have bounded: "unat (bc_cursor s i) \<le> length (bc_msgs s)" for i using bc_invD(1) [OF inv] by (simp add: head_ok_def published_def)
  have "\<forall>j<length (bc_got s c). bc_start s c + j < length (bc_msgs s)" if "registered (bc_client s c) = Some i" for i
    using that bc_invD(8) [OF inv, of c] bounded [of i] by (auto simp: got_ok_def)
  then show "got_ok s' c" using bc_invD(8) [OF inv, of c] k by (auto simp: got_ok_def ms nth_append)
  have "bc_version s' (bc_wrap capacity j) = bc_version s (bc_wrap capacity j)" if "j < published s" "next_msg s (bc_client s c) = Some j" for j
  proof -
    have "committed (bc_prod s) \<Longrightarrow> published s < j + capacity" using bc_invD(3) [OF inv] that(2) by (auto simp: window_ok_def)
    then have "loaded (bc_prod s) = Some p \<Longrightarrow> committed (bc_prod s) \<Longrightarrow> bc_wrap capacity j \<noteq> bc_wrap capacity (unat p)" for p
      using written_apart [OF bc_invD(1) [OF inv] _ that(1)] by blast
    with step show ?thesis by cases (auto simp: bc_updates)
  qed
  then show "client_ok capacity s' (bc_client s' c)"
    using bc_invD(7) [OF inv, of c] k(1,2) ms by (cases "bc_client s c") (auto simp: published_def nth_append next_msg_def)
qed

lemma bc_prod_step_inv:
  assumes "bc_inv capacity s" "bp_step capacity s s'" "published s' < 2 ^ 64" "0 < capacity"
  shows "bc_inv capacity s'"
  using prod_head [OF assms(1-3)] prod_window [OF assms] prod_slots [OF assms(1,2)] prod_self [OF assms(1,2)] prod_clients [OF assms(1,2)]
  by (simp add: bc_inv_def)

section \<open>A step of a client\<close>

text \<open>A client leaves the producer's side and the other clients alone; a cursor it moves is its own, and only forward.\<close>

lemmas client_cases = bc_step.cases bc_member.cases bc_recv.cases

lemma client_keeps:
  assumes "bc_step capacity c s s'"
  shows "bc_prod s' = bc_prod s" "bc_seq s' = bc_seq s" "bc_msgs s' = bc_msgs s" "bc_version s' = bc_version s" "bc_payload s' = bc_payload s"
    "\<And>d. d \<noteq> c \<Longrightarrow> bc_client s' d = bc_client s d" "\<And>d. d \<noteq> c \<Longrightarrow> bc_start s' d = bc_start s d" "\<And>d. d \<noteq> c \<Longrightarrow> bc_got s' d = bc_got s d"
    "\<And>i. holds_index (bc_client s c) \<noteq> Some i \<Longrightarrow> bc_cursor s' i = bc_cursor s i"
  using assms by (auto simp: bc_updates elim!: client_cases)

text \<open>An index changes hands only through a claim of a free one and a release.\<close>

lemma claim_index:
  assumes "indices_ok s" "\<not> bc_active s i" "i < MAX_CONSUMERS" "holds_index (bc_client s c) = None" "holds_index pc = Some i"
  shows "indices_ok (bc_goto c pc (s\<lparr>bc_active := (bc_active s)(i := True)\<rparr>))"
proof -
  have free: "holds_index (bc_client s d) \<noteq> Some i" for d using assms(1,2) by (auto simp: indices_ok_def)
  have held: "holds_index (bc_client s d) = Some k \<Longrightarrow> d \<noteq> c" for d k using assms(4) by auto
  have "bc_active s k \<longleftrightarrow> (\<exists>d. d \<noteq> c \<and> holds_index (bc_client s d) = Some k)" for k
    using assms(1) held by (auto simp: indices_ok_def)
  moreover have "holds_index (bc_client s d) = Some k \<Longrightarrow> k < MAX_CONSUMERS" for d k using assms(1) by (auto simp: indices_ok_def)
  moreover have "holds_index (bc_client s d) = Some k \<Longrightarrow> holds_index (bc_client s d') = Some k \<Longrightarrow> d = d'" for d d' k
    using assms(1) by (auto simp: indices_ok_def)
  ultimately show ?thesis using assms(3,5) free by (simp add: indices_ok_def bc_updates) blast
qed

lemma release_index:
  assumes "indices_ok s" "holds_index (bc_client s c) = Some i" "holds_index pc = None"
  shows "indices_ok (bc_goto c pc (s\<lparr>bc_active := (bc_active s)(i := False)\<rparr>))"
proof -
  have one: "holds_index (bc_client s d) = Some k \<Longrightarrow> holds_index (bc_client s d') = Some k \<Longrightarrow> d = d'" for d d' k
    using assms(1) by (auto simp: indices_ok_def)
  have "bc_active s k \<and> k \<noteq> i \<longleftrightarrow> (\<exists>d. d \<noteq> c \<and> holds_index (bc_client s d) = Some k)" for k
    using assms(1,2) one [of c k] unfolding indices_ok_def by (metis option.inject)
  moreover have "holds_index (bc_client s d) = Some k \<Longrightarrow> k < MAX_CONSUMERS" for d k using assms(1) by (auto simp: indices_ok_def)
  ultimately show ?thesis using assms(3)
    unfolding indices_ok_def bc_updates by (auto split: if_splits dest: one) metis
qed

lemma keep_index:
  assumes "indices_ok s" "bc_active s' = bc_active s" "\<And>d. holds_index (bc_client s' d) = holds_index (bc_client s d)"
  shows "indices_ok s'"
  using assms by (simp add: indices_ok_def)

lemma client_indices:
  assumes inv: "bc_inv capacity s" and step: "bc_step capacity c s s'"
  shows "indices_ok s'"
  using step
proof cases
  case by_member
  then show ?thesis
  proof cases
    case (register_claim i)
    then show ?thesis using claim_index [OF bc_invD(2) [OF inv], of i c "Bc_Load i"] by simp
  next
    case (claim_slot i)
    then show ?thesis using claim_index [OF bc_invD(2) [OF inv], of i c "Bc_Load i"] by simp
  next
    case (leave i)
    then show ?thesis using release_index [OF bc_invD(2) [OF inv], of c i "Bc_Out None"] by simp
  qed (rule keep_index [OF bc_invD(2) [OF inv]]; simp add: bc_updates)+
next
  case by_recv
  then show ?thesis by cases (rule keep_index [OF bc_invD(2) [OF inv]]; simp add: bc_updates)+
qed

text \<open>The client's next message only moves forward, to no more than what is published.\<close>

lemma next_bound: "bc_inv capacity s \<Longrightarrow> next_msg s (bc_client s c) = Some e \<Longrightarrow> e \<le> published s"
  using bc_invD(3) by (fastforce simp: window_ok_def)

lemma client_next:
  assumes inv: "bc_inv capacity s" and step: "bc_step capacity c s s'" and small: "published s < 2 ^ 64"
    and e': "next_msg s' (bc_client s' c) = Some e'"
  shows "e' = published s \<or> (\<exists>e. next_msg s (bc_client s c) = Some e \<and> e \<le> e' \<and> e' \<le> published s)"
proof -
  note i = bc_invD(1) [OF inv] next_bound [OF inv, of c] bc_invD(7) [OF inv, of c]
  from step show ?thesis
  proof cases
    case by_member
    then show ?thesis
    proof cases
      case (register_load i)
      then show ?thesis using i(1) e' by (auto simp: next_msg_def bc_updates head_ok_def)
    qed (use i(1,2) e' in \<open>auto simp: next_msg_def bc_updates\<close>)
  next
    case by_recv
    then show ?thesis
    proof cases
      case (recv_next i n my bs)
      then have "unat (bc_cursor s i + 1) = unat (bc_cursor s i) + 1" using i(3) small by (intro unat_next) auto
      then show ?thesis using recv_next i(3) e' by (auto simp: next_msg_def bc_updates)
    qed (use i(1,2) e' in \<open>auto simp: next_msg_def bc_updates\<close>)
  qed
qed

lemma other_next:
  assumes inv: "bc_inv capacity s" and step: "bc_step capacity c s s'" and d: "d \<noteq> c"
  shows "next_msg s' (bc_client s' d) = next_msg s (bc_client s d)"
proof -
  have "bc_cursor s' i = bc_cursor s i" if "holds_index (bc_client s d) = Some i" for i
    using that d bc_invD(2) [OF inv] client_keeps(9) [OF step, of i] unfolding indices_ok_def by blast
  then show ?thesis using client_keeps(6) [OF step d] by (cases "bc_client s d") (auto simp: next_msg_def)
qed

lemma client_window:
  assumes inv: "bc_inv capacity s" and step: "bc_step capacity c s s'" and small: "published s < 2 ^ 64" and cap: "0 < capacity"
  shows "window_ok capacity s'"
proof -
  have k: "published s' = published s" "bc_prod s' = bc_prod s" using client_keeps [OF step] by (simp_all add: published_def)
  have w: "e \<le> published s \<and> (if committed (bc_prod s) then published s < e + capacity else published s \<le> e + capacity)"
    if "next_msg s (bc_client s d) = Some e" for d e using bc_invD(3) [OF inv] that by (auto simp: window_ok_def)
  have "e \<le> published s \<and> (if committed (bc_prod s) then published s < e + capacity else published s \<le> e + capacity)"
    if "next_msg s' (bc_client s' d) = Some e" for d e
  proof (cases "d = c")
    case True
    then show ?thesis using client_next [OF inv step small] w [of c] that cap by (cases "committed (bc_prod s)") force+
  next
    case False
    then show ?thesis using other_next [OF inv step] w that by simp
  qed
  then show ?thesis using k by (simp add: window_ok_def)
qed

lemma client_scanned:
  assumes inv: "bc_inv capacity s" and step: "bc_step capacity c s s'" and small: "published s < 2 ^ 64" and scan: "scanned s j least"
  shows "scanned s' j least"
proof -
  have k: "published s' = published s" using client_keeps [OF step] by (simp add: published_def)
  have holds: "holds_index (bc_client s c) = holds_index (bc_client s' c)" if "next_msg s (bc_client s c) \<noteq> None" "next_msg s' (bc_client s' c) \<noteq> None"
    using step that by (auto simp: bc_updates next_msg_def elim!: client_cases)
  have "e' = published s \<or> (\<exists>l. least = Some l \<and> unat l \<le> e')"
    if "holds_index (bc_client s' d) = Some i" "i < j" "next_msg s' (bc_client s' d) = Some e'" for d i e'
  proof (cases "d = c")
    case True
    from client_next [OF inv step small that(3) [unfolded True]] show ?thesis
    proof (elim disjE exE conjE)
      fix e assume e: "next_msg s (bc_client s c) = Some e" "e \<le> e'" "e' \<le> published s"
      then have "holds_index (bc_client s c) = Some i" using holds that(1,3) True by simp
      then have "e = published s \<or> (\<exists>l. least = Some l \<and> unat l \<le> e)" using scan e(1) that(2) by (simp add: scanned_def)
      then show ?thesis using e(2,3) by (auto intro: order_trans)
    qed simp
  next
    case False
    then show ?thesis using other_next [OF inv step] client_keeps(6) [OF step] scan that by (simp add: scanned_def)
  qed
  then show ?thesis using k by (simp add: scanned_def)
qed

lemma client_prod:
  assumes inv: "bc_inv capacity s" and step: "bc_step capacity c s s'" and small: "published s < 2 ^ 64"
  shows "bp_ok capacity s' (bc_prod s')"
  using bc_invD(4) [OF inv] client_scanned [OF inv step small] client_keeps(1,2,5) [OF step] by (cases "bc_prod s") auto

lemma client_head:
  assumes inv: "bc_inv capacity s" and step: "bc_step capacity c s s'" and small: "published s < 2 ^ 64"
  shows "head_ok s'" "slots_hold capacity s'" "versions_ok capacity s'"
proof -
  note k = client_keeps [OF step] and h = bc_invD(1) [OF inv]
  have "unat (bc_cursor s' i) \<le> published s" for i
    using step h bc_invD(7) [OF inv, of c] next_bound [OF inv, of c] small
    by (auto simp: bc_updates head_ok_def next_msg_def unat_next elim!: client_cases)
  then show "head_ok s'" using h k by (simp add: head_ok_def published_def)
  show "slots_hold capacity s'" "versions_ok capacity s'"
    using bc_invD(5,6) [OF inv] k by (simp_all add: slots_hold_def versions_ok_def published_def)
qed

text \<open>Nobody who reads finds the slot open, and what it reads is the message.\<close>

lemma my_slot:
  assumes inv: "bc_inv capacity s" and c: "next_msg s (bc_client s c) = Some j" and j: "j < published s"
  shows "even (bc_version s (bc_wrap capacity j))"
    and "k < BROADCAST_PAYLOAD_BYTES \<Longrightarrow> bc_payload s (bc_wrap capacity j) k = bc_msgs s ! j ! k"
proof -
  have w: "if committed (bc_prod s) then published s < j + capacity else published s \<le> j + capacity"
    using bc_invD(3) [OF inv] c by (auto simp: window_ok_def)
  have writes: "slot_open (bc_prod s) \<Longrightarrow> bp_writing (bc_prod s)" "bp_writing (bc_prod s) \<Longrightarrow> committed (bc_prod s)"
    by (cases "bc_prod s"; simp)+
  show "even (bc_version s (bc_wrap capacity j))"
    using bc_invD(6) [OF inv] writes w wrap_apart [OF j, of capacity] by (auto simp: versions_ok_def)
  show "bc_payload s (bc_wrap capacity j) k = bc_msgs s ! j ! k" if "k < BROADCAST_PAYLOAD_BYTES"
    using bc_invD(5) [OF inv] writes(2) w j that by (auto simp: slots_hold_def split: if_splits)
qed

lemma reading_next:
  assumes "client_ok capacity s pc"
  shows "pc = Bc_V1 i n my \<Longrightarrow> next_msg s pc = Some (unat my) \<and> unat my < published s"
    and "pc = Bc_Read i n my v1 bs \<Longrightarrow> next_msg s pc = Some (unat my) \<and> unat my < published s"
  using assms by (auto simp: next_msg_def)

lemma client_self:
  assumes inv: "bc_inv capacity s" and step: "bc_step capacity c s s'"
  shows "client_ok capacity s' (bc_client s' c)"
proof -
  note h = bc_invD(1) [OF inv] and ok = bc_invD(7) [OF inv, of c]
  from step show ?thesis
  proof cases
    case by_member
    then show ?thesis
    proof cases
      case (register_load i)
      then show ?thesis using h by (simp add: bc_updates head_ok_def word_le_nat_alt)
    qed (use ok in \<open>auto simp: bc_updates\<close>)
  next
    case by_recv
    then show ?thesis
    proof cases
      case (recv_byte i n my v1 bs)
      note at_my = reading_next(2) [OF ok recv_byte(2)]
      have k: "length bs < BROADCAST_PAYLOAD_BYTES" using recv_byte(3) by simp
      have "bc_payload s (bc_wrap capacity (unat my)) (length bs) = bc_msgs s ! unat my ! length bs"
        using my_slot(2) [OF inv, of c "unat my"] at_my k by simp
      moreover have "length (bc_msgs s ! unat my) = BROADCAST_PAYLOAD_BYTES" using h at_my by (simp add: head_ok_def published_def)
      ultimately have "prefix_of (bs @ [bc_payload s (bc_wrap capacity (unat my)) (length bs)]) (bc_msgs s ! unat my)"
        using ok recv_byte(2) k by (intro prefix_of_snoc) auto
      then show ?thesis using ok recv_byte by (auto simp: bc_updates published_def)
    next
      case (recv_head i n my)
      then show ?thesis using h ok by (auto simp: bc_updates head_ok_def word_le_nat_alt published_def)
    next
      case (recv_even i n my)
      then show ?thesis using ok by (auto simp: bc_updates prefix_of_def published_def)
    qed (use ok in \<open>auto simp: bc_updates published_def\<close>)
  qed
qed

lemma other_client:
  assumes inv: "bc_inv capacity s" and step: "bc_step capacity c s s'" and d: "d \<noteq> c"
  shows "client_ok capacity s' (bc_client s' d)" "got_ok s' d"
proof -
  note k = client_keeps [OF step]
  have cur: "bc_cursor s' i = bc_cursor s i" if "holds_index (bc_client s d) = Some i" for i
    using that d bc_invD(2) [OF inv] k(9) [of i] unfolding indices_ok_def by blast
  show "client_ok capacity s' (bc_client s' d)"
    using bc_invD(7) [OF inv, of d] k(3,4) k(6) [OF d] cur by (cases "bc_client s d") (auto simp: published_def)
  have "registered pc = Some i \<Longrightarrow> holds_index pc = Some i" for pc i by (cases pc) auto
  then show "got_ok s' d" using bc_invD(8) [OF inv, of d] k(3) k(6-8) [OF d] cur by (simp add: got_ok_def)
qed

lemma client_got:
  assumes inv: "bc_inv capacity s" and step: "bc_step capacity c s s'" and small: "published s < 2 ^ 64"
  shows "got_ok s' c"
proof -
  note ok = bc_invD(7) [OF inv, of c] and got = bc_invD(8) [OF inv, of c]
  from step show ?thesis
  proof cases
    case by_recv
    then show ?thesis
    proof cases
      case (recv_next i n my bs)
      have "unat (bc_cursor s i + 1) = unat (bc_cursor s i) + 1" using recv_next(2) ok small by (intro unat_next) auto
      moreover have "bs = take (min n BROADCAST_PAYLOAD_BYTES) (bc_msgs s ! unat (bc_cursor s i))"
        using recv_next(2) ok by (auto simp: prefix_of_def)
      ultimately show ?thesis using got recv_next by (auto simp: got_ok_def bc_updates nth_append less_Suc_eq)
    qed (use got in \<open>auto simp: got_ok_def bc_updates\<close>)
  next
    case by_member
    then show ?thesis using got by cases (auto simp: got_ok_def bc_updates)
  qed
qed

lemma client_step_inv:
  assumes "bc_inv capacity s" "bc_step capacity c s s'" "published s < 2 ^ 64" "0 < capacity"
  shows "bc_inv capacity s'"
proof -
  have "client_ok capacity s' (bc_client s' d) \<and> got_ok s' d" for d
    using client_self [OF assms(1,2)] client_got [OF assms(1-3)] other_client [OF assms(1,2)] by (cases "d = c") auto
  then show ?thesis
    using client_head [OF assms(1-3)] client_indices [OF assms(1,2)] client_window [OF assms] client_prod [OF assms(1-3)]
    by (simp add: bc_inv_def)
qed

lemma bc_reach_inv:
  assumes "bc_reach capacity s" "0 < capacity" "length (bc_msgs s) < 2 ^ 64"
  shows "bc_inv capacity s"
  using assms(1,3)
proof (induction rule: bc_reach.induct)
  case bc_start
  show ?case by (rule bc_init_inv)
next
  case (bc_push s s')
  have "\<exists>ms. bc_msgs s' = bc_msgs s @ ms" by (rule prod_keeps [OF bc_push(2)])
  then have "bc_inv capacity s" using bc_push by auto
  then show ?case using bc_push(2,4) assms(2) by (rule bc_prod_step_inv [unfolded published_def])
next
  case (bc_consume s c s')
  then have "length (bc_msgs s) < 2 ^ 64" "bc_inv capacity s" using client_keeps(3) by simp_all
  then show ?case using client_step_inv bc_consume(2) assms(2) by (simp add: published_def)
qed

section \<open>Schedules\<close>

text \<open>The next access of the producer and of a client, as functions, for runs that are computed.\<close>

fun producer_next :: "nat \<Rightarrow> bytes \<Rightarrow> bc_producer \<Rightarrow> bc_sys \<Rightarrow> bc_sys" where
  "producer_next capacity _ (Bp_Load m) s = bp_goto (Bp_Min m (bc_seq s)) s"
| "producer_next capacity _ (Bp_Min m p) s = bp_goto (Bp_Active m p 0 None (bc_seq s)) s"
| "producer_next capacity _ (Bp_Active m p i least q) s =
     (if i < MAX_CONSUMERS then (if bc_active s i then bp_goto (Bp_Seq m p i least q) s else bp_goto (Bp_Active m p (Suc i) least q) s)
      else if lags capacity p q least then bp_goto (Bp_Done m (Inl BroadcastFull)) s else bp_goto (Bp_Open m p) s)"
| "producer_next capacity _ (Bp_Seq m p i least q) s = bp_goto (Bp_Active m p (Suc i) (smallest least (bc_cursor s i)) q) s"
| "producer_next capacity _ (Bp_Open m p) s = bp_goto (Bp_Zero m p 0) (bump_version (bc_wrap capacity (unat p)) s)"
| "producer_next capacity _ (Bp_Zero m p k) s =
     (if k < BROADCAST_PAYLOAD_BYTES then bp_goto (Bp_Zero m p (Suc k)) (bc_write (bc_wrap capacity (unat p)) k 0 s) else bp_goto (Bp_Copy m p 0) s)"
| "producer_next capacity _ (Bp_Copy m p k) s =
     (if k < length m then bp_goto (Bp_Copy m p (Suc k)) (bc_write (bc_wrap capacity (unat p)) k (m ! k) s) else bp_goto (Bp_Close m p) s)"
| "producer_next capacity _ (Bp_Close m p) s = bp_goto (Bp_Bump m p) (bump_version (bc_wrap capacity (unat p)) s)"
| "producer_next capacity _ (Bp_Bump m p) s =
     bp_goto (Bp_Done m (Inr ())) (s\<lparr>bc_seq := bc_seq s + 1, bc_msgs := bc_msgs s @ [padded m]\<rparr>)"
| "producer_next capacity m _ s =
     (if length m > BROADCAST_PAYLOAD_BYTES then bp_goto (Bp_Done m (Inl BroadcastTooLarge)) s else bp_goto (Bp_Load m) s)"

fun client_next_access :: "nat \<Rightarrow> nat \<Rightarrow> nat \<Rightarrow> bc_client \<Rightarrow> bc_sys \<Rightarrow> bc_sys" where
  "client_next_access capacity c _ (Bc_Out r) s = bc_goto c (Bc_Claim 0) s"
| "client_next_access capacity c _ (Bc_Claim i) s =
     (if \<not> i < MAX_CONSUMERS then bc_goto c (Bc_Out (Some NoConsumerSlot)) s
      else if bc_active s i then bc_goto c (Bc_Claim (Suc i)) s else bc_goto c (Bc_Load i) (s\<lparr>bc_active := (bc_active s)(i := True)\<rparr>))"
| "client_next_access capacity c _ (Bc_At i) s =
     (if i < MAX_CONSUMERS \<and> \<not> bc_active s i then bc_goto c (Bc_Load i) (s\<lparr>bc_active := (bc_active s)(i := True)\<rparr>) else bc_goto c (Bc_Out None) s)"
| "client_next_access capacity c _ (Bc_Load i) s = bc_goto c (Bc_Store i (bc_seq s)) s"
| "client_next_access capacity c _ (Bc_Store i p) s = bc_goto c (Bc_In i None)
     (s\<lparr>bc_cursor := (bc_cursor s)(i := p), bc_start := (bc_start s)(c := unat p), bc_got := (bc_got s)(c := [])\<rparr>)"
| "client_next_access capacity c n (Bc_In i r) s = bc_goto c (Bc_Check i n) s"
| "client_next_access capacity c _ (Bc_Check i n) s =
     (if bc_active s i then bc_goto c (Bc_Cursor i n) s else bc_goto c (Bc_In i (Some (Inl InvalidConsumer))) s)"
| "client_next_access capacity c _ (Bc_Cursor i n) s = bc_goto c (Bc_Head i n (bc_cursor s i)) s"
| "client_next_access capacity c _ (Bc_Head i n my) s =
     (if my \<ge> bc_seq s then bc_goto c (Bc_In i (Some (Inl BroadcastEmpty))) s else bc_goto c (Bc_V1 i n my) s)"
| "client_next_access capacity c _ (Bc_V1 i n my) s =
     (if bc_version s (bc_wrap capacity (unat my)) AND 1 \<noteq> 0 then bc_goto c (Bc_V1 i n my) s
      else bc_goto c (Bc_Read i n my (bc_version s (bc_wrap capacity (unat my))) []) s)"
| "client_next_access capacity c _ (Bc_Read i n my v1 bs) s =
     (if length bs < min n BROADCAST_PAYLOAD_BYTES
      then bc_goto c (Bc_Read i n my v1 (bs @ [bc_payload s (bc_wrap capacity (unat my)) (length bs)])) s else bc_goto c (Bc_V2 i n my v1 bs) s)"
| "client_next_access capacity c _ (Bc_V2 i n my v1 bs) s =
     (if v1 \<noteq> bc_version s (bc_wrap capacity (unat my)) then bc_goto c (Bc_V1 i n my) s else bc_goto c (Bc_Next i n my bs) s)"
| "client_next_access capacity c _ (Bc_Next i n my bs) s = bc_goto c (Bc_In i (Some (Inr bs)))
     (s\<lparr>bc_cursor := (bc_cursor s)(i := bc_cursor s i + 1), bc_got := (bc_got s)(c := bc_got s c @ [(n, bs)])\<rparr>)"
| "client_next_access capacity c _ (Bc_Leave i) s = bc_goto c (Bc_Out None) (s\<lparr>bc_active := (bc_active s)(i := False)\<rparr>)"

datatype bc_turn = Push bytes | Client nat nat

fun bc_move :: "nat \<Rightarrow> bc_turn \<Rightarrow> bc_sys \<Rightarrow> bc_sys" where
  "bc_move capacity (Push m) s = producer_next capacity m (bc_prod s) s"
| "bc_move capacity (Client c n) s = client_next_access capacity c n (bc_client s c) s"

lemma producer_next_step: "bp_step capacity s (producer_next capacity m (bc_prod s) s)"
  by (cases "bc_prod s") (auto intro: bp_step.intros)

lemma client_next_step: "bc_step capacity c s (client_next_access capacity c n (bc_client s c) s)"
  by (cases "bc_client s c") (simp_all add: bc_step.simps bc_member.intros bc_recv.intros)

lemma bc_run_reach: "bc_reach capacity s \<Longrightarrow> bc_reach capacity (fold (bc_move capacity) sched s)"
proof (induction sched arbitrary: s)
  case (Cons m sched)
  have "bc_reach capacity (bc_move capacity m s)"
    using bc_push [OF Cons.prems producer_next_step] bc_consume [OF Cons.prems client_next_step] by (cases m) simp_all
  then show ?case using Cons.IH by simp
qed simp

text \<open>A whole push, alone, with \<open>active\<close> consumers registered.\<close>

definition one_push :: "nat \<Rightarrow> bytes \<Rightarrow> bc_turn list" where
  "one_push active m = replicate (MAX_CONSUMERS + active + BROADCAST_PAYLOAD_BYTES + length m + 9) (Push m)"

abbreviation bc_run :: "nat \<Rightarrow> bc_turn list \<Rightarrow> bc_sys" where
  "bc_run capacity sched \<equiv> fold (bc_move capacity) sched bc_init"

section \<open>The ring delivers\<close>

text \<open>Whether the next access of \<open>try_recv\<close> sends it back to the start of its loop.\<close>

fun must_retry :: "nat \<Rightarrow> bc_sys \<Rightarrow> bc_client \<Rightarrow> bool" where
  "must_retry capacity s (Bc_V1 i n my) \<longleftrightarrow> bc_version s (bc_wrap capacity (unat my)) AND 1 \<noteq> 0"
| "must_retry capacity s (Bc_V2 i n my v1 bs) \<longleftrightarrow> v1 \<noteq> bc_version s (bc_wrap capacity (unat my))"
| "must_retry capacity s _ \<longleftrightarrow> False"

lemma never_retries:
  assumes inv: "bc_inv capacity s"
  shows "\<not> must_retry capacity s (bc_client s c)"
proof (cases "bc_client s c")
  case (Bc_V1 i n my)
  have "even (bc_version s (bc_wrap capacity (unat my)))"
    using my_slot(1) [OF inv] reading_next(1) [OF bc_invD(7) [OF inv] Bc_V1] by blast
  then show ?thesis using Bc_V1 by (simp add: and_one_eq even_iff_mod_2_eq_zero)
next
  case (Bc_V2 i n my v1 bs)
  then show ?thesis using bc_invD(7) [OF inv, of c] by simp
qed simp_all

lemma lag_exact:
  assumes inv: "bc_inv capacity s" and reg: "registered (bc_client s c) = Some i"
  shows "unat (lag i s) = length (bc_msgs s) - unat (bc_cursor s i)" "unat (lag i s) \<le> capacity"
proof -
  have holds: "holds_index (bc_client s c) = Some i" and nxt: "next_msg s (bc_client s c) = Some (unat (bc_cursor s i))"
    using reg by (cases "bc_client s c"; simp add: next_msg_def)+
  have "i < MAX_CONSUMERS" "bc_active s i" using bc_invD(2) [OF inv] holds by (auto simp: indices_ok_def)
  moreover have "unat (bc_seq s) = length (bc_msgs s)" "unat (bc_cursor s i) \<le> length (bc_msgs s)"
    using bc_invD(1) [OF inv] by (simp_all add: head_ok_def published_def)
  ultimately show eq: "unat (lag i s) = length (bc_msgs s) - unat (bc_cursor s i)"
    by (simp add: lag_def try_lag_def word_le_nat_alt unat_sub)
  have "length (bc_msgs s) \<le> unat (bc_cursor s i) + capacity"
    using bc_invD(3) [OF inv] nxt by (cases "committed (bc_prod s)") (fastforce simp: window_ok_def published_def)+
  then show "unat (lag i s) \<le> capacity" using eq by simp
qed

lemma got_exact:
  assumes inv: "bc_inv capacity s" and reg: "registered (bc_client s c) = Some i"
  shows "bc_start s c + length (bc_got s c) \<le> length (bc_msgs s)"
    and "j < length (bc_got s c) \<Longrightarrow> bc_got s c ! j = (n, bs) \<Longrightarrow> bs = take n (bc_msgs s ! (bc_start s c + j))"
proof -
  have "unat (bc_cursor s i) = bc_start s c + length (bc_got s c)" using bc_invD(8) [OF inv, of c] reg by (simp add: got_ok_def)
  moreover have "unat (bc_cursor s i) \<le> length (bc_msgs s)" using bc_invD(1) [OF inv] by (simp add: head_ok_def published_def)
  ultimately show len: "bc_start s c + length (bc_got s c) \<le> length (bc_msgs s)" by simp
  assume j: "j < length (bc_got s c)" and nb: "bc_got s c ! j = (n, bs)"
  have "bs = take (min n BROADCAST_PAYLOAD_BYTES) (bc_msgs s ! (bc_start s c + j))"
    using bc_invD(8) [OF inv, of c] reg j nb by (fastforce simp: got_ok_def)
  moreover have "length (bc_msgs s ! (bc_start s c + j)) = BROADCAST_PAYLOAD_BYTES"
    using bc_invD(1) [OF inv] j len by (simp add: head_ok_def)
  ultimately show "bs = take n (bc_msgs s ! (bc_start s c + j))" by (cases "n \<le> BROADCAST_PAYLOAD_BYTES") simp_all
qed

text \<open>
  C12. The broadcast ring delivers: over any interleaving of one producer with any number of clients that register,
  receive and leave, at single accesses of the header and single bytes of the slots, what a registered client has
  received, into buffers of at least the payload of a slot, are the messages published from its registration on, without
  a gap, a repetition or a torn byte, each filled up with zeros to the payload. The lag that is reported is the
  number of messages still to come, at most the capacity, and a receive never finds its slot being written, so it never
  runs its loop twice. (The sequence numbers are taken not to wrap, and a client to use the index it holds.)
\<close>

theorem broadcast_delivers:
  assumes "bc_reach capacity s" "0 < capacity" "length (bc_msgs s) < 2 ^ 64" "registered (bc_client s c) = Some i"
  shows "bc_start s c + length (bc_got s c) + unat (lag i s) = length (bc_msgs s) \<and>
    ((\<forall>(n, _) \<in> set (bc_got s c). BROADCAST_PAYLOAD_BYTES \<le> n) \<longrightarrow>
      map snd (bc_got s c) = take (length (bc_got s c)) (drop (bc_start s c) (bc_msgs s))) \<and>
    unat (lag i s) \<le> capacity \<and> \<not> must_retry capacity s (bc_client s c)"
proof -
  note inv = bc_reach_inv [OF assms(1-3)]
  note got = got_exact [OF inv assms(4)]
  have cur: "unat (bc_cursor s i) = bc_start s c + length (bc_got s c)" using bc_invD(8) [OF inv, of c] assms(4) by (simp add: got_ok_def)
  have "map snd (bc_got s c) = take (length (bc_got s c)) (drop (bc_start s c) (bc_msgs s))"
    if full: "\<forall>(n, _) \<in> set (bc_got s c). BROADCAST_PAYLOAD_BYTES \<le> n"
  proof (rule nth_equalityI)
    fix j assume "j < length (map snd (bc_got s c))"
    then have j: "j < length (bc_got s c)" by simp
    obtain n bs where nb: "bc_got s c ! j = (n, bs)" by (cases "bc_got s c ! j")
    then have "BROADCAST_PAYLOAD_BYTES \<le> n" using full nth_mem [OF j] by auto
    moreover have "length (bc_msgs s ! (bc_start s c + j)) = BROADCAST_PAYLOAD_BYTES" using bc_invD(1) [OF inv] j got(1) by (simp add: head_ok_def)
    ultimately have "bs = bc_msgs s ! (bc_start s c + j)" using got(2) [OF j nb] by simp
    then show "map snd (bc_got s c) ! j = take (length (bc_got s c)) (drop (bc_start s c) (bc_msgs s)) ! j" using j nb got(1) by simp
  qed (use got(1) in simp)
  then show ?thesis using cur got(1) lag_exact [OF inv assms(4)] never_retries [OF inv] by simp
qed

definition delivery_schedule :: "bc_turn list" where
  "delivery_schedule = one_push 0 [5] @ replicate 4 (Client 0 1) @ one_push 1 [7, 8] @ replicate 60 (Client 0 64)"

definition first_client :: "bc_sys \<Rightarrow> bc_client \<times> nat \<times> (nat \<times> bytes) list \<times> nat" where
  "first_client s = (bc_client s 0, bc_start s 0, bc_got s 0, length (bc_msgs s))"

theorem broadcast_delivers_witness:
  "let s = bc_run 2 delivery_schedule in bc_start s 0 = 1 \<and> bc_got s 0 = [(64, padded [7, 8])] \<and> drop 1 (bc_msgs s) = [padded [7, 8]]"
proof -
  let ?s = "bc_run 2 delivery_schedule"
  have "first_client ?s = (Bc_In 0 (Some (Inr (padded [7, 8]))), 1, [(64, padded [7, 8])], 2)" by code_simp
  then have s: "registered (bc_client ?s 0) = Some 0" "bc_start ?s 0 = 1" "bc_got ?s 0 = [(64, padded [7, 8])]" "length (bc_msgs ?s) = 2"
    by (simp_all add: first_client_def)
  have "map snd (bc_got ?s 0) = take (length (bc_got ?s 0)) (drop (bc_start ?s 0) (bc_msgs ?s))"
    using broadcast_delivers [OF bc_run_reach [OF bc_reach.bc_start] _ _ s(1)] s(3,4) by (simp add: BROADCAST_PAYLOAD_BYTES_def)
  then show ?thesis using s by (simp add: Let_def)
qed

text \<open>
  The comment of \<open>try_push\<close> says that it is refused when an active consumer has not yet read a slot that would be
  overwritten. Registering sets the active flag before it stores the cursor: a push in between goes by the cursor the
  index had before, and is refused although the consumer that registers starts after everything published.
\<close>

definition early_schedule :: "bc_turn list" where
  "early_schedule = one_push 0 [1] @ one_push 0 [2] @ replicate 2 (Client 0 1) @ replicate 21 (Push [3]) @ replicate 2 (Client 0 1)"

lemma full_while_registering:
  "let s = bc_run 2 early_schedule in bc_prod s = Bp_Done [3] (Inl BroadcastFull) \<and> bc_client s 0 = Bc_In 0 None \<and>
     map (bc_active s) [0..<MAX_CONSUMERS] = True # replicate 15 False \<and> lag 0 s = 0"
  by code_simp

end
