(* ===== verification/Spec2Isabelle.thy ===== *)
theory Spec2Isabelle
  imports Rlc_Codec Control_Frame Spsc_Ring Ring_Protocol Hash_Map_Refinement Residue_Fec Reliable_Udp_Faults
    Reliable_Udp_Drain Rw_Lock Reorder_Buffer Interleave Btree_Readers Stack_Linearizable Lru_Cache Deque_Linearizable Broadcast_Delivery
begin

text \<open>
  \<^bold>\<open>A verification library for SubEtha.\<close>

  SubEtha is a set of primitives that threads, processes and hosts coordinate through: data structures laid out
  in memory-mapped files, and the transports that carry their contents over a lossy network. This library
  models the core of the crate \<^verbatim>\<open>crates/subetha-cxc\<close>; the paths below are under \<^verbatim>\<open>crates/subetha-cxc/src\<close>.

  \<^bold>\<open>The parts and how they interact.\<close> A payload crosses the network as follows. The reliable layer
  (\<^verbatim>\<open>reliable_udp.rs\<close>) stages items, seals them into blocks, adds the parity of a Reed-Solomon code (\<^verbatim>\<open>fec.rs\<close>), reorders
  the datagrams of several blocks (\<^verbatim>\<open>interleave.rs\<close>), and retransmits what the receiver's feedback reports missing.
  Two other erasure codes serve other transports: a sliding-window random linear code over the same field
  (\<^verbatim>\<open>rlc_fec.rs\<close>) and a residue code (\<^verbatim>\<open>residue_fec.rs\<close>). Control messages travel in frames (\<^verbatim>\<open>control_frame.rs\<close>). On one
  host, rings pass items between threads and processes (\<^verbatim>\<open>shared_ring.rs\<close> for any number of producers and
  consumers, \<^verbatim>\<open>spsc_ring.rs\<close> for one of each), a receiver puts stamped items back in order (\<^verbatim>\<open>reorder.rs\<close>), and a hash
  map (\<^verbatim>\<open>shared_hash_map.rs\<close>), an ordered map (\<^verbatim>\<open>shared_btree_map.rs\<close>), a lock-free stack (\<^verbatim>\<open>shared_treiber_stack.rs\<close>), a
  work-stealing deque (\<^verbatim>\<open>shared_deque.rs\<close>), a broadcast ring (\<^verbatim>\<open>shared_broadcast_ring.rs\<close>) and a
  reader-writer lock (\<^verbatim>\<open>shared_rw_lock.rs\<close>) share state. A cache (\<^verbatim>\<open>shared_lru_cache.rs\<close>) is composed of the hash map and of
  a linked list (\<^verbatim>\<open>shared_linked_list.rs\<close>), whose nodes come from a typed arena (\<^verbatim>\<open>shared_region.rs\<close>).

  \<^bold>\<open>Theories.\<close>
  \<^item> \<^verbatim>\<open>SubEtha_Prelude\<close>: the integer types, collections of simplification rules and the facts on words, bytes and lists
    that several components use. \<^verbatim>\<open>Ordered_Map\<close>: the standard library's ordered map. \<^verbatim>\<open>Call_Sequences\<close>: the contract of a
    component whose every call replies as its specification does, as a locale, and what follows for any sequence of
    calls; the B-tree and the cache interpret it.
  \<^item> \<^verbatim>\<open>Galois\<close> (module \<open>gf\<close> of \<^verbatim>\<open>fec.rs\<close>): the log and exponent tables are built by the code's own loops; the type of bytes is
    an instance of the library's class of fields. \<^verbatim>\<open>Gf_Kernels\<close>: the multiply-add kernels, each instruction set's
    registers as lists of bytes; all backends compute the same function. \<^verbatim>\<open>Reed_Solomon\<close>: \<open>RsCode\<close>, with Gauss-Jordan
    inversion; any \<open>k\<close> of the \<open>k + r\<close> shards give back the block.
  \<^item> \<^verbatim>\<open>Rlc_Codec\<close> (\<^verbatim>\<open>rlc_fec.rs\<close>): encoder, decoder, and a step relation for the network between them. A symbol the decoder
    holds was sent; a determined system is solved.
  \<^item> \<^verbatim>\<open>Residue_Moduli\<close>, \<^verbatim>\<open>Residue_Fec\<close> (\<^verbatim>\<open>residue_fec.rs\<close>): exact Barrett reduction for the table of moduli, the mixed-radix
    conversion, and recovery of packets.
  \<^item> \<^verbatim>\<open>Control_Frame\<close> (\<^verbatim>\<open>control_frame.rs\<close>): what is encoded is decoded, a cut datagram never yields a changed frame.
  \<^item> \<^verbatim>\<open>Reliable_Udp\<close>: \<open>Encoder\<close> and \<open>Decoder\<close> of \<^verbatim>\<open>reliable_udp.rs\<close>, operation by operation, panics as \<open>None\<close>.
    \<^verbatim>\<open>Reliable_Udp_Delivery\<close>: each end alone. \<^verbatim>\<open>Reliable_Udp_Network\<close>: both over a network that loses, repeats, delays and
    reorders, in one session and with the outer code off; the non-empty items are delivered in order and once, and under
    fair feedback all of them. \<^verbatim>\<open>Reliable_Udp_Drain\<close>: the delivery loop ends,
    also with the outer code. \<^verbatim>\<open>Reliable_Udp_Faults\<close>: inputs that make the code panic.
  \<^item> \<^verbatim>\<open>Interleave\<close> (\<^verbatim>\<open>interleave.rs\<close>): where each datagram goes, and the bound on what a burst takes.
  \<^item> \<^verbatim>\<open>Queue_Spec\<close>: the contract of a bounded queue, as a locale, and what a client may conclude over any sequence of
    calls. \<^verbatim>\<open>Shared_Ring\<close>, \<^verbatim>\<open>Spsc_Ring\<close>: the rings, one call at a time, interpret it. \<^verbatim>\<open>Ring_Protocol\<close> and the second half of
    \<^verbatim>\<open>Spsc_Ring\<close>: the same rings with the accesses of concurrent callers interleaved, byte by byte in the payload; the
    former comes back to a queue whenever all are outside, and no call on the latter can be held up.
  \<^item> \<^verbatim>\<open>Shared_Hash_Map\<close>, \<^verbatim>\<open>Hash_Map_Refinement\<close> (\<^verbatim>\<open>shared_hash_map.rs\<close>): open addressing with tombstones, and its refinement of a
    finite map of bounded size.
  \<^item> \<^verbatim>\<open>Shared_Btree_Map\<close> (\<^verbatim>\<open>shared_btree_map.rs\<close>): the B-tree over its array of nodes. \<^verbatim>\<open>Btree_Nodes\<close>: the loops over one
    node. \<^verbatim>\<open>Btree_Trees\<close>: the tree and the free list that the array holds, and what an operation may touch.
    \<^verbatim>\<open>Btree_Insert\<close>, \<^verbatim>\<open>Btree_Remove\<close>, \<^verbatim>\<open>Btree_Delete\<close>, \<^verbatim>\<open>Btree_Read\<close>: splitting, borrowing and merging keep the entries in
    order, and each pass down the tree does what the ordered map does. \<^verbatim>\<open>Btree_Refinement\<close>: the whole map refines the
    ordered map over any sequence of calls, and stays balanced. \<^verbatim>\<open>Btree_Readers\<close>: a lookup, a load at a time, beside a
    writer; the version it checks makes it return what the map held at one moment of the call.
  \<^item> \<^verbatim>\<open>Treiber_Stack\<close>, \<^verbatim>\<open>Stack_Linearizable\<close> (\<^verbatim>\<open>shared_treiber_stack.rs\<close>): the stack and its free list with the accesses of any
    number of callers interleaved; the calls are a run of a stack, and no slot is lost or in two places.
  \<^item> \<^verbatim>\<open>Shared_Deque\<close>, \<^verbatim>\<open>Deque_Linearizable\<close> (\<^verbatim>\<open>shared_deque.rs\<close>): an owner and any number of thieves, interleaved at single accesses
    and single bytes; the calls are a run of a deque, and a thief that wins has the value whole.
  \<^item> \<^verbatim>\<open>Broadcast_Ring\<close>, \<^verbatim>\<open>Broadcast_Delivery\<close> (\<^verbatim>\<open>shared_broadcast_ring.rs\<close>): a producer and clients that register, receive and
    leave, interleaved likewise; each client receives every message from its registration on, whole and once.
  \<^item> \<^verbatim>\<open>Shared_Region\<close> (\<^verbatim>\<open>shared_region.rs\<close>): the arena hands out no slot in use and is full only when all are.
    \<^verbatim>\<open>Linked_List\<close> (\<^verbatim>\<open>shared_linked_list.rs\<close>): the ring of nodes is a list of handles and values, each operation its
    operation on that list, with no access outside the mapping. \<^verbatim>\<open>Lru_Cache\<close> (\<^verbatim>\<open>shared_lru_cache.rs\<close>): map and list stay in
    step, and the cache is an ideal least-recently-used cache.
  \<^item> \<^verbatim>\<open>Rw_Lock\<close> (\<^verbatim>\<open>shared_rw_lock.rs\<close>): the packed word under interleaved compare-and-swap loops; exclusion, exact counts,
    writer priority.
  \<^item> \<^verbatim>\<open>Reorder_Buffer\<close> (\<^verbatim>\<open>reorder.rs\<close>): delivery is the stable sort of the arrivals when none is later than the window.

  \<^bold>\<open>Correspondence.\<close> A struct is a record with the fields of the source, an enum a datatype, a fixed-width integer a
  word of that width. An operation takes the state and returns it updated; \<open>Result\<close> is a sum with the error on the
  left, and \<open>None\<close> in the outer option of a fallible operation is a panic, or a loop that does not return. Where
  callers run concurrently, an inductive step relation has one rule per atomic access of the code, and ghost fields
  record what was pushed, claimed or returned. Memory is sequentially consistent throughout: the orderings of the
  atomics are not modelled.

  \<^bold>\<open>Bounds and fuel.\<close> Retry loops of a single caller take the number of spurious failures as an argument. The delivery
  loop of the reliable layer has fuel for every block held or described by a segment, and the theorem of
  \<^verbatim>\<open>Reliable_Udp_Drain\<close> shows it is enough. A descent of the B-tree has fuel for every node of the array; a balanced tree is
  less deep than that, and less deep than the code's own budget for a range walk. The snapshots of the linked list are
  partial functions with no fuel, shown to return on every list. Counters of 32 and 64 bits wrap in the model; the
  theorems that need them not to wrap say so: the 32-bit tag of the stack's heads may not come around within one call
  (\<open>timely\<close>), and the 64-bit version of the B-tree not at all. An arena has fewer than \<open>2 ^ 31\<close> slots, which its free list
  can count. The sizes of mapped files are computed on unbounded numbers: capacities from \<open>2 ^ 58\<close> on, whose size in bytes
  does not fit a machine word, are outside the model.

  \<^bold>\<open>Not modelled.\<close> Creating, mapping and flushing files, sockets, threads, parking and waking, and time: these are calls
  into the operating system, and where a modelled operation uses their result it is an argument. The estimators and
  controllers of the transport (\<^verbatim>\<open>bbr.rs\<close>, \<^verbatim>\<open>link_sensor.rs\<close>, \<^verbatim>\<open>sens_rlc.rs\<close>, \<^verbatim>\<open>sens_unified.rs\<close> and their kin) work in floating point,
  for which the libraries here have no model. The orderings of atomics weaker than sequential consistency are left out, as is the
  observation ring each structure reports to. The crates \<^verbatim>\<open>subetha-ffi\<close>, \<^verbatim>\<open>subetha-py\<close>, \<^verbatim>\<open>subetha-pwrs\<close> bind the same
  structures to other languages; \<^verbatim>\<open>subetha-spec-c\<close>, \<^verbatim>\<open>subetha-e2e\<close>, \<^verbatim>\<open>subetha-ffi-tests\<close> test them.
  The structures of the same crate that are not modelled yet (the other deques, the capacity-changing rings, the slab, the graph, the
  sketches and the versioned maps among them) are of the kinds above, and the byte-addressed variants \<^verbatim>\<open>raw_*.rs\<close> repeat the
  typed ones over offsets.
\<close>

end
